(* ===== verification/Messages.thy ===== *)
theory Messages imports Prelude begin

text \<open>
  The wire message shapes and their helpers: \<^verbatim>\<open>kosong/contract/message.ts\<close>,
  \<^verbatim>\<open>kosong/contract/tokens.ts\<close>, the \<open>ContextMessage\<close> extension of
  \<^verbatim>\<open>agent/contextMemory/types.ts\<close>, and the rendering of tool results for the model
  (\<^verbatim>\<open>toolResultRender.ts\<close>, \<^verbatim>\<open>vacuousContent.ts\<close>).

  Optional fields are \<^typ>\<open>'a option\<close>; the flags the code only ever compares with \<open>true\<close>
  (\<open>partial\<close>, \<open>isError\<close>) are booleans, with an absent flag as \<^term>\<open>False\<close>.
\<close>

section \<open>Message shapes\<close>

datatype role = RSystem | RUser | RAssistant | RTool

datatype content_part =
    TextPart string
  | ThinkPart (think: string) (encrypted: "string option")
  | ImagePart string "string option"
  | AudioPart string "string option"
  | VideoPart string "string option"

record tool_call =
  tc_id :: string
  tc_name :: string
  tc_arguments :: "string option"
  tc_extras :: "json option"
  tc_streamIndex :: "json option"

record tool_call_part =
  tcp_argumentsPart :: "string option"
  tcp_index :: "json option"

datatype streamed_part = SContent content_part | SCall tool_call | SCallPart tool_call_part

record tool =
  t_name :: string
  t_description :: string
  t_parameters :: json
  t_deferred :: bool

record message =
  m_role :: role
  m_name :: "string option"
  m_content :: "content_part list"
  m_toolCalls :: "tool_call list"
  m_toolCallId :: "string option"
  m_partial :: bool
  m_tools :: "tool list option"

text \<open>\<open>ContextMessage\<close>: a message with the provenance the context memory keeps.\<close>

datatype trigger = UserSlash | ModelTool | NestedSkill

datatype skill_source = SkProject | SkUser | SkExtra | SkBuiltin

datatype shell_phase = ShInput | ShOutput

record disclosure =
  di_renderGeneration :: nat
  di_localDate :: string
  di_timeZone :: string

datatype origin =
    UserOrigin
  | SkillActivation (sk_activationId: string) (sk_name: string) (sk_args: "string option")
      (sk_trigger: trigger) (sk_type: "string option") (sk_path: "string option")
      (sk_source: "skill_source option")
  | PluginCommand (pc_activationId: string) (pc_pluginId: string) (pc_name: string)
      (pc_args: "string option") (pc_trigger: trigger)
  | Injection (in_variant: string) (in_owner: "string option") (in_disclosure: "disclosure option")
  | ShellCommand shell_phase bool
  | CompactionSummary
  | SystemTrigger string
  | TaskOrigin string string string
  | CronJob string string bool nat bool
  | CronMissed nat
  | HookResult string "bool option"
  | RetryOrigin "string option"

record ctx_message = message +
  c_id :: "string option"
  c_providerMessageId :: "string option"
  c_origin :: "origin option"
  c_isError :: bool
  c_note :: "string option"

section \<open>Helpers\<close>

definition isContentPart :: "streamed_part \<Rightarrow> bool" where
  "isContentPart p = (case p of SContent _ \<Rightarrow> True | _ \<Rightarrow> False)"

definition isToolDeclarationOnlyMessage :: "'a message_scheme \<Rightarrow> bool" where
  "isToolDeclarationOnlyMessage m \<longleftrightarrow>
     (case m_tools m of None \<Rightarrow> False | Some ts \<Rightarrow> ts \<noteq> []) \<and> m_content m = [] \<and> m_toolCalls m = []"

definition isToolCall :: "streamed_part \<Rightarrow> bool" where
  "isToolCall p = (case p of SCall _ \<Rightarrow> True | _ \<Rightarrow> False)"

definition isToolCallPart :: "streamed_part \<Rightarrow> bool" where
  "isToolCallPart p = (case p of SCallPart _ \<Rightarrow> True | _ \<Rightarrow> False)"

text \<open>
  \<open>mergeInPlace(target, source)\<close> answers whether the source was folded into the target; the model
  returns the mutated target for \<open>true\<close> and \<^term>\<open>None\<close> for \<open>false\<close> (the target is then unchanged).
\<close>

fun mergeInPlace :: "streamed_part \<Rightarrow> streamed_part \<Rightarrow> streamed_part option" where
  "mergeInPlace (SContent (TextPart t)) (SContent (TextPart s)) = Some (SContent (TextPart (t @ s)))"
| "mergeInPlace (SContent (ThinkPart t e)) (SContent (ThinkPart s e')) =
     (if e \<noteq> None then None
      else Some (SContent (ThinkPart (t @ s) (if e' \<noteq> None then e' else e))))"
| "mergeInPlace (SCall c) (SCallPart p) =
     Some (SCall (case tcp_argumentsPart p of
       None \<Rightarrow> c
     | Some a \<Rightarrow> c\<lparr>tc_arguments := (case tc_arguments c of None \<Rightarrow> Some a | Some b \<Rightarrow> Some (b @ a))\<rparr>))"
| "mergeInPlace _ _ = None"

fun part_text :: "content_part \<Rightarrow> string option" where
  "part_text (TextPart t) = Some t"
| "part_text _ = None"

definition extractText :: "'a message_scheme \<Rightarrow> string \<Rightarrow> string" where
  "extractText m sep = js_join sep (List.map_filter part_text (m_content m))"

definition getTextContent :: "'a message_scheme \<Rightarrow> string" where
  "getTextContent m = extractText m []"

definition createUserMessage :: "string \<Rightarrow> message" where
  "createUserMessage t = \<lparr>m_role = RUser, m_name = None, m_content = [TextPart t], m_toolCalls = [],
     m_toolCallId = None, m_partial = False, m_tools = None\<rparr>"

definition createAssistantMessage :: "content_part list \<Rightarrow> tool_call list option \<Rightarrow> message" where
  "createAssistantMessage ps cs = \<lparr>m_role = RAssistant, m_name = None, m_content = ps,
     m_toolCalls = (case cs of None \<Rightarrow> [] | Some xs \<Rightarrow> xs), m_toolCallId = None, m_partial = False,
     m_tools = None\<rparr>"

text \<open>The output of a tool: a plain string or a list of content parts.\<close>

datatype tool_output = OutStr string | OutParts "content_part list"

definition createToolMessage :: "string \<Rightarrow> tool_output \<Rightarrow> message" where
  "createToolMessage cid out = \<lparr>m_role = RTool, m_name = None,
     m_content = (case out of OutStr s \<Rightarrow> [TextPart s] | OutParts ps \<Rightarrow> ps),
     m_toolCalls = [], m_toolCallId = Some cid, m_partial = False, m_tools = None\<rparr>"

text \<open>A wire message as a context message whose own fields are absent (\<open>{...message}\<close>).\<close>

definition as_ctx :: "message \<Rightarrow> ctx_message" where
  "as_ctx m = message.extend m
     \<lparr>c_id = None, c_providerMessageId = None, c_origin = None, c_isError = False, c_note = None\<rparr>"

lemma as_ctx_sel [simp]:
  "m_role (as_ctx m) = m_role m" "m_content (as_ctx m) = m_content m"
  "m_toolCalls (as_ctx m) = m_toolCalls m" "m_toolCallId (as_ctx m) = m_toolCallId m"
  "m_partial (as_ctx m) = m_partial m" "c_origin (as_ctx m) = None"
  by (simp_all add: as_ctx_def message.defs)

section \<open>Token estimates\<close>

definition is_ascii :: "char \<Rightarrow> bool" where
  "is_ascii c \<longleftrightarrow> (of_char c :: nat) \<le> 127"

definition ascii_tokens :: "nat \<Rightarrow> nat \<Rightarrow> nat" where
  "ascii_tokens a n = (a + 3) div 4 + n"  \<comment> \<open>\<open>Math.ceil(a / 4) + n\<close>\<close>

definition estimateTokens :: "string \<Rightarrow> nat" where
  "estimateTokens s = ascii_tokens (length (filter is_ascii s)) (length (filter (\<lambda>c. \<not> is_ascii c) s))"

definition MEDIA_TOKEN_ESTIMATE :: nat where
  "MEDIA_TOKEN_ESTIMATE = 2000"

fun estimateTokensForContentPart :: "content_part \<Rightarrow> nat" where
  "estimateTokensForContentPart (TextPart t) = estimateTokens t"
| "estimateTokensForContentPart (ThinkPart t _) = estimateTokens t"
| "estimateTokensForContentPart _ = MEDIA_TOKEN_ESTIMATE"

definition estimateTokensForContentParts :: "content_part list \<Rightarrow> nat" where
  "estimateTokensForContentParts ps = sum_list (map estimateTokensForContentPart ps)"

fun role_string :: "role \<Rightarrow> string" where
  "role_string RSystem = ''system''"
| "role_string RUser = ''user''"
| "role_string RAssistant = ''assistant''"
| "role_string RTool = ''tool''"

definition json_of_arguments :: "string option \<Rightarrow> string" where
  "json_of_arguments a = (case a of None \<Rightarrow> ''null'' | Some s \<Rightarrow> json_string s)"

definition estimateTokensForMessage :: "'a message_scheme \<Rightarrow> nat" where
  "estimateTokensForMessage m =
     estimateTokens (role_string (m_role m)) + estimateTokensForContentParts (m_content m) +
     sum_list (map (\<lambda>c. estimateTokens (tc_name c) + estimateTokens (json_of_arguments (tc_arguments c)))
       (m_toolCalls m))"

definition estimateTokensForMessages :: "'a message_scheme list \<Rightarrow> nat" where
  "estimateTokensForMessages ms = sum_list (map estimateTokensForMessage ms)"

definition estimateTokensForTools :: "tool list \<Rightarrow> nat" where
  "estimateTokensForTools ts = sum_list (map (\<lambda>t. estimateTokens (t_name t) +
     estimateTokens (t_description t) + estimateTokens (json_stringify (t_parameters t))) ts)"

lemma estimateTokens_Nil [simp]: "estimateTokens [] = 0"
  by (simp add: estimateTokens_def ascii_tokens_def)

lemma ascii_tokens_mono: "a \<le> a' \<Longrightarrow> n \<le> n' \<Longrightarrow> ascii_tokens a n \<le> ascii_tokens a' n'"
  by (simp add: ascii_tokens_def div_le_mono add_mono)

text \<open>Truncating a text never raises its estimate, and splitting one loses at most one token.\<close>

lemma estimateTokens_append_ge: "estimateTokens s \<le> estimateTokens (s @ t)"
  by (simp add: estimateTokens_def ascii_tokens_mono)

lemma estimateTokens_append_le:
  "estimateTokens (s @ t) \<le> estimateTokens s + estimateTokens t"
  by (simp add: estimateTokens_def ascii_tokens_def)

lemma estimateTokensForMessage_pos: "0 < estimateTokensForMessage m"
proof -
  have "0 < estimateTokens (role_string (m_role m))"
    by (cases "m_role m") (simp_all add: estimateTokens_def ascii_tokens_def is_ascii_def)
  then show ?thesis by (simp add: estimateTokensForMessage_def)
qed

section \<open>Rendering tool results\<close>

definition TOOL_ERROR_STATUS :: string where
  "TOOL_ERROR_STATUS = ''<system>ERROR: Tool execution failed.</system>''"

definition TOOL_EMPTY_STATUS :: string where
  "TOOL_EMPTY_STATUS = ''<system>Tool output is empty.</system>''"

definition TOOL_EMPTY_ERROR_STATUS :: string where
  "TOOL_EMPTY_ERROR_STATUS = ''<system>ERROR: Tool execution failed. Tool output is empty.</system>''"

definition TOOL_OUTPUT_EMPTY_TEXT :: string where
  "TOOL_OUTPUT_EMPTY_TEXT = ''Tool output is empty.''"

record renderable =
  r_output :: tool_output
  r_note :: "string option"
  r_isError :: bool

definition newline :: string where
  "newline = [char_of (10 :: nat)]"

fun singleTextPart :: "content_part list \<Rightarrow> string option" where
  "singleTextPart [TextPart t] = Some t"
| "singleTextPart _ = None"

definition isEmptyOutputText :: "string \<Rightarrow> bool" where
  "isEmptyOutputText s \<longleftrightarrow> js_trim s = [] \<or> js_trim s = TOOL_OUTPUT_EMPTY_TEXT"

definition isBlankText :: "content_part \<Rightarrow> bool" where
  "isBlankText p = (case p of TextPart t \<Rightarrow> js_blank t | _ \<Rightarrow> False)"

definition isEmptyEquivalentContentArray :: "content_part list \<Rightarrow> bool" where
  "isEmptyEquivalentContentArray ps \<longleftrightarrow> (\<forall>p \<in> set ps. isBlankText p)"

definition output_single :: "tool_output \<Rightarrow> string option" where
  "output_single out = (case out of OutStr s \<Rightarrow> Some s | OutParts ps \<Rightarrow> singleTextPart ps)"

definition output_parts :: "tool_output \<Rightarrow> content_part list" where
  "output_parts out = (case out of OutStr s \<Rightarrow> [] | OutParts ps \<Rightarrow> ps)"

definition renderStatus :: "renderable \<Rightarrow> content_part list" where
  "renderStatus r =
     (case output_single (r_output r) of
        Some s \<Rightarrow>
          if r_isError r then
            (if s = [] then [TextPart TOOL_EMPTY_ERROR_STATUS]
             else [TextPart (TOOL_ERROR_STATUS @ newline @ s)])
          else if isEmptyOutputText s then [TextPart TOOL_EMPTY_STATUS] else [TextPart s]
      | None \<Rightarrow>
          (let parts = output_parts (r_output r) in
           if isEmptyEquivalentContentArray parts then
             [TextPart (if r_isError r then TOOL_EMPTY_ERROR_STATUS else TOOL_EMPTY_STATUS)]
           else if r_isError r then TextPart TOOL_ERROR_STATUS # parts
           else parts))"

definition renderToolResultForModel :: "renderable \<Rightarrow> content_part list" where
  "renderToolResultForModel r =
     (let rendered = renderStatus r in
      case r_note r of
        None \<Rightarrow> rendered
      | Some note \<Rightarrow>
          if note = [] then rendered
          else (case singleTextPart rendered of
                  Some t \<Rightarrow> [TextPart (t @ newline @ note)]
                | None \<Rightarrow> rendered @ [TextPart note]))"

fun isVacuousContentPart :: "content_part \<Rightarrow> bool" where
  "isVacuousContentPart (TextPart t) = js_blank t"
| "isVacuousContentPart (ThinkPart t e) = (e = None \<and> js_blank t)"
| "isVacuousContentPart _ = False"

lemma status_not_blank [simp]:
  "\<not> js_blank TOOL_ERROR_STATUS" "\<not> js_blank TOOL_EMPTY_STATUS" "\<not> js_blank TOOL_EMPTY_ERROR_STATUS"
  by (simp_all add: js_blank_iff js_space_def TOOL_ERROR_STATUS_def TOOL_EMPTY_STATUS_def
      TOOL_EMPTY_ERROR_STATUS_def)

lemma singleTextPart_Some [simp]: "singleTextPart ps = Some t \<longleftrightarrow> ps = [TextPart t]"
  by (induction ps rule: singleTextPart.induct) auto

lemma isBlankText_TextPart [simp]: "isBlankText (TextPart t) = js_blank t"
  by (simp add: isBlankText_def)

text \<open>
  Whatever the tool returned, the rendered result keeps a part that is not blank text, so removing
  the blank parts never leaves a tool message empty.
\<close>

lemma renderStatus_nonblank: "\<exists>p \<in> set (renderStatus r). \<not> isBlankText p"
proof (cases "output_single (r_output r)")
  case (Some s)
  then show ?thesis
    by (auto simp: renderStatus_def isEmptyOutputText_def simp flip: js_blank_def)
next
  case None
  then show ?thesis
    by (auto simp: renderStatus_def Let_def isEmptyEquivalentContentArray_def)
qed

lemma renderToolResultForModel_nonblank:
  "\<exists>p \<in> set (renderToolResultForModel r). \<not> isBlankText p"
proof (cases "r_note r")
  case None
  then show ?thesis by (simp add: renderToolResultForModel_def Let_def renderStatus_nonblank)
next
  case nt: (Some nt)
  show ?thesis
  proof (cases "singleTextPart (renderStatus r)")
    case None
    with nt show ?thesis
      using renderStatus_nonblank [of r] by (auto simp: renderToolResultForModel_def Let_def)
  next
    case (Some t)
    then have "\<not> js_blank t" using renderStatus_nonblank [of r] by simp
    with nt Some show ?thesis
      using renderStatus_nonblank [of r] by (auto simp: renderToolResultForModel_def Let_def)
  qed
qed

end
