(* ===== verification/Compaction.thy ===== *)
theory Compaction imports Messages begin

text \<open>
  The shape of a compacted conversation: \<^verbatim>\<open>agent/contextMemory/compactionHandoff.ts\<close>. The user
  messages that are kept (a head and a tail under token budgets, the texts at the two cut points
  truncated), the elision note between them, and the compaction summary behind them.

  Token estimates are the injectable \<open>TokenEstimate\<close> of the code, a record of functions; the locale
  \<open>message_estimate\<close> states what the selection needs of one, and the heuristics of
  \<^verbatim>\<open>kosong/contract/tokens.ts\<close> satisfy it. The constant \<open>COMPACTION_SUMMARY_PREFIX\<close> comes from a
  Markdown file imported by the build and is a parameter. The code's loops step over surrogate pairs
  as one character; the model's characters are below 256, where every code unit is a character.
\<close>

section \<open>Budgets and estimates\<close>

definition COMPACT_USER_MESSAGE_MAX_TOKENS :: nat where
  "COMPACT_USER_MESSAGE_MAX_TOKENS = 20000"

definition COMPACT_USER_MESSAGE_HEAD_TOKENS :: nat where
  "COMPACT_USER_MESSAGE_HEAD_TOKENS = 2000"

definition COMPACTION_ELISION_VARIANT :: string where
  "COMPACTION_ELISION_VARIANT = ''compaction_elision''"

record token_estimate =
  est_text :: "string \<Rightarrow> nat"
  est_message :: "ctx_message \<Rightarrow> nat"
  est_messages :: "ctx_message list \<Rightarrow> nat"

definition defaultTokenEstimate :: token_estimate where
  "defaultTokenEstimate =
     \<lparr>est_text = estimateTokens, est_message = estimateTokensForMessage,
      est_messages = estimateTokensForMessages\<rparr>"

section \<open>Which messages are user input\<close>

fun compactionUserMessageDisposition :: "origin option \<Rightarrow> bool" where  \<comment> \<open>\<open>True\<close> is \<open>'keep'\<close>\<close>
  "compactionUserMessageDisposition None = True"
| "compactionUserMessageDisposition (Some UserOrigin) = True"
| "compactionUserMessageDisposition (Some (SkillActivation _ _ _ t _ _ _)) = (t = UserSlash)"
| "compactionUserMessageDisposition (Some (PluginCommand _ _ _ _ t)) = (t = UserSlash)"
| "compactionUserMessageDisposition (Some _) = False"

definition isCompactionSummaryMessage :: "ctx_message \<Rightarrow> bool" where
  "isCompactionSummaryMessage m \<longleftrightarrow> c_origin m = Some CompactionSummary"

definition isRealUserInput :: "ctx_message \<Rightarrow> bool" where
  "isRealUserInput m \<longleftrightarrow> m_role m = RUser \<and> compactionUserMessageDisposition (c_origin m)"

definition collectCompactableUserMessages :: "ctx_message list \<Rightarrow> ctx_message list" where
  "collectCompactableUserMessages ms =
     filter (\<lambda>m. isRealUserInput m \<and> \<not> isCompactionSummaryMessage m) ms"

section \<open>Truncating texts\<close>

definition content_text :: "content_part list \<Rightarrow> string" where
  "content_text ps = concat (List.map_filter part_text ps)"

text \<open>How many characters fit: the loop that counts characters until the estimate passes the budget.\<close>

fun fitting_chars :: "nat \<Rightarrow> nat \<Rightarrow> nat \<Rightarrow> string \<Rightarrow> nat" where
  "fitting_chars maxTokens a n [] = 0"
| "fitting_chars maxTokens a n (c # cs) =
     (let a' = (if is_ascii c then a + 1 else a); n' = (if is_ascii c then n else n + 1) in
      if maxTokens < ascii_tokens a' n' then 0 else 1 + fitting_chars maxTokens a' n' cs)"

definition truncateTextToTokens :: "string \<Rightarrow> nat \<Rightarrow> string" where
  "truncateTextToTokens s maxTokens =
     (if maxTokens = 0 then [] else take (fitting_chars maxTokens 0 0 s) s)"

definition truncateTextToTokensFromEnd :: "string \<Rightarrow> nat \<Rightarrow> string" where
  "truncateTextToTokensFromEnd s maxTokens =
     (if maxTokens = 0 then [] else drop (length s - fitting_chars maxTokens 0 0 (rev s)) s)"

definition replaceMessageText :: "ctx_message \<Rightarrow> string \<Rightarrow> ctx_message" where
  "replaceMessageText m t = m\<lparr>m_content := [TextPart t], m_toolCalls := []\<rparr>"

definition truncateUserMessage :: "ctx_message \<Rightarrow> nat \<Rightarrow> ctx_message" where
  "truncateUserMessage m maxTokens =
     replaceMessageText m (truncateTextToTokens (content_text (m_content m)) maxTokens)"

section \<open>Selecting the user messages to keep\<close>

record user_selection =
  sel_head :: "ctx_message list"
  sel_tail :: "ctx_message list"
  sel_elided :: bool
  sel_omittedTokens :: nat

text \<open>The loops run over the messages from the last to the first, here a reversed list.\<close>

fun select_recent :: "(ctx_message \<Rightarrow> nat) \<Rightarrow> ctx_message list \<Rightarrow> nat \<Rightarrow> ctx_message list \<Rightarrow> ctx_message list" where
  "select_recent est [] remaining selected = selected"
| "select_recent est (m # rest) remaining selected =
     (if remaining = 0 then selected
      else if est m \<le> remaining then select_recent est rest (remaining - est m) (m # selected)
      else truncateUserMessage m remaining # selected)"

definition selectRecentUserMessages ::
  "ctx_message list \<Rightarrow> nat \<Rightarrow> (ctx_message \<Rightarrow> nat) \<Rightarrow> ctx_message list" where
  "selectRecentUserMessages ms maxTokens est = select_recent est (rev ms) maxTokens []"

text \<open>
  The tail loop. It returns the tail, the index up to which messages remain for the head, and the
  prefix dropped from the text at the boundary, as a message.
\<close>

fun select_tail :: "(ctx_message \<Rightarrow> nat) \<Rightarrow> ctx_message list \<Rightarrow> nat \<Rightarrow> nat \<Rightarrow> ctx_message list \<Rightarrow>
    ctx_message list \<times> nat \<times> ctx_message option" where
  "select_tail est [] tailRemaining headEnd tail = (tail, headEnd, None)"
| "select_tail est (m # rest) tailRemaining headEnd tail =
     (if tailRemaining = 0 then (tail, headEnd, None)
      else if est m \<le> tailRemaining
        then select_tail est rest (tailRemaining - est m) (length rest) (m # tail)
      else
        let fullText = content_text (m_content m);
            keptSuffix = truncateTextToTokensFromEnd fullText tailRemaining;
            droppedPrefix = take (length fullText - length keptSuffix) fullText
        in (replaceMessageText m keptSuffix # tail, length rest,
            if droppedPrefix \<noteq> [] then Some (replaceMessageText m droppedPrefix) else None))"

fun select_head :: "(ctx_message \<Rightarrow> nat) \<Rightarrow> ctx_message list \<Rightarrow> nat \<Rightarrow> ctx_message list \<Rightarrow> ctx_message list" where
  "select_head est [] headRemaining head = head"
| "select_head est (m # rest) headRemaining head =
     (if headRemaining = 0 then head
      else if est m \<le> headRemaining
        then select_head est rest (headRemaining - est m) (head @ [m])
      else head @ [truncateUserMessage m headRemaining])"

definition total_tokens :: "(ctx_message \<Rightarrow> nat) \<Rightarrow> ctx_message list \<Rightarrow> nat" where
  "total_tokens est ms = sum_list (map est ms)"

definition selectCompactionUserMessages ::
  "ctx_message list \<Rightarrow> nat \<Rightarrow> nat \<Rightarrow> (ctx_message \<Rightarrow> nat) \<Rightarrow> user_selection" where
  "selectCompactionUserMessages ms maxTokens headTokens est =
     (if total_tokens est ms \<le> maxTokens
      then \<lparr>sel_head = [], sel_tail = ms, sel_elided = False, sel_omittedTokens = 0\<rparr>
      else
        let headBudget = min headTokens maxTokens;
            tailBudget = maxTokens - headBudget
        in case select_tail est (rev ms) tailBudget (length ms) [] of (tail, headEnd, dropped) \<Rightarrow>
          let candidates = take headEnd ms @ (case dropped of None \<Rightarrow> [] | Some m \<Rightarrow> [m]);
              head = select_head est candidates headBudget []
          in \<lparr>sel_head = head, sel_tail = tail, sel_elided = True,
              sel_omittedTokens = total_tokens est ms - (total_tokens est head + total_tokens est tail)\<rparr>)"

section \<open>The compacted shape\<close>

record compaction_input =
  ci_summary :: string
  ci_legacySummaryMessage :: "ctx_message option"
  ci_contextSummary :: "string option"
  ci_compactedCount :: int
  ci_tokensBefore :: int
  ci_tokensAfter :: "int option"
  ci_summaryOutputTokens :: "int option"
  ci_requestOverheadTokens :: "int option"
  ci_keptUserMessageCount :: "int option"
  ci_keptHeadUserMessageCount :: "int option"
  ci_droppedCount :: "int option"
  ci_legacyTail :: bool

record compaction_shape =
  cs_summary :: string
  cs_contextSummary :: string
  cs_compactedCount :: int
  cs_tokensBefore :: int
  cs_tokensAfter :: int
  cs_keptUserMessageCount :: int
  cs_keptHeadUserMessageCount :: "int option"
  cs_droppedCount :: "int option"
  cs_messages :: "ctx_message list"

definition usesLegacyTailShape :: "compaction_input \<Rightarrow> bool" where
  "usesLegacyTailShape i = ci_legacyTail i"

definition buildCompactionSummaryText :: "string \<Rightarrow> string \<Rightarrow> string" where
  "buildCompactionSummaryText summaryPrefix summary =
     summaryPrefix @ newline @ (if js_trim summary \<noteq> [] then js_trim summary else ''(no summary available)'')"

definition createCompactionSummaryMessage :: "string \<Rightarrow> ctx_message" where
  "createCompactionSummaryMessage t = (as_ctx (createUserMessage t))\<lparr>c_origin := Some CompactionSummary\<rparr>"

definition buildCompactionElisionText :: "nat \<Rightarrow> string" where
  "buildCompactionElisionText omitted = js_join newline
     [''<system-reminder>'',
      ''Some of this conversation'' @ [char_of (39 :: nat)] @ ''s user messages were omitted here during compaction: the messages above this note are the oldest user input, the messages below are the most recent, and roughly '' @
        show_nat omitted @
        '' tokens in between were dropped. The omitted content is covered by the compaction summary at the end of the conversation.'',
      ''</system-reminder>'']"

definition createCompactionElisionMessage :: "nat \<Rightarrow> ctx_message" where
  "createCompactionElisionMessage omitted =
     (as_ctx (createUserMessage (buildCompactionElisionText omitted)))
       \<lparr>c_origin := Some (Injection COMPACTION_ELISION_VARIANT None None)\<rparr>"

definition or_default :: "'a option \<Rightarrow> 'a \<Rightarrow> 'a" where  \<comment> \<open>\<open>a ?? b\<close>\<close>
  "or_default a b = (case a of None \<Rightarrow> b | Some x \<Rightarrow> x)"

text \<open>\<open>xs.slice(k)\<close>: a negative \<open>k\<close> counts from the end.\<close>

definition js_slice_from :: "int \<Rightarrow> 'a list \<Rightarrow> 'a list" where
  "js_slice_from k xs = drop (nat (if k < 0 then max 0 (int (length xs) + k) else k)) xs"

definition legacy_shape ::
  "ctx_message list \<Rightarrow> compaction_input \<Rightarrow> token_estimate \<Rightarrow> compaction_shape" where
  "legacy_shape history i est =
     (let contextSummary = or_default (ci_contextSummary i) (ci_summary i);
          messages = or_default (ci_legacySummaryMessage i) (createCompactionSummaryMessage contextSummary)
            # js_slice_from (ci_compactedCount i) history
      in \<lparr>cs_summary = ci_summary i, cs_contextSummary = contextSummary,
          cs_compactedCount = ci_compactedCount i, cs_tokensBefore = ci_tokensBefore i,
          cs_tokensAfter = or_default (ci_tokensAfter i) (int (est_messages est messages)),
          cs_keptUserMessageCount = 0, cs_keptHeadUserMessageCount = None,
          cs_droppedCount = ci_droppedCount i, cs_messages = messages\<rparr>)"

definition kept_messages :: "user_selection \<Rightarrow> ctx_message list" where
  "kept_messages sel = sel_head sel @
     (if sel_elided sel then [createCompactionElisionMessage (sel_omittedTokens sel)] else []) @
     sel_tail sel"

definition handoff_selection :: "ctx_message list \<Rightarrow> token_estimate \<Rightarrow> user_selection" where
  "handoff_selection history est =
     selectCompactionUserMessages (collectCompactableUserMessages history)
       COMPACT_USER_MESSAGE_MAX_TOKENS COMPACT_USER_MESSAGE_HEAD_TOKENS (est_message est)"

definition buildContextCompactionShape ::
  "ctx_message list \<Rightarrow> compaction_input \<Rightarrow> token_estimate \<Rightarrow> compaction_shape" where
  "buildContextCompactionShape history i est =
     (if usesLegacyTailShape i then legacy_shape history i est
      else
        let selection = handoff_selection history est;
            keptMessages = kept_messages selection;
            contextSummary = or_default (ci_contextSummary i) (ci_summary i)
        in \<lparr>cs_summary = ci_summary i, cs_contextSummary = contextSummary,
            cs_compactedCount = ci_compactedCount i, cs_tokensBefore = ci_tokensBefore i,
            cs_tokensAfter = or_default (ci_tokensAfter i)
              (or_default (ci_requestOverheadTokens i) 0 +
               or_default (ci_summaryOutputTokens i) (int (est_text est contextSummary)) +
               int (est_messages est keptMessages)),
            cs_keptUserMessageCount = or_default (ci_keptUserMessageCount i)
              (int (length (sel_head selection) + length (sel_tail selection))),
            cs_keptHeadUserMessageCount =
              (case ci_keptHeadUserMessageCount i of
                 Some k \<Rightarrow> Some k
               | None \<Rightarrow> if sel_elided selection then Some (int (length (sel_head selection))) else None),
            cs_droppedCount = ci_droppedCount i,
            cs_messages = keptMessages @ [createCompactionSummaryMessage contextSummary]\<rparr>)"

section \<open>Truncation keeps within the budget\<close>

lemma fitting_chars_le: "fitting_chars mx a n s \<le> length s"
  by (induction s arbitrary: a n) (auto simp: Let_def)

lemma fitting_chars_budget:
  "ascii_tokens a n \<le> mx \<Longrightarrow>
     ascii_tokens (a + length (filter is_ascii (take (fitting_chars mx a n s) s)))
       (n + length (filter (\<lambda>c. \<not> is_ascii c) (take (fitting_chars mx a n s) s))) \<le> mx"
proof (induction s arbitrary: a n)
  case Nil
  then show ?case by simp
next
  case (Cons c s)
  then show ?case
    using Cons.IH [of "Suc a" n] Cons.IH [of a "Suc n"] by (auto simp: Let_def not_less)
qed

lemma estimateTokens_fitting:
  "estimateTokens (take (fitting_chars mx 0 0 s) s) \<le> mx"
  using fitting_chars_budget [of 0 0 mx s] by (simp add: estimateTokens_def ascii_tokens_def)

lemma estimateTokens_rev: "estimateTokens (rev s) = estimateTokens s"
  by (simp add: estimateTokens_def rev_filter [symmetric])

lemma truncateTextToTokens_le: "estimateTokens (truncateTextToTokens s mx) \<le> mx"
  by (simp add: truncateTextToTokens_def estimateTokens_fitting)

lemma truncateTextToTokensFromEnd_rev:
  "truncateTextToTokensFromEnd s mx = rev (truncateTextToTokens (rev s) mx)"
  by (simp add: truncateTextToTokensFromEnd_def truncateTextToTokens_def take_rev)

lemma truncateTextToTokensFromEnd_le: "estimateTokens (truncateTextToTokensFromEnd s mx) \<le> mx"
  by (simp add: truncateTextToTokensFromEnd_rev estimateTokens_rev truncateTextToTokens_le)

lemma truncateTextToTokens_prefix:
  "\<exists>r. s = truncateTextToTokens s mx @ r"
  unfolding truncateTextToTokens_def by (metis append_Nil append_take_drop_id)

lemma truncateTextToTokensFromEnd_suffix:
  "take (length s - length (truncateTextToTokensFromEnd s mx)) s @ truncateTextToTokensFromEnd s mx = s"
proof -
  have "length (truncateTextToTokensFromEnd s mx) \<le> length s"
    by (simp add: truncateTextToTokensFromEnd_def)
  moreover have "truncateTextToTokensFromEnd s mx =
      drop (length s - length (truncateTextToTokensFromEnd s mx)) s"
    using fitting_chars_le [of mx 0 0 "rev s"] by (simp add: truncateTextToTokensFromEnd_def)
  ultimately show ?thesis by (metis append_take_drop_id)
qed

lemma fitting_chars_maximal:
  "fitting_chars mx a n s < length s \<Longrightarrow>
     mx < ascii_tokens (a + length (filter is_ascii (take (Suc (fitting_chars mx a n s)) s)))
       (n + length (filter (\<lambda>c. \<not> is_ascii c) (take (Suc (fitting_chars mx a n s)) s)))"
proof (induction s arbitrary: a n)
  case Nil
  then show ?case by simp
next
  case (Cons c s)
  then show ?case
    using Cons.IH [of "Suc a" n] Cons.IH [of a "Suc n"] by (auto simp: Let_def not_less split: if_splits)
qed

text \<open>The truncated text is the longest prefix within the budget.\<close>

lemma truncateTextToTokens_longest:
  assumes "0 < mx" and "length (truncateTextToTokens s mx) < k" and "k \<le> length s"
  shows "mx < estimateTokens (take k s)"
proof -
  let ?f = "fitting_chars mx 0 0 s"
  from assms have f: "?f < length s" and k: "Suc ?f \<le> k"
    using fitting_chars_le [of mx 0 0 s] by (auto simp: truncateTextToTokens_def)
  then have "mx < estimateTokens (take (Suc ?f) s)"
    using fitting_chars_maximal [of mx 0 0 s] by (simp add: estimateTokens_def)
  also have "\<dots> \<le> estimateTokens (take (Suc ?f) s @ drop (Suc ?f) (take k s))"
    by (rule estimateTokens_append_ge)
  also have "take (Suc ?f) s @ drop (Suc ?f) (take k s) = take k s"
    using k by (metis append_take_drop_id min.absorb1 take_take)
  finally show ?thesis .
qed

text \<open>A property that survives replacing a message's text carries over from the candidates to the selection.\<close>

lemma select_tail_all:
  assumes "\<And>m t. P m \<Longrightarrow> P (replaceMessageText m t)"
  shows "select_tail est ms rem e tail = (tail', e', d) \<Longrightarrow> \<forall>m \<in> set ms \<union> set tail. P m \<Longrightarrow>
     (\<forall>m \<in> set tail'. P m) \<and> (\<forall>m. d = Some m \<longrightarrow> P m)"
proof (induction ms arbitrary: rem e tail)
  case (Cons m ms)
  show ?case
  proof (cases "rem \<noteq> 0 \<and> est m \<le> rem")
    case True
    with Cons.prems(1) have "select_tail est ms (rem - est m) (length ms) (m # tail) = (tail', e', d)" by simp
    from Cons.IH [OF this] Cons.prems(2) show ?thesis by simp
  qed (use Cons.prems assms in \<open>auto simp: Let_def split: if_splits\<close>)
qed simp

lemma select_head_all:
  assumes "\<And>m t. P m \<Longrightarrow> P (replaceMessageText m t)"
  shows "\<forall>m \<in> set ms \<union> set head. P m \<Longrightarrow> \<forall>m \<in> set (select_head est ms rem head). P m"
proof (induction ms arbitrary: rem head)
  case (Cons m ms)
  from Cons.prems have "\<forall>x \<in> set ms \<union> set (head @ [m]). P x" by auto
  from Cons.IH [OF this] Cons.prems assms show ?case by (simp add: truncateUserMessage_def)
qed simp

lemma selection_all:
  assumes P: "\<And>m t. P m \<Longrightarrow> P (replaceMessageText m t)" and "\<forall>m \<in> set ms. P m"
  shows "\<forall>m \<in> set (sel_head (selectCompactionUserMessages ms mx hd_mx est) @
                    sel_tail (selectCompactionUserMessages ms mx hd_mx est)). P m"
proof (cases "total_tokens est ms \<le> mx")
  case True
  with assms(2) show ?thesis by (simp add: selectCompactionUserMessages_def)
next
  case False
  let ?hb = "min hd_mx mx"
  obtain tail e d where t: "select_tail est (rev ms) (mx - ?hb) (length ms) [] = (tail, e, d)"
    by (metis prod_cases3)
  let ?cands = "take e ms @ (case d of None \<Rightarrow> [] | Some m \<Rightarrow> [m])"
  from select_tail_all [where P = P, OF P t] assms(2)
  have td: "\<forall>m \<in> set tail. P m" "\<forall>m. d = Some m \<longrightarrow> P m" by auto
  with assms(2) have "\<forall>m \<in> set ?cands. P m" by (auto dest: in_set_takeD split: option.splits)
  with select_head_all [where P = P, OF P, of ?cands "[]" est ?hb] td False t show ?thesis
    by (auto simp: selectCompactionUserMessages_def Let_def)
qed

lemma replace_role: "m_role m = RUser \<Longrightarrow> m_role (replaceMessageText m t) = RUser"
  by (simp add: replaceMessageText_def)

section \<open>What the selection needs of an estimator\<close>

locale message_estimate =
  fixes text_tokens :: "string \<Rightarrow> nat" and message_tokens :: "ctx_message \<Rightarrow> nat" and overhead :: nat
  assumes truncate_le: "text_tokens (truncateTextToTokens s mx) \<le> mx"
    and truncate_end_le: "text_tokens (truncateTextToTokensFromEnd s mx) \<le> mx"
    and replace_le: "m_role m = RUser \<Longrightarrow>
      message_tokens (replaceMessageText m s) \<le> text_tokens s + overhead"
begin

lemma truncateUserMessage_le:
  "m_role m = RUser \<Longrightarrow> message_tokens (truncateUserMessage m mx) \<le> mx + overhead"
  using replace_le [of m "truncateTextToTokens (content_text (m_content m)) mx"]
    truncate_le [of "content_text (m_content m)" mx]
  by (simp add: truncateUserMessage_def)

lemma select_recent_le:
  assumes "\<forall>m \<in> set ms. m_role m = RUser"
  shows "total_tokens message_tokens (select_recent message_tokens ms rem sel) \<le>
           total_tokens message_tokens sel + rem + overhead"
  using assms
proof (induction ms arbitrary: rem sel)
  case (Cons m ms)
  with Cons.IH [of "rem - message_tokens m" "m # sel"] truncateUserMessage_le [of m rem]
  show ?case by (auto simp: total_tokens_def)
qed (simp add: total_tokens_def)

lemma select_tail_le:
  assumes "\<forall>m \<in> set ms. m_role m = RUser"
    and "select_tail message_tokens ms rem e tail = (tail', e', d)"
  shows "total_tokens message_tokens tail' \<le> total_tokens message_tokens tail + rem + overhead"
  using assms
proof (induction ms arbitrary: rem e tail)
  case (Cons m ms)
  let ?kept = "truncateTextToTokensFromEnd (content_text (m_content m)) rem"
  have "message_tokens (replaceMessageText m ?kept) \<le> rem + overhead"
    using replace_le [of m ?kept] truncate_end_le [of "content_text (m_content m)" rem] Cons.prems(1)
    by simp
  with Cons.prems Cons.IH [of "rem - message_tokens m" "length ms" "m # tail"] show ?case
    by (auto simp: total_tokens_def Let_def split: if_splits)
qed (simp add: total_tokens_def)

lemma select_head_le:
  assumes "\<forall>m \<in> set ms. m_role m = RUser"
  shows "total_tokens message_tokens (select_head message_tokens ms rem head) \<le>
           total_tokens message_tokens head + rem + overhead"
  using assms
proof (induction ms arbitrary: rem head)
  case (Cons m ms)
  with Cons.IH [of "rem - message_tokens m" "head @ [m]"] truncateUserMessage_le [of m rem]
  show ?case by (auto simp: total_tokens_def)
qed (simp add: total_tokens_def)

lemma selection_budget:
  assumes "\<forall>m \<in> set ms. m_role m = RUser"
  shows "total_tokens message_tokens
           (sel_head (selectCompactionUserMessages ms mx hd_mx message_tokens) @
            sel_tail (selectCompactionUserMessages ms mx hd_mx message_tokens)) \<le> mx + 2 * overhead"
proof (cases "total_tokens message_tokens ms \<le> mx")
  case True
  then show ?thesis by (simp add: selectCompactionUserMessages_def)
next
  case False
  let ?hb = "min hd_mx mx"
  obtain tail e d where t: "select_tail message_tokens (rev ms) (mx - ?hb) (length ms) [] = (tail, e, d)"
    by (metis prod_cases3)
  let ?cands = "take e ms @ (case d of None \<Rightarrow> [] | Some m \<Rightarrow> [m])"
  have "\<forall>m \<in> set ?cands. m_role m = RUser"
    using select_tail_all [where P = "\<lambda>m. m_role m = RUser", OF replace_role t] assms by (auto dest: in_set_takeD split: option.splits)
  from select_head_le [OF this, of ?hb "[]"]
  have "total_tokens message_tokens (select_head message_tokens ?cands ?hb []) \<le> ?hb + overhead"
    by (simp add: total_tokens_def)
  moreover from select_tail_le [OF _ t] assms
  have "total_tokens message_tokens tail \<le> mx - ?hb + overhead" by (simp add: total_tokens_def)
  ultimately show ?thesis
    using False t by (simp add: selectCompactionUserMessages_def Let_def) (simp add: total_tokens_def)
qed

end

lemma estimate_replaceMessageText:
  "m_role m = RUser \<Longrightarrow> estimateTokensForMessage (replaceMessageText m s) = estimateTokens s + 1"
  by (simp add: estimateTokensForMessage_def replaceMessageText_def estimateTokensForContentParts_def
      estimateTokens_def ascii_tokens_def is_ascii_def)

interpretation heuristics: message_estimate estimateTokens "estimateTokensForMessage :: ctx_message \<Rightarrow> nat" 1
  by unfold_locales
    (simp_all add: truncateTextToTokens_le truncateTextToTokensFromEnd_le estimate_replaceMessageText)


section \<open>The kept texts are the two ends of the user's text\<close>

definition user_text :: "ctx_message list \<Rightarrow> string" where
  "user_text ms = concat (map (\<lambda>m. content_text (m_content m)) ms)"

lemma user_text_simps [simp]:
  "user_text [] = []" "user_text (m # ms) = content_text (m_content m) @ user_text ms"
  "user_text (xs @ ys) = user_text xs @ user_text ys"
  by (simp_all add: user_text_def)

lemma content_text_single [simp]: "content_text [TextPart t] = t"
  by (simp add: content_text_def map_filter_simps)

lemma content_replaceMessageText [simp]: "content_text (m_content (replaceMessageText m t)) = t"
  by (simp add: replaceMessageText_def)

lemma select_tail_end: "select_tail est ms rem e tail = (tail', e', d) \<Longrightarrow> e = length ms \<Longrightarrow> e' \<le> length ms"
proof (induction ms arbitrary: rem e tail)
  case (Cons m ms)
  show ?case
  proof (cases "rem \<noteq> 0 \<and> est m \<le> rem")
    case True
    with Cons.prems have "select_tail est ms (rem - est m) (length ms) (m # tail) = (tail', e', d)" by simp
    from Cons.IH [OF this] show ?thesis by simp
  qed (use Cons.prems in \<open>auto simp: Let_def split: if_splits\<close>)
qed simp

lemma select_tail_text:
  assumes "select_tail est ms rem e tail = (tail', e', d)" and "e = length ms"
  shows "user_text (take e' (rev ms)) @ (case d of None \<Rightarrow> [] | Some m \<Rightarrow> content_text (m_content m)) @
           user_text tail' = user_text (rev ms) @ user_text tail"
  using assms
proof (induction ms arbitrary: rem e tail)
  case (Cons m ms)
  let ?full = "content_text (m_content m)"
  let ?kept = "truncateTextToTokensFromEnd ?full rem"
  consider "rem = 0" | "rem \<noteq> 0" "est m \<le> rem" | "rem \<noteq> 0" "\<not> est m \<le> rem" by blast
  then show ?case
  proof cases
    case 2
    with Cons.prems have "select_tail est ms (rem - est m) (length ms) (m # tail) = (tail', e', d)" by simp
    from Cons.IH [OF this] select_tail_end [OF this] show ?thesis by simp
  next
    case 3
    with Cons.prems have [simp]: "e' = length ms" and t: "tail' = replaceMessageText m ?kept # tail"
      and d: "(case d of None \<Rightarrow> [] | Some m \<Rightarrow> content_text (m_content m)) =
        take (length ?full - length ?kept) ?full"
      by (auto simp: Let_def split: if_splits)
    show ?thesis
      unfolding d t using truncateTextToTokensFromEnd_suffix [of ?full rem] by simp
  qed (use Cons.prems in auto)
qed simp

lemma select_head_text: "\<exists>r. user_text head @ user_text ms = user_text (select_head est ms rem head) @ r"
proof (induction ms arbitrary: rem head)
  case (Cons m ms)
  obtain r where r: "content_text (m_content m) = truncateTextToTokens (content_text (m_content m)) rem @ r"
    using truncateTextToTokens_prefix by blast
  then have "\<exists>r'. user_text head @ user_text (m # ms) =
      user_text (head @ [truncateUserMessage m rem]) @ r'"
    by (intro exI [of _ "r @ user_text ms"]) (simp add: truncateUserMessage_def)
  with Cons.IH [of "head @ [m]" "rem - est m"] show ?case by auto
qed auto

lemma selection_text:
  "\<exists>omitted. user_text ms =
     user_text (sel_head (selectCompactionUserMessages ms mx hd_mx est)) @ omitted @
     user_text (sel_tail (selectCompactionUserMessages ms mx hd_mx est))"
proof (cases "total_tokens est ms \<le> mx")
  case True
  then show ?thesis by (simp add: selectCompactionUserMessages_def)
next
  case False
  let ?hb = "min hd_mx mx"
  obtain tail e d where t: "select_tail est (rev ms) (mx - ?hb) (length ms) [] = (tail, e, d)"
    by (metis prod_cases3)
  let ?cands = "take e ms @ (case d of None \<Rightarrow> [] | Some m \<Rightarrow> [m])"
  from select_tail_text [OF t] have "user_text ms = user_text ?cands @ user_text tail"
    by (simp split: option.splits)
  moreover obtain r where "user_text ?cands = user_text (select_head est ?cands ?hb []) @ r"
    using select_head_text [of "[]" ?cands est ?hb] by auto
  ultimately show ?thesis
    using False t by (simp add: selectCompactionUserMessages_def Let_def)
qed

section \<open>The selection keeps real user input only\<close>

definition compactable :: "ctx_message \<Rightarrow> bool" where
  "compactable m \<longleftrightarrow> isRealUserInput m \<and> \<not> isCompactionSummaryMessage m"

lemma compactable_replace [simp]: "compactable (replaceMessageText m t) = compactable m"
  by (simp add: compactable_def isRealUserInput_def isCompactionSummaryMessage_def replaceMessageText_def)

lemma compactable_truncate [simp]: "compactable (truncateUserMessage m n) = compactable m"
  by (simp add: truncateUserMessage_def)

lemma compactable_user: "compactable m \<Longrightarrow> m_role m = RUser"
  by (simp add: compactable_def isRealUserInput_def)

lemma collect_compactable: "collectCompactableUserMessages ms = filter compactable ms"
  by (simp add: collectCompactableUserMessages_def compactable_def [abs_def])

lemma summary_not_compactable [simp]: "\<not> compactable (createCompactionSummaryMessage t)"
  by (simp add: compactable_def isCompactionSummaryMessage_def createCompactionSummaryMessage_def)

lemma elision_not_compactable [simp]: "\<not> compactable (createCompactionElisionMessage n)"
  by (simp add: compactable_def isRealUserInput_def createCompactionElisionMessage_def)

lemma createCompaction_fields [simp]:
  "m_role (createCompactionSummaryMessage t) = RUser" "m_toolCalls (createCompactionSummaryMessage t) = []"
  "c_origin (createCompactionSummaryMessage t) = Some CompactionSummary"
  "m_role (createCompactionElisionMessage n) = RUser" "m_toolCalls (createCompactionElisionMessage n) = []"
  "m_partial (createCompactionSummaryMessage t) = False" "m_partial (createCompactionElisionMessage n) = False"
  "c_origin (createCompactionElisionMessage n) = Some (Injection COMPACTION_ELISION_VARIANT None None)"
  by (simp_all add: createCompactionSummaryMessage_def createCompactionElisionMessage_def createUserMessage_def)

text \<open>A history compacted twice keeps the same user messages to select from.\<close>

lemma kept_messages_compactable:
  assumes "\<forall>m \<in> set (sel_head sel @ sel_tail sel). compactable m"
  shows "filter compactable (kept_messages sel) = sel_head sel @ sel_tail sel"
  using assms by (simp add: kept_messages_def)

lemma handoff_compactable:
  "\<forall>m \<in> set (sel_head (handoff_selection h est) @ sel_tail (handoff_selection h est)). compactable m"
  unfolding handoff_selection_def collect_compactable by (rule selection_all) simp_all

lemma shape_messages:
  "\<not> ci_legacyTail i \<Longrightarrow> cs_messages (buildContextCompactionShape h i est) =
     kept_messages (handoff_selection h est) @
       [createCompactionSummaryMessage (or_default (ci_contextSummary i) (ci_summary i))]"
  by (simp add: buildContextCompactionShape_def usesLegacyTailShape_def Let_def)


section \<open>Properties\<close>

text \<open>
  C6. A handoff compaction keeps the two ends of what the user said and nothing else of the history: the
  real user messages of the result are a head and a tail whose texts are a prefix and a suffix of the
  user's whole text, in order and without overlap; they cost at most two tokens more than the budget of
  20000 (the role tokens of the two truncated boundary messages); and the summary is the last message.
\<close>
theorem compaction_keeps_both_ends:
  assumes "\<not> ci_legacyTail i"
  shows "\<exists>head tail omitted.
    collectCompactableUserMessages (cs_messages (buildContextCompactionShape h i defaultTokenEstimate)) =
      head @ tail \<and>
    user_text (collectCompactableUserMessages h) = user_text head @ omitted @ user_text tail \<and>
    estimateTokensForMessages (head @ tail) \<le> COMPACT_USER_MESSAGE_MAX_TOKENS + 2 \<and>
    last (cs_messages (buildContextCompactionShape h i defaultTokenEstimate)) =
      createCompactionSummaryMessage (or_default (ci_contextSummary i) (ci_summary i))"
proof -
  let ?sel = "handoff_selection h defaultTokenEstimate"
  let ?users = "collectCompactableUserMessages h"
  obtain omitted where "user_text ?users = user_text (sel_head ?sel) @ omitted @ user_text (sel_tail ?sel)"
    unfolding handoff_selection_def using selection_text by blast
  moreover have "estimateTokensForMessages (sel_head ?sel @ sel_tail ?sel)
      \<le> COMPACT_USER_MESSAGE_MAX_TOKENS + 2"
    using heuristics.selection_budget [of ?users COMPACT_USER_MESSAGE_MAX_TOKENS COMPACT_USER_MESSAGE_HEAD_TOKENS]
    by (simp add: handoff_selection_def defaultTokenEstimate_def total_tokens_def
        estimateTokensForMessages_def collect_compactable compactable_user)
  moreover have "collectCompactableUserMessages
      (cs_messages (buildContextCompactionShape h i defaultTokenEstimate)) = sel_head ?sel @ sel_tail ?sel"
    using kept_messages_compactable [OF handoff_compactable]
    by (simp add: shape_messages [OF assms] collect_compactable)
  ultimately show ?thesis using shape_messages [OF assms] by auto
qed

definition demo_compaction :: compaction_input where
  "demo_compaction = \<lparr>ci_summary = ''s'', ci_legacySummaryMessage = None, ci_contextSummary = None,
     ci_compactedCount = 1, ci_tokensBefore = 9, ci_tokensAfter = None, ci_summaryOutputTokens = None,
     ci_requestOverheadTokens = None, ci_keptUserMessageCount = None, ci_keptHeadUserMessageCount = None,
     ci_droppedCount = None, ci_legacyTail = False\<rparr>"

theorem compaction_keeps_both_ends_witness:
  "\<exists>head tail omitted.
    collectCompactableUserMessages (cs_messages (buildContextCompactionShape
      [as_ctx (createUserMessage ''hi'')] demo_compaction defaultTokenEstimate)) = head @ tail \<and>
    user_text (collectCompactableUserMessages [as_ctx (createUserMessage ''hi'')]) =
      user_text head @ omitted @ user_text tail \<and>
    estimateTokensForMessages (head @ tail) \<le> COMPACT_USER_MESSAGE_MAX_TOKENS + 2 \<and>
    last (cs_messages (buildContextCompactionShape
        [as_ctx (createUserMessage ''hi'')] demo_compaction defaultTokenEstimate)) =
      createCompactionSummaryMessage (or_default (ci_contextSummary demo_compaction) (ci_summary demo_compaction))"
  by (rule compaction_keeps_both_ends) (simp add: demo_compaction_def)

text \<open>
  Truncating a text to a positive token budget from its end yields the longest suffix whose estimate
  is within the budget, and truncating it from its start the longest prefix.
\<close>
lemma truncation_is_longest:
  assumes "0 < mx"
  shows "truncateTextToTokens s mx = take (length (truncateTextToTokens s mx)) s \<and>
    estimateTokens (truncateTextToTokens s mx) \<le> mx \<and>
    (\<forall>k \<le> length s. length (truncateTextToTokens s mx) < k \<longrightarrow> mx < estimateTokens (take k s)) \<and>
    truncateTextToTokensFromEnd s mx = rev (truncateTextToTokens (rev s) mx)"
proof -
  have "truncateTextToTokens s mx = take (length (truncateTextToTokens s mx)) s"
    using fitting_chars_le [of mx 0 0 s] by (simp add: truncateTextToTokens_def)
  then show ?thesis
    using truncateTextToTokens_longest [OF assms]
    by (blast intro: truncateTextToTokens_le truncateTextToTokensFromEnd_rev)
qed

theorem truncation_is_longest_witness:
  "truncateTextToTokens ''hello world'' 2 = ''hello wo'' \<and>
   estimateTokens (truncateTextToTokens ''hello world'' 2) \<le> 2 \<and> 2 < estimateTokens (take 9 ''hello world'')"
proof -
  have "truncateTextToTokens ''hello world'' 2 = ''hello wo''"
    by (simp add: truncateTextToTokens_def is_ascii_def ascii_tokens_def)
  moreover have "estimateTokens (truncateTextToTokens ''hello world'' 2) \<le> 2"
    by (intro truncation_is_longest [THEN conjunct2, THEN conjunct1]) simp
  moreover from calculation(1) have "2 < estimateTokens (take 9 ''hello world'')"
    by (intro truncation_is_longest [THEN conjunct2, THEN conjunct2, THEN conjunct1, rule_format]) simp_all
  ultimately show ?thesis by simp
qed

end
