(* ===== verification/ContextMemory.thy ===== *)
theory ContextMemory imports Compaction begin

text \<open>
  The conversation history of an agent and the records that change it:
  \<^verbatim>\<open>agent/contextMemory/loopEventFold.ts\<close>, \<^verbatim>\<open>contextOps.ts\<close> and
  \<^verbatim>\<open>conversationTime.ts\<close>.

  The fold's state lives in a \<open>WeakMap\<close> keyed by each state array; here it is the second component
  of the state, so every operation takes and returns the pair of history and fold state. A record that
  leaves the array unchanged but mutates its fold state (a deferred append) changes the second component
  only. The event fields the fold never reads (turn ids, usage, latencies) are left out.
\<close>

section \<open>The loop-event fold\<close>

datatype loop_event =
    StepBegin (ev_uuid: string)
  | StepEnd (ev_uuid: string)
  | ContentPartEv (ev_stepUuid: string) content_part
  | ToolCallEv (ev_stepUuid: string) string string "json option" "json option"
  | ToolResultEv string tool_output bool "string option"

record fold_ctx =
  openStepUuid :: "string option"
  pending :: "string list"
  deferred :: "ctx_message list"

definition init_fold_ctx :: fold_ctx where
  "init_fold_ctx = \<lparr>openStepUuid = None, pending = [], deferred = []\<rparr>"

type_synonym ctx_state = "ctx_message list \<times> fold_ctx"

definition TOOL_INTERRUPTED_ON_RESUME_OUTPUT :: string where
  "TOOL_INTERRUPTED_ON_RESUME_OUTPUT = ''Tool execution was interrupted before its result was recorded. Do not assume the tool completed successfully.''"

definition interruptedToolMessage :: "string \<Rightarrow> ctx_message" where
  "interruptedToolMessage cid =
     (as_ctx (createToolMessage cid (OutStr TOOL_INTERRUPTED_ON_RESUME_OUTPUT)))\<lparr>c_isError := True\<rparr>"

fun flushDeferred :: "ctx_state \<Rightarrow> ctx_state" where
  "flushDeferred (h, ctx) =
     (if pending ctx \<noteq> [] \<or> deferred ctx = [] then (h, ctx)
      else (h @ deferred ctx, ctx\<lparr>deferred := []\<rparr>))"

fun closePending :: "ctx_state \<Rightarrow> ctx_state" where
  "closePending (h, ctx) =
     (if pending ctx = [] then (h, ctx)
      else flushDeferred (h @ map interruptedToolMessage (pending ctx), ctx\<lparr>pending := []\<rparr>))"

definition findOpenAssistantIndex :: "ctx_message list \<Rightarrow> nat option" where
  "findOpenAssistantIndex h = find_last_index m_partial h"

definition settle_history :: "ctx_message list \<Rightarrow> ctx_message list" where
  "settle_history h =
     (case findOpenAssistantIndex h of
        None \<Rightarrow> h
      | Some i \<Rightarrow>
          if m_toolCalls (h ! i) = [] \<and> (\<forall>p \<in> set (m_content (h ! i)). isVacuousContentPart p)
          then take i h @ drop (Suc i) h
          else h[i := (h ! i)\<lparr>m_partial := False\<rparr>])"

definition settleOpenStep :: "ctx_state \<Rightarrow> ctx_state" where
  "settleOpenStep s = (case closePending s of (h, ctx) \<Rightarrow> (settle_history h, ctx))"

definition appendToOpenAssistant ::
  "(ctx_message \<Rightarrow> ctx_message) \<Rightarrow> ctx_message list \<Rightarrow> ctx_message list" where
  "appendToOpenAssistant update h =
     (case findOpenAssistantIndex h of None \<Rightarrow> h | Some i \<Rightarrow> h[i := update (h ! i)])"

definition foldAppendMessage :: "ctx_message \<Rightarrow> ctx_state \<Rightarrow> ctx_state" where
  "foldAppendMessage m s = (case s of (h, ctx) \<Rightarrow>
     if pending ctx \<noteq> [] then (h, ctx\<lparr>deferred := deferred ctx @ [m]\<rparr>) else (h @ [m], ctx))"

definition open_assistant :: ctx_message where
  "open_assistant = (as_ctx (createAssistantMessage [] None))\<lparr>m_partial := True\<rparr>"

definition call_of_event :: "string \<Rightarrow> string \<Rightarrow> json option \<Rightarrow> json option \<Rightarrow> tool_call" where
  "call_of_event cid name args extras =
     \<lparr>tc_id = cid, tc_name = name, tc_arguments = map_option json_stringify args, tc_extras = extras,
      tc_streamIndex = None\<rparr>"

definition tool_result_message :: "string \<Rightarrow> tool_output \<Rightarrow> bool \<Rightarrow> string option \<Rightarrow> ctx_message" where
  "tool_result_message cid out isErr nt =
     (as_ctx (createToolMessage cid out))\<lparr>c_isError := isErr, c_note := nt\<rparr>"

fun foldLoopEvent :: "loop_event \<Rightarrow> ctx_state \<Rightarrow> ctx_state" where
  "foldLoopEvent (StepBegin u) s =
     (case settleOpenStep s of (h, ctx) \<Rightarrow> (h @ [open_assistant], ctx\<lparr>openStepUuid := Some u\<rparr>))"
| "foldLoopEvent (StepEnd u) s =
     (case s of (h, ctx) \<Rightarrow> flushDeferred (settleOpenStep (h, ctx\<lparr>openStepUuid := None\<rparr>)))"
| "foldLoopEvent (ContentPartEv u p) s =
     (case s of (h, ctx) \<Rightarrow>
        (appendToOpenAssistant (\<lambda>m. m\<lparr>m_content := m_content m @ [p]\<rparr>) h, ctx))"
| "foldLoopEvent (ToolCallEv u cid name args extras) s =
     (case s of (h, ctx) \<Rightarrow>
        (appendToOpenAssistant
           (\<lambda>m. m\<lparr>m_toolCalls := m_toolCalls m @ [call_of_event cid name args extras]\<rparr>) h,
         ctx\<lparr>pending := os_add cid (pending ctx)\<rparr>))"
| "foldLoopEvent (ToolResultEv cid out isErr nt) s =
     (case s of (h, ctx) \<Rightarrow>
        if cid \<notin> set (pending ctx) then (h, ctx)
        else flushDeferred (h @ [tool_result_message cid out isErr nt],
               ctx\<lparr>pending := os_del cid (pending ctx)\<rparr>))"

definition resetFold :: "ctx_message list \<Rightarrow> ctx_state" where
  "resetFold h = (h, init_fold_ctx)"

section \<open>The conversation clock\<close>

definition isUndoAnchor :: "ctx_message \<Rightarrow> bool" where
  "isUndoAnchor m \<longleftrightarrow> m_role m = RUser \<and>
     (case c_origin m of
        None \<Rightarrow> True
      | Some UserOrigin \<Rightarrow> True
      | Some (SkillActivation _ _ _ t _ _ _) \<Rightarrow> t = UserSlash
      | Some (PluginCommand _ _ _ _ t) \<Rightarrow> t = UserSlash
      | _ \<Rightarrow> False)"

definition isInjection :: "ctx_message \<Rightarrow> bool" where
  "isInjection m \<longleftrightarrow> (case c_origin m of Some (Injection _ _ _) \<Rightarrow> True | _ \<Rightarrow> False)"

definition isPromptOwnedInjection :: "ctx_message \<Rightarrow> ctx_message \<Rightarrow> bool" where
  "isPromptOwnedInjection m prompt \<longleftrightarrow>
     (case c_origin m of
        Some (Injection _ (Some owner) _) \<Rightarrow> c_id prompt = Some owner
      | _ \<Rightarrow> False)"

definition MAX_SAFE_INTEGER :: int where
  "MAX_SAFE_INTEGER = 2 ^ 53 - 1"

definition isValidUndoCount :: "int \<Rightarrow> bool" where
  "isValidUndoCount n \<longleftrightarrow> - MAX_SAFE_INTEGER \<le> n \<and> n \<le> MAX_SAFE_INTEGER \<and> 0 < n"

section \<open>Undo cuts\<close>

record undo_cut =
  cutIndex :: int
  removedCount :: int
  stoppedAtCompaction :: bool

text \<open>The inner loop: step back over the injections the prompt at the cut owns.\<close>

fun owned_start :: "ctx_message list \<Rightarrow> nat \<Rightarrow> ctx_message \<Rightarrow> nat" where
  "owned_start h 0 prompt = 0"
| "owned_start h (Suc i) prompt =
     (if isPromptOwnedInjection (h ! i) prompt then owned_start h i prompt else Suc i)"

text \<open>The outer loop, from the last message down; the second argument is \<open>i + 1\<close>.\<close>

fun undo_loop :: "ctx_message list \<Rightarrow> nat \<Rightarrow> int \<Rightarrow> undo_cut \<Rightarrow> undo_cut" where
  "undo_loop h 0 remaining c = c"
| "undo_loop h (Suc i) remaining c =
     (if remaining \<le> 0 then c
      else if isInjection (h ! i) then undo_loop h i remaining c
      else if c_origin (h ! i) = Some CompactionSummary then c\<lparr>stoppedAtCompaction := True\<rparr>
      else if isUndoAnchor (h ! i)
        then undo_loop h i (remaining - 1)
          (c\<lparr>cutIndex := int (owned_start h i (h ! i)), removedCount := removedCount c + 1\<rparr>)
      else undo_loop h i remaining c)"

definition computeUndoCut :: "ctx_message list \<Rightarrow> int \<Rightarrow> undo_cut" where
  "computeUndoCut h count = undo_loop h (length h) count
     \<lparr>cutIndex = -1, removedCount = 0, stoppedAtCompaction = False\<rparr>"

definition isFullyUndoable :: "undo_cut \<Rightarrow> int \<Rightarrow> bool" where
  "isFullyUndoable c count \<longleftrightarrow> 0 \<le> cutIndex c \<and> count \<le> removedCount c"

datatype undo_reason = UEmpty | UCompactionBoundary | UInsufficient | UCheckpointLost

record undo_unavailable =
  uu_reason :: undo_reason
  uu_requested :: int
  uu_undoable :: int

text \<open>\<open>precheckUndo\<close>: \<^term>\<open>None\<close> is \<open>{ ok: true }\<close>.\<close>

definition precheckUndo :: "ctx_message list \<Rightarrow> int \<Rightarrow> undo_unavailable option" where
  "precheckUndo h count =
     (let c = computeUndoCut h count in
      if isFullyUndoable c count then None
      else Some
        \<lparr>uu_reason = (if stoppedAtCompaction c then UCompactionBoundary
                      else if removedCount c = 0 then UEmpty else UInsufficient),
         uu_requested = count, uu_undoable = removedCount c\<rparr>)"

definition formatUndoUnavailableMessage :: "undo_unavailable \<Rightarrow> string" where
  "formatUndoUnavailableMessage p =
     (case uu_reason p of
        UEmpty \<Rightarrow> ''Nothing to undo: no user message to undo''
      | UCompactionBoundary \<Rightarrow> ''Nothing to undo: would cross a compaction boundary''
      | UInsufficient \<Rightarrow> ''Nothing to undo: only '' @ show_int (uu_undoable p) @ '' of '' @
          show_int (uu_requested p) @ '' requested turn(s) available''
      | UCheckpointLost \<Rightarrow> ''Nothing to undo: conversation state checkpoints are incomplete'')"

section \<open>The context model: one operation per record type\<close>

definition popSwarmModeReminder :: "ctx_state \<Rightarrow> ctx_state" where
  "popSwarmModeReminder s = (case s of (h, ctx) \<Rightarrow>
     if h = [] then s
     else case c_origin (last h) of
       Some (Injection v _ _) \<Rightarrow> if v = ''swarm_mode'' then resetFold (butlast h) else s
     | _ \<Rightarrow> s)"

definition contextClear :: "ctx_state \<Rightarrow> ctx_state" where
  "contextClear s = (if fst s = [] then s else resetFold [])"

definition contextApplyCompaction :: "compaction_input \<Rightarrow> ctx_state \<Rightarrow> ctx_state" where
  "contextApplyCompaction i s =
     resetFold (cs_messages (buildContextCompactionShape (fst s) i defaultTokenEstimate))"

definition contextUndo :: "int \<Rightarrow> ctx_state \<Rightarrow> ctx_state" where
  "contextUndo count s =
     (if \<not> isValidUndoCount count \<or> fst s = [] then s
      else let c = computeUndoCut (fst s) count in
        if \<not> isFullyUndoable c count then s
        else resetFold (take (nat (cutIndex c)) (fst s)))"

datatype ctx_record =
    RAppendMessage ctx_message
  | RLoopEvent loop_event
  | RClear
  | RCompaction compaction_input
  | RUndo int
  | RSwarmExit

fun ctx_apply :: "ctx_record \<Rightarrow> ctx_state \<Rightarrow> ctx_state" where
  "ctx_apply (RAppendMessage m) s = foldAppendMessage m s"
| "ctx_apply (RLoopEvent ev) s = foldLoopEvent ev s"
| "ctx_apply RClear s = contextClear s"
| "ctx_apply (RCompaction i) s = contextApplyCompaction i s"
| "ctx_apply (RUndo n) s = contextUndo n s"
| "ctx_apply RSwarmExit s = popSwarmModeReminder s"

definition ctx_init :: ctx_state where
  "ctx_init = resetFold []"

section \<open>Checkpointed models\<close>

record 'a checkpointed =
  current :: 'a
  checkpoints :: "'a list"

text \<open>
  The reducers of \<open>defineCheckpointedModel\<close>, one per record type; the first argument is the optional
  \<open>onAppendMessage\<close>.
\<close>

fun checkpointed_apply ::
  "('a \<Rightarrow> ctx_message \<Rightarrow> 'a) option \<Rightarrow> ctx_record \<Rightarrow> 'a checkpointed \<Rightarrow> 'a checkpointed" where
  "checkpointed_apply onAppend (RAppendMessage m) s =
     (if isUndoAnchor m then s\<lparr>checkpoints := checkpoints s @ [current s]\<rparr>
      else case onAppend of None \<Rightarrow> s | Some f \<Rightarrow> s\<lparr>current := f (current s) m\<rparr>)"
| "checkpointed_apply onAppend (RCompaction i) s = s\<lparr>checkpoints := []\<rparr>"
| "checkpointed_apply onAppend RClear s = s\<lparr>checkpoints := []\<rparr>"
| "checkpointed_apply onAppend (RUndo n) s =
     (if \<not> isValidUndoCount n \<or> int (length (checkpoints s)) < n then s
      else let k = length (checkpoints s) - nat n in
        \<lparr>current = checkpoints s ! k, checkpoints = take k (checkpoints s)\<rparr>)"
| "checkpointed_apply onAppend (RLoopEvent ev) s = s"
| "checkpointed_apply onAppend RSwarmExit s = s"

section \<open>Reading persisted compaction records\<close>

text \<open>
  The fields of a persisted record, by key. A value is what the readers tell apart by \<open>typeof\<close> and
  \<open>isContextMessage\<close>: a string, a number, a boolean, a context message or anything else.
\<close>

datatype field_value = FStr string | FNum int | FBool bool | FMessage ctx_message | FOther

type_synonym unknown_record = "(string \<times> field_value) list"

datatype decode_error = StorageDecodeFailed string

definition isContextMessage :: "field_value option \<Rightarrow> bool" where
  "isContextMessage v = (case v of Some (FMessage _) \<Rightarrow> True | _ \<Rightarrow> False)"

definition readOptionalNumber :: "unknown_record \<Rightarrow> string \<Rightarrow> int option" where
  "readOptionalNumber r k = (case om_get r k of Some (FNum n) \<Rightarrow> Some n | _ \<Rightarrow> None)"

definition readOptionalString :: "unknown_record \<Rightarrow> string \<Rightarrow> string option" where
  "readOptionalString r k = (case om_get r k of Some (FStr s) \<Rightarrow> Some s | _ \<Rightarrow> None)"

definition readOptionalBoolean :: "unknown_record \<Rightarrow> string \<Rightarrow> bool option" where
  "readOptionalBoolean r k = (case om_get r k of Some (FBool b) \<Rightarrow> Some b | _ \<Rightarrow> None)"

definition readLegacySummaryMessage :: "unknown_record \<Rightarrow> ctx_message option" where
  "readLegacySummaryMessage r = (case om_get r ''summary'' of Some (FMessage m) \<Rightarrow> Some m | _ \<Rightarrow> None)"

definition readContextCompactedCount :: "unknown_record \<Rightarrow> decode_error + int" where
  "readContextCompactedCount r =
     (case om_get r ''compactedCount'' of
        Some (FNum n) \<Rightarrow> Inr n
      | _ \<Rightarrow> (case om_get r ''count'' of
          Some (FNum n) \<Rightarrow> Inr n
        | _ \<Rightarrow> Inl (StorageDecodeFailed
            ''Invalid context.apply_compaction record: missing compactedCount'')))"

definition readContextCompactionRawSummary :: "unknown_record \<Rightarrow> decode_error + string" where
  "readContextCompactionRawSummary r =
     (case om_get r ''summary'' of
        Some (FStr s) \<Rightarrow> Inr s
      | v \<Rightarrow> (case om_get r ''contextSummary'' of
          Some (FStr s) \<Rightarrow> Inr s
        | _ \<Rightarrow> (case v of
            Some (FMessage m) \<Rightarrow> Inr (content_text (m_content m))
          | _ \<Rightarrow> Inl (StorageDecodeFailed
              ''Invalid context.apply_compaction record: missing summary''))))"

definition readContextCompactionSummary :: "unknown_record \<Rightarrow> decode_error + ctx_message" where
  "readContextCompactionSummary r =
     (case om_get r ''contextSummary'' of
        Some (FStr s) \<Rightarrow> Inr (createCompactionSummaryMessage s)
      | _ \<Rightarrow> (case om_get r ''summary'' of
          Some (FStr s) \<Rightarrow> Inr (createCompactionSummaryMessage s)
        | Some (FMessage m) \<Rightarrow> Inr m
        | _ \<Rightarrow> Inl (StorageDecodeFailed
            ''Invalid context.apply_compaction record: missing summary'')))"

definition readContextCompactionShapeInput :: "unknown_record \<Rightarrow> decode_error + compaction_input" where
  "readContextCompactionShapeInput r =
     ebind (readContextCompactionRawSummary r) (\<lambda>summary.
     ebind (readContextCompactedCount r) (\<lambda>compactedCount.
       let keptUserMessageCount = readOptionalNumber r ''keptUserMessageCount'' in
       Inr \<lparr>ci_summary = summary, ci_legacySummaryMessage = readLegacySummaryMessage r,
         ci_contextSummary = readOptionalString r ''contextSummary'',
         ci_compactedCount = compactedCount,
         ci_tokensBefore = or_default (readOptionalNumber r ''tokensBefore'') 0,
         ci_tokensAfter = readOptionalNumber r ''tokensAfter'',
         ci_summaryOutputTokens = readOptionalNumber r ''summaryOutputTokens'',
         ci_requestOverheadTokens = None,
         ci_keptUserMessageCount = keptUserMessageCount,
         ci_keptHeadUserMessageCount = readOptionalNumber r ''keptHeadUserMessageCount'',
         ci_droppedCount = readOptionalNumber r ''droppedCount'',
         ci_legacyTail = or_default (readOptionalBoolean r ''legacyTail'') (keptUserMessageCount = None)\<rparr>))"

definition applyContextCompactionRecord ::
  "ctx_message list \<Rightarrow> unknown_record \<Rightarrow> decode_error + ctx_state" where
  "applyContextCompactionRecord h r =
     ebind (readContextCompactionShapeInput r) (\<lambda>i.
       Inr (resetFold (cs_messages (buildContextCompactionShape h i defaultTokenEstimate))))"

end
