(* ===== verification/ContextMemory_Proofs.thy ===== *)
theory ContextMemory_Proofs imports ContextMemory "HOL-Library.Multiset" begin

text \<open>
  The lemmas and properties of the conversation history (\<^verbatim>\<open>ContextMemory\<close>): the exchange
  structure of histories and its invariant (every record type keeps it), the conservation of appended
  messages, retries, where an undo cuts, and the lock step of the context with the checkpointed models.
\<close>

section \<open>Histories whose tool calls are answered\<close>

text \<open>What the exchange structure of a history depends on: role, answered call and call ids.\<close>

type_synonym view = "role \<times> string option \<times> string list"

definition view :: "ctx_message \<Rightarrow> view" where
  "view m = (m_role m, m_toolCallId m, map tc_id (m_toolCalls m))"

definition plain :: "view \<Rightarrow> bool" where
  "plain v \<longleftrightarrow> fst v \<noteq> RTool \<and> snd (snd v) = []"

definition answers :: "view list \<Rightarrow> string option multiset" where
  "answers rs = mset (map (fst \<circ> snd) rs)"

definition calls :: "view \<Rightarrow> string option multiset" where
  "calls v = mset (map Some (snd (snd v)))"

definition results :: "view list \<Rightarrow> bool" where
  "results rs \<longleftrightarrow> (\<forall>r \<in> set rs. fst r = RTool)"

text \<open>
  A history is answered when it consists of plain messages and of exchanges: a message with calls,
  directly followed by exactly one result for each of them.
\<close>

inductive answered :: "view list \<Rightarrow> bool" where
  answered_Nil: "answered []"
| answered_plain: "answered h \<Longrightarrow> plain v \<Longrightarrow> answered (h @ [v])"
| answered_exchange: "answered h \<Longrightarrow> fst a \<noteq> RTool \<Longrightarrow> snd (snd a) \<noteq> [] \<Longrightarrow> results rs \<Longrightarrow>
    answers rs = calls a \<Longrightarrow> answered (h @ a # rs)"

lemma answers_simps [simp]:
  "answers [] = {#}" "answers (r # rs) = add_mset (fst (snd r)) (answers rs)"
  "answers (rs @ rs') = answers rs + answers rs'"
  by (simp_all add: answers_def)

lemma results_simps [simp]:
  "results []" "results (r # rs) \<longleftrightarrow> fst r = RTool \<and> results rs"
  "results (rs @ rs') \<longleftrightarrow> results rs \<and> results rs'"
  by (auto simp: results_def)

lemma answered_plains: "answered h \<Longrightarrow> \<forall>v \<in> set vs. plain v \<Longrightarrow> answered (h @ vs)"
proof (induction vs rule: rev_induct)
  case (snoc v vs)
  then show ?case using answered_plain [of "h @ vs" v] by simp
qed simp

lemma results_no_plain: "results rs \<Longrightarrow> plain v \<Longrightarrow> v \<notin> set rs"
  by (auto simp: results_def plain_def)

text \<open>A plain message can be taken out of an answered history, and a cut before one keeps it answered.\<close>

lemma answered_remove:
  "answered h \<Longrightarrow> h = xs @ v # ys \<Longrightarrow> plain v \<Longrightarrow> answered (xs @ ys)"
proof (induction arbitrary: ys rule: answered.induct)
  case (answered_plain h w)
  show ?case
  proof (cases ys rule: rev_cases)
    case Nil
    with answered_plain show ?thesis by simp
  next
    case (snoc zs z)
    with answered_plain.prems have "h = xs @ v # zs" "z = w" by simp_all
    with answered_plain snoc have "answered (xs @ zs)" "plain z" by auto
    from answered.answered_plain [OF this] snoc show ?thesis by simp
  qed
next
  case (answered_exchange h a rs)
  from answered_exchange.prems(1) consider us where "h @ us = xs" "us @ v # ys = a # rs"
    | us where "h = xs @ us" "us @ a # rs = v # ys" by (auto simp: append_eq_append_conv2)
  then show ?case
  proof cases
    case 1
    show ?thesis
    proof (cases us)
      case Nil
      with 1 answered_exchange show ?thesis by (auto simp: plain_def)
    next
      case (Cons u us')
      with 1 have "v \<in> set rs" by auto
      with answered_exchange results_no_plain show ?thesis by blast
    qed
  next
    case 2
    show ?thesis
    proof (cases us)
      case Nil
      with 2 answered_exchange show ?thesis by (auto simp: plain_def)
    next
      case (Cons u us')
      with 2 have "h = xs @ v # us'" "ys = us' @ a # rs" by auto
      with answered_exchange have "answered (xs @ us')" by simp
      from answered.answered_exchange [OF this] answered_exchange.hyps(2-5) show ?thesis
        by (simp add: \<open>ys = us' @ a # rs\<close>)
    qed
  qed
qed simp

lemma answered_cut:
  "answered h \<Longrightarrow> h = xs @ v # ys \<Longrightarrow> fst v \<noteq> RTool \<Longrightarrow> answered xs"
proof (induction arbitrary: ys rule: answered.induct)
  case (answered_plain h w)
  then show ?case by (cases ys rule: rev_cases) auto
next
  case (answered_exchange h a rs)
  from answered_exchange.prems(1) consider us where "h @ us = xs" "us @ v # ys = a # rs"
    | us where "h = xs @ us" "us @ a # rs = v # ys" by (auto simp: append_eq_append_conv2)
  then show ?case
  proof cases
    case 1
    show ?thesis
    proof (cases us)
      case Nil
      with 1 answered_exchange show ?thesis by simp
    next
      case (Cons u us')
      with 1 have "v \<in> set rs" by auto
      with answered_exchange show ?thesis by (auto simp: results_def)
    qed
  next
    case 2
    with answered_exchange show ?thesis by (cases us) auto
  qed
qed simp

lemma answered_last_calls: "answered h \<Longrightarrow> h = xs @ [v] \<Longrightarrow> fst v \<noteq> RTool \<Longrightarrow> plain v"
proof (induction arbitrary: rule: answered.induct)
  case (answered_exchange h a rs)
  then show ?case
    by (cases rs rule: rev_cases) (auto simp: calls_def)
qed auto


section \<open>The invariant of the fold\<close>

definition msg_ok :: "ctx_message \<Rightarrow> bool" where
  "msg_ok m \<longleftrightarrow>
     (m_role m = RTool \<longrightarrow> c_origin m = None \<and> m_toolCalls m = []) \<and>
     (m_role m = RUser \<longrightarrow> m_toolCalls m = []) \<and>
     (c_origin m \<noteq> None \<longrightarrow> m_toolCalls m = []) \<and>
     (m_partial m \<longrightarrow> m_role m = RAssistant \<and> c_origin m = None)"

text \<open>What the host appends from outside the loop: prompts, injections, notices.\<close>

definition foreign :: "ctx_message \<Rightarrow> bool" where
  "foreign m \<longleftrightarrow> m_role m \<noteq> RTool \<and> m_toolCalls m = [] \<and> \<not> m_partial m"

definition settled_ok :: "ctx_message list \<Rightarrow> bool" where
  "settled_ok h \<longleftrightarrow> (\<forall>m \<in> set h. msg_ok m) \<and> length (filter m_partial h) \<le> 1 \<and> answered (map view h)"

definition open_exchange :: "ctx_message list \<Rightarrow> string list \<Rightarrow> bool" where
  "open_exchange h ids \<longleftrightarrow> (\<exists>pre a rs. h = pre @ a # rs \<and> answered (map view pre) \<and>
     m_role a \<noteq> RTool \<and> m_toolCalls a \<noteq> [] \<and> results (map view rs) \<and>
     answers (map view rs) + mset (map Some ids) = calls (view a))"

definition ctx_inv :: "ctx_state \<Rightarrow> bool" where
  "ctx_inv s \<longleftrightarrow> (case s of (h, ctx) \<Rightarrow>
     (\<forall>m \<in> set h. msg_ok m) \<and> length (filter m_partial h) \<le> 1 \<and>
     (\<forall>m \<in> set (deferred ctx). foreign m) \<and>
     (if pending ctx = [] then deferred ctx = [] \<and> answered (map view h)
      else distinct (pending ctx) \<and> open_exchange h (pending ctx)))"

lemma foreign_ok: "foreign m \<Longrightarrow> msg_ok m"
  by (simp add: foreign_def msg_ok_def)

lemma foreign_plain: "foreign m \<Longrightarrow> plain (view m)"
  by (simp add: foreign_def plain_def view_def)

lemma interrupted_view [simp]: "view (interruptedToolMessage i) = (RTool, Some i, [])"
  by (simp add: interruptedToolMessage_def view_def createToolMessage_def)

lemma tool_result_view [simp]: "view (tool_result_message i out e n) = (RTool, Some i, [])"
  by (simp add: tool_result_message_def view_def createToolMessage_def)

lemma interrupted_ok [simp]: "msg_ok (interruptedToolMessage i)" "\<not> m_partial (interruptedToolMessage i)"
  by (simp_all add: interruptedToolMessage_def msg_ok_def createToolMessage_def)

lemma tool_result_ok [simp]:
  "msg_ok (tool_result_message i out e n)" "\<not> m_partial (tool_result_message i out e n)"
  by (simp_all add: tool_result_message_def msg_ok_def createToolMessage_def)

lemma open_assistant_sel [simp]:
  "m_role open_assistant = RAssistant" "m_partial open_assistant" "m_toolCalls open_assistant = []"
  "m_content open_assistant = []" "c_origin open_assistant = None"
  by (simp_all add: open_assistant_def createAssistantMessage_def)

lemma open_assistant_ok [simp]: "msg_ok open_assistant" "plain (view open_assistant)"
  by (simp_all add: msg_ok_def plain_def view_def)

lemma settled_ok_append:
  "settled_ok h \<Longrightarrow> \<forall>m \<in> set ms. foreign m \<Longrightarrow> settled_ok (h @ ms)"
proof -
  assume h: "settled_ok h" and ms: "\<forall>m \<in> set ms. foreign m"
  then have "answered (map view h @ map view ms)"
    by (intro answered_plains) (auto simp: settled_ok_def foreign_plain)
  moreover have "filter m_partial ms = []" using ms by (auto simp: foreign_def filter_empty_conv)
  ultimately show ?thesis using h ms by (auto simp: settled_ok_def foreign_ok)
qed

lemma ctx_inv_settled:
  "pending ctx = [] \<Longrightarrow> ctx_inv (h, ctx) \<longleftrightarrow> deferred ctx = [] \<and> settled_ok h"
  by (auto simp: ctx_inv_def settled_ok_def)

lemma flushDeferred_settled:
  assumes "settled_ok h" and "pending ctx = []" and "\<forall>m \<in> set (deferred ctx). foreign m"
  shows "flushDeferred (h, ctx) = (h @ deferred ctx, ctx\<lparr>deferred := []\<rparr>)"
    and "ctx_inv (h @ deferred ctx, ctx\<lparr>deferred := []\<rparr>)"
  using assms by (auto simp: ctx_inv_settled settled_ok_append)

lemma exchange_closed:
  assumes "open_exchange h ids" and "results (map view rs')" and "answers (map view rs') = mset (map Some ids)"
  shows "answered (map view (h @ rs'))"
proof -
  obtain pre a rs where h: "h = pre @ a # rs" "answered (map view pre)" "m_role a \<noteq> RTool"
      "m_toolCalls a \<noteq> []" "results (map view rs)"
      "answers (map view rs) + mset (map Some ids) = calls (view a)"
    using assms(1) by (auto simp: open_exchange_def)
  from h assms have "answered (map view pre @ view a # (map view rs @ map view rs'))"
    by (intro answered_exchange) (simp_all add: view_def)
  with h show ?thesis by simp
qed

lemma closePending_settles:
  assumes "ctx_inv s"
  shows "\<exists>h ctx. closePending s = (h, ctx) \<and> pending ctx = [] \<and> deferred ctx = [] \<and> settled_ok h"
proof (cases s)
  case (Pair h ctx)
  show ?thesis
  proof (cases "pending ctx = []")
    case True
    with assms Pair show ?thesis by (simp add: ctx_inv_settled)
  next
    case False
    let ?rs = "map interruptedToolMessage (pending ctx)"
    have v: "map view ?rs = map (\<lambda>i. (RTool, Some i, [])) (pending ctx)" by simp
    have "results (map view ?rs)" "answers (map view ?rs) = mset (map Some (pending ctx))"
      unfolding v by (simp_all add: results_def answers_def comp_def)
    with assms Pair False have "answered (map view (h @ ?rs))"
      by (intro exchange_closed [where ids = "pending ctx"]) (simp_all add: ctx_inv_def)
    moreover have "filter m_partial ?rs = []" by (simp add: filter_empty_conv)
    ultimately have "settled_ok (h @ ?rs)"
      using assms Pair by (auto simp: settled_ok_def ctx_inv_def)
    moreover from settled_ok_append [OF this] have "settled_ok ((h @ ?rs) @ deferred ctx)"
      using assms Pair by (simp add: ctx_inv_def)
    ultimately show ?thesis using Pair False by simp
  qed
qed

section \<open>Settling the open step\<close>

lemma find_open_split:
  assumes "findOpenAssistantIndex h = Some i"
  shows "h = take i h @ h ! i # drop (Suc i) h" and "m_partial (h ! i)" and "i < length h"
    and "\<forall>m \<in> set (drop (Suc i) h). \<not> m_partial m"
proof -
  from find_last_index_Some [OF assms [unfolded findOpenAssistantIndex_def]]
  have i: "i < length h" "m_partial (h ! i)" "\<forall>j. i < j \<and> j < length h \<longrightarrow> \<not> m_partial (h ! j)" by auto
  show "h = take i h @ h ! i # drop (Suc i) h" using i(1) by (simp add: id_take_nth_drop)
  show "m_partial (h ! i)" "i < length h" using i by auto
  show "\<forall>m \<in> set (drop (Suc i) h). \<not> m_partial m"
    using i(3) by (auto simp: in_set_conv_nth)
qed

lemma find_open_None: "findOpenAssistantIndex h = None \<longleftrightarrow> filter m_partial h = []"
  by (simp add: findOpenAssistantIndex_def filter_empty_conv)

lemma one_partial:
  assumes "length (filter m_partial h) \<le> 1" and "findOpenAssistantIndex h = Some i"
  shows "filter m_partial (take i h) = []" "filter m_partial (drop (Suc i) h) = []"
proof -
  from find_open_split [OF assms(2)] have "h = take i h @ h ! i # drop (Suc i) h" "m_partial (h ! i)" by auto
  then have "length (filter m_partial h) = length (filter m_partial (take i h @ h ! i # drop (Suc i) h))"
    by simp
  with assms(1) \<open>m_partial (h ! i)\<close> show "filter m_partial (take i h) = []" "filter m_partial (drop (Suc i) h) = []"
    by simp_all
qed

lemma seal_ok: "msg_ok m \<Longrightarrow> msg_ok (m\<lparr>m_partial := False\<rparr>)"
  by (simp add: msg_ok_def)

lemma seal_view [simp]: "view (m\<lparr>m_partial := b\<rparr>) = view m"
  by (simp add: view_def)

lemma map_view_update: "i < length h \<Longrightarrow> view x = view (h ! i) \<Longrightarrow> map view (h[i := x]) = map view h"
  by (metis list_update_id map_update nth_map)

lemma settle_history_ok:
  assumes "settled_ok h"
  shows "settled_ok (settle_history h)" and "filter m_partial (settle_history h) = []"
proof (atomize (full), cases "findOpenAssistantIndex h")
  case None
  moreover from None have "filter m_partial h = []" by (simp only: find_open_None)
  ultimately show "settled_ok (settle_history h) \<and> filter m_partial (settle_history h) = []"
    using assms by (simp add: settle_history_def)
next
  case (Some i)
  note sp = find_open_split [OF Some] and one = one_partial [OF _ Some]
  have ok: "\<forall>m \<in> set h. msg_ok m" "answered (map view h)" "length (filter m_partial h) \<le> 1"
    using assms by (auto simp: settled_ok_def)
  have mi: "msg_ok (h ! i)" using ok(1) sp(3) by simp
  show "settled_ok (settle_history h) \<and> filter m_partial (settle_history h) = []"
  proof (cases "m_toolCalls (h ! i) = [] \<and> (\<forall>p \<in> set (m_content (h ! i)). isVacuousContentPart p)")
    case True
    have "plain (view (h ! i))" using True mi sp(2) by (simp add: plain_def view_def msg_ok_def)
    moreover have "map view h = map view (take i h) @ view (h ! i) # map view (drop (Suc i) h)"
      using arg_cong [OF sp(1), of "map view"] by simp
    ultimately have "answered (map view (take i h) @ map view (drop (Suc i) h))"
      using answered_remove [OF ok(2)] by blast
    then show ?thesis
      using ok one [OF ok(3)] True Some
      by (auto simp: settle_history_def settled_ok_def dest: in_set_takeD in_set_dropD)
  next
    case False
    have "h[i := (h ! i)\<lparr>m_partial := False\<rparr>] = take i h @ (h ! i)\<lparr>m_partial := False\<rparr> # drop (Suc i) h"
      using sp(3) by (simp add: upd_conv_take_nth_drop)
    then have "filter m_partial (h[i := (h ! i)\<lparr>m_partial := False\<rparr>]) = []"
      using one [OF ok(3)] by simp
    moreover have "\<forall>m \<in> set (h[i := (h ! i)\<lparr>m_partial := False\<rparr>]). msg_ok m"
      using ok(1) mi seal_ok set_update_subset_insert by fastforce
    moreover have "settle_history h = h[i := (h ! i)\<lparr>m_partial := False\<rparr>]"
      by (simp only: settle_history_def Some option.case if_not_P [OF False])
    ultimately show ?thesis
      using ok(2) sp(3) by (simp add: settled_ok_def map_view_update)
  qed
qed

lemma settleOpenStep_settles:
  assumes "ctx_inv s"
  shows "\<exists>h ctx. settleOpenStep s = (h, ctx) \<and> pending ctx = [] \<and> deferred ctx = [] \<and> settled_ok h \<and>
           filter m_partial h = []"
  using closePending_settles [OF assms] settle_history_ok by (auto simp: settleOpenStep_def)


section \<open>Every record keeps the invariant\<close>

definition record_ok :: "ctx_record \<Rightarrow> ctx_state \<Rightarrow> bool" where
  "record_ok r s \<longleftrightarrow>
     (case r of
        RAppendMessage m \<Rightarrow> foreign m
      | RLoopEvent (ToolCallEv _ cid _ _ _) \<Rightarrow>
          fst s \<noteq> [] \<and> m_partial (last (fst s)) \<and> cid \<notin> set (map tc_id (m_toolCalls (last (fst s))))
      | RCompaction i \<Rightarrow> \<not> ci_legacyTail i
      | _ \<Rightarrow> True)"

lemma inv_append: "ctx_inv s \<Longrightarrow> foreign m \<Longrightarrow> ctx_inv (foldAppendMessage m s)"
proof (cases s)
  case (Pair h ctx)
  assume "ctx_inv s" "foreign m"
  then show ?thesis
    using settled_ok_append [of h "[m]"] Pair
    by (cases "pending ctx = []")
      (simp_all add: foldAppendMessage_def ctx_inv_settled, simp_all add: ctx_inv_def)
qed

lemma inv_step_begin: "ctx_inv s \<Longrightarrow> ctx_inv (foldLoopEvent (StepBegin u) s)"
proof -
  assume "ctx_inv s"
  then obtain h ctx where s: "settleOpenStep s = (h, ctx)" "pending ctx = []" "deferred ctx = []"
      "settled_ok h" "filter m_partial h = []"
    using settleOpenStep_settles by blast
  then have "settled_ok (h @ [open_assistant])"
    using answered_plain [of "map view h" "view open_assistant"] by (auto simp: settled_ok_def)
  with s show ?thesis by (simp add: ctx_inv_settled)
qed

lemma step_end_settles:
  assumes "ctx_inv s"
  shows "\<exists>h ctx. foldLoopEvent (StepEnd u) s = (h, ctx) \<and> pending ctx = [] \<and> deferred ctx = [] \<and>
           settled_ok h \<and> filter m_partial h = []"
proof (cases s)
  case (Pair h ctx)
  with assms have "ctx_inv (h, ctx\<lparr>openStepUuid := None\<rparr>)" by (simp add: ctx_inv_def)
  from settleOpenStep_settles [OF this] Pair show ?thesis by auto
qed

lemma inv_step_end: "ctx_inv s \<Longrightarrow> ctx_inv (foldLoopEvent (StepEnd u) s)"
  using step_end_settles [of s u] by (auto simp: ctx_inv_settled)

text \<open>Updating the open assistant without touching role, partial flag or calls.\<close>

lemma open_exchange_view: "map view h' = map view h \<Longrightarrow> open_exchange h ids \<Longrightarrow> open_exchange h' ids"
proof -
  assume v: "map view h' = map view h" and "open_exchange h ids"
  then obtain pre a rs where h: "h = pre @ a # rs" "answered (map view pre)" "m_role a \<noteq> RTool"
      "m_toolCalls a \<noteq> []" "results (map view rs)"
      "answers (map view rs) + mset (map Some ids) = calls (view a)"
    by (auto simp: open_exchange_def)
  with v have "map view h' = map view pre @ view a # map view rs" by simp
  then obtain pre' a' rs' where h': "h' = pre' @ a' # rs'" "map view pre' = map view pre"
      "view a' = view a" "map view rs' = map view rs"
    by (auto simp: map_eq_append_conv map_eq_Cons_conv)
  moreover from h' h have "m_role a' = m_role a" "m_toolCalls a' \<noteq> []" by (auto simp: view_def)
  ultimately show ?thesis
    unfolding open_exchange_def using h
    by (rule_tac exI [of _ pre'], rule_tac exI [of _ a'], rule_tac exI [of _ rs']) simp
qed

lemma filter_length_update:
  assumes "i < length h" and "P x = P (h ! i)"
  shows "length (filter P (h[i := x])) = length (filter P h)"
proof -
  have "map P (h[i := x]) = (map P h)[i := map P h ! i]" using assms by (simp add: map_update)
  then have "map P (h[i := x]) = map P h" by simp
  moreover have "length (filter P xs) = length (filter (\<lambda>b. b) (map P xs))" for xs
    by (simp add: filter_map comp_def)
  ultimately show ?thesis by (simp only:)
qed

lemma inv_content: "ctx_inv s \<Longrightarrow> ctx_inv (foldLoopEvent (ContentPartEv u p) s)"
proof (cases s)
  case (Pair h ctx)
  assume inv: "ctx_inv s"
  let ?f = "\<lambda>m. m\<lparr>m_content := m_content m @ [p]\<rparr>"
  show ?thesis
  proof (cases "findOpenAssistantIndex h")
    case None
    with inv Pair show ?thesis by (simp add: appendToOpenAssistant_def)
  next
    case (Some i)
    let ?h = "h[i := ?f (h ! i)]"
    have i: "i < length h" using find_open_split [OF Some] by blast
    have v: "map view ?h = map view h" by (rule map_view_update [OF i]) (simp add: view_def)
    have "length (filter m_partial ?h) = length (filter m_partial h)"
      by (rule filter_length_update [OF i]) simp
    moreover have "msg_ok (?f (h ! i))" using inv i Pair by (auto simp: ctx_inv_def msg_ok_def)
    then have "\<forall>m \<in> set ?h. msg_ok m"
      using inv Pair set_update_subset_insert [of h i "?f (h ! i)"] by (auto simp: ctx_inv_def)
    moreover have "appendToOpenAssistant ?f h = ?h" by (simp add: appendToOpenAssistant_def Some)
    moreover have "if pending ctx = [] then deferred ctx = [] \<and> answered (map view ?h)
        else distinct (pending ctx) \<and> open_exchange ?h (pending ctx)"
      using inv Pair open_exchange_view [OF v] unfolding v by (simp add: ctx_inv_def)
    ultimately show ?thesis
      using inv Pair by (simp add: ctx_inv_def)
  qed
qed


lemma last_partial_open:
  assumes "h \<noteq> []" and "m_partial (last h)"
  shows "findOpenAssistantIndex h = Some (length h - 1)"
proof -
  from assms(1) have "h = butlast h @ [last h]" by simp
  moreover have "find_last_index P (xs @ [x]) = Some (length xs)" if "P x" for P xs and x :: ctx_message
    using that by (induction xs) auto
  ultimately show ?thesis
    unfolding findOpenAssistantIndex_def using assms(2) by (metis length_butlast)
qed

lemma inv_tool_call:
  assumes "ctx_inv s" and "record_ok (RLoopEvent (ToolCallEv u cid name args ex)) s"
  shows "ctx_inv (foldLoopEvent (ToolCallEv u cid name args ex) s)"
proof (cases s)
  case (Pair h ctx)
  let ?c = "call_of_event cid name args ex"
  let ?f = "\<lambda>m. m\<lparr>m_toolCalls := m_toolCalls m @ [?c]\<rparr>"
  have ok: "h \<noteq> []" "m_partial (last h)" "cid \<notin> set (map tc_id (m_toolCalls (last h)))"
    using assms(2) Pair by (simp_all add: record_ok_def)
  from ok(1) obtain pre a where h: "h = pre @ [a]" by (metis rev_exhaust)
  have inv: "\<forall>m \<in> set h. msg_ok m" "length (filter m_partial h) \<le> 1" "\<forall>m \<in> set (deferred ctx). foreign m"
    using assms(1) Pair by (simp_all add: ctx_inv_def)
  have a: "msg_ok a" "m_partial a" "m_role a = RAssistant" "c_origin a = None" using inv(1) ok(2) by (simp_all add: h msg_ok_def)
  have cid: "tc_id ?c = cid" by (simp add: call_of_event_def)
  have upd: "appendToOpenAssistant ?f h = pre @ [?f a]"
    using last_partial_open [OF ok(1,2)] h by (simp add: appendToOpenAssistant_def)
  have ex: "open_exchange (pre @ [?f a]) (os_add cid (pending ctx)) \<and> distinct (os_add cid (pending ctx))"
  proof (cases "pending ctx = []")
    case True
    with assms(1) Pair h have ans: "answered (map view pre @ [view a])" by (simp add: ctx_inv_settled settled_ok_def)
    with a have "plain (view a)" using answered_last_calls [OF ans refl] by (simp add: view_def)
    then have "m_toolCalls a = []" by (simp add: plain_def view_def)
    moreover have "answered (map view pre)" using answered_cut [OF ans, of "map view pre" "view a" "[]"] a
      by (simp add: view_def)
    ultimately show ?thesis
      using True a cid unfolding open_exchange_def
      by (auto simp: os_add_def calls_def view_def intro!: exI [of _ pre])
  next
    case False
    with assms(1) Pair have "open_exchange (pre @ [a]) (pending ctx)" "distinct (pending ctx)"
      by (simp_all add: ctx_inv_def h)
    then obtain pre' a' rs where o: "pre @ [a] = pre' @ a' # rs" "answered (map view pre')"
        "m_toolCalls a' \<noteq> []" "results (map view rs)"
        "answers (map view rs) + mset (map Some (pending ctx)) = calls (view a')"
      by (auto simp: open_exchange_def)
    have "rs = []"
    proof (cases rs rule: rev_cases)
      case (snoc rs' r)
      with o have "view a = view r" "fst (view r) = RTool" by auto
      with a show ?thesis by (simp add: view_def)
    qed simp
    with o have o': "pre' = pre" "a' = a" by auto
    with o \<open>rs = []\<close> have m: "mset (map Some (pending ctx)) = calls (view a)" by simp
    then have "set_mset (mset (map Some (pending ctx))) = set_mset (calls (view a))" by simp
    then have "Some ` set (pending ctx) = Some ` set (map tc_id (m_toolCalls a))"
      by (simp add: calls_def view_def image_image)
    then have "cid \<notin> set (pending ctx)" using ok(3) by (simp add: h inj_image_eq_iff)
    with o o' m a cid \<open>distinct (pending ctx)\<close> show ?thesis
      unfolding open_exchange_def
      by (auto simp: os_add_def calls_def view_def intro!: exI [of _ pre])
  qed
  have "length (filter m_partial (pre @ [?f a])) \<le> 1" using inv(2) h a(2) by simp
  moreover have "\<forall>m \<in> set (pre @ [?f a]). msg_ok m"
    using inv(1) h a by (auto simp: msg_ok_def)
  moreover have "os_add cid (pending ctx) \<noteq> []" by (auto simp: os_add_def)
  ultimately show ?thesis using ex inv(3) Pair upd by (simp add: ctx_inv_def)
qed

lemma inv_tool_result:
  assumes "ctx_inv s"
  shows "ctx_inv (foldLoopEvent (ToolResultEv cid out e n) s)"
proof (cases s)
  case (Pair h ctx)
  show ?thesis
  proof (cases "cid \<in> set (pending ctx)")
    case True
    let ?r = "tool_result_message cid out e n"
    let ?ids = "os_del cid (pending ctx)"
    from True have ne: "pending ctx \<noteq> []" by auto
    with assms Pair have inv: "\<forall>m \<in> set h. msg_ok m" "length (filter m_partial h) \<le> 1"
        "\<forall>m \<in> set (deferred ctx). foreign m" "distinct (pending ctx)" "open_exchange h (pending ctx)"
      by (simp_all add: ctx_inv_def)
    have ms: "mset (pending ctx) = add_mset cid (mset ?ids)"
      using True inv(4) by (simp add: os_del_def distinct_count_atmost_1 multiset_eq_iff)
    then have rest: "mset (map Some (pending ctx)) = add_mset (Some cid) (mset (map Some ?ids))"
      by simp
    have all: "\<forall>m \<in> set (h @ [?r]). msg_ok m" "length (filter m_partial (h @ [?r])) \<le> 1"
      using inv by simp_all
    show ?thesis
    proof (cases "?ids = []")
      case empty: True
      have "answered (map view (h @ [?r]))"
        using rest empty by (intro exchange_closed [OF inv(5)]) simp_all
      with all have "settled_ok (h @ [?r])" by (simp add: settled_ok_def)
      from settled_ok_append [OF this inv(3)] this show ?thesis
        using Pair True empty by (simp add: ctx_inv_settled)
    next
      case False
      from inv(5) obtain pre a rs where o: "h = pre @ a # rs" "answered (map view pre)" "m_role a \<noteq> RTool"
          "m_toolCalls a \<noteq> []" "results (map view rs)"
          "answers (map view rs) + mset (map Some (pending ctx)) = calls (view a)"
        by (auto simp: open_exchange_def)
      have "open_exchange (h @ [?r]) ?ids"
        unfolding open_exchange_def using o rest
        by (rule_tac exI [of _ pre], rule_tac exI [of _ a], rule_tac exI [of _ "rs @ [?r]"])
          (simp add: ms)
      with all inv False True Pair show ?thesis by (simp add: ctx_inv_def)
    qed
  next
    case False
    with assms Pair show ?thesis by simp
  qed
qed


lemma resetFold_inv: "settled_ok h \<Longrightarrow> ctx_inv (resetFold h)"
  by (simp add: resetFold_def init_fold_ctx_def ctx_inv_settled)

lemma settled_ok_Nil [simp]: "settled_ok []"
  by (simp add: settled_ok_def answered_Nil)

lemma inv_clear: "ctx_inv s \<Longrightarrow> ctx_inv (contextClear s)"
  by (simp add: contextClear_def resetFold_inv)

lemma plain_user: "m_role m = RUser \<Longrightarrow> msg_ok m \<Longrightarrow> foreign m"
  by (auto simp: foreign_def msg_ok_def)

lemma inv_compaction:
  assumes "ctx_inv s" and "\<not> ci_legacyTail i"
  shows "ctx_inv (contextApplyCompaction i s)"
proof -
  let ?P = "\<lambda>m. m_role m = RUser \<and> m_toolCalls m = [] \<and> \<not> m_partial m"
  let ?sel = "handoff_selection (fst s) defaultTokenEstimate"
  let ?msgs = "cs_messages (buildContextCompactionShape (fst s) i defaultTokenEstimate)"
  have P: "?P m \<Longrightarrow> ?P (replaceMessageText m t)" for m t by (simp add: replaceMessageText_def)
  have "\<forall>m \<in> set (collectCompactableUserMessages (fst s)). ?P m"
    using assms(1)
    by (auto simp: collectCompactableUserMessages_def isRealUserInput_def ctx_inv_def msg_ok_def split: prod.splits)
  from selection_all [where P = ?P, OF P this]
  have "\<forall>m \<in> set (sel_head ?sel @ sel_tail ?sel). ?P m" unfolding handoff_selection_def by blast
  then have "\<forall>m \<in> set ?msgs. foreign m"
    by (auto simp: shape_messages [OF assms(2)] kept_messages_def foreign_def split: if_splits)
  then have "settled_ok ?msgs" using settled_ok_append [of "[]" ?msgs] by simp
  then show ?thesis by (simp add: contextApplyCompaction_def resetFold_inv)
qed

section \<open>Where an undo cuts\<close>

definition cut_point :: "ctx_message \<Rightarrow> bool" where
  "cut_point m \<longleftrightarrow> isUndoAnchor m \<or> isInjection m"

lemma owned_start_le: "owned_start h i p \<le> i"
  by (induction h i p rule: owned_start.induct) (auto simp: le_SucI)

lemma owned_injection: "isPromptOwnedInjection m p \<Longrightarrow> isInjection m"
  by (auto simp: isPromptOwnedInjection_def isInjection_def split: option.splits origin.splits)

lemma owned_start_injections:
  "owned_start h i p \<le> j \<Longrightarrow> j < i \<Longrightarrow> isPromptOwnedInjection (h ! j) p"
proof (induction h i p rule: owned_start.induct)
  case (2 h i p)
  then show ?case by (cases "j = i") (auto split: if_splits)
qed simp

lemma undo_loop_point:
  assumes "n \<le> length h" and "cutIndex c = -1 \<or> (\<exists>k < length h. cutIndex c = int k \<and> cut_point (h ! k))"
  shows "cutIndex (undo_loop h n rem c) = -1 \<or>
           (\<exists>k < length h. cutIndex (undo_loop h n rem c) = int k \<and> cut_point (h ! k))"
  using assms
proof (induction n arbitrary: rem c)
  case (Suc n)
  have "cut_point (h ! owned_start h n (h ! n))" if "isUndoAnchor (h ! n)"
    using that owned_start_le [of h n "h ! n"] owned_start_injections [of h n "h ! n" "owned_start h n (h ! n)"]
    by (cases "owned_start h n (h ! n) = n") (auto simp: cut_point_def dest: owned_injection)
  moreover have "owned_start h n (h ! n) < length h"
    using owned_start_le [of h n "h ! n"] Suc.prems(1) by linarith
  ultimately show ?case using Suc by simp
qed simp

lemma computeUndoCut_point:
  assumes "isFullyUndoable (computeUndoCut h n) n"
  obtains k where "k < length h" "nat (cutIndex (computeUndoCut h n)) = k" "cut_point (h ! k)"
  using assms undo_loop_point [of "length h" h "\<lparr>cutIndex = -1, removedCount = 0, stoppedAtCompaction = False\<rparr>" n]
  by (auto simp: computeUndoCut_def isFullyUndoable_def)

lemma cut_point_plain: "cut_point m \<Longrightarrow> msg_ok m \<Longrightarrow> plain (view m)"
  by (auto simp: cut_point_def msg_ok_def plain_def view_def isUndoAnchor_def isInjection_def
      split: option.splits)

text \<open>The part of a history before a plain message of it is settled, even while an exchange is open.\<close>

lemma inv_cut:
  assumes "ctx_inv (h, ctx)" and "h = xs @ m # ys" and "plain (view m)"
  shows "settled_ok xs"
proof -
  have m: "m_role m \<noteq> RTool" "m_toolCalls m = []" using assms(3) by (simp_all add: plain_def view_def)
  have "answered (map view xs)"
  proof (cases "pending ctx = []")
    case True
    with assms have "answered (map view h)" by (simp add: ctx_inv_def)
    from answered_cut [OF this, of "map view xs" "view m" "map view ys"] assms(2) m show ?thesis
      by (simp add: view_def)
  next
    case False
    with assms(1) obtain pre a rs where o: "h = pre @ a # rs" "answered (map view pre)"
        "m_toolCalls a \<noteq> []" "results (map view rs)"
      by (auto simp: ctx_inv_def open_exchange_def)
    from o(1) assms(2) consider us where "pre = xs @ us" "us @ a # rs = m # ys"
      | us where "pre @ us = xs" "a # rs = us @ m # ys"
      by (auto simp: append_eq_append_conv2)
    then show ?thesis
    proof cases
      case 1
      then obtain us' where "us = m # us'" using m o(3) by (cases us) auto
      with 1 o(2) answered_cut [of "map view pre" "map view xs" "view m" "map view us'"] m show ?thesis
        by (simp add: view_def)
    next
      case 2
      then have "m \<in> set rs" using m o(3) by (cases us) auto
      with o(4) m show ?thesis by (auto simp: results_def view_def)
    qed
  qed
  moreover have "length (filter m_partial h) \<le> 1" "\<forall>m \<in> set h. msg_ok m"
    using assms(1) by (simp_all add: ctx_inv_def)
  ultimately show ?thesis using assms(2) by (simp add: settled_ok_def split: if_splits)
qed

lemma inv_undo: "ctx_inv s \<Longrightarrow> ctx_inv (contextUndo n s)"
proof (cases "isFullyUndoable (computeUndoCut (fst s) n) n \<and> isValidUndoCount n \<and> fst s \<noteq> []")
  case True
  assume inv: "ctx_inv s"
  obtain h ctx where s: "s = (h, ctx)" by (cases s)
  from True s obtain k where k: "k < length h" "nat (cutIndex (computeUndoCut h n)) = k" "cut_point (h ! k)"
    using computeUndoCut_point [of h n] by auto
  have "msg_ok (h ! k)" using inv s k(1) by (simp add: ctx_inv_def)
  from inv_cut [OF inv [unfolded s] id_take_nth_drop [OF k(1)] cut_point_plain [OF k(3) this]]
  have "settled_ok (take k h)" .
  with True s k(2) show ?thesis by (simp add: contextUndo_def Let_def resetFold_inv)
qed (auto simp: contextUndo_def Let_def)

lemma inv_swarm: "ctx_inv s \<Longrightarrow> ctx_inv (popSwarmModeReminder s)"
proof (cases "popSwarmModeReminder s = s")
  case False
  assume inv: "ctx_inv s"
  obtain h ctx where s: "s = (h, ctx)" by (cases s)
  from False s have h: "h \<noteq> []" "isInjection (last h)" "popSwarmModeReminder s = resetFold (butlast h)"
    by (auto simp: popSwarmModeReminder_def isInjection_def split: option.splits origin.splits if_splits)
  have "msg_ok (last h)" using inv s h(1) by (simp add: ctx_inv_def)
  with h(2) have "plain (view (last h))" using cut_point_plain by (simp add: cut_point_def)
  moreover have "h = butlast h @ last h # []" using h(1) by simp
  ultimately have "settled_ok (butlast h)" using inv_cut [OF inv [unfolded s]] by blast
  with h(3) show ?thesis by (simp add: resetFold_inv)
qed simp

theorem ctx_inv_step: "ctx_inv s \<Longrightarrow> record_ok r s \<Longrightarrow> ctx_inv (ctx_apply r s)"
proof (cases r)
  case (RLoopEvent ev)
  assume "ctx_inv s" "record_ok r s"
  with RLoopEvent show ?thesis
    by (cases ev)
      (simp_all only: ctx_apply.simps inv_step_begin inv_step_end inv_content inv_tool_result inv_tool_call)
qed (simp_all add: record_ok_def inv_append inv_clear inv_compaction inv_undo inv_swarm)

section \<open>Reachable histories\<close>

inductive ctx_reach :: "ctx_record list \<Rightarrow> ctx_state \<Rightarrow> bool" where
  ctx_reach_init: "ctx_reach [] ctx_init"
| ctx_reach_step: "ctx_reach rs s \<Longrightarrow> record_ok r s \<Longrightarrow> ctx_reach (rs @ [r]) (ctx_apply r s)"

lemma ctx_reach_inv: "ctx_reach rs s \<Longrightarrow> ctx_inv s"
  by (induction rule: ctx_reach.induct) (auto simp: ctx_init_def resetFold_inv ctx_inv_step)

section \<open>Nothing the host appends is lost\<close>

text \<open>Everything but the origin-less assistant and tool messages, which the fold makes itself.\<close>

definition from_host :: "ctx_message \<Rightarrow> bool" where
  "from_host m \<longleftrightarrow> c_origin m \<noteq> None \<or> m_role m \<noteq> RAssistant \<and> m_role m \<noteq> RTool"

definition appended :: "ctx_record list \<Rightarrow> ctx_message list" where
  "appended rs = concat (map (\<lambda>r. case r of RAppendMessage m \<Rightarrow> [m] | _ \<Rightarrow> []) rs)"

definition fold_record :: "ctx_record \<Rightarrow> bool" where
  "fold_record r \<longleftrightarrow> (case r of RAppendMessage _ \<Rightarrow> True | RLoopEvent _ \<Rightarrow> True | _ \<Rightarrow> False)"

definition host_messages :: "ctx_state \<Rightarrow> ctx_message list" where
  "host_messages s = filter from_host (fst s) @ filter from_host (deferred (snd s))"

lemma host_flush [simp]: "host_messages (flushDeferred s) = host_messages s"
  by (cases s) (auto simp: host_messages_def)

lemma not_from_host [simp]:
  "\<not> from_host (interruptedToolMessage i)" "\<not> from_host (tool_result_message i out e n)"
  "\<not> from_host open_assistant"
  by (simp_all add: from_host_def interruptedToolMessage_def tool_result_message_def createToolMessage_def)

lemma host_close: "deferred (snd s) = [] \<or> pending (snd s) \<noteq> [] \<Longrightarrow> host_messages (closePending s) = host_messages s"
proof (cases s)
  case (Pair h ctx)
  have "filter from_host (map interruptedToolMessage (pending ctx)) = []" by (simp add: filter_empty_conv)
  with Pair show ?thesis by (auto simp: host_messages_def)
qed

lemma filter_update_other:
  assumes "i < length h" and "\<not> P (h ! i)" and "\<not> P x"
  shows "filter P (h[i := x]) = filter P h"
proof -
  have "filter P (h[i := x]) = filter P (take i h) @ filter P (drop (Suc i) h)"
    using assms by (simp add: upd_conv_take_nth_drop)
  also have "\<dots> = filter P (take i h @ h ! i # drop (Suc i) h)" using assms(2) by simp
  also have "take i h @ h ! i # drop (Suc i) h = h" using assms(1) by (simp add: id_take_nth_drop [symmetric])
  finally show ?thesis .
qed

lemma open_not_host:
  assumes "\<forall>m \<in> set h. msg_ok m" and "findOpenAssistantIndex h = Some i"
  shows "\<not> from_host (h ! i)"
  using find_open_split(2,3) [OF assms(2)] assms(1) by (auto simp: from_host_def msg_ok_def)

lemma host_settle_history:
  assumes "\<forall>m \<in> set h. msg_ok m"
  shows "filter from_host (settle_history h) = filter from_host h"
proof (cases "findOpenAssistantIndex h")
  case (Some i)
  note sp = find_open_split [OF Some] and nh = open_not_host [OF assms Some]
  have "filter from_host (take i h @ drop (Suc i) h) = filter from_host (take i h @ h ! i # drop (Suc i) h)"
    using nh by simp
  then have drop: "filter from_host (take i h @ drop (Suc i) h) = filter from_host h"
    using sp(1) by simp
  have "\<not> from_host ((h ! i)\<lparr>m_partial := False\<rparr>)" using nh by (simp add: from_host_def)
  from filter_update_other [OF sp(3) nh this] drop Some show ?thesis
    by (simp add: settle_history_def)
qed (simp add: settle_history_def)

lemma host_append_open:
  assumes "\<forall>m \<in> set h. msg_ok m" and "\<And>m. m_role (f m) = m_role m \<and> c_origin (f m) = c_origin m"
  shows "filter from_host (appendToOpenAssistant f h) = filter from_host h"
proof (cases "findOpenAssistantIndex h")
  case (Some i)
  note nh = open_not_host [OF assms(1) Some]
  have "\<not> from_host (f (h ! i))" using nh assms(2) by (simp add: from_host_def)
  from filter_update_other [OF find_open_split(3) [OF Some] nh this] Some show ?thesis
    by (simp add: appendToOpenAssistant_def)
qed (simp add: appendToOpenAssistant_def)

lemma host_settle_step:
  assumes "ctx_inv s"
  shows "host_messages (settleOpenStep s) = host_messages s"
proof -
  obtain h ctx where c: "closePending s = (h, ctx)" "settled_ok h"
    using closePending_settles [OF assms] by auto
  have "deferred (snd s) = [] \<or> pending (snd s) \<noteq> []"
    using assms by (auto simp: ctx_inv_def split: prod.splits if_splits)
  from host_close [OF this] c host_settle_history [of h] show ?thesis
    by (simp add: settleOpenStep_def host_messages_def settled_ok_def)
qed

lemma host_loop_event:
  assumes "ctx_inv s"
  shows "host_messages (foldLoopEvent ev s) = host_messages s"
proof (cases ev)
  case (StepBegin u)
  obtain h ctx where s: "settleOpenStep s = (h, ctx)" by (cases "settleOpenStep s")
  with host_settle_step [OF assms] StepBegin show ?thesis by (simp add: host_messages_def)
next
  case (StepEnd u)
  obtain h ctx where s: "s = (h, ctx)" by (cases s)
  with assms have "ctx_inv (h, ctx\<lparr>openStepUuid := None\<rparr>)" by (simp add: ctx_inv_def)
  note host_settle_step [OF this]
  moreover have "host_messages (foldLoopEvent ev s) = host_messages (settleOpenStep (h, ctx\<lparr>openStepUuid := None\<rparr>))"
    using s StepEnd by simp
  ultimately show ?thesis using s by (simp add: host_messages_def)
next
  case (ContentPartEv u p)
  with assms show ?thesis
    by (cases s) (simp add: host_messages_def ctx_inv_def host_append_open)
next
  case (ToolCallEv u cid name args ex)
  with assms show ?thesis
    by (cases s) (simp add: host_messages_def ctx_inv_def host_append_open)
next
  case (ToolResultEv cid out e n)
  obtain h ctx where s: "s = (h, ctx)" by (cases s)
  have "foldLoopEvent ev s = (if cid \<notin> set (pending ctx) then (h, ctx) else
      flushDeferred (h @ [tool_result_message cid out e n], ctx\<lparr>pending := os_del cid (pending ctx)\<rparr>))"
    using ToolResultEv s by simp
  then show ?thesis using s by (simp del: flushDeferred.simps) (simp add: host_messages_def)
qed

lemma host_append:
  "ctx_inv s \<Longrightarrow> host_messages (foldAppendMessage m s) = host_messages s @ filter from_host [m]"
  by (cases s) (auto simp: foldAppendMessage_def host_messages_def ctx_inv_def)

lemma host_conserved:
  "ctx_reach rs s \<Longrightarrow> \<forall>r \<in> set rs. fold_record r \<Longrightarrow> host_messages s = filter from_host (appended rs)"
proof (induction rule: ctx_reach.induct)
  case ctx_reach_init
  then show ?case by (simp add: ctx_init_def resetFold_def init_fold_ctx_def host_messages_def appended_def)
next
  case (ctx_reach_step rs s r)
  then have IH: "host_messages s = filter from_host (appended rs)" by simp
  note inv = ctx_reach_inv [OF ctx_reach_step.hyps(1)]
  show ?case
  proof (cases r)
    case (RAppendMessage m)
    with IH host_append [OF inv, of m] show ?thesis by (simp add: appended_def)
  next
    case (RLoopEvent ev)
    with IH host_loop_event [OF inv, of ev] show ?thesis by (simp add: appended_def)
  qed (use ctx_reach_step.prems in \<open>auto simp: fold_record_def\<close>)
qed

section \<open>A failed attempt leaves no trace\<close>

lemma settle_drops_vacuous:
  assumes "m_partial m" and "m_toolCalls m = []" and "\<forall>p \<in> set (m_content m). isVacuousContentPart p"
  shows "settle_history (h @ [m]) = h"
  using last_partial_open [of "h @ [m]"] assms by (simp add: settle_history_def nth_append)

lemma fold_content_parts:
  assumes "m_partial m"
  shows "fold (\<lambda>p. foldLoopEvent (ContentPartEv u p)) ps (h @ [m], ctx) =
           (h @ [m\<lparr>m_content := m_content m @ ps\<rparr>], ctx)"
  using assms
proof (induction ps arbitrary: m)
  case (Cons p ps)
  have "appendToOpenAssistant f (h @ [m]) = h @ [f m]" for f
    using last_partial_open [of "h @ [m]"] Cons.prems by (simp add: appendToOpenAssistant_def nth_append)
  with Cons.IH [of "m\<lparr>m_content := m_content m @ [p]\<rparr>"] Cons.prems show ?case by simp
qed simp

lemma retry_no_trace:
  assumes "\<forall>p \<in> set ps. isVacuousContentPart p" and "ctx_inv s"
  shows "foldLoopEvent (StepBegin u2) (fold (\<lambda>p. foldLoopEvent (ContentPartEv u1 p)) ps
           (foldLoopEvent (StepBegin u1) s)) = foldLoopEvent (StepBegin u2) s"
proof -
  obtain h ctx where s: "settleOpenStep s = (h, ctx)" "pending ctx = []"
    using settleOpenStep_settles [OF assms(2)] by auto
  have "settle_history (h @ [open_assistant\<lparr>m_content := ps\<rparr>]) = h"
    using assms(1) by (intro settle_drops_vacuous) simp_all
  with s show ?thesis by (simp add: fold_content_parts settleOpenStep_def)
qed

section \<open>What an undo cut removes\<close>

definition is_summary :: "ctx_message \<Rightarrow> bool" where
  "is_summary m \<longleftrightarrow> c_origin m = Some CompactionSummary"

definition anchors :: "ctx_message list \<Rightarrow> nat" where
  "anchors h = length (filter isUndoAnchor h)"

text \<open>The messages since the last compaction summary.\<close>

definition since_summary :: "ctx_message list \<Rightarrow> ctx_message list" where
  "since_summary h = rev (takeWhile (\<lambda>m. \<not> is_summary m) (rev h))"

lemma anchors_simps [simp]:
  "anchors [] = 0" "anchors (xs @ ys) = anchors xs + anchors ys"
  "anchors (m # ms) = (if isUndoAnchor m then 1 else 0) + anchors ms"
  by (simp_all add: anchors_def)

lemma since_summary_simps [simp]:
  "since_summary [] = []"
  "since_summary (xs @ [x]) = (if is_summary x then [] else since_summary xs @ [x])"
  by (simp_all add: since_summary_def)

lemma anchor_other: "isUndoAnchor m \<Longrightarrow> \<not> isInjection m \<and> \<not> is_summary m"
  by (auto simp: isUndoAnchor_def isInjection_def is_summary_def split: option.splits origin.splits)

lemma injection_other: "isInjection m \<Longrightarrow> \<not> isUndoAnchor m \<and> \<not> is_summary m"
  by (auto simp: isUndoAnchor_def isInjection_def is_summary_def split: option.splits origin.splits)

lemma undo_loop_step:
  "0 < rem \<Longrightarrow> undo_loop h (Suc n) rem c =
     (if is_summary (h ! n) then c\<lparr>stoppedAtCompaction := True\<rparr>
      else if isUndoAnchor (h ! n) then undo_loop h n (rem - 1)
          (c\<lparr>cutIndex := int (owned_start h n (h ! n)), removedCount := removedCount c + 1\<rparr>)
      else undo_loop h n rem c)"
  using anchor_other [of "h ! n"] injection_other [of "h ! n"] by (auto simp: is_summary_def)

lemma undo_loop_stop: "rem \<le> 0 \<Longrightarrow> undo_loop h n rem c = c"
  by (cases n) auto

lemma undo_loop_counts:
  "n \<le> length h \<Longrightarrow>
     removedCount (undo_loop h n rem c) =
       removedCount c + min (max rem 0) (int (anchors (since_summary (take n h)))) \<and>
     (stoppedAtCompaction (undo_loop h n rem c) \<longleftrightarrow> stoppedAtCompaction c \<or>
       int (anchors (since_summary (take n h))) < rem \<and> (\<exists>m \<in> set (take n h). is_summary m))"
proof (induction n arbitrary: rem c)
  case 0
  then show ?case by simp
next
  case (Suc n)
  show ?case
  proof (cases "0 < rem")
    case False
    then show ?thesis by (auto simp: undo_loop_stop simp del: undo_loop.simps)
  next
    case True
    have take: "take (Suc n) h = take n h @ [h ! n]" using Suc.prems by (simp add: take_Suc_conv_app_nth)
    show ?thesis
      using Suc True unfolding undo_loop_step [OF True] take
      by (auto simp: max_def min_def)
  qed
qed

definition cut_ok :: "ctx_message list \<Rightarrow> nat \<Rightarrow> bool" where
  "cut_ok h k \<longleftrightarrow> (\<exists>own p rest. drop k h = own @ p # rest \<and> isUndoAnchor p \<and>
     (\<forall>m \<in> set own. isPromptOwnedInjection m p) \<and>
     (0 < k \<longrightarrow> \<not> isPromptOwnedInjection (h ! (k - 1)) p))"

lemma owned_start_maximal: "0 < owned_start h i p \<Longrightarrow> \<not> isPromptOwnedInjection (h ! (owned_start h i p - 1)) p"
  by (induction h i p rule: owned_start.induct) auto

lemma drop_owned:
  assumes "n < length h"
  shows "\<exists>own. drop (owned_start h n p) (take (Suc n) h) = own @ [h ! n] \<and>
           (\<forall>m \<in> set own. isPromptOwnedInjection m p)"
proof -
  let ?k = "owned_start h n p"
  have "drop ?k (take (Suc n) h) = drop ?k (take n h) @ [h ! n]"
    using assms owned_start_le [of h n p] by (simp add: take_Suc_conv_app_nth)
  moreover have "\<forall>m \<in> set (drop ?k (take n h)). isPromptOwnedInjection m p"
    using owned_start_injections [of h n p] assms by (auto simp: in_set_conv_nth)
  ultimately show ?thesis by blast
qed

lemma undo_loop_cut:
  assumes "n \<le> length h" and "0 < rem" and "rem \<le> int (anchors (since_summary (take n h)))"
  shows "\<exists>k < n. cutIndex (undo_loop h n rem c) = int k \<and> cut_ok h k \<and>
           int (anchors (drop k (take n h))) = rem \<and> (\<forall>m \<in> set (drop k (take n h)). \<not> is_summary m)"
  using assms
proof (induction n arbitrary: rem c)
  case 0
  then show ?case by simp
next
  case (Suc n)
  let ?m = "h ! n" and ?k = "owned_start h n (h ! n)"
  have n: "n < length h" using Suc.prems by simp
  then have take: "take (Suc n) h = take n h @ [?m]" by (simp add: take_Suc_conv_app_nth)
  have ns: "\<not> is_summary ?m" using Suc.prems take by (auto split: if_splits)
  have extend: "\<exists>k < Suc n. cutIndex x = int k \<and> cut_ok h k \<and> int (anchors (drop k (take (Suc n) h))) = r' \<and>
      (\<forall>m \<in> set (drop k (take (Suc n) h)). \<not> is_summary m)"
    if "\<exists>k < n. cutIndex x = int k \<and> cut_ok h k \<and> int (anchors (drop k (take n h))) = r \<and>
      (\<forall>m \<in> set (drop k (take n h)). \<not> is_summary m)" "r' = r + (if isUndoAnchor ?m then 1 else 0)" for x r r'
  proof -
    from that obtain k where "k < n" "cutIndex x = int k" "cut_ok h k" "int (anchors (drop k (take n h))) = r"
        "\<forall>m \<in> set (drop k (take n h)). \<not> is_summary m" by blast
    moreover have "drop k (take (Suc n) h) = drop k (take n h) @ [?m]"
      using \<open>k < n\<close> n by (simp add: take)
    ultimately show ?thesis using ns that(2) by (intro exI [of _ k]) auto
  qed
  consider "isUndoAnchor ?m" "rem = 1" | "isUndoAnchor ?m" "1 < rem" | "\<not> isUndoAnchor ?m"
    using Suc.prems by linarith
  then show ?case
  proof cases
    case 1
    obtain own where own: "drop ?k (take (Suc n) h) = own @ [?m]" "\<forall>m \<in> set own. isPromptOwnedInjection m ?m"
      using drop_owned [OF n] by blast
    have k: "?k \<le> n" by (rule owned_start_le)
    have "drop ?k h = drop ?k (take (Suc n) h) @ drop (Suc n) h"
      using k n by (metis append_take_drop_id drop_append diff_is_0_eq drop0 le_SucI length_take min.absorb2 Suc_leI)
    with own 1 have "cut_ok h ?k"
      unfolding cut_ok_def using owned_start_maximal [of h n ?m]
      by (intro exI [of _ own] exI [of _ ?m] exI [of _ "drop (Suc n) h"]) simp
    moreover have "anchors own = 0"
      using own(2) by (auto simp: anchors_def filter_empty_conv dest: owned_injection injection_other)
    moreover have "\<forall>m \<in> set own. \<not> is_summary m"
      using own(2) by (auto dest: owned_injection injection_other)
    ultimately show ?thesis
      using 1 ns k own unfolding undo_loop_step [OF Suc.prems(2)]
      by (intro exI [of _ ?k]) (simp add: undo_loop_stop del: undo_loop.simps)
  next
    case 2
    have "rem - 1 \<le> int (anchors (since_summary (take n h)))" using 2 Suc.prems ns by (simp add: take)
    from extend [OF Suc.IH [OF _ _ this], of rem] 2 n ns show ?thesis
      unfolding undo_loop_step [OF Suc.prems(2)] by simp
  next
    case 3
    have "rem \<le> int (anchors (since_summary (take n h)))" using 3 Suc.prems ns by (simp add: take)
    from extend [OF Suc.IH [OF _ _ this], of rem] 3 n ns Suc.prems show ?thesis
      unfolding undo_loop_step [OF Suc.prems(2)] by simp
  qed
qed

lemma computeUndoCut_counts:
  "removedCount (computeUndoCut h n) = min (max n 0) (int (anchors (since_summary h)))"
  "stoppedAtCompaction (computeUndoCut h n) \<longleftrightarrow>
     int (anchors (since_summary h)) < n \<and> (\<exists>m \<in> set h. is_summary m)"
  using undo_loop_counts [of "length h" h n] by (simp_all add: computeUndoCut_def)

lemma computeUndoCut_cut:
  assumes "0 < n" and "n \<le> int (anchors (since_summary h))"
  shows "\<exists>k < length h. cutIndex (computeUndoCut h n) = int k \<and> cut_ok h k \<and>
           int (anchors (drop k h)) = n \<and> (\<forall>m \<in> set (drop k h). \<not> is_summary m)"
  using undo_loop_cut [of "length h" h n] assms by (simp add: computeUndoCut_def)

lemma fully_undoable_iff:
  "isFullyUndoable (computeUndoCut h n) n \<longleftrightarrow> 0 < n \<and> n \<le> int (anchors (since_summary h))"
proof (cases "0 < n")
  case True
  then show ?thesis
    using computeUndoCut_cut [of n h] computeUndoCut_counts(1) [of h n]
    by (auto simp: isFullyUndoable_def)
next
  case False
  then show ?thesis by (simp add: isFullyUndoable_def computeUndoCut_def undo_loop_stop)
qed


section \<open>Context and checkpoints keep step\<close>

definition clock_ok :: "ctx_record \<Rightarrow> ctx_state \<Rightarrow> bool" where
  "clock_ok r s \<longleftrightarrow>
     (case r of
        RAppendMessage m \<Rightarrow> \<not> is_summary m
      | RUndo _ \<Rightarrow> pending (snd s) = []
      | _ \<Rightarrow> True)"

inductive ctx_session :: "ctx_record list \<Rightarrow> ctx_state \<Rightarrow> bool" where
  ctx_session_init: "ctx_session [] ctx_init"
| ctx_session_step: "ctx_session rs s \<Longrightarrow> record_ok r s \<Longrightarrow> clock_ok r s \<Longrightarrow>
    ctx_session (rs @ [r]) (ctx_apply r s)"

lemma ctx_session_reach: "ctx_session rs s \<Longrightarrow> ctx_reach rs s"
  by (induction rule: ctx_session.induct) (auto intro: ctx_reach.intros)

lemmas ctx_session_inv = ctx_reach_inv [OF ctx_session_reach]

definition undo_depth :: "ctx_state \<Rightarrow> nat" where
  "undo_depth s = anchors (since_summary (host_messages s))"

lemma anchor_from_host: "isUndoAnchor m \<Longrightarrow> from_host m"
  by (simp add: isUndoAnchor_def from_host_def)

lemma summary_from_host: "is_summary m \<Longrightarrow> from_host m"
  by (simp add: is_summary_def from_host_def)

lemma since_summary_host [simp]: "anchors (since_summary (filter from_host h)) = anchors (since_summary h)"
  by (induction h rule: rev_induct) (auto dest: summary_from_host anchor_from_host)

lemma since_summary_append: "\<forall>m \<in> set ys. \<not> is_summary m \<Longrightarrow> since_summary (xs @ ys) = since_summary xs @ ys"
proof (induction ys rule: rev_induct)
  case (snoc y ys)
  then have "since_summary ((xs @ ys) @ [y]) = since_summary xs @ ys @ [y]"
    by (subst since_summary_simps(2)) simp
  then show ?case by simp
qed simp

lemma depth_settled: "deferred (snd s) = [] \<Longrightarrow> undo_depth s = anchors (since_summary (fst s))"
  by (simp add: undo_depth_def host_messages_def)

lemma depth_reset [simp]: "undo_depth (resetFold h) = anchors (since_summary h)"
  by (subst depth_settled) (simp_all add: resetFold_def init_fold_ctx_def)

lemma inv_pending_deferred: "ctx_inv s \<Longrightarrow> pending (snd s) = [] \<Longrightarrow> deferred (snd s) = []"
  by (simp add: ctx_inv_def split: prod.splits)

lemma inv_empty: "ctx_inv s \<Longrightarrow> fst s = [] \<Longrightarrow> pending (snd s) = []"
  by (auto simp: ctx_inv_def open_exchange_def split: prod.splits if_splits)

text \<open>While an exchange is open its call or one of its results is the last message.\<close>

lemma inv_last_origin:
  assumes "ctx_inv s" and "fst s \<noteq> []" and "c_origin (last (fst s)) \<noteq> None"
  shows "pending (snd s) = []"
proof (rule ccontr)
  assume p: "pending (snd s) \<noteq> []"
  obtain h ctx where s: "s = (h, ctx)" by (cases s)
  with assms(1) p obtain pre a rs where o: "h = pre @ a # rs" "m_toolCalls a \<noteq> []" "results (map view rs)"
    by (auto simp: ctx_inv_def open_exchange_def)
  have ok: "\<forall>m \<in> set h. msg_ok m" using assms(1) s by (simp add: ctx_inv_def)
  show False
  proof (cases rs rule: rev_cases)
    case Nil
    with o ok assms(3) s show False by (simp add: msg_ok_def)
  next
    case (snoc rs' r)
    with o ok assms(3) s show False by (simp add: msg_ok_def view_def)
  qed
qed

lemma clear_depth: "ctx_inv s \<Longrightarrow> undo_depth (contextClear s) = 0"
  using inv_empty inv_pending_deferred depth_settled by (auto simp: contextClear_def)

lemma compaction_depth: "\<not> ci_legacyTail i \<Longrightarrow> undo_depth (contextApplyCompaction i s) = 0"
  by (simp add: contextApplyCompaction_def shape_messages is_summary_def flip: append_assoc)

lemma swarm_depth:
  assumes "ctx_inv s"
  shows "undo_depth (popSwarmModeReminder s) = undo_depth s"
proof (cases "popSwarmModeReminder s = s")
  case False
  obtain h ctx where s: "s = (h, ctx)" by (cases s)
  from False s have h: "h \<noteq> []" "isInjection (last h)" "popSwarmModeReminder s = resetFold (butlast h)"
    by (auto simp: popSwarmModeReminder_def isInjection_def split: option.splits origin.splits if_splits)
  from h(2) have "c_origin (last h) \<noteq> None" by (auto simp: isInjection_def split: option.splits)
  with inv_last_origin [OF assms] s h(1) have "deferred (snd s) = []"
    using inv_pending_deferred [OF assms] by simp
  moreover have "anchors (since_summary h) = anchors (since_summary (butlast h))"
    using since_summary_simps(2) [of "butlast h" "last h"] injection_other [OF h(2)] h(1) by simp
  ultimately show ?thesis using s h(3) by (simp add: depth_settled)
qed simp

text \<open>What an undo does to the history, when it does anything.\<close>

lemma contextUndo_effect:
  assumes "isValidUndoCount n"
  shows "contextUndo n s =
     (if n \<le> int (anchors (since_summary (fst s)))
      then resetFold (take (nat (cutIndex (computeUndoCut (fst s) n))) (fst s)) else s)"
proof -
  have "0 < n" using assms by (simp add: isValidUndoCount_def)
  then show ?thesis
    using assms fully_undoable_iff [of "fst s" n] by (auto simp: contextUndo_def Let_def)
qed

lemma undo_history_depth:
  assumes "0 < n" and "n \<le> int (anchors (since_summary h))"
  shows "int (anchors (since_summary (take (nat (cutIndex (computeUndoCut h n))) h))) =
           int (anchors (since_summary h)) - n"
proof -
  obtain k where k: "k < length h" "cutIndex (computeUndoCut h n) = int k" "int (anchors (drop k h)) = n"
      "\<forall>m \<in> set (drop k h). \<not> is_summary m"
    using computeUndoCut_cut [OF assms] by auto
  have "since_summary h = since_summary (take k h) @ drop k h"
    using since_summary_append [OF k(4), of "take k h"] by simp
  then have "anchors (since_summary h) = anchors (since_summary (take k h)) + anchors (drop k h)"
    by (metis anchors_simps(2))
  with k show ?thesis by simp
qed

lemma checkpoints_keep_step:
  "ctx_session rs s \<Longrightarrow>
     length (checkpoints (fold (checkpointed_apply f) rs \<lparr>current = a, checkpoints = []\<rparr>)) = undo_depth s"
proof (induction rule: ctx_session.induct)
  case ctx_session_init
  then show ?case by (simp add: ctx_init_def)
next
  case (ctx_session_step rs s r)
  let ?c = "fold (checkpointed_apply f) rs \<lparr>current = a, checkpoints = []\<rparr>"
  note inv = ctx_session_inv [OF ctx_session_step.hyps(1)]
  show ?case
  proof (cases r)
    case (RAppendMessage m)
    then have "since_summary (host_messages s @ filter from_host [m]) =
        since_summary (host_messages s) @ filter from_host [m]"
      using ctx_session_step.hyps(3) by (intro since_summary_append) (simp add: clock_ok_def)
    then have "undo_depth (foldAppendMessage m s) = undo_depth s + (if isUndoAnchor m then 1 else 0)"
      using anchor_from_host [of m] host_append [OF inv, of m] by (auto simp: undo_depth_def)
    with RAppendMessage ctx_session_step.IH show ?thesis by (cases f) auto
  next
    case (RLoopEvent ev)
    with host_loop_event [OF inv, of ev] ctx_session_step.IH show ?thesis
      by (simp add: undo_depth_def)
  next
    case (RUndo n)
    then have "deferred (snd s) = []"
      using ctx_session_step.hyps(3) inv_pending_deferred [OF inv] by (simp add: clock_ok_def)
    then have d: "length (checkpoints ?c) = anchors (since_summary (fst s))"
      using ctx_session_step.IH by (simp add: depth_settled)
    show ?thesis
    proof (cases "isValidUndoCount n \<and> n \<le> int (anchors (since_summary (fst s)))")
      case True
      then have "0 < n" by (simp add: isValidUndoCount_def)
      with True undo_history_depth [of n "fst s"] RUndo d show ?thesis
        by (simp add: contextUndo_effect Let_def not_less)
    next
      case False
      then have "ctx_apply r s = s"
        using RUndo contextUndo_effect [of n s] by (cases "isValidUndoCount n") (simp_all add: contextUndo_def)
      moreover have "checkpointed_apply f r ?c = ?c" using RUndo False d by auto
      ultimately show ?thesis using ctx_session_step.IH by simp
    qed
  qed (use ctx_session_step inv in \<open>auto simp: clear_depth compaction_depth swarm_depth record_ok_def\<close>)
qed

section \<open>Undoing a prompt and everything after it\<close>

text \<open>With no open assistant in it, the history before a prompt is never touched again.\<close>

lemma find_last_index_prefix:
  assumes "\<forall>x \<in> set xs. \<not> P x"
  shows "find_last_index P (xs @ ys) = map_option ((+) (length xs)) (find_last_index P ys)"
  using assms
proof (induction xs)
  case Nil
  then show ?case by (simp add: option.map_ident)
next
  case (Cons x xs)
  then have "find_last_index P (xs @ ys) = map_option ((+) (length xs)) (find_last_index P ys)" by simp
  with Cons.prems show ?case
    by (cases "find_last_index P ys") (simp_all del: find_last_index_None)
qed

lemma find_open_prefix:
  "filter m_partial h0 = [] \<Longrightarrow>
     findOpenAssistantIndex (h0 @ t) = map_option ((+) (length h0)) (findOpenAssistantIndex t)"
  by (simp add: findOpenAssistantIndex_def find_last_index_prefix filter_empty_conv)

lemma settle_prefix:
  "filter m_partial h0 = [] \<Longrightarrow> settle_history (h0 @ t) = h0 @ settle_history t"
  by (cases "findOpenAssistantIndex t")
    (simp_all add: settle_history_def find_open_prefix list_update_append)

lemma append_open_prefix:
  "filter m_partial h0 = [] \<Longrightarrow> appendToOpenAssistant f (h0 @ t) = h0 @ appendToOpenAssistant f t"
  by (cases "findOpenAssistantIndex t")
    (simp_all add: appendToOpenAssistant_def find_open_prefix list_update_append)

definition under :: "ctx_message list \<Rightarrow> ctx_state \<Rightarrow> ctx_state" where
  "under h0 s = (h0 @ fst s, snd s)"

lemma under_simps [simp]: "under h0 (t, ctx) = (h0 @ t, ctx)"
  by (simp add: under_def)

lemma flush_under: "flushDeferred (under h0 s) = under h0 (flushDeferred s)"
  by (cases s) simp

lemma close_under: "closePending (under h0 s) = under h0 (closePending s)"
proof (cases s)
  case (Pair t ctx)
  then show ?thesis using flush_under [of h0 "(t @ map interruptedToolMessage (pending ctx), ctx\<lparr>pending := []\<rparr>)"]
    by (simp del: flushDeferred.simps)
qed

lemma settle_under:
  "filter m_partial h0 = [] \<Longrightarrow> settleOpenStep (under h0 s) = under h0 (settleOpenStep s)"
  using close_under [of h0 s] by (cases "closePending s") (simp add: settleOpenStep_def settle_prefix)

lemma step_under:
  assumes "filter m_partial h0 = []" and "fold_record r"
  shows "ctx_apply r (under h0 s) = under h0 (ctx_apply r s)"
proof (cases r)
  case (RAppendMessage m)
  then show ?thesis by (cases s) (simp add: foldAppendMessage_def)
next
  case (RLoopEvent ev)
  obtain t ctx where s: "s = (t, ctx)" by (cases s)
  show ?thesis
  proof (cases ev)
    case (StepBegin u)
    then show ?thesis
      using RLoopEvent settle_under [OF assms(1), of s] by (cases "settleOpenStep s") simp
  next
    case (StepEnd u)
    have "settleOpenStep (h0 @ t, ctx\<lparr>openStepUuid := None\<rparr>) =
        under h0 (settleOpenStep (t, ctx\<lparr>openStepUuid := None\<rparr>))"
      using settle_under [OF assms(1), of "(t, ctx\<lparr>openStepUuid := None\<rparr>)"] by simp
    with StepEnd RLoopEvent s show ?thesis by (simp add: flush_under del: flushDeferred.simps)
  next
    case (ToolResultEv cid out e n)
    with RLoopEvent s show ?thesis
      using flush_under [of h0 "(t @ [tool_result_message cid out e n],
        ctx\<lparr>pending := os_del cid (pending ctx)\<rparr>)"] by (simp del: flushDeferred.simps)
  qed (use RLoopEvent s assms append_open_prefix in simp_all)
qed (use assms in \<open>auto simp: fold_record_def\<close>)

lemma steps_under:
  assumes "filter m_partial h0 = []"
  shows "\<forall>r \<in> set rs. fold_record r \<Longrightarrow> fold ctx_apply rs (under h0 s) = under h0 (fold ctx_apply rs s)"
  by (induction rs arbitrary: s) (simp_all add: step_under [OF assms])

text \<open>A session's records form a run of the fold from any state that satisfies the invariant.\<close>

fun run_ok :: "ctx_record list \<Rightarrow> ctx_state \<Rightarrow> bool" where
  "run_ok [] s = True"
| "run_ok (r # rs) s = (record_ok r s \<and> run_ok rs (ctx_apply r s))"

lemma run_inv: "ctx_inv s \<Longrightarrow> run_ok rs s \<Longrightarrow> ctx_inv (fold ctx_apply rs s)"
  by (induction rs arbitrary: s) (auto simp: ctx_inv_step)

lemma run_host:
  "ctx_inv s \<Longrightarrow> run_ok rs s \<Longrightarrow> \<forall>r \<in> set rs. fold_record r \<Longrightarrow>
     host_messages (fold ctx_apply rs s) = host_messages s @ filter from_host (appended rs)"
proof (induction rs arbitrary: s)
  case Nil
  then show ?case by (simp add: appended_def)
next
  case (Cons r rs)
  then have "ctx_inv (ctx_apply r s)" by (simp add: ctx_inv_step)
  with Cons have IH: "host_messages (fold ctx_apply rs (ctx_apply r s)) =
      host_messages (ctx_apply r s) @ filter from_host (appended rs)" by simp
  show ?case
  proof (cases r)
    case (RAppendMessage m)
    with IH host_append [OF Cons.prems(1), of m] show ?thesis by (simp add: appended_def)
  next
    case (RLoopEvent ev)
    with IH host_loop_event [OF Cons.prems(1), of ev] show ?thesis by (simp add: appended_def)
  qed (use Cons.prems in \<open>auto simp: fold_record_def\<close>)
qed

lemma run_under:
  assumes "filter m_partial h0 = []" and "m_role p \<noteq> RAssistant"
  shows "\<forall>r \<in> set rs. fold_record r \<Longrightarrow> \<exists>t ctx. fold ctx_apply rs (h0 @ p # t0, ctx0) = (h0 @ t, ctx)"
proof -
  assume "\<forall>r \<in> set rs. fold_record r"
  from steps_under [OF assms(1) this, of "(p # t0, ctx0)"] show ?thesis
    by (cases "fold ctx_apply rs (p # t0, ctx0)") simp
qed

lemma anchors_host: "anchors h = anchors (filter from_host h)"
  by (simp add: anchors_def) (metis anchor_from_host)

text \<open>The cut for all anchors of a stretch that starts with one, and holds no summary, is at its start.\<close>

lemma cut_at_prompt:
  assumes "t = p # t'" and "isUndoAnchor p" and "\<forall>m \<in> set t. \<not> is_summary m"
  shows "\<exists>k own. cutIndex (computeUndoCut (h0 @ t) (int (anchors t))) = int k \<and>
           h0 = take k (h0 @ t) @ own \<and> (\<forall>m \<in> set own. isPromptOwnedInjection m p)"
proof -
  have ss: "since_summary (h0 @ t) = since_summary h0 @ t" by (rule since_summary_append [OF assms(3)])
  have "0 < int (anchors t)" using assms by simp
  from computeUndoCut_cut [OF this, of "h0 @ t"] ss obtain k where
    k: "k < length (h0 @ t)" "cutIndex (computeUndoCut (h0 @ t) (int (anchors t))) = int k"
      "cut_ok (h0 @ t) k" "anchors (drop k (h0 @ t)) = anchors t" by auto
  from k(3) obtain own q rest where o: "drop k (h0 @ t) = own @ q # rest" "isUndoAnchor q"
      "\<forall>m \<in> set own. isPromptOwnedInjection m q" by (auto simp: cut_ok_def)
  have own0: "anchors own = 0"
    using o(3) by (auto simp: anchors_def filter_empty_conv dest: owned_injection injection_other)
  have kq: "anchors (q # rest) = anchors t" using k(4) own0 unfolding o(1) by simp
  define pre where "pre = take k (h0 @ t) @ own"
  have split: "h0 @ t = pre @ q # rest"
    unfolding pre_def using o(1) by (metis append.assoc append_take_drop_id)
  have len: "length pre = length h0"
  proof (rule ccontr)
    assume ne: "length pre \<noteq> length h0"
    from split consider us where "h0 = pre @ us" "us @ t = q # rest" | us where "pre = h0 @ us" "t = us @ q # rest"
      unfolding append_eq_append_conv2 by metis
    then show False
    proof cases
      case 1
      then obtain us' where "us = q # us'" using ne by (cases us) auto
      with 1 have "rest = us' @ t" by simp
      with kq o(2) show False by simp
    next
      case 2
      then obtain us' where "us = p # us'" using ne assms(1) by (cases us) auto
      with 2 have "anchors t = anchors us + anchors (q # rest)" "0 < anchors us" using assms(2) by simp_all
      with kq show False by simp
    qed
  qed
  have "pre = h0 \<and> q # rest = t" using split len by (metis append_eq_append_conv)
  with k(2) o(3) assms(1) show ?thesis
    by (intro exI [of _ k] exI [of _ own]) (simp add: pre_def)
qed

section \<open>Checkpointed models\<close>

lemma checkpoint_run:
  "\<forall>r \<in> set rs. fold_record r \<or> r = RSwarmExit \<Longrightarrow>
     \<exists>c cs. fold (checkpointed_apply f) rs s = \<lparr>current = c, checkpoints = checkpoints s @ cs\<rparr> \<and>
       length cs = anchors (appended rs)"
proof (induction rs arbitrary: s)
  case Nil
  then show ?case by (cases s) (simp add: appended_def)
next
  case (Cons r rs)
  let ?s = "checkpointed_apply f r s"
  from Cons obtain c cs where IH: "fold (checkpointed_apply f) rs ?s =
      \<lparr>current = c, checkpoints = checkpoints ?s @ cs\<rparr>" "length cs = anchors (appended rs)" by fastforce
  have app: "appended (r # rs) = (case r of RAppendMessage m \<Rightarrow> [m] | _ \<Rightarrow> []) @ appended rs"
    by (simp add: appended_def)
  show ?case
  proof (cases "\<exists>m. r = RAppendMessage m \<and> isUndoAnchor m")
    case True
    with IH app show ?thesis by (intro exI [of _ c] exI [of _ "current s # cs"]) auto
  next
    case False
    then have "checkpoints ?s = checkpoints s"
      using Cons.prems by (cases r) (auto simp: fold_record_def split: option.splits)
    moreover have "anchors (case r of RAppendMessage m \<Rightarrow> [m] | _ \<Rightarrow> []) = 0"
      using False by (auto split: ctx_record.splits)
    ultimately show ?thesis using IH app by auto
  qed
qed

lemma checkpoint_restored:
  assumes "isUndoAnchor p" and "\<forall>r \<in> set rs. fold_record r \<or> r = RSwarmExit"
    and "n = int (Suc (anchors (appended rs)))" and "n \<le> MAX_SAFE_INTEGER"
  shows "checkpointed_apply f (RUndo n) (fold (checkpointed_apply f) (RAppendMessage p # rs) s) = s"
proof -
  have s1: "checkpointed_apply f (RAppendMessage p) s = s\<lparr>checkpoints := checkpoints s @ [current s]\<rparr>"
    using assms(1) by simp
  from checkpoint_run [OF assms(2), of f "s\<lparr>checkpoints := checkpoints s @ [current s]\<rparr>"]
  obtain c cs where run: "fold (checkpointed_apply f) (RAppendMessage p # rs) s =
      \<lparr>current = c, checkpoints = checkpoints s @ [current s] @ cs\<rparr>" "length cs = anchors (appended rs)"
    using s1 by auto
  have "isValidUndoCount n" using assms(3,4) by (simp add: isValidUndoCount_def MAX_SAFE_INTEGER_def)
  moreover have "nat n = Suc (length cs)" using assms(3) run(2) by simp
  ultimately show ?thesis unfolding run(1) by (simp add: Let_def nth_append)
qed

section \<open>Properties\<close>

text \<open>A run of the fold with a call, a message that arrives while it is open, and an unfinished call.\<close>

definition demo_run :: "ctx_record list" where
  "demo_run =
     [RAppendMessage (as_ctx (createUserMessage ''hi'')),
      RLoopEvent (StepBegin ''u1''),
      RLoopEvent (ToolCallEv ''u1'' ''a'' ''Read'' None None),
      RAppendMessage (as_ctx (createUserMessage ''wait'')),
      RLoopEvent (ToolCallEv ''u1'' ''b'' ''Bash'' None None),
      RLoopEvent (ToolResultEv ''a'' (OutStr ''done'') False None)]"

lemma fold_reach: "ctx_reach rs0 s \<Longrightarrow> run_ok rs s \<Longrightarrow> ctx_reach (rs0 @ rs) (fold ctx_apply rs s)"
proof (induction rs arbitrary: rs0 s)
  case (Cons r rs)
  with ctx_reach_step [of rs0 s r] have "ctx_reach (rs0 @ [r]) (ctx_apply r s)" by simp
  with Cons.IH [of "rs0 @ [r]"] Cons.prems show ?case by simp
qed simp

lemmas model_state_defs = ctx_init_def resetFold_def init_fold_ctx_def foldAppendMessage_def
  settleOpenStep_def settle_history_def findOpenAssistantIndex_def appendToOpenAssistant_def
  open_assistant_def call_of_event_def tool_result_message_def createUserMessage_def
  createAssistantMessage_def createToolMessage_def as_ctx_def message.defs ctx_message.defs

lemma demo_run_ok: "run_ok demo_run ctx_init"
  by (simp add: demo_run_def record_ok_def foreign_def model_state_defs os_add_def os_del_def)

lemma demo_run_reach: "ctx_reach demo_run (fold ctx_apply demo_run ctx_init)"
  using fold_reach [OF ctx_reach_init demo_run_ok] by simp

text \<open>
  C3. After the \<open>step.end\<close> of a history written in the order the loop keeps, nothing is open any more: no partial message,
  no pending call, no deferred message, and every message with tool calls is directly followed by exactly
  one result for each of them. The histories are those of \<open>ctx_reach\<close>: any mix of appends, loop events, clears, compactions,
  undos and swarm exits under three conditions. A \<open>tool.call\<close> comes while the open assistant message is the last one, so
  no message of the host stands between the \<open>step.begin\<close> and the first call, and no result before a call (the loop
  dispatches all calls of a step before any result); its id is not one of the calls of that message; the host appends no tool
  result, no message with calls and no partial one, and no compaction keeps a legacy tail. The first condition
  is needed: a message the host appends inside the step before its first call stays between the call and its result (lemma
  \<open>reminder_inside_step\<close>), and only the projection repairs it.
\<close>
theorem step_end_answers_all_calls:
  assumes "ctx_reach rs s"
  shows "\<exists>h ctx. foldLoopEvent (StepEnd u) s = (h, ctx) \<and> answered (map view h) \<and>
           pending ctx = [] \<and> deferred ctx = [] \<and> (\<forall>m \<in> set h. \<not> m_partial m)"
  using step_end_settles [OF ctx_reach_inv [OF assms]]
  by (auto simp: settled_ok_def filter_empty_conv)

theorem step_end_answers_all_calls_witness:
  "\<exists>h ctx. foldLoopEvent (StepEnd ''u1'') (fold ctx_apply demo_run ctx_init) = (h, ctx) \<and>
     answered (map view h) \<and> pending ctx = [] \<and> deferred ctx = [] \<and> (\<forall>m \<in> set h. \<not> m_partial m)"
  by (rule step_end_answers_all_calls [OF demo_run_reach])

text \<open>The run the first condition excludes.\<close>

definition interrupted_step :: "ctx_record list" where
  "interrupted_step =
     [RAppendMessage (as_ctx (createUserMessage ''hi'')),
      RLoopEvent (StepBegin ''u1''),
      RAppendMessage (as_ctx (createUserMessage ''reminder'')),
      RLoopEvent (ToolCallEv ''u1'' ''a'' ''Read'' None None),
      RLoopEvent (ToolResultEv ''a'' (OutStr ''done'') False None),
      RLoopEvent (StepEnd ''u1'')]"

lemma reminder_inside_step: "\<not> answered (map view (fst (fold ctx_apply interrupted_step ctx_init)))"
proof
  have v: "map view (fst (fold ctx_apply interrupted_step ctx_init)) =
      [(RUser, None, []), (RAssistant, None, [''a''])] @ (RUser, None, []) # [(RTool, Some ''a'', [])]"
    by (simp add: interrupted_step_def model_state_defs os_add_def os_del_def view_def)
  assume "answered (map view (fst (fold ctx_apply interrupted_step ctx_init)))"
  from answered_cut [OF this v] have "answered ([(RUser, None, [])] @ [(RAssistant, None, [''a''])])" by simp
  from answered_last_calls [OF this refl] show False by (simp add: plain_def)
qed

text \<open>
  No append is lost, duplicated or reordered: in any reachable run of appends and loop events the
  host's messages in the history, followed by the deferred ones, are exactly those appended, in order.
\<close>
theorem appended_messages_conserved:
  assumes "ctx_reach rs s" and "\<forall>r \<in> set rs. fold_record r"
  shows "filter from_host (fst s) @ filter from_host (deferred (snd s)) = filter from_host (appended rs)"
  using host_conserved [OF assms] by (simp add: host_messages_def)

theorem appended_messages_conserved_witness:
  "filter from_host (fst (fold ctx_apply demo_run ctx_init)) @
     filter from_host (deferred (snd (fold ctx_apply demo_run ctx_init))) =
   filter from_host (appended demo_run)"
  by (rule appended_messages_conserved [OF demo_run_reach]) (simp add: demo_run_def fold_record_def)

text \<open>
  C7. A failed attempt leaves no trace: a step that recorded nothing but vacuous content parts before the
  retry's \<open>step.begin\<close> gives the very state the retry alone would give.
\<close>
theorem failed_attempt_leaves_no_trace:
  assumes "ctx_reach rs s" and "\<forall>p \<in> set ps. isVacuousContentPart p"
  shows "foldLoopEvent (StepBegin u2) (fold (\<lambda>p. foldLoopEvent (ContentPartEv u1 p)) ps
           (foldLoopEvent (StepBegin u1) s)) = foldLoopEvent (StepBegin u2) s"
  by (rule retry_no_trace [OF assms(2) ctx_reach_inv [OF assms(1)]])

theorem failed_attempt_leaves_no_trace_witness:
  "foldLoopEvent (StepBegin ''u3'') (fold (\<lambda>p. foldLoopEvent (ContentPartEv ''u2'' p)) [TextPart '' '']
     (foldLoopEvent (StepBegin ''u2'') (fold ctx_apply demo_run ctx_init))) =
   foldLoopEvent (StepBegin ''u3'') (fold ctx_apply demo_run ctx_init)"
  by (rule failed_attempt_leaves_no_trace [OF demo_run_reach])
    (simp add: js_space_def)

text \<open>
  The precheck of an undo is exact: undoing \<open>n\<close> turns is allowed iff at least \<open>n\<close> prompts
  follow the last compaction summary; otherwise the answer names the compaction boundary when
  the history has a summary, an empty history when there is no prompt, and reports the number of undoable turns.
\<close>
lemma precheckUndo_exact:
  assumes "0 < n"
  shows "precheckUndo h n =
    (if n \<le> int (anchors (since_summary h)) then None
     else Some \<lparr>uu_reason = (if \<exists>m \<in> set h. is_summary m then UCompactionBoundary
                             else if anchors h = 0 then UEmpty else UInsufficient),
       uu_requested = n, uu_undoable = int (anchors (since_summary h))\<rparr>)"
proof -
  have "since_summary h = h" if "\<not> (\<exists>m \<in> set h. is_summary m)"
    using since_summary_append [of h "[]"] that by simp
  then show ?thesis
    using assms by (auto simp: precheckUndo_def Let_def fully_undoable_iff computeUndoCut_counts)
qed

theorem precheckUndo_exact_witness:
  "precheckUndo [as_ctx (createUserMessage ''hi'')] 2 =
    (if 2 \<le> int (anchors (since_summary [as_ctx (createUserMessage ''hi'')])) then None
     else Some \<lparr>uu_reason = (if \<exists>m \<in> set [as_ctx (createUserMessage ''hi'')]. is_summary m
         then UCompactionBoundary
         else if anchors [as_ctx (createUserMessage ''hi'')] = 0 then UEmpty else UInsufficient),
       uu_requested = 2, uu_undoable = int (anchors (since_summary [as_ctx (createUserMessage ''hi'')]))\<rparr>)"
  by (rule precheckUndo_exact) simp

text \<open>
  An undo of \<open>n\<close> turns that the context can do cuts the history to a prefix: exactly \<open>n\<close> prompts are
  removed, no compaction summary is, the cut starts at the first removed prompt together with all the
  injections in front of it that it owns, and the fold is reset. One it cannot do changes nothing.
\<close>
lemma contextUndo_cuts_turns:
  assumes "isValidUndoCount n"
  shows "if n \<le> int (anchors (since_summary (fst s)))
    then \<exists>k < length (fst s). contextUndo n s = resetFold (take k (fst s)) \<and> cut_ok (fst s) k \<and>
           int (anchors (drop k (fst s))) = n \<and> (\<forall>m \<in> set (drop k (fst s)). \<not> is_summary m)
    else contextUndo n s = s"
proof -
  have "0 < n" using assms by (simp add: isValidUndoCount_def)
  show ?thesis
  proof (cases "n \<le> int (anchors (since_summary (fst s)))")
    case True
    from computeUndoCut_cut [OF \<open>0 < n\<close> True] obtain k where "k < length (fst s)"
        "cutIndex (computeUndoCut (fst s) n) = int k" "cut_ok (fst s) k" "int (anchors (drop k (fst s))) = n"
        "\<forall>m \<in> set (drop k (fst s)). \<not> is_summary m" by blast
    with True contextUndo_effect [OF assms, of s] show ?thesis by auto
  next
    case False
    with contextUndo_effect [OF assms, of s] show ?thesis by simp
  qed
qed

theorem contextUndo_cuts_turns_witness:
  "if 1 \<le> int (anchors (since_summary (fst (fold ctx_apply demo_run ctx_init))))
    then \<exists>k < length (fst (fold ctx_apply demo_run ctx_init)).
           contextUndo 1 (fold ctx_apply demo_run ctx_init) =
             resetFold (take k (fst (fold ctx_apply demo_run ctx_init))) \<and>
           cut_ok (fst (fold ctx_apply demo_run ctx_init)) k \<and>
           int (anchors (drop k (fst (fold ctx_apply demo_run ctx_init)))) = 1 \<and>
           (\<forall>m \<in> set (drop k (fst (fold ctx_apply demo_run ctx_init))). \<not> is_summary m)
    else contextUndo 1 (fold ctx_apply demo_run ctx_init) = fold ctx_apply demo_run ctx_init"
  by (rule contextUndo_cuts_turns) (simp add: isValidUndoCount_def MAX_SAFE_INTEGER_def)

text \<open>
  C5. Context and checkpoints count the same turns: each checkpointed model holds one checkpoint per undoable prompt, where
  the deferred prompts count too; so with no call pending an undo of \<open>n\<close> turns is possible in the context iff it is in every
  checkpointed model. This is for the sessions of \<open>ctx_session\<close>: the histories of C3 (tool calls in the loop's order, no legacy
  tail) in which every undo runs while no tool call is pending and no message the host appends is a compaction summary. The code
  does not enforce this on the records it replays; on others the two counts can drift apart, which is what its
  refusal with \<open>checkpoint_lost\<close> is for.
\<close>
theorem checkpoints_match_anchors:
  assumes "ctx_session rs s"
  shows "length (checkpoints (fold (checkpointed_apply f) rs \<lparr>current = a, checkpoints = []\<rparr>)) =
           anchors (since_summary (host_messages s)) \<and>
         (pending (snd s) = [] \<longrightarrow> 0 < n \<longrightarrow>
           (precheckUndo (fst s) n = None \<longleftrightarrow>
             n \<le> int (length (checkpoints (fold (checkpointed_apply f) rs \<lparr>current = a, checkpoints = []\<rparr>)))))"
proof -
  note len = checkpoints_keep_step [OF assms, of f a]
  have "undo_depth s = anchors (since_summary (fst s))" if "pending (snd s) = []"
    using depth_settled inv_pending_deferred [OF ctx_session_inv [OF assms] that] by blast
  then show ?thesis
    using len fully_undoable_iff [of "fst s" n] by (auto simp: undo_depth_def precheckUndo_def Let_def)
qed

definition demo_session :: "ctx_record list" where
  "demo_session = [RAppendMessage (as_ctx (createUserMessage ''hi''))]"

lemma demo_session_ok: "ctx_session demo_session (fold ctx_apply demo_session ctx_init)"
proof -
  let ?p = "as_ctx (createUserMessage ''hi'')"
  have "ctx_session ([] @ [RAppendMessage ?p]) (ctx_apply (RAppendMessage ?p) ctx_init)"
    by (rule ctx_session_step [OF ctx_session_init])
      (simp_all add: record_ok_def clock_ok_def foreign_def createUserMessage_def is_summary_def)
  then show ?thesis by (simp add: demo_session_def)
qed

theorem checkpoints_match_anchors_witness:
  "length (checkpoints (fold (checkpointed_apply (None :: (nat \<Rightarrow> ctx_message \<Rightarrow> nat) option)) demo_session
       \<lparr>current = 0, checkpoints = []\<rparr>)) =
     anchors (since_summary (host_messages (fold ctx_apply demo_session ctx_init))) \<and>
   (precheckUndo (fst (fold ctx_apply demo_session ctx_init)) 1 = None \<longleftrightarrow>
     1 \<le> int (length (checkpoints (fold (checkpointed_apply (None :: (nat \<Rightarrow> ctx_message \<Rightarrow> nat) option))
       demo_session \<lparr>current = 0, checkpoints = []\<rparr>))))"
proof -
  have "pending (snd (fold ctx_apply demo_session ctx_init)) = []"
    by (simp add: demo_session_def model_state_defs)
  with checkpoints_match_anchors [OF demo_session_ok, where f = None and a = "0 :: nat" and n = 1]
  show ?thesis by simp
qed

text \<open>
  C4. Undo is the inverse of a turn: from any idle reachable history, after a prompt and whatever appends
  and loop events follow it (further prompts included), undoing all those prompts gives back the history
  before the prompt, up to the injections the prompt owns, and gives every checkpointed model back the
  exact state it had before the prompt.
\<close>
theorem undo_inverts_turns:
  assumes "ctx_reach rs0 (h0, ctx0)" and "pending ctx0 = []" and "\<forall>m \<in> set h0. \<not> m_partial m"
    and "foreign p" and "isUndoAnchor p"
    and "run_ok rs (foldAppendMessage p (h0, ctx0))" and "\<forall>r \<in> set rs. fold_record r"
    and "\<forall>m \<in> set (appended rs). \<not> is_summary m"
    and "s = fold ctx_apply rs (foldAppendMessage p (h0, ctx0))" and "pending (snd s) = []"
    and "n = int (Suc (anchors (appended rs)))" and "n \<le> MAX_SAFE_INTEGER"
  shows "(\<exists>h own. contextUndo n s = resetFold h \<and> h0 = h @ own \<and>
           (\<forall>m \<in> set own. isPromptOwnedInjection m p)) \<and>
         checkpointed_apply f (RUndo n) (fold (checkpointed_apply f) (RAppendMessage p # rs) c) = c"
proof -
  have inv0: "ctx_inv (h0, ctx0)" by (rule ctx_reach_inv [OF assms(1)])
  from inv0 assms(4) have inv1: "ctx_inv (foldAppendMessage p (h0, ctx0))" by (rule inv_append)
  have s1: "foldAppendMessage p (h0, ctx0) = under (h0 @ [p]) ([], ctx0)"
    using assms(2) by (simp add: foldAppendMessage_def)
  have np: "filter m_partial (h0 @ [p]) = []" using assms(3,4) by (simp add: foreign_def filter_empty_conv)
  obtain t' ctx where t': "s = (h0 @ p # t', ctx)"
    using steps_under [OF np assms(7), of "([], ctx0)"] assms(9) s1
    by (cases "fold ctx_apply rs ([], ctx0)") simp
  have inv: "ctx_inv s" using run_inv [OF inv1 assms(6)] assms(9) by simp
  have d0: "deferred ctx0 = []" "deferred ctx = []"
    using inv_pending_deferred [OF inv0] inv_pending_deferred [OF inv] assms(2,10) t' by simp_all
  have ph: "from_host p" by (rule anchor_from_host [OF assms(5)])
  have "host_messages s = host_messages (h0 @ [p], ctx0) @ filter from_host (appended rs)"
    using run_host [OF inv1 assms(6,7)] assms(9) s1 by simp
  then have t: "filter from_host t' = filter from_host (appended rs)"
    using d0 t' ph by (simp add: host_messages_def)
  have an: "n = int (anchors (p # t'))"
    using assms(5,11) anchors_host [of t'] anchors_host [of "appended rs"] t by simp
  have ns: "\<forall>m \<in> set (p # t'). \<not> is_summary m"
  proof
    fix m assume "m \<in> set (p # t')"
    then consider "m = p" | "m \<in> set t'" by auto
    then show "\<not> is_summary m"
    proof cases
      case 2
      show ?thesis
      proof
        assume "is_summary m"
        with 2 have "m \<in> set (filter from_host t')" by (simp add: summary_from_host)
        with t assms(8) \<open>is_summary m\<close> show False by auto
      qed
    qed (use anchor_other [OF assms(5)] in simp)
  qed
  obtain k own where k: "cutIndex (computeUndoCut (h0 @ p # t') n) = int k"
      "h0 = take k (h0 @ p # t') @ own" "\<forall>m \<in> set own. isPromptOwnedInjection m p"
    using cut_at_prompt [OF refl assms(5) ns, of h0] an by auto
  have v: "isValidUndoCount n" using assms(11,12) by (simp add: isValidUndoCount_def MAX_SAFE_INTEGER_def)
  have "n \<le> int (anchors (since_summary (fst s)))"
    using an t' since_summary_append [OF ns, of h0] by simp
  then have "contextUndo n s = resetFold (take k (h0 @ p # t'))"
    using contextUndo_effect [OF v, of s] t' k(1) by simp
  moreover have "checkpointed_apply f (RUndo n) (fold (checkpointed_apply f) (RAppendMessage p # rs) c) = c"
    using checkpoint_restored [OF assms(5) _ assms(11,12)] assms(7) by blast
  ultimately show ?thesis using k by blast
qed

definition demo_turn :: "ctx_record list" where
  "demo_turn =
     [RLoopEvent (StepBegin ''u1''), RLoopEvent (ContentPartEv ''u1'' (TextPart ''ok'')),
      RLoopEvent (StepEnd ''u1''), RAppendMessage (as_ctx (createUserMessage ''more''))]"

theorem undo_inverts_turns_witness:
  "(\<exists>h own. contextUndo 2 (fold ctx_apply demo_turn
        (foldAppendMessage (as_ctx (createUserMessage ''hi'')) ([], init_fold_ctx))) = resetFold h \<and>
      [] = h @ own \<and> (\<forall>m \<in> set own. isPromptOwnedInjection m (as_ctx (createUserMessage ''hi'')))) \<and>
   checkpointed_apply None (RUndo 2) (fold (checkpointed_apply None)
      (RAppendMessage (as_ctx (createUserMessage ''hi'')) # demo_turn) \<lparr>current = (7 :: nat), checkpoints = []\<rparr>) =
     \<lparr>current = 7, checkpoints = []\<rparr>"
proof (rule undo_inverts_turns)
  show "ctx_reach [] ([], init_fold_ctx)" using ctx_reach_init by (simp add: ctx_init_def resetFold_def)
qed (simp_all add: demo_turn_def foreign_def isUndoAnchor_def record_ok_def fold_record_def appended_def
      is_summary_def MAX_SAFE_INTEGER_def model_state_defs)

end
