(* ===== verification/Undo.thy ===== *)
theory Undo imports ContextMemory_Proofs begin

text \<open>
  The services over the conversation history: the ledger of measured context sizes
  (\<^verbatim>\<open>agent/tokenCounting\<close>), the memory service that dispatches history and ledger operations
  together (\<^verbatim>\<open>agent/contextMemory/contextMemoryService.ts\<close>), and the undo service that checks and
  commits an undo (\<^verbatim>\<open>agent/undo/undoService.ts\<close>).

  A JavaScript number is an integer here; token counts and lengths are integers in the program. The
  identity comparison of the measured input with the live context is equality of the two lists.
  Telemetry, the persistence flushes and the participants' reconciliation that follow a committed undo
  are not modelled.
\<close>

section \<open>The token ledger\<close>

record token_anchor =
  ta_length :: nat
  ta_tokens :: int
  ta_measured :: bool

record token_state =
  ts_anchors :: "token_anchor list"
  ts_tokens :: int

definition init_token_state :: token_state where
  "init_token_state = \<lparr>ts_anchors = [], ts_tokens = 0\<rparr>"

definition normalizeAnchorLength :: "int \<Rightarrow> nat" where
  "normalizeAnchorLength l = nat (max 0 l)"

definition tokenCountingMeasured :: "int \<Rightarrow> int \<Rightarrow> token_state \<Rightarrow> token_state" where
  "tokenCountingMeasured len tokens s =
     (let l = normalizeAnchorLength len; t = max 0 tokens in
      \<lparr>ts_anchors = filter (\<lambda>a. ta_length a < l) (ts_anchors s) @
         [\<lparr>ta_length = l, ta_tokens = t, ta_measured = True\<rparr>], ts_tokens = t\<rparr>)"

definition tokenCountingTruncated :: "int \<Rightarrow> int \<Rightarrow> token_state \<Rightarrow> token_state" where
  "tokenCountingTruncated len tokens s =
     (let l = normalizeAnchorLength len; t = max 0 tokens in
      \<lparr>ts_anchors = filter (\<lambda>a. ta_length a \<le> l) (ts_anchors s), ts_tokens = t\<rparr>)"

definition tokenCountingRebased :: "int \<Rightarrow> int \<Rightarrow> bool \<Rightarrow> token_state \<Rightarrow> token_state" where
  "tokenCountingRebased len tokens measured s =
     (let l = normalizeAnchorLength len; t = max 0 tokens in
      \<lparr>ts_anchors = [\<lparr>ta_length = l, ta_tokens = t, ta_measured = measured\<rparr>], ts_tokens = t\<rparr>)"

definition ZERO_ANCHOR :: token_anchor where
  "ZERO_ANCHOR = \<lparr>ta_length = 0, ta_tokens = 0, ta_measured = True\<rparr>"

text \<open>The loop from the newest anchor back to one the live context still reaches.\<close>

definition latestAnchor :: "token_state \<Rightarrow> nat \<Rightarrow> token_anchor" where
  "latestAnchor s contextLength =
     (case find_last_index (\<lambda>a. ta_length a \<le> contextLength) (ts_anchors s) of
        None \<Rightarrow> ZERO_ANCHOR
      | Some i \<Rightarrow> ts_anchors s ! i)"

definition normalizeSliceIndex :: "int \<Rightarrow> nat \<Rightarrow> nat" where
  "normalizeSliceIndex i len = (if i < 0 then nat (max (int len + i) 0) else min (nat i) len)"

definition js_slice :: "nat \<Rightarrow> nat \<Rightarrow> 'a list \<Rightarrow> 'a list" where
  "js_slice from to xs = take (to - from) (drop from xs)"

record context_size =
  sz_size :: int
  sz_measured :: int
  sz_estimated :: int

definition tokenCounting_get ::
  "token_state \<Rightarrow> ctx_message list \<Rightarrow> int option \<Rightarrow> int option \<Rightarrow> context_size" where
  "tokenCounting_get s context start stop =
     (let from = normalizeSliceIndex (or_default start 0) (length context);
          to = normalizeSliceIndex (or_default stop (int (length context))) (length context);
          anchor = latestAnchor s (length context);
          measuredEnd = min to (ta_length anchor);
          estimatedStart = max from (ta_length anchor);
          measured = (if from = 0 \<and> measuredEnd = ta_length anchor then ta_tokens anchor
                      else int (estimateTokensForMessages (js_slice from measuredEnd context)));
          estimated = int (estimateTokensForMessages (js_slice estimatedStart to context))
      in \<lparr>sz_size = measured + estimated, sz_measured = measured, sz_estimated = estimated\<rparr>)"

record token_usage =
  u_inputCacheRead :: int
  u_inputCacheCreation :: int
  u_inputOther :: int
  u_output :: int

definition tokenUsageTotal :: "token_usage \<Rightarrow> int" where
  "tokenUsageTotal u = u_inputCacheRead u + u_inputCacheCreation u + u_inputOther u + u_output u"

definition tokenCounting_measured ::
  "ctx_message list \<Rightarrow> token_usage \<Rightarrow> ctx_message list \<Rightarrow> token_state \<Rightarrow> token_state" where
  "tokenCounting_measured input usage context s =
     (if input \<noteq> context then s
      else tokenCountingMeasured (int (length context)) (tokenUsageTotal usage) s)"

definition latestMeasured :: "token_state \<Rightarrow> int" where
  "latestMeasured s =
     (case find_last_index ta_measured (ts_anchors s) of
        None \<Rightarrow> 0
      | Some i \<Rightarrow> ta_tokens (ts_anchors s ! i))"

datatype counting_strategy = Measured | Estimated | MeasuredPlusEstimated

definition statusSize :: "counting_strategy \<Rightarrow> token_state \<Rightarrow> ctx_message list \<Rightarrow> int" where
  "statusSize strategy s context =
     (case strategy of
        Measured \<Rightarrow> latestMeasured s
      | Estimated \<Rightarrow> int (estimateTokensForMessages context)
      | MeasuredPlusEstimated \<Rightarrow>
          max (sz_size (tokenCounting_get s context None None)) (latestMeasured s))"

definition requestSize :: "string \<Rightarrow> tool list \<Rightarrow> ctx_message list \<Rightarrow> int" where
  "requestSize systemPrompt tools messages =
     int (estimateTokens systemPrompt + estimateTokensForTools tools + estimateTokensForMessages messages)"

section \<open>The memory service\<close>

record memory =
  mem_ctx :: ctx_state
  mem_tokens :: token_state

record splice =
  sp_start :: nat
  sp_deleteCount :: nat
  sp_messages :: "ctx_message list"
  sp_tokens :: "int option"

definition memory_get :: "memory \<Rightarrow> ctx_message list" where
  "memory_get m = fst (mem_ctx m)"

definition memory_append :: "ctx_message list \<Rightarrow> memory \<Rightarrow> memory \<times> splice option" where
  "memory_append ms m =
     (if ms = [] then (m, None)
      else (m\<lparr>mem_ctx := fold (\<lambda>x. ctx_apply (RAppendMessage x)) ms (mem_ctx m)\<rparr>,
            Some \<lparr>sp_start = length (memory_get m), sp_deleteCount = 0, sp_messages = ms, sp_tokens = None\<rparr>))"

definition memory_appendLoopEvent :: "loop_event \<Rightarrow> memory \<Rightarrow> memory" where
  "memory_appendLoopEvent ev m = m\<lparr>mem_ctx := ctx_apply (RLoopEvent ev) (mem_ctx m)\<rparr>"

definition memory_clear :: "memory \<Rightarrow> memory \<times> splice option" where
  "memory_clear m =
     (if length (memory_get m) = 0 then (m, None)
      else (\<lparr>mem_ctx = ctx_apply RClear (mem_ctx m),
             mem_tokens = tokenCountingRebased 0 0 True (mem_tokens m)\<rparr>,
            Some \<lparr>sp_start = 0, sp_deleteCount = length (memory_get m), sp_messages = [], sp_tokens = None\<rparr>))"

text \<open>The ledger operation of an undo, with the size read before the cut is dispatched.\<close>

definition sizeOpsForCut :: "memory \<Rightarrow> int \<Rightarrow> (int \<times> int) option" where
  "sizeOpsForCut m cutAt =
     (if \<not> list_ex (\<lambda>a. int (ta_length a) > cutAt) (ts_anchors (mem_tokens m)) then None
      else Some (cutAt, sz_size (tokenCounting_get (mem_tokens m) (memory_get m) (Some 0) (Some cutAt))))"

definition memory_undo :: "int \<Rightarrow> memory \<Rightarrow> memory \<times> undo_cut \<times> splice option" where
  "memory_undo n m =
     (let c = computeUndoCut (memory_get m) n in
      if \<not> isFullyUndoable c n then (m, c, None)
      else
        (\<lparr>mem_ctx = ctx_apply (RUndo n) (mem_ctx m),
          mem_tokens = (case sizeOpsForCut m (cutIndex c) of
             None \<Rightarrow> mem_tokens m
           | Some (len, tokens) \<Rightarrow> tokenCountingTruncated len tokens (mem_tokens m))\<rparr>,
         c,
         Some \<lparr>sp_start = nat (cutIndex c), sp_deleteCount = length (memory_get m) - nat (cutIndex c),
               sp_messages = [], sp_tokens = None\<rparr>))"

text \<open>The record the service dispatches for a compaction; absent optional fields are left out.\<close>

definition opt_num :: "string \<Rightarrow> int option \<Rightarrow> unknown_record" where
  "opt_num k v = (case v of None \<Rightarrow> [] | Some n \<Rightarrow> [(k, FNum n)])"

definition compaction_record :: "compaction_shape \<Rightarrow> compaction_input \<Rightarrow> unknown_record" where
  "compaction_record result i =
     [(''summary'', FStr (cs_summary result)), (''contextSummary'', FStr (cs_contextSummary result)),
      (''compactedCount'', FNum (cs_compactedCount result)), (''tokensBefore'', FNum (cs_tokensBefore result)),
      (''tokensAfter'', FNum (cs_tokensAfter result))] @
     opt_num ''summaryOutputTokens'' (ci_summaryOutputTokens i) @
     [(''keptUserMessageCount'', FNum (cs_keptUserMessageCount result))] @
     opt_num ''keptHeadUserMessageCount'' (cs_keptHeadUserMessageCount result) @
     opt_num ''droppedCount'' (cs_droppedCount result)"

definition memory_applyCompaction ::
  "compaction_input \<Rightarrow> memory \<Rightarrow> decode_error + (memory \<times> compaction_shape \<times> splice)" where
  "memory_applyCompaction i m =
     (let history = memory_get m;
          result = buildContextCompactionShape history i defaultTokenEstimate
      in ebind (readContextCompactionShapeInput (compaction_record result i)) (\<lambda>p.
        Inr (\<lparr>mem_ctx = ctx_apply (RCompaction p) (mem_ctx m),
              mem_tokens = tokenCountingRebased (int (length (cs_messages result))) (cs_tokensAfter result) False
                (mem_tokens m)\<rparr>,
             result,
             \<lparr>sp_start = 0, sp_deleteCount = length history, sp_messages = cs_messages result,
              sp_tokens = Some (cs_tokensAfter result)\<rparr>)))"

section \<open>The undo service\<close>

text \<open>
  The checkpointed models as the service reads them: name and checkpoint count. A depth of
  \<^term>\<open>None\<close> is the \<open>POSITIVE_INFINITY\<close> of an empty list of models.
\<close>

fun checkpointDepth :: "(string \<times> nat) list \<Rightarrow> nat option \<times> string \<Rightarrow> nat option \<times> string" where
  "checkpointDepth [] acc = acc"
| "checkpointDepth ((name, k) # models) (depth, model) =
     checkpointDepth models
       (if (case depth of None \<Rightarrow> True | Some d \<Rightarrow> k < d) then (Some k, name) else (depth, model))"

definition depth_of :: "(string \<times> nat) list \<Rightarrow> nat option" where
  "depth_of models = fst (checkpointDepth models (None, []))"

record availability =
  av_maxTurns :: int
  av_stoppedAtCompaction :: bool

definition min_depth :: "int \<Rightarrow> nat option \<Rightarrow> int" where
  "min_depth n d = (case d of None \<Rightarrow> n | Some k \<Rightarrow> min n (int k))"

definition availability :: "ctx_message list \<Rightarrow> (string \<times> nat) list \<Rightarrow> availability" where
  "availability h models =
     (let c = computeUndoCut h MAX_SAFE_INTEGER;
          maxTurns = min_depth (removedCount c) (depth_of models)
      in \<lparr>av_maxTurns = maxTurns,
          av_stoppedAtCompaction = (stoppedAtCompaction c \<or> maxTurns < removedCount c)\<rparr>)"

datatype undo_error =
    RequestInvalid
  | BusyLoop
  | BusyCompaction
  | UndoUnavailable undo_unavailable

definition assertUndoAvailable ::
  "ctx_message list \<Rightarrow> (string \<times> nat) list \<Rightarrow> int \<Rightarrow> undo_error option" where
  "assertUndoAvailable h models turns =
     (case precheckUndo h turns of
        Some u \<Rightarrow> Some (UndoUnavailable u)
      | None \<Rightarrow>
          (case depth_of models of
             None \<Rightarrow> None
           | Some depth \<Rightarrow>
               if turns \<le> int depth then None
               else Some (UndoUnavailable
                 \<lparr>uu_reason = (if stoppedAtCompaction (computeUndoCut h MAX_SAFE_INTEGER)
                               then UCompactionBoundary else UCheckpointLost),
                  uu_requested = turns, uu_undoable = int depth\<rparr>)))"

text \<open>
  \<open>undo\<close> and the committing part of \<open>undoNow\<close>; \<open>quiescent\<close> is whether the loop granted its
  quiescence lock and \<open>compacting\<close> whether a full compaction is running.
\<close>

definition undo_service ::
  "bool \<Rightarrow> bool \<Rightarrow> (string \<times> nat) list \<Rightarrow> int \<Rightarrow> memory \<Rightarrow> undo_error + memory" where
  "undo_service quiescent compacting models turns m =
     (if \<not> isValidUndoCount turns then Inl RequestInvalid
      else if \<not> quiescent then Inl BusyLoop
      else if compacting then Inl BusyCompaction
      else case assertUndoAvailable (memory_get m) models turns of
        Some e \<Rightarrow> Inl e
      | None \<Rightarrow> Inr (fst (memory_undo turns m)))"

section \<open>Lemmas\<close>

lemma find_last_index_filter:
  "find_last_index P xs = Some i \<Longrightarrow> filter P xs \<noteq> [] \<and> xs ! i = last (filter P xs)"
proof (induction xs arbitrary: i)
  case (Cons x xs)
  show ?case
  proof (cases "find_last_index P xs")
    case None
    then have "filter P xs = []" by (simp add: filter_empty_conv)
    with Cons.prems None show ?thesis by (auto split: if_splits)
  next
    case (Some k)
    with Cons.IH [OF Some] Cons.prems show ?thesis by auto
  qed
qed simp

lemma latestAnchor_filter:
  "latestAnchor s n =
     (let valid = filter (\<lambda>a. ta_length a \<le> n) (ts_anchors s) in if valid = [] then ZERO_ANCHOR else last valid)"
proof (cases "find_last_index (\<lambda>a. ta_length a \<le> n) (ts_anchors s)")
  case None
  then have "filter (\<lambda>a. ta_length a \<le> n) (ts_anchors s) = []" by (simp add: filter_empty_conv)
  then show ?thesis unfolding latestAnchor_def None by simp
next
  case (Some i)
  with find_last_index_filter [OF Some] show ?thesis by (simp add: latestAnchor_def)
qed

lemma latestAnchor_le: "ta_length (latestAnchor s n) \<le> n"
proof (cases "filter (\<lambda>a. ta_length a \<le> n) (ts_anchors s) = []")
  case True
  then show ?thesis unfolding latestAnchor_filter Let_def by (simp add: ZERO_ANCHOR_def)
next
  case False
  from last_in_set [OF this] have "ta_length (last (filter (\<lambda>a. ta_length a \<le> n) (ts_anchors s))) \<le> n" by simp
  with False show ?thesis unfolding latestAnchor_filter Let_def by simp
qed

lemma latestAnchor_truncated: "latestAnchor (tokenCountingTruncated (int n) t s) n = latestAnchor s n"
  by (simp add: latestAnchor_filter tokenCountingTruncated_def normalizeAnchorLength_def Let_def)

text \<open>The whole context's size: the newest valid anchor plus an estimate of what follows it.\<close>

lemma get_whole:
  "sz_size (tokenCounting_get s context None None) =
     ta_tokens (latestAnchor s (length context)) +
     int (estimateTokensForMessages (drop (ta_length (latestAnchor s (length context))) context))"
  using latestAnchor_le [of s "length context"]
  by (simp add: tokenCounting_get_def Let_def or_default_def normalizeSliceIndex_def js_slice_def
      min.absorb2 take_all)

definition ledger_ok :: "token_state \<Rightarrow> bool" where
  "ledger_ok s \<longleftrightarrow> sorted_wrt (\<lambda>a b. ta_length a < ta_length b) (ts_anchors s) \<and>
     (\<forall>a \<in> set (ts_anchors s). 0 \<le> ta_tokens a)"

text \<open>With an anchor beyond the cut, the read before the cut is a pure estimate.\<close>

lemma get_before_cut:
  assumes "k < ta_length (latestAnchor s (length context))" and "k \<le> length context"
  shows "sz_size (tokenCounting_get s context (Some 0) (Some (int k))) =
           int (estimateTokensForMessages (take k context))"
  using assms by (simp add: tokenCounting_get_def Let_def or_default_def normalizeSliceIndex_def js_slice_def
      estimateTokensForMessages_def)

section \<open>Properties\<close>

text \<open>
  The ledger of measured sizes stays well formed under every operation of it: its anchors are strictly
  increasing in length and no anchor has a negative size.
\<close>
lemma ledger_operations_ok:
  assumes "ledger_ok s"
  shows "ledger_ok (tokenCountingMeasured len t s) \<and> ledger_ok (tokenCountingTruncated len t s) \<and>
         ledger_ok (tokenCountingRebased len t b s) \<and> ledger_ok (tokenCounting_measured input u context s)"
proof -
  have "ledger_ok (tokenCountingMeasured l t' s)" for l t'
    using assms by (auto simp: ledger_ok_def tokenCountingMeasured_def Let_def sorted_wrt_append sorted_wrt_filter)
  then show ?thesis
    using assms by (auto simp: ledger_ok_def tokenCountingTruncated_def tokenCountingRebased_def
        tokenCounting_measured_def Let_def sorted_wrt_filter)
qed

definition demo_ledger :: token_state where
  "demo_ledger = \<lparr>ts_anchors = [\<lparr>ta_length = 1, ta_tokens = 100, ta_measured = True\<rparr>,
     \<lparr>ta_length = 2, ta_tokens = 150, ta_measured = True\<rparr>], ts_tokens = 150\<rparr>"

theorem ledger_operations_ok_witness:
  "ledger_ok (tokenCountingMeasured 2 7 demo_ledger) \<and> ledger_ok (tokenCountingTruncated 2 7 demo_ledger) \<and>
   ledger_ok (tokenCountingRebased 2 7 True demo_ledger) \<and>
   ledger_ok (tokenCounting_measured [] \<lparr>u_inputCacheRead = 1, u_inputCacheCreation = 2, u_inputOther = 3,
     u_output = 4\<rparr> [] demo_ledger)"
  by (rule ledger_operations_ok) (simp add: demo_ledger_def ledger_ok_def)

text \<open>
  An undo restores the measured size of the surviving history: after the truncation at the cut, the
  size of the cut context is the newest surviving measurement plus an estimate of the messages behind it;
  a cut at a measured length gives exactly the measured size.
\<close>
lemma truncation_restores_measured_size:
  assumes "k \<le> length h"
  shows "sz_size (tokenCounting_get (tokenCountingTruncated (int k) t s) (take k h) None None) =
           ta_tokens (latestAnchor s k) +
           int (estimateTokensForMessages (drop (ta_length (latestAnchor s k)) (take k h))) \<and>
         (ta_length (latestAnchor s k) = k \<longrightarrow>
           sz_size (tokenCounting_get (tokenCountingTruncated (int k) t s) (take k h) None None) =
             ta_tokens (latestAnchor s k))"
  using assms by (simp add: get_whole latestAnchor_truncated min.absorb2 estimateTokensForMessages_def)

theorem truncation_restores_measured_size_witness:
  "sz_size (tokenCounting_get (tokenCountingTruncated (int 1) 0 demo_ledger)
     (take 1 [as_ctx (createUserMessage ''hi''), as_ctx (createUserMessage ''you'')]) None None) = 100"
proof -
  have "latestAnchor demo_ledger 1 = \<lparr>ta_length = 1, ta_tokens = 100, ta_measured = True\<rparr>"
    by (simp add: latestAnchor_def demo_ledger_def)
  with truncation_restores_measured_size [where k = 1 and s = demo_ledger and t = 0
      and h = "[as_ctx (createUserMessage ''hi''), as_ctx (createUserMessage ''you'')]"]
  show ?thesis by simp
qed

text \<open>
  The size an undo displays is not that restored size: whenever the newest anchor of the uncut
  context lies beyond the cut (the only case in which the ledger is truncated at all while no anchor is
  stale), the size read before the cut, which the truncation stores for display, is the plain estimate of
  the remaining messages, whatever measurements survive the cut.
\<close>
theorem undo_displays_estimate:
  assumes "isFullyUndoable (computeUndoCut (memory_get m) n) n"
    and "cutIndex (computeUndoCut (memory_get m) n) = int k"
    and "k < ta_length (latestAnchor (mem_tokens m) (length (memory_get m)))"
  shows "ts_tokens (mem_tokens (fst (memory_undo n m))) =
           int (estimateTokensForMessages (take k (memory_get m)))"
proof -
  let ?s = "mem_tokens m" and ?h = "memory_get m"
  have len: "k \<le> length ?h" using assms(3) latestAnchor_le [of ?s "length ?h"] by linarith
  have "latestAnchor ?s (length ?h) \<in> set (ts_anchors ?s)"
  proof (cases "filter (\<lambda>a. ta_length a \<le> length ?h) (ts_anchors ?s) = []")
    case True
    then have "latestAnchor ?s (length ?h) = ZERO_ANCHOR" unfolding latestAnchor_filter Let_def by simp
    with assms(3) show ?thesis by (simp add: ZERO_ANCHOR_def)
  next
    case False
    from last_in_set [OF False] False show ?thesis unfolding latestAnchor_filter Let_def by simp
  qed
  with assms(3) have "list_ex (\<lambda>a. int (ta_length a) > int k) (ts_anchors ?s)"
    by (auto simp: list_ex_iff)
  then have "sizeOpsForCut m (int k) = Some (int k, int (estimateTokensForMessages (take k ?h)))"
    by (simp add: sizeOpsForCut_def get_before_cut [OF assms(3) len])
  then show ?thesis
    using assms(1,2) by (simp add: memory_undo_def Let_def tokenCountingTruncated_def)
qed

definition demo_memory :: memory where
  "demo_memory = \<lparr>mem_ctx = ([as_ctx (createUserMessage ''hi''), as_ctx (createUserMessage ''you'')], init_fold_ctx),
     mem_tokens = demo_ledger\<rparr>"

lemma demo_memory_cut:
  "isFullyUndoable (computeUndoCut (memory_get demo_memory) 1) 1"
  "cutIndex (computeUndoCut (memory_get demo_memory) 1) = int 1"
  "1 < ta_length (latestAnchor (mem_tokens demo_memory) (length (memory_get demo_memory)))"
  by (simp_all add: demo_memory_def memory_get_def computeUndoCut_def isFullyUndoable_def isInjection_def
      isUndoAnchor_def createUserMessage_def isPromptOwnedInjection_def latestAnchor_def demo_ledger_def)

theorem undo_displays_estimate_witness:
  "ts_tokens (mem_tokens (fst (memory_undo 1 demo_memory))) =
     int (estimateTokensForMessages (take 1 (memory_get demo_memory)))"
  by (rule undo_displays_estimate [OF demo_memory_cut])

text \<open>
  C8. Replaying a compaction rebuilds the live result: the record the service dispatches always decodes,
  and folding it gives exactly the messages the live path computed and published, with the fold reset and
  the ledger rebased to them.
\<close>
theorem compaction_replay_matches_live:
  assumes "\<not> ci_legacyTail i"
  shows "\<exists>m'. memory_applyCompaction i m = Inr (m',
      buildContextCompactionShape (memory_get m) i defaultTokenEstimate,
      \<lparr>sp_start = 0, sp_deleteCount = length (memory_get m),
       sp_messages = cs_messages (buildContextCompactionShape (memory_get m) i defaultTokenEstimate),
       sp_tokens = Some (cs_tokensAfter (buildContextCompactionShape (memory_get m) i defaultTokenEstimate))\<rparr>) \<and>
    mem_ctx m' = resetFold (cs_messages (buildContextCompactionShape (memory_get m) i defaultTokenEstimate)) \<and>
    map ta_length (ts_anchors (mem_tokens m')) =
      [length (cs_messages (buildContextCompactionShape (memory_get m) i defaultTokenEstimate))]"
proof -
  let ?r = "buildContextCompactionShape (memory_get m) i defaultTokenEstimate"
  have sums: "cs_summary ?r = ci_summary i" "cs_contextSummary ?r = or_default (ci_contextSummary i) (ci_summary i)"
    using assms by (simp_all add: buildContextCompactionShape_def usesLegacyTailShape_def Let_def)
  obtain p where p: "readContextCompactionShapeInput (compaction_record ?r i) = Inr p"
      "\<not> ci_legacyTail p" "ci_contextSummary p = Some (cs_contextSummary ?r)"
    by (cases "ci_summaryOutputTokens i")
      (auto simp: readContextCompactionShapeInput_def compaction_record_def opt_num_def Let_def
        readContextCompactionRawSummary_def readContextCompactedCount_def readOptionalNumber_def
        readOptionalString_def readOptionalBoolean_def or_default_def
        split: option.splits)
  have "cs_messages (buildContextCompactionShape (memory_get m) p defaultTokenEstimate) = cs_messages ?r"
    using p(3) sums(2) by (simp add: shape_messages [OF p(2)] shape_messages [OF assms] or_default_def)
  with p show ?thesis
    by (simp add: memory_applyCompaction_def Let_def contextApplyCompaction_def memory_get_def
        tokenCountingRebased_def normalizeAnchorLength_def)
qed

theorem compaction_replay_matches_live_witness:
  "\<exists>m'. memory_applyCompaction demo_compaction demo_memory = Inr (m',
      buildContextCompactionShape (memory_get demo_memory) demo_compaction defaultTokenEstimate,
      \<lparr>sp_start = 0, sp_deleteCount = length (memory_get demo_memory),
       sp_messages = cs_messages (buildContextCompactionShape (memory_get demo_memory) demo_compaction defaultTokenEstimate),
       sp_tokens = Some (cs_tokensAfter
         (buildContextCompactionShape (memory_get demo_memory) demo_compaction defaultTokenEstimate))\<rparr>) \<and>
    mem_ctx m' = resetFold (cs_messages
      (buildContextCompactionShape (memory_get demo_memory) demo_compaction defaultTokenEstimate)) \<and>
    map ta_length (ts_anchors (mem_tokens m')) =
      [length (cs_messages (buildContextCompactionShape (memory_get demo_memory) demo_compaction defaultTokenEstimate))]"
  by (rule compaction_replay_matches_live) (simp add: demo_compaction_def)

text \<open>
  The advertised availability is exact: an idle agent's undo of a valid number of turns succeeds iff
  that number is at most \<open>availability().maxTurns\<close>, and then commits exactly the memory service's undo; a
  busy agent or an invalid count is rejected whatever the history.
\<close>
theorem availability_exact:
  "(isValidUndoCount turns \<longrightarrow>
      (if turns \<le> av_maxTurns (availability (memory_get m) models)
       then undo_service True False models turns m = Inr (fst (memory_undo turns m))
       else \<exists>u. undo_service True False models turns m = Inl (UndoUnavailable u))) \<and>
   (\<not> isValidUndoCount turns \<longrightarrow> undo_service q b models turns m = Inl RequestInvalid) \<and>
   (isValidUndoCount turns \<longrightarrow> isl (undo_service False b models turns m) \<and>
      isl (undo_service True True models turns m))"
proof -
  have "assertUndoAvailable (memory_get m) models turns = None \<longleftrightarrow>
      turns \<le> av_maxTurns (availability (memory_get m) models)" if "isValidUndoCount turns"
    using that fully_undoable_iff [of "memory_get m" turns]
    by (auto simp: assertUndoAvailable_def precheckUndo_def availability_def Let_def min_depth_def
        computeUndoCut_counts isValidUndoCount_def MAX_SAFE_INTEGER_def split: option.splits)
  moreover have "\<exists>u. assertUndoAvailable (memory_get m) models turns = Some (UndoUnavailable u)"
    if "assertUndoAvailable (memory_get m) models turns \<noteq> None"
    using that by (auto simp: assertUndoAvailable_def split: option.splits if_splits)
  ultimately show ?thesis by (auto simp: undo_service_def split: option.splits)
qed

theorem availability_exact_witness:
  "undo_service True False [(''goal'', 1)] 1 demo_memory = Inr (fst (memory_undo 1 demo_memory)) \<and>
   isl (undo_service True True [(''goal'', 1)] 1 demo_memory)"
proof -
  have "isValidUndoCount 1" by (simp add: isValidUndoCount_def MAX_SAFE_INTEGER_def)
  moreover have "1 \<le> av_maxTurns (availability (memory_get demo_memory) [(''goal'', 1)])"
    by (simp add: availability_def depth_of_def min_depth_def computeUndoCut_counts Let_def demo_memory_def
        memory_get_def since_summary_def is_summary_def isUndoAnchor_def createUserMessage_def
        anchors_def MAX_SAFE_INTEGER_def)
  ultimately show ?thesis
    using availability_exact [where turns = 1 and models = "[(''goal'', 1)]" and m = demo_memory] by simp
qed

end
