(* ===== verification/Projector.thy ===== *)
theory Projector imports Messages "HOL-Library.List_Lexorder" begin

text \<open>
  The context projector, \<^verbatim>\<open>agent/contextProjector/contextProjectorService.ts\<close>: the transform of the
  stored history into the messages sent to a provider, with every repair it reports, the strict
  projection, and the media fallbacks.

  The closures of \<open>project\<close> over \<open>out\<close>, \<open>openSlots\<close> and \<open>merge\<close> become functions on a state record;
  the \<open>onAnomaly\<close> sink is the list of anomalies in that record.
\<close>

section \<open>State and anomalies\<close>

datatype anomaly =
    ToolResultReordered string
  | ToolResultSynthesized string bool
  | OrphanToolResultDropped string
  | DuplicateToolCallDropped string
  | DuplicateToolResultDropped string
  | LeadingNonUserDropped role
  | ConsecutiveAssistantsMerged
  | WhitespaceTextDropped role
  | VacuousMessageDropped role

datatype proj_error = EmptyToolContent "string option"

record open_slot =
  os_index :: nat
  os_owner :: nat
  os_foreign :: bool

record merge_group =
  mg_index :: nat
  mg_single :: "content_part list option"
  mg_texts :: "string list"
  mg_parts :: "content_part list"

record proj_state =
  p_out :: "message list"
  p_open :: "(string, open_slot) omap"
  p_merge :: "merge_group option"
  p_anoms :: "anomaly list"

section \<open>Building blocks\<close>

definition TOOL_INTERRUPTED_TEXT :: string where
  "TOOL_INTERRUPTED_TEXT =
    ''Tool result is not available in the current context. Do not assume the tool completed successfully.''"

definition createInterruptedToolResult :: "string \<Rightarrow> message" where
  "createInterruptedToolResult cid = \<lparr>m_role = RTool, m_name = None,
     m_content = [TextPart TOOL_INTERRUPTED_TEXT], m_toolCalls = [], m_toolCallId = Some cid,
     m_partial = False, m_tools = None\<rparr>"

definition TOOL_RESULT_SLOT :: message where
  "TOOL_RESULT_SLOT = createInterruptedToolResult []"

definition isInterruptedToolResult :: "message \<Rightarrow> bool" where
  "isInterruptedToolResult m \<longleftrightarrow> m_role m = RTool \<and>
     (case m_content m of TextPart t # _ \<Rightarrow> t = TOOL_INTERRUPTED_TEXT | _ \<Rightarrow> False)"

definition canMergeUserMessage :: "ctx_message \<Rightarrow> bool" where
  "canMergeUserMessage m \<longleftrightarrow> m_role m = RUser \<and> c_origin m = Some UserOrigin"

definition hasDeclaredTools :: "ctx_message \<Rightarrow> bool" where
  "hasDeclaredTools m \<longleftrightarrow> (case m_tools m of None \<Rightarrow> False | Some ts \<Rightarrow> ts \<noteq> [])"

definition toWireMessage :: "ctx_message \<Rightarrow> content_part list \<Rightarrow> message" where
  "toWireMessage m content = \<lparr>m_role = m_role m, m_name = m_name m, m_content = content,
     m_toolCalls = m_toolCalls m, m_toolCallId = m_toolCallId m, m_partial = m_partial m,
     m_tools = m_tools m\<rparr>"

definition outputFromToolContent :: "content_part list \<Rightarrow> tool_output" where
  "outputFromToolContent content =
     (case singleTextPart content of Some t \<Rightarrow> OutStr t | None \<Rightarrow> OutParts content)"

definition blank_anomalies :: "ctx_message \<Rightarrow> content_part list \<Rightarrow> anomaly list" where
  "blank_anomalies src raw =
     map (\<lambda>_. WhitespaceTextDropped (m_role src))
       (filter (\<lambda>p. isBlankText p \<and> p \<noteq> TextPart []) raw)"

definition cleanContent ::
  "ctx_message \<Rightarrow> content_part list \<Rightarrow> proj_error + content_part list \<times> anomaly list" where
  "cleanContent src raw =
     (let hasBlank = list_ex isBlankText raw;
          content = (if hasBlank then filter (\<lambda>p. \<not> isBlankText p) raw else raw)
      in if m_role src = RTool \<and> content = [] then Inl (EmptyToolContent (m_toolCallId src))
         else Inr (content, if hasBlank then blank_anomalies src raw else []))"

definition projectedContent ::
  "ctx_message \<Rightarrow> proj_error + content_part list \<times> anomaly list" where
  "projectedContent src =
     cleanContent src
       (if m_role src = RTool then
          renderToolResultForModel \<lparr>r_output = outputFromToolContent (m_content src),
            r_note = c_note src, r_isError = c_isError src\<rparr>
        else m_content src)"

fun part_media :: "content_part \<Rightarrow> bool" where
  "part_media (TextPart _) = False"
| "part_media (ThinkPart _ _) = False"
| "part_media _ = True"

definition appendMergeContent :: "merge_group \<Rightarrow> content_part list \<Rightarrow> merge_group" where
  "appendMergeContent g content =
     (let text = concat (List.map_filter part_text content);
          g' = g\<lparr>mg_parts := mg_parts g @ filter (\<lambda>p. part_text p = None) content\<rparr>
      in if text = [] then g' else g'\<lparr>mg_texts := mg_texts g @ [text]\<rparr>)"

definition flushMerge :: "proj_state \<Rightarrow> proj_state" where
  "flushMerge s =
     (case p_merge s of
        None \<Rightarrow> s
      | Some g \<Rightarrow>
          (if mg_single g = None then
             (let text = js_join (newline @ newline) (mg_texts g);
                  content = (if text = [] then [] else [TextPart text]) @ mg_parts g
              in s\<lparr>p_out := (p_out s)[mg_index g := \<lparr>m_role = RUser, m_name = None,
                     m_content = content, m_toolCalls = [], m_toolCallId = None,
                     m_partial = False, m_tools = None\<rparr>]\<rparr>)
           else s)\<lparr>p_merge := None\<rparr>)"

definition markForeignBetween :: "proj_state \<Rightarrow> proj_state" where
  "markForeignBetween s =
     s\<lparr>p_open := map (\<lambda>(k, sl). (k, sl\<lparr>os_foreign := True\<rparr>)) (p_open s)\<rparr>"

definition note_anomaly :: "anomaly \<Rightarrow> proj_state \<Rightarrow> proj_state" where
  "note_anomaly a s = s\<lparr>p_anoms := p_anoms s @ [a]\<rparr>"

section \<open>The projection\<close>

text \<open>The part of \<open>emit\<close> after the content is known and the message is not dropped.\<close>

definition emit_content :: "ctx_message \<Rightarrow> content_part list \<Rightarrow> proj_state \<Rightarrow> proj_state" where
  "emit_content src content s =
     (let s1 = (if p_open s \<noteq> [] then markForeignBetween s else s) in
      if canMergeUserMessage src then
        (case p_merge s1 of
           None \<Rightarrow> s1\<lparr>p_out := p_out s1 @ [toWireMessage src content],
                    p_merge := Some \<lparr>mg_index = length (p_out s1), mg_single = Some content,
                      mg_texts = [], mg_parts = []\<rparr>\<rparr>
         | Some g \<Rightarrow>
             (let g1 = (case mg_single g of
                          None \<Rightarrow> g
                        | Some c \<Rightarrow> (appendMergeContent g c)\<lparr>mg_single := None\<rparr>)
              in s1\<lparr>p_merge := Some (appendMergeContent g1 content)\<rparr>))
      else (let s2 = flushMerge s1 in s2\<lparr>p_out := p_out s2 @ [toWireMessage src content]\<rparr>))"

definition emit :: "ctx_message \<Rightarrow> proj_state \<Rightarrow> proj_error + proj_state" where
  "emit src s =
     ebind (projectedContent src) (\<lambda>(content, as).
       let s0 = s\<lparr>p_anoms := p_anoms s @ as\<rparr> in
       if m_toolCalls src = [] \<and> \<not> hasDeclaredTools src \<and> content = [] then Inr s0
       else if m_toolCalls src = [] \<and> \<not> hasDeclaredTools src \<and> list_all isVacuousContentPart content
         then Inr (note_anomaly (VacuousMessageDropped (m_role src)) s0)
       else Inr (emit_content src content s0))"

text \<open>Opening the result slot of one tool call, after closing an earlier call with the same id.\<close>

definition open_call :: "nat \<Rightarrow> int \<Rightarrow> string \<Rightarrow> proj_state \<Rightarrow> proj_state" where
  "open_call index lastNonTool cid s =
     (let s1 = (case om_get (p_open s) cid of
                  None \<Rightarrow> s
                | Some sl \<Rightarrow> note_anomaly
                    (ToolResultSynthesized cid (int (os_owner sl) \<ge> lastNonTool))
                    (s\<lparr>p_out := (p_out s)[os_index sl := createInterruptedToolResult cid]\<rparr>))
      in s1\<lparr>p_open := om_set cid \<lparr>os_index = length (p_out s1), os_owner = index, os_foreign = False\<rparr>
               (p_open s1),
            p_out := p_out s1 @ [TOOL_RESULT_SLOT]\<rparr>)"

text \<open>A tool message once some assistant message exists: it fills its slot, or is dropped.\<close>

definition place_result :: "ctx_message \<Rightarrow> proj_state \<Rightarrow> proj_error + proj_state" where
  "place_result msg s =
     (case m_toolCallId msg of
        None \<Rightarrow> Inr s
      | Some cid \<Rightarrow>
          (case om_get (p_open s) cid of
             None \<Rightarrow> Inr (note_anomaly (OrphanToolResultDropped cid)
                      (if p_open s \<noteq> [] then markForeignBetween s else s))
           | Some sl \<Rightarrow>
               (let s1 = s\<lparr>p_open := om_del cid (p_open s)\<rparr>;
                    s2 = (if os_foreign sl then note_anomaly (ToolResultReordered cid) s1 else s1)
                in ebind (projectedContent msg) (\<lambda>(content, as).
                     Inr (s2\<lparr>p_anoms := p_anoms s2 @ as,
                             p_out := (p_out s2)[os_index sl := toWireMessage msg content]\<rparr>)))))"

definition project_step ::
  "bool \<Rightarrow> int \<Rightarrow> nat \<times> ctx_message \<Rightarrow> proj_state \<Rightarrow> proj_error + proj_state" where
  "project_step hasAssistant lastNonTool im s =
     (let (index, msg) = im in
      if m_partial msg then Inr s
      else if m_role msg = RTool then
        (if \<not> hasAssistant then emit msg s else place_result msg s)
      else ebind (emit msg s) (\<lambda>s1.
             Inr (fold (open_call index lastNonTool) (map tc_id (m_toolCalls msg)) s1)))"

definition hasAssistantMessage :: "ctx_message list \<Rightarrow> bool" where
  "hasAssistantMessage history \<longleftrightarrow>
     (\<exists>m \<in> set history. \<not> m_partial m \<and> m_role m = RAssistant)"

definition lastNonToolIndex :: "ctx_message list \<Rightarrow> int" where
  "lastNonToolIndex history =
     (case find_last_index (\<lambda>m. \<not> (m_role m = RTool \<or> m_partial m)) history of
        None \<Rightarrow> -1
      | Some i \<Rightarrow> int i)"

definition close_slots :: "int \<Rightarrow> proj_state \<Rightarrow> proj_state" where
  "close_slots lastNonTool s =
     fold (\<lambda>(cid, sl) s. note_anomaly
             (ToolResultSynthesized cid (int (os_owner sl) \<ge> lastNonTool))
             (s\<lparr>p_out := (p_out s)[os_index sl := createInterruptedToolResult cid]\<rparr>))
       (p_open s) s"

definition init_proj :: proj_state where
  "init_proj = \<lparr>p_out = [], p_open = [], p_merge = None, p_anoms = []\<rparr>"

definition project :: "ctx_message list \<Rightarrow> proj_error + message list \<times> anomaly list" where
  "project history =
     ebind (efold (project_step (hasAssistantMessage history) (lastNonToolIndex history))
              (enumerate 0 history) init_proj)
       (\<lambda>s. let s' = flushMerge (close_slots (lastNonToolIndex history) s)
            in Inr (p_out s', p_anoms s'))"

section \<open>The strict projection\<close>

record dedupe_state =
  d_seen :: "string list"
  d_kept :: "(string, nat) omap"
  d_out :: "message list"
  d_anoms :: "anomaly list"

text \<open>\<open>message.toolCalls.filter(...)\<close>: the calls kept, the ids seen so far, the anomalies.\<close>

fun dedupe_calls :: "tool_call list \<Rightarrow> string list \<Rightarrow> tool_call list \<times> string list \<times> anomaly list" where
  "dedupe_calls [] seen = ([], seen, [])"
| "dedupe_calls (c # cs) seen =
     (if tc_id c \<in> set seen then
        (let (kept, seen', as) = dedupe_calls cs seen
         in (kept, seen', DuplicateToolCallDropped (tc_id c) # as))
      else (let (kept, seen', as) = dedupe_calls cs (seen @ [tc_id c])
            in (c # kept, seen', as)))"

definition dedupe_step :: "message \<Rightarrow> dedupe_state \<Rightarrow> dedupe_state" where
  "dedupe_step msg s =
     (if m_role msg = RAssistant \<and> m_toolCalls msg \<noteq> [] then
        (let (kept, seen, as) = dedupe_calls (m_toolCalls msg) (d_seen s);
             s1 = s\<lparr>d_seen := seen, d_anoms := d_anoms s @ as\<rparr>
         in if length kept = length (m_toolCalls msg) then s1\<lparr>d_out := d_out s1 @ [msg]\<rparr>
            else if kept \<noteq> [] \<or> \<not> list_all isVacuousContentPart (m_content msg)
              then s1\<lparr>d_out := d_out s1 @ [msg\<lparr>m_toolCalls := kept\<rparr>]\<rparr>
            else if m_content msg \<noteq> []
              then s1\<lparr>d_anoms := d_anoms s1 @ [VacuousMessageDropped (m_role msg)]\<rparr>
            else s1)
      else
        (case (m_role msg = RTool, m_toolCallId msg) of
           (True, Some cid) \<Rightarrow>
             (case om_get (d_kept s) cid of
                Some i \<Rightarrow>
                  (if isInterruptedToolResult (d_out s ! i) \<and> \<not> isInterruptedToolResult msg
                   then s\<lparr>d_out := (d_out s)[i := msg]\<rparr>
                   else s\<lparr>d_anoms := d_anoms s @ [DuplicateToolResultDropped cid]\<rparr>)
              | None \<Rightarrow> s\<lparr>d_kept := om_set cid (length (d_out s)) (d_kept s),
                         d_out := d_out s @ [msg]\<rparr>)
         | _ \<Rightarrow> s\<lparr>d_out := d_out s @ [msg]\<rparr>))"

definition dedupeDuplicateToolCalls :: "message list \<Rightarrow> message list \<times> anomaly list" where
  "dedupeDuplicateToolCalls ms =
     (let s = fold dedupe_step ms \<lparr>d_seen = [], d_kept = [], d_out = [], d_anoms = []\<rparr>
      in (d_out s, d_anoms s))"

definition merge_step :: "message \<Rightarrow> message list \<times> anomaly list \<Rightarrow> message list \<times> anomaly list" where
  "merge_step msg st =
     (let (out, as) = st in
      if out \<noteq> [] \<and> m_role (last out) = RAssistant \<and> m_role msg = RAssistant then
        (butlast out @ [(last out)\<lparr>m_content := m_content (last out) @ m_content msg,
                                   m_toolCalls := m_toolCalls (last out) @ m_toolCalls msg\<rparr>],
         as @ [ConsecutiveAssistantsMerged])
      else (out @ [msg], as))"

definition mergeConsecutiveAssistantMessages :: "message list \<Rightarrow> message list \<times> anomaly list" where
  "mergeConsecutiveAssistantMessages ms = fold merge_step ms ([], [])"

fun dropLeadingNonUserMessages :: "message list \<Rightarrow> message list \<times> anomaly list" where
  "dropLeadingNonUserMessages [] = ([], [])"
| "dropLeadingNonUserMessages (m # ms) =
     (if m_role m \<noteq> RUser then
        (let (out, as) = dropLeadingNonUserMessages ms in (out, LeadingNonUserDropped (m_role m) # as))
      else (m # ms, []))"

definition projectStrict :: "ctx_message list \<Rightarrow> proj_error + message list \<times> anomaly list" where
  "projectStrict history =
     ebind (project history) (\<lambda>(projected, as1).
       let (deduped, as2) = dedupeDuplicateToolCalls projected;
           (merged, as3) = mergeConsecutiveAssistantMessages deduped;
           (out, as4) = dropLeadingNonUserMessages merged
       in Inr (out, as1 @ as2 @ as3 @ as4))"

section \<open>Media fallbacks\<close>

record media_placeholders =
  mp_image :: string
  mp_audio :: string
  mp_video :: string

definition MEDIA_DEGRADE_KEEP_RECENT :: nat where
  "MEDIA_DEGRADE_KEEP_RECENT = 2"

definition MEDIA_DEGRADED_PLACEHOLDERS :: media_placeholders where
  "MEDIA_DEGRADED_PLACEHOLDERS = \<lparr>
     mp_image = ''[image omitted: dropped to fit the provider request size limit; re-read the file to view it]'',
     mp_audio = ''[audio omitted: dropped to fit the provider request size limit; re-read the file to hear it]'',
     mp_video = ''[video omitted: dropped to fit the provider request size limit; re-read the file to view it]''\<rparr>"

definition MEDIA_STRIPPED_PLACEHOLDERS :: media_placeholders where
  "MEDIA_STRIPPED_PLACEHOLDERS = \<lparr>
     mp_image = ''[image omitted for provider compatibility; re-read the file to view it or get conversion guidance]'',
     mp_audio = ''[audio omitted for provider compatibility; re-read the file to hear it]'',
     mp_video = ''[video omitted for provider compatibility; re-read the file to view it]''\<rparr>"

definition isDegradableMediaPart :: "content_part \<Rightarrow> bool" where
  "isDegradableMediaPart p = part_media p"

fun placeholder_for :: "media_placeholders \<Rightarrow> content_part \<Rightarrow> content_part" where
  "placeholder_for ph (ImagePart _ _) = TextPart (mp_image ph)"
| "placeholder_for ph (AudioPart _ _) = TextPart (mp_audio ph)"
| "placeholder_for ph (VideoPart _ _) = TextPart (mp_video ph)"
| "placeholder_for ph p = p"

text \<open>
  The text the key of a media part hashes: its type, its id and its url, separated by NUL. The hash is
  Node's SHA-256, a parameter of the model.
\<close>

fun media_fingerprint :: "content_part \<Rightarrow> string" where
  "media_fingerprint (ImagePart url i) =
     ''image_url'' @ [char_of (0 :: nat)] @ (case i of None \<Rightarrow> [] | Some x \<Rightarrow> x) @ [char_of (0 :: nat)] @ url"
| "media_fingerprint (AudioPart url i) =
     ''audio_url'' @ [char_of (0 :: nat)] @ (case i of None \<Rightarrow> [] | Some x \<Rightarrow> x) @ [char_of (0 :: nat)] @ url"
| "media_fingerprint (VideoPart url i) =
     ''video_url'' @ [char_of (0 :: nat)] @ (case i of None \<Rightarrow> [] | Some x \<Rightarrow> x) @ [char_of (0 :: nat)] @ url"
| "media_fingerprint _ = []"

definition mediaStripKey :: "(string \<Rightarrow> string) \<Rightarrow> content_part \<Rightarrow> string" where
  "mediaStripKey sha256 p = sha256 (media_fingerprint p)"

definition captureMediaStripSnapshot :: "(string \<Rightarrow> string) \<Rightarrow> message list \<Rightarrow> string list" where
  "captureMediaStripSnapshot sha256 ms =
     fold (\<lambda>m keys. fold (\<lambda>p keys. if isDegradableMediaPart p then os_add (mediaStripKey sha256 p) keys
                                      else keys) (m_content m) keys) ms []"

definition stripMediaPartsBySnapshot ::
  "(string \<Rightarrow> string) \<Rightarrow> message list \<Rightarrow> string list \<Rightarrow> message list" where
  "stripMediaPartsBySnapshot sha256 ms keys =
     map (\<lambda>m. m\<lparr>m_content := map (\<lambda>p.
            if \<not> isDegradableMediaPart p \<or> mediaStripKey sha256 p \<notin> set keys then p
            else placeholder_for MEDIA_STRIPPED_PLACEHOLDERS p) (m_content m)\<rparr>) ms"

text \<open>The number of parts still to degrade runs through the parts and the messages in order.\<close>

fun degrade_parts ::
  "media_placeholders \<Rightarrow> nat \<Rightarrow> content_part list \<Rightarrow> nat \<times> content_part list" where
  "degrade_parts ph n [] = (n, [])"
| "degrade_parts ph n (p # ps) =
     (if n = 0 \<or> \<not> isDegradableMediaPart p
      then (let (n', ps') = degrade_parts ph n ps in (n', p # ps'))
      else (let (n', ps') = degrade_parts ph (n - 1) ps in (n', placeholder_for ph p # ps')))"

fun degrade_messages :: "media_placeholders \<Rightarrow> nat \<Rightarrow> message list \<Rightarrow> message list" where
  "degrade_messages ph n [] = []"
| "degrade_messages ph n (m # ms) =
     (if n = 0 \<or> \<not> list_ex isDegradableMediaPart (m_content m) then m # degrade_messages ph n ms
      else (let (n', content) = degrade_parts ph n (m_content m)
            in m\<lparr>m_content := content\<rparr> # degrade_messages ph n' ms))"

definition mediaCount :: "message list \<Rightarrow> nat" where
  "mediaCount ms = sum_list (map (\<lambda>m. length (filter isDegradableMediaPart (m_content m))) ms)"

definition degradeOlderMediaParts ::
  "message list \<Rightarrow> nat \<Rightarrow> media_placeholders \<Rightarrow> message list" where
  "degradeOlderMediaParts ms keepRecent ph =
     (let toDegrade = mediaCount ms - keepRecent
      in if toDegrade = 0 then ms else degrade_messages ph toDegrade ms)"

section \<open>The service: reporting repairs\<close>

text \<open>
  The service keeps the signature of the last repairs it reported (\<open>lastRepairSignature\<close>) and warns
  once per signature. The report is the payload of the warning and of the telemetry event.
\<close>

record repair_report =
  rr_reordered :: nat
  rr_synthesized :: nat
  rr_droppedOrphan :: nat
  rr_duplicateCallsDropped :: nat
  rr_duplicateResultsDropped :: nat
  rr_leadingDropped :: nat
  rr_assistantsMerged :: nat
  rr_whitespaceDropped :: nat
  rr_vacuousDropped :: nat
  rr_toolCallIds :: "string list"

fun anomaly_call :: "anomaly \<Rightarrow> string option" where
  "anomaly_call (ToolResultReordered c) = Some c"
| "anomaly_call (ToolResultSynthesized c _) = Some c"
| "anomaly_call (OrphanToolResultDropped c) = Some c"
| "anomaly_call (DuplicateToolCallDropped c) = Some c"
| "anomaly_call (DuplicateToolResultDropped c) = Some c"
| "anomaly_call _ = None"

fun anomaly_kind :: "anomaly \<Rightarrow> string" where
  "anomaly_kind (ToolResultReordered _) = ''tool_result_reordered''"
| "anomaly_kind (ToolResultSynthesized _ _) = ''tool_result_synthesized''"
| "anomaly_kind (OrphanToolResultDropped _) = ''orphan_tool_result_dropped''"
| "anomaly_kind (DuplicateToolCallDropped _) = ''duplicate_tool_call_dropped''"
| "anomaly_kind (DuplicateToolResultDropped _) = ''duplicate_tool_result_dropped''"
| "anomaly_kind (LeadingNonUserDropped _) = ''leading_non_user_dropped''"
| "anomaly_kind ConsecutiveAssistantsMerged = ''consecutive_assistants_merged''"
| "anomaly_kind (WhitespaceTextDropped _) = ''whitespace_text_dropped''"
| "anomaly_kind (VacuousMessageDropped _) = ''vacuous_message_dropped''"

fun notable :: "anomaly \<Rightarrow> bool" where
  "notable (ToolResultSynthesized _ trailing) = (\<not> trailing)"
| "notable _ = True"

definition anomaly_label :: "anomaly \<Rightarrow> string" where
  "anomaly_label a = (case anomaly_call a of
     None \<Rightarrow> anomaly_kind a
   | Some c \<Rightarrow> anomaly_kind a @ '':'' @ c)"

definition repair_signature :: "anomaly list \<Rightarrow> string" where
  "repair_signature as = js_join ''|'' (sort (map anomaly_label as))"

definition count_kind :: "string \<Rightarrow> anomaly list \<Rightarrow> nat" where
  "count_kind k as = length (filter (\<lambda>a. anomaly_kind a = k) as)"

definition repair_report_of :: "anomaly list \<Rightarrow> repair_report" where
  "repair_report_of as = \<lparr>
     rr_reordered = count_kind ''tool_result_reordered'' as,
     rr_synthesized = count_kind ''tool_result_synthesized'' as,
     rr_droppedOrphan = count_kind ''orphan_tool_result_dropped'' as,
     rr_duplicateCallsDropped = count_kind ''duplicate_tool_call_dropped'' as,
     rr_duplicateResultsDropped = count_kind ''duplicate_tool_result_dropped'' as,
     rr_leadingDropped = count_kind ''leading_non_user_dropped'' as,
     rr_assistantsMerged = count_kind ''consecutive_assistants_merged'' as,
     rr_whitespaceDropped = count_kind ''whitespace_text_dropped'' as,
     rr_vacuousDropped = count_kind ''vacuous_message_dropped'' as,
     rr_toolCallIds = take 5 (fold os_add (List.map_filter anomaly_call as) [])\<rparr>"

definition reportProjectionRepairs ::
  "anomaly list \<Rightarrow> string option \<Rightarrow> string option \<times> repair_report option" where
  "reportProjectionRepairs as lastSig =
     (let ns = filter notable as; sig = repair_signature ns in
      if ns = [] then (None, None)
      else if lastSig = Some sig then (lastSig, None)
      else (Some sig, Some (repair_report_of ns)))"

text \<open>
  The service's operations: the last signature in, the new signature, the report made (if any) and the
  projected messages out.
\<close>

definition projectWithTrace ::
  "(ctx_message list \<Rightarrow> proj_error + message list \<times> anomaly list) \<Rightarrow> ctx_message list \<Rightarrow>
     string option \<Rightarrow> proj_error + string option \<times> repair_report option \<times> message list" where
  "projectWithTrace f history lastSig =
     ebind (f history) (\<lambda>(out, as).
       let (sig, report) = reportProjectionRepairs as lastSig in Inr (sig, report, out))"

definition service_project where
  "service_project history lastSig = projectWithTrace project history lastSig"

definition service_projectStrict where
  "service_projectStrict history lastSig = projectWithTrace projectStrict history lastSig"

definition service_projectMediaDegraded where
  "service_projectMediaDegraded history lastSig =
     ebind (service_project history lastSig) (\<lambda>(sig, report, out).
       Inr (sig, report, degradeOlderMediaParts out MEDIA_DEGRADE_KEEP_RECENT MEDIA_DEGRADED_PLACEHOLDERS))"

definition service_captureMediaStripSnapshot where
  "service_captureMediaStripSnapshot sha256 history lastSig =
     ebind (service_project history lastSig) (\<lambda>(sig, report, out).
       Inr (sig, report, captureMediaStripSnapshot sha256 out))"

definition service_projectMediaStripped where
  "service_projectMediaStripped sha256 history snapshot lastSig =
     ebind (service_project history lastSig) (\<lambda>(sig, report, out).
       Inr (sig, report, stripMediaPartsBySnapshot sha256 out
              (case snapshot of Some keys \<Rightarrow> keys | None \<Rightarrow> captureMediaStripSnapshot sha256 out)))"

end
