(* ===== verification/Projector_Proofs.thy ===== *)
theory Projector_Proofs imports Projector begin

text \<open>
  What the projections guarantee: \<^term>\<open>project\<close> never throws, keeps every call next to its results,
  \<^term>\<open>projectStrict\<close> sends a conversation a strict provider accepts, and the media fallbacks drop
  exactly the media they are meant to.
\<close>

section \<open>The projection never throws\<close>

lemma projectedContent_total: "\<exists>content as. projectedContent src = Inr (content, as)"
proof (cases "m_role src = RTool")
  case True
  let ?raw = "renderToolResultForModel \<lparr>r_output = outputFromToolContent (m_content src),
            r_note = c_note src, r_isError = c_isError src\<rparr>"
  have "filter (\<lambda>p. \<not> isBlankText p) ?raw \<noteq> []" "?raw \<noteq> []"
    using renderToolResultForModel_nonblank [of "\<lparr>r_output = outputFromToolContent (m_content src),
            r_note = c_note src, r_isError = c_isError src\<rparr>"] by (auto simp: filter_empty_conv)
  with True show ?thesis by (simp add: projectedContent_def cleanContent_def Let_def)
next
  case False
  then show ?thesis by (simp add: projectedContent_def cleanContent_def Let_def)
qed

section \<open>Well-formed exchanges\<close>

text \<open>
  What a strict provider asks of a conversation: every message that carries tool calls is followed
  at once by their results, in the order of the calls, and no tool message stands anywhere else.
\<close>

function exchanges_ok :: "message list \<Rightarrow> bool" where
  "exchanges_ok [] = True"
| "exchanges_ok (m # ms) \<longleftrightarrow>
     m_role m \<noteq> RTool \<and>
     map (\<lambda>r. (m_role r, m_toolCallId r)) (take (length (m_toolCalls m)) ms) =
       map (\<lambda>c. (RTool, Some (tc_id c))) (m_toolCalls m) \<and>
     exchanges_ok (drop (length (m_toolCalls m)) ms)"
  by pat_completeness auto
termination by (relation "measure length") auto

definition only_assistants_call :: "ctx_message list \<Rightarrow> bool" where
  "only_assistants_call ms \<longleftrightarrow> (\<forall>m \<in> set ms. m_role m \<noteq> RAssistant \<longrightarrow> m_toolCalls m = [])"

text \<open>
  The proof describes the output by a plan: \<^term>\<open>Inl ids\<close> for a message with those calls, \<^term>\<open>Inr c\<close>
  for the place of the result of call \<open>c\<close>.
\<close>

type_synonym plan = "(string list + string) list"

function plan_ok :: "plan \<Rightarrow> bool" where
  "plan_ok [] = True"
| "plan_ok (Inr c # r) = False"
| "plan_ok (Inl ids # r) \<longleftrightarrow> take (length ids) r = map Inr ids \<and> plan_ok (drop (length ids) r)"
  by pat_completeness auto
termination by (relation "measure length") auto

lemma plan_ok_append: "plan_ok xs \<Longrightarrow> plan_ok ys \<Longrightarrow> plan_ok (xs @ ys)"
proof (induction xs rule: plan_ok.induct)
  case (3 ids r)
  then have t: "take (length ids) r = map Inr ids" by simp
  then have "length ids \<le> length r" by (metis length_map length_take min.absorb_iff1 min.commute)
  with 3 t show ?case by simp
qed simp_all

lemma plan_ok_block: "plan_ok (Inl ids # map Inr ids)"
  by simp

definition open_index :: "(string, open_slot) omap \<Rightarrow> string \<Rightarrow> nat option" where
  "open_index opn c = map_option os_index (om_get opn c)"

definition slot_ok :: "message list \<Rightarrow> (string, open_slot) omap \<Rightarrow> nat \<Rightarrow> string list + string \<Rightarrow> bool" where
  "slot_ok out opn i e =
     (case e of
        Inl ids \<Rightarrow> m_role (out ! i) \<noteq> RTool \<and> map tc_id (m_toolCalls (out ! i)) = ids
      | Inr c \<Rightarrow> m_role (out ! i) = RTool \<and>
          (m_toolCallId (out ! i) = Some c \<or> open_index opn c = Some i))"

lemma slot_ok_simps [simp]:
  "slot_ok out opn i (Inl ids) \<longleftrightarrow> m_role (out ! i) \<noteq> RTool \<and> map tc_id (m_toolCalls (out ! i)) = ids"
  "slot_ok out opn i (Inr c) \<longleftrightarrow> m_role (out ! i) = RTool \<and>
     (m_toolCallId (out ! i) = Some c \<or> open_index opn c = Some i)"
  by (simp_all add: slot_ok_def)

definition proj_inv :: "plan \<Rightarrow> string list \<Rightarrow> proj_state \<Rightarrow> bool" where
  "proj_inv g rest s \<longleftrightarrow>
     length g = length (p_out s) \<and> plan_ok (g @ map Inr rest) \<and>
     (\<forall>i < length g. slot_ok (p_out s) (p_open s) i (g ! i)) \<and>
     (\<forall>c i. open_index (p_open s) c = Some i \<longrightarrow> i < length g \<and> g ! i = Inr c) \<and>
     om_wf (p_open s) \<and>
     (\<forall>mg. p_merge s = Some mg \<longrightarrow> mg_index mg < length g \<and> g ! mg_index mg = Inl [])"

lemma proj_inv_anoms [simp]: "proj_inv g rest (s\<lparr>p_anoms := as\<rparr>) = proj_inv g rest s"
  by (simp add: proj_inv_def)

lemma proj_inv_note [simp]: "proj_inv g rest (note_anomaly a s) = proj_inv g rest s"
  by (simp add: note_anomaly_def)

lemma proj_inv_init: "proj_inv [] [] init_proj"
  by (simp add: proj_inv_def init_proj_def open_index_def)

lemma open_index_mark [simp]:
  "open_index (map (\<lambda>(k, sl). (k, sl\<lparr>os_foreign := True\<rparr>)) m) c = open_index m c"
  by (induction m) (auto simp: open_index_def)

lemma open_index_Nil [simp]: "open_index [] c = None"
  by (simp add: open_index_def)

lemma open_index_set:
  "open_index (om_set c sl m) c' = (if c' = c then Some (os_index sl) else open_index m c')"
  by (simp add: open_index_def)

lemma om_wf_map_snd [simp]: "om_wf (map (\<lambda>(k, v). (k, f v)) m) = om_wf m"
  by (simp add: om_wf_def case_prod_unfold comp_def)

lemma slot_ok_mark [simp]:
  "slot_ok out (map (\<lambda>(k, sl). (k, sl\<lparr>os_foreign := True\<rparr>)) m) i e = slot_ok out m i e"
  by (cases e) simp_all

lemma proj_inv_mark [simp]: "proj_inv g rest (markForeignBetween s) = proj_inv g rest s"
  by (simp add: proj_inv_def markForeignBetween_def)

text \<open>Replacing a message keeps the invariant when the new one satisfies the plan at that place.\<close>

lemma proj_inv_replace:
  assumes "proj_inv g rest s" and "i < length g" and "slot_ok [m] (p_open s) 0 (g ! i)"
    and "\<And>c. g ! i = Inr c \<Longrightarrow> m_toolCallId m = Some c"
  shows "proj_inv g rest (s\<lparr>p_out := (p_out s)[i := m]\<rparr>)"
proof -
  have "slot_ok ((p_out s)[i := m]) (p_open s) j (g ! j)" if "j < length g" for j
    using assms that by (cases "j = i"; cases "g ! j") (auto simp: proj_inv_def)
  with assms(1) show ?thesis by (auto simp: proj_inv_def)
qed

lemma proj_inv_flush:
  assumes "proj_inv g rest s" shows "proj_inv g rest (flushMerge s)"
proof (cases "p_merge s")
  case None
  with assms show ?thesis by (simp add: flushMerge_def)
next
  case (Some mg)
  with assms have i: "mg_index mg < length g" "g ! mg_index mg = Inl []" by (auto simp: proj_inv_def)
  have drop: "proj_inv g rest (t\<lparr>p_merge := None\<rparr>)" if "proj_inv g rest t" for t
    using that by (auto simp: proj_inv_def)
  show ?thesis
    unfolding flushMerge_def Some option.case Let_def
    by (rule drop) (auto intro!: proj_inv_replace assms simp: i)
qed

lemma proj_inv_push:
  assumes "proj_inv g [] s" and "m_role m \<noteq> RTool"
  shows "proj_inv (g @ [Inl (map tc_id (m_toolCalls m))]) (map tc_id (m_toolCalls m))
           (s\<lparr>p_out := p_out s @ [m]\<rparr>)"
proof -
  let ?ids = "map tc_id (m_toolCalls m)" and ?g = "g @ [Inl (map tc_id (m_toolCalls m))]"
  have "plan_ok (g @ (Inl ?ids # map Inr ?ids))"
    using assms(1) by (intro plan_ok_append plan_ok_block) (simp add: proj_inv_def)
  moreover have "slot_ok (p_out s @ [m]) (p_open s) j (?g ! j)" if "j < length ?g" for j
    using assms that by (cases "?g ! j") (auto simp: proj_inv_def nth_append less_Suc_eq)
  ultimately show ?thesis using assms(1) by (auto simp: proj_inv_def nth_append)
qed

lemma proj_inv_merge:
  "proj_inv g rest s \<Longrightarrow> mg_index mg < length g \<Longrightarrow> g ! mg_index mg = Inl [] \<Longrightarrow>
     proj_inv g rest (s\<lparr>p_merge := Some mg\<rparr>)"
  by (auto simp: proj_inv_def)

lemma proj_inv_open_call:
  assumes "proj_inv g (c # rest) s"
  shows "\<exists>g'. proj_inv g' rest (open_call idx l c s)"
proof -
  define s1 where "s1 = (case om_get (p_open s) c of
      None \<Rightarrow> s
    | Some sl \<Rightarrow> note_anomaly (ToolResultSynthesized c (int (os_owner sl) \<ge> l))
        (s\<lparr>p_out := (p_out s)[os_index sl := createInterruptedToolResult c]\<rparr>))"
  have s1: "proj_inv g (c # rest) s1"
  proof (cases "om_get (p_open s) c")
    case None
    with assms show ?thesis by (simp add: s1_def)
  next
    case (Some sl)
    then have "open_index (p_open s) c = Some (os_index sl)" by (simp add: open_index_def)
    with assms have "os_index sl < length g" "g ! os_index sl = Inr c" by (auto simp: proj_inv_def)
    with assms Some show ?thesis
      by (auto simp: s1_def createInterruptedToolResult_def intro!: proj_inv_replace)
  qed
  have filled: "m_toolCallId (p_out s1 ! i) = Some c" if "i < length g" "g ! i = Inr c" for i
  proof (cases "om_get (p_open s) c")
    case None
    with assms that show ?thesis by (auto simp: s1_def proj_inv_def open_index_def)
  next
    case (Some sl)
    have "slot_ok (p_out s) (p_open s) i (Inr c)" "i < length (p_out s)"
      using assms that by (auto simp: proj_inv_def dest: spec [of _ i])
    with Some show ?thesis
      by (cases "i = os_index sl")
        (auto simp: s1_def open_index_def note_anomaly_def createInterruptedToolResult_def)
  qed
  let ?opn = "om_set c \<lparr>os_index = length (p_out s1), os_owner = idx, os_foreign = False\<rparr> (p_open s1)"
  let ?g = "g @ [Inr c]"
  have "slot_ok (p_out s1 @ [TOOL_RESULT_SLOT]) ?opn j (?g ! j)" if "j < length ?g" for j
    using s1 that filled [of j]
    by (cases "?g ! j") (auto simp: proj_inv_def nth_append less_Suc_eq open_index_set
        TOOL_RESULT_SLOT_def createInterruptedToolResult_def)
  then have "proj_inv ?g rest (s1\<lparr>p_open := ?opn, p_out := p_out s1 @ [TOOL_RESULT_SLOT]\<rparr>)"
    using s1 by (auto simp: proj_inv_def nth_append open_index_set)
  then show ?thesis by (auto simp: open_call_def Let_def s1_def)
qed

lemma proj_inv_open_calls:
  "proj_inv g cs s \<Longrightarrow> \<exists>g'. proj_inv g' [] (fold (open_call idx l) cs s)"
  by (induction cs arbitrary: g s) (auto dest: proj_inv_open_call [where idx = idx and l = l])

lemma mg_index_append [simp]: "mg_index (appendMergeContent g c) = mg_index g"
  by (simp add: appendMergeContent_def Let_def)

lemma proj_inv_emit_content:
  assumes "proj_inv g [] s" and "m_role m \<noteq> RTool" and "m_role m \<noteq> RAssistant \<longrightarrow> m_toolCalls m = []"
  shows "\<exists>g'. proj_inv g' (map tc_id (m_toolCalls m)) (emit_content m content s)"
proof -
  define s1 where "s1 = (if p_open s \<noteq> [] then markForeignBetween s else s)"
  have s1: "proj_inv g [] s1" using assms(1) by (simp add: s1_def)
  have emit: "emit_content m content s =
      (if canMergeUserMessage m then
        (case p_merge s1 of
           None \<Rightarrow> s1\<lparr>p_out := p_out s1 @ [toWireMessage m content],
                    p_merge := Some \<lparr>mg_index = length (p_out s1), mg_single = Some content,
                      mg_texts = [], mg_parts = []\<rparr>\<rparr>
         | Some g \<Rightarrow>
             (let g1 = (case mg_single g of
                          None \<Rightarrow> g
                        | Some c \<Rightarrow> (appendMergeContent g c)\<lparr>mg_single := None\<rparr>)
              in s1\<lparr>p_merge := Some (appendMergeContent g1 content)\<rparr>))
      else (let s2 = flushMerge s1 in s2\<lparr>p_out := p_out s2 @ [toWireMessage m content]\<rparr>))"
    by (simp only: emit_content_def s1_def Let_def)
  have push: "proj_inv (g @ [Inl (map tc_id (m_toolCalls m))]) (map tc_id (m_toolCalls m))
      (t\<lparr>p_out := p_out t @ [toWireMessage m content]\<rparr>)" if "proj_inv g [] t" for t
    using proj_inv_push [OF that, of "toWireMessage m content"] assms(2) by (simp add: toWireMessage_def)
  show ?thesis
  proof (cases "canMergeUserMessage m")
    case False
    with push [OF proj_inv_flush [OF s1]] show ?thesis by (auto simp: emit Let_def)
  next
    case True
    then have c: "m_toolCalls m = []" using assms(3) by (simp add: canMergeUserMessage_def)
    show ?thesis
    proof (cases "p_merge s1")
      case None
      have "proj_inv (g @ [Inl []]) [] (s1\<lparr>p_out := p_out s1 @ [toWireMessage m content],
              p_merge := Some \<lparr>mg_index = length (p_out s1), mg_single = Some content,
                      mg_texts = [], mg_parts = []\<rparr>\<rparr>)"
        proof -
        have "length g = length (p_out s1)" using s1 by (simp add: proj_inv_def)
        with proj_inv_merge [OF push [OF s1]] c show ?thesis by (simp add: nth_append)
      qed
      with True None c show ?thesis by (auto simp: emit Let_def)
    next
      case (Some mg)
      have "proj_inv g [] (s1\<lparr>p_merge := Some mg'\<rparr>)" if "mg_index mg' = mg_index mg" for mg'
        using s1 Some that by (auto simp: proj_inv_def)
      with True Some c show ?thesis
        by (auto simp: emit Let_def intro!: exI [of _ g] split: option.splits)
    qed
  qed
qed

lemma proj_inv_emit:
  assumes "proj_inv g [] s" and "m_role m \<noteq> RTool" and "m_role m \<noteq> RAssistant \<longrightarrow> m_toolCalls m = []"
  shows "\<exists>s' g'. emit m s = Inr s' \<and> proj_inv g' (map tc_id (m_toolCalls m)) s'"
proof -
  obtain content as where c: "projectedContent m = Inr (content, as)"
    using projectedContent_total by blast
  let ?s0 = "s\<lparr>p_anoms := p_anoms s @ as\<rparr>"
  have s0: "proj_inv g [] ?s0" using assms(1) by simp
  with proj_inv_emit_content [OF this assms(2,3)] c show ?thesis
    by (auto simp: emit_def Let_def)
qed

lemma open_index_del:
  "open_index (om_del c m) c' = (if c' = c then None else open_index m c')"
  by (simp add: open_index_def om_get_del)

lemma proj_inv_place_result:
  assumes "proj_inv g [] s" and "m_role m = RTool"
  shows "\<exists>s'. place_result m s = Inr s' \<and> proj_inv g [] s'"
proof (cases "m_toolCallId m")
  case None
  with assms show ?thesis by (simp add: place_result_def)
next
  case cid: (Some cid)
  show ?thesis
  proof (cases "om_get (p_open s) cid")
    case None
    with assms cid show ?thesis by (auto simp: place_result_def)
  next
    case (Some sl)
    obtain content as where c: "projectedContent m = Inr (content, as)"
      using projectedContent_total by blast
    have o: "open_index (p_open s) cid = Some (os_index sl)" using Some by (simp add: open_index_def)
    with assms(1) have i: "os_index sl < length g" "g ! os_index sl = Inr cid"
      by (auto simp: proj_inv_def)
    let ?out = "(p_out s)[os_index sl := toWireMessage m content]"
    have "slot_ok ?out (om_del cid (p_open s)) j (g ! j)" if "j < length g" for j
    proof (cases "j = os_index sl")
      case True
      with i that assms cid show ?thesis by (simp add: toWireMessage_def proj_inv_def)
    next
      case False
      with o assms(1) that show ?thesis
        by (cases "g ! j") (auto simp: proj_inv_def open_index_del dest!: spec [of _ j])
    qed
    then have "proj_inv g [] (s\<lparr>p_open := om_del cid (p_open s), p_anoms := x, p_out := ?out\<rparr>)" for x
      using assms(1) by (auto simp: proj_inv_def open_index_del)
    with Some cid c show ?thesis by (auto simp: place_result_def Let_def note_anomaly_def)
  qed
qed

lemma proj_inv_step:
  assumes "proj_inv g [] s" and "m_role m \<noteq> RAssistant \<longrightarrow> m_toolCalls m = []"
  shows "\<exists>s' g'. project_step True l (i, m) s = Inr s' \<and> proj_inv g' [] s'"
proof (cases "m_partial m \<or> m_role m = RTool")
  case True
  have "m_role m = RTool \<Longrightarrow> \<exists>s'. place_result m s = Inr s' \<and> proj_inv g [] s'"
    using proj_inv_place_result [OF assms(1)] .
  with True assms(1) show ?thesis by (auto simp: project_step_def Let_def)
next
  case False
  with proj_inv_emit [OF assms(1) _ assms(2)] obtain s' g' where
    "emit m s = Inr s'" "proj_inv g' (map tc_id (m_toolCalls m)) s'" by auto
  with False proj_inv_open_calls [of g' _ s' i l] show ?thesis by (auto simp: project_step_def Let_def)
qed

text \<open>Closing the open slots fills every one of them.\<close>

lemma close_slots_fold:
  assumes "om_wf opn" and "length g = length (p_out s)"
    and "\<forall>i < length g. slot_ok (p_out s) opn i (g ! i)"
    and "\<forall>c i. open_index opn c = Some i \<longrightarrow> i < length g \<and> g ! i = Inr c"
  shows "let s' = fold (\<lambda>(cid, sl) s. note_anomaly
             (ToolResultSynthesized cid (int (os_owner sl) \<ge> l))
             (s\<lparr>p_out := (p_out s)[os_index sl := createInterruptedToolResult cid]\<rparr>)) opn s
         in length g = length (p_out s') \<and> p_merge s' = p_merge s \<and>
            (\<forall>i < length g. slot_ok (p_out s') [] i (g ! i))"
  using assms
proof (induction opn arbitrary: s)
  case Nil
  then show ?case by simp
next
  case (Cons e opn)
  obtain c sl where e: "e = (c, sl)" by (cases e)
  let ?s = "note_anomaly (ToolResultSynthesized c (int (os_owner sl) \<ge> l))
             (s\<lparr>p_out := (p_out s)[os_index sl := createInterruptedToolResult c]\<rparr>)"
  have fresh: "open_index opn c = None"
    using Cons.prems(1) by (auto simp: e om_wf_def open_index_def map_of_eq_None_iff)
  have idx: "open_index ((c, sl) # opn) c' = (if c' = c then Some (os_index sl) else open_index opn c')" for c'
    by (simp add: open_index_def)
  have at: "os_index sl < length g" "g ! os_index sl = Inr c"
    using Cons.prems(4) idx by (auto simp: e dest: spec [of _ c])
  have "slot_ok (p_out ?s) opn i (g ! i)" if "i < length g" for i
  proof (cases "i = os_index sl")
    case True
    with at Cons.prems(2) show ?thesis by (simp add: note_anomaly_def createInterruptedToolResult_def)
  next
    case False
    with Cons.prems(3) that show ?thesis
      by (cases "g ! i") (auto simp: note_anomaly_def e idx dest!: spec [of _ i] split: if_splits)
  qed
  moreover have "\<forall>c' i. open_index opn c' = Some i \<longrightarrow> i < length g \<and> g ! i = Inr c'"
    using Cons.prems(4) fresh idx by (metis e option.distinct(1))
  moreover have "om_wf opn" "length g = length (p_out ?s)" "p_merge ?s = p_merge s"
    using Cons.prems(1,2) by (auto simp: om_wf_def note_anomaly_def)
  ultimately show ?case using Cons.IH [of ?s] by (simp add: e)
qed

lemma plan_filled_exchanges_ok:
  assumes "plan_ok g" and "length g = length out" and "\<forall>i < length g. slot_ok out [] i (g ! i)"
  shows "exchanges_ok out"
  using assms
proof (induction g arbitrary: out rule: plan_ok.induct)
  case 1
  then show ?case by simp
next
  case (2 c r)
  then show ?case by simp
next
  case (3 ids r)
  then obtain m ms where out: "out = m # ms" by (cases out) auto
  let ?n = "length ids"
  have m: "m_role m \<noteq> RTool" "map tc_id (m_toolCalls m) = ids"
    using "3.prems"(3) out by (auto dest: spec [of _ 0])
  have r: "take ?n r = map Inr ids" "plan_ok (drop ?n r)" "length r = length ms"
    using "3.prems" out by simp_all
  then have n: "?n \<le> length r" by (metis length_map length_take min.absorb_iff1 min.commute)
  have at: "slot_ok ms [] i (r ! i)" if "i < length r" for i
    using "3.prems"(3) out that by (cases "r ! i") (auto dest!: spec [of _ "Suc i"])
  have "m_role (ms ! i) = RTool \<and> m_toolCallId (ms ! i) = Some (ids ! i)" if "i < ?n" for i
  proof -
    have "r ! i = Inr (ids ! i)" using r(1) that n by (metis nth_map nth_take)
    with at [of i] that n show ?thesis by (simp add: open_index_def)
  qed
  then have res: "map (\<lambda>r. (m_role r, m_toolCallId r)) (take ?n ms) = map (\<lambda>c. (RTool, Some c)) ids"
    using n r(3) by (intro nth_equalityI) auto
  have "slot_ok (drop ?n ms) [] i (drop ?n r ! i)" if "i < length (drop ?n r)" for i
    using at [of "?n + i"] that r(3) by (cases "r ! (?n + i)") auto
  then have "exchanges_ok (drop ?n ms)"
    using "3.IH" [of "drop ?n ms"] r by simp
  with m res show ?case by (auto simp: out comp_def)
qed

lemma project_exchanges_ok_ex:
  assumes "only_assistants_call history" and "hasAssistantMessage history"
  shows "\<exists>out as. project history = Inr (out, as) \<and> exchanges_ok out"
proof -
  let ?l = "lastNonToolIndex history"
  have "\<exists>s. efold (project_step True ?l) (enumerate 0 history) init_proj = Inr s \<and> (\<exists>g. proj_inv g [] s)"
  proof (rule efold_total)
    fix im :: "nat \<times> ctx_message" and s
    assume im: "im \<in> set (enumerate 0 history)" and "\<exists>g. proj_inv g [] s"
    then obtain g where g: "proj_inv g [] s" by blast
    obtain i m where "im = (i, m)" by (cases im)
    with im have "m \<in> set history" by (auto simp: in_set_enumerate_eq)
    with assms(1) have "m_role m \<noteq> RAssistant \<longrightarrow> m_toolCalls m = []"
      by (simp add: only_assistants_call_def)
    from proj_inv_step [OF g this, of ?l i] \<open>im = (i, m)\<close>
    show "\<exists>s'. project_step True ?l im s = Inr s' \<and> (\<exists>g. proj_inv g [] s')" by blast
  qed (use proj_inv_init in blast)
  then obtain s g where s: "efold (project_step True ?l) (enumerate 0 history) init_proj = Inr s"
    "proj_inv g [] s" by blast
  have closed: "length g = length (p_out (close_slots ?l s))" "p_merge (close_slots ?l s) = p_merge s"
    "\<forall>i < length g. slot_ok (p_out (close_slots ?l s)) [] i (g ! i)"
    using close_slots_fold [of "p_open s" g s ?l] s(2)
    by (auto simp: proj_inv_def close_slots_def Let_def)
  let ?t = "(close_slots ?l s)\<lparr>p_open := []\<rparr>"
  have "proj_inv g [] ?t" using closed s(2) by (auto simp: proj_inv_def open_index_def)
  then have "proj_inv g [] (flushMerge ?t)" by (rule proj_inv_flush)
  moreover have "p_out (flushMerge ?t) = p_out (flushMerge (close_slots ?l s))" "p_open (flushMerge ?t) = []"
    by (auto simp: flushMerge_def Let_def split: option.splits)
  ultimately have "exchanges_ok (p_out (flushMerge (close_slots ?l s)))"
    using plan_filled_exchanges_ok [of g "p_out (flushMerge (close_slots ?l s))"] by (simp add: proj_inv_def)
  with s(1) assms(2) show ?thesis by (simp add: project_def Let_def)
qed

section \<open>The strict projection is wire-valid\<close>

definition msg_sig :: "message \<Rightarrow> role \<times> string option \<times> string list" where
  "msg_sig m = (m_role m, m_toolCallId m, map tc_id (m_toolCalls m))"

definition call_ids :: "message list \<Rightarrow> string list" where
  "call_ids ms = concat (map (\<lambda>m. map tc_id (m_toolCalls m)) ms)"

definition wire_calls_ok :: "message list \<Rightarrow> bool" where
  "wire_calls_ok ms \<longleftrightarrow> (\<forall>m \<in> set ms. m_role m \<noteq> RAssistant \<longrightarrow> m_toolCalls m = [])"

fun no_adjacent_assistants :: "message list \<Rightarrow> bool" where
  "no_adjacent_assistants (a # b # ms) \<longleftrightarrow>
     \<not> (m_role a = RAssistant \<and> m_role b = RAssistant) \<and> no_adjacent_assistants (b # ms)"
| "no_adjacent_assistants _ = True"

lemma call_ids_simps [simp]:
  "call_ids [] = []" "call_ids (m # ms) = map tc_id (m_toolCalls m) @ call_ids ms"
  "call_ids (xs @ ys) = call_ids xs @ call_ids ys"
  by (simp_all add: call_ids_def)

definition result_sig :: "message \<Rightarrow> role \<times> string option" where
  "result_sig r = (m_role r, m_toolCallId r)"

lemma exchanges_ok_Cons:
  "exchanges_ok (m # ms) \<longleftrightarrow> m_role m \<noteq> RTool \<and>
     (\<exists>rs ms'. ms = rs @ ms' \<and> map result_sig rs = map (\<lambda>c. (RTool, Some (tc_id c))) (m_toolCalls m) \<and>
        exchanges_ok ms')" (is "?L \<longleftrightarrow> ?R")
proof
  let ?n = "length (m_toolCalls m)"
  assume L: ?L
  have "ms = take ?n ms @ drop ?n ms" by simp
  moreover have "map result_sig (take ?n ms) = map (\<lambda>c. (RTool, Some (tc_id c))) (m_toolCalls m)"
    using L by (simp add: result_sig_def [abs_def])
  ultimately show ?R using L by (metis exchanges_ok.simps(2))
next
  assume ?R
  then obtain rs ms' where r: "m_role m \<noteq> RTool" "ms = rs @ ms'" "exchanges_ok ms'"
    "map result_sig rs = map (\<lambda>c. (RTool, Some (tc_id c))) (m_toolCalls m)" by blast
  then have "length rs = length (m_toolCalls m)" by (metis length_map)
  with r show ?L by (simp add: result_sig_def [abs_def])
qed

text \<open>Induction over the exchanges of a conversation, one message with its results at a time.\<close>

lemma exchanges_induct [consumes 1, case_names Nil Exchange]:
  assumes "exchanges_ok ms" and "P []"
    and step: "\<And>m rs ms'. m_role m \<noteq> RTool \<Longrightarrow>
      map result_sig rs = map (\<lambda>c. (RTool, Some (tc_id c))) (m_toolCalls m) \<Longrightarrow>
      exchanges_ok ms' \<Longrightarrow> P ms' \<Longrightarrow> P (m # rs @ ms')"
  shows "P ms"
  using assms(1)
proof (induction ms rule: length_induct)
  case (1 ms)
  show ?case
  proof (cases ms)
    case Nil
    with assms(2) show ?thesis by simp
  next
    case (Cons m r)
    with "1.prems" obtain rs ms' where "r = rs @ ms'" "m_role m \<noteq> RTool" "exchanges_ok ms'"
      "map result_sig rs = map (\<lambda>c. (RTool, Some (tc_id c))) (m_toolCalls m)"
      using exchanges_ok_Cons by blast
    moreover from this have "P ms'" using "1.IH" Cons by simp
    ultimately show ?thesis using step Cons by blast
  qed
qed

lemma exchanges_ok_block:
  "m_role m \<noteq> RTool \<Longrightarrow>
     map result_sig rs = map (\<lambda>c. (RTool, Some (tc_id c))) (m_toolCalls m) \<Longrightarrow>
     exchanges_ok (m # rs @ ms') = exchanges_ok ms'"
  by (auto simp del: exchanges_ok.simps simp: exchanges_ok_Cons)
    (metis append_eq_append_conv length_map)

lemma results_are_tools:
  "map result_sig rs = map (\<lambda>c. (RTool, Some (tc_id c))) cs \<Longrightarrow> t \<in> set rs \<Longrightarrow> m_role t = RTool"
  using list.set_map [of result_sig rs] by (auto simp: result_sig_def)

lemma exchanges_ok_append: "exchanges_ok xs \<Longrightarrow> exchanges_ok ys \<Longrightarrow> exchanges_ok (xs @ ys)"
  by (induction xs rule: exchanges_induct) (simp_all add: exchanges_ok_block del: exchanges_ok.simps(2))

lemma exchanges_ok_sig:
  "map msg_sig xs = map msg_sig ys \<Longrightarrow> exchanges_ok xs = exchanges_ok ys"
proof (induction xs arbitrary: ys rule: exchanges_ok.induct)
  case 1
  then show ?case by simp
next
  case (2 m ms)
  then obtain k ks where ys: "ys = k # ks" "msg_sig k = msg_sig m" "map msg_sig ms = map msg_sig ks"
    by (cases ys) auto
  have n: "length (m_toolCalls k) = length (m_toolCalls m)"
    using ys(2) by (auto simp: msg_sig_def dest: map_eq_imp_length_eq)
  let ?n = "length (m_toolCalls m)"
  have t: "map msg_sig (take ?n ms) = map msg_sig (take ?n ks)"
    "map msg_sig (drop ?n ms) = map msg_sig (drop ?n ks)"
    using ys(3) by (simp_all add: take_map [symmetric] drop_map [symmetric])
  have "map result_sig (take ?n ms) = map result_sig (take ?n ks)"
    using arg_cong [OF t(1), of "map (\<lambda>(r, i, _). (r, i))"] by (simp add: msg_sig_def result_sig_def [abs_def] comp_def)
  moreover have "map (\<lambda>c. (RTool, Some (tc_id c))) (m_toolCalls m) =
      map (\<lambda>c. (RTool, Some (tc_id c))) (m_toolCalls k)"
  proof -
    have "map (\<lambda>c. (RTool, Some (tc_id c))) cs = map (\<lambda>i. (RTool, Some i)) (map tc_id cs)" for cs
      by simp
    then show ?thesis using ys(2) unfolding msg_sig_def by (metis prod.inject)
  qed
  ultimately show ?case
    using ys "2.IH" [OF t(2)] n by (simp add: msg_sig_def result_sig_def [abs_def])
qed

lemma call_ids_sig: "map msg_sig xs = map msg_sig ys \<Longrightarrow> call_ids xs = call_ids ys"
proof -
  have "call_ids ms = concat (map (\<lambda>(_, _, ids). ids) (map msg_sig ms))" for ms
    by (simp add: call_ids_def msg_sig_def comp_def)
  then show "map msg_sig xs = map msg_sig ys \<Longrightarrow> call_ids xs = call_ids ys" by metis
qed

lemma exchanges_ok_snoc:
  assumes "exchanges_ok ms" and "ms = xs @ [a]" and "m_role a \<noteq> RTool"
  shows "exchanges_ok xs \<and> m_toolCalls a = []"
  using assms
proof (induction ms arbitrary: xs rule: exchanges_induct)
  case Nil
  then show ?case by simp
next
  case (Exchange m rs ms')
  show ?case
  proof (cases ms' rule: rev_cases)
    case Nil
    with Exchange.prems have "m # rs = xs @ [a]" by simp
    then consider "xs = []" "rs = []" "m = a" | "a \<in> set rs"
      by (cases xs) auto
    then show ?thesis
      using results_are_tools [OF Exchange.hyps(2)] Exchange by cases auto
  next
    case (snoc ys b)
    with Exchange.prems have "xs = m # rs @ ys" "b = a" by (metis append.assoc append_Cons append1_eq_conv)+
    with Exchange snoc show ?thesis by (simp add: exchanges_ok_block del: exchanges_ok.simps(2))
  qed
qed

lemma drop_leading_tools:
  "\<forall>t \<in> set rs. m_role t = RTool \<Longrightarrow>
     fst (dropLeadingNonUserMessages (rs @ ms)) = fst (dropLeadingNonUserMessages ms)"
  by (induction rs) (auto split: prod.splits)

lemma exchanges_ok_drop_leading:
  "exchanges_ok ms \<Longrightarrow> exchanges_ok (fst (dropLeadingNonUserMessages ms))"
proof (induction ms rule: exchanges_induct)
  case Nil
  then show ?case by simp
next
  case (Exchange m rs ms')
  have "fst (dropLeadingNonUserMessages (rs @ ms')) = fst (dropLeadingNonUserMessages ms')"
    using results_are_tools [OF Exchange.hyps(2)] by (simp add: drop_leading_tools)
  with Exchange show ?case
    by (auto simp: exchanges_ok_block simp del: exchanges_ok.simps(2) split: prod.splits)
qed

subsection \<open>Dropping the duplicate calls\<close>

definition kept_ok :: "dedupe_state \<Rightarrow> bool" where
  "kept_ok s \<longleftrightarrow> (\<forall>c i. om_get (d_kept s) c = Some i \<longrightarrow>
     i < length (d_out s) \<and> m_role (d_out s ! i) = RTool \<and> m_toolCallId (d_out s ! i) = Some c \<and>
     m_toolCalls (d_out s ! i) = [])"

definition dedupe_inv :: "dedupe_state \<Rightarrow> bool" where
  "dedupe_inv s \<longleftrightarrow> exchanges_ok (d_out s) \<and> wire_calls_ok (d_out s) \<and> kept_ok s \<and>
     dom (om_get (d_kept s)) = set (d_seen s) \<and> distinct (call_ids (d_out s)) \<and>
     set (call_ids (d_out s)) = set (d_seen s)"

lemma kept_okD:
  "kept_ok s \<Longrightarrow> om_get (d_kept s) c = Some i \<Longrightarrow>
     i < length (d_out s) \<and> m_role (d_out s ! i) = RTool \<and> m_toolCallId (d_out s ! i) = Some c \<and>
     m_toolCalls (d_out s ! i) = []"
  by (simp add: kept_ok_def)

lemma dedupe_calls_ids_aux:
  "dedupe_calls cs seen = (kept, seen', as) \<Longrightarrow>
     distinct (map tc_id kept) \<and> set (map tc_id kept) \<inter> set seen = {} \<and>
     set seen' = set seen \<union> set (map tc_id kept) \<and> length kept \<le> length cs \<and>
     (length kept = length cs \<longrightarrow> kept = cs)"
proof (induction cs seen arbitrary: kept seen' as rule: dedupe_calls.induct)
  case (1 seen)
  then show ?case by simp
next
  case (2 c cs seen)
  show ?case
  proof (cases "tc_id c \<in> set seen")
    case True
    with 2(3) obtain as' where "dedupe_calls cs seen = (kept, seen', as')" by (auto split: prod.splits)
    with 2(1) [OF True] show ?thesis by fastforce
  next
    case False
    with 2(3) obtain k as' where k: "dedupe_calls cs (seen @ [tc_id c]) = (k, seen', as')" "kept = c # k"
      by (auto split: prod.splits)
    from 2(2) [OF False k(1)] k(2) False show ?thesis by auto
  qed
qed

lemma dedupe_calls_ids:
  assumes "dedupe_calls cs seen = (kept, seen', as)"
  shows "distinct (map tc_id kept)" "set (map tc_id kept) \<inter> set seen = {}"
    "set seen' = set seen \<union> set (map tc_id kept)"
    "length kept = length cs \<Longrightarrow> kept = cs" "length kept \<le> length cs"
  using dedupe_calls_ids_aux [OF assms] by blast+

text \<open>A result of a call seen before leaves the messages' signatures as they are.\<close>

lemma dedupe_step_old_result:
  assumes "kept_ok s" and "result_sig r = (RTool, Some c)" and "m_toolCalls r = []"
    and "c \<in> dom (om_get (d_kept s))"
  shows "d_seen (dedupe_step r s) = d_seen s" "d_kept (dedupe_step r s) = d_kept s"
    "kept_ok (dedupe_step r s)" "map msg_sig (d_out (dedupe_step r s)) = map msg_sig (d_out s)"
proof -
  obtain i where i: "om_get (d_kept s) c = Some i" using assms(4) by blast
  then have at: "i < length (d_out s)" "m_role (d_out s ! i) = RTool"
    "m_toolCallId (d_out s ! i) = Some c" "m_toolCalls (d_out s ! i) = []"
    using assms(1) by (auto simp: kept_ok_def)
  have r: "m_role r = RTool" "m_toolCallId r = Some c" using assms(2) by (simp_all add: result_sig_def)
  have step: "dedupe_step r s = s\<lparr>d_out := (d_out s)[i := r]\<rparr> \<or>
      dedupe_step r s = s\<lparr>d_anoms := d_anoms s @ [DuplicateToolResultDropped c]\<rparr>"
    by (simp add: dedupe_step_def r i)
  have "j < length (d_out s) \<and> m_role ((d_out s)[i := r] ! j) = RTool \<and>
      m_toolCallId ((d_out s)[i := r] ! j) = Some c' \<and> m_toolCalls ((d_out s)[i := r] ! j) = []"
    if "om_get (d_kept s) c' = Some j" for c' j
    using kept_okD [OF assms(1) that] r at(3) assms(3) by (cases "j = i") auto
  then have "kept_ok (s\<lparr>d_out := (d_out s)[i := r]\<rparr>)" by (simp add: kept_ok_def)
  moreover have "map msg_sig ((d_out s)[i := r]) = map msg_sig (d_out s)"
    using at r assms(3) by (simp add: map_update msg_sig_def list_update_same_conv)
  ultimately show "d_seen (dedupe_step r s) = d_seen s" "d_kept (dedupe_step r s) = d_kept s"
    "kept_ok (dedupe_step r s)" "map msg_sig (d_out (dedupe_step r s)) = map msg_sig (d_out s)"
    using step assms(1) by (auto simp: kept_ok_def)
qed

lemma dedupe_step_new_result:
  assumes "kept_ok s" and "result_sig r = (RTool, Some c)" and "m_toolCalls r = []"
    and "c \<notin> dom (om_get (d_kept s))"
  shows "dedupe_step r s = s\<lparr>d_kept := om_set c (length (d_out s)) (d_kept s), d_out := d_out s @ [r]\<rparr>"
    "kept_ok (dedupe_step r s)"
proof -
  have r: "m_role r = RTool" "m_toolCallId r = Some c" using assms(2) by (simp_all add: result_sig_def)
  show eq: "dedupe_step r s =
      s\<lparr>d_kept := om_set c (length (d_out s)) (d_kept s), d_out := d_out s @ [r]\<rparr>"
    using assms(4) by (simp add: dedupe_step_def r domIff)
  show "kept_ok (dedupe_step r s)"
    unfolding eq kept_ok_def using assms(3) r
    by (auto simp: nth_append less_SucI dest: kept_okD [OF assms(1)])
qed

lemma dedupe_results:
  assumes "kept_ok s" and "dom (om_get (d_kept s)) = set seen"
    and "map result_sig rs = map (\<lambda>c. (RTool, Some (tc_id c))) cs" and "\<forall>r \<in> set rs. m_toolCalls r = []"
    and "dedupe_calls cs seen = (kept, seen', as)"
  shows "\<exists>out' rs'. d_out (fold dedupe_step rs s) = out' @ rs' \<and>
           map msg_sig out' = map msg_sig (d_out s) \<and>
           map result_sig rs' = map (\<lambda>c. (RTool, Some (tc_id c))) kept \<and>
           (\<forall>r \<in> set rs'. m_toolCalls r = [] \<and> m_role r = RTool) \<and>
           kept_ok (fold dedupe_step rs s) \<and> dom (om_get (d_kept (fold dedupe_step rs s))) = set seen' \<and>
           d_seen (fold dedupe_step rs s) = d_seen s"
  using assms
proof (induction cs seen arbitrary: rs s kept seen' as rule: dedupe_calls.induct)
  case (1 seen)
  then show ?case by (auto intro!: exI [of _ "d_out s"])
next
  case (2 c cs seen)
  obtain r rs0 where rs: "rs = r # rs0" "result_sig r = (RTool, Some (tc_id c))"
    "map result_sig rs0 = map (\<lambda>c. (RTool, Some (tc_id c))) cs" "m_toolCalls r = []"
    "\<forall>r \<in> set rs0. m_toolCalls r = []"
    using "2.prems"(3,4) by (cases rs) auto
  show ?case
  proof (cases "tc_id c \<in> set seen")
    case True
    obtain k as' where d: "dedupe_calls cs seen = (k, seen', as')" "kept = k"
      using "2.prems"(5) True by (auto split: prod.splits)
    note old = dedupe_step_old_result [OF "2.prems"(1) rs(2,4)]
    have "tc_id c \<in> dom (om_get (d_kept s))" using True "2.prems"(2) by simp
    note old = old [OF this]
    from "2.IH"(1) [OF True, of "dedupe_step r s" rs0 k seen' as'] old rs d "2.prems"(2)
    show ?thesis by simp
  next
    case False
    obtain k as' where d: "dedupe_calls cs (seen @ [tc_id c]) = (k, seen', as')" "kept = c # k"
      using "2.prems"(5) False by (auto split: prod.splits)
    have "tc_id c \<notin> dom (om_get (d_kept s))" using False "2.prems"(2) by simp
    note new = dedupe_step_new_result [OF "2.prems"(1) rs(2,4) this]
    have dom: "dom (om_get (d_kept (dedupe_step r s))) = set (seen @ [tc_id c])"
      using "2.prems"(2) unfolding new(1) by (auto simp: dom_def)
    from "2.IH"(2) [OF False new(2) dom rs(3,5) d(1)]
    obtain out' rs' where o: "d_out (fold dedupe_step rs s) = out' @ rs'"
      "map msg_sig out' = map msg_sig (d_out s @ [r])"
      "map result_sig rs' = map (\<lambda>c. (RTool, Some (tc_id c))) k"
      "\<forall>r \<in> set rs'. m_toolCalls r = [] \<and> m_role r = RTool"
      "kept_ok (fold dedupe_step rs s)" "dom (om_get (d_kept (fold dedupe_step rs s))) = set seen'"
      "d_seen (fold dedupe_step rs s) = d_seen s"
      unfolding rs(1) by (auto simp: new(1))
    from o(2) obtain o1 r' where o1: "out' = o1 @ [r']" "map msg_sig o1 = map msg_sig (d_out s)"
      "msg_sig r' = msg_sig r"
      by (cases out' rule: rev_cases) auto
    have "result_sig r' = (RTool, Some (tc_id c))" "m_toolCalls r' = []" "m_role r' = RTool"
      using o1(3) rs(2,4) by (auto simp: msg_sig_def result_sig_def)
    with o o1 d(2) show ?thesis by (intro exI [of _ o1] exI [of _ "r' # rs'"]) simp
  qed
qed

lemma wire_calls_ok_sig: "map msg_sig xs = map msg_sig ys \<Longrightarrow> wire_calls_ok xs = wire_calls_ok ys"
proof -
  have "wire_calls_ok ms \<longleftrightarrow> (\<forall>(r, _, ids) \<in> set (map msg_sig ms). r \<noteq> RAssistant \<longrightarrow> ids = [])" for ms
    by (auto simp: wire_calls_ok_def msg_sig_def)
  then show "map msg_sig xs = map msg_sig ys \<Longrightarrow> wire_calls_ok xs = wire_calls_ok ys" by metis
qed

lemma wire_calls_ok_simps [simp]:
  "wire_calls_ok []"
  "wire_calls_ok (m # ms) \<longleftrightarrow> (m_role m \<noteq> RAssistant \<longrightarrow> m_toolCalls m = []) \<and> wire_calls_ok ms"
  "wire_calls_ok (xs @ ys) \<longleftrightarrow> wire_calls_ok xs \<and> wire_calls_ok ys"
  by (auto simp: wire_calls_ok_def)

lemma call_ids_tools: "\<forall>r \<in> set rs. m_toolCalls r = [] \<Longrightarrow> call_ids rs = []"
  by (simp add: call_ids_def)

lemma wire_calls_ok_tools: "\<forall>r \<in> set rs. m_toolCalls r = [] \<Longrightarrow> wire_calls_ok rs"
  by (simp add: wire_calls_ok_def)

text \<open>The state after the first message of an exchange: what was appended and what is kept.\<close>

lemma dedupe_step_head:
  assumes "m_role m \<noteq> RTool" and "m_role m \<noteq> RAssistant \<longrightarrow> m_toolCalls m = []"
    and "dedupe_calls (m_toolCalls m) (d_seen s) = (kept, seen', as)"
  shows "d_kept (dedupe_step m s) = d_kept s" "d_seen (dedupe_step m s) = seen'"
    "(\<exists>m'. d_out (dedupe_step m s) = d_out s @ [m'] \<and> m_role m' = m_role m \<and> m_toolCalls m' = kept) \<or>
     (d_out (dedupe_step m s) = d_out s \<and> kept = [])"
proof -
  note ids = dedupe_calls_ids [OF assms(3)]
  show "d_kept (dedupe_step m s) = d_kept s" "d_seen (dedupe_step m s) = seen'"
    "(\<exists>m'. d_out (dedupe_step m s) = d_out s @ [m'] \<and> m_role m' = m_role m \<and> m_toolCalls m' = kept) \<or>
     (d_out (dedupe_step m s) = d_out s \<and> kept = [])"
    using assms ids(4) by (auto simp: dedupe_step_def Let_def split: prod.splits if_splits)
qed

lemma dedupe_inv_block:
  assumes inv: "dedupe_inv s" and "m_role m \<noteq> RTool" and "m_role m \<noteq> RAssistant \<longrightarrow> m_toolCalls m = []"
    and rs: "map result_sig rs = map (\<lambda>c. (RTool, Some (tc_id c))) (m_toolCalls m)"
    and calls: "\<forall>r \<in> set rs. m_toolCalls r = []"
  shows "dedupe_inv (fold dedupe_step (m # rs) s)"
proof -
  obtain kept seen' as where d: "dedupe_calls (m_toolCalls m) (d_seen s) = (kept, seen', as)"
    by (metis prod_cases3)
  note head = dedupe_step_head [OF assms(2,3) d]
  note ids = dedupe_calls_ids [OF d]
  let ?t = "dedupe_step m s" and ?u = "fold dedupe_step rs (dedupe_step m s)"
  have kt: "kept_ok ?t"
    using inv head(1,3) by (fastforce simp: dedupe_inv_def kept_ok_def nth_append)
  have dom: "dom (om_get (d_kept ?t)) = set (d_seen s)" using inv head(1) by (simp add: dedupe_inv_def)
  from dedupe_results [OF kt dom rs calls d] obtain out' rs' where u: "d_out ?u = out' @ rs'"
    "map msg_sig out' = map msg_sig (d_out ?t)"
    "map result_sig rs' = map (\<lambda>c. (RTool, Some (tc_id c))) kept"
    "\<forall>r \<in> set rs'. m_toolCalls r = [] \<and> m_role r = RTool"
    "kept_ok ?u" "dom (om_get (d_kept ?u)) = set seen'" "d_seen ?u = d_seen ?t"
    by blast
  have seen: "d_seen ?u = seen'" using u(7) head(2) by simp
  have call: "call_ids (d_out ?u) = call_ids (d_out ?t)"
    using u(1,4) call_ids_sig [OF u(2)] by (simp add: call_ids_tools)
  have wire: "wire_calls_ok (d_out ?u) = wire_calls_ok (d_out ?t)"
    using u(1,4) wire_calls_ok_sig [OF u(2)] by (simp add: wire_calls_ok_tools)
  have exch: "exchanges_ok (d_out ?u) = exchanges_ok (d_out ?t @ rs')"
    using u(1,2) by (intro exchanges_ok_sig) simp
  have s: "exchanges_ok (d_out s)" "wire_calls_ok (d_out s)" "distinct (call_ids (d_out s))"
    "set (call_ids (d_out s)) = set (d_seen s)"
    using inv by (simp_all add: dedupe_inv_def)
  from head(3) show ?thesis
  proof (elim disjE exE conjE)
    fix m' assume m': "d_out ?t = d_out s @ [m']" "m_role m' = m_role m" "m_toolCalls m' = kept"
    have "exchanges_ok (m' # rs' @ [])"
      using m' u(3) assms(2) by (subst exchanges_ok_block) auto
    then have "exchanges_ok (d_out s @ m' # rs')" using s(1) exchanges_ok_append by simp
    moreover have "m_role m \<noteq> RAssistant \<Longrightarrow> kept = []" using assms(3) d by auto
    ultimately show ?thesis
      using s u(5,6) seen exch call wire m' ids(1-3) by (auto simp: dedupe_inv_def)
  next
    assume "d_out ?t = d_out s" "kept = []"
    with s u(3,5,6) seen exch call wire ids(3) show ?thesis by (auto simp: dedupe_inv_def)
  qed
qed

lemma dedupe_inv_fold:
  "exchanges_ok ms \<Longrightarrow> wire_calls_ok ms \<Longrightarrow> dedupe_inv s \<Longrightarrow> dedupe_inv (fold dedupe_step ms s)"
proof (induction ms arbitrary: s rule: exchanges_induct)
  case Nil
  then show ?case by simp
next
  case (Exchange m rs ms')
  have "m_role r = RTool" if "r \<in> set rs" for r
    using results_are_tools [OF Exchange.hyps(2) that] .
  then have "\<forall>r \<in> set rs. m_toolCalls r = []"
    using Exchange.prems(1) by (fastforce simp: wire_calls_ok_def)
  with Exchange dedupe_inv_block [of s m rs] show ?case by simp
qed

lemma dedupe_output:
  assumes "exchanges_ok ms" and "wire_calls_ok ms"
  shows "exchanges_ok (fst (dedupeDuplicateToolCalls ms))" "wire_calls_ok (fst (dedupeDuplicateToolCalls ms))"
    "distinct (call_ids (fst (dedupeDuplicateToolCalls ms)))"
proof -
  have "dedupe_inv \<lparr>d_seen = [], d_kept = [], d_out = [], d_anoms = []\<rparr>"
    by (simp add: dedupe_inv_def kept_ok_def)
  from dedupe_inv_fold [OF assms this]
  show "exchanges_ok (fst (dedupeDuplicateToolCalls ms))" "wire_calls_ok (fst (dedupeDuplicateToolCalls ms))"
    "distinct (call_ids (fst (dedupeDuplicateToolCalls ms)))"
    by (simp_all add: dedupe_inv_def dedupeDuplicateToolCalls_def Let_def)
qed

subsection \<open>The projected messages carry calls on assistants only\<close>

lemma wire_calls_ok_update: "wire_calls_ok ms \<Longrightarrow> wire_calls_ok [m] \<Longrightarrow> wire_calls_ok (ms[i := m])"
  using set_update_subset_insert [of ms i m] by (auto simp: wire_calls_ok_def)

lemma interrupted_no_calls [simp]: "m_toolCalls (createInterruptedToolResult c) = []"
  by (simp add: createInterruptedToolResult_def)

lemma wire_calls_ok_flush: "wire_calls_ok (p_out s) \<Longrightarrow> wire_calls_ok (p_out (flushMerge s))"
  by (auto simp: flushMerge_def Let_def intro!: wire_calls_ok_update split: option.splits)

lemma wire_calls_ok_emit:
  assumes "wire_calls_ok (p_out s)" and "m_role m \<noteq> RAssistant \<longrightarrow> m_toolCalls m = []"
    and "emit m s = Inr s'"
  shows "wire_calls_ok (p_out s')"
proof -
  have m: "wire_calls_ok [toWireMessage m c]" for c using assms(2) by (simp add: toWireMessage_def)
  have "wire_calls_ok (p_out (emit_content m c t))" if "wire_calls_ok (p_out t)" for c t
  proof -
    have "wire_calls_ok (p_out (flushMerge (markForeignBetween t)))"
      "wire_calls_ok (p_out (flushMerge t))"
      using that wire_calls_ok_flush by (simp_all add: markForeignBetween_def)
    with that m [of c] show ?thesis
      by (auto simp: emit_content_def Let_def markForeignBetween_def split: option.splits)
  qed
  with assms(1,3) show ?thesis
    by (auto simp: emit_def Let_def ebind_eq_Inr note_anomaly_def split: if_splits)
qed

lemma wire_calls_ok_step:
  assumes "wire_calls_ok (p_out s)" and "m_role m \<noteq> RAssistant \<longrightarrow> m_toolCalls m = []"
    and "project_step h l (i, m) s = Inr s'"
  shows "wire_calls_ok (p_out s')"
proof -
  have open_call: "wire_calls_ok (p_out (open_call i l c t))" if "wire_calls_ok (p_out t)" for c t
    using that by (auto simp: open_call_def Let_def note_anomaly_def TOOL_RESULT_SLOT_def
        createInterruptedToolResult_def intro!: wire_calls_ok_update split: option.splits)
  have place: "wire_calls_ok (p_out t)" if "place_result m s = Inr t" "m_role m = RTool" for t
    using that assms(1,2)
    by (auto simp: place_result_def Let_def note_anomaly_def markForeignBetween_def ebind_eq_Inr
        toWireMessage_def intro!: wire_calls_ok_update split: option.splits if_splits)
  have calls: "wire_calls_ok (p_out (fold (open_call i l) cs t))" if "wire_calls_ok (p_out t)" for cs t
    using that open_call by (rule fold_inv [where I = "\<lambda>t. wire_calls_ok (p_out t)"])
  show ?thesis
    using assms place wire_calls_ok_emit [OF assms(1,2)] calls
    by (auto simp: project_step_def Let_def ebind_eq_Inr split: if_splits)
qed

lemma project_wire_calls_ok:
  assumes "only_assistants_call history" and "project history = Inr (out, as)"
  shows "wire_calls_ok out"
proof -
  let ?l = "lastNonToolIndex history" and ?h = "hasAssistantMessage history"
  obtain s where s: "efold (project_step ?h ?l) (enumerate 0 history) init_proj = Inr s"
    "out = p_out (flushMerge (close_slots ?l s))"
    using assms(2) by (auto simp: project_def ebind_eq_Inr Let_def)
  from s(1) have "wire_calls_ok (p_out s)"
  proof (rule efold_inv [where I = "\<lambda>t. wire_calls_ok (p_out t)"])
    show "wire_calls_ok (p_out init_proj)" by (simp add: init_proj_def)
    fix im t t' assume im: "im \<in> set (enumerate 0 history)" and t: "wire_calls_ok (p_out t)"
      and st: "project_step ?h ?l im t = Inr t'"
    obtain i m where im': "im = (i, m)" by (cases im)
    with im have "m \<in> set history" by (auto simp: in_set_enumerate_eq)
    with assms(1) have "m_role m \<noteq> RAssistant \<longrightarrow> m_toolCalls m = []"
      by (simp add: only_assistants_call_def)
    with t st im' show "wire_calls_ok (p_out t')" using wire_calls_ok_step by blast
  qed
  then have "wire_calls_ok (p_out (close_slots ?l s))"
    unfolding close_slots_def
    by (rule fold_inv [where I = "\<lambda>t. wire_calls_ok (p_out t)"])
      (auto simp: note_anomaly_def intro!: wire_calls_ok_update split: prod.splits)
  with s(2) show ?thesis by (simp add: wire_calls_ok_flush)
qed

subsection \<open>Merging and leading messages\<close>

lemma no_adjacent_snoc:
  "no_adjacent_assistants (xs @ [m]) \<longleftrightarrow> no_adjacent_assistants xs \<and>
     \<not> (xs \<noteq> [] \<and> m_role (last xs) = RAssistant \<and> m_role m = RAssistant)"
  by (induction xs rule: no_adjacent_assistants.induct) auto

lemma merge_step_adjacent:
  assumes "no_adjacent_assistants out"
  shows "no_adjacent_assistants (fst (merge_step m (out, as)))"
proof (cases out rule: rev_cases)
  case Nil
  then show ?thesis by (simp add: merge_step_def)
next
  case (snoc xs a)
  with assms show ?thesis
    using no_adjacent_snoc [of "xs @ [a]" m] by (auto simp: merge_step_def no_adjacent_snoc)
qed

lemma merge_no_adjacent: "no_adjacent_assistants (fst (mergeConsecutiveAssistantMessages ms))"
proof -
  have "no_adjacent_assistants (fst (fold merge_step ms ([], [])))"
    by (rule fold_inv [where I = "\<lambda>st. no_adjacent_assistants (fst st)"])
      (auto intro: merge_step_adjacent simp: split_paired_all)
  then show ?thesis by (simp add: mergeConsecutiveAssistantMessages_def)
qed

lemma merge_results:
  "\<forall>r \<in> set rs. m_role r = RTool \<Longrightarrow> fst (fold merge_step rs (out, as)) = out @ rs"
  by (induction rs arbitrary: out as) (auto simp: merge_step_def)

text \<open>The merged conversation: its exchanges, its calls on assistants, and the same calls in order.\<close>

lemma merge_exchanges:
  assumes "exchanges_ok ms" and "wire_calls_ok ms" and "exchanges_ok out" and "wire_calls_ok out"
  shows "exchanges_ok (fst (fold merge_step ms (out, as))) \<and>
     wire_calls_ok (fst (fold merge_step ms (out, as))) \<and>
     call_ids (fst (fold merge_step ms (out, as))) = call_ids out @ call_ids ms"
  using assms
proof (induction ms arbitrary: out as rule: exchanges_induct)
  case Nil
  then show ?case by simp
next
  case (Exchange m rs ms')
  have tools: "\<forall>r \<in> set rs. m_role r = RTool" using results_are_tools [OF Exchange.hyps(2)] by blast
  let ?o = "fst (merge_step m (out, as)) @ rs"
  have step: "exchanges_ok ?o \<and> wire_calls_ok ?o \<and> call_ids ?o = call_ids out @ call_ids (m # rs)"
  proof (cases "out \<noteq> [] \<and> m_role (last out) = RAssistant \<and> m_role m = RAssistant")
    case True
    then obtain xs a where out: "out = xs @ [a]" by (cases out rule: rev_cases) auto
    with True have a: "m_role a \<noteq> RTool" "m_role a = RAssistant" by auto
    with exchanges_ok_snoc [OF Exchange.prems(2) out] have x: "exchanges_ok xs" "m_toolCalls a = []"
      by auto
    let ?a = "a\<lparr>m_content := m_content a @ m_content m, m_toolCalls := m_toolCalls m\<rparr>"
    have "exchanges_ok (?a # rs @ [])"
      using a Exchange.hyps(2) by (subst exchanges_ok_block) auto
    then have "exchanges_ok (xs @ ?a # rs @ [])" by (rule exchanges_ok_append [OF x(1)])
    with True out x a Exchange.prems show ?thesis by (simp add: merge_step_def)
  next
    case False
    have "exchanges_ok (m # rs @ [])"
      using Exchange.hyps(1,2) by (subst exchanges_ok_block) auto
    then have "exchanges_ok (out @ m # rs @ [])" by (rule exchanges_ok_append [OF Exchange.prems(2)])
    with False Exchange.prems show ?thesis by (auto simp: merge_step_def)
  qed
  obtain o' as' where st: "fold merge_step rs (merge_step m (out, as)) = (o', as')" by fastforce
  obtain o1 as1 where m1: "merge_step m (out, as) = (o1, as1)" by fastforce
  from merge_results [OF tools, of o1 as1] st m1 have "o' = ?o" by simp
  with Exchange.IH [of o' as'] step st Exchange.prems show ?case by simp
qed

lemma merge_output:
  assumes "exchanges_ok ms" and "wire_calls_ok ms"
  shows "exchanges_ok (fst (mergeConsecutiveAssistantMessages ms))"
    "call_ids (fst (mergeConsecutiveAssistantMessages ms)) = call_ids ms"
  using merge_exchanges [OF assms, of "[]" "[]"] by (simp_all add: mergeConsecutiveAssistantMessages_def)

lemma no_adjacent_tl: "no_adjacent_assistants (m # ms) \<Longrightarrow> no_adjacent_assistants ms"
  by (cases ms) auto

lemma drop_leading_output:
  "no_adjacent_assistants ms \<Longrightarrow> distinct (call_ids ms) \<Longrightarrow>
     no_adjacent_assistants (fst (dropLeadingNonUserMessages ms)) \<and>
     distinct (call_ids (fst (dropLeadingNonUserMessages ms))) \<and>
     (fst (dropLeadingNonUserMessages ms) \<noteq> [] \<longrightarrow>
        m_role (hd (fst (dropLeadingNonUserMessages ms))) = RUser)"
  by (induction ms rule: dropLeadingNonUserMessages.induct)
    (auto dest: no_adjacent_tl split: prod.splits)

lemma projectStrict_ok_ex:
  assumes "only_assistants_call history" and "hasAssistantMessage history"
  shows "\<exists>out as. projectStrict history = Inr (out, as) \<and> exchanges_ok out \<and>
           distinct (call_ids out) \<and> no_adjacent_assistants out \<and>
           (out \<noteq> [] \<longrightarrow> m_role (hd out) = RUser)"
proof -
  obtain ms as1 where p: "project history = Inr (ms, as1)" "exchanges_ok ms"
    using project_exchanges_ok_ex [OF assms] by blast
  note w = project_wire_calls_ok [OF assms(1) p(1)]
  obtain dd as2 where d: "dedupeDuplicateToolCalls ms = (dd, as2)" by fastforce
  obtain mm as3 where m: "mergeConsecutiveAssistantMessages dd = (mm, as3)" by fastforce
  obtain oo as4 where o: "dropLeadingNonUserMessages mm = (oo, as4)" by fastforce
  note dd = dedupe_output [OF p(2) w, unfolded d fst_conv]
  note mm = merge_output [OF dd(1,2), unfolded m fst_conv]
  have na: "no_adjacent_assistants mm" using merge_no_adjacent [of dd] m by simp
  have di: "distinct (call_ids mm)" using dd(3) mm(2) by simp
  show ?thesis
    using drop_leading_output [OF na di] exchanges_ok_drop_leading [OF mm(1)] p(1) d m o
    by (simp add: projectStrict_def)
qed

section \<open>Media\<close>

definition all_media :: "message list \<Rightarrow> content_part list" where
  "all_media ms = concat (map (\<lambda>m. filter isDegradableMediaPart (m_content m)) ms)"

definition without_content :: "message \<Rightarrow> message" where
  "without_content m = m\<lparr>m_content := []\<rparr>"

lemma mediaCount_all_media: "mediaCount ms = length (all_media ms)"
  by (simp add: mediaCount_def all_media_def length_concat comp_def)

lemma placeholder_not_media [simp]:
  "isDegradableMediaPart p \<Longrightarrow> \<not> isDegradableMediaPart (placeholder_for ph p)"
  by (cases p) (auto simp: isDegradableMediaPart_def)

lemma degrade_parts_media:
  "degrade_parts ph n ps = (n', ps') \<Longrightarrow>
     filter isDegradableMediaPart ps' = drop n (filter isDegradableMediaPart ps) \<and>
     n' = n - length (filter isDegradableMediaPart ps) \<and> length ps' = length ps"
proof (induction ps arbitrary: n n' ps')
  case Nil
  then show ?case by simp
next
  case (Cons p ps)
  show ?case
  proof (cases "n = 0 \<or> \<not> isDegradableMediaPart p")
    case True
    then obtain qs where q: "degrade_parts ph n ps = (n', qs)" "ps' = p # qs"
      using Cons.prems by (auto split: prod.splits)
    from Cons.IH [OF q(1)] q(2) True show ?thesis by auto
  next
    case False
    then obtain qs where q: "degrade_parts ph (n - 1) ps = (n', qs)" "ps' = placeholder_for ph p # qs"
      using Cons.prems by (auto split: prod.splits)
    from Cons.IH [OF q(1)] q(2) False show ?thesis by (cases n) auto
  qed
qed

lemma degrade_messages_media:
  "all_media (degrade_messages ph n ms) = drop n (all_media ms) \<and>
     map without_content (degrade_messages ph n ms) = map without_content ms"
proof (induction ms arbitrary: n)
  case Nil
  then show ?case by (simp add: all_media_def)
next
  case (Cons m ms)
  show ?case
  proof (cases "n = 0 \<or> \<not> list_ex isDegradableMediaPart (m_content m)")
    case True
    then have "n = 0 \<or> filter isDegradableMediaPart (m_content m) = []"
      by (auto simp: list_ex_iff filter_empty_conv)
    with True Cons.IH [of n] show ?thesis by (auto simp: all_media_def)
  next
    case False
    obtain n' c where d: "degrade_parts ph n (m_content m) = (n', c)" by fastforce
    from degrade_parts_media [OF d] False d Cons.IH [of n']
    show ?thesis by (auto simp: all_media_def without_content_def)
  qed
qed

lemma capture_parts_keys:
  "set (fold (\<lambda>p keys. if isDegradableMediaPart p then os_add (mediaStripKey h p) keys else keys) ps keys) =
     set keys \<union> mediaStripKey h ` {p \<in> set ps. isDegradableMediaPart p}"
  by (induction ps arbitrary: keys) auto

lemma capture_keys:
  "set (captureMediaStripSnapshot h ms) = mediaStripKey h ` set (all_media ms)"
proof -
  have "set (fold (\<lambda>m keys. fold (\<lambda>p keys. if isDegradableMediaPart p then os_add (mediaStripKey h p) keys
      else keys) (m_content m) keys) ms keys) = set keys \<union> mediaStripKey h ` set (all_media ms)" for keys
    by (induction ms arbitrary: keys) (auto simp: capture_parts_keys all_media_def)
  then show ?thesis by (simp add: captureMediaStripSnapshot_def)
qed

lemma strip_media:
  "all_media (stripMediaPartsBySnapshot h ms keys) =
     filter (\<lambda>p. mediaStripKey h p \<notin> set keys) (all_media ms)"
proof (induction ms)
  case Nil
  then show ?case by (simp add: stripMediaPartsBySnapshot_def all_media_def)
next
  case (Cons m ms)
  have "filter isDegradableMediaPart (map (\<lambda>p. if \<not> isDegradableMediaPart p \<or> mediaStripKey h p \<notin> set keys
      then p else placeholder_for MEDIA_STRIPPED_PLACEHOLDERS p) ps) =
      filter (\<lambda>p. mediaStripKey h p \<notin> set keys) (filter isDegradableMediaPart ps)" for ps
    by (induction ps) auto
  with Cons show ?case by (simp add: stripMediaPartsBySnapshot_def all_media_def)
qed

section \<open>Properties\<close>

text \<open>A conversation with two calls, a user message before their results, and one result lost.\<close>

definition demo_call :: "string \<Rightarrow> tool_call" where
  "demo_call c = \<lparr>tc_id = c, tc_name = ''Read'', tc_arguments = None, tc_extras = None, tc_streamIndex = None\<rparr>"

definition demo_history :: "ctx_message list" where
  "demo_history =
     [as_ctx (createUserMessage ''go''),
      as_ctx (createAssistantMessage [TextPart ''ok''] (Some [demo_call ''a'', demo_call ''b''])),
      as_ctx (createUserMessage ''wait''),
      as_ctx (createToolMessage ''b'' (OutStr ''done''))]"

lemma demo_history_ok: "only_assistants_call demo_history" "hasAssistantMessage demo_history"
  by (simp_all add: demo_history_def only_assistants_call_def hasAssistantMessage_def
      createUserMessage_def createAssistantMessage_def createToolMessage_def)

text \<open>
  C1. The projection of any history in which only assistants carry tool calls and some assistant
  message is complete never throws, and in its output every call is followed at once by its result,
  in call order, with no tool message anywhere else: displaced results are moved back, lost ones
  synthesized, orphans dropped.
\<close>
theorem project_exchanges_ok:
  assumes "only_assistants_call history" and "hasAssistantMessage history"
  shows "\<exists>out as. project history = Inr (out, as) \<and> exchanges_ok out"
  by (rule project_exchanges_ok_ex [OF assms])

theorem project_exchanges_ok_witness:
  "only_assistants_call demo_history \<and> hasAssistantMessage demo_history \<and>
     (\<exists>out as. project demo_history = Inr (out, as) \<and> exchanges_ok out)"
  using project_exchanges_ok [OF demo_history_ok] demo_history_ok by blast

text \<open>
  C2. The strict projection of such a history never throws and yields a conversation a strict provider
  accepts: calls followed by their results, no tool call id twice, no two assistant messages in a row,
  and a user message first.
\<close>
theorem projectStrict_wire_valid:
  assumes "only_assistants_call history" and "hasAssistantMessage history"
  shows "\<exists>out as. projectStrict history = Inr (out, as) \<and> exchanges_ok out \<and>
           distinct (call_ids out) \<and> no_adjacent_assistants out \<and>
           (out \<noteq> [] \<longrightarrow> m_role (hd out) = RUser)"
  by (rule projectStrict_ok_ex [OF assms])

theorem projectStrict_wire_valid_witness:
  "\<exists>out as. projectStrict demo_history = Inr (out, as) \<and> exchanges_ok out \<and>
           distinct (call_ids out) \<and> no_adjacent_assistants out \<and>
           (out \<noteq> [] \<longrightarrow> m_role (hd out) = RUser)"
  by (rule projectStrict_wire_valid [OF demo_history_ok])

text \<open>
  The media-degraded fallback keeps exactly the most recent \<open>keepRecent\<close> media parts of the whole
  conversation, in order, and changes nothing of a message but its content.
\<close>
lemma degradeOlderMediaParts_keeps_recent:
  "all_media (degradeOlderMediaParts ms keepRecent ph) =
     drop (length (all_media ms) - keepRecent) (all_media ms) \<and>
   map without_content (degradeOlderMediaParts ms keepRecent ph) = map without_content ms"
  by (simp add: degradeOlderMediaParts_def Let_def mediaCount_all_media degrade_messages_media)

text \<open>
  Stripping with the snapshot captured from a conversation leaves no media in it; in a later
  conversation exactly the media whose key the snapshot does not hold remain.
\<close>
lemma strip_captured_snapshot:
  "all_media (stripMediaPartsBySnapshot sha256 ms (captureMediaStripSnapshot sha256 ms)) = [] \<and>
   all_media (stripMediaPartsBySnapshot sha256 later (captureMediaStripSnapshot sha256 ms)) =
     filter (\<lambda>p. mediaStripKey sha256 p \<notin> mediaStripKey sha256 ` set (all_media ms)) (all_media later)"
  by (simp add: strip_media capture_keys)

text \<open>
  Repairs are reported once: whatever was reported before, projecting the same repairs again makes
  no second report and keeps the signature, and a projection without notable repairs forgets it.
\<close>
lemma reportProjectionRepairs_once:
  "snd (reportProjectionRepairs as (fst (reportProjectionRepairs as lastSig))) = None \<and>
   fst (reportProjectionRepairs as (fst (reportProjectionRepairs as lastSig))) =
     fst (reportProjectionRepairs as lastSig) \<and>
   (snd (reportProjectionRepairs as lastSig) \<noteq> None \<longleftrightarrow>
      filter notable as \<noteq> [] \<and> lastSig \<noteq> Some (repair_signature (filter notable as)))"
  by (simp add: reportProjectionRepairs_def Let_def)

end
