(* ===== verification/Swarm.thy ===== *)
theory Swarm imports Prelude begin

text \<open>
  The scheduler of swarm agent runs: \<^verbatim>\<open>session/swarm/agentRunBatch.ts\<close>.

  The class is a state machine driven by events: the start of the batch, the launcher's callbacks, the
  settling of an attempt, the two timers and the abort signals. One handler per callback of the code;
  the state record holds the private fields, with an attempt identified by a number instead of its object
  identity, a timer by whether it is armed (with its wake-up time), and two logs of what the launcher was
  asked to do. Times are integers; \<open>Number.POSITIVE_INFINITY\<close> is \<^term>\<open>None\<close>. The back-off
  \<open>retry.createTimeout\<close> of the third-party package \<open>retry\<close> is a parameter. Launcher callbacks arrive
  after the launch call returns. Token usage is passed through by the code and left out.
\<close>

section \<open>State\<close>

datatype abort_reason = UserCancellation | OtherAbort string

datatype run_status = Completed | Failed | Aborted

datatype run_progress = NotStarted | Started

record run_result =
  rr_task :: nat
  rr_agentId :: "string option"
  rr_status :: run_status
  rr_state :: "run_progress option"
  rr_result :: "string option"
  rr_error :: "string option"

record swarm_task =
  st_resumeAgentId :: "string option"
  st_timeout :: "int option"

record task_state =
  k_agentId :: "string option"
  k_retryAgentId :: "string option"
  k_retryCount :: nat
  k_retryReadyAt :: int
  k_started :: bool
  k_aborted :: "abort_reason option"

record attempt =
  at_id :: nat
  at_state :: nat
  at_ready :: bool
  at_timedOut :: bool
  at_aborted :: "abort_reason option"

datatype launch = LSpawn nat | LResume nat string | LRetry nat string

datatype batch_outcome = Resolved "run_result list" | Rejected abort_reason

record batch =
  b_tasks :: "swarm_task list"
  b_maxConcurrency :: "nat option"
  b_states :: "task_state list"
  b_pending :: "nat list"
  b_results :: "run_result option list"
  b_active :: "attempt list"
  b_nextId :: nat
  b_aborted :: "abort_reason option"
  b_normalLaunchCount :: nat
  b_normalTimer :: bool
  b_rateTimer :: "int option"
  b_finished :: bool
  b_started :: bool
  b_outcome :: "batch_outcome option"
  b_rateLimitMode :: bool
  b_startedSuccessCount :: nat
  b_rateLimitCapacity :: nat
  b_lastRateLimitAt :: "int option"
  b_lastCapacityShrinkAt :: "int option"
  b_lastCapacityRecoveryAt :: "int option"
  b_globalRetryIntervalMs :: int
  b_nextRateLimitLaunchAt :: int
  b_launches :: "launch list"
  b_suspended :: "(nat \<times> string) list"

definition INITIAL_LAUNCH_LIMIT :: nat where "INITIAL_LAUNCH_LIMIT = 5"
definition RATE_LIMIT_RETRY_BASE_MS :: int where "RATE_LIMIT_RETRY_BASE_MS = 3000"
definition RATE_LIMIT_CAPACITY_SHRINK_INTERVAL_MS :: int where "RATE_LIMIT_CAPACITY_SHRINK_INTERVAL_MS = 2000"
definition RATE_LIMIT_CAPACITY_RECOVERY_INTERVAL_MS :: int where
  "RATE_LIMIT_CAPACITY_RECOVERY_INTERVAL_MS = 3 * 60 * 1000"

definition init_task_state :: task_state where
  "init_task_state = \<lparr>k_agentId = None, k_retryAgentId = None, k_retryCount = 0, k_retryReadyAt = 0,
     k_started = False, k_aborted = None\<rparr>"

definition new_batch :: "swarm_task list \<Rightarrow> nat option \<Rightarrow> batch" where
  "new_batch tasks maxConcurrency =
     \<lparr>b_tasks = tasks, b_maxConcurrency = maxConcurrency,
      b_states = replicate (length tasks) init_task_state, b_pending = [0 ..< length tasks],
      b_results = replicate (length tasks) None, b_active = [], b_nextId = 0, b_aborted = None,
      b_normalLaunchCount = 0, b_normalTimer = False, b_rateTimer = None, b_finished = False,
      b_started = False, b_outcome = None, b_rateLimitMode = False, b_startedSuccessCount = 0,
      b_rateLimitCapacity = 1, b_lastRateLimitAt = None, b_lastCapacityShrinkAt = None,
      b_lastCapacityRecoveryAt = None, b_globalRetryIntervalMs = RATE_LIMIT_RETRY_BASE_MS,
      b_nextRateLimitLaunchAt = 0, b_launches = [], b_suspended = []\<rparr>"

section \<open>Finishing\<close>

definition batch_cleanup :: "batch \<Rightarrow> batch" where
  "batch_cleanup s = s\<lparr>b_normalTimer := False, b_rateTimer := None, b_active := []\<rparr>"

definition batch_finish :: "run_result list \<Rightarrow> batch \<Rightarrow> batch" where
  "batch_finish rs s =
     (if b_finished s then s else (batch_cleanup (s\<lparr>b_finished := True\<rparr>))\<lparr>b_outcome := Some (Resolved rs)\<rparr>)"

definition batch_fail :: "abort_reason \<Rightarrow> batch \<Rightarrow> batch" where
  "batch_fail e s =
     (if b_finished s then s else (batch_cleanup (s\<lparr>b_finished := True\<rparr>))\<lparr>b_outcome := Some (Rejected e)\<rparr>)"

definition all_results :: "batch \<Rightarrow> bool" where
  "all_results s \<longleftrightarrow> list_all (\<lambda>r. r \<noteq> None) (b_results s)"

definition finishIfComplete :: "batch \<Rightarrow> batch option" where  \<comment> \<open>\<open>None\<close>: answered \<open>false\<close>\<close>
  "finishIfComplete s =
     (if all_results s then Some (batch_finish (map the (b_results s)) s) else None)"

definition cancelled_result :: "batch \<Rightarrow> nat \<Rightarrow> run_result" where
  "cancelled_result s i =
     (case b_results s ! i of
        Some r \<Rightarrow> r
      | None \<Rightarrow>
          if k_started (b_states s ! i) \<or> k_agentId (b_states s ! i) \<noteq> None
          then \<lparr>rr_task = i, rr_agentId = k_agentId (b_states s ! i), rr_status = Aborted,
                rr_state = Some Started, rr_result = None,
                rr_error = Some ''The user manually interrupted this subagent batch before this subagent finished.''\<rparr>
          else \<lparr>rr_task = i, rr_agentId = None, rr_status = Aborted, rr_state = Some NotStarted,
                rr_result = None,
                rr_error = Some ''The user manually interrupted this subagent batch before this subagent was started.''\<rparr>)"

definition finishWithUserCancellation :: "batch \<Rightarrow> batch" where
  "finishWithUserCancellation s =
     (if b_finished s then s else batch_finish (map (cancelled_result s) [0 ..< length (b_states s)]) s)"

section \<open>Launching\<close>

definition isAtConcurrencyLimit :: "batch \<Rightarrow> bool" where
  "isAtConcurrencyLimit s =
     (case b_maxConcurrency s of None \<Rightarrow> False | Some m \<Rightarrow> m \<le> length (b_active s))"

text \<open>Which launcher call an attempt makes, by its task's retry agent and resumed agent.\<close>

fun launch_call :: "nat \<Rightarrow> string option \<Rightarrow> string option \<Rightarrow> launch" where
  "launch_call i (Some a) resume = LRetry i a"
| "launch_call i None (Some a) = LResume i a"
| "launch_call i None None = LSpawn i"

definition launch_of :: "batch \<Rightarrow> nat \<Rightarrow> launch" where
  "launch_of s i = launch_call i (k_retryAgentId (b_states s ! i)) (st_resumeAgentId (b_tasks s ! i))"

text \<open>
  \<open>startAttempt\<close> with the synchronous part of \<open>runAttempt\<close>: an attempt whose task is already aborted
  is active but never reaches the launcher.
\<close>

definition startAttempt :: "nat \<Rightarrow> batch \<Rightarrow> batch" where
  "startAttempt i s =
     (if b_finished s \<or> b_aborted s \<noteq> None then s
      else s\<lparr>b_active := b_active s @
               [\<lparr>at_id = b_nextId s, at_state = i, at_ready = False, at_timedOut = False,
                 at_aborted = k_aborted (b_states s ! i)\<rparr>],
             b_nextId := b_nextId s + 1,
             b_launches := b_launches s @ (if k_aborted (b_states s ! i) = None then [launch_of s i] else [])\<rparr>)"

definition shift_and_start :: "batch \<Rightarrow> batch" where
  "shift_and_start s =
     (let s' = startAttempt (hd (b_pending s)) (s\<lparr>b_pending := tl (b_pending s)\<rparr>)
      in s'\<lparr>b_normalLaunchCount := b_normalLaunchCount s' + 1\<rparr>)"

lemma pending_startAttempt [simp]: "b_pending (startAttempt i s) = b_pending s"
  by (simp add: startAttempt_def)

function normal_burst :: "batch \<Rightarrow> batch" where
  "normal_burst s =
     (if b_normalLaunchCount s < INITIAL_LAUNCH_LIMIT \<and> b_pending s \<noteq> [] \<and> \<not> b_rateLimitMode s \<and>
         \<not> isAtConcurrencyLimit s
      then normal_burst (shift_and_start s) else s)"
  by auto
termination
  by (relation "measure (\<lambda>s. length (b_pending s))") (auto simp: shift_and_start_def Let_def)

declare normal_burst.simps [simp del]

definition scheduleNormalLaunch :: "batch \<Rightarrow> batch" where
  "scheduleNormalLaunch s0 =
     (let s = normal_burst s0 in
      if b_pending s = [] \<or> b_rateLimitMode s \<or> b_normalTimer s \<or> isAtConcurrencyLimit s then s
      else s\<lparr>b_normalTimer := True\<rparr>)"

text \<open>Times with infinity.\<close>

definition min_time :: "int option \<Rightarrow> int option \<Rightarrow> int option" where
  "min_time a b = (case a of None \<Rightarrow> b | Some x \<Rightarrow> (case b of None \<Rightarrow> a | Some y \<Rightarrow> Some (min x y)))"

definition max_time :: "int \<Rightarrow> int option \<Rightarrow> int option" where
  "max_time x b = map_option (max x) b"

definition after_now :: "int option \<Rightarrow> int \<Rightarrow> bool" where
  "after_now t now = (case t of None \<Rightarrow> True | Some x \<Rightarrow> now < x)"

definition nextRateLimitCapacityRecoveryAt :: "batch \<Rightarrow> int option" where
  "nextRateLimitCapacityRecoveryAt s =
     (if b_pending s = [] then None
      else case b_lastRateLimitAt s of
        None \<Rightarrow> None
      | Some t \<Rightarrow> Some (max t (case b_lastCapacityRecoveryAt s of None \<Rightarrow> 0 | Some r \<Rightarrow> r) +
          RATE_LIMIT_CAPACITY_RECOVERY_INTERVAL_MS))"

definition nextPendingReadyAt :: "batch \<Rightarrow> int option" where
  "nextPendingReadyAt s =
     fold (\<lambda>i t. min_time t (Some (k_retryReadyAt (b_states s ! i)))) (b_pending s) None"

definition scheduleRateLimitWakeup :: "int option \<Rightarrow> int \<Rightarrow> batch \<Rightarrow> batch" where
  "scheduleRateLimitWakeup wakeupAt now s =
     (case wakeupAt of
        None \<Rightarrow> s
      | Some t \<Rightarrow> if t \<le> now then s else s\<lparr>b_rateTimer := Some t\<rparr>)"

definition recoverRateLimitCapacity :: "int \<Rightarrow> batch \<Rightarrow> batch" where
  "recoverRateLimitCapacity now s =
     (if after_now (nextRateLimitCapacityRecoveryAt s) now then s
      else s\<lparr>b_rateLimitCapacity := b_rateLimitCapacity s + 1, b_lastCapacityRecoveryAt := Some now,
             b_nextRateLimitLaunchAt := min (b_nextRateLimitLaunchAt s) now\<rparr>)"

definition scheduleNextRateLimitWakeup :: "int \<Rightarrow> batch \<Rightarrow> batch" where
  "scheduleNextRateLimitWakeup now s =
     (if b_pending s = [] then s
      else scheduleRateLimitWakeup
        (if b_rateLimitCapacity s \<le> length (b_active s) then nextRateLimitCapacityRecoveryAt s
         else min_time (max_time (b_nextRateLimitLaunchAt s) (nextPendingReadyAt s))
           (nextRateLimitCapacityRecoveryAt s)) now s)"

text \<open>Removing the first pending task whose retry time has come, if any.\<close>

fun take_ready :: "(nat \<Rightarrow> bool) \<Rightarrow> nat list \<Rightarrow> (nat \<times> nat list) option" where
  "take_ready P [] = None"
| "take_ready P (i # is) =
     (if P i then Some (i, is) else map_option (\<lambda>(j, js). (j, i # js)) (take_ready P is))"

definition scheduleRateLimitLaunch :: "int \<Rightarrow> batch \<Rightarrow> batch" where
  "scheduleRateLimitLaunch now s0 =
     (let s1 = s0\<lparr>b_rateTimer := None\<rparr> in
      if b_pending s1 = [] then s1
      else
        let s = recoverRateLimitCapacity now s1 in
        if b_rateLimitCapacity s \<le> length (b_active s)
        then scheduleRateLimitWakeup (nextRateLimitCapacityRecoveryAt s) now s
        else
          let nextAllowedAt = max_time (b_nextRateLimitLaunchAt s) (nextPendingReadyAt s);
              nextWakeupAt = min_time nextAllowedAt (nextRateLimitCapacityRecoveryAt s)
          in if after_now nextWakeupAt now then scheduleRateLimitWakeup nextWakeupAt now s
             else case take_ready (\<lambda>i. k_retryReadyAt (b_states s ! i) \<le> now) (b_pending s) of
               None \<Rightarrow> s
             | Some (i, rest) \<Rightarrow>
                 let s' = startAttempt i (s\<lparr>b_pending := rest\<rparr>)
                 in scheduleNextRateLimitWakeup now
                      (s'\<lparr>b_nextRateLimitLaunchAt := now + b_globalRetryIntervalMs s'\<rparr>))"

definition schedule :: "int \<Rightarrow> batch \<Rightarrow> batch" where
  "schedule now s =
     (if b_finished s then s
      else case finishIfComplete s of
        Some s' \<Rightarrow> s'
      | None \<Rightarrow>
          if b_aborted s \<noteq> None then s
          else if b_rateLimitMode s then scheduleRateLimitLaunch now s
          else scheduleNormalLaunch s)"

section \<open>Abort and start\<close>

definition batchAbortListener :: "abort_reason \<Rightarrow> batch \<Rightarrow> batch" where
  "batchAbortListener reason s =
     (let s' = s\<lparr>b_aborted := Some reason\<rparr> in
      if reason = UserCancellation then finishWithUserCancellation s' else batch_fail reason s')"

text \<open>\<open>run\<close>; the argument is the reason of a batch signal that is already aborted.\<close>

definition run_batch :: "int \<Rightarrow> abort_reason option \<Rightarrow> batch \<Rightarrow> batch option" where  \<comment> \<open>\<open>None\<close>: thrown\<close>
  "run_batch now signal s =
     (if b_started s then None
      else let s = s\<lparr>b_started := True\<rparr> in
        if b_states s = [] then Some (batch_finish [] s)
        else case signal of
          Some reason \<Rightarrow> Some (batchAbortListener reason s)
        | None \<Rightarrow> Some (schedule now s))"

section \<open>Attempt events\<close>

definition find_attempt :: "nat \<Rightarrow> batch \<Rightarrow> attempt option" where
  "find_attempt a s = find (\<lambda>x. at_id x = a) (b_active s)"

definition update_attempt :: "nat \<Rightarrow> (attempt \<Rightarrow> attempt) \<Rightarrow> batch \<Rightarrow> batch" where
  "update_attempt a f s = s\<lparr>b_active := map (\<lambda>x. if at_id x = a then f x else x) (b_active s)\<rparr>"

definition update_task :: "nat \<Rightarrow> (task_state \<Rightarrow> task_state) \<Rightarrow> batch \<Rightarrow> batch" where
  "update_task i f s = s\<lparr>b_states := (b_states s)[i := f (b_states s ! i)]\<rparr>"

definition markAttemptReady :: "int \<Rightarrow> nat \<Rightarrow> batch \<Rightarrow> batch" where
  "markAttemptReady now a s =
     (case find_attempt a s of
        None \<Rightarrow> s
      | Some x \<Rightarrow>
          if b_finished s \<or> at_ready x then s
          else
            let s1 = update_task (at_state x) (\<lambda>k. k\<lparr>k_started := True\<rparr>)
                       (update_attempt a (\<lambda>x. x\<lparr>at_ready := True\<rparr>) s);
                s2 = (if \<not> b_rateLimitMode s1
                      then s1\<lparr>b_startedSuccessCount := b_startedSuccessCount s1 + 1\<rparr> else s1)
            in if b_rateLimitMode s2
               then schedule now
                 (s2\<lparr>b_globalRetryIntervalMs := RATE_LIMIT_RETRY_BASE_MS,
                     b_nextRateLimitLaunchAt := now + RATE_LIMIT_RETRY_BASE_MS\<rparr>)
               else s2)"

text \<open>The launch call returned a handle: the task learns its agent id.\<close>

definition attemptLaunched :: "nat \<Rightarrow> string \<Rightarrow> batch \<Rightarrow> batch" where
  "attemptLaunched a agentId s =
     (case find_attempt a s of
        None \<Rightarrow> s
      | Some x \<Rightarrow> update_task (at_state x) (\<lambda>k. k\<lparr>k_agentId := Some agentId\<rparr>) s)"

text \<open>How an attempt ends: the completion resolves or rejects, with or without a rate-limit error.\<close>

datatype settled =
    SCompleted string string  \<comment> \<open>agent id and result\<close>
  | SRateLimited string string  \<comment> \<open>agent id and error message\<close>
  | SFailed string  \<comment> \<open>any other error\<close>
  | SRejected string  \<comment> \<open>\<open>runAttempt\<close> itself rejected\<close>

definition attemptErrorMessage :: "batch \<Rightarrow> attempt \<Rightarrow> string \<Rightarrow> run_status \<Rightarrow> string" where
  "attemptErrorMessage s x err status =
     (if at_timedOut x \<and> st_timeout (b_tasks s ! at_state x) \<noteq> None then ''Subagent timed out.''
      else if status = Aborted then ''The user manually interrupted this subagent batch.''
      else err)"

definition failedAttemptOutcome :: "batch \<Rightarrow> attempt \<Rightarrow> string \<Rightarrow> run_result" where
  "failedAttemptOutcome s x err =
     (let status = (if at_aborted x = Some UserCancellation then Aborted else Failed);
          agent = k_agentId (b_states s ! at_state x)
      in \<lparr>rr_task = at_state x, rr_agentId = agent, rr_status = status,
          rr_state = Some (if agent = None then NotStarted else Started), rr_result = None,
          rr_error = Some (attemptErrorMessage s x err status)\<rparr>)"

definition releaseAttempt :: "nat \<Rightarrow> batch \<Rightarrow> batch" where
  "releaseAttempt a s = s\<lparr>b_active := filter (\<lambda>x. at_id x \<noteq> a) (b_active s)\<rparr>"

definition isOnlyUnfinishedTask :: "nat \<Rightarrow> batch \<Rightarrow> bool" where
  "isOnlyUnfinishedTask i s \<longleftrightarrow>
     list_all (\<lambda>(j, r). j = i \<or> r \<noteq> None) (zip [0 ..< length (b_results s)] (b_results s))"

definition shrinkRateLimitCapacity :: "int \<Rightarrow> bool \<Rightarrow> batch \<Rightarrow> batch" where
  "shrinkRateLimitCapacity now force s =
     (if \<not> force \<and> (case b_lastCapacityShrinkAt s of
            None \<Rightarrow> False
          | Some t \<Rightarrow> now - t < RATE_LIMIT_CAPACITY_SHRINK_INTERVAL_MS)
      then s
      else s\<lparr>b_rateLimitCapacity := max 1 (b_rateLimitCapacity s - 1), b_lastCapacityShrinkAt := Some now\<rparr>)"

definition enterRateLimitMode :: "int \<Rightarrow> batch \<Rightarrow> batch" where
  "enterRateLimitMode now s =
     (if \<not> b_rateLimitMode s
      then shrinkRateLimitCapacity now True
        (s\<lparr>b_rateLimitMode := True, b_normalTimer := False,
           b_rateLimitCapacity := max 1 (b_startedSuccessCount s),
           b_nextRateLimitLaunchAt := max (b_nextRateLimitLaunchAt s) (now + RATE_LIMIT_RETRY_BASE_MS)\<rparr>)
      else shrinkRateLimitCapacity now False s)"

definition requeueRateLimited :: "(nat \<Rightarrow> int) \<Rightarrow> int \<Rightarrow> attempt \<Rightarrow> string \<Rightarrow> batch \<Rightarrow> batch" where
  "requeueRateLimited createTimeout now x agentId s =
     (let i = at_state x;
          retryDelay = createTimeout (k_retryCount (b_states s ! i));
          s1 = update_task i (\<lambda>k. k\<lparr>k_agentId := Some agentId, k_retryAgentId := Some agentId,
                 k_retryCount := k_retryCount k + 1, k_retryReadyAt := now + retryDelay\<rparr>) s;
          s2 = s1\<lparr>b_suspended := b_suspended s1 @ [(i, agentId)], b_lastRateLimitAt := Some now,
                  b_pending := i # b_pending s1\<rparr>;
          s3 = enterRateLimitMode now s2
      in if \<not> at_ready x
         then let interval = max (b_globalRetryIntervalMs s3 * 2) retryDelay in
           s3\<lparr>b_globalRetryIntervalMs := interval,
              b_nextRateLimitLaunchAt := max (b_nextRateLimitLaunchAt s3) (now + interval)\<rparr>
         else s3\<lparr>b_nextRateLimitLaunchAt := max (b_nextRateLimitLaunchAt s3) (now + RATE_LIMIT_RETRY_BASE_MS)\<rparr>)"

definition set_result :: "nat \<Rightarrow> run_result \<Rightarrow> batch \<Rightarrow> batch" where
  "set_result i r s = s\<lparr>b_results := (b_results s)[i := Some r]\<rparr>"

text \<open>\<open>handleAttemptOutcome\<close> and \<open>handleAttemptError\<close>, on the released attempt.\<close>

definition attempt_outcome :: "(nat \<Rightarrow> int) \<Rightarrow> int \<Rightarrow> attempt \<Rightarrow> settled \<Rightarrow> batch \<Rightarrow> batch" where
  "attempt_outcome createTimeout now x e s =
     (let i = at_state x in
      case e of
        SCompleted agentId res \<Rightarrow> set_result i
          \<lparr>rr_task = i, rr_agentId = Some agentId, rr_status = Completed, rr_state = None,
           rr_result = Some res, rr_error = None\<rparr> s
      | SFailed err \<Rightarrow> set_result i (failedAttemptOutcome s x err) s
      | SRateLimited agentId err \<Rightarrow>
          if isOnlyUnfinishedTask i s
          then set_result i \<lparr>rr_task = i, rr_agentId = Some agentId, rr_status = Failed,
            rr_state = Some Started, rr_result = None,
            rr_error = Some (attemptErrorMessage s x err Failed)\<rparr> s
          else requeueRateLimited createTimeout now x agentId s
      | SRejected err \<Rightarrow> set_result i
          \<lparr>rr_task = i, rr_agentId = k_agentId (b_states s ! i), rr_status = Failed, rr_state = None,
           rr_result = None, rr_error = Some err\<rparr> s)"

definition handleAttemptSettled :: "(nat \<Rightarrow> int) \<Rightarrow> int \<Rightarrow> nat \<Rightarrow> settled \<Rightarrow> batch \<Rightarrow> batch" where
  "handleAttemptSettled createTimeout now a e s =
     (case find_attempt a s of
        None \<Rightarrow> s
      | Some x \<Rightarrow>
          let s1 = releaseAttempt a s in
          if b_finished s1 then s1 else schedule now (attempt_outcome createTimeout now x e s1))"

section \<open>Timers and signals\<close>

definition normalTimerFired :: "int \<Rightarrow> batch \<Rightarrow> batch" where
  "normalTimerFired now s0 =
     (if \<not> b_normalTimer s0 then s0
      else let s = s0\<lparr>b_normalTimer := False\<rparr> in
        if b_finished s \<or> b_rateLimitMode s \<or> b_pending s = [] then s
        else if isAtConcurrencyLimit s then s
        else schedule now (shift_and_start s))"

definition rateTimerFired :: "int \<Rightarrow> batch \<Rightarrow> batch" where
  "rateTimerFired now s =
     (if b_rateTimer s = None then s else schedule now (s\<lparr>b_rateTimer := None\<rparr>))"

text \<open>A task's own signal aborts, and an attempt's timeout expires.\<close>

definition taskAborted :: "nat \<Rightarrow> abort_reason \<Rightarrow> batch \<Rightarrow> batch" where
  "taskAborted i reason s =
     (if length (b_states s) \<le> i \<or> k_aborted (b_states s ! i) \<noteq> None then s
      else (update_task i (\<lambda>k. k\<lparr>k_aborted := Some reason\<rparr>) s)
        \<lparr>b_active := map (\<lambda>x. if at_state x = i \<and> at_aborted x = None
                               then x\<lparr>at_aborted := Some reason\<rparr> else x) (b_active s)\<rparr>)"

definition attemptTimedOut :: "nat \<Rightarrow> batch \<Rightarrow> batch" where
  "attemptTimedOut a s =
     update_attempt a (\<lambda>x. if (case st_timeout (b_tasks s ! at_state x) of None \<Rightarrow> True | Some t \<Rightarrow> t \<le> 0) then x
       else x\<lparr>at_timedOut := True,
              at_aborted := (if at_aborted x = None then Some (OtherAbort ''Aborted'') else at_aborted x)\<rparr>) s"

section \<open>The machine\<close>

datatype batch_event =
    BLaunched nat string
  | BReady nat
  | BSettled nat settled
  | BNormalTimer
  | BRateTimer
  | BAbort abort_reason
  | BTaskAbort nat abort_reason
  | BTimeout nat

text \<open>The batch signal's listener is removed when the batch finishes.\<close>

fun batch_step :: "(nat \<Rightarrow> int) \<Rightarrow> int \<Rightarrow> batch_event \<Rightarrow> batch \<Rightarrow> batch" where
  "batch_step ct now (BLaunched a agentId) s = attemptLaunched a agentId s"
| "batch_step ct now (BReady a) s = markAttemptReady now a s"
| "batch_step ct now (BSettled a e) s = handleAttemptSettled ct now a e s"
| "batch_step ct now BNormalTimer s = normalTimerFired now s"
| "batch_step ct now BRateTimer s = rateTimerFired now s"
| "batch_step ct now (BAbort reason) s = (if b_finished s then s else batchAbortListener reason s)"
| "batch_step ct now (BTaskAbort i reason) s = taskAborted i reason s"
| "batch_step ct now (BTimeout a) s = attemptTimedOut a s"

inductive batch_reach :: "(nat \<Rightarrow> int) \<Rightarrow> swarm_task list \<Rightarrow> nat option \<Rightarrow> batch \<Rightarrow> bool"
  for ct :: "nat \<Rightarrow> int" and tasks :: "swarm_task list" and mx :: "nat option" where
  batch_reach_run: "run_batch now signal (new_batch tasks mx) = Some s \<Longrightarrow> batch_reach ct tasks mx s"
| batch_reach_step: "batch_reach ct tasks mx s \<Longrightarrow> batch_reach ct tasks mx (batch_step ct now ev s)"

end
