(* ===== verification/Swarm_Proofs.thy ===== *)
theory Swarm_Proofs imports Swarm begin

text \<open>
  The invariants and properties of the swarm scheduler (\<^verbatim>\<open>Swarm\<close>): which tasks are where,
  progress, the launch log and the finality of a settled batch. A state between two handlers is \<open>live\<close> or
  \<open>done_ok\<close>; inside a handler, before it reschedules, it satisfies \<open>core\<close>.
\<close>

section \<open>The invariant\<close>

definition parts :: "batch \<Rightarrow> bool" where
  "parts s \<longleftrightarrow> distinct (b_pending s @ map at_state (b_active s)) \<and>
     (\<forall>i. i \<in> set (b_pending s) \<or> i \<in> at_state ` set (b_active s) \<longleftrightarrow>
          i < length (b_results s) \<and> b_results s ! i = None)"

definition ids_ok :: "batch \<Rightarrow> bool" where
  "ids_ok s \<longleftrightarrow> distinct (map at_id (b_active s)) \<and> (\<forall>x \<in> set (b_active s). at_id x < b_nextId s)"

definition own_results :: "run_result option list \<Rightarrow> bool" where
  "own_results rs \<longleftrightarrow> (\<forall>i < length rs. \<forall>r. rs ! i = Some r \<longrightarrow> rr_task r = i)"

fun fits :: "nat option \<Rightarrow> nat \<Rightarrow> bool" where
  "fits None n = True"
| "fits (Some m) n = (n \<le> m)"

definition within_limit :: "batch \<Rightarrow> bool" where
  "within_limit s \<longleftrightarrow> fits (b_maxConcurrency s) (length (b_active s))"

lemma not_at_limit: "\<not> isAtConcurrencyLimit s \<Longrightarrow> fits (b_maxConcurrency s) (Suc (length (b_active s)))"
  by (cases "b_maxConcurrency s") (simp_all add: isAtConcurrencyLimit_def)

definition fresh :: "nat \<Rightarrow> launch \<Rightarrow> bool" where
  "fresh i l \<longleftrightarrow> (case l of LSpawn j \<Rightarrow> j = i | LResume j _ \<Rightarrow> j = i | LRetry _ _ \<Rightarrow> False)"

text \<open>
  Each task was spawned or resumed at most once, and never while it waits for its first launch; retries
  address the agent that was suspended.
\<close>

definition log_ok :: "batch \<Rightarrow> bool" where
  "log_ok s \<longleftrightarrow>
     (\<forall>i. length (filter (fresh i) (b_launches s)) \<le> 1) \<and>
     (\<forall>i \<in> set (b_pending s). k_retryAgentId (b_states s ! i) = None \<longrightarrow> filter (fresh i) (b_launches s) = []) \<and>
     (\<forall>i < length (b_states s). \<forall>a. k_retryAgentId (b_states s ! i) = Some a \<longrightarrow> (i, a) \<in> set (b_suspended s)) \<and>
     (\<forall>i a. LRetry i a \<in> set (b_launches s) \<longrightarrow> (i, a) \<in> set (b_suspended s))"

definition sizes_ok :: "batch \<Rightarrow> bool" where
  "sizes_ok s \<longleftrightarrow> length (b_states s) = length (b_tasks s) \<and> length (b_results s) = length (b_tasks s)"

definition mode_ok :: "batch \<Rightarrow> bool" where
  "mode_ok s \<longleftrightarrow> 1 \<le> b_rateLimitCapacity s \<and>
     (b_rateLimitMode s \<longrightarrow> b_lastRateLimitAt s \<noteq> None \<and> \<not> b_normalTimer s) \<and>
     (\<not> b_rateLimitMode s \<longrightarrow> within_limit s)"

definition core :: "batch \<Rightarrow> bool" where
  "core s \<longleftrightarrow> \<not> b_finished s \<and> b_aborted s = None \<and> b_outcome s = None \<and> sizes_ok s \<and> parts s \<and>
     ids_ok s \<and> own_results (b_results s) \<and> mode_ok s \<and> log_ok s"

text \<open>A resolved batch has the results of all its tasks, in task order; a rejected one was aborted.\<close>

fun outcome_ok :: "nat \<Rightarrow> abort_reason option \<Rightarrow> batch_outcome option \<Rightarrow> bool" where
  "outcome_ok n a None = False"
| "outcome_ok n a (Some (Resolved rs)) = (map rr_task rs = [0 ..< n])"
| "outcome_ok n a (Some (Rejected e)) = (a = Some e)"

definition done_ok :: "batch \<Rightarrow> bool" where
  "done_ok s \<longleftrightarrow> b_finished s \<and> b_active s = [] \<and> \<not> b_normalTimer s \<and> b_rateTimer s = None \<and> log_ok s \<and>
     sizes_ok s \<and>
     outcome_ok (length (b_tasks s)) (b_aborted s) (b_outcome s)"

definition progress :: "batch \<Rightarrow> bool" where
  "progress s \<longleftrightarrow> b_active s \<noteq> [] \<or> b_normalTimer s \<or> b_rateTimer s \<noteq> None"

definition live :: "batch \<Rightarrow> bool" where
  "live s \<longleftrightarrow> core s \<and> \<not> all_results s \<and> (b_maxConcurrency s \<noteq> Some 0 \<longrightarrow> progress s)"

lemmas core_parts_defs = sizes_ok_def parts_def ids_ok_def mode_ok_def log_ok_def

lemma own_resultsI:
  "own_results rs \<Longrightarrow> rr_task r = i \<Longrightarrow> own_results (rs[i := Some r])"
  by (cases "i < length rs") (auto simp: own_results_def nth_list_update)

text \<open>While a result is missing some task is pending or active.\<close>

lemma core_unfinished: "core s \<Longrightarrow> \<not> all_results s \<Longrightarrow> b_pending s \<noteq> [] \<or> b_active s \<noteq> []"
proof -
  assume c: "core s" "\<not> all_results s"
  then obtain r where "r \<in> set (b_results s)" "r = None" by (auto simp: all_results_def list_all_iff)
  then obtain i where "i < length (b_results s)" "b_results s ! i = None" by (auto simp: in_set_conv_nth)
  with c(1) have "i \<in> set (b_pending s) \<or> i \<in> at_state ` set (b_active s)"
    unfolding core_def parts_def by blast
  then show ?thesis by auto
qed

section \<open>Launching\<close>

lemma startAttempt_sel [simp]:
  "b_results (startAttempt i s) = b_results s" "b_finished (startAttempt i s) = b_finished s"
  "b_aborted (startAttempt i s) = b_aborted s" "b_outcome (startAttempt i s) = b_outcome s"
  "b_tasks (startAttempt i s) = b_tasks s" "b_states (startAttempt i s) = b_states s"
  "b_maxConcurrency (startAttempt i s) = b_maxConcurrency s"
  "b_rateLimitMode (startAttempt i s) = b_rateLimitMode s" "b_normalTimer (startAttempt i s) = b_normalTimer s"
  "b_rateLimitCapacity (startAttempt i s) = b_rateLimitCapacity s"
  "b_lastRateLimitAt (startAttempt i s) = b_lastRateLimitAt s"
  "b_suspended (startAttempt i s) = b_suspended s" "b_rateTimer (startAttempt i s) = b_rateTimer s"
  by (simp_all add: startAttempt_def)

lemma filter_fresh_launch: "filter (fresh j) [launch_of s i] = (if j = i \<and> k_retryAgentId (b_states s ! i) = None then [launch_of s i] else [])"
  by (cases "k_retryAgentId (b_states s ! i)"; cases "st_resumeAgentId (b_tasks s ! i)")
    (auto simp: launch_of_def fresh_def)

lemma launch_of_retry: "LRetry j a = launch_of s i \<longleftrightarrow> j = i \<and> k_retryAgentId (b_states s ! i) = Some a"
  by (cases "k_retryAgentId (b_states s ! i)"; cases "st_resumeAgentId (b_tasks s ! i)")
    (auto simp: launch_of_def)

lemma launch_of_pending [simp]: "launch_of (s\<lparr>b_pending := p\<rparr>) i = launch_of s i"
  by (simp add: launch_of_def)

lemma core_startAttempt:
  assumes c: "core s" and p: "b_pending s = xs @ i # ys"
    and lim: "b_rateLimitMode s \<or> \<not> isAtConcurrencyLimit s"
  shows "core (startAttempt i (s\<lparr>b_pending := xs @ ys\<rparr>))"
    and "b_active (startAttempt i (s\<lparr>b_pending := xs @ ys\<rparr>)) \<noteq> []"
proof -
  let ?s = "startAttempt i (s\<lparr>b_pending := xs @ ys\<rparr>)"
  obtain new where act: "b_active ?s = b_active s @ [new]" "at_state new = i" "at_id new = b_nextId s"
    and nid: "b_nextId ?s = b_nextId s + 1"
    and log: "b_launches ?s = b_launches s @ (if k_aborted (b_states s ! i) = None then [launch_of s i] else [])"
    using c by (simp add: startAttempt_def core_def)
  show "b_active ?s \<noteq> []" using act by simp
  have pnd: "b_pending ?s = xs @ ys" by simp
  have il: "i < length (b_states s)" "i \<in> set (b_pending s)" and ni: "i \<notin> set (xs @ ys)"
    using c p by (auto simp: core_def parts_def sizes_ok_def)
  have "parts ?s"
  proof -
    have ps: "parts s" using c by (simp add: core_def)
    have set1: "set (b_pending s) = insert i (set (xs @ ys))" using p by auto
    have img: "at_state ` set (b_active ?s) = insert i (at_state ` set (b_active s))" using act by auto
    have "distinct ((xs @ ys) @ map at_state (b_active ?s))"
      using conjunct1 [OF ps [unfolded parts_def]] act p by auto
    moreover have "j \<in> set (xs @ ys) \<or> j \<in> at_state ` set (b_active ?s) \<longleftrightarrow>
        j < length (b_results s) \<and> b_results s ! j = None" for j
      using conjunct2 [OF ps [unfolded parts_def], THEN spec, of j] unfolding set1 img by auto
    ultimately show ?thesis by (simp add: parts_def)
  qed
  moreover have "ids_ok ?s" using c act nid by (auto simp: core_def ids_ok_def)
  moreover have "mode_ok ?s"
    using c act(1) lim by (auto simp: core_def mode_ok_def within_limit_def dest: not_at_limit)
  moreover have "log_ok ?s"
  proof -
    have lo: "log_ok s" using c by (simp add: core_def)
    note l = lo [unfolded log_ok_def, THEN conjunct1] lo [unfolded log_ok_def, THEN conjunct2, THEN conjunct1]
      lo [unfolded log_ok_def, THEN conjunct2, THEN conjunct2, THEN conjunct1]
      lo [unfolded log_ok_def, THEN conjunct2, THEN conjunct2, THEN conjunct2]
    define new where "new = (if k_aborted (b_states s ! i) = None then [launch_of s i] else [])"
    have f: "filter (fresh j) new = (if j = i \<and> k_retryAgentId (b_states s ! i) = None \<and> new \<noteq> [] then new else [])" for j
      using filter_fresh_launch [of j s i] by (auto simp: new_def split: if_splits)
    have n1: "length new \<le> 1" by (simp add: new_def)
    have lr: "LRetry j a \<in> set new \<Longrightarrow> (j, a) \<in> set (b_suspended s)" for j a
      using launch_of_retry [of j a s i] l(3) il(1) by (auto simp: new_def split: if_splits)
    have lc: "b_launches ?s = b_launches s @ new" using log by (simp add: new_def)
    have "length (filter (fresh j) (b_launches s @ new)) \<le> 1" for j
      using l(1,2) f [of j] n1 il(2) by (cases "j = i \<and> k_retryAgentId (b_states s ! i) = None \<and> new \<noteq> []") auto
    moreover have "filter (fresh j) (b_launches s @ new) = []"
      if "j \<in> set (xs @ ys)" "k_retryAgentId (b_states s ! j) = None" for j
      using that ni l(2) f [of j] p by auto
    ultimately show ?thesis
      unfolding log_ok_def lc pnd using l(3,4) lr by (auto simp del: filter_append)
  qed
  ultimately show "core ?s" using c by (simp add: core_def sizes_ok_def)
qed

lemma core_bump [simp]: "core (s\<lparr>b_normalLaunchCount := k\<rparr>) = core s"
  by (simp add: core_def core_parts_defs within_limit_def)

lemma core_shift_and_start:
  assumes "core s" and "b_pending s \<noteq> []" and "\<not> isAtConcurrencyLimit s"
  shows "core (shift_and_start s)" and "b_active (shift_and_start s) \<noteq> []"
    and "b_rateLimitMode (shift_and_start s) = b_rateLimitMode s"
    and "b_results (shift_and_start s) = b_results s"
    and "b_maxConcurrency (shift_and_start s) = b_maxConcurrency s"
proof -
  from assms(2) obtain i ps where "b_pending s = i # ps" by (cases "b_pending s") auto
  with core_startAttempt [of s "[]" i ps] assms
  show "core (shift_and_start s)" "b_active (shift_and_start s) \<noteq> []"
    by (simp_all add: shift_and_start_def Let_def)
qed (simp_all add: shift_and_start_def Let_def)

lemma normal_burst_core:
  "core s \<Longrightarrow> core (normal_burst s) \<and> b_results (normal_burst s) = b_results s \<and>
     b_rateLimitMode (normal_burst s) = b_rateLimitMode s \<and>
     b_maxConcurrency (normal_burst s) = b_maxConcurrency s"
proof (induction s rule: normal_burst.induct)
  case (1 s)
  show ?case
  proof (cases "b_normalLaunchCount s < INITIAL_LAUNCH_LIMIT \<and> b_pending s \<noteq> [] \<and> \<not> b_rateLimitMode s \<and>
      \<not> isAtConcurrencyLimit s")
    case True
    with core_shift_and_start [OF "1.prems"] have
      "core (shift_and_start s)" "b_rateLimitMode (shift_and_start s) = b_rateLimitMode s"
      "b_results (shift_and_start s) = b_results s"
      "b_maxConcurrency (shift_and_start s) = b_maxConcurrency s" by blast+
    moreover have "normal_burst s = normal_burst (shift_and_start s)"
      by (subst normal_burst.simps) (simp only: if_P [OF True])
    ultimately show ?thesis using "1.IH" [OF True] by simp
  next
    case False
    have "normal_burst s = s" by (subst normal_burst.simps) (simp only: if_not_P [OF False])
    with "1.prems" show ?thesis by simp
  qed
qed

lemma core_arm: "core s \<Longrightarrow> \<not> b_rateLimitMode s \<Longrightarrow> core (s\<lparr>b_normalTimer := True\<rparr>)"
  by (simp add: core_def sizes_ok_def parts_def ids_ok_def log_ok_def mode_ok_def within_limit_def)

lemma all_results_cong: "b_results s = b_results t \<Longrightarrow> all_results s = all_results t"
  by (simp add: all_results_def)

lemma scheduleNormalLaunch_live:
  assumes "core s" and "\<not> all_results s" and "\<not> b_rateLimitMode s"
  shows "live (scheduleNormalLaunch s)"
proof -
  let ?t = "normal_burst s"
  note nb = normal_burst_core [OF assms(1)]
  have ar: "\<not> all_results ?t" using nb assms(2) all_results_cong by metis
  show ?thesis
  proof (cases "b_pending ?t = [] \<or> b_rateLimitMode ?t \<or> b_normalTimer ?t \<or> isAtConcurrencyLimit ?t")
    case True
    have "progress ?t" if "b_maxConcurrency ?t \<noteq> Some 0"
      using True core_unfinished [OF _ ar] nb that assms(3)
      by (auto simp: progress_def isAtConcurrencyLimit_def split: option.splits)
    moreover have "scheduleNormalLaunch s = ?t"
      by (simp only: scheduleNormalLaunch_def Let_def if_P [OF True])
    ultimately show ?thesis using nb ar by (simp add: live_def)
  next
    case False
    have "core (?t\<lparr>b_normalTimer := True\<rparr>)"
      using nb assms(3) by (intro core_arm) simp_all
    with False ar show ?thesis
      by (simp add: scheduleNormalLaunch_def live_def progress_def all_results_def)
  qed
qed

section \<open>Rate-limited launching\<close>

lemma core_rate_fields [simp]:
  "core (s\<lparr>b_rateTimer := t\<rparr>) = core s"
  "core (s\<lparr>b_nextRateLimitLaunchAt := n\<rparr>) = core s"
  "core (s\<lparr>b_globalRetryIntervalMs := g\<rparr>) = core s"
  "core (s\<lparr>b_lastCapacityRecoveryAt := r\<rparr>) = core s"
  by (simp_all add: core_def core_parts_defs within_limit_def)

lemma all_results_fields [simp]:
  "all_results (s\<lparr>b_rateTimer := t\<rparr>) = all_results s"
  "all_results (s\<lparr>b_nextRateLimitLaunchAt := n\<rparr>) = all_results s"
  "all_results (s\<lparr>b_globalRetryIntervalMs := g\<rparr>) = all_results s"
  by (simp_all add: all_results_def)

lemma wakeup_core:
  "core s \<Longrightarrow> core (scheduleRateLimitWakeup t now s)"
  "all_results (scheduleRateLimitWakeup t now s) = all_results s"
  "b_active (scheduleRateLimitWakeup t now s) = b_active s"
  by (auto simp: scheduleRateLimitWakeup_def all_results_def split: option.splits)

lemma recover_core:
  "core s \<Longrightarrow> core (recoverRateLimitCapacity now s)"
  "all_results (recoverRateLimitCapacity now s) = all_results s"
  "b_pending (recoverRateLimitCapacity now s) = b_pending s"
  "b_rateLimitMode (recoverRateLimitCapacity now s) = b_rateLimitMode s"
  "b_lastRateLimitAt (recoverRateLimitCapacity now s) = b_lastRateLimitAt s"
  by (auto simp: recoverRateLimitCapacity_def core_def core_parts_defs all_results_def within_limit_def)

lemma take_ready_Some:
  "take_ready P ps = Some (i, rest) \<Longrightarrow> \<exists>xs ys. ps = xs @ i # ys \<and> rest = xs @ ys \<and> P i"
proof (induction ps arbitrary: rest)
  case (Cons j js)
  show ?case
  proof (cases "P j")
    case True
    with Cons.prems show ?thesis by (intro exI [of _ "[]"] exI [of _ js]) simp
  next
    case False
    with Cons.prems obtain r where r: "take_ready P js = Some (i, r)" "rest = j # r" by auto
    from Cons.IH [OF r(1)] obtain xs ys where "js = xs @ i # ys" "r = xs @ ys" "P i" by auto
    with r(2) show ?thesis by (intro exI [of _ "j # xs"] exI [of _ ys]) simp
  qed
qed simp

lemma take_ready_None: "take_ready P ps = None \<longleftrightarrow> (\<forall>i \<in> set ps. \<not> P i)"
  by (induction ps) auto

text \<open>The recovery time lies in the future once the capacity was adjusted.\<close>

lemma recovery_future:
  assumes "b_lastRateLimitAt s \<noteq> None" and "b_pending s \<noteq> []"
  shows "\<exists>t. nextRateLimitCapacityRecoveryAt (recoverRateLimitCapacity now s) = Some t \<and> now < t"
proof -
  obtain u where u: "b_lastRateLimitAt s = Some u" using assms(1) by auto
  show ?thesis
  proof (cases "after_now (nextRateLimitCapacityRecoveryAt s) now")
    case True
    then show ?thesis using u assms(2)
      by (simp add: recoverRateLimitCapacity_def nextRateLimitCapacityRecoveryAt_def after_now_def)
  next
    case False
    then show ?thesis using u assms(2)
      by (simp add: recoverRateLimitCapacity_def nextRateLimitCapacityRecoveryAt_def
          RATE_LIMIT_CAPACITY_RECOVERY_INTERVAL_MS_def)
  qed
qed

lemma min_time_fold:
  "fold (\<lambda>i t. min_time t (Some (f i))) xs t0 = Some m \<Longrightarrow> (\<exists>i \<in> set xs. f i = m) \<or> t0 = Some m"
proof (induction xs arbitrary: t0)
  case (Cons x xs)
  from Cons.IH [of "min_time t0 (Some (f x))"] Cons.prems show ?case
    by (auto simp: min_time_def min_def split: option.splits if_splits)
qed simp

lemma min_time_fold_None:
  "fold (\<lambda>i t. min_time t (Some (f i))) xs t0 = None \<Longrightarrow> xs = [] \<and> t0 = None"
proof (induction xs arbitrary: t0)
  case (Cons x xs)
  from Cons.IH [of "min_time t0 (Some (f x))"] Cons.prems show ?case
    by (auto simp: min_time_def split: option.splits)
qed simp

lemma rate_launch_live:
  assumes c: "core s0" and ar: "\<not> all_results s0" and rm: "b_rateLimitMode s0"
  shows "live (scheduleRateLimitLaunch now s0)"
proof -
  define s1 where "s1 = s0\<lparr>b_rateTimer := None\<rparr>"
  define s where "s = recoverRateLimitCapacity now s1"
  have s1: "core s1" "\<not> all_results s1" "b_rateLimitMode s1" using c ar rm by (simp_all add: s1_def)
  have s: "core s" "\<not> all_results s" "b_pending s = b_pending s1" "b_rateLimitMode s"
    "b_lastRateLimitAt s = b_lastRateLimitAt s1"
    using recover_core s1 by (simp_all add: s_def)
  note unf = core_unfinished [OF s1(1,2)]
  show ?thesis
  proof (cases "b_pending s1 = []")
    case True
    then have "scheduleRateLimitLaunch now s0 = s1" by (simp add: scheduleRateLimitLaunch_def s1_def)
    with unf True s1 show ?thesis by (simp add: live_def progress_def)
  next
    case False
    have "b_lastRateLimitAt s1 \<noteq> None" using s1 by (simp add: core_def mode_ok_def)
    from recovery_future [OF this False] obtain tr where
      tr: "nextRateLimitCapacityRecoveryAt s = Some tr" "now < tr" by (auto simp: s_def)
    show ?thesis
    proof (cases "b_rateLimitCapacity s \<le> length (b_active s)")
      case True
      have "1 \<le> b_rateLimitCapacity s" using s(1) by (simp add: core_def mode_ok_def)
      with True have "b_active s \<noteq> []" by auto
      moreover have "scheduleRateLimitLaunch now s0 =
          scheduleRateLimitWakeup (nextRateLimitCapacityRecoveryAt s) now s"
        using False True by (simp add: scheduleRateLimitLaunch_def s1_def s_def Let_def)
      ultimately show ?thesis using wakeup_core s by (simp add: live_def progress_def)
    next
      case cap: False
      let ?allowed = "max_time (b_nextRateLimitLaunchAt s) (nextPendingReadyAt s)"
      let ?wake = "min_time ?allowed (nextRateLimitCapacityRecoveryAt s)"
      have run: "scheduleRateLimitLaunch now s0 =
        (if after_now ?wake now then scheduleRateLimitWakeup ?wake now s
         else case take_ready (\<lambda>i. k_retryReadyAt (b_states s ! i) \<le> now) (b_pending s) of
           None \<Rightarrow> s
         | Some (i, rest) \<Rightarrow>
             scheduleNextRateLimitWakeup now
               ((startAttempt i (s\<lparr>b_pending := rest\<rparr>))\<lparr>b_nextRateLimitLaunchAt :=
                 now + b_globalRetryIntervalMs (startAttempt i (s\<lparr>b_pending := rest\<rparr>))\<rparr>))"
        unfolding scheduleRateLimitLaunch_def Let_def s1_def [symmetric] s_def [symmetric]
        by (simp only: False cap if_False)
      show ?thesis
      proof (cases "after_now ?wake now")
        case True
        have "\<exists>w. ?wake = Some w" using tr(1) by (cases ?allowed) (simp_all add: min_time_def)
        then obtain w where w: "?wake = Some w" by blast
        with True have "now < w" by (simp add: after_now_def)
        with w True run s wakeup_core(1) [OF s(1)] wakeup_core(2) show ?thesis
          by (simp add: live_def progress_def) (simp add: scheduleRateLimitWakeup_def)
      next
        case woken: False
        have "nextPendingReadyAt s \<noteq> None"
        proof
          assume "nextPendingReadyAt s = None"
          from min_time_fold_None [OF this [unfolded nextPendingReadyAt_def]] False s(3) show False by simp
        qed
        then obtain m where m: "nextPendingReadyAt s = Some m" by auto
        with woken tr have "m \<le> now" by (simp add: after_now_def min_time_def max_time_def)
        with m min_time_fold obtain j where "j \<in> set (b_pending s)" "k_retryReadyAt (b_states s ! j) \<le> now"
          unfolding nextPendingReadyAt_def by (metis option.distinct(1))
        then have "take_ready (\<lambda>i. k_retryReadyAt (b_states s ! i) \<le> now) (b_pending s) \<noteq> None"
          using take_ready_None by metis
        then obtain i rest where tk: "take_ready (\<lambda>i. k_retryReadyAt (b_states s ! i) \<le> now) (b_pending s) = Some (i, rest)"
          by auto
        from take_ready_Some [OF tk] obtain xs ys where xy: "b_pending s = xs @ i # ys" "rest = xs @ ys" by auto
        let ?s' = "startAttempt i (s\<lparr>b_pending := rest\<rparr>)"
        have s': "core ?s'" "b_active ?s' \<noteq> []"
          using core_startAttempt [OF s(1) xy(1)] s(4) xy(2) by simp_all
        let ?t = "?s'\<lparr>b_nextRateLimitLaunchAt := now + b_globalRetryIntervalMs ?s'\<rparr>"
        have t: "core ?t" "b_active ?t \<noteq> []" using s' by simp_all
        have at: "\<not> all_results ?t" using s(2) by (simp add: all_results_def)
        have "scheduleRateLimitLaunch now s0 = scheduleNextRateLimitWakeup now ?t"
          using run woken tk by simp
        moreover have "live (scheduleNextRateLimitWakeup now ?t)"
          using wakeup_core(1) [OF t(1)] wakeup_core(2,3) t at
          by (auto simp: scheduleNextRateLimitWakeup_def live_def progress_def)
        ultimately show ?thesis by simp
      qed
    qed
  qed
qed

section \<open>Finishing and scheduling\<close>

lemma sizes_finish: "sizes_ok (batch_finish rs s) = sizes_ok s"
  by (simp add: batch_finish_def batch_cleanup_def sizes_ok_def)

lemma finish_done:
  assumes "core s" and "map rr_task rs = [0 ..< length (b_tasks s)]"
  shows "done_ok (batch_finish rs s)"
  using assms by (simp add: done_ok_def batch_finish_def batch_cleanup_def core_def log_ok_def sizes_ok_def)

lemma results_tasks:
  assumes "core s" and "all_results s"
  shows "map rr_task (map the (b_results s)) = [0 ..< length (b_tasks s)]"
proof (rule nth_equalityI)
  show "length (map rr_task (map the (b_results s))) = length [0 ..< length (b_tasks s)]"
    using assms(1) by (simp add: core_def sizes_ok_def)
next
  fix i assume i: "i < length (map rr_task (map the (b_results s)))"
  then have "b_results s ! i \<noteq> None"
    using assms(2) by (simp add: all_results_def list_all_length)
  then obtain r where "b_results s ! i = Some r" by auto
  moreover from this have "rr_task r = i" using assms(1) i by (simp add: core_def own_results_def)
  ultimately show "map rr_task (map the (b_results s)) ! i = [0 ..< length (b_tasks s)] ! i"
    using i assms(1) by (simp add: core_def sizes_ok_def)
qed

definition settled_state :: "batch \<Rightarrow> bool" where
  "settled_state s \<longleftrightarrow> live s \<or> done_ok s"

lemma schedule_settles: "core s \<Longrightarrow> settled_state (schedule now s)"
proof -
  assume c: "core s"
  then have f: "\<not> b_finished s" "b_aborted s = None" by (simp_all add: core_def)
  show ?thesis
  proof (cases "all_results s")
    case True
    with f c finish_done [OF c results_tasks [OF c True]] show ?thesis
      by (simp add: schedule_def finishIfComplete_def settled_state_def)
  next
    case False
    with f c rate_launch_live [OF c False] scheduleNormalLaunch_live [OF c False] show ?thesis
      by (simp add: schedule_def finishIfComplete_def settled_state_def)
  qed
qed

lemma cancelled_tasks:
  assumes "sizes_ok s" and "own_results (b_results s)"
  shows "map rr_task (map (cancelled_result s) [0 ..< length (b_states s)]) = [0 ..< length (b_tasks s)]"
proof -
  have "rr_task (cancelled_result s i) = i" if "i < length (b_states s)" for i
    using that assms by (auto simp: cancelled_result_def own_results_def sizes_ok_def split: option.splits)
  then show ?thesis using assms(1) by (auto simp: sizes_ok_def intro!: map_idI)
qed

lemma abort_settles:
  assumes "core s"
  shows "done_ok (batchAbortListener reason s)"
proof -
  let ?s = "s\<lparr>b_aborted := Some reason\<rparr>"
  have "cancelled_result ?s = cancelled_result s"
    by (rule ext) (simp add: cancelled_result_def cong: option.case_cong)
  then have "map rr_task (map (cancelled_result ?s) [0 ..< length (b_states s)]) = [0 ..< length (b_tasks s)]"
    using cancelled_tasks [of s] assms by (simp add: core_def)
  then show ?thesis
    using assms by (auto simp: batchAbortListener_def finishWithUserCancellation_def batch_fail_def
        batch_finish_def batch_cleanup_def done_ok_def core_def sizes_ok_def log_ok_def Let_def)
qed

section \<open>Attempt events\<close>

lemma core_active_cong:
  assumes st: "map at_state act = map at_state (b_active s)" and id: "map at_id act = map at_id (b_active s)"
  shows "core (s\<lparr>b_active := act\<rparr>) = core s"
proof -
  have im: "at_state ` set act = at_state ` set (b_active s)" using st by (metis set_map)
  have bound: "(\<forall>x \<in> set xs. at_id x < n) \<longleftrightarrow> (\<forall>j \<in> set (map at_id xs). j < n)" for xs n by simp
  have "parts (s\<lparr>b_active := act\<rparr>) = parts s"
    unfolding parts_def using st im by (simp del: distinct_append)
  moreover have "ids_ok (s\<lparr>b_active := act\<rparr>) = ids_ok s"
    unfolding ids_ok_def bound using id by (simp del: set_map)
  moreover have "mode_ok (s\<lparr>b_active := act\<rparr>) = mode_ok s"
    using st [THEN arg_cong, of length] by (simp add: mode_ok_def within_limit_def)
  ultimately show ?thesis by (simp add: core_def sizes_ok_def log_ok_def)
qed

lemma core_update_attempt:
  assumes "\<And>x. at_state (f x) = at_state x \<and> at_id (f x) = at_id x"
  shows "core (update_attempt a f s) = core s"
  unfolding update_attempt_def using assms by (intro core_active_cong) (simp_all add: comp_def)

text \<open>Changing a task without touching its retry agent.\<close>

lemma core_update_task:
  assumes "\<And>k. k_retryAgentId (f k) = k_retryAgentId k"
  shows "core (update_task i f s) = core s"
proof -
  have r: "k_retryAgentId ((b_states s)[i := f (b_states s ! i)] ! j) = k_retryAgentId (b_states s ! j)" for j
  proof (cases "i < length (b_states s)")
    case True
    with assms show ?thesis by (simp add: nth_list_update)
  next
    case False
    then have "(b_states s)[i := f (b_states s ! i)] = b_states s" by (intro list_update_beyond) simp
    then show ?thesis by simp
  qed
  show ?thesis
    by (simp add: core_def update_task_def sizes_ok_def parts_def ids_ok_def mode_ok_def log_ok_def
        within_limit_def r)
qed

section \<open>Releasing an attempt\<close>

text \<open>After its release an attempt's task is neither pending nor active nor finished.\<close>

definition released :: "nat \<Rightarrow> batch \<Rightarrow> bool" where
  "released i s \<longleftrightarrow> distinct (b_pending s @ map at_state (b_active s)) \<and>
     i < length (b_results s) \<and> b_results s ! i = None \<and>
     (\<forall>j. j \<in> set (b_pending s) \<or> j \<in> at_state ` set (b_active s) \<longleftrightarrow>
          j < length (b_results s) \<and> b_results s ! j = None \<and> j \<noteq> i)"

definition core_but :: "nat \<Rightarrow> batch \<Rightarrow> bool" where
  "core_but i s \<longleftrightarrow> \<not> b_finished s \<and> b_aborted s = None \<and> b_outcome s = None \<and> sizes_ok s \<and> released i s \<and>
     ids_ok s \<and> own_results (b_results s) \<and> mode_ok s \<and> log_ok s"

lemma find_split:
  "find P xs = Some x \<Longrightarrow> \<exists>l r. xs = l @ x # r \<and> P x \<and> (\<forall>y \<in> set l. \<not> P y)"
proof (induction xs)
  case (Cons y ys)
  show ?case
  proof (cases "P y")
    case True
    with Cons.prems show ?thesis by (intro exI [of _ "[]"] exI [of _ ys]) simp
  next
    case False
    with Cons obtain l r where "ys = l @ x # r \<and> P x \<and> (\<forall>y \<in> set l. \<not> P y)" by auto
    with False show ?thesis by (intro exI [of _ "y # l"] exI [of _ r]) simp
  qed
qed simp

lemma release_core:
  assumes "core s" and "find_attempt a s = Some x"
  shows "core_but (at_state x) (releaseAttempt a s)"
proof -
  from find_split [OF assms(2) [unfolded find_attempt_def]] obtain l r where
    lr: "b_active s = l @ x # r" "at_id x = a" by auto
  have ids: "distinct (map at_id (b_active s))" "\<forall>y \<in> set (b_active s). at_id y < b_nextId s"
    using assms(1) by (simp_all add: core_def ids_ok_def)
  then have "filter (\<lambda>y. at_id y \<noteq> a) l = l" "filter (\<lambda>y. at_id y \<noteq> a) r = r"
    using lr by (auto simp: filter_id_conv image_iff)
  then have act: "b_active (releaseAttempt a s) = l @ r" using lr by (simp add: releaseAttempt_def)
  have ps: "parts s" using assms(1) by (simp add: core_def)
  have d: "distinct (b_pending s @ map at_state (l @ x # r))"
    using conjunct1 [OF ps [unfolded parts_def]] lr(1) by simp
  have m: "j \<in> set (b_pending s) \<or> j \<in> at_state ` set (l @ x # r) \<longleftrightarrow>
      j < length (b_results s) \<and> b_results s ! j = None" for j
    using conjunct2 [OF ps [unfolded parts_def], THEN spec, of j] lr(1) by simp
  have nx: "at_state x \<notin> set (b_pending s)" "at_state x \<notin> at_state ` set (l @ r)" using d by auto
  have x: "at_state x < length (b_results s)" "b_results s ! at_state x = None"
    using m [of "at_state x"] by auto
  have "j \<in> set (b_pending s) \<or> j \<in> at_state ` set (l @ r) \<longleftrightarrow>
      j < length (b_results s) \<and> b_results s ! j = None \<and> j \<noteq> at_state x" for j
    using m [of j] nx by auto
  moreover have "distinct (b_pending s @ map at_state (l @ r))" using d by auto
  ultimately have "released (at_state x) (releaseAttempt a s)"
    unfolding released_def act using x by (simp add: releaseAttempt_def)
  moreover have "ids_ok (releaseAttempt a s)"
    using ids unfolding ids_ok_def act lr(1) by (simp add: releaseAttempt_def)
  moreover have "mode_ok (releaseAttempt a s)"
  proof -
    have "fits mx n \<Longrightarrow> k \<le> n \<Longrightarrow> fits mx k" for mx n k by (cases mx) auto
    moreover have "length (l @ r) \<le> length (b_active s)" using lr(1) by simp
    moreover have "mode_ok s" using assms(1) by (simp add: core_def)
    ultimately show ?thesis unfolding mode_ok_def within_limit_def act by (auto simp: releaseAttempt_def)
  qed
  ultimately show ?thesis
    using assms(1) by (simp add: core_but_def core_def sizes_ok_def log_ok_def releaseAttempt_def)
qed

lemma set_result_core:
  assumes "core_but i s" and "rr_task r = i"
  shows "core (set_result i r s)"
proof -
  have rel: "released i s" using assms(1) by (simp add: core_but_def)
  have "parts (set_result i r s)"
    using rel unfolding parts_def released_def set_result_def by (auto simp: nth_list_update split: if_splits)
  moreover have "own_results ((b_results s)[i := Some r])"
    using assms by (intro own_resultsI) (simp_all add: core_but_def)
  ultimately show ?thesis
    using assms(1) by (simp add: core_but_def core_def sizes_ok_def ids_ok_def mode_ok_def log_ok_def
        within_limit_def set_result_def)
qed

lemma shrink_fields [simp]:
  "b_rateLimitMode (shrinkRateLimitCapacity now f s) = b_rateLimitMode s"
  "b_normalTimer (shrinkRateLimitCapacity now f s) = b_normalTimer s"
  "b_lastRateLimitAt (shrinkRateLimitCapacity now f s) = b_lastRateLimitAt s"
  "b_pending (shrinkRateLimitCapacity now f s) = b_pending s"
  "b_active (shrinkRateLimitCapacity now f s) = b_active s"
  "b_results (shrinkRateLimitCapacity now f s) = b_results s"
  "b_states (shrinkRateLimitCapacity now f s) = b_states s"
  "b_tasks (shrinkRateLimitCapacity now f s) = b_tasks s"
  "b_finished (shrinkRateLimitCapacity now f s) = b_finished s"
  "b_aborted (shrinkRateLimitCapacity now f s) = b_aborted s"
  "b_outcome (shrinkRateLimitCapacity now f s) = b_outcome s"
  "b_nextId (shrinkRateLimitCapacity now f s) = b_nextId s"
  "b_launches (shrinkRateLimitCapacity now f s) = b_launches s"
  "b_suspended (shrinkRateLimitCapacity now f s) = b_suspended s"
  by (simp_all add: shrinkRateLimitCapacity_def)

lemma shrink_capacity: "1 \<le> b_rateLimitCapacity s \<Longrightarrow> 1 \<le> b_rateLimitCapacity (shrinkRateLimitCapacity now f s)"
  by (simp add: shrinkRateLimitCapacity_def)

lemma enter_fields [simp]:
  "b_rateLimitMode (enterRateLimitMode now s)"
  "b_lastRateLimitAt (enterRateLimitMode now s) = b_lastRateLimitAt s"
  "b_pending (enterRateLimitMode now s) = b_pending s"
  "b_active (enterRateLimitMode now s) = b_active s"
  "b_results (enterRateLimitMode now s) = b_results s"
  "b_states (enterRateLimitMode now s) = b_states s"
  "b_tasks (enterRateLimitMode now s) = b_tasks s"
  "b_finished (enterRateLimitMode now s) = b_finished s"
  "b_aborted (enterRateLimitMode now s) = b_aborted s"
  "b_outcome (enterRateLimitMode now s) = b_outcome s"
  "b_nextId (enterRateLimitMode now s) = b_nextId s"
  "b_launches (enterRateLimitMode now s) = b_launches s"
  "b_suspended (enterRateLimitMode now s) = b_suspended s"
  by (simp_all add: enterRateLimitMode_def)

lemma enter_mode:
  assumes "mode_ok s" and "b_lastRateLimitAt s \<noteq> None"
  shows "mode_ok (enterRateLimitMode now s)"
proof -
  have "1 \<le> b_rateLimitCapacity (enterRateLimitMode now s)"
    using assms(1) by (auto simp: enterRateLimitMode_def mode_ok_def intro!: shrink_capacity [simplified])
  moreover have "\<not> b_normalTimer (enterRateLimitMode now s)"
    using assms(1) by (simp add: enterRateLimitMode_def mode_ok_def)
  ultimately show ?thesis using assms(2) by (simp add: mode_ok_def)
qed

lemma requeue_core:
  assumes cb: "core_but (at_state x) s"
  shows "core (requeueRateLimited ct now x agentId s)"
proof -
  let ?i = "at_state x"
  let ?ready = "now + ct (k_retryCount (b_states s ! ?i))"
  let ?f = "\<lambda>k. k\<lparr>k_agentId := Some agentId, k_retryAgentId := Some agentId,
    k_retryCount := k_retryCount k + 1, k_retryReadyAt := ?ready\<rparr>"
  define s2 where "s2 = (update_task ?i ?f s)\<lparr>b_suspended := b_suspended s @ [(?i, agentId)],
    b_lastRateLimitAt := Some now, b_pending := ?i # b_pending s\<rparr>"
  have rel: "released ?i s" and sz: "sizes_ok s" and lo: "log_ok s" and md: "mode_ok s"
    using cb by (simp_all add: core_but_def)
  have i: "?i < length (b_states s)" using rel sz by (simp add: released_def sizes_ok_def)
  have st: "b_states s2 = (b_states s)[?i := ?f (b_states s ! ?i)]" by (simp add: s2_def update_task_def)
  have f2: "b_suspended s2 = b_suspended s @ [(?i, agentId)]" "b_launches s2 = b_launches s"
    "b_pending s2 = ?i # b_pending s" "length (b_states s2) = length (b_states s)"
    by (simp_all add: s2_def update_task_def)
  have retry: "k_retryAgentId (b_states s2 ! j) =
      (if j = ?i then Some agentId else k_retryAgentId (b_states s ! j))" for j
    unfolding st using i by (simp add: nth_list_update)
  have "log_ok s2"
    using lo unfolding log_ok_def f2 by (auto simp: retry)
  moreover have "parts s2"
  proof -
    have "j \<in> set (?i # b_pending s) \<or> j \<in> at_state ` set (b_active s) \<longleftrightarrow>
        j < length (b_results s) \<and> b_results s ! j = None" for j
      using rel unfolding released_def by auto
    moreover have "distinct ((?i # b_pending s) @ map at_state (b_active s))"
      using rel unfolding released_def by auto
    ultimately show ?thesis by (simp add: parts_def s2_def update_task_def del: distinct_append)
  qed
  moreover have "mode_ok s2" using md by (simp add: mode_ok_def s2_def update_task_def within_limit_def)
  ultimately have c2: "core s2"
    using cb sz by (simp add: core_def core_but_def sizes_ok_def ids_ok_def s2_def update_task_def)
  have "core (enterRateLimitMode now s2)"
    using c2 enter_mode [of s2 now]
    by (simp add: core_def sizes_ok_def parts_def ids_ok_def log_ok_def) (simp add: s2_def)
  then show ?thesis by (simp add: requeueRateLimited_def Let_def s2_def update_task_def)
qed

lemma outcome_core:
  assumes "core_but (at_state x) s"
  shows "core (attempt_outcome ct now x e s)"
  using set_result_core [OF assms] requeue_core [OF assms]
  by (cases e) (simp_all add: attempt_outcome_def Let_def failedAttemptOutcome_def)

lemma settled_settles:
  assumes "core s" and "find_attempt a s = Some x"
  shows "settled_state (handleAttemptSettled ct now a e s)"
proof -
  note cb = release_core [OF assms]
  then have "\<not> b_finished (releaseAttempt a s)" by (simp add: core_but_def)
  then show ?thesis
    using assms(2) schedule_settles [OF outcome_core [OF cb]] by (simp add: handleAttemptSettled_def Let_def)
qed

section \<open>Every event keeps the invariant\<close>

lemma live_weaken: "live s \<Longrightarrow> core t \<Longrightarrow> b_results t = b_results s \<Longrightarrow> b_maxConcurrency t = b_maxConcurrency s \<Longrightarrow>
    (progress s \<Longrightarrow> progress t) \<Longrightarrow> live t"
  by (auto simp: live_def all_results_def)

lemma update_fields [simp]:
  "b_results (update_task i f s) = b_results s" "b_maxConcurrency (update_task i f s) = b_maxConcurrency s"
  "progress (update_task i f s) = progress s" "b_rateLimitMode (update_task i f s) = b_rateLimitMode s"
  "b_results (update_attempt a g s) = b_results s" "b_maxConcurrency (update_attempt a g s) = b_maxConcurrency s"
  "progress (update_attempt a g s) = progress s" "b_rateLimitMode (update_attempt a g s) = b_rateLimitMode s"
  "b_results (s\<lparr>b_startedSuccessCount := n\<rparr>) = b_results s"
  "progress (s\<lparr>b_startedSuccessCount := n\<rparr>) = progress s"
  by (simp_all add: update_task_def update_attempt_def progress_def)

lemma core_successes [simp]: "core (s\<lparr>b_startedSuccessCount := n\<rparr>) = core s"
  by (simp add: core_def core_parts_defs within_limit_def)

lemma ready_settles:
  assumes "live s"
  shows "settled_state (markAttemptReady now a s)"
proof (cases "find_attempt a s")
  case None
  with assms show ?thesis by (simp add: markAttemptReady_def settled_state_def)
next
  case (Some x)
  define s1 where "s1 = update_task (at_state x) (\<lambda>k. k\<lparr>k_started := True\<rparr>)
    (update_attempt a (\<lambda>x. x\<lparr>at_ready := True\<rparr>) s)"
  have c: "core s" "\<not> b_finished s" using assms by (simp_all add: live_def core_def)
  have c1: "core s1" using c(1) by (simp add: s1_def core_update_task core_update_attempt)
  have rm: "b_rateLimitMode s1 = b_rateLimitMode s" by (simp add: s1_def)
  consider "at_ready x" | "\<not> at_ready x" "b_rateLimitMode s" | "\<not> at_ready x" "\<not> b_rateLimitMode s" by blast
  then show ?thesis
  proof cases
    case 1
    with Some assms show ?thesis by (simp add: markAttemptReady_def settled_state_def)
  next
    case 2
    then have "markAttemptReady now a s = schedule now
        (s1\<lparr>b_globalRetryIntervalMs := RATE_LIMIT_RETRY_BASE_MS,
            b_nextRateLimitLaunchAt := now + RATE_LIMIT_RETRY_BASE_MS\<rparr>)"
      using Some c(2) rm by (simp add: markAttemptReady_def Let_def flip: s1_def)
    with c1 schedule_settles show ?thesis by simp
  next
    case 3
    then have "markAttemptReady now a s = s1\<lparr>b_startedSuccessCount := b_startedSuccessCount s1 + 1\<rparr>"
      using Some c(2) rm by (simp add: markAttemptReady_def Let_def flip: s1_def)
    moreover have "live (s1\<lparr>b_startedSuccessCount := b_startedSuccessCount s1 + 1\<rparr>)"
      using c1 by (intro live_weaken [OF assms]) (simp_all add: s1_def)
    ultimately show ?thesis by (simp add: settled_state_def)
  qed
qed

lemma normal_timer_settles:
  assumes "live s"
  shows "settled_state (normalTimerFired now s)"
proof (cases "b_normalTimer s")
  case False
  with assms show ?thesis by (simp add: normalTimerFired_def settled_state_def)
next
  case True
  define t where "t = s\<lparr>b_normalTimer := False\<rparr>"
  have c: "core s" "\<not> b_finished s" "\<not> b_rateLimitMode s"
    using assms True by (auto simp: live_def core_def mode_ok_def)
  have ct: "core t" using c(1) by (simp add: t_def core_def core_parts_defs within_limit_def)
  have tf: "\<not> b_finished t" "\<not> b_rateLimitMode t" "b_pending t = b_pending s" "\<not> all_results t"
    "b_maxConcurrency t = b_maxConcurrency s" "b_active t = b_active s"
    using c assms by (simp_all add: t_def live_def all_results_def)
  have nf: "normalTimerFired now s =
      (if b_pending t = [] then t else if isAtConcurrencyLimit t then t else schedule now (shift_and_start t))"
    using True tf by (simp add: normalTimerFired_def t_def)
  consider "b_pending t = []" | "b_pending t \<noteq> []" "isAtConcurrencyLimit t"
    | "b_pending t \<noteq> []" "\<not> isAtConcurrencyLimit t" by blast
  then show ?thesis
  proof cases
    case 1
    with core_unfinished [OF ct tf(4)] have "live t" using ct tf by (simp add: live_def progress_def)
    with nf 1 show ?thesis by (simp add: settled_state_def)
  next
    case 2
    then have "b_maxConcurrency t \<noteq> Some 0 \<longrightarrow> b_active t \<noteq> []"
      by (auto simp: isAtConcurrencyLimit_def split: option.splits)
    with ct tf have "live t" by (auto simp: live_def progress_def)
    with nf 2 show ?thesis by (simp add: settled_state_def)
  next
    case 3
    with nf schedule_settles core_shift_and_start(1) [OF ct] show ?thesis by simp
  qed
qed

lemma rate_timer_settles:
  assumes "live s"
  shows "settled_state (rateTimerFired now s)"
proof (cases "b_rateTimer s")
  case None
  with assms show ?thesis by (simp add: rateTimerFired_def settled_state_def)
next
  case (Some t)
  have "core (s\<lparr>b_rateTimer := None\<rparr>)" using assms by (simp add: live_def)
  with Some schedule_settles show ?thesis by (simp add: rateTimerFired_def)
qed

lemma task_abort_settles:
  assumes "live s"
  shows "live (taskAborted i reason s)"
proof (cases "length (b_states s) \<le> i \<or> k_aborted (b_states s ! i) \<noteq> None")
  case True
  with assms show ?thesis by (auto simp: taskAborted_def)
next
  case False
  let ?g = "\<lambda>x. if at_state x = i \<and> at_aborted x = None then x\<lparr>at_aborted := Some reason\<rparr> else x"
  let ?t = "update_task i (\<lambda>k. k\<lparr>k_aborted := Some reason\<rparr>) s"
  have "core ?t" using assms by (simp add: live_def core_update_task)
  moreover have "map at_state (map ?g (b_active s)) = map at_state (b_active ?t)"
    "map at_id (map ?g (b_active s)) = map at_id (b_active ?t)" by (simp_all add: update_task_def)
  ultimately have "core (?t\<lparr>b_active := map ?g (b_active s)\<rparr>)" using core_active_cong by blast
  moreover have "taskAborted i reason s = ?t\<lparr>b_active := map ?g (b_active s)\<rparr>"
    using False by (simp add: taskAborted_def)
  ultimately show ?thesis
    using assms by (intro live_weaken [OF assms]) (simp_all add: progress_def update_task_def)
qed

lemma done_frozen:
  assumes "done_ok s"
  shows "done_ok (batch_step ct now ev s) \<and> b_outcome (batch_step ct now ev s) = b_outcome s \<and>
         b_launches (batch_step ct now ev s) = b_launches s \<and> b_suspended (batch_step ct now ev s) = b_suspended s"
proof -
  have f: "b_finished s" "b_active s = []" "\<not> b_normalTimer s" "b_rateTimer s = None"
    using assms by (simp_all add: done_ok_def)
  have nofind: "find_attempt a s = None" for a using f(2) by (simp add: find_attempt_def)
  have r: "k_retryAgentId (((b_states s)[i := (b_states s ! i)\<lparr>k_aborted := Some e\<rparr>]) ! j) =
      k_retryAgentId (b_states s ! j)" for i j e
  proof (cases "i < length (b_states s)")
    case False
    then have "(b_states s)[i := (b_states s ! i)\<lparr>k_aborted := Some e\<rparr>] = b_states s"
      by (intro list_update_beyond) simp
    then show ?thesis by simp
  qed (simp add: nth_list_update)
  show ?thesis
  proof (cases ev)
    case (BTaskAbort i reason)
    with assms f show ?thesis
      by (auto simp: taskAborted_def update_task_def done_ok_def log_ok_def sizes_ok_def r)
  next
    case (BTimeout a)
    with f have "batch_step ct now ev s = s" by (simp add: attemptTimedOut_def update_attempt_def)
    with assms show ?thesis by simp
  qed (use assms f nofind in \<open>simp_all add: attemptLaunched_def markAttemptReady_def
      handleAttemptSettled_def normalTimerFired_def rateTimerFired_def\<close>)
qed

lemma step_settles:
  assumes "settled_state s"
  shows "settled_state (batch_step ct now ev s)"
proof (cases "done_ok s")
  case True
  with done_frozen show ?thesis by (simp add: settled_state_def)
next
  case False
  with assms have l: "live s" by (simp add: settled_state_def)
  then have c: "core s" "\<not> b_finished s" by (simp_all add: live_def core_def)
  show ?thesis
  proof (cases ev)
    case (BLaunched a agentId)
    show ?thesis
    proof (cases "find_attempt a s")
      case (Some x)
      have "live (update_task (at_state x) (\<lambda>k. k\<lparr>k_agentId := Some agentId\<rparr>) s)"
        using c by (intro live_weaken [OF l]) (simp_all add: core_update_task)
      with Some BLaunched show ?thesis by (simp add: attemptLaunched_def settled_state_def)
    qed (use l BLaunched in \<open>simp add: attemptLaunched_def settled_state_def\<close>)
  next
    case (BSettled a e)
    show ?thesis
    proof (cases "find_attempt a s")
      case (Some x)
      with settled_settles [OF c(1)] BSettled show ?thesis by simp
    qed (use l BSettled in \<open>simp add: handleAttemptSettled_def settled_state_def\<close>)
  next
    case (BTimeout a)
    have "live (attemptTimedOut a s)"
      unfolding attemptTimedOut_def using c by (intro live_weaken [OF l]) (simp_all add: core_update_attempt)
    with BTimeout show ?thesis by (simp add: settled_state_def)
  qed (use l c ready_settles normal_timer_settles rate_timer_settles task_abort_settles abort_settles in
      \<open>simp_all add: settled_state_def\<close>)
qed

lemma core_new: "core (new_batch tasks mx)"
proof -
  have "fits mx 0" by (cases mx) simp_all
  then show ?thesis
    by (auto simp: core_def new_batch_def sizes_ok_def parts_def ids_ok_def own_results_def mode_ok_def
        log_ok_def within_limit_def init_task_state_def)
qed

lemma core_started [simp]: "core (s\<lparr>b_started := b\<rparr>) = core s"
  by (simp add: core_def core_parts_defs within_limit_def)

lemma run_settles:
  assumes "run_batch now signal (new_batch tasks mx) = Some s"
  shows "settled_state s"
proof -
  let ?t = "(new_batch tasks mx)\<lparr>b_started := True\<rparr>"
  have c: "core ?t" by (simp add: core_new)
  show ?thesis
  proof (cases "tasks = []")
    case True
    then have "s = batch_finish [] ?t" using assms by (simp add: run_batch_def new_batch_def)
    with finish_done [OF c, of "[]"] True show ?thesis by (simp add: settled_state_def new_batch_def)
  next
    case False
    then have "s = (case signal of Some reason \<Rightarrow> batchAbortListener reason ?t | None \<Rightarrow> schedule now ?t)"
      using assms by (cases signal) (simp_all add: run_batch_def new_batch_def)
    with abort_settles [OF c] schedule_settles [OF c] show ?thesis
      by (simp add: settled_state_def split: option.splits)
  qed
qed

lemma reach_settles: "batch_reach ct tasks mx s \<Longrightarrow> settled_state s"
  by (induction rule: batch_reach.induct) (auto intro: run_settles step_settles)

section \<open>The tasks and the limit never change\<close>

definition frame :: "batch \<Rightarrow> swarm_task list \<times> nat option" where
  "frame s = (b_tasks s, b_maxConcurrency s)"

lemma frame_updates [simp]:
  "frame (batch_cleanup s) = frame s" "frame (batch_finish rs s) = frame s" "frame (batch_fail e s) = frame s"
  "frame (finishWithUserCancellation s) = frame s" "frame (startAttempt i s) = frame s"
  "frame (scheduleRateLimitWakeup t now s) = frame s" "frame (recoverRateLimitCapacity now s) = frame s"
  "frame (update_attempt a f s) = frame s" "frame (update_task i g s) = frame s"
  "frame (releaseAttempt a s) = frame s" "frame (shrinkRateLimitCapacity now b s) = frame s"
  "frame (set_result i r s) = frame s" "frame (s\<lparr>b_pending := p\<rparr>) = frame s"
  "frame (s\<lparr>b_normalLaunchCount := k\<rparr>) = frame s" "frame (s\<lparr>b_normalTimer := b\<rparr>) = frame s"
  "frame (s\<lparr>b_rateTimer := w\<rparr>) = frame s" "frame (s\<lparr>b_nextRateLimitLaunchAt := n\<rparr>) = frame s"
  "frame (s\<lparr>b_globalRetryIntervalMs := n\<rparr>) = frame s" "frame (s\<lparr>b_aborted := e'\<rparr>) = frame s"
  "frame (s\<lparr>b_started := b\<rparr>) = frame s" "frame (s\<lparr>b_startedSuccessCount := k\<rparr>) = frame s"
  "frame (s\<lparr>b_active := act\<rparr>) = frame s" "frame (s\<lparr>b_suspended := su\<rparr>) = frame s"
  "frame (s\<lparr>b_lastRateLimitAt := l\<rparr>) = frame s" "frame (s\<lparr>b_rateLimitMode := b\<rparr>) = frame s"
  "frame (s\<lparr>b_rateLimitCapacity := k\<rparr>) = frame s"
  by (auto simp: frame_def batch_cleanup_def batch_finish_def batch_fail_def finishWithUserCancellation_def
      startAttempt_def scheduleRateLimitWakeup_def recoverRateLimitCapacity_def update_attempt_def
      update_task_def releaseAttempt_def shrinkRateLimitCapacity_def set_result_def split: option.splits)

lemma frame_shift [simp]: "frame (shift_and_start s) = frame s"
  by (simp add: shift_and_start_def Let_def)

lemma frame_burst [simp]: "frame (normal_burst s) = frame s"
proof (induction s rule: normal_burst.induct)
  case (1 s)
  then show ?case by (subst normal_burst.simps) auto
qed

lemma frame_schedule [simp]: "frame (schedule now s) = frame s"
proof -
  have "frame (scheduleNextRateLimitWakeup now t) = frame t" for t
    by (simp add: scheduleNextRateLimitWakeup_def)
  then have "frame (scheduleRateLimitLaunch now s) = frame s"
    unfolding scheduleRateLimitLaunch_def Let_def by (auto split: option.splits)
  moreover have "frame (scheduleNormalLaunch s) = frame s"
    by (simp add: scheduleNormalLaunch_def Let_def)
  ultimately show ?thesis by (simp add: schedule_def finishIfComplete_def split: option.splits)
qed

lemma frame_requeue [simp]: "frame (requeueRateLimited ct now x a s) = frame s"
proof -
  have "frame (enterRateLimitMode now t) = frame t" for t
    by (simp add: enterRateLimitMode_def)
  then show ?thesis by (simp add: requeueRateLimited_def Let_def)
qed

lemma frame_step [simp]: "frame (batch_step ct now ev s) = frame s"
proof (cases ev)
  case (BSettled a e)
  have "frame (attempt_outcome ct now x e t) = frame t" for x t
    by (cases e) (simp_all add: attempt_outcome_def Let_def)
  with BSettled show ?thesis by (simp add: handleAttemptSettled_def Let_def split: option.splits)
qed (auto simp: attemptLaunched_def markAttemptReady_def normalTimerFired_def rateTimerFired_def
      batchAbortListener_def taskAborted_def attemptTimedOut_def Let_def split: option.splits)

lemma reach_frame: "batch_reach ct tasks mx s \<Longrightarrow> frame s = (tasks, mx)"
proof (induction rule: batch_reach.induct)
  case (batch_reach_run now signal s)
  have n: "frame (new_batch tasks mx) = (tasks, mx)" by (simp add: frame_def new_batch_def)
  from batch_reach_run n show ?case
    by (auto simp: run_batch_def batchAbortListener_def Let_def split: if_splits option.splits)
qed simp

lemma reach_live: "batch_reach ct tasks mx s \<Longrightarrow> b_outcome s = None \<Longrightarrow> live s"
  using reach_settles [of ct tasks mx s] by (auto simp: settled_state_def done_ok_def)

lemma reach_done: "batch_reach ct tasks mx s \<Longrightarrow> b_outcome s \<noteq> None \<Longrightarrow> done_ok s"
  using reach_settles [of ct tasks mx s] by (auto simp: settled_state_def live_def core_def)

section \<open>Properties\<close>

definition demo_tasks :: "swarm_task list" where
  "demo_tasks = [\<lparr>st_resumeAgentId = None, st_timeout = None\<rparr>, \<lparr>st_resumeAgentId = Some ''r'', st_timeout = None\<rparr>]"

definition demo_batch :: batch where
  "demo_batch = the (run_batch 0 None (new_batch demo_tasks (Some 1)))"

lemma demo_reach: "batch_reach ct demo_tasks (Some 1) demo_batch"
proof (rule batch_reach_run)
  show "run_batch 0 None (new_batch demo_tasks (Some 1)) = Some demo_batch"
    by (simp add: demo_batch_def run_batch_def new_batch_def Let_def demo_tasks_def)
qed

definition demo_done :: batch where
  "demo_done = batch_step (\<lambda>n. 3000) 9 (BSettled 1 (SFailed ''no''))
     (batch_step (\<lambda>n. 3000) 5 (BSettled 0 (SCompleted ''a'' ''ok'')) demo_batch)"

lemma demo_done_reach: "batch_reach (\<lambda>n. 3000) demo_tasks (Some 1) demo_done"
  unfolding demo_done_def by (intro batch_reach_step demo_reach)

lemmas batch_eval = demo_batch_def run_batch_def new_batch_def demo_tasks_def schedule_def finishIfComplete_def
  all_results_def scheduleNormalLaunch_def normal_burst.simps isAtConcurrencyLimit_def shift_and_start_def
  startAttempt_def launch_of_def init_task_state_def INITIAL_LAUNCH_LIMIT_def handleAttemptSettled_def
  find_attempt_def releaseAttempt_def attempt_outcome_def set_result_def batch_finish_def batch_cleanup_def
  failedAttemptOutcome_def attemptErrorMessage_def

lemma demo_batch_open: "b_outcome demo_batch = None" "\<not> b_rateLimitMode demo_batch" "b_pending demo_batch = [1]"
  by (simp_all add: batch_eval Let_def)

lemma demo_done_resolved: "\<exists>rs. b_outcome demo_done = Some (Resolved rs)"
  by (simp add: demo_done_def batch_eval Let_def)

text \<open>
  C9. A batch that resolves has a result for every task, in task order, and each is that task's own:
  whatever the launcher, the timers, the rate limits and the signals do, no result is lost, duplicated or
  attributed to another task.
\<close>
theorem swarm_resolves_all_tasks:
  assumes "batch_reach ct tasks mx s" and "b_outcome s = Some (Resolved rs)"
  shows "map rr_task rs = [0 ..< length tasks]"
  using reach_done [OF assms(1)] reach_frame [OF assms(1)] assms(2) by (simp add: done_ok_def frame_def)

theorem swarm_resolves_all_tasks_witness:
  "\<exists>rs. b_outcome demo_done = Some (Resolved rs) \<and> map rr_task rs = [0 ..< length demo_tasks]"
  using swarm_resolves_all_tasks [OF demo_done_reach] demo_done_resolved by blast

text \<open>
  C10. The scheduler never wedges: as long as the batch is not settled, some attempt is running or a timer
  is armed that will call the scheduler again, provided the concurrency cap is not zero.
\<close>
theorem swarm_never_stuck:
  assumes "batch_reach ct tasks mx s" and "b_outcome s = None" and "mx \<noteq> Some 0"
  shows "\<not> (b_active s = [] \<and> \<not> b_normalTimer s \<and> b_rateTimer s = None)"
  using reach_live [OF assms(1,2)] reach_frame [OF assms(1)] assms(3)
  by (simp add: live_def progress_def frame_def)

theorem swarm_never_stuck_witness:
  "\<not> (b_active demo_batch = [] \<and> \<not> b_normalTimer demo_batch \<and> b_rateTimer demo_batch = None)"
  by (rule swarm_never_stuck [OF demo_reach demo_batch_open(1)]) simp

text \<open>
  While the batch runs, the tasks without a result are exactly the pending and the active ones, each
  of them once: a task is never run twice at the same time, never queued while it runs and never forgotten.
\<close>
lemma swarm_tasks_partition:
  assumes "batch_reach ct tasks mx s" and "b_outcome s = None"
  shows "distinct (b_pending s @ map at_state (b_active s)) \<and>
    set (b_pending s @ map at_state (b_active s)) = {i. i < length tasks \<and> b_results s ! i = None}"
proof -
  have "parts s" "sizes_ok s" using reach_live [OF assms] by (simp_all add: live_def core_def)
  with reach_frame [OF assms(1)] show ?thesis by (auto simp: parts_def sizes_ok_def frame_def)
qed

theorem swarm_tasks_partition_witness:
  "distinct (b_pending demo_batch @ map at_state (b_active demo_batch)) \<and>
    set (b_pending demo_batch @ map at_state (b_active demo_batch)) =
      {i. i < length demo_tasks \<and> b_results demo_batch ! i = None}"
  by (rule swarm_tasks_partition [OF demo_reach demo_batch_open(1)])

text \<open>
  A settled batch is final: nothing runs, no timer is armed, and no later event launches anything,
  suspends anything or changes the outcome.
\<close>
lemma swarm_settled_is_final:
  assumes "batch_reach ct tasks mx s" and "b_outcome s \<noteq> None"
  shows "b_active s = [] \<and> \<not> b_normalTimer s \<and> b_rateTimer s = None \<and>
    b_outcome (batch_step ct now ev s) = b_outcome s \<and> b_launches (batch_step ct now ev s) = b_launches s \<and>
    b_suspended (batch_step ct now ev s) = b_suspended s"
  using reach_done [OF assms] done_frozen [OF reach_done [OF assms]] by (simp add: done_ok_def)

theorem swarm_settled_is_final_witness:
  "b_active demo_done = [] \<and> \<not> b_normalTimer demo_done \<and> b_rateTimer demo_done = None \<and>
    b_outcome (batch_step (\<lambda>n. 3000) 99 BRateTimer demo_done) = b_outcome demo_done \<and>
    b_launches (batch_step (\<lambda>n. 3000) 99 BRateTimer demo_done) = b_launches demo_done \<and>
    b_suspended (batch_step (\<lambda>n. 3000) 99 BRateTimer demo_done) = b_suspended demo_done"
  by (rule swarm_settled_is_final [OF demo_done_reach]) (use demo_done_resolved in auto)

text \<open>
  Every task is spawned or resumed at most once; every further launch of it is a retry of the very
  agent a rate limit suspended. And until a rate limit hits, the number of running attempts never passes
  the concurrency cap.
\<close>
theorem swarm_launch_discipline:
  assumes "batch_reach ct tasks mx s"
  shows "length (filter (fresh i) (b_launches s)) \<le> 1 \<and>
    (LRetry i a \<in> set (b_launches s) \<longrightarrow> (i, a) \<in> set (b_suspended s)) \<and>
    (\<not> b_rateLimitMode s \<longrightarrow> mx = Some m \<longrightarrow> b_outcome s = None \<longrightarrow> length (b_active s) \<le> m)"
proof -
  from reach_settles [OF assms] have "log_ok s" by (auto simp: settled_state_def live_def core_def done_ok_def)
  then have "length (filter (fresh i) (b_launches s)) \<le> 1"
    "LRetry i a \<in> set (b_launches s) \<longrightarrow> (i, a) \<in> set (b_suspended s)" unfolding log_ok_def by blast+
  moreover have "length (b_active s) \<le> m" if "\<not> b_rateLimitMode s" "mx = Some m" "b_outcome s = None"
    using reach_live [OF assms that(3)] reach_frame [OF assms] that
    by (simp add: live_def core_def mode_ok_def within_limit_def frame_def)
  ultimately show ?thesis by blast
qed

theorem swarm_launch_discipline_witness:
  "length (filter (fresh 0) (b_launches demo_batch)) \<le> 1 \<and> length (b_active demo_batch) \<le> 1"
  using swarm_launch_discipline [OF demo_reach, of 0 "''a''" 1] demo_batch_open by simp

end
