(* ===== verification/Civil.thy ===== *)
theory Civil imports Prelude begin

text \<open>
  What the code uses of the JavaScript \<open>Date\<close>: a point of time in milliseconds, read and changed
  through the local calendar. The time zone \<open>tz\<close> gives the local offset in milliseconds at every point of time, so
  it may change (daylight saving), and the calendar is the proleptic Gregorian one of ECMAScript:
  \<open>day_from_year\<close> is its DayFromYear, and the year of a day is the one whose days contain it.
\<close>

section \<open>The calendar\<close>

definition leap_year :: "int \<Rightarrow> bool" where
  "leap_year y \<longleftrightarrow> y mod 4 = 0 \<and> (y mod 100 \<noteq> 0 \<or> y mod 400 = 0)"

definition day_from_year :: "int \<Rightarrow> int" where
  "day_from_year y = 365 * (y - 1970) + (y - 1969) div 4 - (y - 1901) div 100 + (y - 1601) div 400"

definition days_before_month :: "bool \<Rightarrow> nat \<Rightarrow> int" where
  "days_before_month leap m =
     [0, 31, 59, 90, 120, 151, 181, 212, 243, 273, 304, 334] ! m + (if leap \<and> 2 \<le> m then 1 else 0)"

definition month_start :: "int \<Rightarrow> nat \<Rightarrow> int" where
  "month_start y m = day_from_year y + days_before_month (leap_year y) m"

definition year_of_day :: "int \<Rightarrow> int" where
  "year_of_day d =
     (let y = d * 400 div 146097 + 1970 in
      if d < day_from_year y then y - 1 else if day_from_year (y + 1) \<le> d then y + 1 else y)"

definition month_of_day :: "int \<Rightarrow> nat" where
  "month_of_day d = length (filter (\<lambda>m. month_start (year_of_day d) m \<le> d) [1 ..< 12])"

definition date_of_day :: "int \<Rightarrow> int" where
  "date_of_day d = d - month_start (year_of_day d) (month_of_day d) + 1"

text \<open>MakeDay: a month outside \<open>0 \<dots> 11\<close> carries into the year.\<close>

definition make_day :: "int \<Rightarrow> int \<Rightarrow> int \<Rightarrow> int" where
  "make_day y m d = month_start (y + m div 12) (nat (m mod 12)) + d - 1"

section \<open>Dates\<close>

type_synonym zone = "int \<Rightarrow> int"

definition ms_per_day :: int where "ms_per_day = 86400000"

text \<open>
  LocalTime and UTC of ECMAScript. A local time that the clock shows twice, when it is set back, or never, when it is set
  forward, is read with the offset before the change; the offsets a day before and a day after are the
  two that can apply, as a zone does not change twice within two days.
\<close>

definition local_time :: "zone \<Rightarrow> int \<Rightarrow> int" where "local_time tz t = t + tz t"

definition utc_time :: "zone \<Rightarrow> int \<Rightarrow> int" where
  "utc_time tz l =
     (let before = l - tz (l - ms_per_day); after = l - tz (l + ms_per_day) in
      if local_time tz before = l then before else if local_time tz after = l then after else before)"

definition local_day :: "zone \<Rightarrow> int \<Rightarrow> int" where "local_day tz t = local_time tz t div ms_per_day"
definition time_in_day :: "zone \<Rightarrow> int \<Rightarrow> int" where "time_in_day tz t = local_time tz t mod ms_per_day"

definition getMonth :: "zone \<Rightarrow> int \<Rightarrow> nat" where "getMonth tz t = month_of_day (local_day tz t)"
definition getDate :: "zone \<Rightarrow> int \<Rightarrow> nat" where "getDate tz t = nat (date_of_day (local_day tz t))"
definition getDay :: "zone \<Rightarrow> int \<Rightarrow> nat" where "getDay tz t = nat ((local_day tz t + 4) mod 7)"
definition getHours :: "zone \<Rightarrow> int \<Rightarrow> nat" where "getHours tz t = nat (time_in_day tz t div 3600000)"
definition getMinutes :: "zone \<Rightarrow> int \<Rightarrow> nat" where
  "getMinutes tz t = nat (time_in_day tz t div 60000 mod 60)"

text \<open>The setters: hours, minutes, seconds and milliseconds all zero from some position on, or one field
  replaced with carry; the local time that results is turned back into a point of time.\<close>

definition zeroSeconds :: "zone \<Rightarrow> int \<Rightarrow> int" where
  "zeroSeconds tz t = utc_time tz (local_time tz t - local_time tz t mod 60000)"
definition zeroMinutes :: "zone \<Rightarrow> int \<Rightarrow> int" where
  "zeroMinutes tz t = utc_time tz (local_time tz t - local_time tz t mod 3600000)"
definition zeroHours :: "zone \<Rightarrow> int \<Rightarrow> int" where
  "zeroHours tz t = utc_time tz (local_time tz t - local_time tz t mod ms_per_day)"
definition setMinutes :: "zone \<Rightarrow> int \<Rightarrow> int \<Rightarrow> int" where
  "setMinutes tz m t = utc_time tz (local_time tz t + (m - int (getMinutes tz t)) * 60000)"
definition setHours :: "zone \<Rightarrow> int \<Rightarrow> int \<Rightarrow> int" where
  "setHours tz h t = utc_time tz (local_time tz t + (h - int (getHours tz t)) * 3600000)"
definition setDate :: "zone \<Rightarrow> int \<Rightarrow> int \<Rightarrow> int" where
  "setDate tz d t = utc_time tz (local_time tz t + (d - int (getDate tz t)) * ms_per_day)"
definition setMonth :: "zone \<Rightarrow> int \<Rightarrow> int \<Rightarrow> int" where
  "setMonth tz m t =
     utc_time tz (make_day (year_of_day (local_day tz t)) m (int (getDate tz t)) * ms_per_day + time_in_day tz t)"

text \<open>A zone that never changes.\<close>

definition fixed :: "int \<Rightarrow> zone" where "fixed z = (\<lambda>_. z)"

lemma local_time_fixed [simp]: "local_time (fixed z) t = t + z"
  by (simp add: local_time_def fixed_def)

lemma utc_time_fixed [simp]: "utc_time (fixed z) l = l - z"
  by (simp add: utc_time_def Let_def fixed_def local_time_def)

lemma local_day_fixed: "local_day (fixed z) t = (t + z) div ms_per_day"
  by (simp add: local_day_def)

lemma time_in_day_fixed: "time_in_day (fixed z) t = (t + z) mod ms_per_day"
  by (simp add: time_in_day_def)

lemma zero_fixed:
  "zeroSeconds (fixed z) t = t - (t + z) mod 60000" "zeroMinutes (fixed z) t = t - (t + z) mod 3600000"
  "zeroHours (fixed z) t = t - (t + z) mod ms_per_day"
  by (simp_all add: zeroSeconds_def zeroMinutes_def zeroHours_def)

lemma set_fixed:
  "setMinutes (fixed z) m t = t + (m - int (getMinutes (fixed z) t)) * 60000"
  "setHours (fixed z) m t = t + (m - int (getHours (fixed z) t)) * 3600000"
  "setDate (fixed z) m t = t + (m - int (getDate (fixed z) t)) * ms_per_day"
  "setMonth (fixed z) m t =
     make_day (year_of_day (local_day (fixed z) t)) m (int (getDate (fixed z) t)) * ms_per_day + time_in_day (fixed z) t - z"
  by (simp_all add: setMinutes_def setHours_def setDate_def setMonth_def)

section \<open>The year and the month of a day\<close>

lemma div_bounds:
  fixes x k :: int
  assumes "0 < k"
  shows "k * (x div k) \<le> x" "x < k * (x div k) + k"
proof -
  have "x = k * (x div k) + x mod k" "0 \<le> x mod k" "x mod k < k" using assms by simp_all
  then show "k * (x div k) \<le> x" "x < k * (x div k) + k" by linarith+
qed

text \<open>The days before a year are within two days of its share of the 400-year cycle.\<close>

lemma day_from_year_approx:
  "146097 * (y - 1970) - 600 < 400 * day_from_year y" "400 * day_from_year y < 146097 * (y - 1970) + 600"
proof -
  obtain a where a: "(y - 1969) div 4 = a" by blast
  obtain b where b: "(y - 1901) div 100 = b" by blast
  obtain c where c: "(y - 1601) div 400 = c" by blast
  have A: "4 * a \<le> y - 1969" "y - 1969 < 4 * a + 4" using div_bounds[of 4 "y - 1969"] by (simp_all add: a)
  have B: "100 * b \<le> y - 1901" "y - 1901 < 100 * b + 100"
    using div_bounds[of 100 "y - 1901"] by (simp_all add: b)
  have C: "400 * c \<le> y - 1601" "y - 1601 < 400 * c + 400"
    using div_bounds[of 400 "y - 1601"] by (simp_all add: c)
  show "146097 * (y - 1970) - 600 < 400 * day_from_year y"
    "400 * day_from_year y < 146097 * (y - 1970) + 600"
    unfolding day_from_year_def a b c using A B C by (simp_all add: algebra_simps)
qed

lemma year_of_day_bounds:
  "day_from_year (year_of_day d) \<le> d" "d < day_from_year (year_of_day d + 1)"
proof -
  define y where "y = d * 400 div 146097 + 1970"
  have e: "146097 * (y - 1970) \<le> d * 400" "d * 400 < 146097 * (y - 1970) + 146097"
    using div_bounds[of 146097 "d * 400"] by (simp_all add: y_def)
  have lo: "day_from_year (y - 1) \<le> d"
    using e day_from_year_approx(2)[of "y - 1"] by (simp add: algebra_simps)
  have hi: "d < day_from_year (y + 1 + 1)"
    using e day_from_year_approx(1)[of "y + 1 + 1"] by (simp add: algebra_simps)
  show "day_from_year (year_of_day d) \<le> d" "d < day_from_year (year_of_day d + 1)"
    using lo hi by (auto simp: year_of_day_def Let_def y_def[symmetric])
qed

lemma div_next:
  fixes x k :: int
  assumes k: "1 < k"
  shows "(x + 1) div k = x div k + (if (x + 1) mod k = 0 then 1 else 0)"
proof -
  have e: "x + 1 = k * (x div k) + (x mod k + 1)" by simp
  have b: "0 \<le> x mod k" "x mod k < k" using k by simp_all
  show ?thesis
  proof (cases "x mod k + 1 = k")
    case True
    then have "x + 1 = k * (x div k + 1)" using e by (simp add: distrib_left)
    then show ?thesis using k by simp
  next
    case False
    then have "(x + 1) div k = x div k" "(x + 1) mod k = x mod k + 1"
      using int_div_pos_eq[OF e] int_mod_pos_eq[OF e] b by simp_all
    then show ?thesis using b by simp
  qed
qed

lemma mod_shift: "(y - k * c) mod k = y mod (k :: int)"
  using mod_mult_self1[of y "- c" k] by (simp add: mult.commute)

lemma leap_arith:
  assumes "r \<Longrightarrow> q" "q \<Longrightarrow> p"
  shows "365 * (y + 1 - 1970) + (A + (if p then 1 else 0)) - (B + (if q then 1 else 0)) + (C + (if r then 1 else 0)) =
    365 * (y - 1970) + A - B + C + (if p \<and> (\<not> q \<or> r) then 366 else 365 :: int)"
proof -
  have e: "365 * (y + 1 - 1970) = 365 * (y - 1970) + (365 :: int)" by simp
  show ?thesis using assms unfolding e by (cases p; cases q; cases r; simp)
qed

lemma day_from_year_step: "day_from_year (y + 1) = day_from_year y + (if leap_year y then 366 else 365)"
proof -
  have a: "(y - 1968) div 4 = (y - 1969) div 4 + (if y mod 4 = 0 then 1 else 0)"
    using div_next[of 4 "y - 1969"] mod_shift[of y 4 492] by simp
  have b: "(y - 1900) div 100 = (y - 1901) div 100 + (if y mod 100 = 0 then 1 else 0)"
    using div_next[of 100 "y - 1901"] mod_shift[of y 100 19] by simp
  have c: "(y - 1600) div 400 = (y - 1601) div 400 + (if y mod 400 = 0 then 1 else 0)"
    using div_next[of 400 "y - 1601"] mod_shift[of y 400 4] by simp
  have d: "y mod 400 = 0 \<Longrightarrow> y mod 100 = 0" "y mod 100 = 0 \<Longrightarrow> y mod 4 = 0"
    using mod_mod_cancel[of 100 400 y] mod_mod_cancel[of 4 100 y] by simp_all
  have e: "y + 1 - 1969 = y - 1968" "y + 1 - 1901 = y - 1900" "y + 1 - 1601 = y - 1600" by simp_all
  show ?thesis unfolding day_from_year_def e a b c leap_year_def using d by (rule leap_arith)
qed

lemma leap_year_len: "month_start y 0 = day_from_year y"
  by (simp add: month_start_def days_before_month_def)

lemma day_from_year_mono: "y \<le> z \<Longrightarrow> day_from_year y \<le> day_from_year z"
proof (induction "nat (z - y)" arbitrary: z)
  case (Suc n)
  then have "day_from_year y \<le> day_from_year (z - 1)" by simp
  also have "\<dots> \<le> day_from_year z" using day_from_year_step[of "z - 1"] by (simp split: if_splits)
  finally show ?case .
qed simp

lemma year_of_dayI: "day_from_year y \<le> d \<Longrightarrow> d < day_from_year (y + 1) \<Longrightarrow> year_of_day d = y"
  using year_of_day_bounds[of d] day_from_year_mono[of "y + 1" "year_of_day d"]
    day_from_year_mono[of "year_of_day d + 1" y] by linarith

text \<open>The first day of the month after a month of a year.\<close>

definition next_month :: "int \<Rightarrow> nat \<Rightarrow> int" where
  "next_month y m = (if m = 11 then day_from_year (y + 1) else month_start y (m + 1))"

lemma months_cases:
  "m < (12 :: nat) \<Longrightarrow>
     m = 0 \<or> m = 1 \<or> m = 2 \<or> m = 3 \<or> m = 4 \<or> m = 5 \<or> m = 6 \<or> m = 7 \<or> m = 8 \<or> m = 9 \<or> m = 10 \<or> m = 11"
  by (auto simp: numeral_eq_Suc less_Suc_eq)

lemmas month_defs = next_month_def month_start_def days_before_month_def

lemma month_in_year:
  assumes "m < 12" "month_start y m \<le> d" "d < next_month y m"
  shows "day_from_year y \<le> d \<and> d < day_from_year (y + 1)"
  using months_cases[OF assms(1)] assms(2,3) day_from_year_step[of y]
  by (elim disjE) (simp_all add: month_defs split: if_splits)

lemma month_start_Suc: "m < 11 \<Longrightarrow> month_start y m \<le> month_start y (m + 1)"
  using months_cases[of m] by (auto simp: month_start_def days_before_month_def)

lemma month_start_mono: "m \<le> k \<Longrightarrow> k < 12 \<Longrightarrow> month_start y m \<le> month_start y k"
proof (induction k)
  case (Suc k)
  then show ?case using month_start_Suc[of k y] by (cases "m = Suc k") auto
qed simp

lemma month_of_dayI:
  assumes "m < 12" "month_start y m \<le> d" "d < next_month y m"
  shows "month_of_day d = m" "year_of_day d = y"
proof -
  show y: "year_of_day d = y" using month_in_year[OF assms] by (blast intro: year_of_dayI)
  have "month_start y k \<le> d \<longleftrightarrow> k \<le> m" if "k < 12" for k
  proof (cases "k \<le> m")
    case True then show ?thesis using month_start_mono[of k m y] assms by simp
  next
    case False
    then show ?thesis using month_start_mono[of "m + 1" k y] assms that by (simp add: next_month_def)
  qed
  then have "filter (\<lambda>k. month_start y k \<le> d) [1 ..< 12] = filter (\<lambda>k. k \<le> m) [1 ..< 12]"
    by (intro filter_cong) auto
  also have "\<dots> = [1 ..< m + 1]"
  proof -
    have "[1 ..< 12] = [1 ..< m + 1] @ [m + 1 ..< 12]"
      using upt_add_eq_append[of 1 "m + 1" "11 - m"] assms(1) by simp
    then show ?thesis by (simp add: filter_empty_conv)
  qed
  finally show "month_of_day d = m" by (simp add: month_of_day_def y)
qed

text \<open>Every day lies in a month.\<close>

lemma month_exists:
  obtains m where "m < 12" "month_start (year_of_day d) m \<le> d" "d < next_month (year_of_day d) m"
proof -
  define y where "y = year_of_day d"
  have b: "day_from_year y \<le> d" "d < day_from_year (y + 1)"
    using year_of_day_bounds[of d] by (simp_all add: y_def)
  define m where "m = (GREATEST m. m < 12 \<and> month_start y m \<le> d)"
  have "\<exists>m. m < 12 \<and> month_start y m \<le> d"
    using b by (intro exI[of _ 0]) (simp add: leap_year_len)
  then have m: "m < 12 \<and> month_start y m \<le> d"
    unfolding m_def by (rule GreatestI_ex_nat[where b = 12]) simp
  have "d < next_month y m"
  proof (cases "m = 11")
    case True then show ?thesis using b by (simp add: next_month_def)
  next
    case False
    then have "\<not> (m + 1 < 12 \<and> month_start y (m + 1) \<le> d)"
      using Greatest_le_nat[of "\<lambda>m. m < 12 \<and> month_start y m \<le> d" "m + 1" 12] by (auto simp: m_def[symmetric])
    then show ?thesis using False m by (simp add: next_month_def)
  qed
  then show ?thesis using that[of m] m by (simp add: y_def)
qed

lemma month_of_day_bounds:
  "month_of_day d < 12" "month_start (year_of_day d) (month_of_day d) \<le> d"
  "d < next_month (year_of_day d) (month_of_day d)"
proof -
  obtain m where m: "m < 12" "month_start (year_of_day d) m \<le> d" "d < next_month (year_of_day d) m"
    by (rule month_exists)
  moreover have "month_of_day d = m" using month_of_dayI(1)[OF m] .
  ultimately show "month_of_day d < 12" "month_start (year_of_day d) (month_of_day d) \<le> d"
    "d < next_month (year_of_day d) (month_of_day d)" by simp_all
qed

lemma date_of_day_bounds: "1 \<le> date_of_day d" "date_of_day d \<le> 31"
proof -
  show "1 \<le> date_of_day d" using month_of_day_bounds(2)[of d] by (simp add: date_of_day_def)
  show "date_of_day d \<le> 31"
    using months_cases[OF month_of_day_bounds(1)[of d]] month_of_day_bounds(3)[of d]
      day_from_year_step[of "year_of_day d"]
    by (elim disjE) (simp_all add: month_defs date_of_day_def split: if_splits)
qed

text \<open>The calendar round trip: a day is made from its year, month and date.\<close>

lemma make_day_of_day:
  "make_day (year_of_day d) (int (month_of_day d)) (date_of_day d) = d"
  using month_of_day_bounds(1)[of d] by (simp add: make_day_def date_of_day_def)

lemma make_day_next_month:
  "m < 12 \<Longrightarrow> make_day y (int m + 1) 1 = next_month y m"
  by (cases "m = 11") (simp_all add: make_day_def next_month_def leap_year_len nat_add_distrib)

end
