(* ===== verification/Cron.thy ===== *)
theory Cron imports Civil begin

text \<open>
  Cron expressions: \<^verbatim>\<open>app/cron/cron-expr.ts\<close>. The sets of a parsed expression are insertion-ordered
  lists without duplicates, errors carry the values their messages are made of, and times are integers
  in milliseconds under a time zone \<open>tz\<close> of theory \<open>Civil\<close>.
\<close>

section \<open>Data\<close>

record cron =
  raw :: string
  minutes :: "nat list"
  hours :: "nat list"
  daysOfMonth :: "nat list"
  months :: "nat list"
  daysOfWeek :: "nat list"
  daysOfMonthWildcard :: bool
  daysOfWeekWildcard :: bool

datatype cron_error =
    ExprEmpty
  | FieldCount nat
  | FieldEmpty string
  | TermEmpty string
  | NoValues string
  | NotDigits string string string  \<comment> \<open>field, role, text\<close>
  | StepEmpty string string
  | StepNotPositive string string
  | StepWithoutRange string string
  | ValueOutOfRange string nat nat nat
  | RangeOutOfBounds string nat nat nat nat

definition MINUTE_RANGE :: "nat \<times> nat" where "MINUTE_RANGE = (0, 59)"
definition HOUR_RANGE :: "nat \<times> nat" where "HOUR_RANGE = (0, 23)"
definition DOM_RANGE :: "nat \<times> nat" where "DOM_RANGE = (1, 31)"
definition MONTH_RANGE :: "nat \<times> nat" where "MONTH_RANGE = (1, 12)"
definition DOW_RANGE :: "nat \<times> nat" where "DOW_RANGE = (0, 7)"
definition MS_PER_MINUTE :: int where "MS_PER_MINUTE = 60000"

section \<open>Splitting\<close>

text \<open>\<open>s.split(c)\<close>, \<open>s.split(/\<section>+/)\<close> on a string without outer white space, and \<open>s.indexOf(c)\<close> with the
  two slices around it.\<close>

fun split_char :: "char \<Rightarrow> string \<Rightarrow> string list" where
  "split_char c [] = [[]]"
| "split_char c (x # xs) =
     (if x = c then [] # split_char c xs
      else case split_char c xs of [] \<Rightarrow> [[x]] | w # ws \<Rightarrow> (x # w) # ws)"

fun split_spaces :: "string \<Rightarrow> string list" where
  "split_spaces [] = [[]]"
| "split_spaces [x] = (if js_space x then [[], []] else [[x]])"
| "split_spaces (x # y # xs) =
     (if js_space x then (if js_space y then split_spaces (y # xs) else [] # split_spaces (y # xs))
      else case split_spaces (y # xs) of [] \<Rightarrow> [[x]] | w # ws \<Rightarrow> (x # w) # ws)"

definition cut_at :: "char \<Rightarrow> string \<Rightarrow> (string \<times> string) option" where
  "cut_at c s =
     (if c \<in> set s then Some (takeWhile (\<lambda>x. x \<noteq> c) s, tl (dropWhile (\<lambda>x. x \<noteq> c) s)) else None)"

section \<open>Parsing\<close>

definition isWildcard :: "string \<Rightarrow> bool" where
  "isWildcard field \<longleftrightarrow> field = ''*''"

definition DIGIT_ONLY :: "string \<Rightarrow> bool" where
  "DIGIT_ONLY s \<longleftrightarrow> s \<noteq> [] \<and> list_all is_digit s"

definition parseCronInt :: "string \<Rightarrow> string \<Rightarrow> string \<Rightarrow> cron_error + nat" where
  "parseCronInt s name role' = (if DIGIT_ONLY s then Inr (read_nat s) else Inl (NotDigits name role' s))"

text \<open>\<open>for (v = lo; v <= hi; v += step) out.add(v)\<close>; the callers' step is positive.\<close>

function add_range :: "nat \<Rightarrow> nat \<Rightarrow> nat \<Rightarrow> nat list \<Rightarrow> nat list" where
  "add_range v hi step out =
     (if v \<le> hi \<and> 0 < step then add_range (v + step) hi step (os_add v out) else out)"
  by auto
termination by (relation "measure (\<lambda>(v, hi, step, out). hi + 1 - v)") auto

declare add_range.simps [simp del]

text \<open>The part of a term before the slash, and its step.\<close>

definition term_step :: "string \<Rightarrow> string \<Rightarrow> cron_error + (string \<times> nat option)" where
  "term_step t name =
     (case cut_at CHR ''/'' t of
        None \<Rightarrow> Inr (t, None)
      | Some (rangePart, stepStr) \<Rightarrow>
          if stepStr = [] then Inl (StepEmpty name t)
          else ebind (parseCronInt stepStr name ''step'') (\<lambda>step.
            if step = 0 then Inl (StepNotPositive name stepStr)
            else if rangePart = [] then Inl (StepWithoutRange name t)
            else Inr (rangePart, Some step)))"

text \<open>The values a term without its step stands for; a single value with a step extends to the maximum.\<close>

definition term_range :: "string \<Rightarrow> bool \<Rightarrow> nat \<Rightarrow> nat \<Rightarrow> string \<Rightarrow> cron_error + (nat \<times> nat)" where
  "term_range rangePart stepped lowest highest name =
     (if rangePart = ''*'' then Inr (lowest, highest)
      else case cut_at CHR ''-'' rangePart of
        None \<Rightarrow> ebind (parseCronInt rangePart name ''value'') (\<lambda>v.
            if v < lowest \<or> highest < v then Inl (ValueOutOfRange name v lowest highest)
            else Inr (v, if stepped then highest else v))
      | Some (loStr, hiStr) \<Rightarrow>
          ebind (parseCronInt loStr name ''range lower bound'') (\<lambda>lo.
          ebind (parseCronInt hiStr name ''range upper bound'') (\<lambda>hi.
            if lo < lowest \<or> highest < hi \<or> hi < lo
            then Inl (RangeOutOfBounds name lo hi lowest highest) else Inr (lo, hi))))"

definition addTerm :: "nat list \<Rightarrow> string \<Rightarrow> nat \<Rightarrow> nat \<Rightarrow> string \<Rightarrow> cron_error + nat list" where
  "addTerm out t lowest highest name =
     ebind (term_step t name) (\<lambda>(rangePart, step).
     ebind (term_range rangePart (step \<noteq> None) lowest highest name) (\<lambda>(lo, hi).
       Inr (add_range lo hi (case step of None \<Rightarrow> 1 | Some n \<Rightarrow> n) out)))"

definition parseField :: "string \<Rightarrow> nat \<times> nat \<Rightarrow> string \<Rightarrow> cron_error + nat list" where
  "parseField field r name =
     (if field = [] then Inl (FieldEmpty name)
      else ebind (efold (\<lambda>t out. if t = [] then Inl (TermEmpty name)
                                 else addTerm out t (fst r) (snd r) name)
                  (split_char CHR '','' field) [])
             (\<lambda>out. if out = [] then Inl (NoValues name) else Inr out))"

definition fold_sunday :: "nat list \<Rightarrow> nat list" where
  "fold_sunday dowRaw = fold (\<lambda>v out. os_add (if v = 7 then 0 else v) out) dowRaw []"

definition parse_fields :: "string \<Rightarrow> string \<Rightarrow> string \<Rightarrow> string \<Rightarrow> string \<Rightarrow> string \<Rightarrow> cron_error + cron" where
  "parse_fields trimmed minField hourField domField monthField dowField =
     ebind (parseField minField MINUTE_RANGE ''minute'') (\<lambda>mins.
     ebind (parseField hourField HOUR_RANGE ''hour'') (\<lambda>hrs.
     ebind (parseField domField DOM_RANGE ''day-of-month'') (\<lambda>doms.
     ebind (parseField monthField MONTH_RANGE ''month'') (\<lambda>mons.
     ebind (parseField dowField DOW_RANGE ''day-of-week'') (\<lambda>dowRaw.
       Inr \<lparr>raw = trimmed, minutes = mins, hours = hrs, daysOfMonth = doms, months = mons,
            daysOfWeek = fold_sunday dowRaw, daysOfMonthWildcard = isWildcard domField,
            daysOfWeekWildcard = isWildcard dowField\<rparr>)))))"

definition parseCronExpression :: "string \<Rightarrow> cron_error + cron" where
  "parseCronExpression expr =
     (let trimmed = js_trim expr in
      if trimmed = [] then Inl ExprEmpty
      else case split_spaces trimmed of
        [a, b, c, d, e] \<Rightarrow> parse_fields trimmed a b c d e
      | parts \<Rightarrow> Inl (FieldCount (length parts)))"

section \<open>The next run\<close>

definition dayMatches :: "zone \<Rightarrow> cron \<Rightarrow> int \<Rightarrow> bool" where
  "dayMatches tz e t =
     (let domOk = getDate tz t \<in> set (daysOfMonth e);
          dowOk = getDay tz t \<in> set (daysOfWeek e)
      in if daysOfMonthWildcard e \<and> daysOfWeekWildcard e then True
         else if daysOfMonthWildcard e then dowOk
         else if daysOfWeekWildcard e then domOk
         else domOk \<or> dowOk)"

definition advanceMonth :: "zone \<Rightarrow> int \<Rightarrow> int" where
  "advanceMonth tz t =
     (let t1 = zeroHours tz (setDate tz 1 t) in setMonth tz (int (getMonth tz t1) + 1) t1)"

definition advanceDay :: "zone \<Rightarrow> int \<Rightarrow> int" where
  "advanceDay tz t = (let t1 = zeroHours tz t in setDate tz (int (getDate tz t1) + 1) t1)"

definition advanceHour :: "zone \<Rightarrow> int \<Rightarrow> int" where
  "advanceHour tz t = (let t1 = zeroMinutes tz t in setHours tz (int (getHours tz t1) + 1) t1)"

definition advanceMinute :: "zone \<Rightarrow> int \<Rightarrow> int" where
  "advanceMinute tz t = (let t1 = zeroSeconds tz t in setMinutes tz (int (getMinutes tz t1) + 1) t1)"

text \<open>The loop, with the iterations left under the hard cap.\<close>

function scan_runs :: "zone \<Rightarrow> cron \<Rightarrow> int \<Rightarrow> nat \<Rightarrow> int \<Rightarrow> int option" where
  "scan_runs tz e deadline left t =
     (if t \<le> deadline \<and> left \<noteq> 0 then
        if getMonth tz t + 1 \<notin> set (months e) then scan_runs tz e deadline (left - 1) (advanceMonth tz t)
        else if \<not> dayMatches tz e t then scan_runs tz e deadline (left - 1) (advanceDay tz t)
        else if getHours tz t \<notin> set (hours e) then scan_runs tz e deadline (left - 1) (advanceHour tz t)
        else if getMinutes tz t \<notin> set (minutes e) then scan_runs tz e deadline (left - 1) (advanceMinute tz t)
        else Some t
      else None)"
  by auto
termination by (relation "measure (\<lambda>(tz, e, deadline, left, t). left)") auto

declare scan_runs.simps [simp del]

definition HARD_ITERATION_CAP :: nat where "HARD_ITERATION_CAP = 10000000"

definition nextRunWithinMinutes :: "zone \<Rightarrow> cron \<Rightarrow> int \<Rightarrow> int \<Rightarrow> int option" where
  "nextRunWithinMinutes tz e fromMs capMinutes =
     scan_runs tz e (fromMs + capMinutes * MS_PER_MINUTE) HARD_ITERATION_CAP
       (zeroSeconds tz fromMs + MS_PER_MINUTE)"

definition computeNextCronRun :: "zone \<Rightarrow> cron \<Rightarrow> int \<Rightarrow> int option" where
  "computeNextCronRun tz e fromMs = nextRunWithinMinutes tz e fromMs (5 * 366 * 24 * 60)"

definition hasFireWithinYears :: "zone \<Rightarrow> cron \<Rightarrow> int \<Rightarrow> int \<Rightarrow> bool" where
  "hasFireWithinYears tz e years fromMs \<longleftrightarrow>
     nextRunWithinMinutes tz e fromMs (max 1 (years * 366 * 24 * 60)) \<noteq> None"

section \<open>Descriptions\<close>

definition MONTH_NAMES :: "string list" where
  "MONTH_NAMES = [''January'', ''February'', ''March'', ''April'', ''May'', ''June'', ''July'', ''August'',
     ''September'', ''October'', ''November'', ''December'']"

definition DAY_NAMES :: "string list" where
  "DAY_NAMES = [''Sunday'', ''Monday'', ''Tuesday'', ''Wednesday'', ''Thursday'', ''Friday'', ''Saturday'']"

definition isFullRange :: "nat list \<Rightarrow> nat \<Rightarrow> nat \<Rightarrow> bool" where
  "isFullRange s lo hi \<longleftrightarrow> length s = hi - lo + 1 \<and> list_all (\<lambda>v. v \<in> set s) [lo ..< hi + 1]"

text \<open>The expected value after walking the sorted values, if they form a progression.\<close>

fun walk_step :: "nat \<Rightarrow> nat \<Rightarrow> nat list \<Rightarrow> nat option" where
  "walk_step step expected [] = Some expected"
| "walk_step step expected (v # vs) = (if v \<noteq> expected then None else walk_step step (expected + step) vs)"

definition detectStep :: "nat list \<Rightarrow> nat \<Rightarrow> nat \<Rightarrow> nat option" where
  "detectStep s lo hi =
     (case sort s of
        v0 # v1 # vs \<Rightarrow>
          if v0 \<noteq> lo then None
          else if v1 \<le> v0 then None
          else (case walk_step (v1 - v0) lo (v0 # v1 # vs) of
                  None \<Rightarrow> None
                | Some expected \<Rightarrow> if hi < expected - (v1 - v0) then None else Some (v1 - v0))
      | _ \<Rightarrow> None)"

definition formatDows :: "nat list \<Rightarrow> string option" where
  "formatDows s =
     (let values = sort s in
      if values = [] then None
      else if length values = 5 \<and> list_all (\<lambda>(i, v). v = i + 1) (zip [0 ..< 5] values) then Some ''weekdays''
      else if length values = 2 \<and> values ! 0 = 0 \<and> values ! 1 = 6 then Some ''weekends''
      else Some (js_join '', '' (map (\<lambda>v. DAY_NAMES ! v) values)))"

definition pad :: "nat \<Rightarrow> string" where
  "pad n = (if n < 10 then CHR ''0'' # show_nat n else show_nat n)"

text \<open>The cascade of \<open>cronToHuman\<close>, one definition per block that may return.\<close>

definition human_minutes :: "cron \<Rightarrow> string option" where
  "human_minutes e =
     (case detectStep (minutes e) 0 59 of
        Some step \<Rightarrow> if 1 < step then Some (''every '' @ show_nat step @ '' minutes'')
                     else if isFullRange (minutes e) 0 59 then Some ''every minute'' else None
      | None \<Rightarrow>
          if isFullRange (minutes e) 0 59 then Some ''every minute''
          else if length (minutes e) = 1
          then Some (''at minute '' @ show_nat (hd (minutes e)) @ '' of every hour'') else None)"

definition human_hours :: "cron \<Rightarrow> string option" where
  "human_hours e =
     (case detectStep (hours e) 0 23 of
        Some step \<Rightarrow>
          if 1 < step then Some (''every '' @ show_nat step @ '' hours at minute '' @ pad (hd (minutes e))) else None
      | None \<Rightarrow> None)"

definition human_time :: "cron \<Rightarrow> string" where
  "human_time e = ''at '' @ pad (hd (hours e)) @ '':'' @ pad (hd (minutes e))"

definition human_days :: "cron \<Rightarrow> string option" where
  "human_days e =
     (if daysOfWeekWildcard e then Some (human_time e @ '' every day'')
      else map_option (\<lambda>d. human_time e @ '' on '' @ d) (formatDows (daysOfWeek e)))"

definition or_else :: "'a option \<Rightarrow> 'a option \<Rightarrow> 'a option" where
  "or_else a b = (case a of Some _ \<Rightarrow> a | None \<Rightarrow> b)"

definition cronToHuman :: "cron \<Rightarrow> string" where
  "cronToHuman e =
     (let allHour = isFullRange (hours e) 0 23;
          allDom = daysOfMonthWildcard e;
          allMonth = isFullRange (months e) 1 12;
          allDow = daysOfWeekWildcard e;
          oneMin = length (minutes e) = 1;
          oneHour = length (hours e) = 1
      in case or_else (if allHour \<and> allDom \<and> allMonth \<and> allDow then human_minutes e else None)
          (or_else (if oneMin \<and> allDom \<and> allMonth \<and> allDow then human_hours e else None)
          (or_else (if oneMin \<and> oneHour \<and> allDom \<and> allMonth then human_days e else None)
            (if oneMin \<and> oneHour \<and> length (daysOfMonth e) = 1 \<and> \<not> daysOfMonthWildcard e \<and>
                length (months e) = 1 \<and> allDow
             then Some (human_time e @ '' on day '' @ show_nat (hd (daysOfMonth e)) @ '' of '' @
                        MONTH_NAMES ! (hd (months e) - 1))
             else None)))
         of Some text \<Rightarrow> text | None \<Rightarrow> raw e)"

end
