(* ===== verification/Cron_Proofs.thy ===== *)
theory Cron_Proofs imports Cron begin

text \<open>
  The cron parser against a grammar of field terms, and the search for the next run against the set of
  all fire times.
\<close>

section \<open>Moving through the calendar\<close>

lemma local_day_of: "0 \<le> r \<Longrightarrow> r < ms_per_day \<Longrightarrow> local_day (fixed tz) (d * ms_per_day + r - tz) = d"
  by (simp add: local_day_fixed ms_per_day_def)

lemma time_in_day_of: "0 \<le> r \<Longrightarrow> r < ms_per_day \<Longrightarrow> time_in_day (fixed tz) (d * ms_per_day + r - tz) = r"
  by (simp add: time_in_day_fixed ms_per_day_def)

lemma time_in_day_bounds: "0 \<le> time_in_day (fixed tz) t" "time_in_day (fixed tz) t < ms_per_day"
  by (simp_all add: time_in_day_fixed ms_per_day_def)

lemma date_split: "t = local_day (fixed tz) t * ms_per_day + time_in_day (fixed tz) t - tz"
  by (simp add: local_day_fixed time_in_day_fixed)

lemma getDate_int [simp]: "int (getDate (fixed tz) t) = date_of_day (local_day (fixed tz) t)"
  using date_of_day_bounds[of "local_day (fixed tz) t"] by (simp add: getDate_def)

lemma zeroHours_eq: "zeroHours (fixed tz) t = local_day (fixed tz) t * ms_per_day - tz"
proof -
  have "t + tz - (t + tz) mod ms_per_day = (t + tz) div ms_per_day * ms_per_day"
    by (simp add: minus_mod_eq_div_mult)
  then show ?thesis unfolding zero_fixed local_day_fixed by linarith
qed

lemma local_day_zeroHours [simp]: "local_day (fixed tz) (zeroHours (fixed tz) t) = local_day (fixed tz) t"
  using local_day_of[of 0 tz "local_day (fixed tz) t"] by (simp add: zeroHours_eq ms_per_day_def)

lemma local_day_add: "local_day (fixed tz) (t + k * ms_per_day) = local_day (fixed tz) t + k"
  by (simp add: local_day_fixed ms_per_day_def add.commute add.left_commute)

lemma advanceDay_eq: "advanceDay (fixed tz) t = (local_day (fixed tz) t + 1) * ms_per_day - tz"
  by (simp add: advanceDay_def set_fixed zeroHours_eq local_day_of[where r = 0, simplified] ms_per_day_def
      distrib_right)

lemma advanceHour_eq: "advanceHour (fixed tz) t = zeroMinutes (fixed tz) t + 3600000"
  by (simp add: advanceHour_def set_fixed)

lemma advanceMinute_eq: "advanceMinute (fixed tz) t = zeroSeconds (fixed tz) t + 60000"
  by (simp add: advanceMinute_def set_fixed)

lemma first_of_month: "local_day (fixed tz) (setDate (fixed tz) 1 t) =
    month_start (year_of_day (local_day (fixed tz) t)) (month_of_day (local_day (fixed tz) t))"
  using local_day_add[of tz t "1 - date_of_day (local_day (fixed tz) t)"]
  by (simp add: set_fixed date_of_day_def)

lemma next_month_gt: "m < 12 \<Longrightarrow> month_start y m < next_month y m"
  using months_cases[of m] day_from_year_step[of y]
  by (auto simp: month_defs split: if_splits)

lemma advanceMonth_eq:
  "advanceMonth (fixed tz) t =
     next_month (year_of_day (local_day (fixed tz) t)) (month_of_day (local_day (fixed tz) t)) * ms_per_day - tz"
proof -
  define y where "y = year_of_day (local_day (fixed tz) t)"
  define m where "m = month_of_day (local_day (fixed tz) t)"
  define t1 where "t1 = zeroHours (fixed tz) (setDate (fixed tz) 1 t)"
  have m: "m < 12" using month_of_day_bounds(1) by (simp add: m_def)
  have d: "local_day (fixed tz) t1 = month_start y m" by (simp add: t1_def first_of_month y_def m_def)
  have ym: "month_of_day (month_start y m) = m" "year_of_day (month_start y m) = y"
    using month_of_dayI[OF m, of y "month_start y m"] next_month_gt[OF m, of y] by simp_all
  have "t1 = month_start y m * ms_per_day - tz"
    by (simp add: t1_def zeroHours_eq first_of_month y_def m_def)
  then have z: "time_in_day (fixed tz) t1 = 0" using time_in_day_of[of 0 tz] by (simp add: ms_per_day_def)
  have "date_of_day (month_start y m) = 1" by (simp add: date_of_day_def ym)
  then have "setMonth (fixed tz) (int (getMonth (fixed tz) t1) + 1) t1 = next_month y m * ms_per_day - tz"
    using make_day_next_month[OF m, of y] by (simp add: set_fixed getMonth_def d ym z add.commute)
  then show ?thesis by (simp add: advanceMonth_def Let_def t1_def y_def m_def)
qed

section \<open>What stays the same until the advanced time\<close>

lemma div_between:
  fixes k L L' :: int
  assumes "0 < k" "L \<le> L'" "L' < (L div k + 1) * k"
  shows "L' div k = L div k"
proof -
  have "L div k \<le> L' div k" using assms by (simp add: zdiv_mono1)
  moreover have "k * (L' div k) < k * (L div k + 1)"
    using div_bounds(1)[OF assms(1), of L'] assms(3) by (simp add: mult.commute)
  then have "L' div k < L div k + 1" using assms(1) by (simp add: mult_less_cancel_left)
  ultimately show ?thesis by simp
qed

lemma same_day: "t \<le> t' \<Longrightarrow> t' < advanceDay (fixed tz) t \<Longrightarrow> local_day (fixed tz) t' = local_day (fixed tz) t"
  unfolding local_day_fixed advanceDay_eq
  by (rule div_between) (simp_all add: ms_per_day_def)

lemma same_month:
  assumes "t \<le> t'" "t' < advanceMonth (fixed tz) t"
  shows "getMonth (fixed tz) t' = getMonth (fixed tz) t"
proof -
  define y where "y = year_of_day (local_day (fixed tz) t)"
  define m where "m = month_of_day (local_day (fixed tz) t)"
  have m: "m < 12" using month_of_day_bounds(1) by (simp add: m_def)
  have le: "local_day (fixed tz) t \<le> local_day (fixed tz) t'"
    using assms(1) by (simp add: local_day_fixed ms_per_day_def zdiv_mono1)
  have "local_day (fixed tz) t' * ms_per_day - tz \<le> t'"
    using date_split[of t' tz] time_in_day_bounds(1)[of tz t'] by linarith
  then have "local_day (fixed tz) t' * ms_per_day < next_month y m * ms_per_day"
    using assms(2) by (simp add: advanceMonth_eq y_def m_def)
  then have "local_day (fixed tz) t' < next_month y m" by (simp add: ms_per_day_def)
  moreover have "month_start y m \<le> local_day (fixed tz) t'"
    using month_of_day_bounds(2)[of "local_day (fixed tz) t"] le by (simp add: y_def m_def)
  ultimately show ?thesis using month_of_dayI(1)[OF m] by (simp add: getMonth_def m_def)
qed

lemma div_of_mod:
  fixes a b c :: int
  assumes "0 < b" "0 < c"
  shows "a mod (b * c) div b = a div b mod c"
proof -
  have "a mod (b * c) = b * (a div b mod c) + a mod b" using assms by (intro zmod_zmult2_eq) simp
  then show ?thesis using assms by simp
qed

lemma getHours_div: "getHours (fixed tz) t = nat ((t + tz) div 3600000 mod 24)"
proof -
  have e: "(86400000 :: int) = 3600000 * 24" by simp
  have "(t + tz) mod (3600000 * 24) div 3600000 = (t + tz) div 3600000 mod 24" by (rule div_of_mod) simp_all
  then show ?thesis unfolding getHours_def time_in_day_fixed ms_per_day_def e by (rule arg_cong)
qed

lemma getMinutes_div: "getMinutes (fixed tz) t = nat ((t + tz) div 60000 mod 60)"
proof -
  have e: "(86400000 :: int) = 60000 * 1440" by simp
  have "(t + tz) mod (60000 * 1440) div 60000 mod 60 = (t + tz) div 60000 mod 1440 mod 60"
    by (subst div_of_mod) simp_all
  also have "\<dots> = (t + tz) div 60000 mod 60" by (rule mod_mod_cancel) simp
  finally show ?thesis unfolding getMinutes_def time_in_day_fixed ms_per_day_def e by (rule arg_cong)
qed

lemma zero_next:
  fixes L k :: int
  shows "L - L mod k + k = (L div k + 1) * k"
  by (simp add: minus_mod_eq_div_mult distrib_right)

lemma same_hour:
  assumes "t \<le> t'" "t' < advanceHour (fixed tz) t"
  shows "getHours (fixed tz) t' = getHours (fixed tz) t"
proof -
  have "t' + tz < ((t + tz) div 3600000 + 1) * 3600000"
    using assms(2) zero_next[of "t + tz" 3600000] by (simp add: advanceHour_eq zero_fixed)
  then have "(t' + tz) div 3600000 = (t + tz) div 3600000" using assms(1) by (intro div_between) simp_all
  then show ?thesis by (simp add: getHours_div)
qed

lemma same_minute:
  assumes "t \<le> t'" "t' < advanceMinute (fixed tz) t"
  shows "getMinutes (fixed tz) t' = getMinutes (fixed tz) t"
proof -
  have "t' + tz < ((t + tz) div 60000 + 1) * 60000"
    using assms(2) zero_next[of "t + tz" 60000] by (simp add: advanceMinute_eq zero_fixed)
  then have "(t' + tz) div 60000 = (t + tz) div 60000" using assms(1) by (intro div_between) simp_all
  then show ?thesis by (simp add: getMinutes_div)
qed

text \<open>A time on the minute, and how far the advances go from it.\<close>

definition on_minute :: "zone \<Rightarrow> int \<Rightarrow> bool" where
  "on_minute tz t \<longleftrightarrow> local_time tz t mod 60000 = 0"

lemma on_minute_dvd: "on_minute (fixed tz) t \<longleftrightarrow> 60000 dvd t + tz"
  by (simp add: on_minute_def mod_eq_0_iff_dvd)

lemma day_minutes: "60000 dvd k * ms_per_day"
  by (simp add: ms_per_day_def dvd_mult)

lemma on_minute_zero:
  fixes t tz k :: int
  assumes "60000 dvd k" shows "60000 dvd t + tz - (t + tz) mod k + k"
  using assms by (auto simp: minus_mod_eq_div_mult dvd_add dvd_mult)

lemma on_minute_advance:
  "on_minute (fixed tz) (advanceMonth (fixed tz) t)" "on_minute (fixed tz) (advanceDay (fixed tz) t)"
  "on_minute (fixed tz) (advanceHour (fixed tz) t)" "on_minute (fixed tz) (advanceMinute (fixed tz) t)"
proof -
  show "on_minute (fixed tz) (advanceMonth (fixed tz) t)" "on_minute (fixed tz) (advanceDay (fixed tz) t)"
    by (simp_all add: on_minute_dvd advanceMonth_eq advanceDay_eq day_minutes)
  show "on_minute (fixed tz) (advanceHour (fixed tz) t)" "on_minute (fixed tz) (advanceMinute (fixed tz) t)"
    using on_minute_zero[of 3600000 t tz] on_minute_zero[of 60000 t tz]
    by (simp_all add: on_minute_dvd advanceHour_eq advanceMinute_eq zero_fixed zero_fixed algebra_simps)
qed

lemma advance_gt:
  "t < advanceMonth (fixed tz) t" "t < advanceDay (fixed tz) t" "t < advanceHour (fixed tz) t" "t < advanceMinute (fixed tz) t"
proof -
  have "t + tz < (local_day (fixed tz) t + 1) * ms_per_day"
    using div_bounds(2)[of ms_per_day "t + tz"] by (simp add: local_day_fixed ms_per_day_def algebra_simps)
  moreover have "local_day (fixed tz) t + 1 \<le> next_month (year_of_day (local_day (fixed tz) t)) (month_of_day (local_day (fixed tz) t))"
    using month_of_day_bounds(3)[of "local_day (fixed tz) t"] by simp
  then have "(local_day (fixed tz) t + 1) * ms_per_day \<le>
      next_month (year_of_day (local_day (fixed tz) t)) (month_of_day (local_day (fixed tz) t)) * ms_per_day"
    by (simp add: ms_per_day_def)
  ultimately show "t < advanceMonth (fixed tz) t" "t < advanceDay (fixed tz) t"
    by (simp_all add: advanceMonth_eq advanceDay_eq)
  have "(t + tz) mod 3600000 < 3600000" "(t + tz) mod 60000 < 60000" by simp_all
  then show "t < advanceHour (fixed tz) t" "t < advanceMinute (fixed tz) t"
    by (simp_all only: advanceHour_eq advanceMinute_eq zero_fixed zero_fixed)
qed

lemma on_minute_step:
  assumes "on_minute (fixed tz) t" "on_minute (fixed tz) t'" "t < t'"
  shows "t + 60000 \<le> t'"
proof -
  have "60000 dvd (t' + tz) - (t + tz)" using assms(1,2) unfolding on_minute_dvd by (rule dvd_diff[rotated])
  then have "60000 \<le> (t' + tz) - (t + tz)" by (rule zdvd_imp_le) (use assms(3) in linarith)
  then show ?thesis by linarith
qed

section \<open>The search\<close>

text \<open>
  The times a cron expression fires at: on the minute, in a listed month, hour and minute, on a listed day.
  A day field is restricted unless it is a star; two restricted day fields combine with \<open>or\<close>.
\<close>

definition listed :: "zone \<Rightarrow> cron \<Rightarrow> int \<Rightarrow> bool" where
  "listed tz e t \<longleftrightarrow>
     getMonth tz t + 1 \<in> set (months e) \<and>
     ((daysOfMonthWildcard e \<or> getDate tz t \<in> set (daysOfMonth e)) \<and>
      (daysOfWeekWildcard e \<or> getDay tz t \<in> set (daysOfWeek e)) \<or>
      \<not> daysOfMonthWildcard e \<and> \<not> daysOfWeekWildcard e \<and>
      (getDate tz t \<in> set (daysOfMonth e) \<or> getDay tz t \<in> set (daysOfWeek e))) \<and>
     getHours tz t \<in> set (hours e) \<and> getMinutes tz t \<in> set (minutes e)"

definition fires :: "zone \<Rightarrow> cron \<Rightarrow> int \<Rightarrow> bool" where
  "fires tz e t \<longleftrightarrow> on_minute tz t \<and> listed tz e t"

lemma fires_iff:
  "fires (fixed tz) e t \<longleftrightarrow> on_minute (fixed tz) t \<and> getMonth (fixed tz) t + 1 \<in> set (months e) \<and> dayMatches (fixed tz) e t \<and>
     getHours (fixed tz) t \<in> set (hours e) \<and> getMinutes (fixed tz) t \<in> set (minutes e)"
  by (auto simp: fires_def listed_def dayMatches_def Let_def)

lemma dayMatches_cong: "local_day (fixed tz) t' = local_day (fixed tz) t \<Longrightarrow> dayMatches (fixed tz) e t' = dayMatches (fixed tz) e t"
  by (simp add: dayMatches_def getDate_def getDay_def)

lemma skip_month:
  "getMonth (fixed tz) t + 1 \<notin> set (months e) \<Longrightarrow> t \<le> t' \<Longrightarrow> t' < advanceMonth (fixed tz) t \<Longrightarrow> \<not> fires (fixed tz) e t'"
  by (simp add: fires_iff same_month)

lemma skip_day: "\<not> dayMatches (fixed tz) e t \<Longrightarrow> t \<le> t' \<Longrightarrow> t' < advanceDay (fixed tz) t \<Longrightarrow> \<not> fires (fixed tz) e t'"
  using dayMatches_cong[OF same_day] by (simp add: fires_iff)

lemma skip_hour:
  "getHours (fixed tz) t \<notin> set (hours e) \<Longrightarrow> t \<le> t' \<Longrightarrow> t' < advanceHour (fixed tz) t \<Longrightarrow> \<not> fires (fixed tz) e t'"
  by (simp add: fires_iff same_hour)

lemma skip_minute:
  "getMinutes (fixed tz) t \<notin> set (minutes e) \<Longrightarrow> t \<le> t' \<Longrightarrow> t' < advanceMinute (fixed tz) t \<Longrightarrow> \<not> fires (fixed tz) e t'"
  by (simp add: fires_iff same_minute)

lemma scan_runs_exact:
  "on_minute (fixed tz) t \<Longrightarrow> deadline - t < int left * 60000 \<Longrightarrow>
   (case scan_runs (fixed tz) e deadline left t of
      None \<Rightarrow> \<forall>t'. t \<le> t' \<longrightarrow> t' \<le> deadline \<longrightarrow> \<not> fires (fixed tz) e t'
    | Some r \<Rightarrow> t \<le> r \<and> r \<le> deadline \<and> fires (fixed tz) e r \<and> (\<forall>t'. t \<le> t' \<longrightarrow> t' < r \<longrightarrow> \<not> fires (fixed tz) e t'))"
  (is "_ \<Longrightarrow> _ \<Longrightarrow> ?P left t")
proof (induction left arbitrary: t)
  case 0
  then show ?case by (simp add: scan_runs.simps)
next
  case (Suc left)
  have step: "?P (Suc left) t"
    if e: "scan_runs (fixed tz) e deadline (Suc left) t = scan_runs (fixed tz) e deadline left t2"
      and om: "on_minute (fixed tz) t2" and gt: "t < t2" and skip: "\<And>t'. t \<le> t' \<Longrightarrow> t' < t2 \<Longrightarrow> \<not> fires (fixed tz) e t'" for t2
  proof -
    have "t + 60000 \<le> t2" using on_minute_step[OF Suc.prems(1) om gt] .
    then have "?P left t2" using Suc.prems(2) om by (intro Suc.IH) simp_all
    then show ?thesis unfolding e using gt skip by (auto split: option.splits) (meson linorder_not_le)+
  qed
  consider "deadline < t" | "getMonth (fixed tz) t + 1 \<notin> set (months e)" "t \<le> deadline"
    | "\<not> dayMatches (fixed tz) e t" "getMonth (fixed tz) t + 1 \<in> set (months e)" "t \<le> deadline"
    | "getHours (fixed tz) t \<notin> set (hours e)" "dayMatches (fixed tz) e t" "getMonth (fixed tz) t + 1 \<in> set (months e)" "t \<le> deadline"
    | "getMinutes (fixed tz) t \<notin> set (minutes e)" "getHours (fixed tz) t \<in> set (hours e)" "dayMatches (fixed tz) e t"
        "getMonth (fixed tz) t + 1 \<in> set (months e)" "t \<le> deadline"
    | "fires (fixed tz) e t" "t \<le> deadline"
    using Suc.prems(1) fires_iff[of tz e t] by linarith
  then show ?case
  proof cases
    case 1 then show ?thesis by (simp add: scan_runs.simps)
  next
    case 2
    then show ?thesis using on_minute_advance advance_gt skip_month
      by (intro step[of "advanceMonth (fixed tz) t"]) (simp_all add: scan_runs.simps[of _ _ _ "Suc left"])
  next
    case 3
    then show ?thesis using on_minute_advance advance_gt skip_day
      by (intro step[of "advanceDay (fixed tz) t"]) (simp_all add: scan_runs.simps[of _ _ _ "Suc left"])
  next
    case 4
    then show ?thesis using on_minute_advance advance_gt skip_hour
      by (intro step[of "advanceHour (fixed tz) t"]) (simp_all add: scan_runs.simps[of _ _ _ "Suc left"])
  next
    case 5
    then show ?thesis using on_minute_advance advance_gt skip_minute
      by (intro step[of "advanceMinute (fixed tz) t"]) (simp_all add: scan_runs.simps[of _ _ _ "Suc left"])
  next
    case 6
    then show ?thesis by (simp add: scan_runs.simps[of _ _ _ "Suc left"] fires_iff)
  qed
qed

definition fire_times :: "zone \<Rightarrow> cron \<Rightarrow> int \<Rightarrow> int \<Rightarrow> int set" where
  "fire_times tz e fromMs capMinutes =
     {t. fromMs < t \<and> t \<le> fromMs + capMinutes * 60000 \<and> fires tz e t}"

lemma first_minute:
  "on_minute (fixed tz) (zeroSeconds (fixed tz) t + 60000)" "t < zeroSeconds (fixed tz) t + 60000"
  "t < t' \<Longrightarrow> on_minute (fixed tz) t' \<Longrightarrow> zeroSeconds (fixed tz) t + 60000 \<le> t'"
proof -
  have z: "on_minute (fixed tz) (zeroSeconds (fixed tz) t)"
    by (simp add: on_minute_dvd zero_fixed minus_mod_eq_div_mult[symmetric] algebra_simps
        dvd_minus_mod[of 60000 "t + tz", unfolded add_diff_eq[symmetric]])
  show "on_minute (fixed tz) (zeroSeconds (fixed tz) t + 60000)" "t < zeroSeconds (fixed tz) t + 60000"
    using on_minute_advance(4)[of tz t] advance_gt(4)[of t tz] by (simp_all add: advanceMinute_eq)
  have "zeroSeconds (fixed tz) t \<le> t" by (simp add: zero_fixed)
  then show "t < t' \<Longrightarrow> on_minute (fixed tz) t' \<Longrightarrow> zeroSeconds (fixed tz) t + 60000 \<le> t'"
    using on_minute_step[OF z] by simp
qed

lemma nextRunWithinMinutes_exact:
  assumes cap: "capMinutes < 10000000"
  shows "nextRunWithinMinutes (fixed tz) e fromMs capMinutes = Some r \<longleftrightarrow>
      r \<in> fire_times (fixed tz) e fromMs capMinutes \<and> fire_times (fixed tz) e fromMs capMinutes \<inter> {..< r} = {}"
    and "nextRunWithinMinutes (fixed tz) e fromMs capMinutes = None \<longleftrightarrow> fire_times (fixed tz) e fromMs capMinutes = {}"
proof -
  define s where "s = zeroSeconds (fixed tz) fromMs + 60000"
  define F where "F = fire_times (fixed tz) e fromMs capMinutes"
  have F: "t \<in> F \<longleftrightarrow> s \<le> t \<and> t \<le> fromMs + capMinutes * 60000 \<and> fires (fixed tz) e t" for t
    using first_minute(2)[of fromMs tz] first_minute(3)[of fromMs t tz]
    by (auto simp: F_def fire_times_def s_def fires_iff)
  have "fromMs + capMinutes * 60000 - s < int HARD_ITERATION_CAP * 60000"
    using cap first_minute(2)[of fromMs tz] by (simp add: HARD_ITERATION_CAP_def s_def)
  note X = scan_runs_exact[OF first_minute(1)[of tz fromMs, folded s_def] this, of e]
  have n: "nextRunWithinMinutes (fixed tz) e fromMs capMinutes =
      scan_runs (fixed tz) e (fromMs + capMinutes * 60000) HARD_ITERATION_CAP s"
    by (simp add: nextRunWithinMinutes_def MS_PER_MINUTE_def s_def)
  have Y: "case nextRunWithinMinutes (fixed tz) e fromMs capMinutes of
      None \<Rightarrow> F = {} | Some r \<Rightarrow> r \<in> F \<and> (\<forall>t\<in>F. r \<le> t)"
    using X F unfolding n by (auto split: option.splits)
  then show "nextRunWithinMinutes (fixed tz) e fromMs capMinutes = None \<longleftrightarrow> F = {}"
    by (auto split: option.splits)
  show "nextRunWithinMinutes (fixed tz) e fromMs capMinutes = Some r \<longleftrightarrow> r \<in> F \<and> F \<inter> {..< r} = {}"
    using Y by (cases "nextRunWithinMinutes (fixed tz) e fromMs capMinutes") (auto, meson antisym lessThan_iff disjoint_iff not_le)
qed

section \<open>Zones that change\<close>

text \<open>A zone that keeps one offset from one time to another.\<close>

definition steady :: "zone \<Rightarrow> int \<Rightarrow> int \<Rightarrow> int \<Rightarrow> bool" where
  "steady tz z a b \<longleftrightarrow> \<bar>z\<bar> \<le> ms_per_day \<and> (\<forall>u. a \<le> u \<and> u \<le> b \<longrightarrow> tz u = z)"

lemma steady_local: "steady tz z a b \<Longrightarrow> a \<le> t \<Longrightarrow> t \<le> b \<Longrightarrow> local_time tz t = t + z"
  by (simp add: steady_def local_time_def)

lemma steady_utc:
  assumes "steady tz z a b" "a + 2 * ms_per_day \<le> l - z" "l - z \<le> b - 2 * ms_per_day"
  shows "utc_time tz l = l - z"
proof -
  have z: "\<bar>z\<bar> \<le> ms_per_day" using assms(1) by (simp add: steady_def)
  have d: "ms_per_day = 86400000" by (rule ms_per_day_def)
  have "tz (l - ms_per_day) = z" using assms z d unfolding steady_def by (smt (verit))
  moreover have "local_time tz (l - z) = l" using steady_local [OF assms(1), of "l - z"] assms(2,3) d by simp
  ultimately show ?thesis by (simp add: utc_time_def Let_def)
qed

text \<open>There the getters and setters are those of the fixed zone.\<close>

lemma steady_get:
  assumes "steady tz z a b" "a \<le> t" "t \<le> b"
  shows "local_day tz t = local_day (fixed z) t" "time_in_day tz t = time_in_day (fixed z) t" "getMonth tz t = getMonth (fixed z) t"
    "getDate tz t = getDate (fixed z) t" "getDay tz t = getDay (fixed z) t" "getHours tz t = getHours (fixed z) t"
    "getMinutes tz t = getMinutes (fixed z) t" "on_minute tz t = on_minute (fixed z) t" "dayMatches tz e t = dayMatches (fixed z) e t"
    "fires tz e t = fires (fixed z) e t"
proof -
  have l: "local_time tz t = t + z" by (rule steady_local [OF assms])
  show "local_day tz t = local_day (fixed z) t" "time_in_day tz t = time_in_day (fixed z) t" "getMonth tz t = getMonth (fixed z) t"
    "getDate tz t = getDate (fixed z) t" "getDay tz t = getDay (fixed z) t" "getHours tz t = getHours (fixed z) t"
    "getMinutes tz t = getMinutes (fixed z) t" "on_minute tz t = on_minute (fixed z) t" "dayMatches tz e t = dayMatches (fixed z) e t"
    "fires tz e t = fires (fixed z) e t"
    by (simp_all add: local_day_def time_in_day_def getMonth_def getDate_def getDay_def getHours_def getMinutes_def on_minute_def
      dayMatches_def fires_def listed_def l)
qed

lemma steady_zero:
  assumes "steady tz z a b" "a + 3 * ms_per_day \<le> t" "t \<le> b - 2 * ms_per_day"
  shows "zeroSeconds tz t = zeroSeconds (fixed z) t" "zeroMinutes tz t = zeroMinutes (fixed z) t" "zeroHours tz t = zeroHours (fixed z) t"
proof -
  have d: "ms_per_day = 86400000" by (rule ms_per_day_def)
  have l: "local_time tz t = t + z" using assms(2,3) d by (intro steady_local [OF assms(1)]) linarith+
  have m: "0 \<le> (t + z) mod k \<and> (t + z) mod k < k" if "k > 0" for k using that by simp
  have "utc_time tz (t + z - (t + z) mod k) = t - (t + z) mod k" if "0 < k" "k \<le> ms_per_day" for k
    using assms m [OF that(1)] that(2) steady_utc [OF assms(1), of "t + z - (t + z) mod k"] by simp
  from this [of 60000] this [of 3600000] this [of ms_per_day]
  show "zeroSeconds tz t = zeroSeconds (fixed z) t" "zeroMinutes tz t = zeroMinutes (fixed z) t" "zeroHours tz t = zeroHours (fixed z) t"
    by (simp_all add: zeroSeconds_def zeroMinutes_def zeroHours_def l d)
qed

lemma zero_near:
  "t - ms_per_day \<le> zeroSeconds (fixed z) t" "t - ms_per_day \<le> zeroMinutes (fixed z) t" "t - ms_per_day \<le> zeroHours (fixed z) t"
  "zeroSeconds (fixed z) t \<le> t" "zeroMinutes (fixed z) t \<le> t" "zeroHours (fixed z) t \<le> t"
proof -
  have m: "0 \<le> (t + z) mod k \<and> (t + z) mod k < k" if "k > 0" for k using that by simp
  from m [of 60000] m [of 3600000] m [of 86400000]
  show "t - ms_per_day \<le> zeroSeconds (fixed z) t" "t - ms_per_day \<le> zeroMinutes (fixed z) t" "t - ms_per_day \<le> zeroHours (fixed z) t"
    "zeroSeconds (fixed z) t \<le> t" "zeroMinutes (fixed z) t \<le> t" "zeroHours (fixed z) t \<le> t"
    by (simp_all add: zero_fixed ms_per_day_def)
qed

lemma steady_advance:
  assumes "steady tz z a b" "a + 40 * ms_per_day \<le> t"
  shows "advanceMonth (fixed z) t \<le> b - 2 * ms_per_day \<Longrightarrow> advanceMonth tz t = advanceMonth (fixed z) t"
    "advanceDay (fixed z) t \<le> b - 2 * ms_per_day \<Longrightarrow> advanceDay tz t = advanceDay (fixed z) t"
    "advanceHour (fixed z) t \<le> b - 2 * ms_per_day \<Longrightarrow> advanceHour tz t = advanceHour (fixed z) t"
    "advanceMinute (fixed z) t \<le> b - 2 * ms_per_day \<Longrightarrow> advanceMinute tz t = advanceMinute (fixed z) t"
proof -
  have d: "ms_per_day = 86400000" by (rule ms_per_day_def)
  note near = zero_near(1-3) [of t z] zero_near(4-6) [of z t]
  {
    assume le: "advanceMonth (fixed z) t \<le> b - 2 * ms_per_day"
    let ?t0 = "setDate (fixed z) 1 t"
    let ?t1 = "zeroHours (fixed z) ?t0"
    have t: "t < advanceMonth (fixed z) t" by (rule advance_gt(1))
    have t0: "?t0 = t + (1 - date_of_day (local_day (fixed z) t)) * ms_per_day" by (simp add: set_fixed)
    have "t - 30 * ms_per_day \<le> ?t0" "?t0 \<le> t" using date_of_day_bounds [of "local_day (fixed z) t"] unfolding t0 d by simp_all
    note b0 = this
    then have b1: "t - 31 * ms_per_day \<le> ?t1" "?t1 \<le> t" using zero_near(3) [of ?t0 z] zero_near(6) [of z ?t0] by linarith+
    have e0: "setDate tz 1 t = ?t0"
      using assms t le b0 steady_utc [OF assms(1), of "t + z + (1 - int (getDate (fixed z) t)) * ms_per_day"] steady_local [OF assms(1), of t]
        steady_get(4) [OF assms(1), of t] d by (simp add: setDate_def)
    have e1: "zeroHours tz ?t0 = ?t1" using assms t le b0 d by (intro steady_zero(3) [OF assms(1)]) linarith+
    let ?l = "make_day (year_of_day (local_day (fixed z) ?t1)) (int (getMonth (fixed z) ?t1) + 1) (int (getDate (fixed z) ?t1)) * ms_per_day +
        time_in_day (fixed z) ?t1"
    have res: "advanceMonth (fixed z) t = ?l - z" by (simp add: advanceMonth_def Let_def set_fixed)
    have in1: "a \<le> ?t1" "?t1 \<le> b" using b1 assms t le d by linarith+
    have "utc_time tz ?l = ?l - z" using t le assms d unfolding res by (intro steady_utc [OF assms(1)]) linarith+
    then show "advanceMonth tz t = advanceMonth (fixed z) t"
      by (simp add: advanceMonth_def Let_def e0 e1 setMonth_def steady_get [OF assms(1) in1])
  next
    assume le: "advanceDay (fixed z) t \<le> b - 2 * ms_per_day"
    let ?t1 = "zeroHours (fixed z) t"
    have t: "t < advanceDay (fixed z) t" by (rule advance_gt(2))
    have e1: "zeroHours tz t = ?t1" using assms t le d by (intro steady_zero(3) [OF assms(1)]) linarith+
    have in1: "a \<le> ?t1" "?t1 \<le> b" using near assms t le d by linarith+
    have "utc_time tz (?t1 + z + ms_per_day) = ?t1 + z + ms_per_day - z" "advanceDay (fixed z) t = ?t1 + ms_per_day"
      using t le assms near d by (simp_all add: advanceDay_def Let_def set_fixed steady_utc [OF assms(1)])
    then show "advanceDay tz t = advanceDay (fixed z) t"
      by (simp add: advanceDay_def Let_def e1 setDate_def steady_get [OF assms(1) in1] steady_local [OF assms(1) in1])
  next
    assume le: "advanceHour (fixed z) t \<le> b - 2 * ms_per_day"
    let ?t1 = "zeroMinutes (fixed z) t"
    have t: "t < advanceHour (fixed z) t" by (rule advance_gt(3))
    have e1: "zeroMinutes tz t = ?t1" using assms t le d by (intro steady_zero(2) [OF assms(1)]) linarith+
    have in1: "a \<le> ?t1" "?t1 \<le> b" using near assms t le d by linarith+
    have "utc_time tz (?t1 + z + 3600000) = ?t1 + z + 3600000 - z" "advanceHour (fixed z) t = ?t1 + 3600000"
      using t le assms near d by (simp_all add: advanceHour_def Let_def set_fixed steady_utc [OF assms(1)])
    then show "advanceHour tz t = advanceHour (fixed z) t"
      by (simp add: advanceHour_def Let_def e1 setHours_def steady_get [OF assms(1) in1] steady_local [OF assms(1) in1])
  next
    assume le: "advanceMinute (fixed z) t \<le> b - 2 * ms_per_day"
    let ?t1 = "zeroSeconds (fixed z) t"
    have t: "t < advanceMinute (fixed z) t" by (rule advance_gt(4))
    have e1: "zeroSeconds tz t = ?t1" using assms t le d by (intro steady_zero(1) [OF assms(1)]) linarith+
    have in1: "a \<le> ?t1" "?t1 \<le> b" using near assms t le d by linarith+
    have "utc_time tz (?t1 + z + 60000) = ?t1 + z + 60000 - z" "advanceMinute (fixed z) t = ?t1 + 60000"
      using t le assms near d by (simp_all add: advanceMinute_def Let_def set_fixed steady_utc [OF assms(1)])
    then show "advanceMinute tz t = advanceMinute (fixed z) t"
      by (simp add: advanceMinute_def Let_def e1 setMinutes_def steady_get [OF assms(1) in1] steady_local [OF assms(1) in1])
  }
qed

text \<open>How far an advance goes.\<close>

lemma advance_less: "advanceMonth (fixed z) t \<le> t + 31 * ms_per_day" "advanceDay (fixed z) t \<le> t + 31 * ms_per_day"
    "advanceHour (fixed z) t \<le> t + 31 * ms_per_day" "advanceMinute (fixed z) t \<le> t + 31 * ms_per_day"
proof -
  define y m where ym: "y = year_of_day (local_day (fixed z) t)" "m = month_of_day (local_day (fixed z) t)"
  have "next_month y m - month_start y m \<le> 31"
    using months_cases [OF month_of_day_bounds(1) [of "local_day (fixed z) t", folded ym]] day_from_year_step [of y]
    by (elim disjE) (simp_all add: month_defs split: if_splits)
  then have "next_month y m \<le> local_day (fixed z) t + 31" using month_of_day_bounds(2) [of "local_day (fixed z) t"] by (simp add: ym)
  then have "next_month y m * ms_per_day \<le> (local_day (fixed z) t + 31) * ms_per_day" by (simp add: ms_per_day_def)
  moreover have "local_day (fixed z) t * ms_per_day - z \<le> t" using date_split [of t z] time_in_day_bounds(1) [of z t] by linarith
  ultimately show "advanceMonth (fixed z) t \<le> t + 31 * ms_per_day" "advanceDay (fixed z) t \<le> t + 31 * ms_per_day"
    unfolding advanceMonth_eq advanceDay_eq ym [symmetric] by (simp_all add: distrib_right, simp add: ms_per_day_def)
  show "advanceHour (fixed z) t \<le> t + 31 * ms_per_day" "advanceMinute (fixed z) t \<le> t + 31 * ms_per_day"
    using zero_near(4,5) [of z t] by (simp_all add: advanceHour_eq advanceMinute_eq ms_per_day_def)
qed

lemma scan_ge: "scan_runs (fixed z) e deadline left t = Some r \<Longrightarrow> t \<le> r"
proof (induction left arbitrary: t)
  case (Suc left)
  have "t2 \<le> r \<Longrightarrow> t < t2 \<Longrightarrow> t \<le> r" for t2 by simp
  then show ?case using Suc.IH [of "advanceMonth (fixed z) t"] Suc.IH [of "advanceDay (fixed z) t"] Suc.IH [of "advanceHour (fixed z) t"]
    Suc.IH [of "advanceMinute (fixed z) t"] advance_gt [of t z] Suc.prems
    by (simp add: scan_runs.simps [of _ _ _ "Suc left"] split: if_splits)
qed (simp add: scan_runs.simps)

lemma steady_scan_one:
  assumes "steady tz z a b" "a + 40 * ms_per_day \<le> t" "t \<le> b"
    and "\<And>t2. t < t2 \<Longrightarrow> t2 \<le> t + 31 * ms_per_day \<Longrightarrow> scan_runs (fixed z) e deadline (Suc left) t = scan_runs (fixed z) e deadline left t2 \<Longrightarrow>
      t \<le> deadline \<Longrightarrow> t2 \<le> b - 2 * ms_per_day \<and> scan_runs tz e deadline left t2 = scan_runs (fixed z) e deadline left t2"
  shows "scan_runs tz e deadline (Suc left) t = scan_runs (fixed z) e deadline (Suc left) t"
proof -
  have at: "a \<le> t" using assms(2) by (simp add: ms_per_day_def)
  note get = steady_get [OF assms(1) at assms(3)]
  note adv = steady_advance [OF assms(1,2)]
  have go: "scan_runs tz e deadline left (f tz t) = scan_runs (fixed z) e deadline left (f (fixed z) t)"
    if "f \<in> {advanceMonth, advanceDay, advanceHour, advanceMinute}" "t \<le> deadline"
      "scan_runs (fixed z) e deadline (Suc left) t = scan_runs (fixed z) e deadline left (f (fixed z) t)" for f
  proof -
    have "t < f (fixed z) t" "f (fixed z) t \<le> t + 31 * ms_per_day" using that(1) advance_gt [of t z] advance_less [of z t] by auto
    then have n: "f (fixed z) t \<le> b - 2 * ms_per_day" "scan_runs tz e deadline left (f (fixed z) t) = scan_runs (fixed z) e deadline left (f (fixed z) t)"
      using assms(4) that(2,3) by blast+
    then have "f tz t = f (fixed z) t" using that(1) adv by auto
    then show ?thesis using n(2) by simp
  qed
  show ?thesis
    using go [of advanceMonth] go [of advanceDay] go [of advanceHour] go [of advanceMinute]
    by (simp add: scan_runs.simps [of _ _ _ "Suc left"] get)
qed

lemma steady_scan_some:
  assumes "steady tz z a b"
  shows "scan_runs (fixed z) e deadline left t = Some r \<Longrightarrow> a + 40 * ms_per_day \<le> t \<Longrightarrow> r \<le> b - 2 * ms_per_day \<Longrightarrow>
    scan_runs tz e deadline left t = Some r"
proof (induction left arbitrary: t)
  case (Suc left)
  have "t \<le> b" using scan_ge [OF Suc.prems(1)] Suc.prems(3) by (simp add: ms_per_day_def)
  then have "scan_runs tz e deadline (Suc left) t = scan_runs (fixed z) e deadline (Suc left) t"
  proof (rule steady_scan_one [OF assms Suc.prems(2)])
    fix t2 assume t2: "t < t2" "scan_runs (fixed z) e deadline (Suc left) t = scan_runs (fixed z) e deadline left t2"
    then have s: "scan_runs (fixed z) e deadline left t2 = Some r" using Suc.prems(1) by simp
    then show "t2 \<le> b - 2 * ms_per_day \<and> scan_runs tz e deadline left t2 = scan_runs (fixed z) e deadline left t2"
      using Suc.IH [OF s] scan_ge [OF s] t2(1) Suc.prems(2,3) by simp
  qed
  then show ?case using Suc.prems(1) by simp
qed (simp add: scan_runs.simps)

lemma steady_scan:
  assumes "steady tz z a b" "deadline + 40 * ms_per_day \<le> b"
  shows "a + 40 * ms_per_day \<le> t \<Longrightarrow> t \<le> deadline + 31 * ms_per_day \<Longrightarrow> scan_runs tz e deadline left t = scan_runs (fixed z) e deadline left t"
proof (induction left arbitrary: t)
  case (Suc left)
  have "t \<le> b" using Suc.prems(2) assms(2) by (simp add: ms_per_day_def)
  then show ?case
  proof (rule steady_scan_one [OF assms(1) Suc.prems(1)])
    fix t2 assume t2: "t < t2" "t2 \<le> t + 31 * ms_per_day" "t \<le> deadline"
    then show "t2 \<le> b - 2 * ms_per_day \<and> scan_runs tz e deadline left t2 = scan_runs (fixed z) e deadline left t2"
      using Suc.IH [of t2] Suc.prems assms(2) by (simp add: ms_per_day_def)
  qed
qed (simp add: scan_runs.simps)

text \<open>The first minute the search looks at, and the times of the fires.\<close>

lemma steady_start:
  assumes "steady tz z (fromMs - 41 * ms_per_day) b" "fromMs \<le> b - 2 * ms_per_day"
  shows "zeroSeconds tz fromMs = zeroSeconds (fixed z) fromMs" "fromMs - 41 * ms_per_day + 40 * ms_per_day \<le> zeroSeconds (fixed z) fromMs + MS_PER_MINUTE"
proof -
  show "zeroSeconds tz fromMs = zeroSeconds (fixed z) fromMs"
    using assms(2) by (intro steady_zero(1) [OF assms(1)]) (simp_all add: ms_per_day_def)
  show "fromMs - 41 * ms_per_day + 40 * ms_per_day \<le> zeroSeconds (fixed z) fromMs + MS_PER_MINUTE"
    using zero_near(1) [of fromMs z] by (simp add: ms_per_day_def MS_PER_MINUTE_def)
qed

lemma steady_fires:
  assumes "steady tz z (fromMs - 41 * ms_per_day) b"
  shows "t \<le> b \<Longrightarrow> t \<in> fire_times tz e fromMs cap \<longleftrightarrow> t \<in> fire_times (fixed z) e fromMs cap"
proof -
  assume "t \<le> b"
  moreover have "fromMs - 41 * ms_per_day \<le> t" if "fromMs < t" using that by (simp add: ms_per_day_def)
  ultimately show ?thesis using steady_get(10) [OF assms, of t e] by (auto simp: fire_times_def)
qed

text \<open>In any zone the search only stops at a listed time before the deadline.\<close>

lemma scan_runs_listed: "scan_runs tz e deadline left t = Some r \<Longrightarrow> r \<le> deadline \<and> listed tz e r"
proof (induction left arbitrary: t)
  case (Suc left)
  then show ?case
    by (auto simp: scan_runs.simps [of _ _ _ "Suc left"] listed_def dayMatches_def Let_def split: if_splits)
qed (simp add: scan_runs.simps)


text \<open>Noon and midnight in New York, four days before the clock is set back there in 2024: the run asked for at ten in
  the morning.\<close>

definition new_york :: zone where
  "new_york t = (if t < 1730613600000 then - 14400000 else - 18000000)"

definition at_noon :: cron where
  "at_noon = \<lparr>raw = [], minutes = [0], hours = [0, 12], daysOfMonth = [], months = [10], daysOfWeek = [],
     daysOfMonthWildcard = True, daysOfWeekWildcard = True\<rparr>"


text \<open>When the clock is set back, the search goes back with it: asked at half past one for the second time that night, for
  quarter to of any hour, it returns the first quarter to two, which is past.\<close>

definition quarter_to :: cron where
  "quarter_to = \<lparr>raw = [], minutes = [45], hours = [0 ..< 24], daysOfMonth = [], months = [1 ..< 13], daysOfWeek = [],
     daysOfMonthWildcard = True, daysOfWeekWildcard = True\<rparr>"

lemma scan_more: "scan_runs tz e deadline left t = Some r \<Longrightarrow> left \<le> left' \<Longrightarrow> scan_runs tz e deadline left' t = Some r"
proof (induction left arbitrary: t left')
  case (Suc left)
  then obtain n where n: "left' = Suc n" by (cases left') simp_all
  show ?case using Suc.prems Suc.IH [of _ n] unfolding n
    by (simp add: scan_runs.simps [of _ _ _ "Suc _"] split: if_splits)
qed (simp add: scan_runs.simps)

lemma next_run_in_the_past: "computeNextCronRun new_york quarter_to 1730615400000 = Some 1730612700000"
proof -
  have "scan_runs new_york quarter_to 1888727400000 20 1730611860000 = Some 1730612700000" by code_simp
  then have "scan_runs new_york quarter_to 1888727400000 HARD_ITERATION_CAP 1730611860000 = Some 1730612700000"
    by (rule scan_more) (simp add: HARD_ITERATION_CAP_def)
  moreover have "zeroSeconds new_york 1730615400000 = 1730611800000" by code_simp
  ultimately show ?thesis by (simp add: computeNextCronRun_def nextRunWithinMinutes_def MS_PER_MINUTE_def)
qed

text \<open>
  For up to eighteen years \<open>hasFireWithinYears\<close> answers exactly whether the expression fires within that
  many leap years (at least one minute) of the start.
\<close>
lemma hasFireWithinYears_exact:
  assumes "years \<le> 18"
  shows "hasFireWithinYears (fixed tz) e years fromMs =
     (fire_times (fixed tz) e fromMs (max 1 (years * 366 * 24 * 60)) \<noteq> {})"
  unfolding hasFireWithinYears_def using assms
  by (subst nextRunWithinMinutes_exact(2)) simp_all

section \<open>The parser\<close>

lemma add_range_set:
  "0 < step \<Longrightarrow> set (add_range v hi step out) = set out \<union> {x. v \<le> x \<and> x \<le> hi \<and> step dvd x - v}"
proof (induction v hi step out rule: add_range.induct)
  case (1 v hi step out)
  show ?case
  proof (cases "v \<le> hi")
    case True
    have e: "v \<le> x \<and> x \<le> hi \<and> step dvd x - v \<longleftrightarrow> x = v \<or> (v + step \<le> x \<and> x \<le> hi \<and> step dvd x - (v + step))" for x
    proof (cases "v + step \<le> x")
      case True
      then have "x - v = step + (x - (v + step))" by simp
      then have "step dvd x - v \<longleftrightarrow> step dvd x - (v + step)" by (metis dvd_add_triv_left_iff)
      then show ?thesis using True 1(2) by auto
    next
      case False
      then show ?thesis using True 1(2) nat_dvd_not_less[of "x - v" step] by (cases "x = v") auto
    qed
    have "set (add_range v hi step out) = set (add_range (v + step) hi step (os_add v out))"
      using True 1(2) by (subst add_range.simps) simp
    then show ?thesis using 1 True e by auto
  next
    case False
    then show ?thesis by (subst add_range.simps) auto
  qed
qed

lemma add_range_distinct [simp]: "distinct out \<Longrightarrow> distinct (add_range v hi step out)"
proof (induction v hi step out rule: add_range.induct)
  case (1 v hi step out)
  then show ?case by (subst add_range.simps) simp
qed

text \<open>The grammar of a field: a comma-separated list of stars, values and ranges, each with an optional step.\<close>

datatype cron_range = Star | Value nat | Range nat nat

type_synonym cron_term = "cron_range \<times> nat option"

fun show_range :: "cron_range \<Rightarrow> string" where
  "show_range Star = ''*''"
| "show_range (Value v) = show_nat v"
| "show_range (Range a b) = show_nat a @ ''-'' @ show_nat b"

definition show_term :: "cron_term \<Rightarrow> string" where
  "show_term t = show_range (fst t) @ (case snd t of None \<Rightarrow> [] | Some n \<Rightarrow> ''/'' @ show_nat n)"

definition show_field :: "cron_term list \<Rightarrow> string" where
  "show_field ts = js_join '','' (map show_term ts)"

text \<open>What a term means: the values between its bounds, by its step.\<close>

fun range_bounds :: "nat \<times> nat \<Rightarrow> bool \<Rightarrow> cron_range \<Rightarrow> nat \<times> nat" where
  "range_bounds r stepped Star = r"
| "range_bounds r stepped (Value v) = (v, if stepped then snd r else v)"
| "range_bounds r stepped (Range a b) = (a, b)"

definition term_values :: "nat \<times> nat \<Rightarrow> cron_term \<Rightarrow> nat set" where
  "term_values r t =
     (let (lo, hi) = range_bounds r (snd t \<noteq> None) (fst t);
          step = (case snd t of None \<Rightarrow> 1 | Some n \<Rightarrow> n)
      in {x. lo \<le> x \<and> x \<le> hi \<and> step dvd x - lo})"

fun term_ok :: "nat \<times> nat \<Rightarrow> cron_term \<Rightarrow> bool" where
  "term_ok r (Star, st) \<longleftrightarrow> st \<noteq> Some 0"
| "term_ok r (Value v, st) \<longleftrightarrow> st \<noteq> Some 0 \<and> fst r \<le> v \<and> v \<le> snd r"
| "term_ok r (Range a b, st) \<longleftrightarrow> st \<noteq> Some 0 \<and> fst r \<le> a \<and> a \<le> b \<and> b \<le> snd r"

definition field_values :: "nat \<times> nat \<Rightarrow> cron_term list \<Rightarrow> nat set" where
  "field_values r ts = (\<Union>t \<in> set ts. term_values r t)"

definition field_ok :: "nat \<times> nat \<Rightarrow> cron_term list \<Rightarrow> bool" where
  "field_ok r ts \<longleftrightarrow> ts \<noteq> [] \<and> list_all (term_ok r) ts"

lemma digits_no: "\<not> is_digit c \<Longrightarrow> c \<notin> set (show_nat n)"
  using show_nat_digits by blast

lemma cut_at_hit: "c \<notin> set xs \<Longrightarrow> cut_at c (xs @ c # ys) = Some (xs, ys)"
  by (induction xs) (auto simp: cut_at_def split: if_splits)

lemma cut_at_miss: "c \<notin> set xs \<Longrightarrow> cut_at c xs = None"
  by (simp add: cut_at_def)

lemma parseCronInt_show [simp]: "parseCronInt (show_nat n) name role' = Inr n"
  using show_nat_digits[of n] by (simp add: parseCronInt_def DIGIT_ONLY_def list_all_iff)

lemma special_chars [simp]: "\<not> is_digit CHR ''/''" "\<not> is_digit CHR ''-''" "\<not> is_digit CHR '',''"
    "\<not> is_digit CHR ''*''" "\<not> is_digit CHR '' ''"
  by (simp_all add: is_digit_def)

lemma show_range_chars: "c \<in> set (show_range g) \<Longrightarrow> is_digit c \<or> c = CHR ''*'' \<or> c = CHR ''-''"
  using show_nat_digits by (cases g) auto

lemma show_term_chars:
  "c \<in> set (show_term t) \<Longrightarrow> is_digit c \<or> c = CHR ''*'' \<or> c = CHR ''-'' \<or> c = CHR ''/''"
  using show_nat_digits by (auto simp: show_term_def dest!: show_range_chars split: option.splits)

lemma show_range_nonempty [simp]: "show_range g \<noteq> []"
  by (cases g) simp_all

lemma show_term_nonempty [simp]: "show_term t \<noteq> []"
  by (simp add: show_term_def)

lemma term_step_show: "snd t \<noteq> Some 0 \<Longrightarrow> term_step (show_term t) name = Inr (show_range (fst t), snd t)"
proof -
  assume a: "snd t \<noteq> Some 0"
  have n: "CHR ''/'' \<notin> set (show_range (fst t))" using show_range_chars[of "CHR ''/''" "fst t"] by auto
  show ?thesis
    using a n by (cases "snd t") (simp_all add: show_term_def term_step_def cut_at_hit cut_at_miss)
qed

lemma show_nat_star: "show_nat v \<noteq> ''*''" "show_nat v @ xs \<noteq> ''*''"
proof -
  have "hd (show_nat v) \<noteq> CHR ''*''"
    using digits_no[of "CHR ''*''" v] hd_in_set[OF show_nat_nonempty, of v] by fastforce
  then show "show_nat v \<noteq> ''*''" "show_nat v @ xs \<noteq> ''*''"
    by (metis list.sel(1), metis hd_append2 list.sel(1) show_nat_nonempty)
qed

lemma term_range_show:
  assumes "term_ok r (g, st)"
  shows "term_range (show_range g) (st \<noteq> None) (fst r) (snd r) name = Inr (range_bounds r (st \<noteq> None) g)"
proof (cases g)
  case Star then show ?thesis by (simp add: term_range_def)
next
  case (Value v)
  then show ?thesis using assms cut_at_miss[OF digits_no[of "CHR ''-''" v]]
    by (simp add: term_range_def show_nat_star)
next
  case (Range a b)
  then show ?thesis using assms cut_at_hit[OF digits_no[of "CHR ''-''" a], of "show_nat b"]
    by (simp add: term_range_def show_nat_star not_less)
qed

lemma term_ok_step: "term_ok r t \<Longrightarrow> snd t \<noteq> Some 0"
  by (cases "(r, t)" rule: term_ok.cases) auto

lemma term_values_eq:
  "range_bounds r (snd t \<noteq> None) (fst t) = (lo, hi) \<Longrightarrow>
   term_values r t = {x. lo \<le> x \<and> x \<le> hi \<and> (case snd t of None \<Rightarrow> 1 | Some n \<Rightarrow> n) dvd x - lo}"
  by (simp add: term_values_def del: not_None_eq)

lemma addTerm_show:
  assumes "term_ok r t"
  obtains out' where "addTerm out (show_term t) (fst r) (snd r) name = Inr out'"
    "set out' = set out \<union> term_values r t" "distinct out \<Longrightarrow> distinct out'"
proof -
  obtain lo hi where b: "range_bounds r (snd t \<noteq> None) (fst t) = (lo, hi)" by fastforce
  define n :: nat where "n = (case snd t of None \<Rightarrow> 1 | Some k \<Rightarrow> k)"
  have n: "0 < n" using term_ok_step[OF assms] by (cases "snd t") (auto simp: n_def)
  have e: "addTerm out (show_term t) (fst r) (snd r) name = Inr (add_range lo hi n out)"
    using term_step_show[OF term_ok_step[OF assms], of name] term_range_show[of r "fst t" "snd t" name] assms b
    by (simp add: addTerm_def n_def)
  show ?thesis
    by (rule that[OF e]) (simp_all add: add_range_set[OF n] term_values_eq[OF b] n_def[symmetric])
qed

lemma fold_terms_show:
  assumes "list_all (term_ok r) ts"
  obtains out' where "efold (\<lambda>t out. if t = [] then Inl (TermEmpty name) else addTerm out t (fst r) (snd r) name)
      (map show_term ts) out = Inr out'"
    "set out' = set out \<union> field_values r ts" "distinct out \<Longrightarrow> distinct out'"
  using assms
proof (induction ts arbitrary: out thesis)
  case Nil
  then show ?case by (simp add: field_values_def)
next
  case (Cons t ts)
  obtain out1 where 1: "addTerm out (show_term t) (fst r) (snd r) name = Inr out1"
    "set out1 = set out \<union> term_values r t" "distinct out \<Longrightarrow> distinct out1"
    using addTerm_show[of r t out name] Cons.prems(2) by auto
  obtain out2 where 2: "efold (\<lambda>t out. if t = [] then Inl (TermEmpty name) else addTerm out t (fst r) (snd r) name)
      (map show_term ts) out1 = Inr out2"
    "set out2 = set out1 \<union> field_values r ts" "distinct out1 \<Longrightarrow> distinct out2"
    using Cons.IH[of out1] Cons.prems(2) by auto
  show ?case by (rule Cons.prems(1)[of out2]) (use 1 2 in \<open>auto simp: field_values_def\<close>)
qed

lemma split_char_word: "c \<notin> set w \<Longrightarrow> split_char c w = [w]"
  by (induction w) auto

lemma split_char_app: "c \<notin> set w \<Longrightarrow> split_char c (w @ c # s) = w # split_char c s"
  by (induction w) auto

lemma split_char_join: "ws \<noteq> [] \<Longrightarrow> \<forall>w \<in> set ws. c \<notin> set w \<Longrightarrow> split_char c (js_join [c] ws) = ws"
proof (induction ws)
  case (Cons w ws)
  then show ?case by (cases ws) (auto simp: split_char_word split_char_app)
qed simp

lemma term_values_nonempty: "fst r \<le> snd r \<Longrightarrow> term_ok r t \<Longrightarrow> term_values r t \<noteq> {}"
proof -
  assume a: "fst r \<le> snd r" "term_ok r t"
  obtain g st where t: "t = (g, st)" by (cases t)
  obtain lo hi where b: "range_bounds r (st \<noteq> None) g = (lo, hi)" by fastforce
  have "lo \<le> hi" using a b by (cases g; cases r) (auto simp: t split: if_splits)
  then have "lo \<in> term_values r t" using term_values_eq[of r t lo hi] b by (simp add: t)
  then show ?thesis by blast
qed

lemma js_join_nonempty: "ws \<noteq> [] \<Longrightarrow> \<forall>w \<in> set ws. w \<noteq> [] \<Longrightarrow> js_join sep ws \<noteq> []"
  by (induction sep ws rule: js_join.induct) auto

lemma show_field_nonempty: "ts \<noteq> [] \<Longrightarrow> show_field ts \<noteq> []"
  unfolding show_field_def by (rule js_join_nonempty) auto

lemma parseField_show:
  assumes "fst r \<le> snd r" "field_ok r ts"
  obtains out where "parseField (show_field ts) r name = Inr out" "set out = field_values r ts" "distinct out"
proof -
  have ts: "ts \<noteq> []" "list_all (term_ok r) ts" using assms(2) by (simp_all add: field_ok_def)
  have sp: "split_char CHR '','' (show_field ts) = map show_term ts"
    unfolding show_field_def using ts(1) by (intro split_char_join) (auto dest: show_term_chars)
  obtain out where out: "efold (\<lambda>t out. if t = [] then Inl (TermEmpty name) else addTerm out t (fst r) (snd r) name)
      (map show_term ts) [] = Inr out" "set out = field_values r ts" "distinct out"
    using fold_terms_show[OF ts(2), of name "[]"] by auto
  have "field_values r ts \<noteq> {}"
    using ts term_values_nonempty[OF assms(1)] by (cases ts) (auto simp: field_values_def)
  then have "out \<noteq> []" using out(2) by auto
  then have "parseField (show_field ts) r name = Inr out"
    using out(1) sp show_field_nonempty[OF ts(1)] by (simp add: parseField_def)
  then show ?thesis using that out by blast
qed

text \<open>Five fields separated by single spaces.\<close>

lemma js_join_chars: "c \<in> set (js_join sep ws) \<Longrightarrow> c \<in> set sep \<or> (\<exists>w \<in> set ws. c \<in> set w)"
  by (induction sep ws rule: js_join.induct) auto

lemma show_field_chars:
  "c \<in> set (show_field ts) \<Longrightarrow> is_digit c \<or> c \<in> {CHR ''*'', CHR ''-'', CHR ''/'', CHR '',''}"
  unfolding show_field_def by (drule js_join_chars) (auto dest: show_term_chars)

lemma no_space: "is_digit c \<or> c \<in> {CHR ''*'', CHR ''-'', CHR ''/'', CHR '',''} \<Longrightarrow> \<not> js_space c"
  by (auto simp: is_digit_def js_space_def)

lemma show_field_no_space: "c \<in> set (show_field ts) \<Longrightarrow> \<not> js_space c"
  using show_field_chars no_space by blast

lemma split_spaces_word: "w \<noteq> [] \<Longrightarrow> \<forall>c \<in> set w. \<not> js_space c \<Longrightarrow> split_spaces w = [w]"
  by (induction w rule: split_spaces.induct) auto

lemma split_spaces_app:
  "w \<noteq> [] \<Longrightarrow> \<forall>c \<in> set w. \<not> js_space c \<Longrightarrow> s \<noteq> [] \<Longrightarrow> \<not> js_space (hd s) \<Longrightarrow>
   split_spaces (w @ CHR '' '' # s) = w # split_spaces s"
proof (induction w)
  case (Cons x w)
  have sp: "js_space CHR '' ''" by (simp add: js_space_def)
  have s: "s = hd s # tl s" using Cons.prems(3) by simp
  have base: "split_spaces (CHR '' '' # s) = [] # split_spaces s"
    by (subst s, subst split_spaces.simps(3), subst (4) s) (simp add: sp Cons.prems(4))
  show ?case
  proof (cases w)
    case Nil then show ?thesis using base Cons.prems(2) by (subst s) (simp add: s[symmetric])
  next
    case (Cons y ys)
    then show ?thesis using Cons.IH Cons.prems by simp
  qed
qed simp

definition show_cron :: "cron_term list list \<Rightarrow> string" where
  "show_cron fs = js_join '' '' (map show_field fs)"

lemma js_trim_id: "s \<noteq> [] \<Longrightarrow> \<not> js_space (hd s) \<Longrightarrow> \<not> js_space (last s) \<Longrightarrow> js_trim s = s"
proof -
  assume a: "s \<noteq> []" "\<not> js_space (hd s)" "\<not> js_space (last s)"
  have "dropWhile js_space s = s" using a(1,2) by (cases s) simp_all
  moreover have "dropWhile js_space (rev s) = rev s"
    using a(1,3) by (cases "rev s") (simp_all add: hd_rev[symmetric])
  ultimately show ?thesis by (simp add: js_trim_def)
qed

lemma show_cron_parts:
  assumes "a \<noteq> []" "b \<noteq> []" "c \<noteq> []" "d \<noteq> []" "e \<noteq> []"
  shows "js_trim (show_cron [a, b, c, d, e]) = show_cron [a, b, c, d, e]"
    and "show_cron [a, b, c, d, e] \<noteq> []"
    and "split_spaces (show_cron [a, b, c, d, e]) =
      [show_field a, show_field b, show_field c, show_field d, show_field e]"
proof -
  note ne = show_field_nonempty[OF assms(1)] show_field_nonempty[OF assms(2)] show_field_nonempty[OF assms(3)]
    show_field_nonempty[OF assms(4)] show_field_nonempty[OF assms(5)]
  have ns: "\<forall>c \<in> set (show_field x). \<not> js_space c" for x using show_field_no_space by blast
  have h: "\<not> js_space (hd (show_field x))" "\<not> js_space (last (show_field x))" if "show_field x \<noteq> []" for x
    using show_field_no_space[of "hd (show_field x)" x] show_field_no_space[of "last (show_field x)" x] that
    by simp_all
  have e: "show_cron [a, b, c, d, e] = show_field a @ CHR '' '' # show_field b @ CHR '' '' # show_field c @
      CHR '' '' # show_field d @ CHR '' '' # show_field e"
    by (simp add: show_cron_def)
  show "show_cron [a, b, c, d, e] \<noteq> []" by (simp add: e)
  show "js_trim (show_cron [a, b, c, d, e]) = show_cron [a, b, c, d, e]"
    unfolding e using ne h by (intro js_trim_id) (simp_all add: hd_append)
  show "split_spaces (show_cron [a, b, c, d, e]) =
      [show_field a, show_field b, show_field c, show_field d, show_field e]"
    unfolding e using ne h
    by (simp add: split_spaces_app split_spaces_word ns hd_append)
qed

lemma fold_sunday_set: "set (fold_sunday vs) = (\<lambda>v. if v = 7 then 0 else v) ` set vs"
proof -
  have "set (fold (\<lambda>v out. os_add (if v = 7 then 0 else v) out) vs out) =
      set out \<union> (\<lambda>v. if v = 7 then 0 else v) ` set vs" for out :: "nat list"
    by (induction vs arbitrary: out) auto
  then show ?thesis by (simp add: fold_sunday_def)
qed

lemma fold_sunday_distinct [simp]: "distinct (fold_sunday vs)"
  unfolding fold_sunday_def by (rule fold_inv) simp_all

lemma show_term_star: "show_term t = ''*'' \<longleftrightarrow> t = (Star, None)"
proof (cases "fst t")
  case Star then show ?thesis by (cases t) (auto simp: show_term_def split: option.splits)
next
  case (Value v) then show ?thesis by (cases t) (auto simp: show_term_def show_nat_star)
next
  case (Range a b) then show ?thesis by (cases t) (auto simp: show_term_def show_nat_star)
qed

lemma show_field_star: "ts \<noteq> [] \<Longrightarrow> isWildcard (show_field ts) \<longleftrightarrow> ts = [(Star, None)]"
proof (cases ts)
  case (Cons t us)
  show ?thesis
  proof (cases us)
    case Nil then show ?thesis by (simp add: Cons show_field_def isWildcard_def show_term_star)
  next
    case (Cons u vs)
    then have "2 \<le> length (show_field ts)"
      using \<open>ts = t # us\<close> show_term_nonempty[of t] by (cases "show_term t") (simp_all add: show_field_def)
    then show ?thesis using Cons \<open>ts = t # us\<close> by (auto simp: isWildcard_def)
  qed
qed simp

lemma parse_show_fields:
  assumes "field_ok MINUTE_RANGE a" "field_ok HOUR_RANGE b" "field_ok DOM_RANGE c" "field_ok MONTH_RANGE d"
    "field_ok DOW_RANGE e"
  shows "\<exists>x. parseCronExpression (show_cron [a, b, c, d, e]) = Inr x \<and>
    set (minutes x) = field_values MINUTE_RANGE a \<and> set (hours x) = field_values HOUR_RANGE b \<and>
    set (daysOfMonth x) = field_values DOM_RANGE c \<and> set (months x) = field_values MONTH_RANGE d \<and>
    set (daysOfWeek x) = (\<lambda>v. if v = 7 then 0 else v) ` field_values DOW_RANGE e \<and>
    daysOfMonthWildcard x = (c = [(Star, None)]) \<and> daysOfWeekWildcard x = (e = [(Star, None)])"
proof -
  note ok = assms[unfolded field_ok_def]
  have r: "fst MINUTE_RANGE \<le> snd MINUTE_RANGE" "fst HOUR_RANGE \<le> snd HOUR_RANGE" "fst DOM_RANGE \<le> snd DOM_RANGE"
    "fst MONTH_RANGE \<le> snd MONTH_RANGE" "fst DOW_RANGE \<le> snd DOW_RANGE"
    by (simp_all add: MINUTE_RANGE_def HOUR_RANGE_def DOM_RANGE_def MONTH_RANGE_def DOW_RANGE_def)
  obtain o1 where 1: "parseField (show_field a) MINUTE_RANGE ''minute'' = Inr o1" "set o1 = field_values MINUTE_RANGE a"
    using parseField_show[OF r(1) assms(1)] by metis
  obtain o2 where 2: "parseField (show_field b) HOUR_RANGE ''hour'' = Inr o2" "set o2 = field_values HOUR_RANGE b"
    using parseField_show[OF r(2) assms(2)] by metis
  obtain o3 where 3: "parseField (show_field c) DOM_RANGE ''day-of-month'' = Inr o3" "set o3 = field_values DOM_RANGE c"
    using parseField_show[OF r(3) assms(3)] by metis
  obtain o4 where 4: "parseField (show_field d) MONTH_RANGE ''month'' = Inr o4" "set o4 = field_values MONTH_RANGE d"
    using parseField_show[OF r(4) assms(4)] by metis
  obtain o5 where 5: "parseField (show_field e) DOW_RANGE ''day-of-week'' = Inr o5" "set o5 = field_values DOW_RANGE e"
    using parseField_show[OF r(5) assms(5)] by metis
  show ?thesis
    using ok 1 2 3 4 5
    by (simp add: parseCronExpression_def Let_def show_cron_parts parse_fields_def fold_sunday_set show_field_star)
qed

text \<open>
  C12. The parser implements the cron grammar: every expression written with in-range terms (stars, values,
  ranges, each with an optional positive step, in comma-separated lists) parses, and the sets of the
  result are exactly the values the terms denote, with Sunday written 7 folded to 0; a day field counts
  as unrestricted exactly when it is a lone star.
\<close>
theorem parse_show_cron:
  assumes "field_ok MINUTE_RANGE a" "field_ok HOUR_RANGE b" "field_ok DOM_RANGE c" "field_ok MONTH_RANGE d"
    "field_ok DOW_RANGE e"
  shows "\<exists>x. parseCronExpression (show_cron [a, b, c, d, e]) = Inr x \<and>
    set (minutes x) = field_values MINUTE_RANGE a \<and> set (hours x) = field_values HOUR_RANGE b \<and>
    set (daysOfMonth x) = field_values DOM_RANGE c \<and> set (months x) = field_values MONTH_RANGE d \<and>
    set (daysOfWeek x) = (\<lambda>v. if v = 7 then 0 else v) ` field_values DOW_RANGE e \<and>
    daysOfMonthWildcard x = (c = [(Star, None)]) \<and> daysOfWeekWildcard x = (e = [(Star, None)])"
  using assms by (rule parse_show_fields)

theorem parse_show_cron_witness:
  "\<exists>x. parseCronExpression ''*/15,7 9-17 1 1-12/3 5-7'' = Inr x \<and> set (daysOfWeek x) = {0, 5, 6}"
proof -
  have v: "field_values DOW_RANGE [(Range 5 7, None)] = {5, 6, 7}"
    by (auto simp: field_values_def term_values_def)
  have n: "show_cron [[(Star, Some 15), (Value 7, None)], [(Range 9 17, None)], [(Value 1, None)],
      [(Range 1 12, Some 3)], [(Range 5 7, None)]] = ''*/15,7 9-17 1 1-12/3 5-7''"
    by code_simp
  have ok: "field_ok MINUTE_RANGE [(Star, Some 15), (Value 7, None)]" "field_ok HOUR_RANGE [(Range 9 17, None)]"
    "field_ok DOM_RANGE [(Value 1, None)]" "field_ok MONTH_RANGE [(Range 1 12, Some 3)]"
    "field_ok DOW_RANGE [(Range 5 7, None)]"
    by (simp_all add: field_ok_def MINUTE_RANGE_def HOUR_RANGE_def DOM_RANGE_def MONTH_RANGE_def DOW_RANGE_def)
  show ?thesis using parse_show_cron[OF ok] unfolding n v by auto
qed

theorem hasFireWithinYears_exact_witness:
  "\<not> hasFireWithinYears (fixed 0) \<lparr>raw = [], minutes = [], hours = [0], daysOfMonth = [1], months = [1],
     daysOfWeek = [0], daysOfMonthWildcard = True, daysOfWeekWildcard = True\<rparr> 5 1700000000000"
  using hasFireWithinYears_exact[of 5 0 "\<lparr>raw = [], minutes = [], hours = [0], daysOfMonth = [1], months = [1],
     daysOfWeek = [0], daysOfMonthWildcard = True, daysOfWeekWildcard = True\<rparr>" 1700000000000]
  by (simp add: fire_times_def fires_def listed_def)

text \<open>What any successful parse satisfies.\<close>

definition set_ok :: "nat \<times> nat \<Rightarrow> nat list \<Rightarrow> bool" where
  "set_ok r s \<longleftrightarrow> s \<noteq> [] \<and> distinct s \<and> set s \<subseteq> {fst r .. snd r}"

definition cron_ok :: "cron \<Rightarrow> bool" where
  "cron_ok x \<longleftrightarrow> set_ok MINUTE_RANGE (minutes x) \<and> set_ok HOUR_RANGE (hours x) \<and>
     set_ok DOM_RANGE (daysOfMonth x) \<and> set_ok MONTH_RANGE (months x) \<and> set_ok (0, 6) (daysOfWeek x)"

lemma term_range_bounds:
  "term_range s stepped lowest highest name = Inr (lo, hi) \<Longrightarrow> lowest \<le> highest \<Longrightarrow>
   lowest \<le> lo \<and> lo \<le> hi \<and> hi \<le> highest"
  by (auto simp: term_range_def ebind_eq_Inr split: if_splits option.splits)

lemma term_step_pos: "term_step t name = Inr (s, Some n) \<Longrightarrow> 0 < n"
  by (auto simp: term_step_def ebind_eq_Inr split: if_splits option.splits)

lemma addTerm_ok:
  assumes "addTerm out t lo hi name = Inr out'" "lo \<le> hi" "distinct out" "set out \<subseteq> {lo .. hi}"
  shows "out' \<noteq> [] \<and> distinct out' \<and> set out' \<subseteq> {lo .. hi}"
proof -
  obtain s st a b where e: "term_step t name = Inr (s, st)" "term_range s (st \<noteq> None) lo hi name = Inr (a, b)"
    "out' = add_range a b (case st of None \<Rightarrow> 1 | Some n \<Rightarrow> n) out"
    using assms(1) by (auto simp: addTerm_def ebind_eq_Inr)
  define n where "n = (case st of None \<Rightarrow> 1 | Some n \<Rightarrow> n)"
  have n: "0 < n" using e(1) term_step_pos by (cases st) (auto simp: n_def)
  have b: "lo \<le> a" "a \<le> b" "b \<le> hi" using term_range_bounds[OF e(2) assms(2)] by auto
  have s: "set out' = set out \<union> {x. a \<le> x \<and> x \<le> b \<and> n dvd x - a}"
    using add_range_set[OF n] by (simp add: e(3) n_def)
  then have "a \<in> set out'" using b by simp
  then show ?thesis using s b assms(3,4) by (auto simp: e(3))
qed

lemma parseField_ok:
  assumes "parseField f r name = Inr out" "fst r \<le> snd r"
  shows "set_ok r out"
proof -
  have loop: "efold (\<lambda>t out. if t = [] then Inl (TermEmpty name) else addTerm out t (fst r) (snd r) name) ts o0 = Inr o1 \<Longrightarrow>
      distinct o0 \<Longrightarrow> set o0 \<subseteq> {fst r .. snd r} \<Longrightarrow> distinct o1 \<and> set o1 \<subseteq> {fst r .. snd r}" for ts o0 o1
  proof (induction ts arbitrary: o0)
    case (Cons t ts)
    then obtain o2 where o2: "addTerm o0 t (fst r) (snd r) name = Inr o2"
      "efold (\<lambda>t out. if t = [] then Inl (TermEmpty name) else addTerm out t (fst r) (snd r) name) ts o2 = Inr o1"
      by (auto simp: ebind_eq_Inr split: if_splits)
    show ?case using Cons.IH[OF o2(2)] addTerm_ok[OF o2(1) assms(2) Cons.prems(2,3)] by blast
  qed simp
  have "out \<noteq> []" and e: "efold (\<lambda>t out. if t = [] then Inl (TermEmpty name) else addTerm out t (fst r) (snd r) name)
      (split_char CHR '','' f) [] = Inr out"
    using assms(1) by (auto simp: parseField_def ebind_eq_Inr split: if_splits)
  then show ?thesis using loop[OF e] by (simp add: set_ok_def)
qed

lemma fold_sunday_ok: "set_ok DOW_RANGE vs \<Longrightarrow> set_ok (0, 6) (fold_sunday vs)"
proof -
  assume a: "set_ok DOW_RANGE vs"
  have "set (fold_sunday vs) \<noteq> {}" using a unfolding fold_sunday_set image_is_empty set_ok_def by simp
  then show ?thesis using a fold_sunday_set[of vs] by (auto simp: set_ok_def DOW_RANGE_def)
qed

text \<open>
  C13. Whatever text parses, the result is well formed: the five sets are non-empty, hold no value twice and
  only values of their field (days of the week 0 to 6).
\<close>
theorem parse_cron_ok:
  assumes "parseCronExpression s = Inr x"
  shows "cron_ok x"
proof -
  have r: "fst MINUTE_RANGE \<le> snd MINUTE_RANGE" "fst HOUR_RANGE \<le> snd HOUR_RANGE" "fst DOM_RANGE \<le> snd DOM_RANGE"
    "fst MONTH_RANGE \<le> snd MONTH_RANGE" "fst DOW_RANGE \<le> snd DOW_RANGE"
    by (simp_all add: MINUTE_RANGE_def HOUR_RANGE_def DOM_RANGE_def MONTH_RANGE_def DOW_RANGE_def)
  show ?thesis using assms
    by (auto simp: parseCronExpression_def Let_def parse_fields_def ebind_eq_Inr cron_ok_def
        intro: r[THEN parseField_ok[rotated]] fold_sunday_ok[OF parseField_ok[OF _ r(5)]] split: if_splits list.splits)
qed

theorem parse_cron_ok_witness:
  "\<exists>x. parseCronExpression ''0 9 * * 1-5'' = Inr x \<and> cron_ok x"
proof -
  have ok: "field_ok MINUTE_RANGE [(Value 0, None)]" "field_ok HOUR_RANGE [(Value 9, None)]"
    "field_ok DOM_RANGE [(Star, None)]" "field_ok MONTH_RANGE [(Star, None)]" "field_ok DOW_RANGE [(Range 1 5, None)]"
    by (simp_all add: field_ok_def MINUTE_RANGE_def HOUR_RANGE_def DOM_RANGE_def MONTH_RANGE_def DOW_RANGE_def)
  have n: "show_cron [[(Value 0, None)], [(Value 9, None)], [(Star, None)], [(Star, None)], [(Range 1 5, None)]] =
      ''0 9 * * 1-5''"
    by code_simp
  have "\<exists>x. parseCronExpression ''0 9 * * 1-5'' = Inr x" using parse_show_fields[OF ok] unfolding n by blast
  then show ?thesis using parse_cron_ok[of "''0 9 * * 1-5''"] by blast
qed

section \<open>Descriptions\<close>

lemma walk_step_iff:
  "walk_step k e vs = Some r \<longleftrightarrow> vs = map (\<lambda>i. e + i * k) [0 ..< length vs] \<and> r = e + length vs * k"
proof (induction vs arbitrary: e)
  case (Cons v vs)
  have "map (\<lambda>i. e + i * k) [0 ..< Suc n] = e # map (\<lambda>i. e + k + i * k) [0 ..< n]" for n
    by (induction n) (simp_all add: algebra_simps)
  then show ?case using Cons by (auto simp: add.assoc)
qed auto

lemma detectStep_iff:
  assumes "distinct s" "set s \<subseteq> {lo .. hi}"
  shows "(detectStep s lo hi = Some k) =
     (2 \<le> length s \<and> 0 < k \<and> sort s = map (\<lambda>i. lo + i * k) [0 ..< length s])"
proof (cases "sort s")
  case Nil
  then have "length (sort s) = 0" by simp
  then show ?thesis by (simp add: detectStep_def)
next
  case (Cons v0 vs0)
  show ?thesis
  proof (cases vs0)
    case Nil
    have "length s = 1" using arg_cong[OF \<open>sort s = v0 # vs0\<close>, of length] Nil by simp
    then show ?thesis using Nil \<open>sort s = v0 # vs0\<close> by (simp add: detectStep_def)
  next
    case (Cons v1 vs)
    define n where "n = length vs"
    have s: "sort s = v0 # v1 # vs" using Cons \<open>sort s = v0 # vs0\<close> by simp
    have len: "length s = n + 2" using arg_cong[OF s, of length] by (simp add: n_def)
    have "sorted (v0 # v1 # vs)" "distinct (v0 # v1 # vs)"
      using assms(1) unfolding s[symmetric] by simp_all
    then have lt: "v0 < v1" by auto
    have last: "last (v0 # v1 # vs) \<le> hi"
    proof -
      have "last (v0 # v1 # vs) \<in> set (sort s)" unfolding s by (rule last_in_set) simp
      then show ?thesis using assms(2) by auto
    qed
    have m: "map (\<lambda>i. lo + i * k) [0 ..< n + 2] = lo # (lo + k) # map (\<lambda>i. lo + (i + 2) * k) [0 ..< n]" for k
      by (induction n) (simp_all add: algebra_simps)
    have fin: "lo + (n + 1) * k \<le> hi" if "v0 # v1 # vs = map (\<lambda>i. lo + i * k) [0 ..< n + 2]" for k
      using last unfolding that by (simp add: last_map)
    show ?thesis
    proof
      assume "detectStep s lo hi = Some k"
      then show "2 \<le> length s \<and> 0 < k \<and> sort s = map (\<lambda>i. lo + i * k) [0 ..< length s]"
        using lt by (auto simp: detectStep_def s len n_def walk_step_iff simp del: walk_step.simps upt_Suc
            split: if_splits option.splits)
    next
      assume r: "2 \<le> length s \<and> 0 < k \<and> sort s = map (\<lambda>i. lo + i * k) [0 ..< length s]"
      then have e: "v0 # v1 # vs = map (\<lambda>i. lo + i * k) [0 ..< n + 2]" by (simp add: s len)
      then have v: "v0 = lo" "v1 = lo + k" unfolding m by simp_all
      have "walk_step k lo (v0 # v1 # vs) = Some (lo + (n + 2) * k)"
        unfolding walk_step_iff using e by (simp add: n_def del: upt_Suc)
      then show "detectStep s lo hi = Some k"
        using conjunct1[OF conjunct2[OF r]] fin[OF e] s
        unfolding v by (simp add: detectStep_def del: walk_step.simps)
    qed
  qed
qed

text \<open>
  \<open>detectStep\<close> recognises exactly the sets that start at the lowest value and go on in equal steps, two or
  more of them. How far they go is not part of the condition.
\<close>
lemma detectStep_exact:
  assumes "distinct s" "set s \<subseteq> {lo .. hi}"
  shows "(detectStep s lo hi = Some k) =
     (2 \<le> length s \<and> 0 < k \<and> sort s = map (\<lambda>i. lo + i * k) [0 ..< length s])"
  using assms by (rule detectStep_iff)

theorem detectStep_exact_witness:
  "(detectStep [30, 0] 0 59 = Some 30) = (sort [30, 0] = [0, 30 :: nat])"
  using detectStep_exact[of "[30, 0]" 0 59 30] by (simp add: numeral_eq_Suc)

lemma isFullRange_iff:
  "distinct s \<Longrightarrow> lo \<le> hi \<Longrightarrow> isFullRange s lo hi \<longleftrightarrow> set s = {lo .. hi}"
proof
  assume d: "distinct s" "lo \<le> hi" and f: "isFullRange s lo hi"
  have sub: "{lo .. hi} \<subseteq> set s"
    using f by (auto simp: isFullRange_def list_all_iff atLeastLessThanSuc_atLeastAtMost[symmetric])
  have "card (set s) = card {lo .. hi}"
    using f d by (simp add: isFullRange_def distinct_card Suc_diff_le)
  then show "set s = {lo .. hi}" using card_subset_eq[OF _ sub] by simp
next
  assume d: "distinct s" "lo \<le> hi" and e: "set s = {lo .. hi}"
  have "length s = hi - lo + 1" using distinct_card[OF d(1)] d(2) by (simp add: e Suc_diff_le)
  then show "isFullRange s lo hi" by (auto simp: isFullRange_def list_all_iff e)
qed

text \<open>
  The description of an expression that fires in every hour of every day depends on the step of its minutes
  only: any two or more minutes \<open>0, k, 2k, \<dots>\<close> are described as every \<open>k\<close> minutes, even when they stop well
  before the hour is over. The witness is \<open>0,5 * * * *\<close>, which fires twice an hour.
\<close>
theorem cronToHuman_ignores_end:
  assumes "cron_ok x" "set (hours x) = {0 .. 23}" "set (months x) = {1 .. 12}"
    "daysOfMonthWildcard x" "daysOfWeekWildcard x"
    "sort (minutes x) = map (\<lambda>i. i * k) [0 ..< n]" "2 \<le> n" "1 < k"
  shows "cronToHuman x = ''every '' @ show_nat k @ '' minutes''"
proof -
  have ok: "distinct (minutes x)" "set (minutes x) \<subseteq> {0 .. 59}" "distinct (hours x)" "distinct (months x)"
    using assms(1) by (simp_all add: cron_ok_def set_ok_def MINUTE_RANGE_def)
  have "length (minutes x) = n" using arg_cong[OF assms(6), of length] by simp
  then have "detectStep (minutes x) 0 59 = Some k"
    using detectStep_iff[OF ok(1,2), of k] assms(6,7,8) by simp
  moreover have "isFullRange (hours x) 0 23" "isFullRange (months x) 1 12"
    using isFullRange_iff[OF ok(3), of 0 23] isFullRange_iff[OF ok(4), of 1 12] assms(2,3) by simp_all
  ultimately show ?thesis
    using assms(4,5,8) by (simp add: cronToHuman_def human_minutes_def or_else_def)
qed

theorem cronToHuman_ignores_end_witness:
  "cronToHuman \<lparr>raw = ''0,5 * * * *'', minutes = [0, 5], hours = [0 ..< 24], daysOfMonth = [1 ..< 32],
     months = [1 ..< 13], daysOfWeek = [0 ..< 7], daysOfMonthWildcard = True, daysOfWeekWildcard = True\<rparr> =
   ''every 5 minutes''"
proof -
  define x where "x = \<lparr>raw = ''0,5 * * * *'', minutes = [0, 5], hours = [0 ..< 24], daysOfMonth = [1 ..< 32],
     months = [1 ..< 13], daysOfWeek = [0 ..< 7], daysOfMonthWildcard = True, daysOfWeekWildcard = True\<rparr>"
  have ok: "cron_ok x"
    by (auto simp: x_def cron_ok_def set_ok_def MINUTE_RANGE_def HOUR_RANGE_def DOM_RANGE_def MONTH_RANGE_def)
  have sets: "set (hours x) = {0 .. 23}" "set (months x) = {1 .. 12}" by (auto simp: x_def)
  have "sort (minutes x) = map (\<lambda>i. i * 5) [0 ..< 2]" by (simp add: x_def numeral_eq_Suc)
  moreover have "daysOfMonthWildcard x" "daysOfWeekWildcard x" by (simp_all add: x_def)
  moreover have "show_nat 5 = ''5''" by code_simp
  ultimately have "cronToHuman x = ''every 5 minutes''"
    using cronToHuman_ignores_end[OF ok sets] by fastforce
  then show ?thesis by (simp add: x_def)
qed

end
