(* ===== verification/Jitter.thy ===== *)
theory Jitter imports Cron_Proofs "HOL-Library.Word" Complex_Main begin

text \<open>
  The deterministic jitter of cron fire times: \<^verbatim>\<open>app/cron/jitter.ts\<close>. The hash of a task id is computed in
  32-bit words; the fraction and the offsets, floating-point numbers in the code, are rationals, so the
  rounding of the code's products is not modelled.
\<close>

section \<open>Definitions\<close>

record jitter_config =
  recurringMaxFractionOfPeriod :: rat
  recurringMaxMs :: rat
  oneShotMaxMs :: rat

definition DEFAULT_CRON_JITTER_CONFIG :: jitter_config where
  "DEFAULT_CRON_JITTER_CONFIG =
     \<lparr>recurringMaxFractionOfPeriod = 1 / 10, recurringMaxMs = 15 * 60000, oneShotMaxMs = 90000\<rparr>"

definition MS_PER_DAY :: int where "MS_PER_DAY = 24 * 60 * 60000"

definition hex_val :: "char \<Rightarrow> nat option" where
  "hex_val c =
     (let n = (of_char c :: nat) in
      if 48 \<le> n \<and> n \<le> 57 then Some (n - 48)
      else if 97 \<le> n \<and> n \<le> 102 then Some (n - 87)
      else if 65 \<le> n \<and> n \<le> 70 then Some (n - 55)
      else None)"

definition is_hex8 :: "string \<Rightarrow> bool" where
  "is_hex8 s \<longleftrightarrow> length s = 8 \<and> list_all (\<lambda>c. hex_val c \<noteq> None) s"

definition read_hex :: "string \<Rightarrow> nat" where
  "read_hex s = foldl (\<lambda>n c. n * 16 + the (hex_val c)) 0 s"

definition hash_id :: "string \<Rightarrow> 32 word" where
  "hash_id s = foldl (\<lambda>h c. push_bit 5 h + h + of_nat (of_char c)) 5381 s"

definition fractionFromId :: "string \<Rightarrow> rat" where
  "fractionFromId s =
     (if is_hex8 s then of_nat (read_hex s) / 4294967296
      else of_int (uint (hash_id s)) / 4294967296)"

definition jitteredNextCronRunMs :: "zone \<Rightarrow> string \<Rightarrow> cron \<Rightarrow> int \<Rightarrow> jitter_config \<Rightarrow> bool \<Rightarrow> rat" where
  "jitteredNextCronRunMs tz taskId parsed idealMs config noJitter =
     (if noJitter then of_int idealMs
      else
        let period = (case computeNextCronRun tz parsed idealMs of
              Some nextNext \<Rightarrow> if idealMs < nextNext then nextNext - idealMs else MS_PER_DAY
            | None \<Rightarrow> MS_PER_DAY);
            limit = min (of_int period * recurringMaxFractionOfPeriod config) (recurringMaxMs config)
        in if \<not> 0 < limit then of_int idealMs
           else of_int idealMs + limit * fractionFromId taskId)"

definition oneShotJitteredNextCronRunMs ::
    "zone \<Rightarrow> string \<Rightarrow> int option \<Rightarrow> int \<Rightarrow> jitter_config \<Rightarrow> bool \<Rightarrow> rat" where
  "oneShotJitteredNextCronRunMs tz taskId createdAt idealMs config noJitter =
     (if noJitter then of_int idealMs
      else if idealMs mod MS_PER_MINUTE \<noteq> 0 then of_int idealMs
      else if getMinutes tz idealMs \<noteq> 0 \<and> getMinutes tz idealMs \<noteq> 30 then of_int idealMs
      else if \<not> 0 < oneShotMaxMs config then of_int idealMs
      else
        let shifted = of_int idealMs + - oneShotMaxMs config * fractionFromId taskId
        in case createdAt of
             Some c \<Rightarrow> if shifted < of_int c then of_int idealMs else shifted
           | None \<Rightarrow> shifted)"

section \<open>Bounds\<close>

lemma hex_val_lt: "hex_val c = Some n \<Longrightarrow> n < 16"
  by (auto simp: hex_val_def Let_def split: if_splits)

lemma read_hex_lt: "list_all (\<lambda>c. hex_val c \<noteq> None) s \<Longrightarrow> read_hex s < 16 ^ length s"
proof (induction s rule: rev_induct)
  case (snoc c s)
  then obtain d where "hex_val c = Some d" "d < 16" using hex_val_lt by auto
  then show ?case using snoc by (simp add: read_hex_def)
qed (simp add: read_hex_def)

lemma fraction_bounds: "0 \<le> fractionFromId s" "fractionFromId s < 1"
proof -
  have h: "read_hex s < 4294967296" if "is_hex8 s" using read_hex_lt[of s] that by (simp add: is_hex8_def)
  have "of_nat (read_hex s) < (4294967296 :: rat)" if "is_hex8 s"
    using h[OF that] of_nat_less_iff[of "read_hex s" 4294967296, where ?'a = rat] by simp
  moreover have "uint (hash_id s) < 4294967296" using uint_lt2p[of "hash_id s"] by simp
  then have "of_int (uint (hash_id s)) < (4294967296 :: rat)"
    using of_int_less_iff[of "uint (hash_id s)" 4294967296, where ?'a = rat] by simp
  moreover have "0 \<le> uint (hash_id s)" by simp
  then have "0 \<le> (of_int (uint (hash_id s)) :: rat)" by (simp only: of_int_0_le_iff)
  ultimately show "0 \<le> fractionFromId s" "fractionFromId s < 1"
    by (simp_all only: fractionFromId_def split: if_splits) simp_all
qed

lemma scaled_fraction: "0 < (c :: rat) \<Longrightarrow> 0 \<le> c * fractionFromId s \<and> c * fractionFromId s < c"
  using fraction_bounds[of s] by (simp add: mult_less_cancel_left2)

text \<open>
  The jitter of a recurring task only delays it, by less than the configured maximum; and when the
  configured fraction of the period is at most one, the expression does not fire again before the delayed
  time has come, if the zone keeps its offset.
\<close>
lemma jitter_recurring_bounds:
  assumes "0 < recurringMaxMs config" "recurringMaxFractionOfPeriod config \<le> 1"
  shows "of_int idealMs \<le> jitteredNextCronRunMs (fixed tz) taskId parsed idealMs config off \<and>
    jitteredNextCronRunMs (fixed tz) taskId parsed idealMs config off < of_int idealMs + recurringMaxMs config \<and>
    {t \<in> fire_times (fixed tz) parsed idealMs 2635200.
       of_int t \<le> jitteredNextCronRunMs (fixed tz) taskId parsed idealMs config off} = {}"
proof -
  define F where "F = fire_times (fixed tz) parsed idealMs 2635200"
  define j where "j = jitteredNextCronRunMs (fixed tz) taskId parsed idealMs config off"
  define p where "p = (case computeNextCronRun (fixed tz) parsed idealMs of
      Some n \<Rightarrow> if idealMs < n then n - idealMs else MS_PER_DAY | None \<Rightarrow> MS_PER_DAY)"
  define l where "l = min (of_int p * recurringMaxFractionOfPeriod config) (recurringMaxMs config)"
  have p: "0 < p" by (simp add: p_def MS_PER_DAY_def split: option.splits)
  have F: "idealMs + p \<le> t" if "t \<in> F" for t
    using nextRunWithinMinutes_exact[of 2635200 tz parsed idealMs] that
    by (auto simp: p_def F_def computeNextCronRun_def fire_times_def disjoint_iff not_less split: option.splits)
  have "of_int p * recurringMaxFractionOfPeriod config \<le> of_int p * 1"
    using p assms(2) by (intro mult_left_mono) simp_all
  then have lp: "l \<le> of_int p" unfolding l_def by linarith
  have j: "j = of_int idealMs \<or> 0 < l \<and> j = of_int idealMs + l * fractionFromId taskId"
    unfolding j_def jitteredNextCronRunMs_def Let_def p_def[symmetric] l_def[symmetric] by simp
  then have b: "of_int idealMs \<le> j" "j < of_int idealMs + recurringMaxMs config" "j < of_int (idealMs + p)"
    using scaled_fraction[of l taskId] assms(1) p lp by (auto simp: l_def)
  have "\<not> of_int t \<le> j" if "t \<in> F" for t
  proof -
    have "(of_int (idealMs + p) :: rat) \<le> of_int t" using F[OF that] by (simp only: of_int_le_iff)
    then show ?thesis using b(3) by linarith
  qed
  then show ?thesis using b(1,2) unfolding j_def F_def by blast
qed

theorem jitter_recurring_bounds_witness:
  "1700000000000 \<le> jitteredNextCronRunMs (fixed 0) ''80000000'' \<lparr>raw = [], minutes = [0], hours = [9], daysOfMonth = [1],
     months = [1], daysOfWeek = [0], daysOfMonthWildcard = True, daysOfWeekWildcard = True\<rparr> 1700000000000
     DEFAULT_CRON_JITTER_CONFIG False"
  using jitter_recurring_bounds[of DEFAULT_CRON_JITTER_CONFIG 1700000000000 0 "''80000000''"
      "\<lparr>raw = [], minutes = [0], hours = [9], daysOfMonth = [1], months = [1], daysOfWeek = [0],
        daysOfMonthWildcard = True, daysOfWeekWildcard = True\<rparr>" False]
  by (simp add: DEFAULT_CRON_JITTER_CONFIG_def)

text \<open>
  The jitter of a one-shot task only brings it forward: by less than the configured maximum, only when its
  time is a full hour or half hour, and never to before the task was created.
\<close>
lemma jitter_one_shot_bounds:
  assumes "0 < oneShotMaxMs config" "c \<le> idealMs"
    and j: "j = oneShotJitteredNextCronRunMs tz taskId (Some c) idealMs config off"
  shows "of_int idealMs - oneShotMaxMs config < j \<and> j \<le> of_int idealMs \<and> of_int c \<le> j \<and>
    (j = of_int idealMs \<or>
     \<not> off \<and> idealMs mod 60000 = 0 \<and> (getMinutes tz idealMs = 0 \<or> getMinutes tz idealMs = 30))"
proof -
  have c: "(of_int c :: rat) \<le> of_int idealMs" using assms(2) by simp
  note f = scaled_fraction[OF assms(1), of taskId]
  show ?thesis
    unfolding j oneShotJitteredNextCronRunMs_def Let_def MS_PER_MINUTE_def using c f assms(1) by auto
qed

theorem jitter_one_shot_bounds_witness:
  "1699999500000 \<le> oneShotJitteredNextCronRunMs (fixed 0) ''80000000'' (Some 1699999500000) 1699999800000
     DEFAULT_CRON_JITTER_CONFIG False"
  using jitter_one_shot_bounds[of DEFAULT_CRON_JITTER_CONFIG 1699999500000 1699999800000, OF _ _ refl,
      of "fixed 0" "''80000000''" False]
  by (simp add: DEFAULT_CRON_JITTER_CONFIG_def)

end
