(* ===== verification/Dedupe.thy ===== *)
theory Dedupe imports Messages "HOL-Library.List_Lexorder" begin

text \<open>
  Deduplication of tool calls: \<^verbatim>\<open>agent/toolDedupe/toolDedupeService.ts\<close> with the canonical arguments of
  \<^verbatim>\<open>_base/utils/canonical-args.ts\<close>.

  The registered state keys and the \<open>stepDeferreds\<close> field are the state record. A deferred is a cell of
  the store \<open>dd_promises\<close>, empty while it is pending and written at most once, so that a duplicate and
  the resolution of its original share it. Telemetry is two logs, without the hash of the arguments.
  \<open>JSON.parse\<close> is the parameter \<open>json_parse\<close>; an object's keys are distinct.
\<close>

section \<open>Canonical arguments\<close>

text \<open>
  The order in which a JavaScript object lists its own keys: array indices first, by value, then the
  others in insertion order.
\<close>

definition is_array_index :: "string \<Rightarrow> bool" where
  "is_array_index s \<longleftrightarrow> s \<noteq> [] \<and> list_all is_digit s \<and> (s = ''0'' \<or> hd s \<noteq> CHR ''0'') \<and> read_nat s < 4294967295"

definition own_keys :: "(string \<times> 'v) list \<Rightarrow> (string \<times> 'v) list" where
  "own_keys kvs =
     sort_key (\<lambda>(k, _). read_nat k) (filter (\<lambda>(k, _). is_array_index k) kvs) @
     filter (\<lambda>(k, _). \<not> is_array_index k) kvs"

fun sortJsonValue :: "json \<Rightarrow> json" where
  "sortJsonValue (JArr xs) = JArr (map sortJsonValue xs)"
| "sortJsonValue (JObj kvs) = JObj (own_keys (sort_key fst (map (\<lambda>(k, v). (k, sortJsonValue v)) kvs)))"
| "sortJsonValue v = v"

definition canonicalTelemetryArgs :: "json \<Rightarrow> string" where
  "canonicalTelemetryArgs args = json_stringify (sortJsonValue args)"

definition makeKey :: "string \<Rightarrow> json \<Rightarrow> string" where
  "makeKey toolName args = toolName @ '' '' @ canonicalTelemetryArgs args"

text \<open>Parsing the raw arguments of a call: the value, and whether the parse failed.\<close>

definition parseToolCallArguments :: "(string \<Rightarrow> json option) \<Rightarrow> string option \<Rightarrow> json \<times> bool" where
  "parseToolCallArguments json_parse raw =
     (case raw of
        None \<Rightarrow> (JObj [], False)
      | Some s \<Rightarrow>
          if s = [] then (JObj [], False)
          else case json_parse s of Some v \<Rightarrow> (v, False) | None \<Rightarrow> (JObj [], True))"

section \<open>Reminders\<close>

definition nl :: string where "nl = [CHR 0x0A]"

definition REMINDER_TEXT_1 :: string where
  "REMINDER_TEXT_1 = nl @ nl @ ''<system-reminder>'' @ nl @
     ''The same tool call has been repeated several times in a row. '' @
     ''Before making your next call, write one sentence stating what new information you expect it to produce. '' @
     ''Then act on that sentence: if it names something this result does not already give you, choose the action that best provides it; otherwise, continue with the evidence you already have.'' @
     nl @ ''</system-reminder>''"

definition makeReminderText2 :: "nat \<Rightarrow> string" where
  "makeReminderText2 repeatCount = nl @ nl @ ''<system-reminder>'' @ nl @
     ''The same tool call has now been issued '' @ show_nat repeatCount @ '' times in a row. '' @
     ''Choose exactly one of the following and state your choice before acting:'' @ nl @
     ''(1) Falsification check: run the cheapest test that could conclusively disprove your current approach, if such a test exists.'' @ nl @
     ''(2) Missing input: tell the user precisely what information or decision you need to proceed, and ask for it.'' @ nl @
     ''(3) Conclude: deliver your best result based on the evidence already gathered, listing anything that remains uncertain.'' @
     nl @ ''</system-reminder>''"

definition REMINDER_TEXT_3 :: string where
  "REMINDER_TEXT_3 = nl @ nl @ ''<system-reminder>'' @ nl @
     ''Write your final response now, without any further tool calls. '' @
     ''Cover: the current blocker, each approach you have tried and what it established, and the specific information or decision you need from the user to unblock progress. '' @
     ''Text only.'' @
     nl @ ''</system-reminder>''"

definition REPEAT_REMINDER_1_START :: nat where "REPEAT_REMINDER_1_START = 3"
definition REPEAT_REMINDER_2_START :: nat where "REPEAT_REMINDER_2_START = 5"
definition REPEAT_REMINDER_3_START :: nat where "REPEAT_REMINDER_3_START = 8"
definition REPEAT_FORCE_STOP_STREAK :: nat where "REPEAT_FORCE_STOP_STREAK = 12"

record dd_result =
  dr_output :: tool_output
  dr_isError :: bool
  dr_stopTurn :: "bool option"
  dr_message :: "string option"
  dr_truncated :: "bool option"

definition append_to_parts :: "string \<Rightarrow> content_part list \<Rightarrow> content_part list" where
  "append_to_parts reminder parts =
     (if parts = [] then [TextPart reminder]
      else case last parts of
        TextPart t \<Rightarrow> butlast parts @ [TextPart (t @ reminder)]
      | _ \<Rightarrow> parts @ [TextPart reminder])"

definition appendReminder :: "dd_result \<Rightarrow> string \<Rightarrow> dd_result" where
  "appendReminder result reminder =
     result\<lparr>dr_output := (case dr_output result of
       OutStr s \<Rightarrow> OutStr (s @ reminder)
     | OutParts ps \<Rightarrow> OutParts (append_to_parts reminder ps))\<rparr>"

definition forceStopResult :: "dd_result \<Rightarrow> string \<Rightarrow> dd_result" where
  "forceStopResult result reminder = (appendReminder result reminder)\<lparr>dr_stopTurn := Some True\<rparr>"

definition plain_result :: "string \<Rightarrow> bool \<Rightarrow> dd_result" where
  "plain_result s e = \<lparr>dr_output = OutStr s, dr_isError = e, dr_stopTurn = None, dr_message = None, dr_truncated = None\<rparr>"

definition DEDUPE_PLACEHOLDER_RESULT :: dd_result where
  "DEDUPE_PLACEHOLDER_RESULT = plain_result [] False"

definition lost_result :: dd_result where
  "lost_result = plain_result ''Tool call deduplicated but original result was lost'' True"

section \<open>State\<close>

datatype dup_type = SameStep | CrossStep

datatype repeat_action = ActNone | ActR1 | ActR2 | ActR3 | ActStop

record dedupe =
  dd_stepCalls :: "string list"
  dd_originalCallIndex :: "(string, nat) omap"
  dd_syntheticCallIds :: "string list"
  dd_callKeyByCallId :: "(string, string) omap"
  dd_consecutiveKey :: "string option"
  dd_consecutiveCount :: nat
  dd_activeTurnId :: "nat option"
  dd_activeStep :: nat
  dd_stepDeferreds :: "(string, nat) omap"
  dd_promises :: "dd_result option list"
  dd_dupLog :: "(string \<times> string \<times> dup_type) list"
  dd_repeatLog :: "(string \<times> nat \<times> repeat_action) list"

definition init_dedupe :: dedupe where
  "init_dedupe = \<lparr>dd_stepCalls = [], dd_originalCallIndex = [], dd_syntheticCallIds = [], dd_callKeyByCallId = [],
     dd_consecutiveKey = None, dd_consecutiveCount = 0, dd_activeTurnId = None, dd_activeStep = 0,
     dd_stepDeferreds = [], dd_promises = [], dd_dupLog = [], dd_repeatLog = []\<rparr>"

text \<open>\<open>deferred.resolve(v)\<close>: a promise keeps its first value.\<close>

definition resolve :: "nat \<Rightarrow> dd_result \<Rightarrow> dd_result option list \<Rightarrow> dd_result option list" where
  "resolve p v ps = (if p < length ps \<and> ps ! p = None then ps[p := Some v] else ps)"

section \<open>Steps\<close>

definition enter_turn :: "nat option \<Rightarrow> dedupe \<Rightarrow> dedupe" where
  "enter_turn turnId s =
     (if turnId \<noteq> None \<and> turnId \<noteq> dd_activeTurnId s
      then s\<lparr>dd_activeTurnId := turnId, dd_consecutiveKey := None, dd_consecutiveCount := 0\<rparr> else s)"

definition beginStep :: "nat option \<Rightarrow> nat option \<Rightarrow> dedupe \<Rightarrow> dedupe" where
  "beginStep turnId step s0 =
     (let s = enter_turn turnId s0 in
      s\<lparr>dd_activeStep := (case step of None \<Rightarrow> dd_activeStep s | Some n \<Rightarrow> n),
        dd_promises := fold (\<lambda>(_, p). resolve p lost_result) (dd_stepDeferreds s) (dd_promises s),
        dd_stepDeferreds := [], dd_stepCalls := [], dd_originalCallIndex := [], dd_syntheticCallIds := [],
        dd_callKeyByCallId := []\<rparr>)"

text \<open>One step of the streak: the last key and how many times in a row it came.\<close>

definition streak_step :: "string \<Rightarrow> string option \<times> nat \<Rightarrow> string option \<times> nat" where
  "streak_step key st = (if fst st = Some key then (fst st, snd st + 1) else (Some key, 1))"

definition endStep :: "dedupe \<Rightarrow> dedupe" where
  "endStep s =
     (let st = fold streak_step (dd_stepCalls s) (dd_consecutiveKey s, dd_consecutiveCount s)
      in s\<lparr>dd_consecutiveKey := fst st, dd_consecutiveCount := snd st\<rparr>)"

definition recordDupType :: "string \<Rightarrow> string \<Rightarrow> dup_type \<Rightarrow> dedupe \<Rightarrow> dedupe" where
  "recordDupType toolCallId toolName t s = s\<lparr>dd_dupLog := dd_dupLog s @ [(toolCallId, toolName, t)]\<rparr>"

definition checkToolCall :: "string \<Rightarrow> string \<Rightarrow> json \<Rightarrow> dedupe \<Rightarrow> dd_result option \<times> dedupe" where
  "checkToolCall toolCallId toolName args s =
     (let key = makeKey toolName args;
          index = length (dd_stepCalls s);
          s1 = s\<lparr>dd_stepCalls := dd_stepCalls s @ [key],
                 dd_callKeyByCallId := om_set toolCallId key (dd_callKeyByCallId s)\<rparr>
      in if om_get (dd_stepDeferreds s1) key \<noteq> None
         then (Some DEDUPE_PLACEHOLDER_RESULT,
               recordDupType toolCallId toolName SameStep
                 (s1\<lparr>dd_syntheticCallIds := os_add toolCallId (dd_syntheticCallIds s1)\<rparr>))
         else
           let s2 = s1\<lparr>dd_stepDeferreds := om_set key (length (dd_promises s1)) (dd_stepDeferreds s1),
                       dd_promises := dd_promises s1 @ [None],
                       dd_originalCallIndex := om_set toolCallId index (dd_originalCallIndex s1)\<rparr>
           in (None, if dd_consecutiveKey s2 = Some key \<and> 0 < dd_consecutiveCount s2
                     then recordDupType toolCallId toolName CrossStep s2 else s2))"

definition registerSkipped ::
    "(string \<Rightarrow> json option) \<Rightarrow> string \<Rightarrow> string \<Rightarrow> json \<Rightarrow> string option \<Rightarrow> dedupe \<Rightarrow> dedupe" where
  "registerSkipped json_parse toolCallId toolName args rawArguments s =
     (if om_get (dd_callKeyByCallId s) toolCallId \<noteq> None then s
      else snd (checkToolCall toolCallId toolName
        (case rawArguments of
           Some r \<Rightarrow> if snd (parseToolCallArguments json_parse rawArguments) then JStr r else args
         | None \<Rightarrow> args) s))"

text \<open>What \<open>finalizeResult\<close> makes of a result by the length of the streak.\<close>

definition repeat_result :: "nat \<Rightarrow> dd_result \<Rightarrow> dd_result \<times> repeat_action" where
  "repeat_result streak result =
     (if REPEAT_FORCE_STOP_STREAK \<le> streak then (forceStopResult result REMINDER_TEXT_3, ActStop)
      else if REPEAT_REMINDER_3_START \<le> streak then (appendReminder result REMINDER_TEXT_3, ActR3)
      else if REPEAT_REMINDER_2_START \<le> streak then (appendReminder result (makeReminderText2 streak), ActR2)
      else if REPEAT_REMINDER_1_START \<le> streak then (appendReminder result REMINDER_TEXT_1, ActR1)
      else (result, ActNone))"

text \<open>The answer of \<open>finalizeResult\<close>: a result, or the promise of the original's.\<close>

datatype finalized = FNow dd_result | FPromise nat

definition finalize_original :: "string \<Rightarrow> string \<Rightarrow> nat \<Rightarrow> dd_result \<Rightarrow> dedupe \<Rightarrow> dd_result \<times> dedupe" where
  "finalize_original key toolName index result s =
     (let streak = snd (fold streak_step (take (index + 1) (dd_stepCalls s))
                         (dd_consecutiveKey s, dd_consecutiveCount s));
          (finalResult, action) = repeat_result streak result
      in (finalResult,
          s\<lparr>dd_repeatLog := dd_repeatLog s @ (if 2 \<le> streak then [(toolName, streak, action)] else []),
            dd_promises := (case om_get (dd_stepDeferreds s) key of
                None \<Rightarrow> dd_promises s | Some p \<Rightarrow> resolve p finalResult (dd_promises s))\<rparr>))"

definition finalizeResult :: "string \<Rightarrow> string \<Rightarrow> dd_result \<Rightarrow> dedupe \<Rightarrow> finalized \<times> dedupe" where
  "finalizeResult toolCallId toolName result s =
     (case om_get (dd_callKeyByCallId s) toolCallId of
        None \<Rightarrow> (FNow result, s)
      | Some key \<Rightarrow>
          let s1 = s\<lparr>dd_callKeyByCallId := om_del toolCallId (dd_callKeyByCallId s)\<rparr> in
          if toolCallId \<in> set (dd_syntheticCallIds s1)
          then
            let s2 = s1\<lparr>dd_syntheticCallIds := os_del toolCallId (dd_syntheticCallIds s1)\<rparr> in
            (case om_get (dd_stepDeferreds s2) key of
               None \<Rightarrow> (FNow result, s2) | Some p \<Rightarrow> (FPromise p, s2))
          else case om_get (dd_originalCallIndex s1) toolCallId of
            None \<Rightarrow> (FNow result, s1)
          | Some index \<Rightarrow>
              let (r, s2) = finalize_original key toolName index result
                    (s1\<lparr>dd_originalCallIndex := om_del toolCallId (dd_originalCallIndex s1)\<rparr>)
              in (FNow r, s2))"

text \<open>The hook run after a tool call has executed, was vetoed or skipped.\<close>

definition didExecuteTool ::
    "(string \<Rightarrow> json option) \<Rightarrow> string \<Rightarrow> string \<Rightarrow> json \<Rightarrow> string option \<Rightarrow> dd_result \<Rightarrow> dedupe \<Rightarrow> finalized \<times> dedupe" where
  "didExecuteTool json_parse toolCallId toolName args rawArguments result s =
     finalizeResult toolCallId toolName result
       (registerSkipped json_parse toolCallId toolName args rawArguments s)"

section \<open>Sessions\<close>

text \<open>
  The sessions of the service: steps are begun and ended in turn; in between, calls are checked once each,
  and any call may settle, checked or not, once. The two ghosts are the keys of the finished steps of
  the turn, in order, and the calls the current step has seen.
\<close>

inductive dd_reach :: "(string \<Rightarrow> json option) \<Rightarrow> dedupe \<Rightarrow> string list \<Rightarrow> string list \<Rightarrow> bool \<Rightarrow> bool"
  for jp :: "string \<Rightarrow> json option" where
  dd_init: "dd_reach jp init_dedupe [] [] False"
| dd_begin: "dd_reach jp s past seen running \<Longrightarrow>
    past' = (if turnId \<noteq> None \<and> turnId \<noteq> dd_activeTurnId s then [] else past) \<Longrightarrow>
    dd_reach jp (beginStep turnId step s) past' [] True"
| dd_check: "dd_reach jp s past seen True \<Longrightarrow> c \<notin> set seen \<Longrightarrow>
    dd_reach jp (snd (checkToolCall c name args s)) past (c # seen) True"
| dd_did: "dd_reach jp s past seen True \<Longrightarrow> om_get (dd_callKeyByCallId s) c \<noteq> None \<or> c \<notin> set seen \<Longrightarrow>
    dd_reach jp (snd (didExecuteTool jp c name args raw result s)) past (c # seen) True"
| dd_end: "dd_reach jp s past seen True \<Longrightarrow> dd_reach jp (endStep s) (past @ dd_stepCalls s) seen False"

end
