(* ===== verification/Dedupe_Proofs.thy ===== *)
theory Dedupe_Proofs imports Dedupe "HOL-Library.Multiset" begin

text \<open>
  The streak of a call is the run of equal calls that ends with it, over the whole turn; a duplicate gets
  the result its original got; every promise is settled by a call of its step, at the latest by the
  next step; and the key of a call does not depend on the order of its arguments.
\<close>

section \<open>Streaks\<close>

definition trailing_run :: "'a list \<Rightarrow> nat" where
  "trailing_run xs = length (takeWhile (\<lambda>x. x = last xs) (rev xs))"

definition streak_of :: "string list \<Rightarrow> string option \<times> nat" where
  "streak_of xs = (if xs = [] then (None, 0) else (Some (last xs), trailing_run xs))"

lemma streak_snoc: "streak_step k (streak_of xs) = streak_of (xs @ [k])"
proof (cases xs rule: rev_cases)
  case Nil
  then show ?thesis by (simp add: streak_step_def streak_of_def trailing_run_def)
next
  case (snoc ys y)
  then show ?thesis by (simp add: streak_step_def streak_of_def trailing_run_def)
qed

lemma streak_fold: "fold streak_step ys (streak_of xs) = streak_of (xs @ ys)"
proof (induction ys arbitrary: xs)
  case (Cons y ys)
  then show ?case using Cons[of "xs @ [y]"] by (simp add: streak_snoc)
qed simp

lemma streak_of_Nil [simp]: "streak_of [] = (None, 0)"
  by (simp add: streak_of_def)

section \<open>Promises\<close>

lemma resolve_len [simp]: "length (resolve p v ps) = length ps"
  by (simp add: resolve_def)

lemma resolve_nth:
  "q < length ps \<Longrightarrow> resolve p v ps ! q = (if q = p \<and> ps ! q = None then Some v else ps ! q)"
  by (auto simp: resolve_def nth_list_update)

lemma resolve_all_len [simp]: "length (fold (\<lambda>(_, p). resolve p v) ds ps) = length ps"
  by (induction ds arbitrary: ps) auto

lemma resolve_all_nth:
  "q < length ps \<Longrightarrow> fold (\<lambda>(_, p). resolve p v) ds ps ! q =
     (if q \<in> snd ` set ds \<and> ps ! q = None then Some v else ps ! q)"
proof (induction ds arbitrary: ps)
  case (Cons d ds)
  obtain k p where d: "d = (k, p)" by (cases d)
  show ?case using Cons.IH[of "resolve p v ps"] Cons.prems by (auto simp: d resolve_nth)
qed simp

section \<open>The invariant\<close>

text \<open>An unsettled original: where its key stands, and its pending promise.\<close>

definition original_ok :: "dedupe \<Rightarrow> bool" where
  "original_ok s \<longleftrightarrow> (\<forall>c i. om_get (dd_originalCallIndex s) c = Some i \<longrightarrow>
     i < length (dd_stepCalls s) \<and> om_get (dd_callKeyByCallId s) c = Some (dd_stepCalls s ! i) \<and>
     c \<notin> set (dd_syntheticCallIds s) \<and>
     (\<exists>p. om_get (dd_stepDeferreds s) (dd_stepCalls s ! i) = Some p \<and> dd_promises s ! p = None))"

text \<open>Two unsettled originals have different keys.\<close>

definition originals_differ :: "dedupe \<Rightarrow> bool" where
  "originals_differ s \<longleftrightarrow> (\<forall>c c' k. om_get (dd_originalCallIndex s) c \<noteq> None \<longrightarrow>
     om_get (dd_originalCallIndex s) c' \<noteq> None \<longrightarrow>
     om_get (dd_callKeyByCallId s) c = Some k \<longrightarrow> om_get (dd_callKeyByCallId s) c' = Some k \<longrightarrow> c = c')"

definition deferreds_ok :: "dedupe \<Rightarrow> bool" where
  "deferreds_ok s \<longleftrightarrow> (\<forall>k p. om_get (dd_stepDeferreds s) k = Some p \<longrightarrow> p < length (dd_promises s)) \<and>
     (\<forall>k k' p. om_get (dd_stepDeferreds s) k = Some p \<longrightarrow> om_get (dd_stepDeferreds s) k' = Some p \<longrightarrow> k = k')"

text \<open>A pending promise belongs to an unsettled original of the step.\<close>

definition pending_ok :: "dedupe \<Rightarrow> bool" where
  "pending_ok s \<longleftrightarrow> (\<forall>p < length (dd_promises s). dd_promises s ! p = None \<longrightarrow>
     (\<exists>c k. om_get (dd_originalCallIndex s) c \<noteq> None \<and> om_get (dd_callKeyByCallId s) c = Some k \<and>
        om_get (dd_stepDeferreds s) k = Some p))"

definition calls_ok :: "string list \<Rightarrow> dedupe \<Rightarrow> bool" where
  "calls_ok seen s \<longleftrightarrow>
     (\<forall>c k. om_get (dd_callKeyByCallId s) c = Some k \<longrightarrow> c \<in> set seen \<and> om_get (dd_stepDeferreds s) k \<noteq> None \<and>
        (c \<in> set (dd_syntheticCallIds s)) = (om_get (dd_originalCallIndex s) c = None)) \<and>
     (\<forall>c \<in> set (dd_syntheticCallIds s). om_get (dd_callKeyByCallId s) c \<noteq> None) \<and>
     (\<forall>c. om_get (dd_originalCallIndex s) c \<noteq> None \<longrightarrow> om_get (dd_callKeyByCallId s) c \<noteq> None)"

definition dd_inv :: "string list \<Rightarrow> string list \<Rightarrow> dedupe \<Rightarrow> bool" where
  "dd_inv past seen s \<longleftrightarrow>
     (dd_consecutiveKey s, dd_consecutiveCount s) = streak_of past \<and>
     original_ok s \<and> originals_differ s \<and> deferreds_ok s \<and> pending_ok s \<and> calls_ok seen s"

lemmas dd_inv_defs = dd_inv_def original_ok_def originals_differ_def deferreds_ok_def pending_ok_def calls_ok_def

lemma dd_inv_init: "dd_inv [] [] init_dedupe"
  by (simp add: dd_inv_defs init_dedupe_def)

text \<open>Before a step begins every pending promise is a deferred of the old step, so \<open>beginStep\<close> settles it.\<close>

lemma beginStep_promises:
  assumes "dd_inv past seen s" "p < length (dd_promises s)"
  shows "dd_promises (beginStep t n s) ! p \<noteq> None"
proof -
  have f: "dd_stepDeferreds (enter_turn t s) = dd_stepDeferreds s" "dd_promises (enter_turn t s) = dd_promises s"
    by (simp_all add: enter_turn_def)
  show ?thesis
  proof (cases "dd_promises s ! p")
    case None
    then obtain k where "om_get (dd_stepDeferreds s) k = Some p"
      using assms by (auto simp: dd_inv_def pending_ok_def)
    then have "p \<in> snd ` set (dd_stepDeferreds s)" by (force dest: map_of_SomeD)
    then show ?thesis using assms(2) None by (simp add: beginStep_def Let_def f resolve_all_nth)
  next
    case (Some v)
    then show ?thesis using assms(2) by (simp add: beginStep_def Let_def f resolve_all_nth)
  qed
qed

lemma dd_inv_begin:
  assumes "dd_inv past seen s"
  shows "dd_inv (if t \<noteq> None \<and> t \<noteq> dd_activeTurnId s then [] else past) [] (beginStep t n s)"
proof -
  have len: "length (dd_promises (beginStep t n s)) = length (dd_promises s)"
    by (simp add: beginStep_def Let_def enter_turn_def)
  have "pending_ok (beginStep t n s)"
    unfolding pending_ok_def len using beginStep_promises[OF assms] by blast
  moreover have "(dd_consecutiveKey (beginStep t n s), dd_consecutiveCount (beginStep t n s)) =
      streak_of (if t \<noteq> None \<and> t \<noteq> dd_activeTurnId s then [] else past)"
    using assms by (simp add: beginStep_def Let_def enter_turn_def dd_inv_def)
  ultimately show ?thesis
    by (simp add: dd_inv_def original_ok_def originals_differ_def deferreds_ok_def calls_ok_def beginStep_def Let_def)
qed

lemma dd_inv_end: "dd_inv past seen s \<Longrightarrow> dd_inv (past @ dd_stepCalls s) seen (endStep s)"
  by (simp add: dd_inv_defs endStep_def Let_def streak_fold)

lemma fresh_call:
  assumes "dd_inv past seen s" "c \<notin> set seen"
  shows "om_get (dd_callKeyByCallId s) c = None" "om_get (dd_originalCallIndex s) c = None"
    "c \<notin> set (dd_syntheticCallIds s)"
proof -
  show k: "om_get (dd_callKeyByCallId s) c = None"
    using assms by (cases "om_get (dd_callKeyByCallId s) c") (auto simp: dd_inv_def calls_ok_def)
  show "om_get (dd_originalCallIndex s) c = None" "c \<notin> set (dd_syntheticCallIds s)"
    using assms(1) k by (auto simp: dd_inv_def calls_ok_def)
qed

lemma original_okD:
  assumes "dd_inv past seen s" "om_get (dd_originalCallIndex s) c = Some i"
  obtains p where "i < length (dd_stepCalls s)" "om_get (dd_callKeyByCallId s) c = Some (dd_stepCalls s ! i)"
    "c \<notin> set (dd_syntheticCallIds s)" "om_get (dd_stepDeferreds s) (dd_stepCalls s ! i) = Some p"
    "p < length (dd_promises s)" "dd_promises s ! p = None"
proof -
  obtain p where "i < length (dd_stepCalls s)" "om_get (dd_callKeyByCallId s) c = Some (dd_stepCalls s ! i)"
    "c \<notin> set (dd_syntheticCallIds s)" "om_get (dd_stepDeferreds s) (dd_stepCalls s ! i) = Some p"
    "dd_promises s ! p = None"
    using assms unfolding dd_inv_def original_ok_def by meson
  moreover from this have "p < length (dd_promises s)"
    using assms(1) unfolding dd_inv_def deferreds_ok_def by meson
  ultimately show ?thesis using that by blast
qed

lemma pendingD:
  assumes "dd_inv past seen s" "p < length (dd_promises s)" "dd_promises s ! p = None"
  obtains c k where "om_get (dd_originalCallIndex s) c \<noteq> None" "om_get (dd_callKeyByCallId s) c = Some k"
    "om_get (dd_stepDeferreds s) k = Some p"
  using assms unfolding dd_inv_def pending_ok_def by meson

definition add_duplicate :: "string \<Rightarrow> string \<Rightarrow> dedupe \<Rightarrow> dedupe" where
  "add_duplicate c key s = s\<lparr>dd_stepCalls := dd_stepCalls s @ [key],
     dd_callKeyByCallId := om_set c key (dd_callKeyByCallId s),
     dd_syntheticCallIds := os_add c (dd_syntheticCallIds s)\<rparr>"

definition add_original :: "string \<Rightarrow> string \<Rightarrow> dedupe \<Rightarrow> dedupe" where
  "add_original c key s = s\<lparr>dd_stepCalls := dd_stepCalls s @ [key],
     dd_callKeyByCallId := om_set c key (dd_callKeyByCallId s),
     dd_stepDeferreds := om_set key (length (dd_promises s)) (dd_stepDeferreds s),
     dd_promises := dd_promises s @ [None],
     dd_originalCallIndex := om_set c (length (dd_stepCalls s)) (dd_originalCallIndex s)\<rparr>"

lemma dd_inv_log [simp]:
  "dd_inv past seen (s\<lparr>dd_dupLog := l\<rparr>) \<longleftrightarrow> dd_inv past seen s"
  "dd_inv past seen (s\<lparr>dd_repeatLog := l'\<rparr>) \<longleftrightarrow> dd_inv past seen s"
  by (simp_all add: dd_inv_defs)

lemma checkToolCall_cases:
  "om_get (dd_stepDeferreds s) (makeKey name args) \<noteq> None \<Longrightarrow>
     checkToolCall c name args s =
       (Some DEDUPE_PLACEHOLDER_RESULT, recordDupType c name SameStep (add_duplicate c (makeKey name args) s))"
  "om_get (dd_stepDeferreds s) (makeKey name args) = None \<Longrightarrow>
     checkToolCall c name args s =
       (None, if dd_consecutiveKey s = Some (makeKey name args) \<and> 0 < dd_consecutiveCount s
              then recordDupType c name CrossStep (add_original c (makeKey name args) s)
              else add_original c (makeKey name args) s)"
  by (simp_all add: checkToolCall_def Let_def add_duplicate_def add_original_def recordDupType_def)

lemma dd_inv_duplicate:
  assumes inv: "dd_inv past seen s" and c: "c \<notin> set seen" and k: "om_get (dd_stepDeferreds s) key \<noteq> None"
  shows "dd_inv past (c # seen) (add_duplicate c key s)"
proof -
  note fr = fresh_call[OF inv c]
  have o: "original_ok (add_duplicate c key s)"
    unfolding original_ok_def
  proof (intro allI impI)
    fix c' i assume "om_get (dd_originalCallIndex (add_duplicate c key s)) c' = Some i"
    then have h: "om_get (dd_originalCallIndex s) c' = Some i" by (simp add: add_duplicate_def)
    then have ne: "c' \<noteq> c" using fr by auto
    obtain p where "i < length (dd_stepCalls s)" "om_get (dd_callKeyByCallId s) c' = Some (dd_stepCalls s ! i)"
      "c' \<notin> set (dd_syntheticCallIds s)" "om_get (dd_stepDeferreds s) (dd_stepCalls s ! i) = Some p"
      "dd_promises s ! p = None"
      using original_okD[OF inv h] by metis
    then show "i < length (dd_stepCalls (add_duplicate c key s)) \<and>
      om_get (dd_callKeyByCallId (add_duplicate c key s)) c' = Some (dd_stepCalls (add_duplicate c key s) ! i) \<and>
      c' \<notin> set (dd_syntheticCallIds (add_duplicate c key s)) \<and>
      (\<exists>p. om_get (dd_stepDeferreds (add_duplicate c key s)) (dd_stepCalls (add_duplicate c key s) ! i) = Some p \<and>
         dd_promises (add_duplicate c key s) ! p = None)"
      using ne by (simp add: add_duplicate_def nth_append)
  qed
  have d: "originals_differ (add_duplicate c key s)"
    using inv fr unfolding dd_inv_def originals_differ_def add_duplicate_def by (auto split: if_splits)
  have p: "pending_ok (add_duplicate c key s)"
    unfolding pending_ok_def
  proof (intro allI impI)
    fix p assume "p < length (dd_promises (add_duplicate c key s))" "dd_promises (add_duplicate c key s) ! p = None"
    then have "p < length (dd_promises s)" "dd_promises s ! p = None" by (simp_all add: add_duplicate_def)
    then obtain c' k' where h: "om_get (dd_originalCallIndex s) c' \<noteq> None" "om_get (dd_callKeyByCallId s) c' = Some k'"
      "om_get (dd_stepDeferreds s) k' = Some p"
      by (rule pendingD[OF inv])
    then have "c' \<noteq> c" using fr by auto
    then show "\<exists>c' k. om_get (dd_originalCallIndex (add_duplicate c key s)) c' \<noteq> None \<and>
        om_get (dd_callKeyByCallId (add_duplicate c key s)) c' = Some k \<and>
        om_get (dd_stepDeferreds (add_duplicate c key s)) k = Some p"
      using h by (intro exI[of _ c'] exI[of _ k']) (simp add: add_duplicate_def)
  qed
  have a: "calls_ok (c # seen) (add_duplicate c key s)"
    using inv fr k unfolding dd_inv_def calls_ok_def add_duplicate_def by (auto split: if_splits)
  show ?thesis using inv o d p a by (simp add: dd_inv_def deferreds_ok_def add_duplicate_def)
qed

lemma dd_inv_original:
  assumes inv: "dd_inv past seen s" and c: "c \<notin> set seen" and k: "om_get (dd_stepDeferreds s) key = None"
  shows "dd_inv past (c # seen) (add_original c key s)"
proof -
  note fr = fresh_call[OF inv c]
  have lt: "\<And>k p. om_get (dd_stepDeferreds s) k = Some p \<Longrightarrow> p < length (dd_promises s)"
    using inv by (auto simp: dd_inv_def deferreds_ok_def)
  have keys: "\<And>c' k'. om_get (dd_callKeyByCallId s) c' = Some k' \<Longrightarrow> k' \<noteq> key"
    using inv k by (fastforce simp: dd_inv_def calls_ok_def)
  have o: "original_ok (add_original c key s)"
    unfolding original_ok_def
  proof (intro allI impI)
    fix c' i assume h': "om_get (dd_originalCallIndex (add_original c key s)) c' = Some i"
    show "i < length (dd_stepCalls (add_original c key s)) \<and>
      om_get (dd_callKeyByCallId (add_original c key s)) c' = Some (dd_stepCalls (add_original c key s) ! i) \<and>
      c' \<notin> set (dd_syntheticCallIds (add_original c key s)) \<and>
      (\<exists>p. om_get (dd_stepDeferreds (add_original c key s)) (dd_stepCalls (add_original c key s) ! i) = Some p \<and>
         dd_promises (add_original c key s) ! p = None)"
    proof (cases "c' = c")
      case True
      then show ?thesis using h' fr by (simp add: add_original_def nth_append)
    next
      case False
      then have h: "om_get (dd_originalCallIndex s) c' = Some i" using h' by (simp add: add_original_def)
      obtain p where g: "i < length (dd_stepCalls s)" "om_get (dd_callKeyByCallId s) c' = Some (dd_stepCalls s ! i)"
        "c' \<notin> set (dd_syntheticCallIds s)" "om_get (dd_stepDeferreds s) (dd_stepCalls s ! i) = Some p"
        "p < length (dd_promises s)" "dd_promises s ! p = None"
        by (rule original_okD[OF inv h])
      then show ?thesis using False keys[OF g(2)] by (simp add: add_original_def nth_append)
    qed
  qed
  have d: "originals_differ (add_original c key s)"
    using inv fr keys unfolding dd_inv_def originals_differ_def add_original_def by (auto split: if_splits)
  have e: "deferreds_ok (add_original c key s)"
    using inv lt unfolding dd_inv_def deferreds_ok_def add_original_def
    by (auto simp: less_Suc_eq split: if_splits)
  have p: "pending_ok (add_original c key s)"
    unfolding pending_ok_def
  proof (intro allI impI)
    fix p assume p: "p < length (dd_promises (add_original c key s))" "dd_promises (add_original c key s) ! p = None"
    show "\<exists>c' k. om_get (dd_originalCallIndex (add_original c key s)) c' \<noteq> None \<and>
        om_get (dd_callKeyByCallId (add_original c key s)) c' = Some k \<and>
        om_get (dd_stepDeferreds (add_original c key s)) k = Some p"
    proof (cases "p = length (dd_promises s)")
      case True
      then show ?thesis by (intro exI[of _ c] exI[of _ key]) (simp add: add_original_def)
    next
      case False
      then have "p < length (dd_promises s)" "dd_promises s ! p = None"
        using p by (simp_all add: add_original_def nth_append split: if_splits)
      then obtain c' k' where h: "om_get (dd_originalCallIndex s) c' \<noteq> None" "om_get (dd_callKeyByCallId s) c' = Some k'"
          "om_get (dd_stepDeferreds s) k' = Some p"
        by (rule pendingD[OF inv])
      have "c' \<noteq> c" using h fr by auto
      then show ?thesis using h keys[OF h(2)] by (intro exI[of _ c'] exI[of _ k']) (simp add: add_original_def)
    qed
  qed
  have a: "calls_ok (c # seen) (add_original c key s)"
  proof -
    have h: "calls_ok seen s" using inv by (simp add: dd_inv_def)
    have sub: "\<And>x y. om_get (dd_originalCallIndex s) x = Some y \<Longrightarrow> om_get (dd_callKeyByCallId s) x \<noteq> None"
      using h unfolding calls_ok_def by auto
    show ?thesis
      using h fr sub unfolding calls_ok_def add_original_def by (auto split: if_splits)
  qed
  show ?thesis using inv o d p a e by (simp add: dd_inv_def add_original_def)
qed

lemma dd_inv_check:
  "dd_inv past seen s \<Longrightarrow> c \<notin> set seen \<Longrightarrow> dd_inv past (c # seen) (snd (checkToolCall c name args s))"
  by (cases "om_get (dd_stepDeferreds s) (makeKey name args)")
    (simp_all add: checkToolCall_cases recordDupType_def dd_inv_duplicate dd_inv_original)

text \<open>What the hook does with a settled call, by the kind of the call.\<close>

lemma finalize_duplicate:
  assumes "om_get (dd_callKeyByCallId s) c = Some key" "c \<in> set (dd_syntheticCallIds s)"
    "om_get (dd_stepDeferreds s) key = Some p"
  shows "finalizeResult c name r s =
    (FPromise p, s\<lparr>dd_callKeyByCallId := om_del c (dd_callKeyByCallId s),
                   dd_syntheticCallIds := os_del c (dd_syntheticCallIds s)\<rparr>)"
  using assms by (simp add: finalizeResult_def Let_def)

lemma finalize_original_call:
  assumes "dd_inv past seen s" "om_get (dd_originalCallIndex s) c = Some i"
  obtains p where "om_get (dd_stepDeferreds s) (dd_stepCalls s ! i) = Some p" "p < length (dd_promises s)"
    "dd_promises s ! p = None" "om_get (dd_callKeyByCallId s) c = Some (dd_stepCalls s ! i)"
    "fst (finalizeResult c name r s) =
       FNow (fst (repeat_result (trailing_run (past @ take (i + 1) (dd_stepCalls s))) r))"
    "\<exists>l. snd (finalizeResult c name r s) =
       s\<lparr>dd_callKeyByCallId := om_del c (dd_callKeyByCallId s),
         dd_originalCallIndex := om_del c (dd_originalCallIndex s),
         dd_promises := (dd_promises s)
           [p := Some (fst (repeat_result (trailing_run (past @ take (i + 1) (dd_stepCalls s))) r))],
         dd_repeatLog := l\<rparr>"
proof -
  obtain p where g: "i < length (dd_stepCalls s)" "om_get (dd_callKeyByCallId s) c = Some (dd_stepCalls s ! i)"
    "c \<notin> set (dd_syntheticCallIds s)" "om_get (dd_stepDeferreds s) (dd_stepCalls s ! i) = Some p"
    "p < length (dd_promises s)" "dd_promises s ! p = None"
    by (rule original_okD[OF assms])
  have st: "(dd_consecutiveKey s, dd_consecutiveCount s) = streak_of past" using assms(1) by (simp add: dd_inv_def)
  have ne: "past @ take (i + 1) (dd_stepCalls s) \<noteq> []" using g(1) by (cases "dd_stepCalls s") auto
  have "snd (fold streak_step (take (i + 1) (dd_stepCalls s)) (dd_consecutiveKey s, dd_consecutiveCount s)) =
      trailing_run (past @ take (i + 1) (dd_stepCalls s))"
    unfolding st streak_fold by (simp only: streak_of_def ne if_False snd_conv)
  note e = this
  have "finalizeResult c name r s =
      (let s1 = s\<lparr>dd_callKeyByCallId := om_del c (dd_callKeyByCallId s)\<rparr>;
           (r', s2) = finalize_original (dd_stepCalls s ! i) name i r
             (s1\<lparr>dd_originalCallIndex := om_del c (dd_originalCallIndex s1)\<rparr>)
       in (FNow r', s2))"
    using g assms(2) by (simp add: finalizeResult_def Let_def)
  note e = this e
  have f: "fst (finalizeResult c name r s) =
       FNow (fst (repeat_result (trailing_run (past @ take (i + 1) (dd_stepCalls s))) r))"
    using e g by (simp add: finalize_original_def Let_def split_beta)
  have "snd (finalizeResult c name r s) =
       s\<lparr>dd_callKeyByCallId := om_del c (dd_callKeyByCallId s),
         dd_originalCallIndex := om_del c (dd_originalCallIndex s),
         dd_promises := (dd_promises s)
           [p := Some (fst (repeat_result (trailing_run (past @ take (i + 1) (dd_stepCalls s))) r))],
         dd_repeatLog := dd_repeatLog (snd (finalizeResult c name r s))\<rparr>"
    using e g by (simp add: finalize_original_def Let_def resolve_def split_beta)
  note f = f exI[of "\<lambda>l. snd (finalizeResult c name r s) =
       s\<lparr>dd_callKeyByCallId := om_del c (dd_callKeyByCallId s),
         dd_originalCallIndex := om_del c (dd_originalCallIndex s),
         dd_promises := (dd_promises s)
           [p := Some (fst (repeat_result (trailing_run (past @ take (i + 1) (dd_stepCalls s))) r))],
         dd_repeatLog := l\<rparr>", OF this]
  show ?thesis by (rule that[OF g(4-6,2) f])
qed

lemma dd_inv_finalize_duplicate:
  assumes inv: "dd_inv past seen s" and c: "om_get (dd_callKeyByCallId s) c = Some key" "c \<in> set (dd_syntheticCallIds s)"
  shows "dd_inv past seen (s\<lparr>dd_callKeyByCallId := om_del c (dd_callKeyByCallId s),
                   dd_syntheticCallIds := os_del c (dd_syntheticCallIds s)\<rparr>)" (is "dd_inv _ _ ?s")
proof -
  have h: "calls_ok seen s" using inv by (simp add: dd_inv_def)
  have n: "om_get (dd_originalCallIndex s) c = None" using h c unfolding calls_ok_def by blast
  have o: "original_ok ?s"
    unfolding original_ok_def
  proof (intro allI impI)
    fix c' i assume "om_get (dd_originalCallIndex ?s) c' = Some i"
    then have g: "om_get (dd_originalCallIndex s) c' = Some i" by simp
    then have ne: "c' \<noteq> c" using n by auto
    obtain p where "i < length (dd_stepCalls s)" "om_get (dd_callKeyByCallId s) c' = Some (dd_stepCalls s ! i)"
      "c' \<notin> set (dd_syntheticCallIds s)" "om_get (dd_stepDeferreds s) (dd_stepCalls s ! i) = Some p"
      "dd_promises s ! p = None"
      using original_okD[OF inv g] by metis
    then show "i < length (dd_stepCalls ?s) \<and> om_get (dd_callKeyByCallId ?s) c' = Some (dd_stepCalls ?s ! i) \<and>
      c' \<notin> set (dd_syntheticCallIds ?s) \<and>
      (\<exists>p. om_get (dd_stepDeferreds ?s) (dd_stepCalls ?s ! i) = Some p \<and> dd_promises ?s ! p = None)"
      using ne by (simp add: om_get_del)
  qed
  have d: "originals_differ ?s"
    using inv unfolding dd_inv_def originals_differ_def by (auto simp: om_get_del split: if_splits)
  have p: "pending_ok ?s"
    unfolding pending_ok_def
  proof (intro allI impI)
    fix p assume "p < length (dd_promises ?s)" "dd_promises ?s ! p = None"
    then have "p < length (dd_promises s)" "dd_promises s ! p = None" by simp_all
    then obtain c' k' where g: "om_get (dd_originalCallIndex s) c' \<noteq> None" "om_get (dd_callKeyByCallId s) c' = Some k'"
      "om_get (dd_stepDeferreds s) k' = Some p"
      by (rule pendingD[OF inv])
    then have "c' \<noteq> c" using n by auto
    then show "\<exists>c k. om_get (dd_originalCallIndex ?s) c \<noteq> None \<and> om_get (dd_callKeyByCallId ?s) c = Some k \<and>
        om_get (dd_stepDeferreds ?s) k = Some p"
      using g by (intro exI[of _ c'] exI[of _ k']) (simp add: om_get_del)
  qed
  have a: "calls_ok seen ?s"
    using h n unfolding calls_ok_def by (auto simp: om_get_del split: if_splits)
  show ?thesis using inv o d p a by (simp add: dd_inv_def deferreds_ok_def)
qed

lemma dd_inv_finalize_original:
  assumes inv: "dd_inv past seen s" and c: "om_get (dd_originalCallIndex s) c = Some i"
    and p: "om_get (dd_stepDeferreds s) (dd_stepCalls s ! i) = Some p"
  shows "dd_inv past seen (s\<lparr>dd_callKeyByCallId := om_del c (dd_callKeyByCallId s),
         dd_originalCallIndex := om_del c (dd_originalCallIndex s),
         dd_promises := (dd_promises s)[p := Some v], dd_repeatLog := l\<rparr>)" (is "dd_inv _ _ ?s")
proof -
  have h: "calls_ok seen s" "originals_differ s" "deferreds_ok s" using inv by (simp_all add: dd_inv_def)
  obtain q where ci: "om_get (dd_callKeyByCallId s) c = Some (dd_stepCalls s ! i)" "c \<notin> set (dd_syntheticCallIds s)"
    using original_okD[OF inv c] by metis
  have inj: "k = dd_stepCalls s ! i" if "om_get (dd_stepDeferreds s) k = Some p" for k
    using h(3) p that unfolding deferreds_ok_def by blast
  have o: "original_ok ?s"
    unfolding original_ok_def
  proof (intro allI impI)
    fix c' j assume "om_get (dd_originalCallIndex ?s) c' = Some j"
    then have ne: "c' \<noteq> c" and g: "om_get (dd_originalCallIndex s) c' = Some j"
      by (simp_all add: om_get_del split: if_splits)
    obtain q where q: "j < length (dd_stepCalls s)" "om_get (dd_callKeyByCallId s) c' = Some (dd_stepCalls s ! j)"
      "c' \<notin> set (dd_syntheticCallIds s)" "om_get (dd_stepDeferreds s) (dd_stepCalls s ! j) = Some q"
      "dd_promises s ! q = None"
      using original_okD[OF inv g] by metis
    have "q \<noteq> p"
    proof
      assume "q = p"
      then have "dd_stepCalls s ! j = dd_stepCalls s ! i" using inj q(4) by blast
      then have "c' = c" using h(2) g c q(2) ci(1) unfolding originals_differ_def by auto
      then show False using ne by simp
    qed
    then show "j < length (dd_stepCalls ?s) \<and> om_get (dd_callKeyByCallId ?s) c' = Some (dd_stepCalls ?s ! j) \<and>
      c' \<notin> set (dd_syntheticCallIds ?s) \<and>
      (\<exists>p. om_get (dd_stepDeferreds ?s) (dd_stepCalls ?s ! j) = Some p \<and> dd_promises ?s ! p = None)"
      using ne q by (simp add: om_get_del)
  qed
  have d: "originals_differ ?s"
    using h(2) unfolding originals_differ_def by (auto simp: om_get_del split: if_splits)
  have pe: "pending_ok ?s"
    unfolding pending_ok_def
  proof (intro allI impI)
    fix q assume "q < length (dd_promises ?s)" "dd_promises ?s ! q = None"
    then have "q < length (dd_promises s) \<and> dd_promises s ! q = None \<and> q \<noteq> p" by (cases "q = p") simp_all
    then have "q < length (dd_promises s)" "dd_promises s ! q = None" and ne: "q \<noteq> p" by simp_all
    then obtain c' k' where g: "om_get (dd_originalCallIndex s) c' \<noteq> None" "om_get (dd_callKeyByCallId s) c' = Some k'"
      "om_get (dd_stepDeferreds s) k' = Some q"
      using pendingD[OF inv] by metis
    then have "c' \<noteq> c" using ci p ne by auto
    then show "\<exists>c k. om_get (dd_originalCallIndex ?s) c \<noteq> None \<and> om_get (dd_callKeyByCallId ?s) c = Some k \<and>
        om_get (dd_stepDeferreds ?s) k = Some q"
      using g by (intro exI[of _ c'] exI[of _ k']) (simp add: om_get_del)
  qed
  have a: "calls_ok seen ?s"
    using h(1) ci(2) unfolding calls_ok_def by (auto simp: om_get_del split: if_splits)
  show ?thesis using inv o d pe a h(3) by (simp add: dd_inv_def deferreds_ok_def)
qed

lemma dd_inv_finalize:
  assumes inv: "dd_inv past seen s"
  shows "dd_inv past seen (snd (finalizeResult c name r s))"
proof (cases "om_get (dd_callKeyByCallId s) c")
  case None then show ?thesis using inv by (simp add: finalizeResult_def)
next
  case (Some key)
  have h: "calls_ok seen s" using inv by (simp add: dd_inv_def)
  obtain p where p: "om_get (dd_stepDeferreds s) key = Some p" using h Some unfolding calls_ok_def by blast
  show ?thesis
  proof (cases "c \<in> set (dd_syntheticCallIds s)")
    case True
    then show ?thesis
      using finalize_duplicate[OF Some True p] dd_inv_finalize_duplicate[OF inv Some True] by simp
  next
    case False
    then obtain i where i: "om_get (dd_originalCallIndex s) c = Some i" using h Some unfolding calls_ok_def by blast
    obtain q l where q: "om_get (dd_stepDeferreds s) (dd_stepCalls s ! i) = Some q"
      and e: "snd (finalizeResult c name r s) =
       s\<lparr>dd_callKeyByCallId := om_del c (dd_callKeyByCallId s),
         dd_originalCallIndex := om_del c (dd_originalCallIndex s),
         dd_promises := (dd_promises s)
           [q := Some (fst (repeat_result (trailing_run (past @ take (i + 1) (dd_stepCalls s))) r))],
         dd_repeatLog := l\<rparr>"
      using finalize_original_call[OF inv i, of name r] by metis
    show ?thesis unfolding e by (rule dd_inv_finalize_original[OF inv i q])
  qed
qed

lemma dd_inv_seen: "dd_inv past seen s \<Longrightarrow> dd_inv past (c # seen) s"
  unfolding dd_inv_def calls_ok_def by simp

lemma dd_reach_inv: "dd_reach jp s past seen running \<Longrightarrow> dd_inv past seen s"
proof (induction rule: dd_reach.induct)
  case dd_init show ?case by (rule dd_inv_init)
next
  case (dd_begin s past seen running past' turnId step)
  show ?case unfolding dd_begin.hyps(2) by (rule dd_inv_begin[OF dd_begin.IH])
next
  case (dd_check s past seen c name args)
  then show ?case by (intro dd_inv_check)
next
  case (dd_did s past seen c name args raw result)
  have "dd_inv past (c # seen) (registerSkipped jp c name args raw s)"
  proof (cases "om_get (dd_callKeyByCallId s) c")
    case None
    then show ?thesis using dd_did dd_inv_check[OF dd_did.IH] by (simp add: registerSkipped_def)
  next
    case (Some k) then show ?thesis using dd_inv_seen[OF dd_did.IH] by (simp add: registerSkipped_def)
  qed
  then show ?case unfolding didExecuteTool_def by (rule dd_inv_finalize)
next
  case (dd_end s past seen)
  then show ?case by (intro dd_inv_end)
qed

section \<open>Properties\<close>

lemma repeat_result_stop:
  "dr_stopTurn (fst (repeat_result n r)) = (if 12 \<le> n then Some True else dr_stopTurn r)"
  "n < 3 \<Longrightarrow> fst (repeat_result n r) = r"
  by (simp_all add: repeat_result_def forceStopResult_def appendReminder_def REPEAT_FORCE_STOP_STREAK_def
      REPEAT_REMINDER_1_START_def REPEAT_REMINDER_2_START_def REPEAT_REMINDER_3_START_def)

text \<open>
  C14. When a call that is not a duplicate settles, its result is decorated by how often the same call came in
  a row, up to and including it, over all the steps of the turn: the reminders start at 3, 5 and 8
  repetitions, and the turn is stopped exactly from the twelfth on (or if the tool asked for it).
\<close>
theorem dedupe_streak_exact:
  assumes "dd_reach jp s past seen running" "om_get (dd_originalCallIndex s) c = Some i"
  defines "n \<equiv> trailing_run (past @ take (i + 1) (dd_stepCalls s))"
  shows "fst (finalizeResult c name r s) = FNow (fst (repeat_result n r)) \<and>
    last (past @ take (i + 1) (dd_stepCalls s)) = the (om_get (dd_callKeyByCallId s) c) \<and>
    dr_stopTurn (fst (repeat_result n r)) = (if 12 \<le> n then Some True else dr_stopTurn r) \<and>
    (fst (repeat_result n r) = r \<or> 3 \<le> n)"
proof -
  have inv: "dd_inv past seen s" by (rule dd_reach_inv[OF assms(1)])
  obtain p where p: "i < length (dd_stepCalls s)" "om_get (dd_callKeyByCallId s) c = Some (dd_stepCalls s ! i)"
    using original_okD[OF inv assms(2)] by metis
  have "fst (finalizeResult c name r s) = FNow (fst (repeat_result n r))"
    using finalize_original_call[OF inv assms(2), of name r] unfolding n_def by metis
  moreover have "last (past @ take (i + 1) (dd_stepCalls s)) = dd_stepCalls s ! i"
    using p(1) by (simp add: take_Suc_conv_app_nth)
  ultimately show ?thesis using p(2) repeat_result_stop(1)[of n r] repeat_result_stop(2)[of n r] by force
qed

text \<open>
  A call repeated within its step is answered by the promise of the first one, whenever it settles, and that
  promise is fulfilled with the very result the first one returns.
\<close>
theorem dedupe_duplicate_shares:
  assumes "dd_reach jp s past seen running"
    "om_get (dd_callKeyByCallId s) dup = Some key" "dup \<in> set (dd_syntheticCallIds s)"
    "om_get (dd_callKeyByCallId s) c = Some key" "om_get (dd_originalCallIndex s) c = Some i"
  shows "\<exists>p result. fst (finalizeResult dup name' r' s) = FPromise p \<and> dd_promises s ! p = None \<and>
    fst (finalizeResult c name r s) = FNow result \<and>
    dd_promises (snd (finalizeResult c name r s)) ! p = Some result"
proof -
  have inv: "dd_inv past seen s" by (rule dd_reach_inv[OF assms(1)])
  obtain p where p: "om_get (dd_stepDeferreds s) (dd_stepCalls s ! i) = Some p" "p < length (dd_promises s)"
    "dd_promises s ! p = None" "om_get (dd_callKeyByCallId s) c = Some (dd_stepCalls s ! i)"
    and e: "fst (finalizeResult c name r s) =
       FNow (fst (repeat_result (trailing_run (past @ take (i + 1) (dd_stepCalls s))) r))"
    and f: "\<exists>l. snd (finalizeResult c name r s) =
       s\<lparr>dd_callKeyByCallId := om_del c (dd_callKeyByCallId s),
         dd_originalCallIndex := om_del c (dd_originalCallIndex s),
         dd_promises := (dd_promises s)
           [p := Some (fst (repeat_result (trailing_run (past @ take (i + 1) (dd_stepCalls s))) r))],
         dd_repeatLog := l\<rparr>"
    by (rule finalize_original_call[OF inv assms(5), of name r])
  have k: "key = dd_stepCalls s ! i" using p(4) assms(4) by simp
  then have d: "fst (finalizeResult dup name' r' s) = FPromise p"
    using finalize_duplicate[OF assms(2,3), of p] p(1) by simp
  show ?thesis using d e f p(2,3) by (intro exI[of _ p]) auto
qed

text \<open>
  C15. No promise is left hanging: a pending one belongs to a call of the current step that has not settled yet,
  and the next step settles whatever is left.
\<close>
theorem dedupe_promises_settle:
  assumes "dd_reach jp s past seen running"
  shows "list_all (\<lambda>v. v \<noteq> None) (dd_promises (beginStep turn step s)) \<and>
    {p. p < length (dd_promises s) \<and> dd_promises s ! p = None} \<subseteq>
    {p. \<exists>c k. om_get (dd_originalCallIndex s) c \<noteq> None \<and> om_get (dd_callKeyByCallId s) c = Some k \<and>
           om_get (dd_stepDeferreds s) k = Some p}"
proof -
  have inv: "dd_inv past seen s" by (rule dd_reach_inv[OF assms])
  have len: "length (dd_promises (beginStep turn step s)) = length (dd_promises s)"
    by (simp add: beginStep_def Let_def enter_turn_def)
  have "list_all (\<lambda>v. v \<noteq> None) (dd_promises (beginStep turn step s))"
    unfolding list_all_length len using beginStep_promises[OF inv] by blast
  moreover have "pending_ok s" using inv by (simp add: dd_inv_def)
  ultimately show ?thesis unfolding pending_ok_def by blast
qed

section \<open>Keys\<close>

text \<open>
  The key of a call does not depend on the order in which the model wrote the arguments: two argument
  objects with the same entries, in any order, give the same key.
\<close>
lemma makeKey_order:
  assumes "mset kvs = mset kvs'" "distinct (map fst kvs)"
  shows "makeKey name (JObj kvs) = makeKey name (JObj kvs')"
proof -
  define f where "f = (\<lambda>(k :: string, v). (k, sortJsonValue v))"
  have fst_f: "fst \<circ> f = fst" by (auto simp: f_def)
  have d: "distinct (map fst (map f kvs))" using assms(2) by (simp add: fst_f)
  have "sort_key fst (map f kvs) = sort_key fst (map f kvs')"
  proof (rule sort_key_inj_key_eq)
    show "mset (map f kvs) = mset (sort_key fst (map f kvs'))" using assms(1) by simp
    show "inj_on fst (set (map f kvs))" using assms(2) by (auto simp: distinct_map fst_f intro: inj_on_imageI)
    show "sorted (map fst (sort_key fst (map f kvs')))" by (rule sorted_sort_key)
  qed
  then show ?thesis by (simp add: makeKey_def canonicalTelemetryArgs_def f_def)
qed

theorem makeKey_order_witness:
  "makeKey ''Read'' (JObj [(''path'', JStr ''a''), (''limit'', JInt 5)]) =
   makeKey ''Read'' (JObj [(''limit'', JInt 5), (''path'', JStr ''a'')])"
  using makeKey_order[of "[(''path'', JStr ''a''), (''limit'', JInt 5)]" "[(''limit'', JInt 5), (''path'', JStr ''a'')]"]
  by simp

section \<open>Witnesses\<close>

text \<open>A step with a call and its duplicate.\<close>

definition sample_one :: dedupe where
  "sample_one = snd (checkToolCall ''c1'' ''Read'' JNull (beginStep (Some 1) (Some 1) init_dedupe))"

definition sample_two :: dedupe where
  "sample_two = snd (checkToolCall ''c2'' ''Read'' JNull sample_one)"

lemma sample_reach:
  "dd_reach (\<lambda>_. None) sample_one [] [''c1''] True" "dd_reach (\<lambda>_. None) sample_two [] [''c2'', ''c1''] True"
proof -
  have "dd_reach (\<lambda>_. None) (beginStep (Some 1) (Some 1) init_dedupe) [] [] True"
    by (rule dd_begin[OF dd_init]) (simp add: init_dedupe_def)
  then show 1: "dd_reach (\<lambda>_. None) sample_one [] [''c1''] True"
    unfolding sample_one_def by (rule dd_check) simp
  show "dd_reach (\<lambda>_. None) sample_two [] [''c2'', ''c1''] True"
    unfolding sample_two_def by (rule dd_check[OF 1]) simp
qed

lemma sample_one_eq:
  "dd_originalCallIndex sample_one = [(''c1'', 0)]" "dd_stepCalls sample_one = [makeKey ''Read'' JNull]"
  "dd_callKeyByCallId sample_one = [(''c1'', makeKey ''Read'' JNull)]" "dd_syntheticCallIds sample_one = []"
  "om_get (dd_stepDeferreds sample_one) (makeKey ''Read'' JNull) = Some 0"
  by (simp_all add: sample_one_def checkToolCall_def beginStep_def enter_turn_def init_dedupe_def Let_def)

lemma sample_two_eq:
  "dd_originalCallIndex sample_two = [(''c1'', 0)]"
  "dd_callKeyByCallId sample_two = [(''c1'', makeKey ''Read'' JNull), (''c2'', makeKey ''Read'' JNull)]"
  "dd_syntheticCallIds sample_two = [''c2'']"
  using sample_one_eq
  by (simp_all add: sample_two_def checkToolCall_cases recordDupType_def add_duplicate_def os_add_def)

theorem dedupe_streak_exact_witness:
  "fst (finalizeResult ''c1'' ''Read'' (plain_result ''ok'' False) sample_one) = FNow (plain_result ''ok'' False)"
  using dedupe_streak_exact[OF sample_reach(1), of "''c1''" 0 "''Read''" "plain_result ''ok'' False"]
    repeat_result_stop(2)[of 1 "plain_result ''ok'' False"]
  by (simp add: sample_one_eq trailing_run_def)

theorem dedupe_duplicate_shares_witness:
  "\<exists>p. fst (finalizeResult ''c2'' ''Read'' (plain_result [] False) sample_two) = FPromise p \<and>
     dd_promises (snd (finalizeResult ''c1'' ''Read'' (plain_result ''ok'' False) sample_two)) ! p \<noteq> None"
  using dedupe_duplicate_shares[OF sample_reach(2), of "''c2''" "makeKey ''Read'' JNull" "''c1''" 0 "''Read''"
      "plain_result [] False" "''Read''" "plain_result ''ok'' False"]
  by (auto simp: sample_two_eq)

theorem dedupe_promises_settle_witness:
  "list_all (\<lambda>v. v \<noteq> None) (dd_promises (beginStep (Some 1) (Some 2) sample_two))"
  using dedupe_promises_settle[OF sample_reach(2)] by blast

end
