(* ===== verification/Scheduler.thy ===== *)
theory Scheduler imports Prelude "HOL-Library.Monad_Syntax" begin

text \<open>
  Which tool calls of a step may overlap: the resource accesses of \<^verbatim>\<open>tool/toolContract.ts\<close> and the scheduler
  \<^verbatim>\<open>agent/toolExecutor/toolScheduler.ts\<close>.

  A task is its identity, its accesses, and whether its \<open>start\<close> throws before it returns a promise. The
  settling of a task is an event; the log is the order in which tasks were started. The loop over the
  queue calls itself when a start throws, without a bound of its own, so it is a partial function.
\<close>

section \<open>Resource accesses\<close>

datatype file_operation = OpRead | OpWrite | OpReadWrite | OpSearch

datatype resource_access =
    FileAccess (ac_operation: file_operation) (ac_path: string) (ac_recursive: bool)
  | AllAccess

type_synonym accesses = "resource_access list"

definition fileOperationWrites :: "file_operation \<Rightarrow> bool" where
  "fileOperationWrites operation = (case operation of OpRead \<Rightarrow> False | OpSearch \<Rightarrow> False | _ \<Rightarrow> True)"

definition fileOperationsConflict :: "file_operation \<Rightarrow> file_operation \<Rightarrow> bool" where
  "fileOperationsConflict l r \<longleftrightarrow> fileOperationWrites l \<or> fileOperationWrites r"

text \<open>\<open>toLowerCase\<close> on code units below 256, and the collapse of runs of slashes.\<close>

definition js_lower :: "char \<Rightarrow> char" where
  "js_lower c =
     (let n = (of_char c :: nat) in
      if 65 \<le> n \<and> n \<le> 90 \<or> 192 \<le> n \<and> n \<le> 222 \<and> n \<noteq> 215 then char_of (n + 32) else c)"

fun collapse_slashes :: "string \<Rightarrow> string" where
  "collapse_slashes (x # y # s) =
     (if x = CHR ''/'' \<and> y = CHR ''/'' then collapse_slashes (y # s) else x # collapse_slashes (y # s))"
| "collapse_slashes s = s"

definition ends_slash :: "string \<Rightarrow> bool" where
  "ends_slash s \<longleftrightarrow> s \<noteq> [] \<and> last s = CHR ''/''"

definition backslash :: char where "backslash = CHR 0x5C"

definition normalizePath :: "string \<Rightarrow> string" where
  "normalizePath path =
     (let normalized = collapse_slashes (map (\<lambda>c. if c = backslash then CHR ''/'' else c) path);
          folded = map js_lower normalized
      in if 1 < length folded \<and> ends_slash folded then butlast folded else folded)"

definition path_prefix :: "string \<Rightarrow> string" where
  "path_prefix p = (if ends_slash p then p else p @ ''/'')"

definition fileAccessesOverlap :: "string \<Rightarrow> bool \<Rightarrow> string \<Rightarrow> bool \<Rightarrow> bool" where
  "fileAccessesOverlap leftPath0 leftRec rightPath0 rightRec =
     (let leftPath = normalizePath leftPath0; rightPath = normalizePath rightPath0 in
      leftPath = rightPath \<or>
      leftRec \<and> prefix (path_prefix leftPath) rightPath \<or>
      rightRec \<and> prefix (path_prefix rightPath) leftPath)"

fun resourceAccessesConflict :: "resource_access \<Rightarrow> resource_access \<Rightarrow> bool" where
  "resourceAccessesConflict (FileAccess o1 p1 r1) (FileAccess o2 p2 r2) =
     (if \<not> fileOperationsConflict o1 o2 then False else fileAccessesOverlap p1 r1 p2 r2)"
| "resourceAccessesConflict _ _ = True"

definition conflict :: "accesses \<Rightarrow> accesses \<Rightarrow> bool" where
  "conflict left right = list_ex (\<lambda>l. list_ex (\<lambda>r. resourceAccessesConflict l r) right) left"

text \<open>The constructors of accesses the tools declare theirs with; an absent \<open>recursive\<close> option is false.\<close>

definition accesses_none :: accesses where "accesses_none = []"

definition accesses_all :: accesses where "accesses_all = [AllAccess]"

definition accesses_file :: "file_operation \<Rightarrow> string \<Rightarrow> bool \<Rightarrow> accesses" where
  "accesses_file operation path recursive = [FileAccess operation path recursive]"

definition readFile :: "string \<Rightarrow> accesses" where "readFile path = accesses_file OpRead path False"
definition readTree :: "string \<Rightarrow> accesses" where "readTree path = accesses_file OpRead path True"
definition writeFile :: "string \<Rightarrow> accesses" where "writeFile path = accesses_file OpWrite path False"
definition writeTree :: "string \<Rightarrow> accesses" where "writeTree path = accesses_file OpWrite path True"
definition readWriteFile :: "string \<Rightarrow> accesses" where "readWriteFile path = accesses_file OpReadWrite path False"
definition readWriteTree :: "string \<Rightarrow> accesses" where "readWriteTree path = accesses_file OpReadWrite path True"
definition searchTree :: "string \<Rightarrow> accesses" where "searchTree path = accesses_file OpSearch path True"

section \<open>The scheduler\<close>

record tool_task =
  tt_id :: nat
  tt_accesses :: accesses
  tt_throws :: bool

record scheduler =
  sc_active :: "tool_task list"
  sc_queued :: "tool_task list"
  sc_started :: "nat list"
  sc_rejected :: "nat list"

definition init_scheduler :: scheduler where
  "init_scheduler = \<lparr>sc_active = [], sc_queued = [], sc_started = [], sc_rejected = []\<rparr>"

definition conflictsWithAny :: "tool_task \<Rightarrow> tool_task list \<Rightarrow> bool" where
  "conflictsWithAny task candidates = list_ex (\<lambda>c. conflict (tt_accesses task) (tt_accesses c)) candidates"

definition isBlocked :: "tool_task \<Rightarrow> tool_task list \<Rightarrow> scheduler \<Rightarrow> bool" where
  "isBlocked task queuedBefore s \<longleftrightarrow> conflictsWithAny task (sc_active s) \<or> conflictsWithAny task queuedBefore"

text \<open>\<open>activeTasks.push\<close> and the call of \<open>task.start\<close>; the removal of a task from the active ones.\<close>

definition activate :: "tool_task \<Rightarrow> scheduler \<Rightarrow> scheduler" where
  "activate t s = s\<lparr>sc_active := sc_active s @ [t], sc_started := sc_started s @ [tt_id t]\<rparr>"

fun remove_task :: "nat \<Rightarrow> tool_task list \<Rightarrow> tool_task list" where
  "remove_task i [] = []"
| "remove_task i (t # ts) = (if tt_id t = i then ts else t # remove_task i ts)"

definition deactivate :: "nat \<Rightarrow> scheduler \<Rightarrow> scheduler" where
  "deactivate i s = s\<lparr>sc_active := remove_task i (sc_active s)\<rparr>"

definition reject :: "nat \<Rightarrow> scheduler \<Rightarrow> scheduler" where
  "reject i s = s\<lparr>sc_rejected := sc_rejected s @ [i]\<rparr>"

text \<open>
  The loop of \<open>startQueuedTasks\<close> over the tasks left, with those still queued. A start that throws finishes
  its task at once, and \<open>finish\<close> walks the queue of the scheduler, which the outer loop has not replaced yet.
\<close>

partial_function (option) queue_loop :: "tool_task list \<Rightarrow> tool_task list \<Rightarrow> scheduler \<Rightarrow> scheduler option" where
  "queue_loop ts stillQueued s =
     (case ts of
        [] \<Rightarrow> Some (s\<lparr>sc_queued := stillQueued\<rparr>)
      | t # rest \<Rightarrow>
          if isBlocked t stillQueued s then queue_loop rest (stillQueued @ [t]) s
          else if tt_throws t
          then do {
            let s1 = deactivate (tt_id t) (reject (tt_id t) (activate t s));
            s2 \<leftarrow> queue_loop (sc_queued s1) [] s1;
            queue_loop rest stillQueued s2 }
          else queue_loop rest stillQueued (activate t s))"

lemmas queue_loop_code [code] = queue_loop.simps

definition startQueuedTasks :: "scheduler \<Rightarrow> scheduler option" where
  "startQueuedTasks s = queue_loop (sc_queued s) [] s"

definition finish_task :: "nat \<Rightarrow> scheduler \<Rightarrow> scheduler option" where
  "finish_task i s = startQueuedTasks (deactivate i s)"

definition start_task :: "tool_task \<Rightarrow> scheduler \<Rightarrow> scheduler option" where
  "start_task t s =
     (if tt_throws t then finish_task (tt_id t) (reject (tt_id t) (activate t s)) else Some (activate t s))"

definition add_task :: "tool_task \<Rightarrow> scheduler \<Rightarrow> scheduler option" where
  "add_task t s =
     (if isBlocked t (sc_queued s) s then Some (s\<lparr>sc_queued := sc_queued s @ [t]\<rparr>) else start_task t s)"

text \<open>
  The runs of a scheduler, with the tasks added so far and the ids of those that settled: a task's identity
  is its place in the order of additions, and its start does not throw; only active tasks settle.
\<close>

inductive sched_reach :: "scheduler \<Rightarrow> tool_task list \<Rightarrow> nat list \<Rightarrow> bool" where
  sched_init: "sched_reach init_scheduler [] []"
| sched_add: "sched_reach s added fin \<Longrightarrow> tt_id t = length added \<Longrightarrow> \<not> tt_throws t \<Longrightarrow>
    add_task t s = Some s' \<Longrightarrow> sched_reach s' (added @ [t]) fin"
| sched_finish: "sched_reach s added fin \<Longrightarrow> i \<in> tt_id ` set (sc_active s) \<Longrightarrow>
    finish_task i s = Some s' \<Longrightarrow> sched_reach s' added (i # fin)"

end
