(* ===== verification/Scheduler_Proofs.thy ===== *)
theory Scheduler_Proofs imports Scheduler begin

text \<open>
  Two lists of accesses conflict exactly if one of them writes where the other reaches; conflicting tool
  calls never overlap and run in the order they were added; every queued call waits for a running one.
  When the start of a queued task throws, the loop over the queue does not end.
\<close>

section \<open>Accesses\<close>

text \<open>The normalized paths an access reaches, and whether it changes them.\<close>

fun reaches :: "resource_access \<Rightarrow> string set" where
  "reaches AllAccess = UNIV"
| "reaches (FileAccess _ path recursive) =
     {p. p = normalizePath path \<or> recursive \<and> prefix (path_prefix (normalizePath path)) p}"

fun writes :: "resource_access \<Rightarrow> bool" where
  "writes AllAccess = True"
| "writes (FileAccess operation _ _) = (operation = OpWrite \<or> operation = OpReadWrite)"

lemma fileOperationWrites_iff: "fileOperationWrites operation \<longleftrightarrow> operation = OpWrite \<or> operation = OpReadWrite"
  by (cases operation) (simp_all add: fileOperationWrites_def)

lemma path_prefix_below:
  assumes "prefix (path_prefix l) p" "prefix (path_prefix r) p"
  shows "l = r \<or> prefix (path_prefix l) r \<or> prefix (path_prefix r) l"
proof -
  have one: "l = r \<or> prefix (path_prefix l) r \<or> prefix (path_prefix r) l"
    if "prefix (path_prefix l) (path_prefix r)" for l r
  proof (cases "ends_slash r")
    case True then show ?thesis using that by (simp add: path_prefix_def)
  next
    case False
    then have "path_prefix l = r @ ''/'' \<or> prefix (path_prefix l) r"
      using that by (simp add: path_prefix_def[of r])
    then show ?thesis using False by (auto simp: path_prefix_def split: if_splits)
  qed
  have "prefix (path_prefix l) (path_prefix r) \<or> prefix (path_prefix r) (path_prefix l)"
    using assms prefix_same_cases by blast
  then show ?thesis using one by blast
qed

lemma fileAccessesOverlap_iff:
  "fileAccessesOverlap p r p' r' \<longleftrightarrow> reaches (FileAccess o1 p r) \<inter> reaches (FileAccess o2 p' r') \<noteq> {}"
  (is "_ \<longleftrightarrow> ?R")
proof
  assume "fileAccessesOverlap p r p' r'"
  then show ?R by (auto simp: fileAccessesOverlap_def Let_def disjoint_iff)
next
  assume ?R
  then obtain q where "q = normalizePath p \<or> r \<and> prefix (path_prefix (normalizePath p)) q"
    "q = normalizePath p' \<or> r' \<and> prefix (path_prefix (normalizePath p')) q" by auto
  then show "fileAccessesOverlap p r p' r'"
    using path_prefix_below[of "normalizePath p" q "normalizePath p'"]
    by (auto simp: fileAccessesOverlap_def Let_def)
qed

lemma reaches_nonempty: "reaches a \<noteq> {}"
  by (cases a) auto

lemma resourceAccessesConflict_iff:
  "resourceAccessesConflict a b \<longleftrightarrow> (writes a \<or> writes b) \<and> reaches a \<inter> reaches b \<noteq> {}"
proof (cases a)
  case AllAccess then show ?thesis using reaches_nonempty[of b] by (cases b) simp_all
next
  case a: (FileAccess o1 p1 r1)
  show ?thesis
  proof (cases b)
    case AllAccess then show ?thesis using reaches_nonempty[of a] by (simp add: a)
  next
    case (FileAccess o2 p2 r2)
    then show ?thesis
      unfolding a FileAccess resourceAccessesConflict.simps fileAccessesOverlap_iff[of p1 r1 p2 r2 o1 o2]
        fileOperationsConflict_def fileOperationWrites_iff writes.simps by simp
  qed
qed

lemma conflict_iff:
  "conflict l r \<longleftrightarrow> (\<exists>a \<in> set l. \<exists>b \<in> set r. (writes a \<or> writes b) \<and> reaches a \<inter> reaches b \<noteq> {})"
  by (simp add: conflict_def list_ex_iff resourceAccessesConflict_iff)

lemma conflict_sym: "conflict l r \<longleftrightarrow> conflict r l"
proof -
  have "conflict r l" if "conflict l r" for l r using that unfolding conflict_iff by blast
  then show ?thesis by blast
qed

lemmas accesses_defs = accesses_none_def accesses_all_def accesses_file_def readFile_def readTree_def writeFile_def
  writeTree_def readWriteFile_def readWriteTree_def searchTree_def

text \<open>What the tools declare: readers and searchers never wait for each other, a tool that declares everything
  waits for all but those that declare nothing, and a writer in a tree waits for the tree's readers.\<close>

lemma declared_accesses:
  "\<not> conflict (readFile p) (readTree q)" "\<not> conflict (readTree p) (searchTree q)" "\<not> conflict l accesses_none"
  "conflict accesses_all l \<longleftrightarrow> set l \<noteq> {}"
  "conflict (searchTree p) (writeFile q) \<longleftrightarrow> normalizePath q = normalizePath p \<or>
     prefix (path_prefix (normalizePath p)) (normalizePath q)"
  "conflict (readWriteFile p) (writeFile q) \<longleftrightarrow> normalizePath q = normalizePath p"
  by (auto simp: conflict_iff accesses_defs reaches_nonempty ex_in_conv)

text \<open>
  The conflict check is exact: two lists of accesses conflict exactly if some access of one and some of the
  other, at least one of them writing, reach a common path.
\<close>
theorem conflict_exact:
  "conflict l r = (\<exists>a \<in> set l. \<exists>b \<in> set r. (writes a \<or> writes b) \<and> reaches a \<inter> reaches b \<noteq> {})"
  by (rule conflict_iff)

section \<open>The invariant\<close>

abbreviation conf :: "tool_task \<Rightarrow> tool_task \<Rightarrow> bool" where
  "conf a b \<equiv> conflict (tt_accesses a) (tt_accesses b)"

lemma conf_sym: "conf a b \<Longrightarrow> conf b a"
  by (simp add: conflict_sym)

text \<open>Where the added tasks are: queued (in order), active or settled; \<open>q\<close> is the queue.\<close>

definition placed :: "tool_task list \<Rightarrow> nat list \<Rightarrow> tool_task list \<Rightarrow> scheduler \<Rightarrow> bool" where
  "placed added fin q s \<longleftrightarrow>
     map tt_id added = [0 ..< length added] \<and> set q \<union> set (sc_active s) \<subseteq> set added \<and>
     distinct (map tt_id (sc_active s)) \<and> sorted_wrt (<) (map tt_id q) \<and>
     tt_id ` set q \<inter> tt_id ` set (sc_active s) = {} \<and> set (sc_started s) = tt_id ` set (sc_active s) \<union> set fin \<and>
     tt_id ` set q \<inter> set fin = {} \<and> tt_id ` set (sc_active s) \<inter> set fin = {} \<and>
     tt_id ` set added = tt_id ` set q \<union> tt_id ` set (sc_active s) \<union> set fin \<and>
     distinct (sc_started s)"

definition apart :: "scheduler \<Rightarrow> bool" where
  "apart s \<longleftrightarrow> (\<forall>a \<in> set (sc_active s). \<forall>b \<in> set (sc_active s). tt_id a \<noteq> tt_id b \<longrightarrow> \<not> conf a b)"

definition in_order :: "tool_task list \<Rightarrow> nat list \<Rightarrow> scheduler \<Rightarrow> bool" where
  "in_order added fin s \<longleftrightarrow> (\<forall>a \<in> set added. \<forall>b \<in> set added.
     tt_id a < tt_id b \<longrightarrow> conf a b \<longrightarrow> tt_id b \<in> set (sc_started s) \<longrightarrow> tt_id a \<in> set fin)"

definition blocked_all :: "tool_task list \<Rightarrow> scheduler \<Rightarrow> bool" where
  "blocked_all q s \<longleftrightarrow> (\<forall>ys t zs. q = ys @ t # zs \<longrightarrow> isBlocked t ys s)"

definition sched_inv :: "tool_task list \<Rightarrow> nat list \<Rightarrow> tool_task list \<Rightarrow> scheduler \<Rightarrow> bool" where
  "sched_inv added fin q s \<longleftrightarrow>
     placed added fin q s \<and> apart s \<and> in_order added fin s \<and> (\<forall>t \<in> set added. \<not> tt_throws t)"

lemma isBlocked_iff:
  "isBlocked t q s \<longleftrightarrow> (\<exists>c \<in> set (sc_active s) \<union> set q. conf t c)"
  by (auto simp: isBlocked_def conflictsWithAny_def list_ex_iff)

lemma blocked_all_Nil [simp]: "blocked_all [] s"
  by (simp add: blocked_all_def)

lemma blocked_all_snoc: "blocked_all q s \<Longrightarrow> isBlocked t q s \<Longrightarrow> blocked_all (q @ [t]) s"
  unfolding blocked_all_def
proof (intro allI impI)
  fix ys t' zs assume a: "\<forall>ys t zs. q = ys @ t # zs \<longrightarrow> isBlocked t ys s" "isBlocked t q s" "q @ [t] = ys @ t' # zs"
  show "isBlocked t' ys s"
  proof (cases zs rule: rev_cases)
    case Nil then show ?thesis using a by simp
  next
    case (snoc zs' z) then show ?thesis using a by simp
  qed
qed

lemma blocked_all_activate: "blocked_all q s \<Longrightarrow> blocked_all q (activate t s)"
  unfolding blocked_all_def isBlocked_iff activate_def by fastforce

lemma added_inj: "placed added fin q s \<Longrightarrow> a \<in> set added \<Longrightarrow> b \<in> set added \<Longrightarrow> tt_id a = tt_id b \<Longrightarrow> a = b"
  unfolding placed_def by (metis distinct_map distinct_upt inj_onD)

lemma placedD:
  assumes "placed added fin q s"
  shows "set q \<union> set (sc_active s) \<subseteq> set added" "sorted_wrt (<) (map tt_id q)"
    "tt_id ` set added = tt_id ` set q \<union> tt_id ` set (sc_active s) \<union> set fin"
    "set (sc_started s) = tt_id ` set (sc_active s) \<union> set fin" "map tt_id added = [0 ..< length added]"
    "distinct (map tt_id (sc_active s))" "tt_id ` set q \<inter> set fin = {}"
  using assms unfolding placed_def by - (elim conjE, assumption)+

lemma sched_inv_queue [simp]:
  "sched_inv added fin q (s\<lparr>sc_queued := x\<rparr>) \<longleftrightarrow> sched_inv added fin q s"
  "blocked_all q (s\<lparr>sc_queued := x\<rparr>) \<longleftrightarrow> blocked_all q s"
  by (simp_all add: sched_inv_def placed_def apart_def in_order_def blocked_all_def isBlocked_def)

text \<open>An unblocked task of the queue, with only the tasks before it still queued, may start.\<close>

lemma inv_activate:
  assumes inv: "sched_inv added fin (st @ t # rest) s" and free: "\<not> isBlocked t st s"
  shows "sched_inv added fin (st @ rest) (activate t s)"
proof -
  have pl: "placed added fin (st @ t # rest) s" using inv by (simp add: sched_inv_def)
  have t: "t \<in> set added" using pl by (simp add: placed_def)
  have P: "placed added fin (st @ rest) (activate t s)"
  proof -
    have m: "map tt_id added = [0 ..< length added]" and d: "distinct (map tt_id (sc_active s))"
      "distinct (sc_started s)"
      and so: "sorted_wrt (<) (map tt_id (st @ t # rest))"
      and sub: "set (st @ t # rest) \<union> set (sc_active s) \<subseteq> set added"
      and dis: "tt_id ` set (st @ t # rest) \<inter> tt_id ` set (sc_active s) = {}"
        "tt_id ` set (st @ t # rest) \<inter> set fin = {}" "tt_id ` set (sc_active s) \<inter> set fin = {}"
      and eq: "set (sc_started s) = tt_id ` set (sc_active s) \<union> set fin"
        "tt_id ` set added = tt_id ` set (st @ t # rest) \<union> tt_id ` set (sc_active s) \<union> set fin"
      using pl unfolding placed_def by - (elim conjE, assumption)+
    have nt: "tt_id t \<notin> tt_id ` set (st @ rest)" using so by (auto simp: sorted_wrt_append)
    have ns: "tt_id t \<notin> set (sc_started s)" unfolding eq(1) using dis by auto
    have so': "sorted_wrt (<) (map tt_id (st @ rest))" using so by (simp add: sorted_wrt_append)
    have d': "distinct (map tt_id (sc_active s @ [t]))" "distinct (sc_started s @ [tt_id t])"
      using d dis(1) ns by auto
    have sub': "set (st @ rest) \<union> set (sc_active s @ [t]) \<subseteq> set added" using sub by auto
    have dis': "tt_id ` set (st @ rest) \<inter> tt_id ` set (sc_active s @ [t]) = {}"
        "tt_id ` set (st @ rest) \<inter> set fin = {}" "tt_id ` set (sc_active s @ [t]) \<inter> set fin = {}"
      using dis nt by auto
    have eq': "set (sc_started s @ [tt_id t]) = tt_id ` set (sc_active s @ [t]) \<union> set fin"
        "tt_id ` set added = tt_id ` set (st @ rest) \<union> tt_id ` set (sc_active s @ [t]) \<union> set fin"
      unfolding eq(2) using eq(1) by auto
    show ?thesis
      unfolding placed_def activate_def using m d' so' sub' dis' eq' by simp
  qed
  have A: "apart (activate t s)"
    using inv free conf_sym unfolding sched_inv_def apart_def isBlocked_iff by (auto simp: activate_def)
  have O: "in_order added fin (activate t s)"
    unfolding in_order_def
  proof (intro ballI impI)
    fix a b assume a: "a \<in> set added" and b: "b \<in> set added" and lt: "tt_id a < tt_id b" and c: "conf a b"
      and st: "tt_id b \<in> set (sc_started (activate t s))"
    show "tt_id a \<in> set fin"
    proof (cases "tt_id b \<in> set (sc_started s)")
      case True then show ?thesis using inv a b lt c unfolding sched_inv_def in_order_def by blast
    next
      case False
      then have bt: "b = t" using st added_inj[OF pl b t] by (simp add: activate_def)
      have cb: "conf t a" using c unfolding bt by (rule conf_sym)
      note sub = placedD(1)[OF pl] and so = placedD(2)[OF pl] and ids = placedD(3)[OF pl]
      have nact: "tt_id a \<notin> tt_id ` set (sc_active s)"
      proof
        assume "tt_id a \<in> tt_id ` set (sc_active s)"
        then obtain a' where a': "a' \<in> set (sc_active s)" "tt_id a' = tt_id a" by auto
        have "a' = a" by (rule added_inj[OF pl _ a a'(2)]) (use sub a'(1) in blast)
        then show False using free cb a'(1) unfolding isBlocked_iff by blast
      qed
      have nq: "tt_id a \<notin> tt_id ` set (st @ t # rest)"
      proof
        assume "tt_id a \<in> tt_id ` set (st @ t # rest)"
        then obtain a' where a': "a' \<in> set (st @ t # rest)" "tt_id a' = tt_id a" by (elim imageE) simp
        have "a' = a" by (rule added_inj[OF pl _ a a'(2)]) (use sub a'(1) in blast)
        then have "a \<in> set st" using a'(1) so lt by (auto simp: bt sorted_wrt_append)
        then show False using free cb unfolding isBlocked_iff by blast
      qed
      have "tt_id a \<in> tt_id ` set (st @ t # rest) \<union> tt_id ` set (sc_active s) \<union> set fin"
        unfolding ids[symmetric] using a by blast
      then show ?thesis using nact nq by blast
    qed
  qed
  show ?thesis using P A O inv by (simp add: sched_inv_def)
qed

lemma queue_loop_inv:
  "sched_inv added fin (st @ ts) s \<Longrightarrow> blocked_all st s \<Longrightarrow>
   \<exists>s'. queue_loop ts st s = Some s' \<and> sched_inv added fin (sc_queued s') s' \<and> blocked_all (sc_queued s') s'"
proof (induction ts arbitrary: st s)
  case Nil
  then show ?case by (subst queue_loop.simps) simp
next
  case (Cons t ts)
  have nt: "\<not> tt_throws t" using Cons.prems(1) by (auto simp: sched_inv_def placed_def)
  show ?case
  proof (cases "isBlocked t st s")
    case True
    then show ?thesis
      using Cons.IH[of "st @ [t]" s] Cons.prems blocked_all_snoc by (subst queue_loop.simps) simp
  next
    case False
    then show ?thesis
      using Cons.IH[OF inv_activate[OF Cons.prems(1) False] blocked_all_activate[OF Cons.prems(2)]] nt
      by (subst queue_loop.simps) simp
  qed
qed

lemma inv_finish:
  assumes inv: "sched_inv added fin q s" and i: "i \<in> tt_id ` set (sc_active s)"
  shows "sched_inv added (i # fin) q (deactivate i s)"
proof -
  have rem: "set (remove_task i ts) \<subseteq> set ts" "distinct (map tt_id ts) \<Longrightarrow> distinct (map tt_id (remove_task i ts))"
    "distinct (map tt_id ts) \<Longrightarrow> tt_id ` set (remove_task i ts) = tt_id ` set ts - {i}" for ts
  proof (induction ts)
    case (Cons t ts)
    { case 1 then show ?case using Cons.IH(1) by auto }
    { case 2 then show ?case using Cons.IH(1,2) by auto }
    { case 3 then show ?case using Cons.IH(3) by (auto simp: image_iff) }
  qed simp_all
  have pl: "placed added fin q s" using inv by (simp add: sched_inv_def)
  have d: "distinct (map tt_id (sc_active s))" using pl unfolding placed_def by (elim conjE)
  have P: "placed added (i # fin) q (deactivate i s)"
    using pl i rem(1)[of "sc_active s"] rem(2,3)[OF d] unfolding placed_def deactivate_def
    by (auto simp del: image_eqI)
  have A: "apart (deactivate i s)"
    using inv rem(1)[of "sc_active s"] unfolding sched_inv_def apart_def deactivate_def by auto
  have O: "in_order added (i # fin) (deactivate i s)"
    using inv unfolding sched_inv_def in_order_def deactivate_def by simp
  show ?thesis using P A O inv by (simp add: sched_inv_def)
qed

lemma finish_inv:
  assumes "sched_inv added fin (sc_queued s) s" "i \<in> tt_id ` set (sc_active s)"
  obtains s' where "finish_task i s = Some s'" "sched_inv added (i # fin) (sc_queued s') s'" "blocked_all (sc_queued s') s'"
  using queue_loop_inv[of added "i # fin" "[]" "sc_queued s" "deactivate i s"] inv_finish[OF assms]
  by (auto simp: finish_task_def startQueuedTasks_def deactivate_def)

lemma inv_add:
  assumes inv: "sched_inv added fin q s" and t: "tt_id t = length added" "\<not> tt_throws t"
  shows "sched_inv (added @ [t]) fin (q @ [t]) s"
proof -
  have pl: "placed added fin q s" using inv by (simp add: sched_inv_def)
  have m: "map tt_id added = [0 ..< length added]" using pl unfolding placed_def by (elim conjE)
  have ids: "tt_id ` set added = {0 ..< length added}" using arg_cong[OF m, of set] by simp
  have lt: "tt_id a < length added" if "a \<in> set added" for a using ids that by auto
  have e: "tt_id ` set added = tt_id ` set q \<union> tt_id ` set (sc_active s) \<union> set fin"
    and st: "set (sc_started s) = tt_id ` set (sc_active s) \<union> set fin"
    using pl unfolding placed_def by - (elim conjE, assumption)+
  have nt: "length added \<notin> tt_id ` set q \<union> tt_id ` set (sc_active s) \<union> set fin" unfolding e[symmetric] ids by simp
  have P: "placed (added @ [t]) fin (q @ [t]) s"
    using pl nt lt t(1) m unfolding placed_def by (auto simp: sorted_wrt_append)
  have O: "in_order (added @ [t]) fin s"
    unfolding in_order_def
  proof (intro ballI impI)
    fix a b assume a: "a \<in> set (added @ [t])" "b \<in> set (added @ [t])" "tt_id a < tt_id b" "conf a b"
      "tt_id b \<in> set (sc_started s)"
    have "b \<noteq> t" using a(5) nt unfolding st t(1)[symmetric] by auto
    then have "b \<in> set added" using a(2) by simp
    moreover from this have "a \<in> set added" using a(1,3) lt[of b] t(1) by auto
    ultimately show "tt_id a \<in> set fin" using inv a(3-5) unfolding sched_inv_def in_order_def by blast
  qed
  show ?thesis using P O inv t(2) by (simp add: sched_inv_def)
qed

lemma add_inv:
  assumes inv: "sched_inv added fin (sc_queued s) s" and bl: "blocked_all (sc_queued s) s"
    and t: "tt_id t = length added" "\<not> tt_throws t"
  obtains s' where "add_task t s = Some s'" "sched_inv (added @ [t]) fin (sc_queued s') s'" "blocked_all (sc_queued s') s'"
proof (cases "isBlocked t (sc_queued s) s")
  case True
  then show ?thesis
    using that[of "s\<lparr>sc_queued := sc_queued s @ [t]\<rparr>"] inv_add[OF inv t] blocked_all_snoc[OF bl True]
    by (simp add: add_task_def)
next
  case False
  have "sched_inv (added @ [t]) fin (sc_queued s) (activate t s)"
    using inv_activate[of "added @ [t]" fin "sc_queued s" t "[]" s] inv_add[OF inv t] False by simp
  moreover have "sc_queued (activate t s) = sc_queued s" by (simp add: activate_def)
  ultimately show ?thesis
    using that[of "activate t s"] False t(2) blocked_all_activate[OF bl] by (simp add: add_task_def start_task_def)
qed

lemma sched_reach_inv:
  "sched_reach s added fin \<Longrightarrow> sched_inv added fin (sc_queued s) s \<and> blocked_all (sc_queued s) s"
proof (induction rule: sched_reach.induct)
  case sched_init
  show ?case by (simp add: sched_inv_def placed_def apart_def in_order_def init_scheduler_def)
next
  case (sched_add s added fin t s')
  then obtain s2 where "add_task t s = Some s2" "sched_inv (added @ [t]) fin (sc_queued s2) s2" "blocked_all (sc_queued s2) s2"
    using add_inv by metis
  then show ?case using sched_add by simp
next
  case (sched_finish s added fin i s')
  then obtain s2 where "finish_task i s = Some s2" "sched_inv added (i # fin) (sc_queued s2) s2" "blocked_all (sc_queued s2) s2"
    using finish_inv by metis
  then show ?case using sched_finish by simp
qed

section \<open>Properties\<close>

text \<open>
  C16. Conflicting tool calls never overlap and run in the order they were added: two running tasks do not
  conflict, and a task is only ever started after every earlier task it conflicts with has settled.
\<close>
theorem scheduler_exclusion:
  assumes "sched_reach s added fin"
  shows "(\<forall>a \<in> set (sc_active s). \<forall>b \<in> set (sc_active s). tt_id a \<noteq> tt_id b \<longrightarrow> \<not> conf a b) \<and>
    (\<forall>a \<in> set added. \<forall>b \<in> set added. tt_id a < tt_id b \<longrightarrow> conf a b \<longrightarrow>
       tt_id b \<in> set (sc_started s) \<longrightarrow> tt_id a \<in> set fin)"
  using sched_reach_inv[OF assms] by (simp add: sched_inv_def apart_def in_order_def)

text \<open>
  No task is forgotten, started twice or left waiting for nothing: every task is queued, running or settled,
  and as long as one is queued another runs; adding a task and the settling of a running one always return.
\<close>
lemma scheduler_progress:
  assumes "sched_reach s added fin"
  shows "tt_id ` set added = tt_id ` set (sc_queued s) \<union> tt_id ` set (sc_active s) \<union> set fin \<and>
    distinct (sc_started s) \<and> \<not> (sc_queued s \<noteq> [] \<and> sc_active s = []) \<and>
    (tt_id t = length added \<and> \<not> tt_throws t \<longrightarrow> add_task t s \<noteq> None) \<and>
    (i \<in> tt_id ` set (sc_active s) \<longrightarrow> finish_task i s \<noteq> None)"
proof -
  have inv: "sched_inv added fin (sc_queued s) s" and bl: "blocked_all (sc_queued s) s"
    using sched_reach_inv[OF assms] by simp_all
  have pl: "placed added fin (sc_queued s) s" using inv by (simp add: sched_inv_def)
  have "distinct (sc_started s)" using pl by (simp add: placed_def)
  moreover have "sc_active s \<noteq> []" if ne: "sc_queued s \<noteq> []"
  proof -
    obtain t q where "sc_queued s = t # q" using ne by (cases "sc_queued s") auto
    then have "isBlocked t [] s" using bl[unfolded blocked_all_def, rule_format, of "[]" t q] by simp
    then show ?thesis unfolding isBlocked_iff by auto
  qed
  moreover have "add_task t s \<noteq> None" if "tt_id t = length added" "\<not> tt_throws t"
    using add_inv[OF inv bl that] by auto
  moreover have "finish_task i s \<noteq> None" if "i \<in> tt_id ` set (sc_active s)"
    using finish_inv[OF inv that] by auto
  ultimately show ?thesis using placedD(3)[OF pl] by blast
qed

text \<open>
  C17. When the start of a queued task throws, settling the task it waited for does not return: the nested
  walk over the queue finds the same task again, starts it again, and so on.
\<close>
theorem scheduler_throwing_start:
  assumes "sc_active s = [a]" "sc_queued s = [t]" "tt_throws t" "tt_id a \<noteq> tt_id t"
  shows "finish_task (tt_id a) s = None"
proof -
  have loop: "ts = [t] \<longrightarrow> st = [] \<longrightarrow> sc_queued s' = [t] \<longrightarrow> sc_active s' = [] \<longrightarrow> False"
    if "queue_loop ts st s' = Some r" for ts st s' r
    using that
  proof (rule queue_loop.raw_induct[where P = "\<lambda>ts st s' r. ts = [t] \<longrightarrow> st = [] \<longrightarrow>
      sc_queued s' = [t] \<longrightarrow> sc_active s' = [] \<longrightarrow> False", rotated])
    fix ql :: "tool_task list \<Rightarrow> tool_task list \<Rightarrow> scheduler \<Rightarrow> scheduler option"
    fix ts st :: "tool_task list" and s' r :: scheduler
    assume ih: "\<And>ts st s' r. ql ts st s' = Some r \<Longrightarrow>
      ts = [t] \<longrightarrow> st = [] \<longrightarrow> sc_queued s' = [t] \<longrightarrow> sc_active s' = [] \<longrightarrow> False"
    assume step: "(case ts of [] \<Rightarrow> Some (s'\<lparr>sc_queued := st\<rparr>)
      | t # rest \<Rightarrow>
          if isBlocked t st s' then ql rest (st @ [t]) s'
          else if tt_throws t
          then do {
            let s1 = deactivate (tt_id t) (reject (tt_id t) (activate t s'));
            s2 \<leftarrow> ql (sc_queued s1) [] s1;
            ql rest st s2 }
          else ql rest st (activate t s')) = Some r"
    show "ts = [t] \<longrightarrow> st = [] \<longrightarrow> sc_queued s' = [t] \<longrightarrow> sc_active s' = [] \<longrightarrow> False"
    proof (intro impI)
      assume e: "ts = [t]" "st = []" "sc_queued s' = [t]" "sc_active s' = []"
      define s1 where "s1 = deactivate (tt_id t) (reject (tt_id t) (activate t s'))"
      have s1: "sc_queued s1 = [t]" "sc_active s1 = []"
        using e by (simp_all add: s1_def deactivate_def reject_def activate_def)
      have "\<not> isBlocked t [] s'" using e by (simp add: isBlocked_iff)
      then have "ql [t] [] s1 \<bind> ql [] [] = Some r"
        using step assms(3) s1(1) unfolding e s1_def by (simp add: Let_def)
      then obtain s2 where "ql [t] [] s1 = Some s2" by (auto simp: bind_eq_Some_conv)
      then show False using ih s1 by blast
    qed
  qed
  have "queue_loop [t] [] (deactivate (tt_id a) s) = None"
    using loop[of "[t]" "[]" "deactivate (tt_id a) s"] assms
    by (cases "queue_loop [t] [] (deactivate (tt_id a) s)") (auto simp: deactivate_def)
  then show ?thesis using assms by (simp add: finish_task_def startQueuedTasks_def deactivate_def)
qed

section \<open>Witnesses\<close>

text \<open>Two reads overlap, a write to the same file waits for both.\<close>

definition wit_read :: "nat \<Rightarrow> tool_task" where
  "wit_read i = \<lparr>tt_id = i, tt_accesses = [FileAccess OpRead ''/a'' False], tt_throws = False\<rparr>"

definition wit_write :: "nat \<Rightarrow> tool_task" where
  "wit_write i = \<lparr>tt_id = i, tt_accesses = [FileAccess OpWrite ''/a'' False], tt_throws = False\<rparr>"

definition wit_sched :: scheduler where
  "wit_sched = \<lparr>sc_active = [wit_read 0, wit_read 1], sc_queued = [wit_write 2], sc_started = [0, 1], sc_rejected = []\<rparr>"

lemmas wit_sched_defs = wit_sched_def wit_read_def wit_write_def

lemma wit_sched_reach: "sched_reach wit_sched [wit_read 0, wit_read 1, wit_write 2] []"
proof -
  have 0: "add_task (wit_read 0) init_scheduler = Some (activate (wit_read 0) init_scheduler)" by code_simp
  have 1: "add_task (wit_read 1) (activate (wit_read 0) init_scheduler) =
    Some (activate (wit_read 1) (activate (wit_read 0) init_scheduler))" by code_simp
  have 2: "add_task (wit_write 2) (activate (wit_read 1) (activate (wit_read 0) init_scheduler)) = Some wit_sched"
    by code_simp
  have "sched_reach (activate (wit_read 0) init_scheduler) ([] @ [wit_read 0]) []"
    by (rule sched_add[OF sched_init _ _ 0]) (simp_all add: wit_read_def)
  from sched_add[OF this _ _ 1]
  have "sched_reach (activate (wit_read 1) (activate (wit_read 0) init_scheduler)) (([] @ [wit_read 0]) @ [wit_read 1]) []"
    by (simp add: wit_read_def)
  from sched_add[OF this _ _ 2] show ?thesis by (simp add: wit_write_def)
qed

lemma scheduler_exclusion_witness: "tt_id ` set (sc_active wit_sched) = {0, 1} \<and> \<not> conf (wit_read 0) (wit_read 1)"
proof -
  have "\<forall>a \<in> set (sc_active wit_sched). \<forall>b \<in> set (sc_active wit_sched). tt_id a \<noteq> tt_id b \<longrightarrow> \<not> conf a b"
    using scheduler_exclusion[OF wit_sched_reach] by (rule conjunct1)
  then show ?thesis by (simp add: wit_sched_defs)
qed

lemma scheduler_progress_witness: "finish_task 1 wit_sched \<noteq> None \<and> sc_active wit_sched \<noteq> []"
  using scheduler_progress[OF wit_sched_reach, of "wit_read 3" 1] by (simp add: wit_sched_defs)

lemma scheduler_throwing_start_witness:
  "finish_task 0 \<lparr>sc_active = [wit_read 0], sc_queued = [(wit_write 1)\<lparr>tt_throws := True\<rparr>],
     sc_started = [0], sc_rejected = []\<rparr> = None"
  using scheduler_throwing_start[of "\<lparr>sc_active = [wit_read 0], sc_queued = [(wit_write 1)\<lparr>tt_throws := True\<rparr>],
     sc_started = [0], sc_rejected = []\<rparr>" "wit_read 0" "(wit_write 1)\<lparr>tt_throws := True\<rparr>"]
  by (simp add: wit_read_def wit_write_def)

end
