(* ===== verification/SkipList.thy ===== *)
theory SkipList imports Prelude Complex_Main "HOL-Library.Monad_Syntax" begin

text \<open>
  The ordered index of the embedded database: the skip list of \<^verbatim>\<open>src/packages/minidb/src/skiplist.ts\<close>.

  Nodes live in a store; a node is known by its address, and address 0 is the header, whose key and value are
  undefined. The \<open>while\<close> loops that follow pointers are partial functions, since nothing in the code itself
  bounds them. Finite numbers are rationals (the callers only insert finite keys) and \<open>Math.random\<close> is
  the sequence of its draws.
\<close>

section \<open>Comparators\<close>

type_synonym 'a comparator = "'a \<Rightarrow> 'a \<Rightarrow> rat"

definition cmpNumber :: "rat comparator" where
  "cmpNumber a b = a - b"

fun str_less :: "string \<Rightarrow> string \<Rightarrow> bool" where
  "str_less _ [] = False"
| "str_less [] _ = True"
| "str_less (x # xs) (y # ys) =
     ((of_char x :: nat) < of_char y \<or> x = y \<and> str_less xs ys)"

definition cmpString :: "string comparator" where
  "cmpString a b = (if str_less a b then - 1 else if str_less b a then 1 else 0)"

text \<open>What the list relies on: the comparator of a total order.\<close>

locale comparator =
  fixes cmp :: "'a comparator"
  assumes cmp_eq: "cmp a b = 0 \<longleftrightarrow> a = b"
    and cmp_swap: "cmp a b < 0 \<longleftrightarrow> 0 < cmp b a"
    and cmp_trans: "cmp a b < 0 \<Longrightarrow> cmp b c < 0 \<Longrightarrow> cmp a c < 0"

section \<open>Nodes\<close>

definition MAX_LEVEL :: nat where "MAX_LEVEL = 32"

definition level_chance :: rat where "level_chance = 1 / 4"

function random_loop :: "(nat \<Rightarrow> rat) \<Rightarrow> nat \<Rightarrow> nat \<Rightarrow> nat" where
  "random_loop draws n lvl =
     (if draws n < level_chance \<and> lvl < MAX_LEVEL then random_loop draws (Suc n) (Suc lvl) else lvl)"
  by pat_completeness auto
termination by (relation "measure (\<lambda>(_, _, lvl). MAX_LEVEL - lvl)") auto

declare random_loop.simps [simp del]

definition randomLevel :: "(nat \<Rightarrow> rat) \<Rightarrow> nat" where
  "randomLevel draws = random_loop draws 0 1"

record level_entry =
  forward :: "nat option"
  span :: int

record 'e skip_node =
  sn_entry :: "'e option"
  backward :: "nat option"
  levels :: "level_entry list"

type_synonym 'e nodes = "'e skip_node list"

record 'e skiplist =
  sl_nodes :: "'e nodes"
  sl_tail :: "nat option"
  sl_length :: int
  sl_level :: nat

definition new_node :: "'e option \<Rightarrow> nat \<Rightarrow> 'e skip_node" where
  "new_node e h = \<lparr>sn_entry = e, backward = None, levels = replicate h \<lparr>forward = None, span = 0\<rparr>\<rparr>"

definition empty_skiplist :: "'e skiplist" where
  "empty_skiplist = \<lparr>sl_nodes = [new_node None MAX_LEVEL], sl_tail = None, sl_length = 0, sl_level = 1\<rparr>"

text \<open>Reading and writing \<open>x.level[i]\<close>, and a test of a node's entry.\<close>

definition lv :: "'e nodes \<Rightarrow> nat \<Rightarrow> nat \<Rightarrow> level_entry" where
  "lv ns x i = levels (ns ! x) ! i"

definition set_lv :: "nat \<Rightarrow> nat \<Rightarrow> level_entry \<Rightarrow> 'e nodes \<Rightarrow> 'e nodes" where
  "set_lv x i l ns = ns[x := (ns ! x)\<lparr>levels := (levels (ns ! x))[i := l]\<rparr>]"

definition set_backward :: "nat \<Rightarrow> nat option \<Rightarrow> 'e nodes \<Rightarrow> 'e nodes" where
  "set_backward x p ns = ns[x := (ns ! x)\<lparr>backward := p\<rparr>]"

definition entry_sat :: "('e \<Rightarrow> bool) \<Rightarrow> 'e skip_node \<Rightarrow> bool" where
  "entry_sat c node = (case sn_entry node of None \<Rightarrow> False | Some e \<Rightarrow> c e)"

section \<open>Search\<close>

definition nodeLess :: "'k comparator \<Rightarrow> 'v comparator \<Rightarrow> 'k \<times> 'v \<Rightarrow> 'k \<times> 'v \<Rightarrow> bool" where
  "nodeLess cmpK cmpV a b \<longleftrightarrow>
     (let c = cmpK (fst a) (fst b) in c < 0 \<or> c = 0 \<and> cmpV (snd a) (snd b) < 0)"

definition sameEntry :: "'k comparator \<Rightarrow> 'v comparator \<Rightarrow> 'k \<times> 'v \<Rightarrow> 'k \<times> 'v \<Rightarrow> bool" where
  "sameEntry cmpK cmpV a b \<longleftrightarrow> cmpK (fst a) (fst b) = 0 \<and> cmpV (snd a) (snd b) = 0"

text \<open>
  One \<open>while\<close> loop of a search: from node \<open>x\<close> along level \<open>i\<close>, summing the spans into \<open>r\<close>, as long as the next
  node passes the test (which may depend on its rank).
\<close>

partial_function (option) walk ::
  "('e \<Rightarrow> int \<Rightarrow> bool) \<Rightarrow> 'e nodes \<Rightarrow> nat \<Rightarrow> nat \<Rightarrow> int \<Rightarrow> (nat \<times> int) option" where
  "walk c ns i x r =
     (case forward (lv ns x i) of
        None \<Rightarrow> Some (x, r)
      | Some f \<Rightarrow>
          if entry_sat (\<lambda>e. c e (r + span (lv ns x i))) (ns ! f)
          then walk c ns i f (r + span (lv ns x i))
          else Some (x, r))"

text \<open>The loop over the levels, highest first: \<open>update\<close> and \<open>rank\<close> of every level, listed from level 0.\<close>

fun descend :: "('e \<Rightarrow> int \<Rightarrow> bool) \<Rightarrow> 'e nodes \<Rightarrow> nat \<Rightarrow> nat \<Rightarrow> int \<Rightarrow> (nat \<times> int) list option" where
  "descend c ns 0 x r = Some []"
| "descend c ns (Suc i) x r =
     do { (x', r') \<leftarrow> walk c ns i x r; below \<leftarrow> descend c ns i x' r'; Some (below @ [(x', r')]) }"

definition search :: "('e \<Rightarrow> bool) \<Rightarrow> 'e skiplist \<Rightarrow> (nat \<times> int) list option" where
  "search c s = descend (\<lambda>e _. c e) (sl_nodes s) (sl_level s) 0 0"

section \<open>Insertion\<close>

text \<open>A level above the list's own starts at the header.\<close>

definition open_levels :: "nat \<Rightarrow> (nat \<times> int) list \<Rightarrow> 'e skiplist \<Rightarrow> (nat \<times> int) list \<times> 'e skiplist" where
  "open_levels lvl ups s =
     (if sl_level s < lvl
      then (ups @ replicate (lvl - sl_level s) (0, 0),
            s\<lparr>sl_nodes := fold (\<lambda>i ns. set_lv 0 i ((lv ns 0 i)\<lparr>span := sl_length s\<rparr>) ns) [sl_level s ..< lvl] (sl_nodes s),
              sl_level := lvl\<rparr>)
      else (ups, s))"

definition link_level :: "nat \<Rightarrow> (nat \<times> int) list \<Rightarrow> nat \<Rightarrow> 'e nodes \<Rightarrow> 'e nodes" where
  "link_level x ups i ns =
     (let u = fst (ups ! i); d = snd (ups ! 0) - snd (ups ! i); l = lv ns u i in
      set_lv u i \<lparr>forward = Some x, span = d + 1\<rparr> (set_lv x i \<lparr>forward = forward l, span = span l - d\<rparr> ns))"

definition raise_span :: "(nat \<times> int) list \<Rightarrow> nat \<Rightarrow> 'e nodes \<Rightarrow> 'e nodes" where
  "raise_span ups i ns = (let u = fst (ups ! i); l = lv ns u i in set_lv u i (l\<lparr>span := span l + 1\<rparr>) ns)"

text \<open>The back pointers around a new node, and the tail.\<close>

definition link_back :: "nat \<Rightarrow> nat \<Rightarrow> 'e skiplist \<Rightarrow> 'e skiplist" where
  "link_back x u s =
     (let ns = set_backward x (if u = 0 then None else Some u) (sl_nodes s) in
      case forward (lv ns x 0) of
        Some f \<Rightarrow> s\<lparr>sl_nodes := set_backward f (Some x) ns\<rparr>
      | None \<Rightarrow> s\<lparr>sl_nodes := ns, sl_tail := Some x\<rparr>)"

definition place_node :: "'e \<Rightarrow> nat \<Rightarrow> (nat \<times> int) list \<Rightarrow> 'e skiplist \<Rightarrow> 'e skiplist" where
  "place_node e lvl ups s =
     (let x = length (sl_nodes s);
          ns1 = fold (link_level x ups) [0 ..< lvl] (sl_nodes s @ [new_node (Some e) lvl]);
          ns2 = fold (raise_span ups) [lvl ..< sl_level s] ns1;
          s2 = link_back x (fst (ups ! 0)) (s\<lparr>sl_nodes := ns2\<rparr>)
      in s2\<lparr>sl_length := sl_length s2 + 1\<rparr>)"

definition skip_insert ::
  "'k comparator \<Rightarrow> 'v comparator \<Rightarrow> (nat \<Rightarrow> rat) \<Rightarrow> 'k \<times> 'v \<Rightarrow> ('k \<times> 'v) skiplist \<Rightarrow> ('k \<times> 'v) skiplist option" where
  "skip_insert cmpK cmpV draws e s =
     do {
       ups0 \<leftarrow> search (\<lambda>f. nodeLess cmpK cmpV f e) s;
       let lvl = randomLevel draws;
       let (ups, s1) = open_levels lvl ups0 s;
       Some (place_node e lvl ups s1)
     }"

section \<open>Deletion\<close>

definition unlink_level :: "nat \<Rightarrow> (nat \<times> int) list \<Rightarrow> nat \<Rightarrow> 'e nodes \<Rightarrow> 'e nodes" where
  "unlink_level x ups i ns =
     (let u = fst (ups ! i); l = lv ns u i in
      if forward l = Some x
      then set_lv u i \<lparr>forward = forward (lv ns x i), span = span l + (span (lv ns x i) - 1)\<rparr> ns
      else set_lv u i (l\<lparr>span := span l - 1\<rparr>) ns)"

definition unlink_back :: "nat \<Rightarrow> 'e skiplist \<Rightarrow> 'e skiplist" where
  "unlink_back x s =
     (let ns = sl_nodes s in
      case forward (lv ns x 0) of
        Some f \<Rightarrow> s\<lparr>sl_nodes := set_backward f (backward (ns ! x)) ns\<rparr>
      | None \<Rightarrow> s\<lparr>sl_tail := backward (ns ! x)\<rparr>)"

fun lower_level :: "'e nodes \<Rightarrow> nat \<Rightarrow> nat" where
  "lower_level ns (Suc (Suc n)) =
     (if forward (lv ns 0 (Suc n)) = None then lower_level ns (Suc n) else Suc (Suc n))"
| "lower_level ns n = n"

definition deleteNode :: "nat \<Rightarrow> (nat \<times> int) list \<Rightarrow> 'e skiplist \<Rightarrow> 'e skiplist" where
  "deleteNode x ups s =
     (let s1 = s\<lparr>sl_nodes := fold (unlink_level x ups) [0 ..< sl_level s] (sl_nodes s)\<rparr>;
          s2 = unlink_back x s1
      in s2\<lparr>sl_level := lower_level (sl_nodes s2) (sl_level s2), sl_length := sl_length s2 - 1\<rparr>)"

definition skip_delete ::
  "'k comparator \<Rightarrow> 'v comparator \<Rightarrow> 'k \<times> 'v \<Rightarrow> ('k \<times> 'v) skiplist \<Rightarrow> (bool \<times> ('k \<times> 'v) skiplist) option" where
  "skip_delete cmpK cmpV e s =
     do {
       ups \<leftarrow> search (\<lambda>f. nodeLess cmpK cmpV f e) s;
       (case forward (lv (sl_nodes s) (fst (ups ! 0)) 0) of
          None \<Rightarrow> Some (False, s)
        | Some found \<Rightarrow>
            if entry_sat (\<lambda>f. sameEntry cmpK cmpV f e) (sl_nodes s ! found)
            then Some (True, deleteNode found ups s) else Some (False, s))
     }"

section \<open>Reading\<close>

definition lowerBound :: "'k comparator \<Rightarrow> 'k \<Rightarrow> bool \<Rightarrow> ('k \<times> 'v) skiplist \<Rightarrow> nat option option" where
  "lowerBound cmpK bound strict s =
     do {
       ups \<leftarrow> search (\<lambda>f. if strict then cmpK (fst f) bound \<le> 0 else cmpK (fst f) bound < 0) s;
       Some (forward (lv (sl_nodes s) (fst (ups ! 0)) 0))
     }"

definition getRank ::
  "'k comparator \<Rightarrow> 'v comparator \<Rightarrow> 'k \<times> 'v \<Rightarrow> ('k \<times> 'v) skiplist \<Rightarrow> int option option" where
  "getRank cmpK cmpV e s =
     do {
       ups \<leftarrow> search (\<lambda>f. nodeLess cmpK cmpV f e \<or> sameEntry cmpK cmpV f e) s;
       let (x, rank) = ups ! 0;
       Some (if x \<noteq> 0 \<and> entry_sat (\<lambda>f. sameEntry cmpK cmpV f e) (sl_nodes s ! x) then Some (rank - 1) else None)
     }"

fun by_rank :: "int \<Rightarrow> 'e nodes \<Rightarrow> nat \<Rightarrow> nat \<Rightarrow> int \<Rightarrow> 'e option option" where
  "by_rank target ns 0 x t = Some None"
| "by_rank target ns (Suc i) x t =
     do {
       (x', t') \<leftarrow> walk (\<lambda>_ reached. reached \<le> target) ns i x t;
       if t' = target then Some (sn_entry (ns ! x')) else by_rank target ns i x' t' }"

definition getByRank :: "int \<Rightarrow> 'e skiplist \<Rightarrow> 'e option option" where
  "getByRank rank s =
     (if rank < 0 \<or> sl_length s \<le> rank then Some None
      else by_rank (rank + 1) (sl_nodes s) (sl_level s) 0 0)"

record 'k range_options =
  r_gte :: "'k option"
  r_gt :: "'k option"
  r_lte :: "'k option"
  r_lt :: "'k option"
  r_offset :: "int option"
  r_count :: "int option"
  r_reverse :: bool

text \<open>An absent \<open>count\<close> is infinite.\<close>

definition some_left :: "int option \<Rightarrow> bool" where
  "some_left count = (case count of None \<Rightarrow> True | Some n \<Rightarrow> 0 < n)"

definition one_less :: "int option \<Rightarrow> int option" where
  "one_less count = map_option (\<lambda>n. n - 1) count"

partial_function (option) scan ::
  "('k \<Rightarrow> bool) \<Rightarrow> (('k \<times> 'v) skip_node \<Rightarrow> nat option) \<Rightarrow> ('k \<times> 'v) nodes \<Rightarrow> nat option \<Rightarrow> int \<Rightarrow> int option \<Rightarrow>
    ('k \<times> 'v) list \<Rightarrow> ('k \<times> 'v) list option" where
  "scan stop follow ns x offset count out =
     (case x of
        None \<Rightarrow> Some out
      | Some f \<Rightarrow>
          (case sn_entry (ns ! f) of
             None \<Rightarrow> Some out
           | Some e \<Rightarrow>
               if stop (fst e) then Some out
               else if 0 < offset then scan stop follow ns (follow (ns ! f)) (offset - 1) count out
               else if some_left count
               then scan stop follow ns (follow (ns ! f)) offset (one_less count) (out @ [e])
               else Some out))"

definition next_node :: "'e skip_node \<Rightarrow> nat option" where
  "next_node node = forward (levels node ! 0)"

definition holds :: "('k \<Rightarrow> bool) \<Rightarrow> 'k option \<Rightarrow> bool" where
  "holds c bound = (case bound of None \<Rightarrow> False | Some b \<Rightarrow> c b)"

definition before :: "('k \<times> 'v) skiplist \<Rightarrow> nat option \<Rightarrow> nat option" where
  "before s after = (case after of Some a \<Rightarrow> backward (sl_nodes s ! a) | None \<Rightarrow> sl_tail s)"

definition reverse_start :: "'k comparator \<Rightarrow> 'k range_options \<Rightarrow> ('k \<times> 'v) skiplist \<Rightarrow> nat option option" where
  "reverse_start cmpK opts s =
     (case r_lte opts of
        Some b \<Rightarrow> do { after \<leftarrow> lowerBound cmpK b True s; Some (before s after) }
      | None \<Rightarrow>
          (case r_lt opts of
             Some b \<Rightarrow> do { after \<leftarrow> lowerBound cmpK b False s; Some (before s after) }
           | None \<Rightarrow> Some (sl_tail s)))"

definition forward_start :: "'k comparator \<Rightarrow> 'k range_options \<Rightarrow> ('k \<times> 'v) skiplist \<Rightarrow> nat option option" where
  "forward_start cmpK opts s =
     (case (case r_gte opts of Some b \<Rightarrow> Some b | None \<Rightarrow> r_gt opts) of
        Some b \<Rightarrow> lowerBound cmpK b (r_gt opts \<noteq> None) s
      | None \<Rightarrow> Some (forward (lv (sl_nodes s) 0 0)))"

definition or_zero :: "int option \<Rightarrow> int" where
  "or_zero offset = (case offset of None \<Rightarrow> 0 | Some n \<Rightarrow> n)"

definition skip_range :: "'k comparator \<Rightarrow> 'k range_options \<Rightarrow> ('k \<times> 'v) skiplist \<Rightarrow> ('k \<times> 'v) list option" where
  "skip_range cmpK opts s =
     (if r_reverse opts
      then do {
        x \<leftarrow> reverse_start cmpK opts s;
        scan (\<lambda>k. holds (\<lambda>b. cmpK k b < 0) (r_gte opts) \<or> holds (\<lambda>b. cmpK k b \<le> 0) (r_gt opts))
          backward (sl_nodes s) x (or_zero (r_offset opts)) (r_count opts) [] }
      else do {
        x \<leftarrow> forward_start cmpK opts s;
        scan (\<lambda>k. holds (\<lambda>b. 0 < cmpK k b) (r_lte opts) \<or> holds (\<lambda>b. 0 \<le> cmpK k b) (r_lt opts))
          next_node (sl_nodes s) x (or_zero (r_offset opts)) (r_count opts) [] })"

text \<open>
  The generator \<open>iterate\<close>: it runs to its next \<open>yield\<close>, keeping the node it yielded, and follows that node's pointer
  (in the store of that moment) only when it is resumed.
\<close>

partial_function (option) iter_next ::
  "('k \<Rightarrow> bool) \<Rightarrow> (('k \<times> 'v) skip_node \<Rightarrow> nat option) \<Rightarrow> ('k \<times> 'v) nodes \<Rightarrow> nat option \<Rightarrow> int \<Rightarrow> int option \<Rightarrow>
    (('k \<times> 'v) \<times> nat \<times> int \<times> int option) option option" where
  "iter_next stop follow ns x offset count =
     (case x of
        None \<Rightarrow> Some None
      | Some f \<Rightarrow>
          (case sn_entry (ns ! f) of
             None \<Rightarrow> Some None
           | Some e \<Rightarrow>
               if stop (fst e) then Some None
               else if 0 < offset then iter_next stop follow ns (follow (ns ! f)) (offset - 1) count
               else if some_left count then Some (Some (e, f, offset, one_less count))
               else Some None))"

text \<open>What a consumer gets that asks for at most \<open>n\<close> entries and leaves the list alone.\<close>

fun iter_take ::
  "('k \<Rightarrow> bool) \<Rightarrow> (('k \<times> 'v) skip_node \<Rightarrow> nat option) \<Rightarrow> ('k \<times> 'v) nodes \<Rightarrow> nat \<Rightarrow> nat option \<Rightarrow> int \<Rightarrow> int option \<Rightarrow>
    ('k \<times> 'v) list option" where
  "iter_take stop follow ns 0 x offset count = Some []"
| "iter_take stop follow ns (Suc n) x offset count =
     do {
       r \<leftarrow> iter_next stop follow ns x offset count;
       (case r of
          None \<Rightarrow> Some []
        | Some (e, f, offset', count') \<Rightarrow>
            do { rest \<leftarrow> iter_take stop follow ns n (follow (ns ! f)) offset' count'; Some (e # rest) }) }"

definition skip_iterate :: "'k comparator \<Rightarrow> 'k range_options \<Rightarrow> nat \<Rightarrow> ('k \<times> 'v) skiplist \<Rightarrow> ('k \<times> 'v) list option" where
  "skip_iterate cmpK opts n s =
     (if r_reverse opts
      then do {
        x \<leftarrow> reverse_start cmpK opts s;
        iter_take (\<lambda>k. holds (\<lambda>b. cmpK k b < 0) (r_gte opts) \<or> holds (\<lambda>b. cmpK k b \<le> 0) (r_gt opts))
          backward (sl_nodes s) n x (or_zero (r_offset opts)) (r_count opts) }
      else do {
        x \<leftarrow> forward_start cmpK opts s;
        iter_take (\<lambda>k. holds (\<lambda>b. 0 < cmpK k b) (r_lte opts) \<or> holds (\<lambda>b. 0 \<le> cmpK k b) (r_lt opts))
          next_node (sl_nodes s) n x (or_zero (r_offset opts)) (r_count opts) })"

partial_function (option) collect :: "'e nodes \<Rightarrow> nat option \<Rightarrow> 'e list \<Rightarrow> 'e list option" where
  "collect ns x out =
     (case x of
        None \<Rightarrow> Some out
      | Some f \<Rightarrow>
          (case sn_entry (ns ! f) of
             None \<Rightarrow> Some out
           | Some e \<Rightarrow> collect ns (next_node (ns ! f)) (out @ [e])))"

definition toArray :: "'e skiplist \<Rightarrow> 'e list option" where
  "toArray s = collect (sl_nodes s) (forward (lv (sl_nodes s) 0 0)) []"

lemmas skip_loops_code [code] = walk.simps scan.simps iter_next.simps collect.simps

section \<open>Bulk loading\<close>

function tower :: "nat \<Rightarrow> nat \<Rightarrow> nat" where
  "tower m lvl = (if m mod 4 = 0 \<and> lvl < MAX_LEVEL then tower (m div 4) (Suc lvl) else lvl)"
  by pat_completeness auto
termination by (relation "measure (\<lambda>(_, lvl). MAX_LEVEL - lvl)") auto

declare tower.simps [simp del]

definition repeats :: "'k comparator \<Rightarrow> 'v comparator \<Rightarrow> ('k \<times> 'v) option \<Rightarrow> 'k \<times> 'v \<Rightarrow> bool" where
  "repeats cmpK cmpV prev e = (case prev of None \<Rightarrow> False | Some p \<Rightarrow> sameEntry cmpK cmpV p e)"

fun bulk_nodes :: "'k comparator \<Rightarrow> 'v comparator \<Rightarrow> nat \<Rightarrow> ('k \<times> 'v) option \<Rightarrow> ('k \<times> 'v) list \<Rightarrow> ('k \<times> 'v) nodes" where
  "bulk_nodes cmpK cmpV i prev [] = []"
| "bulk_nodes cmpK cmpV i prev (e # es) =
     (if repeats cmpK cmpV prev e then bulk_nodes cmpK cmpV (Suc i) prev es
      else new_node (Some e) (tower (Suc i) 1) # bulk_nodes cmpK cmpV (Suc i) (Some e) es)"

text \<open>\<open>lastAt\<close> holds the last node linked on each level, with its index (\<open>-1\<close> for the header).\<close>

definition bulk_level :: "nat \<Rightarrow> nat \<Rightarrow> 'e nodes \<times> (nat \<times> int) list \<Rightarrow> 'e nodes \<times> (nat \<times> int) list" where
  "bulk_level i l st =
     (let ns = fst st; lastAt = snd st; u = fst (lastAt ! l) in
      (set_lv u l \<lparr>forward = Some (Suc i), span = int i - snd (lastAt ! l)\<rparr> ns, lastAt[l := (Suc i, int i)]))"

definition bulk_link :: "nat \<Rightarrow> 'e nodes \<times> (nat \<times> int) list \<Rightarrow> 'e nodes \<times> (nat \<times> int) list" where
  "bulk_link i st =
     (let st1 = fold (bulk_level i) [0 ..< length (levels (fst st ! Suc i))] st in
      (set_backward (Suc i) (if i = 0 then None else Some i) (fst st1), snd st1))"

definition bulk_finish :: "nat \<Rightarrow> (nat \<times> int) list \<Rightarrow> nat \<Rightarrow> 'e nodes \<Rightarrow> 'e nodes" where
  "bulk_finish len lastAt l ns =
     (let u = fst (lastAt ! l) in
      set_lv u l ((lv ns u l)\<lparr>span := (if snd (lastAt ! l) = - 1 then int len else 0)\<rparr>) ns)"

definition bulkLoad :: "'k comparator \<Rightarrow> 'v comparator \<Rightarrow> ('k \<times> 'v) list \<Rightarrow> ('k \<times> 'v) skiplist" where
  "bulkLoad cmpK cmpV entries =
     (if entries = [] then empty_skiplist
      else
        let nodes = bulk_nodes cmpK cmpV 0 None entries;
            len = length nodes;
            level = fold (\<lambda>node l. max (length (levels node)) l) nodes 1;
            (ns, lastAt) = fold bulk_link [0 ..< len] (sl_nodes empty_skiplist @ nodes, replicate level (0, - 1))
        in \<lparr>sl_nodes = fold (bulk_finish len lastAt) [0 ..< level] ns, sl_tail = Some len, sl_length = int len,
            sl_level = level\<rparr>)"

end
