(* ===== verification/SkipList_Links.thy ===== *)
theory SkipList_Links imports SkipList begin

text \<open>
  The shape of a skip list: links that skip the lower nodes and count them, searches that find the last node
  before a position on every level, and the linking of a new node. The next theory builds the operations on it.
\<close>

section \<open>Reading the store\<close>

definition height :: "'e nodes \<Rightarrow> nat \<Rightarrow> nat" where
  "height ns x = length (levels (ns ! x))"

abbreviation entry_at :: "'e nodes \<Rightarrow> nat \<Rightarrow> 'e option" where
  "entry_at ns x \<equiv> sn_entry (ns ! x)"

abbreviation back_at :: "'e nodes \<Rightarrow> nat \<Rightarrow> nat option" where
  "back_at ns x \<equiv> backward (ns ! x)"

lemma upd_nth: "xs[i := v] ! j = (if j = i \<and> i < length xs then v else xs ! j)"
  by (cases "i < length xs") (auto simp: list_update_beyond)

lemma length_set_lv [simp]: "length (set_lv x i l ns) = length ns"
  by (simp add: set_lv_def)

lemma height_set_lv [simp]: "height (set_lv x i l ns) y = height ns y"
  by (simp add: set_lv_def height_def upd_nth)

lemma entry_set_lv [simp]: "entry_at (set_lv x i l ns) y = entry_at ns y"
  by (simp add: set_lv_def upd_nth)

lemma back_set_lv [simp]: "back_at (set_lv x i l ns) y = back_at ns y"
  by (simp add: set_lv_def upd_nth)

lemma lv_set_lv:
  "x < length ns \<Longrightarrow> i < height ns x \<Longrightarrow>
   lv (set_lv x i l ns) y j = (if y = x \<and> j = i then l else lv ns y j)"
  by (auto simp: set_lv_def lv_def height_def upd_nth)

lemma lv_set_other [simp]: "y \<noteq> x \<or> j \<noteq> i \<Longrightarrow> lv (set_lv x i l ns) y j = lv ns y j"
  by (auto simp: set_lv_def lv_def upd_nth)

lemma set_backward_simps [simp]:
  "length (set_backward x p ns) = length ns"
  "height (set_backward x p ns) y = height ns y"
  "entry_at (set_backward x p ns) y = entry_at ns y"
  "lv (set_backward x p ns) y j = lv ns y j"
  by (simp_all add: set_backward_def height_def lv_def upd_nth)

lemma back_set_backward:
  "x < length ns \<Longrightarrow> back_at (set_backward x p ns) y = (if y = x then p else back_at ns y)"
  by (simp add: set_backward_def upd_nth)

lemma append_node_simps [simp]:
  "y < length ns \<Longrightarrow> height (ns @ [z]) y = height ns y"
  "y < length ns \<Longrightarrow> entry_at (ns @ [z]) y = entry_at ns y"
  "y < length ns \<Longrightarrow> back_at (ns @ [z]) y = back_at ns y"
  "y < length ns \<Longrightarrow> lv (ns @ [z]) y j = lv ns y j"
  by (simp_all add: height_def lv_def nth_append)

section \<open>Links\<close>

text \<open>
  The link of node \<open>y\<close> on level \<open>i\<close>, when \<open>vs\<close> are the nodes after it: to the first of them that reaches the
  level, with its distance (the span of a null link is of no account).
\<close>

definition link_ok :: "'e nodes \<Rightarrow> nat \<Rightarrow> nat \<Rightarrow> nat list \<Rightarrow> bool" where
  "link_ok ns i y vs \<longleftrightarrow>
     forward (lv ns y i) = find (\<lambda>z. i < height ns z) vs \<and>
     ((\<exists>z \<in> set vs. i < height ns z) \<longrightarrow>
        span (lv ns y i) = int (length (takeWhile (\<lambda>z. height ns z \<le> i) vs)) + 1)"

definition chain_ok :: "'e nodes \<Rightarrow> nat list \<Rightarrow> bool" where
  "chain_ok ns zs \<longleftrightarrow> (\<forall>us y vs. zs = us @ y # vs \<longrightarrow> (\<forall>i < height ns y. link_ok ns i y vs))"

lemma chain_okD: "chain_ok ns (us @ y # vs) \<Longrightarrow> i < height ns y \<Longrightarrow> link_ok ns i y vs"
  by (simp add: chain_ok_def)

lemma find_high:
  "find (\<lambda>z. i < h z) (A @ B) = (case find (\<lambda>z. i < h z) A of None \<Rightarrow> find (\<lambda>z. i < h z) B | Some z \<Rightarrow> Some z)"
  by (induction A) auto

lemma find_low: "\<forall>z \<in> set A. h z \<le> (i::nat) \<Longrightarrow> find (\<lambda>z. i < h z) A = None"
  by (induction A) auto

lemma takeWhile_low: "\<forall>z \<in> set A. h z \<le> (i::nat) \<Longrightarrow> takeWhile (\<lambda>z. h z \<le> i) (A @ B) = A @ takeWhile (\<lambda>z. h z \<le> i) B"
  by (induction A) auto

lemma takeWhile_high: "\<exists>z \<in> set A. (i::nat) < h z \<Longrightarrow> takeWhile (\<lambda>z. h z \<le> i) (A @ B) = takeWhile (\<lambda>z. h z \<le> i) A"
  by (induction A) auto

lemma find_high_split:
  "find (\<lambda>z. i < h z) vs = Some f \<Longrightarrow>
   \<exists>us ws. vs = us @ f # ws \<and> (\<forall>z \<in> set us. h z \<le> (i::nat)) \<and> i < h f"
proof (induction vs)
  case (Cons v vs)
  show ?case
  proof (cases "i < h v")
    case True then show ?thesis using Cons.prems by (intro exI[of _ "[]"] exI[of _ vs]) auto
  next
    case False
    then obtain us ws where "vs = us @ f # ws" "\<forall>z \<in> set us. h z \<le> i" "i < h f" using Cons by auto
    then show ?thesis using False by (intro exI[of _ "v # us"] exI[of _ ws]) auto
  qed
qed simp

lemma link_ok_Some:
  assumes "link_ok ns i y vs" "forward (lv ns y i) = Some f"
  obtains us ws where "vs = us @ f # ws" "\<forall>z \<in> set us. height ns z \<le> i" "i < height ns f"
    "span (lv ns y i) = int (length us) + 1"
proof -
  obtain us ws where s: "vs = us @ f # ws" "\<forall>z \<in> set us. height ns z \<le> i" "i < height ns f"
    using assms find_high_split[of i "height ns" vs f] by (auto simp: link_ok_def)
  have "takeWhile (\<lambda>z. height ns z \<le> i) vs = us" unfolding s(1) using s(2,3) takeWhile_low[of us "height ns" i] by simp
  then have "span (lv ns y i) = int (length us) + 1"
    using assms(1) s(3) unfolding link_ok_def s(1) by auto
  then show ?thesis using s that by blast
qed

lemma link_ok_None:
  "link_ok ns i y vs \<Longrightarrow> forward (lv ns y i) = None \<Longrightarrow> \<forall>z \<in> set vs. height ns z \<le> i"
  unfolding link_ok_def using find_None_iff[of "\<lambda>z. i < height ns z" vs] by (auto simp: not_less)

section \<open>Search\<close>

text \<open>
  What a search finds when the nodes before the position form \<open>A\<close> (the header first): on every level the last
  node of \<open>A\<close> that reaches it, and its rank.
\<close>

definition last_high :: "'e nodes \<Rightarrow> nat \<Rightarrow> nat list \<Rightarrow> nat \<times> int \<Rightarrow> bool" where
  "last_high ns i A u \<longleftrightarrow>
     (\<exists>A1 A2. A = A1 @ fst u # A2 \<and> snd u = int (length A1) \<and> i < height ns (fst u) \<and> (\<forall>y \<in> set A2. height ns y \<le> i))"

definition ups_ok :: "'e nodes \<Rightarrow> nat \<Rightarrow> nat list \<Rightarrow> (nat \<times> int) list \<Rightarrow> bool" where
  "ups_ok ns lvl A ups \<longleftrightarrow> length ups = lvl \<and> (\<forall>i < lvl. last_high ns i A (ups ! i))"

text \<open>The test of a search divides the nodes: those of \<open>A\<close> after the header pass, those of \<open>B\<close> do not.\<close>

definition divides :: "('e \<Rightarrow> int \<Rightarrow> bool) \<Rightarrow> 'e nodes \<Rightarrow> nat list \<Rightarrow> nat list \<Rightarrow> bool" where
  "divides c ns A B \<longleftrightarrow>
     (\<forall>us y vs. A @ B = us @ y # vs \<longrightarrow> us \<noteq> [] \<longrightarrow>
        (entry_sat (\<lambda>e. c e (int (length us))) (ns ! y) \<longleftrightarrow> length us < length A))"

lemma dividesD:
  "divides c ns A B \<Longrightarrow> A @ B = us @ y # vs \<Longrightarrow> us \<noteq> [] \<Longrightarrow>
   entry_sat (\<lambda>e. c e (int (length us))) (ns ! y) \<longleftrightarrow> length us < length A"
  by (simp add: divides_def)

lemma split_prefix:
  assumes "A @ B = us @ vs" "length us \<le> length A"
  shows "A = us @ take (length A - length us) vs"
  using arg_cong[OF assms(1), of "take (length A)"] assms(2) by simp

lemma last_highI:
  "A = A1 @ x # A2 \<Longrightarrow> i < height ns x \<Longrightarrow> \<forall>y \<in> set A2. height ns y \<le> i \<Longrightarrow> last_high ns i A (x, int (length A1))"
  by (auto simp: last_high_def)

lemma last_highE:
  assumes "last_high ns i A u"
  obtains A1 A2 where "A = A1 @ fst u # A2" "snd u = int (length A1)" "i < height ns (fst u)"
    "\<forall>y \<in> set A2. height ns y \<le> i"
  using assms unfolding last_high_def by blast

lemma walk_ok:
  assumes "chain_ok ns (A @ B)" "divides c ns A B" "A @ B = A1 @ x # R" "length A1 < length A" "i < height ns x"
  shows "\<exists>u. walk c ns i x (int (length A1)) = Some u \<and> last_high ns i A u"
  using assms(3-5)
proof (induction "length A - length A1" arbitrary: A1 x R rule: less_induct)
  case less
  have link: "link_ok ns i x R" using assms(1) less.prems(1,3) chain_okD[of ns A1 x R i] by simp
  have A: "A = A1 @ x # take (length A - length A1 - 1) R"
    using split_prefix[OF less.prems(1)] less.prems(2) by (cases "length A - length A1") simp_all
  show ?case
  proof (cases "forward (lv ns x i)")
    case None
    then have "\<forall>z \<in> set R. height ns z \<le> i" using link_ok_None[OF link] by simp
    then have "last_high ns i A (x, int (length A1))"
      by (intro last_highI[OF A less.prems(3)]) (auto dest: in_set_takeD)
    then show ?thesis using None by (subst walk.simps) simp
  next
    case (Some f)
    then obtain us ws where R: "R = us @ f # ws" and low: "\<forall>z \<in> set us. height ns z \<le> i" and hf: "i < height ns f"
      and sp: "span (lv ns x i) = int (length us) + 1" using link_ok_Some[OF link] by blast
    have split: "A @ B = (A1 @ x # us) @ f # ws" using less.prems(1) R by simp
    define q where "q = length (A1 @ x # us)"
    have rank: "int (length A1) + span (lv ns x i) = int q" using sp by (simp add: q_def)
    have test: "entry_sat (\<lambda>e. c e (int q)) (ns ! f) \<longleftrightarrow> q < length A"
      using dividesD[OF assms(2) split] by (simp add: q_def)
    have q: "length A1 < q" by (simp add: q_def)
    show ?thesis
    proof (cases "q < length A")
      case True
      have "length A - q < length A - length A1" using q less.prems(2) by simp
      then obtain u where "walk c ns i f (int q) = Some u" "last_high ns i A u"
        using less.hyps[OF _ split _ hf] True by (auto simp: q_def)
      then show ?thesis using True by (subst walk.simps) (simp add: Some rank test)
    next
      case False
      then have "set (take (length A - length A1 - 1) R) \<subseteq> set us" using R by (auto simp: q_def dest: in_set_takeD)
      then have "last_high ns i A (x, int (length A1))"
        using low by (intro last_highI[OF A less.prems(3)]) auto
      then show ?thesis using False by (subst walk.simps) (simp add: Some rank test)
    qed
  qed
qed

lemma descend_ok:
  assumes "chain_ok ns (A @ B)" "divides c ns A B"
  shows "A @ B = A1 @ x # R \<Longrightarrow> length A1 < length A \<Longrightarrow> lvl \<le> height ns x \<Longrightarrow>
    \<exists>ups. descend c ns lvl x (int (length A1)) = Some ups \<and> ups_ok ns lvl A ups"
proof (induction lvl arbitrary: A1 x R)
  case 0 then show ?case by (simp add: ups_ok_def)
next
  case (Suc i)
  obtain u where u: "walk c ns i x (int (length A1)) = Some u" "last_high ns i A u"
    using walk_ok[OF assms Suc.prems(1,2), of i] Suc.prems(3) by auto
  obtain A1' A2 where s: "A = A1' @ fst u # A2" "snd u = int (length A1')" "i < height ns (fst u)"
    using last_highE[OF u(2)] by blast
  obtain ups where ups: "descend c ns i (fst u) (snd u) = Some ups" "ups_ok ns i A ups"
    using Suc.IH[of A1' "fst u" "A2 @ B"] s by auto
  have "ups_ok ns (Suc i) A (ups @ [u])"
    using ups(2) u(2) by (auto simp: ups_ok_def nth_append less_Suc_eq)
  then show ?case using u(1) ups(1) by (cases u) simp
qed

section \<open>The invariant\<close>

fun back_ok :: "'e nodes \<Rightarrow> nat option \<Rightarrow> nat list \<Rightarrow> bool" where
  "back_ok ns p [] \<longleftrightarrow> True"
| "back_ok ns p (y # ys) \<longleftrightarrow> back_at ns y = p \<and> back_ok ns (Some y) ys"

definition nodes_ok :: "'e nodes \<Rightarrow> nat \<Rightarrow> nat list \<Rightarrow> bool" where
  "nodes_ok ns lvl ys \<longleftrightarrow>
     distinct (0 # ys) \<and> set (0 # ys) \<subseteq> {..< length ns} \<and> height ns 0 = MAX_LEVEL \<and> 1 \<le> lvl \<and> lvl \<le> MAX_LEVEL \<and>
     (\<forall>y \<in> set ys. 1 \<le> height ns y \<and> height ns y \<le> lvl \<and> entry_at ns y \<noteq> None)"

definition last_of :: "nat list \<Rightarrow> nat option" where
  "last_of ys = (if ys = [] then None else Some (last ys))"

definition skip_inv :: "nat list \<Rightarrow> 'e skiplist \<Rightarrow> bool" where
  "skip_inv ys s \<longleftrightarrow>
     nodes_ok (sl_nodes s) (sl_level s) ys \<and> chain_ok (sl_nodes s) (0 # ys) \<and> back_ok (sl_nodes s) None ys \<and>
     sl_tail s = last_of ys \<and> sl_length s = int (length ys)"

lemma nodes_okD:
  assumes "nodes_ok ns lvl ys"
  shows "distinct (0 # ys)" "set (0 # ys) \<subseteq> {..< length ns}" "height ns 0 = MAX_LEVEL" "1 \<le> lvl" "lvl \<le> MAX_LEVEL"
    "\<And>y. y \<in> set ys \<Longrightarrow> 1 \<le> height ns y" "\<And>y. y \<in> set ys \<Longrightarrow> height ns y \<le> lvl"
    "\<And>y. y \<in> set ys \<Longrightarrow> entry_at ns y \<noteq> None" "\<And>y. y \<in> set (0 # ys) \<Longrightarrow> y < length ns"
  using assms unfolding nodes_ok_def by auto

lemma skip_invD:
  assumes "skip_inv ys s"
  shows "nodes_ok (sl_nodes s) (sl_level s) ys" "chain_ok (sl_nodes s) (0 # ys)" "back_ok (sl_nodes s) None ys"
    "sl_tail s = last_of ys" "sl_length s = int (length ys)"
  using assms unfolding skip_inv_def by - (elim conjE, assumption)+

lemma search_ok:
  assumes "skip_inv ys s" "0 # ys = A @ B" "A \<noteq> []" "divides (\<lambda>e _. c e) (sl_nodes s) A B"
  obtains ups where "search c s = Some ups" "ups_ok (sl_nodes s) (sl_level s) A ups"
proof -
  have lvl: "sl_level s \<le> height (sl_nodes s) 0" using nodes_okD(3,5)[OF skip_invD(1)[OF assms(1)]] by simp
  have chain: "chain_ok (sl_nodes s) (A @ B)" using skip_invD(2)[OF assms(1)] unfolding assms(2) .
  have head: "A @ B = [] @ 0 # ys" "length [] < length A" using assms(2,3) by simp_all
  show ?thesis
    using descend_ok[OF chain assms(4) head lvl] that unfolding search_def by auto
qed

section \<open>Linking a node in\<close>

lemma split_around:
  "A @ x # B = us @ y # vs \<Longrightarrow>
   (\<exists>w. A = us @ y # w \<and> vs = w @ x # B) \<or> (us = A \<and> y = x \<and> vs = B) \<or> (\<exists>w. B = w @ y # vs \<and> us = A @ x # w)"
proof -
  assume e: "A @ x # B = us @ y # vs"
  then consider t where "A = us @ t" "t @ x # B = y # vs" | t where "us = A @ t" "x # B = t @ y # vs"
    unfolding append_eq_append_conv2 by blast
  then show ?thesis
  proof cases
    case (1 t) then show ?thesis by (cases t) auto
  next
    case (2 t) then show ?thesis by (cases t) auto
  qed
qed

lemma last_high_here:
  assumes "last_high ns i A u" "A = us @ y # w" "i < height ns y" "\<forall>z \<in> set w. height ns z \<le> i"
  shows "fst u = y \<and> snd u = int (length us)"
proof -
  obtain A1 A2 where a: "A = A1 @ fst u # A2" "snd u = int (length A1)" "i < height ns (fst u)"
    "\<forall>y \<in> set A2. height ns y \<le> i" using last_highE[OF assms(1)] by blast
  from split_around[OF trans[OF a(1)[symmetric] assms(2)]] show ?thesis
  proof (elim disjE exE conjE)
    fix t assume "w = t @ fst u # A2" then show ?thesis using a(3) assms(4) by auto
  next
    assume "us = A1" "y = fst u" then show ?thesis using a(2) by simp
  next
    fix t assume "A2 = t @ y # w" then show ?thesis using a(4) assms(3) by auto
  qed
qed

lemma last_high_elsewhere:
  assumes "last_high ns i A u" "A = us @ y # w" "distinct A" "z \<in> set w" "i < height ns z"
  shows "fst u \<noteq> y"
proof -
  obtain A1 A2 where a: "A = A1 @ fst u # A2" "\<forall>y \<in> set A2. height ns y \<le> i"
    using last_highE[OF assms(1)] by blast
  from split_around[OF trans[OF a(1)[symmetric] assms(2)]] show ?thesis
  proof (elim disjE exE conjE)
    fix t assume "w = t @ fst u # A2" then show ?thesis using assms(2,3) by auto
  next
    assume "w = A2"
    then have "height ns z \<le> i" using a(2) assms(4) by blast
    then show ?thesis using assms(5) by simp
  next
    fix t assume "A2 = t @ y # w"
    then have "z \<in> set A2" using assms(4) by simp
    then have "height ns z \<le> i" using a(2) by blast
    then show ?thesis using assms(5) by simp
  qed
qed

lemma last_high_in: "last_high ns i A u \<Longrightarrow> fst u \<in> set A \<and> i < height ns (fst u)"
  by (auto simp: last_high_def)

lemma link_cong:
  "lv ns' y i = lv ns y i \<Longrightarrow> \<forall>z \<in> set vs. height ns' z = height ns z \<Longrightarrow> link_ok ns' i y vs = link_ok ns i y vs"
  unfolding link_ok_def by (simp cong: find_cong takeWhile_cong)

lemma link_high: "\<exists>z \<in> set w. i < height ns z \<Longrightarrow> link_ok ns i y (w @ C) = link_ok ns i y w"
  unfolding link_ok_def find_high takeWhile_high
  using find_None_iff[of "\<lambda>z. i < height ns z" w] by (auto split: option.splits)

lemma link_low:
  "\<forall>z \<in> set w. height ns z \<le> i \<Longrightarrow> link_ok ns i y (w @ C) \<longleftrightarrow>
     forward (lv ns y i) = find (\<lambda>z. i < height ns z) C \<and>
     ((\<exists>z \<in> set C. i < height ns z) \<longrightarrow>
        span (lv ns y i) = int (length w) + int (length (takeWhile (\<lambda>z. height ns z \<le> i) C)) + 1)"
  unfolding link_ok_def by (auto simp: find_high find_low takeWhile_low not_less[symmetric])

lemma chain_suffix: "chain_ok ns (A @ B) \<Longrightarrow> chain_ok ns B"
  unfolding chain_ok_def
proof (intro allI impI)
  fix us y vs i
  assume a: "\<forall>us y vs. A @ B = us @ y # vs \<longrightarrow> (\<forall>i<height ns y. link_ok ns i y vs)" "B = us @ y # vs" "i < height ns y"
  show "link_ok ns i y vs" using a(1)[rule_format, of "A @ us" y vs i] a(2,3) by simp
qed

lemma chain_cong:
  assumes "\<forall>y \<in> set zs. height ns' y = height ns y \<and> (\<forall>i < height ns y. lv ns' y i = lv ns y i)" "chain_ok ns zs"
  shows "chain_ok ns' zs"
  unfolding chain_ok_def
proof (intro allI impI)
  fix us y vs i assume zs: "zs = us @ y # vs" and i: "i < height ns' y"
  have "height ns' y = height ns y" "lv ns' y i = lv ns y i" "\<forall>z \<in> set vs. height ns' z = height ns z"
    using assms(1) zs i by auto
  then show "link_ok ns' i y vs" using link_cong[of ns' y i ns vs] assms(2) zs i chain_okD[of ns us y vs i] by simp
qed

lemma find_high_iff: "(find (\<lambda>z. (i::nat) < h z) B \<noteq> None) = (\<exists>z \<in> set B. i < h z)"
  using find_None_iff[of "\<lambda>z. i < h z" B] by auto

text \<open>How the entries of the levels change when node \<open>x\<close> of height \<open>h\<close> is linked between \<open>A\<close> and \<open>B\<close>.\<close>

definition linked_in :: "nat \<Rightarrow> nat \<Rightarrow> nat \<Rightarrow> (nat \<times> int) list \<Rightarrow> nat list \<Rightarrow> 'e nodes \<Rightarrow> 'e nodes \<Rightarrow> bool" where
  "linked_in x h lvl ups zs ns ns' \<longleftrightarrow>
     (\<forall>y \<in> set zs. height ns' y = height ns y \<and>
        (\<forall>i < height ns y. i < lvl \<longrightarrow> y = fst (ups ! i) \<longrightarrow>
           forward (lv ns' y i) = (if i < h then Some x else forward (lv ns y i)) \<and>
           (i < h \<or> forward (lv ns y i) \<noteq> None \<longrightarrow>
              span (lv ns' y i) = (if i < h then snd (ups ! 0) - snd (ups ! i) else span (lv ns y i)) + 1)) \<and>
        (\<forall>i < height ns y. \<not> (i < lvl \<and> y = fst (ups ! i)) \<longrightarrow> lv ns' y i = lv ns y i)) \<and>
     height ns' x = h \<and>
     (\<forall>i < h. forward (lv ns' x i) = forward (lv ns (fst (ups ! i)) i) \<and>
        (forward (lv ns (fst (ups ! i)) i) \<noteq> None \<longrightarrow>
           span (lv ns' x i) = span (lv ns (fst (ups ! i)) i) - (snd (ups ! 0) - snd (ups ! i))))"

lemma last_high_bottom:
  assumes "last_high ns 0 A u" "\<forall>y \<in> set (tl A). 1 \<le> height ns y"
  shows "snd u + 1 = int (length A)"
proof -
  obtain A1 A2 where a: "A = A1 @ fst u # A2" "snd u = int (length A1)" "\<forall>y \<in> set A2. height ns y \<le> 0"
    using last_highE[OF assms(1)] by blast
  have "set A2 \<subseteq> set (tl A)" unfolding a(1) by (cases A1) auto
  have "A2 = []"
  proof (rule ccontr)
    assume "A2 \<noteq> []"
    then have "hd A2 \<in> set A2" by simp
    then have "height ns (hd A2) \<le> 0" "1 \<le> height ns (hd A2)" using a(3) assms(2) \<open>set A2 \<subseteq> _\<close> by blast+
    then show False by simp
  qed
  then show ?thesis using a(1,2) by simp
qed

lemma last_high_low:
  "last_high ns i A u \<Longrightarrow> A = us @ y # w \<Longrightarrow> i < height ns y \<Longrightarrow> \<forall>z \<in> set w. height ns z \<le> i \<Longrightarrow>
   last_high ns 0 A b \<Longrightarrow> \<forall>y \<in> set (tl A). 1 \<le> height ns y \<Longrightarrow>
   fst u = y \<and> snd b - snd u = int (length w)"
  using last_high_here[of ns i A u us y w] last_high_bottom[of ns A b] by simp

lemma chain_linked:
  assumes chain: "chain_ok ns (A @ B)" and dist: "distinct (A @ B)"
    and ups: "ups_ok ns lvl A ups" and h: "1 \<le> h" "h \<le> lvl"
    and heights: "\<forall>y \<in> set (tl A) \<union> set B. 1 \<le> height ns y \<and> height ns y \<le> lvl"
    and new: "linked_in x h lvl ups (A @ B) ns ns'"
  shows "chain_ok ns' (A @ x # B)"
proof -
  have hts: "height ns' z = height ns z" if "z \<in> set A \<union> set B" for z using new that by (auto simp: linked_in_def)
  have hx: "height ns' x = h" using new by (simp add: linked_in_def)
  have lh: "last_high ns i A (ups ! i)" if "i < lvl" for i using ups that by (simp add: ups_ok_def)
  have same: "lv ns' y i = lv ns y i" if "y \<in> set A \<union> set B" "i < height ns y" "\<not> (i < lvl \<and> y = fst (ups ! i))" for y i
    using new that by (auto simp: linked_in_def)
  have upd: "forward (lv ns' y i) = (if i < h then Some x else forward (lv ns y i)) \<and>
      (i < h \<or> forward (lv ns y i) \<noteq> None \<longrightarrow>
         span (lv ns' y i) = (if i < h then snd (ups ! 0) - snd (ups ! i) else span (lv ns y i)) + 1)"
    if "y \<in> set (A @ B)" "i < height ns y" "i < lvl" "y = fst (ups ! i)" for y i
    using new that unfolding linked_in_def by blast
  have inA: "link_ok ns' i y (w @ x # B)" if A: "A = us @ y # w" and i: "i < height ns y" for us y w i
  proof -
    have old: "link_ok ns i y (w @ B)" using chain_okD[of ns us y "w @ B" i] chain i by (simp add: A)
    have hw: "\<forall>z \<in> set w. height ns' z = height ns z" and hB: "\<forall>z \<in> set B. height ns' z = height ns z"
      using hts A by auto
    show ?thesis
    proof (cases "\<exists>z \<in> set w. i < height ns z")
      case True
      then have "\<not> (i < lvl \<and> y = fst (ups ! i))"
        using last_high_elsewhere[OF lh A] dist by auto
      then have "lv ns' y i = lv ns y i" using same A i by simp
      then have "link_ok ns' i y w = link_ok ns i y w" using hw by (rule link_cong)
      moreover have "\<exists>z \<in> set w. i < height ns' z" using True hw by auto
      ultimately show ?thesis using old True by (simp add: link_high)
    next
      case False
      then have low: "\<forall>z \<in> set w. height ns z \<le> i" and low': "\<forall>z \<in> set w. height ns' z \<le> i" using hw by auto
      note old = old[unfolded link_low[OF low]]
      have B: "find (\<lambda>z. i < height ns' z) B = find (\<lambda>z. i < height ns z) B"
        "takeWhile (\<lambda>z. height ns' z \<le> i) B = takeWhile (\<lambda>z. height ns z \<le> i) B"
        "(\<exists>z \<in> set B. i < height ns' z) = (\<exists>z \<in> set B. i < height ns z)"
        using hB by (auto cong: find_cong takeWhile_cong)
      show ?thesis
      proof (cases "i < lvl")
        case True
        have u: "fst (ups ! i) = y" "snd (ups ! 0) - snd (ups ! i) = int (length w)"
          using last_high_low[OF lh[OF True] A i low, of "ups ! 0"] lh[of 0] heights True by auto
        show ?thesis
          using old upd[OF _ i True u(1)[symmetric]] A u(2) hx find_high_iff[of i "height ns" B]
          unfolding link_low[OF low'] by (auto simp: B)
      next
        case False
        then have "lv ns' y i = lv ns y i" using same A i by simp
        moreover have "\<forall>z \<in> set B. height ns z \<le> i"
        proof
          fix z assume "z \<in> set B"
          then have "height ns z \<le> lvl" using heights by blast
          then show "height ns z \<le> i" using False by simp
        qed
        ultimately show ?thesis
          using old hx h(2) False unfolding link_low[OF low'] by (auto simp: B not_less)
      qed
    qed
  qed
  have atx: "link_ok ns' i x B" if i: "i < h" for i
  proof -
    have il: "i < lvl" using i h(2) by simp
    obtain A1 A2 where a: "A = A1 @ fst (ups ! i) # A2" "i < height ns (fst (ups ! i))" "\<forall>y \<in> set A2. height ns y \<le> i"
      using last_highE[OF lh[OF il]] by blast
    have old: "link_ok ns i (fst (ups ! i)) (A2 @ B)"
      using chain_okD[of ns A1 "fst (ups ! i)" "A2 @ B" i] chain a(2) by (subst (asm) a(1)) simp
    have d: "snd (ups ! 0) - snd (ups ! i) = int (length A2)"
      using last_high_low[OF lh[OF il] a(1,2,3), of "ups ! 0"] lh[of 0] heights il by auto
    have hB: "\<forall>z \<in> set B. height ns' z = height ns z" using hts by auto
    have B: "find (\<lambda>z. i < height ns' z) B = find (\<lambda>z. i < height ns z) B"
        "takeWhile (\<lambda>z. height ns' z \<le> i) B = takeWhile (\<lambda>z. height ns z \<le> i) B"
        "(\<exists>z \<in> set B. i < height ns' z) = (\<exists>z \<in> set B. i < height ns z)"
      using hB by (auto cong: find_cong takeWhile_cong)
    have "forward (lv ns' x i) = forward (lv ns (fst (ups ! i)) i) \<and>
        (forward (lv ns (fst (ups ! i)) i) \<noteq> None \<longrightarrow>
           span (lv ns' x i) = span (lv ns (fst (ups ! i)) i) - int (length A2))"
      using new i d by (simp add: linked_in_def)
    then show ?thesis using old[unfolded link_low[OF a(3)]] find_high_iff[of i "height ns" B] unfolding link_ok_def B by auto
  qed
  show ?thesis
    unfolding chain_ok_def
  proof (intro allI impI)
    fix us y vs i assume e: "A @ x # B = us @ y # vs" and i: "i < height ns' y"
    from split_around[OF e] show "link_ok ns' i y vs"
    proof (elim disjE exE conjE)
      fix w assume "A = us @ y # w" "vs = w @ x # B"
      then show ?thesis using inA[of us y w i] i hts by simp
    next
      assume "y = x" "vs = B" then show ?thesis using atx i hx by simp
    next
      fix w assume B: "B = w @ y # vs"
      then have "link_ok ns i y vs" using chain_okD[of ns "A @ w" y vs i] chain i hts by simp
      moreover have "y \<noteq> fst (ups ! i)" if "i < lvl" using last_high_in[OF lh[OF that]] dist B by auto
      ultimately show ?thesis
        using same[of y i] i hts B link_cong[of ns' y i ns vs] by simp
    qed
  qed
qed

end
