(* ===== verification/SkipList_Proofs.thy ===== *)
theory SkipList_Proofs imports SkipList_Links begin

text \<open>
  The skip list refines a sorted list: from the empty list, every sequence of insertions and deletions (with
  any random levels) returns, and leaves exactly the entries of the reference, in order; ranks, bounds and
  ranges are those of the reference.
\<close>

section \<open>Levels\<close>

lemma random_loop_bounds: "lvl \<le> MAX_LEVEL \<Longrightarrow> lvl \<le> random_loop draws n lvl \<and> random_loop draws n lvl \<le> MAX_LEVEL"
proof (induction draws n lvl rule: random_loop.induct)
  case (1 draws n lvl)
  show ?case using 1 by (subst random_loop.simps, subst (2) random_loop.simps) auto
qed

lemma randomLevel_bounds: "1 \<le> randomLevel draws" "randomLevel draws \<le> MAX_LEVEL"
  using random_loop_bounds[of 1 draws 0] by (auto simp: randomLevel_def MAX_LEVEL_def)

text \<open>A store with the same nodes, up to their levels.\<close>

definition same_nodes :: "'e nodes \<Rightarrow> 'e nodes \<Rightarrow> bool" where
  "same_nodes ns ns' \<longleftrightarrow> length ns' = length ns \<and>
     (\<forall>y. height ns' y = height ns y \<and> entry_at ns' y = entry_at ns y \<and> back_at ns' y = back_at ns y)"

lemma same_nodes_refl [simp]: "same_nodes ns ns"
  by (simp add: same_nodes_def)

lemma same_nodes_set_lv: "same_nodes ns ns' \<Longrightarrow> same_nodes ns (set_lv x i l ns')"
  by (simp add: same_nodes_def)

lemma fold_header_spans:
  "b \<le> height ns 0 \<Longrightarrow> 0 < length ns \<Longrightarrow>
   same_nodes ns (fold (\<lambda>i ns. set_lv 0 i ((lv ns 0 i)\<lparr>span := L\<rparr>) ns) [a ..< b] ns) \<and>
   (\<forall>y j. lv (fold (\<lambda>i ns. set_lv 0 i ((lv ns 0 i)\<lparr>span := L\<rparr>) ns) [a ..< b] ns) y j =
      (if y = 0 \<and> a \<le> j \<and> j < b then (lv ns y j)\<lparr>span := L\<rparr> else lv ns y j))"
proof (induction b)
  case (Suc b)
  show ?case
  proof (cases "a \<le> b")
    case True
    define m where "m = fold (\<lambda>i ns. set_lv 0 i ((lv ns 0 i)\<lparr>span := L\<rparr>) ns) [a ..< b] ns"
    have m: "same_nodes ns m" "\<And>y j. lv m y j = (if y = 0 \<and> a \<le> j \<and> j < b then (lv ns y j)\<lparr>span := L\<rparr> else lv ns y j)"
      using Suc by (simp_all add: m_def)
    have "0 < length m" "b < height m 0" using m(1) Suc.prems by (auto simp: same_nodes_def)
    then have "lv (set_lv 0 b l m) y j = (if y = 0 \<and> j = b then l else lv m y j)" for l y j
      by (rule lv_set_lv)
    then show ?thesis
      using True m(1) same_nodes_set_lv[OF m(1)] by (auto simp: m_def[symmetric] m(2))
  qed simp
qed simp

lemma chain_header_spans:
  assumes chain: "chain_ok ns (0 # ys)" and dist: "distinct (0 # ys)" and low: "\<forall>y \<in> set ys. height ns y \<le> a"
    and same: "same_nodes ns ns'"
    and lv: "\<forall>y j. lv ns' y j = (if y = 0 \<and> a \<le> j \<and> j < b then (lv ns y j)\<lparr>span := L\<rparr> else lv ns y j)"
  shows "chain_ok ns' (0 # ys)"
  unfolding chain_ok_def
proof (intro allI impI)
  fix us y vs i assume zs: "0 # ys = us @ y # vs" and i: "i < height ns' y"
  have hs: "height ns' z = height ns z" for z using same by (simp add: same_nodes_def)
  have old: "link_ok ns i y vs" using chain chain_okD[of ns us y vs i] i hs zs by simp
  show "link_ok ns' i y vs"
  proof (cases "y = 0 \<and> a \<le> i \<and> i < b")
    case True
    then have "vs = ys" using zs dist by (cases us) auto
    then have "\<not> (\<exists>z \<in> set vs. i < height ns z)" using low True by fastforce
    then show ?thesis using old True lv hs unfolding link_ok_def by simp
  next
    case False
    have "lv ns' y i = lv ns y i" using lv[rule_format, of y i] unfolding if_not_P[OF False] .
    then show ?thesis using old link_cong[of ns' y i ns vs] hs by simp
  qed
qed

lemma back_ok_cong: "\<forall>y \<in> set ys. back_at ns' y = back_at ns y \<Longrightarrow> back_ok ns' p ys = back_ok ns p ys"
  by (induction ys arbitrary: p) auto

lemma nodes_ok_same: "same_nodes ns ns' \<Longrightarrow> nodes_ok ns lvl ys \<Longrightarrow> lvl \<le> lvl' \<Longrightarrow> lvl' \<le> MAX_LEVEL \<Longrightarrow> nodes_ok ns' lvl' ys"
  unfolding nodes_ok_def same_nodes_def by fastforce

lemma last_high_header:
  "\<forall>y \<in> set ys. height ns y \<le> i \<Longrightarrow> i < height ns 0 \<Longrightarrow> last_high ns i (0 # ys) (0, 0)"
  using last_highI[of "0 # ys" "[]" 0 ys i ns] by simp

lemma ups_same:
  "same_nodes ns ns' \<Longrightarrow> ups_ok ns lvl A ups \<Longrightarrow> ups_ok ns' lvl A ups"
  by (simp add: ups_ok_def last_high_def same_nodes_def)

lemma open_levels_ok:
  assumes inv: "skip_inv (A @ B) s" and ups: "ups_ok (sl_nodes s) (sl_level s) (0 # A) ups"
    and h: "lvl \<le> MAX_LEVEL" and res: "open_levels lvl ups s = (ups', s')"
  shows "skip_inv (A @ B) s' \<and> ups_ok (sl_nodes s') (sl_level s') (0 # A) ups' \<and> lvl \<le> sl_level s' \<and>
    length (sl_nodes s') = length (sl_nodes s) \<and> (\<forall>y. entry_at (sl_nodes s') y = entry_at (sl_nodes s) y)"
proof (cases "sl_level s < lvl")
  case False
  then show ?thesis using assms by (auto simp: open_levels_def)
next
  case True
  note nok = skip_invD(1)[OF inv] and D = nodes_okD[OF skip_invD(1)[OF inv]]
  let ?ns = "fold (\<lambda>i ns. set_lv 0 i ((lv ns 0 i)\<lparr>span := sl_length s\<rparr>) ns) [sl_level s ..< lvl] (sl_nodes s)"
  have s': "sl_nodes s' = ?ns" "sl_level s' = lvl" "sl_tail s' = sl_tail s" "sl_length s' = sl_length s"
    and u': "ups' = ups @ replicate (lvl - sl_level s) (0, 0)" using res True by (auto simp: open_levels_def)
  have "0 < length (sl_nodes s)" using D(9)[of 0] by simp
  then have sh: "same_nodes (sl_nodes s) ?ns" and lvs: "\<forall>y j. lv ?ns y j =
     (if y = 0 \<and> sl_level s \<le> j \<and> j < lvl then (lv (sl_nodes s) y j)\<lparr>span := sl_length s\<rparr> else lv (sl_nodes s) y j)"
    using fold_header_spans[of lvl "sl_nodes s" "sl_length s" "sl_level s"] h D(3) by auto
  have chain: "chain_ok ?ns (0 # A @ B)"
    using chain_header_spans[OF skip_invD(2)[OF inv] D(1) _ sh lvs] D(7) by blast
  have "nodes_ok ?ns lvl (A @ B)" using nodes_ok_same[OF sh nok _ h] True by simp
  moreover have "back_ok ?ns None (A @ B)"
    using skip_invD(3)[OF inv] back_ok_cong[of "A @ B" ?ns "sl_nodes s"] sh by (simp add: same_nodes_def)
  ultimately have "skip_inv (A @ B) s'"
    using chain skip_invD(4,5)[OF inv] by (simp add: skip_inv_def s')
  moreover have "ups_ok ?ns lvl (0 # A) ups'"
    unfolding ups_ok_def
  proof (intro conjI allI impI)
    have len: "length ups = sl_level s" using ups by (simp add: ups_ok_def)
    then show "length ups' = lvl" using True by (simp add: u')
    fix i assume i: "i < lvl"
    show "last_high ?ns i (0 # A) (ups' ! i)"
    proof (cases "i < sl_level s")
      case in_old: True
      then show ?thesis using ups_same[OF sh ups] len by (simp add: ups_ok_def u' nth_append)
    next
      case False
      have "\<forall>y \<in> set A. height ?ns y \<le> i"
      proof
        fix y assume "y \<in> set A"
        then have "height (sl_nodes s) y \<le> sl_level s" using D(7) by simp
        then show "height ?ns y \<le> i" using sh False by (simp add: same_nodes_def)
      qed
      moreover have "i < height ?ns 0" using sh D(3) h i by (simp add: same_nodes_def)
      ultimately have "last_high ?ns i (0 # A) (0, 0)" by (rule last_high_header)
      moreover have "ups' ! i = (0, 0)" using False i len by (simp add: u' nth_append)
      ultimately show ?thesis by simp
    qed
  qed
  ultimately show ?thesis using sh by (auto simp: s' same_nodes_def)
qed

section \<open>Placing a node\<close>

text \<open>The loops over the levels of a new node and over the levels above it.\<close>

lemma link_level_lv:
  assumes "x < length ns" "i < height ns x" "fst (ups ! i) < length ns" "i < height ns (fst (ups ! i))" "fst (ups ! i) \<noteq> x"
  shows "lv (link_level x ups i ns) y j =
    (if j \<noteq> i then lv ns y j
     else if y = fst (ups ! i) then \<lparr>forward = Some x, span = snd (ups ! 0) - snd (ups ! i) + 1\<rparr>
     else if y = x then \<lparr>forward = forward (lv ns (fst (ups ! i)) i),
       span = span (lv ns (fst (ups ! i)) i) - (snd (ups ! 0) - snd (ups ! i))\<rparr>
     else lv ns y j)"
  using assms by (simp add: link_level_def Let_def lv_set_lv)

lemma fold_link_levels:
  assumes x: "x < length ns" and ups: "\<forall>i < k. fst (ups ! i) < length ns \<and> i < height ns (fst (ups ! i)) \<and> fst (ups ! i) \<noteq> x"
    and k: "k \<le> height ns x"
  shows "same_nodes ns (fold (link_level x ups) [0 ..< k] ns) \<and>
    (\<forall>y j. lv (fold (link_level x ups) [0 ..< k] ns) y j =
      (if \<not> j < k then lv ns y j
       else if y = fst (ups ! j) then \<lparr>forward = Some x, span = snd (ups ! 0) - snd (ups ! j) + 1\<rparr>
       else if y = x then \<lparr>forward = forward (lv ns (fst (ups ! j)) j),
         span = span (lv ns (fst (ups ! j)) j) - (snd (ups ! 0) - snd (ups ! j))\<rparr>
       else lv ns y j))"
  using ups k
proof (induction k)
  case (Suc k)
  define m where "m = fold (link_level x ups) [0 ..< k] ns"
  have m: "same_nodes ns m" "\<And>y j. lv m y j =
      (if \<not> j < k then lv ns y j
       else if y = fst (ups ! j) then \<lparr>forward = Some x, span = snd (ups ! 0) - snd (ups ! j) + 1\<rparr>
       else if y = x then \<lparr>forward = forward (lv ns (fst (ups ! j)) j),
         span = span (lv ns (fst (ups ! j)) j) - (snd (ups ! 0) - snd (ups ! j))\<rparr>
       else lv ns y j)"
    using Suc.IH Suc.prems by (simp_all add: m_def)
  have pre: "x < length m" "k < height m x" "fst (ups ! k) < length m" "k < height m (fst (ups ! k))" "fst (ups ! k) \<noteq> x"
    using m(1) x Suc.prems by (auto simp: same_nodes_def)
  have step: "fold (link_level x ups) [0 ..< Suc k] ns = link_level x ups k m" by (simp add: m_def)
  have "same_nodes ns (link_level x ups k m)"
    using m(1) by (simp add: link_level_def Let_def same_nodes_set_lv)
  then show ?case
    unfolding step link_level_lv[OF pre] by (auto simp: m(2) less_Suc_eq)
qed simp

lemma fold_raise_spans:
  assumes "\<forall>i < k. fst (ups ! i) < length ns \<and> i < height ns (fst (ups ! i))"
  shows "same_nodes ns (fold (raise_span ups) [h ..< k] ns) \<and>
    (\<forall>y j. lv (fold (raise_span ups) [h ..< k] ns) y j =
      (if h \<le> j \<and> j < k \<and> y = fst (ups ! j) then (lv ns y j)\<lparr>span := span (lv ns y j) + 1\<rparr> else lv ns y j))"
  using assms
proof (induction k)
  case (Suc k)
  show ?case
  proof (cases "h \<le> k")
    case True
    define m where "m = fold (raise_span ups) [h ..< k] ns"
    have m: "same_nodes ns m" "\<And>y j. lv m y j =
      (if h \<le> j \<and> j < k \<and> y = fst (ups ! j) then (lv ns y j)\<lparr>span := span (lv ns y j) + 1\<rparr> else lv ns y j)"
      using Suc by (simp_all add: m_def)
    have pre: "fst (ups ! k) < length m" "k < height m (fst (ups ! k))"
      using m(1) Suc.prems by (auto simp: same_nodes_def)
    have step: "fold (raise_span ups) [h ..< Suc k] ns =
        set_lv (fst (ups ! k)) k ((lv m (fst (ups ! k)) k)\<lparr>span := span (lv m (fst (ups ! k)) k) + 1\<rparr>) m"
      using True by (simp add: m_def raise_span_def Let_def)
    show ?thesis
      unfolding step lv_set_lv[OF pre] using same_nodes_set_lv[OF m(1)] True by (auto simp: m(2) less_Suc_eq)
  qed simp
qed simp

lemma ups_range:
  "nodes_ok ns lvl (A @ B) \<Longrightarrow> ups_ok ns lvl (0 # A) ups \<Longrightarrow> i < lvl \<Longrightarrow>
   fst (ups ! i) \<in> set (0 # A) \<and> fst (ups ! i) < length ns \<and> i < height ns (fst (ups ! i))"
  using last_high_in[of ns i "0 # A" "ups ! i"] nodes_okD(9)[of ns lvl "A @ B" "fst (ups ! i)"]
  by (auto simp: ups_ok_def)

lemma place_links:
  assumes nok: "nodes_ok ns lvl (A @ B)" and ups: "ups_ok ns lvl (0 # A) ups" and h: "1 \<le> h" "h \<le> lvl"
    and chain: "chain_ok ns (0 # A @ B)"
    and res: "ns2 = fold (raise_span ups) [h ..< lvl] (fold (link_level (length ns) ups) [0 ..< h] (ns @ [new_node (Some e) h]))"
  shows "chain_ok ns2 (0 # A @ length ns # B) \<and> same_nodes (ns @ [new_node (Some e) h]) ns2"
proof -
  let ?x = "length ns" and ?n1 = "ns @ [new_node (Some e) h]"
  have ur: "fst (ups ! i) \<in> set (0 # A)" "fst (ups ! i) < length ns" "i < height ns (fst (ups ! i))" if "i < lvl" for i
    using ups_range[OF nok ups that] by auto
  have hx: "height ?n1 ?x = h" by (simp add: height_def new_node_def)
  define m where "m = fold (link_level ?x ups) [0 ..< h] ?n1"
  have pre1: "\<forall>i < h. fst (ups ! i) < length ?n1 \<and> i < height ?n1 (fst (ups ! i)) \<and> fst (ups ! i) \<noteq> ?x"
  proof (intro allI impI)
    fix i assume "i < h"
    then have "i < lvl" using h(2) by simp
    from ur[OF this] show "fst (ups ! i) < length ?n1 \<and> i < height ?n1 (fst (ups ! i)) \<and> fst (ups ! i) \<noteq> ?x" by simp
  qed
  have m: "same_nodes ?n1 m" "\<And>y j. lv m y j = (if \<not> j < h then lv ?n1 y j
       else if y = fst (ups ! j) then \<lparr>forward = Some ?x, span = snd (ups ! 0) - snd (ups ! j) + 1\<rparr>
       else if y = ?x then \<lparr>forward = forward (lv ?n1 (fst (ups ! j)) j),
         span = span (lv ?n1 (fst (ups ! j)) j) - (snd (ups ! 0) - snd (ups ! j))\<rparr>
       else lv ?n1 y j)"
    using fold_link_levels[of ?x ?n1 h ups] pre1 hx by (simp_all add: m_def)
  have pre2: "\<forall>i < lvl. fst (ups ! i) < length m \<and> i < height m (fst (ups ! i))"
    using ur m(1) by (auto simp: same_nodes_def less_Suc_eq)
  have ns2: "same_nodes m ns2" "\<And>y j. lv ns2 y j = (if h \<le> j \<and> j < lvl \<and> y = fst (ups ! j)
      then (lv m y j)\<lparr>span := span (lv m y j) + 1\<rparr> else lv m y j)"
    using fold_raise_spans[OF pre2, of h] by (simp_all add: res m_def)
  have same: "same_nodes ?n1 ns2" using m(1) ns2(1) by (simp add: same_nodes_def)
  have old: "y < length ns" if "y \<in> set (0 # A @ B)" for y using nodes_okD(9)[OF nok, of y] that by simp
  have "linked_in ?x h lvl ups ((0 # A) @ B) ns ns2"
    unfolding linked_in_def
  proof (intro conjI ballI allI impI)
    fix y assume y: "y \<in> set ((0 # A) @ B)"
    then have yl: "y < length ns" using old by simp
    show "height ns2 y = height ns y" using same yl by (simp add: same_nodes_def)
    fix i
    { assume "i < lvl" "y = fst (ups ! i)"
      then show "forward (lv ns2 y i) = (if i < h then Some ?x else forward (lv ns y i))"
        "span (lv ns2 y i) = (if i < h then snd (ups ! 0) - snd (ups ! i) else span (lv ns y i)) + 1"
        using yl by (auto simp: ns2(2) m(2)) }
    assume "\<not> (i < lvl \<and> y = fst (ups ! i))"
    then show "lv ns2 y i = lv ns y i" using yl h(2) by (auto simp: ns2(2) m(2))
  next
    show "height ns2 ?x = h" using same hx by (simp add: same_nodes_def)
    fix i assume i: "i < h"
    then have "fst (ups ! i) < length ns" using ur[of i] h(2) by simp
    then show "forward (lv ns2 ?x i) = forward (lv ns (fst (ups ! i)) i)"
      "span (lv ns2 ?x i) = span (lv ns (fst (ups ! i)) i) - (snd (ups ! 0) - snd (ups ! i))"
      using i by (auto simp: ns2(2) m(2))
  qed
  then have "chain_ok ns2 ((0 # A) @ ?x # B)"
  proof (rule chain_linked[rotated -1])
    show "chain_ok ns ((0 # A) @ B)" "distinct ((0 # A) @ B)" using chain nodes_okD(1)[OF nok] by simp_all
    show "\<forall>y \<in> set (tl (0 # A)) \<union> set B. 1 \<le> height ns y \<and> height ns y \<le> lvl" using nodes_okD(6,7)[OF nok] by auto
  qed (use ups h in simp_all)
  then show ?thesis using same by simp
qed

text \<open>The back pointers.\<close>

lemma back_ok_append: "back_ok ns p (A @ B) \<longleftrightarrow> back_ok ns p A \<and> back_ok ns (if A = [] then p else Some (last A)) B"
  by (induction A arbitrary: p) auto

lemma last_of_append: "last_of (A @ B) = (if B = [] then last_of A else last_of B)"
  by (simp add: last_of_def)

lemma bottom_last:
  assumes "last_high ns 0 (0 # A) u" "\<forall>y \<in> set A. 1 \<le> height ns y"
  shows "fst u = last (0 # A)"
proof -
  have "fst u \<in> set (0 # A)" using last_high_in[OF assms(1)] by simp
  obtain A1 A2 where a: "0 # A = A1 @ fst u # A2" "snd u = int (length A1)" using last_highE[OF assms(1)] by blast
  have "snd u + 1 = int (length (0 # A))" using last_high_bottom[OF assms(1)] assms(2) by simp
  then have "A2 = []" using a(2) arg_cong[OF a(1), of length] by simp
  then show ?thesis using a(1) by simp
qed

lemma first_forward:
  assumes "link_ok ns 0 y B" "\<forall>z \<in> set B. 1 \<le> height ns z"
  shows "forward (lv ns y 0) = (case B of [] \<Rightarrow> None | b # _ \<Rightarrow> Some b)"
  using assms by (cases B) (auto simp: link_ok_def)

lemma place_ok:
  fixes e :: 'e
  assumes inv: "skip_inv (A @ B) s" and ups: "ups_ok (sl_nodes s) (sl_level s) (0 # A) ups"
    and h: "1 \<le> h" "h \<le> sl_level s"
  defines "x \<equiv> length (sl_nodes s)" and "s' \<equiv> place_node e h ups s"
  shows "skip_inv (A @ x # B) s' \<and> entry_at (sl_nodes s') x = Some e \<and>
    (\<forall>y < x. entry_at (sl_nodes s') y = entry_at (sl_nodes s) y)"
proof -
  note nok = skip_invD(1)[OF inv] and D = nodes_okD[OF skip_invD(1)[OF inv]]
  let ?n1 = "sl_nodes s @ [new_node (Some e) h]"
  define ns2 where "ns2 = fold (raise_span ups) [h ..< sl_level s] (fold (link_level x ups) [0 ..< h] ?n1)"
  have chain: "chain_ok ns2 (0 # A @ x # B)" and same: "same_nodes ?n1 ns2"
    using place_links[OF nok ups h skip_invD(2)[OF inv], of ns2 e] by (simp_all add: ns2_def x_def)
  have hts: "height ns2 y = height (sl_nodes s) y" "entry_at ns2 y = entry_at (sl_nodes s) y"
    "back_at ns2 y = back_at (sl_nodes s) y" if "y < x" for y
    using same that by (simp_all add: same_nodes_def x_def)
  have atx: "height ns2 x = h" "entry_at ns2 x = Some e" and len: "length ns2 = Suc x"
    using same by (simp_all add: same_nodes_def x_def, simp_all add: height_def new_node_def)
  have old: "y < x" if "y \<in> set (0 # A @ B)" for y using D(9)[of y] that by (simp add: x_def)
  have low: "1 \<le> height (sl_nodes s) y" if "y \<in> set A \<union> set B" for y using D(6)[of y] that by auto
  have B1: "\<forall>z \<in> set B. 1 \<le> height ns2 z" using low old hts(1) by simp
  have "0 < sl_level s" using D(4) by simp
  then have "last_high (sl_nodes s) 0 (0 # A) (ups ! 0)" using ups by (simp add: ups_ok_def)
  then have u0: "fst (ups ! 0) = last (0 # A)" using bottom_last low by blast
  define p where "p = (if A = [] then None else Some (last A))"
  have nz: "0 \<notin> set A" using D(1) by simp
  have p: "(if fst (ups ! 0) = 0 then None else Some (fst (ups ! 0))) = p"
    using u0 nz by (cases A rule: rev_cases) (auto simp: p_def)
  have "link_ok ns2 0 x B" using chain_okD[of ns2 "0 # A" x B 0] chain atx(1) h(1) by simp
  then have fx: "forward (lv ns2 x 0) = (case B of [] \<Rightarrow> None | b # _ \<Rightarrow> Some b)" by (rule first_forward[OF _ B1])
  define ns3 where "ns3 = (case B of [] \<Rightarrow> set_backward x p ns2 | b # _ \<Rightarrow> set_backward b (Some x) (set_backward x p ns2))"
  have s': "sl_nodes s' = ns3" "sl_tail s' = (if B = [] then Some x else sl_tail s)"
    "sl_length s' = sl_length s + 1" "sl_level s' = sl_level s"
    using fx by (cases B; simp add: s'_def place_node_def link_back_def Let_def ns2_def[symmetric] x_def[symmetric] p ns3_def)+
  have sh3: "length ns3 = Suc x" "height ns3 y = height ns2 y" "entry_at ns3 y = entry_at ns2 y" "lv ns3 y j = lv ns2 y j" for y j
    using len by (cases B; simp add: ns3_def)+
  have xB: "x \<notin> set B" "x \<notin> set A" using old by force+
  have back3: "back_at ns3 y = (if B \<noteq> [] \<and> y = hd B then Some x else if y = x then p else back_at ns2 y)" for y
    using len old[of "hd B"] by (cases B) (simp_all add: ns3_def back_set_backward)
  have "chain_ok ns3 (0 # A @ x # B)"
    by (rule chain_cong[OF _ chain]) (simp add: sh3)
  moreover have "nodes_ok ns3 (sl_level s) (A @ x # B)"
  proof -
    have "distinct (0 # A @ x # B)" using D(1) xB old[of 0] by auto
    moreover have "set (0 # A @ x # B) \<subseteq> {..< length ns3}" using old by (fastforce simp: sh3)
    moreover have "height ns3 0 = MAX_LEVEL" using D(3) hts(1)[of 0] old[of 0] by (simp add: sh3)
    moreover have "1 \<le> height ns3 y \<and> height ns3 y \<le> sl_level s \<and> entry_at ns3 y \<noteq> None" if y: "y \<in> set (A @ x # B)" for y
    proof (cases "y = x")
      case True then show ?thesis using h atx by (simp add: sh3)
    next
      case False
      then have "y \<in> set (A @ B)" using y by auto
      then show ?thesis using D(6-8)[of y] hts(1,2)[of y] old[of y] by (simp add: sh3)
    qed
    ultimately show ?thesis using D(4,5) unfolding nodes_ok_def by blast
  qed
  moreover have "back_ok ns3 None (A @ x # B)"
  proof -
    have oldb: "back_ok (sl_nodes s) None A" "back_ok (sl_nodes s) p B"
      using skip_invD(3)[OF inv] by (simp_all add: back_ok_append p_def)
    have dist: "set A \<inter> set B = {}" "distinct B" using D(1) by auto
    have "back_ok ns3 None A"
    proof -
      have "\<forall>y \<in> set A. back_at ns3 y = back_at (sl_nodes s) y"
        using back3 hts(3) old xB dist by (auto simp: neq_Nil_conv)
      then show ?thesis using oldb(1) back_ok_cong by blast
    qed
    moreover have "back_ok ns3 (Some x) B"
    proof (cases B)
      case (Cons b B')
      have "\<forall>y \<in> set B'. back_at ns3 y = back_at (sl_nodes s) y"
        using back3 hts(3) old xB dist Cons by auto
      then have "back_ok ns3 (Some b) B' = back_ok (sl_nodes s) (Some b) B'" by (rule back_ok_cong)
      then show ?thesis using oldb(2) back3[of b] Cons by simp
    qed simp
    moreover have "back_at ns3 x = p" using back3[of x] xB by (cases B) auto
    ultimately show ?thesis by (simp add: back_ok_append p_def)
  qed
  moreover have "sl_tail s' = last_of (A @ x # B)" "sl_length s' = int (length (A @ x # B))"
    using skip_invD(4,5)[OF inv] by (simp_all add: s' last_of_def)
  ultimately show ?thesis
    using atx(2) hts(2) by (simp add: skip_inv_def s' sh3)
qed

lemma insert_at:
  assumes inv: "skip_inv (A @ B) s" and div: "divides (\<lambda>f _. nodeLess cmpK cmpV f e) (sl_nodes s) (0 # A) B"
  obtains s' where "skip_insert cmpK cmpV draws e s = Some s'" "skip_inv (A @ length (sl_nodes s) # B) s'"
    "entry_at (sl_nodes s') (length (sl_nodes s)) = Some e"
    "\<forall>y < length (sl_nodes s). entry_at (sl_nodes s') y = entry_at (sl_nodes s) y"
proof -
  obtain ups0 where ups0: "search (\<lambda>f. nodeLess cmpK cmpV f e) s = Some ups0" "ups_ok (sl_nodes s) (sl_level s) (0 # A) ups0"
    using search_ok[OF inv _ _ div] by auto
  obtain ups s1 where op: "open_levels (randomLevel draws) ups0 s = (ups, s1)" by fastforce
  note o = open_levels_ok[OF inv ups0(2) randomLevel_bounds(2) op]
  have "skip_insert cmpK cmpV draws e s = Some (place_node e (randomLevel draws) ups s1)"
    by (simp add: skip_insert_def ups0(1) op)
  moreover note place_ok[of A B s1 ups "randomLevel draws" e] o randomLevel_bounds(1)[of draws]
  ultimately show ?thesis using that by auto
qed

section \<open>Removing a node\<close>

lemma fold_unlink_levels:
  assumes ups: "\<forall>i < k. fst (ups ! i) < length ns \<and> i < height ns (fst (ups ! i)) \<and> fst (ups ! i) \<noteq> x"
  shows "same_nodes ns (fold (unlink_level x ups) [0 ..< k] ns) \<and>
    (\<forall>y j. lv (fold (unlink_level x ups) [0 ..< k] ns) y j =
      (if j < k \<and> y = fst (ups ! j)
       then (if forward (lv ns y j) = Some x
             then \<lparr>forward = forward (lv ns x j), span = span (lv ns y j) + (span (lv ns x j) - 1)\<rparr>
             else (lv ns y j)\<lparr>span := span (lv ns y j) - 1\<rparr>)
       else lv ns y j))"
  using ups
proof (induction k)
  case (Suc k)
  define m where "m = fold (unlink_level x ups) [0 ..< k] ns"
  have m: "same_nodes ns m" "\<And>y j. lv m y j =
      (if j < k \<and> y = fst (ups ! j)
       then (if forward (lv ns y j) = Some x
             then \<lparr>forward = forward (lv ns x j), span = span (lv ns y j) + (span (lv ns x j) - 1)\<rparr>
             else (lv ns y j)\<lparr>span := span (lv ns y j) - 1\<rparr>)
       else lv ns y j)"
    using Suc by (simp_all add: m_def)
  have pre: "fst (ups ! k) < length m" "k < height m (fst (ups ! k))" and xk: "fst (ups ! k) \<noteq> x"
    using m(1) Suc.prems by (auto simp: same_nodes_def)
  have step: "fold (unlink_level x ups) [0 ..< Suc k] ns = unlink_level x ups k m" by (simp add: m_def)
  have at: "lv m y k = lv ns y k" for y by (simp add: m(2))
  have "lv (unlink_level x ups k m) y j = (if j = k \<and> y = fst (ups ! k)
       then (if forward (lv ns y k) = Some x
             then \<lparr>forward = forward (lv ns x k), span = span (lv ns y k) + (span (lv ns x k) - 1)\<rparr>
             else (lv ns y k)\<lparr>span := span (lv ns y k) - 1\<rparr>)
       else lv m y j)" for y j
    unfolding unlink_level_def Let_def at by (auto simp: lv_set_lv[OF pre])
  moreover have "same_nodes ns (unlink_level x ups k m)"
    using m(1) by (simp add: unlink_level_def Let_def same_nodes_set_lv)
  ultimately show ?case unfolding step by (auto simp: m(2) less_Suc_eq)
qed simp

lemma chain_unlinked:
  assumes chain: "chain_ok ns (A @ x # B)" and dist: "distinct (A @ x # B)"
    and ups: "ups_ok ns lvl A ups"
    and heights: "\<forall>y \<in> set (tl A) \<union> set (x # B). 1 \<le> height ns y \<and> height ns y \<le> lvl"
    and same: "same_nodes ns ns'"
    and upd: "\<And>y j. lv ns' y j =
      (if j < lvl \<and> y = fst (ups ! j)
       then (if forward (lv ns y j) = Some x
             then \<lparr>forward = forward (lv ns x j), span = span (lv ns y j) + (span (lv ns x j) - 1)\<rparr>
             else (lv ns y j)\<lparr>span := span (lv ns y j) - 1\<rparr>)
       else lv ns y j)"
  shows "chain_ok ns' (A @ B)"
proof -
  have hs: "height ns' = height ns" using same by (auto simp: same_nodes_def)
  have lh: "last_high ns i A (ups ! i)" if "i < lvl" for i using ups that by (simp add: ups_ok_def)
  have xB: "find (\<lambda>z. i < height ns z) B \<noteq> Some x" for i using dist find_high_split[of i "height ns" B x] by auto
  have inA: "link_ok ns' i y (w @ B)" if A: "A = us @ y # w" and i: "i < height ns y" for us y w i
  proof -
    have old: "link_ok ns i y (w @ x # B)" using chain_okD[of ns us y "w @ x # B" i] chain i by (simp add: A)
    show ?thesis
    proof (cases "\<exists>z \<in> set w. i < height ns z")
      case True
      then have "\<not> (i < lvl \<and> y = fst (ups ! i))" using last_high_elsewhere[OF lh A] dist by auto
      then have "lv ns' y i = lv ns y i" unfolding upd by (rule if_not_P)
      then have "link_ok ns' i y w = link_ok ns i y w" by (rule link_cong) (simp add: hs)
      then show ?thesis using old True by (simp add: link_high hs)
    next
      case False
      then have low: "\<forall>z \<in> set w. height ns z \<le> i" "\<forall>z \<in> set w. height ns' z \<le> i" by (auto simp: hs)
      note old = old[unfolded link_low[OF low(1)]]
      show ?thesis
      proof (cases "i < lvl")
        case True
        have u: "y = fst (ups ! i)" using last_high_here[OF lh[OF True] A i low(1)] by simp
        then have new: "lv ns' y i = (if forward (lv ns y i) = Some x
             then \<lparr>forward = forward (lv ns x i), span = span (lv ns y i) + (span (lv ns x i) - 1)\<rparr>
             else (lv ns y i)\<lparr>span := span (lv ns y i) - 1\<rparr>)" using True by (simp add: upd)
        show ?thesis
        proof (cases "i < height ns x")
          case True
          then have "link_ok ns i x B" using chain_okD[of ns A x B i] chain by simp
          then show ?thesis using old True unfolding link_low[OF low(2)] new by (simp add: hs link_ok_def)
        next
          case False
          then show ?thesis using old xB[of i] unfolding link_low[OF low(2)] new by (simp add: hs)
        qed
      next
        case False
        then have "lv ns' y i = lv ns y i" by (simp add: upd)
        moreover have "height ns z \<le> i" if "z \<in> set (x # B)" for z
        proof -
          have "height ns z \<le> lvl" using heights that by blast
          then show ?thesis using False by simp
        qed
        then have "\<not> i < height ns x" "\<forall>z \<in> set B. height ns z \<le> i" by (auto simp: not_less)
        ultimately show ?thesis using old unfolding link_low[OF low(2)] by (auto simp: hs not_less)
      qed
    qed
  qed
  show ?thesis
    unfolding chain_ok_def
  proof (intro allI impI)
    fix us y vs i assume e: "A @ B = us @ y # vs" and i: "i < height ns' y"
    from e consider w where "A = us @ y # w" "vs = w @ B" | w where "us = A @ w" "B = w @ y # vs"
      by (auto simp: append_eq_append_conv2 Cons_eq_append_conv append_eq_Cons_conv)
    then show "link_ok ns' i y vs"
    proof cases
      case 1 then show ?thesis using inA i hs by simp
    next
      case (2 w)
      then have "link_ok ns i y vs" using chain_okD[of ns "A @ x # w" y vs i] chain i hs by simp
      moreover have "\<not> (i < lvl \<and> y = fst (ups ! i))" using last_high_in[OF lh] dist 2 by auto
      then have "lv ns' y i = lv ns y i" unfolding upd by (rule if_not_P)
      ultimately show ?thesis using link_cong[of ns' y i ns vs] by (simp add: hs)
    qed
  qed
qed

lemma lower_level_ok:
  "1 \<le> l \<Longrightarrow> 1 \<le> lower_level ns l \<and> lower_level ns l \<le> l \<and> (\<forall>i. lower_level ns l \<le> i \<longrightarrow> i < l \<longrightarrow> forward (lv ns 0 i) = None)"
  by (induction ns l rule: lower_level.induct) (auto simp: less_Suc_eq)

lemma remove_ok:
  fixes s :: "'e skiplist"
  assumes inv: "skip_inv (A @ x # B) s" and ups: "ups_ok (sl_nodes s) (sl_level s) (0 # A) ups"
  shows "skip_inv (A @ B) (deleteNode x ups s) \<and>
    length (sl_nodes (deleteNode x ups s)) = length (sl_nodes s) \<and>
    (\<forall>y. entry_at (sl_nodes (deleteNode x ups s)) y = entry_at (sl_nodes s) y)"
proof -
  note nok = skip_invD(1)[OF inv] and D = nodes_okD[OF skip_invD(1)[OF inv]]
  define ns where "ns = sl_nodes s"
  define lvl where "lvl = sl_level s"
  define ns2 where "ns2 = fold (unlink_level x ups) [0 ..< lvl] ns"
  have ur: "fst (ups ! i) \<in> set (0 # A)" "fst (ups ! i) < length ns" "i < height ns (fst (ups ! i))" if "i < lvl" for i
    using ups_range[OF nok ups] that by (auto simp: ns_def lvl_def)
  have xA: "x \<notin> set (0 # A)" using D(1) by auto
  have "\<forall>i < lvl. fst (ups ! i) < length ns \<and> i < height ns (fst (ups ! i)) \<and> fst (ups ! i) \<noteq> x"
    using ur xA by metis
  note f = fold_unlink_levels[OF this, folded ns2_def]
  note same = conjunct1[OF f] and upd = conjunct2[OF f, rule_format]
  have chain: "chain_ok ns2 ((0 # A) @ B)"
  proof (rule chain_unlinked[OF _ _ _ _ same upd])
    show "chain_ok ns ((0 # A) @ x # B)" "distinct ((0 # A) @ x # B)" using skip_invD(2)[OF inv] D(1) by (simp_all add: ns_def)
    show "ups_ok ns lvl (0 # A) ups" using ups by (simp add: ns_def lvl_def)
    show "\<forall>y \<in> set (tl (0 # A)) \<union> set (x # B). 1 \<le> height ns y \<and> height ns y \<le> lvl"
      using D(6,7) by (auto simp: ns_def lvl_def)
  qed
  have hs: "height ns2 = height ns" and es: "entry_at ns2 y = entry_at ns y" and bs: "back_at ns2 y = back_at ns y"
    and len: "length ns2 = length ns" for y using same by (auto simp: same_nodes_def)
  have hx: "0 < height ns x" using D(6)[of x] by (simp add: ns_def)
  have "lv ns2 x i = lv ns x i" for i unfolding upd using ur(1)[of i] xA by auto
  moreover have "forward (lv ns x 0) = (case B of [] \<Rightarrow> None | b # _ \<Rightarrow> Some b)"
    using chain_okD[of ns "0 # A" x B 0] skip_invD(2)[OF inv] hx D(6) by (intro first_forward) (auto simp: ns_def)
  ultimately have fx: "forward (lv ns2 x 0) = (case B of [] \<Rightarrow> None | b # _ \<Rightarrow> Some b)" by simp
  define p where "p = (if A = [] then None else Some (last A))"
  have oldb: "back_ok ns None A" "back_at ns x = p" "back_ok ns (Some x) B"
    using skip_invD(3)[OF inv] by (simp_all add: back_ok_append p_def ns_def)
  define ns3 where "ns3 = (case B of [] \<Rightarrow> ns2 | b # _ \<Rightarrow> set_backward b p ns2)"
  define l3 where "l3 = lower_level ns3 lvl"
  have s': "sl_nodes (deleteNode x ups s) = ns3" "sl_level (deleteNode x ups s) = l3"
    "sl_tail (deleteNode x ups s) = (if B = [] then p else sl_tail s)" "sl_length (deleteNode x ups s) = sl_length s - 1"
    using fx oldb(2) by (cases B; simp add: deleteNode_def unlink_back_def Let_def ns2_def ns_def lvl_def
      ns3_def l3_def bs[unfolded ns2_def ns_def lvl_def])+
  have sh3: "length ns3 = length ns" "height ns3 = height ns" "entry_at ns3 y = entry_at ns y" "lv ns3 y j = lv ns2 y j" for y j
    using len hs es by (cases B; force simp: ns3_def)+
  have chain3: "chain_ok ns3 (0 # A @ B)"
    by (rule chain_cong[of _ _ ns2]) (use chain in \<open>simp_all add: sh3 hs\<close>)
  have low: "1 \<le> l3" "l3 \<le> lvl" "\<And>i. l3 \<le> i \<Longrightarrow> i < lvl \<Longrightarrow> forward (lv ns3 0 i) = None"
    using lower_level_ok[of lvl ns3] D(4) by (auto simp: l3_def lvl_def)
  have h3: "height ns3 y \<le> l3" if y: "y \<in> set (A @ B)" for y
  proof (rule ccontr)
    assume c: "\<not> height ns3 y \<le> l3"
    define i where "i = height ns3 y - 1"
    have "height ns3 y \<le> lvl" using D(7)[of y] y by (simp add: sh3 ns_def lvl_def)
    then have i: "l3 \<le> i" "i < lvl" "i < height ns3 y" using c low(1) by (auto simp: i_def)
    have "lvl \<le> height ns3 0" using D(3,5) by (simp add: sh3 ns_def lvl_def)
    then have "link_ok ns3 i 0 (A @ B)" using chain_okD[of ns3 "[]" 0 "A @ B" i] chain3 i(2) by simp
    then have "height ns3 y \<le> i" using link_ok_None[of ns3 i 0] low(3)[OF i(1,2)] y by blast
    then show False using i(3) by simp
  qed
  have "nodes_ok ns3 l3 (A @ B)"
    unfolding nodes_ok_def
  proof (intro conjI ballI)
    show "distinct (0 # A @ B)" using D(1) by simp
    show "set (0 # A @ B) \<subseteq> {..< length ns3}" using D(2) by (simp add: sh3 ns_def)
    show "height ns3 0 = MAX_LEVEL" using D(3) by (simp add: sh3 ns_def)
    show "1 \<le> l3" "l3 \<le> MAX_LEVEL" using low(1,2) D(5) by (simp_all add: lvl_def)
    fix y assume y: "y \<in> set (A @ B)"
    then show "1 \<le> height ns3 y" "height ns3 y \<le> l3" "entry_at ns3 y \<noteq> None"
      using D(6,8)[of y] h3[OF y] by (auto simp: sh3 ns_def)
  qed
  moreover have "back_ok ns3 None (A @ B)"
  proof -
    have dist: "set A \<inter> set B = {}" "distinct B" using D(1) by auto
    have b3: "back_at ns3 y = (if B \<noteq> [] \<and> y = hd B then p else back_at ns y)" for y
      using D(9)[of "hd B"] len bs by (cases B) (simp_all add: ns3_def back_set_backward ns_def)
    have "back_ok ns3 None A"
      using oldb(1) back_ok_cong[of A ns3 ns None] b3 dist by (cases B) auto
    moreover have "back_ok ns3 p B"
    proof (cases B)
      case (Cons b B')
      have "back_ok ns3 (Some b) B' = back_ok ns (Some b) B'"
        using b3 dist Cons by (intro back_ok_cong) auto
      then show ?thesis using oldb(3) b3[of b] Cons by simp
    qed simp
    ultimately show ?thesis by (simp add: back_ok_append p_def)
  qed
  moreover have "sl_tail (deleteNode x ups s) = last_of (A @ B)" "sl_length (deleteNode x ups s) = int (length (A @ B))"
    using skip_invD(4,5)[OF inv] by (simp_all add: s' last_of_def p_def)
  ultimately show ?thesis
    using chain3 by (simp add: skip_inv_def s' sh3 ns_def[symmetric])
qed

end
