(* ===== verification/SkipList_Refine.thy ===== *)
theory SkipList_Refine imports SkipList_Proofs begin

text \<open>
  The skip list refines a sorted list: the reference operations, the abstraction from the store to the entries
  in order, and one refinement lemma per operation, proved for any pair of comparators of total orders and
  interpreted on those of the code.
\<close>

section \<open>The reference\<close>

fun ref_insert :: "('e \<Rightarrow> 'e \<Rightarrow> bool) \<Rightarrow> 'e \<Rightarrow> 'e list \<Rightarrow> 'e list" where
  "ref_insert lt e [] = [e]"
| "ref_insert lt e (f # es) = (if lt f e then f # ref_insert lt e es else e # f # es)"

datatype ('k, 'v) skip_op = OpInsert "nat \<Rightarrow> rat" "'k \<times> 'v" | OpDelete "'k \<times> 'v"

fun skip_run :: "'k comparator \<Rightarrow> 'v comparator \<Rightarrow> ('k, 'v) skip_op list \<Rightarrow> ('k \<times> 'v) skiplist \<Rightarrow> ('k \<times> 'v) skiplist option" where
  "skip_run cmpK cmpV [] s = Some s"
| "skip_run cmpK cmpV (OpInsert draws e # ops) s =
     do { s1 \<leftarrow> skip_insert cmpK cmpV draws e s; skip_run cmpK cmpV ops s1 }"
| "skip_run cmpK cmpV (OpDelete e # ops) s =
     do { (_, s1) \<leftarrow> skip_delete cmpK cmpV e s; skip_run cmpK cmpV ops s1 }"

fun ref_run :: "('k \<times> 'v \<Rightarrow> 'k \<times> 'v \<Rightarrow> bool) \<Rightarrow> ('k, 'v) skip_op list \<Rightarrow> ('k \<times> 'v) list \<Rightarrow> ('k \<times> 'v) list" where
  "ref_run lt [] es = es"
| "ref_run lt (OpInsert draws e # ops) es = ref_run lt ops (ref_insert lt e es)"
| "ref_run lt (OpDelete e # ops) es = ref_run lt ops (remove1 e es)"

lemma ref_insert_eq: "ref_insert lt e es = takeWhile (\<lambda>f. lt f e) es @ e # dropWhile (\<lambda>f. lt f e) es"
  by (induction es) auto

section \<open>Entries\<close>

definition shows_entries :: "nat list \<Rightarrow> ('k \<times> 'v) skiplist \<Rightarrow> ('k \<times> 'v) list \<Rightarrow> bool" where
  "shows_entries ys s es \<longleftrightarrow> skip_inv ys s \<and> map (entry_at (sl_nodes s)) ys = map Some es"

lemma shows_split:
  assumes "shows_entries ys s (E1 @ E2)" "\<forall>e \<in> set E1. P e" "\<forall>e \<in> set E2. \<not> P e"
  obtains A B where "ys = A @ B" "map (entry_at (sl_nodes s)) A = map Some E1" "map (entry_at (sl_nodes s)) B = map Some E2"
    "divides (\<lambda>e _. P e) (sl_nodes s) (0 # A) B"
proof -
  define A where "A = take (length E1) ys"
  define B where "B = drop (length E1) ys"
  have m: "map (entry_at (sl_nodes s)) ys = map Some E1 @ map Some E2" using assms(1) by (simp add: shows_entries_def)
  have ys: "ys = A @ B" by (simp add: A_def B_def)
  have len: "length ys = length E1 + length E2" using arg_cong[OF m, of length] by simp
  have mA: "map (entry_at (sl_nodes s)) A = map Some E1"
    using arg_cong[OF m, of "take (length E1)"] by (simp add: A_def take_map)
  have mB: "map (entry_at (sl_nodes s)) B = map Some E2"
    using arg_cong[OF m, of "drop (length E1)"] by (simp add: B_def drop_map)
  have "divides (\<lambda>e _. P e) (sl_nodes s) (0 # A) B"
    unfolding divides_def
  proof (intro allI impI)
    fix us y vs assume e: "(0 # A) @ B = us @ y # vs" and ne: "us \<noteq> []"
    have inA: "entry_sat P (sl_nodes s ! y)" if "y \<in> set A" for y
    proof -
      have "entry_at (sl_nodes s) y \<in> set (map Some E1)" unfolding mA[symmetric] using that by simp
      then show ?thesis using assms(2) by (auto simp: entry_sat_def)
    qed
    have inB: "\<not> entry_sat P (sl_nodes s ! y)" if "y \<in> set B" for y
    proof -
      have "entry_at (sl_nodes s) y \<in> set (map Some E2)" unfolding mB[symmetric] using that by simp
      then show ?thesis using assms(3) by (auto simp: entry_sat_def)
    qed
    from e consider w where "0 # A = us @ y # w" | w where "us = (0 # A) @ w" "B = w @ y # vs"
      by (auto simp: append_eq_append_conv2 Cons_eq_append_conv append_eq_Cons_conv)
    then show "entry_sat P (sl_nodes s ! y) = (length us < length (0 # A))"
    proof cases
      case (1 w)
      then have "y \<in> set A" using ne by (cases us) auto
      then show ?thesis using inA 1 arg_cong[OF 1, of length] by simp
    next
      case (2 w) then show ?thesis using inB[of y] by simp
    qed
  qed
  then show ?thesis using that ys mA mB by blast
qed

lemma found_next:
  assumes inv: "skip_inv (A @ B) s" and ups: "ups_ok (sl_nodes s) (sl_level s) (0 # A) ups"
  shows "forward (lv (sl_nodes s) (fst (ups ! 0)) 0) = (case B of [] \<Rightarrow> None | b # _ \<Rightarrow> Some b)"
    "fst (ups ! 0) = last (0 # A)" "snd (ups ! 0) = int (length A)"
proof -
  note D = nodes_okD[OF skip_invD(1)[OF inv]]
  have "last_high (sl_nodes s) 0 (0 # A) (ups ! 0)" using ups D(4) by (simp add: ups_ok_def)
  moreover have low: "\<forall>y \<in> set A. 1 \<le> height (sl_nodes s) y" using D(6) by simp
  ultimately show u: "fst (ups ! 0) = last (0 # A)" "snd (ups ! 0) = int (length A)"
    using bottom_last[of "sl_nodes s" A "ups ! 0"] last_high_bottom[of "sl_nodes s" "0 # A" "ups ! 0"] by simp_all
  have split: "0 # A @ B = butlast (0 # A) @ last (0 # A) # B"
    using append_butlast_last_id[of "0 # A"] by (metis append_Cons append_assoc append_Nil list.distinct(1))
  have "0 < height (sl_nodes s) (last (0 # A))"
    using D(3) low by (auto simp: MAX_LEVEL_def dest: bspec[of _ _ "last A"])
  then have "link_ok (sl_nodes s) 0 (last (0 # A)) B"
    using chain_okD[of "sl_nodes s" "butlast (0 # A)" "last (0 # A)" B 0] skip_invD(2)[OF inv] split by simp
  then show "forward (lv (sl_nodes s) (fst (ups ! 0)) 0) = (case B of [] \<Rightarrow> None | b # _ \<Rightarrow> Some b)"
    unfolding u using D(6) by (intro first_forward) auto
qed

text \<open>Following the pointers of a list of nodes, forwards or backwards.\<close>

fun follows :: "('e skip_node \<Rightarrow> nat option) \<Rightarrow> 'e nodes \<Rightarrow> nat option \<Rightarrow> nat list \<Rightarrow> bool" where
  "follows follow ns x [] \<longleftrightarrow> x = None"
| "follows follow ns x (z # zs) \<longleftrightarrow> x = Some z \<and> follows follow ns (follow (ns ! z)) zs"

lemma follows_forward:
  assumes "chain_ok ns (us @ y # B)" "\<forall>z \<in> set (y # B). 1 \<le> height ns z"
  shows "follows next_node ns (forward (lv ns y 0)) B"
  using assms
proof (induction B arbitrary: us y)
  case Nil
  then have "link_ok ns 0 y []" using chain_okD[of ns us y "[]" 0] by simp
  then show ?case by (simp add: link_ok_def)
next
  case (Cons b B)
  have "link_ok ns 0 y (b # B)" using chain_okD[of ns us y "b # B" 0] Cons.prems by simp
  then have "forward (lv ns y 0) = Some b" using first_forward[of ns y "b # B"] Cons.prems(2) by simp
  moreover have "next_node (ns ! b) = forward (lv ns b 0)" by (simp add: next_node_def lv_def)
  moreover have "follows next_node ns (forward (lv ns b 0)) B"
    using Cons.IH[of "us @ [y]" b] Cons.prems by simp
  ultimately show ?case by simp
qed

lemma follows_backward: "back_ok ns None (A @ B) \<Longrightarrow> follows backward ns (last_of A) (rev A)"
proof (induction A arbitrary: B rule: rev_induct)
  case (snoc a A)
  have "back_at ns a = last_of A" using snoc.prems by (simp add: back_ok_append last_of_def)
  then show ?case using snoc.IH[of "a # B"] snoc.prems by (simp add: last_of_def)
qed (simp add: last_of_def)

definition page :: "int \<Rightarrow> int option \<Rightarrow> 'e list \<Rightarrow> 'e list" where
  "page offset count es =
     (case count of None \<Rightarrow> drop (nat offset) es | Some n \<Rightarrow> take (nat n) (drop (nat offset) es))"

lemma page_Nil [simp]: "page offset count [] = []"
  by (simp add: page_def split: option.splits)

lemma page_Cons:
  "page offset count (e # es) =
     (if 0 < offset then page (offset - 1) count es
      else if some_left count then e # page offset (one_less count) es else [])"
proof (cases "0 < offset")
  case True
  then have "nat offset = Suc (nat (offset - 1))" by simp
  then show ?thesis using True by (simp add: page_def split: option.splits)
next
  case False
  have "nat n = Suc (nat (n - 1))" if "0 < n" for n :: int using that by simp
  then show ?thesis using False by (simp add: page_def some_left_def one_less_def split: option.splits)
qed

lemma scan_follows:
  assumes "follows follow ns x zs" "map (entry_at ns) zs = map Some es"
  shows "scan stop follow ns x offset count out =
    Some (out @ page offset count (takeWhile (\<lambda>e. \<not> stop (fst e)) es))"
  using assms
proof (induction zs arbitrary: x es offset count out)
  case Nil then show ?case by (subst scan.simps) simp
next
  case (Cons z zs)
  then obtain e es' where es: "es = e # es'" "entry_at ns z = Some e" "map (entry_at ns) zs = map Some es'" by (cases es) auto
  have x: "x = Some z" and fo: "follows follow ns (follow (ns ! z)) zs" using Cons.prems(1) by simp_all
  show ?case using Cons.IH[OF fo es(3)] by (subst scan.simps) (simp add: x es page_Cons)
qed

lemma iter_next_follows:
  assumes "follows follow ns x zs" "map (entry_at ns) zs = map Some es"
  shows "(page offset count (takeWhile (\<lambda>e. \<not> stop (fst e)) es) = [] \<and> iter_next stop follow ns x offset count = Some None) \<or>
    (\<exists>e f offset' count' zs' es'. iter_next stop follow ns x offset count = Some (Some (e, f, offset', count')) \<and>
      follows follow ns (follow (ns ! f)) zs' \<and> map (entry_at ns) zs' = map Some es' \<and>
      page offset count (takeWhile (\<lambda>e. \<not> stop (fst e)) es) =
        e # page offset' count' (takeWhile (\<lambda>e. \<not> stop (fst e)) es'))"
  using assms
proof (induction zs arbitrary: x es offset count)
  case Nil then show ?case by (subst iter_next.simps) simp
next
  case (Cons z zs)
  then obtain e es' where es: "es = e # es'" "entry_at ns z = Some e" "map (entry_at ns) zs = map Some es'" by (cases es) auto
  have x: "x = Some z" and fo: "follows follow ns (follow (ns ! z)) zs" using Cons.prems(1) by simp_all
  show ?case
  proof (cases "\<not> stop (fst e) \<and> 0 < offset")
    case True
    have "iter_next stop follow ns x offset count = iter_next stop follow ns (follow (ns ! z)) (offset - 1) count"
      using True by (subst iter_next.simps) (simp add: x es)
    moreover have "page offset count (takeWhile (\<lambda>e. \<not> stop (fst e)) es) =
        page (offset - 1) count (takeWhile (\<lambda>e. \<not> stop (fst e)) es')" using True by (simp add: es page_Cons)
    ultimately show ?thesis using Cons.IH[OF fo es(3), of "offset - 1" count] by simp
  next
    case False
    note nf = False
    show ?thesis
    proof (cases "\<not> stop (fst e) \<and> some_left count")
      case True
      then have "iter_next stop follow ns x offset count = Some (Some (e, z, offset, one_less count))"
        using nf by (subst iter_next.simps) (simp add: x es)
      moreover have "page offset count (takeWhile (\<lambda>e. \<not> stop (fst e)) es) =
        e # page offset (one_less count) (takeWhile (\<lambda>e. \<not> stop (fst e)) es')" using True nf by (simp add: es page_Cons)
      ultimately show ?thesis using fo es(3) by blast
    next
      case False
      then have "iter_next stop follow ns x offset count = Some None"
        using nf by (subst iter_next.simps) (auto simp add: x es)
      moreover have "page offset count (takeWhile (\<lambda>e. \<not> stop (fst e)) es) = []"
        using nf False by (cases "stop (fst e)") (simp_all add: es page_Cons)
      ultimately show ?thesis by simp
    qed
  qed
qed

lemma iter_take_follows:
  assumes "follows follow ns x zs" "map (entry_at ns) zs = map Some es"
  shows "iter_take stop follow ns n x offset count =
    Some (take n (page offset count (takeWhile (\<lambda>e. \<not> stop (fst e)) es)))"
  using assms
proof (induction n arbitrary: x zs es offset count)
  case (Suc n)
  from iter_next_follows[OF Suc.prems, of offset count stop] show ?case
  proof (elim disjE exE conjE)
    fix e f offset' count' zs' es'
    assume "iter_next stop follow ns x offset count = Some (Some (e, f, offset', count'))"
      "follows follow ns (follow (ns ! f)) zs'" "map (entry_at ns) zs' = map Some es'"
      "page offset count (takeWhile (\<lambda>e. \<not> stop (fst e)) es) = e # page offset' count' (takeWhile (\<lambda>e. \<not> stop (fst e)) es')"
    then show ?case using Suc.IH[of "follow (ns ! f)" zs' es' offset' count'] by simp
  qed simp
qed simp

lemma collect_follows:
  assumes "follows next_node ns x zs" "map (entry_at ns) zs = map Some es"
  shows "collect ns x out = Some (out @ es)"
  using assms
proof (induction zs arbitrary: x es out)
  case Nil then show ?case by (subst collect.simps) simp
next
  case (Cons z zs)
  then obtain e es' where es: "es = e # es'" "entry_at ns z = Some e" "map (entry_at ns) zs = map Some es'" by (cases es) auto
  have x: "x = Some z" and fo: "follows next_node ns (next_node (ns ! z)) zs" using Cons.prems(1) by simp_all
  show ?case using Cons.IH[OF fo es(3)] by (subst collect.simps) (simp add: x es)
qed

lemma follows_from:
  assumes inv: "skip_inv (A @ B) s" and ups: "ups_ok (sl_nodes s) (sl_level s) (0 # A) ups"
  shows "follows next_node (sl_nodes s) (forward (lv (sl_nodes s) (fst (ups ! 0)) 0)) B"
    "follows backward (sl_nodes s) (before s (forward (lv (sl_nodes s) (fst (ups ! 0)) 0))) (rev A)"
proof -
  note D = nodes_okD[OF skip_invD(1)[OF inv]] and fn = found_next[OF inv ups]
  have b: "follows backward (sl_nodes s) (last_of A) (rev A)" using follows_backward skip_invD(3)[OF inv] .
  have "before s (forward (lv (sl_nodes s) (fst (ups ! 0)) 0)) = last_of A"
  proof (cases B)
    case Nil then show ?thesis using skip_invD(4)[OF inv] by (simp add: fn(1) before_def)
  next
    case (Cons c B')
    then show ?thesis using skip_invD(3)[OF inv] by (simp add: fn(1) before_def back_ok_append last_of_def)
  qed
  then show "follows backward (sl_nodes s) (before s (forward (lv (sl_nodes s) (fst (ups ! 0)) 0))) (rev A)" using b by simp
  show "follows next_node (sl_nodes s) (forward (lv (sl_nodes s) (fst (ups ! 0)) 0)) B"
  proof (cases B)
    case Nil then show ?thesis by (simp add: fn(1))
  next
    case (Cons c B')
    have "follows next_node (sl_nodes s) (forward (lv (sl_nodes s) c 0)) B'"
      using follows_forward[of "sl_nodes s" "0 # A" c B'] skip_invD(2)[OF inv] D(6) Cons by simp
    moreover have "forward (lv (sl_nodes s) (fst (ups ! 0)) 0) = Some c" using fn(1) Cons by simp
    moreover have "next_node (sl_nodes s ! c) = forward (lv (sl_nodes s) c 0)" by (simp add: next_node_def lv_def)
    ultimately show ?thesis by (simp add: Cons)
  qed
qed

lemma follows_all:
  assumes inv: "skip_inv ys s"
  shows "follows next_node (sl_nodes s) (forward (lv (sl_nodes s) 0 0)) ys"
    "follows backward (sl_nodes s) (sl_tail s) (rev ys)"
proof -
  note D = nodes_okD[OF skip_invD(1)[OF inv]]
  show "follows next_node (sl_nodes s) (forward (lv (sl_nodes s) 0 0)) ys"
    using follows_forward[of "sl_nodes s" "[]" 0 ys] skip_invD(2)[OF inv] D(3,6) by (simp add: MAX_LEVEL_def)
  show "follows backward (sl_nodes s) (sl_tail s) (rev ys)"
    using follows_backward[of "sl_nodes s" ys "[]"] skip_invD(3,4)[OF inv] by simp
qed

section \<open>Ranges\<close>

text \<open>The bound a scan starts at, and the one it stops at, in either direction.\<close>

definition lower_hit :: "'k comparator \<Rightarrow> 'k range_options \<Rightarrow> 'k \<Rightarrow> bool" where
  "lower_hit cmpK opts k \<longleftrightarrow>
     (case r_gte opts of
        Some b \<Rightarrow> if r_gt opts \<noteq> None then 0 < cmpK k b else 0 \<le> cmpK k b
      | None \<Rightarrow> (case r_gt opts of Some b \<Rightarrow> 0 < cmpK k b | None \<Rightarrow> True))"

definition upper_hit :: "'k comparator \<Rightarrow> 'k range_options \<Rightarrow> 'k \<Rightarrow> bool" where
  "upper_hit cmpK opts k \<longleftrightarrow>
     (case r_lte opts of
        Some b \<Rightarrow> cmpK k b \<le> 0
      | None \<Rightarrow> (case r_lt opts of Some b \<Rightarrow> cmpK k b < 0 | None \<Rightarrow> True))"

definition lower_stop :: "'k comparator \<Rightarrow> 'k range_options \<Rightarrow> 'k \<Rightarrow> bool" where
  "lower_stop cmpK opts k \<longleftrightarrow> holds (\<lambda>b. cmpK k b < 0) (r_gte opts) \<or> holds (\<lambda>b. cmpK k b \<le> 0) (r_gt opts)"

definition upper_stop :: "'k comparator \<Rightarrow> 'k range_options \<Rightarrow> 'k \<Rightarrow> bool" where
  "upper_stop cmpK opts k \<longleftrightarrow> holds (\<lambda>b. 0 < cmpK k b) (r_lte opts) \<or> holds (\<lambda>b. 0 \<le> cmpK k b) (r_lt opts)"

text \<open>The keys within every bound given, and the answer to a range query over the entries in order.\<close>

definition in_bounds :: "'k comparator \<Rightarrow> 'k range_options \<Rightarrow> 'k \<Rightarrow> bool" where
  "in_bounds cmpK opts k \<longleftrightarrow> \<not> lower_stop cmpK opts k \<and> \<not> upper_stop cmpK opts k"

definition range_page :: "'k comparator \<Rightarrow> 'k range_options \<Rightarrow> ('k \<times> 'v) list \<Rightarrow> ('k \<times> 'v) list" where
  "range_page cmpK opts es = page (or_zero (r_offset opts)) (r_count opts)
     (if r_reverse opts then rev (filter (\<lambda>e. upper_hit cmpK opts (fst e) \<and> \<not> lower_stop cmpK opts (fst e)) es)
      else filter (\<lambda>e. lower_hit cmpK opts (fst e) \<and> \<not> upper_stop cmpK opts (fst e)) es)"

lemma one_bound_each:
  "r_gte opts = None \<or> r_gt opts = None \<Longrightarrow> lower_hit cmpK opts k \<longleftrightarrow> \<not> lower_stop cmpK opts k"
  "r_lte opts = None \<or> r_lt opts = None \<Longrightarrow> upper_hit cmpK opts k \<longleftrightarrow> \<not> upper_stop cmpK opts k"
  by (auto simp: lower_hit_def lower_stop_def upper_hit_def upper_stop_def holds_def not_le not_less split: option.splits)

lemma ne_of_mem: "x \<in> set xs \<Longrightarrow> xs \<noteq> []"
  by auto

locale entry_order = K: comparator cmpK + V: comparator cmpV
  for cmpK :: "'k comparator" and cmpV :: "'v comparator"
begin

abbreviation below :: "'k \<times> 'v \<Rightarrow> 'k \<times> 'v \<Rightarrow> bool" where
  "below \<equiv> nodeLess cmpK cmpV"

definition in_sequence :: "('k \<times> 'v) list \<Rightarrow> bool" where
  "in_sequence es \<longleftrightarrow> sorted_wrt (\<lambda>a b. \<not> below b a) es"

lemma sameEntry_iff: "sameEntry cmpK cmpV a b \<longleftrightarrow> a = b"
  by (auto simp: sameEntry_def K.cmp_eq V.cmp_eq prod_eq_iff)

lemma below_iff: "below a b \<longleftrightarrow> cmpK (fst a) (fst b) < 0 \<or> fst a = fst b \<and> cmpV (snd a) (snd b) < 0"
  by (simp add: nodeLess_def Let_def K.cmp_eq)

lemma below_irrefl: "\<not> below a a"
  using K.cmp_eq[of "fst a" "fst a"] V.cmp_eq[of "snd a" "snd a"] by (simp add: below_iff)

lemma below_trans: "below a b \<Longrightarrow> below b c \<Longrightarrow> below a c"
  unfolding below_iff using K.cmp_trans V.cmp_trans by metis

lemma below_asym: "below a b \<Longrightarrow> \<not> below b a"
  using below_trans below_irrefl by blast

lemma below_total: "below a b \<or> a = b \<or> below b a"
proof -
  have "cmpK x y < 0 \<or> x = y \<or> cmpK y x < 0" for x y
    using K.cmp_swap[of y x] K.cmp_eq[of x y] by linarith
  moreover have "cmpV x y < 0 \<or> x = y \<or> cmpV y x < 0" for x y
    using V.cmp_swap[of y x] V.cmp_eq[of x y] by linarith
  ultimately show ?thesis unfolding below_iff prod_eq_iff by metis
qed

lemma not_below_trans: "\<not> below b a \<Longrightarrow> below b c \<Longrightarrow> below a c"
  using below_total[of a b] below_trans[of a b c] by auto

lemma below_below: "\<not> below b a \<Longrightarrow> below b e \<or> b = e \<Longrightarrow> below a e \<or> a = e"
  using not_below_trans below_total by blast

text \<open>A test that holds below what it holds for divides a sequence.\<close>

lemma in_sequence_split:
  assumes "in_sequence es" "\<And>a b. \<not> below b a \<Longrightarrow> P b \<Longrightarrow> P a"
  shows "\<forall>e \<in> set (takeWhile P es). P e" "\<forall>e \<in> set (dropWhile P es). \<not> P e"
proof -
  show "\<forall>e \<in> set (takeWhile P es). P e" by (auto dest: set_takeWhileD)
  have "in_sequence es \<Longrightarrow> \<forall>e \<in> set (dropWhile P es). \<not> P e"
    unfolding in_sequence_def using assms(2) by (induction es) auto
  then show "\<forall>e \<in> set (dropWhile P es). \<not> P e" using assms(1) by blast
qed

lemma filter_in_sequence:
  assumes "in_sequence es" "\<And>a b. \<not> below b a \<Longrightarrow> P b \<Longrightarrow> P a"
  shows "takeWhile P es = filter P es" "dropWhile P es = filter (\<lambda>e. \<not> P e) es"
proof -
  note sp = in_sequence_split[of es P, OF assms]
  have "filter P (takeWhile P es @ dropWhile P es) = takeWhile P es"
    "filter (\<lambda>e. \<not> P e) (takeWhile P es @ dropWhile P es) = dropWhile P es"
    using sp by (simp_all del: takeWhile_dropWhile_id)
  then show "takeWhile P es = filter P es" "dropWhile P es = filter (\<lambda>e. \<not> P e) es" by simp_all
qed

lemma in_sequence_insert: "in_sequence es \<Longrightarrow> in_sequence (ref_insert below e es)"
proof (induction es)
  case (Cons f es)
  have "set (ref_insert below e es) = insert e (set es)" by (induction es) auto
  moreover have "\<forall>x \<in> set es. \<not> below x e" if "\<not> below f e"
    using that Cons.prems not_below_trans[of _ f e] unfolding in_sequence_def by auto
  ultimately show ?case
    using Cons below_asym[of f e] unfolding in_sequence_def by simp
qed (simp add: in_sequence_def)

lemma in_sequence_remove: "in_sequence es \<Longrightarrow> in_sequence (remove1 e es)"
  unfolding in_sequence_def
proof (induction es)
  case (Cons f es)
  then show ?case using notin_set_remove1[of _ es e] set_remove1_subset[of e es] by auto
qed simp

lemma divide_at:
  assumes "shows_entries ys s es" "in_sequence es" "\<And>a b. \<not> below b a \<Longrightarrow> P b \<Longrightarrow> P a"
  obtains A B where "ys = A @ B" "map (entry_at (sl_nodes s)) A = map Some (filter P es)"
    "map (entry_at (sl_nodes s)) B = map Some (filter (\<lambda>e. \<not> P e) es)" "skip_inv (A @ B) s"
    "divides (\<lambda>e _. P e) (sl_nodes s) (0 # A) B" "es = filter P es @ filter (\<lambda>e. \<not> P e) es"
proof -
  note f = filter_in_sequence[of es P, OF assms(2,3)]
  have es: "es = filter P es @ filter (\<lambda>e. \<not> P e) es" using f takeWhile_dropWhile_id[of P es] by simp
  have sh: "shows_entries ys s (filter P es @ filter (\<lambda>e. \<not> P e) es)" using assms(1) es by simp
  obtain A B where ab: "ys = A @ B" "map (entry_at (sl_nodes s)) A = map Some (filter P es)"
    "map (entry_at (sl_nodes s)) B = map Some (filter (\<lambda>e. \<not> P e) es)" "divides (\<lambda>e _. P e) (sl_nodes s) (0 # A) B"
    by (rule shows_split[where P = P, OF sh]) auto
  have "skip_inv (A @ B) s" using assms(1) ab(1) by (simp add: shows_entries_def)
  then show ?thesis using that ab es by blast
qed

text \<open>The operations.\<close>

lemma insert_refines:
  assumes "shows_entries ys s es" "in_sequence es"
  obtains ys' s' where "skip_insert cmpK cmpV draws e s = Some s'" "shows_entries ys' s' (ref_insert below e es)"
proof -
  have dn: "\<And>a b. \<not> below b a \<Longrightarrow> below b e \<Longrightarrow> below a e" using not_below_trans by blast
  obtain A B where ab: "ys = A @ B" "map (entry_at (sl_nodes s)) A = map Some (filter (\<lambda>f. below f e) es)"
    "map (entry_at (sl_nodes s)) B = map Some (filter (\<lambda>f. \<not> below f e) es)" "skip_inv (A @ B) s"
    "divides (\<lambda>f _. below f e) (sl_nodes s) (0 # A) B"
    by (rule divide_at[where P = "\<lambda>f. below f e", OF assms dn])
  obtain s' where s': "skip_insert cmpK cmpV draws e s = Some s'" "skip_inv (A @ length (sl_nodes s) # B) s'"
    "entry_at (sl_nodes s') (length (sl_nodes s)) = Some e"
    "\<forall>y < length (sl_nodes s). entry_at (sl_nodes s') y = entry_at (sl_nodes s) y"
    using insert_at[OF ab(4,5)] by blast
  have "y < length (sl_nodes s)" if "y \<in> set (A @ B)" for y using nodes_okD(9)[OF skip_invD(1)[OF ab(4)], of y] that by simp
  then have "map (entry_at (sl_nodes s')) A = map (entry_at (sl_nodes s)) A"
    "map (entry_at (sl_nodes s')) B = map (entry_at (sl_nodes s)) B" using s'(4) by auto
  then have "shows_entries (A @ length (sl_nodes s) # B) s' (ref_insert below e es)"
    using s'(2,3) ab(2,3) filter_in_sequence[of es "\<lambda>f. below f e", OF assms(2) dn]
    by (simp add: shows_entries_def ref_insert_eq)
  then show ?thesis using that s'(1) by blast
qed

lemma first_at_least:
  assumes "in_sequence es"
  shows "e \<in> set es \<longleftrightarrow> (\<exists>r. filter (\<lambda>f. \<not> below f e) es = e # r)"
proof
  assume e: "e \<in> set es"
  have "e \<in> set (filter (\<lambda>f. \<not> below f e) es)" using e below_irrefl by simp
  then obtain f r where r: "filter (\<lambda>f. \<not> below f e) es = f # r" by (cases "filter (\<lambda>f. \<not> below f e) es") auto
  have "in_sequence (f # r)" unfolding r[symmetric] using assms by (simp add: in_sequence_def sorted_wrt_filter)
  moreover have "e \<in> set (f # r)" using e below_irrefl unfolding r[symmetric] by simp
  ultimately have "f = e \<or> \<not> below e f" by (auto simp: in_sequence_def)
  moreover have "\<not> below f e" using arg_cong[OF r, of set] by auto
  ultimately have "f = e" using below_total by blast
  then show "\<exists>r. filter (\<lambda>f. \<not> below f e) es = e # r" using r by blast
next
  assume "\<exists>r. filter (\<lambda>f. \<not> below f e) es = e # r"
  then obtain r where "filter (\<lambda>f. \<not> below f e) es = e # r" by blast
  then have "e \<in> set (filter (\<lambda>f. \<not> below f e) es)" by simp
  then show "e \<in> set es" by simp
qed

lemma delete_refines:
  assumes "shows_entries ys s es" "in_sequence es"
  obtains ys' s' where "skip_delete cmpK cmpV e s = Some (e \<in> set es, s')" "shows_entries ys' s' (remove1 e es)"
proof -
  have dn: "\<And>a b. \<not> below b a \<Longrightarrow> below b e \<Longrightarrow> below a e" using not_below_trans by blast
  obtain A B where ab: "ys = A @ B" "map (entry_at (sl_nodes s)) A = map Some (filter (\<lambda>f. below f e) es)"
    "map (entry_at (sl_nodes s)) B = map Some (filter (\<lambda>f. \<not> below f e) es)" "skip_inv (A @ B) s"
    "divides (\<lambda>f _. below f e) (sl_nodes s) (0 # A) B" and es: "es = filter (\<lambda>f. below f e) es @ filter (\<lambda>f. \<not> below f e) es"
    by (rule divide_at[where P = "\<lambda>f. below f e", OF assms dn])
  obtain ups where ups: "search (\<lambda>f. below f e) s = Some ups" "ups_ok (sl_nodes s) (sl_level s) (0 # A) ups"
    using search_ok[OF ab(4) _ _ ab(5)] by auto
  have fw: "forward (lv (sl_nodes s) (fst (ups ! 0)) 0) = (case B of [] \<Rightarrow> None | b # _ \<Rightarrow> Some b)"
    using found_next(1)[OF ab(4) ups(2)] .
  have B: "map (entry_at (sl_nodes s)) B = map Some (filter (\<lambda>f. \<not> below f e) es)" by (rule ab(3))
  show ?thesis
  proof (cases "e \<in> set es")
    case True
    then obtain r where r: "filter (\<lambda>f. \<not> below f e) es = e # r" using first_at_least[OF assms(2)] by blast
    then obtain b B' where b: "B = b # B'" "entry_at (sl_nodes s) b = Some e" "map (entry_at (sl_nodes s)) B' = map Some r"
      using B by (cases B) auto
    have "skip_delete cmpK cmpV e s = Some (True, deleteNode b ups s)"
      using fw b(1,2) by (simp add: skip_delete_def ups(1) entry_sat_def sameEntry_iff)
    moreover have "remove1 e es = filter (\<lambda>f. below f e) es @ r"
      using es r below_irrefl[of e] remove1_append[of e "filter (\<lambda>f. below f e) es" "e # r"] by simp
    moreover have "shows_entries (A @ B') (deleteNode b ups s) (filter (\<lambda>f. below f e) es @ r)"
    proof -
      have "skip_inv (A @ b # B') s" using ab(4) b(1) by simp
      from remove_ok[OF this ups(2)] show ?thesis using ab(2) b(3) by (simp add: shows_entries_def)
    qed
    ultimately show ?thesis using that True by simp
  next
    case False
    then have nf: "\<nexists>r. filter (\<lambda>f. \<not> below f e) es = e # r" using first_at_least[OF assms(2)] by blast
    have "skip_delete cmpK cmpV e s = Some (False, s)"
    proof (cases B)
      case Nil then show ?thesis using fw by (simp add: skip_delete_def ups(1))
    next
      case (Cons b B')
      then obtain f r where "filter (\<lambda>f. \<not> below f e) es = f # r" "entry_at (sl_nodes s) b = Some f"
        using B by (cases "filter (\<lambda>f. \<not> below f e) es") auto
      then show ?thesis using fw Cons nf by (auto simp: skip_delete_def ups(1) entry_sat_def sameEntry_iff)
    qed
    then show ?thesis using that[of s ys] False assms(1) by (simp add: remove1_idem)
  qed
qed

lemma run_refines:
  assumes "shows_entries ys s es" "in_sequence es"
  shows "\<exists>ys' s'. skip_run cmpK cmpV ops s = Some s' \<and> shows_entries ys' s' (ref_run below ops es) \<and>
    in_sequence (ref_run below ops es)"
  using assms
proof (induction ops arbitrary: ys s es)
  case Nil then show ?case by auto
next
  case (Cons op ops)
  show ?case
  proof (cases op)
    case (OpInsert draws e)
    obtain ys1 s1 where 1: "skip_insert cmpK cmpV draws e s = Some s1" "shows_entries ys1 s1 (ref_insert below e es)"
      using insert_refines[OF Cons.prems] by blast
    from Cons.IH[OF 1(2) in_sequence_insert[OF Cons.prems(2)]] show ?thesis using 1(1) by (simp add: OpInsert)
  next
    case (OpDelete e)
    obtain ys1 s1 where 1: "skip_delete cmpK cmpV e s = Some (e \<in> set es, s1)" "shows_entries ys1 s1 (remove1 e es)"
      using delete_refines[OF Cons.prems] by blast
    from Cons.IH[OF 1(2) in_sequence_remove[OF Cons.prems(2)]] show ?thesis using 1(1) by (simp add: OpDelete)
  qed
qed

text \<open>Reading in order.\<close>

lemma toArray_refines: "shows_entries ys s es \<Longrightarrow> toArray s = Some es"
  unfolding shows_entries_def toArray_def by (elim conjE) (simp add: collect_follows[OF follows_all(1)])

text \<open>A search for the nodes that pass a test: the pointers after them and, backwards, before them.\<close>

lemma search_refines:
  assumes "shows_entries ys s es" "in_sequence es" "\<And>a b. \<not> below b a \<Longrightarrow> P b \<Longrightarrow> P a"
  obtains ups A B where "search P s = Some ups" "ys = A @ B"
    "map (entry_at (sl_nodes s)) A = map Some (filter P es)"
    "map (entry_at (sl_nodes s)) B = map Some (filter (\<lambda>e. \<not> P e) es)"
    "follows next_node (sl_nodes s) (forward (lv (sl_nodes s) (fst (ups ! 0)) 0)) B"
    "follows backward (sl_nodes s) (before s (forward (lv (sl_nodes s) (fst (ups ! 0)) 0))) (rev A)"
    "fst (ups ! 0) = last (0 # A)" "snd (ups ! 0) = int (length A)" "0 \<notin> set A"
proof -
  obtain A B where ab: "ys = A @ B" "map (entry_at (sl_nodes s)) A = map Some (filter P es)"
    "map (entry_at (sl_nodes s)) B = map Some (filter (\<lambda>e. \<not> P e) es)" "skip_inv (A @ B) s"
    "divides (\<lambda>e _. P e) (sl_nodes s) (0 # A) B"
    by (rule divide_at[where P = P, OF assms])
  obtain ups where ups: "search P s = Some ups" "ups_ok (sl_nodes s) (sl_level s) (0 # A) ups"
    using search_ok[OF ab(4) _ _ ab(5)] by auto
  have "0 \<notin> set A" using nodes_okD(1)[OF skip_invD(1)[OF ab(4)]] by simp
  then show ?thesis using that ups(1) ab(1-3) follows_from[OF ab(4) ups(2)] found_next(2,3)[OF ab(4) ups(2)] by blast
qed

lemma key_le: "\<not> below b a \<Longrightarrow> cmpK (fst b) c < 0 \<Longrightarrow> cmpK (fst a) c < 0"
  "\<not> below b a \<Longrightarrow> cmpK (fst b) c \<le> 0 \<Longrightarrow> cmpK (fst a) c \<le> 0"
proof -
  assume "\<not> below b a"
  then have le: "cmpK (fst a) (fst b) < 0 \<or> fst a = fst b"
  proof -
    have "\<not> cmpK (fst b) (fst a) < 0" using \<open>\<not> below b a\<close> by (simp add: below_iff)
    then have "0 < cmpK (fst b) (fst a) \<or> cmpK (fst b) (fst a) = 0" by linarith
    then show ?thesis using K.cmp_swap[of "fst a" "fst b"] K.cmp_eq[of "fst b" "fst a"] by auto
  qed
  { assume "cmpK (fst b) c < 0" then show "cmpK (fst a) c < 0" using le K.cmp_trans by auto }
  { assume "cmpK (fst b) c \<le> 0"
    then have "cmpK (fst b) c < 0 \<or> fst b = c" using K.cmp_eq[of "fst b" c] by linarith
    then show "cmpK (fst a) c \<le> 0" using le K.cmp_trans[of "fst a" "fst b" c] K.cmp_eq[of "fst a" c] by auto }
qed

lemma takeWhile_rev:
  assumes "in_sequence es" "\<And>a b. \<not> below b a \<Longrightarrow> Q a \<Longrightarrow> Q b"
  shows "takeWhile Q (rev es) = rev (filter Q es)"
proof -
  have dn: "\<And>a b. \<not> below b a \<Longrightarrow> \<not> Q b \<Longrightarrow> \<not> Q a" using assms(2) by blast
  have "es = filter (\<lambda>e. \<not> Q e) es @ filter Q es"
    using filter_in_sequence[of es "\<lambda>e. \<not> Q e", OF assms(1) dn] takeWhile_dropWhile_id[of "\<lambda>e. \<not> Q e" es] by simp
  then have "rev es = rev (filter Q es) @ rev (filter (\<lambda>e. \<not> Q e) es)" using rev_append by metis
  moreover have "takeWhile Q (rev (filter (\<lambda>e. \<not> Q e) es)) = []"
    using takeWhile_eq_Nil_iff[of Q "rev (filter (\<lambda>e. \<not> Q e) es)"] hd_in_set[of "rev (filter (\<lambda>e. \<not> Q e) es)"]
    by (auto simp del: hd_in_set)
  moreover have "takeWhile Q (rev (filter Q es) @ rev (filter (\<lambda>e. \<not> Q e) es)) =
      rev (filter Q es) @ takeWhile Q (rev (filter (\<lambda>e. \<not> Q e) es))"
    by (rule takeWhile_append2) simp
  ultimately show ?thesis by simp
qed

lemma in_sequence_filter: "in_sequence es \<Longrightarrow> in_sequence (filter P es)"
  by (simp add: in_sequence_def sorted_wrt_filter)

lemma lowerBound_refines:
  assumes "shows_entries ys s es" "in_sequence es"
  obtains r A B where "lowerBound cmpK bound strict s = Some r" "ys = A @ B"
    "follows next_node (sl_nodes s) r B" "follows backward (sl_nodes s) (before s r) (rev A)"
    "map (entry_at (sl_nodes s)) A = map Some (filter (\<lambda>f. if strict then cmpK (fst f) bound \<le> 0 else cmpK (fst f) bound < 0) es)"
    "map (entry_at (sl_nodes s)) B = map Some (filter (\<lambda>f. if strict then 0 < cmpK (fst f) bound else 0 \<le> cmpK (fst f) bound) es)"
proof -
  let ?P = "\<lambda>f. if strict then cmpK (fst f) bound \<le> 0 else cmpK (fst f) bound < 0"
  have dn: "\<And>a b. \<not> below b a \<Longrightarrow> ?P b \<Longrightarrow> ?P a" using key_le by (auto split: if_splits)
  have not: "(\<lambda>f. \<not> ?P f) = (\<lambda>f. if strict then 0 < cmpK (fst f) bound else 0 \<le> cmpK (fst f) bound)" by (auto simp: not_less not_le)
  obtain ups A B where r: "search ?P s = Some ups" "ys = A @ B"
    "map (entry_at (sl_nodes s)) A = map Some (filter ?P es)"
    "map (entry_at (sl_nodes s)) B = map Some (filter (\<lambda>e. \<not> ?P e) es)"
    "follows next_node (sl_nodes s) (forward (lv (sl_nodes s) (fst (ups ! 0)) 0)) B"
    "follows backward (sl_nodes s) (before s (forward (lv (sl_nodes s) (fst (ups ! 0)) 0))) (rev A)"
    by (rule search_refines[where P = ?P, OF assms dn])
  have "lowerBound cmpK bound strict s = Some (forward (lv (sl_nodes s) (fst (ups ! 0)) 0))"
    by (simp add: lowerBound_def r(1))
  then show ?thesis using r(2,5,6,3) r(4)[unfolded not] by (rule that)
qed

lemma forward_start_refines:
  assumes "shows_entries ys s es" "in_sequence es"
  obtains x B where "forward_start cmpK opts s = Some x" "follows next_node (sl_nodes s) x B"
    "map (entry_at (sl_nodes s)) B = map Some (filter (\<lambda>e. lower_hit cmpK opts (fst e)) es)"
proof (cases "case r_gte opts of Some b \<Rightarrow> Some b | None \<Rightarrow> r_gt opts")
  case None
  then have n: "r_gte opts = None" "r_gt opts = None" by (auto split: option.splits)
  show ?thesis
    by (rule that[of "forward (lv (sl_nodes s) 0 0)" ys])
      (use assms(1) follows_all(1) in \<open>auto simp: forward_start_def n shows_entries_def lower_hit_def\<close>)
next
  case (Some b)
  obtain r A B where r: "lowerBound cmpK b (r_gt opts \<noteq> None) s = Some r" "follows next_node (sl_nodes s) r B"
    "map (entry_at (sl_nodes s)) B = map Some (filter (\<lambda>f. if r_gt opts \<noteq> None then 0 < cmpK (fst f) b else 0 \<le> cmpK (fst f) b) es)"
    by (rule lowerBound_refines[OF assms])
  have "(if r_gt opts \<noteq> None then 0 < cmpK k b else 0 \<le> cmpK k b) = lower_hit cmpK opts k" for k
    using Some by (auto simp: lower_hit_def split: option.splits)
  then have "map (entry_at (sl_nodes s)) B = map Some (filter (\<lambda>e. lower_hit cmpK opts (fst e)) es)" using r(3) by presburger
  moreover have "forward_start cmpK opts s = Some r" using r(1) Some by (simp add: forward_start_def)
  ultimately show ?thesis using that r(2) by blast
qed

lemma reverse_start_refines:
  assumes "shows_entries ys s es" "in_sequence es"
  obtains x B where "reverse_start cmpK opts s = Some x" "follows backward (sl_nodes s) x B"
    "map (entry_at (sl_nodes s)) B = map Some (rev (filter (\<lambda>e. upper_hit cmpK opts (fst e)) es))"
proof -
  note goal = that
  have hit: thesis if start: "reverse_start cmpK opts s = do { after \<leftarrow> lowerBound cmpK b strict s; Some (before s after) }"
    and test: "\<And>k. (if strict then cmpK k b \<le> 0 else cmpK k b < 0) = upper_hit cmpK opts k" for b strict
  proof -
    obtain r A where r: "lowerBound cmpK b strict s = Some r" "follows backward (sl_nodes s) (before s r) (rev A)"
      "map (entry_at (sl_nodes s)) A = map Some (filter (\<lambda>f. if strict then cmpK (fst f) b \<le> 0 else cmpK (fst f) b < 0) es)"
      by (rule lowerBound_refines[OF assms])
    have "map (entry_at (sl_nodes s)) (rev A) = map Some (rev (filter (\<lambda>e. upper_hit cmpK opts (fst e)) es))"
      using r(3) unfolding test by (simp add: rev_map[symmetric])
    then show ?thesis using goal[of "before s r" "rev A"] r(1,2) start by simp
  qed
  show ?thesis
  proof (cases "r_lte opts")
    case (Some b)
    show ?thesis by (rule hit[of b True]) (simp_all add: reverse_start_def upper_hit_def Some)
  next
    case lte: None
    show ?thesis
    proof (cases "r_lt opts")
      case (Some b)
      show ?thesis by (rule hit[of b False]) (simp_all add: reverse_start_def upper_hit_def Some lte)
    next
      case None
      have "map (entry_at (sl_nodes s)) (rev ys) = map Some (rev es)"
        using assms(1) by (simp add: shows_entries_def rev_map[symmetric])
      then show ?thesis using goal[of "sl_tail s" "rev ys"] follows_all(2)[of ys s] assms(1) None lte
        by (simp add: reverse_start_def shows_entries_def upper_hit_def)
    qed
  qed
qed

lemma range_refines:
  assumes "shows_entries ys s es" "in_sequence es"
  shows "skip_range cmpK opts s = Some (range_page cmpK opts es)"
    "skip_iterate cmpK opts n s = Some (take n (range_page cmpK opts es))"
proof -
  have "skip_range cmpK opts s = Some (range_page cmpK opts es) \<and>
    skip_iterate cmpK opts n s = Some (take n (range_page cmpK opts es))"
  proof (cases "r_reverse opts")
    case True
    obtain x B where x: "reverse_start cmpK opts s = Some x" "follows backward (sl_nodes s) x B"
      "map (entry_at (sl_nodes s)) B = map Some (rev (filter (\<lambda>e. upper_hit cmpK opts (fst e)) es))"
      by (rule reverse_start_refines[OF assms])
    have up: "\<not> below b a \<Longrightarrow> \<not> lower_stop cmpK opts (fst a) \<Longrightarrow> \<not> lower_stop cmpK opts (fst b)" for a b
      using key_le[of b a] by (auto simp: lower_stop_def holds_def split: option.splits)
    have "takeWhile (\<lambda>e. \<not> lower_stop cmpK opts (fst e)) (rev (filter (\<lambda>e. upper_hit cmpK opts (fst e)) es)) =
        rev (filter (\<lambda>e. \<not> lower_stop cmpK opts (fst e)) (filter (\<lambda>e. upper_hit cmpK opts (fst e)) es))"
      by (rule takeWhile_rev[OF in_sequence_filter[OF assms(2)] up])
    then show ?thesis
      using scan_follows[OF x(2,3)] iter_take_follows[OF x(2,3)] True x(1)
      by (simp add: skip_range_def skip_iterate_def range_page_def lower_stop_def[abs_def] conj_commute)
  next
    case False
    obtain x B where x: "forward_start cmpK opts s = Some x" "follows next_node (sl_nodes s) x B"
      "map (entry_at (sl_nodes s)) B = map Some (filter (\<lambda>e. lower_hit cmpK opts (fst e)) es)"
      by (rule forward_start_refines[OF assms])
    have dn: "\<not> below b a \<Longrightarrow> \<not> upper_stop cmpK opts (fst b) \<Longrightarrow> \<not> upper_stop cmpK opts (fst a)" for a b
      using key_le[of b a] by (auto simp: upper_stop_def holds_def not_less not_le split: option.splits)
    have "takeWhile (\<lambda>e. \<not> upper_stop cmpK opts (fst e)) (filter (\<lambda>e. lower_hit cmpK opts (fst e)) es) =
        filter (\<lambda>e. \<not> upper_stop cmpK opts (fst e)) (filter (\<lambda>e. lower_hit cmpK opts (fst e)) es)"
      by (rule filter_in_sequence(1)[OF in_sequence_filter[OF assms(2)] dn])
    then show ?thesis
      using scan_follows[OF x(2,3)] iter_take_follows[OF x(2,3)] False x(1)
      by (simp add: skip_range_def skip_iterate_def range_page_def upper_stop_def[abs_def] conj_commute)
  qed
  then show "skip_range cmpK opts s = Some (range_page cmpK opts es)"
    "skip_iterate cmpK opts n s = Some (take n (range_page cmpK opts es))" by simp_all
qed

lemma last_at_most:
  assumes "in_sequence es"
  shows "e \<in> set es \<longleftrightarrow> filter (\<lambda>f. \<not> below e f) es \<noteq> [] \<and> last (filter (\<lambda>f. \<not> below e f) es) = e"
proof
  let ?F = "filter (\<lambda>f. \<not> below e f) es"
  assume "e \<in> set es"
  then have e: "e \<in> set ?F" using below_irrefl by simp
  then have ne: "?F \<noteq> []" by (rule ne_of_mem)
  have "in_sequence (butlast ?F @ [last ?F])" using in_sequence_filter[OF assms] ne by simp
  then have "\<forall>a \<in> set (butlast ?F). \<not> below (last ?F) a" by (simp add: in_sequence_def sorted_wrt_append)
  moreover have "e \<in> set (butlast ?F) \<or> e = last ?F"
    using e append_butlast_last_id[OF ne] by (metis Un_iff empty_iff empty_set insert_iff list.simps(15) set_append)
  ultimately have "e = last ?F \<or> \<not> below (last ?F) e" by blast
  moreover have "\<not> below e (last ?F)" using last_in_set[OF ne] by simp
  ultimately have "last ?F = e" using below_total[of e "last ?F"] by auto
  then show "?F \<noteq> [] \<and> last ?F = e" using ne by (rule conjI[rotated])
next
  let ?F = "filter (\<lambda>f. \<not> below e f) es"
  assume a: "?F \<noteq> [] \<and> last ?F = e"
  then have "e \<in> set ?F" using last_in_set[of ?F] by simp
  then show "e \<in> set es" by simp
qed

lemma getRank_refines:
  assumes "shows_entries ys s es" "in_sequence es"
  shows "getRank cmpK cmpV e s =
    Some (if e \<in> set es then Some (int (length (filter (\<lambda>f. \<not> below e f) es)) - 1) else None)"
proof -
  have P: "(\<lambda>f. below f e \<or> sameEntry cmpK cmpV f e) = (\<lambda>f. \<not> below e f)"
    unfolding sameEntry_iff using below_total[of _ e] below_asym below_irrefl by blast
  have dn: "\<not> below b a \<Longrightarrow> \<not> below e b \<Longrightarrow> \<not> below e a" for a b using not_below_trans[of e b a] by blast
  obtain ups A where r: "search (\<lambda>f. \<not> below e f) s = Some ups"
    "map (entry_at (sl_nodes s)) A = map Some (filter (\<lambda>f. \<not> below e f) es)"
    "fst (ups ! 0) = last (0 # A)" "snd (ups ! 0) = int (length A)" "0 \<notin> set A"
    by (rule search_refines[where P = "\<lambda>f. \<not> below e f", OF assms dn])
  have len: "length A = length (filter (\<lambda>f. \<not> below e f) es)" using arg_cong[OF r(2), of length] by simp
  have found: "search (\<lambda>f. below f e \<or> sameEntry cmpK cmpV f e) s = Some ups" unfolding P by (rule r(1))
  show ?thesis
  proof (cases "A = []")
    case True
    then have "e \<notin> set es" using last_at_most[OF assms(2), of e] len by simp
    then show ?thesis using r(1,3) True by (simp add: getRank_def found case_prod_beta)
  next
    case False
    have "last A \<in> set A" by (rule last_in_set[OF False])
    then have "last A \<noteq> 0" using r(5) by metis
    moreover have "filter (\<lambda>f. \<not> below e f) es \<noteq> []" using False len by auto
    moreover have "entry_at (sl_nodes s) (last A) = Some (last (filter (\<lambda>f. \<not> below e f) es))"
      using arg_cong[OF r(2), of last] False calculation(2) by (simp add: last_map)
    ultimately show ?thesis
      using r(1,3,4) False last_at_most[OF assms(2), of e] len
      by (simp add: getRank_def found case_prod_beta entry_sat_def) (simp add: sameEntry_iff)
  qed
qed

end

lemma by_rank_ok:
  assumes "chain_ok ns (A @ B)" "divides (\<lambda>_ r. r \<le> target) ns A B" "int (length A) = target + 1"
    and low: "\<forall>y \<in> set (tl A). 1 \<le> height ns y"
  shows "A @ B = A1 @ x # R \<Longrightarrow> length A1 < length A \<Longrightarrow> Suc lvl \<le> height ns x \<Longrightarrow>
    by_rank target ns (Suc lvl) x (int (length A1)) = Some (entry_at ns (last A))"
proof (induction lvl arbitrary: A1 x R)
  case 0
  obtain u where u: "walk (\<lambda>_ r. r \<le> target) ns 0 x (int (length A1)) = Some u" "last_high ns 0 A u"
    using walk_ok[OF assms(1,2) 0(1,2), of 0] 0(3) by auto
  obtain A1' A2 where a: "A = A1' @ fst u # A2" "snd u = int (length A1')" using last_highE[OF u(2)] by blast
  have "snd u + 1 = int (length A)" by (rule last_high_bottom[OF u(2) low])
  then have "snd u = target" "A2 = []" using assms(3) a(2) arg_cong[OF a(1), of length] by simp_all
  then show ?case using u(1) a(1) by (cases u) simp
next
  case (Suc i)
  obtain u where u: "walk (\<lambda>_ r. r \<le> target) ns (Suc i) x (int (length A1)) = Some u" "last_high ns (Suc i) A u"
    using walk_ok[OF assms(1,2) Suc.prems(1,2), of "Suc i"] Suc.prems(3) by auto
  obtain A1' A2 where a: "A = A1' @ fst u # A2" "snd u = int (length A1')" "Suc i < height ns (fst u)"
    using last_highE[OF u(2)] by blast
  show ?case
  proof (cases "snd u = target")
    case True
    then have "A2 = []" using assms(3) a(2) arg_cong[OF a(1), of length] by simp
    then show ?thesis using u(1) a(1) True by (cases u) simp
  next
    case False
    have "by_rank target ns (Suc i) (fst u) (int (length A1')) = Some (entry_at ns (last A))"
      using Suc.IH[of A1' "fst u" "A2 @ B"] a by simp
    then show ?thesis using u(1) a(2) False by (cases u) simp
  qed
qed

lemma getByRank_refines:
  assumes "shows_entries ys s es"
  shows "getByRank r s = Some (if 0 \<le> r \<and> r < int (length es) then Some (es ! nat r) else None)"
proof -
  have inv: "skip_inv ys s" and m: "map (entry_at (sl_nodes s)) ys = map Some es" using assms by (simp_all add: shows_entries_def)
  have len: "length ys = length es" using arg_cong[OF m, of length] by simp
  note D = nodes_okD[OF skip_invD(1)[OF inv]]
  show ?thesis
  proof (cases "0 \<le> r \<and> r < int (length es)")
    case False
    then show ?thesis using skip_invD(5)[OF inv] len by (auto simp: getByRank_def)
  next
    case True
    define k where "k = nat r"
    define A where "A = 0 # take (Suc k) ys"
    define B where "B = drop (Suc k) ys"
    have k: "k < length ys" "r = int k" using True len by (auto simp: k_def)
    have AB: "A @ B = 0 # ys" by (simp add: A_def B_def)
    have lA: "int (length A) = (r + 1) + 1" using k by (simp add: A_def)
    have "divides (\<lambda>_ t. t \<le> r + 1) (sl_nodes s) A B"
      unfolding divides_def AB
    proof (intro allI impI)
      fix us y vs assume e: "0 # ys = us @ y # vs" "us \<noteq> []"
      then have "y \<in> set ys" by (cases us) auto
      then show "entry_sat (\<lambda>e. int (length us) \<le> r + 1) (sl_nodes s ! y) = (length us < length A)"
        using D(8)[of y] lA by (auto simp: entry_sat_def)
    qed
    moreover obtain l where l: "sl_level s = Suc l" using D(4) by (cases "sl_level s") auto
    moreover have "\<forall>y \<in> set (tl A). 1 \<le> height (sl_nodes s) y" using D(6) by (auto simp: A_def dest: in_set_takeD)
    ultimately have "by_rank (r + 1) (sl_nodes s) (sl_level s) 0 0 = Some (entry_at (sl_nodes s) (last A))"
      using by_rank_ok[of "sl_nodes s" A B "r + 1" "[]" 0 ys l] skip_invD(2)[OF inv] AB lA D(3,5) by (simp add: A_def)
    moreover have "last A = ys ! k" using k(1) by (simp add: A_def take_Suc_conv_app_nth)
    moreover have "entry_at (sl_nodes s) (ys ! k) = Some (es ! k)"
      using arg_cong[OF m, of "\<lambda>l. l ! k"] k(1) len by simp
    ultimately show ?thesis using k skip_invD(5)[OF inv] len by (simp add: getByRank_def)
  qed
qed

lemma empty_shows: "shows_entries [] empty_skiplist []"
proof -
  let ?ns = "sl_nodes (empty_skiplist :: ('a \<times> 'b) skiplist)"
  have h: "height ?ns 0 = MAX_LEVEL" "length ?ns = 1" by (simp_all add: empty_skiplist_def height_def new_node_def)
  have "forward (lv ?ns 0 i) = None" if "i < MAX_LEVEL" for i
    using that by (simp add: empty_skiplist_def lv_def new_node_def)
  then have "link_ok ?ns i 0 []" if "i < height ?ns 0" for i using that h by (simp add: link_ok_def)
  then have "chain_ok ?ns [0]" unfolding chain_ok_def by (auto simp: Cons_eq_append_conv)
  moreover have "nodes_ok ?ns 1 []" using h by (simp add: nodes_ok_def MAX_LEVEL_def)
  ultimately show ?thesis by (simp add: shows_entries_def skip_inv_def last_of_def empty_skiplist_def)
qed

section \<open>The comparators of the code\<close>

interpretation number: comparator cmpNumber
  by unfold_locales (auto simp: cmpNumber_def)

lemma str_less_irrefl: "\<not> str_less a a"
  by (induction a) auto

lemma str_less_trans: "str_less a b \<Longrightarrow> str_less b c \<Longrightarrow> str_less a c"
proof (induction a b arbitrary: c rule: str_less.induct)
  case (3 x xs y ys) then show ?case by (cases c) auto
next
  case (2 y ys) then show ?case by (cases c) auto
qed simp

lemma str_less_total: "str_less a b \<or> a = b \<or> str_less b a"
proof (induction a b rule: str_less.induct)
  case (1 a) then show ?case by (cases a) auto
next
  case (3 x xs y ys)
  have "(of_char x :: nat) < of_char y \<or> x = y \<or> (of_char y :: nat) < of_char x"
    using linorder_less_linear[of "of_char x :: nat" "of_char y"] by auto
  then show ?case using 3 by auto
qed simp

interpretation string: comparator cmpString
proof
  fix a b c :: string
  show "cmpString a b = 0 \<longleftrightarrow> a = b"
    using str_less_total[of a b] str_less_irrefl by (auto simp: cmpString_def)
  show "cmpString a b < 0 \<longleftrightarrow> 0 < cmpString b a"
    using str_less_trans[of a b a] str_less_irrefl by (auto simp: cmpString_def)
  show "cmpString a b < 0 \<Longrightarrow> cmpString b c < 0 \<Longrightarrow> cmpString a c < 0"
    using str_less_trans[of a b c] by (auto simp: cmpString_def split: if_splits)
qed

interpretation numbers: entry_order cmpNumber cmpString ..

interpretation strings: entry_order cmpString cmpString ..

end
