(* ===== verification/SkipList_Bulk.thy ===== *)
theory SkipList_Bulk imports SkipList_Refine begin

text \<open>
  Bulk loading builds a list with the same invariant, holding the entries less adjacent repetitions; then the
  properties of the skip list.
\<close>

section \<open>Nodes and towers\<close>

lemma tower_bounds: "lvl \<le> MAX_LEVEL \<Longrightarrow> lvl \<le> tower m lvl \<and> tower m lvl \<le> MAX_LEVEL"
proof (induction m lvl rule: tower.induct)
  case (1 m lvl)
  show ?case using 1 by (subst tower.simps, subst (2) tower.simps) auto
qed

lemma bulk_nodes_new:
  "node \<in> set (bulk_nodes cmpK cmpV i prev es) \<Longrightarrow>
   \<exists>e h. node = new_node (Some e) h \<and> 1 \<le> h \<and> h \<le> MAX_LEVEL"
proof (induction cmpK cmpV i prev es rule: bulk_nodes.induct)
  case (2 cmpK cmpV i prev e es)
  have "1 \<le> tower (Suc i) 1 \<and> tower (Suc i) 1 \<le> MAX_LEVEL" using tower_bounds[of 1 "Suc i"] by (simp add: MAX_LEVEL_def)
  then have "\<exists>f h. new_node (Some e) (tower (Suc i) 1) = new_node (Some f) h \<and> 1 \<le> h \<and> h \<le> MAX_LEVEL" by blast
  then show ?case using 2 by (auto simp del: ex_simps split: if_splits)
qed simp

lemma fold_max_height:
  "l \<le> fold (\<lambda>node l. max (length (levels node)) l) nodes l"
  "node \<in> set nodes \<Longrightarrow> length (levels node) \<le> fold (\<lambda>node l. max (length (levels node)) l) nodes l"
  "l \<le> m \<Longrightarrow> \<forall>node \<in> set nodes. length (levels node) \<le> m \<Longrightarrow> fold (\<lambda>node l. max (length (levels node)) l) nodes l \<le> m"
proof (induction nodes arbitrary: l)
  case (Cons n nodes)
  { case 1 show ?case using Cons(1)[of "max (length (levels n)) l"] by simp }
  { case 2
    have "max (length (levels n)) l \<le> fold (\<lambda>node l. max (length (levels node)) l) nodes (max (length (levels n)) l)" by (rule Cons(1))
    then show ?case using 2 Cons(2)[of "max (length (levels n)) l"] by auto }
  { case 3 then show ?case using Cons(3)[of "max (length (levels n)) l"] by simp }
qed simp_all

section \<open>Linking in order\<close>

lemma fold_bulk_levels:
  assumes "\<forall>j < m. fst (lastAt ! j) < length ns \<and> j < height ns (fst (lastAt ! j))" "m \<le> length lastAt"
  shows "same_nodes ns (fst (fold (bulk_level k) [0 ..< m] (ns, lastAt))) \<and>
    length (snd (fold (bulk_level k) [0 ..< m] (ns, lastAt))) = length lastAt \<and>
    (\<forall>y j. lv (fst (fold (bulk_level k) [0 ..< m] (ns, lastAt))) y j =
      (if j < m \<and> y = fst (lastAt ! j) then \<lparr>forward = Some (Suc k), span = int k - snd (lastAt ! j)\<rparr> else lv ns y j)) \<and>
    (\<forall>j. snd (fold (bulk_level k) [0 ..< m] (ns, lastAt)) ! j = (if j < m then (Suc k, int k) else lastAt ! j))"
  using assms
proof (induction m)
  case (Suc m)
  define st where "st = fold (bulk_level k) [0 ..< m] (ns, lastAt)"
  have st: "same_nodes ns (fst st)" "length (snd st) = length lastAt"
    "\<And>y j. lv (fst st) y j =
      (if j < m \<and> y = fst (lastAt ! j) then \<lparr>forward = Some (Suc k), span = int k - snd (lastAt ! j)\<rparr> else lv ns y j)"
    "\<And>j. snd st ! j = (if j < m then (Suc k, int k) else lastAt ! j)"
    using Suc by (simp_all add: st_def)
  have pre: "fst (lastAt ! m) < length (fst st)" "m < height (fst st) (fst (lastAt ! m))"
    using st(1) Suc.prems(1) by (auto simp: same_nodes_def)
  have step: "fold (bulk_level k) [0 ..< Suc m] (ns, lastAt) =
      (set_lv (fst (lastAt ! m)) m \<lparr>forward = Some (Suc k), span = int k - snd (lastAt ! m)\<rparr> (fst st),
       (snd st)[m := (Suc k, int k)])"
    by (simp add: st_def[symmetric] bulk_level_def Let_def st(4))
  show ?case
    unfolding step fst_conv snd_conv lv_set_lv[OF pre]
    using same_nodes_set_lv[OF st(1)] st(2) Suc.prems(2) by (auto simp: st(3,4) less_Suc_eq upd_nth)
qed simp

definition bulk_inv :: "'e nodes \<Rightarrow> nat \<Rightarrow> nat \<Rightarrow> 'e nodes \<times> (nat \<times> int) list \<Rightarrow> bool" where
  "bulk_inv ns0 lvl k st \<longleftrightarrow>
     length (fst st) = length ns0 \<and> height (fst st) = height ns0 \<and> (\<forall>y. entry_at (fst st) y = entry_at ns0 y) \<and>
     chain_ok (fst st) (0 # [1 ..< Suc k]) \<and> back_ok (fst st) None [1 ..< Suc k] \<and>
     (\<forall>y > k. \<forall>j < height ns0 y. y < length ns0 \<longrightarrow> forward (lv (fst st) y j) = None) \<and>
     length (snd st) = lvl \<and>
     (\<forall>l < lvl. last_high ns0 l (0 # [1 ..< Suc k]) (fst (snd st ! l), snd (snd st ! l) + 1))"

lemma bulk_invD:
  assumes "bulk_inv ns0 lvl k st"
  shows "length (fst st) = length ns0" "height (fst st) = height ns0" "\<And>y. entry_at (fst st) y = entry_at ns0 y"
    "chain_ok (fst st) (0 # [1 ..< Suc k])" "back_ok (fst st) None [1 ..< Suc k]"
    "\<And>y j. k < y \<Longrightarrow> j < height ns0 y \<Longrightarrow> y < length ns0 \<Longrightarrow> forward (lv (fst st) y j) = None"
    "length (snd st) = lvl"
    "\<And>l. l < lvl \<Longrightarrow> last_high ns0 l (0 # [1 ..< Suc k]) (fst (snd st ! l), snd (snd st ! l) + 1)"
  using assms unfolding bulk_inv_def by blast+

lemma last_high_null:
  assumes "chain_ok ns A" "last_high ns i A u"
  shows "forward (lv ns (fst u) i) = None"
proof -
  obtain A1 A2 where a: "A = A1 @ fst u # A2" "i < height ns (fst u)" "\<forall>y \<in> set A2. height ns y \<le> i"
    using last_highE[OF assms(2)] by blast
  have "link_ok ns i (fst u) A2" using chain_okD[of ns A1 "fst u" A2 i] assms(1) a(1,2) by simp
  then show ?thesis using find_low[OF a(3)] by (simp add: link_ok_def)
qed

lemma last_high_heights: "height ns' = height ns \<Longrightarrow> last_high ns' i A u = last_high ns i A u"
  by (simp add: last_high_def)

lemma last_high_snoc:
  assumes "last_high ns i A u" "height ns x \<le> i"
  shows "last_high ns i (A @ [x]) u"
proof -
  obtain A1 A2 where a: "A = A1 @ fst u # A2" "snd u = int (length A1)" "i < height ns (fst u)" "\<forall>y \<in> set A2. height ns y \<le> i"
    using last_highE[OF assms(1)] by blast
  show ?thesis
    using last_highI[of "A @ [x]" A1 "fst u" "A2 @ [x]" i ns] a assms(2) by (cases u) auto
qed

lemma bulk_link_inv:
  assumes inv: "bulk_inv ns0 lvl k st" and k: "Suc k < length ns0"
    and heights: "\<forall>y \<in> {1 ..< length ns0}. 1 \<le> height ns0 y \<and> height ns0 y \<le> lvl"
  shows "bulk_inv ns0 lvl (Suc k) (bulk_link k st)"
proof -
  let ?A = "0 # [1 ..< Suc k]" and ?x = "Suc k" and ?ns = "fst st" and ?la = "snd st"
  note I = bulk_invD[OF inv]
  define h where "h = height ns0 ?x"
  have h: "1 \<le> h" "h \<le> lvl" using heights k by (simp_all add: h_def)
  have lh: "last_high ?ns l ?A (fst (?la ! l), snd (?la ! l) + 1)" if "l < lvl" for l
    using I(8)[OF that] last_high_heights[OF I(2)] by blast
  have inA: "fst (?la ! l) \<in> set ?A" "l < height ?ns (fst (?la ! l))" if "l < lvl" for l
    using last_high_in[OF lh[OF that]] by simp_all
  have pre: "\<forall>j < h. fst (?la ! j) < length ?ns \<and> j < height ?ns (fst (?la ! j))" "h \<le> length ?la"
  proof (intro allI impI conjI)
    fix j assume "j < h"
    then have "j < lvl" using h(2) by simp
    then have "fst (?la ! j) \<in> set ?A" "j < height ?ns (fst (?la ! j))" by (rule inA)+
    moreover from this have "fst (?la ! j) \<le> k" by auto
    ultimately show "fst (?la ! j) < length ?ns" "j < height ?ns (fst (?la ! j))" using I(1) k by simp_all
  qed (use h(2) I(7) in simp)
  define st1 where "st1 = fold (bulk_level k) [0 ..< h] (?ns, ?la)"
  note F = fold_bulk_levels[of h ?la ?ns k, OF pre, folded st1_def]
  have F1: "same_nodes ?ns (fst st1)" and F2: "length (snd st1) = lvl"
    and F3: "\<And>y j. lv (fst st1) y j = (if j < h \<and> y = fst (?la ! j) then \<lparr>forward = Some ?x, span = int k - snd (?la ! j)\<rparr> else lv ?ns y j)"
    and F4: "\<And>j. snd st1 ! j = (if j < h then (?x, int k) else ?la ! j)" using F I(7) by auto
  have res: "bulk_link k st = (set_backward ?x (if k = 0 then None else Some k) (fst st1), snd st1)"
    using I(2) by (cases st) (simp add: bulk_link_def Let_def st1_def h_def height_def[symmetric])
  have hs: "height (fst st1) = height ns0" using F1 I(2) by (auto simp: same_nodes_def)
  define ups where "ups = map (\<lambda>(u, i). (u, i + 1)) ?la"
  have ups: "ups ! l = (fst (?la ! l), snd (?la ! l) + 1)" if "l < lvl" for l using that I(7) by (simp add: ups_def case_prod_beta)
  have upsok: "ups_ok ?ns lvl ?A ups" using lh I(7) by (simp add: ups_ok_def ups) (simp add: ups_def)
  have low: "\<forall>y \<in> set (tl ?A) \<union> set []. 1 \<le> height ?ns y \<and> height ?ns y \<le> lvl" using heights k I(2) by auto
  have bottom: "snd (ups ! 0) = int k"
  proof -
    have "0 < lvl" using h by simp
    then have "last_high ?ns 0 ?A (ups ! 0)" using lh[of 0] ups[of 0] by (simp del: upt_Suc)
    moreover have "\<forall>y \<in> set (tl ?A). 1 \<le> height ?ns y" using low by blast
    ultimately have "snd (ups ! 0) + 1 = int (length ?A)" by (rule last_high_bottom)
    then show ?thesis by (simp del: upt_Suc)
  qed
  have "linked_in ?x h lvl ups (?A @ []) ?ns (fst st1)"
    unfolding linked_in_def
  proof (intro conjI ballI allI impI)
    fix y assume y: "y \<in> set (?A @ [])"
    show "height (fst st1) y = height ?ns y" using hs I(2) by simp
    fix i
    { assume a: "i < height ?ns y" "i < lvl" "y = fst (ups ! i)"
      then have u: "y = fst (?la ! i)" "snd (ups ! i) = snd (?la ! i) + 1" using ups by simp_all
      have nul: "forward (lv ?ns y i) = None" using last_high_null[of ?ns ?A i] I(4) lh[OF a(2)] u(1) by auto
      show "forward (lv (fst st1) y i) = (if i < h then Some ?x else forward (lv ?ns y i))" using u(1) by (simp add: F3)
      assume "i < h \<or> forward (lv ?ns y i) \<noteq> None"
      then have "i < h" using nul by simp
      then show "span (lv (fst st1) y i) = (if i < h then snd (ups ! 0) - snd (ups ! i) else span (lv ?ns y i)) + 1"
        using u bottom by (simp add: F3) }
    assume "\<not> (i < lvl \<and> y = fst (ups ! i))"
    then show "lv (fst st1) y i = lv ?ns y i" using h(2) ups[of i] by (auto simp: F3)
  next
    show "height (fst st1) ?x = h" using hs by (simp add: h_def)
    fix i assume i: "i < h"
    then have il: "i < lvl" using h(2) by simp
    have nul: "forward (lv ?ns (fst (ups ! i)) i) = None" using last_high_null[of ?ns ?A i] I(4) lh[OF il] ups[OF il] by auto
    have "?x \<noteq> fst (?la ! i)" using inA(1)[OF il] by auto
    then show "forward (lv (fst st1) ?x i) = forward (lv ?ns (fst (ups ! i)) i)"
      using nul I(6)[of ?x i] i k by (simp add: F3 h_def)
    assume "forward (lv ?ns (fst (ups ! i)) i) \<noteq> None"
    then show "span (lv (fst st1) ?x i) = span (lv ?ns (fst (ups ! i)) i) - (snd (ups ! 0) - snd (ups ! i))" using nul by simp
  qed
  then have "chain_ok (fst st1) (?A @ ?x # [])"
    using chain_linked[of ?ns ?A "[]" lvl ups h ?x "fst st1"] I(4) upsok h low by simp
  moreover have A': "?A @ [?x] = 0 # [1 ..< Suc ?x]" by simp
  ultimately have chain: "chain_ok (fst st1) (0 # [1 ..< Suc ?x])" by simp
  show ?thesis
    unfolding bulk_inv_def res fst_conv snd_conv
  proof (intro conjI allI impI)
    let ?n = "set_backward ?x (if k = 0 then None else Some k) (fst st1)"
    show "length ?n = length ns0" using F1 I(1) by (simp add: same_nodes_def)
    show "height ?n = height ns0" using hs by (simp add: fun_eq_iff)
    show "entry_at ?n y = entry_at ns0 y" for y using F1 I(3) by (simp add: same_nodes_def)
    show "chain_ok ?n (0 # [1 ..< Suc ?x])" by (rule chain_cong[OF _ chain]) simp
    have xl: "?x < length (fst st1)" using F1 I(1) k by (simp add: same_nodes_def)
    have "back_ok ?n None [1 ..< ?x] = back_ok ?ns None [1 ..< ?x]"
      using F1 by (intro back_ok_cong) (auto simp: back_set_backward[OF xl] same_nodes_def)
    then have "back_ok ?n None [1 ..< ?x]" using I(5) by simp
    moreover have "back_at ?n ?x = (if [1 ..< ?x] = [] then None else Some (last [1 ..< ?x]))"
      unfolding back_set_backward[OF xl] by (cases k) simp_all
    ultimately have "back_ok ?n None ([1 ..< ?x] @ [?x])" unfolding back_ok_append by simp
    moreover have "[1 ..< ?x] @ [?x] = [1 ..< Suc ?x]" by simp
    ultimately show "back_ok ?n None [1 ..< Suc ?x]" by (simp only:)
    show "length (snd st1) = lvl" by (rule F2)
    fix l assume l: "l < lvl"
    show "last_high ns0 l (0 # [1 ..< Suc ?x]) (fst (snd st1 ! l), snd (snd st1 ! l) + 1)"
    proof (cases "l < h")
      case True
      have "last_high ns0 l (?A @ [?x]) (?x, int (length ?A))"
        by (rule last_highI[of _ _ _ "[]"]) (use True in \<open>simp_all del: upt_Suc add: h_def\<close>)
      moreover have "int (length ?A) = int k + 1" by (simp del: upt_Suc)
      ultimately show ?thesis unfolding A' using True by (simp del: upt_Suc add: F4 add.commute)
    next
      case False
      then have "last_high ns0 l (?A @ [?x]) (fst (?la ! l), snd (?la ! l) + 1)"
        using last_high_snoc[OF I(8)[OF l], of ?x] by (simp del: upt_Suc add: h_def)
      then show ?thesis unfolding A' using False by (simp del: upt_Suc add: F4)
    qed
  next
    fix y j assume y: "?x < y" "j < height ns0 y" "y < length ns0"
    have "y \<noteq> fst (?la ! j)" if "j < h" using inA(1)[of j] that h(2) y(1) by auto
    then have "lv (fst st1) y j = lv ?ns y j" by (auto simp: F3)
    then show "forward (lv (set_backward ?x (if k = 0 then None else Some k) (fst st1)) y j) = None" using I(6)[of y j] y by simp
  qed
qed

lemma bulk_links_inv:
  assumes "bulk_inv ns0 lvl 0 st" "len < length ns0"
    "\<forall>y \<in> {1 ..< length ns0}. 1 \<le> height ns0 y \<and> height ns0 y \<le> lvl"
  shows "bulk_inv ns0 lvl len (fold bulk_link [0 ..< len] st)"
  using assms(2)
proof (induction len)
  case 0 then show ?case using assms(1) by simp
next
  case (Suc k) then show ?case using bulk_link_inv[of ns0 lvl k] assms(3) by simp
qed

text \<open>The last pass only sets the spans of null links.\<close>

lemma fold_bulk_finish:
  assumes "\<forall>l < m. fst (lastAt ! l) < length ns \<and> l < height ns (fst (lastAt ! l)) \<and> forward (lv ns (fst (lastAt ! l)) l) = None"
  shows "same_nodes ns (fold (bulk_finish len lastAt) [0 ..< m] ns) \<and>
    (\<forall>y j. forward (lv (fold (bulk_finish len lastAt) [0 ..< m] ns) y j) = forward (lv ns y j) \<and>
       (forward (lv ns y j) \<noteq> None \<longrightarrow> lv (fold (bulk_finish len lastAt) [0 ..< m] ns) y j = lv ns y j))"
  using assms
proof (induction m)
  case (Suc m)
  define n where "n = fold (bulk_finish len lastAt) [0 ..< m] ns"
  have n: "same_nodes ns n" "\<And>y j. forward (lv n y j) = forward (lv ns y j)"
    "\<And>y j. forward (lv ns y j) \<noteq> None \<Longrightarrow> lv n y j = lv ns y j" using Suc by (simp_all add: n_def)
  have pre: "fst (lastAt ! m) < length n" "m < height n (fst (lastAt ! m))" "forward (lv ns (fst (lastAt ! m)) m) = None"
    using n(1) Suc.prems by (auto simp: same_nodes_def)
  have step: "fold (bulk_finish len lastAt) [0 ..< Suc m] ns = set_lv (fst (lastAt ! m)) m
      ((lv n (fst (lastAt ! m)) m)\<lparr>span := (if snd (lastAt ! m) = - 1 then int len else 0)\<rparr>) n"
    by (simp add: n_def[symmetric] bulk_finish_def Let_def)
  show ?case
    unfolding step lv_set_lv[OF pre(1,2)] using same_nodes_set_lv[OF n(1)] pre(3) n(2,3) by auto
qed simp

lemma chain_null_spans:
  assumes "chain_ok ns zs" "height ns' = height ns" "\<And>y j. forward (lv ns' y j) = forward (lv ns y j)"
    "\<And>y j. forward (lv ns y j) \<noteq> None \<Longrightarrow> lv ns' y j = lv ns y j"
  shows "chain_ok ns' zs"
  unfolding chain_ok_def
proof (intro allI impI)
  fix us y vs i assume zs: "zs = us @ y # vs" and i: "i < height ns' y"
  have "link_ok ns i y vs" using chain_okD[of ns us y vs i] assms(1,2) zs i by simp
  then show "link_ok ns' i y vs"
    using assms(3,4)[of y i] find_high_iff[of i "height ns" vs] unfolding link_ok_def assms(2) by auto
qed

lemma bulk_entries:
  assumes "\<And>a b. sameEntry cmpK cmpV a b = (a = b)"
  shows "map sn_entry (bulk_nodes cmpK cmpV i (Some p) es) = map Some (tl (remdups_adj (p # es)))"
    "map sn_entry (bulk_nodes cmpK cmpV i None es) = map Some (remdups_adj es)"
proof -
  show first: "map sn_entry (bulk_nodes cmpK cmpV i (Some p) es) = map Some (tl (remdups_adj (p # es)))" for i p es
    by (induction es arbitrary: i p) (auto simp: repeats_def assms new_node_def remdups_adj_Cons split: list.splits)
  have "remdups_adj (e # es') = e # tl (remdups_adj (e # es'))" for e and es' :: "('a \<times> 'b) list"
    by (simp add: remdups_adj_Cons split: list.splits)
  then have head: "map Some (remdups_adj (e # es')) = Some e # map Some (tl (remdups_adj (e # es')))"
    for e and es' :: "('a \<times> 'b) list" using list.simps(9) by metis
  show "map sn_entry (bulk_nodes cmpK cmpV i None es) = map Some (remdups_adj es)"
  proof (cases es)
    case (Cons e es')
    show ?thesis unfolding Cons head by (simp add: repeats_def new_node_def first)
  qed simp
qed

context entry_order begin

lemma in_sequence_remdups: "in_sequence es \<Longrightarrow> in_sequence (remdups_adj es)"
  unfolding in_sequence_def
  by (induction es rule: remdups_adj.induct) auto

lemma bulkLoad_shows: "\<exists>ys. shows_entries ys (bulkLoad cmpK cmpV es) (remdups_adj es)"
proof (cases "es = []")
  case True
  then show ?thesis using empty_shows by (auto simp: bulkLoad_def)
next
  case False
  define nodes where "nodes = bulk_nodes cmpK cmpV 0 None es"
  define len where "len = length nodes"
  define lvl where "lvl = fold (\<lambda>node l. max (length (levels node)) l) nodes 1"
  define ns0 where "ns0 = new_node None MAX_LEVEL # nodes"
  define st where "st = fold bulk_link [0 ..< len] (ns0, replicate lvl (0, - 1))"
  define ns where "ns = fold (bulk_finish len (snd st)) [0 ..< lvl] (fst st)"
  have s: "bulkLoad cmpK cmpV es = \<lparr>sl_nodes = ns, sl_tail = Some len, sl_length = int len, sl_level = lvl\<rparr>"
    using False by (simp add: bulkLoad_def Let_def nodes_def len_def lvl_def ns0_def st_def ns_def empty_skiplist_def case_prod_beta)
  have entries: "map sn_entry nodes = map Some (remdups_adj es)"
    unfolding nodes_def by (rule bulk_entries(2)[OF sameEntry_iff])
  have len: "length ns0 = Suc len" "0 < len" using False arg_cong[OF entries, of length] by (simp_all add: ns0_def len_def)
  have new: "\<exists>e h. node = new_node (Some e) h \<and> 1 \<le> h \<and> h \<le> MAX_LEVEL" if "node \<in> set nodes" for node
    using bulk_nodes_new that by (fastforce simp: nodes_def)
  have at: "ns0 ! y \<in> set nodes" if "y \<in> {1 ..< length ns0}" for y
    using that by (cases y) (auto simp: ns0_def len_def)
  have "length (levels node) \<le> MAX_LEVEL" if "node \<in> set nodes" for node
    using new[OF that] by (auto simp: new_node_def)
  then have lvl: "1 \<le> lvl" "lvl \<le> MAX_LEVEL"
    using fold_max_height(1)[of 1 nodes] fold_max_height(3)[of 1 MAX_LEVEL nodes]
    by (simp_all add: lvl_def MAX_LEVEL_def)
  have heights: "\<forall>y \<in> {1 ..< length ns0}. 1 \<le> height ns0 y \<and> height ns0 y \<le> lvl"
  proof
    fix y assume y: "y \<in> {1 ..< length ns0}"
    obtain e h where "ns0 ! y = new_node (Some e) h" "1 \<le> h" using new[OF at[OF y]] by blast
    moreover have "height ns0 y \<le> lvl" using fold_max_height(2)[OF at[OF y]] by (simp add: height_def lvl_def)
    ultimately show "1 \<le> height ns0 y \<and> height ns0 y \<le> lvl" by (simp add: height_def new_node_def)
  qed
  have head: "height ns0 0 = MAX_LEVEL" by (simp add: ns0_def height_def new_node_def)
  have fresh: "forward (lv ns0 y j) = None" if "y < length ns0" "j < height ns0 y" for y j
  proof (cases y)
    case 0 then show ?thesis using that by (simp add: ns0_def lv_def height_def new_node_def)
  next
    case (Suc k)
    then obtain e h where "ns0 ! y = new_node (Some e) h" using new[OF at[of y]] \<open>y < length ns0\<close> by auto
    then show ?thesis using that(2) by (simp add: lv_def height_def new_node_def)
  qed
  have "bulk_inv ns0 lvl 0 (ns0, replicate lvl (0, - 1))"
  proof -
    have "chain_ok ns0 [0]" using fresh len by (auto simp: chain_ok_def Cons_eq_append_conv link_ok_def)
    moreover have "last_high ns0 l [0] (0, 0)" if "l < lvl" for l using that head lvl(2) last_high_header[of "[]" ns0 l] by simp
    ultimately show ?thesis using fresh by (simp add: bulk_inv_def)
  qed
  then have inv: "bulk_inv ns0 lvl len st"
    unfolding st_def by (rule bulk_links_inv[OF _ _ heights]) (simp add: len)
  note I = bulk_invD[OF inv]
  have lh: "last_high (fst st) l (0 # [1 ..< Suc len]) (fst (snd st ! l), snd (snd st ! l) + 1)" if "l < lvl" for l
    using I(8)[OF that] last_high_heights[OF I(2)] by blast
  have "\<forall>l < lvl. fst (snd st ! l) < length (fst st) \<and> l < height (fst st) (fst (snd st ! l)) \<and>
      forward (lv (fst st) (fst (snd st ! l)) l) = None"
  proof (intro allI impI)
    fix l assume l: "l < lvl"
    have "fst (snd st ! l) \<in> set (0 # [1 ..< Suc len])" "l < height (fst st) (fst (snd st ! l))"
      using last_high_in[OF lh[OF l]] by simp_all
    moreover from this have "fst (snd st ! l) \<le> len" by auto
    moreover have "forward (lv (fst st) (fst (snd st ! l)) l) = None" using last_high_null[OF I(4) lh[OF l]] by simp
    ultimately show "fst (snd st ! l) < length (fst st) \<and> l < height (fst st) (fst (snd st ! l)) \<and>
      forward (lv (fst st) (fst (snd st ! l)) l) = None" using I(1) len by simp
  qed
  note F = fold_bulk_finish[OF this, of len, folded ns_def]
  have F1: "length ns = Suc len" "height ns = height ns0" "entry_at ns y = entry_at ns0 y" "back_at ns y = back_at (fst st) y" for y
    using F I(1-3) len by (auto simp: same_nodes_def)
  have chain: "chain_ok ns (0 # [1 ..< Suc len])"
    by (rule chain_null_spans[OF I(4)]) (use F F1(2) I(2) in \<open>auto\<close>)
  have back_links: "back_ok ns None [1 ..< Suc len]" using I(5) back_ok_cong[of "[1 ..< Suc len]" ns "fst st"] F1(4) by simp
  have map_entries: "map (entry_at ns) [1 ..< Suc len] = map Some (remdups_adj es)"
  proof -
    have "map (entry_at ns) [1 ..< Suc len] = map (\<lambda>k. sn_entry (nodes ! k)) [0 ..< len]"
      unfolding One_nat_def map_Suc_upt[symmetric] by (simp add: F1(3) ns0_def del: upt_Suc)
    also have "\<dots> = map sn_entry (map ((!) nodes) [0 ..< len])" by simp
    also have "\<dots> = map sn_entry nodes" by (simp only: len_def map_nth)
    finally show ?thesis using entries by simp
  qed
  have "nodes_ok ns lvl [1 ..< Suc len]"
    unfolding nodes_ok_def
  proof (intro conjI ballI)
    show "distinct (0 # [1 ..< Suc len])" by simp
    show "set (0 # [1 ..< Suc len]) \<subseteq> {..< length ns}" using F1(1) by auto
    show "height ns 0 = MAX_LEVEL" using F1(2) head by simp
    show "1 \<le> lvl" "lvl \<le> MAX_LEVEL" by (rule lvl)+
    fix y assume y: "y \<in> set [1 ..< Suc len]"
    then have y': "y \<in> {1 ..< length ns0}" using len by auto
    then show "1 \<le> height ns y" "height ns y \<le> lvl" using heights F1(2) by auto
    show "entry_at ns y \<noteq> None" using new[OF at[OF y']] F1(3)[of y] by (auto simp: new_node_def)
  qed
  moreover have "last_of [1 ..< Suc len] = Some len" using len(2) by (simp add: last_of_def)
  ultimately have "skip_inv [1 ..< Suc len] (bulkLoad cmpK cmpV es)"
    unfolding skip_inv_def s using chain back_links by (simp del: upt_Suc)
  then show ?thesis unfolding shows_entries_def s using map_entries by (intro exI[of _ "[1 ..< Suc len]"]) (simp del: upt_Suc)
qed

lemma run_shows:
  obtains ys s where "skip_run cmpK cmpV ops empty_skiplist = Some s" "shows_entries ys s (ref_run below ops [])"
    "in_sequence (ref_run below ops [])"
  using run_refines[OF empty_shows, of ops] by (auto simp: in_sequence_def)

end

section \<open>Properties\<close>

abbreviation number_order :: "rat \<times> string \<Rightarrow> rat \<times> string \<Rightarrow> bool" where
  "number_order \<equiv> nodeLess cmpNumber cmpString"

abbreviation string_order :: "string \<times> string \<Rightarrow> string \<times> string \<Rightarrow> bool" where
  "string_order \<equiv> nodeLess cmpString cmpString"


text \<open>
  C18. The skip list refines a sorted list: from the empty list, any sequence of insertions (with any random
  levels) and deletions returns, and what it leaves, read in order, is exactly the reference's list, in order
  of keys and then values. An entry inserted twice is there twice.
\<close>
theorem skip_list_refines:
  "(\<exists>s. skip_run cmpNumber cmpString ops empty_skiplist = Some s \<and> toArray s = Some (ref_run number_order ops []) \<and>
      sorted_wrt (\<lambda>a b. \<not> number_order b a) (ref_run number_order ops [])) \<and>
   (\<exists>s. skip_run cmpString cmpString ops' empty_skiplist = Some s \<and> toArray s = Some (ref_run string_order ops' []) \<and>
      sorted_wrt (\<lambda>a b. \<not> string_order b a) (ref_run string_order ops' [])) \<and>
   ref_run number_order [OpInsert draws e, OpInsert draws' e] [] = [e, e]"
proof (intro conjI)
  show "\<exists>s. skip_run cmpNumber cmpString ops empty_skiplist = Some s \<and> toArray s = Some (ref_run number_order ops []) \<and>
      sorted_wrt (\<lambda>a b. \<not> number_order b a) (ref_run number_order ops [])"
    using numbers.run_shows[of ops] numbers.toArray_refines unfolding numbers.in_sequence_def by metis
  show "\<exists>s. skip_run cmpString cmpString ops' empty_skiplist = Some s \<and> toArray s = Some (ref_run string_order ops' []) \<and>
      sorted_wrt (\<lambda>a b. \<not> string_order b a) (ref_run string_order ops' [])"
    using strings.run_shows[of ops'] strings.toArray_refines unfolding strings.in_sequence_def by metis
qed (simp add: numbers.below_irrefl)

text \<open>
  The spans count: after any sequence of operations, the node at a rank is the entry at that position, and
  the rank of an entry is the position of its last occurrence, found exactly if it is there.
\<close>
theorem skip_list_ranks:
  "\<exists>s. skip_run cmpNumber cmpString ops empty_skiplist = Some s \<and>
     (\<forall>r. getByRank r s = Some (if 0 \<le> r \<and> r < int (length (ref_run number_order ops []))
        then Some (ref_run number_order ops [] ! nat r) else None)) \<and>
     (\<forall>e. getRank cmpNumber cmpString e s = Some (if e \<in> set (ref_run number_order ops [])
        then Some (int (length (filter (\<lambda>f. \<not> number_order e f) (ref_run number_order ops []))) - 1) else None))"
proof -
  obtain ys s where s: "skip_run cmpNumber cmpString ops empty_skiplist = Some s"
    "shows_entries ys s (ref_run number_order ops [])" "numbers.in_sequence (ref_run number_order ops [])"
    by (rule numbers.run_shows)
  then show ?thesis using getByRank_refines[OF s(2)] numbers.getRank_refines[OF s(2,3)] by blast
qed

text \<open>
  C19. A range query with at most one lower and one upper bound returns exactly the page (offset and count) of
  the entries within its bounds, in order or in reverse, and a consumer of the lazy variant that takes \<open>n\<close>
  entries gets the first \<open>n\<close> of them.
\<close>
theorem skip_range_exact:
  assumes "skip_run cmpNumber cmpString ops empty_skiplist = Some s"
    and "r_gte opts = None \<or> r_gt opts = None" "r_lte opts = None \<or> r_lt opts = None"
  shows "skip_range cmpNumber opts s = Some (page (or_zero (r_offset opts)) (r_count opts)
      ((if r_reverse opts then rev else id) (filter (\<lambda>e. in_bounds cmpNumber opts (fst e)) (ref_run number_order ops [])))) \<and>
    skip_iterate cmpNumber opts n s = Some (take n (page (or_zero (r_offset opts)) (r_count opts)
      ((if r_reverse opts then rev else id) (filter (\<lambda>e. in_bounds cmpNumber opts (fst e)) (ref_run number_order ops [])))))"
proof -
  obtain ys where s: "shows_entries ys s (ref_run number_order ops [])" "numbers.in_sequence (ref_run number_order ops [])"
    using numbers.run_shows[of ops] assms(1) by (metis option.inject)
  have "range_page cmpNumber opts es = page (or_zero (r_offset opts)) (r_count opts)
      ((if r_reverse opts then rev else id) (filter (\<lambda>e. in_bounds cmpNumber opts (fst e)) es))" for es :: "(rat \<times> string) list"
    using one_bound_each(1)[of opts, OF assms(2)] one_bound_each(2)[of opts, OF assms(3)]
    by (simp add: range_page_def in_bounds_def conj_commute)
  then show ?thesis using numbers.range_refines[OF s] by simp
qed

text \<open>
  With two lower bounds the directions disagree: forwards, \<open>gt\<close> only makes the bound \<open>gte\<close> strict and its own
  value is ignored; in reverse both bounds hold.
\<close>
theorem skip_range_two_lower_bounds:
  assumes "skip_run cmpNumber cmpString ops empty_skiplist = Some s"
    and "opts = \<lparr>r_gte = Some a, r_gt = Some b, r_lte = None, r_lt = None, r_offset = None, r_count = None, r_reverse = False\<rparr>"
  shows "skip_range cmpNumber opts s = Some (filter (\<lambda>e. a < fst e) (ref_run number_order ops [])) \<and>
    skip_range cmpNumber (opts\<lparr>r_reverse := True\<rparr>) s =
      Some (rev (filter (\<lambda>e. a \<le> fst e \<and> b < fst e) (ref_run number_order ops [])))"
proof -
  obtain ys where s: "shows_entries ys s (ref_run number_order ops [])" "numbers.in_sequence (ref_run number_order ops [])"
    using numbers.run_shows[of ops] assms(1) by (metis option.inject)
  show ?thesis
    using numbers.range_refines(1)[OF s, of opts] numbers.range_refines(1)[OF s, of "opts\<lparr>r_reverse := True\<rparr>"] assms(2)
    by (simp add: range_page_def page_def or_zero_def lower_hit_def upper_hit_def lower_stop_def upper_stop_def holds_def
      cmpNumber_def not_less not_le)
qed

text \<open>
  A list loaded in bulk from entries in order behaves as one built by insertions: after any operations it
  holds what the reference holds that starts from the entries without adjacent repetitions.
\<close>
theorem bulkLoad_refines:
  assumes "sorted_wrt (\<lambda>a b. \<not> number_order b a) es"
  shows "\<exists>s. skip_run cmpNumber cmpString ops (bulkLoad cmpNumber cmpString es) = Some s \<and>
    toArray s = Some (ref_run number_order ops (remdups_adj es)) \<and>
    (\<forall>r. getByRank r s = Some (if 0 \<le> r \<and> r < int (length (ref_run number_order ops (remdups_adj es)))
        then Some (ref_run number_order ops (remdups_adj es) ! nat r) else None))"
proof -
  have "numbers.in_sequence (remdups_adj es)"
    using assms numbers.in_sequence_remdups[of es] by (simp add: numbers.in_sequence_def)
  then obtain ys s where s: "skip_run cmpNumber cmpString ops (bulkLoad cmpNumber cmpString es) = Some s"
    "shows_entries ys s (ref_run number_order ops (remdups_adj es))"
    using numbers.bulkLoad_shows[of es] numbers.run_refines by blast
  then show ?thesis using numbers.toArray_refines[OF s(2)] getByRank_refines[OF s(2)] by blast
qed

section \<open>Witnesses\<close>

definition demo_ops :: "(rat, string) skip_op list" where
  "demo_ops = [OpInsert (\<lambda>n. 1) (5, ''a''), OpInsert (\<lambda>n. if n < 2 then 0 else 1) (1, ''b''), OpInsert (\<lambda>n. 1) (3, ''c'')]"

lemma demo_run: "\<exists>s. skip_run cmpNumber cmpString demo_ops empty_skiplist = Some s"
  using numbers.run_shows[of demo_ops] by metis

lemma demo_ref: "ref_run number_order demo_ops [] = [(1, ''b''), (3, ''c''), (5, ''a'')]"
  by (simp add: demo_ops_def nodeLess_def cmpNumber_def)

definition demo_options :: "rat range_options" where
  "demo_options = \<lparr>r_gte = None, r_gt = Some 1, r_lte = Some 5, r_lt = None, r_offset = None, r_count = None, r_reverse = True\<rparr>"

lemma skip_range_exact_witness:
  "\<exists>s. skip_run cmpNumber cmpString demo_ops empty_skiplist = Some s \<and>
     skip_range cmpNumber demo_options s = Some [(5, ''a''), (3, ''c'')]"
proof -
  obtain s where s: "skip_run cmpNumber cmpString demo_ops empty_skiplist = Some s" using demo_run by blast
  show ?thesis
    using skip_range_exact[OF s, of demo_options 0] s
    by (simp add: demo_ref demo_options_def page_def or_zero_def in_bounds_def lower_stop_def upper_stop_def holds_def cmpNumber_def)
qed

lemma skip_range_two_lower_bounds_witness:
  "\<exists>s. skip_run cmpNumber cmpString demo_ops empty_skiplist = Some s \<and>
     skip_range cmpNumber \<lparr>r_gte = Some 1, r_gt = Some 4, r_lte = None, r_lt = None, r_offset = None, r_count = None,
       r_reverse = False\<rparr> s = Some [(3, ''c''), (5, ''a'')]"
proof -
  obtain s where s: "skip_run cmpNumber cmpString demo_ops empty_skiplist = Some s" using demo_run by blast
  show ?thesis using skip_range_two_lower_bounds[OF s refl, of 1 4] s by (simp add: demo_ref)
qed

lemma bulkLoad_refines_witness:
  "\<exists>s. skip_run cmpNumber cmpString [OpDelete (2, ''b'')] (bulkLoad cmpNumber cmpString [(1, ''a''), (2, ''b''), (2, ''b'')]) = Some s \<and>
     toArray s = Some [(1, ''a'')]"
  using bulkLoad_refines[of "[(1, ''a''), (2, ''b''), (2, ''b'')]" "[OpDelete (2, ''b'')]"]
  by (simp add: nodeLess_def cmpNumber_def cmpString_def) blast

end
