(* ===== verification/Paths.thy ===== *)
theory Paths imports Scheduler begin

text \<open>
  The path policy of the file tools (\<^verbatim>\<open>tool/path-access.ts\<close>) and the matching of rule subjects
  (\<^verbatim>\<open>tool/rule-match.ts\<close>).

  The packages \<open>pathe\<close> and \<open>picomatch\<close> are parameters: a record of the path functions the code uses, and a
  function that answers whether a value matches a glob or throws, as \<open>picomatch\<close> does on an empty pattern.
  The theorems say which of their documented laws they need. The default path class of the process is an
  explicit argument wherever the code lets it default.
\<close>

section \<open>Strings and errors\<close>

text \<open>What is thrown: the cancellation by the user is told apart from every other error.\<close>

datatype js_error = UserCancellation | Thrown string

abbreviation js_lowercase :: "string \<Rightarrow> string" where "js_lowercase \<equiv> map js_lower"

definition ascii_letter :: "char \<Rightarrow> bool" where
  "ascii_letter c = (let n = (of_char c :: nat) in 65 \<le> n \<and> n \<le> 90 \<or> 97 \<le> n \<and> n \<le> 122)"

definition ascii_upper :: "char \<Rightarrow> char" where
  "ascii_upper c = (let n = (of_char c :: nat) in if 97 \<le> n \<and> n \<le> 122 then char_of (n - 32) else c)"

fun js_includes :: "string \<Rightarrow> string \<Rightarrow> bool" where
  "js_includes p [] \<longleftrightarrow> p = []"
| "js_includes p (c # s) \<longleftrightarrow> prefix p (c # s) \<or> js_includes p s"

text \<open>\<open>xs.some(f)\<close> and a loop that returns at the first hit, for a test that may throw.\<close>

fun esome :: "('a \<Rightarrow> 'e + bool) \<Rightarrow> 'a list \<Rightarrow> 'e + bool" where
  "esome f [] = Inr False"
| "esome f (x # xs) = ebind (f x) (\<lambda>hit. if hit then Inr True else esome f xs)"

lemma esome_total: "(\<And>x. x \<in> set xs \<Longrightarrow> f x = Inr (P x)) \<Longrightarrow> esome f xs = Inr (\<exists>x \<in> set xs. P x)"
  by (induction xs) auto

section \<open>Sensitive files\<close>

record pathe =
  pt_basename :: "string \<Rightarrow> string"
  pt_normalize :: "string \<Rightarrow> string"
  pt_isAbsolute :: "string \<Rightarrow> bool"
  pt_resolve :: "string \<Rightarrow> string \<Rightarrow> string"
  pt_join :: "string \<Rightarrow> string \<Rightarrow> string"
  pt_root :: "string \<Rightarrow> string"

definition SENSITIVE_BASENAMES :: "string list" where
  "SENSITIVE_BASENAMES = [''.env'', ''id_rsa'', ''id_ed25519'', ''id_ecdsa'', ''credentials'']"

definition SENSITIVE_PATH_SUFFIXES :: "string list list" where
  "SENSITIVE_PATH_SUFFIXES = [[''.aws'', ''credentials''], [''.gcp'', ''credentials'']]"

definition ENV_PREFIX :: string where "ENV_PREFIX = ''.env.''"

definition ENV_EXEMPTIONS :: "string list" where
  "ENV_EXEMPTIONS = [''.env.example'', ''.env.sample'', ''.env.template'']"

definition SENSITIVE_BASENAME_PREFIXES :: "string list" where
  "SENSITIVE_BASENAME_PREFIXES = [''id_rsa'', ''id_ed25519'', ''id_ecdsa'', ''credentials'']"

definition PUBLIC_KEY_BASENAMES :: "string list" where
  "PUBLIC_KEY_BASENAMES = [''id_rsa.pub'', ''id_ed25519.pub'', ''id_ecdsa.pub'']"

definition SENSITIVE_DOT_VARIANT_SUFFIXES :: "string list" where
  "SENSITIVE_DOT_VARIANT_SUFFIXES =
     [''.bak'', ''.backup'', ''.copy'', ''.disabled'', ''.key'', ''.old'', ''.orig'', ''.pem'', ''.save'', ''.tmp'']"

definition sensitive_variant :: "string \<Rightarrow> string \<Rightarrow> bool" where
  "sensitive_variant name pre \<longleftrightarrow>
     name = pre \<or>
     length name > length pre \<and> prefix pre name \<and>
     (let suf = drop (length pre) name; nxt = hd suf in
      nxt = CHR ''-'' \<or> nxt = CHR ''_'' \<or> nxt = CHR ''.'' \<and> suf \<in> set SENSITIVE_DOT_VARIANT_SUFFIXES)"

definition sensitive_location :: "string \<Rightarrow> string list \<Rightarrow> bool" where
  "sensitive_location comparablePath suffixParts =
     (let comparableSuffix = js_lowercase (js_join ''/'' suffixParts) in
      suffix (''/'' @ comparableSuffix) comparablePath \<or>
      js_includes (''/'' @ comparableSuffix @ ''/'') comparablePath)"

definition isSensitiveFile :: "pathe \<Rightarrow> string \<Rightarrow> bool" where
  "isSensitiveFile pt path =
     (let comparableName = js_lowercase (pt_basename pt path); comparablePath = js_lowercase path in
      if comparableName \<in> set ENV_EXEMPTIONS then False
      else if comparableName \<in> set PUBLIC_KEY_BASENAMES then False
      else if comparableName \<in> set SENSITIVE_BASENAMES then True
      else if prefix ENV_PREFIX comparableName then True
      else if list_ex (sensitive_variant comparableName) SENSITIVE_BASENAME_PREFIXES then True
      else list_ex (sensitive_location comparablePath) SENSITIVE_PATH_SUFFIXES)"

section \<open>Canonical paths\<close>

datatype path_class = Posix | Win32
datatype path_security_code = PATH_OUTSIDE_WORKSPACE | PATH_SENSITIVE | PATH_INVALID
datatype path_operation = PRead | PWrite | PSearch
datatype guard_mode = AbsoluteOutsideAllowed | GuardDisabled

record workspace_config =
  workspaceDir :: string
  additionalDirs :: "string list"

record workspace_policy =
  guardMode :: guard_mode
  checkSensitive :: bool

definition DEFAULT_WORKSPACE_ACCESS_POLICY :: workspace_policy where
  "DEFAULT_WORKSPACE_ACCESS_POLICY = \<lparr>guardMode = AbsoluteOutsideAllowed, checkSensitive = True\<rparr>"

record path_access =
  pa_path :: string
  pa_outside :: bool

record path_error =
  pe_code :: path_security_code
  pe_rawPath :: string
  pe_canonicalPath :: string
  pe_message :: string

text \<open>A drive letter after \<open>pre\<close>, then the end or a slash; \<open>X:\<close> at the end or before something else.\<close>

definition drive_match :: "string \<Rightarrow> string \<Rightarrow> (char \<times> string) option" where
  "drive_match pre path =
     (if prefix pre path then
        (case drop (length pre) path of
           c # rest \<Rightarrow> if ascii_letter c \<and> (rest = [] \<or> hd rest = CHR ''/'') then Some (c, rest) else None
         | [] \<Rightarrow> None)
      else None)"

definition drive_path :: "char \<Rightarrow> string \<Rightarrow> string" where
  "drive_path c rest = [ascii_upper c] @ '':'' @ (if rest = [] then ''/'' else rest)"

definition isWin32DriveRelative :: "string \<Rightarrow> bool" where
  "isWin32DriveRelative path =
     (case path of
        c # d # rest \<Rightarrow> ascii_letter c \<and> d = CHR '':'' \<and> (rest = [] \<or> hd rest \<noteq> backslash \<and> hd rest \<noteq> CHR ''/'')
      | _ \<Rightarrow> False)"

definition normalizeUserPath :: "string \<Rightarrow> path_class \<Rightarrow> string" where
  "normalizeUserPath path cls =
     (if cls \<noteq> Win32 then path
      else if path = ''/'' then ''/''
      else if prefix ''//'' path then path
      else case drive_match ''/cygdrive/'' path of
             Some (c, rest) \<Rightarrow> drive_path c rest
           | None \<Rightarrow> (case drive_match ''/'' path of Some (c, rest) \<Rightarrow> drive_path c rest | None \<Rightarrow> path))"

definition expandUserPath :: "pathe \<Rightarrow> string \<Rightarrow> string option \<Rightarrow> path_class \<Rightarrow> string" where
  "expandUserPath pt path homeDir cls =
     (case homeDir of
        None \<Rightarrow> path
      | Some home \<Rightarrow>
          if path = ''~'' then home
          else if prefix ''~/'' path \<or> cls = Win32 \<and> prefix (''~'' @ [backslash]) path
          then pt_join pt home (drop 2 path)
          else path)"

definition canonicalizePath :: "pathe \<Rightarrow> string \<Rightarrow> string \<Rightarrow> path_class \<Rightarrow> path_error + string" where
  "canonicalizePath pt path cwd cls =
     (if path = [] then
        Inl \<lparr>pe_code = PATH_INVALID, pe_rawPath = path, pe_canonicalPath = path, pe_message = ''Path cannot be empty''\<rparr>
      else
        let normalizedPath = normalizeUserPath path cls in
        if cls = Win32 \<and> isWin32DriveRelative normalizedPath then
          Inl \<lparr>pe_code = PATH_INVALID, pe_rawPath = path, pe_canonicalPath = normalizedPath,
               pe_message = [char_of (34 :: nat)] @ path @ [char_of (34 :: nat)] @
                 '' is a drive-relative Windows path. Use an absolute path like C:'' @ [backslash] @
                 ''path or a path relative to the working directory.''\<rparr>
        else if \<not> pt_isAbsolute pt normalizedPath \<and> \<not> pt_isAbsolute pt cwd then
          Inl \<lparr>pe_code = PATH_INVALID, pe_rawPath = path, pe_canonicalPath = normalizedPath,
               pe_message = ''Cannot resolve '' @ [char_of (34 :: nat)] @ path @ [char_of (34 :: nat)] @
                 '' against non-absolute cwd '' @ [char_of (34 :: nat)] @ cwd @ [char_of (34 :: nat)] @ ''.''\<rparr>
        else
          Inr (pt_normalize pt
            (if pt_isAbsolute pt normalizedPath then normalizedPath else pt_resolve pt cwd normalizedPath)))"

section \<open>Containment\<close>

definition comparable_path :: "path_class \<Rightarrow> string \<Rightarrow> string" where
  "comparable_path cls p = (if cls = Win32 then js_lowercase p else p)"

definition isWithinDirectory :: "pathe \<Rightarrow> string \<Rightarrow> string \<Rightarrow> path_class \<Rightarrow> bool" where
  "isWithinDirectory pt candidate base cls =
     (let comparableCandidate = comparable_path cls (pt_normalize pt candidate);
          comparableBase = comparable_path cls (pt_normalize pt base)
      in comparableCandidate = comparableBase \<or> prefix (path_prefix comparableBase) comparableCandidate)"

definition isWithinWorkspace :: "pathe \<Rightarrow> string \<Rightarrow> workspace_config \<Rightarrow> path_class \<Rightarrow> bool" where
  "isWithinWorkspace pt candidate config cls \<longleftrightarrow>
     isWithinDirectory pt candidate (workspaceDir config) cls \<or>
     list_ex (\<lambda>dir. isWithinDirectory pt candidate dir cls) (additionalDirs config)"

fun skill_dirs :: "pathe \<Rightarrow> string \<Rightarrow> path_class \<Rightarrow> string list \<Rightarrow> string list \<Rightarrow> string list" where
  "skill_dirs pt wd cls dirs [] = dirs"
| "skill_dirs pt wd cls dirs (root # roots) =
     (if isWithinDirectory pt root wd cls then skill_dirs pt wd cls dirs roots
      else if list_ex (\<lambda>dir. isWithinDirectory pt root dir cls) dirs then skill_dirs pt wd cls dirs roots
      else skill_dirs pt wd cls (dirs @ [root]) roots)"

definition extendWorkspaceWithSkillRoots ::
  "pathe \<Rightarrow> 'a workspace_config_scheme \<Rightarrow> string list \<Rightarrow> path_class \<Rightarrow> 'a workspace_config_scheme" where
  "extendWorkspaceWithSkillRoots pt workspace skillRoots cls =
     (let dirs = skill_dirs pt (workspaceDir workspace) cls (additionalDirs workspace) skillRoots in
      if length dirs = length (additionalDirs workspace) then workspace
      else workspace\<lparr>additionalDirs := dirs\<rparr>)"

section \<open>Access\<close>

definition relativeOutsideMessage :: "string \<Rightarrow> path_operation \<Rightarrow> string" where
  "relativeOutsideMessage path operation =
     (let verb = (if operation = PWrite then ''write or edit a file''
                  else if operation = PSearch then ''search'' else ''read a file'') in
      [char_of (34 :: nat)] @ path @ [char_of (34 :: nat)] @ '' is not an absolute path. '' @
      ''You must provide an absolute path to '' @ verb @ '' outside the working directory.'')"

record access_options =
  ao_operation :: path_operation
  ao_policy :: "workspace_policy option"
  ao_pathClass :: "path_class option"
  ao_homeDir :: "string option"

definition resolvePathAccess ::
  "pathe \<Rightarrow> path_class \<Rightarrow> string \<Rightarrow> string \<Rightarrow> workspace_config \<Rightarrow> access_options \<Rightarrow> path_error + path_access" where
  "resolvePathAccess pt defaultClass path cwd config options =
     (let cls = (case ao_pathClass options of None \<Rightarrow> defaultClass | Some c \<Rightarrow> c);
          expandedPath = expandUserPath pt (normalizeUserPath path cls) (ao_homeDir options) cls;
          rawIsAbsolute = pt_isAbsolute pt expandedPath
      in ebind (canonicalizePath pt expandedPath cwd cls) (\<lambda>canonical.
        let outsideWorkspace = (\<not> isWithinWorkspace pt canonical config cls);
            policy = (case ao_policy options of None \<Rightarrow> DEFAULT_WORKSPACE_ACCESS_POLICY | Some p \<Rightarrow> p)
        in if checkSensitive policy \<and> isSensitiveFile pt canonical then
             Inl \<lparr>pe_code = PATH_SENSITIVE, pe_rawPath = path, pe_canonicalPath = canonical,
                  pe_message = [char_of (34 :: nat)] @ path @ [char_of (34 :: nat)] @
                    '' matches a sensitive-file pattern (env / credential / SSH key). '' @
                    ''Access is blocked to protect secrets.''\<rparr>
           else if outsideWorkspace \<and> guardMode policy = AbsoluteOutsideAllowed \<and> \<not> rawIsAbsolute then
             Inl \<lparr>pe_code = PATH_OUTSIDE_WORKSPACE, pe_rawPath = path, pe_canonicalPath = canonical,
                  pe_message = relativeOutsideMessage path (ao_operation options)\<rparr>
           else Inr \<lparr>pa_path = canonical, pa_outside = outsideWorkspace\<rparr>))"

record host_paths =
  he_pathClass :: path_class
  he_homeDir :: string

definition resolvePathAccessPath ::
  "pathe \<Rightarrow> string \<Rightarrow> host_paths \<Rightarrow> workspace_config \<Rightarrow> path_operation \<Rightarrow> workspace_policy option \<Rightarrow> bool \<Rightarrow>
     path_error + string" where
  "resolvePathAccessPath pt path env workspace operation policy expandHome =
     ebind (resolvePathAccess pt (he_pathClass env) path (workspaceDir workspace) workspace
              \<lparr>ao_operation = operation, ao_policy = policy, ao_pathClass = Some (he_pathClass env),
               ao_homeDir = (if expandHome then Some (he_homeDir env) else None)\<rparr>)
       (\<lambda>a. Inr (pa_path a))"

definition assertPathAllowed ::
  "pathe \<Rightarrow> path_class \<Rightarrow> string \<Rightarrow> string \<Rightarrow> workspace_config \<Rightarrow> path_operation \<Rightarrow> bool option \<Rightarrow>
     path_class option \<Rightarrow> path_error + string" where
  "assertPathAllowed pt defaultClass path cwd config mode check cls =
     ebind (resolvePathAccess pt defaultClass path cwd config
              \<lparr>ao_operation = mode,
               ao_policy = Some \<lparr>guardMode = AbsoluteOutsideAllowed,
                                 checkSensitive = (case check of
                                     None \<Rightarrow> checkSensitive DEFAULT_WORKSPACE_ACCESS_POLICY | Some b \<Rightarrow> b)\<rparr>,
               ao_pathClass = cls, ao_homeDir = None\<rparr>)
       (\<lambda>a. Inr (pa_path a))"

section \<open>Rule subjects\<close>

type_synonym matcher = "bool \<Rightarrow> string \<Rightarrow> string \<Rightarrow> js_error + bool"

definition stripLeadingDotSlash :: "string \<Rightarrow> string" where
  "stripLeadingDotSlash v = (if prefix ''./'' v then drop 2 v else v)"

definition globMatch :: "matcher \<Rightarrow> bool \<Rightarrow> string \<Rightarrow> string \<Rightarrow> js_error + bool" where
  "globMatch pm nocase v pat =
     ebind (pm nocase v pat) (\<lambda>hit.
       if hit then Inr True
       else let normalizedValue = stripLeadingDotSlash v; normalizedPattern = stripLeadingDotSlash pat in
         if normalizedValue = v \<and> normalizedPattern = pat then Inr False
         else pm nocase normalizedValue normalizedPattern)"

record match_options =
  mo_cwd :: "string option"
  mo_pathClass :: "path_class option"
  mo_homeDir :: "string option"
  mo_nocase :: "bool option"

definition no_match_options :: match_options where
  "no_match_options = \<lparr>mo_cwd = None, mo_pathClass = None, mo_homeDir = None, mo_nocase = None\<rparr>"

definition windows_like :: "string \<Rightarrow> bool" where
  "windows_like s \<longleftrightarrow>
     (case s of
        c # d # rest \<Rightarrow> ascii_letter c \<and> d = CHR '':'' \<and> (rest = [] \<or> hd rest = backslash \<or> hd rest = CHR ''/'')
      | _ \<Rightarrow> False) \<or>
     prefix [backslash, backslash] s \<or> backslash \<in> set s"

definition pathMatchSemantics :: "string \<Rightarrow> string \<Rightarrow> match_options \<Rightarrow> path_class" where
  "pathMatchSemantics v pat opts =
     (case mo_pathClass opts of
        Some c \<Rightarrow> c
      | None \<Rightarrow> if list_ex windows_like [v, pat] then Win32 else Posix)"

definition expandPatternPath :: "pathe \<Rightarrow> string \<Rightarrow> path_class \<Rightarrow> string option \<Rightarrow> string" where
  "expandPatternPath pt v cls homeDir =
     (case homeDir of
        None \<Rightarrow> v
      | Some home \<Rightarrow>
          if v = ''~'' then home
          else if prefix ''~/'' v \<or> cls = Win32 \<and> prefix (''~'' @ [backslash]) v
          then pt_join pt home (drop 2 v)
          else v)"

definition defaultCwdForPath :: "pathe \<Rightarrow> string \<Rightarrow> string option" where
  "defaultCwdForPath pt v = (if pt_isAbsolute pt v then Some (pt_root pt v) else None)"

definition canonicalizePathPattern ::
  "pathe \<Rightarrow> string \<Rightarrow> path_class \<Rightarrow> match_options \<Rightarrow> string option" where
  "canonicalizePathPattern pt v cls opts =
     (let expanded = expandPatternPath pt v cls (mo_homeDir opts) in
      case (case mo_cwd opts of Some c \<Rightarrow> Some c | None \<Rightarrow> defaultCwdForPath pt expanded) of
        None \<Rightarrow> None
      | Some cwd \<Rightarrow> (case canonicalizePath pt expanded cwd cls of Inl _ \<Rightarrow> None | Inr p \<Rightarrow> Some p))"

definition addPathVariant :: "string list \<Rightarrow> string \<Rightarrow> path_class \<Rightarrow> string list" where
  "addPathVariant variants v cls =
     (let vs = os_add v variants in
      if cls = Win32 then os_add (map (\<lambda>c. if c = backslash then CHR ''/'' else c) v) vs else vs)"

definition stripLeadingDotPath :: "string \<Rightarrow> path_class \<Rightarrow> string" where
  "stripLeadingDotPath v cls =
     (if prefix ''./'' v then drop 2 v
      else if cls = Win32 \<and> prefix (''.'' @ [backslash]) v then drop 2 v
      else v)"

definition pathVariants :: "pathe \<Rightarrow> string \<Rightarrow> path_class \<Rightarrow> match_options \<Rightarrow> string list" where
  "pathVariants pt v cls opts =
     (let variants = addPathVariant (addPathVariant [] v cls) (stripLeadingDotPath v cls) cls in
      case canonicalizePathPattern pt v cls opts of
        None \<Rightarrow> variants
      | Some canonical \<Rightarrow> addPathVariant variants canonical cls)"

definition pathGlobMatch ::
  "matcher \<Rightarrow> pathe \<Rightarrow> string \<Rightarrow> string \<Rightarrow> match_options \<Rightarrow> js_error + bool" where
  "pathGlobMatch pm pt v pat opts =
     (let cls = pathMatchSemantics v pat opts;
          nocase = (case mo_nocase opts of None \<Rightarrow> True | Some b \<Rightarrow> b)
      in ebind (globMatch pm nocase v pat) (\<lambda>hit.
           if hit then Inr True
           else esome (\<lambda>valueVariant. esome (\<lambda>patternVariant. globMatch pm nocase valueVariant patternVariant)
                   (pathVariants pt pat cls opts))
                 (pathVariants pt v cls opts)))"

definition GLOB_LITERAL_SPECIAL :: string where
  "GLOB_LITERAL_SPECIAL = [backslash] @ ''*?[]{}()!+@|''"

definition escapeRuleSubjectLiteral :: "string \<Rightarrow> string" where
  "escapeRuleSubjectLiteral subject =
     concat (map (\<lambda>c. if c \<in> set GLOB_LITERAL_SPECIAL then [backslash, c] else [c]) subject)"

definition literalRulePattern :: "string \<Rightarrow> string \<Rightarrow> string" where
  "literalRulePattern toolName subject = toolName @ ''('' @ escapeRuleSubjectLiteral subject @ '')''"

definition matchRuleSubjects ::
  "string \<Rightarrow> string list \<Rightarrow> (string \<Rightarrow> string \<Rightarrow> js_error + bool) \<Rightarrow> js_error + bool" where
  "matchRuleSubjects ruleArgs subjects matchesPositivePattern =
     (if ruleArgs = [] then Inr True
      else
        let negated = prefix ''!'' ruleArgs;
            positivePattern = (if negated then drop 1 ruleArgs else ruleArgs)
        in ebind (esome (\<lambda>subject. matchesPositivePattern positivePattern subject) subjects)
             (\<lambda>hit. Inr (if negated then \<not> hit else hit)))"

definition matchesGlobRuleSubject :: "matcher \<Rightarrow> string \<Rightarrow> string \<Rightarrow> js_error + bool" where
  "matchesGlobRuleSubject pm ruleArgs subject =
     matchRuleSubjects ruleArgs [subject] (\<lambda>pat v. globMatch pm False v pat)"

definition matchesPathRuleSubject ::
  "matcher \<Rightarrow> pathe \<Rightarrow> string \<Rightarrow> string \<Rightarrow> match_options \<Rightarrow> js_error + bool" where
  "matchesPathRuleSubject pm pt ruleArgs subject opts =
     matchRuleSubjects ruleArgs [subject] (\<lambda>pat v. pathGlobMatch pm pt v pat opts)"

end
