(* ===== verification/Permissions.thy ===== *)
theory Permissions imports Paths begin

text \<open>
  Who may run a tool: the permission rules (\<^verbatim>\<open>agent/permissionRules\<close>), the mode (\<^verbatim>\<open>agent/permissionMode\<close>), the
  ordered policy chain (\<^verbatim>\<open>agent/permissionPolicy\<close> and its \<^verbatim>\<open>policies\<close>), the approval round trip
  (\<^verbatim>\<open>agent/toolApproval\<close>), the gate (\<^verbatim>\<open>agent/permissionGate\<close>) and the two-pass veto event it listens to
  (\<^verbatim>\<open>agent/toolExecutor/beforeToolExecuteEvent.ts\<close>).

  An effectful operation takes the log of what was published, recorded and sent so far and returns it extended,
  with its result or what it threw. A policy node awaits, so the state may change between two nodes: the chain
  reads the state of its i-th node from a sequence of states. The approval broker, the platform policy service,
  \<open>relative\<close> of \<^verbatim>\<open>node:path\<close> and the discovery of the git work tree are functions of the environment; an aborted
  approval request is a broker that throws.
\<close>

section \<open>Rules and mode\<close>

datatype permission_mode = Manual | Yolo | Auto
datatype rule_decision = DAllow | DDeny | DAsk
datatype rule_scope = TurnOverride | SessionRuntime | ProjectScope | UserScope

record permission_rule =
  pr_decision :: rule_decision
  pr_scope :: rule_scope
  pr_pattern :: string
  pr_reason :: "string option"

datatype approval_decision = Approved | Rejected | Cancelled

record approval_response =
  ar_decision :: approval_decision
  ar_session :: bool
  ar_feedback :: "string option"

record approval_record =
  ap_turnId :: nat
  ap_toolCallId :: string
  ap_toolName :: string
  ap_action :: string
  ap_sessionApprovalRule :: "string option"
  ap_result :: approval_response

record perm_state =
  ps_mode :: permission_mode
  ps_configured :: bool
  ps_rules :: "permission_rule list"
  ps_patterns :: "string list"

definition initial_perms :: perm_state where
  "initial_perms = \<lparr>ps_mode = Manual, ps_configured = False, ps_rules = [], ps_patterns = []\<rparr>"

datatype perm_op = SetMode permission_mode | AddRules "permission_rule list" | RecordApproval approval_record

definition addPermissionRules :: "permission_rule list \<Rightarrow> perm_state \<Rightarrow> perm_state" where
  "addPermissionRules rules s = (if rules = [] then s else s\<lparr>ps_rules := ps_rules s @ rules\<rparr>)"

definition recordApprovalResult :: "approval_record \<Rightarrow> perm_state \<Rightarrow> perm_state" where
  "recordApprovalResult p s =
     (case ap_sessionApprovalRule p of
        None \<Rightarrow> s
      | Some pat \<Rightarrow>
          if ar_decision (ap_result p) \<noteq> Approved \<or> \<not> ar_session (ap_result p) \<or> pat \<in> set (ps_patterns s) then s
          else s\<lparr>ps_patterns := ps_patterns s @ [pat]\<rparr>)"

fun perm_apply :: "perm_op \<Rightarrow> perm_state \<Rightarrow> perm_state" where
  "perm_apply (SetMode m) s = s\<lparr>ps_mode := m, ps_configured := True\<rparr>"
| "perm_apply (AddRules rs) s = addPermissionRules rs s"
| "perm_apply (RecordApproval r) s = recordApprovalResult r s"

text \<open>The operations that ride the persisted log: rules are live only.\<close>

fun perm_persisted :: "perm_op \<Rightarrow> bool" where
  "perm_persisted (AddRules _) = False"
| "perm_persisted _ = True"

text \<open>The mode service: the operation it dispatches, and whether it announces a change.\<close>

definition mode_service_set :: "permission_mode \<Rightarrow> perm_state \<Rightarrow> perm_state \<times> perm_op list \<times> bool" where
  "mode_service_set mode s =
     (let changed = (mode \<noteq> ps_mode s) in
      if \<not> changed \<and> ps_configured s then (s, [], False)
      else (perm_apply (SetMode mode) s, [SetMode mode], changed))"

definition service_addRules :: "permission_rule list \<Rightarrow> perm_state \<Rightarrow> perm_state \<times> perm_op list" where
  "service_addRules rules s = (if rules = [] then (s, []) else (perm_apply (AddRules rules) s, [AddRules rules]))"

section \<open>Calls and environment\<close>

record execution =
  ex_accesses :: "accesses option"
  ex_display :: "json option"
  ex_description :: "string option"
  ex_approvalRule :: string
  ex_matchesRule :: "(string \<Rightarrow> js_error + bool) option"

record tool_context =
  tc_turnId :: nat
  tc_callId :: string
  tc_name :: string
  tc_args :: json
  tc_execution :: execution

record git_work_tree =
  gw_root :: string
  gw_dotGitPath :: string
  gw_controlDirPath :: string

datatype capability = CapShell | CapFilesystem | CapNetwork | CapConnector | CapModel

record platform_request =
  pq_requestId :: string
  pq_capability :: capability
  pq_action :: string
  pq_toolName :: string

datatype platform_outcome = OutAllow | OutDeny | OutAsk

record platform_decision =
  pd_id :: string
  pd_outcome :: platform_outcome
  pd_reason :: string

record approval_request =
  aq_sessionId :: string
  aq_agentId :: string
  aq_turnId :: nat
  aq_toolCallId :: string
  aq_toolName :: string
  aq_action :: string
  aq_display :: json

record exec_result =
  xr_output :: string
  xr_isError :: bool

record before_decision =
  bd_veto :: "exec_result option"
  bd_metadata :: "json option"

datatype decision_kind = KApprove | KDeny | KAsk | KResult

datatype gate_event =
    PolicyDecided string decision_kind "(string \<times> json) list"
  | ApprovalRequested approval_request json
  | ApprovalFailed approval_request string
  | ApprovalResolved approval_request approval_response
  | ApprovalReported string bool bool
  | Dispatched perm_op
  | PlatformApprove string
  | PlatformDeny string string

record gate_env =
  ge_pm :: matcher
  ge_pathe :: pathe
  ge_relative :: "path_class \<Rightarrow> string \<Rightarrow> string \<Rightarrow> string"
  ge_pathClass :: path_class
  ge_workDir :: string
  ge_additionalDirs :: "string list"
  ge_findWorkTree :: "js_error + git_work_tree option"
  ge_platform :: "(platform_request \<Rightarrow> js_error + platform_decision) option"
  ge_broker :: "(approval_request \<Rightarrow> nat \<Rightarrow> js_error + approval_response) option"
  ge_sessionId :: string
  ge_agentId :: string

type_synonym 'a gate = "gate_event list \<Rightarrow> gate_event list \<times> (js_error + 'a)"

definition gret :: "'a \<Rightarrow> 'a gate" where "gret a = (\<lambda>l. (l, Inr a))"
definition gthrow :: "js_error \<Rightarrow> 'a gate" where "gthrow e = (\<lambda>l. (l, Inl e))"
definition gemit :: "gate_event list \<Rightarrow> 'a gate \<Rightarrow> 'a gate" where "gemit es m = (\<lambda>l. m (l @ es))"
definition gbind :: "'a gate \<Rightarrow> ('a \<Rightarrow> 'b gate) \<Rightarrow> 'b gate" where
  "gbind m f = (\<lambda>l. case m l of (l', Inl e) \<Rightarrow> (l', Inl e) | (l', Inr a) \<Rightarrow> f a l')"
definition glift :: "js_error + 'a \<Rightarrow> 'a gate" where
  "glift x = (\<lambda>l. (l, x))"

text \<open>
  What a policy or an answered question resolves to. A question carries what to make of the answer, what is
  sent meanwhile, and what to make of a failure; \<^term>\<open>None\<close> leaves it to the default.
\<close>

datatype resolution =
    RApprove "(string \<times> json) list" "json option"
  | RDeny "(string \<times> json) list" "string option"
  | RAsk "(string \<times> json) list" "approval_response \<Rightarrow> resolution option"
      "approval_response \<Rightarrow> gate_event list" "js_error \<Rightarrow> resolution option"
  | RResult exec_result

abbreviation plain_ask :: resolution where
  "plain_ask \<equiv> RAsk [] (\<lambda>_. None) (\<lambda>_. []) (\<lambda>_. None)"

definition resolution_kind :: "resolution \<Rightarrow> decision_kind" where
  "resolution_kind r =
     (case r of RApprove _ _ \<Rightarrow> KApprove | RDeny _ _ \<Rightarrow> KDeny | RAsk _ _ _ _ \<Rightarrow> KAsk | RResult _ \<Rightarrow> KResult)"

definition resolution_reason :: "resolution \<Rightarrow> (string \<times> json) list" where
  "resolution_reason r = (case r of RApprove rs _ \<Rightarrow> rs | RDeny rs _ \<Rightarrow> rs | RAsk rs _ _ _ \<Rightarrow> rs | RResult _ \<Rightarrow> [])"

section \<open>Matching a rule\<close>

record parsed_pattern =
  pp_toolName :: string
  pp_argPattern :: "string option"

definition quoted :: "string \<Rightarrow> string" where
  "quoted s = [char_of (34 :: nat)] @ s @ [char_of (34 :: nat)]"

definition parsePattern :: "string \<Rightarrow> js_error + parsed_pattern" where
  "parsePattern pattern =
     (let trimmed = js_trim pattern in
      if trimmed = [] then Inl (Thrown ''permission pattern: empty string'')
      else if CHR ''('' \<notin> set trimmed then Inr \<lparr>pp_toolName = trimmed, pp_argPattern = None\<rparr>
      else if last trimmed \<noteq> CHR '')'' then
        Inl (Thrown (''permission pattern: missing closing paren in '' @ quoted pattern))
      else
        let toolName = takeWhile (\<lambda>c. c \<noteq> CHR ''('') trimmed;
            argPattern = butlast (drop (length toolName + 1) trimmed)
        in if toolName = [] then Inl (Thrown (''permission pattern: empty tool name in '' @ quoted pattern))
           else if argPattern = [] then Inr \<lparr>pp_toolName = toolName, pp_argPattern = None\<rparr>
           else Inr \<lparr>pp_toolName = toolName, pp_argPattern = Some argPattern\<rparr>)"

datatype match_strategy = ToolNameOnly | MatchesRule

record rule_match =
  rm_rule :: permission_rule
  rm_strategy :: match_strategy
  rm_hasRuleArgs :: bool

definition matchPermissionRule ::
  "matcher \<Rightarrow> permission_rule \<Rightarrow> string \<Rightarrow> execution \<Rightarrow> js_error + rule_match option" where
  "matchPermissionRule pm rule toolName ex =
     (case parsePattern (pr_pattern rule) of
        Inl _ \<Rightarrow> Inr None
      | Inr parsed \<Rightarrow>
          ebind (if pp_toolName parsed = ''*'' then Inr True else pm False toolName (pp_toolName parsed)) (\<lambda>hit.
            if \<not> hit then Inr None
            else case pp_argPattern parsed of
                   None \<Rightarrow> Inr (Some \<lparr>rm_rule = rule, rm_strategy = ToolNameOnly, rm_hasRuleArgs = False\<rparr>)
                 | Some a \<Rightarrow>
                     (case ex_matchesRule ex of
                        None \<Rightarrow> Inr None
                      | Some f \<Rightarrow> ebind (f a) (\<lambda>b. Inr (if b
                          then Some \<lparr>rm_rule = rule, rm_strategy = MatchesRule, rm_hasRuleArgs = True\<rparr> else None)))))"

section \<open>The policies\<close>

type_synonym policy_evaluate = "gate_env \<Rightarrow> perm_state \<Rightarrow> tool_context \<Rightarrow> js_error + resolution option"

text \<open>\<^verbatim>\<open>policies/platform-capability.ts\<close>\<close>

definition capabilityByTool :: "(string \<times> capability) list" where
  "capabilityByTool =
     [(''Bash'', CapShell), (''Read'', CapFilesystem), (''Write'', CapFilesystem), (''Edit'', CapFilesystem),
      (''Glob'', CapFilesystem), (''Grep'', CapFilesystem), (''ReadMediaFile'', CapFilesystem),
      (''FetchURL'', CapNetwork), (''WebSearch'', CapNetwork), (''MCP'', CapConnector), (''Agent'', CapModel),
      (''AgentSwarm'', CapModel)]"

definition sanitize :: "string \<Rightarrow> string" where
  "sanitize v = take 120 (map (\<lambda>c. if ascii_letter c \<or> is_digit c \<or> c \<in> set ''._:-'' then c else CHR ''_'') v)"

definition platform_denial :: "approval_response \<Rightarrow> string" where
  "platform_denial response =
     (case ar_feedback response of None \<Rightarrow> ''Capability request was denied by the user.'' | Some f \<Rightarrow> f)"

definition platform_ask :: "platform_decision \<Rightarrow> resolution" where
  "platform_ask d =
     RAsk [(''platform_decision_id'', JStr (pd_id d)), (''platform_policy'', JStr (pd_reason d))]
       (\<lambda>response. Some (if ar_decision response = Approved then RApprove [] None
                         else RDeny [] (Some (platform_denial response))))
       (\<lambda>response. [if ar_decision response = Approved then PlatformApprove (pd_id d)
                    else PlatformDeny (pd_id d) (platform_denial response)])
       (\<lambda>_. None)"

definition platform_capability :: policy_evaluate where
  "platform_capability env s ctx =
     (case map_of capabilityByTool (tc_name ctx) of
        None \<Rightarrow> Inr None
      | Some capability \<Rightarrow>
          (case ge_platform env of
             None \<Rightarrow> Inr None
           | Some platform \<Rightarrow>
               ebind (platform
                 \<lparr>pq_requestId = ''tool_'' @ sanitize (tc_callId ctx) @ ''_'' @ sanitize (show_nat (tc_turnId ctx)),
                  pq_capability = capability,
                  pq_action = (case ex_description (tc_execution ctx) of None \<Rightarrow> tc_name ctx | Some d \<Rightarrow> d),
                  pq_toolName = tc_name ctx\<rparr>) (\<lambda>d.
                 Inr (case pd_outcome d of
                        OutAllow \<Rightarrow> None
                      | OutDeny \<Rightarrow> Some (RDeny [] (Some (pd_reason d)))
                      | OutAsk \<Rightarrow> Some (platform_ask d)))))"

definition auto_mode_ask_user_question_deny :: policy_evaluate where
  "auto_mode_ask_user_question_deny env s ctx =
     Inr (if ps_mode s \<noteq> Auto then None
          else if tc_name ctx \<noteq> ''AskUserQuestion'' then None
          else Some (RDeny [] (Some ''AskUserQuestion is disabled while auto permission mode is active. Make a reasonable decision and continue without asking the user.'')))"

definition auto_mode_approve :: policy_evaluate where
  "auto_mode_approve env s ctx = Inr (if ps_mode s = Auto then Some (RApprove [] None) else None)"

definition yolo_mode_approve :: policy_evaluate where
  "yolo_mode_approve env s ctx = Inr (if ps_mode s = Yolo then Some (RApprove [] None) else None)"

text \<open>\<^verbatim>\<open>policies/user-configured-rule.ts\<close>\<close>

definition USER_CONFIGURED_SCOPES :: "rule_scope list" where
  "USER_CONFIGURED_SCOPES = [TurnOverride, ProjectScope, UserScope]"

fun first_match ::
  "matcher \<Rightarrow> rule_decision \<Rightarrow> tool_context \<Rightarrow> permission_rule list \<Rightarrow> js_error + rule_match option" where
  "first_match pm d ctx [] = Inr None"
| "first_match pm d ctx (rule # rules) =
     (if pr_decision rule \<noteq> d then first_match pm d ctx rules
      else ebind (matchPermissionRule pm rule (tc_name ctx) (tc_execution ctx)) (\<lambda>m.
             case m of Some r \<Rightarrow> Inr (Some r) | None \<Rightarrow> first_match pm d ctx rules))"

definition firstMatchingRule ::
  "matcher \<Rightarrow> tool_context \<Rightarrow> rule_decision \<Rightarrow> perm_state \<Rightarrow> rule_scope list \<Rightarrow> js_error + rule_match option" where
  "firstMatchingRule pm ctx d s scopes =
     first_match pm d ctx (filter (\<lambda>rule. pr_scope rule \<in> set scopes) (ps_rules s))"

definition defaultPermissionRuleDenyMessage :: "string \<Rightarrow> string option \<Rightarrow> string" where
  "defaultPermissionRuleDenyMessage tool reason =
     ''Tool '' @ quoted tool @ '' was denied by permission rule.'' @
     (case reason of Some r \<Rightarrow> if r \<noteq> [] then '' Reason: '' @ r else [] | None \<Rightarrow> [])"

definition evaluateUserConfiguredRule :: "rule_decision \<Rightarrow> policy_evaluate" where
  "evaluateUserConfiguredRule d env s ctx =
     ebind (firstMatchingRule (ge_pm env) ctx d s USER_CONFIGURED_SCOPES) (\<lambda>m.
       Inr (case m of
              None \<Rightarrow> None
            | Some r \<Rightarrow>
                if d = DDeny then
                  Some (RDeny [] (Some (defaultPermissionRuleDenyMessage (tc_name ctx) (pr_reason (rm_rule r)))))
                else if d = DAsk then Some plain_ask
                else Some (RApprove [] None)))"

definition strategy_name :: "match_strategy \<Rightarrow> string" where
  "strategy_name m = (case m of ToolNameOnly \<Rightarrow> ''tool_name_only'' | MatchesRule \<Rightarrow> ''matches_rule'')"

definition session_rule :: "string \<Rightarrow> permission_rule" where
  "session_rule pat =
     \<lparr>pr_decision = DAllow, pr_scope = SessionRuntime, pr_pattern = pat, pr_reason = Some ''approve for session''\<rparr>"

fun approval_history :: "matcher \<Rightarrow> tool_context \<Rightarrow> string list \<Rightarrow> js_error + resolution option" where
  "approval_history pm ctx [] = Inr None"
| "approval_history pm ctx (pat # pats) =
     ebind (matchPermissionRule pm (session_rule pat) (tc_name ctx) (tc_execution ctx)) (\<lambda>m.
       case m of
         Some r \<Rightarrow> Inr (Some (RApprove [(''has_rule_args'', JBool (rm_hasRuleArgs r)),
                                        (''match_strategy'', JStr (strategy_name (rm_strategy r)))] None))
       | None \<Rightarrow> approval_history pm ctx pats)"

definition session_approval_history :: policy_evaluate where
  "session_approval_history env s ctx = approval_history (ge_pm env) ctx (ps_patterns s)"

text \<open>\<^verbatim>\<open>policies/path-utils.ts\<close>\<close>

fun file_access :: "resource_access \<Rightarrow> (file_operation \<times> string) list" where
  "file_access (FileAccess operation path _) = [(operation, path)]"
| "file_access AllAccess = []"

definition fileAccesses :: "tool_context \<Rightarrow> (file_operation \<times> string) list" where
  "fileAccesses ctx =
     (case ex_accesses (tc_execution ctx) of None \<Rightarrow> [] | Some accs \<Rightarrow> concat (map file_access accs))"

definition writeFileAccesses :: "tool_context \<Rightarrow> (file_operation \<times> string) list" where
  "writeFileAccesses ctx = filter (\<lambda>a. fst a = OpWrite \<or> fst a = OpReadWrite) (fileAccesses ctx)"

fun sep_parts :: "string \<Rightarrow> string \<Rightarrow> string list" where
  "sep_parts cur [] = [cur]"
| "sep_parts cur (c # s) =
     (if c = backslash \<or> c = CHR ''/'' then cur # sep_parts [] s else sep_parts (cur @ [c]) s)"

definition relativePathParts :: "gate_env \<Rightarrow> string \<Rightarrow> string \<Rightarrow> path_class \<Rightarrow> string list" where
  "relativePathParts env targetPath cwd cls = filter (\<lambda>part. part \<noteq> []) (sep_parts [] (ge_relative env cls cwd targetPath))"

definition hasGitPathComponent :: "gate_env \<Rightarrow> string \<Rightarrow> string \<Rightarrow> path_class \<Rightarrow> bool" where
  "hasGitPathComponent env targetPath cwd cls =
     list_ex (\<lambda>part. js_lowercase part = ''.git'') (relativePathParts env targetPath cwd cls)"

definition isGitControlPath :: "gate_env \<Rightarrow> string \<Rightarrow> git_work_tree \<Rightarrow> path_class \<Rightarrow> bool" where
  "isGitControlPath env targetPath marker cls \<longleftrightarrow>
     isWithinDirectory (ge_pathe env) targetPath (gw_dotGitPath marker) cls \<or>
     isWithinDirectory (ge_pathe env) targetPath (gw_controlDirPath marker) cls"

definition sensitive_file_access_ask :: policy_evaluate where
  "sensitive_file_access_ask env s ctx =
     Inr (if list_ex (\<lambda>a. isSensitiveFile (ge_pathe env) (snd a)) (fileAccesses ctx) then Some plain_ask else None)"

definition git_control_path_access_ask :: policy_evaluate where
  "git_control_path_access_ask env s ctx =
     (let cwd = ge_workDir env; cls = ge_pathClass env; accs = fileAccesses ctx in
      if cwd = [] then Inr None
      else if accs = [] then Inr None
      else if list_ex (\<lambda>a. hasGitPathComponent env (snd a) cwd cls) accs then Inr (Some plain_ask)
      else ebind (ge_findWorkTree env) (\<lambda>marker.
        case marker of
          None \<Rightarrow> Inr None
        | Some m \<Rightarrow> Inr (if list_ex (\<lambda>a. isGitControlPath env (snd a) m cls) accs then Some plain_ask else None)))"

definition DEFAULT_APPROVE_TOOLS :: "string list" where
  "DEFAULT_APPROVE_TOOLS =
     [''Read'', ''Grep'', ''Glob'', ''ReadMediaFile'', ''SetTodoList'', ''TodoList'', ''TaskList'', ''TaskOutput'',
      ''CronList'', ''WebSearch'', ''FetchURL'', ''Agent'', ''AgentSwarm'', ''AskUserQuestion'', ''Skill'',
      ''EnterPlanMode'', ''ExitPlanMode'', ''CreateGoal'', ''GetGoal'', ''SetGoalBudget'', ''UpdateGoal'',
      ''select_tools'']"

definition default_tool_approve :: policy_evaluate where
  "default_tool_approve env s ctx =
     Inr (if tc_name ctx \<in> set DEFAULT_APPROVE_TOOLS then Some (RApprove [] None) else None)"

definition git_cwd_write_approve :: policy_evaluate where
  "git_cwd_write_approve env s ctx =
     (if tc_name ctx \<noteq> ''Write'' \<and> tc_name ctx \<noteq> ''Edit'' then Inr None
      else if ge_pathClass env \<noteq> Posix then Inr None
      else if ge_workDir env = [] then Inr None
      else if writeFileAccesses ctx = [] then Inr None
      else if \<not> list_all (\<lambda>a. isWithinWorkspace (ge_pathe env) (snd a)
                  \<lparr>workspaceDir = ge_workDir env, additionalDirs = ge_additionalDirs env\<rparr> Posix)
                (writeFileAccesses ctx) then Inr None
      else ebind (ge_findWorkTree env) (\<lambda>marker. Inr (if marker = None then None else Some (RApprove [] None))))"

definition fallback_ask :: policy_evaluate where
  "fallback_ask env s ctx = Inr (Some plain_ask)"

section \<open>The chain\<close>

record policy =
  po_name :: string
  po_evaluate :: policy_evaluate

definition policies :: "policy list" where
  "policies =
     [\<lparr>po_name = ''platform-capability'', po_evaluate = platform_capability\<rparr>,
      \<lparr>po_name = ''auto-mode-ask-user-question-deny'', po_evaluate = auto_mode_ask_user_question_deny\<rparr>,
      \<lparr>po_name = ''user-configured-deny'', po_evaluate = evaluateUserConfiguredRule DDeny\<rparr>,
      \<lparr>po_name = ''auto-mode-approve'', po_evaluate = auto_mode_approve\<rparr>,
      \<lparr>po_name = ''session-approval-history'', po_evaluate = session_approval_history\<rparr>,
      \<lparr>po_name = ''user-configured-ask'', po_evaluate = evaluateUserConfiguredRule DAsk\<rparr>,
      \<lparr>po_name = ''user-configured-allow'', po_evaluate = evaluateUserConfiguredRule DAllow\<rparr>,
      \<lparr>po_name = ''sensitive-file-access-ask'', po_evaluate = sensitive_file_access_ask\<rparr>,
      \<lparr>po_name = ''git-control-path-access-ask'', po_evaluate = git_control_path_access_ask\<rparr>,
      \<lparr>po_name = ''yolo-mode-approve'', po_evaluate = yolo_mode_approve\<rparr>,
      \<lparr>po_name = ''default-tool-approve'', po_evaluate = default_tool_approve\<rparr>,
      \<lparr>po_name = ''git-cwd-write-approve'', po_evaluate = git_cwd_write_approve\<rparr>,
      \<lparr>po_name = ''fallback-ask'', po_evaluate = fallback_ask\<rparr>]"

fun evaluate_from ::
  "nat \<Rightarrow> policy list \<Rightarrow> gate_env \<Rightarrow> (nat \<Rightarrow> perm_state) \<Rightarrow> tool_context \<Rightarrow> js_error + (string \<times> resolution) option" where
  "evaluate_from i [] env st ctx = Inr None"
| "evaluate_from i (p # ps) env st ctx =
     ebind (po_evaluate p env (st i) ctx) (\<lambda>r.
       case r of Some res \<Rightarrow> Inr (Some (po_name p, res)) | None \<Rightarrow> evaluate_from (Suc i) ps env st ctx)"

definition policy_evaluate ::
  "gate_env \<Rightarrow> (nat \<Rightarrow> perm_state) \<Rightarrow> tool_context \<Rightarrow> js_error + (string \<times> resolution) option" where
  "policy_evaluate env st ctx = evaluate_from 0 policies env st ctx"

section \<open>Approval\<close>

definition usesWorkerRejectionGuidance :: "gate_env \<Rightarrow> bool" where
  "usesWorkerRejectionGuidance env \<longleftrightarrow> ge_agentId env \<noteq> ''main''"

text \<open>The em dash of the guidance is outside the code units of the model and is written as a hyphen.\<close>

definition worker_guidance :: string where
  "worker_guidance = '' Try a different approach - don't retry the same call, don't attempt to bypass the restriction.''"

definition formatDenyMessage :: "gate_env \<Rightarrow> string \<Rightarrow> string" where
  "formatDenyMessage env message =
     (if usesWorkerRejectionGuidance env then message @ worker_guidance else message)"

definition formatApprovalRejectionMessage :: "gate_env \<Rightarrow> string \<Rightarrow> approval_response \<Rightarrow> string" where
  "formatApprovalRejectionMessage env toolName result =
     (let suf = (case ar_feedback result of Some f \<Rightarrow> if f \<noteq> [] then '' Reason: '' @ f else [] | None \<Rightarrow> []);
          pre = (if ar_decision result = Cancelled
                 then ''Tool '' @ quoted toolName @ '' was not run because the approval request was cancelled.''
                 else ''Tool '' @ quoted toolName @ '' was not run because the user rejected the approval request.'')
      in if usesWorkerRejectionGuidance env then pre @ suf @ worker_guidance else pre @ suf)"

definition denyToolExecution :: "string \<Rightarrow> exec_result" where
  "denyToolExecution reason = \<lparr>xr_output = reason, xr_isError = True\<rparr>"

definition veto_decision :: "exec_result \<Rightarrow> before_decision option" where
  "veto_decision r = Some \<lparr>bd_veto = Some r, bd_metadata = None\<rparr>"

definition build_request :: "gate_env \<Rightarrow> tool_context \<Rightarrow> approval_request" where
  "build_request env ctx =
     (let action = (case ex_description (tc_execution ctx) of None \<Rightarrow> ''Approve '' @ tc_name ctx | Some d \<Rightarrow> d) in
      \<lparr>aq_sessionId = ge_sessionId env, aq_agentId = ge_agentId env, aq_turnId = tc_turnId ctx,
       aq_toolCallId = tc_callId ctx, aq_toolName = tc_name ctx, aq_action = action,
       aq_display = (case ex_display (tc_execution ctx) of
           Some d \<Rightarrow> d
         | None \<Rightarrow> JObj [(''kind'', JStr ''generic''), (''summary'', JStr action), (''detail'', tc_args ctx)])\<rparr>)"

definition session_approval_rule :: "tool_context \<Rightarrow> approval_response \<Rightarrow> string option" where
  "session_approval_rule ctx response =
     (if ar_decision response = Approved \<and> ar_session response then Some (ex_approvalRule (tc_execution ctx)) else None)"

type_synonym resolver = "gate_env \<Rightarrow> tool_context \<Rightarrow> string \<Rightarrow> before_decision option gate"

text \<open>After an answer: the record, the report, and what the question makes of the answer.\<close>

definition answer_approval ::
  "gate_env \<Rightarrow> tool_context \<Rightarrow> string \<Rightarrow> (approval_response \<Rightarrow> resolver option) \<Rightarrow>
     (approval_response \<Rightarrow> gate_event list) \<Rightarrow> approval_response \<Rightarrow> before_decision option gate" where
  "answer_approval env ctx origin onApproval sends response =
     (let rule = session_approval_rule ctx response;
          request = build_request env ctx
      in gemit ((if ge_broker env = None then [] else [ApprovalResolved request response]) @
                [Dispatched (RecordApproval
                   \<lparr>ap_turnId = tc_turnId ctx, ap_toolCallId = tc_callId ctx, ap_toolName = tc_name ctx,
                    ap_action = aq_action request, ap_sessionApprovalRule = rule, ap_result = response\<rparr>),
                 ApprovalReported origin (rule \<noteq> None) (ar_feedback response \<noteq> None \<and> ar_feedback response \<noteq> Some [])] @
                sends response)
          (case onApproval response of
             Some k \<Rightarrow> k env ctx origin
           | None \<Rightarrow> gret (if ar_decision response = Approved then None
                           else veto_decision (denyToolExecution
                                  (formatApprovalRejectionMessage env (tc_name ctx) response)))))"

definition fail_approval ::
  "gate_env \<Rightarrow> tool_context \<Rightarrow> string \<Rightarrow> (js_error \<Rightarrow> resolver option) \<Rightarrow> js_error \<Rightarrow> before_decision option gate" where
  "fail_approval env ctx origin onError err =
     (case err of
        UserCancellation \<Rightarrow> gthrow err
      | Thrown msg \<Rightarrow>
          gemit [ApprovalReported origin False False, ApprovalFailed (build_request env ctx) msg]
            (case onError err of Some k \<Rightarrow> k env ctx origin | None \<Rightarrow> gthrow err))"

definition request_approval ::
  "(approval_response \<Rightarrow> resolver option) \<Rightarrow> (approval_response \<Rightarrow> gate_event list) \<Rightarrow>
     (js_error \<Rightarrow> resolver option) \<Rightarrow> resolver" where
  "request_approval onApproval sends onError env ctx origin =
     (case ge_broker env of
        None \<Rightarrow> answer_approval env ctx origin onApproval sends
                  \<lparr>ar_decision = Approved, ar_session = False, ar_feedback = None\<rparr>
      | Some broker \<Rightarrow>
          (\<lambda>l. gemit [ApprovalRequested (build_request env ctx) (tc_args ctx)]
             (case broker (build_request env ctx) (length l) of
                Inl err \<Rightarrow> fail_approval env ctx origin onError err
              | Inr response \<Rightarrow> answer_approval env ctx origin onApproval sends response) l))"

primrec resolvePermissionResolution :: "resolution \<Rightarrow> resolver" where
  "resolvePermissionResolution (RApprove _ metadata) =
     (\<lambda>env ctx origin. gret (case metadata of None \<Rightarrow> None | Some m \<Rightarrow> Some \<lparr>bd_veto = None, bd_metadata = Some m\<rparr>))"
| "resolvePermissionResolution (RDeny _ message) =
     (\<lambda>env ctx origin. gret (veto_decision (denyToolExecution (formatDenyMessage env
        (case message of Some m \<Rightarrow> m
         | None \<Rightarrow> ''Tool '' @ quoted (tc_name ctx) @ '' was denied by permission policy.'')))))"
| "resolvePermissionResolution (RAsk _ resolveApproval sends resolveError) =
     request_approval (map_option resolvePermissionResolution \<circ> resolveApproval) sends
       (map_option resolvePermissionResolution \<circ> resolveError)"
| "resolvePermissionResolution (RResult r) = (\<lambda>env ctx origin. gret (veto_decision r))"

section \<open>The veto event\<close>

record before_event =
  be_veto :: "exec_result option"
  be_allowed :: bool
  be_metadata :: "json option"
  be_pending :: "(before_decision option gate) list"
  be_open :: bool

definition new_event :: before_event where
  "new_event = \<lparr>be_veto = None, be_allowed = False, be_metadata = None, be_pending = [], be_open = True\<rparr>"

definition when_open :: "string \<Rightarrow> before_event \<Rightarrow> before_event \<Rightarrow> before_event gate" where
  "when_open statement e e' =
     (if be_open e then gret e' else gthrow (Thrown (statement @ '' can NOT be called asynchronously'')))"

definition ev_veto :: "exec_result \<Rightarrow> before_event \<Rightarrow> before_event gate" where
  "ev_veto r e = when_open ''veto'' e (e\<lparr>be_veto := (case be_veto e of None \<Rightarrow> Some r | Some q \<Rightarrow> Some q)\<rparr>)"

definition ev_allow :: "before_event \<Rightarrow> before_event gate" where
  "ev_allow e = when_open ''allow'' e (e\<lparr>be_allowed := True\<rparr>)"

definition ev_pass :: "json option \<Rightarrow> before_event \<Rightarrow> before_event gate" where
  "ev_pass metadata e =
     when_open ''pass'' e (e\<lparr>be_metadata := (case be_metadata e of None \<Rightarrow> metadata | Some m \<Rightarrow> Some m)\<rparr>)"

definition ev_waitUntil :: "before_decision option gate \<Rightarrow> before_event \<Rightarrow> before_event gate" where
  "ev_waitUntil factory e = when_open ''waitUntil'' e (e\<lparr>be_pending := be_pending e @ [factory]\<rparr>)"

definition closeRegistration :: "before_event \<Rightarrow> before_event" where
  "closeRegistration e = e\<lparr>be_open := False\<rparr>"

type_synonym listener = "before_event \<Rightarrow> before_event gate"

text \<open>The first pass ends with a decision (right) or with the event for the second (left).\<close>

fun run_listeners :: "listener list \<Rightarrow> before_event \<Rightarrow> (before_event + before_decision option) gate" where
  "run_listeners [] e = gret (Inl e)"
| "run_listeners (l # ls) e =
     gbind (l e) (\<lambda>e'.
       if be_allowed e' then gret (Inr None)
       else case be_veto e' of
              Some r \<Rightarrow> gret (Inr (veto_decision r))
            | None \<Rightarrow> run_listeners ls e')"

fun run_factories :: "(before_decision option gate) list \<Rightarrow> json option \<Rightarrow> before_decision option gate" where
  "run_factories [] metadata =
     gret (case metadata of None \<Rightarrow> None | Some m \<Rightarrow> Some \<lparr>bd_veto = None, bd_metadata = Some m\<rparr>)"
| "run_factories (factory # fs) metadata =
     gbind factory (\<lambda>decision.
       case decision of
         None \<Rightarrow> run_factories fs metadata
       | Some d \<Rightarrow>
           (case bd_veto d of
              Some r \<Rightarrow> gret (veto_decision r)
            | None \<Rightarrow> run_factories fs (case metadata of None \<Rightarrow> bd_metadata d | Some m \<Rightarrow> Some m)))"

definition fireBeforeExecute :: "bool \<Rightarrow> listener list \<Rightarrow> before_decision option gate" where
  "fireBeforeExecute disposed listeners =
     (if disposed \<or> listeners = [] then gret None
      else gbind (run_listeners listeners new_event) (\<lambda>r.
        case r of
          Inr decision \<Rightarrow> gret decision
        | Inl e \<Rightarrow> let e' = closeRegistration e in run_factories (be_pending e') (be_metadata e')))"

section \<open>The gate\<close>

definition decided :: "string \<Rightarrow> resolution \<Rightarrow> gate_event" where
  "decided name res = PolicyDecided name (resolution_kind res) (resolution_reason res)"

definition adjudicate :: "gate_env \<Rightarrow> (nat \<Rightarrow> perm_state) \<Rightarrow> tool_context \<Rightarrow> listener" where
  "adjudicate env st ctx e =
     gbind (glift (policy_evaluate env st ctx)) (\<lambda>evaluation.
       case evaluation of
         None \<Rightarrow> gret e
       | Some (policyName, res) \<Rightarrow>
           gemit [decided policyName res]
             (case res of
                RAsk _ _ _ _ \<Rightarrow> ev_waitUntil (resolvePermissionResolution res env ctx policyName) e
              | RApprove _ metadata \<Rightarrow> ev_pass metadata e
              | _ \<Rightarrow> gbind (resolvePermissionResolution res env ctx policyName) (\<lambda>resolved.
                  case resolved of
                    None \<Rightarrow> gret e
                  | Some d \<Rightarrow> (case bd_veto d of None \<Rightarrow> gret e | Some r \<Rightarrow> ev_veto r e))))"

definition authorize :: "gate_env \<Rightarrow> (nat \<Rightarrow> perm_state) \<Rightarrow> tool_context \<Rightarrow> before_decision option gate" where
  "authorize env st ctx =
     gbind (glift (policy_evaluate env st ctx)) (\<lambda>evaluation.
       case evaluation of
         None \<Rightarrow> gret None
       | Some (policyName, res) \<Rightarrow>
           gemit [decided policyName res] (resolvePermissionResolution res env ctx policyName))"

text \<open>What the operations a log holds do to the state.\<close>

definition dispatched :: "gate_event \<Rightarrow> perm_op list" where
  "dispatched ev = (case ev of Dispatched op \<Rightarrow> [op] | _ \<Rightarrow> [])"

definition perms_after :: "gate_event list \<Rightarrow> perm_state \<Rightarrow> perm_state" where
  "perms_after l s = fold perm_apply (concat (map dispatched l)) s"

end
