(* ===== verification/Paths_Proofs.thy ===== *)
theory Paths_Proofs imports Paths begin

text \<open>
  What the path policy promises: containment is a prefix of path components, an accepted path is canonical,
  is no secret and stays accepted, skill roots are reachable after the extension of a workspace, and an
  escaped subject is a literal.
\<close>

section \<open>Containment by components\<close>

text \<open>The components of a path: the pieces between its slashes.\<close>

fun path_parts :: "string \<Rightarrow> string list" where
  "path_parts [] = [[]]"
| "path_parts (c # s) =
     (if c = CHR ''/'' then [] # path_parts s else (c # hd (path_parts s)) # tl (path_parts s))"

lemma path_parts_nonempty [simp]: "path_parts s \<noteq> []"
  by (cases s) auto

lemma path_parts_slash: "path_parts (b @ CHR ''/'' # t) = path_parts b @ path_parts t"
  by (induction b) auto

lemma join_path_parts: "js_join ''/'' (path_parts s) = s"
proof (induction s)
  case Nil
  then show ?case by simp
next
  case (Cons c s)
  obtain p ps where "path_parts s = p # ps" by (cases "path_parts s") auto
  with Cons show ?case by (cases ps) auto
qed

lemma path_parts_inj: "path_parts a = path_parts b \<longleftrightarrow> a = b"
  by (metis join_path_parts)

lemma js_join_append: "xs \<noteq> [] \<Longrightarrow> ys \<noteq> [] \<Longrightarrow> js_join sep (xs @ ys) = js_join sep xs @ sep @ js_join sep ys"
proof (induction sep xs rule: js_join.induct)
  case (2 sep x)
  then show ?case by (cases ys) auto
qed auto

lemma prefix_slash_parts: "prefix (b @ ''/'') c \<longleftrightarrow> strict_prefix (path_parts b) (path_parts c)"
proof
  assume "prefix (b @ ''/'') c"
  then obtain t where "c = b @ CHR ''/'' # t" by (auto simp: prefix_def)
  then show "strict_prefix (path_parts b) (path_parts c)" by (simp add: path_parts_slash strict_prefix_def)
next
  assume "strict_prefix (path_parts b) (path_parts c)"
  then obtain zs where zs: "path_parts c = path_parts b @ zs" "zs \<noteq> []"
    by (auto simp: strict_prefix_def prefix_def)
  have "c = js_join ''/'' (path_parts c)" by (simp add: join_path_parts)
  also have "\<dots> = b @ ''/'' @ js_join ''/'' zs" by (simp add: zs js_join_append join_path_parts)
  finally show "prefix (b @ ''/'') c" by (metis append.assoc prefixI)
qed

lemma same_or_below_parts:
  "c = b \<or> prefix (path_prefix b) c \<longleftrightarrow>
     (if ends_slash b then strict_prefix (path_parts (butlast b)) (path_parts c)
      else prefix (path_parts b) (path_parts c))"
proof (cases "ends_slash b")
  case True
  then have b: "b = butlast b @ ''/''" unfolding ends_slash_def by (metis append_butlast_last_id)
  have "c = b \<or> prefix (path_prefix b) c \<longleftrightarrow> prefix (butlast b @ ''/'') c"
    using True b by (auto simp: path_prefix_def)
  with True show ?thesis by (simp add: prefix_slash_parts)
next
  case False
  then have "c = b \<or> prefix (path_prefix b) c \<longleftrightarrow> c = b \<or> strict_prefix (path_parts b) (path_parts c)"
    by (simp add: path_prefix_def prefix_slash_parts)
  with False show ?thesis by (auto simp: strict_prefix_def path_parts_inj)
qed

text \<open>
  A path is within a directory exactly if the components of the directory are an initial segment of
  its components, after normalization and, on Windows, in lower case (below a root, a proper one, since the
  root ends in a slash). So a path that merely shares the text of the prefix is outside.
\<close>
theorem within_directory_components:
  "isWithinDirectory pt candidate base cls \<longleftrightarrow>
     (let c = comparable_path cls (pt_normalize pt candidate);
          b = comparable_path cls (pt_normalize pt base)
      in if ends_slash b then strict_prefix (path_parts (butlast b)) (path_parts c)
         else prefix (path_parts b) (path_parts c))"
  unfolding isWithinDirectory_def Let_def by (rule same_or_below_parts)

lemma within_refl [simp]: "isWithinDirectory pt p p cls"
  by (simp add: isWithinDirectory_def)

lemma path_prefix_simps: "ends_slash b \<Longrightarrow> path_prefix b = b" "\<not> ends_slash b \<Longrightarrow> path_prefix b = b @ ''/''"
  by (simp_all add: path_prefix_def)

lemma path_prefix_idem [simp]: "path_prefix (path_prefix b) = path_prefix b"
  by (simp add: path_prefix_def ends_slash_def)

lemma prefix_path_prefix [simp]: "prefix b (path_prefix b)"
  by (simp add: path_prefix_def)

lemma within_trans:
  assumes "isWithinDirectory pt a b cls" and "isWithinDirectory pt b c cls"
  shows "isWithinDirectory pt a c cls"
proof -
  define A B C where "A = comparable_path cls (pt_normalize pt a)"
    and "B = comparable_path cls (pt_normalize pt b)" and "C = comparable_path cls (pt_normalize pt c)"
  have ab: "A = B \<or> prefix (path_prefix B) A" and bc: "B = C \<or> prefix (path_prefix C) B"
    using assms by (auto simp: isWithinDirectory_def Let_def A_def B_def C_def)
  have "A = C \<or> prefix (path_prefix C) A"
    using ab bc prefix_path_prefix prefix_order.order_trans by metis
  then show ?thesis by (simp add: isWithinDirectory_def Let_def A_def B_def C_def)
qed

section \<open>Skill roots\<close>

lemma skill_dirs_prefix: "prefix dirs (skill_dirs pt wd cls dirs roots)"
proof (induction roots arbitrary: dirs)
  case (Cons r rs)
  show ?case using Cons [of dirs] Cons [of "dirs @ [r]"] by (auto dest: append_prefixD)
qed simp

lemma skill_dirs_set: "set (skill_dirs pt wd cls dirs roots) \<subseteq> set dirs \<union> set roots"
proof (induction roots arbitrary: dirs)
  case (Cons r rs)
  show ?case using Cons [of dirs] Cons [of "dirs @ [r]"] by auto
qed simp

lemma skill_dirs_reach:
  assumes "root \<in> set roots"
  shows "isWithinDirectory pt root wd cls \<or>
         (\<exists>dir \<in> set (skill_dirs pt wd cls dirs roots). isWithinDirectory pt root dir cls)"
  using assms
proof (induction roots arbitrary: dirs)
  case (Cons r rs)
  show ?case
  proof (cases "root = r")
    case True
    have sub: "set ds \<subseteq> set (skill_dirs pt wd cls ds rs)" for ds
      using skill_dirs_prefix set_mono_prefix by fast
    show ?thesis using True sub [of dirs] sub [of "dirs @ [r]"] by (auto simp: list_ex_iff intro: bexI [of _ r])
  next
    case False
    with Cons show ?thesis by auto
  qed
qed simp

lemma extended_dirs:
  "additionalDirs (extendWorkspaceWithSkillRoots pt w roots cls) =
     skill_dirs pt (workspaceDir w) cls (additionalDirs w) roots"
proof -
  let ?d = "skill_dirs pt (workspaceDir w) cls (additionalDirs w) roots"
  obtain zs where zs: "?d = additionalDirs w @ zs" using skill_dirs_prefix by (metis prefix_def)
  show ?thesis
    by (cases zs) (simp_all add: extendWorkspaceWithSkillRoots_def Let_def zs)
qed

lemma extended_workspaceDir [simp]:
  "workspaceDir (extendWorkspaceWithSkillRoots pt w roots cls) = workspaceDir w"
  by (simp add: extendWorkspaceWithSkillRoots_def Let_def)

text \<open>
  Extending a workspace with skill roots admits exactly the paths that were within the workspace or are
  within one of the roots: every skill root becomes reachable and nothing else does.
\<close>

lemma extended_workspace_exact:
  "isWithinWorkspace pt p (extendWorkspaceWithSkillRoots pt w roots cls) cls \<longleftrightarrow>
     isWithinWorkspace pt p w cls \<or> list_ex (\<lambda>root. isWithinDirectory pt p root cls) roots"
    (is "?l \<longleftrightarrow> ?r")
proof
  assume ?l
  then show ?r using skill_dirs_set by (fastforce simp: isWithinWorkspace_def extended_dirs list_ex_iff)
next
  assume ?r
  then consider "isWithinDirectory pt p (workspaceDir w) cls"
    | dir where "dir \<in> set (additionalDirs w)" "isWithinDirectory pt p dir cls"
    | root where "root \<in> set roots" "isWithinDirectory pt p root cls"
    by (auto simp: isWithinWorkspace_def list_ex_iff)
  then show ?l
  proof cases
    case 2
    then have "dir \<in> set (skill_dirs pt (workspaceDir w) cls (additionalDirs w) roots)"
      using skill_dirs_prefix set_mono_prefix by fast
    with 2 show ?thesis by (auto simp: isWithinWorkspace_def extended_dirs list_ex_iff)
  next
    case 3
    from skill_dirs_reach [OF 3(1), of pt "workspaceDir w" cls "additionalDirs w"] 3(2)
    show ?thesis by (auto simp: isWithinWorkspace_def extended_dirs list_ex_iff dest: within_trans)
  qed (auto simp: isWithinWorkspace_def)
qed

section \<open>Accepted paths\<close>

text \<open>
  What the access check needs of \<open>pathe\<close> on POSIX paths. A path that begins with two slashes is normalized as the name of a
  network share, and not always to a fixed point; the laws of \<open>normalize\<close> leave such paths out, and \<open>resolve\<close> never gives one.
\<close>

definition share_path :: "string \<Rightarrow> bool" where
  "share_path p \<longleftrightarrow> (case p of a # b # _ \<Rightarrow> a \<in> {CHR ''/'', backslash} \<and> b \<in> {CHR ''/'', backslash} | _ \<Rightarrow> False)"

definition posix_paths :: "pathe \<Rightarrow> bool" where
  "posix_paths pt \<longleftrightarrow>
     (\<forall>p. \<not> share_path p \<longrightarrow> pt_normalize pt (pt_normalize pt p) = pt_normalize pt p) \<and>
     (\<forall>p. \<not> share_path p \<longrightarrow> pt_isAbsolute pt p \<longrightarrow> pt_isAbsolute pt (pt_normalize pt p)) \<and>
     (\<forall>cwd p. pt_isAbsolute pt cwd \<longrightarrow> pt_isAbsolute pt (pt_resolve pt cwd p) \<and> \<not> share_path (pt_resolve pt cwd p)) \<and>
     (\<forall>p. pt_isAbsolute pt p \<longrightarrow> p \<noteq> [] \<and> hd p \<noteq> CHR ''~'')"

lemma posix_pathsD:
  assumes "posix_paths pt"
  shows "\<not> share_path p \<Longrightarrow> pt_normalize pt (pt_normalize pt p) = pt_normalize pt p"
    and "\<not> share_path p \<Longrightarrow> pt_isAbsolute pt p \<Longrightarrow> pt_isAbsolute pt (pt_normalize pt p)"
    and "pt_isAbsolute pt cwd \<Longrightarrow> pt_isAbsolute pt (pt_resolve pt cwd p) \<and> \<not> share_path (pt_resolve pt cwd p)"
    and "pt_isAbsolute pt p \<Longrightarrow> p \<noteq> []"
    and "pt_isAbsolute pt p \<Longrightarrow> hd p \<noteq> CHR ''~''"
  using assms unfolding posix_paths_def by blast+

lemma canonical_posix:
  assumes "posix_paths pt" and "\<not> share_path p" and "canonicalizePath pt p cwd Posix = Inr c"
  shows "pt_isAbsolute pt c \<and> pt_normalize pt c = c"
proof -
  have "pt_isAbsolute pt p \<or> pt_isAbsolute pt cwd"
    using assms(3) by (auto simp: canonicalizePath_def normalizeUserPath_def split: if_splits)
  moreover have "c = pt_normalize pt (if pt_isAbsolute pt p then p else pt_resolve pt cwd p)"
    using assms(3) by (auto simp: canonicalizePath_def normalizeUserPath_def Let_def split: if_splits)
  ultimately show ?thesis using posix_pathsD [OF assms(1)] assms(2) by auto
qed

lemma expand_absolute:
  assumes "posix_paths pt" and "pt_isAbsolute pt p"
  shows "expandUserPath pt p home Posix = p"
proof -
  have "p \<noteq> ''~''" "\<not> prefix ''~/'' p"
    using posix_pathsD(5) [OF assms] by (auto simp: prefix_def)
  then show ?thesis by (simp add: expandUserPath_def split: option.split)
qed

lemma canonicalize_absolute:
  assumes "posix_paths pt" and "pt_isAbsolute pt c" and "pt_normalize pt c = c"
  shows "canonicalizePath pt c cwd Posix = Inr c"
  using assms posix_pathsD(4) [OF assms(1,2)] by (simp add: canonicalizePath_def normalizeUserPath_def)

definition options_policy :: "access_options \<Rightarrow> workspace_policy" where
  "options_policy o' = (case ao_policy o' of None \<Rightarrow> DEFAULT_WORKSPACE_ACCESS_POLICY | Some p \<Rightarrow> p)"

lemma resolve_cases:
  assumes "resolvePathAccess pt d path cwd config opts = Inr a" and "ao_pathClass opts = Some Posix"
  obtains c where "canonicalizePath pt (expandUserPath pt path (ao_homeDir opts) Posix) cwd Posix = Inr c"
    and "a = \<lparr>pa_path = c, pa_outside = (\<not> isWithinWorkspace pt c config Posix)\<rparr>"
    and "\<not> (checkSensitive (options_policy opts) \<and> isSensitiveFile pt c)"
    and "isWithinWorkspace pt c config Posix \<or> guardMode (options_policy opts) = GuardDisabled \<or>
         pt_isAbsolute pt (expandUserPath pt path (ao_homeDir opts) Posix)"
proof -
  have gd: "g = GuardDisabled \<or> g = AbsoluteOutsideAllowed" for g by (cases g) auto
  show thesis
    using assms that gd [of "guardMode (options_policy opts)"]
    by (auto simp: resolvePathAccess_def normalizeUserPath_def Let_def ebind_eq_Inr
        simp flip: options_policy_def split: if_splits)
qed

lemma resolve_absolute:
  assumes "posix_paths pt" and "pt_isAbsolute pt c" and "pt_normalize pt c = c"
    and "ao_pathClass opts = Some Posix" and "\<not> (checkSensitive (options_policy opts) \<and> isSensitiveFile pt c)"
  shows "resolvePathAccess pt d c cwd config opts =
           Inr \<lparr>pa_path = c, pa_outside = (\<not> isWithinWorkspace pt c config Posix)\<rparr>"
  using assms
  by (simp add: resolvePathAccess_def normalizeUserPath_def Let_def expand_absolute canonicalize_absolute
      flip: options_policy_def)


definition plain_paths :: pathe where
  "plain_paths =
     \<lparr>pt_basename = (\<lambda>p. last (path_parts p)), pt_normalize = (\<lambda>p. p),
      pt_isAbsolute = (\<lambda>p. prefix ''/'' p), pt_resolve = (\<lambda>cwd p. CHR ''/'' # dropWhile (\<lambda>c. c \<in> {CHR ''/'', backslash}) (cwd @ ''/'' @ p)),
      pt_join = (\<lambda>a b. a @ ''/'' @ b), pt_root = (\<lambda>p. ''/'')\<rparr>"

lemma plain_paths_posix: "posix_paths plain_paths"
proof -
  have no: "\<not> share_path (CHR ''/'' # dropWhile (\<lambda>c. c \<in> {CHR ''/'', backslash}) x)" for x
  proof (induction x)
    case (Cons c x)
    then show ?case by (cases "c \<in> {CHR ''/'', backslash}") (simp_all add: share_path_def)
  qed (simp add: share_path_def)
  show ?thesis unfolding posix_paths_def
    by (intro conjI allI impI; simp only: plain_paths_def pathe.select_convs no not_False_eq_True; auto simp: prefix_def)
qed

lemma plain_resolve_example:
  "resolvePathAccess plain_paths Posix ''src/a.ts'' ''/w'' \<lparr>workspaceDir = ''/w'', additionalDirs = []\<rparr>
     \<lparr>ao_operation = PWrite, ao_policy = None, ao_pathClass = Some Posix, ao_homeDir = Some ''/h''\<rparr> =
   Inr \<lparr>pa_path = ''/w/src/a.ts'', pa_outside = False\<rparr>"
  by code_simp

lemma plain_no_share: "\<not> share_path (expandUserPath plain_paths ''src/a.ts'' (Some ''/h'') Posix)"
  by code_simp


section \<open>Escaped subjects\<close>

text \<open>Reading an escaped subject back; a character is bare if no backslash protects it.\<close>

fun unescape_subject :: "string \<Rightarrow> string" where
  "unescape_subject (a # b # s) =
     (if a = backslash then b # unescape_subject s else a # unescape_subject (b # s))"
| "unescape_subject s = s"

fun bare_chars :: "string \<Rightarrow> char set" where
  "bare_chars (a # b # s) = (if a = backslash then bare_chars s else insert a (bare_chars (b # s)))"
| "bare_chars s = set s"

lemma escape_Cons:
  "escapeRuleSubjectLiteral (c # s) =
     (if c \<in> set GLOB_LITERAL_SPECIAL then backslash # c # escapeRuleSubjectLiteral s
      else c # escapeRuleSubjectLiteral s)"
  by (simp add: escapeRuleSubjectLiteral_def)

lemma escape_Nil [simp]: "escapeRuleSubjectLiteral [] = []"
  by (simp add: escapeRuleSubjectLiteral_def)

lemma backslash_special [simp]: "backslash \<in> set GLOB_LITERAL_SPECIAL"
  by (simp add: GLOB_LITERAL_SPECIAL_def)

lemma not_special: "a \<notin> set GLOB_LITERAL_SPECIAL \<Longrightarrow> a \<noteq> backslash"
  using backslash_special by blast

lemma unescape_plain: "a \<notin> set GLOB_LITERAL_SPECIAL \<Longrightarrow> unescape_subject (a # s) = a # unescape_subject s"
  by (cases s) (auto dest: not_special)

lemma bare_plain: "a \<notin> set GLOB_LITERAL_SPECIAL \<Longrightarrow> bare_chars (a # s) = insert a (bare_chars s)"
  by (cases s) (auto dest: not_special)

lemma unescape_escape: "unescape_subject (escapeRuleSubjectLiteral s) = s"
  by (induction s) (auto simp: escape_Cons unescape_plain)

lemma escape_no_bare: "bare_chars (escapeRuleSubjectLiteral s) \<inter> set GLOB_LITERAL_SPECIAL = {}"
proof (induction s)
  case (Cons c s)
  then show ?case by (cases "c \<in> set GLOB_LITERAL_SPECIAL") (auto simp: escape_Cons bare_plain)
qed simp

lemma escape_eq_Nil [simp]: "escapeRuleSubjectLiteral s = [] \<longleftrightarrow> s = []"
  by (cases s) (auto simp: escape_Cons)

lemma escape_not_negated [simp]: "\<not> prefix ''!'' (escapeRuleSubjectLiteral s)"
  by (cases s) (auto simp: escape_Cons GLOB_LITERAL_SPECIAL_def backslash_def)

lemma globMatch_literal: "pm nocase v pat = Inr True \<Longrightarrow> globMatch pm nocase v pat = Inr True"
  by (simp add: globMatch_def)

lemma matchesGlob_literal:
  "s \<noteq> [] \<Longrightarrow> pm False s (escapeRuleSubjectLiteral s) = Inr True \<Longrightarrow>
     matchesGlobRuleSubject pm (escapeRuleSubjectLiteral s) s = Inr True"
  by (simp add: matchesGlobRuleSubject_def matchRuleSubjects_def globMatch_literal)

lemma matchesPath_literal:
  "s \<noteq> [] \<Longrightarrow> (\<And>nc. pm nc s (escapeRuleSubjectLiteral s) = Inr True) \<Longrightarrow>
     matchesPathRuleSubject pm pt (escapeRuleSubjectLiteral s) s opts = Inr True"
  by (simp add: matchesPathRuleSubject_def matchRuleSubjects_def pathGlobMatch_def globMatch_literal)

end
