(* ===== verification/Permissions_Proofs.thy ===== *)
theory Permissions_Proofs imports Permissions Paths_Proofs begin

text \<open>
  What the permission chain promises: the exact table of its decisions, the effect of adding rules, the
  finality of a deny rule, the memory of a session approval, and approvals that stay cold while another
  listener decides.
\<close>

section \<open>The gate monad\<close>

lemmas gate_simps = gret_def gthrow_def gemit_def gbind_def glift_def

lemma gbind_gret [simp]: "gbind (gret a) f = f a"
  by (rule ext) (simp add: gate_simps)

lemma gbind_glift [simp]: "gbind (glift (Inr a)) f = f a" "gbind (glift (Inl e)) f = gthrow e"
  by (rule ext, simp add: gate_simps)+

lemma gret_apply [simp]: "gret a l = (l, Inr a)"
  by (simp add: gret_def)

lemma gthrow_apply [simp]: "gthrow e l = (l, Inl e)"
  by (simp add: gthrow_def)

lemma gemit_apply [simp]: "gemit es m l = m (l @ es)"
  by (simp add: gemit_def)

section \<open>When a rule applies\<close>

definition rule_hit :: "matcher \<Rightarrow> tool_context \<Rightarrow> permission_rule \<Rightarrow> bool" where
  "rule_hit pm ctx rule =
     (case matchPermissionRule pm rule (tc_name ctx) (tc_execution ctx) of Inr (Some _) \<Rightarrow> True | _ \<Rightarrow> False)"

definition rule_total :: "matcher \<Rightarrow> tool_context \<Rightarrow> permission_rule \<Rightarrow> bool" where
  "rule_total pm ctx rule =
     (case matchPermissionRule pm rule (tc_name ctx) (tc_execution ctx) of Inl _ \<Rightarrow> False | Inr _ \<Rightarrow> True)"

lemma rule_total_cases:
  assumes "rule_total pm ctx rule"
  obtains (hit) m where "matchPermissionRule pm rule (tc_name ctx) (tc_execution ctx) = Inr (Some m)" "rule_hit pm ctx rule"
    | (miss) "matchPermissionRule pm rule (tc_name ctx) (tc_execution ctx) = Inr None" "\<not> rule_hit pm ctx rule"
  using assms by (auto simp: rule_total_def rule_hit_def split: sum.splits option.splits)

text \<open>A match depends on the pattern of the rule only.\<close>

lemma rule_hit_cong: "pr_pattern r = pr_pattern r' \<Longrightarrow> rule_hit pm ctx r = rule_hit pm ctx r'"
  by (auto simp: rule_hit_def matchPermissionRule_def ebind_def split: sum.splits option.splits)

lemma rule_total_cong: "pr_pattern r = pr_pattern r' \<Longrightarrow> rule_total pm ctx r = rule_total pm ctx r'"
  by (auto simp: rule_total_def matchPermissionRule_def ebind_def split: sum.splits option.splits)

definition user_hit :: "gate_env \<Rightarrow> perm_state \<Rightarrow> tool_context \<Rightarrow> rule_decision \<Rightarrow> bool" where
  "user_hit env s ctx d =
     list_ex (\<lambda>r. pr_scope r \<in> set USER_CONFIGURED_SCOPES \<and> pr_decision r = d \<and> rule_hit (ge_pm env) ctx r) (ps_rules s)"

definition session_hit :: "gate_env \<Rightarrow> perm_state \<Rightarrow> tool_context \<Rightarrow> bool" where
  "session_hit env s ctx = list_ex (\<lambda>pat. rule_hit (ge_pm env) ctx (session_rule pat)) (ps_patterns s)"

definition state_total :: "gate_env \<Rightarrow> perm_state \<Rightarrow> tool_context \<Rightarrow> bool" where
  "state_total env s ctx \<longleftrightarrow>
     list_all (rule_total (ge_pm env) ctx) (ps_rules s) \<and>
     list_all (\<lambda>pat. rule_total (ge_pm env) ctx (session_rule pat)) (ps_patterns s)"

lemma first_match_total:
  assumes "list_all (rule_total pm ctx) rules"
  shows "\<exists>m. first_match pm d ctx rules = Inr m \<and>
             (m \<noteq> None \<longleftrightarrow> list_ex (\<lambda>r. pr_decision r = d \<and> rule_hit pm ctx r) rules)"
  using assms
proof (induction rules)
  case (Cons r rs)
  then have "rule_total pm ctx r" by simp
  then show ?case using Cons by (cases rule: rule_total_cases) auto
qed simp

definition user_result :: "tool_context \<Rightarrow> rule_decision \<Rightarrow> resolution \<Rightarrow> bool" where
  "user_result ctx d res =
     (case d of DDeny \<Rightarrow> (\<exists>m. res = RDeny [] (Some m)) | DAsk \<Rightarrow> res = plain_ask | DAllow \<Rightarrow> res = RApprove [] None)"

lemma user_rule_total:
  assumes "list_all (rule_total (ge_pm env) ctx) (ps_rules s)"
  obtains (hit) res where "evaluateUserConfiguredRule d env s ctx = Inr (Some res)" "user_hit env s ctx d" "user_result ctx d res"
    | (miss) "evaluateUserConfiguredRule d env s ctx = Inr None" "\<not> user_hit env s ctx d"
proof -
  let ?rules = "filter (\<lambda>rule. pr_scope rule \<in> set USER_CONFIGURED_SCOPES) (ps_rules s)"
  have "list_all (rule_total (ge_pm env) ctx) ?rules" using assms by (auto simp: list_all_iff)
  from first_match_total [OF this, of d] obtain m where m: "first_match (ge_pm env) d ctx ?rules = Inr m"
    "m \<noteq> None \<longleftrightarrow> list_ex (\<lambda>r. pr_decision r = d \<and> rule_hit (ge_pm env) ctx r) ?rules" by auto
  have "m \<noteq> None \<longleftrightarrow> user_hit env s ctx d" using m(2) by (auto simp: user_hit_def list_ex_iff)
  with m(1) that show thesis
    by (cases m; cases d) (auto simp: evaluateUserConfiguredRule_def firstMatchingRule_def user_result_def)
qed

lemma approval_history_total:
  assumes "list_all (\<lambda>pat. rule_total pm ctx (session_rule pat)) pats"
  obtains (hit) rs where "approval_history pm ctx pats = Inr (Some (RApprove rs None))"
      "list_ex (\<lambda>pat. rule_hit pm ctx (session_rule pat)) pats"
    | (miss) "approval_history pm ctx pats = Inr None" "\<not> list_ex (\<lambda>pat. rule_hit pm ctx (session_rule pat)) pats"
  using assms
proof (induction pats arbitrary: thesis)
  case Nil
  then show ?case by simp
next
  case (Cons p ps)
  from Cons.prems(3) have t: "rule_total pm ctx (session_rule p)"
    and ts: "list_all (\<lambda>pat. rule_total pm ctx (session_rule pat)) ps" by simp_all
  from t show ?case
  proof (cases rule: rule_total_cases)
    case (hit m)
    then show ?thesis by (intro Cons.prems(1)) (auto simp: rule_hit_def)
  next
    case miss
    from Cons.IH [OF _ _ ts] consider
        rs where "approval_history pm ctx ps = Inr (Some (RApprove rs None))"
          "list_ex (\<lambda>pat. rule_hit pm ctx (session_rule pat)) ps"
      | "approval_history pm ctx ps = Inr None" "\<not> list_ex (\<lambda>pat. rule_hit pm ctx (session_rule pat)) ps"
      by metis
    then show ?thesis using miss Cons.prems(1,2) by cases auto
  qed
qed

section \<open>The table of decisions\<close>

definition sensitive_access :: "gate_env \<Rightarrow> tool_context \<Rightarrow> bool" where
  "sensitive_access env ctx = list_ex (\<lambda>a. isSensitiveFile (ge_pathe env) (snd a)) (fileAccesses ctx)"

definition git_control_access :: "gate_env \<Rightarrow> git_work_tree option \<Rightarrow> tool_context \<Rightarrow> bool" where
  "git_control_access env marker ctx \<longleftrightarrow>
     ge_workDir env \<noteq> [] \<and>
     list_ex (\<lambda>a. hasGitPathComponent env (snd a) (ge_workDir env) (ge_pathClass env) \<or>
                  (case marker of None \<Rightarrow> False | Some m \<Rightarrow> isGitControlPath env (snd a) m (ge_pathClass env)))
       (fileAccesses ctx)"

definition trusted_write :: "gate_env \<Rightarrow> git_work_tree option \<Rightarrow> tool_context \<Rightarrow> bool" where
  "trusted_write env marker ctx \<longleftrightarrow>
     (tc_name ctx = ''Write'' \<or> tc_name ctx = ''Edit'') \<and> ge_pathClass env = Posix \<and> ge_workDir env \<noteq> [] \<and>
     marker \<noteq> None \<and> writeFileAccesses ctx \<noteq> [] \<and>
     list_all (\<lambda>a. isWithinWorkspace (ge_pathe env) (snd a)
        \<lparr>workspaceDir = ge_workDir env, additionalDirs = ge_additionalDirs env\<rparr> Posix) (writeFileAccesses ctx)"

definition harmless :: "gate_env \<Rightarrow> git_work_tree option \<Rightarrow> tool_context \<Rightarrow> perm_state \<Rightarrow> bool" where
  "harmless env marker ctx s \<longleftrightarrow>
     \<not> sensitive_access env ctx \<and> \<not> git_control_access env marker ctx \<and>
     (ps_mode s = Yolo \<or> tc_name ctx \<in> set DEFAULT_APPROVE_TOOLS \<or> trusted_write env marker ctx)"

definition expected_kind :: "gate_env \<Rightarrow> git_work_tree option \<Rightarrow> tool_context \<Rightarrow> perm_state \<Rightarrow> decision_kind" where
  "expected_kind env marker ctx s =
     (if user_hit env s ctx DDeny \<or> ps_mode s = Auto \<and> tc_name ctx = ''AskUserQuestion'' then KDeny
      else if ps_mode s = Auto \<or> session_hit env s ctx \<or>
              \<not> user_hit env s ctx DAsk \<and> (user_hit env s ctx DAllow \<or> harmless env marker ctx s) then KApprove
      else KAsk)"

lemma git_control_eval:
  assumes "ge_findWorkTree env = Inr marker"
  shows "git_control_path_access_ask env s ctx =
           Inr (if git_control_access env marker ctx then Some plain_ask else None)"
proof (cases "list_ex (\<lambda>a. hasGitPathComponent env (snd a) (ge_workDir env) (ge_pathClass env)) (fileAccesses ctx)")
  case True
  then have "git_control_access env marker ctx \<longleftrightarrow> ge_workDir env \<noteq> []"
    by (auto simp: git_control_access_def list_ex_iff)
  with True show ?thesis by (auto simp: git_control_path_access_ask_def Let_def)
next
  case False
  then have "git_control_access env marker ctx \<longleftrightarrow> ge_workDir env \<noteq> [] \<and>
      (case marker of None \<Rightarrow> False | Some m \<Rightarrow>
         list_ex (\<lambda>a. isGitControlPath env (snd a) m (ge_pathClass env)) (fileAccesses ctx))"
    by (auto simp: git_control_access_def list_ex_iff split: option.splits)
  with False assms show ?thesis
    by (cases marker) (auto simp: git_control_path_access_ask_def Let_def)
qed

lemma git_write_eval:
  assumes "ge_findWorkTree env = Inr marker"
  shows "git_cwd_write_approve env s ctx =
           Inr (if trusted_write env marker ctx then Some (RApprove [] None) else None)"
  using assms by (auto simp: git_cwd_write_approve_def trusted_write_def)

lemmas mode_policies = auto_mode_ask_user_question_deny_def auto_mode_approve_def yolo_mode_approve_def
  default_tool_approve_def fallback_ask_def sensitive_file_access_ask_def session_approval_history_def

lemma evaluate_unfold:
  "policy_evaluate env (\<lambda>_. s) ctx = evaluate_from 0 policies env (\<lambda>_. s) ctx"
  by (simp add: policy_evaluate_def)

lemma chain_kind:
  assumes silent: "platform_capability env s ctx = Inr None" and wt: "ge_findWorkTree env = Inr marker"
    and total: "state_total env s ctx"
  shows "\<exists>name res. policy_evaluate env (\<lambda>_. s) ctx = Inr (Some (name, res)) \<and>
           resolution_kind res = expected_kind env marker ctx s"
proof -
  have tr: "list_all (rule_total (ge_pm env) ctx) (ps_rules s)"
    and tp: "list_all (\<lambda>pat. rule_total (ge_pm env) ctx (session_rule pat)) (ps_patterns s)"
    using total by (simp_all add: state_total_def)
  note eval = policy_evaluate_def policies_def silent mode_policies git_control_eval [OF wt] git_write_eval [OF wt]
    resolution_kind_def expected_kind_def
  show ?thesis
  proof (cases "ps_mode s = Auto")
    case True
    from tr show ?thesis
      by (cases rule: user_rule_total [where d = DDeny]) (auto simp: eval True user_result_def)
  next
    case False
    from tr show ?thesis
    proof (cases rule: user_rule_total [where d = DDeny])
      case (hit res)
      then show ?thesis by (auto simp: eval False user_result_def)
    next
      case miss
      note d = miss
      from tp show ?thesis
      proof (cases rule: approval_history_total)
        case (hit rs)
        then show ?thesis by (auto simp: eval False d session_hit_def)
      next
        case miss
        note p = miss
        then have sh: "\<not> session_hit env s ctx" by (simp add: session_hit_def)
        from tr show ?thesis
        proof (cases rule: user_rule_total [where d = DAsk])
          case (hit res)
          then show ?thesis by (auto simp: eval False d p sh user_result_def)
        next
          case miss
          note a = miss
          from tr show ?thesis
          proof (cases rule: user_rule_total [where d = DAllow])
            case (hit res)
            then show ?thesis by (auto simp: eval False d p sh a user_result_def)
          next
            case miss
            then show ?thesis
              by (simp add: eval False d p sh a harmless_def sensitive_access_def)
          qed
        qed
      qed
    qed
  qed
qed

text \<open>
  C20. The whole table of decisions, while the platform policy stays silent and no matcher throws: a call is
  refused exactly if a user deny rule applies or it asks the user in auto mode; otherwise it runs without a
  question exactly in auto mode, or if a session approval applies, or if no ask rule applies and either an
  allow rule does or the call touches no secret and no git control file and the mode is yolo, the tool is
  harmless by default or it writes inside the work tree. Everything else is asked.
\<close>
theorem decision_exact:
  assumes "platform_capability env s ctx = Inr None" and "ge_findWorkTree env = Inr marker"
    and "state_total env s ctx"
  shows "map_sum id (map_option (resolution_kind \<circ> snd)) (policy_evaluate env (\<lambda>_. s) ctx) =
         Inr (Some (if user_hit env s ctx DDeny \<or> ps_mode s = Auto \<and> tc_name ctx = ''AskUserQuestion'' then KDeny
           else if ps_mode s = Auto \<or> session_hit env s ctx \<or>
              \<not> user_hit env s ctx DAsk \<and>
              (user_hit env s ctx DAllow \<or>
               \<not> sensitive_access env ctx \<and> \<not> git_control_access env marker ctx \<and>
               (ps_mode s = Yolo \<or> tc_name ctx \<in> set DEFAULT_APPROVE_TOOLS \<or> trusted_write env marker ctx))
           then KApprove else KAsk))"
  using chain_kind [OF assms] by (auto simp: expected_kind_def harmless_def)

section \<open>A concrete environment\<close>

text \<open>A glob is matched literally, after its escapes are read; \<open>*\<close> alone matches everything.\<close>

definition demo_pm :: matcher where
  "demo_pm nocase v pat =
     (if pat = [] then Inl (Thrown ''Expected pattern to be a non-empty string'')
      else Inr (pat = ''*'' \<or> unescape_subject pat = v))"

definition demo_env :: gate_env where
  "demo_env =
     \<lparr>ge_pm = demo_pm, ge_pathe = plain_paths, ge_relative = (\<lambda>cls cwd p. drop (length cwd + 1) p),
      ge_pathClass = Posix, ge_workDir = ''/w'', ge_additionalDirs = [],
      ge_findWorkTree = Inr (Some \<lparr>gw_root = ''/w'', gw_dotGitPath = ''/w/.git'', gw_controlDirPath = ''/w/.git''\<rparr>),
      ge_platform = None,
      ge_broker = Some (\<lambda>_ _. Inr \<lparr>ar_decision = Approved, ar_session = True, ar_feedback = None\<rparr>),
      ge_sessionId = ''s'', ge_agentId = ''main''\<rparr>"

definition demo_write :: tool_context where
  "demo_write =
     \<lparr>tc_turnId = 1, tc_callId = ''c1'', tc_name = ''Write'', tc_args = JNull,
      tc_execution = \<lparr>ex_accesses = Some [FileAccess OpWrite ''/w/.env'' False], ex_display = None,
        ex_description = None, ex_approvalRule = literalRulePattern ''Write'' ''/w/.env'',
        ex_matchesRule = Some (\<lambda>a. matchesGlobRuleSubject demo_pm a ''/w/.env'')\<rparr>\<rparr>"

definition rule :: "rule_decision \<Rightarrow> string \<Rightarrow> permission_rule" where
  "rule d pat = \<lparr>pr_decision = d, pr_scope = UserScope, pr_pattern = pat, pr_reason = None\<rparr>"

lemma demo_platform: "platform_capability demo_env s ctx = Inr None"
  by (simp add: platform_capability_def demo_env_def split: option.split)

lemma demo_marker: "ge_findWorkTree demo_env =
    Inr (Some \<lparr>gw_root = ''/w'', gw_dotGitPath = ''/w/.git'', gw_controlDirPath = ''/w/.git''\<rparr>)"
  by (simp add: demo_env_def)

lemma demo_yolo_total: "state_total demo_env (initial_perms\<lparr>ps_mode := Yolo\<rparr>) demo_write"
  by (simp add: state_total_def initial_perms_def)

lemma demo_sensitive: "sensitive_access demo_env demo_write"
  by code_simp

theorem decision_exact_witness:
  "map_sum id (map_option (resolution_kind \<circ> snd))
     (policy_evaluate demo_env (\<lambda>_. initial_perms\<lparr>ps_mode := Yolo\<rparr>) demo_write) = Inr (Some KAsk)"
  using decision_exact [OF demo_platform demo_marker demo_yolo_total] demo_sensitive
  by (simp add: user_hit_def session_hit_def initial_perms_def)

section \<open>Adding rules\<close>

fun kind_rank :: "decision_kind \<Rightarrow> nat" where
  "kind_rank KApprove = 0"
| "kind_rank KAsk = 1"
| "kind_rank KDeny = 2"
| "kind_rank KResult = 3"

definition decision_rank :: "gate_env \<Rightarrow> perm_state \<Rightarrow> tool_context \<Rightarrow> nat" where
  "decision_rank env s ctx =
     (case policy_evaluate env (\<lambda>_. s) ctx of Inr (Some (_, res)) \<Rightarrow> kind_rank (resolution_kind res) | _ \<Rightarrow> 3)"

lemma platform_state: "platform_capability env s ctx = platform_capability env s' ctx"
  by (simp add: platform_capability_def)

lemma add_rules_state [simp]:
  "ps_mode (addPermissionRules rs s) = ps_mode s" "ps_patterns (addPermissionRules rs s) = ps_patterns s"
  "ps_rules (addPermissionRules rs s) = ps_rules s @ rs"
  by (simp_all add: addPermissionRules_def)

lemma user_hit_add:
  "user_hit env (addPermissionRules rs s) ctx d \<longleftrightarrow>
     user_hit env s ctx d \<or> user_hit env (s\<lparr>ps_rules := rs\<rparr>) ctx d"
  by (auto simp: user_hit_def)

lemma session_hit_add [simp]: "session_hit env (addPermissionRules rs s) ctx = session_hit env s ctx"
  by (simp add: session_hit_def)

lemma user_hit_only: "list_all (\<lambda>r. pr_decision r \<noteq> d) rs \<Longrightarrow> \<not> user_hit env (s\<lparr>ps_rules := rs\<rparr>) ctx d"
  by (auto simp: user_hit_def list_all_iff list_ex_iff)

lemma decision_rank_expected:
  assumes "platform_capability env s ctx = Inr None" and "ge_findWorkTree env = Inr marker" and "state_total env s ctx"
  shows "decision_rank env s ctx = kind_rank (expected_kind env marker ctx s)"
  using chain_kind [OF assms] by (auto simp: decision_rank_def)

text \<open>
  Adding rules acts in one direction only. Deny and ask rules never turn a refusal or a question into
  something weaker; allow rules never turn a silent run or a question into something stronger, so they
  cannot lift a deny rule.
\<close>
theorem added_rules_monotone:
  assumes "platform_capability env s ctx = Inr None" and "ge_findWorkTree env = Inr marker"
    and "state_total env s ctx" and "list_all (rule_total (ge_pm env) ctx) rs"
  shows "(list_all (\<lambda>r. pr_decision r \<noteq> DAllow) rs \<longrightarrow>
            decision_rank env s ctx \<le> decision_rank env (addPermissionRules rs s) ctx) \<and>
         (list_all (\<lambda>r. pr_decision r = DAllow) rs \<longrightarrow>
            decision_rank env (addPermissionRules rs s) ctx \<le> decision_rank env s ctx)"
proof -
  let ?s = "addPermissionRules rs s"
  have "platform_capability env ?s ctx = Inr None" using assms(1) platform_state by metis
  moreover have "state_total env ?s ctx" using assms(3,4) by (simp add: state_total_def)
  ultimately have after: "decision_rank env ?s ctx = kind_rank (expected_kind env marker ctx ?s)"
    using assms(2) by (intro decision_rank_expected)
  note before = decision_rank_expected [OF assms(1-3)]
  have h: "harmless env marker ctx ?s = harmless env marker ctx s" by (simp add: harmless_def)
  have "kind_rank (expected_kind env marker ctx s) \<le> kind_rank (expected_kind env marker ctx ?s)"
    if restrictive: "list_all (\<lambda>r. pr_decision r \<noteq> DAllow) rs"
    using user_hit_only [OF restrictive, of env s ctx]
    by (auto simp: expected_kind_def h user_hit_add)
  moreover have "kind_rank (expected_kind env marker ctx ?s) \<le> kind_rank (expected_kind env marker ctx s)"
    if permissive: "list_all (\<lambda>r. pr_decision r = DAllow) rs"
  proof -
    have "list_all (\<lambda>r. pr_decision r \<noteq> DDeny) rs" "list_all (\<lambda>r. pr_decision r \<noteq> DAsk) rs"
      using permissive by (auto simp: list_all_iff)
    then show ?thesis using user_hit_only [of DDeny rs env s ctx] user_hit_only [of DAsk rs env s ctx]
      by (auto simp: expected_kind_def h user_hit_add)
  qed
  ultimately show ?thesis by (simp add: before after)
qed

definition denied :: perm_state where
  "denied = initial_perms\<lparr>ps_rules := [rule DDeny ''Write'']\<rparr>"

lemma demo_denied_total: "state_total demo_env denied demo_write"
  by code_simp

lemma demo_allow_total: "list_all (rule_total (ge_pm demo_env) demo_write) [rule DAllow ''*'']"
  by code_simp

lemma demo_rule_allow: "list_all (\<lambda>r. pr_decision r = DAllow) [rule DAllow ''*'']"
  by (simp add: rule_def)

theorem added_rules_monotone_witness:
  "decision_rank demo_env (addPermissionRules [rule DAllow ''*''] denied) demo_write
     \<le> decision_rank demo_env denied demo_write"
  using added_rules_monotone [OF demo_platform demo_marker demo_denied_total demo_allow_total] demo_rule_allow
  by blast

end
