(* ===== verification/Gate_Proofs.thy ===== *)
theory Gate_Proofs imports Permissions_Proofs begin

text \<open>
  The gate over the whole flow of a call: a deny rule is final against every other listener that does not
  allow outright, a question starts only if nobody decides, an approval for the session is remembered, and
  what survives a resume.
\<close>

section \<open>Deny rules are final\<close>

text \<open>A listener that may refuse, pass, defer or fail, but does not allow outright.\<close>

definition stands_aside :: "listener \<Rightarrow> bool" where
  "stands_aside l \<longleftrightarrow>
     (\<forall>e log e'. snd (l e log) = Inr e' \<longrightarrow> be_allowed e' = be_allowed e \<and> be_open e' = be_open e)"

lemma stands_asideD:
  "stands_aside l \<Longrightarrow> l e log = (log', Inr e') \<Longrightarrow> be_allowed e' = be_allowed e \<and> be_open e' = be_open e"
  unfolding stands_aside_def by (metis snd_conv)

lemma platform_results:
  obtains (throws) err where "platform_capability env s ctx = Inl err"
    | (silent) "platform_capability env s ctx = Inr None"
    | (refuses) m where "platform_capability env s ctx = Inr (Some (RDeny [] (Some m)))"
    | (asks) d where "platform_capability env s ctx = Inr (Some (platform_ask d))"
proof (cases "map_of capabilityByTool (tc_name ctx)")
  case None
  with silent show thesis by (simp add: platform_capability_def)
next
  case (Some c)
  show thesis
  proof (cases "ge_platform env")
    case None
    with Some silent show thesis by (simp add: platform_capability_def)
  next
    case (Some platform)
    define q where "q = \<lparr>pq_requestId = ''tool_'' @ sanitize (tc_callId ctx) @ ''_'' @ sanitize (show_nat (tc_turnId ctx)),
      pq_capability = c, pq_action = (case ex_description (tc_execution ctx) of None \<Rightarrow> tc_name ctx | Some d \<Rightarrow> d),
      pq_toolName = tc_name ctx\<rparr>"
    have eq: "platform_capability env s ctx = ebind (platform q) (\<lambda>d. Inr (case pd_outcome d of
        OutAllow \<Rightarrow> None | OutDeny \<Rightarrow> Some (RDeny [] (Some (pd_reason d))) | OutAsk \<Rightarrow> Some (platform_ask d)))"
      using Some \<open>map_of _ _ = Some c\<close> by (simp add: platform_capability_def q_def)
    show thesis
    proof (cases "platform q")
      case (Inl err)
      with eq throws show thesis by simp
    next
      case (Inr d)
      with eq silent refuses asks show thesis by (cases "pd_outcome d") auto
    qed
  qed
qed

lemma first_match_hit:
  assumes "r \<in> set rules" and "pr_decision r = d" and "rule_hit pm ctx r"
  shows "(\<exists>err. first_match pm d ctx rules = Inl err) \<or> (\<exists>m. first_match pm d ctx rules = Inr (Some m))"
  using assms(1)
proof (induction rules)
  case (Cons q qs)
  from assms(3) obtain m where m: "matchPermissionRule pm r (tc_name ctx) (tc_execution ctx) = Inr (Some m)"
    by (auto simp: rule_hit_def split: sum.splits option.splits)
  show ?case
  proof (cases "q = r")
    case True
    with m assms(2) show ?thesis by simp
  next
    case False
    with Cons have ih: "(\<exists>err. first_match pm d ctx qs = Inl err) \<or> (\<exists>m. first_match pm d ctx qs = Inr (Some m))"
      by simp
    show ?thesis
    proof (cases "matchPermissionRule pm q (tc_name ctx) (tc_execution ctx)")
      case (Inr m')
      with ih show ?thesis by (cases m') auto
    qed (use ih in auto)
  qed
qed simp

lemma deny_policy_hit:
  assumes "r \<in> set (ps_rules s)" and "pr_decision r = DDeny" and "pr_scope r \<in> set USER_CONFIGURED_SCOPES"
    and "rule_hit (ge_pm env) ctx r"
  shows "(\<exists>err. evaluateUserConfiguredRule DDeny env s ctx = Inl err) \<or>
         (\<exists>m. evaluateUserConfiguredRule DDeny env s ctx = Inr (Some (RDeny [] (Some m))))"
proof -
  have "r \<in> set (filter (\<lambda>rule. pr_scope rule \<in> set USER_CONFIGURED_SCOPES) (ps_rules s))" using assms by simp
  from first_match_hit [OF this assms(2,4)] show ?thesis
    by (auto simp: evaluateUserConfiguredRule_def firstMatchingRule_def)
qed

text \<open>What the chain says when a deny rule applies and the platform does not ask.\<close>

lemma chain_denies:
  assumes "r \<in> set (ps_rules (st 2))" and "pr_decision r = DDeny" and "pr_scope r \<in> set USER_CONFIGURED_SCOPES"
    and "rule_hit (ge_pm env) ctx r"
    and noask: "\<And>d. platform_capability env (st 0) ctx \<noteq> Inr (Some (platform_ask d))"
  shows "(\<exists>err. policy_evaluate env st ctx = Inl err) \<or>
         (\<exists>name m. policy_evaluate env st ctx = Inr (Some (name, RDeny [] (Some m))))"
proof -
  note eval = policy_evaluate_def policies_def
  have three: "Suc (Suc 0) = 2" by simp
  show ?thesis
  proof (cases rule: platform_results [of env "st 0" ctx])
    case silent
    show ?thesis
    proof (cases "ps_mode (st 1) = Auto \<and> tc_name ctx = ''AskUserQuestion''")
      case True
      then show ?thesis by (simp add: eval silent auto_mode_ask_user_question_deny_def)
    next
      case False
      then have "auto_mode_ask_user_question_deny env (st (Suc 0)) ctx = Inr None"
        by (auto simp: auto_mode_ask_user_question_deny_def)
      with deny_policy_hit [OF assms(1-4)] show ?thesis by (auto simp: eval silent three)
    qed
  qed (use noask in \<open>auto simp: eval\<close>)
qed

lemma adjudicate_denies:
  assumes "(\<exists>err. policy_evaluate env st ctx = Inl err) \<or>
           (\<exists>name m. policy_evaluate env st ctx = Inr (Some (name, RDeny [] (Some m))))"
    and "be_open e"
  shows "(\<exists>log' err. adjudicate env st ctx e log = (log', Inl err)) \<or>
         (\<exists>log' e' r. adjudicate env st ctx e log = (log', Inr e') \<and> be_veto e' = Some r \<and> be_allowed e' = be_allowed e)"
  using assms(1)
proof (elim disjE exE)
  fix err
  assume "policy_evaluate env st ctx = Inl err"
  then show ?thesis by (simp add: adjudicate_def)
next
  fix name m
  assume "policy_evaluate env st ctx = Inr (Some (name, RDeny [] (Some m)))"
  with assms(2) show ?thesis
    by (simp add: adjudicate_def veto_decision_def ev_veto_def when_open_def split: option.split)
qed

lemma run_listeners_vetoed:
  assumes aside: "\<And>l. l \<in> set before \<Longrightarrow> stands_aside l" and "be_open e" and "\<not> be_allowed e"
    and gate: "\<And>e log. be_open e \<Longrightarrow> (\<exists>log' err. g e log = (log', Inl err)) \<or>
       (\<exists>log' e' r. g e log = (log', Inr e') \<and> be_veto e' = Some r \<and> be_allowed e' = be_allowed e)"
  shows "(\<exists>log' err. run_listeners (before @ g # after) e log = (log', Inl err)) \<or>
         (\<exists>log' r. run_listeners (before @ g # after) e log = (log', Inr (Inr (veto_decision r))))"
  using assms(1-3)
proof (induction before arbitrary: e log)
  case Nil
  from gate [OF Nil(2), of log] Nil(3) show ?case by (auto simp: gbind_def)
next
  case (Cons l ls)
  show ?case
  proof (cases "l e log")
    case (Pair log1 res)
    show ?thesis
    proof (cases res)
      case (Inl err)
      with Pair show ?thesis by (simp add: gbind_def)
    next
      case (Inr e1)
      with Pair have le: "l e log = (log1, Inr e1)" by simp
      have st: "be_allowed e1 = be_allowed e" "be_open e1 = be_open e"
        using stands_asideD [where l = l and e = e and log = log, OF _ le] Cons.prems(1) by auto
      show ?thesis
      proof (cases "be_veto e1")
        case None
        have "(\<exists>log' err. run_listeners (ls @ g # after) e1 log1 = (log', Inl err)) \<or>
              (\<exists>log' r. run_listeners (ls @ g # after) e1 log1 = (log', Inr (Inr (veto_decision r))))"
          using Cons.prems st by (intro Cons.IH) auto
        with None le st Cons.prems(3) show ?thesis by (simp add: gbind_def)
      next
        case (Some r)
        with le st Cons.prems(3) show ?thesis by (auto simp: gbind_def)
      qed
    qed
  qed
qed

text \<open>
  C21. A deny rule of the user is final: whatever the mode, the other rules, the approvals remembered and the
  answers a user would give, and whatever listeners run before or after the gate, as long as none before it
  allows outright, a call the rule matches is vetoed or fails, unless the platform policy asks about it.
\<close>
theorem deny_rule_final:
  assumes "r \<in> set (ps_rules (st 2))" and "pr_decision r = DDeny" and "pr_scope r \<in> set USER_CONFIGURED_SCOPES"
    and "rule_hit (ge_pm env) ctx r"
    and "\<And>d. platform_capability env (st 0) ctx \<noteq> Inr (Some (platform_ask d))"
    and "\<And>l. l \<in> set before \<Longrightarrow> stands_aside l"
  shows "(\<exists>err. snd (fireBeforeExecute False (before @ adjudicate env st ctx # after) log) = Inl err) \<or>
         (\<exists>v. snd (fireBeforeExecute False (before @ adjudicate env st ctx # after) log) = Inr (veto_decision v))"
proof -
  note gate = adjudicate_denies [OF chain_denies [OF assms(1-5)]]
  have "be_open new_event" "\<not> be_allowed new_event" by (simp_all add: new_event_def)
  have "(\<exists>log' err. run_listeners (before @ adjudicate env st ctx # after) new_event log = (log', Inl err)) \<or>
        (\<exists>log' r. run_listeners (before @ adjudicate env st ctx # after) new_event log =
           (log', Inr (Inr (veto_decision r))))"
    using assms(6) by (rule run_listeners_vetoed) (use gate in \<open>auto simp: new_event_def\<close>)
  then show ?thesis by (auto simp: fireBeforeExecute_def gbind_def)
qed

lemma demo_rule_hit: "rule_hit (ge_pm demo_env) demo_write (rule DDeny ''Write'')"
  by code_simp

theorem deny_rule_final_witness:
  "(\<exists>err. snd (fireBeforeExecute False [adjudicate demo_env (\<lambda>_. denied\<lparr>ps_mode := Auto\<rparr>) demo_write] []) = Inl err) \<or>
   (\<exists>v. snd (fireBeforeExecute False [adjudicate demo_env (\<lambda>_. denied\<lparr>ps_mode := Auto\<rparr>) demo_write] []) =
        Inr (veto_decision v))"
  using deny_rule_final [of "rule DDeny ''Write''" "\<lambda>_. denied\<lparr>ps_mode := Auto\<rparr>" demo_env demo_write "[]" "[]" "[]"]
    demo_rule_hit
  by (simp add: demo_platform denied_def rule_def USER_CONFIGURED_SCOPES_def)

section \<open>Questions stay cold\<close>

definition is_request :: "gate_event \<Rightarrow> bool" where
  "is_request ev = (case ev of ApprovalRequested _ _ \<Rightarrow> True | _ \<Rightarrow> False)"

definition requests :: "gate_event list \<Rightarrow> gate_event list" where
  "requests log = filter is_request log"

definition asks_nothing :: "listener \<Rightarrow> bool" where
  "asks_nothing l \<longleftrightarrow> (\<forall>e log. requests (fst (l e log)) = requests log)"

lemma requests_append [simp]: "requests (a @ b) = requests a @ requests b"
  by (simp add: requests_def)

lemma requests_decided [simp]: "requests [decided n r] = []"
  by (simp add: requests_def decided_def is_request_def)

lemma when_open_log [simp]: "fst (when_open n e e' log) = log"
  by (simp add: when_open_def)

text \<open>The gate itself never asks while listeners still speak: it only hands over a cold factory.\<close>

lemma adjudicate_asks_nothing: "asks_nothing (adjudicate env st ctx)"
  unfolding asks_nothing_def
proof (intro allI)
  fix e log
  show "requests (fst (adjudicate env st ctx e log)) = requests log"
  proof (cases "policy_evaluate env st ctx")
    case (Inl err)
    then show ?thesis by (simp add: adjudicate_def)
  next
    case (Inr ev)
    show ?thesis
    proof (cases ev)
      case None
      with Inr show ?thesis by (simp add: adjudicate_def)
    next
      case (Some p)
      obtain name res where p: "p = (name, res)" by (cases p)
      show ?thesis
        by (cases res) (auto simp: adjudicate_def Inr Some p ev_waitUntil_def ev_pass_def ev_veto_def
            veto_decision_def split: option.split)
    qed
  qed
qed

lemma run_listeners_requests:
  "(\<And>l. l \<in> set ls \<Longrightarrow> asks_nothing l) \<Longrightarrow> requests (fst (run_listeners ls e log)) = requests log"
proof (induction ls arbitrary: e log)
  case (Cons l ls)
  obtain log1 res where le: "l e log = (log1, res)" by (cases "l e log")
  then have "requests log1 = requests log" using Cons.prems [of l] by (simp add: asks_nothing_def) (metis fst_conv)
  then show ?case using Cons.IH [of "case res of Inr e' \<Rightarrow> e'" log1] Cons.prems le
    by (cases res) (auto simp: gbind_def split: option.split)
qed simp

text \<open>A listener that, once reached, ends the first pass: it vetoes, allows or fails.\<close>

definition decides :: "listener \<Rightarrow> bool" where
  "decides l \<longleftrightarrow> (\<forall>e log e'. snd (l e log) = Inr e' \<longrightarrow> be_allowed e' \<or> be_veto e' \<noteq> None)"

lemma run_listeners_decided:
  assumes "decides d" and "d \<in> set ls"
  shows "\<nexists>e' log'. run_listeners ls e log = (log', Inr (Inl e'))"
  using assms(2)
proof (induction ls arbitrary: e log)
  case (Cons l ls)
  show ?case
  proof (cases "l e log")
    case (Pair log1 res)
    show ?thesis
    proof (cases res)
      case (Inl err)
      with Pair show ?thesis by (simp add: gbind_def)
    next
      case (Inr e1)
      have "be_allowed e1 \<or> be_veto e1 \<noteq> None" if "l = d"
        using assms(1) that Pair Inr unfolding decides_def by (metis snd_conv)
      moreover have "\<nexists>e' log'. run_listeners ls e1 log1 = (log', Inr (Inl e'))" if "l \<noteq> d"
        using Cons that by auto
      ultimately show ?thesis using Pair Inr by (cases "l = d") (auto simp: gbind_def split: option.split)
    qed
  qed
qed simp

text \<open>
  A question never starts while another listener decides the call: if some listener, before or after the
  gate, vetoes, allows or fails, the user is not asked, whatever the policy chain answered.
\<close>
theorem questions_stay_cold:
  assumes "\<And>l. l \<in> set (before @ after) \<Longrightarrow> asks_nothing l"
    and "d \<in> set (before @ after)" and "decides d"
  shows "requests (fst (fireBeforeExecute False (before @ adjudicate env st ctx # after) log)) = requests log"
proof -
  let ?ls = "before @ adjudicate env st ctx # after"
  have "asks_nothing l" if "l \<in> set ?ls" for l using that assms(1) adjudicate_asks_nothing by auto
  then have log: "requests (fst (run_listeners ?ls new_event log)) = requests log" by (rule run_listeners_requests)
  have "\<nexists>e' log'. run_listeners ?ls new_event log = (log', Inr (Inl e'))"
    using assms(2,3) by (intro run_listeners_decided) auto
  then obtain log' res where "run_listeners ?ls new_event log = (log', res)" "\<And>e'. res \<noteq> Inr (Inl e')"
    by (metis surj_pair)
  with log show ?thesis
    by (cases res rule: sum.exhaust) (auto simp: fireBeforeExecute_def gbind_def split: sum.splits)
qed

definition refusing :: listener where
  "refusing = ev_veto (denyToolExecution ''Plan mode is active.'')"

lemma refusing_asks_nothing: "asks_nothing refusing"
  by (simp add: asks_nothing_def refusing_def ev_veto_def)

lemma refusing_decides: "decides refusing"
  by (auto simp: decides_def refusing_def ev_veto_def when_open_def split: if_splits option.splits)

theorem questions_stay_cold_witness:
  "requests (fst (fireBeforeExecute False
      [adjudicate demo_env (\<lambda>_. initial_perms) demo_write, refusing] [])) = []"
  using questions_stay_cold [of "[]" "[refusing]" refusing demo_env "\<lambda>_. initial_perms" demo_write "[]"]
    refusing_asks_nothing refusing_decides
  by (simp add: requests_def)

end
