(* ===== verification/Approval_Proofs.thy ===== *)
theory Approval_Proofs imports Gate_Proofs begin

text \<open>
  Approvals for the session: the pattern a tool records is read back as the call it was given for, the same
  call is not asked again, and where the memory is wider or narrower than the call.
\<close>

section \<open>Reading a recorded pattern\<close>

text \<open>A tool name as the tools have them: no parenthesis, no space at its ends.\<close>

definition plain_tool :: "string \<Rightarrow> bool" where
  "plain_tool n \<longleftrightarrow> n \<noteq> [] \<and> CHR ''('' \<notin> set n \<and> \<not> js_space (hd n) \<and> \<not> js_space (last n)"

lemma js_trim_ends:
  assumes "s \<noteq> []" and "\<not> js_space (hd s)" and "\<not> js_space (last s)"
  shows "js_trim s = s"
proof -
  have "dropWhile js_space s = s" using assms by (cases s) auto
  moreover have "dropWhile js_space (rev s) = rev s" using assms by (cases s rule: rev_cases) auto
  ultimately show ?thesis by (simp add: js_trim_def)
qed

lemma parse_literal:
  assumes "plain_tool n"
  shows "parsePattern (literalRulePattern n s) =
           Inr \<lparr>pp_toolName = n, pp_argPattern = (if s = [] then None else Some (escapeRuleSubjectLiteral s))\<rparr>"
proof -
  have tw: "takeWhile (\<lambda>c. c \<noteq> CHR ''('') (n @ CHR ''('' # escapeRuleSubjectLiteral s @ '')'') = n"
    using assms by (subst takeWhile_append2) (auto simp: plain_tool_def)
  have "js_trim (literalRulePattern n s) = literalRulePattern n s"
    using assms by (intro js_trim_ends) (auto simp: literalRulePattern_def plain_tool_def js_space_def)
  then show ?thesis
    using assms tw by (simp add: parsePattern_def Let_def literalRulePattern_def plain_tool_def)
qed

lemma parse_plain: "plain_tool n \<Longrightarrow> parsePattern n = Inr \<lparr>pp_toolName = n, pp_argPattern = None\<rparr>"
  by (auto simp: parsePattern_def Let_def plain_tool_def js_trim_ends)

section \<open>The call is remembered\<close>

definition approved_for_session :: "gate_env \<Rightarrow> bool" where
  "approved_for_session env =
     (case ge_broker env of
        None \<Rightarrow> False
      | Some broker \<Rightarrow> \<forall>q n. \<exists>fb. broker q n = Inr \<lparr>ar_decision = Approved, ar_session = True, ar_feedback = fb\<rparr>)"

lemma perms_after_append [simp]: "perms_after (a @ b) s = perms_after b (perms_after a s)"
  by (simp add: perms_after_def)

lemma record_adds:
  "ap_sessionApprovalRule r = Some pat \<Longrightarrow> ar_decision (ap_result r) = Approved \<Longrightarrow> ar_session (ap_result r) \<Longrightarrow>
     pat \<in> set (ps_patterns (recordApprovalResult r s))"
  by (simp add: recordApprovalResult_def)

text \<open>A plain question answered with an approval for the session: the call runs, its pattern is recorded.\<close>

lemma approval_recorded:
  assumes "policy_evaluate env st ctx = Inr (Some (origin, plain_ask))" and "approved_for_session env"
  shows "snd (authorize env st ctx log) = Inr None \<and>
         ex_approvalRule (tc_execution ctx) \<in> set (ps_patterns (perms_after (fst (authorize env st ctx log)) s))"
proof -
  obtain broker where b: "ge_broker env = Some broker"
    using assms(2) by (auto simp: approved_for_session_def split: option.splits)
  obtain fb where fb: "broker (build_request env ctx) (Suc (length log)) =
      Inr \<lparr>ar_decision = Approved, ar_session = True, ar_feedback = fb\<rparr>"
    using assms(2) b by (fastforce simp: approved_for_session_def)
  show ?thesis
    by (simp add: authorize_def assms(1) request_approval_def b fb answer_approval_def session_approval_rule_def
        Let_def perms_after_def dispatched_def decided_def record_adds)
qed

lemma session_node_runs:
  assumes "platform_capability env s ctx = Inr None" and "ps_mode s \<noteq> Auto" and "state_total env s ctx"
    and "\<not> user_hit env s ctx DDeny" and "session_hit env s ctx"
  shows "\<exists>ev. authorize env (\<lambda>_. s) ctx log = (log @ [ev], Inr None) \<and> requests [ev] = []"
proof -
  have "list_all (rule_total (ge_pm env) ctx) (ps_rules s)"
    and tp: "list_all (\<lambda>pat. rule_total (ge_pm env) ctx (session_rule pat)) (ps_patterns s)"
    using assms(3) by (simp_all add: state_total_def)
  then have d: "evaluateUserConfiguredRule DDeny env s ctx = Inr None"
    using assms(4) by (cases rule: user_rule_total [where d = DDeny]) auto
  from tp obtain rs where "approval_history (ge_pm env) ctx (ps_patterns s) = Inr (Some (RApprove rs None))"
    using assms(5) by (cases rule: approval_history_total) (auto simp: session_hit_def)
  then have "policy_evaluate env (\<lambda>_. s) ctx = Inr (Some (''session-approval-history'', RApprove rs None))"
    using assms(1,2) d by (simp add: policy_evaluate_def policies_def mode_policies)
  then show ?thesis by (simp add: authorize_def)
qed

text \<open>The tests that the tools offer for their subject.\<close>

definition offers_subject :: "gate_env \<Rightarrow> execution \<Rightarrow> string \<Rightarrow> bool" where
  "offers_subject env ex subject \<longleftrightarrow>
     ex_matchesRule ex = Some (\<lambda>a. matchesGlobRuleSubject (ge_pm env) a subject) \<or>
     (\<exists>opts. ex_matchesRule ex = Some (\<lambda>a. matchesPathRuleSubject (ge_pm env) (ge_pathe env) a subject opts))"

lemma literal_rule_hit:
  assumes "plain_tool (tc_name ctx)" and "ge_pm env False (tc_name ctx) (tc_name ctx) = Inr True"
    and "\<And>nocase. subject \<noteq> [] \<Longrightarrow> ge_pm env nocase subject (escapeRuleSubjectLiteral subject) = Inr True"
    and "offers_subject env (tc_execution ctx) subject"
  shows "rule_hit (ge_pm env) ctx (session_rule (literalRulePattern (tc_name ctx) subject))"
proof (cases "subject = []")
  case True
  with assms(1,2) show ?thesis
    by (simp add: rule_hit_def matchPermissionRule_def session_rule_def parse_literal)
next
  case False
  have lit: "matchesGlobRuleSubject (ge_pm env) (escapeRuleSubjectLiteral subject) subject = Inr True"
    "matchesPathRuleSubject (ge_pm env) (ge_pathe env) (escapeRuleSubjectLiteral subject) subject opts = Inr True" for opts
    using False assms(3) by (intro matchesGlob_literal matchesPath_literal; simp)+
  from assms(4) show ?thesis
    unfolding offers_subject_def
    using assms(1,2) False lit
    by (elim disjE exE) (simp_all add: rule_hit_def matchPermissionRule_def session_rule_def parse_literal)
qed

text \<open>
  The subjects whose escaped form picomatch reads back. A pattern that is the subject itself matches it (picomatch compares
  the two before it parses), and a backslash makes the character after it literal; but the parser drops double
  quotes and null characters, folds a run of backslashes and strips a leading \<open>./\<close> of the pattern, and
  refuses patterns of more than 65536 characters.
\<close>

definition literal_subject :: "string \<Rightarrow> bool" where
  "literal_subject s \<longleftrightarrow> length (escapeRuleSubjectLiteral s) \<le> 65536 \<and>
     (escapeRuleSubjectLiteral s = s \<or> set s \<inter> {CHR 0x22, CHR 0x5C, CHR 0x00} = {} \<and> \<not> prefix ''./'' s)"

definition reads_escapes :: "matcher \<Rightarrow> bool" where
  "reads_escapes pm \<longleftrightarrow>
     (\<forall>nocase s. s \<noteq> [] \<longrightarrow> literal_subject s \<longrightarrow> pm nocase s (escapeRuleSubjectLiteral s) = Inr True)"


lemma demo_reads: "reads_escapes (ge_pm demo_env)"
  unfolding reads_escapes_def by (auto simp: demo_env_def demo_pm_def unescape_escape)

lemma demo_literal_subject: "literal_subject ''/w/.env''"
  by code_simp

lemma demo_asked: "policy_evaluate demo_env (\<lambda>_. initial_perms) demo_write =
    Inr (Some (''sensitive-file-access-ask'', plain_ask))"
proof -
  have "sensitive_file_access_ask demo_env initial_perms demo_write = Inr (Some plain_ask)"
    using demo_sensitive by (simp add: sensitive_file_access_ask_def sensitive_access_def)
  then show ?thesis
    by (simp add: policy_evaluate_def policies_def demo_platform evaluateUserConfiguredRule_def firstMatchingRule_def
        auto_mode_ask_user_question_deny_def auto_mode_approve_def session_approval_history_def initial_perms_def)
qed

lemma demo_approved: "approved_for_session demo_env"
  by (simp add: approved_for_session_def demo_env_def)

lemma demo_name: "ge_pm demo_env False (tc_name demo_write) (tc_name demo_write) = Inr True" "plain_tool (tc_name demo_write)"
  by code_simp+

lemma demo_offers: "offers_subject demo_env (tc_execution demo_write) ''/w/.env''"
  by (simp add: offers_subject_def demo_write_def demo_env_def)

definition demo_after :: perm_state where
  "demo_after = perms_after (fst (authorize demo_env (\<lambda>_. initial_perms) demo_write [])) initial_perms"

lemma demo_after_state: "ps_mode demo_after = Manual \<and> ps_rules demo_after = [] \<and>
    ps_patterns demo_after = [literalRulePattern ''Write'' ''/w/.env'']"
  unfolding demo_after_def authorize_def demo_asked
  by (simp add: request_approval_def demo_env_def answer_approval_def session_approval_rule_def Let_def
      perms_after_def dispatched_def decided_def recordApprovalResult_def initial_perms_def demo_write_def)

lemma demo_after_total: "state_total demo_env demo_after demo_write"
proof -
  have "rule_hit (ge_pm demo_env) demo_write (session_rule (literalRulePattern (tc_name demo_write) ''/w/.env''))"
    using demo_name demo_reads demo_literal_subject demo_offers by (intro literal_rule_hit) (auto simp: reads_escapes_def)
  then show ?thesis
    by (auto simp: state_total_def demo_after_state rule_hit_def rule_total_def demo_write_def split: sum.splits)
qed


section \<open>Wider and narrower than the call\<close>

text \<open>An empty subject leaves a pattern without arguments, so the approval covers the whole tool.\<close>

lemma empty_subject_whole_tool:
  assumes "plain_tool (tc_name ctx)" and "ge_pm env False (tc_name ctx) (tc_name ctx) = Inr True"
  shows "rule_hit (ge_pm env) ctx (session_rule (literalRulePattern (tc_name ctx) []))"
  using assms by (simp add: rule_hit_def matchPermissionRule_def session_rule_def parse_literal)

text \<open>
  The dot and slash that \<open>globMatch\<close> strips for paths are stripped from commands as well: the pattern recorded
  for a command also accepts the program of that name in the working directory.
\<close>

lemma approval_covers_dot_slash:
  assumes "subject \<noteq> []" and "\<And>nocase. pm nocase subject (escapeRuleSubjectLiteral subject) = Inr True"
    and "pm False (''./'' @ subject) (escapeRuleSubjectLiteral subject) = Inr b"
    and "\<not> prefix ''./'' subject"
  shows "matchesGlobRuleSubject pm (escapeRuleSubjectLiteral subject) (''./'' @ subject) = Inr True"
proof -
  have esc: "\<not> prefix ''./'' (escapeRuleSubjectLiteral subject)"
  proof (cases subject)
    case (Cons c s)
    show ?thesis
    proof (cases s)
      case Nil
      then show ?thesis using Cons by (auto simp: escape_Cons GLOB_LITERAL_SPECIAL_def backslash_def)
    next
      case (Cons d t)
      then show ?thesis using \<open>subject = c # s\<close> assms(4)
        by (auto simp: escape_Cons GLOB_LITERAL_SPECIAL_def backslash_def split: if_splits)
    qed
  qed (use assms in simp)
  then have strip: "stripLeadingDotSlash (escapeRuleSubjectLiteral subject) = escapeRuleSubjectLiteral subject"
    by (simp add: stripLeadingDotSlash_def)
  have "stripLeadingDotSlash (''./'' @ subject) = subject" by (simp add: stripLeadingDotSlash_def)
  then have "globMatch pm False (''./'' @ subject) (escapeRuleSubjectLiteral subject) = Inr True"
    using assms(2,3) strip by (auto simp: globMatch_def Let_def)
  then show ?thesis
    using assms(1) by (simp add: matchesGlobRuleSubject_def matchRuleSubjects_def Let_def)
qed

text \<open>
  The rule the platform tools record: it names no tool. A rule that can never match again: it has arguments
  and the call offers no test for them, or it names something that is not the tool.
\<close>

definition PLATFORM_TOOL_APPROVAL :: string where "PLATFORM_TOOL_APPROVAL = ''platform_services''"

definition forgetful :: "gate_env \<Rightarrow> tool_context \<Rightarrow> string \<Rightarrow> bool" where
  "forgetful env ctx subject \<longleftrightarrow>
     subject \<noteq> [] \<and> ex_approvalRule (tc_execution ctx) = literalRulePattern (tc_name ctx) subject \<and>
       plain_tool (tc_name ctx) \<and> ge_pm env False (tc_name ctx) (tc_name ctx) = Inr True \<and>
       ex_matchesRule (tc_execution ctx) = None \<or>
     ex_approvalRule (tc_execution ctx) = PLATFORM_TOOL_APPROVAL \<and>
       ge_pm env False (tc_name ctx) PLATFORM_TOOL_APPROVAL = Inr False"

lemma forgetful_misses:
  assumes "forgetful env ctx subject"
  shows "\<not> rule_hit (ge_pm env) ctx (session_rule (ex_approvalRule (tc_execution ctx))) \<and>
         rule_total (ge_pm env) ctx (session_rule (ex_approvalRule (tc_execution ctx)))"
proof -
  have "plain_tool PLATFORM_TOOL_APPROVAL" "PLATFORM_TOOL_APPROVAL \<noteq> ''*''"
    by (simp_all add: PLATFORM_TOOL_APPROVAL_def plain_tool_def js_space_def)
  then show ?thesis
    using assms unfolding forgetful_def
    by (elim disjE conjE)
       (simp_all add: rule_hit_def rule_total_def matchPermissionRule_def session_rule_def parse_literal parse_plain)
qed

lemma recorded_state:
  assumes "policy_evaluate env st ctx = Inr (Some (origin, plain_ask))" and "approved_for_session env"
  shows "perms_after (fst (authorize env st ctx log)) s =
         perms_after log s\<lparr>ps_patterns := os_add (ex_approvalRule (tc_execution ctx)) (ps_patterns (perms_after log s))\<rparr>"
proof -
  obtain broker where b: "ge_broker env = Some broker"
    using assms(2) by (auto simp: approved_for_session_def split: option.splits)
  obtain fb where fb: "broker (build_request env ctx) (Suc (length log)) =
      Inr \<lparr>ar_decision = Approved, ar_session = True, ar_feedback = fb\<rparr>"
    using assms(2) b by (fastforce simp: approved_for_session_def)
  show ?thesis
    by (simp add: authorize_def assms(1) request_approval_def b fb answer_approval_def session_approval_rule_def
        Let_def perms_after_def dispatched_def decided_def recordApprovalResult_def os_add_def)
qed

text \<open>
  Some approvals for the session are forgotten at once: if the call offers no test for the subject in its
  pattern, or records the rule of the platform tools, the pattern is recorded but never matches, and the same
  call is asked again.
\<close>
theorem session_approval_forgotten:
  assumes "forgetful env ctx subject"
    and "policy_evaluate env (\<lambda>_. s) ctx = Inr (Some (origin, plain_ask))" and "approved_for_session env"
    and "platform_capability env s ctx = Inr None" and "ge_findWorkTree env = Inr marker" and "state_total env s ctx"
    and "s' = perms_after (fst (authorize env (\<lambda>_. s) ctx [])) s"
  shows "ex_approvalRule (tc_execution ctx) \<in> set (ps_patterns s') \<and>
         map_sum id (map_option (resolution_kind \<circ> snd)) (policy_evaluate env (\<lambda>_. s') ctx) = Inr (Some KAsk)"
proof -
  let ?p = "ex_approvalRule (tc_execution ctx)"
  have s': "s' = s\<lparr>ps_patterns := os_add ?p (ps_patterns s)\<rparr>"
    using recorded_state [OF assms(2,3), of "[]" s] assms(7) by (simp add: perms_after_def)
  have "expected_kind env marker ctx s = KAsk"
    using chain_kind [OF assms(4-6)] assms(2) by (auto simp: resolution_kind_def)
  moreover have "session_hit env s' ctx = session_hit env s ctx" "user_hit env s' ctx d = user_hit env s ctx d"
    "harmless env marker ctx s' = harmless env marker ctx s" for d
    using forgetful_misses [OF assms(1)]
    by (auto simp: s' session_hit_def user_hit_def harmless_def list_ex_iff)
  ultimately have "expected_kind env marker ctx s' = KAsk" by (simp add: expected_kind_def s' split: if_splits)
  moreover have "state_total env s' ctx"
    using assms(6) forgetful_misses [OF assms(1)] by (auto simp: s' state_total_def list_all_iff)
  moreover have "platform_capability env s' ctx = Inr None" using assms(4) platform_state by metis
  ultimately show ?thesis using chain_kind [of env s' ctx marker] assms(5) by (auto simp: s')
qed

definition demo_cron :: tool_context where
  "demo_cron =
     \<lparr>tc_turnId = 1, tc_callId = ''c2'', tc_name = ''CronCreate'', tc_args = JNull,
      tc_execution = \<lparr>ex_accesses = None, ex_display = None, ex_description = None,
        ex_approvalRule = literalRulePattern ''CronCreate'' ''0 9 * * *'', ex_matchesRule = None\<rparr>\<rparr>"

lemma demo_cron_forgetful: "forgetful demo_env demo_cron ''0 9 * * *''"
  by code_simp

lemma demo_cron_total: "state_total demo_env initial_perms demo_cron"
  by (simp add: state_total_def initial_perms_def)

lemma demo_cron_asked: "policy_evaluate demo_env (\<lambda>_. initial_perms) demo_cron = Inr (Some (''fallback-ask'', plain_ask))"
  by (simp add: policy_evaluate_def policies_def demo_platform evaluateUserConfiguredRule_def firstMatchingRule_def
      mode_policies initial_perms_def demo_cron_def fileAccesses_def git_control_path_access_ask_def
      git_cwd_write_approve_def DEFAULT_APPROVE_TOOLS_def Let_def)

theorem session_approval_forgotten_witness:
  "\<exists>s'. map_sum id (map_option (resolution_kind \<circ> snd)) (policy_evaluate demo_env (\<lambda>_. s') demo_cron) = Inr (Some KAsk) \<and>
        literalRulePattern ''CronCreate'' ''0 9 * * *'' \<in> set (ps_patterns s')"
  using session_approval_forgotten [OF demo_cron_forgetful demo_cron_asked demo_approved demo_platform demo_marker
      demo_cron_total refl]
  unfolding demo_cron_def by auto

section \<open>Resuming a session\<close>

text \<open>
  Replaying the persisted operations of a session restores its mode and the approvals remembered, in
  order, and none of its rules: a host has to supply the rules again.
\<close>

lemma replay_restores_approvals:
  "fold perm_apply (filter perm_persisted ops) initial_perms =
     (fold perm_apply ops initial_perms)\<lparr>ps_rules := []\<rparr>"
proof -
  have "fold perm_apply (filter perm_persisted ops) (s\<lparr>ps_rules := []\<rparr>) = (fold perm_apply ops s)\<lparr>ps_rules := []\<rparr>" for s
  proof (induction ops arbitrary: s)
    case (Cons op ops)
    have "perm_apply op (s\<lparr>ps_rules := []\<rparr>) = (perm_apply op s)\<lparr>ps_rules := []\<rparr>" if "perm_persisted op"
      using that by (cases op) (auto simp: recordApprovalResult_def split: option.split)
    moreover have "s\<lparr>ps_rules := []\<rparr> = (perm_apply op s)\<lparr>ps_rules := []\<rparr>" if "\<not> perm_persisted op"
      using that by (cases op) (auto simp: addPermissionRules_def)
    ultimately show ?case using Cons.IH by simp
  qed simp
  from this [of initial_perms] show ?thesis by (simp add: initial_perms_def)
qed

end
