(* ===== verification/ToolPolicy.thy ===== *)
theory ToolPolicy imports Paths begin

text \<open>
  Which tools an agent has at all: the policy layers of \<^verbatim>\<open>agent/toolPolicy/evaluate.ts\<close>, the guard that
  \<^verbatim>\<open>toolPolicyService.ts\<close> installs, and the check that warns about entries of a policy that cannot act.
\<close>

section \<open>One policy\<close>

datatype tool_source = Builtin | UserTool | Mcp

definition isMcpToolName :: "string \<Rightarrow> bool" where
  "isMcpToolName name = prefix ''mcp__'' name"

record activation_policy =
  tp_tools :: "string list option"
  tp_disallowed :: "string list option"

definition mcp_match :: "matcher \<Rightarrow> string \<Rightarrow> string list \<Rightarrow> js_error + bool" where
  "mcp_match pm name patterns = esome (\<lambda>pattern. pm False name pattern) (filter isMcpToolName patterns)"

definition isToolActive :: "matcher \<Rightarrow> activation_policy \<Rightarrow> string \<Rightarrow> tool_source \<Rightarrow> js_error + bool" where
  "isToolActive pm policy name source =
     ebind (case tp_tools policy of
              None \<Rightarrow> Inr True
            | Some tools \<Rightarrow> if source \<noteq> Mcp then Inr (name \<in> set tools) else mcp_match pm name tools) (\<lambda>allowed.
       if \<not> allowed then Inr False
       else case tp_disallowed policy of
              None \<Rightarrow> Inr True
            | Some dis \<Rightarrow>
                if source \<noteq> Mcp then Inr (name \<notin> set dis)
                else ebind (mcp_match pm name dis) (\<lambda>hit. Inr (\<not> hit)))"

section \<open>Layers\<close>

record global_policy =
  gp_enabled :: "string list option"
  gp_disabled :: "string list option"

record policy_layers =
  pl_workspaceDisabled :: "string list option"
  pl_profile :: activation_policy
  pl_global :: "global_policy option"
  pl_sessionDisabled :: "string list option"

definition deny_only :: "string list option \<Rightarrow> activation_policy" where
  "deny_only dis = \<lparr>tp_tools = None, tp_disallowed = dis\<rparr>"

definition global_layer :: "global_policy option \<Rightarrow> activation_policy" where
  "global_layer g =
     \<lparr>tp_tools = (case Option.bind g gp_enabled of None \<Rightarrow> None | Some [] \<Rightarrow> None | Some ts \<Rightarrow> Some ts),
      tp_disallowed = Option.bind g gp_disabled\<rparr>"

definition eand :: "'e + bool \<Rightarrow> 'e + bool \<Rightarrow> 'e + bool" where
  "eand a b = ebind a (\<lambda>x. if x then b else Inr False)"

definition isToolActiveComposed :: "matcher \<Rightarrow> policy_layers \<Rightarrow> string \<Rightarrow> tool_source \<Rightarrow> js_error + bool" where
  "isToolActiveComposed pm layers name source =
     eand (isToolActive pm (deny_only (pl_workspaceDisabled layers)) name source)
       (eand (isToolActive pm (pl_profile layers) name source)
         (eand (isToolActive pm (global_layer (pl_global layers)) name source)
           (isToolActive pm (deny_only (pl_sessionDisabled layers)) name source)))"

fun efilter :: "('a \<Rightarrow> 'e + bool) \<Rightarrow> 'a list \<Rightarrow> 'e + 'a list" where
  "efilter f [] = Inr []"
| "efilter f (x # xs) = ebind (f x) (\<lambda>keep. ebind (efilter f xs) (\<lambda>ys. Inr (if keep then x # ys else ys)))"

definition resolveActiveToolNames :: "matcher \<Rightarrow> activation_policy \<Rightarrow> js_error + string list option" where
  "resolveActiveToolNames pm policy =
     (case tp_tools policy of
        None \<Rightarrow> Inr None
      | Some tools \<Rightarrow>
          ebind (efilter (\<lambda>name. isToolActive pm policy name (if isMcpToolName name then Mcp else Builtin)) tools)
            (\<lambda>names. Inr (Some names)))"

section \<open>Entries that cannot act\<close>

datatype inactive_kind = WildcardNotMcp | IncompleteMcpName | UnknownTool

definition GLOB_MAGIC :: string where "GLOB_MAGIC = ''*?[]{}''"

definition has_magic :: "string \<Rightarrow> bool" where
  "has_magic s = list_ex (\<lambda>c. c \<in> set GLOB_MAGIC) s"

definition literalToolNames :: "string list \<Rightarrow> string list" where
  "literalToolNames patterns = filter (\<lambda>p. \<not> isMcpToolName p \<and> \<not> has_magic p) patterns"

definition inactive_issue :: "(string \<Rightarrow> bool) option \<Rightarrow> string \<Rightarrow> inactive_kind option" where
  "inactive_issue known pat =
     (if isMcpToolName pat then
        if \<not> has_magic pat \<and> \<not> js_includes ''__'' (drop 5 pat) then Some IncompleteMcpName else None
      else if has_magic pat then Some WildcardNotMcp
      else case known of
             None \<Rightarrow> None
           | Some isKnown \<Rightarrow> if isKnown pat then None else Some UnknownTool)"

fun findInactiveToolPatterns :: "string list \<Rightarrow> (string \<Rightarrow> bool) option \<Rightarrow> (string \<times> inactive_kind) list" where
  "findInactiveToolPatterns [] known = []"
| "findInactiveToolPatterns (pat # patterns) known =
     (case inactive_issue known pat of
        Some k \<Rightarrow> (pat, k) # findInactiveToolPatterns patterns known
      | None \<Rightarrow> findInactiveToolPatterns patterns known)"

section \<open>The service\<close>

record policy_sources =
  so_profileName :: "string option"
  so_activeToolNames :: "string list option"
  so_disallowedTools :: "string list option"
  so_workspaceDisabled :: "string list option"
  so_global :: "global_policy option"
  so_sessionDisabled :: "string list"

definition isToolActiveForProfile ::
  "matcher \<Rightarrow> policy_sources \<Rightarrow> activation_policy \<Rightarrow> string \<Rightarrow> tool_source \<Rightarrow> js_error + bool" where
  "isToolActiveForProfile pm so profile name source =
     isToolActiveComposed pm
       \<lparr>pl_workspaceDisabled = so_workspaceDisabled so, pl_profile = profile, pl_global = so_global so,
        pl_sessionDisabled = Some (so_sessionDisabled so)\<rparr> name source"

definition service_isToolActive :: "matcher \<Rightarrow> policy_sources \<Rightarrow> string \<Rightarrow> tool_source \<Rightarrow> js_error + bool" where
  "service_isToolActive pm so name source =
     isToolActiveForProfile pm so
       \<lparr>tp_tools = so_activeToolNames so, tp_disallowed = so_disallowedTools so\<rparr> name source"

definition isToolActiveForDisclosure :: "matcher \<Rightarrow> policy_sources \<Rightarrow> string \<Rightarrow> tool_source \<Rightarrow> js_error + bool" where
  "isToolActiveForDisclosure pm so name source =
     isToolActiveComposed pm
       \<lparr>pl_workspaceDisabled = so_workspaceDisabled so,
        pl_profile = \<lparr>tp_tools = None, tp_disallowed = so_disallowedTools so\<rparr>,
        pl_global = so_global so, pl_sessionDisabled = Some (so_sessionDisabled so)\<rparr> name source"

definition SELECT_TOOLS_TOOL_NAME :: string where "SELECT_TOOLS_TOOL_NAME = ''select_tools''"

text \<open>The guard of the executor: \<^term>\<open>None\<close> lets the call through.\<close>

definition tool_call_guard :: "matcher \<Rightarrow> policy_sources \<Rightarrow> string \<Rightarrow> tool_source \<Rightarrow> js_error + string option" where
  "tool_call_guard pm so name source =
     ebind (if name = SELECT_TOOLS_TOOL_NAME then isToolActiveForDisclosure pm so name source
            else service_isToolActive pm so name source)
       (\<lambda>active. Inr (if active then None
          else Some (''Tool '' @ [char_of (34 :: nat)] @ name @ [char_of (34 :: nat)] @
                     '' is disabled by the active tool policy'')))"

definition setSessionDisabledTools :: "string list \<Rightarrow> policy_sources \<Rightarrow> js_error + policy_sources" where
  "setSessionDisabledTools names so =
     (if so_profileName so = None then
        Inl (Thrown ''Cannot set session disabled tools: agent profile is not bound'')
      else Inr (so\<lparr>so_sessionDisabled := names\<rparr>))"

section \<open>What the layers mean\<close>

definition mcp_total :: "matcher \<Rightarrow> string \<Rightarrow> bool" where
  "mcp_total pm name \<longleftrightarrow> (\<forall>p. isMcpToolName p \<longrightarrow> (\<exists>b. pm False name p = Inr b))"

text \<open>An entry of a list names a tool: by its exact name, or by a glob if the tool comes from a server.\<close>

definition entry_names :: "matcher \<Rightarrow> string \<Rightarrow> tool_source \<Rightarrow> string \<Rightarrow> bool" where
  "entry_names pm name source pat =
     (if source \<noteq> Mcp then pat = name else isMcpToolName pat \<and> pm False name pat = Inr True)"

definition listed :: "matcher \<Rightarrow> string \<Rightarrow> tool_source \<Rightarrow> string list option \<Rightarrow> bool" where
  "listed pm name source l = (case l of None \<Rightarrow> False | Some ps \<Rightarrow> list_ex (entry_names pm name source) ps)"

lemma mcp_match_total:
  assumes "mcp_total pm name"
  shows "mcp_match pm name ps = Inr (list_ex (entry_names pm name Mcp) ps)"
proof -
  have "mcp_match pm name ps = Inr (\<exists>p \<in> set (filter isMcpToolName ps). pm False name p = Inr True)"
    unfolding mcp_match_def using assms by (intro esome_total) (auto simp: mcp_total_def)
  then show ?thesis by (auto simp: list_ex_iff entry_names_def)
qed

lemma active_total:
  assumes "source = Mcp \<longrightarrow> mcp_total pm name"
  shows "isToolActive pm policy name source =
           Inr ((tp_tools policy = None \<or> listed pm name source (tp_tools policy)) \<and>
                \<not> listed pm name source (tp_disallowed policy))"
proof (cases "source = Mcp")
  case True
  then show ?thesis using assms
    by (auto simp: isToolActive_def mcp_match_total listed_def split: option.splits)
next
  case False
  then have "list_ex (entry_names pm name source) ps \<longleftrightarrow> name \<in> set ps" for ps
    by (auto simp: list_ex_iff entry_names_def)
  then show ?thesis using False
    by (auto simp: isToolActive_def listed_def split: option.splits)
qed

text \<open>
  C24. A tool is active exactly if no layer lists it as disallowed, the profile lists it if it lists any, and
  the global section lists it if it lists any: an empty list of enabled tools constrains nothing. So no
  layer can give back what another takes away.
\<close>
theorem tool_layers_intersect:
  assumes "source = Mcp \<longrightarrow> mcp_total pm name"
  shows "isToolActiveComposed pm layers name source =
     Inr (\<not> listed pm name source (pl_workspaceDisabled layers) \<and>
          \<not> listed pm name source (tp_disallowed (pl_profile layers)) \<and>
          \<not> listed pm name source (Option.bind (pl_global layers) gp_disabled) \<and>
          \<not> listed pm name source (pl_sessionDisabled layers) \<and>
          (tp_tools (pl_profile layers) = None \<or> listed pm name source (tp_tools (pl_profile layers))) \<and>
          (Option.bind (pl_global layers) gp_enabled \<in> {None, Some []} \<or>
           listed pm name source (Option.bind (pl_global layers) gp_enabled)))"
  using active_total [OF assms]
  by (auto simp: isToolActiveComposed_def eand_def deny_only_def global_layer_def listed_def
      split: option.splits list.splits)

definition demo_layers :: policy_layers where
  "demo_layers =
     \<lparr>pl_workspaceDisabled = Some [''mcp__git__push''], pl_profile = \<lparr>tp_tools = Some [''mcp__git__push''], tp_disallowed = None\<rparr>,
      pl_global = Some \<lparr>gp_enabled = Some [], gp_disabled = None\<rparr>, pl_sessionDisabled = None\<rparr>"

definition exact_pm :: matcher where
  "exact_pm nocase v pat = Inr (pat = v)"

theorem tool_layers_intersect_witness:
  "isToolActiveComposed exact_pm demo_layers ''mcp__git__push'' Mcp = Inr False"
  using tool_layers_intersect [of Mcp exact_pm "''mcp__git__push''" demo_layers]
  by (simp add: mcp_total_def exact_pm_def demo_layers_def listed_def entry_names_def isMcpToolName_def)

section \<open>Reported entries are dead\<close>

text \<open>A tool as the registry has it: known, without glob characters; a server's tool has a full name.\<close>

definition registered :: "(string \<Rightarrow> bool) option \<Rightarrow> string \<Rightarrow> tool_source \<Rightarrow> bool" where
  "registered known name source =
     (if source = Mcp then js_includes ''__'' (drop 5 name)
      else \<not> has_magic name \<and> (case known of None \<Rightarrow> True | Some isKnown \<Rightarrow> isKnown name) \<and> \<not> isMcpToolName name)"

text \<open>
  A pattern without glob characters and groups matches at most itself. The check does not look for the
  extended groups of the matcher, such as \<open>+(a|b)\<close>, so they are set aside.
\<close>

definition literal_matcher :: "matcher \<Rightarrow> string \<Rightarrow> bool" where
  "literal_matcher pm name \<longleftrightarrow>
     (\<forall>p. \<not> has_magic p \<longrightarrow> CHR ''('' \<notin> set p \<longrightarrow> p \<noteq> name \<longrightarrow> pm False name p \<noteq> Inr True)"

definition no_groups :: "string list option \<Rightarrow> bool" where
  "no_groups l = (case l of None \<Rightarrow> True | Some ps \<Rightarrow> list_all (\<lambda>p. CHR ''('' \<notin> set p) ps)"

definition live :: "(string \<Rightarrow> bool) option \<Rightarrow> string list \<Rightarrow> string list" where
  "live known ps = filter (\<lambda>p. p \<notin> fst ` set (findInactiveToolPatterns ps known)) ps"

lemma reported: "fst ` set (findInactiveToolPatterns ps known) = {p \<in> set ps. inactive_issue known p \<noteq> None}"
  by (induction ps) (auto split: option.splits)

lemma dead_entry:
  assumes "inactive_issue known pat \<noteq> None" and "registered known name source" and "literal_matcher pm name"
    and "CHR ''('' \<notin> set pat"
  shows "\<not> entry_names pm name source pat"
proof (cases "source = Mcp")
  case True
  show ?thesis
  proof
    assume "entry_names pm name source pat"
    then have p: "isMcpToolName pat" "pm False name pat = Inr True" using True by (auto simp: entry_names_def)
    then have "\<not> has_magic pat" "\<not> js_includes ''__'' (drop 5 pat)"
      using assms(1) by (auto simp: inactive_issue_def split: if_splits)
    then show False using assms(2-4) True p(2) by (auto simp: registered_def literal_matcher_def)
  qed
next
  case False
  then show ?thesis using assms(1,2)
    by (auto simp: entry_names_def registered_def inactive_issue_def split: if_splits option.splits)
qed

lemma listed_live:
  assumes "registered known name source" and "literal_matcher pm name" and "no_groups l"
  shows "listed pm name source (map_option (live known) l) = listed pm name source l"
proof (cases l)
  case (Some ps)
  have "inactive_issue known p = None" if "p \<in> set ps" "entry_names pm name source p" for p
    using dead_entry [OF _ assms(1,2), of p] that assms(3) Some by (fastforce simp: no_groups_def list_all_iff)
  then have "list_ex (entry_names pm name source) (live known ps) = list_ex (entry_names pm name source) ps"
    by (auto simp: live_def reported list_ex_iff)
  with Some show ?thesis by (simp add: listed_def)
qed (simp add: listed_def)

text \<open>
  A warning is never a false alarm: removing every reported entry from the lists of a policy changes
  the activation of no registered tool.
\<close>
theorem reported_entries_dead:
  assumes "registered known name source" and "literal_matcher pm name" and "source = Mcp \<longrightarrow> mcp_total pm name"
    and "no_groups (tp_tools policy)" and "no_groups (tp_disallowed policy)"
  shows "isToolActive pm \<lparr>tp_tools = map_option (live known) (tp_tools policy),
                          tp_disallowed = map_option (live known) (tp_disallowed policy)\<rparr> name source =
         isToolActive pm policy name source"
  using assms by (simp add: active_total listed_live)

theorem reported_entries_dead_witness:
  "isToolActive exact_pm \<lparr>tp_tools = Some [''Read''], tp_disallowed = None\<rparr> ''Read'' Builtin =
   isToolActive exact_pm \<lparr>tp_tools = Some [''*'', ''mcp__git'', ''Read''], tp_disallowed = None\<rparr> ''Read'' Builtin"
proof -
  have "live None [''*'', ''mcp__git'', ''Read''] = [''Read'']" by code_simp
  moreover have "registered None ''Read'' Builtin" by code_simp
  moreover have "literal_matcher exact_pm ''Read''" by (simp add: literal_matcher_def exact_pm_def)
  ultimately show ?thesis
    using reported_entries_dead [of None "''Read''" Builtin exact_pm
        "\<lparr>tp_tools = Some [''*'', ''mcp__git'', ''Read''], tp_disallowed = None\<rparr>"]
    by (simp add: no_groups_def)
qed

end
