(* ===== verification/Bytes.thy ===== *)
theory Bytes imports Prelude "HOL-Library.Word" begin

text \<open>
  Buffers as lists of bytes, and the little-endian integers that Node's \<open>Buffer\<close> reads and writes: a write
  outside the range of its width throws, a read of eight signed bytes is turned into a double.
\<close>

unbundle bit_operations_syntax

type_synonym byte = "8 word"
type_synonym buffer = "byte list"

section \<open>Little-endian integers\<close>

fun le_bytes :: "nat \<Rightarrow> nat \<Rightarrow> buffer" where
  "le_bytes 0 v = []"
| "le_bytes (Suc n) v = of_nat v # le_bytes n (v div 256)"

fun le_value :: "buffer \<Rightarrow> nat" where
  "le_value [] = 0"
| "le_value (b # bs) = unat b + 256 * le_value bs"

lemma length_le_bytes [simp]: "length (le_bytes n v) = n"
  by (induction n arbitrary: v) auto

lemma le_value_bytes: "le_value (le_bytes n v) = v mod 256 ^ n"
proof (induction n arbitrary: v)
  case (Suc n)
  have "v mod 256 ^ Suc n = v mod 256 + 256 * (v div 256 mod 256 ^ n)"
    by (simp add: mod_mult2_eq)
  then show ?case using Suc by (simp add: unat_of_nat)
qed simp

lemma le_value_bytes_id [simp]: "v < 256 ^ n \<Longrightarrow> le_value (le_bytes n v) = v"
  by (simp add: le_value_bytes)

lemma unat_byte_less: "unat (b :: byte) < 256"
  using unsigned_less [of b] by simp

lemma le_bytes_value [simp]: "le_bytes (length bs) (le_value bs) = bs"
proof (induction bs)
  case (Cons b bs)
  have "(unat b + 256 * le_value bs) div 256 = le_value bs" using unat_byte_less [of b] by simp
  moreover have "(of_nat (unat b + 256 * le_value bs) :: byte) = b"
  proof -
    have "(256 :: byte) = 0" by simp
    then show ?thesis by (simp only: of_nat_add of_nat_mult of_nat_numeral mult_zero_left add_0_right) simp
  qed
  ultimately show ?case using Cons by simp
qed simp

lemma le_value_less: "le_value bs < 256 ^ length bs"
proof (induction bs)
  case (Cons b bs)
  then show ?case using unat_byte_less [of b] by simp
qed simp

text \<open>Signed 64-bit integers in two's complement.\<close>

definition i64_nat :: "int \<Rightarrow> nat" where
  "i64_nat v = nat (v mod 2 ^ 64)"

definition nat_i64 :: "nat \<Rightarrow> int" where
  "nat_i64 n = (if n < 2 ^ 63 then int n else int n - 2 ^ 64)"

lemma nat_i64_nat: "- (2 ^ 63) \<le> v \<Longrightarrow> v < 2 ^ 63 \<Longrightarrow> nat_i64 (i64_nat v) = v"
proof (cases "0 \<le> v")
  case False
  assume "- (2 ^ 63) \<le> v" "v < 2 ^ 63"
  have "v mod 2 ^ 64 = (v + 2 ^ 64) mod 2 ^ 64" by simp
  also have "\<dots> = v + 2 ^ 64" using False \<open>- (2 ^ 63) \<le> v\<close> by (intro mod_pos_pos_trivial) auto
  finally have "v mod 2 ^ 64 = v + 2 ^ 64" .
  with False \<open>- (2 ^ 63) \<le> v\<close> show ?thesis by (simp add: nat_i64_def i64_nat_def)
qed (simp add: nat_i64_def i64_nat_def)

lemma i64_nat_less: "i64_nat v < 256 ^ 8"
  using pos_mod_bound [of "2 ^ 64" v] by (simp add: i64_nat_def)

section \<open>Fallible writes\<close>

datatype codec_error = RangeError string | TypeError string | CodecError string

definition write_uint :: "nat \<Rightarrow> nat \<Rightarrow> codec_error + buffer" where
  "write_uint n v = (if v < 256 ^ n then Inr (le_bytes n v) else Inl (RangeError ''The value is out of range''))"

definition write_i64 :: "int \<Rightarrow> codec_error + buffer" where
  "write_i64 v =
     (if - (2 ^ 63) \<le> v \<and> v < 2 ^ 63 then Inr (le_bytes 8 (i64_nat v))
      else Inl (RangeError ''The value is out of range''))"

section \<open>Reads\<close>

definition slice :: "buffer \<Rightarrow> nat \<Rightarrow> nat \<Rightarrow> buffer" where
  "slice buf off n = take n (drop off buf)"

definition read_uint :: "nat \<Rightarrow> buffer \<Rightarrow> nat \<Rightarrow> nat" where
  "read_uint n buf off = le_value (slice buf off n)"

text \<open>
  \<open>Number(n)\<close> of a \<open>BigInt\<close>: the nearest double, ties to even. Up to \<open>2 ^ 53\<close> it is exact; beyond, the
  integers of a binade are multiples of a power of two.
\<close>

fun bit_length :: "nat \<Rightarrow> nat" where
  "bit_length n = (if n = 0 then 0 else Suc (bit_length (n div 2)))"

declare bit_length.simps [simp del]

definition round_double :: "nat \<Rightarrow> nat" where
  "round_double n =
     (if n \<le> 2 ^ 53 then n
      else let u = 2 ^ (bit_length n - 53); q = n div u; r = n mod u in
        if 2 * r < u \<or> 2 * r = u \<and> even q then q * u else (q + 1) * u)"

definition js_number :: "int \<Rightarrow> int" where
  "js_number v = (if 0 \<le> v then int (round_double (nat v)) else - int (round_double (nat (- v))))"

definition read_i64 :: "buffer \<Rightarrow> nat \<Rightarrow> int" where
  "read_i64 buf off = js_number (nat_i64 (read_uint 8 buf off))"

lemma js_number_exact: "\<bar>v\<bar> \<le> 2 ^ 53 \<Longrightarrow> js_number v = v"
  by (auto simp: js_number_def round_double_def nat_le_iff)

text \<open>Reading back what was written, inside a longer buffer.\<close>

lemma slice_append [simp]: "slice (a @ b @ c) (length a) (length b) = b"
  by (simp add: slice_def)

lemma length_slice: "off + n \<le> length buf \<Longrightarrow> length (slice buf off n) = n"
  by (simp add: slice_def)

lemma slice_skip: "slice (a @ b) (length a + off) n = slice b off n"
  by (simp add: slice_def)

lemma slice_take: "off + n \<le> m \<Longrightarrow> slice (take m buf) off n = slice buf off n"
  by (simp add: slice_def drop_take)

lemma slice_drop: "slice (drop m buf) off n = slice buf (m + off) n"
  by (simp add: slice_def add.commute)

text \<open>\<open>indexOf\<close> from an offset.\<close>

fun index_from :: "buffer \<Rightarrow> buffer \<Rightarrow> nat \<Rightarrow> nat option" where
  "index_from pat [] i = (if pat = [] then Some i else None)"
| "index_from pat (b # bs) i = (if prefix pat (b # bs) then Some i else index_from pat bs (Suc i))"

definition index_of :: "buffer \<Rightarrow> buffer \<Rightarrow> nat \<Rightarrow> nat option" where
  "index_of pat buf off = index_from pat (drop off buf) off"

lemma index_from_Some:
  "index_from pat bs i = Some k \<longleftrightarrow>
     i \<le> k \<and> k - i \<le> length bs \<and> prefix pat (drop (k - i) bs) \<and> (\<forall>j. i \<le> j \<longrightarrow> j < k \<longrightarrow> \<not> prefix pat (drop (j - i) bs))"
proof (induction bs arbitrary: i)
  case Nil
  then show ?case by auto
next
  case (Cons b bs)
  show ?case
  proof (cases "prefix pat (b # bs)")
    case True
    then have "(\<forall>j. i \<le> j \<longrightarrow> j < k \<longrightarrow> \<not> prefix pat (drop (j - i) (b # bs))) \<longleftrightarrow> \<not> i < k"
      by (auto dest: spec [of _ i])
    with True show ?thesis by auto
  next
    case False
    have shift: "drop (j - i) (b # bs) = drop (j - Suc i) bs" if "Suc i \<le> j" for j
      using that by (cases "j - i") (auto simp: diff_Suc split: nat.splits)
    have "index_from pat (b # bs) i = Some k \<longleftrightarrow> Suc i \<le> k \<and> k - Suc i \<le> length bs \<and>
        prefix pat (drop (k - Suc i) bs) \<and> (\<forall>j. Suc i \<le> j \<longrightarrow> j < k \<longrightarrow> \<not> prefix pat (drop (j - Suc i) bs))"
      using False Cons by simp
    also have "\<dots> \<longleftrightarrow> i \<le> k \<and> k - i \<le> length (b # bs) \<and> prefix pat (drop (k - i) (b # bs)) \<and>
        (\<forall>j. i \<le> j \<longrightarrow> j < k \<longrightarrow> \<not> prefix pat (drop (j - i) (b # bs)))" (is "?a \<longleftrightarrow> ?b")
    proof
      assume a: ?a
      have "\<not> prefix pat (drop (j - i) (b # bs))" if "i \<le> j" "j < k" for j
        using that a False shift [of j] by (cases "j = i") auto
      with a shift [of k] show ?b by auto
    next
      assume b: ?b
      then have "i \<noteq> k" using False by auto
      with b have "Suc i \<le> k" by simp
      moreover have "\<not> prefix pat (drop (j - Suc i) bs)" if "Suc i \<le> j" "j < k" for j
        using that b shift [of j, OF that(1)] by (metis Suc_leD)
      ultimately show ?a using b shift [of k] by auto
    qed
    finally show ?thesis .
  qed
qed

lemma index_of_Some:
  "off \<le> length buf \<Longrightarrow> index_of pat buf off = Some k \<longleftrightarrow>
     off \<le> k \<and> k \<le> length buf \<and> prefix pat (drop k buf) \<and> (\<forall>j. off \<le> j \<longrightarrow> j < k \<longrightarrow> \<not> prefix pat (drop j buf))"
  by (auto simp: index_of_def index_from_Some add.commute)

end
