(* ===== verification/Crc.thy ===== *)
theory Crc imports Bytes begin

text \<open>
  The checksum of the log, \<^verbatim>\<open>src/packages/minidb/src/crc32.ts\<close>: the table-driven CRC-32 is the bitwise one, it
  can be computed in pieces, and no corruption within four consecutive bytes of a checked message and its
  checksum goes unnoticed.
\<close>

section \<open>The code\<close>

definition POLY :: "32 word" where "POLY = 0xedb88320"

definition crc_bit :: "32 word \<Rightarrow> 32 word" where
  "crc_bit c = (if bit c 0 then POLY XOR drop_bit 1 c else drop_bit 1 c)"

definition buildTable :: "32 word list" where
  "buildTable = map (\<lambda>n. (crc_bit ^^ 8) (of_nat n)) [0..<256]"

definition crc_step :: "32 word \<Rightarrow> byte \<Rightarrow> 32 word" where
  "crc_step c b = buildTable ! unat ((c XOR ucast b) AND 0xff) XOR drop_bit 8 c"

definition crc32_word :: "buffer \<Rightarrow> 32 word \<Rightarrow> 32 word" where
  "crc32_word buf prev = foldl crc_step (prev XOR 0xffffffff) buf XOR 0xffffffff"

definition crc32 :: "buffer \<Rightarrow> nat \<Rightarrow> nat" where
  "crc32 buf prev = unat (crc32_word buf (of_nat prev))"

section \<open>One step is eight steps of a bit\<close>

lemma crc_bit_alt: "crc_bit c = drop_bit 1 c XOR (if bit c 0 then POLY else 0)"
  by (simp add: crc_bit_def xor.commute)

lemma crc_bit_xor: "crc_bit (a XOR b) = crc_bit a XOR crc_bit b"
  by (auto simp: crc_bit_alt drop_bit_xor bit_xor_iff intro: bit_word_eqI)

lemma crc_bit_0 [simp]: "crc_bit 0 = 0"
  by (simp add: crc_bit_alt)

definition crc8 :: "32 word \<Rightarrow> 32 word" where "crc8 c = (crc_bit ^^ 8) c"

lemma crc8_eval: "crc8 c = crc_bit (crc_bit (crc_bit (crc_bit (crc_bit (crc_bit (crc_bit (crc_bit c)))))))"
  by (simp add: crc8_def eval_nat_numeral)

lemma funpow_xor: "(crc_bit ^^ n) (a XOR b) = (crc_bit ^^ n) a XOR (crc_bit ^^ n) b"
  by (induction n) (simp_all add: crc_bit_xor)

lemma crc8_xor: "crc8 (a XOR b) = crc8 a XOR crc8 b"
  by (simp add: crc8_def funpow_xor)

lemma funpow_crc_0 [simp]: "(crc_bit ^^ n) 0 = 0"
  by (induction n) simp_all

lemma crc8_0 [simp]: "crc8 0 = 0"
  by (simp add: crc8_def)

lemma crc_bit_even: "\<not> bit c 0 \<Longrightarrow> crc_bit c = drop_bit 1 c"
  by (simp add: crc_bit_def)

lemma funpow_crc_low: "(\<And>i. i < n \<Longrightarrow> \<not> bit c i) \<Longrightarrow> (crc_bit ^^ n) c = drop_bit n c"
proof (induction n arbitrary: c)
  case (Suc n)
  then have "crc_bit c = drop_bit 1 c" by (intro crc_bit_even) auto
  moreover have "(crc_bit ^^ n) (drop_bit 1 c) = drop_bit n (drop_bit 1 c)"
    using Suc.prems by (intro Suc.IH) (auto simp: bit_drop_bit_eq)
  ultimately show ?case by (simp add: funpow_swap1)
qed simp

lemma buildTable_nth: "n < 256 \<Longrightarrow> buildTable ! n = crc8 (of_nat n)"
  by (simp add: buildTable_def crc8_def del: upt_Suc)

lemma and_255: "(x :: 32 word) AND 0xff = take_bit 8 x"
  by (simp add: take_bit_eq_mask mask_eq_exp_minus_1)

lemma ucast_byte_bit: "bit (ucast (b :: byte) :: 32 word) i \<longleftrightarrow> i < 8 \<and> bit b i"
  by (auto simp: bit_ucast_iff dest: bit_imp_le_length)

theorem crc_step_bits: "crc_step c b = crc8 (c XOR ucast b)"
proof -
  let ?x = "c XOR ucast b"
  let ?lo = "take_bit 8 ?x" and ?hi = "push_bit 8 (drop_bit 8 c)"
  have "unat ?lo < 256"
    using take_bit_nat_less_exp [of 8 "unat ?x"] by (simp del: take_bit_xor add: unsigned_take_bit_eq)
  then have lo: "buildTable ! unat ?lo = crc8 ?lo" by (simp add: buildTable_nth)
  have "crc8 ?hi = drop_bit 8 ?hi" unfolding crc8_def by (intro funpow_crc_low) (simp add: bit_push_bit_iff)
  also have "\<dots> = drop_bit 8 c"
    by (rule bit_word_eqI) (auto simp: bit_drop_bit_eq bit_push_bit_iff dest: bit_imp_le_length)
  finally have hi: "crc8 ?hi = drop_bit 8 c" .
  have "?x = ?lo XOR ?hi"
    by (rule bit_word_eqI)
       (auto simp: bit_xor_iff bit_take_bit_iff bit_push_bit_iff bit_drop_bit_eq ucast_byte_bit)
  then have "crc8 ?x = crc8 ?lo XOR crc8 ?hi" by (metis crc8_xor)
  then show ?thesis by (simp only: crc_step_def and_255 lo hi)
qed

section \<open>Runs\<close>

abbreviation crc_run :: "32 word \<Rightarrow> buffer \<Rightarrow> 32 word" where
  "crc_run \<equiv> foldl crc_step"

lemma xor_swap: "(a XOR b) XOR (c XOR d) = (a XOR c) XOR (b XOR d)" for a :: "32 word"
  by (simp add: ac_simps)

lemma ucast_xor_byte: "(ucast (a XOR b) :: 32 word) = ucast a XOR ucast (b :: byte)"
  by (simp add: unsigned_xor_eq)

lemma crc_step_xor: "crc_step (s XOR t) (a XOR b) = crc_step s a XOR crc_step t b"
  by (simp add: crc_step_bits ucast_xor_byte xor_swap crc8_xor flip: crc8_xor)

lemma crc_run_xor:
  "length xs = length ys \<Longrightarrow> crc_run (s XOR t) (map2 (XOR) xs ys) = crc_run s xs XOR crc_run t ys"
proof (induction xs ys arbitrary: s t rule: list_induct2)
  case (Cons x xs y ys)
  then show ?case by (simp add: crc_step_xor)
qed simp

text \<open>A run over a message, continued: the checksum in pieces.\<close>

lemma crc32_append: "crc32 (a @ b) prev = crc32 b (crc32 a prev)"
  by (simp add: crc32_def crc32_word_def xor.assoc)

lemma crc32_less: "crc32 buf prev < 2 ^ 32"
  using unsigned_less [of "crc32_word buf (of_nat prev)"] by (simp add: crc32_def)

section \<open>Errors\<close>

lemma crc_bit_eq_0: "crc_bit c = 0 \<Longrightarrow> c = 0"
proof -
  assume z: "crc_bit c = 0"
  have "bit POLY 31" by (simp add: POLY_def)
  moreover have "\<not> bit (drop_bit 1 c) 31" by (auto simp: bit_drop_bit_eq dest: bit_imp_le_length)
  ultimately have "bit (crc_bit c) 31 \<longleftrightarrow> bit c 0" by (simp add: crc_bit_alt bit_xor_iff)
  with z have "\<not> bit c 0" by simp
  moreover from this z have d: "drop_bit 1 c = 0" by (simp add: crc_bit_def)
  moreover have "bit c (Suc i) = bit (drop_bit 1 c) i" for i by (simp add: bit_drop_bit_eq)
  ultimately have "\<not> bit c i" for i by (cases i) auto
  then show "c = 0" by (intro bit_word_eqI) simp
qed

lemma crc8_eq_0: "crc8 c = 0 \<Longrightarrow> c = 0"
  unfolding crc8_def by (simp add: numeral_eq_Suc) (meson crc_bit_eq_0)

lemma crc_run_zeros: "crc_run s (replicate n 0) = (crc8 ^^ n) s"
  by (induction n arbitrary: s) (simp_all add: crc_step_bits funpow_swap1)

lemma crc8_pow_eq_0: "(crc8 ^^ n) s = 0 \<Longrightarrow> s = 0"
  by (induction n) (auto dest: crc8_eq_0)

lemma crc8_pow_0 [simp]: "(crc8 ^^ n) 0 = 0"
  by (induction n) simp_all

text \<open>Up to four bytes enter the register as one word.\<close>

fun bytes_word :: "buffer \<Rightarrow> 32 word" where
  "bytes_word [] = 0"
| "bytes_word (b # bs) = ucast b XOR push_bit 8 (bytes_word bs)"

lemma bytes_word_bit: "bit (bytes_word bs) i \<Longrightarrow> i < 8 * length bs"
proof (induction bs arbitrary: i)
  case (Cons b bs)
  show ?case
  proof (cases "i < 8")
    case False
    with Cons.prems have "bit (bytes_word bs) (i - 8)" by (auto simp: bit_xor_iff bit_push_bit_iff ucast_byte_bit)
    from Cons.IH [OF this] False show ?thesis by simp
  qed simp
qed simp

lemma crc8_push:
  assumes "\<And>i. 24 \<le> i \<Longrightarrow> \<not> bit x i"
  shows "crc8 (push_bit 8 x) = x"
proof -
  have "crc8 (push_bit 8 x) = drop_bit 8 (push_bit 8 x)"
    unfolding crc8_def by (intro funpow_crc_low) (simp add: bit_push_bit_iff)
  also have "\<dots> = x"
  proof (rule bit_word_eqI)
    fix n
    assume "n < LENGTH(32)"
    then show "bit (drop_bit 8 (push_bit 8 x)) n = bit x n"
      using assms [of n] by (cases "n < 24") (auto simp: bit_drop_bit_eq bit_push_bit_iff)
  qed
  finally show ?thesis .
qed

lemma crc_run_word: "length d \<le> 4 \<Longrightarrow> crc_run s d = (crc8 ^^ length d) (s XOR bytes_word d)"
proof (induction d arbitrary: s)
  case (Cons b d)
  have "\<not> bit (bytes_word d) i" if "24 \<le> i" for i
    using bytes_word_bit [of d i] Cons.prems that by auto
  then have "crc8 (push_bit 8 (bytes_word d)) = bytes_word d" by (rule crc8_push)
  then have "crc8 (s XOR bytes_word (b # d)) = crc8 (s XOR ucast b) XOR bytes_word d"
    by (simp add: crc8_xor xor.assoc)
  then show ?case using Cons by (simp add: crc_step_bits funpow_swap1)
qed simp

lemma bytes_word_eq_0:
  "length d \<le> 4 \<Longrightarrow> bytes_word d = 0 \<Longrightarrow> d = replicate (length d) 0"
proof (induction d)
  case (Cons b d)
  have "\<not> bit (bytes_word (b # d)) i" for i using Cons.prems by simp
  then have bits: "bit (ucast b :: 32 word) i \<longleftrightarrow> 8 \<le> i \<and> i < 32 \<and> bit (bytes_word d) (i - 8)" for i
    by (auto simp: bit_xor_iff bit_push_bit_iff)
  have "b = 0"
  proof (rule bit_word_eqI)
    fix n
    assume "n < LENGTH(8)"
    then show "bit b n = bit (0 :: byte) n" using bits [of n] by (simp add: ucast_byte_bit)
  qed
  moreover have "bytes_word d = 0"
  proof (rule bit_word_eqI)
    fix n
    assume "n < LENGTH(32)"
    show "bit (bytes_word d) n = bit (0 :: 32 word) n"
      using bits [of "n + 8"] bytes_word_bit [of d n] Cons.prems by (auto simp: ucast_byte_bit)
  qed
  ultimately show ?case using Cons by simp
qed simp

text \<open>An error within four consecutive bytes leaves a trace in the register.\<close>

lemma crc_run_burst:
  assumes "length d \<le> 4" and "d \<noteq> replicate (length d) 0"
  shows "crc_run 0 (replicate i 0 @ d @ replicate j 0) \<noteq> 0"
proof
  assume "crc_run 0 (replicate i 0 @ d @ replicate j 0) = 0"
  then have "(crc8 ^^ j) ((crc8 ^^ length d) (bytes_word d)) = 0"
    by (simp add: crc_run_zeros crc_run_word [OF assms(1)])
  then have "bytes_word d = 0" by (meson crc8_pow_eq_0)
  with bytes_word_eq_0 assms show False by blast
qed

text \<open>The message followed by its checksum always leaves the same residue.\<close>

definition checked :: "buffer \<Rightarrow> bool" where
  "checked bs \<longleftrightarrow> 4 \<le> length bs \<and> crc32 (take (length bs - 4) bs) 0 = le_value (drop (length bs - 4) bs)"

lemma le_value_word: "length d \<le> 4 \<Longrightarrow> of_nat (le_value d) = bytes_word d"
proof (induction d)
  case (Cons b d)
  have "le_value d < 256 ^ length d" by (rule le_value_less)
  moreover have "(256 :: nat) ^ length d \<le> 256 ^ 3" using Cons.prems by (intro power_increasing) auto
  ultimately have "(of_nat (unat b + 256 * le_value d) :: 32 word) = ucast b + push_bit 8 (bytes_word d)"
    using Cons by (simp add: push_bit_eq_mult mult.commute)
  also have "\<dots> = ucast b XOR push_bit 8 (bytes_word d)"
  proof -
    have "ucast b AND push_bit 8 (bytes_word d) = (0 :: 32 word)"
      by (rule bit_word_eqI) (auto simp: bit_and_iff bit_push_bit_iff ucast_byte_bit)
    then show ?thesis by (simp add: disjunctive_add_eq_xor)
  qed
  finally show ?case by simp
qed simp

lemma residue:
  assumes "checked bs"
  shows "crc_run 0xffffffff bs = (crc8 ^^ 4) 0xffffffff"
proof -
  define m t where "m = take (length bs - 4) bs" and "t = drop (length bs - 4) bs"
  have bs: "bs = m @ t" by (simp add: m_def t_def)
  have len: "length t = 4" using assms by (simp add: checked_def t_def)
  have "le_value t = crc32 m 0" using assms by (simp add: checked_def m_def t_def)
  then have "bytes_word t = crc32_word m 0" using le_value_word [of t] len by (simp add: crc32_def)
  then have "bytes_word t = crc_run 0xffffffff m XOR 0xffffffff" by (simp add: crc32_word_def)
  then have "crc_run 0xffffffff m XOR bytes_word t = 0xffffffff"
    by (simp add: xor.assoc [symmetric])
  then show ?thesis by (simp add: bs crc_run_word len)
qed

definition xor_bytes :: "buffer \<Rightarrow> buffer \<Rightarrow> buffer" where
  "xor_bytes = map2 (XOR)"

definition same_but :: "nat \<Rightarrow> buffer \<Rightarrow> buffer \<Rightarrow> bool" where
  "same_but i a b \<longleftrightarrow> length a = length b \<and> (\<forall>k < length a. k < i \<or> i + 4 \<le> k \<longrightarrow> a ! k = b ! k)"

lemma xor_eq_0_imp: "a = b" if "a XOR b = 0" for a b :: byte
proof -
  have "a = (a XOR b) XOR b" by (simp add: xor.assoc)
  with that show ?thesis by simp
qed

lemma xor_bytes_same_but:
  assumes "same_but i a b" and "a \<noteq> b"
  shows "\<exists>p d q. length d \<le> 4 \<and> d \<noteq> replicate (length d) 0 \<and> xor_bytes a b = replicate p 0 @ d @ replicate q 0"
proof -
  have len: "length a = length b" using assms by (simp add: same_but_def)
  let ?e = "xor_bytes a b"
  have le: "length ?e = length a" using len by (simp add: xor_bytes_def)
  have nth: "?e ! k = a ! k XOR b ! k" if "k < length a" for k using that len by (simp add: xor_bytes_def)
  define d where "d = take 4 (drop i ?e)"
  have t: "take i ?e = replicate (length (take i ?e)) 0"
    using assms le nth by (intro nth_equalityI) (auto simp: same_but_def)
  have r: "drop (i + 4) ?e = replicate (length (drop (i + 4) ?e)) 0"
    using assms le nth by (intro nth_equalityI) (auto simp: same_but_def)
  have split: "?e = take i ?e @ d @ drop (i + 4) ?e"
    by (metis add.commute append_take_drop_id d_def drop_drop)
  have nz: "d \<noteq> replicate (length d) 0"
  proof
    assume z: "d = replicate (length d) 0"
    have "set (take i ?e) \<subseteq> {0}" "set (drop (i + 4) ?e) \<subseteq> {0}" "set d \<subseteq> {0}"
      by (subst t, force) (subst r, force, subst z, force)
    then have "set ?e \<subseteq> {0}" by (subst split) auto
    then have "?e ! k = 0" if "k < length a" for k using that le by (metis nth_mem singletonD subsetD)
    then have x: "a ! k XOR b ! k = 0" if "k < length a" for k using that nth by metis
    have "a ! k = b ! k" if "k < length a" for k by (rule xor_eq_0_imp [OF x [OF that]])
    with len assms(2) show False by (simp add: list_eq_iff_nth_eq)
  qed
  have "?e = replicate (length (take i ?e)) 0 @ d @ replicate (length (drop (i + 4) ?e)) 0"
    by (subst t [symmetric], subst r [symmetric]) (rule split)
  moreover have "length d \<le> 4" by (simp add: d_def)
  ultimately show ?thesis using nz by blast
qed

lemma burst_detected:
  assumes "checked a" and "same_but i a b" and "a \<noteq> b"
  shows "\<not> checked b"
proof
  assume "checked b"
  have len: "length a = length b" using assms(2) by (simp add: same_but_def)
  obtain p d q where d: "length d \<le> 4" "d \<noteq> replicate (length d) 0" "xor_bytes a b = replicate p 0 @ d @ replicate q 0"
    using xor_bytes_same_but [OF assms(2,3)] by blast
  have "crc_run (0xffffffff XOR 0xffffffff) (xor_bytes a b) = crc_run 0xffffffff a XOR crc_run 0xffffffff b"
    unfolding xor_bytes_def by (rule crc_run_xor [OF len])
  also have "\<dots> = 0" using residue [OF assms(1)] residue [OF \<open>checked b\<close>] by simp
  finally have "crc_run 0 (replicate p 0 @ d @ replicate q 0) = 0" using d(3) by simp
  with crc_run_burst [OF d(1,2)] show False by blast
qed

end
