(* ===== verification/Codec.thy ===== *)
theory Codec imports Crc begin

text \<open>
  The record format of the embedded database, \<^verbatim>\<open>src/packages/minidb/src/codec.ts\<close>: frames and batch bodies, the
  streaming parser, the parse of a whole buffer and the scan of an open file.

  A file is the list of its bytes and does not change during a scan; a positioned read returns the bytes
  that are there and throws past the end. Values that the static types rule out (a key that is no
  \<open>Buffer\<close>) are not represented. The sizes of the chunks a file is read in are the code's constants.
\<close>

section \<open>Frames\<close>

definition MAGIC :: buffer where "MAGIC = [0x4d, 0x44]"
definition TYPE_SET :: nat where "TYPE_SET = 1"
definition TYPE_DEL :: nat where "TYPE_DEL = 2"
definition TYPE_BATCH :: nat where "TYPE_BATCH = 3"
definition HEADER_SIZE :: nat where "HEADER_SIZE = 22"
definition CRC_SIZE :: nat where "CRC_SIZE = 4"
definition MAX_KEY_LEN :: nat where "MAX_KEY_LEN = 0xffff"
definition MAX_VAL_LEN :: nat where "MAX_VAL_LEN = 0xffffffff"

record frame =
  fr_type :: nat
  fr_key :: buffer
  fr_value :: buffer
  fr_meta :: "buffer option"
  fr_expireAt :: int

record frame_input =
  fi_type :: nat
  fi_key :: buffer
  fi_value :: "buffer option"
  fi_meta :: "buffer option"
  fi_expireAt :: "int option"

definition or_empty :: "buffer option \<Rightarrow> buffer" where
  "or_empty b = (case b of None \<Rightarrow> [] | Some x \<Rightarrow> x)"

text \<open>
  The expiry is a \<open>number\<close> or a \<open>bigint\<close>. A finite number is \<open>m * 2 ^ e\<close>; \<open>BigInt\<close> converts it if it is an integer and throws a
  \<open>RangeError\<close> otherwise, as it does for NaN and the infinities.
\<close>

datatype js_numeric = BigIntValue int | NumberValue int int | NotFinite

definition BigInt_of :: "js_numeric \<Rightarrow> codec_error + int" where
  "BigInt_of x =
     (case x of
        BigIntValue i \<Rightarrow> Inr i
      | NumberValue m e \<Rightarrow>
          if 0 \<le> e then Inr (m * 2 ^ nat e)
          else if 2 ^ nat (- e) dvd m then Inr (m div 2 ^ nat (- e))
          else Inl (RangeError ''cannot be converted to a BigInt'')
      | NotFinite \<Rightarrow> Inl (RangeError ''cannot be converted to a BigInt''))"

definition encodeFrame_any :: "frame_input \<Rightarrow> js_numeric \<Rightarrow> codec_error + buffer" where
  "encodeFrame_any f expireAt =
     (let key = fi_key f; val = or_empty (fi_value f); met = or_empty (fi_meta f) in
      if length key > MAX_KEY_LEN then Inl (RangeError ''key too large'')
      else if length val > MAX_VAL_LEN then Inl (RangeError ''value too large'')
      else if length met > MAX_VAL_LEN then Inl (RangeError ''meta too large'')
      else
        ebind (write_uint 1 (fi_type f)) (\<lambda>t.
        ebind (write_uint 1 0) (\<lambda>flags.
        ebind (write_uint 2 (length key)) (\<lambda>kl.
        ebind (write_uint 4 (length val)) (\<lambda>vl.
        ebind (write_uint 4 (length met)) (\<lambda>ml.
        ebind (BigInt_of expireAt) (\<lambda>big.
        ebind (write_i64 big) (\<lambda>ea.
          let body = t @ flags @ kl @ vl @ ml @ ea @ key @ val @ met in
          ebind (write_uint 4 (crc32 body 0)) (\<lambda>c. Inr (MAGIC @ body @ c))))))))))"

text \<open>All callers give an integer; the field of the record is its value.\<close>

definition encodeFrame :: "frame_input \<Rightarrow> codec_error + buffer" where
  "encodeFrame f = encodeFrame_any f (BigIntValue (case fi_expireAt f of None \<Rightarrow> 0 | Some e \<Rightarrow> e))"

section \<open>Batches\<close>

record batch_op =
  bo_type :: nat
  bo_key :: buffer
  bo_value :: "buffer option"
  bo_meta :: "buffer option"
  bo_expireAt :: int

definition SUB_HEADER :: nat where "SUB_HEADER = 1 + 2 + 4 + 4 + 8"

definition encode_op :: "batch_op \<Rightarrow> codec_error + buffer" where
  "encode_op op =
     (let val = or_empty (bo_value op); met = or_empty (bo_meta op) in
      ebind (write_uint 1 (bo_type op)) (\<lambda>t.
      ebind (write_uint 2 (length (bo_key op))) (\<lambda>kl.
      ebind (write_uint 4 (length val)) (\<lambda>vl.
      ebind (write_uint 4 (length met)) (\<lambda>ml.
      ebind (write_i64 (bo_expireAt op)) (\<lambda>ea.
        Inr (t @ kl @ vl @ ml @ ea @ bo_key op @ val @ met)))))))"

fun encode_ops :: "batch_op list \<Rightarrow> codec_error + buffer" where
  "encode_ops [] = Inr []"
| "encode_ops (op # ops) = ebind (encode_op op) (\<lambda>b. ebind (encode_ops ops) (\<lambda>bs. Inr (b @ bs)))"

definition encodeBatchOps :: "batch_op list \<Rightarrow> codec_error + buffer" where
  "encodeBatchOps ops =
     (if \<not> list_all (\<lambda>op. bo_type op = TYPE_SET \<or> bo_type op = TYPE_DEL) ops
      then Inl (RangeError ''batch op type must be SET or DEL'')
      else ebind (write_uint 2 (length ops)) (\<lambda>n. ebind (encode_ops ops) (\<lambda>bs. Inr (n @ bs))))"

text \<open>The loop over the announced number of operations, from offset \<open>o\<close>.\<close>

fun decode_ops :: "nat \<Rightarrow> buffer \<Rightarrow> nat \<Rightarrow> codec_error + batch_op list \<times> nat" where
  "decode_ops 0 body off = Inr ([], off)"
| "decode_ops (Suc n) body off =
     (if off + SUB_HEADER > length body then Inl (RangeError ''batch op header truncated'')
      else
        let ty = read_uint 1 body off in
        if ty \<noteq> TYPE_SET \<and> ty \<noteq> TYPE_DEL then Inl (RangeError ''batch op has unknown type'')
        else
          let keyLen = read_uint 2 body (off + 1); valLen = read_uint 4 body (off + 3);
              metaLen = read_uint 4 body (off + 7); expireAt = read_i64 body (off + 11); p = off + SUB_HEADER
          in if p + keyLen + valLen + metaLen > length body then Inl (RangeError ''batch op payload truncated'')
             else
               let op = \<lparr>bo_type = ty, bo_key = slice body p keyLen, bo_value = Some (slice body (p + keyLen) valLen),
                         bo_meta = (if metaLen \<noteq> 0 then Some (slice body (p + keyLen + valLen) metaLen) else None),
                         bo_expireAt = expireAt\<rparr>
               in ebind (decode_ops n body (p + keyLen + valLen + metaLen)) (\<lambda>(ops, e). Inr (op # ops, e)))"

definition decodeBatchOps :: "buffer \<Rightarrow> codec_error + batch_op list" where
  "decodeBatchOps body =
     (if length body < 2 then Inl (RangeError ''batch body truncated: op count'')
      else ebind (decode_ops (read_uint 2 body 0) body 2) (\<lambda>(ops, e).
        if e \<noteq> length body then Inl (RangeError ''batch body has trailing byte(s)'') else Inr ops))"

record op_ref =
  or_type :: nat
  or_key :: buffer
  or_meta :: "buffer option"
  or_expireAt :: int
  or_valueOff :: nat
  or_valLen :: nat

fun scan_ops :: "nat \<Rightarrow> buffer \<Rightarrow> nat \<Rightarrow> nat \<Rightarrow> codec_error + op_ref list \<times> nat" where
  "scan_ops 0 body bodyOff off = Inr ([], off)"
| "scan_ops (Suc n) body bodyOff off =
     (if off + SUB_HEADER > length body then Inl (RangeError ''batch op header truncated'')
      else
        let ty = read_uint 1 body off in
        if ty \<noteq> TYPE_SET \<and> ty \<noteq> TYPE_DEL then Inl (RangeError ''batch op has unknown type'')
        else
          let keyLen = read_uint 2 body (off + 1); valLen = read_uint 4 body (off + 3);
              metaLen = read_uint 4 body (off + 7); expireAt = read_i64 body (off + 11); p = off + SUB_HEADER
          in if p + keyLen + valLen + metaLen > length body then Inl (RangeError ''batch op payload truncated'')
             else
               let op = \<lparr>or_type = ty, or_key = slice body p keyLen,
                         or_meta = (if metaLen \<noteq> 0 then Some (slice body (p + keyLen + valLen) metaLen) else None),
                         or_expireAt = expireAt, or_valueOff = bodyOff + p + keyLen, or_valLen = valLen\<rparr>
               in ebind (scan_ops n body bodyOff (p + keyLen + valLen + metaLen)) (\<lambda>(ops, e). Inr (op # ops, e)))"

definition scanBatchOpRefs :: "buffer \<Rightarrow> nat \<Rightarrow> codec_error + op_ref list" where
  "scanBatchOpRefs body bodyOff =
     (if length body < 2 then Inl (RangeError ''batch body truncated: op count'')
      else ebind (scan_ops (read_uint 2 body 0) body bodyOff 2) (\<lambda>(ops, e).
        if e \<noteq> length body then Inl (RangeError ''batch body has trailing byte(s)'') else Inr ops))"

section \<open>One frame in a buffer\<close>

definition keyLen_at :: "buffer \<Rightarrow> nat \<Rightarrow> nat" where "keyLen_at buf pos = read_uint 2 buf (pos + 4)"
definition valLen_at :: "buffer \<Rightarrow> nat \<Rightarrow> nat" where "valLen_at buf pos = read_uint 4 buf (pos + 6)"
definition metaLen_at :: "buffer \<Rightarrow> nat \<Rightarrow> nat" where "metaLen_at buf pos = read_uint 4 buf (pos + 10)"

definition frameLen_at :: "buffer \<Rightarrow> nat \<Rightarrow> nat" where
  "frameLen_at buf pos = HEADER_SIZE + keyLen_at buf pos + valLen_at buf pos + metaLen_at buf pos + CRC_SIZE"

definition frame_at :: "buffer \<Rightarrow> nat \<Rightarrow> frame" where
  "frame_at buf pos =
     (let keyStart = pos + HEADER_SIZE; kl = keyLen_at buf pos; vl = valLen_at buf pos; ml = metaLen_at buf pos in
      \<lparr>fr_type = read_uint 1 buf (pos + 2), fr_key = slice buf keyStart kl, fr_value = slice buf (keyStart + kl) vl,
       fr_meta = (if ml \<noteq> 0 then Some (slice buf (keyStart + kl + vl) ml) else None),
       fr_expireAt = read_i64 buf (pos + 14)\<rparr>)"

definition crc_matches :: "buffer \<Rightarrow> nat \<Rightarrow> nat \<Rightarrow> bool" where
  "crc_matches buf pos len \<longleftrightarrow>
     read_uint 4 buf (pos + len - CRC_SIZE) = crc32 (slice buf (pos + 2) (len - CRC_SIZE - 2)) 0"

definition readFrameAt :: "buffer \<Rightarrow> nat \<Rightarrow> (frame \<times> nat) option" where
  "readFrameAt buf pos =
     (if length buf < pos + HEADER_SIZE then None
      else if slice buf pos 2 \<noteq> MAGIC then None
      else if keyLen_at buf pos > MAX_KEY_LEN then None
      else
        let frameLen = frameLen_at buf pos in
        if frameLen < HEADER_SIZE + CRC_SIZE then None
        else if length buf < pos + frameLen then None
        else if \<not> crc_matches buf pos frameLen then None
        else Some (frame_at buf pos, frameLen))"

section \<open>The streaming parser\<close>

record corrupt_error =
  ce_message :: string
  ce_offset :: nat

record parser =
  ps_pending :: buffer
  ps_offset :: nat

definition new_parser :: parser where
  "new_parser = \<lparr>ps_pending = [], ps_offset = 0\<rparr>"

text \<open>
  The loop of \<open>feed\<close> over its buffer: the frames yielded, what was thrown, the position and the parser's
  offset, which a skipped stretch does not advance.
\<close>

lemma index_of_less:
  assumes "index_of MAGIC buf off = Some k"
  shows "off \<le> k \<and> k + 2 \<le> length buf"
proof -
  have "off \<le> length buf"
    using assms by (auto simp: index_of_def MAGIC_def intro: ccontr)
  then have k: "off \<le> k" "prefix MAGIC (drop k buf)" using assms by (simp_all add: index_of_Some)
  then have "length MAGIC \<le> length (drop k buf)" by (intro prefix_length_le)
  then show ?thesis using k by (auto simp: MAGIC_def)
qed

function feed_loop :: "buffer \<Rightarrow> nat \<Rightarrow> nat \<Rightarrow> frame list \<times> corrupt_error option \<times> nat \<times> nat" where
  "feed_loop buf pos off =
     (if length buf < pos + HEADER_SIZE then ([], None, pos, off)
      else if slice buf pos 2 \<noteq> MAGIC then
        (case index_of MAGIC buf (pos + 1) of
           None \<Rightarrow> ([], Some \<lparr>ce_message = ''magic not found'', ce_offset = off + pos\<rparr>, pos, off)
         | Some nxt \<Rightarrow> feed_loop buf nxt off)
      else
        let frameLen = frameLen_at buf pos in
        if length buf < pos + frameLen then ([], None, pos, off)
        else if \<not> crc_matches buf pos frameLen then
          ([], Some \<lparr>ce_message = ''crc mismatch at offset '' @ show_nat (off + pos), ce_offset = off + pos\<rparr>, pos, off)
        else
          (case feed_loop buf (pos + frameLen) (off + frameLen) of
             (fs, e, p, o') \<Rightarrow> (frame_at buf pos # fs, e, p, o')))"
  by pat_completeness auto
termination
  by (relation "measure (\<lambda>(buf, pos, off). length buf - pos)")
     (auto dest: index_of_less simp: frameLen_at_def HEADER_SIZE_def)

declare feed_loop.simps [simp del]

definition feed :: "parser \<Rightarrow> buffer \<Rightarrow> frame list \<times> corrupt_error option \<times> parser" where
  "feed p chunk =
     (let buf = ps_pending p @ chunk in
      case feed_loop buf 0 (ps_offset p) of
        (fs, Some e, pos, off) \<Rightarrow> (fs, Some e, p\<lparr>ps_offset := off\<rparr>)
      | (fs, None, pos, off) \<Rightarrow> (fs, None, \<lparr>ps_pending = drop pos buf, ps_offset = off\<rparr>))"

definition finish :: "parser \<Rightarrow> (corrupt_error + nat) \<times> parser" where
  "finish p =
     (if ps_pending p \<noteq> [] then
        (Inl \<lparr>ce_message = ''torn tail: '' @ show_nat (length (ps_pending p)) @ '' trailing byte(s)'', ce_offset = ps_offset p\<rparr>,
         p\<lparr>ps_pending := []\<rparr>)
      else (Inr (ps_offset p), p))"

section \<open>A whole buffer\<close>

datatype on_corrupt = Resync | Strict

record parse_result =
  pr_frames :: "frame list"
  pr_corrupt :: "(nat \<times> nat) list"
  pr_eof :: nat

lemma readFrameAt_pos:
  assumes "readFrameAt buf pos = Some (f, n)"
  shows "n = frameLen_at buf pos \<and> 26 \<le> n \<and> pos + n \<le> length buf"
  using assms by (auto simp: readFrameAt_def Let_def frameLen_at_def HEADER_SIZE_def CRC_SIZE_def split: if_splits)

function resync_buffer :: "buffer \<Rightarrow> nat \<Rightarrow> nat option" where
  "resync_buffer buf scan =
     (if length buf \<le> scan + 1 then None
      else case index_of MAGIC buf scan of
             None \<Rightarrow> None
           | Some s \<Rightarrow> if readFrameAt buf s \<noteq> None then Some s else resync_buffer buf (s + 1))"
  by pat_completeness auto
termination
  by (relation "measure (\<lambda>(buf, scan). length buf - scan)") (auto dest: index_of_less)

declare resync_buffer.simps [simp del]

lemma resync_buffer_ge: "resync_buffer buf scan = Some s \<Longrightarrow> scan \<le> s \<and> s < length buf"
proof (induction buf scan rule: resync_buffer.induct)
  case (1 buf scan)
  then show ?case
    by (subst (asm) (2) resync_buffer.simps)
       (auto split: if_splits option.splits dest!: index_of_less)
qed

function parse_loop :: "on_corrupt \<Rightarrow> buffer \<Rightarrow> nat \<Rightarrow> parse_result" where
  "parse_loop mode buf pos =
     (if length buf \<le> pos then \<lparr>pr_frames = [], pr_corrupt = [], pr_eof = pos\<rparr>
      else case readFrameAt buf pos of
             Some (f, n) \<Rightarrow> (let r = parse_loop mode buf (pos + n) in r\<lparr>pr_frames := f # pr_frames r\<rparr>)
           | None \<Rightarrow>
               if mode = Strict then \<lparr>pr_frames = [], pr_corrupt = [(pos, length buf)], pr_eof = pos\<rparr>
               else (case resync_buffer buf (pos + 1) of
                       None \<Rightarrow> \<lparr>pr_frames = [], pr_corrupt = [(pos, length buf)], pr_eof = pos\<rparr>
                     | Some resume \<Rightarrow>
                         (let r = parse_loop mode buf resume in r\<lparr>pr_corrupt := (pos, resume) # pr_corrupt r\<rparr>)))"
  by pat_completeness auto
termination
  by (relation "measure (\<lambda>(mode, buf, pos). length buf - pos)")
     (auto dest: readFrameAt_pos resync_buffer_ge)

declare parse_loop.simps [simp del]

definition parseBuffer :: "buffer \<Rightarrow> on_corrupt \<Rightarrow> parse_result" where
  "parseBuffer buf mode = parse_loop mode buf 0"

end
