(* ===== verification/CodecScan.thy ===== *)
theory CodecScan imports Codec begin

text \<open>
  The scan of an open file into frame references, \<^verbatim>\<open>src/packages/minidb/src/codec.ts\<close>: positioned reads, a
  checksum taken chunk by chunk, the search for the next marker, the resynchronisation budget
  (\<open>scanFrameRefsFd\<close>), and the same scan through a sequential window with cancellation
  (\<open>scanFrameRefsFdAsync\<close>).

  A file is the list of its bytes, and its bytes before the size taken at the start of a scan do not
  change while it runs. A positioned read returns what is there. The window is a buffer of fixed length of
  which only a prefix is valid; what lies behind keeps the bytes of earlier reads. The signal is the
  sequence of answers it gives when it is asked.
\<close>

section \<open>Positioned reads\<close>

definition CRC_CHUNK :: nat where "CRC_CHUNK = 2 ^ 20"
definition MAGIC_SCAN_CHUNK :: nat where "MAGIC_SCAN_CHUNK = 2 ^ 20"
definition DEFAULT_RESYNC_CANDIDATE_BUDGET :: nat where "DEFAULT_RESYNC_CANDIDATE_BUDGET = 65536"

lemma chunk_pos [simp]: "0 < CRC_CHUNK" "0 < MAGIC_SCAN_CHUNK"
  by (simp_all add: CRC_CHUNK_def MAGIC_SCAN_CHUNK_def)

definition readExact :: "buffer \<Rightarrow> nat \<Rightarrow> nat \<Rightarrow> codec_error + buffer" where
  "readExact fd pos len =
     (if len = 0 then Inr []
      else if pos + len \<le> length fd then Inr (slice fd pos len)
      else Inl (CodecError ''codec: short read past EOF''))"

record frame_ref =
  rf_type :: nat
  rf_key :: buffer
  rf_meta :: "buffer option"
  rf_expireAt :: int
  rf_frameOff :: nat
  rf_valueOff :: nat
  rf_valLen :: nat
  rf_frameLen :: nat

record scan_result =
  sr_frames :: "frame_ref list"
  sr_corrupt :: "(nat \<times> nat) list"
  sr_eof :: nat

function crc_file :: "buffer \<Rightarrow> nat \<Rightarrow> nat \<Rightarrow> nat \<Rightarrow> codec_error + nat" where
  "crc_file fd crc crcPos crcLeft =
     (if crcLeft = 0 then Inr crc
      else let len = min CRC_CHUNK crcLeft in
        case readExact fd crcPos len of
          Inl e \<Rightarrow> Inl e
        | Inr buf \<Rightarrow> crc_file fd (crc32 buf crc) (crcPos + len) (crcLeft - len))"
  by pat_completeness auto
termination
  by (relation "measure (\<lambda>(fd, crc, p, left). left)") auto

declare crc_file.simps [simp del]

definition frame_ref_at :: "buffer \<Rightarrow> buffer \<Rightarrow> buffer option \<Rightarrow> nat \<Rightarrow> frame_ref" where
  "frame_ref_at header key meta pos =
     \<lparr>rf_type = read_uint 1 header 2, rf_key = key, rf_meta = meta, rf_expireAt = read_i64 header 14, rf_frameOff = pos,
      rf_valueOff = pos + HEADER_SIZE + keyLen_at header 0, rf_valLen = valLen_at header 0,
      rf_frameLen = frameLen_at header 0\<rparr>"

definition readFrameRefAt :: "buffer \<Rightarrow> nat \<Rightarrow> nat \<Rightarrow> codec_error + frame_ref option" where
  "readFrameRefAt fd pos sz =
     (if sz < pos + HEADER_SIZE then Inr None
      else ebind (readExact fd pos HEADER_SIZE) (\<lambda>header.
        if slice header 0 2 \<noteq> MAGIC then Inr None
        else if keyLen_at header 0 > MAX_KEY_LEN then Inr None
        else
          let keyLen = keyLen_at header 0; valLen = valLen_at header 0; metaLen = metaLen_at header 0;
              frameLen = frameLen_at header 0 in
          if frameLen < HEADER_SIZE + CRC_SIZE then Inr None
          else if sz < pos + frameLen then Inr None
          else ebind (crc_file fd 0 (pos + 2) (frameLen - CRC_SIZE - 2)) (\<lambda>crc.
            ebind (readExact fd (pos + frameLen - CRC_SIZE) CRC_SIZE) (\<lambda>stored.
              if read_uint 4 stored 0 \<noteq> crc then Inr None
              else
                ebind (if keyLen \<noteq> 0 then readExact fd (pos + HEADER_SIZE) keyLen else Inr []) (\<lambda>key.
                ebind (if metaLen \<noteq> 0 then ebind (readExact fd (pos + HEADER_SIZE + keyLen + valLen) metaLen) (\<lambda>m. Inr (Some m))
                       else Inr None) (\<lambda>meta.
                  Inr (Some (frame_ref_at header key meta pos))))))))"

section \<open>The scan with positioned reads\<close>

function findMagic :: "buffer \<Rightarrow> nat \<Rightarrow> nat \<Rightarrow> nat option" where
  "findMagic fd pos sz =
     (if sz \<le> pos then None
      else let buf = slice fd pos (min MAGIC_SCAN_CHUNK (sz - pos)) in
        if buf = [] then None
        else case index_of MAGIC buf 0 of
               Some i \<Rightarrow> Some (pos + i)
             | None \<Rightarrow> if length buf < length MAGIC then None
                       else findMagic fd (pos + (length buf - (length MAGIC - 1))) sz)"
  by pat_completeness auto
termination
  by (relation "measure (\<lambda>(fd, pos, sz). sz - pos)") (auto simp: MAGIC_def)

declare findMagic.simps [simp del]

lemma findMagic_bounds: "findMagic fd pos sz = Some k \<Longrightarrow> pos \<le> k \<and> k + 2 \<le> sz"
proof (induction fd pos sz rule: findMagic.induct)
  case (1 fd pos sz)
  let ?buf = "slice fd pos (min MAGIC_SCAN_CHUNK (sz - pos))"
  have len: "length ?buf \<le> sz - pos" by (simp add: slice_def)
  from 1 show ?case
    by (subst (asm) (2) findMagic.simps)
       (use len in \<open>force dest!: index_of_less split: if_splits option.splits simp: Let_def\<close>)
qed

text \<open>The candidates of a resynchronisation: the position to resume at and the candidates used up.\<close>

function resync_file :: "buffer \<Rightarrow> nat \<Rightarrow> nat \<Rightarrow> nat \<Rightarrow> nat \<Rightarrow> codec_error + nat option \<times> nat" where
  "resync_file fd sz budget scan cands =
     (if sz \<le> scan + 1 then Inr (None, cands)
      else case findMagic fd scan sz of
             None \<Rightarrow> Inr (None, cands)
           | Some s \<Rightarrow>
               if budget \<le> cands then Inr (None, Suc cands)
               else case readFrameRefAt fd s sz of
                      Inl e \<Rightarrow> Inl e
                    | Inr (Some r) \<Rightarrow> Inr (Some s, Suc cands)
                    | Inr None \<Rightarrow> resync_file fd sz budget (s + 1) (Suc cands))"
  by pat_completeness auto
termination
  by (relation "measure (\<lambda>(fd, sz, budget, scan, cands). sz - scan)") (auto dest!: findMagic_bounds)

declare resync_file.simps [simp del]

lemma readFrameRefAt_bounds:
  assumes "readFrameRefAt fd pos sz = Inr (Some r)"
  shows "26 \<le> rf_frameLen r \<and> pos + rf_frameLen r \<le> sz"
  using assms
  by (auto simp: readFrameRefAt_def ebind_eq_Inr Let_def frame_ref_at_def frameLen_at_def HEADER_SIZE_def CRC_SIZE_def
      split: if_splits)

lemma resync_file_bounds:
  "resync_file fd sz budget scan cands = Inr (Some s, c) \<Longrightarrow> scan \<le> s \<and> s < sz"
proof (induction fd sz budget scan cands rule: resync_file.induct)
  case (1 fd sz budget scan cands)
  from 1(2) show ?case
    by (subst (asm) resync_file.simps)
       (force split: if_splits option.splits sum.splits dest: findMagic_bounds 1(1) [rotated 2])
qed

function scan_loop :: "buffer \<Rightarrow> on_corrupt \<Rightarrow> nat \<Rightarrow> nat \<Rightarrow> nat \<Rightarrow> nat \<Rightarrow> codec_error + scan_result" where
  "scan_loop fd mode sz budget pos cands =
     (if sz \<le> pos then Inr \<lparr>sr_frames = [], sr_corrupt = [], sr_eof = pos\<rparr>
      else case readFrameRefAt fd pos sz of
        Inl e \<Rightarrow> Inl e
      | Inr (Some r) \<Rightarrow>
          ebind (scan_loop fd mode sz budget (pos + rf_frameLen r) cands) (\<lambda>t.
            Inr (t\<lparr>sr_frames := r # sr_frames t\<rparr>))
      | Inr None \<Rightarrow>
          if mode = Strict then Inr \<lparr>sr_frames = [], sr_corrupt = [(pos, sz)], sr_eof = pos\<rparr>
          else (case resync_file fd sz budget (pos + 1) cands of
                  Inl e \<Rightarrow> Inl e
                | Inr (None, c) \<Rightarrow> Inr \<lparr>sr_frames = [], sr_corrupt = [(pos, sz)], sr_eof = pos\<rparr>
                | Inr (Some resume, c) \<Rightarrow>
                    ebind (scan_loop fd mode sz budget resume c) (\<lambda>t.
                      Inr (t\<lparr>sr_corrupt := (pos, resume) # sr_corrupt t\<rparr>))))"
  by pat_completeness auto
termination
  by (relation "measure (\<lambda>(fd, mode, sz, budget, pos, cands). sz - pos)")
     (auto dest!: readFrameRefAt_bounds resync_file_bounds)

declare scan_loop.simps [simp del]

definition scanFrameRefsFd :: "buffer \<Rightarrow> on_corrupt \<Rightarrow> nat \<Rightarrow> nat \<Rightarrow> codec_error + scan_result" where
  "scanFrameRefsFd fd mode startOffset budget = scan_loop fd mode (length fd) budget startOffset 0"

section \<open>The scan through a window\<close>

definition ASYNC_SCAN_WINDOW :: nat where "ASYNC_SCAN_WINDOW = 2 ^ 22"
definition SCAN_YIELD_BYTES :: nat where "SCAN_YIELD_BYTES = 2 ^ 23"

record scan_state =
  ss_win :: buffer
  ss_winStart :: nat
  ss_winLen :: nat
  ss_sinceYield :: nat
  ss_asked :: nat

datatype window_result = Found frame_ref | Invalid | Window

function crc_chunks :: "buffer \<Rightarrow> nat \<Rightarrow> nat \<Rightarrow> nat \<Rightarrow> nat" where
  "crc_chunks win crc crcPos crcLeft =
     (if crcLeft = 0 then crc
      else let len = min CRC_CHUNK crcLeft in
        crc_chunks win (crc32 (slice win crcPos len) crc) (crcPos + len) (crcLeft - len))"
  by pat_completeness auto
termination
  by (relation "measure (\<lambda>(win, crc, p, left). left)") auto

declare crc_chunks.simps [simp del]

definition parseFrameRefInWindow :: "buffer \<Rightarrow> nat \<Rightarrow> nat \<Rightarrow> nat \<Rightarrow> nat \<Rightarrow> window_result" where
  "parseFrameRefInWindow win winStart winLen pos sz =
     (let avail = winStart + winLen - pos in
      if avail < HEADER_SIZE then Invalid
      else if sz < pos + HEADER_SIZE then Invalid
      else
        let off = pos - winStart in
        if slice win off 2 \<noteq> MAGIC then Invalid
        else
          let keyLen = keyLen_at win off; valLen = valLen_at win off; metaLen = metaLen_at win off;
              frameLen = frameLen_at win off in
          if keyLen > MAX_KEY_LEN then Invalid
          else if frameLen < HEADER_SIZE + CRC_SIZE then Invalid
          else if sz < pos + frameLen then Invalid
          else if avail < frameLen then Window
          else
            let crc = crc_chunks win 0 (off + 2) (frameLen - CRC_SIZE - 2) in
            if read_uint 4 win (off + frameLen - CRC_SIZE) \<noteq> crc then Invalid
            else
              let keyStart = off + HEADER_SIZE; metaStart = keyStart + keyLen + valLen in
              Found \<lparr>rf_type = read_uint 1 win (off + 2), rf_key = slice win keyStart keyLen,
                     rf_meta = (if metaLen \<noteq> 0 then Some (slice win metaStart metaLen) else None),
                     rf_expireAt = read_i64 win (off + 14), rf_frameOff = pos, rf_valueOff = pos + HEADER_SIZE + keyLen,
                     rf_valLen = valLen, rf_frameLen = frameLen\<rparr>)"

text \<open>Overwriting a stretch of the window, and the reads that fill it.\<close>

definition put :: "buffer \<Rightarrow> nat \<Rightarrow> buffer \<Rightarrow> buffer" where
  "put win off bs = take off win @ bs @ drop (off + length bs) win"

lemma length_put [simp]: "off + length bs \<le> length win \<Longrightarrow> length (put win off bs) = length win"
  by (simp add: put_def)

function fill_reads :: "buffer \<Rightarrow> nat \<Rightarrow> buffer \<Rightarrow> nat \<Rightarrow> nat \<Rightarrow> buffer \<times> nat" where
  "fill_reads fd sz win winStart winLen =
     (if winLen < length win \<and> winStart + winLen < sz then
        let bs = slice fd (winStart + winLen) (min (length win - winLen) (sz - winStart - winLen)) in
        if bs = [] then (win, winLen)
        else fill_reads fd sz (put win winLen bs) winStart (winLen + length bs)
      else (win, winLen))"
  by pat_completeness auto
termination
  by (relation "measure (\<lambda>(fd, sz, win, winStart, winLen). length win - winLen)")
     (auto simp: put_def slice_def)

declare fill_reads.simps [simp del]

definition fillWindow :: "buffer \<Rightarrow> nat \<Rightarrow> nat \<Rightarrow> scan_state \<Rightarrow> scan_state" where
  "fillWindow fd sz at s =
     (let e = ss_winStart s + ss_winLen s;
          (win, len) =
            (if ss_winStart s \<le> at \<and> at < e
             then let keep = e - at in (put (ss_win s) 0 (slice (ss_win s) (at - ss_winStart s) keep), keep)
             else (ss_win s, 0));
          (win', len') = fill_reads fd sz win at len
      in s\<lparr>ss_win := win', ss_winStart := at, ss_winLen := len'\<rparr>)"

definition frameAt :: "buffer \<Rightarrow> nat \<Rightarrow> nat \<Rightarrow> scan_state \<Rightarrow> (codec_error + frame_ref option) \<times> scan_state" where
  "frameAt fd sz at s =
     (let s1 = (if at < ss_winStart s \<or> at + HEADER_SIZE > ss_winStart s + ss_winLen s then fillWindow fd sz at s else s) in
      case parseFrameRefInWindow (ss_win s1) (ss_winStart s1) (ss_winLen s1) at sz of
        Found r \<Rightarrow> (Inr (Some r), s1)
      | Invalid \<Rightarrow> (Inr None, s1)
      | Window \<Rightarrow>
          if at - ss_winStart s1 > 0 then
            (let s2 = fillWindow fd sz at s1 in
             case parseFrameRefInWindow (ss_win s2) (ss_winStart s2) (ss_winLen s2) at sz of
               Found r \<Rightarrow> (Inr (Some r), s2)
             | Invalid \<Rightarrow> (Inr None, s2)
             | Window \<Rightarrow> (readFrameRefAt fd at sz, s2))
          else (readFrameRefAt fd at sz, s1))"

lemma parseFrameRefInWindow_bounds:
  assumes "parseFrameRefInWindow win winStart winLen pos sz = Found r"
  shows "26 \<le> rf_frameLen r \<and> pos + rf_frameLen r \<le> sz"
  using assms by (auto simp: parseFrameRefInWindow_def Let_def HEADER_SIZE_def CRC_SIZE_def split: if_splits)

lemma frameAt_bounds:
  assumes "frameAt fd sz at s = (Inr (Some r), s')"
  shows "26 \<le> rf_frameLen r \<and> at + rf_frameLen r \<le> sz"
  using assms
  by (auto simp: frameAt_def Let_def split: window_result.splits if_splits
      dest: parseFrameRefInWindow_bounds readFrameRefAt_bounds)

text \<open>The check of the signal, and the check every so many bytes.\<close>

definition ABORTED :: codec_error where "ABORTED = CodecError ''AbortError''"

definition throwIfAborted :: "(nat \<Rightarrow> bool) \<Rightarrow> scan_state \<Rightarrow> codec_error + scan_state" where
  "throwIfAborted aborted s =
     (if aborted (ss_asked s) then Inl ABORTED else Inr (s\<lparr>ss_asked := Suc (ss_asked s)\<rparr>))"

definition tick :: "(nat \<Rightarrow> bool) \<Rightarrow> nat \<Rightarrow> scan_state \<Rightarrow> codec_error + scan_state" where
  "tick aborted advanced s =
     (if ss_sinceYield s + advanced \<ge> SCAN_YIELD_BYTES then throwIfAborted aborted (s\<lparr>ss_sinceYield := 0\<rparr>)
      else Inr (s\<lparr>ss_sinceYield := ss_sinceYield s + advanced\<rparr>))"

text \<open>The loop over the candidates.\<close>

definition covering :: "buffer \<Rightarrow> nat \<Rightarrow> nat \<Rightarrow> scan_state \<Rightarrow> scan_state" where
  "covering fd sz scan s =
     (if scan < ss_winStart s \<or> scan \<ge> ss_winStart s + ss_winLen s then fillWindow fd sz scan s else s)"

lemma fillWindow_start [simp]: "ss_winStart (fillWindow fd sz at s) = at"
  by (simp add: fillWindow_def Let_def split: prod.splits)

lemma covering_start: "ss_winStart (covering fd sz scan s) \<le> scan"
  by (simp add: covering_def)

function resync_window ::
    "(nat \<Rightarrow> bool) \<Rightarrow> buffer \<Rightarrow> nat \<Rightarrow> nat \<Rightarrow> nat \<Rightarrow> nat \<Rightarrow> scan_state \<Rightarrow> codec_error + nat option \<times> nat \<times> scan_state" where
  "resync_window aborted fd sz budget scan cands s =
     (if sz \<le> scan + 1 then Inr (None, cands, s)
      else
        let s1 = covering fd sz scan s in
        case index_of MAGIC (ss_win s1) (scan - ss_winStart s1) of
          None \<Rightarrow>
            let e = ss_winStart s1 + ss_winLen s1 in
            if sz \<le> e then Inr (None, cands, s1)
            else ebind (tick aborted ASYNC_SCAN_WINDOW s1) (\<lambda>s2.
              resync_window aborted fd sz budget (max (e - (length MAGIC - 1)) (scan + 1)) cands s2)
        | Some idx \<Rightarrow>
            let found = ss_winStart s1 + idx in
            if sz \<le> found + 1 then Inr (None, cands, s1)
            else if budget \<le> cands then Inr (None, Suc cands, s1)
            else case frameAt fd sz found s1 of
                   (Inl e, s2) \<Rightarrow> Inl e
                 | (Inr (Some r), s2) \<Rightarrow> Inr (Some found, Suc cands, s2)
                 | (Inr None, s2) \<Rightarrow> resync_window aborted fd sz budget (found + 1) (Suc cands) s2)"
  by pat_completeness auto
termination
proof (relation "measure (\<lambda>(aborted, fd, sz, budget, scan, cands, s). sz - scan)", goal_cases)
  case (3 aborted fd sz budget scan cands s s1 idx)
  then have "scan \<le> ss_winStart (covering fd sz scan s) + idx"
    using conjunct1 [OF index_of_less [OF 3(3)]] by simp
  with 3 show ?case by simp
qed auto

declare resync_window.simps [simp del]

lemma resync_window_bounds:
  "resync_window aborted fd sz budget scan cands s = Inr (Some r, c, s') \<Longrightarrow> scan \<le> r \<and> r < sz"
proof (induction aborted fd sz budget scan cands s rule: resync_window.induct)
  case (1 aborted fd sz budget scan cands s)
  let ?s1 = "covering fd sz scan s"
  have found: "scan \<le> ss_winStart ?s1 + i" if "index_of MAGIC (ss_win ?s1) (scan - ss_winStart ?s1) = Some i" for i
    using conjunct1 [OF index_of_less [OF that]] by simp
  show ?case
  proof (cases "index_of MAGIC (ss_win ?s1) (scan - ss_winStart ?s1)")
    case None
    with 1(3) obtain s2 where s2: "\<not> sz \<le> scan + 1" "\<not> sz \<le> ss_winStart ?s1 + ss_winLen ?s1"
      "resync_window aborted fd sz budget (max (ss_winStart ?s1 + ss_winLen ?s1 - (length MAGIC - 1)) (scan + 1)) cands s2
         = Inr (Some r, c, s')"
      by (subst (asm) resync_window.simps) (auto simp: Let_def ebind_eq_Inr split: if_splits)
    from 1(1) [OF s2(1) refl None refl s2(2,3)] show ?thesis by simp
  next
    case (Some i)
    let ?f = "ss_winStart ?s1 + i"
    obtain q s2 where fr: "frameAt fd sz ?f ?s1 = (q, s2)" by fastforce
    from 1(3) Some fr have lt: "\<not> sz \<le> scan + 1" "\<not> sz \<le> ?f + 1" "\<not> budget \<le> cands"
      by (auto simp: resync_window.simps Let_def split: if_splits)
    show ?thesis
    proof (cases "q = Inr None")
      case True
      with 1(3) Some fr lt have "resync_window aborted fd sz budget (?f + 1) (Suc cands) s2 = Inr (Some r, c, s')"
        by (subst (asm) resync_window.simps) (simp add: Let_def)
      from 1(2) [OF lt(1) refl Some refl lt(2,3) fr [symmetric] True refl this] found [OF Some] show ?thesis by simp
    next
      case False
      with 1(3) Some fr found [OF Some] lt show ?thesis
        by (subst (asm) resync_window.simps) (auto simp: Let_def split: option.splits sum.splits)
    qed
  qed
qed

function window_loop ::
    "(nat \<Rightarrow> bool) \<Rightarrow> buffer \<Rightarrow> on_corrupt \<Rightarrow> nat \<Rightarrow> nat \<Rightarrow> nat \<Rightarrow> nat \<Rightarrow> scan_state \<Rightarrow> codec_error + scan_result" where
  "window_loop aborted fd mode sz budget pos cands s =
     (if sz \<le> pos then
        ebind (throwIfAborted aborted s) (\<lambda>_. Inr \<lparr>sr_frames = [], sr_corrupt = [], sr_eof = pos\<rparr>)
      else case frameAt fd sz pos s of
        (Inl e, s1) \<Rightarrow> Inl e
      | (Inr (Some r), s1) \<Rightarrow>
          ebind (tick aborted (rf_frameLen r) s1) (\<lambda>s2.
          ebind (window_loop aborted fd mode sz budget (pos + rf_frameLen r) cands s2) (\<lambda>t.
            Inr (t\<lparr>sr_frames := r # sr_frames t\<rparr>)))
      | (Inr None, s1) \<Rightarrow>
          if mode = Strict then
            ebind (throwIfAborted aborted s1) (\<lambda>_. Inr \<lparr>sr_frames = [], sr_corrupt = [(pos, sz)], sr_eof = pos\<rparr>)
          else (case resync_window aborted fd sz budget (pos + 1) cands s1 of
                  Inl e \<Rightarrow> Inl e
                | Inr (None, c, s2) \<Rightarrow>
                    ebind (throwIfAborted aborted s2) (\<lambda>_. Inr \<lparr>sr_frames = [], sr_corrupt = [(pos, sz)], sr_eof = pos\<rparr>)
                | Inr (Some resume, c, s2) \<Rightarrow>
                    ebind (window_loop aborted fd mode sz budget resume c s2) (\<lambda>t.
                      Inr (t\<lparr>sr_corrupt := (pos, resume) # sr_corrupt t\<rparr>))))"
  by pat_completeness auto
termination
  by (relation "measure (\<lambda>(aborted, fd, mode, sz, budget, pos, cands, s). sz - pos)")
     (auto dest!: frameAt_bounds [OF sym] resync_window_bounds)

declare window_loop.simps [simp del]

text \<open>
  The buffer of a new window is not cleared: \<open>junk\<close> is what it holds. The end of the scan is the end of
  the file unless the caller gives a smaller one.
\<close>

definition new_window :: "buffer \<Rightarrow> nat \<Rightarrow> scan_state" where
  "new_window junk startOffset =
     \<lparr>ss_win = junk, ss_winStart = startOffset, ss_winLen = 0, ss_sinceYield = 0, ss_asked = 0\<rparr>"

definition scanFrameRefsFdAsync ::
    "(nat \<Rightarrow> bool) \<Rightarrow> buffer \<Rightarrow> buffer \<Rightarrow> on_corrupt \<Rightarrow> nat \<Rightarrow> nat option \<Rightarrow> nat \<Rightarrow> codec_error + scan_result" where
  "scanFrameRefsFdAsync aborted junk fd mode startOffset endOffset budget =
     (let sz = (case endOffset of None \<Rightarrow> length fd | Some e \<Rightarrow> min (length fd) e) in
      ebind (throwIfAborted aborted (new_window junk startOffset)) (\<lambda>s.
        window_loop aborted fd mode sz budget startOffset 0 s))"

end
