(* ===== verification/Codec_Proofs.thy ===== *)
theory Codec_Proofs imports CodecScan begin

text \<open>
  What the record format promises: frames and batches round-trip, malformed ones are rejected, a damaged
  frame is noticed, a torn tail costs only itself, and the readers agree with one another.
\<close>

section \<open>Layout\<close>

declare add_2_eq_Suc' [simp del]

lemma slice_head: "length x = n \<Longrightarrow> slice (x @ y) 0 n = x"
  by (simp add: slice_def)

lemma slice_all: "length x = n \<Longrightarrow> slice x 0 n = x"
  by (simp add: slice_def)

lemma slice_after: "length x \<le> n \<Longrightarrow> slice (x @ y) n k = slice y (n - length x) k"
  by (simp add: slice_def)

lemma slice_shift: "slice (x @ y) (length x + n) k = slice y n k"
  by (simp add: slice_def)

lemma slice_Nil [simp]: "slice buf off 0 = []"
  by (simp add: slice_def)

lemmas slicing = slice_head slice_all slice_after

definition frame_body :: "nat \<Rightarrow> nat \<Rightarrow> buffer \<Rightarrow> buffer \<Rightarrow> buffer \<Rightarrow> nat \<Rightarrow> buffer" where
  "frame_body t fl k v m e =
     le_bytes 1 t @ le_bytes 1 fl @ le_bytes 2 (length k) @ le_bytes 4 (length v) @ le_bytes 4 (length m) @
     le_bytes 8 e @ k @ v @ m"

definition frame_bytes :: "nat \<Rightarrow> nat \<Rightarrow> buffer \<Rightarrow> buffer \<Rightarrow> buffer \<Rightarrow> nat \<Rightarrow> buffer" where
  "frame_bytes t fl k v m e = MAGIC @ frame_body t fl k v m e @ le_bytes 4 (crc32 (frame_body t fl k v m e) 0)"

text \<open>The fields fit their width.\<close>

definition frame_fits :: "nat \<Rightarrow> nat \<Rightarrow> buffer \<Rightarrow> buffer \<Rightarrow> buffer \<Rightarrow> nat \<Rightarrow> bool" where
  "frame_fits t fl k v m e \<longleftrightarrow> t < 256 \<and> fl < 256 \<and> length k < 256 ^ 2 \<and> length v < 256 ^ 4 \<and> length m < 256 ^ 4 \<and> e < 256 ^ 8"

definition frame_of :: "nat \<Rightarrow> buffer \<Rightarrow> buffer \<Rightarrow> buffer \<Rightarrow> nat \<Rightarrow> frame" where
  "frame_of t k v m e =
     \<lparr>fr_type = t, fr_key = k, fr_value = v, fr_meta = (if m = [] then None else Some m), fr_expireAt = js_number (nat_i64 e)\<rparr>"

lemma length_MAGIC [simp]: "length MAGIC = 2"
  by (simp add: MAGIC_def)

lemma length_frame_body [simp]: "length (frame_body t fl k v m e) = 20 + length k + length v + length m"
  by (simp add: frame_body_def)

lemma length_frame_bytes [simp]: "length (frame_bytes t fl k v m e) = 26 + length k + length v + length m"
  by (simp add: frame_bytes_def)

lemma frame_bytes_fields:
  fixes c :: buffer
  assumes "frame_fits t fl k v m e"
  defines "b \<equiv> frame_bytes t fl k v m e @ c"
  shows "slice b 0 2 = MAGIC" "read_uint 1 b 2 = t" "read_uint 1 b 3 = fl" "read_uint 2 b 4 = length k"
    "read_uint 4 b 6 = length v" "read_uint 4 b 10 = length m" "read_uint 8 b 14 = e"
    "slice b 22 (length k) = k" "slice b (22 + length k) (length v) = v" "slice b (22 + length k + length v) (length m) = m"
    "slice b 2 (20 + length k + length v + length m) = frame_body t fl k v m e"
    "slice b (22 + length k + length v + length m) 4 = le_bytes 4 (crc32 (frame_body t fl k v m e) 0)"
proof -
  have body: "slice (frame_body t fl k v m e @ d) 0 (20 + length k + length v + length m) = frame_body t fl k v m e" for d
    by (rule slice_head) simp
  show "slice b 0 2 = MAGIC" "slice b 2 (20 + length k + length v + length m) = frame_body t fl k v m e"
    using body by (simp_all add: b_def frame_bytes_def slicing)
  show "slice b (22 + length k + length v + length m) 4 = le_bytes 4 (crc32 (frame_body t fl k v m e) 0)"
    by (simp add: b_def frame_bytes_def slicing)
  show "read_uint 1 b 2 = t" "read_uint 1 b 3 = fl" "read_uint 2 b 4 = length k"
    "read_uint 4 b 6 = length v" "read_uint 4 b 10 = length m" "read_uint 8 b 14 = e"
    "slice b 22 (length k) = k" "slice b (22 + length k) (length v) = v" "slice b (22 + length k + length v) (length m) = m"
    using assms(1) by (simp_all add: b_def frame_bytes_def frame_body_def read_uint_def slicing frame_fits_def del: le_bytes.simps One_nat_def)
qed

lemma at_drop:
  "keyLen_at (drop pos buf) 0 = keyLen_at buf pos" "valLen_at (drop pos buf) 0 = valLen_at buf pos"
  "metaLen_at (drop pos buf) 0 = metaLen_at buf pos" "frameLen_at (drop pos buf) 0 = frameLen_at buf pos"
  "frame_at (drop pos buf) 0 = frame_at buf pos"
  by (simp_all add: keyLen_at_def valLen_at_def metaLen_at_def frameLen_at_def frame_at_def read_uint_def read_i64_def
      slice_drop Let_def add.assoc)

lemma crc_matches_drop: "26 \<le> n \<Longrightarrow> crc_matches (drop pos buf) 0 n = crc_matches buf pos n"
  by (simp add: crc_matches_def read_uint_def slice_drop CRC_SIZE_def)

lemma frameLen_at_ge: "26 \<le> frameLen_at buf pos"
  by (simp add: frameLen_at_def HEADER_SIZE_def CRC_SIZE_def)

lemma readFrameAt_drop:
  assumes "pos \<le> length buf"
  shows "readFrameAt buf pos = readFrameAt (drop pos buf) 0"
proof -
  have "length (drop pos buf) < 0 + n \<longleftrightarrow> length buf < pos + n" for n using assms by auto
  moreover have "slice (drop pos buf) 0 2 = slice buf pos 2" by (simp add: slice_drop)
  ultimately show ?thesis
    unfolding readFrameAt_def Let_def at_drop crc_matches_drop [OF frameLen_at_ge] by (simp only: )
qed

lemma readFrameAt_frame:
  assumes "frame_fits t fl k v m e"
  shows "readFrameAt (frame_bytes t fl k v m e @ c) 0 =
           Some (frame_of t k v m e, length (frame_bytes t fl k v m e))"
proof -
  note f = frame_bytes_fields [OF assms, of c]
  have len: "keyLen_at (frame_bytes t fl k v m e @ c) 0 = length k" "valLen_at (frame_bytes t fl k v m e @ c) 0 = length v"
    "metaLen_at (frame_bytes t fl k v m e @ c) 0 = length m"
    using f by (simp_all add: keyLen_at_def valLen_at_def metaLen_at_def)
  have crc: "crc_matches (frame_bytes t fl k v m e @ c) 0 (26 + length k + length v + length m)"
    using f(11,12) crc32_less [of "frame_body t fl k v m e" 0]
    by (simp add: crc_matches_def CRC_SIZE_def read_uint_def algebra_simps del: le_bytes.simps)
  show ?thesis
    using assms crc f(1,2,7-10)
    by (simp add: readFrameAt_def frameLen_at_def len frame_at_def read_i64_def Let_def frame_of_def frame_fits_def
        HEADER_SIZE_def CRC_SIZE_def MAX_KEY_LEN_def algebra_simps)
qed

lemma drop_slice: "drop off b = slice b off n @ drop (off + n) b"
  using append_take_drop_id [of n "drop off b"] by (simp add: slice_def add.commute)

lemma le_bytes_read: "off + n \<le> length b \<Longrightarrow> le_bytes n (read_uint n b off) = slice b off n"
  using le_bytes_value [of "slice b off n"] by (simp add: read_uint_def length_slice)

lemma read_uint_less: "off + n \<le> length b \<Longrightarrow> read_uint n b off < 256 ^ n"
  using le_value_less [of "slice b off n"] by (simp add: read_uint_def length_slice)

text \<open>The bytes of a stretch, read field by field.\<close>

lemma frame_body_read:
  assumes len: "22 + kl + vl + ml \<le> length b" and kl: "kl = read_uint 2 b 4" and vl: "vl = read_uint 4 b 6"
    and ml: "ml = read_uint 4 b 10"
  shows "slice b 2 (20 + kl + vl + ml) =
    frame_body (read_uint 1 b 2) (read_uint 1 b 3) (slice b 22 kl) (slice b (22 + kl) vl) (slice b (22 + kl + vl) ml)
      (read_uint 8 b 14)"
proof -
  have "drop 2 b = slice b 2 1 @ slice b 3 1 @ slice b 4 2 @ slice b 6 4 @ slice b 10 4 @ slice b 14 8 @
      slice b 22 kl @ slice b (22 + kl) vl @ slice b (22 + kl + vl) ml @ drop (22 + kl + vl + ml) b"
    using drop_slice [of 2 b 1] drop_slice [of 3 b 1] drop_slice [of 4 b 2] drop_slice [of 6 b 4] drop_slice [of 10 b 4]
      drop_slice [of 14 b 8] drop_slice [of 22 b kl] drop_slice [of "22 + kl" b vl] drop_slice [of "22 + kl + vl" b ml]
    by simp
  also have "\<dots> = frame_body (read_uint 1 b 2) (read_uint 1 b 3) (slice b 22 kl) (slice b (22 + kl) vl)
      (slice b (22 + kl + vl) ml) (read_uint 8 b 14) @ drop (22 + kl + vl + ml) b"
    using len by (simp add: frame_body_def le_bytes_read length_slice del: le_bytes.simps One_nat_def)
      (simp add: kl vl ml le_bytes_read)
  finally have "slice b 2 (20 + kl + vl + ml) = take (20 + kl + vl + ml) (frame_body (read_uint 1 b 2) (read_uint 1 b 3)
      (slice b 22 kl) (slice b (22 + kl) vl) (slice b (22 + kl + vl) ml) (read_uint 8 b 14) @ drop (22 + kl + vl + ml) b)"
    by (simp add: slice_def)
  then show ?thesis using len by (simp add: length_slice)
qed

lemma readFrameAt_inv:
  assumes "readFrameAt b 0 = Some (f, n)"
  obtains t fl k v m e where "frame_fits t fl k v m e" "b = frame_bytes t fl k v m e @ drop n b" "f = frame_of t k v m e"
    "n = length (frame_bytes t fl k v m e)"
proof -
  define kl vl ml where lens: "kl = read_uint 2 b 4" "vl = read_uint 4 b 6" "ml = read_uint 4 b 10"
  have at: "keyLen_at b 0 = kl" "valLen_at b 0 = vl" "metaLen_at b 0 = ml"
    by (simp_all add: keyLen_at_def valLen_at_def metaLen_at_def lens)
  from assms have magic: "slice b 0 2 = MAGIC" and crc: "crc_matches b 0 n" and f: "f = frame_at b 0"
    and n: "n = 26 + kl + vl + ml" and len: "n \<le> length b"
    by (auto simp: readFrameAt_def Let_def frameLen_at_def at HEADER_SIZE_def CRC_SIZE_def split: if_splits)
  define t fl k v m e where flds: "t = read_uint 1 b 2" "fl = read_uint 1 b 3" "k = slice b 22 kl" "v = slice b (22 + kl) vl"
    "m = slice b (22 + kl + vl) ml" "e = read_uint 8 b 14"
  have lenk: "length k = kl" "length v = vl" "length m = ml" using n len by (simp_all add: flds length_slice)
  have fits: "frame_fits t fl k v m e"
    using n len read_uint_less [of 2 1 b] read_uint_less [of 3 1 b] read_uint_less [of 4 2 b] read_uint_less [of 6 4 b]
      read_uint_less [of 10 4 b] read_uint_less [of 14 8 b]
    by (simp add: frame_fits_def lenk) (simp add: flds lens)
  have body: "slice b 2 (20 + kl + vl + ml) = frame_body t fl k v m e"
    unfolding flds using n len by (intro frame_body_read) (simp_all add: lens)
  have "read_uint 4 b (22 + kl + vl + ml) = crc32 (frame_body t fl k v m e) 0"
    using crc n by (simp add: crc_matches_def CRC_SIZE_def add.assoc flip: body)
  then have crc': "slice b (22 + kl + vl + ml) 4 = le_bytes 4 (crc32 (frame_body t fl k v m e) 0)"
    using le_bytes_read [of "22 + kl + vl + ml" 4 b] n len by simp
  have "b = slice b 0 2 @ slice b 2 (20 + kl + vl + ml) @ slice b (22 + kl + vl + ml) 4 @ drop n b"
    using drop_slice [of 0 b 2] drop_slice [of 2 b "20 + kl + vl + ml"] drop_slice [of "22 + kl + vl + ml" b 4] n
    by (simp add: add.assoc)
  then have "b = frame_bytes t fl k v m e @ drop n b" by (simp add: frame_bytes_def magic body crc' del: le_bytes.simps)
  moreover have "f = frame_of t k v m e"
    using lenk by (auto simp: f frame_at_def at frame_of_def read_i64_def Let_def flds HEADER_SIZE_def)
  moreover have "n = length (frame_bytes t fl k v m e)" using n lenk by simp
  ultimately show ?thesis using that fits by blast
qed

lemma encodeFrame_eq:
  "encodeFrame f =
     (let k = fi_key f; v = or_empty (fi_value f); m = or_empty (fi_meta f); e = (case fi_expireAt f of None \<Rightarrow> 0 | Some x \<Rightarrow> x) in
      if length k > MAX_KEY_LEN then Inl (RangeError ''key too large'')
      else if length v > MAX_VAL_LEN then Inl (RangeError ''value too large'')
      else if length m > MAX_VAL_LEN then Inl (RangeError ''meta too large'')
      else if 256 \<le> fi_type f \<or> e < - (2 ^ 63) \<or> 2 ^ 63 \<le> e then Inl (RangeError ''The value is out of range'')
      else Inr (frame_bytes (fi_type f) 0 k v m (i64_nat e)))"
  by (auto simp: encodeFrame_def encodeFrame_any_def BigInt_of_def Let_def write_uint_def write_i64_def MAX_KEY_LEN_def MAX_VAL_LEN_def crc32_less [simplified]
      frame_bytes_def frame_body_def simp del: le_bytes.simps split: option.splits)

section \<open>Frames round-trip\<close>

lemma nat_i64_less: "i64_nat e < 256 ^ 8"
  by (rule i64_nat_less)

lemma encodeFrame_Inr:
  assumes "encodeFrame f = Inr bs"
  shows "bs = frame_bytes (fi_type f) 0 (fi_key f) (or_empty (fi_value f)) (or_empty (fi_meta f))
                (i64_nat (case fi_expireAt f of None \<Rightarrow> 0 | Some e \<Rightarrow> e))"
    and "frame_fits (fi_type f) 0 (fi_key f) (or_empty (fi_value f)) (or_empty (fi_meta f))
                (i64_nat (case fi_expireAt f of None \<Rightarrow> 0 | Some e \<Rightarrow> e))"
    and "- (2 ^ 63) \<le> (case fi_expireAt f of None \<Rightarrow> 0 | Some e \<Rightarrow> e)" "(case fi_expireAt f of None \<Rightarrow> 0 | Some e \<Rightarrow> e) < 2 ^ 63"
  using assms i64_nat_less by (auto simp: encodeFrame_eq Let_def frame_fits_def MAX_KEY_LEN_def MAX_VAL_LEN_def split: if_splits)

text \<open>What a reader gets back: no metadata and empty metadata are the same.\<close>

definition decoded :: "frame_input \<Rightarrow> frame" where
  "decoded f =
     \<lparr>fr_type = fi_type f, fr_key = fi_key f, fr_value = or_empty (fi_value f),
      fr_meta = (if or_empty (fi_meta f) = [] then None else fi_meta f),
      fr_expireAt = (case fi_expireAt f of None \<Rightarrow> 0 | Some e \<Rightarrow> js_number e)\<rparr>"

lemma frame_of_decoded:
  assumes "encodeFrame f = Inr bs"
  shows "frame_of (fi_type f) (fi_key f) (or_empty (fi_value f)) (or_empty (fi_meta f))
           (i64_nat (case fi_expireAt f of None \<Rightarrow> 0 | Some e \<Rightarrow> e)) = decoded f"
  using encodeFrame_Inr(3,4) [OF assms]
  by (auto simp: frame_of_def decoded_def or_empty_def nat_i64_nat js_number_exact split: option.splits)

lemma encoded_frame_reads:
  assumes "encodeFrame f = Inr bs"
  shows "readFrameAt (pre @ bs @ post) (length pre) = Some (decoded f, length bs)"
proof -
  note e = encodeFrame_Inr [OF assms]
  have "readFrameAt (pre @ bs @ post) (length pre) = readFrameAt (bs @ post) 0"
    by (subst readFrameAt_drop) simp_all
  then show ?thesis
    unfolding e(1) by (simp only: readFrameAt_frame [OF e(2)] frame_of_decoded [OF assms])
qed

text \<open>The record with key \<open>k\<close> and value \<open>v\<close>, for concrete instances.\<close>

definition sample_input :: frame_input where
  "sample_input = \<lparr>fi_type = TYPE_SET, fi_key = [107], fi_value = Some [118], fi_meta = None, fi_expireAt = None\<rparr>"

definition sample_bytes :: buffer where
  "sample_bytes = frame_bytes TYPE_SET 0 [107] [118] [] 0"

lemma length_sample_bytes [simp]: "length sample_bytes = 28"
  by (simp add: sample_bytes_def)

lemma sample_input_encoded: "encodeFrame sample_input = Inr sample_bytes"
  by (simp add: encodeFrame_eq sample_input_def sample_bytes_def or_empty_def MAX_KEY_LEN_def MAX_VAL_LEN_def TYPE_SET_def i64_nat_def)

text \<open>
  C35. A record survives being written: wherever its frame stands in a file, reading there gives back the
  type, the key, the value, the metadata and the expiry that were encoded, and the length of the frame. An
  expiry that a double holds exactly comes back as it was.
\<close>
theorem frame_roundtrip:
  assumes "encodeFrame f = Inr bs" and "\<bar>case fi_expireAt f of None \<Rightarrow> 0 | Some e \<Rightarrow> e\<bar> \<le> 2 ^ 53"
  shows "readFrameAt (pre @ bs @ post) (length pre) =
    Some (\<lparr>fr_type = fi_type f, fr_key = fi_key f, fr_value = or_empty (fi_value f),
           fr_meta = (if or_empty (fi_meta f) = [] then None else fi_meta f),
           fr_expireAt = (case fi_expireAt f of None \<Rightarrow> 0 | Some e \<Rightarrow> e)\<rparr>, length bs)"
  using encoded_frame_reads [OF assms(1)] assms(2)
  by (auto simp: decoded_def js_number_exact split: option.splits)

lemma frame_roundtrip_witness:
  "readFrameAt ([9] @ sample_bytes @ [7, 7]) 1 =
    Some (\<lparr>fr_type = TYPE_SET, fr_key = [107], fr_value = [118], fr_meta = None, fr_expireAt = 0\<rparr>, 28)"
  using frame_roundtrip [OF sample_input_encoded, of "[9]" "[7, 7]"] by (simp add: sample_input_def or_empty_def)

text \<open>
  C36. What the encoder refuses, and with which error, for every input whose key, value and metadata are buffers and whose
  type is a natural number: the first that applies of a key above 65535 bytes, a value and a metadata above 4294967295 bytes,
  a type that does not fit a byte, an expiry that is no integer (a fraction, NaN or infinite, on which \<open>BigInt\<close> throws) and
  an expiry that does not fit a signed 64-bit integer. On all other inputs it throws nothing. (The buffer it allocates has at
  most 2 ^ 33 + 65559 bytes, below the limit of the runtime; memory that runs out is not modelled.)
\<close>
theorem encodeFrame_rejects:
  "(case encodeFrame_any f x of Inl e \<Rightarrow> Some e | Inr bs \<Rightarrow> None) =
     (if length (fi_key f) > 65535 then Some (RangeError ''key too large'')
      else if length (or_empty (fi_value f)) > 4294967295 then Some (RangeError ''value too large'')
      else if length (or_empty (fi_meta f)) > 4294967295 then Some (RangeError ''meta too large'')
      else if fi_type f > 255 then Some (RangeError ''The value is out of range'')
      else case x of
        NotFinite \<Rightarrow> Some (RangeError ''cannot be converted to a BigInt'')
      | BigIntValue i \<Rightarrow>
          if i < - 9223372036854775808 \<or> 9223372036854775807 < i then Some (RangeError ''The value is out of range'') else None
      | NumberValue m e \<Rightarrow>
          if e < 0 \<and> \<not> 2 ^ nat (- e) dvd m then Some (RangeError ''cannot be converted to a BigInt'')
          else if m * 2 ^ nat e < - 9223372036854775808 * 2 ^ nat (- e) \<or> 9223372036854775807 * 2 ^ nat (- e) < m * 2 ^ nat e
          then Some (RangeError ''The value is out of range'') else None)"
proof (cases x)
  case (NumberValue m e)
  show ?thesis
  proof (cases "0 \<le> e")
    case True
    then show ?thesis unfolding NumberValue
      by (auto simp: encodeFrame_any_def BigInt_of_def Let_def write_uint_def write_i64_def MAX_KEY_LEN_def MAX_VAL_LEN_def
          crc32_less [simplified] simp del: le_bytes.simps)
  next
    case False
    define k :: int where "k = 2 ^ nat (- e)"
    have k: "0 < k" by (simp add: k_def)
    have w: "write_i64 (m div k) =
        (if m < - 9223372036854775808 * k \<or> 9223372036854775807 * k < m then Inl (RangeError ''The value is out of range'')
         else Inr (le_bytes 8 (i64_nat (m div k))))" if "k dvd m"
    proof -
      have "m div k < c \<longleftrightarrow> m < c * k" "c < m div k \<longleftrightarrow> c * k < m" for c
        using that k mult_less_cancel_right_pos [OF k, of "m div k" c] mult_less_cancel_right_pos [OF k, of c "m div k"] by simp_all
      from this(1) [of "- 9223372036854775808"] this(2) [of 9223372036854775807] show ?thesis
        by (cases "m < - 9223372036854775808 * k \<or> 9223372036854775807 * k < m") (auto simp: write_i64_def simp del: le_bytes.simps)
    qed
    from False show ?thesis unfolding NumberValue
      by (cases "k dvd m")
        (simp_all add: encodeFrame_any_def BigInt_of_def Let_def write_uint_def MAX_KEY_LEN_def MAX_VAL_LEN_def
          crc32_less [simplified] k_def [symmetric] w del: le_bytes.simps)
  qed
qed (auto simp: encodeFrame_any_def BigInt_of_def Let_def write_uint_def write_i64_def MAX_KEY_LEN_def MAX_VAL_LEN_def
      crc32_less [simplified] simp del: le_bytes.simps)

section \<open>Batches round-trip\<close>

definition op_bytes :: "nat \<Rightarrow> buffer \<Rightarrow> buffer \<Rightarrow> buffer \<Rightarrow> nat \<Rightarrow> buffer" where
  "op_bytes t k v m e =
     le_bytes 1 t @ le_bytes 2 (length k) @ le_bytes 4 (length v) @ le_bytes 4 (length m) @ le_bytes 8 e @ k @ v @ m"

lemma length_op_bytes [simp]: "length (op_bytes t k v m e) = 19 + length k + length v + length m"
  by (simp add: op_bytes_def)

lemma op_bytes_fields:
  fixes pre c :: buffer
  assumes "frame_fits t 0 k v m e"
  defines "b \<equiv> pre @ op_bytes t k v m e @ c" and "off \<equiv> length pre"
  shows "read_uint 1 b off = t" "read_uint 2 b (off + 1) = length k" "read_uint 4 b (off + 3) = length v"
    "read_uint 4 b (off + 7) = length m" "read_uint 8 b (off + 11) = e" "slice b (off + 19) (length k) = k"
    "slice b (off + 19 + length k) (length v) = v" "slice b (off + 19 + length k + length v) (length m) = m"
proof -
  have shift: "slice b (off + i) n = slice (op_bytes t k v m e @ c) i n" for i n
    by (simp add: b_def off_def slice_shift)
  show "read_uint 1 b off = t" using assms(1) shift [of 0 1]
    by (simp add: read_uint_def op_bytes_def slicing frame_fits_def del: le_bytes.simps One_nat_def)
  show "read_uint 2 b (off + 1) = length k" "read_uint 4 b (off + 3) = length v"
    "read_uint 4 b (off + 7) = length m" "read_uint 8 b (off + 11) = e" "slice b (off + 19) (length k) = k"
    "slice b (off + 19 + length k) (length v) = v" "slice b (off + 19 + length k + length v) (length m) = m"
    using assms(1) shift
    by (simp_all add: read_uint_def op_bytes_def slicing frame_fits_def add.assoc del: le_bytes.simps One_nat_def)
qed

lemma encode_op_eq:
  "encode_op op = Inr bs \<longleftrightarrow>
     frame_fits (bo_type op) 0 (bo_key op) (or_empty (bo_value op)) (or_empty (bo_meta op)) (i64_nat (bo_expireAt op)) \<and>
     - (2 ^ 63) \<le> bo_expireAt op \<and> bo_expireAt op < 2 ^ 63 \<and>
     bs = op_bytes (bo_type op) (bo_key op) (or_empty (bo_value op)) (or_empty (bo_meta op)) (i64_nat (bo_expireAt op))"
  using i64_nat_less [of "bo_expireAt op"]
  by (auto simp: encode_op_def Let_def write_uint_def write_i64_def frame_fits_def op_bytes_def
      simp del: le_bytes.simps)

text \<open>The operation as a reader returns it.\<close>

definition norm_op :: "batch_op \<Rightarrow> batch_op" where
  "norm_op op = op\<lparr>bo_value := Some (or_empty (bo_value op)), bo_meta := (if or_empty (bo_meta op) = [] then None else bo_meta op),
                   bo_expireAt := js_number (bo_expireAt op)\<rparr>"

abbreviation set_or_del :: "batch_op \<Rightarrow> bool" where
  "set_or_del op \<equiv> bo_type op = TYPE_SET \<or> bo_type op = TYPE_DEL"

lemma decode_encoded_ops:
  assumes "encode_ops ops = Inr bs" "list_all set_or_del ops"
  shows "decode_ops (length ops) (pre @ bs @ post) (length pre) = Inr (map norm_op ops, length pre + length bs)"
  using assms
proof (induction ops arbitrary: pre bs)
  case (Cons op ops)
  from Cons(2) obtain b1 b2 where b: "encode_op op = Inr b1" "encode_ops ops = Inr b2" "bs = b1 @ b2"
    by (auto simp: ebind_eq_Inr)
  define k v m e where flds: "k = bo_key op" "v = or_empty (bo_value op)" "m = or_empty (bo_meta op)" "e = i64_nat (bo_expireAt op)"
  have b1: "b1 = op_bytes (bo_type op) k v m e" and fits: "frame_fits (bo_type op) 0 k v m e"
    and ea: "nat_i64 e = bo_expireAt op"
    using b(1) nat_i64_nat by (auto simp: encode_op_eq flds)
  note f = op_bytes_fields [OF fits, of pre "b2 @ post"]
  have ih: "decode_ops (length ops) (pre @ b1 @ b2 @ post) (length pre + length b1) =
      Inr (map norm_op ops, length pre + length b1 + length b2)"
    using Cons.IH [of b2 "pre @ b1"] b(2) Cons.prems(2) by simp
  have "decode_ops (Suc (length ops)) (pre @ b1 @ b2 @ post) (length pre) =
    ebind (decode_ops (length ops) (pre @ b1 @ b2 @ post) (length pre + length b1)) (\<lambda>(ops', e'). Inr
      (\<lparr>bo_type = bo_type op, bo_key = k, bo_value = Some v, bo_meta = (if m = [] then None else Some m),
        bo_expireAt = js_number (bo_expireAt op)\<rparr> # ops', e'))"
    using f ea Cons.prems(2)
    by (auto simp: b1 SUB_HEADER_def read_i64_def Let_def add.assoc)
  also have "\<dots> = Inr (map norm_op (op # ops), length pre + length bs)"
    unfolding ih by (auto simp: b(3) norm_op_def flds or_empty_def split: option.splits)
  finally show ?case by (simp add: b(3))
qed simp

text \<open>Rounding to a double never takes a larger integer into the exact range.\<close>

lemma bit_length_bound: "0 < n \<Longrightarrow> 2 ^ (bit_length n - 1) \<le> n \<and> n < 2 ^ bit_length n"
proof (induction n rule: bit_length.induct)
  case (1 n)
  show ?case
  proof (cases "n div 2 = 0")
    case True
    with 1(2) have "n = 1" by simp
    then show ?thesis by (simp add: bit_length.simps)
  next
    case False
    with 1 have ih: "2 ^ (bit_length (n div 2) - 1) \<le> n div 2" "n div 2 < 2 ^ bit_length (n div 2)" by auto
    have pos: "bit_length (n div 2) = Suc (bit_length (n div 2) - 1)" using False bit_length.simps [of "n div 2"] by simp
    have len: "bit_length n = Suc (bit_length (n div 2))" using 1(2) by (subst bit_length.simps) simp
    have "(2 :: nat) ^ bit_length (n div 2) = 2 * 2 ^ (bit_length (n div 2) - 1)" by (subst pos) simp
    with ih(1) have "2 ^ bit_length (n div 2) \<le> n" by linarith
    moreover have "n < 2 * 2 ^ bit_length (n div 2)" using ih(2) by linarith
    ultimately show ?thesis by (simp add: len)
  qed
qed

lemma round_double_large: "2 ^ 53 < n \<Longrightarrow> 2 ^ 53 \<le> round_double n"
proof -
  assume n: "2 ^ 53 < n"
  define L u where Lu: "L = bit_length n" "u = (2::nat) ^ (L - 53)"
  have b: "2 ^ (L - 1) \<le> n" "n < 2 ^ L" using bit_length_bound [of n] n by (auto simp: Lu)
  have "(2::nat) ^ 53 < 2 ^ L" using n b(2) by (rule less_trans)
  then have L: "53 < L" by (simp only: power_strict_increasing_iff one_less_numeral_iff semiring_norm)
  have "L - 1 = 52 + (L - 53)" using L by simp
  then have eq: "(2::nat) ^ (L - 1) = 2 ^ 52 * u" unfolding Lu(2) by (simp only: power_add)
  have "2 ^ 52 \<le> n div u" using b(1) unfolding eq by (simp add: Lu(2) less_eq_div_iff_mult_less_eq)
  then have "2 ^ 52 * u \<le> n div u * u" by (rule mult_le_mono1)
  moreover have "n div u * u \<le> round_double n" using n by (auto simp: round_double_def Let_def Lu)
  moreover have "(2::nat) ^ 53 \<le> 2 ^ (L - 1)" using L by (intro power_increasing) auto
  ultimately show ?thesis unfolding eq by linarith
qed

lemma js_number_small: "\<bar>js_number v\<bar> < 2 ^ 53 \<Longrightarrow> js_number v = v"
proof (rule js_number_exact, rule ccontr)
  assume small: "\<bar>js_number v\<bar> < 2 ^ 53" and big: "\<not> \<bar>v\<bar> \<le> 2 ^ 53"
  then have "2 ^ 53 \<le> round_double (nat \<bar>v\<bar>)" by (intro round_double_large) simp
  then have "2 ^ 53 \<le> int (round_double (nat \<bar>v\<bar>))" by simp
  moreover have "\<bar>js_number v\<bar> = int (round_double (nat \<bar>v\<bar>))" by (simp add: js_number_def abs_if)
  ultimately show False using small by simp
qed

definition normal_op :: "batch_op \<Rightarrow> bool" where
  "normal_op op \<longleftrightarrow> bo_value op \<noteq> None \<and> bo_meta op \<noteq> Some []"

lemma norm_op_normal: "normal_op op \<Longrightarrow> \<bar>bo_expireAt op\<bar> \<le> 2 ^ 53 \<Longrightarrow> norm_op op = op"
  by (cases "bo_meta op") (auto simp: normal_op_def norm_op_def or_empty_def js_number_exact split: option.splits intro!: batch_op.equality)

lemma normal_norm_op: "normal_op (norm_op op)"
  by (auto simp: normal_op_def norm_op_def or_empty_def)

lemma op_bytes_read:
  assumes len: "off + 19 + kl + vl + ml \<le> length b" and kl: "kl = read_uint 2 b (off + 1)"
    and vl: "vl = read_uint 4 b (off + 3)" and ml: "ml = read_uint 4 b (off + 7)"
  shows "slice b off (19 + kl + vl + ml) =
    op_bytes (read_uint 1 b off) (slice b (off + 19) kl) (slice b (off + 19 + kl) vl) (slice b (off + 19 + kl + vl) ml)
      (read_uint 8 b (off + 11))" (is "_ = ?op")
proof -
  have "drop off b = slice b off 1 @ slice b (off + 1) 2 @ slice b (off + 3) 4 @ slice b (off + 7) 4 @ slice b (off + 11) 8 @
      slice b (off + 19) kl @ slice b (off + 19 + kl) vl @ slice b (off + 19 + kl + vl) ml @ drop (off + 19 + kl + vl + ml) b"
    using drop_slice [of off b 1] drop_slice [of "off + 1" b 2] drop_slice [of "off + 3" b 4] drop_slice [of "off + 7" b 4]
      drop_slice [of "off + 11" b 8] drop_slice [of "off + 19" b kl] drop_slice [of "off + 19 + kl" b vl]
      drop_slice [of "off + 19 + kl + vl" b ml]
    by (simp add: add.assoc del: One_nat_def)
  also have "\<dots> = ?op @ drop (off + 19 + kl + vl + ml) b"
    using len by (simp add: op_bytes_def le_bytes_read length_slice del: le_bytes.simps One_nat_def)
      (simp add: kl vl ml le_bytes_read)
  finally have "slice b off (19 + kl + vl + ml) = take (19 + kl + vl + ml) (?op @ drop (off + 19 + kl + vl + ml) b)"
    by (simp add: slice_def)
  then show ?thesis using len by (simp add: length_slice)
qed

lemma slice_plus: "slice b off (m + n) = slice b off m @ slice b (off + m) n"
  by (simp add: slice_def take_add add.commute)

lemma decode_ops_encoded:
  assumes "decode_ops n body off = Inr (ops, e)" "off \<le> length body" "\<forall>op \<in> set ops. \<bar>bo_expireAt op\<bar> < 2 ^ 53"
  shows "off \<le> e \<and> e \<le> length body \<and> length ops = n \<and> list_all set_or_del ops \<and> list_all normal_op ops \<and>
    encode_ops ops = Inr (slice body off (e - off))"
  using assms
proof (induction n arbitrary: off ops)
  case (Suc n)
  define t kl vl ml ea where flds: "t = read_uint 1 body off" "kl = read_uint 2 body (off + 1)" "vl = read_uint 4 body (off + 3)"
    "ml = read_uint 4 body (off + 7)" "ea = read_uint 8 body (off + 11)"
  define q where "q = off + (19 + kl + vl + ml)"
  define op where "op = \<lparr>bo_type = t, bo_key = slice body (off + 19) kl, bo_value = Some (slice body (off + 19 + kl) vl),
    bo_meta = (if ml \<noteq> 0 then Some (slice body (off + 19 + kl + vl) ml) else None), bo_expireAt = js_number (nat_i64 ea)\<rparr>"
  from Suc.prems(1) obtain ops' where t: "t = TYPE_SET \<or> t = TYPE_DEL" and q: "q \<le> length body"
    and dec: "decode_ops n body q = Inr (ops', e)" and ops: "ops = op # ops'"
    by (auto simp: SUB_HEADER_def Let_def flds q_def op_def read_i64_def ebind_eq_Inr add.assoc split: if_splits)
  from Suc.IH [OF dec q] Suc.prems(3) ops
  have ih: "q \<le> e" "e \<le> length body" "length ops' = n" "list_all set_or_del ops'" "list_all normal_op ops'"
    "encode_ops ops' = Inr (slice body q (e - q))"
    by auto
  have "bo_expireAt op = nat_i64 ea" using Suc.prems(3) ops js_number_small by (simp add: op_def)
  moreover have ea: "ea < 256 ^ 8" "i64_nat (nat_i64 ea) = ea" "- (2 ^ 63) \<le> nat_i64 ea" "nat_i64 ea < 2 ^ 63"
  proof -
    show "ea < 256 ^ 8" using q read_uint_less [of "off + 11" 8 body] by (simp add: flds q_def)
    then show "i64_nat (nat_i64 ea) = ea" "- (2 ^ 63) \<le> nat_i64 ea" "nat_i64 ea < 2 ^ 63"
      by (auto simp: i64_nat_def nat_i64_def)
  qed
  moreover have "slice body off (19 + kl + vl + ml) = op_bytes t (slice body (off + 19) kl) (slice body (off + 19 + kl) vl)
      (slice body (off + 19 + kl + vl) ml) ea"
    unfolding flds(1,5) using q by (intro op_bytes_read) (simp_all add: flds q_def)
  moreover have "t < 256" "kl < 256 ^ 2" "vl < 256 ^ 4" "ml < 256 ^ 4"
    using q read_uint_less [of off 1 body] read_uint_less [of "off + 1" 2 body] read_uint_less [of "off + 3" 4 body]
      read_uint_less [of "off + 7" 4 body] by (simp_all add: flds q_def)
  ultimately have "encode_op op = Inr (slice body off (19 + kl + vl + ml))"
    using q by (auto simp: encode_op_eq op_def or_empty_def frame_fits_def length_slice q_def)
  moreover have "slice body off (19 + kl + vl + ml) @ slice body q (e - q) = slice body off (e - off)"
    using ih(1) slice_plus [of body off "19 + kl + vl + ml" "e - q"] by (simp add: q_def)
  moreover have "normal_op op" using q by (auto simp: normal_op_def op_def q_def dest: arg_cong [where f = length] simp: length_slice)
  ultimately show ?case using ih t by (auto simp: ops op_def q_def)
qed (auto simp: slice_def)

lemma encodeBatchOps_eq:
  "encodeBatchOps ops = Inr body \<longleftrightarrow>
     list_all set_or_del ops \<and> length ops < 65536 \<and> (\<exists>bs. encode_ops ops = Inr bs \<and> body = le_bytes 2 (length ops) @ bs)"
  by (auto simp: encodeBatchOps_def write_uint_def ebind_eq_Inr simp del: le_bytes.simps split: if_splits)

lemma decode_encodeBatchOps:
  assumes "encodeBatchOps ops = Inr body"
  shows "decodeBatchOps body = Inr (map norm_op ops)"
proof -
  obtain bs where b: "list_all set_or_del ops" "length ops < 65536" "encode_ops ops = Inr bs"
    "body = le_bytes 2 (length ops) @ bs"
    using assms by (auto simp: encodeBatchOps_eq)
  have "read_uint 2 body 0 = length ops" using b(2,4) by (simp add: read_uint_def slicing del: le_bytes.simps)
  moreover have "decode_ops (length ops) body 2 = Inr (map norm_op ops, length body)"
    using decode_encoded_ops [OF b(3,1), of "le_bytes 2 (length ops)" "[]"] by (simp add: b(4) del: le_bytes.simps)
  ultimately show ?thesis by (simp add: decodeBatchOps_def b(4) del: le_bytes.simps)
qed

lemma decodeBatchOps_encoded:
  assumes "decodeBatchOps body = Inr ops" "\<forall>op \<in> set ops. \<bar>bo_expireAt op\<bar> < 2 ^ 53"
  shows "encodeBatchOps ops = Inr body \<and> list_all normal_op ops"
proof -
  from assms(1) have len: "2 \<le> length body" and dec: "decode_ops (read_uint 2 body 0) body 2 = Inr (ops, length body)"
    by (auto simp: decodeBatchOps_def ebind_eq_Inr split: if_splits)
  note d = decode_ops_encoded [OF dec len assms(2)]
  have "le_bytes 2 (length ops) = slice body 0 2" using d le_bytes_read [of 0 2 body] len by simp
  then have "body = le_bytes 2 (length ops) @ slice body 2 (length body - 2)"
    by (simp add: slice_def flip: take_drop del: le_bytes.simps)
  moreover have "length ops < 65536" using d read_uint_less [of 0 2 body] len by simp
  ultimately show ?thesis using d by (auto simp: encodeBatchOps_eq simp del: le_bytes.simps)
qed

section \<open>References into a batch body\<close>

lemma scan_ops_decode:
  "scan_ops n body bodyOff off = Inr (rs, e) \<Longrightarrow>
     decode_ops n body off = Inr (map (\<lambda>r. \<lparr>bo_type = or_type r, bo_key = or_key r,
       bo_value = Some (slice body (or_valueOff r - bodyOff) (or_valLen r)), bo_meta = or_meta r, bo_expireAt = or_expireAt r\<rparr>) rs, e)"
  by (induction n arbitrary: off rs) (auto simp: Let_def ebind_eq_Inr add.assoc split: if_splits)

lemma scan_ops_fails: "scan_ops n body bodyOff off = Inl err \<Longrightarrow> decode_ops n body off = Inl err"
  by (induction n arbitrary: off) (auto simp: Let_def ebind_def split: if_splits sum.splits dest: scan_ops_decode)

definition resolve_op :: "buffer \<Rightarrow> nat \<Rightarrow> op_ref \<Rightarrow> batch_op" where
  "resolve_op body bodyOff r =
     \<lparr>bo_type = or_type r, bo_key = or_key r, bo_value = Some (slice body (or_valueOff r - bodyOff) (or_valLen r)),
      bo_meta = or_meta r, bo_expireAt = or_expireAt r\<rparr>"

lemma scan_batch_agrees:
  "decodeBatchOps body =
     (case scanBatchOpRefs body bodyOff of Inl err \<Rightarrow> Inl err | Inr rs \<Rightarrow> Inr (map (resolve_op body bodyOff) rs))"
proof (cases "scan_ops (read_uint 2 body 0) body bodyOff 2")
  case (Inl err)
  then show ?thesis using scan_ops_fails [OF Inl] by (simp add: scanBatchOpRefs_def decodeBatchOps_def)
next
  case (Inr p)
  then obtain rs e where p: "p = (rs, e)" by (cases p)
  with scan_ops_decode [OF Inr [unfolded p]] Inr show ?thesis
    by (simp add: scanBatchOpRefs_def decodeBatchOps_def resolve_op_def [abs_def])
qed

text \<open>The value of a reference lies within the body.\<close>

lemma scan_ops_within:
  "scan_ops n body bodyOff off = Inr (rs, e) \<Longrightarrow>
     \<forall>r \<in> set rs. bodyOff \<le> or_valueOff r \<and> or_valueOff r + or_valLen r \<le> bodyOff + length body"
  by (induction n arbitrary: off rs) (auto simp: Let_def ebind_eq_Inr split: if_splits)

lemma scan_batch_within:
  "scanBatchOpRefs body bodyOff = Inr rs \<Longrightarrow>
     \<forall>r \<in> set rs. bodyOff \<le> or_valueOff r \<and> or_valueOff r + or_valLen r \<le> bodyOff + length body"
  using scan_ops_within [of "read_uint 2 body 0" body bodyOff 2]
  by (auto simp: scanBatchOpRefs_def ebind_eq_Inr split: if_splits prod.splits)

text \<open>
  C37. The batch decoder accepts exactly what the encoder writes: for operations whose expiry is an integer that a double holds
  exactly, decoding a body gives the operations if and only if encoding them gives this body and they are in
  the form a reader returns (a value, and no empty metadata). So no second body decodes to the same batch, and
  every truncated, extended or otherwise malformed body is refused. The reader of references agrees on every body,
  wherever in a file it stands: it fails with the same error, or its references, each read as the slice of the body
  from its value offset, are the operations decoded, and they are the ones encoded under the same conditions.
\<close>
theorem batch_exact:
  assumes "\<forall>op \<in> set ops. \<bar>bo_expireAt op\<bar> < 2 ^ 53"
  shows "(decodeBatchOps body = Inr ops \<longleftrightarrow> encodeBatchOps ops = Inr body \<and> list_all normal_op ops) \<and>
    (case scanBatchOpRefs body bodyOff of
       Inl err \<Rightarrow> decodeBatchOps body = Inl err
     | Inr rs \<Rightarrow> decodeBatchOps body = Inr (map (resolve_op body bodyOff) rs) \<and>
         (map (resolve_op body bodyOff) rs = ops \<longleftrightarrow> encodeBatchOps ops = Inr body \<and> list_all normal_op ops) \<and>
         (\<forall>r \<in> set rs. bodyOff \<le> or_valueOff r \<and> or_valueOff r + or_valLen r \<le> bodyOff + length body))"
proof -
  have d: "decodeBatchOps body = Inr ops \<longleftrightarrow> encodeBatchOps ops = Inr body \<and> list_all normal_op ops"
  proof
    assume "encodeBatchOps ops = Inr body \<and> list_all normal_op ops"
    moreover from this have "map norm_op ops = ops"
      using assms by (intro map_idI norm_op_normal) (auto simp: list_all_iff intro: order_less_imp_le)
    ultimately show "decodeBatchOps body = Inr ops" using decode_encodeBatchOps [of ops body] by simp
  qed (rule decodeBatchOps_encoded [OF _ assms])
  then show ?thesis
    using scan_batch_agrees [of body bodyOff] scan_batch_within [of body bodyOff] by (auto split: sum.splits)
qed

lemma batch_exact_witness:
  "\<exists>body. encodeBatchOps [\<lparr>bo_type = TYPE_DEL, bo_key = [1], bo_value = Some [], bo_meta = None, bo_expireAt = 5\<rparr>] = Inr body \<and>
    decodeBatchOps body = Inr [\<lparr>bo_type = TYPE_DEL, bo_key = [1], bo_value = Some [], bo_meta = None, bo_expireAt = 5\<rparr>]"
proof -
  let ?op = "\<lparr>bo_type = TYPE_DEL, bo_key = [1], bo_value = Some [], bo_meta = None, bo_expireAt = 5\<rparr>"
  have "\<exists>bs. encode_op ?op = Inr bs"
    by (simp add: encode_op_eq frame_fits_def or_empty_def TYPE_DEL_def i64_nat_def)
  then obtain body where "encodeBatchOps [?op] = Inr body" by (auto simp: encodeBatchOps_eq)
  moreover from this have "decodeBatchOps body = Inr [?op]"
    using batch_exact [of "[?op]" body 0] by (simp add: normal_op_def)
  ultimately show ?thesis by blast
qed

section \<open>A reader of a file agrees with the reader of a buffer\<close>

lemma crc32_Nil: "prev < 2 ^ 32 \<Longrightarrow> crc32 [] prev = prev"
  by (simp add: crc32_def crc32_word_def unat_of_nat xor.assoc)

lemma crc_file_slice:
  "crcPos + crcLeft \<le> length fd \<Longrightarrow> crc < 2 ^ 32 \<Longrightarrow> crc_file fd crc crcPos crcLeft = Inr (crc32 (slice fd crcPos crcLeft) crc)"
proof (induction fd crc crcPos crcLeft rule: crc_file.induct)
  case (1 fd crc crcPos crcLeft)
  show ?case
  proof (cases "crcLeft = 0")
    case True
    then show ?thesis by (subst crc_file.simps) (use 1 in \<open>simp add: crc32_Nil\<close>)
  next
    case False
    define n where "n = min CRC_CHUNK crcLeft"
    have n: "0 < n" "n \<le> crcLeft" using False chunk_pos by (auto simp: n_def simp del: chunk_pos)
    have read: "readExact fd crcPos n = Inr (slice fd crcPos n)" using n 1(2) by (simp add: readExact_def)
    have "crc_file fd (crc32 (slice fd crcPos n) crc) (crcPos + n) (crcLeft - n)
        = Inr (crc32 (slice fd (crcPos + n) (crcLeft - n)) (crc32 (slice fd crcPos n) crc))"
      using 1(1) [OF False n_def read _ crc32_less] 1(2) n by simp
    moreover have "slice fd crcPos crcLeft = slice fd crcPos n @ slice fd (crcPos + n) (crcLeft - n)"
      using slice_plus [of fd crcPos n "crcLeft - n"] n by simp
    ultimately show ?thesis
      using False read by (subst crc_file.simps) (simp add: n_def [symmetric] Let_def crc32_append)
  qed
qed

lemma crc_chunks_slice: "crc < 2 ^ 32 \<Longrightarrow> crc_chunks win crc crcPos crcLeft = crc32 (slice win crcPos crcLeft) crc"
proof (induction win crc crcPos crcLeft rule: crc_chunks.induct)
  case (1 win crc crcPos crcLeft)
  show ?case
  proof (cases "crcLeft = 0")
    case True
    then show ?thesis by (subst crc_chunks.simps) (use 1 in \<open>simp add: crc32_Nil\<close>)
  next
    case False
    define n where "n = min CRC_CHUNK crcLeft"
    have n: "0 < n" "n \<le> crcLeft" using False chunk_pos by (auto simp: n_def simp del: chunk_pos)
    have "slice win crcPos crcLeft = slice win crcPos n @ slice win (crcPos + n) (crcLeft - n)"
      using slice_plus [of win crcPos n "crcLeft - n"] n by simp
    with 1(1) [OF False n_def crc32_less] show ?thesis
      using False by (subst crc_chunks.simps) (simp add: n_def [symmetric] Let_def crc32_append)
  qed
qed

lemma slice_slice: "off + n \<le> m \<Longrightarrow> slice (slice b p m) off n = slice b (p + off) n"
  by (simp add: slice_def drop_take add.commute min_absorb1)

definition ref_of :: "nat \<Rightarrow> frame \<Rightarrow> nat \<Rightarrow> frame_ref" where
  "ref_of pos f n =
     \<lparr>rf_type = fr_type f, rf_key = fr_key f, rf_meta = fr_meta f, rf_expireAt = fr_expireAt f, rf_frameOff = pos,
      rf_valueOff = pos + HEADER_SIZE + length (fr_key f), rf_valLen = length (fr_value f), rf_frameLen = n\<rparr>"

lemma header_fields:
  assumes "pos + 22 \<le> length b"
  shows "keyLen_at (slice b pos 22) 0 = keyLen_at b pos" "valLen_at (slice b pos 22) 0 = valLen_at b pos"
    "metaLen_at (slice b pos 22) 0 = metaLen_at b pos" "frameLen_at (slice b pos 22) 0 = frameLen_at b pos"
    "slice (slice b pos 22) 0 2 = slice b pos 2" "read_uint 1 (slice b pos 22) 2 = read_uint 1 b (pos + 2)"
    "read_i64 (slice b pos 22) 14 = read_i64 b (pos + 14)"
  by (simp_all add: keyLen_at_def valLen_at_def metaLen_at_def frameLen_at_def read_uint_def read_i64_def slice_slice)

lemma readExact_take:
  "pos + n \<le> sz \<Longrightarrow> sz \<le> length fd \<Longrightarrow> readExact fd pos n = Inr (slice (take sz fd) pos n)"
  by (simp add: readExact_def slice_take)

lemma readFrameRefAt_eq:
  assumes "sz \<le> length fd"
  shows "readFrameRefAt fd pos sz = Inr (map_option (\<lambda>(f, n). ref_of pos f n) (readFrameAt (take sz fd) pos))"
proof (cases "sz < pos + 22")
  case True
  then show ?thesis using assms by (simp add: readFrameRefAt_def readFrameAt_def HEADER_SIZE_def)
next
  case False
  define b where "b = take sz fd"
  have lenb: "length b = sz" using assms by (simp add: b_def)
  define kl vl ml n where lens: "kl = keyLen_at b pos" "vl = valLen_at b pos" "ml = metaLen_at b pos" "n = frameLen_at b pos"
  note hd = header_fields [of pos b, folded lens]
  have n: "n = 26 + kl + vl + ml" by (simp add: lens frameLen_at_def HEADER_SIZE_def CRC_SIZE_def)
  have rd: "readExact fd p k = Inr (slice b p k)" if "p + k \<le> sz" for p k
    using that assms by (simp add: readExact_take b_def)
  show ?thesis
  proof (cases "slice b pos 2 = MAGIC \<and> kl \<le> MAX_KEY_LEN \<and> pos + n \<le> sz")
    case bad: False
    then show ?thesis
      using False lenb rd [of pos 22] hd
      by (auto simp: readFrameRefAt_def readFrameAt_def Let_def HEADER_SIZE_def CRC_SIZE_def b_def [symmetric] lens [symmetric])
  next
    case ok: True
    have crc: "crc_file fd 0 (pos + 2) (n - 6) = Inr (crc32 (slice b (pos + 2) (n - 6)) 0)"
      using ok n assms by (simp add: crc_file_slice b_def slice_take)
    have key: "(if kl \<noteq> 0 then readExact fd (pos + 22) kl else Inr []) = Inr (slice b (pos + 22) kl)"
      using ok n rd [of "pos + 22" kl] by simp
    have meta: "(if ml \<noteq> 0 then ebind (readExact fd (pos + 22 + kl + vl) ml) (\<lambda>m. Inr (Some m)) else Inr None) =
        Inr (if ml \<noteq> 0 then Some (slice b (pos + 22 + kl + vl) ml) else None)"
      using ok n rd [of "pos + 22 + kl + vl" ml] by simp
    have stored: "readExact fd (pos + n - 4) 4 = Inr (slice b (pos + n - 4) 4)"
      using ok n rd [of "pos + n - 4" 4] by simp
    have "length (slice b (pos + 22) kl) = kl" "length (slice b (pos + 22 + kl) vl) = vl"
      using ok n lenb by (simp_all add: length_slice)
    then show ?thesis
      using False lenb rd [of pos 22] hd ok n crc key meta stored
      by (auto simp: readFrameRefAt_def readFrameAt_def Let_def HEADER_SIZE_def CRC_SIZE_def frame_at_def ref_of_def
          frame_ref_at_def crc_matches_def read_uint_def slice_slice b_def [symmetric] lens [symmetric])
  qed
qed

end
