(* ===== verification/CodecScan_Proofs.thy ===== *)
theory CodecScan_Proofs imports Codec_Proofs begin

text \<open>
  The two scanners of an open file against the parse of a whole buffer, and what damage costs: the frames before a
  torn tail are all kept, and a frame hit by a short burst is never taken for a good one.
\<close>

section \<open>The next marker\<close>

abbreviation magic_at :: "buffer \<Rightarrow> nat \<Rightarrow> bool" where
  "magic_at b k \<equiv> slice b k 2 = MAGIC"

lemma magic_at_prefix: "magic_at b k \<longleftrightarrow> prefix MAGIC (drop k b)"
  unfolding slice_def by (metis append_take_drop_id length_MAGIC prefixE prefixI append_eq_conv_conj)

lemma magic_at_length: "magic_at b k \<Longrightarrow> k + 2 \<le> length b"
  by (auto simp: slice_def MAGIC_def dest: arg_cong [where f = length])

lemma index_of_magic:
  "index_of MAGIC b off = Some k \<longleftrightarrow> off \<le> k \<and> magic_at b k \<and> (\<forall>j. off \<le> j \<longrightarrow> j < k \<longrightarrow> \<not> magic_at b j)"
proof (cases "off \<le> length b")
  case True
  then show ?thesis by (auto simp: index_of_Some magic_at_prefix [symmetric] dest: magic_at_length)
next
  case False
  then have "\<not> magic_at b k" if "off \<le> k" using magic_at_length [of b k] that by auto
  moreover have "index_of MAGIC b off = None" using False by (simp add: index_of_def MAGIC_def)
  ultimately show ?thesis by auto
qed

lemma index_of_magic_None: "index_of MAGIC b off = None \<longleftrightarrow> (\<forall>k \<ge> off. \<not> magic_at b k)"
proof
  assume none: "index_of MAGIC b off = None"
  show "\<forall>k \<ge> off. \<not> magic_at b k"
  proof (intro allI impI notI)
    fix k assume k: "off \<le> k" "magic_at b k"
    define m where "m = (LEAST j. off \<le> j \<and> magic_at b j)"
    have "off \<le> m \<and> magic_at b m" unfolding m_def by (rule LeastI [of _ k]) (simp add: k)
    moreover have "\<not> magic_at b j" if "off \<le> j" "j < m" for j
      using not_less_Least [of j "\<lambda>j. off \<le> j \<and> magic_at b j"] that by (auto simp: m_def)
    ultimately have "index_of MAGIC b off = Some m" by (simp add: index_of_magic)
    with none show False by simp
  qed
next
  assume "\<forall>k \<ge> off. \<not> magic_at b k"
  then show "index_of MAGIC b off = None" by (cases "index_of MAGIC b off") (auto simp: index_of_magic)
qed

lemma index_of_magic_skip:
  assumes "off \<le> off'" "\<And>j. off \<le> j \<Longrightarrow> j < off' \<Longrightarrow> \<not> magic_at b j"
  shows "index_of MAGIC b off = index_of MAGIC b off'"
proof (cases "index_of MAGIC b off'")
  case None
  then have "\<forall>k \<ge> off. \<not> magic_at b k" using assms by (metis index_of_magic_None not_le)
  then have "index_of MAGIC b off = None" by (simp only: index_of_magic_None)
  with None show ?thesis by simp
next
  case (Some k)
  then have "index_of MAGIC b off = Some k"
    using assms unfolding index_of_magic by (metis le_trans not_le)
  with Some show ?thesis by simp
qed

lemma findMagic_eq:
  "sz \<le> length fd \<Longrightarrow> findMagic fd pos sz = index_of MAGIC (take sz fd) pos"
proof (induction fd pos sz rule: findMagic.induct)
  case (1 fd pos sz)
  define b where "b = take sz fd"
  have lenb: "length b = sz" using 1(2) by (simp add: b_def)
  show ?case
  proof (cases "sz \<le> pos")
    case True
    then have "index_of MAGIC b pos = None"
      using lenb by (auto simp: index_of_magic_None dest: magic_at_length)
    then show ?thesis using True by (simp add: findMagic.simps b_def)
  next
    case False
    define n where "n = min MAGIC_SCAN_CHUNK (sz - pos)"
    define c where "c = slice fd pos n"
    have n: "0 < n" "pos + n \<le> sz" using False by (auto simp: n_def simp del: chunk_pos intro: chunk_pos)
    have lenc: "length c = n" using n 1(2) by (simp add: c_def length_slice)
    have at: "magic_at c i \<longleftrightarrow> i + 2 \<le> n \<and> magic_at b (pos + i)" for i
    proof (cases "i + 2 \<le> n")
      case True
      then show ?thesis using n by (simp add: c_def b_def slice_slice slice_take)
    qed (auto simp: lenc dest: magic_at_length)
    show ?thesis
    proof (cases "index_of MAGIC c 0")
      case (Some i)
      then have "index_of MAGIC b pos = Some (pos + i)"
        unfolding index_of_magic
      proof (intro conjI allI impI)
        fix j assume "pos \<le> j" "j < pos + i"
        then show "\<not> magic_at b j" using Some at [of "j - pos"] at [of i] unfolding index_of_magic by auto
      qed (use at [of i] in auto)
      with Some False lenc n show ?thesis
        by (subst findMagic.simps) (auto simp: n_def [symmetric] c_def [symmetric] b_def [symmetric] Let_def)
    next
      case None
      then have no: "\<not> magic_at b (pos + i)" if "i + 2 \<le> n" for i
        using at that by (auto simp: index_of_magic_None)
      show ?thesis
      proof (cases "n < 2")
        case True
        then have "sz = pos + 1" using n False by (auto simp: n_def MAGIC_SCAN_CHUNK_def)
        then have "index_of MAGIC b pos = None"
          using lenb by (auto simp: index_of_magic_None dest: magic_at_length)
        then show ?thesis using None False lenc n True
          by (subst findMagic.simps) (auto simp: n_def [symmetric] c_def [symmetric] b_def [symmetric] Let_def)
      next
        case n2: False
        have "c \<noteq> []" using lenc n(1) by auto
        then have "findMagic fd (pos + (n - 1)) sz = index_of MAGIC b (pos + (n - 1))"
          using 1(1) [OF False c_def [unfolded n_def] _ None _ 1(2)] n2 lenc n(1) by (auto simp: b_def)
        also have "\<dots> = index_of MAGIC b pos"
        proof (rule index_of_magic_skip [symmetric])
          fix j assume "pos \<le> j" "j < pos + (n - 1)"
          then show "\<not> magic_at b j" using no [of "j - pos"] by auto
        qed simp
        finally show ?thesis using None False lenc n n2
          by (subst findMagic.simps) (auto simp: n_def [symmetric] c_def [symmetric] b_def [symmetric] Let_def)
      qed
    qed
  qed
qed

section \<open>The file scan is the parse of its bytes\<close>

lemma readFrameRefAt_whole:
  "readFrameRefAt fd pos (length fd) = Inr (map_option (\<lambda>(f, n). ref_of pos f n) (readFrameAt fd pos))"
  using readFrameRefAt_eq [of "length fd" fd pos] by simp

lemma resync_file_eq:
  assumes "cands + (length fd - scan) \<le> budget"
  shows "\<exists>c. resync_file fd (length fd) budget scan cands = Inr (resync_buffer fd scan, c) \<and>
    (\<forall>s. resync_buffer fd scan = Some s \<longrightarrow> c + scan \<le> cands + s + 1)"
  using assms
proof (induction fd scan arbitrary: cands rule: resync_buffer.induct)
  case (1 fd scan)
  have magic: "findMagic fd scan (length fd) = index_of MAGIC fd scan" by (simp add: findMagic_eq)
  show ?case
  proof (cases "length fd \<le> scan + 1 \<or> index_of MAGIC fd scan = None")
    case True
    then show ?thesis using magic by (subst resync_file.simps, subst (1 2) resync_buffer.simps) auto
  next
    case False
    then obtain s where s: "index_of MAGIC fd scan = Some s" by auto
    then have bound: "scan \<le> s" "s + 2 \<le> length fd" by (auto dest: index_of_less)
    with 1(2) have left: "\<not> budget \<le> cands" by linarith
    show ?thesis
    proof (cases "readFrameAt fd s")
      case (Some p)
      then show ?thesis using False s left bound magic
        by (subst resync_file.simps, subst (1 2) resync_buffer.simps) (auto simp: readFrameRefAt_whole split: prod.splits)
    next
      case None
      have "Suc cands + (length fd - (s + 1)) \<le> budget" using bound 1(2) by linarith
      with False s 1(1) [of s "Suc cands"] None
      obtain c where c: "resync_file fd (length fd) budget (s + 1) (Suc cands) = Inr (resync_buffer fd (s + 1), c)"
        "\<forall>r. resync_buffer fd (s + 1) = Some r \<longrightarrow> c + (s + 1) \<le> Suc cands + r + 1"
        by auto
      have "resync_buffer fd scan = resync_buffer fd (s + 1)"
        using False s None by (subst resync_buffer.simps) simp
      moreover have "resync_file fd (length fd) budget scan cands = Inr (resync_buffer fd (s + 1), c)"
        using False s None left magic c(1) by (subst resync_file.simps) (simp add: readFrameRefAt_whole)
      ultimately show ?thesis using c(2) bound by auto
    qed
  qed
qed

text \<open>A reference, with the bytes it points at.\<close>

definition resolve_ref :: "buffer \<Rightarrow> frame_ref \<Rightarrow> frame" where
  "resolve_ref fd r =
     \<lparr>fr_type = rf_type r, fr_key = rf_key r, fr_value = slice fd (rf_valueOff r) (rf_valLen r), fr_meta = rf_meta r,
      fr_expireAt = rf_expireAt r\<rparr>"

definition resolve_scan :: "buffer \<Rightarrow> scan_result \<Rightarrow> parse_result" where
  "resolve_scan fd t = \<lparr>pr_frames = map (resolve_ref fd) (sr_frames t), pr_corrupt = sr_corrupt t, pr_eof = sr_eof t\<rparr>"

lemma resolve_ref_of:
  assumes "readFrameAt fd pos = Some (f, n)"
  shows "resolve_ref fd (ref_of pos f n) = f"
proof -
  from assms have f: "f = frame_at fd pos" and len: "pos + frameLen_at fd pos \<le> length fd"
    by (auto simp: readFrameAt_def Let_def split: if_splits)
  from len have "pos + 22 + keyLen_at fd pos \<le> length fd" "pos + 22 + keyLen_at fd pos + valLen_at fd pos \<le> length fd"
    by (simp_all add: frameLen_at_def HEADER_SIZE_def)
  then have "length (fr_key f) = keyLen_at fd pos" "length (fr_value f) = valLen_at fd pos"
    by (simp_all add: f frame_at_def Let_def HEADER_SIZE_def length_slice)
  then show ?thesis
    by (simp add: resolve_ref_def ref_of_def) (simp add: f frame_at_def Let_def HEADER_SIZE_def)
qed

lemma scan_loop_parse:
  assumes "mode = Strict \<or> cands + (length fd - pos) \<le> budget"
  shows "\<exists>t. scan_loop fd mode (length fd) budget pos cands = Inr t \<and> resolve_scan fd t = parse_loop mode fd pos"
  using assms
proof (induction mode fd pos arbitrary: cands rule: parse_loop.induct)
  case (1 mode fd pos)
  show ?case
  proof (cases "length fd \<le> pos")
    case True
    then show ?thesis by (subst scan_loop.simps, subst parse_loop.simps) (simp add: resolve_scan_def)
  next
    case inside: False
    show ?thesis
    proof (cases "readFrameAt fd pos")
      case (Some p)
      obtain f n where p: "p = (f, n)" by (cases p)
      note pos = readFrameAt_pos [OF Some [unfolded p]]
      have "mode = Strict \<or> cands + (length fd - (pos + n)) \<le> budget" using 1(3) by auto
      from 1(2) [OF inside Some p [symmetric] this]
      obtain t where t: "scan_loop fd mode (length fd) budget (pos + n) cands = Inr t" "resolve_scan fd t = parse_loop mode fd (pos + n)"
        by blast
      from t(1) inside have "scan_loop fd mode (length fd) budget pos cands = Inr (t\<lparr>sr_frames := ref_of pos f n # sr_frames t\<rparr>)"
        by (subst scan_loop.simps) (simp add: readFrameRefAt_whole Some p ref_of_def)
      moreover have "parse_loop mode fd pos = (parse_loop mode fd (pos + n))\<lparr>pr_frames := f # pr_frames (parse_loop mode fd (pos + n))\<rparr>"
        using inside Some p by (subst parse_loop.simps) (simp add: Let_def)
      ultimately show ?thesis using resolve_ref_of [OF Some [unfolded p]] by (auto simp: resolve_scan_def t(2) [symmetric])
    next
      case None
      show ?thesis
      proof (cases "mode = Strict \<or> resync_buffer fd (pos + 1) = None")
        case True
        have "mode = Strict \<or> (\<exists>c. resync_file fd (length fd) budget (pos + 1) cands = Inr (None, c))"
          using True 1(3) resync_file_eq [of cands fd "pos + 1" budget] by (cases mode) auto
        with True inside None show ?thesis
          by (subst scan_loop.simps, subst parse_loop.simps) (auto simp: readFrameRefAt_whole resolve_scan_def)
      next
        case False
        then obtain r where r: "resync_buffer fd (pos + 1) = Some r" by auto
        have "cands + (length fd - (pos + 1)) \<le> budget" using False 1(3) by auto
        with r resync_file_eq [of cands fd "pos + 1" budget]
        obtain c where c: "resync_file fd (length fd) budget (pos + 1) cands = Inr (Some r, c)" "c + (pos + 1) \<le> cands + r + 1"
          by auto
        have "mode = Strict \<or> c + (length fd - r) \<le> budget"
          using c(2) False 1(3) resync_buffer_ge [OF r] by auto
        from 1(1) [OF inside None _ r this] False
        obtain t where t: "scan_loop fd mode (length fd) budget r c = Inr t" "resolve_scan fd t = parse_loop mode fd r"
          by blast
        from t(1) c(1) inside None False
        have "scan_loop fd mode (length fd) budget pos cands = Inr (t\<lparr>sr_corrupt := (pos, r) # sr_corrupt t\<rparr>)"
          by (subst scan_loop.simps) (simp add: readFrameRefAt_whole)
        moreover have "parse_loop mode fd pos = (parse_loop mode fd r)\<lparr>pr_corrupt := (pos, r) # pr_corrupt (parse_loop mode fd r)\<rparr>"
          using inside None r False by (subst parse_loop.simps) (simp add: Let_def)
        ultimately show ?thesis by (auto simp: resolve_scan_def t(2) [symmetric])
      qed
    qed
  qed
qed

section \<open>The window holds the bytes of the file\<close>

text \<open>\<open>W\<close> is the size of the window, which is more than a header.\<close>

definition win_ok :: "nat \<Rightarrow> buffer \<Rightarrow> nat \<Rightarrow> scan_state \<Rightarrow> bool" where
  "win_ok W fd sz s \<longleftrightarrow> length (ss_win s) = W \<and> ss_winLen s \<le> W \<and> ss_winStart s + ss_winLen s \<le> sz \<and>
     take (ss_winLen s) (ss_win s) = slice fd (ss_winStart s) (ss_winLen s)"

lemma take_put: "take (off + length bs) (put win off bs) = take off win @ bs" if "off \<le> length win"
  using that by (simp add: put_def)

lemma fill_reads_ok:
  assumes "take len win = slice fd start len" "len \<le> length win" "start + len \<le> sz" "sz \<le> length fd"
    "fill_reads fd sz win start len = (win', len')"
  shows "length win' = length win \<and> len' = min (length win) (sz - start) \<and> take len' win' = slice fd start len'"
  using assms
proof (induction fd sz win start len rule: fill_reads.induct)
  case (1 fd sz win start len)
  show ?case
  proof (cases "len < length win \<and> start + len < sz")
    case False
    then have "fill_reads fd sz win start len = (win, len)" by (subst fill_reads.simps) (rule if_not_P [OF False])
    then show ?thesis using False 1(2-6) by (auto simp: min_def)
  next
    case True
    define bs where "bs = slice fd (start + len) (min (length win - len) (sz - start - len))"
    have lenbs: "length bs = min (length win - len) (sz - start - len)"
      unfolding bs_def using True 1(5) by (intro length_slice) (auto simp: min_def)
    then have ne: "bs \<noteq> []" using True by auto
    have fits: "len + length bs \<le> length win" "start + (len + length bs) \<le> sz" using lenbs True by auto
    have "fill_reads fd sz (put win len bs) start (len + length bs) = (win', len')"
      using 1(6) by (subst (asm) fill_reads.simps) (simp only: if_P [OF True] Let_def bs_def [symmetric] if_not_P [OF ne])
    moreover have "take (len + length bs) (put win len bs) = slice fd start (len + length bs)"
    proof -
      have "bs = slice fd (start + len) (length bs)" unfolding lenbs by (rule bs_def)
      then show ?thesis using 1(2,3) slice_plus [of fd start len "length bs"] by (simp add: take_put)
    qed
    ultimately show ?thesis
      using 1(1) [OF True bs_def ne] fits 1(5) by auto
  qed
qed

lemma fillWindow_ok:
  assumes ok: "win_ok W fd sz s" and at: "at \<le> sz" and sz: "sz \<le> length fd"
  shows "win_ok W fd sz (fillWindow fd sz at s) \<and> ss_winStart (fillWindow fd sz at s) = at \<and>
    ss_winLen (fillWindow fd sz at s) = min W (sz - at)"
proof -
  let ?e = "ss_winStart s + ss_winLen s"
  obtain win len where wl: "(win, len) =
    (if ss_winStart s \<le> at \<and> at < ?e
     then (put (ss_win s) 0 (slice (ss_win s) (at - ss_winStart s) (?e - at)), ?e - at) else (ss_win s, 0))"
    by (metis surj_pair)
  note [simp] = ok [unfolded win_ok_def, THEN conjunct1]
  have inv: "length win = W" "len \<le> W" "at + len \<le> sz" "take len win = slice fd at len"
  proof -
    have "length win = W \<and> len \<le> W \<and> at + len \<le> sz \<and> take len win = slice fd at len"
    proof (cases "ss_winStart s \<le> at \<and> at < ?e")
      case True
      define o' keep where ok': "o' = at - ss_winStart s" "keep = ?e - at"
      have sum: "o' + keep = ss_winLen s" "ss_winStart s + o' = at" using True by (auto simp: ok')
      have wl': "win = put (ss_win s) 0 (slice (ss_win s) o' keep)" "len = keep" using wl True by (auto simp: ok')
      have "slice (ss_win s) o' keep = slice (take (ss_winLen s) (ss_win s)) o' keep" using sum by (simp add: slice_take)
      also have "\<dots> = slice fd at keep" using ok sum by (simp add: win_ok_def slice_slice)
      finally have sl: "slice (ss_win s) o' keep = slice fd at keep" .
      have keep: "at + keep \<le> sz" using ok sum by (simp add: win_ok_def ok' True)
      then have "length (slice fd at keep) = keep" using sz by (intro length_slice) simp
      then show ?thesis using take_put [of 0 "ss_win s" "slice fd at keep"] keep ok sum
        by (simp add: wl' sl win_ok_def)
    qed (use wl ok at in \<open>auto simp: win_ok_def\<close>)
    then show "length win = W" "len \<le> W" "at + len \<le> sz" "take len win = slice fd at len" by auto
  qed
  obtain win' len' where fr: "fill_reads fd sz win at len = (win', len')" by fastforce
  from fill_reads_ok [OF inv(4) _ inv(3) sz fr] inv
  have "length win' = W" "len' = min W (sz - at)" "take len' win' = slice fd at len'" by auto
  moreover have "fillWindow fd sz at s = s\<lparr>ss_win := win', ss_winStart := at, ss_winLen := len'\<rparr>"
    unfolding fillWindow_def Let_def wl [symmetric] by (simp add: fr)
  ultimately show ?thesis using at by (auto simp: win_ok_def)
qed

lemma window_slice:
  assumes "win_ok W fd sz s" "sz \<le> length fd" "ss_winStart s \<le> p" "p + n \<le> ss_winStart s + ss_winLen s"
  shows "slice (ss_win s) (p - ss_winStart s) n = slice (take sz fd) p n"
proof -
  have "slice (ss_win s) (p - ss_winStart s) n = slice (take (ss_winLen s) (ss_win s)) (p - ss_winStart s) n"
    using assms by (simp add: slice_take)
  also have "\<dots> = slice (slice fd (ss_winStart s) (ss_winLen s)) (p - ss_winStart s) n"
    using assms(1) by (simp add: win_ok_def)
  also have "\<dots> = slice fd p n" using assms(3,4) by (simp add: slice_slice)
  also have "\<dots> = slice (take sz fd) p n" using assms by (simp add: win_ok_def slice_take)
  finally show ?thesis .
qed

text \<open>A parse in the window is the parse of the file, unless the frame does not fit the window.\<close>

lemma parse_window_ok:
  assumes ok: "win_ok W fd sz s" and sz: "sz \<le> length fd" and at: "ss_winStart s \<le> at" "at \<le> sz"
    and cover: "at + 22 \<le> ss_winStart s + ss_winLen s \<or> ss_winStart s + ss_winLen s = sz"
  shows "parseFrameRefInWindow (ss_win s) (ss_winStart s) (ss_winLen s) at sz =
      (case readFrameAt (take sz fd) at of None \<Rightarrow> Invalid | Some (f, n) \<Rightarrow> Found (ref_of at f n)) \<or>
    parseFrameRefInWindow (ss_win s) (ss_winStart s) (ss_winLen s) at sz = Window"
    (is "?p = ?r \<or> ?p = Window")
proof (cases "sz < at + 22")
  case True
  then show ?thesis using ok sz
    by (auto simp: parseFrameRefInWindow_def readFrameAt_def HEADER_SIZE_def Let_def win_ok_def)
next
  case False
  define b where "b = take sz fd"
  define e o' where eo: "e = ss_winStart s + ss_winLen s" "o' = at - ss_winStart s"
  have lenb: "length b = sz" using sz by (simp add: b_def)
  have hdr: "at + 22 \<le> e" using cover False eo by auto
  have sl: "slice (ss_win s) (o' + i) n = slice b (at + i) n" if "at + i + n \<le> e" for i n
    using window_slice [OF ok sz, of "at + i" n] at that by (simp add: eo b_def add.commute)
  have at0: "keyLen_at (ss_win s) o' = keyLen_at b at" "valLen_at (ss_win s) o' = valLen_at b at"
    "metaLen_at (ss_win s) o' = metaLen_at b at" "frameLen_at (ss_win s) o' = frameLen_at b at"
    "slice (ss_win s) o' 2 = slice b at 2" "read_uint 1 (ss_win s) (o' + 2) = read_uint 1 b (at + 2)"
    "read_i64 (ss_win s) (o' + 14) = read_i64 b (at + 14)"
    using hdr sl [of 0 2]
    by (simp_all add: keyLen_at_def valLen_at_def metaLen_at_def frameLen_at_def read_uint_def read_i64_def sl)
  define kl vl ml n where lens: "kl = keyLen_at b at" "vl = valLen_at b at" "ml = metaLen_at b at" "n = frameLen_at b at"
  note f = at0 [folded lens]
  have n: "n = 26 + kl + vl + ml" by (simp add: lens frameLen_at_def HEADER_SIZE_def CRC_SIZE_def)
  show ?thesis
  proof (cases "slice b at 2 = MAGIC \<and> kl \<le> MAX_KEY_LEN \<and> at + n \<le> e")
    case False
    have "e - at < 22 \<longleftrightarrow> False" "n \<ge> 26" "e \<le> sz" using hdr n ok by (auto simp: eo win_ok_def)
    then show ?thesis using False hdr f \<open>\<not> sz < at + 22\<close> lenb
      unfolding parseFrameRefInWindow_def readFrameAt_def eo(1) [symmetric] eo(2) [symmetric] b_def [symmetric] lens [symmetric] Let_def
      by (auto simp: HEADER_SIZE_def CRC_SIZE_def)
  next
    case ok': True
    have body: "slice (ss_win s) (o' + 2) (n - 6) = slice b (at + 2) (n - 6)"
      "slice (ss_win s) (o' + n - 4) 4 = slice b (at + n - 4) 4"
      "slice (ss_win s) (o' + 22) kl = slice b (at + 22) kl"
      "slice (ss_win s) (o' + 22 + kl + vl) ml = slice b (at + 22 + kl + vl) ml"
      using ok' n sl [of 2 "n - 6"] sl [of "n - 4" 4] sl [of 22 kl] sl [of "22 + kl + vl" ml]
      by (simp_all add: ac_simps)
    have "e \<le> sz" using ok by (simp add: eo win_ok_def)
    moreover have "length (slice b (at + 22) kl) = kl" "length (slice b (at + 22 + kl) vl) = vl"
      using ok' n lenb calculation by (simp_all add: length_slice)
    ultimately show ?thesis using ok' hdr f body \<open>\<not> sz < at + 22\<close> lenb n
      unfolding parseFrameRefInWindow_def readFrameAt_def eo(1) [symmetric] eo(2) [symmetric] b_def [symmetric] lens [symmetric] Let_def
      by (auto simp: HEADER_SIZE_def CRC_SIZE_def crc_chunks_slice crc_matches_def read_uint_def frame_at_def ref_of_def
          Let_def lens [symmetric])
  qed
qed

section \<open>The windowed scan\<close>

lemma frameAt_ok:
  assumes ok: "win_ok W fd sz s" and sz: "sz \<le> length fd" and at: "at \<le> sz" and W: "22 \<le> W"
  obtains s' where "frameAt fd sz at s = (readFrameRefAt fd at sz, s')" "win_ok W fd sz s'"
    "ss_winStart s' \<le> at"
    "ss_winStart s' = ss_winStart s \<and> ss_winLen s' = ss_winLen s \<and> at + 22 \<le> ss_winStart s + ss_winLen s \<or>
      ss_winStart s' = at \<and> ss_winLen s' = min W (sz - at)"
proof -
  let ?fill = "fillWindow fd sz at" and ?parse = "\<lambda>s. parseFrameRefInWindow (ss_win s) (ss_winStart s) (ss_winLen s) at sz"
  define r where "r = (case readFrameAt (take sz fd) at of None \<Rightarrow> Invalid | Some (f, n) \<Rightarrow> Found (ref_of at f n))"
  have res: "r = Invalid \<and> readFrameRefAt fd at sz = Inr None \<or> (\<exists>x. r = Found x \<and> readFrameRefAt fd at sz = Inr (Some x))"
    using sz by (auto simp: r_def readFrameRefAt_eq split: option.splits)
  define s1 where "s1 = (if at < ss_winStart s \<or> at + HEADER_SIZE > ss_winStart s + ss_winLen s then ?fill s else s)"
  have fill: "win_ok W fd sz (?fill t) \<and> ss_winStart (?fill t) = at \<and> ss_winLen (?fill t) = min W (sz - at) \<and> (?parse (?fill t) = r \<or> ?parse (?fill t) = Window)"
    if "win_ok W fd sz t" for t
  proof -
    have "at + 22 \<le> at + min W (sz - at) \<or> at + min W (sz - at) = sz" using W at by (auto simp: min_def)
    then show ?thesis using fillWindow_ok [OF that at sz] parse_window_ok [OF _ sz _ at, of W "?fill t"] unfolding r_def by auto
  qed
  have s1: "win_ok W fd sz s1" "ss_winStart s1 \<le> at" "?parse s1 = r \<or> ?parse s1 = Window"
    "ss_winStart s1 = ss_winStart s \<and> ss_winLen s1 = ss_winLen s \<and> at + 22 \<le> ss_winStart s + ss_winLen s \<or>
      ss_winStart s1 = at \<and> ss_winLen s1 = min W (sz - at)"
    using fill [OF ok] ok parse_window_ok [OF ok sz _ at] by (auto simp: s1_def r_def HEADER_SIZE_def not_less)
  have eq: "frameAt fd sz at s = (case ?parse s1 of Found x \<Rightarrow> (Inr (Some x), s1) | Invalid \<Rightarrow> (Inr None, s1)
      | Window \<Rightarrow> if at - ss_winStart s1 > 0 then (case ?parse (?fill s1) of Found x \<Rightarrow> (Inr (Some x), ?fill s1)
          | Invalid \<Rightarrow> (Inr None, ?fill s1) | Window \<Rightarrow> (readFrameRefAt fd at sz, ?fill s1)) else (readFrameRefAt fd at sz, s1))"
    unfolding frameAt_def Let_def s1_def [symmetric] by (rule refl)
  show ?thesis
  proof (cases "?parse s1 = r \<or> at - ss_winStart s1 = 0")
    case True
    then have "frameAt fd sz at s = (readFrameRefAt fd at sz, s1)"
      using s1(3) res unfolding eq by auto
    then show ?thesis using s1 that by blast
  next
    case False
    then have "frameAt fd sz at s = (readFrameRefAt fd at sz, ?fill s1)"
      using s1(3) res fill [OF s1(1)] unfolding eq by auto
    then show ?thesis using fill [OF s1(1)] that by auto
  qed
qed

lemma throwIfAborted_cases:
  "throwIfAborted aborted s = Inl ABORTED \<and> (\<exists>n. aborted n) \<or>
   throwIfAborted aborted s = Inr (s\<lparr>ss_asked := Suc (ss_asked s)\<rparr>)"
  by (auto simp: throwIfAborted_def)

lemma tick_cases:
  "tick aborted a s = Inl ABORTED \<and> (\<exists>n. aborted n) \<or>
   (\<exists>y k. tick aborted a s = Inr (s\<lparr>ss_sinceYield := y, ss_asked := k\<rparr>))"
proof -
  have "\<exists>y' k. s\<lparr>ss_sinceYield := y\<rparr> = s\<lparr>ss_sinceYield := y', ss_asked := k\<rparr>" for y
    by (rule exI [of _ y], rule exI [of _ "ss_asked s"]) simp
  then show ?thesis by (auto simp: tick_def throwIfAborted_def)
qed

lemma win_ok_ticked [simp]: "win_ok W fd sz (s\<lparr>ss_sinceYield := y, ss_asked := k\<rparr>) = win_ok W fd sz s"
  by (simp add: win_ok_def)

text \<open>When the window reaches the end of the file, the search in it is the search in the file.\<close>

definition at_end :: "nat \<Rightarrow> buffer \<Rightarrow> nat \<Rightarrow> nat \<Rightarrow> scan_state \<Rightarrow> bool" where
  "at_end W fd sz p s \<longleftrightarrow> win_ok W fd sz s \<and> ss_winStart s \<le> p \<and> ss_winStart s + ss_winLen s = sz"

lemma index_of_window:
  assumes e: "at_end W fd sz scan s" and sz: "sz \<le> length fd"
  shows "case index_of MAGIC (take sz fd) scan of
      Some k \<Rightarrow> index_of MAGIC (ss_win s) (scan - ss_winStart s) = Some (k - ss_winStart s) \<and> ss_winStart s \<le> k \<and> k + 2 \<le> sz
    | None \<Rightarrow> index_of MAGIC (ss_win s) (scan - ss_winStart s) = None \<or>
        (\<exists>i. index_of MAGIC (ss_win s) (scan - ss_winStart s) = Some i \<and> sz \<le> ss_winStart s + i + 1)"
proof -
  let ?b = "take sz fd" and ?w = "ss_win s" and ?a = "ss_winStart s"
  have ok: "win_ok W fd sz s" "?a \<le> scan" "?a + ss_winLen s = sz" using e by (simp_all add: at_end_def)
  have at: "magic_at ?w (p - ?a) \<longleftrightarrow> magic_at ?b p" if "?a \<le> p" "p + 2 \<le> sz" for p
    using window_slice [OF ok(1) sz that(1), of 2] that(2) ok(3) by simp
  show ?thesis
  proof (cases "index_of MAGIC ?b scan")
    case (Some k)
    then have k: "scan \<le> k" "magic_at ?b k" "\<And>j. scan \<le> j \<Longrightarrow> j < k \<Longrightarrow> \<not> magic_at ?b j" by (auto simp: index_of_magic)
    then have k2: "k + 2 \<le> sz" using magic_at_length [OF k(2)] by simp
    have "\<not> magic_at ?w j" if "scan - ?a \<le> j" "j < k - ?a" for j
      using k(3) [of "j + ?a"] at [of "j + ?a"] that k2 by simp
    then have "index_of MAGIC ?w (scan - ?a) = Some (k - ?a)"
      using k at [of k] k2 ok(2) by (auto simp: index_of_magic)
    then show ?thesis using Some k k2 ok(2) by auto
  next
    case None
    have "sz \<le> ?a + i + 1" if "index_of MAGIC ?w (scan - ?a) = Some i" for i
      using that at [of "i + ?a"] None ok(2) by (force simp: index_of_magic index_of_magic_None)
    then show ?thesis using None by (cases "index_of MAGIC ?w (scan - ?a)") auto
  qed
qed

text \<open>Before the first read the window is empty.\<close>

definition ready :: "nat \<Rightarrow> buffer \<Rightarrow> nat \<Rightarrow> nat \<Rightarrow> scan_state \<Rightarrow> bool" where
  "ready W fd sz p s \<longleftrightarrow> at_end W fd sz p s \<or> win_ok W fd sz s \<and> ss_winStart s = p \<and> ss_winLen s = 0"

lemma frameAt_at_end:
  assumes e: "ready W fd sz p s" and sz: "sz \<le> length fd" and at: "p \<le> at" "at \<le> sz" and W: "22 \<le> W" "sz - p \<le> W"
  obtains s' where "frameAt fd sz at s = (readFrameRefAt fd at sz, s')" "at_end W fd sz at s'"
proof -
  from e have ok: "win_ok W fd sz s" by (auto simp: at_end_def ready_def)
  from frameAt_ok [OF ok sz at(2) W(1)] obtain s' where s': "frameAt fd sz at s = (readFrameRefAt fd at sz, s')" "win_ok W fd sz s'"
    "ss_winStart s' \<le> at" "ss_winStart s' = ss_winStart s \<and> ss_winLen s' = ss_winLen s \<and> at + 22 \<le> ss_winStart s + ss_winLen s \<or>
      ss_winStart s' = at \<and> ss_winLen s' = min W (sz - at)"
    by blast
  moreover have "at_end W fd sz at s'" using s' e at W by (auto simp: at_end_def ready_def min_def)
  ultimately show ?thesis using that by blast
qed

lemma covering_at_end:
  assumes "at_end W fd sz p s" "sz \<le> length fd" "p \<le> scan" "scan < sz" "sz - p \<le> W"
  shows "at_end W fd sz scan (covering fd sz scan s)"
  using assms fillWindow_ok [of W fd sz s scan] by (auto simp: at_end_def covering_def min_def)

lemma at_end_ticked [simp]: "at_end W fd sz p (s\<lparr>ss_sinceYield := y, ss_asked := k\<rparr>) = at_end W fd sz p s"
  by (simp add: at_end_def)

lemma at_end_mono: "at_end W fd sz p s \<Longrightarrow> p \<le> q \<Longrightarrow> at_end W fd sz q s"
  by (simp add: at_end_def)

lemma resync_window_ok:
  assumes "at_end W fd sz p s" "sz \<le> length fd" "p \<le> scan" "22 \<le> W" "sz - p \<le> W"
  shows "\<exists>r c s'. resync_file fd sz budget scan cands = Inr (r, c) \<and> resync_window aborted fd sz budget scan cands s = Inr (r, c, s') \<and>
    (\<forall>k. r = Some k \<longrightarrow> at_end W fd sz k s')"
  using assms
proof (induction fd sz budget scan cands arbitrary: p s rule: resync_file.induct)
  case (1 fd sz budget scan cands)
  show ?case
  proof (cases "sz \<le> scan + 1")
    case True
    then show ?thesis by (subst resync_file.simps, subst resync_window.simps) simp
  next
    case inside: False
    define s1 where "s1 = covering fd sz scan s"
    have s1: "at_end W fd sz scan s1" unfolding s1_def using 1(2-6) inside by (intro covering_at_end) auto
    then have e1: "ss_winStart s1 \<le> scan" "ss_winStart s1 + ss_winLen s1 = sz" by (simp_all add: at_end_def)
    note idx = index_of_window [OF s1 1(3)]
    show ?thesis
    proof (cases "index_of MAGIC (take sz fd) scan")
      case None
      then have "resync_file fd sz budget scan cands = Inr (None, cands)"
        using inside 1(3) by (subst resync_file.simps) (simp add: findMagic_eq)
      moreover have "resync_window aborted fd sz budget scan cands s = Inr (None, cands, s1)"
        using idx None inside e1 by (subst resync_window.simps) (auto simp: Let_def s1_def [symmetric])
      ultimately show ?thesis by auto
    next
      case (Some k)
      then have k: "findMagic fd scan sz = Some k" using 1(3) by (simp add: findMagic_eq)
      have kb: "scan \<le> k" "k + 2 \<le> sz" using findMagic_bounds [OF k] by auto
      from idx Some have idx': "index_of MAGIC (ss_win s1) (scan - ss_winStart s1) = Some (k - ss_winStart s1)" "ss_winStart s1 \<le> k" by auto
      have "ready W fd sz scan s1" "scan \<le> k" "k \<le> sz" "sz - scan \<le> W" using s1 kb 1(4,6) by (auto simp: ready_def)
      from frameAt_at_end [OF this(1) 1(3) this(2,3) 1(5) this(4)] obtain s2
        where s2: "frameAt fd sz k s1 = (readFrameRefAt fd k sz, s2)" "at_end W fd sz k s2" by blast
      have win: "resync_window aborted fd sz budget scan cands s =
          (if budget \<le> cands then Inr (None, Suc cands, s1) else case frameAt fd sz k s1 of
             (Inl e, s2) \<Rightarrow> Inl e | (Inr (Some r), s2) \<Rightarrow> Inr (Some k, Suc cands, s2)
           | (Inr None, s2) \<Rightarrow> resync_window aborted fd sz budget (k + 1) (Suc cands) s2)"
        using idx' inside kb by (subst resync_window.simps) (simp add: Let_def s1_def [symmetric])
      have scan: "resync_file fd sz budget scan cands =
          (if budget \<le> cands then Inr (None, Suc cands) else case readFrameRefAt fd k sz of
             Inl e \<Rightarrow> Inl e | Inr (Some r) \<Rightarrow> Inr (Some k, Suc cands)
           | Inr None \<Rightarrow> resync_file fd sz budget (k + 1) (Suc cands))"
        using inside k by (subst resync_file.simps) simp
      obtain r where r: "readFrameRefAt fd k sz = Inr r" using 1(3) by (simp add: readFrameRefAt_eq)
      show ?thesis
      proof (cases "budget \<le> cands \<or> r \<noteq> None")
        case True
        then show ?thesis using s2 r by (auto simp: win scan)
      next
        case False
        have "at_end W fd sz (k + 1) s2" by (rule at_end_mono [OF s2(2)]) simp
        with 1(1) [OF inside k _ _ _ s2(2) 1(3) _ 1(5)] False r 1(4,6) kb
        have "\<exists>r c s'. resync_file fd sz budget (k + 1) (Suc cands) = Inr (r, c) \<and>
          resync_window aborted fd sz budget (k + 1) (Suc cands) s2 = Inr (r, c, s') \<and> (\<forall>k. r = Some k \<longrightarrow> at_end W fd sz k s')"
          by auto
        then show ?thesis using False r s2 by (simp add: win scan)
      qed
    qed
  qed
qed

definition loop_ready :: "on_corrupt \<Rightarrow> nat \<Rightarrow> buffer \<Rightarrow> nat \<Rightarrow> nat \<Rightarrow> scan_state \<Rightarrow> bool" where
  "loop_ready mode W fd sz p s \<longleftrightarrow> win_ok W fd sz s \<and> (mode = Strict \<or> ready W fd sz p s \<and> sz - p \<le> W)"

lemma loop_ready_next:
  assumes "win_ok W fd sz s" "mode = Strict \<or> at_end W fd sz p s \<and> sz - p \<le> W" "p \<le> q"
  shows "loop_ready mode W fd sz q s"
  using assms by (auto simp: loop_ready_def ready_def at_end_def)

lemma frameAt_loop:
  assumes "loop_ready mode W fd sz p s" "sz \<le> length fd" "p \<le> sz" "22 \<le> W"
  obtains s' where "frameAt fd sz p s = (readFrameRefAt fd p sz, s')" "win_ok W fd sz s'"
    "mode = Strict \<or> at_end W fd sz p s' \<and> sz - p \<le> W"
proof (cases "mode = Strict")
  case True
  then show ?thesis using assms that frameAt_ok [of W fd sz s p] by (auto simp: loop_ready_def)
next
  case False
  then have r: "ready W fd sz p s" "sz - p \<le> W" using assms(1) by (auto simp: loop_ready_def)
  show ?thesis
    by (rule frameAt_at_end [OF r(1) assms(2) order_refl assms(3,4) r(2)]) (use that r in \<open>auto simp: at_end_def\<close>)
qed

lemma window_loop_scan:
  assumes "loop_ready mode W fd sz pos s" "sz \<le> length fd" "22 \<le> W"
  shows "window_loop aborted fd mode sz budget pos cands s = Inl ABORTED \<and> (\<exists>n. aborted n) \<or>
    window_loop aborted fd mode sz budget pos cands s = scan_loop fd mode sz budget pos cands"
  using assms
proof (induction fd mode sz budget pos cands arbitrary: s rule: scan_loop.induct)
  case (1 fd mode sz budget pos cands)
  note w = window_loop.simps [of aborted fd mode sz budget pos cands s]
  note sc = scan_loop.simps [of fd mode sz budget pos cands]
  show ?case
  proof (cases "sz \<le> pos")
    case True
    then show ?thesis using throwIfAborted_cases [of aborted s]
      by (auto simp: w sc)
  next
    case inside: False
    from inside have "pos \<le> sz" by simp
    from frameAt_loop [OF 1(3,4) this 1(5)] obtain s1 where s1: "frameAt fd sz pos s = (readFrameRefAt fd pos sz, s1)" "win_ok W fd sz s1"
      "mode = Strict \<or> at_end W fd sz pos s1 \<and> sz - pos \<le> W" by blast
    obtain q where q: "readFrameRefAt fd pos sz = Inr q" using 1(4) by (simp add: readFrameRefAt_eq)
    show ?thesis
    proof (cases q)
      case (Some r)
      consider "tick aborted (rf_frameLen r) s1 = Inl ABORTED" "\<exists>n. aborted n"
        | y k where "tick aborted (rf_frameLen r) s1 = Inr (s1\<lparr>ss_sinceYield := y, ss_asked := k\<rparr>)"
        using tick_cases [of aborted "rf_frameLen r" s1] by blast
      then show ?thesis
      proof cases
        case 1
        then show ?thesis using inside q Some s1 by (simp add: w)
      next
        case 2
        have "loop_ready mode W fd sz (pos + rf_frameLen r) (s1\<lparr>ss_sinceYield := y, ss_asked := k\<rparr>)"
          using s1(2,3) by (intro loop_ready_next [where p = pos]) auto
        from "1.IH"(2) [OF inside q Some this 1(4,5)]
        consider "window_loop aborted fd mode sz budget (pos + rf_frameLen r) cands (s1\<lparr>ss_sinceYield := y, ss_asked := k\<rparr>) = Inl ABORTED"
            "\<exists>n. aborted n"
          | "window_loop aborted fd mode sz budget (pos + rf_frameLen r) cands (s1\<lparr>ss_sinceYield := y, ss_asked := k\<rparr>) =
              scan_loop fd mode sz budget (pos + rf_frameLen r) cands" by blast
        then show ?thesis using inside q Some s1 2
          by cases (simp_all add: w sc)
      qed
    next
      case None
      show ?thesis
      proof (cases "mode = Strict")
        case True
        then show ?thesis unfolding w sc using inside q None s1 throwIfAborted_cases [of aborted s1] by auto
      next
        case False
        then have e: "at_end W fd sz pos s1" "sz - pos \<le> W" using s1(3) by auto
        from resync_window_ok [OF e(1) 1(4) _ 1(5) e(2), of "pos + 1" budget cands aborted]
        obtain r c s2 where r: "resync_file fd sz budget (pos + 1) cands = Inr (r, c)"
          "resync_window aborted fd sz budget (pos + 1) cands s1 = Inr (r, c, s2)" "\<And>k. r = Some k \<Longrightarrow> at_end W fd sz k s2" by auto
        show ?thesis
        proof (cases r)
          case rn: None
          then show ?thesis using inside q None s1 r False throwIfAborted_cases [of aborted s2]
            by (auto simp: w sc)
        next
          case (Some k)
          have "pos + 1 \<le> k" using resync_file_bounds r(1) Some by blast
          then have "loop_ready mode W fd sz k s2" using r(3) [OF Some] e(2) by (auto simp: loop_ready_def ready_def at_end_def)
          from "1.IH"(1) [OF inside q None False r(1) refl Some this 1(4,5)]
          have "window_loop aborted fd mode sz budget k c s2 = Inl ABORTED \<and> (\<exists>n. aborted n) \<or>
              window_loop aborted fd mode sz budget k c s2 = scan_loop fd mode sz budget k c" by blast
          then show ?thesis using inside q None s1 r False Some
            by (auto simp: w sc)
        qed
      qed
    qed
  qed
qed

lemma new_window_loop_ready:
  assumes "length junk = W" "startOffset \<le> sz" "mode = Strict \<or> sz - startOffset \<le> W"
  shows "loop_ready mode W fd sz startOffset (new_window junk startOffset\<lparr>ss_asked := k\<rparr>)"
  using assms by (auto simp: loop_ready_def ready_def win_ok_def new_window_def)

lemma async_scan_loop:
  assumes "length junk = W" "22 \<le> W" "mode = Strict \<or> length fd - startOffset \<le> W"
  shows "scanFrameRefsFdAsync aborted junk fd mode startOffset None budget = Inl ABORTED \<and> (\<exists>n. aborted n) \<or>
    scanFrameRefsFdAsync aborted junk fd mode startOffset None budget = scanFrameRefsFd fd mode startOffset budget"
proof (cases "startOffset \<le> length fd")
  case True
  have "loop_ready mode W fd (length fd) startOffset (new_window junk startOffset\<lparr>ss_asked := Suc 0\<rparr>)"
    using assms True by (intro new_window_loop_ready) auto
  from window_loop_scan [OF this _ assms(2), of aborted budget 0] show ?thesis
    by (auto simp: scanFrameRefsFdAsync_def scanFrameRefsFd_def throwIfAborted_def Let_def new_window_def)
next
  case False
  then show ?thesis
    by (auto simp: scanFrameRefsFdAsync_def scanFrameRefsFd_def Let_def throwIfAborted_def new_window_def
        window_loop.simps scan_loop.simps)
qed

text \<open>
  C39. Under two conditions the scan through the window gives what the scan with positioned reads gives: the same
  references, the same corrupt ranges and the same end, or the same error. The scan stops at the first damage
  (\<open>Strict\<close>), for a file of any size; or it resynchronises, as it does by default, and what is left of the file from the start
  offset fits into one window of 4 MiB. No end offset is given. If the abort signal was ever set, the result may be an
  abort instead. Without the second condition the claim is false: in larger files the resynchronising scan can
  lose a marker that the end of a window cuts (lemma \<open>async_scan_loses_cut_marker\<close>).
\<close>
theorem async_scan_agrees:
  assumes "length junk = ASYNC_SCAN_WINDOW" and "mode = Strict \<or> length fd - startOffset \<le> ASYNC_SCAN_WINDOW"
  shows "scanFrameRefsFdAsync aborted junk fd mode startOffset None budget = Inl ABORTED \<and> (\<exists>n. aborted n) \<or>
    scanFrameRefsFdAsync aborted junk fd mode startOffset None budget = scanFrameRefsFd fd mode startOffset budget"
  using assms by (intro async_scan_loop) (auto simp: ASYNC_SCAN_WINDOW_def)

lemma async_scan_agrees_witness:
  "length (replicate ASYNC_SCAN_WINDOW 0 :: buffer) = ASYNC_SCAN_WINDOW \<and>
   scanFrameRefsFdAsync (\<lambda>_. False) (replicate ASYNC_SCAN_WINDOW 0) [0x4d, 0x44, 0x01] Strict 0 None 7
     = Inr \<lparr>sr_frames = [], sr_corrupt = [(0, 3)], sr_eof = 0\<rparr>"
  using async_scan_agrees [of "replicate ASYNC_SCAN_WINDOW 0" Strict "[0x4d, 0x44, 0x01]" 0 "\<lambda>_. False" 7]
  by (simp add: scanFrameRefsFd_def scan_loop.simps readFrameRefAt_def HEADER_SIZE_def)

text \<open>
  The scan of an open file reads what the parse of its bytes reads: the same records with the same values, the same
  corrupt ranges and the same end, never failing, if it stops at the first damage or its budget of
  candidates is at least the length of the file.
\<close>
theorem file_scan_is_parse:
  assumes "mode = Strict \<or> length fd \<le> budget"
  shows "\<exists>t. scanFrameRefsFd fd mode 0 budget = Inr t \<and>
    map (resolve_ref fd) (sr_frames t) = pr_frames (parseBuffer fd mode) \<and>
    sr_corrupt t = pr_corrupt (parseBuffer fd mode) \<and> sr_eof t = pr_eof (parseBuffer fd mode)"
proof -
  from scan_loop_parse [of mode 0 fd 0 budget] assms
  obtain t where t: "scan_loop fd mode (length fd) budget 0 0 = Inr t" "resolve_scan fd t = parse_loop mode fd 0" by auto
  show ?thesis unfolding scanFrameRefsFd_def parseBuffer_def t(2) [symmetric] t(1) by (auto simp: resolve_scan_def)
qed

lemma file_scan_is_parse_witness:
  "\<exists>t. scanFrameRefsFd sample_bytes Strict 0 0 = Inr t \<and>
    map (resolve_ref sample_bytes) (sr_frames t) =
      pr_frames (parseBuffer sample_bytes Strict)"
  using file_scan_is_parse [of Strict sample_bytes 0] by blast

end
