(* ===== verification/FrameLog.thy ===== *)
theory FrameLog imports CodecScan_Proofs begin

text \<open>
  A log is the concatenation of encoded records. What a reader gets from a log that was cut short at any byte, what the
  streaming parser yields when the log arrives in pieces, and that a short burst of damaged bytes is noticed.
\<close>

section \<open>Logs and their prefixes\<close>

definition encodes :: "frame_input list \<Rightarrow> buffer list \<Rightarrow> bool" where
  "encodes fs bss \<longleftrightarrow> list_all2 (\<lambda>f bs. encodeFrame f = Inr bs) fs bss"

text \<open>Bytes that begin a record and do not finish it.\<close>

definition torn :: "buffer \<Rightarrow> bool" where
  "torn tail \<longleftrightarrow> (\<exists>f bs. encodeFrame f = Inr bs \<and> strict_prefix tail bs)"

lemma encoded_length: "encodeFrame f = Inr bs \<Longrightarrow> 26 \<le> length bs"
  using encodeFrame_Inr(1) [of f bs] by simp

lemma torn_Nil: "torn []"
proof -
  obtain bs where bs: "encodeFrame \<lparr>fi_type = 1, fi_key = [], fi_value = None, fi_meta = None, fi_expireAt = None\<rparr> = Inr bs"
    by (simp add: encodeFrame_eq Let_def or_empty_def)
  moreover have "strict_prefix [] bs" using encoded_length [OF bs] by (cases bs) auto
  ultimately show ?thesis unfolding torn_def by blast
qed

lemma torn_readFrameAt:
  assumes "torn tail"
  shows "readFrameAt tail 0 = None"
proof (rule ccontr)
  assume "readFrameAt tail 0 \<noteq> None"
  then obtain g m where g: "readFrameAt tail 0 = Some (g, m)" by auto
  from readFrameAt_inv [OF this] obtain t fl k v m' e where fits: "frame_fits t fl k v m' e"
    and tail: "tail = frame_bytes t fl k v m' e @ drop m tail" "m = length (frame_bytes t fl k v m' e)" by metis
  from assms obtain f bs where f: "encodeFrame f = Inr bs" and pre: "strict_prefix tail bs" by (auto simp: torn_def)
  from pre obtain c where c: "bs = tail @ c" by (auto simp: strict_prefix_def prefix_def)
  have "readFrameAt (tail @ c) 0 = Some (frame_of t k v m' e, m)"
    using readFrameAt_frame [OF fits, of "drop m tail @ c"] tail by (metis append.assoc)
  moreover have "readFrameAt (tail @ c) 0 = Some (decoded f, length bs)"
    using encoded_frame_reads [OF f, of "[]" "[]"] c by simp
  ultimately have "m = length bs" by simp
  moreover have "m \<le> length tail" using readFrameAt_pos [OF g] by simp
  moreover have "length tail < length bs" using pre by (rule prefix_length_less)
  ultimately show False by simp
qed

lemma encodes_Cons: "encodes (f # fs) bss \<longleftrightarrow> (\<exists>bs bss'. bss = bs # bss' \<and> encodeFrame f = Inr bs \<and> encodes fs bss')"
  by (cases bss) (auto simp: encodes_def)

lemma encodes_Nil [simp]: "encodes [] bss \<longleftrightarrow> bss = []"
  by (auto simp: encodes_def)

lemma encodes_length: "encodes fs bss \<Longrightarrow> length bss = length fs"
  by (auto simp: encodes_def dest: list_all2_lengthD)

lemma encodes_take: "encodes fs bss \<Longrightarrow> encodes (take k fs) (take k bss)"
  by (auto simp: encodes_def)

lemma encodes_drop: "encodes fs bss \<Longrightarrow> encodes (drop k fs) (drop k bss)"
  by (auto simp: encodes_def)

text \<open>A prefix of a log is a number of whole records and a torn one.\<close>

lemma log_prefix:
  assumes "encodes fs bss" "prefix p (concat bss)"
  obtains k tail where "k \<le> length fs" "p = concat (take k bss) @ tail" "torn tail"
    "k < length fs \<Longrightarrow> strict_prefix tail (bss ! k)" "k = length fs \<Longrightarrow> tail = []"
  using assms
proof (induction fs arbitrary: bss p thesis)
  case Nil
  then show ?case using torn_Nil by (force simp: prefix_def)
next
  case (Cons f fs)
  from Cons.prems(2) obtain bs bss' where b: "bss = bs # bss'" "encodeFrame f = Inr bs" "encodes fs bss'"
    by (auto simp: encodes_Cons)
  show ?case
  proof (cases "prefix bs p")
    case True
    then obtain p' where p': "p = bs @ p'" by (auto simp: prefix_def)
    with Cons.prems(3) b(1) have "prefix p' (concat bss')" by simp
    from Cons.IH [OF _ b(3) this] obtain k tail where k: "k \<le> length fs" "p' = concat (take k bss') @ tail" "torn tail"
      "k < length fs \<Longrightarrow> strict_prefix tail (bss' ! k)" "k = length fs \<Longrightarrow> tail = []" by blast
    show ?thesis by (rule Cons.prems(1) [of "Suc k" tail]) (use k p' b in auto)
  next
    case False
    from Cons.prems(3) b(1) have "prefix p (bs @ concat bss')" by simp
    then have "prefix p bs \<or> (\<exists>us. p = bs @ us)" unfolding prefix_append by blast
    with False have "strict_prefix p bs" by (auto simp: strict_prefix_def)
    then show ?thesis using b Cons.prems(1) [of 0 p] by (auto simp: torn_def)
  qed
qed

section \<open>Parsing a log\<close>

lemma encoded_next:
  assumes "encodes fs bss" "k < length fs" "j = length (pre @ concat (take k bss))"
  shows "readFrameAt (pre @ concat bss @ post) j = Some (decoded (fs ! k), length (bss ! k))"
proof -
  have len: "k < length bss" using assms encodes_length by metis
  then have split: "pre @ concat bss @ post = (pre @ concat (take k bss)) @ bss ! k @ (concat (drop (Suc k) bss) @ post)"
    by (metis append.assoc concat.simps(2) concat_append id_take_nth_drop)
  have "encodeFrame (fs ! k) = Inr (bss ! k)" using assms(1,2) by (auto simp: encodes_def dest: list_all2_nthD)
  then show ?thesis unfolding split assms(3) by (rule encoded_frame_reads)
qed

lemma parse_encoded:
  assumes "encodes fs bss"
  shows "parse_loop mode (pre @ concat bss @ post) (length pre) =
    (let r = parse_loop mode (pre @ concat bss @ post) (length (pre @ concat bss)) in
     r\<lparr>pr_frames := map decoded fs @ pr_frames r\<rparr>)"
  using assms
proof (induction fs arbitrary: bss pre)
  case (Cons f fs)
  from Cons.prems obtain bs bss' where b: "bss = bs # bss'" "encodeFrame f = Inr bs" "encodes fs bss'"
    by (auto simp: encodes_Cons)
  have "readFrameAt (pre @ bs @ concat bss' @ post) (length pre) = Some (decoded f, length bs)"
    using encoded_frame_reads [OF b(2)] .
  moreover have "bs \<noteq> []" using encoded_length [OF b(2)] by auto
  ultimately have "parse_loop mode (pre @ bs @ concat bss' @ post) (length pre) =
      (let r = parse_loop mode (pre @ bs @ concat bss' @ post) (length pre + length bs) in r\<lparr>pr_frames := decoded f # pr_frames r\<rparr>)"
    by (subst parse_loop.simps) simp
  then show ?case using Cons.IH [OF b(3), of "pre @ bs"] by (simp add: b(1) Let_def add.assoc)
qed (simp add: Let_def)

text \<open>No record starts inside the torn bytes, so that a resynchronisation finds nothing.\<close>

definition no_frame_from :: "buffer \<Rightarrow> nat \<Rightarrow> bool" where
  "no_frame_from buf off \<longleftrightarrow> (\<forall>j \<ge> off. readFrameAt buf j = None)"

lemma resync_nothing: "no_frame_from buf off \<Longrightarrow> off \<le> scan \<Longrightarrow> resync_buffer buf scan = None"
proof (induction buf scan rule: resync_buffer.induct)
  case (1 buf scan)
  show ?case
  proof (cases "length buf \<le> scan + 1")
    case True
    then show ?thesis by (subst resync_buffer.simps) simp
  next
    case False
    show ?thesis
    proof (cases "index_of MAGIC buf scan")
      case None
      then show ?thesis by (subst resync_buffer.simps) simp
    next
      case (Some s)
      then have "scan \<le> s" by (auto dest: index_of_less)
      then have "readFrameAt buf s = None" "off \<le> s + 1" using 1(2,3) by (auto simp: no_frame_from_def)
      with 1(1) [OF False Some] 1(2) False Some show ?thesis by (subst resync_buffer.simps) simp
    qed
  qed
qed

lemma parse_torn:
  assumes "torn tail" "tail \<noteq> []" "mode = Strict \<or> no_frame_from (pre @ tail) (length pre)"
  shows "parse_loop mode (pre @ tail) (length pre) =
    \<lparr>pr_frames = [], pr_corrupt = [(length pre, length (pre @ tail))], pr_eof = length pre\<rparr>"
proof -
  have none: "readFrameAt (pre @ tail) (length pre) = None"
    using torn_readFrameAt [OF assms(1)] readFrameAt_drop [of "length pre" "pre @ tail"] by simp
  have "mode = Strict \<or> resync_buffer (pre @ tail) (length pre + 1) = None" using assms(3) resync_nothing by auto
  with none show ?thesis using assms(2) by (subst parse_loop.simps) auto
qed

lemma parse_end: "parse_loop mode buf (length buf) = \<lparr>pr_frames = [], pr_corrupt = [], pr_eof = length buf\<rparr>"
  by (subst parse_loop.simps) simp

lemma parse_log:
  assumes "encodes fs bss" "torn tail" "mode = Strict \<or> no_frame_from (concat bss @ tail) (length (concat bss))"
  shows "parseBuffer (concat bss @ tail) mode =
    \<lparr>pr_frames = map decoded fs,
     pr_corrupt = (if tail = [] then [] else [(length (concat bss), length (concat bss @ tail))]),
     pr_eof = length (concat bss)\<rparr>"
  using parse_encoded [OF assms(1), of mode "[]" tail] parse_torn [OF assms(2) _ assms(3)] parse_end [of mode "concat bss"]
  by (auto simp: parseBuffer_def Let_def)

text \<open>
  A log cut short at any byte loses only its last record: parsed up to the first damage, it gives the records that
  are complete, in order and unchanged, reports the rest as one corrupt range and ends where the torn
  record begins.
\<close>
lemma crash_keeps_prefix:
  assumes "list_all2 (\<lambda>f bs. encodeFrame f = Inr bs) fs bss" and "n \<le> length (concat bss)"
  shows "\<exists>k \<le> length fs. let e = length (concat (take k bss)) in
    e \<le> n \<and> (k < length fs \<longrightarrow> n < e + length (bss ! k)) \<and>
    parseBuffer (take n (concat bss)) Strict =
      \<lparr>pr_frames = map decoded (take k fs), pr_corrupt = (if n = e then [] else [(e, n)]), pr_eof = e\<rparr>"
proof -
  have enc: "encodes fs bss" using assms(1) by (simp add: encodes_def)
  obtain k tail where k: "k \<le> length fs" "take n (concat bss) = concat (take k bss) @ tail" "torn tail"
    "k < length fs \<Longrightarrow> strict_prefix tail (bss ! k)"
    by (rule log_prefix [OF enc take_is_prefix [of n]]) blast
  have "n = length (concat (take k bss)) + length tail" using arg_cong [OF k(2), of length] assms(2) by simp
  moreover have "k < length fs \<Longrightarrow> length tail < length (bss ! k)" using k(4) prefix_length_less by blast
  ultimately show ?thesis
    unfolding k(2) Let_def using k(1) parse_log [OF encodes_take [OF enc] k(3), of Strict k] by (intro exI [of _ k]) auto
qed

lemma crash_keeps_prefix_witness:
  "parseBuffer (take 30 (sample_bytes @ sample_bytes)) Strict =
    \<lparr>pr_frames = [decoded sample_input], pr_corrupt = [(28, 30)], pr_eof = 28\<rparr>"
proof -
  have "list_all2 (\<lambda>f bs. encodeFrame f = Inr bs) [sample_input, sample_input] [sample_bytes, sample_bytes]"
    by (simp add: sample_input_encoded)
  moreover have "30 \<le> length (concat [sample_bytes, sample_bytes])" by simp
  ultimately obtain k where k: "k \<le> length [sample_input, sample_input]" "let e = length (concat (take k [sample_bytes, sample_bytes])) in e \<le> 30 \<and>
      (k < length [sample_input, sample_input] \<longrightarrow> 30 < e + length ([sample_bytes, sample_bytes] ! k)) \<and>
      parseBuffer (take 30 (concat [sample_bytes, sample_bytes])) Strict =
        \<lparr>pr_frames = map decoded (take k [sample_input, sample_input]), pr_corrupt = (if 30 = e then [] else [(e, 30)]), pr_eof = e\<rparr>"
    using crash_keeps_prefix by blast
  from k(1) have "k = 0 \<or> k = 1 \<or> k = 2" by auto
  then show ?thesis using k(2) by (auto simp: Let_def)
qed

section \<open>The streaming parser on a log\<close>

lemma feed_loop_encoded:
  assumes "encodes fs bss"
  shows "feed_loop (pre @ concat bss @ post) (length pre) off =
    (case feed_loop (pre @ concat bss @ post) (length (pre @ concat bss)) (off + length (concat bss)) of
       (gs, e, p, o') \<Rightarrow> (map decoded fs @ gs, e, p, o'))"
  using assms
proof (induction fs arbitrary: bss pre off)
  case (Cons f fs)
  from Cons.prems obtain bs bss' where b: "bss = bs # bss'" "encodeFrame f = Inr bs" "encodes fs bss'"
    by (auto simp: encodes_Cons)
  let ?buf = "pre @ bs @ concat bss' @ post"
  have r: "readFrameAt ?buf (length pre) = Some (decoded f, length bs)"
    using encoded_frame_reads [OF b(2)] .
  then have "slice ?buf (length pre) 2 = MAGIC" "frameLen_at ?buf (length pre) = length bs"
    "crc_matches ?buf (length pre) (length bs)" "frame_at ?buf (length pre) = decoded f"
    "\<not> length ?buf < length pre + HEADER_SIZE" "\<not> length ?buf < length pre + length bs"
    by (auto simp: readFrameAt_def Let_def split: if_splits)
  then have "feed_loop ?buf (length pre) off = (case feed_loop ?buf (length (pre @ bs)) (off + length bs) of
      (gs, e, p, o') \<Rightarrow> (decoded f # gs, e, p, o'))"
    by (subst feed_loop.simps) (simp add: Let_def)
  then show ?case using Cons.IH [OF b(3), of "pre @ bs" "off + length bs"]
    by (simp add: b(1) add.assoc split: prod.splits)
qed simp

lemma feed_loop_torn:
  assumes "torn tail"
  shows "feed_loop (pre @ tail) (length pre) off = ([], None, length pre, off)"
proof (cases "length tail < HEADER_SIZE")
  case True
  then show ?thesis by (subst feed_loop.simps) simp
next
  case False
  from assms obtain f bs c where f: "encodeFrame f = Inr bs" and bs: "bs = tail @ c" and lt: "length tail < length bs"
    by (auto simp: torn_def strict_prefix_def prefix_def)
  have r: "readFrameAt (pre @ tail @ c) (length pre) = Some (decoded f, length bs)"
    using encoded_frame_reads [OF f, of pre "[]"] bs by simp
  have sl: "slice (pre @ tail @ c) (length pre + i) n = slice (pre @ tail) (length pre + i) n" if "i + n \<le> 22" for i n
    using that False by (simp add: slice_def HEADER_SIZE_def)
  have "slice (pre @ tail) (length pre) 2 = MAGIC" "frameLen_at (pre @ tail) (length pre) = length bs"
    using r sl [of 0 2] sl
    by (auto simp: readFrameAt_def Let_def frameLen_at_def keyLen_at_def valLen_at_def metaLen_at_def read_uint_def split: if_splits)
  then show ?thesis using False lt by (subst feed_loop.simps) simp
qed

lemma feed_log:
  assumes "encodes fs bss" "torn tail" "ps_pending p @ chunk = concat bss @ tail"
  shows "feed p chunk = (map decoded fs, None, \<lparr>ps_pending = tail, ps_offset = ps_offset p + length (concat bss)\<rparr>)"
  using feed_loop_encoded [OF assms(1), of "[]" tail "ps_offset p"]
    feed_loop_torn [OF assms(2), of "concat bss" "ps_offset p + length (concat bss)"] assms(3)
  by (simp add: feed_def Let_def)

text \<open>Feeding chunk after chunk, up to the first error.\<close>

fun feed_chunks :: "parser \<Rightarrow> buffer list \<Rightarrow> frame list \<times> corrupt_error option \<times> parser" where
  "feed_chunks p [] = ([], None, p)"
| "feed_chunks p (c # cs) =
     (case feed p c of
        (fs, Some e, p') \<Rightarrow> (fs, Some e, p')
      | (fs, None, p') \<Rightarrow> (case feed_chunks p' cs of (gs, e, p'') \<Rightarrow> (fs @ gs, e, p'')))"

lemma feed_chunks_log:
  assumes "encodes fs bss" "prefix (ps_pending p @ concat cs) (concat bss)" "torn (ps_pending p)"
  shows "\<exists>k tail. k \<le> length fs \<and> ps_pending p @ concat cs = concat (take k bss) @ tail \<and> torn tail \<and>
    (k < length fs \<longrightarrow> strict_prefix tail (bss ! k)) \<and>
    feed_chunks p cs = (map decoded (take k fs), None, \<lparr>ps_pending = tail, ps_offset = ps_offset p + length (concat (take k bss))\<rparr>)"
  using assms
proof (induction cs arbitrary: fs bss p)
  case Nil
  obtain k tail where k: "k \<le> length fs" "ps_pending p @ concat [] = concat (take k bss) @ tail" "torn tail"
    "k < length fs \<Longrightarrow> strict_prefix tail (bss ! k)" by (rule log_prefix [OF Nil.prems(1,2)]) blast
  have "feed_loop (concat (take k bss) @ tail) 0 0 = (map decoded (take k fs), None, length (concat (take k bss)), length (concat (take k bss)))"
    using feed_loop_encoded [OF encodes_take [OF Nil.prems(1), of k], of "[]" tail 0] feed_loop_torn [OF k(3), of "concat (take k bss)"] by simp
  moreover have "feed_loop (ps_pending p) 0 0 = ([], None, 0, 0)" using feed_loop_torn [OF Nil.prems(3), of "[]"] by simp
  ultimately have "take k fs = []" "concat (take k bss) = []" using k(2) by auto
  then show ?case using k by (intro exI [of _ k] exI [of _ tail]) auto
next
  case (Cons c cs)
  have "prefix (ps_pending p @ c) (concat bss)" using Cons.prems(2) by (auto simp: prefix_def)
  then obtain k tail where k: "k \<le> length fs" "ps_pending p @ c = concat (take k bss) @ tail" "torn tail"
    "k < length fs \<Longrightarrow> strict_prefix tail (bss ! k)" by (rule log_prefix [OF Cons.prems(1)]) blast
  let ?p = "\<lparr>ps_pending = tail, ps_offset = ps_offset p + length (concat (take k bss))\<rparr>"
  have f: "feed p c = (map decoded (take k fs), None, ?p)"
    by (rule feed_log [OF encodes_take [OF Cons.prems(1)] k(3,2)])
  have "concat bss = concat (take k bss) @ concat (drop k bss)" by (metis append_take_drop_id concat_append)
  with Cons.prems(2) k(2) have "prefix (ps_pending ?p @ concat cs) (concat (drop k bss))"
    by (metis append.assoc concat.simps(2) parser.select_convs(1) same_prefix_prefix)
  from Cons.IH [OF encodes_drop [OF Cons.prems(1)] this] k(3)
  obtain m tail' where m: "m \<le> length (drop k fs)" "tail @ concat cs = concat (take m (drop k bss)) @ tail'" "torn tail'"
    "m < length (drop k fs) \<longrightarrow> strict_prefix tail' (drop k bss ! m)"
    "feed_chunks ?p cs = (map decoded (take m (drop k fs)), None,
       \<lparr>ps_pending = tail', ps_offset = ps_offset ?p + length (concat (take m (drop k bss)))\<rparr>)" by auto
  have len: "length bss = length fs" by (rule encodes_length [OF Cons.prems(1)])
  have t: "take (k + m) bss = take k bss @ take m (drop k bss)" "take (k + m) fs = take k fs @ take m (drop k fs)"
    by (simp_all add: take_add)
  show ?case
  proof (intro exI [of _ "k + m"] exI [of _ tail'] conjI impI)
    show "ps_pending p @ concat (c # cs) = concat (take (k + m) bss) @ tail'"
      using k(2) m(2) by (metis append.assoc concat.simps(2) concat_append t(1))
  qed (use k m f t len in \<open>auto simp: nth_drop\<close>)
qed

text \<open>
  C40. The streaming parser does not depend on how a log is cut into chunks. Fed any chunks that together are a prefix of
  a log, it yields the records that are complete, in order, and throws nothing; the end of the stream then reports the
  number of bytes read if the last record is complete, and otherwise a torn tail at the offset where it begins.
\<close>
theorem stream_is_chunk_independent:
  assumes "list_all2 (\<lambda>f bs. encodeFrame f = Inr bs) fs bss" and "prefix (concat chunks) (concat bss)"
  shows "\<exists>k \<le> length fs. let e = length (concat (take k bss)); n = length (concat chunks) in
    e \<le> n \<and> (k < length fs \<longrightarrow> n < e + length (bss ! k)) \<and>
    (case feed_chunks new_parser chunks of (gs, err, p) \<Rightarrow> gs = map decoded (take k fs) \<and> err = None \<and>
       (case fst (finish p) of Inr off \<Rightarrow> n = e \<and> off = e | Inl c \<Rightarrow> n \<noteq> e \<and> ce_offset c = e))"
proof -
  have enc: "encodes fs bss" using assms(1) by (simp add: encodes_def)
  obtain k tail where k: "k \<le> length fs" "concat chunks = concat (take k bss) @ tail" "torn tail"
    "k < length fs \<longrightarrow> strict_prefix tail (bss ! k)"
    "feed_chunks new_parser chunks = (map decoded (take k fs), None, \<lparr>ps_pending = tail, ps_offset = length (concat (take k bss))\<rparr>)"
    using feed_chunks_log [OF enc, of new_parser chunks] assms(2) torn_Nil by (auto simp: new_parser_def)
  have "k < length fs \<longrightarrow> length tail < length (bss ! k)" using k(4) prefix_length_less by blast
  then show ?thesis
    using k by (intro exI [of _ k]) (auto simp: finish_def Let_def)
qed

lemma stream_is_chunk_independent_witness:
  "\<exists>k \<le> 1. fst (feed_chunks new_parser [take 5 sample_bytes, drop 5 sample_bytes]) = map decoded (take k [sample_input])"
proof -
  have "list_all2 (\<lambda>f bs. encodeFrame f = Inr bs) [sample_input] [sample_bytes]" by (simp add: sample_input_encoded)
  from stream_is_chunk_independent [OF this, of "[take 5 sample_bytes, drop 5 sample_bytes]"]
  show ?thesis by (force simp: Let_def split: prod.splits)
qed

text \<open>
  An offset of the streaming parser counts the records of the same chunk twice. When a record is followed, in one
  chunk, by one whose checksum is wrong, the error names twice the length of the first record, although the
  bad record begins where the first one ends.
\<close>
theorem feed_offset_counts_twice:
  assumes "encodeFrame f = Inr bs" and "22 \<le> length bad" and "slice bad 0 2 = MAGIC"
    and "frameLen_at bad 0 \<le> length bad" and "\<not> crc_matches bad 0 (frameLen_at bad 0)"
  shows "case feed new_parser (bs @ bad) of (gs, err, p) \<Rightarrow>
    gs = [decoded f] \<and> map_option ce_offset err = Some (2 * length bs) \<and> readFrameAt (bs @ bad) (length bs) = None"
proof -
  have at: "slice (bs @ bad) (length bs) 2 = MAGIC" "frameLen_at (bs @ bad) (length bs) = frameLen_at bad 0"
    "\<not> crc_matches (bs @ bad) (length bs) (frameLen_at bad 0)"
    using assms(3,5) slice_drop [of "length bs" "bs @ bad" 0 2] at_drop(4) [of "length bs" "bs @ bad"]
      crc_matches_drop [OF frameLen_at_ge, of "length bs" "bs @ bad" bad 0] by simp_all
  have enc: "encodes [f] [bs]" using assms(1) by (simp add: encodes_def)
  have "feed_loop (bs @ bad) (length bs) (length bs) = ([], Some \<lparr>ce_message = ''crc mismatch at offset '' @ show_nat (length bs + length bs),
      ce_offset = length bs + length bs\<rparr>, length bs, length bs)"
    using at assms(2,4) by (subst feed_loop.simps) (simp add: HEADER_SIZE_def)
  moreover have "readFrameAt (bs @ bad) (length bs) = None"
    using at by (simp add: readFrameAt_def Let_def)
  ultimately show ?thesis
    using feed_loop_encoded [OF enc, of "[]" bad 0] by (simp add: feed_def new_parser_def Let_def)
qed

section \<open>Damage\<close>

lemma frame_checked: "checked (frame_body t fl k v m e @ le_bytes 4 (crc32 (frame_body t fl k v m e) 0))"
  using crc32_less [of "frame_body t fl k v m e" 0] by (simp add: checked_def del: le_bytes.simps)

lemma crc_matches_checked:
  assumes "26 \<le> n" "pos + n \<le> length b"
  shows "crc_matches b pos n \<longleftrightarrow> checked (slice b (pos + 2) (n - 2))"
proof -
  have n: "n - 2 = (n - 6) + 4" using assms by simp
  have split: "slice b (pos + 2) (n - 2) = slice b (pos + 2) (n - 6) @ slice b (pos + n - 4) 4"
    unfolding n slice_plus using assms by simp
  have "length (slice b (pos + 2) (n - 6)) = n - 6" "length (slice b (pos + n - 4) 4) = 4"
    using assms by (simp_all add: length_slice)
  then show ?thesis by (auto simp: crc_matches_def checked_def split CRC_SIZE_def read_uint_def)
qed

lemma same_but_drop2: "same_but i a b \<Longrightarrow> same_but (i - 2) (drop 2 a) (drop 2 b)"
  by (auto simp: same_but_def)

text \<open>
  C38. Damage does not go unnoticed. If bytes of a record are changed within four consecutive positions, and not its
  lengths, then the reader finds no record there.
\<close>
theorem damage_noticed:
  assumes "encodeFrame f = Inr bs" and "same_but i bs bad" and "bad \<noteq> bs" and "slice bad 4 10 = slice bs 4 10"
  shows "readFrameAt (pre @ bad @ post) (length pre) = None"
proof (rule ccontr)
  assume "readFrameAt (pre @ bad @ post) (length pre) \<noteq> None"
  then have "readFrameAt (bad @ post) 0 \<noteq> None" by (simp add: readFrameAt_drop [of "length pre"])
  then have magic: "slice (bad @ post) 0 2 = MAGIC" and crc: "crc_matches (bad @ post) 0 (frameLen_at (bad @ post) 0)"
    by (auto simp: readFrameAt_def Let_def split: if_splits)
  note e = encodeFrame_Inr(1,2) [OF assms(1)]
  have len: "length bad = length bs" "26 \<le> length bs" using assms(2) encoded_length [OF assms(1)] by (auto simp: same_but_def)
  have sl: "slice (b @ post) (4 + i) n = slice (slice b 4 10) i n" if "length b = length bs" "i + n \<le> 10" for b i n
    using that len(2) slice_slice [of i n 10 b 4] by (simp add: slice_def)
  have fl: "frameLen_at (b @ post) 0 = HEADER_SIZE + le_value (slice (slice b 4 10) 0 2) + le_value (slice (slice b 4 10) 2 4) +
      le_value (slice (slice b 4 10) 6 4) + CRC_SIZE" if "length b = length bs" for b
    using sl [OF that, of 0 2] sl [OF that, of 2 4] sl [OF that, of 6 4]
    by (simp add: frameLen_at_def keyLen_at_def valLen_at_def metaLen_at_def read_uint_def)
  have r: "readFrameAt (bs @ post) 0 = Some (decoded f, length bs)" using encoded_frame_reads [OF assms(1), of "[]" post] by simp
  then have "frameLen_at (bs @ post) 0 = length bs" by (auto dest: readFrameAt_pos)
  then have n: "frameLen_at (bad @ post) 0 = length bs" using fl [OF refl] fl [OF len(1)] assms(4) by simp
  have body: "slice (b @ post) 2 (length bs - 2) = drop 2 b" if "length b = length bs" for b
    using that len(2) by (simp add: slice_def)
  have "checked (drop 2 bad)"
    using crc crc_matches_checked [of "length bs" 0 "bad @ post"] body [OF len(1)] len n by simp
  moreover have "checked (drop 2 bs)"
    using r crc_matches_checked [of "length bs" 0 "bs @ post"] body [of bs] len(2)
    by (auto simp: readFrameAt_def Let_def split: if_splits)
  ultimately have "drop 2 bs = drop 2 bad" using burst_detected same_but_drop2 [OF assms(2)] by blast
  moreover have "take 2 bs = take 2 bad"
    using magic r len by (auto simp: readFrameAt_def Let_def slice_def split: if_splits)
  ultimately have "bs = bad" by (metis append_take_drop_id)
  with assms(3) show False by simp
qed

lemma same_but_update: "same_but i a (a[i := x])"
  by (auto simp: same_but_def nth_list_update)

lemma damage_noticed_witness:
  "readFrameAt ([] @ sample_bytes[22 := 119] @ []) (length ([] :: buffer)) = None"
proof (rule damage_noticed [OF sample_input_encoded same_but_update])
  have "frame_fits TYPE_SET 0 [107] [118] [] 0" by (simp add: frame_fits_def TYPE_SET_def)
  from frame_bytes_fields(8) [OF this, of "[]"] have "slice sample_bytes 22 1 ! 0 = 107" by (simp add: sample_bytes_def)
  then have "sample_bytes ! 22 = 107" by (simp add: slice_def)
  then have old: "sample_bytes ! 22 \<noteq> 119" by simp
  have new: "sample_bytes[22 := 119] ! 22 = 119" by simp
  show "sample_bytes[22 := 119] \<noteq> sample_bytes"
  proof
    assume eq: "sample_bytes[22 := 119] = sample_bytes"
    from new have "sample_bytes ! 22 = 119" by (simp only: eq)
    with old show False by simp
  qed
  show "slice (sample_bytes[22 := 119]) 4 10 = slice sample_bytes 4 10"
    by (simp add: slice_def drop_update_swap take_update_cancel)
qed

end
