(* ===== verification/CodecScan_Gap.thy ===== *)
theory CodecScan_Gap imports FrameLog begin

text \<open>
  Where the windowed scan departs from the scan with positioned reads: a marker cut by the edge of the window is not
  seen while it resynchronises.
\<close>

lemma crc_bit_numeral:
  "crc_bit 0 = 0" "crc_bit 1 = POLY" "crc_bit (numeral (Num.Bit0 n)) = drop_bit 1 (numeral (Num.Bit0 n))"
  "crc_bit (numeral (Num.Bit1 n)) = POLY XOR drop_bit 1 (numeral (Num.Bit1 n))"
  by (simp_all add: crc_bit_def POLY_def)

lemmas crc_eval = crc32_def crc32_word_def crc_step_bits crc8_eval crc_bit_numeral POLY_def

text \<open>The bytes of the record with key \<open>k\<close> and value \<open>v\<close>.\<close>

definition sample :: buffer where
  "sample = [77, 68, 1, 0, 1, 0, 1, 0, 0, 0, 0, 0, 0, 0, 0, 0, 0, 0, 0, 0, 0, 0, 107, 118, 226, 62, 91, 10]"

lemma le_bytes_numeral:
  "le_bytes (numeral n) v = of_nat v # le_bytes (pred_numeral n) (v div 256)" "le_bytes 1 v = [of_nat v]"
  by (simp_all only: numeral_eq_Suc One_nat_def le_bytes.simps)

lemma sample_body:
  "frame_body TYPE_SET 0 [107] [118] [] 0 = [1, 0, 1, 0, 1, 0, 0, 0, 0, 0, 0, 0, 0, 0, 0, 0, 0, 0, 0, 0, 107, 118]"
  by (simp add: frame_body_def TYPE_SET_def le_bytes_numeral)

lemma sample_crc: "crc32 (frame_body TYPE_SET 0 [107] [118] [] 0) 0 = 0xa5b3ee2"
  unfolding sample_body by (simp add: crc_eval)

lemma sample_frame: "frame_bytes TYPE_SET 0 [107] [118] [] 0 = sample"
  unfolding frame_bytes_def unfolding sample_crc unfolding sample_body by (simp add: MAGIC_def sample_def le_bytes_numeral)

lemma sample_encoded: "encodeFrame sample_input = Inr sample"
  using sample_input_encoded by (simp add: sample_bytes_def sample_frame)

lemma sample_read: "readFrameAt (sample @ c) 0 = Some (frame_of TYPE_SET [107] [118] [] 0, 28)"
proof -
  have "frame_fits TYPE_SET 0 [107] [118] [] 0" by (simp add: frame_fits_def TYPE_SET_def)
  from readFrameAt_frame [OF this, of c] show ?thesis by (simp add: sample_frame) (simp add: sample_def)
qed

text \<open>The record behind a stretch of zeros that leaves only its first byte in the first window.\<close>

definition cut_file :: "nat \<Rightarrow> buffer" where
  "cut_file W = replicate (W - 1) 0 @ sample"

lemma slice_zeros: "k + n \<le> m \<Longrightarrow> slice (replicate m 0 @ c) k n = replicate n 0"
  by (simp add: slice_def min_def)

lemma magic_zeros: "k < m \<Longrightarrow> \<not> magic_at (replicate m 0 @ c) k"
proof
  assume "k < m" "magic_at (replicate m 0 @ c) k"
  then have "slice (replicate m 0 @ c) k 2 ! 0 = 77" by (simp add: MAGIC_def)
  moreover have "slice (replicate m 0 @ c) k 2 ! 0 = 0" using \<open>k < m\<close> by (simp add: slice_def nth_append)
  ultimately show False by simp
qed

lemma cut_file_start: "2 \<le> W \<Longrightarrow> readFrameAt (cut_file W) 0 = None"
  using magic_zeros [of 0 "W - 1" sample] by (simp add: readFrameAt_def cut_file_def)

lemma cut_file_length: "2 \<le> W \<Longrightarrow> length (cut_file W) = W + 27"
  by (simp add: cut_file_def sample_def)

lemma cut_file_positioned:
  assumes "2 \<le> W" "0 < budget"
  shows "scanFrameRefsFd (cut_file W) Resync 0 budget =
    Inr \<lparr>sr_frames = [ref_of (W - 1) (frame_of TYPE_SET [107] [118] [] 0) 28], sr_corrupt = [(0, W - 1)], sr_eof = W + 27\<rparr>"
proof -
  let ?fd = "cut_file W"
  note len = cut_file_length [OF assms(1)]
  note whole = readFrameRefAt_whole [of ?fd, unfolded len]
  have drop: "drop (W - 1) ?fd = sample" by (simp add: cut_file_def)
  have at: "readFrameAt ?fd (W - 1) = Some (frame_of TYPE_SET [107] [118] [] 0, 28)"
    using readFrameAt_drop [of "W - 1" ?fd] sample_read [of "[]"] len drop by simp
  have zero: "\<not> magic_at ?fd k" if "k < W - 1" for k using that unfolding cut_file_def by (rule magic_zeros)
  have magic: "magic_at ?fd (W - 1)" by (simp add: cut_file_def slice_def sample_def MAGIC_def)
  note none = cut_file_start [OF assms(1)]
  have find: "findMagic ?fd 1 (length ?fd) = Some (W - 1)"
    using zero magic assms by (auto simp: findMagic_eq index_of_magic)
  have "resync_file ?fd (length ?fd) budget 1 0 = Inr (Some (W - 1), 1)"
    using find at len assms by (subst resync_file.simps) (simp add: len whole)
  then have "scan_loop ?fd Resync (length ?fd) budget 0 0 =
      ebind (scan_loop ?fd Resync (length ?fd) budget (W - 1) 1) (\<lambda>t. Inr (t\<lparr>sr_corrupt := (0, W - 1) # sr_corrupt t\<rparr>))"
    using none len by (subst scan_loop.simps) (simp add: len whole)
  moreover have "scan_loop ?fd Resync (length ?fd) budget (W - 1) 1 =
      ebind (scan_loop ?fd Resync (length ?fd) budget (W + 27) 1) (\<lambda>t. Inr (t\<lparr>sr_frames :=
        ref_of (W - 1) (frame_of TYPE_SET [107] [118] [] 0) 28 # sr_frames t\<rparr>))"
  proof -
    have "rf_frameLen (ref_of (W - 1) (frame_of TYPE_SET [107] [118] [] 0) 28) = 28" "W - 1 + 28 = W + 27"
      using assms by (simp_all add: ref_of_def)
    then show ?thesis using at len assms by (subst scan_loop.simps) (auto simp: len whole add.commute [of 27])
  qed
  moreover have "scan_loop ?fd Resync (length ?fd) budget (W + 27) 1 = Inr \<lparr>sr_frames = [], sr_corrupt = [], sr_eof = W + 27\<rparr>"
    by (subst scan_loop.simps) (simp add: len)
  ultimately show ?thesis by (simp add: scanFrameRefsFd_def)
qed

lemma cut_file_window:
  assumes W: "30 \<le> W" and junk: "length junk = W"
  shows "scanFrameRefsFdAsync (\<lambda>_. False) junk (cut_file W) Resync 0 None budget =
    Inr \<lparr>sr_frames = [], sr_corrupt = [(0, W + 27)], sr_eof = 0\<rparr>"
proof -
  let ?fd = "cut_file W" and ?no = "\<lambda>_ :: nat. False"
  define sz where "sz = length ?fd"
  have sz: "sz = W + 27" using W by (simp add: sz_def cut_file_length)
  define s0 where "s0 = new_window junk 0\<lparr>ss_asked := Suc 0\<rparr>"
  have s0: "win_ok W ?fd sz s0" "ss_winStart s0 = 0" "ss_winLen s0 = 0"
    using junk by (simp_all add: s0_def new_window_def win_ok_def)
  have rd: "readFrameRefAt ?fd 0 sz = Inr None"
    using W cut_file_start [of W] by (simp only: sz_def readFrameRefAt_whole) simp
  obtain s1 where s1: "frameAt ?fd sz 0 s0 = (Inr None, s1)" "win_ok W ?fd sz s1" "ss_winStart s1 = 0" "ss_winLen s1 = W"
    by (rule frameAt_ok [OF s0(1), of 0]) (use W s0 rd sz in \<open>auto simp: sz_def\<close>)
  have win: "ss_win s1 = replicate (W - 1) 0 @ [77]"
  proof -
    have "ss_win s1 = take W (ss_win s1)" using s1(2) by (simp add: win_ok_def)
    also have "\<dots> = slice ?fd 0 W" using s1(2-4) by (simp add: win_ok_def)
    also have "\<dots> = replicate (W - 1) 0 @ [77]" using W by (simp add: slice_def cut_file_def sample_def)
    finally show ?thesis .
  qed
  have none: "index_of MAGIC (ss_win s1) k = None" for k
    using magic_zeros [of _ "W - 1" "[77]"] magic_at_length [of "ss_win s1"] W
    by (force simp: win index_of_magic_None simp del: length_greater_0_conv)
  define stays where "stays scan \<longleftrightarrow> (\<forall>y k. \<exists>s'. resync_window ?no ?fd sz budget scan 0 (s1\<lparr>ss_sinceYield := y, ss_asked := k\<rparr>) = Inr (None, 0, s'))"
    for scan
  have step: "stays scan" if "scan < W" "stays (max (W - 1) (scan + 1))" for scan
    unfolding stays_def
  proof (intro allI)
    fix y k
    let ?s = "s1\<lparr>ss_sinceYield := y, ss_asked := k\<rparr>"
    have c: "covering ?fd sz scan ?s = ?s" using that(1) s1 by (simp add: covering_def)
    obtain y' k' where t: "tick ?no ASYNC_SCAN_WINDOW ?s = Inr (s1\<lparr>ss_sinceYield := y', ss_asked := k'\<rparr>)"
      using tick_cases [of ?no ASYNC_SCAN_WINDOW ?s] by auto
    show "\<exists>s'. resync_window ?no ?fd sz budget scan 0 ?s = Inr (None, 0, s')"
      using that s1 sz none t c by (subst resync_window.simps) (simp add: Let_def stays_def)
  qed
  have last: "stays W"
    unfolding stays_def
  proof (intro allI)
    fix y k
    let ?s = "s1\<lparr>ss_sinceYield := y, ss_asked := k\<rparr>"
    have c: "covering ?fd sz W ?s = fillWindow ?fd sz W ?s" using s1 by (simp add: covering_def)
    from fillWindow_ok [of W ?fd sz ?s W] s1 sz W have e: "at_end W ?fd sz W (fillWindow ?fd sz W ?s)"
      by (auto simp: at_end_def sz_def)
    have "drop W ?fd = tl sample" using W by (simp add: cut_file_def sample_def)
    then have "index_of MAGIC (take sz ?fd) W = None" by (simp add: sz_def index_of_def sample_def MAGIC_def)
    with index_of_window [OF e eq_refl [OF sz_def]]
    consider "index_of MAGIC (ss_win (fillWindow ?fd sz W ?s)) (W - W) = None"
      | i where "index_of MAGIC (ss_win (fillWindow ?fd sz W ?s)) (W - W) = Some i" "sz \<le> W + i + 1" by auto
    moreover have "ss_winLen (fillWindow ?fd sz W ?s) + W = sz" using e by (simp add: at_end_def)
    moreover have "\<not> sz \<le> W + 1" using sz by simp
    ultimately show "\<exists>s'. resync_window ?no ?fd sz budget W 0 ?s = Inr (None, 0, s')"
      by cases (subst resync_window.simps; simp add: Let_def c)+
  qed
  have "stays (W - 1)" using step [of "W - 1"] last W by (simp add: max_def)
  moreover have "max (W - 1) (1 + 1) = W - 1" using W by simp
  ultimately have "stays 1" using step [of 1] W by simp
  then obtain s' where "resync_window ?no ?fd sz budget 1 0 s1 = Inr (None, 0, s')"
    unfolding stays_def by (metis scan_state.surjective scan_state.update_convs(4,5))
  then have "window_loop ?no ?fd Resync sz budget 0 0 s0 = Inr \<lparr>sr_frames = [], sr_corrupt = [(0, W + 27)], sr_eof = 0\<rparr>"
    using s1 sz by (subst window_loop.simps) (simp add: throwIfAborted_def)
  then show ?thesis
    by (simp add: scanFrameRefsFdAsync_def throwIfAborted_def s0_def sz_def new_window_def)
qed

text \<open>
  The windowed scan loses a record that the scan with positioned reads finds. The file is a stretch of zeros one
  byte short of the window, and a valid record. Resynchronising, the positioned scan reports the zeros as
  corrupt and returns the record; the windowed scan looks for the marker in the first window, which holds only the first
  byte of it, steps to the last byte of that window without refilling it and then past it, and reports the whole
  file as corrupt.
\<close>
theorem async_scan_loses_cut_marker:
  assumes "length junk = ASYNC_SCAN_WINDOW"
  defines "fd \<equiv> replicate (ASYNC_SCAN_WINDOW - 1) 0 @ sample"
  shows "scanFrameRefsFd fd Resync 0 DEFAULT_RESYNC_CANDIDATE_BUDGET =
      Inr \<lparr>sr_frames = [ref_of (ASYNC_SCAN_WINDOW - 1) (decoded sample_input) 28],
           sr_corrupt = [(0, ASYNC_SCAN_WINDOW - 1)], sr_eof = length fd\<rparr> \<and>
    scanFrameRefsFdAsync (\<lambda>_. False) junk fd Resync 0 None DEFAULT_RESYNC_CANDIDATE_BUDGET =
      Inr \<lparr>sr_frames = [], sr_corrupt = [(0, length fd)], sr_eof = 0\<rparr>"
proof -
  have fd: "fd = cut_file ASYNC_SCAN_WINDOW" by (simp add: fd_def cut_file_def)
  have W: "2 \<le> ASYNC_SCAN_WINDOW" "30 \<le> ASYNC_SCAN_WINDOW" by (simp_all add: ASYNC_SCAN_WINDOW_def)
  have dec: "decoded sample_input = frame_of TYPE_SET [107] [118] [] 0"
    by (simp add: decoded_def sample_input_def frame_of_def or_empty_def nat_i64_def js_number_def round_double_def)
  show ?thesis
    unfolding fd cut_file_length [OF W(1)] dec
    using cut_file_positioned [OF W(1), of DEFAULT_RESYNC_CANDIDATE_BUDGET] cut_file_window [OF W(2) assms(1)]
    by (simp add: DEFAULT_RESYNC_CANDIDATE_BUDGET_def)
qed

lemma async_scan_loses_cut_marker_witness:
  "scanFrameRefsFdAsync (\<lambda>_. False) (replicate ASYNC_SCAN_WINDOW 0) (replicate (ASYNC_SCAN_WINDOW - 1) 0 @ sample) Resync 0 None
     DEFAULT_RESYNC_CANDIDATE_BUDGET \<noteq>
   scanFrameRefsFd (replicate (ASYNC_SCAN_WINDOW - 1) 0 @ sample) Resync 0 DEFAULT_RESYNC_CANDIDATE_BUDGET"
  using async_scan_loses_cut_marker [of "replicate ASYNC_SCAN_WINDOW 0"] by simp

section \<open>A record inside a value\<close>

definition carrier_input :: frame_input where
  "carrier_input = \<lparr>fi_type = TYPE_SET, fi_key = [97], fi_value = Some sample, fi_meta = None, fi_expireAt = None\<rparr>"

definition carrier_head :: buffer where
  "carrier_head = [77, 68, 1, 0, 1, 0, 28, 0, 0, 0, 0, 0, 0, 0, 0, 0, 0, 0, 0, 0, 0, 0, 97]"

lemma carrier_encoded:
  obtains crc where "encodeFrame carrier_input = Inr (carrier_head @ sample @ crc)" "crc \<noteq> []"
proof -
  define c where "c = le_bytes 4 (crc32 (frame_body TYPE_SET 0 [97] sample [] 0) 0)"
  have len: "length sample = 28" by (simp add: sample_def)
  have head: "MAGIC @ le_bytes 1 TYPE_SET @ le_bytes 1 0 @ le_bytes 2 1 @ le_bytes 4 28 @ le_bytes 4 0 @ le_bytes 8 0 @ [97] = carrier_head"
    by (simp add: MAGIC_def TYPE_SET_def carrier_head_def le_bytes_numeral)
  have "frame_bytes TYPE_SET 0 [97] sample [] 0 = carrier_head @ sample @ c"
    unfolding frame_bytes_def head [symmetric] c_def frame_body_def by (simp add: len del: le_bytes.simps)
  moreover have "encodeFrame carrier_input = Inr (frame_bytes TYPE_SET 0 [97] sample [] 0)"
    by (simp add: encodeFrame_eq carrier_input_def or_empty_def MAX_KEY_LEN_def MAX_VAL_LEN_def i64_nat_def TYPE_SET_def len)
  moreover have "c \<noteq> []" by (auto simp: c_def dest: arg_cong [where f = length] simp del: le_bytes.simps)
  ultimately show ?thesis using that by simp
qed

text \<open>
  Resynchronisation can take part of a value for a record. A record is being written whose value happens to hold the
  bytes of an encoded record, and the write stops after the value. The parse up to the first damage finds
  nothing, as nothing was committed; the resynchronising parse, which is the default of recovery, returns the record that
  was only part of the value.
\<close>
lemma torn_value_read_as_record:
  "\<exists>bs. encodeFrame carrier_input = Inr bs \<and>
     pr_frames (parseBuffer (take 51 bs) Strict) = [] \<and>
     pr_frames (parseBuffer (take 51 bs) Resync) = [decoded sample_input]"
proof -
  obtain crc where bs: "encodeFrame carrier_input = Inr (carrier_head @ sample @ crc)" "crc \<noteq> []" by (rule carrier_encoded)
  have cut: "take 51 (carrier_head @ sample @ crc) = carrier_head @ sample" by (simp add: carrier_head_def sample_def)
  have "strict_prefix (carrier_head @ sample) (carrier_head @ sample @ crc)" using bs(2) by (simp add: strict_prefix_def)
  then have "torn (carrier_head @ sample)" using bs(1) unfolding torn_def by blast
  then have none: "readFrameAt (carrier_head @ sample) 0 = None" by (rule torn_readFrameAt)
  have some: "readFrameAt (carrier_head @ sample) 23 = Some (decoded sample_input, 28)"
  proof -
    have "length carrier_head = 23" "length sample = 28" by (simp_all add: carrier_head_def sample_def)
    then show ?thesis using encoded_frame_reads [OF sample_encoded, of carrier_head "[]"] by simp
  qed
  have "index_of MAGIC (carrier_head @ sample) 1 = Some 23"
    by (simp add: index_of_def carrier_head_def sample_def MAGIC_def)
  then have "resync_buffer (carrier_head @ sample) 1 = Some 23"
    using some by (subst resync_buffer.simps) (simp add: carrier_head_def sample_def)
  moreover have len: "length (carrier_head @ sample) = 51" by (simp add: carrier_head_def sample_def)
  moreover have "parse_loop Resync (carrier_head @ sample) 51 = \<lparr>pr_frames = [], pr_corrupt = [], pr_eof = 51\<rparr>"
    using parse_end [of Resync "carrier_head @ sample"] len by simp
  moreover from this have "pr_frames (parse_loop Resync (carrier_head @ sample) 23) = [decoded sample_input]"
    using some len by (subst parse_loop.simps) simp
  ultimately have "pr_frames (parseBuffer (carrier_head @ sample) Resync) = [decoded sample_input]"
    unfolding parseBuffer_def using none by (subst parse_loop.simps) (simp add: Let_def)
  moreover have "pr_frames (parseBuffer (carrier_head @ sample) Strict) = []"
    unfolding parseBuffer_def using none len by (subst parse_loop.simps) simp
  ultimately show ?thesis using bs(1) cut by auto
qed

end
