(* ===== verification/MinHeap.thy ===== *)
theory MinHeap imports Prelude "HOL-Library.Multiset" begin

text \<open>
  The binary heap of expiry times, class \<open>MinHeap\<close> of \<^verbatim>\<open>src/packages/minidb/src/store.ts\<close>: an array in which the
  children of index \<open>i\<close> are \<open>2 i + 1\<close> and \<open>2 i + 2\<close>. A priority queue is what the store relies on, stated as a
  locale over the multiset of the entries and interpreted on the array.
\<close>

section \<open>The code\<close>

record heap_entry =
  he_t :: int
  he_k :: string
  he_seq :: nat

type_synonym heap = "heap_entry list"

definition swap :: "nat \<Rightarrow> nat \<Rightarrow> 'a list \<Rightarrow> 'a list" where
  "swap i j a = a[i := a ! j, j := a ! i]"

function sift_up :: "heap \<Rightarrow> nat \<Rightarrow> heap" where
  "sift_up a i =
     (if 0 < i then
        let p = (i - 1) div 2 in
        if he_t (a ! p) \<le> he_t (a ! i) then a else sift_up (swap p i a) p
      else a)"
  by pat_completeness auto
termination
  by (relation "measure (\<lambda>(a, i). i)") auto

declare sift_up.simps [simp del]

definition heap_push :: "heap_entry \<Rightarrow> heap \<Rightarrow> heap" where
  "heap_push item a = sift_up (a @ [item]) (length a)"

definition smaller_child :: "heap \<Rightarrow> nat \<Rightarrow> nat" where
  "smaller_child a i =
     (let l = 2 * i + 1; r = l + 1;
          s1 = (if l < length a \<and> he_t (a ! l) < he_t (a ! i) then l else i)
      in if r < length a \<and> he_t (a ! r) < he_t (a ! s1) then r else s1)"

lemma smaller_child_gt: "smaller_child a i \<noteq> i \<Longrightarrow> i < smaller_child a i \<and> smaller_child a i < length a"
  by (auto simp: smaller_child_def Let_def split: if_splits)

lemma length_swap [simp]: "length (swap i j a) = length a"
  by (simp add: swap_def)

function sift_down :: "heap \<Rightarrow> nat \<Rightarrow> heap" where
  "sift_down a i = (let s = smaller_child a i in if s = i then a else sift_down (swap s i a) s)"
  by pat_completeness auto
termination
  by (relation "measure (\<lambda>(a, i). length a - i)") (auto dest!: smaller_child_gt)

declare sift_down.simps [simp del]

definition heap_peek :: "heap \<Rightarrow> heap_entry option" where
  "heap_peek a = (case a of [] \<Rightarrow> None | x # _ \<Rightarrow> Some x)"

definition heap_pop :: "heap \<Rightarrow> heap_entry option \<times> heap" where
  "heap_pop a =
     (if a = [] then (None, [])
      else let top = a ! 0; final = last a; b = butlast a in
        (Some top, if b = [] then [] else sift_down (b[0 := final]) 0))"

section \<open>What a user of the queue relies on\<close>

locale min_queue =
  fixes empty :: "'q"
    and push :: "heap_entry \<Rightarrow> 'q \<Rightarrow> 'q"
    and peek :: "'q \<Rightarrow> heap_entry option"
    and pop :: "'q \<Rightarrow> heap_entry option \<times> 'q"
    and content :: "'q \<Rightarrow> heap_entry multiset"
    and ok :: "'q \<Rightarrow> bool"
  assumes empty: "content empty = {#}" "ok empty"
    and push: "ok q \<Longrightarrow> content (push x q) = add_mset x (content q)" "ok q \<Longrightarrow> ok (push x q)"
    and peek: "ok q \<Longrightarrow> peek q = None \<longleftrightarrow> content q = {#}"
      "ok q \<Longrightarrow> peek q = Some x \<Longrightarrow> x \<in># content q \<and> (\<forall>y \<in># content q. he_t x \<le> he_t y)"
    and pop: "fst (pop q) = peek q" "ok q \<Longrightarrow> peek q = Some x \<Longrightarrow> content (snd (pop q)) = content q - {#x#}"
      "ok q \<Longrightarrow> ok (snd (pop q))"
begin

lemma due_all:
  assumes "ok q" "peek q = Some x" "now < he_t x"
  shows "\<forall>y \<in># content q. now < he_t y"
  using peek(2) [OF assms(1,2)] assms(3) by force

lemma push_all: "ok q \<Longrightarrow> set_mset (content (push x q)) = insert x (set_mset (content q))"
  by (simp add: push)

lemma pop_size: "ok q \<Longrightarrow> peek q = Some x \<Longrightarrow> size (content (snd (pop q))) < size (content q)"
  using pop(2) peek(2) by (metis size_Diff1_less)

end

section \<open>The array is a heap\<close>

abbreviation parent :: "nat \<Rightarrow> nat" where "parent i \<equiv> (i - 1) div 2"

definition heap_ok :: "heap \<Rightarrow> bool" where
  "heap_ok a \<longleftrightarrow> (\<forall>i. 0 < i \<longrightarrow> i < length a \<longrightarrow> he_t (a ! parent i) \<le> he_t (a ! i))"

lemma parent_less: "0 < i \<Longrightarrow> parent i < i"
  by auto

lemma parent_children: "0 < c \<Longrightarrow> parent c = i \<longleftrightarrow> c = 2 * i + 1 \<or> c = 2 * i + 2"
  by auto

lemma nth_swap: "i < length a \<Longrightarrow> j < length a \<Longrightarrow> k < length a \<Longrightarrow>
  swap i j a ! k = (if k = j then a ! i else if k = i then a ! j else a ! k)"
  by (simp add: swap_def nth_list_update)

lemma mset_swap_at: "i < length a \<Longrightarrow> j < length a \<Longrightarrow> mset (swap i j a) = mset a"
  unfolding swap_def by (rule mset_swap)

lemma heap_least:
  assumes "heap_ok a" "i < length a"
  shows "he_t (a ! 0) \<le> he_t (a ! i)"
  using assms(2)
proof (induction i rule: less_induct)
  case (less i)
  show ?case
  proof (cases "i = 0")
    case False
    then have "he_t (a ! 0) \<le> he_t (a ! parent i)" using less parent_less [of i] by simp
    also have "\<dots> \<le> he_t (a ! i)" using assms(1) less.prems False by (simp add: heap_ok_def)
    finally show ?thesis .
  qed simp
qed

text \<open>Ordered but for the edge above \<open>i\<close>, and ordered across \<open>i\<close>.\<close>

definition heap_but_up :: "nat \<Rightarrow> heap \<Rightarrow> bool" where
  "heap_but_up i a \<longleftrightarrow> (\<forall>j. 0 < j \<longrightarrow> j < length a \<longrightarrow> j \<noteq> i \<longrightarrow> he_t (a ! parent j) \<le> he_t (a ! j)) \<and>
     (\<forall>c. 0 < c \<longrightarrow> c < length a \<longrightarrow> 0 < i \<longrightarrow> parent c = i \<longrightarrow> he_t (a ! parent i) \<le> he_t (a ! c))"

definition heap_but_down :: "nat \<Rightarrow> heap \<Rightarrow> bool" where
  "heap_but_down i a \<longleftrightarrow> (\<forall>j. 0 < j \<longrightarrow> j < length a \<longrightarrow> parent j \<noteq> i \<longrightarrow> he_t (a ! parent j) \<le> he_t (a ! j)) \<and>
     (\<forall>c. 0 < c \<longrightarrow> c < length a \<longrightarrow> 0 < i \<longrightarrow> parent c = i \<longrightarrow> he_t (a ! parent i) \<le> he_t (a ! c))"

lemma sift_up_ok: "i < length a \<Longrightarrow> heap_but_up i a \<Longrightarrow> heap_ok (sift_up a i) \<and> mset (sift_up a i) = mset a"
proof (induction a i rule: sift_up.induct)
  case (1 a i)
  show ?case
  proof (cases "0 < i \<and> \<not> he_t (a ! parent i) \<le> he_t (a ! i)")
    case False
    then have "heap_ok a" using 1(3) by (auto simp: heap_ok_def heap_but_up_def)
    then show ?thesis using False by (subst (1 2) sift_up.simps) (auto simp: Let_def)
  next
    case True
    define p where "p = parent i"
    have p: "p < i" "p < length a" using True 1(2) by (auto simp: p_def)
    have n: "swap p i a ! k = (if k = i then a ! p else if k = p then a ! i else a ! k)" if "k < length a" for k
      using nth_swap [of p a i k] p 1(2) that by simp
    have lt: "he_t (a ! i) < he_t (a ! p)" using True by (simp add: p_def)
    have ord: "he_t (a ! parent j) \<le> he_t (a ! j)" if "0 < j" "j < length a" "j \<noteq> i" for j
      using 1(3) that by (simp add: heap_but_up_def)
    have across: "he_t (a ! p) \<le> he_t (a ! c)" if "0 < c" "c < length a" "parent c = i" for c
      using 1(3) that True by (auto simp: heap_but_up_def p_def)
    have "heap_but_up p (swap p i a)"
      unfolding heap_but_up_def length_swap
    proof (intro conjI allI impI)
      fix j assume j: "0 < j" "j < length a" "j \<noteq> p"
      have pj: "parent j < length a" using j(2) by (meson div_le_dividend diff_le_self le_less_trans)
      consider "j = i" | "parent j = i" "j \<noteq> i" | "parent j = p" "j \<noteq> i" | "parent j \<noteq> i" "parent j \<noteq> p" "j \<noteq> i" by blast
      then show "he_t (swap p i a ! parent j) \<le> he_t (swap p i a ! j)"
      proof cases
        case 1
        moreover have "parent i = p" by (simp add: p_def)
        ultimately show ?thesis using lt p j by (simp add: n)
      next
        case 2
        then show ?thesis using across [of j] j pj by (simp add: n)
      next
        case 3
        then show ?thesis using ord [of j] lt j pj p by (simp add: n)
      next
        case 4
        then show ?thesis using ord [of j] j pj by (simp add: n)
      qed
    next
      fix c assume c: "0 < c" "c < length a" "0 < p" "parent c = p"
      have "parent p < p" using c(3) by (rule parent_less)
      moreover have "he_t (a ! parent p) \<le> he_t (a ! p)" using ord [of p] c p by simp
      moreover have "c \<noteq> p" using c parent_less [of c] by auto
      moreover have "he_t (a ! p) \<le> he_t (a ! c)" if "c \<noteq> i" using ord [of c] c that by simp
      ultimately show "he_t (swap p i a ! parent p) \<le> he_t (swap p i a ! c)" using c p by (auto simp: n)
    qed
    then have "heap_ok (sift_up (swap p i a) p) \<and> mset (sift_up (swap p i a) p) = mset (swap p i a)"
      using 1(1) [OF _ p_def] True p by (simp add: p_def)
    moreover have "sift_up a i = sift_up (swap p i a) p" using True by (subst sift_up.simps) (simp add: Let_def p_def)
    ultimately show ?thesis using mset_swap_at [of p a i] p 1(2) by simp
  qed
qed

lemma child_of: "0 < c \<Longrightarrow> parent c = i \<Longrightarrow> i < c \<and> (c = 2 * i + 1 \<or> c = 2 * i + 2)"
  by auto

lemma smaller_child_least:
  assumes "0 < c" "c < length a" "parent c = i"
  shows "he_t (a ! smaller_child a i) \<le> he_t (a ! c)"
  using child_of [OF assms(1,3)] assms(2) by (auto simp: smaller_child_def Let_def)

lemma smaller_child_le: "he_t (a ! smaller_child a i) \<le> he_t (a ! i)"
  by (auto simp: smaller_child_def Let_def)

lemma smaller_child_parent: "smaller_child a i \<noteq> i \<Longrightarrow> parent (smaller_child a i) = i \<and> he_t (a ! smaller_child a i) < he_t (a ! i)"
  by (auto simp: smaller_child_def Let_def split: if_splits)

lemma sift_down_ok: "i < length a \<Longrightarrow> heap_but_down i a \<Longrightarrow> heap_ok (sift_down a i) \<and> mset (sift_down a i) = mset a"
proof (induction a i rule: sift_down.induct)
  case (1 a i)
  define s where "s = smaller_child a i"
  have ord: "he_t (a ! parent j) \<le> he_t (a ! j)" if "0 < j" "j < length a" "parent j \<noteq> i" for j
    using 1(3) that by (simp add: heap_but_down_def)
  have across: "he_t (a ! parent i) \<le> he_t (a ! c)" if "0 < c" "c < length a" "parent c = i" "0 < i" for c
    using 1(3) that by (simp add: heap_but_down_def)
  show ?case
  proof (cases "s = i")
    case True
    have "he_t (a ! parent j) \<le> he_t (a ! j)" if "0 < j" "j < length a" for j
      using ord [OF that] smaller_child_least [OF that] True by (cases "parent j = i") (auto simp: s_def)
    then have "heap_ok a" by (simp add: heap_ok_def)
    then show ?thesis using True by (subst (1 2) sift_down.simps) (simp add: s_def)
  next
    case False
    have s: "i < s" "s < length a" "parent s = i" "he_t (a ! s) < he_t (a ! i)"
      using False smaller_child_gt smaller_child_parent by (auto simp: s_def)
    have least: "he_t (a ! s) \<le> he_t (a ! c)" if "0 < c" "c < length a" "parent c = i" for c
      using smaller_child_least [OF that] by (simp add: s_def)
    have n: "swap s i a ! k = (if k = i then a ! s else if k = s then a ! i else a ! k)" if "k < length a" for k
      using nth_swap [of s a i k] s 1(2) that by simp
    have "heap_but_down s (swap s i a)"
      unfolding heap_but_down_def length_swap
    proof (intro conjI allI impI)
      fix j assume j: "0 < j" "j < length a" "parent j \<noteq> s"
      have pj: "parent j < length a" using j(2) by (meson div_le_dividend diff_le_self le_less_trans)
      consider "j = s" | "j = i" | "parent j = i" "j \<noteq> s" "j \<noteq> i" | "parent j \<noteq> i" "j \<noteq> s" "j \<noteq> i" by blast
      then show "he_t (swap s i a ! parent j) \<le> he_t (swap s i a ! j)"
      proof cases
        case 1
        then show ?thesis using s j pj by (simp add: n)
      next
        case 2
        moreover have "parent i < i" using j(1) 2 parent_less by simp
        moreover have "0 < s" using s(1) by simp
        ultimately show ?thesis using across [of s] s j pj by (simp add: n)
      next
        case 3
        then show ?thesis using least [of j] j pj by (simp add: n)
      next
        case 4
        then show ?thesis using ord [of j] j pj by (simp add: n)
      qed
    next
      fix c assume c: "0 < c" "c < length a" "0 < s" "parent c = s"
      have "s < c" using child_of [OF c(1,4)] by simp
      moreover have "he_t (a ! s) \<le> he_t (a ! c)" using ord [of c] c s by simp
      ultimately show "he_t (swap s i a ! parent s) \<le> he_t (swap s i a ! c)" using s c 1(2) by (simp add: n)
    qed
    then have "heap_ok (sift_down (swap s i a) s) \<and> mset (sift_down (swap s i a) s) = mset (swap s i a)"
      using 1(1) [OF s_def] False s by simp
    moreover have "sift_down a i = sift_down (swap s i a) s" using False by (subst sift_down.simps) (simp add: Let_def s_def)
    ultimately show ?thesis using mset_swap_at [of s a i] s 1(2) by simp
  qed
qed

lemma heap_push_ok:
  assumes "heap_ok a"
  shows "heap_ok (heap_push x a) \<and> mset (heap_push x a) = add_mset x (mset a)"
proof -
  have "heap_but_up (length a) (a @ [x])"
    unfolding heap_but_up_def
  proof (intro conjI allI impI)
    fix j assume "0 < j" "j < length (a @ [x])" "j \<noteq> length a"
    moreover from this have "parent j < length a" using parent_less [of j] by simp
    ultimately show "he_t ((a @ [x]) ! parent j) \<le> he_t ((a @ [x]) ! j)"
      using assms by (simp add: heap_ok_def nth_append)
  next
    fix c assume "0 < c" "c < length (a @ [x])" "parent c = length a"
    then show "he_t ((a @ [x]) ! parent (length a)) \<le> he_t ((a @ [x]) ! c)" using parent_less [of c] by simp
  qed
  then show ?thesis using sift_up_ok [of "length a" "a @ [x]"] by (simp add: heap_push_def)
qed

lemma heap_pop_ok:
  assumes "heap_ok a" "a \<noteq> []"
  shows "heap_ok (snd (heap_pop a)) \<and> mset (snd (heap_pop a)) = mset a - {#a ! 0#}"
proof -
  obtain b x where a: "a = b @ [x]" using assms(2) by (metis append_butlast_last_id)
  show ?thesis
  proof (cases b)
    case Nil
    then show ?thesis by (simp add: a heap_pop_def heap_ok_def)
  next
    case (Cons y ys)
    let ?b = "b[0 := x]"
    have ord: "he_t (b ! parent j) \<le> he_t (b ! j)" if "0 < j" "j < length b" for j
    proof -
      have "parent j < length b" using that parent_less [of j] by simp
      then show ?thesis using assms(1) that by (force simp: a heap_ok_def nth_append dest!: spec [of _ j])
    qed
    have "heap_but_down 0 ?b"
      using ord by (auto simp: heap_but_down_def nth_list_update)
    then have "heap_ok (sift_down ?b 0) \<and> mset (sift_down ?b 0) = mset ?b"
      using Cons by (intro sift_down_ok) auto
    moreover have "mset ?b = mset a - {#a ! 0#}" by (simp add: a Cons)
    ultimately show ?thesis using Cons by (simp add: a heap_pop_def)
  qed
qed

interpretation ttl: min_queue "[]" heap_push heap_peek heap_pop mset heap_ok
proof unfold_locales
  fix q :: heap and x
  assume ok: "heap_ok q"
  show "mset (heap_push x q) = add_mset x (mset q)" "heap_ok (heap_push x q)" using heap_push_ok [OF ok] by auto
  show "heap_peek q = None \<longleftrightarrow> mset q = {#}" by (simp add: heap_peek_def split: list.splits)
  show "heap_ok (snd (heap_pop q))" using heap_pop_ok [OF ok] by (cases "q = []") (auto simp: heap_pop_def heap_ok_def)
  assume pk: "heap_peek q = Some x"
  then have q: "q \<noteq> []" "q ! 0 = x" by (auto simp: heap_peek_def split: list.splits)
  show "x \<in># mset q \<and> (\<forall>y \<in># mset q. he_t x \<le> he_t y)"
    using heap_least [OF ok] q by (auto simp: in_set_conv_nth)
  show "mset (snd (heap_pop q)) = mset q - {#x#}" using heap_pop_ok [OF ok q(1)] q(2) by simp
next
  fix q show "fst (heap_pop q) = heap_peek q" by (auto simp: heap_pop_def heap_peek_def split: list.splits)
qed (simp_all add: heap_ok_def)

end
