(* ===== verification/Store.thy ===== *)
theory Store imports SkipList_Bulk MinHeap Bytes begin

text \<open>
  The in-memory index of the embedded database, \<^verbatim>\<open>src/packages/minidb/src/store.ts\<close>: records by key, the keys in
  order in a skip list, a heap of expiry times, and the counters kept beside them.

  A key is its canonical string (one code unit per byte). The clock is the time a call reads; an operation that reads it
  more than once takes the sequence of its readings. The skip list's random draws are arguments, and an operation that
  walks it is partial, as the walk is. The owner's expiry callback is the list of its calls, and it is
  taken not to call the store back. Time stamps and the numbers of the \<open>dt\<close> columns are integers.
\<close>

section \<open>Records\<close>

datatype db_file = Snapshot | Wal

record value_loc =
  vl_file :: db_file
  vl_off :: nat
  vl_len :: nat

datatype value_ref = InMemory buffer | OnDisk value_loc

type_synonym dt_columns = "(string \<times> int) list"

record store_record =
  re_ref :: value_ref
  re_expireAt :: int
  re_seq :: nat
  re_dt :: "dt_columns option"

record store_entry =
  se_key :: buffer
  se_value :: buffer
  se_expireAt :: int
  se_dt :: "dt_columns option"

datatype store_error = NoValueReader | ReadError string

datatype db_key = KStr string | KBuf buffer

definition toKStr :: "db_key \<Rightarrow> string" where
  "toKStr key = (case key of KStr s \<Rightarrow> s | KBuf b \<Rightarrow> map (\<lambda>x. char_of (unat x)) b)"

definition fromKStr :: "string \<Rightarrow> buffer" where
  "fromKStr s = map (\<lambda>c. of_nat (of_char c)) s"

definition DISK_REF_BYTES :: nat where "DISK_REF_BYTES = 64"

record store =
  so_map :: "(string, store_record) omap"
  so_order :: "(string \<times> string) skiplist"
  so_heap :: heap
  so_seq :: nat
  so_bytes :: int
  so_expiring :: int
  so_aggressive :: bool
  so_loading :: bool

definition new_store :: store where
  "new_store = \<lparr>so_map = [], so_order = empty_skiplist, so_heap = [], so_seq = 0, so_bytes = 0, so_expiring = 0,
                so_aggressive = False, so_loading = False\<rparr>"

text \<open>A record is live while it has no expiry or its expiry lies ahead.\<close>

definition expired :: "int \<Rightarrow> store_record \<Rightarrow> bool" where
  "expired now r \<longleftrightarrow> re_expireAt r \<noteq> 0 \<and> re_expireAt r \<le> now"

definition store_size :: "int \<Rightarrow> store \<Rightarrow> nat" where
  "store_size now s =
     (if so_expiring s = 0 then length (so_map s) else length (filter (\<lambda>(k, r). \<not> expired now r) (so_map s)))"

section \<open>Accounting\<close>

definition utf8_length :: "string \<Rightarrow> nat" where
  "utf8_length s = sum_list (map (\<lambda>c. if (of_char c :: nat) < 128 then 1 else 2) s)"

definition metaBytes :: "dt_columns option \<Rightarrow> nat" where
  "metaBytes dt =
     (case dt of
        None \<Rightarrow> 0
      | Some cols \<Rightarrow> utf8_length (json_stringify (JObj [(''dt'', JObj (map (\<lambda>(k, n). (k, JInt n)) cols))])))"

definition refBytes :: "value_ref \<Rightarrow> nat" where
  "refBytes r = (case r of InMemory v \<Rightarrow> length v | OnDisk _ \<Rightarrow> DISK_REF_BYTES)"

definition record_size :: "string \<Rightarrow> store_record \<Rightarrow> nat" where
  "record_size k r = length k + refBytes (re_ref r) + metaBytes (re_dt r)"

definition recordBytes :: "store \<Rightarrow> string \<Rightarrow> nat" where
  "recordBytes s k = (case om_get (so_map s) k of None \<Rightarrow> 0 | Some r \<Rightarrow> record_size k r)"

definition estimateSetBytes :: "db_key \<Rightarrow> buffer \<Rightarrow> dt_columns option \<Rightarrow> bool \<Rightarrow> nat" where
  "estimateSetBytes key value dt countValue =
     length (toKStr key) + (if countValue then length value else DISK_REF_BYTES) + metaBytes dt"

definition materialize :: "(value_loc \<Rightarrow> store_error + buffer) option \<Rightarrow> value_ref \<Rightarrow> store_error + buffer" where
  "materialize reader ref =
     (case ref of
        InMemory v \<Rightarrow> Inr v
      | OnDisk loc \<Rightarrow> (case reader of None \<Rightarrow> Inl NoValueReader | Some rd \<Rightarrow> rd loc))"

section \<open>Removal and expiry\<close>

type_synonym expiry_call = "string \<times> store_record"

definition store_remove :: "string \<Rightarrow> store \<Rightarrow> (bool \<times> store) option" where
  "store_remove k s =
     (case om_get (so_map s) k of
        None \<Rightarrow> Some (False, s)
      | Some r \<Rightarrow>
          do {
            (found, order) \<leftarrow> skip_delete cmpString cmpString (k, k) (so_order s);
            Some (True, s\<lparr>so_map := om_del k (so_map s), so_bytes := so_bytes s - int (record_size k r),
                          so_expiring := so_expiring s - (if re_expireAt r \<noteq> 0 then 1 else 0), so_order := order\<rparr>)
          })"

definition expireKey :: "string \<Rightarrow> store_record \<Rightarrow> store \<Rightarrow> (expiry_call list \<times> store) option" where
  "expireKey k rec s =
     do {
       (ok, s') \<leftarrow> store_remove k s;
       Some (if ok then [(k, rec)] else [], s')
     }"

section \<open>Writing\<close>

definition ttl_entry :: "string \<Rightarrow> store_record \<Rightarrow> heap_entry" where
  "ttl_entry k r = \<lparr>he_t = re_expireAt r, he_k = k, he_seq = re_seq r\<rparr>"

definition rebuildHeap :: "store \<Rightarrow> store" where
  "rebuildHeap s =
     s\<lparr>so_heap := fold (\<lambda>(k, r) h. if re_expireAt r \<noteq> 0 then heap_push (ttl_entry k r) h else h) (so_map s) []\<rparr>"

definition setRef ::
    "(nat \<Rightarrow> rat) \<Rightarrow> db_key \<Rightarrow> value_ref \<Rightarrow> int \<Rightarrow> dt_columns option \<Rightarrow> store \<Rightarrow> store option" where
  "setRef draws key ref expireAt dt s =
     (let k = toKStr key;
          prev = om_get (so_map s) k;
          s1 = (case prev of
                  None \<Rightarrow> s
                | Some p \<Rightarrow> s\<lparr>so_expiring := so_expiring s - (if re_expireAt p \<noteq> 0 then 1 else 0),
                              so_bytes := so_bytes s - int (recordBytes s k)\<rparr>);
          seq = so_seq s1 + 1;
          rec = \<lparr>re_ref = ref, re_expireAt = expireAt, re_seq = seq, re_dt = dt\<rparr>;
          s2 = s1\<lparr>so_seq := seq, so_map := om_set k rec (so_map s1), so_bytes := so_bytes s1 + int (record_size k rec)\<rparr>
      in do {
           order \<leftarrow> (if prev = None then skip_insert cmpString cmpString draws (k, k) (so_order s2) else Some (so_order s2));
           let s3 = s2\<lparr>so_order := order\<rparr>;
           Some (if expireAt \<noteq> 0
                 then let s4 = s3\<lparr>so_expiring := so_expiring s3 + 1, so_heap := heap_push (ttl_entry k rec) (so_heap s3)\<rparr> in
                      if length (so_heap s4) > length (so_map s4) * 2 + 64 then rebuildHeap s4 else s4
                 else s3)
         })"

definition store_set ::
    "(nat \<Rightarrow> rat) \<Rightarrow> db_key \<Rightarrow> buffer \<Rightarrow> int \<Rightarrow> dt_columns option \<Rightarrow> store \<Rightarrow> store option" where
  "store_set draws key value expireAt dt s = setRef draws key (InMemory value) expireAt dt s"

definition store_del :: "db_key \<Rightarrow> store \<Rightarrow> (bool \<times> store) option" where
  "store_del key s = store_remove (toKStr key) s"

section \<open>Reading\<close>

definition getRecord :: "int \<Rightarrow> string \<Rightarrow> store \<Rightarrow> (store_record option \<times> expiry_call list \<times> store) option" where
  "getRecord now k s =
     (case om_get (so_map s) k of
        None \<Rightarrow> Some (None, [], s)
      | Some r \<Rightarrow>
          if expired now r then do { (calls, s') \<leftarrow> expireKey k r s; Some (None, calls, s') }
          else Some (Some r, [], s))"

definition store_get ::
    "(value_loc \<Rightarrow> store_error + buffer) option \<Rightarrow> int \<Rightarrow> db_key \<Rightarrow> store \<Rightarrow>
       ((store_error + buffer option) \<times> expiry_call list \<times> store) option" where
  "store_get reader now key s =
     (case om_get (so_map s) (toKStr key) of
        None \<Rightarrow> Some (Inr None, [], s)
      | Some r \<Rightarrow>
          if expired now r then do { (calls, s') \<leftarrow> expireKey (toKStr key) r s; Some (Inr None, calls, s') }
          else Some (ebind (materialize reader (re_ref r)) (\<lambda>v. Inr (Some v)), [], s))"

definition store_has :: "int \<Rightarrow> db_key \<Rightarrow> store \<Rightarrow> (bool \<times> expiry_call list \<times> store) option" where
  "store_has now key s =
     (case om_get (so_map s) (toKStr key) of
        None \<Rightarrow> Some (False, [], s)
      | Some r \<Rightarrow>
          if expired now r then do { (calls, s') \<leftarrow> expireKey (toKStr key) r s; Some (False, calls, s') }
          else Some (True, [], s))"

text \<open>The walks over the map, consumed to the end; a reader that throws ends the walk.\<close>

definition live_records :: "int \<Rightarrow> store \<Rightarrow> (string \<times> store_record) list" where
  "live_records now s = filter (\<lambda>(k, r). \<not> expired now r) (so_map s)"

fun emap :: "('a \<Rightarrow> 'e + 'b) \<Rightarrow> 'a list \<Rightarrow> 'e + 'b list" where
  "emap f [] = Inr []"
| "emap f (x # xs) = ebind (f x) (\<lambda>y. ebind (emap f xs) (\<lambda>ys. Inr (y # ys)))"

definition entry_of ::
    "(value_loc \<Rightarrow> store_error + buffer) option \<Rightarrow> string \<times> store_record \<Rightarrow> store_error + store_entry" where
  "entry_of reader = (\<lambda>(k, r).
     ebind (materialize reader (re_ref r)) (\<lambda>v.
       Inr \<lparr>se_key = fromKStr k, se_value = v, se_expireAt = re_expireAt r, se_dt = re_dt r\<rparr>))"

definition store_entries :: "(value_loc \<Rightarrow> store_error + buffer) option \<Rightarrow> int \<Rightarrow> store \<Rightarrow> store_error + store_entry list" where
  "store_entries reader now s = emap (entry_of reader) (live_records now s)"

text \<open>
  The ordered walks: the keys of the range are taken first, and each is looked up when it is reached. A reader that
  throws ends the walk there.
\<close>

fun visit ::
    "(string \<times> store_record \<Rightarrow> store_error + 'a) \<Rightarrow> (nat \<Rightarrow> int) \<Rightarrow> string list \<Rightarrow> store \<Rightarrow>
       ((store_error + 'a list) \<times> expiry_call list \<times> store) option" where
  "visit f clock [] s = Some (Inr [], [], s)"
| "visit f clock (k # ks) s =
     do {
       (r, calls, s1) \<leftarrow> getRecord (clock 0) k s;
       (case r of
          None \<Rightarrow>
            do { (res, calls', s2) \<leftarrow> visit f (\<lambda>n. clock (Suc n)) ks s1; Some (res, calls @ calls', s2) }
        | Some rec \<Rightarrow>
            (case f (k, rec) of
               Inl e \<Rightarrow> Some (Inl e, calls, s1)
             | Inr y \<Rightarrow>
                 do { (res, calls', s2) \<leftarrow> visit f (\<lambda>n. clock (Suc n)) ks s1;
                      Some (ebind res (\<lambda>ys. Inr (y # ys)), calls @ calls', s2) }))
     }"

definition store_scan ::
    "(value_loc \<Rightarrow> store_error + buffer) option \<Rightarrow> (nat \<Rightarrow> int) \<Rightarrow> string range_options \<Rightarrow> store \<Rightarrow>
       ((store_error + store_entry list) \<times> expiry_call list \<times> store) option" where
  "store_scan reader clock opts s =
     do {
       es \<leftarrow> skip_range cmpString opts (so_order s);
       visit (entry_of reader) clock (map fst es) s
     }"

definition rawKeys ::
    "(nat \<Rightarrow> int) \<Rightarrow> string range_options \<Rightarrow> store \<Rightarrow> ((store_error + string list) \<times> expiry_call list \<times> store) option" where
  "rawKeys clock opts s =
     do {
       es \<leftarrow> skip_range cmpString opts (so_order s);
       visit (\<lambda>(k, r). Inr k) clock (map fst es) s
     }"

definition remapLocs :: "(string \<Rightarrow> value_loc \<Rightarrow> store_record \<Rightarrow> value_loc option) \<Rightarrow> store \<Rightarrow> store" where
  "remapLocs remap s =
     s\<lparr>so_map := map (\<lambda>(k, r). (k, case re_ref r of
         InMemory _ \<Rightarrow> r
       | OnDisk loc \<Rightarrow> (case remap k loc r of None \<Rightarrow> r | Some loc' \<Rightarrow> r\<lparr>re_ref := OnDisk loc'\<rparr>))) (so_map s)\<rparr>"

section \<open>Bulk loading\<close>

record load_record =
  lo_kstr :: string
  lo_ref :: value_ref
  lo_expireAt :: int
  lo_dt :: "dt_columns option"
  lo_metaBytes :: "nat option"

definition load_one :: "load_record \<Rightarrow> store \<Rightarrow> store" where
  "load_one l s =
     (let seq = so_seq s + 1;
          rec = \<lparr>re_ref = lo_ref l, re_expireAt = lo_expireAt l, re_seq = seq, re_dt = lo_dt l\<rparr>;
          s1 = s\<lparr>so_seq := seq, so_map := om_set (lo_kstr l) rec (so_map s),
                 so_bytes := so_bytes s + int (length (lo_kstr l) + refBytes (lo_ref l) +
                   (case lo_metaBytes l of None \<Rightarrow> 0 | Some n \<Rightarrow> n))\<rparr>
      in if lo_expireAt l \<noteq> 0
         then s1\<lparr>so_expiring := so_expiring s1 + 1, so_heap := heap_push (ttl_entry (lo_kstr l) rec) (so_heap s1)\<rparr>
         else s1)"

definition bulkLoadRefs :: "load_record list \<Rightarrow> store \<Rightarrow> store" where
  "bulkLoadRefs ls s =
     (fold load_one ls s)\<lparr>so_order := bulkLoad cmpString cmpString (map (\<lambda>l. (lo_kstr l, lo_kstr l)) ls)\<rparr>"

section \<open>Active expiry\<close>

lemma expireKey_heap: "expireKey k r s = Some (calls, s') \<Longrightarrow> so_heap s' = so_heap s"
  by (auto simp: expireKey_def store_remove_def bind_eq_Some_conv split: option.splits)

text \<open>The entry on top of the heap, when it still speaks for its record.\<close>

definition due_record :: "int \<Rightarrow> heap_entry \<Rightarrow> store \<Rightarrow> store_record option" where
  "due_record now e s =
     (case om_get (so_map s) (he_k e) of
        None \<Rightarrow> None
      | Some r \<Rightarrow> if re_seq r = he_seq e \<and> expired now r then Some r else None)"

definition pop_due :: "int \<Rightarrow> heap_entry \<Rightarrow> store \<Rightarrow> (bool \<times> expiry_call list \<times> store) option" where
  "pop_due now e s =
     (let s1 = s\<lparr>so_heap := snd (heap_pop (so_heap s))\<rparr> in
      case due_record now e s1 of
        None \<Rightarrow> Some (False, [], s1)
      | Some r \<Rightarrow> do { (calls, s2) \<leftarrow> expireKey (he_k e) r s1; Some (True, calls, s2) })"

lemma length_sift_down [simp]: "length (sift_down a i) = length a"
proof (induction a i rule: sift_down.induct)
  case (1 a i)
  then show ?case by (subst sift_down.simps) (simp add: Let_def)
qed

lemma pop_due_heap:
  "pop_due now e s = Some (hit, calls, s') \<Longrightarrow> so_heap s' = snd (heap_pop (so_heap s))"
  by (auto simp: pop_due_def Let_def bind_eq_Some_conv dest: expireKey_heap split: option.splits)

lemma heap_pop_shorter: "heap_peek h = Some e \<Longrightarrow> length (snd (heap_pop h)) < length h"
  by (auto simp: heap_peek_def heap_pop_def Let_def split: list.splits)

text \<open>\<open>due\<close> is the loop's condition: the time on top of the heap has passed.\<close>

definition due_top :: "int \<Rightarrow> store \<Rightarrow> heap_entry option" where
  "due_top now s = (case heap_peek (so_heap s) of None \<Rightarrow> None | Some e \<Rightarrow> if he_t e \<le> now then Some e else None)"

function reap_loop :: "int \<Rightarrow> nat \<Rightarrow> store \<Rightarrow> (nat \<times> expiry_call list \<times> store) option" where
  "reap_loop now n s =
     (case due_top now s of
        None \<Rightarrow> Some (n, [], s)
      | Some e \<Rightarrow>
          do {
            (hit, calls, s1) \<leftarrow> pop_due now e s;
            (m, calls', s2) \<leftarrow> reap_loop now (if hit then Suc n else n) s1;
            Some (m, calls @ calls', s2)
          })"
  by pat_completeness auto
termination
  by (relation "measure (\<lambda>(now, n, s). length (so_heap s))")
     (auto simp: due_top_def dest!: pop_due_heap heap_pop_shorter split: option.splits if_splits)

declare reap_loop.simps [simp del]

definition reapExpired :: "int \<Rightarrow> store \<Rightarrow> (nat \<times> expiry_call list \<times> store) option" where
  "reapExpired now s =
     fold (\<lambda>(k, r) acc. do {
         (n, calls, t) \<leftarrow> acc;
         if expired now r then do { (calls', t') \<leftarrow> expireKey k r t; Some (Suc n, calls @ calls', t') } else acc
       }) (so_map s) (Some (0, [], s))"

text \<open>The second clock reading is that of the full scan the code falls back to.\<close>

definition reapExpiredDue :: "int \<Rightarrow> int \<Rightarrow> store \<Rightarrow> (nat \<times> expiry_call list \<times> store) option" where
  "reapExpiredDue now now' s =
     do {
       (n, calls, s1) \<leftarrow> reap_loop now 0 s;
       if so_expiring s1 > 0 \<and> so_heap s1 = []
       then do { (m, calls', s2) \<leftarrow> reapExpired now' s1; Some (n + m, calls @ calls', s2) }
       else Some (n, calls, s1)
     }"

text \<open>
  The loop of a tick: \<open>n\<close> entries popped, \<open>reaped\<close> records removed, and \<open>c\<close> readings of the clock so far.
\<close>

function active_loop ::
    "(nat \<Rightarrow> int) \<Rightarrow> nat \<Rightarrow> nat \<Rightarrow> int \<Rightarrow> int \<Rightarrow> nat \<Rightarrow> nat \<Rightarrow> store \<Rightarrow> (nat \<times> expiry_call list \<times> store) option" where
  "active_loop clock c maxPerTick deadline now n reaped s =
     (case due_top now s of
        None \<Rightarrow> Some (reaped, [], s)
      | Some e \<Rightarrow>
          let checks = maxPerTick \<le> n \<and> n mod 16 = 0 in
          if checks \<and> deadline \<le> clock c then Some (reaped, [], s)
          else do {
            (hit, calls, s1) \<leftarrow> pop_due now e s;
            (m, calls', s2) \<leftarrow>
              active_loop clock (if checks then Suc c else c) maxPerTick deadline now (Suc n) (if hit then Suc reaped else reaped) s1;
            Some (m, calls @ calls', s2)
          })"
  by pat_completeness auto
termination
  by (relation "measure (\<lambda>(clock, c, mp, d, now, n, r, s). length (so_heap s))")
     (auto simp: due_top_def dest!: pop_due_heap heap_pop_shorter split: option.splits if_splits)

declare active_loop.simps [simp del]

definition activeExpire :: "(nat \<Rightarrow> int) \<Rightarrow> nat \<Rightarrow> int \<Rightarrow> store \<Rightarrow> (expiry_call list \<times> store) option" where
  "activeExpire clock maxPerTick budget s =
     (if so_loading s then Some ([], s)
      else
        let now = clock 0;
            deadline = now + (if so_aggressive s then max budget 10 else budget)
        in do {
             (reaped, calls, s1) \<leftarrow> active_loop clock 1 maxPerTick deadline now 0 0 s;
             Some (calls, s1\<lparr>so_aggressive := maxPerTick \<le> reaped\<rparr>)
           })"

text \<open>
  The sliced load: after every \<open>sliceEvery\<close> records the event loop turns, and timers run; \<open>ticks i\<close> are the clocks
  of the ticks that run in the \<open>i\<close>-th pause.
\<close>

fun run_ticks :: "nat \<Rightarrow> int \<Rightarrow> (nat \<Rightarrow> int) list \<Rightarrow> store \<Rightarrow> store option" where
  "run_ticks maxPerTick budget [] s = Some s"
| "run_ticks maxPerTick budget (c # cs) s =
     do { (_, s1) \<leftarrow> activeExpire c maxPerTick budget s; run_ticks maxPerTick budget cs s1 }"

fun load_slices ::
    "nat \<Rightarrow> int \<Rightarrow> nat \<Rightarrow> (nat \<Rightarrow> (nat \<Rightarrow> int) list) \<Rightarrow> nat \<Rightarrow> load_record list \<Rightarrow> store \<Rightarrow> store option" where
  "load_slices maxPerTick budget sliceEvery ticks n [] s = Some s"
| "load_slices maxPerTick budget sliceEvery ticks n (l # ls) s =
     (let s1 = load_one l s; n' = Suc n in
      do {
        s2 \<leftarrow> (if n' mod sliceEvery = 0 then run_ticks maxPerTick budget (ticks n') s1 else Some s1);
        load_slices maxPerTick budget sliceEvery ticks n' ls s2
      })"

definition bulkLoadRefsAsync ::
    "nat \<Rightarrow> int \<Rightarrow> nat \<Rightarrow> (nat \<Rightarrow> (nat \<Rightarrow> int) list) \<Rightarrow> (nat \<Rightarrow> int) list \<Rightarrow> load_record list \<Rightarrow> store \<Rightarrow> store option" where
  "bulkLoadRefsAsync maxPerTick budget sliceEvery ticks late ls s =
     do {
       s1 \<leftarrow> load_slices maxPerTick budget sliceEvery ticks 0 ls (s\<lparr>so_loading := True\<rparr>);
       s2 \<leftarrow> run_ticks maxPerTick budget late s1;
       Some (s2\<lparr>so_order := bulkLoad cmpString cmpString (map (\<lambda>l. (lo_kstr l, lo_kstr l)) ls), so_loading := False\<rparr>)
     }"

end
