(* ===== verification/Store_Proofs.thy ===== *)
theory Store_Proofs imports Store begin

text \<open>
  The store keeps its parts in step: the invariant that ties the map, the ordered index, the heap of expiry times and the
  counters together, kept by every operation, and what the operations answer.
\<close>

section \<open>The ordered index as an interface\<close>

locale key_index =
  fixes ins :: "(nat \<Rightarrow> rat) \<Rightarrow> string \<Rightarrow> 'i \<Rightarrow> 'i option"
    and del :: "string \<Rightarrow> 'i \<Rightarrow> (bool \<times> 'i) option"
    and holds_keys :: "'i \<Rightarrow> string list \<Rightarrow> bool"
  assumes in_order: "holds_keys i ks \<Longrightarrow> sorted_wrt str_less ks"
    and ins: "holds_keys i ks \<Longrightarrow> k \<notin> set ks \<Longrightarrow>
      \<exists>i' ks'. ins draws k i = Some i' \<and> holds_keys i' ks' \<and> set ks' = insert k (set ks)"
    and del: "holds_keys i ks \<Longrightarrow>
      \<exists>i' ks'. del k i = Some (k \<in> set ks, i') \<and> holds_keys i' ks' \<and> set ks' = set ks - {k}"
begin

text \<open>The index of a set of keys.\<close>

definition indexes :: "'i \<Rightarrow> string set \<Rightarrow> bool" where
  "indexes i K \<longleftrightarrow> (\<exists>ks. holds_keys i ks \<and> set ks = K)"

lemma indexes_ins: "indexes i K \<Longrightarrow> k \<notin> K \<Longrightarrow> \<exists>i'. ins draws k i = Some i' \<and> indexes i' (insert k K)"
  unfolding indexes_def using ins by metis

lemma indexes_del: "indexes i K \<Longrightarrow> \<exists>i'. del k i = Some (k \<in> K, i') \<and> indexes i' (K - {k})"
  unfolding indexes_def using del by metis

end

definition order_shows :: "(string \<times> string) skiplist \<Rightarrow> string list \<Rightarrow> bool" where
  "order_shows i ks \<longleftrightarrow> (\<exists>ys. shows_entries ys i (map (\<lambda>k. (k, k)) ks)) \<and> sorted_wrt str_less ks"

lemma below_diag: "strings.below (a, a) (b, b) \<longleftrightarrow> str_less a b"
  using str_less_irrefl by (auto simp: strings.below_iff cmpString_def)

lemma order_in_sequence: "sorted_wrt str_less ks \<Longrightarrow> strings.in_sequence (map (\<lambda>k. (k, k)) ks)"
  unfolding strings.in_sequence_def sorted_wrt_map below_diag
  by (rule sorted_wrt_mono_rel [rotated]) (use str_less_trans str_less_irrefl in blast)+

lemma ref_insert_diag:
  "sorted_wrt str_less ks \<Longrightarrow> k \<notin> set ks \<Longrightarrow>
     \<exists>ks'. ref_insert strings.below (k, k) (map (\<lambda>k. (k, k)) ks) = map (\<lambda>k. (k, k)) ks' \<and> sorted_wrt str_less ks' \<and>
       set ks' = insert k (set ks)"
proof (induction ks)
  case Nil
  then show ?case by (intro exI [of _ "[k]"]) simp
next
  case (Cons x ks)
  show ?case
  proof (cases "str_less x k")
    case True
    with Cons obtain ks' where "ref_insert strings.below (k, k) (map (\<lambda>k. (k, k)) ks) = map (\<lambda>k. (k, k)) ks'"
      "sorted_wrt str_less ks'" "set ks' = insert k (set ks)" by auto
    then show ?thesis using True Cons.prems by (intro exI [of _ "x # ks'"]) (auto simp: below_diag)
  next
    case False
    then have "str_less k x" using str_less_total [of x k] Cons.prems by auto
    then have "\<forall>y \<in> set (x # ks). str_less k y" using Cons.prems str_less_trans by auto
    then show ?thesis using False Cons.prems by (intro exI [of _ "k # x # ks"]) (auto simp: below_diag)
  qed
qed

lemma remove1_diag: "remove1 (k, k) (map (\<lambda>k. (k, k)) ks) = map (\<lambda>k. (k, k)) (remove1 k ks)"
  by (induction ks) auto

lemma str_sorted_distinct: "sorted_wrt str_less ks \<Longrightarrow> distinct ks"
  by (induction ks) (use str_less_irrefl in auto)

interpretation order: key_index "\<lambda>draws k. skip_insert cmpString cmpString draws (k, k)"
  "\<lambda>k. skip_delete cmpString cmpString (k, k)" order_shows
proof
  fix i ks k draws
  assume sh: "order_shows i ks"
  then obtain ys where ys: "shows_entries ys i (map (\<lambda>k. (k, k)) ks)" and s: "sorted_wrt str_less ks"
    by (auto simp: order_shows_def)
  note seq = order_in_sequence [OF s]
  show "sorted_wrt str_less ks" by (rule s)
  obtain ys' i' where d: "skip_delete cmpString cmpString (k, k) i = Some ((k, k) \<in> set (map (\<lambda>k. (k, k)) ks), i')"
    "shows_entries ys' i' (remove1 (k, k) (map (\<lambda>k. (k, k)) ks))" by (rule strings.delete_refines [OF ys seq])
  have "sorted_wrt str_less (remove1 k ks)" using s by (induction ks) (auto dest: notin_set_remove1)
  with d(2) have "order_shows i' (remove1 k ks)" unfolding remove1_diag order_shows_def by blast
  moreover have "set (remove1 k ks) = set ks - {k}" by (rule set_remove1_eq) (rule str_sorted_distinct [OF s])
  ultimately show "\<exists>i' ks'. skip_delete cmpString cmpString (k, k) i = Some (k \<in> set ks, i') \<and> order_shows i' ks' \<and> set ks' = set ks - {k}"
    using d(1) by (auto simp: image_iff)
  assume "k \<notin> set ks"
  then obtain ks' where k: "ref_insert strings.below (k, k) (map (\<lambda>k. (k, k)) ks) = map (\<lambda>k. (k, k)) ks'"
    "sorted_wrt str_less ks'" "set ks' = insert k (set ks)" using ref_insert_diag [OF s] by blast
  obtain ys'' i'' where "skip_insert cmpString cmpString draws (k, k) i = Some i''"
    "shows_entries ys'' i'' (ref_insert strings.below (k, k) (map (\<lambda>k. (k, k)) ks))"
    by (rule strings.insert_refines [OF ys seq])
  then show "\<exists>i' ks'. skip_insert cmpString cmpString draws (k, k) i = Some i' \<and> order_shows i' ks' \<and> set ks' = insert k (set ks)"
    using k unfolding order_shows_def by (intro exI [of _ i''] exI [of _ ks']) auto
qed

section \<open>Sums over the map\<close>

definition om_sum :: "('k \<Rightarrow> 'v \<Rightarrow> int) \<Rightarrow> ('k, 'v) omap \<Rightarrow> int" where
  "om_sum f m = sum_list (map (\<lambda>(k, r). f k r) m)"

lemma om_sum_Nil [simp]: "om_sum f [] = 0"
  by (simp add: om_sum_def)

lemma om_sum_Cons [simp]: "om_sum f ((k, r) # m) = f k r + om_sum f m"
  by (simp add: om_sum_def)

lemma om_del_absent: "om_get m k = None \<Longrightarrow> om_del k m = m"
  by (induction m) (auto simp: om_del_def split: if_splits)

lemma om_sum_del: "om_wf m \<Longrightarrow> om_sum f m = (case om_get m k of None \<Rightarrow> 0 | Some r \<Rightarrow> f k r) + om_sum f (om_del k m)"
proof (induction m)
  case (Cons p m)
  obtain k' r where p: "p = (k', r)" by (cases p)
  show ?case
  proof (cases "k' = k")
    case True
    then have "om_get m k = None" using Cons.prems by (auto simp: om_wf_def p map_of_eq_None_iff)
    then show ?thesis using True om_del_absent [of m k] by (simp add: p om_del_def)
  next
    case False
    then show ?thesis using Cons by (simp add: p om_del_def om_wf_def)
  qed
qed (simp add: om_del_def)

lemma om_sum_set: "om_wf m \<Longrightarrow> om_sum f (om_set k v m) = f k v + om_sum f (om_del k m)"
proof (induction k v m rule: om_set.induct)
  case (2 k v k' v' m)
  show ?case
  proof (cases "k' = k")
    case True
    then have "om_get m k = None" using 2(2) by (auto simp: om_wf_def map_of_eq_None_iff)
    then show ?thesis using True om_del_absent [of m k] by (simp add: om_del_def)
  next
    case False
    then show ?thesis using 2 by (simp add: om_del_def om_wf_def)
  qed
qed (simp add: om_del_def)

lemma om_mem: "om_wf m \<Longrightarrow> (k, r) \<in> set m \<longleftrightarrow> om_get m k = Some r"
  by (simp add: om_wf_def map_of_eq_Some_iff)

lemma om_keys: "k \<in> fst ` set m \<longleftrightarrow> om_get m k \<noteq> None"
  by (simp add: map_of_eq_None_iff)

lemma fst_om_del: "fst ` set (om_del k m) = fst ` set m - {k}"
  by (auto simp: om_del_def)

section \<open>The invariant\<close>

abbreviation has_ttl :: "store_record \<Rightarrow> int" where
  "has_ttl r \<equiv> (if re_expireAt r \<noteq> 0 then 1 else 0)"

text \<open>Every record with an expiry has its entry in the heap, and an entry of a record's sequence number tells its expiry.\<close>

definition heap_covers :: "(string, store_record) omap \<Rightarrow> heap \<Rightarrow> bool" where
  "heap_covers m h \<longleftrightarrow> (\<forall>k r. om_get m k = Some r \<longrightarrow> re_expireAt r \<noteq> 0 \<longrightarrow> ttl_entry k r \<in> set h)"

definition heap_tells :: "(string, store_record) omap \<Rightarrow> heap \<Rightarrow> nat \<Rightarrow> bool" where
  "heap_tells m h n \<longleftrightarrow> (\<forall>e \<in> set h. he_seq e \<le> n \<and>
     (\<forall>r. om_get m (he_k e) = Some r \<longrightarrow> re_seq r = he_seq e \<longrightarrow> re_expireAt r = he_t e))"

definition store_ok :: "store \<Rightarrow> bool" where
  "store_ok s \<longleftrightarrow>
     om_wf (so_map s) \<and>
     order.indexes (so_order s) (fst ` set (so_map s)) \<and>
     so_bytes s = om_sum (\<lambda>k r. int (record_size k r)) (so_map s) \<and>
     so_expiring s = om_sum (\<lambda>k r. has_ttl r) (so_map s) \<and>
     heap_ok (so_heap s) \<and> heap_covers (so_map s) (so_heap s) \<and> heap_tells (so_map s) (so_heap s) (so_seq s) \<and>
     (\<forall>k r. om_get (so_map s) k = Some r \<longrightarrow> re_seq r \<le> so_seq s)"

lemma order_shows_empty: "order_shows empty_skiplist []"
  using empty_shows by (auto simp: order_shows_def)

lemma new_store_ok: "store_ok new_store"
  using order_shows_empty
  by (auto simp: store_ok_def new_store_def order.indexes_def heap_ok_def heap_covers_def heap_tells_def)

lemma covers_del: "heap_covers m h \<Longrightarrow> heap_covers (om_del k m) h"
  by (auto simp: heap_covers_def om_get_del split: if_splits)

lemma tells_del: "heap_tells m h n \<Longrightarrow> heap_tells (om_del k m) h n"
  by (auto simp: heap_tells_def om_get_del split: if_splits)

lemma om_sum_nonneg: "(\<And>k r. 0 \<le> f k r) \<Longrightarrow> 0 \<le> om_sum f m"
  by (induction m) auto

section \<open>Removal\<close>

lemma store_remove_ok:
  assumes ok: "store_ok s"
  obtains s' where "store_remove k s = Some (om_get (so_map s) k \<noteq> None, s')" "store_ok s'"
    "so_map s' = om_del k (so_map s)" "so_heap s' = so_heap s" "so_loading s' = so_loading s"
    "so_aggressive s' = so_aggressive s"
proof (cases "om_get (so_map s) k")
  case None
  then show ?thesis using ok om_del_absent [OF None] by (intro that [of s]) (simp_all add: store_remove_def)
next
  case (Some r)
  from order.indexes_del [of "so_order s" "fst ` set (so_map s)" k] ok
  obtain i where i: "skip_delete cmpString cmpString (k, k) (so_order s) = Some (k \<in> fst ` set (so_map s), i)"
    "order.indexes i (fst ` set (so_map s) - {k})" by (auto simp: store_ok_def)
  define s' where "s' = s\<lparr>so_map := om_del k (so_map s), so_bytes := so_bytes s - int (record_size k r),
    so_expiring := so_expiring s - has_ttl r, so_order := i\<rparr>"
  have "store_ok s'"
    using ok i(2) Some om_sum_del [of "so_map s" "\<lambda>k r. int (record_size k r)" k] om_sum_del [of "so_map s" "\<lambda>k r. has_ttl r" k]
    by (auto simp: store_ok_def s'_def fst_om_del covers_del tells_del om_get_del split: if_splits)
  moreover have "store_remove k s = Some (True, s')" using Some i(1) by (simp add: store_remove_def s'_def)
  ultimately show ?thesis using that Some by (simp add: s'_def)
qed

lemma expireKey_ok:
  assumes "store_ok s" "om_get (so_map s) k = Some r"
  obtains s' where "expireKey k r s = Some ([(k, r)], s')" "store_ok s'"
    "so_map s' = om_del k (so_map s)" "so_heap s' = so_heap s" "so_loading s' = so_loading s"
    "so_aggressive s' = so_aggressive s"
proof -
  obtain s' where "store_remove k s = Some (om_get (so_map s) k \<noteq> None, s')" "store_ok s'"
    "so_map s' = om_del k (so_map s)" "so_heap s' = so_heap s" "so_loading s' = so_loading s"
    "so_aggressive s' = so_aggressive s" by (rule store_remove_ok [OF assms(1)])
  then show ?thesis using assms(2) by (intro that [of s']) (simp_all add: expireKey_def)
qed

section \<open>Writing\<close>

lemma rebuild_fold:
  assumes "heap_ok h"
  shows "heap_ok (fold (\<lambda>(k, r) h. if re_expireAt r \<noteq> 0 then heap_push (ttl_entry k r) h else h) m h) \<and>
    set (fold (\<lambda>(k, r) h. if re_expireAt r \<noteq> 0 then heap_push (ttl_entry k r) h else h) m h) =
      set h \<union> {ttl_entry k r | k r. (k, r) \<in> set m \<and> re_expireAt r \<noteq> 0}"
  using assms
proof (induction m arbitrary: h)
  case (Cons p m)
  obtain k r where p: "p = (k, r)" by (cases p)
  show ?case
  proof (cases "re_expireAt r \<noteq> 0")
    case True
    have "heap_ok (heap_push (ttl_entry k r) h)" "set (heap_push (ttl_entry k r) h) = insert (ttl_entry k r) (set h)"
      using ttl.push(2) [OF Cons.prems] ttl.push_all [OF Cons.prems] by simp_all
    with Cons.IH [of "heap_push (ttl_entry k r) h"] True show ?thesis by (auto simp: p)
  next
    case False
    with Cons show ?thesis by (auto simp: p)
  qed
qed simp

lemma rebuild_length:
  assumes "heap_ok h"
  shows "length (fold (\<lambda>(k, r) h. if re_expireAt r \<noteq> 0 then heap_push (ttl_entry k r) h else h) m h) \<le> length h + length m"
  using assms
proof (induction m arbitrary: h)
  case (Cons p m)
  have "size (mset (heap_push x h)) = Suc (length h)" for x using ttl.push(1) [OF Cons.prems] by simp
  then have "length (heap_push x h) = Suc (length h)" for x by simp
  then show ?case using Cons.IH [of "heap_push (ttl_entry (fst p) (snd p)) h"] Cons.IH [of h] ttl.push(2) [OF Cons.prems] Cons.prems
    by (cases p) auto
qed simp

lemma rebuildHeap_ok:
  assumes "store_ok s"
  shows "store_ok (rebuildHeap s)" "length (so_heap (rebuildHeap s)) \<le> length (so_map s)"
proof -
  have wf: "om_wf (so_map s)" using assms by (simp add: store_ok_def)
  have h: "heap_ok (so_heap (rebuildHeap s))"
    "set (so_heap (rebuildHeap s)) = {ttl_entry k r | k r. (k, r) \<in> set (so_map s) \<and> re_expireAt r \<noteq> 0}"
    using rebuild_fold [OF ttl.empty(2), of "so_map s"] by (simp_all add: rebuildHeap_def)
  have "heap_covers (so_map s) (so_heap (rebuildHeap s))"
    using om_mem [OF wf] by (auto simp: heap_covers_def h(2))
  moreover have "heap_tells (so_map s) (so_heap (rebuildHeap s)) (so_seq s)"
    using om_mem [OF wf] assms by (auto simp: heap_tells_def h(2) ttl_entry_def store_ok_def)
  ultimately show "store_ok (rebuildHeap s)" using assms h(1) by (simp add: store_ok_def rebuildHeap_def)
  show "length (so_heap (rebuildHeap s)) \<le> length (so_map s)"
    using rebuild_length [OF ttl.empty(2), of "so_map s"] by (simp add: rebuildHeap_def)
qed

lemma covers_set: "heap_covers m h \<Longrightarrow> re_expireAt r \<noteq> 0 \<longrightarrow> ttl_entry k r \<in> set h' \<Longrightarrow> set h \<subseteq> set h' \<Longrightarrow>
  heap_covers (om_set k r m) h'"
  by (auto simp: heap_covers_def)

lemma tells_set: "heap_tells m h n \<Longrightarrow> re_seq r = Suc n \<Longrightarrow> heap_tells (om_set k r m) h (Suc n)"
  by (force simp: heap_tells_def)

lemma tells_entry: "heap_tells m h n \<Longrightarrow> om_get m k = Some r \<Longrightarrow> re_seq r \<le> n \<Longrightarrow> set h' = insert (ttl_entry k r) (set h) \<Longrightarrow>
  heap_tells m h' n"
  by (auto simp: heap_tells_def ttl_entry_def)

lemma set_heap_push: "heap_ok h \<Longrightarrow> set (heap_push x h) = insert x (set h)"
  using ttl.push_all [of h x] by simp

lemma setRef_ok:
  fixes key ref e dt s
  defines "k \<equiv> toKStr key" and "r \<equiv> \<lparr>re_ref = ref, re_expireAt = e, re_seq = Suc (so_seq s), re_dt = dt\<rparr>"
  assumes ok: "store_ok s"
  obtains s' where "setRef draws key ref e dt s = Some s'" "store_ok s'" "so_map s' = om_set k r (so_map s)"
    "so_seq s' = Suc (so_seq s)" "so_loading s' = so_loading s" "so_aggressive s' = so_aggressive s"
    "e \<noteq> 0 \<longrightarrow> length (so_heap s') \<le> 2 * length (so_map s') + 64" "e = 0 \<longrightarrow> so_heap s' = so_heap s"
proof -
  let ?m = "so_map s"
  have wf: "om_wf ?m" using ok by (simp add: store_ok_def)
  obtain i where i: "(if om_get ?m k = None then skip_insert cmpString cmpString draws (k, k) (so_order s) else Some (so_order s)) = Some i"
    "order.indexes i (insert k (fst ` set ?m))"
  proof (cases "om_get ?m k = None")
    case True
    then have "k \<notin> fst ` set ?m" using om_keys [of k ?m] by simp
    then show ?thesis using order.indexes_ins [of "so_order s" "fst ` set ?m" k draws] ok that True by (auto simp: store_ok_def)
  next
    case False
    then have "insert k (fst ` set ?m) = fst ` set ?m" using om_keys [of k ?m] by auto
    then show ?thesis using that [of "so_order s"] ok False by (simp add: store_ok_def)
  qed
  define b where "b = so_bytes s - (case om_get ?m k of None \<Rightarrow> 0 | Some p \<Rightarrow> int (record_size k p)) + int (record_size k r)"
  define x where "x = so_expiring s - (case om_get ?m k of None \<Rightarrow> 0 | Some p \<Rightarrow> has_ttl p)"
  define s3 where "s3 = s\<lparr>so_seq := Suc (so_seq s), so_map := om_set k r ?m, so_bytes := b, so_expiring := x, so_order := i\<rparr>"
  define s4 where "s4 = s3\<lparr>so_expiring := x + 1, so_heap := heap_push (ttl_entry k r) (so_heap s)\<rparr>"
  have eq: "setRef draws key ref e dt s =
      Some (if e \<noteq> 0 then (if length (so_heap s4) > length (so_map s4) * 2 + 64 then rebuildHeap s4 else s4) else s3)"
    using i(1)
    by (cases "om_get ?m k")
       (simp_all add: setRef_def Let_def k_def r_def s4_def s3_def b_def x_def recordBytes_def)
  have bytes: "b = om_sum (\<lambda>k r. int (record_size k r)) (om_set k r ?m)"
    using ok om_sum_set [OF wf, of _ k r] om_sum_del [OF wf, of _ k] by (cases "om_get ?m k") (auto simp: store_ok_def b_def)
  have expg: "x + has_ttl r = om_sum (\<lambda>k r. has_ttl r) (om_set k r ?m)"
    using ok om_sum_set [OF wf, of "\<lambda>k r. has_ttl r" k r] om_sum_del [OF wf, of "\<lambda>k r. has_ttl r" k]
    by (cases "om_get ?m k") (auto simp: store_ok_def x_def)
  have tells: "heap_tells (om_set k r ?m) (so_heap s) (Suc (so_seq s))"
    using ok by (intro tells_set) (simp_all add: store_ok_def r_def)
  have cov: "heap_covers ?m (so_heap s)" and hk: "heap_ok (so_heap s)" using ok by (simp_all add: store_ok_def)
  have seqs: "om_get (om_set k r ?m) k' = Some r' \<Longrightarrow> re_seq r' \<le> Suc (so_seq s)" for k' r'
    using ok by (auto simp: store_ok_def r_def le_Suc_eq split: if_splits)
  have s3_ok: "store_ok s3" if "e = 0"
    using wf i(2) bytes expg hk tells seqs that covers_set [OF cov, of r k "so_heap s"]
    by (simp add: store_ok_def s3_def r_def)
  have s4_ok: "store_ok s4" if "e \<noteq> 0"
  proof -
    have "heap_covers (om_set k r ?m) (heap_push (ttl_entry k r) (so_heap s))"
      using covers_set [OF cov] by (simp add: set_heap_push [OF hk] subset_insertI)
    moreover have "heap_tells (om_set k r ?m) (heap_push (ttl_entry k r) (so_heap s)) (Suc (so_seq s))"
      using tells_entry [OF tells, of k r] by (simp add: set_heap_push [OF hk] r_def)
    ultimately show ?thesis
      using wf i(2) bytes expg seqs that ttl.push(2) [OF hk] by (simp add: store_ok_def s4_def s3_def r_def)
  qed
  show ?thesis
  proof (cases "e = 0")
    case True
    then show ?thesis using eq s3_ok by (intro that [of s3]) (simp_all add: s3_def)
  next
    case False
    show ?thesis
    proof (cases "length (so_heap s4) > length (so_map s4) * 2 + 64")
      case True
      have "length (so_heap (rebuildHeap s4)) \<le> 2 * length (so_map (rebuildHeap s4)) + 64"
        using rebuildHeap_ok(2) [OF s4_ok [OF False]] by (simp add: rebuildHeap_def)
      then show ?thesis using eq rebuildHeap_ok(1) [OF s4_ok [OF False]] True False
        by (intro that [of "rebuildHeap s4"]) (simp_all, simp_all add: rebuildHeap_def s4_def s3_def)
    next
      case f: False
      then show ?thesis using eq s4_ok False by (intro that [of s4]) (simp_all, simp_all add: s4_def s3_def)
    qed
  qed
qed

section \<open>Expiry\<close>

abbreviation kept :: "int \<Rightarrow> (string, store_record) omap \<Rightarrow> (string, store_record) omap" where
  "kept now m \<equiv> filter (\<lambda>(k, r). \<not> expired now r) m"

abbreviation lapsed :: "int \<Rightarrow> (string, store_record) omap \<Rightarrow> (string, store_record) omap" where
  "lapsed now m \<equiv> filter (\<lambda>(k, r). expired now r) m"

lemma store_heap_ok:
  assumes "store_ok s" "heap_ok h" "set h \<subseteq> set (so_heap s)" "heap_covers (so_map s) h"
  shows "store_ok (s\<lparr>so_heap := h\<rparr>)"
  using assms by (auto simp: store_ok_def heap_tells_def)

lemma remove_ignores_heap:
  assumes "store_remove k s = Some (b, s')"
  shows "store_remove k (s\<lparr>so_heap := h\<rparr>) = Some (b, s'\<lparr>so_heap := h\<rparr>)"
proof (cases "om_get (so_map s) k")
  case (Some r)
  obtain p where "skip_delete cmpString cmpString (k, k) (so_order s) = Some p"
    using assms Some by (auto simp: store_remove_def bind_eq_Some_conv)
  then show ?thesis using assms Some by (cases p) (simp add: store_remove_def, elim conjE, hypsubst, simp)
qed (use assms in \<open>simp add: store_remove_def\<close>)

lemma expireKey_ignores_heap:
  assumes "expireKey k r s = Some (calls, s')"
  shows "expireKey k r (s\<lparr>so_heap := h\<rparr>) = Some (calls, s'\<lparr>so_heap := h\<rparr>)"
proof -
  obtain b s1 where s1: "store_remove k s = Some (b, s1)" using assms by (cases "store_remove k s") (auto simp: expireKey_def)
  from remove_ignores_heap [OF this, of h] show ?thesis using assms by (simp add: expireKey_def s1)
qed

lemma kept_del: "om_wf m \<Longrightarrow> om_get m k = Some r \<Longrightarrow> expired now r \<Longrightarrow> kept now (om_del k m) = kept now m"
  unfolding om_del_def filter_filter by (intro filter_cong refl) (auto simp: om_mem)

lemma lapsed_del: "om_wf m \<Longrightarrow> om_get m k = Some r \<Longrightarrow> expired now r \<Longrightarrow>
  set (lapsed now m) = insert (k, r) (set (lapsed now (om_del k m))) \<and> (k, r) \<notin> set (lapsed now (om_del k m))"
  by (auto simp: om_del_def om_mem)

lemma lapsed_none:
  assumes ok: "store_ok s" and top: "due_top now s = None"
  shows "lapsed now (so_map s) = []"
proof -
  have ahead: "\<forall>e \<in> set (so_heap s). now < he_t e"
  proof (cases "heap_peek (so_heap s)")
    case None
    then show ?thesis by (auto simp: heap_peek_def split: list.splits)
  next
    case (Some e)
    then show ?thesis using top ok ttl.due_all [of "so_heap s" e now] by (auto simp: due_top_def store_ok_def split: if_splits)
  qed
  have "\<not> expired now r" if "(k, r) \<in> set (so_map s)" for k r
  proof
    assume "expired now r"
    moreover have "heap_covers (so_map s) (so_heap s)" "om_get (so_map s) k = Some r"
      using that ok by (simp_all add: store_ok_def om_mem)
    ultimately have "ttl_entry k r \<in> set (so_heap s)" "he_t (ttl_entry k r) \<le> now"
      by (simp_all add: heap_covers_def expired_def ttl_entry_def)
    then show False using ahead by auto
  qed
  then show ?thesis by (auto simp: filter_empty_conv)
qed

lemma kept_all: "lapsed now m = [] \<Longrightarrow> kept now m = m"
  unfolding filter_empty_conv by (rule filter_True) auto

lemma pop_due_ok:
  assumes ok: "store_ok s" and top: "due_top now s = Some e"
  obtains s' calls hit where "pop_due now e s = Some (hit, calls, s')" "store_ok s'"
    "kept now (so_map s') = kept now (so_map s)" "set (lapsed now (so_map s)) = set calls \<union> set (lapsed now (so_map s'))"
    "distinct calls" "set calls \<inter> set (lapsed now (so_map s')) = {}" "length calls = (if hit then 1 else 0)"
    "so_loading s' = so_loading s" "so_aggressive s' = so_aggressive s"
proof -
  let ?h = "snd (heap_pop (so_heap s))"
  have wf: "om_wf (so_map s)" and hk: "heap_ok (so_heap s)" and cov: "heap_covers (so_map s) (so_heap s)"
    using ok by (simp_all add: store_ok_def)
  have pk: "heap_peek (so_heap s) = Some e" "he_t e \<le> now" using top by (auto simp: due_top_def split: option.splits if_splits)
  have m: "mset ?h = mset (so_heap s) - {#e#}" by (rule ttl.pop(2) [OF hk pk(1)])
  have sub: "set ?h \<subseteq> set (so_heap s)" unfolding set_mset_mset [symmetric] m by (auto dest: in_diffD)
  have rest: "x \<in> set ?h" if "x \<in> set (so_heap s)" "x \<noteq> e" for x
  proof -
    have "x \<in># mset (so_heap s) - {#e#}" using that by (simp add: in_diff_count)
    then show ?thesis unfolding m [symmetric] by simp
  qed
  have ho: "heap_ok ?h" by (rule ttl.pop(3) [OF hk])
  show ?thesis
  proof (cases "due_record now e s")
    case None
    have "heap_covers (so_map s) ?h"
      unfolding heap_covers_def
    proof (intro allI impI)
      fix k r assume r: "om_get (so_map s) k = Some r" "re_expireAt r \<noteq> 0"
      then have "ttl_entry k r \<in> set (so_heap s)" using cov by (simp add: heap_covers_def)
      moreover have "ttl_entry k r \<noteq> e"
        using None pk(2) r by (auto simp: due_record_def expired_def ttl_entry_def)
      ultimately show "ttl_entry k r \<in> set ?h" by (rule rest)
    qed
    then have "store_ok (s\<lparr>so_heap := ?h\<rparr>)" by (rule store_heap_ok [OF ok ho sub])
    moreover have "pop_due now e s = Some (False, [], s\<lparr>so_heap := ?h\<rparr>)"
      using None by (simp add: pop_due_def due_record_def)
    ultimately show ?thesis by (intro that [of False "[]" "s\<lparr>so_heap := ?h\<rparr>"]) simp_all
  next
    case (Some r)
    then have r: "om_get (so_map s) (he_k e) = Some r" "expired now r" by (auto simp: due_record_def split: option.splits if_splits)
    obtain s' where s': "expireKey (he_k e) r s = Some ([(he_k e, r)], s')" "store_ok s'"
      "so_map s' = om_del (he_k e) (so_map s)" "so_heap s' = so_heap s" "so_loading s' = so_loading s"
      "so_aggressive s' = so_aggressive s" by (rule expireKey_ok [OF ok r(1)])
    have "heap_covers (so_map s') ?h"
      unfolding heap_covers_def
    proof (intro allI impI)
      fix k r' assume r': "om_get (so_map s') k = Some r'" "re_expireAt r' \<noteq> 0"
      then have "ttl_entry k r' \<in> set (so_heap s)" "k \<noteq> he_k e"
        using cov by (auto simp: heap_covers_def s'(3) om_get_del split: if_splits)
      then show "ttl_entry k r' \<in> set ?h" by (intro rest) (auto simp: ttl_entry_def)
    qed
    then have "store_ok (s'\<lparr>so_heap := ?h\<rparr>)" using s'(2,4) ho sub by (intro store_heap_ok) auto
    moreover have "pop_due now e s = Some (True, [(he_k e, r)], s'\<lparr>so_heap := ?h\<rparr>)"
      using Some expireKey_ignores_heap [OF s'(1), of ?h] by (simp add: pop_due_def due_record_def)
    ultimately show ?thesis
      using s' kept_del [OF wf r] lapsed_del [OF wf r] by (intro that [of True "[(he_k e, r)]" "s'\<lparr>so_heap := ?h\<rparr>"]) simp_all
  qed
qed

lemma reap_loop_ok:
  "store_ok s \<Longrightarrow> \<exists>calls s'. reap_loop now n s = Some (n + length calls, calls, s') \<and> store_ok s' \<and>
     so_map s' = kept now (so_map s) \<and> set calls = set (lapsed now (so_map s)) \<and> distinct calls \<and> so_loading s' = so_loading s"
proof (induction now n s rule: reap_loop.induct)
  case (1 now n s)
  note u = reap_loop.simps [of now n s]
  show ?case
  proof (cases "due_top now s")
    case None
    then show ?thesis using lapsed_none [OF 1(2) None] kept_all 1(2) by (simp add: u)
  next
    case (Some e)
    obtain s1 cs hit where p: "pop_due now e s = Some (hit, cs, s1)" "store_ok s1"
      "kept now (so_map s1) = kept now (so_map s)" "set (lapsed now (so_map s)) = set cs \<union> set (lapsed now (so_map s1))"
      "distinct cs" "set cs \<inter> set (lapsed now (so_map s1)) = {}" "length cs = (if hit then 1 else 0)"
      "so_loading s1 = so_loading s" by (rule pop_due_ok [OF 1(2) Some])
    from 1(1) [OF Some p(1) refl refl p(2)] obtain cs' s' where q:
      "reap_loop now (if hit then Suc n else n) s1 = Some ((if hit then Suc n else n) + length cs', cs', s')" "store_ok s'"
      "so_map s' = kept now (so_map s1)" "set cs' = set (lapsed now (so_map s1))" "distinct cs'" "so_loading s' = so_loading s1" by blast
    have "reap_loop now n s = Some (n + length (cs @ cs'), cs @ cs', s')" using Some p(1,7) q(1) by (simp add: u)
    moreover have "distinct (cs @ cs')" using p(5,6) q(4,5) by simp
    moreover have "set (cs @ cs') = set (lapsed now (so_map s))" using p(4) q(4) by simp
    ultimately show ?thesis using p(3,8) q(2,3,6) by (intro exI [of _ "cs @ cs'"] exI [of _ s']) simp
  qed
qed

end
