(* ===== verification/Store_Expiry.thy ===== *)
theory Store_Expiry imports Store_Proofs begin

text \<open>
  Expiry in the store: the reapers remove the lapsed records and nothing else, the tick is silent while a load runs, the
  reads answer as if a lapsed record were not there, and the walks visit the keys of their range in order.
\<close>

section \<open>The full scan\<close>

lemma expire_all_ok:
  "store_ok t \<Longrightarrow> distinct L \<Longrightarrow> set L \<subseteq> set (so_map t) \<Longrightarrow>
   \<exists>t'. fold (\<lambda>(k, r) acc. do {
         (n, calls, t) \<leftarrow> acc;
         if expired now r then do { (calls', t') \<leftarrow> expireKey k r t; Some (Suc n, calls @ calls', t') } else acc
       }) L (Some (n, calls, t)) = Some (n + length (lapsed now L), calls @ lapsed now L, t') \<and> store_ok t' \<and>
     so_map t' = filter (\<lambda>p. p \<notin> set (lapsed now L)) (so_map t)"
proof (induction L arbitrary: n calls t)
  case (Cons p L)
  obtain k r where p: "p = (k, r)" by (cases p)
  have wf: "om_wf (so_map t)" using Cons.prems(1) by (simp add: store_ok_def)
  have get: "om_get (so_map t) k = Some r" using Cons.prems(3) om_mem [OF wf] by (simp add: p)
  show ?case
  proof (cases "expired now r")
    case True
    obtain t1 where t1: "expireKey k r t = Some ([(k, r)], t1)" "store_ok t1" "so_map t1 = om_del k (so_map t)"
      by (rule expireKey_ok [OF Cons.prems(1) get])
    have del: "om_del k (so_map t) = filter (\<lambda>q. q \<noteq> (k, r)) (so_map t)"
      unfolding om_del_def using get om_mem [OF wf] by (intro filter_cong refl) auto
    have "set L \<subseteq> set (so_map t1)" using Cons.prems(2,3) by (auto simp: t1(3) del p)
    from Cons.IH [OF t1(2) _ this, of "Suc n" "calls @ [(k, r)]"] Cons.prems(2)
    obtain t' where "fold (\<lambda>(k, r) acc. do {
         (n, calls, t) \<leftarrow> acc;
         if expired now r then do { (calls', t') \<leftarrow> expireKey k r t; Some (Suc n, calls @ calls', t') } else acc
       }) L (Some (Suc n, calls @ [(k, r)], t1)) = Some (Suc n + length (lapsed now L), (calls @ [(k, r)]) @ lapsed now L, t')"
      "store_ok t'" "so_map t' = filter (\<lambda>p. p \<notin> set (lapsed now L)) (so_map t1)" by auto
    moreover have "filter (\<lambda>p. p \<notin> set (lapsed now L)) (so_map t1) = filter (\<lambda>q. q \<notin> set (lapsed now (p # L))) (so_map t)"
      using True by (simp add: p t1(3) del)
    ultimately show ?thesis using True t1(1) by (intro exI [of _ t']) (simp add: p)
  next
    case False
    with Cons.IH [of t n calls] Cons.prems show ?thesis by (simp add: p)
  qed
qed simp

lemma reapExpired_ok:
  assumes ok: "store_ok s"
  obtains s' where "reapExpired now s = Some (length (lapsed now (so_map s)), lapsed now (so_map s), s')" "store_ok s'"
    "so_map s' = kept now (so_map s)"
proof -
  have "distinct (so_map s)" using ok by (simp add: store_ok_def om_wf_def distinct_map)
  from expire_all_ok [OF ok this subset_refl, of now 0 "[]"] obtain s' where
    "reapExpired now s = Some (length (lapsed now (so_map s)), lapsed now (so_map s), s')" "store_ok s'"
    "so_map s' = filter (\<lambda>p. p \<notin> set (lapsed now (so_map s))) (so_map s)" by (auto simp: reapExpired_def)
  moreover have "filter (\<lambda>p. p \<notin> set (lapsed now (so_map s))) (so_map s) = kept now (so_map s)" by (rule filter_cong) auto
  ultimately show ?thesis using that by simp
qed

section \<open>The due entries\<close>

lemma om_sum_zero: "(\<And>k r. (k, r) \<in> set m \<Longrightarrow> f k r = 0) \<Longrightarrow> om_sum f m = 0"
  by (induction m) auto

lemma no_heap_no_expiry:
  assumes "store_ok s" "so_heap s = []"
  shows "so_expiring s = 0"
proof -
  have "re_expireAt r = 0" if "(k, r) \<in> set (so_map s)" for k r
    using assms that om_mem [of "so_map s" k r] by (force simp: store_ok_def heap_covers_def)
  then have "om_sum (\<lambda>k r. has_ttl r) (so_map s) = 0" by (intro om_sum_zero) auto
  then show ?thesis using assms(1) by (simp add: store_ok_def)
qed

lemma reapExpiredDue_ok:
  assumes ok: "store_ok s"
  obtains calls s' where "reapExpiredDue now now' s = Some (length calls, calls, s')" "store_ok s'"
    "so_map s' = kept now (so_map s)" "set calls = set (lapsed now (so_map s))" "distinct calls" "so_loading s' = so_loading s"
proof -
  obtain calls s' where r: "reap_loop now 0 s = Some (length calls, calls, s')" "store_ok s'" "so_map s' = kept now (so_map s)"
    "set calls = set (lapsed now (so_map s))" "distinct calls" "so_loading s' = so_loading s"
    using reap_loop_ok [OF ok, of now 0] by auto
  have no: "(0 < so_expiring s' \<and> so_heap s' = []) = False" using no_heap_no_expiry [OF r(2)] by auto
  have "reapExpiredDue now now' s = Some (length calls, calls, s')" by (simp only: reapExpiredDue_def r(1) bind.bind_lunit split no if_False)
  then show ?thesis using r by (intro that)
qed

section \<open>A tick\<close>

text \<open>A tick removes lapsed records only.\<close>

lemma active_loop_ok:
  "store_ok s \<Longrightarrow> \<exists>m calls s'. active_loop clock c mp dl now n reaped s = Some (m, calls, s') \<and> store_ok s' \<and>
     kept now (so_map s') = kept now (so_map s) \<and> set calls \<subseteq> set (lapsed now (so_map s)) \<and> so_loading s' = so_loading s \<and>
     (n + length (so_heap s) \<le> mp \<longrightarrow> lapsed now (so_map s') = [])"
proof (induction clock c mp dl now n reaped s rule: active_loop.induct)
  case (1 clock c mp dl now n reaped s)
  note u = active_loop.simps [of clock c mp dl now n reaped s]
  show ?case
  proof (cases "due_top now s")
    case None
    then show ?thesis using 1(2) lapsed_none [OF 1(2) None] by (simp add: u)
  next
    case (Some e)
    show ?thesis
    proof (cases "(mp \<le> n \<and> n mod 16 = 0) \<and> dl \<le> clock c")
      case True
      then have "active_loop clock c mp dl now n reaped s = Some (reaped, [], s)" using Some by (simp add: u)
      moreover have "\<not> n + length (so_heap s) \<le> mp" using True Some by (auto simp: due_top_def heap_peek_def split: list.splits)
      ultimately show ?thesis using 1(2) by (intro exI [of _ reaped] exI [of _ "[]"] exI [of _ s]) simp
    next
      case False
      obtain s1 cs hit where p: "pop_due now e s = Some (hit, cs, s1)" "store_ok s1"
        "kept now (so_map s1) = kept now (so_map s)" "set (lapsed now (so_map s)) = set cs \<union> set (lapsed now (so_map s1))"
        "distinct cs" "set cs \<inter> set (lapsed now (so_map s1)) = {}" "length cs = (if hit then 1 else 0)"
        "so_loading s1 = so_loading s" by (rule pop_due_ok [OF 1(2) Some])
      from 1(1) [OF Some refl False p(1) refl refl p(2)] obtain m cs' s' where q:
        "active_loop clock (if mp \<le> n \<and> n mod 16 = 0 then Suc c else c) mp dl now (Suc n) (if hit then Suc reaped else reaped) s1 =
           Some (m, cs', s')" "store_ok s'" "kept now (so_map s') = kept now (so_map s1)"
        "set cs' \<subseteq> set (lapsed now (so_map s1))" "so_loading s' = so_loading s1"
        "Suc n + length (so_heap s1) \<le> mp \<longrightarrow> lapsed now (so_map s') = []" by blast
      have "active_loop clock c mp dl now n reaped s = Some (m, cs @ cs', s')"
        using Some p(1) False q(1) by (simp only: u Let_def option.simps if_False bind.bind_lunit split)
      moreover have "length (so_heap s1) < length (so_heap s)"
        using pop_due_heap [OF p(1)] heap_pop_shorter [of "so_heap s" e] Some by (auto simp: due_top_def split: option.splits if_splits)
      ultimately show ?thesis using p(3,4,8) q(2-6) by (intro exI [of _ m] exI [of _ "cs @ cs'"] exI [of _ s']) auto
    qed
  qed
qed

lemma activeExpire_ok:
  assumes ok: "store_ok s"
  obtains calls s' where "activeExpire clock mp budget s = Some (calls, s')" "store_ok s'"
    "kept (clock 0) (so_map s') = kept (clock 0) (so_map s)" "set calls \<subseteq> set (lapsed (clock 0) (so_map s))"
    "so_loading s' = so_loading s" "so_loading s \<longrightarrow> s' = s"
    "\<not> so_loading s \<longrightarrow> length (so_heap s) \<le> mp \<longrightarrow> lapsed (clock 0) (so_map s') = []"
proof (cases "so_loading s")
  case True
  then show ?thesis using ok by (intro that [of "[]" s]) (simp_all add: activeExpire_def)
next
  case False
  define dl where "dl = clock 0 + (if so_aggressive s then max budget 10 else budget)"
  obtain m calls s1 where a: "active_loop clock 1 mp dl (clock 0) 0 0 s = Some (m, calls, s1)" "store_ok s1"
    "kept (clock 0) (so_map s1) = kept (clock 0) (so_map s)" "set calls \<subseteq> set (lapsed (clock 0) (so_map s))"
    "so_loading s1 = so_loading s" "0 + length (so_heap s) \<le> mp \<longrightarrow> lapsed (clock 0) (so_map s1) = []"
    using active_loop_ok [OF ok, of clock 1 mp dl "clock 0" 0 0] by blast
  have "store_ok (s1\<lparr>so_aggressive := mp \<le> m\<rparr>)" using a(2) by (simp add: store_ok_def)
  moreover have "activeExpire clock mp budget s = Some (calls, s1\<lparr>so_aggressive := mp \<le> m\<rparr>)"
    using False a(1) by (simp add: activeExpire_def Let_def dl_def)
  ultimately show ?thesis using a(3-6) False by (intro that [of calls "s1\<lparr>so_aggressive := mp \<le> m\<rparr>"]) simp_all
qed

section \<open>Reading\<close>

text \<open>What a reader at time \<open>now\<close> is to see.\<close>

definition view :: "int \<Rightarrow> (string, store_record) omap \<Rightarrow> string \<Rightarrow> store_record option" where
  "view now m k = (case om_get m k of None \<Rightarrow> None | Some r \<Rightarrow> if expired now r then None else Some r)"

lemma expired_mono: "expired now r \<Longrightarrow> now \<le> later \<Longrightarrow> expired later r"
  by (auto simp: expired_def)

lemma view_kept: "om_wf m \<Longrightarrow> view now m k = om_get (kept now m) k"
proof (induction m)
  case (Cons p m)
  obtain k' r where p: "p = (k', r)" by (cases p)
  have "om_get (kept now m) k' = None" using Cons.prems by (auto simp: om_wf_def p map_of_eq_None_iff)
  then show ?case using Cons by (auto simp: p view_def om_wf_def)
qed (simp add: view_def)

lemma view_later:
  assumes "om_wf m" "om_wf m'" "kept now m' = kept now m" "now \<le> later"
  shows "view later m' = view later m"
proof
  fix k
  have "view later m k = (case view now m k of None \<Rightarrow> None | Some r \<Rightarrow> if expired later r then None else Some r)" for m
    using expired_mono [OF _ assms(4)] by (auto simp: view_def split: option.splits)
  then show "view later m' k = view later m k" using view_kept assms(1-3) by metis
qed

lemma view_del: "view now (om_del k m) = (view now m)(k := None)"
  by (auto simp: view_def om_get_del)

lemma view_set: "view now (om_set k r m) = (view now m)(k := if expired now r then None else Some r)"
  by (auto simp: view_def)

text \<open>A look-up of a lapsed record removes it and answers as if it were not there.\<close>

lemma expireKey_kept:
  assumes ok: "store_ok s" and r: "om_get (so_map s) k = Some r" "expired now r"
  obtains s' where "expireKey k r s = Some ([(k, r)], s')" "store_ok s'" "kept now (so_map s') = kept now (so_map s)"
    "so_map s' = om_del k (so_map s)"
proof -
  obtain s' where "expireKey k r s = Some ([(k, r)], s')" "store_ok s'" "so_map s' = om_del k (so_map s)"
    by (rule expireKey_ok [OF ok r(1)])
  then show ?thesis using kept_del [OF _ r] ok by (intro that) (auto simp: store_ok_def)
qed

lemma getRecord_ok:
  assumes ok: "store_ok s"
  obtains calls s' where "getRecord now k s = Some (view now (so_map s) k, calls, s')" "store_ok s'"
    "kept now (so_map s') = kept now (so_map s)" "\<forall>k'. k' \<noteq> k \<longrightarrow> om_get (so_map s') k' = om_get (so_map s) k'"
    "om_get (so_map s') k = view now (so_map s) k"
    "calls = (case om_get (so_map s) k of None \<Rightarrow> [] | Some r \<Rightarrow> if expired now r then [(k, r)] else [])"
proof (cases "om_get (so_map s) k")
  case None
  then show ?thesis using ok by (intro that [of "[]" s]) (simp_all add: getRecord_def view_def)
next
  case (Some r)
  show ?thesis
  proof (cases "expired now r")
    case True
    obtain s' where "expireKey k r s = Some ([(k, r)], s')" "store_ok s'" "kept now (so_map s') = kept now (so_map s)"
      "so_map s' = om_del k (so_map s)" by (rule expireKey_kept [OF ok Some True])
    then show ?thesis using Some True
      by (intro that [of "[(k, r)]" s']) (simp_all add: getRecord_def view_def om_get_del)
  next
    case False
    then show ?thesis using ok Some by (intro that [of "[]" s]) (simp_all add: getRecord_def view_def)
  qed
qed

text \<open>The three reads share their expiry.\<close>

lemma has_is_getRecord:
  "store_has now key s = (case getRecord now (toKStr key) s of None \<Rightarrow> None | Some (r, calls, s') \<Rightarrow> Some (r \<noteq> None, calls, s'))"
  by (auto simp: store_has_def getRecord_def split: option.splits Option.bind_split)

lemma get_is_getRecord:
  "store_get reader now key s = (case getRecord now (toKStr key) s of None \<Rightarrow> None
     | Some (r, calls, s') \<Rightarrow> Some (case r of None \<Rightarrow> Inr None | Some r \<Rightarrow> ebind (materialize reader (re_ref r)) (\<lambda>v. Inr (Some v)), calls, s'))"
  by (auto simp: store_get_def getRecord_def split: option.splits Option.bind_split)

end
