(* ===== verification/Store_Refine.thy ===== *)
theory Store_Refine imports Store_Expiry begin

text \<open>
  The store against its contract: a sorted table in which nothing ever expires by itself and a reader simply does not see
  what has lapsed. Reaping, ticks, lazy removal and heap rebuilds change no answer.
\<close>

section \<open>Walking a range\<close>

fun seen :: "(nat \<Rightarrow> int) \<Rightarrow> (string, store_record) omap \<Rightarrow> string list \<Rightarrow> (string \<times> store_record) list" where
  "seen clock m [] = []"
| "seen clock m (k # ks) =
     (case view (clock 0) m k of None \<Rightarrow> [] | Some r \<Rightarrow> [(k, r)]) @ seen (\<lambda>n. clock (Suc n)) m ks"

lemma seen_cong: "(\<And>k. k \<in> set ks \<Longrightarrow> om_get m k = om_get m' k) \<Longrightarrow> seen clock m ks = seen clock m' ks"
proof (induction ks arbitrary: clock)
  case (Cons k ks)
  have "view (clock 0) m k = view (clock 0) m' k" using Cons.prems by (simp add: view_def)
  with Cons show ?case by simp
qed simp

lemma visit_ok:
  "store_ok s \<Longrightarrow> distinct ks \<Longrightarrow> \<exists>calls s'. visit f clock ks s = Some (emap f (seen clock (so_map s) ks), calls, s') \<and>
     store_ok s' \<and> (\<forall>T. (\<forall>i. clock i \<le> T) \<longrightarrow> view T (so_map s') = view T (so_map s))"
proof (induction f clock ks s rule: visit.induct)
  case (2 f clock k ks s)
  obtain calls s1 where g: "getRecord (clock 0) k s = Some (view (clock 0) (so_map s) k, calls, s1)" "store_ok s1"
    "kept (clock 0) (so_map s1) = kept (clock 0) (so_map s)"
    "\<forall>k'. k' \<noteq> k \<longrightarrow> om_get (so_map s1) k' = om_get (so_map s) k'"
    "om_get (so_map s1) k = view (clock 0) (so_map s) k"
    "calls = (case om_get (so_map s) k of None \<Rightarrow> [] | Some r \<Rightarrow> if expired (clock 0) r then [(k, r)] else [])"
    by (rule getRecord_ok [OF 2(3), of "clock 0" k])
  have later: "view T (so_map s1) = view T (so_map s)" if "\<forall>i. clock i \<le> T" for T
    using 2(3) g(2,3) that by (intro view_later [of _ _ "clock 0"]) (auto simp: store_ok_def)
  have same: "seen (\<lambda>n. clock (Suc n)) (so_map s1) ks = seen (\<lambda>n. clock (Suc n)) (so_map s) ks"
    using 2(4) g(4) by (intro seen_cong) auto
  show ?case
  proof (cases "view (clock 0) (so_map s) k")
    case None
    obtain calls' s2 where "visit f (\<lambda>n. clock (Suc n)) ks s1 = Some (emap f (seen (\<lambda>n. clock (Suc n)) (so_map s1) ks), calls', s2)"
      "store_ok s2" "\<forall>T. (\<forall>i. clock (Suc i) \<le> T) \<longrightarrow> view T (so_map s2) = view T (so_map s1)"
      using 2(1) [OF g(1) refl refl None g(2)] 2(4) by auto
    then show ?thesis using g(1) None later same by simp
  next
    case (Some r)
    show ?thesis
    proof (cases "f (k, r)")
      case (Inl e)
      then show ?thesis using g(1,2) Some later by simp
    next
      case (Inr y)
      obtain calls' s2 where "visit f (\<lambda>n. clock (Suc n)) ks s1 = Some (emap f (seen (\<lambda>n. clock (Suc n)) (so_map s1) ks), calls', s2)"
        "store_ok s2" "\<forall>T. (\<forall>i. clock (Suc i) \<le> T) \<longrightarrow> view T (so_map s2) = view T (so_map s1)"
        using 2(2) [OF g(1) refl refl Some Inr g(2)] 2(4) by auto
      then show ?thesis using g(1) Some Inr later same by simp
    qed
  qed
qed simp

lemma seen_now: "seen (\<lambda>_. now) m ks = map (\<lambda>k. (k, the (view now m k))) (filter (\<lambda>k. view now m k \<noteq> None) ks)"
  by (induction ks) (auto split: option.splits)

section \<open>Operations and their answers\<close>

datatype store_op =
    SetOp "nat \<Rightarrow> rat" db_key value_ref int "dt_columns option"
  | DelOp db_key
  | GetOp db_key
  | HasOp db_key
  | ScanOp "string range_options"
  | EntriesOp
  | ReapOp int
  | FullReapOp
  | TickOp "nat \<Rightarrow> int" nat int

datatype answer =
    Done
  | Deleted bool
  | Value "store_error + buffer option"
  | Present bool
  | Entries "store_error + store_entry list"
  | Reaped nat

text \<open>One operation at one instant: every reading of the clock it makes gives the same time, but for the pauses of a tick.\<close>

fun run_op :: "(value_loc \<Rightarrow> store_error + buffer) option \<Rightarrow> int \<Rightarrow> store_op \<Rightarrow> store \<Rightarrow> (answer \<times> store) option" where
  "run_op reader now (SetOp draws key ref e dt) s = do { s' \<leftarrow> setRef draws key ref e dt s; Some (Done, s') }"
| "run_op reader now (DelOp key) s = do { (b, s') \<leftarrow> store_del key s; Some (Deleted b, s') }"
| "run_op reader now (GetOp key) s = do { (v, _, s') \<leftarrow> store_get reader now key s; Some (Value v, s') }"
| "run_op reader now (HasOp key) s = do { (b, _, s') \<leftarrow> store_has now key s; Some (Present b, s') }"
| "run_op reader now (ScanOp opts) s = do { (es, _, s') \<leftarrow> store_scan reader (\<lambda>_. now) opts s; Some (Entries es, s') }"
| "run_op reader now EntriesOp s = Some (Entries (store_entries reader now s), s)"
| "run_op reader now (ReapOp now') s = do { (n, _, s') \<leftarrow> reapExpiredDue now now' s; Some (Reaped n, s') }"
| "run_op reader now FullReapOp s = do { (n, _, s') \<leftarrow> reapExpired now s; Some (Reaped n, s') }"
| "run_op reader now (TickOp later mp budget) s =
     do { (_, s') \<leftarrow> activeExpire (\<lambda>n. if n = 0 then now else later n) mp budget s; Some (Done, s') }"

fun run_ops :: "(value_loc \<Rightarrow> store_error + buffer) option \<Rightarrow> (int \<times> store_op) list \<Rightarrow> store \<Rightarrow> (answer list \<times> store) option" where
  "run_ops reader [] s = Some ([], s)"
| "run_ops reader ((now, p) # ps) s =
     do { (a, s1) \<leftarrow> run_op reader now p s; (as, s2) \<leftarrow> run_ops reader ps s1; Some (a # as, s2) }"

text \<open>The contract: a table sorted by key of what was set.\<close>

record spec_record =
  sp_ref :: value_ref
  sp_expireAt :: int
  sp_dt :: "dt_columns option"

type_synonym table = "(string \<times> spec_record) list"

fun table_put :: "string \<Rightarrow> spec_record \<Rightarrow> table \<Rightarrow> table" where
  "table_put k v [] = [(k, v)]"
| "table_put k v ((k', v') # t) =
     (if str_less k' k then (k', v') # table_put k v t else if k' = k then (k, v) # t else (k, v) # (k', v') # t)"

definition shown :: "int \<Rightarrow> table \<Rightarrow> string \<Rightarrow> spec_record option" where
  "shown now t k =
     (case map_of t k of
        None \<Rightarrow> None
      | Some v \<Rightarrow> if sp_expireAt v \<noteq> 0 \<and> sp_expireAt v \<le> now then None else Some v)"

definition table_entry :: "(value_loc \<Rightarrow> store_error + buffer) option \<Rightarrow> string \<times> spec_record \<Rightarrow> store_error + store_entry" where
  "table_entry reader = (\<lambda>(k, v).
     ebind (materialize reader (sp_ref v)) (\<lambda>x.
       Inr \<lparr>se_key = fromKStr k, se_value = x, se_expireAt = sp_expireAt v, se_dt = sp_dt v\<rparr>))"

text \<open>What an operation does to the table: a write puts its record, a deletion drops it, nothing else changes it.\<close>

fun table_after :: "store_op \<Rightarrow> table \<Rightarrow> table" where
  "table_after (SetOp draws key ref e dt) t = table_put (toKStr key) \<lparr>sp_ref = ref, sp_expireAt = e, sp_dt = dt\<rparr> t"
| "table_after (DelOp key) t = om_del (toKStr key) t"
| "table_after _ t = t"

definition shown_entries ::
    "(value_loc \<Rightarrow> store_error + buffer) option \<Rightarrow> int \<Rightarrow> table \<Rightarrow> string list \<Rightarrow> store_error + store_entry list" where
  "shown_entries reader now t ks = emap (table_entry reader) (map (\<lambda>k. (k, the (shown now t k))) ks)"

definition shown_keys :: "int \<Rightarrow> table \<Rightarrow> string list" where
  "shown_keys now t = filter (\<lambda>k. shown now t k \<noteq> None) (map fst t)"

text \<open>
  The answers an operation may give. A deletion says true if the record is shown and false if there is none; for a lapsed
  one it may say either. A page of a scan is cut out of a list of keys that has all the shown ones and may have
  lapsed ones, and shows what is shown of it; a scan without offset and count is exactly the shown part of its range. The
  order of \<open>entries\<close> is left open, and how many of the lapsed records a reaping still finds.
\<close>

fun fits :: "(value_loc \<Rightarrow> store_error + buffer) option \<Rightarrow> int \<Rightarrow> table \<Rightarrow> store_op \<Rightarrow> answer \<Rightarrow> bool" where
  "fits reader now t (SetOp draws key ref e dt) a = (a = Done)"
| "fits reader now t (DelOp key) a =
     (\<exists>b. a = Deleted b \<and> (shown now t (toKStr key) \<noteq> None \<longrightarrow> b) \<and> (b \<longrightarrow> toKStr key \<in> fst ` set t))"
| "fits reader now t (GetOp key) a =
     (a = Value (case shown now t (toKStr key) of
        None \<Rightarrow> Inr None
      | Some v \<Rightarrow> ebind (materialize reader (sp_ref v)) (\<lambda>x. Inr (Some x))))"
| "fits reader now t (HasOp key) a = (a = Present (shown now t (toKStr key) \<noteq> None))"
| "fits reader now t (ScanOp opts) a =
     (\<exists>ks. sorted_wrt str_less ks \<and> set (shown_keys now t) \<subseteq> set ks \<and> set ks \<subseteq> fst ` set t \<and>
        (r_offset opts = None \<and> r_count opts = None \<longrightarrow> ks = shown_keys now t) \<and>
        a = Entries (shown_entries reader now t
          (filter (\<lambda>k. shown now t k \<noteq> None) (map fst (range_page cmpString opts (map (\<lambda>k. (k, k)) ks))))))"
| "fits reader now t EntriesOp a =
     (\<exists>ks. distinct ks \<and> set ks = set (shown_keys now t) \<and> a = Entries (shown_entries reader now t ks))"
| "fits reader now t (ReapOp now') a = (\<exists>n \<le> length t - length (shown_keys now t). a = Reaped n)"
| "fits reader now t FullReapOp a = (\<exists>n \<le> length t - length (shown_keys now t). a = Reaped n)"
| "fits reader now t (TickOp later mp budget) a = (a = Done)"

fun all_fit :: "(value_loc \<Rightarrow> store_error + buffer) option \<Rightarrow> table \<Rightarrow> (int \<times> store_op) list \<Rightarrow> answer list \<Rightarrow> bool" where
  "all_fit reader t [] as = (as = [])"
| "all_fit reader t ((now, p) # ps) as =
     (case as of [] \<Rightarrow> False | a # as' \<Rightarrow> fits reader now t p a \<and> all_fit reader (table_after p t) ps as')"

section \<open>The store meets the contract\<close>

definition strip :: "store_record \<Rightarrow> spec_record" where
  "strip r = \<lparr>sp_ref = re_ref r, sp_expireAt = re_expireAt r, sp_dt = re_dt r\<rparr>"

definition map_keys :: "store \<Rightarrow> string set" where
  "map_keys s = fst ` set (so_map s)"

definition meets :: "int \<Rightarrow> store \<Rightarrow> table \<Rightarrow> bool" where
  "meets now s t \<longleftrightarrow> store_ok s \<and> sorted_wrt str_less (map fst t) \<and> (\<forall>k. map_option strip (view now (so_map s) k) = shown now t k) \<and>
     map_keys s \<subseteq> fst ` set t"

lemma meets_later: "meets now s t \<Longrightarrow> now \<le> later \<Longrightarrow> meets later s t"
  unfolding meets_def
proof (elim conjE, intro conjI allI, simp_all only:)
  fix k
  assume le: "now \<le> later" and eq: "\<forall>k. map_option strip (view now (so_map s) k) = shown now t k"
  have "view later (so_map s) k = (case view now (so_map s) k of None \<Rightarrow> None | Some r \<Rightarrow> if expired later r then None else Some r)"
    using expired_mono [OF _ le] by (auto simp: view_def split: option.splits)
  moreover have "shown later t k = (case shown now t k of None \<Rightarrow> None
    | Some v \<Rightarrow> if sp_expireAt v \<noteq> 0 \<and> sp_expireAt v \<le> later then None else Some v)"
    using le by (auto simp: shown_def split: option.splits)
  ultimately show "map_option strip (view later (so_map s) k) = shown later t k"
    using spec [OF eq, of k] by (auto simp: strip_def expired_def split: option.splits)
qed

lemma meets_same:
  assumes "meets now s t" "store_ok s'" "view now (so_map s') = view now (so_map s)" "map_keys s' \<subseteq> map_keys s"
  shows "meets now s' t"
  using assms by (auto simp: meets_def)

text \<open>Reading and reaping add no key.\<close>

lemma store_remove_shrinks: "store_remove k s = Some (b, s') \<Longrightarrow> map_keys s' \<subseteq> map_keys s"
  by (auto simp: store_remove_def map_keys_def bind_eq_Some_conv om_del_def split: option.splits)

lemma expireKey_shrinks: "expireKey k r s = Some (calls, s') \<Longrightarrow> map_keys s' \<subseteq> map_keys s"
  by (auto simp: expireKey_def bind_eq_Some_conv dest: store_remove_shrinks)

lemma getRecord_shrinks: "getRecord now k s = Some (r, calls, s') \<Longrightarrow> map_keys s' \<subseteq> map_keys s"
  by (auto simp: getRecord_def bind_eq_Some_conv dest: expireKey_shrinks split: option.splits if_splits)

lemma visit_shrinks: "visit f clock ks s = Some (res, calls, s') \<Longrightarrow> map_keys s' \<subseteq> map_keys s"
proof (induction f clock ks s arbitrary: res calls s' rule: visit.induct)
  case (2 f clock k ks s)
  obtain r calls1 s1 where g: "getRecord (clock 0) k s = Some (r, calls1, s1)" using 2(3) by (auto simp: bind_eq_Some_conv)
  have "map_keys s' \<subseteq> map_keys s1"
  proof (cases r)
    case None
    then show ?thesis using 2(1) [OF g refl refl None] 2(3) g by (auto simp: bind_eq_Some_conv)
  next
    case (Some rec)
    show ?thesis
    proof (cases "f (k, rec)")
      case (Inr y)
      then show ?thesis using 2(2) [OF g refl refl Some Inr] 2(3) g Some by (auto simp: bind_eq_Some_conv)
    qed (use 2(3) g Some in auto)
  qed
  then show ?case using getRecord_shrinks [OF g] by blast
qed simp

lemma pop_due_shrinks: "pop_due now e s = Some (hit, calls, s') \<Longrightarrow> map_keys s' \<subseteq> map_keys s"
proof -
  assume "pop_due now e s = Some (hit, calls, s')"
  moreover have "map_keys (s\<lparr>so_heap := h\<rparr>) = map_keys s" for h by (simp add: map_keys_def)
  ultimately show ?thesis by (auto simp: pop_due_def Let_def bind_eq_Some_conv dest!: expireKey_shrinks split: option.splits)
qed

lemma active_loop_shrinks:
  "active_loop clock c mp dl now n reaped s = Some (m, calls, s') \<Longrightarrow> map_keys s' \<subseteq> map_keys s"
proof (induction clock c mp dl now n reaped s arbitrary: m calls s' rule: active_loop.induct)
  case (1 clock c mp dl now n reaped s)
  note u = active_loop.simps [of clock c mp dl now n reaped s]
  show ?case
  proof (cases "due_top now s")
    case (Some e)
    show ?thesis
    proof (cases "(mp \<le> n \<and> n mod 16 = 0) \<and> dl \<le> clock c")
      case False
      then obtain hit cs s1 where p: "pop_due now e s = Some (hit, cs, s1)"
        using 1(2) Some unfolding u by (auto simp: Let_def bind_eq_Some_conv)
      define rest_of where "rest_of = active_loop clock (if mp \<le> n \<and> n mod 16 = 0 then Suc c else c) mp dl now (Suc n) (if hit then Suc reaped else reaped) s1"
      have "active_loop clock c mp dl now n reaped s = do { (m, cs', s2) \<leftarrow> rest_of; Some (m, cs @ cs', s2) }"
        using Some p False by (simp only: u rest_of_def Let_def option.simps if_False bind.bind_lunit split)
      then obtain cs' where "rest_of = Some (m, cs', s')" using 1(2) by (cases rest_of) auto
      then have "map_keys s' \<subseteq> map_keys s1" using 1(1) [OF Some refl False p refl refl] unfolding rest_of_def by blast
      then show ?thesis using pop_due_shrinks [OF p] by blast
    qed (use 1(2) Some in \<open>simp add: u\<close>)
  qed (use 1(2) in \<open>simp add: u\<close>)
qed

lemma activeExpire_shrinks: "activeExpire clock mp budget s = Some (calls, s') \<Longrightarrow> map_keys s' \<subseteq> map_keys s"
proof -
  assume "activeExpire clock mp budget s = Some (calls, s')"
  moreover have "map_keys (s\<lparr>so_aggressive := a\<rparr>) = map_keys s" for s a by (simp add: map_keys_def)
  ultimately show ?thesis by (auto simp: activeExpire_def Let_def bind_eq_Some_conv dest!: active_loop_shrinks split: if_splits)
qed

lemma view_kept_eq: "store_ok s \<Longrightarrow> store_ok s' \<Longrightarrow> kept now (so_map s') = kept now (so_map s) \<Longrightarrow>
  view now (so_map s') = view now (so_map s)"
  by (intro view_later [of _ _ now]) (auto simp: store_ok_def)

lemma map_of_table_put: "map_of (table_put k v t) = (map_of t)(k \<mapsto> v)"
  by (induction k v t rule: table_put.induct) (use str_less_irrefl in auto)

lemma keys_table_put: "fst ` set (table_put k v t) = insert k (fst ` set t)"
  by (induction k v t rule: table_put.induct) auto

lemma keys_om_del: "fst ` set (om_del k m) = fst ` set m - {k}"
  by (rule set_eqI) (simp add: om_keys om_get_del del: image_iff)

lemma sorted_table_put: "sorted_wrt str_less (map fst t) \<Longrightarrow> sorted_wrt str_less (map fst (table_put k v t))"
proof (induction k v t rule: table_put.induct)
  case (2 k v k' v' t)
  have "\<forall>y \<in> fst ` set t. str_less k y" if "str_less k k'" using 2(2) that str_less_trans by auto
  then show ?case using 2 keys_table_put [of k v t] str_less_total [of k k'] by auto
qed simp

lemma sorted_filter: "sorted_wrt P (map f xs) \<Longrightarrow> sorted_wrt P (map f (filter Q xs))"
  by (induction xs) auto

lemma str_sorted_unique: "sorted_wrt str_less xs \<Longrightarrow> sorted_wrt str_less ys \<Longrightarrow> set xs = set ys \<Longrightarrow> xs = ys"
proof (induction xs arbitrary: ys)
  case (Cons x xs)
  then obtain y ys' where ys: "ys = y # ys'" by (cases ys) auto
  have "x = y"
  proof (rule ccontr)
    assume ne: "x \<noteq> y"
    then have "str_less x y" "str_less y x" using Cons.prems unfolding ys by auto
    then show False using str_less_trans str_less_irrefl by blast
  qed
  moreover have "set xs = set ys'"
    using Cons.prems str_less_irrefl unfolding ys \<open>x = y\<close> by (metis insert_ident list.simps(15) sorted_wrt.simps(2))
  ultimately show ?case using Cons.IH [of ys'] Cons.prems by (simp add: ys)
qed simp

lemma page_all: "page (or_zero None) None xs = xs"
  by (simp add: page_def or_zero_def)

lemma page_subset: "set (page off n xs) \<subseteq> set xs"
  by (auto simp: page_def dest: in_set_takeD in_set_dropD split: option.splits)

lemma range_keys_distinct: "distinct ks \<Longrightarrow> distinct (map fst (range_page cmpString opts (map (\<lambda>k. (k, k)) ks)))"
proof -
  have pf: "map fst (page off n xs) = page off n (map fst xs)" for off n and xs :: "(string \<times> string) list"
    by (simp add: page_def take_map drop_map split: option.splits)
  have f: "map fst (filter P (map (\<lambda>k. (k, k)) ks)) = filter (\<lambda>k. P (k, k)) ks" for P :: "string \<times> string \<Rightarrow> bool" by (induction ks) auto
  assume "distinct ks"
  then show ?thesis unfolding range_page_def pf by (auto simp: f rev_map [symmetric] page_def split: option.splits)
qed

text \<open>Without a page the lapsed keys can be dropped before or after.\<close>

lemma range_filter:
  assumes "r_offset opts = None" "r_count opts = None"
  shows "filter Q (map fst (range_page cmpString opts (map (\<lambda>k. (k, k)) ks))) =
     filter Q (map fst (range_page cmpString opts (map (\<lambda>k. (k, k)) (filter Q ks))))"
proof -
  have "filter Q (map fst (filter P (map (\<lambda>k. (k, k)) ks))) = filter Q (map fst (filter P (map (\<lambda>k. (k, k)) (filter Q ks))))" for P
    by (induction ks) auto
  then show ?thesis using assms by (simp add: range_page_def page_all rev_map [symmetric] rev_filter [symmetric])
qed

lemma emap_map: "(\<And>x. x \<in> set xs \<Longrightarrow> f (g x) = f' (g' x)) \<Longrightarrow> emap f (map g xs) = emap f' (map g' xs)"
  by (induction xs) auto

lemma order_matches:
  assumes m: "meets now s t"
  obtains ks where "order_shows (so_order s) ks" "sorted_wrt str_less ks" "distinct ks" "set ks = map_keys s"
    "filter (\<lambda>k. shown now t k \<noteq> None) ks = shown_keys now t"
proof -
  obtain ks where ks: "order_shows (so_order s) ks" "set ks = fst ` set (so_map s)"
    using m by (auto simp: meets_def store_ok_def order.indexes_def)
  have s: "sorted_wrt str_less ks" using ks(1) by (simp add: order_shows_def)
  have live: "view now (so_map s) k \<noteq> None \<longleftrightarrow> shown now t k \<noteq> None" for k
    using m unfolding meets_def by (metis option.map_disc_iff)
  have "set (filter (\<lambda>k. view now (so_map s) k \<noteq> None) ks) = {k. view now (so_map s) k \<noteq> None}"
    using om_keys [of _ "so_map s"] by (auto simp: ks(2) view_def split: option.splits)
  moreover have "set (filter (\<lambda>k. shown now t k \<noteq> None) (map fst t)) = {k. shown now t k \<noteq> None}"
    using om_keys [of _ t] by (auto simp: shown_def split: option.splits)
  ultimately have "filter (\<lambda>k. shown now t k \<noteq> None) ks = shown_keys now t"
    using s m sorted_filter [of str_less id ks] live
    by (intro str_sorted_unique) (auto simp: meets_def sorted_wrt_filter shown_keys_def)
  then show ?thesis using ks s str_sorted_distinct [OF s] by (intro that) (simp_all add: map_keys_def)
qed

lemma skip_range_order:
  assumes "order_shows i ks"
  shows "skip_range cmpString opts i = Some (range_page cmpString opts (map (\<lambda>k. (k, k)) ks))"
proof -
  obtain ys where "shows_entries ys i (map (\<lambda>k. (k, k)) ks)" "sorted_wrt str_less ks" using assms by (auto simp: order_shows_def)
  then show ?thesis using strings.range_refines(1) [OF _ order_in_sequence] by blast
qed

lemma entry_strip: "entry_of reader (k, r) = table_entry reader (k, strip r)"
  by (simp add: entry_of_def table_entry_def strip_def)

lemma entries_eq:
  assumes m: "meets now s t" and "\<forall>k \<in> set ks. view now (so_map s) k \<noteq> None"
  shows "emap (entry_of reader) (map (\<lambda>k. (k, the (view now (so_map s) k))) ks) = shown_entries reader now t ks"
  unfolding shown_entries_def
proof (rule emap_map)
  fix k assume "k \<in> set ks"
  then obtain r where "view now (so_map s) k = Some r" using assms(2) by auto
  moreover from this have "shown now t k = Some (strip r)" using m unfolding meets_def by (metis option.simps(9))
  ultimately show "entry_of reader (k, the (view now (so_map s) k)) = table_entry reader (k, the (shown now t k))"
    by (simp add: entry_strip)
qed

lemma live_shown: "meets now s t \<Longrightarrow> view now (so_map s) k \<noteq> None \<longleftrightarrow> shown now t k \<noteq> None"
  unfolding meets_def by (metis option.map_disc_iff)

lemma shown_in_map:
  assumes "meets now s t"
  shows "set (shown_keys now t) = {k. view now (so_map s) k \<noteq> None}" "set (shown_keys now t) \<subseteq> map_keys s"
proof -
  show eq: "set (shown_keys now t) = {k. view now (so_map s) k \<noteq> None}"
    using live_shown [OF assms] om_keys [of _ t] by (auto simp: shown_keys_def shown_def split: option.splits)
  show "set (shown_keys now t) \<subseteq> map_keys s" unfolding eq
    using om_keys [of _ "so_map s"] by (auto simp: map_keys_def view_def split: option.splits)
qed

lemma scan_meets:
  assumes m: "meets now s t"
  obtains es calls s' where "store_scan reader (\<lambda>_. now) opts s = Some (es, calls, s')" "fits reader now t (ScanOp opts) (Entries es)" "meets now s' t"
proof -
  obtain ks where ks: "order_shows (so_order s) ks" "sorted_wrt str_less ks" "distinct ks" "set ks = map_keys s"
    "filter (\<lambda>k. shown now t k \<noteq> None) ks = shown_keys now t"
    by (rule order_matches [OF m])
  define L where "L = map fst (range_page cmpString opts (map (\<lambda>k. (k, k)) ks))"
  have "store_ok s" using m by (simp add: meets_def)
  moreover have "distinct L" using ks(3) by (simp add: L_def range_keys_distinct)
  ultimately obtain calls s' where v: "visit (entry_of reader) (\<lambda>_. now) L s =
      Some (emap (entry_of reader) (seen (\<lambda>_. now) (so_map s) L), calls, s')" "store_ok s'"
      "view now (so_map s') = view now (so_map s)"
    using visit_ok [of s L "entry_of reader" "\<lambda>_. now"] by auto
  let ?live = "filter (\<lambda>k. view now (so_map s) k \<noteq> None) L"
  have eq: "emap (entry_of reader) (seen (\<lambda>_. now) (so_map s) L) = shown_entries reader now t ?live"
    unfolding seen_now by (rule entries_eq [OF m]) simp
  have "store_scan reader (\<lambda>_. now) opts s = Some (shown_entries reader now t ?live, calls, s')"
    by (simp only: store_scan_def skip_range_order [OF ks(1)] bind.bind_lunit v(1) eq flip: L_def)
  moreover have "fits reader now t (ScanOp opts) (Entries (shown_entries reader now t ?live))"
  proof (cases "r_offset opts = None \<and> r_count opts = None")
    case True
    have "sorted_wrt str_less (shown_keys now t)" unfolding ks(5) [symmetric] using ks(2) by (simp add: sorted_wrt_filter)
    moreover have "set (shown_keys now t) \<subseteq> fst ` set t" by (auto simp: shown_keys_def)
    moreover have r: "filter (\<lambda>k. shown now t k \<noteq> None) (map fst (range_page cmpString opts (map (\<lambda>k. (k, k)) ks))) =
        filter (\<lambda>k. shown now t k \<noteq> None) (map fst (range_page cmpString opts (map (\<lambda>k. (k, k)) (shown_keys now t))))"
      using range_filter [of opts "\<lambda>k. shown now t k \<noteq> None" ks, OF conjunct1 [OF True] conjunct2 [OF True]] unfolding ks(5) .
    ultimately show ?thesis unfolding L_def live_shown [OF m] r fits.simps by (intro exI [of _ "shown_keys now t"] conjI impI) simp_all
  next
    case False
    then show ?thesis unfolding L_def live_shown [OF m] using ks(2,4) shown_in_map(2) [OF m] m
      by (auto simp: meets_def intro!: exI [of _ ks])
  qed
  ultimately show ?thesis using that meets_same [OF m v(2,3) visit_shrinks [OF v(1)]] by blast
qed

text \<open>What a reaping can find is not shown.\<close>

lemma lapsed_bound:
  assumes m: "meets now s t"
  shows "length (lapsed now (so_map s)) \<le> length t - length (shown_keys now t)"
proof -
  have wf: "om_wf (so_map s)" using m by (simp add: meets_def store_ok_def)
  let ?L = "map fst (lapsed now (so_map s))"
  have "distinct ?L" using wf unfolding om_wf_def by (rule distinct_map_filter)
  moreover have "set ?L \<inter> set (shown_keys now t) = {}"
    using om_mem [OF wf] unfolding shown_in_map(1) [OF m] by (auto simp: view_def)
  moreover have t: "distinct (map fst t)" using str_sorted_distinct m by (auto simp: meets_def)
  moreover have "set ?L \<union> set (shown_keys now t) \<subseteq> set (map fst t)"
    using m shown_in_map(2) [OF m] by (auto simp: meets_def map_keys_def)
  moreover have "distinct (shown_keys now t)" using t by (simp add: shown_keys_def)
  ultimately have "distinct (?L @ shown_keys now t)" "set (?L @ shown_keys now t) \<subseteq> set (map fst t)" by simp_all
  then have "length (?L @ shown_keys now t) \<le> length (map fst t)"
    using card_mono [of "set (map fst t)" "set (?L @ shown_keys now t)"] t by (metis List.finite_set distinct_card)
  then show ?thesis by simp
qed

lemma step_meets:
  assumes m: "meets now s t"
  obtains a s' where "run_op reader now p s = Some (a, s')" "fits reader now t p a" "meets now s' (table_after p t)"
proof -
  have ok: "store_ok s" and srt: "sorted_wrt str_less (map fst t)" and sub: "map_keys s \<subseteq> fst ` set t"
    and eq: "\<And>k. map_option strip (view now (so_map s) k) = shown now t k" using m by (simp_all add: meets_def)
  show ?thesis
  proof (cases p)
    case (SetOp draws key ref e dt)
    let ?r = "\<lparr>re_ref = ref, re_expireAt = e, re_seq = Suc (so_seq s), re_dt = dt\<rparr>"
    obtain s' where s': "setRef draws key ref e dt s = Some s'" "store_ok s'" "so_map s' = om_set (toKStr key) ?r (so_map s)"
      "so_seq s' = Suc (so_seq s)" "so_loading s' = so_loading s" "so_aggressive s' = so_aggressive s"
      "e \<noteq> 0 \<longrightarrow> length (so_heap s') \<le> 2 * length (so_map s') + 64" "e = 0 \<longrightarrow> so_heap s' = so_heap s"
      by (rule setRef_ok [OF ok])
    have "map_option strip (view now (so_map s') k) = shown now (table_put (toKStr key) (strip ?r) t) k" for k
      using eq [of k] by (auto simp: s'(3) view_set shown_def map_of_table_put strip_def expired_def)
    moreover have "map_keys s' \<subseteq> fst ` set (table_put (toKStr key) (strip ?r) t)"
      using sub unfolding map_keys_def s'(3) keys_table_put fst_om_set by blast
    ultimately have "meets now s' (table_put (toKStr key) (strip ?r) t)"
      using s'(2) sorted_table_put [OF srt] by (simp add: meets_def)
    then show ?thesis using s'(1) by (intro that [of Done s']) (simp_all add: SetOp strip_def)
  next
    case (DelOp key)
    obtain s' where s': "store_remove (toKStr key) s = Some (om_get (so_map s) (toKStr key) \<noteq> None, s')" "store_ok s'"
      "so_map s' = om_del (toKStr key) (so_map s)" "so_heap s' = so_heap s" "so_loading s' = so_loading s"
      "so_aggressive s' = so_aggressive s" by (rule store_remove_ok [OF ok])
    have "map_option strip (view now (so_map s') k) = shown now (om_del (toKStr key) t) k" for k
      using eq [of k] by (auto simp: s'(3) view_del shown_def om_get_del)
    moreover have "sorted_wrt str_less (map fst (om_del (toKStr key) t))"
      unfolding om_del_def by (rule sorted_filter [OF srt])
    moreover have "map_keys s' \<subseteq> fst ` set (om_del (toKStr key) t)"
      using sub unfolding map_keys_def s'(3) keys_om_del by blast
    ultimately have "meets now s' (om_del (toKStr key) t)" using s'(2) by (simp add: meets_def)
    moreover have "om_get (so_map s) (toKStr key) \<noteq> None" if "shown now t (toKStr key) \<noteq> None"
      using that live_shown [OF m, of "toKStr key"] by (auto simp: view_def split: option.splits)
    moreover have "toKStr key \<in> fst ` set t" if "om_get (so_map s) (toKStr key) \<noteq> None"
      using that sub om_keys [of "toKStr key" "so_map s"] by (auto simp: map_keys_def)
    ultimately show ?thesis using s'(1)
      by (intro that [of "Deleted (om_get (so_map s) (toKStr key) \<noteq> None)" s']) (auto simp: DelOp store_del_def)
  next
    case (GetOp key)
    obtain calls s' where g: "getRecord now (toKStr key) s = Some (view now (so_map s) (toKStr key), calls, s')" "store_ok s'"
      "kept now (so_map s') = kept now (so_map s)"
      "\<forall>k'. k' \<noteq> toKStr key \<longrightarrow> om_get (so_map s') k' = om_get (so_map s) k'"
      "om_get (so_map s') (toKStr key) = view now (so_map s) (toKStr key)"
      "calls = (case om_get (so_map s) (toKStr key) of None \<Rightarrow> [] | Some r \<Rightarrow> if expired now r then [(toKStr key, r)] else [])"
      by (rule getRecord_ok [OF ok])
    have "meets now s' t" by (rule meets_same [OF m g(2) view_kept_eq [OF ok g(2,3)] getRecord_shrinks [OF g(1)]])
    then show ?thesis using g(1) eq [of "toKStr key", symmetric]
      by (cases "view now (so_map s) (toKStr key)")
         (auto simp: GetOp get_is_getRecord strip_def intro!: that [of _ s'])
  next
    case (HasOp key)
    obtain calls s' where g: "getRecord now (toKStr key) s = Some (view now (so_map s) (toKStr key), calls, s')" "store_ok s'"
      "kept now (so_map s') = kept now (so_map s)"
      "\<forall>k'. k' \<noteq> toKStr key \<longrightarrow> om_get (so_map s') k' = om_get (so_map s) k'"
      "om_get (so_map s') (toKStr key) = view now (so_map s) (toKStr key)"
      "calls = (case om_get (so_map s) (toKStr key) of None \<Rightarrow> [] | Some r \<Rightarrow> if expired now r then [(toKStr key, r)] else [])"
      by (rule getRecord_ok [OF ok])
    have "meets now s' t" by (rule meets_same [OF m g(2) view_kept_eq [OF ok g(2,3)] getRecord_shrinks [OF g(1)]])
    then show ?thesis using g(1) live_shown [OF m, of "toKStr key"]
      by (intro that [of "Present (view now (so_map s) (toKStr key) \<noteq> None)" s']) (simp_all add: HasOp has_is_getRecord)
  next
    case (ScanOp opts)
    obtain es calls s' where v: "store_scan reader (\<lambda>_. now) opts s = Some (es, calls, s')" "fits reader now t (ScanOp opts) (Entries es)"
      "meets now s' t" by (rule scan_meets [OF m])
    then show ?thesis by (intro that [of "Entries es" s']) (simp_all add: ScanOp del: fits.simps)
  next
    case EntriesOp
    have wf: "om_wf (so_map s)" using ok by (simp add: store_ok_def)
    let ?ks = "map fst (kept now (so_map s))"
    have ks: "view now (so_map s) k = Some r" if "(k, r) \<in> set (kept now (so_map s))" for k r
      using that om_mem [OF wf, of k r] by (auto simp: view_def)
    have "map (\<lambda>p. (fst p, the (view now (so_map s) (fst p)))) (kept now (so_map s)) = kept now (so_map s)"
    proof (rule map_idI)
      fix p assume p: "p \<in> set (kept now (so_map s))"
      obtain k r where kr: "p = (k, r)" by (cases p)
      show "(fst p, the (view now (so_map s) (fst p))) = p" using ks [OF p [unfolded kr]] by (simp add: kr)
    qed
    then have "live_records now s = map (\<lambda>k. (k, the (view now (so_map s) k))) ?ks" by (simp add: live_records_def comp_def)
    then have "store_entries reader now s = shown_entries reader now t ?ks"
      using entries_eq [OF m, of ?ks reader] ks by (auto simp: store_entries_def)
    moreover have "distinct ?ks" using wf unfolding om_wf_def by (rule distinct_map_filter)
    moreover have "set ?ks = set (shown_keys now t)"
    proof -
      have "k \<in> set ?ks \<longleftrightarrow> view now (so_map s) k \<noteq> None" for k
        using om_mem [OF wf, of k] by (force simp: view_def split: option.splits)
      then show ?thesis unfolding shown_in_map(1) [OF m] by blast
    qed
    ultimately show ?thesis using m by (intro that [of "Entries (store_entries reader now s)" s]) (auto simp: EntriesOp)
  next
    case (ReapOp now')
    obtain calls s' where r: "reapExpiredDue now now' s = Some (length calls, calls, s')" "store_ok s'"
      "so_map s' = kept now (so_map s)" "set calls = set (lapsed now (so_map s))" "distinct calls" "so_loading s' = so_loading s"
      by (rule reapExpiredDue_ok [OF ok])
    have "kept now (so_map s') = kept now (so_map s)" by (simp add: r(3) filter_filter case_prod_unfold)
    moreover have "map_keys s' \<subseteq> map_keys s" by (auto simp: map_keys_def r(3))
    ultimately have "meets now s' t" using meets_same [OF m r(2) view_kept_eq [OF ok r(2)]] by blast
    moreover have "length calls \<le> length t - length (shown_keys now t)"
      using lapsed_bound [OF m] distinct_card [OF r(5)] card_length [of "lapsed now (so_map s)"] r(4) by simp
    ultimately show ?thesis using r(1) by (intro that [of "Reaped (length calls)" s']) (simp_all add: ReapOp)
  next
    case FullReapOp
    obtain s' where r: "reapExpired now s = Some (length (lapsed now (so_map s)), lapsed now (so_map s), s')" "store_ok s'"
      "so_map s' = kept now (so_map s)" by (rule reapExpired_ok [OF ok])
    have "kept now (so_map s') = kept now (so_map s)" by (simp add: r(3) filter_filter case_prod_unfold)
    moreover have "map_keys s' \<subseteq> map_keys s" by (auto simp: map_keys_def r(3))
    ultimately have "meets now s' t" using meets_same [OF m r(2) view_kept_eq [OF ok r(2)]] by blast
    then show ?thesis using r(1) lapsed_bound [OF m]
      by (intro that [of "Reaped (length (lapsed now (so_map s)))" s']) (simp_all add: FullReapOp)
  next
    case (TickOp later mp budget)
    define clock where "clock = (\<lambda>n. if n = 0 then now else later n)"
    have c: "clock 0 = now" by (simp add: clock_def)
    obtain calls s' where a: "activeExpire clock mp budget s = Some (calls, s')" "store_ok s'"
      "kept now (so_map s') = kept now (so_map s)" "set calls \<subseteq> set (lapsed now (so_map s))" "so_loading s' = so_loading s"
      "so_loading s \<longrightarrow> s' = s" "\<not> so_loading s \<longrightarrow> length (so_heap s) \<le> mp \<longrightarrow> lapsed now (so_map s') = []"
      by (rule activeExpire_ok [OF ok, of clock, unfolded c])
    then show ?thesis using meets_same [OF m a(2) view_kept_eq [OF ok a(2,3)] activeExpire_shrinks [OF a(1)]]
      by (intro that [of Done s']) (simp_all add: TickOp clock_def)
  qed
qed

lemma run_meets:
  "meets now s t \<Longrightarrow> sorted (now # map fst ps) \<Longrightarrow> \<exists>as s'. run_ops reader ps s = Some (as, s') \<and> all_fit reader t ps as"
proof (induction ps arbitrary: now s t)
  case (Cons q ps)
  obtain later p where q: "q = (later, p)" by (cases q)
  have "meets later s t" using meets_later [OF Cons.prems(1)] Cons.prems(2) by (simp add: q)
  then obtain a s1 where s1: "run_op reader later p s = Some (a, s1)" "fits reader later t p a"
    "meets later s1 (table_after p t)" by (rule step_meets)
  obtain as s' where "run_ops reader ps s1 = Some (as, s')" "all_fit reader (table_after p t) ps as"
    using Cons.IH [OF s1(3)] Cons.prems(2) by (auto simp: q)
  then show ?case using s1(1,2) by (simp add: q)
qed simp

lemma new_store_meets: "meets now new_store []"
  using new_store_ok by (simp add: meets_def) (simp add: view_def shown_def new_store_def map_keys_def)

lemma step_ok: "store_ok s \<Longrightarrow> \<exists>a s'. run_op reader now p s = Some (a, s') \<and> store_ok s'"
proof -
  assume ok: "store_ok s"
  obtain ks where ks: "order_shows (so_order s) ks" "set ks = fst ` set (so_map s)"
    using ok by (auto simp: store_ok_def order.indexes_def)
  define t where "t = map (\<lambda>k. (k, strip (the (om_get (so_map s) k)))) ks"
  have "map_of t k = map_option strip (om_get (so_map s) k)" for k
  proof (cases "k \<in> set ks")
    case True
    then obtain r where "om_get (so_map s) k = Some r" using ks(2) om_keys [of k "so_map s"] by auto
    then show ?thesis using True by (simp add: t_def map_of_map_restrict)
  next
    case False
    then show ?thesis using ks(2) om_keys [of k "so_map s"] by (simp add: t_def map_of_map_restrict)
  qed
  moreover have t: "map fst t = ks" by (simp add: t_def comp_def)
  moreover have "map_keys s \<subseteq> fst ` set t" unfolding map_keys_def ks(2) [symmetric] t [symmetric] by simp
  ultimately have "meets now s t" using ok ks(1)
    by (auto simp: meets_def order_shows_def view_def shown_def strip_def expired_def split: option.splits)
  then show ?thesis by (metis step_meets meets_def)
qed

lemma run_ok: "store_ok s \<Longrightarrow> \<exists>as s'. run_ops reader ps s = Some (as, s') \<and> store_ok s'"
proof (induction ps arbitrary: s)
  case (Cons q ps)
  obtain now p where q: "q = (now, p)" by (cases q)
  obtain a s1 where s1: "run_op reader now p s = Some (a, s1)" "store_ok s1" using step_ok [OF Cons.prems] by blast
  obtain as s' where "run_ops reader ps s1 = Some (as, s')" "store_ok s'" using Cons.IH [OF s1(2)] by blast
  then show ?case using s1(1) by (simp add: q)
qed simp

section \<open>Properties\<close>

text \<open>
  C32. Whatever is done to a new store, and at whatever times, its parts stay in step: the ordered index holds the map's
  keys, the byte and expiry counters are the sums over the records, every record with an expiry has its entry in the
  heap, and no operation gets stuck.
\<close>
theorem store_stays_ok: "\<exists>as s. run_ops reader ps new_store = Some (as, s) \<and> store_ok s"
  by (rule run_ok [OF new_store_ok])

text \<open>
  C31. While the clock does not run backwards, the store answers every sequence of writes, deletions, reads, scans, listings,
  reapings and ticks as a sorted table does that never drops a record and hides the lapsed ones from its readers:
  lazy removal, reaping, ticks and heap rebuilds change no answer of \<open>get\<close>, \<open>has\<close> and a scan without offset and count. Three answers
  do depend on what has been removed, and \<open>fits\<close> says how far: \<open>del\<close> of a lapsed record may say true or false; offset and
  count of a scan may count lapsed keys, of which it shows nothing; a reaping counts at most the records not shown. The order
  of \<open>entries\<close> is left open. Every operation reads the clock once, but for the pauses of a tick.
\<close>
theorem store_refines_table:
  assumes "sorted (map fst ps)"
  shows "\<exists>as s. run_ops reader ps new_store = Some (as, s) \<and> all_fit reader [] ps as"
proof (cases ps)
  case (Cons q qs)
  then show ?thesis using run_meets [OF new_store_meets, of "fst q" ps] assms by simp
qed simp

text \<open>
  C33. Reaping through the heap removes what a full scan of the map removes: the same records, each announced once, with
  the same map and counters left, and it never needs the full scan it falls back on.
\<close>
theorem reap_due_is_full_scan:
  "\<exists>as s calls calls' s1 s2. run_ops reader ps new_store = Some (as, s) \<and>
     reapExpiredDue now now' s = Some (length calls, calls, s1) \<and> reapExpired now s = Some (length calls, calls', s2) \<and>
     mset calls = mset calls' \<and> so_map s1 = so_map s2 \<and> so_bytes s1 = so_bytes s2 \<and> so_expiring s1 = so_expiring s2"
proof -
  obtain as s where r: "run_ops reader ps new_store = Some (as, s)" and ok: "store_ok s" using run_ok [OF new_store_ok] by blast
  obtain calls s1 where a: "reapExpiredDue now now' s = Some (length calls, calls, s1)" "store_ok s1"
    "so_map s1 = kept now (so_map s)" "set calls = set (lapsed now (so_map s))" "distinct calls" "so_loading s1 = so_loading s"
    by (rule reapExpiredDue_ok [OF ok])
  obtain s2 where b: "reapExpired now s = Some (length (lapsed now (so_map s)), lapsed now (so_map s), s2)" "store_ok s2"
    "so_map s2 = kept now (so_map s)" by (rule reapExpired_ok [OF ok])
  have "distinct (lapsed now (so_map s))" using ok by (simp add: store_ok_def om_wf_def distinct_map)
  then have eq: "mset calls = mset (lapsed now (so_map s))" using set_eq_iff_mset_eq_distinct [OF a(5)] a(4) by blast
  then have "length calls = length (lapsed now (so_map s))" by (rule mset_eq_length)
  then show ?thesis using r a(1-3) b eq
    by (intro exI [of _ as] exI [of _ s] exI [of _ calls] exI [of _ "lapsed now (so_map s)"] exI [of _ s1] exI [of _ s2])
       (simp add: store_ok_def)
qed

text \<open>
  After any operations, a write with an expiry leaves at most twice as many heap entries as there are keys, and 64
  more, whatever was overwritten or deleted before.
\<close>
theorem heap_stays_small:
  "\<exists>as s s'. run_ops reader ps new_store = Some (as, s) \<and> setRef draws key ref e dt s = Some s' \<and>
     (e = 0 \<or> length (so_heap s') \<le> 2 * length (so_map s') + 64)"
proof -
  obtain as s where r: "run_ops reader ps new_store = Some (as, s)" and ok: "store_ok s" using run_ok [OF new_store_ok] by blast
  obtain s' where "setRef draws key ref e dt s = Some s'" "e \<noteq> 0 \<longrightarrow> length (so_heap s') \<le> 2 * length (so_map s') + 64"
    using setRef_ok [OF ok] by metis
  then show ?thesis using r by auto
qed

section \<open>Witness\<close>

definition demo_calls :: "(int \<times> store_op) list" where
  "demo_calls = [(0, SetOp (\<lambda>_. 1) (KStr ''k'') (InMemory [7]) 5 None), (3, GetOp (KStr ''k'')), (6, TickOp (\<lambda>_. 6) 1 0),
     (6, HasOp (KStr ''k'')),
     (6, ScanOp \<lparr>r_gte = None, r_gt = None, r_lte = None, r_lt = None, r_offset = None, r_count = None, r_reverse = False\<rparr>)]"

lemma demo_answers: "all_fit None [] demo_calls as \<Longrightarrow> as = [Done, Value (Inr (Some [7])), Done, Present False, Entries (Inr [])]"
  by (auto simp: demo_calls_def shown_def materialize_def toKStr_def shown_entries_def shown_keys_def split: list.splits)

lemma store_refines_table_witness:
  "\<exists>s. run_ops None demo_calls new_store = Some ([Done, Value (Inr (Some [7])), Done, Present False, Entries (Inr [])], s)"
proof -
  obtain as s where "run_ops None demo_calls new_store = Some (as, s)" "all_fit None [] demo_calls as"
    using store_refines_table [of demo_calls None] by (auto simp: demo_calls_def)
  then show ?thesis using demo_answers by blast
qed

end
