(* ===== verification/Store_Load.thy ===== *)
theory Store_Load imports Store_Refine begin

text \<open>
  Loading a store wholesale: a store filled from a sorted image meets the contract of the table the image lists, and the
  load in slices, with ticks running in its pauses, gives the same store as the load in one go.
\<close>

section \<open>In slices\<close>

lemma tick_loading: "so_loading s \<Longrightarrow> activeExpire clock mp budget s = Some ([], s)"
  by (simp add: activeExpire_def)

lemma run_ticks_loading: "so_loading s \<Longrightarrow> run_ticks mp budget cs s = Some s"
  by (induction cs) (simp_all add: tick_loading)

lemma load_one_loading: "load_one l (s\<lparr>so_loading := b\<rparr>) = (load_one l s)\<lparr>so_loading := b\<rparr>"
  by (simp add: load_one_def Let_def)

lemma load_one_keeps_loading: "so_loading (load_one l s) = so_loading s"
  by (simp add: load_one_def Let_def)

lemma load_slices_all: "so_loading s \<Longrightarrow> load_slices mp budget se ticks n ls s = Some (fold load_one ls s)"
proof (induction ls arbitrary: n s)
  case (Cons l ls)
  have "so_loading (load_one l s)" using Cons.prems by (simp add: load_one_keeps_loading)
  then show ?case using Cons.IH by (simp add: Let_def run_ticks_loading)
qed simp

lemma fold_load_loading: "fold load_one ls (s\<lparr>so_loading := b\<rparr>) = (fold load_one ls s)\<lparr>so_loading := b\<rparr>"
  by (induction ls arbitrary: s) (simp_all add: load_one_loading)

lemma fold_load_keeps_loading: "so_loading (fold load_one ls s) = so_loading s"
  by (induction ls arbitrary: s) (simp_all add: load_one_keeps_loading)

lemma sliced_load:
  "bulkLoadRefsAsync mp budget se ticks late ls s = Some ((bulkLoadRefs ls s)\<lparr>so_loading := False\<rparr>)"
  by (simp add: bulkLoadRefsAsync_def bulkLoadRefs_def load_slices_all run_ticks_loading fold_load_keeps_loading fold_load_loading)

section \<open>The loaded store\<close>

definition exact_meta :: "load_record \<Rightarrow> bool" where
  "exact_meta l \<longleftrightarrow> (case lo_metaBytes l of None \<Rightarrow> 0 | Some n \<Rightarrow> n) = metaBytes (lo_dt l)"

text \<open>The invariant, whatever the ordered index holds.\<close>

definition parts_ok :: "store \<Rightarrow> bool" where
  "parts_ok s \<longleftrightarrow>
     om_wf (so_map s) \<and>
     so_bytes s = om_sum (\<lambda>k r. int (record_size k r)) (so_map s) \<and>
     so_expiring s = om_sum (\<lambda>k r. has_ttl r) (so_map s) \<and>
     heap_ok (so_heap s) \<and> heap_covers (so_map s) (so_heap s) \<and> heap_tells (so_map s) (so_heap s) (so_seq s) \<and>
     (\<forall>k r. om_get (so_map s) k = Some r \<longrightarrow> re_seq r \<le> so_seq s)"

lemma store_ok_parts: "store_ok s \<longleftrightarrow> parts_ok s \<and> order.indexes (so_order s) (fst ` set (so_map s))"
  unfolding store_ok_def parts_ok_def by blast

abbreviation loaded :: "load_record \<Rightarrow> nat \<Rightarrow> store_record" where
  "loaded l n \<equiv> \<lparr>re_ref = lo_ref l, re_expireAt = lo_expireAt l, re_seq = n, re_dt = lo_dt l\<rparr>"

lemma load_one_ok:
  assumes ok: "parts_ok s" and new: "om_get (so_map s) (lo_kstr l) = None" and meta: "exact_meta l"
  shows "parts_ok (load_one l s)" "so_map (load_one l s) = om_set (lo_kstr l) (loaded l (Suc (so_seq s))) (so_map s)"
proof -
  let ?k = "lo_kstr l" and ?r = "loaded l (Suc (so_seq s))" and ?m = "so_map s"
  show m: "so_map (load_one l s) = om_set ?k ?r ?m" by (simp add: load_one_def Let_def)
  have wf: "om_wf ?m" and hk: "heap_ok (so_heap s)" and cov: "heap_covers ?m (so_heap s)" using ok by (simp_all add: parts_ok_def)
  have sums: "om_sum f (om_set ?k r ?m) = om_sum f ?m + f ?k r" for f r
    using om_sum_set [OF wf, of f ?k r] om_del_absent [OF new] by simp
  have tells: "heap_tells (om_set ?k ?r ?m) (so_heap s) (Suc (so_seq s))"
    using ok by (intro tells_set) (simp_all add: parts_ok_def)
  have seqs: "om_get (om_set ?k ?r ?m) k' = Some r' \<Longrightarrow> re_seq r' \<le> Suc (so_seq s)" for k' r'
    using ok by (auto simp: parts_ok_def le_Suc_eq split: if_splits)
  have size: "record_size ?k \<lparr>re_ref = lo_ref l, re_expireAt = e, re_seq = n, re_dt = lo_dt l\<rparr> = length ?k + refBytes (lo_ref l) + (case lo_metaBytes l of None \<Rightarrow> 0 | Some n \<Rightarrow> n)" for e n
    using meta by (simp add: record_size_def exact_meta_def)
  show "parts_ok (load_one l s)"
  proof (cases "lo_expireAt l = 0")
    case True
    have "heap_covers (om_set ?k ?r ?m) (so_heap s)" using True by (intro covers_set [OF cov]) simp_all
    then show ?thesis using ok wf hk tells seqs True by (simp add: parts_ok_def load_one_def Let_def sums size)
  next
    case False
    have c: "heap_covers (om_set ?k ?r ?m) (heap_push (ttl_entry ?k ?r) (so_heap s))"
      using covers_set [OF cov] by (simp add: set_heap_push [OF hk] subset_insertI)
    have t: "heap_tells (om_set ?k ?r ?m) (heap_push (ttl_entry ?k ?r) (so_heap s)) (Suc (so_seq s))"
      using tells_entry [OF tells, of ?k ?r] by (simp add: set_heap_push [OF hk])
    show ?thesis using ok wf ttl.push(2) [OF hk] c t seqs False
      by (simp add: parts_ok_def load_one_def Let_def sums size)
  qed
qed

definition image_table :: "load_record list \<Rightarrow> table" where
  "image_table ls = map (\<lambda>l. (lo_kstr l, \<lparr>sp_ref = lo_ref l, sp_expireAt = lo_expireAt l, sp_dt = lo_dt l\<rparr>)) ls"

lemma fold_load_ok:
  "parts_ok s \<Longrightarrow> distinct (map lo_kstr ls) \<Longrightarrow> \<forall>l \<in> set ls. exact_meta l \<and> om_get (so_map s) (lo_kstr l) = None \<Longrightarrow>
   parts_ok (fold load_one ls s) \<and> fst ` set (so_map (fold load_one ls s)) = fst ` set (so_map s) \<union> set (map lo_kstr ls) \<and>
   (\<forall>k. map_option strip (om_get (so_map (fold load_one ls s)) k) =
     (case map_of (image_table ls) k of None \<Rightarrow> map_option strip (om_get (so_map s) k) | Some v \<Rightarrow> Some v))"
proof (induction ls arbitrary: s)
  case (Cons l ls)
  have ok: "parts_ok (load_one l s)" and m: "so_map (load_one l s) = om_set (lo_kstr l) (loaded l (Suc (so_seq s))) (so_map s)"
    using load_one_ok [OF Cons.prems(1)] Cons.prems(3) by auto
  have new: "map_of (image_table ls) (lo_kstr l) = None"
    using Cons.prems(2) by (auto simp: image_table_def map_of_eq_None_iff)
  have "\<forall>l' \<in> set ls. exact_meta l' \<and> om_get (so_map (load_one l s)) (lo_kstr l') = None"
    using Cons.prems(2,3) by (simp add: m) (metis image_eqI)
  with Cons.IH [OF ok] Cons.prems(2) show ?case using new
    by (auto simp: m strip_def image_table_def split: option.splits)
qed (simp add: image_table_def)

lemma bulk_meets:
  assumes srt: "sorted_wrt str_less (map lo_kstr ls)" and meta: "\<forall>l \<in> set ls. exact_meta l"
  shows "meets now (bulkLoadRefs ls new_store) (image_table ls)"
proof -
  have "parts_ok new_store" using new_store_ok by (simp add: store_ok_parts)
  moreover have "\<forall>l \<in> set ls. exact_meta l \<and> om_get (so_map new_store) (lo_kstr l) = None" using meta by (simp add: new_store_def)
  ultimately have f: "parts_ok (fold load_one ls new_store)" "fst ` set (so_map (fold load_one ls new_store)) = set (map lo_kstr ls)"
    "\<forall>k. map_option strip (om_get (so_map (fold load_one ls new_store)) k) = map_of (image_table ls) k"
    using fold_load_ok [of new_store ls] str_sorted_distinct [OF srt]
    by (auto simp: new_store_def split: option.splits)
  have "order.indexes (so_order (bulkLoadRefs ls new_store)) (set (map lo_kstr ls))"
  proof -
    have "distinct (map (\<lambda>k. (k, k)) (map lo_kstr ls))" using str_sorted_distinct [OF srt] by (simp add: distinct_map inj_on_def)
    then have "remdups_adj (map (\<lambda>k. (k, k)) (map lo_kstr ls)) = map (\<lambda>k. (k, k)) (map lo_kstr ls)" by (rule remdups_adj_distinct)
    moreover obtain ys where "shows_entries ys (bulkLoad cmpString cmpString (map (\<lambda>k. (k, k)) (map lo_kstr ls)))
        (remdups_adj (map (\<lambda>k. (k, k)) (map lo_kstr ls)))" using strings.bulkLoad_shows by blast
    ultimately have "order_shows (bulkLoad cmpString cmpString (map (\<lambda>k. (k, k)) (map lo_kstr ls))) (map lo_kstr ls)"
      using srt unfolding order_shows_def by metis
    then show ?thesis unfolding order.indexes_def bulkLoadRefs_def by (auto simp: comp_def)
  qed
  then have "store_ok (bulkLoadRefs ls new_store)" using f(1,2) by (simp add: store_ok_parts bulkLoadRefs_def parts_ok_def)
  moreover have "map fst (image_table ls) = map lo_kstr ls" by (simp add: image_table_def)
  moreover have "map_option strip (view now (so_map (bulkLoadRefs ls new_store)) k) = shown now (image_table ls) k" for k
    by (simp add: view_def shown_def bulkLoadRefs_def strip_def expired_def spec [OF f(3), of k, symmetric] split: option.splits)
  moreover have "map_keys (bulkLoadRefs ls new_store) \<subseteq> fst ` set (image_table ls)"
    using f(2) by (simp add: map_keys_def bulkLoadRefs_def image_table_def image_image)
  ultimately show ?thesis using srt by (simp add: meets_def)
qed

section \<open>Properties\<close>

text \<open>
  C34. A store loaded from a sorted image, in one go or in slices with ticks running in the pauses, answers from then on
  as the table the image lists does.
\<close>
theorem loaded_store_is_image:
  assumes "sorted_wrt str_less (map lo_kstr ls)" "\<forall>l \<in> set ls. exact_meta l" "sorted (map fst ps)"
  shows "\<exists>s as s'. bulkLoadRefsAsync mp budget se ticks late ls new_store = Some s \<and> s = bulkLoadRefs ls new_store \<and>
    run_ops reader ps s = Some (as, s') \<and> all_fit reader (image_table ls) ps as"
proof -
  have "so_loading (bulkLoadRefs ls new_store) = False"
    by (simp add: bulkLoadRefs_def fold_load_keeps_loading) (simp add: new_store_def)
  then have l: "bulkLoadRefsAsync mp budget se ticks late ls new_store = Some (bulkLoadRefs ls new_store)"
    by (simp add: sliced_load)
  show ?thesis
  proof (cases ps)
    case (Cons q qs)
    then show ?thesis using l run_meets [OF bulk_meets [OF assms(1,2)], of "fst q" ps] assms(3) by simp
  qed (simp add: l)
qed

text \<open>
  A page counts the keys of its range before the lapsed ones are dropped: with the key \<open>a\<close> lapsed and \<open>b\<close> live, a scan
  with a limit of one answers nothing, while the same scan without a limit finds \<open>b\<close>.
\<close>
theorem scan_limit_counts_lapsed:
  "\<exists>s calls s1 calls' s2.
     run_ops reader [(0, SetOp draws (KStr ''a'') (InMemory va) 5 None), (0, SetOp draws' (KStr ''b'') (InMemory vb) 0 None)] new_store =
       Some ([Done, Done], s) \<and>
     store_scan reader (\<lambda>_. 9) \<lparr>r_gte = None, r_gt = None, r_lte = None, r_lt = None, r_offset = None, r_count = Some 1, r_reverse = False\<rparr> s =
       Some (Inr [], calls, s1) \<and>
     store_scan reader (\<lambda>_. 9) \<lparr>r_gte = None, r_gt = None, r_lte = None, r_lt = None, r_offset = None, r_count = None, r_reverse = False\<rparr> s =
       Some (Inr [\<lparr>se_key = fromKStr ''b'', se_value = vb, se_expireAt = 0, se_dt = None\<rparr>], calls', s2)"
proof -
  define ra where "ra = \<lparr>re_ref = InMemory va, re_expireAt = 5, re_seq = Suc (so_seq new_store), re_dt = None\<rparr>"
  obtain s1 where s1: "setRef draws (KStr ''a'') (InMemory va) 5 None new_store = Some s1" "store_ok s1"
    "so_map s1 = om_set ''a'' ra []"
    using setRef_ok [OF new_store_ok, of draws "KStr ''a''" "InMemory va" 5 None]
    by (metis ra_def toKStr_def db_key.simps(5) new_store_def store.select_convs(1))
  obtain s rb where s: "setRef draws' (KStr ''b'') (InMemory vb) 0 None s1 = Some s" "store_ok s"
    "so_map s = om_set ''b'' rb (so_map s1)" "re_ref rb = InMemory vb" "re_expireAt rb = 0" "re_dt rb = None"
    using setRef_ok [OF s1(2), of draws' "KStr ''b''" "InMemory vb" 0 None]
    by (metis toKStr_def db_key.simps(5) store_record.select_convs)
  obtain ks where ks: "order_shows (so_order s) ks" "set ks = {''a'', ''b''}"
    using s(2) by (auto simp: store_ok_def order.indexes_def s(3) s1(3))
  have "ks = [''a'', ''b'']" using ks by (intro str_sorted_unique) (auto simp: order_shows_def)
  note rng = skip_range_order [OF ks(1), unfolded this]
  have view: "view 9 (so_map s) ''a'' = None" "view 9 (so_map s) ''b'' = Some rb"
    using s(5) by (simp_all add: view_def s(3) s1(3) ra_def expired_def)
  have entry: "entry_of reader (''b'', rb) = Inr \<lparr>se_key = fromKStr ''b'', se_value = vb, se_expireAt = 0, se_dt = None\<rparr>"
    by (simp add: entry_of_def materialize_def s(4-6))
  obtain calls t calls' t' where "visit (entry_of reader) (\<lambda>_. 9) [''a''] s = Some (Inr [], calls, t)"
    "visit (entry_of reader) (\<lambda>_. 9) [''a'', ''b''] s =
       Some (Inr [\<lparr>se_key = fromKStr ''b'', se_value = vb, se_expireAt = 0, se_dt = None\<rparr>], calls', t')"
    using visit_ok [OF s(2), of "[''a'']" "entry_of reader" "\<lambda>_. 9"] visit_ok [OF s(2), of "[''a'', ''b'']" "entry_of reader" "\<lambda>_. 9"]
    by (auto simp: view entry)
  moreover have "run_ops reader [(0, SetOp draws (KStr ''a'') (InMemory va) 5 None), (0, SetOp draws' (KStr ''b'') (InMemory vb) 0 None)] new_store =
       Some ([Done, Done], s)" using s(1) s1(1) by simp
  ultimately show ?thesis
    by (simp add: store_scan_def rng range_page_def page_def or_zero_def lower_hit_def upper_stop_def holds_def)
qed

section \<open>Witness\<close>

definition demo_image :: "load_record list" where
  "demo_image = [\<lparr>lo_kstr = ''a'', lo_ref = InMemory [1], lo_expireAt = 5, lo_dt = None, lo_metaBytes = None\<rparr>,
                 \<lparr>lo_kstr = ''b'', lo_ref = InMemory [2], lo_expireAt = 0, lo_dt = None, lo_metaBytes = Some 0\<rparr>]"

definition demo_reads :: "(int \<times> store_op) list" where
  "demo_reads = [(3, GetOp (KStr ''a'')), (9, GetOp (KStr ''a'')), (9, GetOp (KStr ''b''))]"

lemma demo_reads_answers:
  "all_fit None (image_table demo_image) demo_reads as \<Longrightarrow> as = [Value (Inr (Some [1])), Value (Inr None), Value (Inr (Some [2]))]"
  by (auto simp: demo_reads_def demo_image_def image_table_def shown_def materialize_def toKStr_def split: list.splits)

lemma demo_image_ok: "sorted_wrt str_less (map lo_kstr demo_image)" "list_all exact_meta demo_image" "sorted (map fst demo_reads)"
  by (simp_all add: demo_image_def exact_meta_def metaBytes_def demo_reads_def)

lemma loaded_store_is_image_witness:
  "\<exists>s s'. bulkLoadRefsAsync 20 5 1 (\<lambda>_. [\<lambda>_. 9]) [] demo_image new_store = Some s \<and>
     run_ops None demo_reads s = Some ([Value (Inr (Some [1])), Value (Inr None), Value (Inr (Some [2]))], s')"
  using loaded_store_is_image [OF demo_image_ok(1) _ demo_image_ok(3), of 20 5 1 "\<lambda>_. [\<lambda>_. 9]" "[]" None] demo_image_ok(2)
  by (auto simp: list_all_iff dest!: demo_reads_answers)

end
