(* ===== verification/Recovery.thy ===== *)
theory Recovery imports Store CodecScan begin

text \<open>
  Opening a database, \<^verbatim>\<open>src/packages/minidb/src/recovery.ts\<close>: frames unrolled into store operations, the replay
  of the snapshot and of the log, the pairing rule, the bounded retries, and the catch-up of a replica.

  What the file system answers is an argument: per pass, the identity and the bytes of each file at its opening, and the
  identities found afterwards. A file keeps its bytes during a pass. \<open>json_dt\<close> is \<open>JSON.parse\<close> of a record's metadata and
  its \<open>dt\<close>, which may throw. The \<open>n\<close>-th operation reads the clock at \<open>clock n\<close> and draws towers from \<open>draws n\<close>. The
  store's partiality is that of its skip list. Timings are left out.
\<close>

section \<open>Frames as operations\<close>

datatype recovery_error =
    ScanFailed codec_error
  | ShortRead
  | BadMeta string
  | GenerationChurn nat

datatype value_mode = MemoryMode | DiskMode

definition readAt :: "buffer \<Rightarrow> nat \<Rightarrow> nat \<Rightarrow> recovery_error + buffer" where
  "readAt fd off len =
     (if len = 0 then Inr [] else if off + len \<le> length fd then Inr (slice fd off len) else Inl ShortRead)"

type_synonym json_dt = "buffer \<Rightarrow> string + dt_columns option"

definition parseMeta :: "json_dt \<Rightarrow> buffer option \<Rightarrow> recovery_error + dt_columns option" where
  "parseMeta json_dt meta =
     (case meta of
        None \<Rightarrow> Inr None
      | Some m \<Rightarrow> (case json_dt m of Inl e \<Rightarrow> Inl (BadMeta e) | Inr dt \<Rightarrow> Inr dt))"

record recovered_op =
  ro_type :: nat
  ro_key :: buffer
  ro_ref :: "value_ref option"
  ro_expireAt :: int
  ro_dt :: "dt_columns option"

definition del_op :: "buffer \<Rightarrow> recovered_op" where
  "del_op key = \<lparr>ro_type = TYPE_DEL, ro_key = key, ro_ref = None, ro_expireAt = 0, ro_dt = None\<rparr>"

definition setRefToOp ::
    "json_dt \<Rightarrow> int \<Rightarrow> db_file \<Rightarrow> buffer \<Rightarrow> value_mode \<Rightarrow> op_ref \<Rightarrow> recovery_error + recovered_op" where
  "setRefToOp json_dt now fl fd mode f =
     (if or_expireAt f \<noteq> 0 \<and> or_expireAt f \<le> now then Inr (del_op (or_key f))
      else
        ebind (parseMeta json_dt (or_meta f)) (\<lambda>dt.
        ebind (case mode of
                 DiskMode \<Rightarrow> Inr (OnDisk \<lparr>vl_file = fl, vl_off = or_valueOff f, vl_len = or_valLen f\<rparr>)
               | MemoryMode \<Rightarrow> ebind (readAt fd (or_valueOff f) (or_valLen f)) (\<lambda>v. Inr (InMemory v))) (\<lambda>ref.
          Inr \<lparr>ro_type = TYPE_SET, ro_key = or_key f, ro_ref = Some ref, ro_expireAt = or_expireAt f, ro_dt = dt\<rparr>)))"

definition refs_of_frame :: "frame_ref \<Rightarrow> op_ref" where
  "refs_of_frame f =
     \<lparr>or_type = rf_type f, or_key = rf_key f, or_meta = rf_meta f, or_expireAt = rf_expireAt f,
      or_valueOff = rf_valueOff f, or_valLen = rf_valLen f\<rparr>"

text \<open>
  What a frame unrolls into, before the clock is read, and whether its batch was skipped: the operations are taken one
  by one while the ones before are applied.
\<close>

definition frameRefs :: "buffer \<Rightarrow> frame_ref \<Rightarrow> op_ref list \<times> bool" where
  "frameRefs fd f =
     (if rf_type f = TYPE_SET \<or> rf_type f = TYPE_DEL then ([refs_of_frame f], False)
      else if rf_type f = TYPE_BATCH then
        (case readAt fd (rf_valueOff f) (rf_valLen f) of
           Inl e \<Rightarrow> ([], True)
         | Inr body \<Rightarrow>
             (case scanBatchOpRefs body (rf_valueOff f) of
                Inl e \<Rightarrow> ([], True)
              | Inr ops \<Rightarrow> (filter (\<lambda>op. or_type op = TYPE_SET \<or> or_type op = TYPE_DEL) ops, False)))
      else ([], False))"

definition refToOp ::
    "json_dt \<Rightarrow> int \<Rightarrow> db_file \<Rightarrow> buffer \<Rightarrow> value_mode \<Rightarrow> op_ref \<Rightarrow> recovery_error + recovered_op" where
  "refToOp json_dt now fl fd mode f =
     (if or_type f = TYPE_SET then setRefToOp json_dt now fl fd mode f else Inr (del_op (or_key f)))"

definition frameToOps ::
    "json_dt \<Rightarrow> (nat \<Rightarrow> int) \<Rightarrow> db_file \<Rightarrow> buffer \<Rightarrow> value_mode \<Rightarrow> nat \<Rightarrow> frame_ref \<Rightarrow>
       (recovery_error + recovered_op) list \<times> bool" where
  "frameToOps json_dt clock fl fd mode n f =
     (case frameRefs fd f of
        (refs, corrupt) \<Rightarrow> (map (\<lambda>(i, r). refToOp json_dt (clock i) fl fd mode r) (enumerate n refs), corrupt))"

section \<open>The slices of the replay\<close>

definition WAL_APPLY_OPS_PER_SLICE :: nat where "WAL_APPLY_OPS_PER_SLICE = 512"
definition WAL_APPLY_SLICE_MS :: rat where "WAL_APPLY_SLICE_MS = 8"

record slicer =
  sl_ops :: nat
  sl_start :: rat

text \<open>
  One call: whether to yield, at the time \<open>t\<close> the budget is checked and with \<open>t'\<close> the time read when it is reset.
\<close>

definition walApplySlicer :: "rat \<Rightarrow> rat \<Rightarrow> slicer \<Rightarrow> bool \<times> slicer" where
  "walApplySlicer t t' s =
     (if Suc (sl_ops s) < WAL_APPLY_OPS_PER_SLICE \<and> t - sl_start s < WAL_APPLY_SLICE_MS then (False, s\<lparr>sl_ops := Suc (sl_ops s)\<rparr>)
      else (True, \<lparr>sl_ops = 0, sl_start = t'\<rparr>))"

section \<open>Replay\<close>

definition apply_op :: "(nat \<Rightarrow> rat) \<Rightarrow> recovered_op \<Rightarrow> store \<Rightarrow> store option" where
  "apply_op draws op s =
     (if ro_type op = TYPE_SET then setRef draws (KBuf (ro_key op)) (the (ro_ref op)) (ro_expireAt op) (ro_dt op) s
      else if ro_type op = TYPE_DEL then do { (_, s') \<leftarrow> store_del (KBuf (ro_key op)) s; Some s' }
      else Some s)"

text \<open>The state of a replay: the store, the operations so far, the batches skipped.\<close>

record replay =
  rp_store :: store
  rp_ops :: nat
  rp_corrupt :: nat

fun apply_ops ::
    "(nat \<Rightarrow> nat \<Rightarrow> rat) \<Rightarrow> (recovery_error + recovered_op) list \<Rightarrow> replay \<Rightarrow> (recovery_error option \<times> replay) option" where
  "apply_ops draws [] r = Some (None, r)"
| "apply_ops draws (Inl e # ops) r = Some (Some e, r)"
| "apply_ops draws (Inr op # ops) r =
     do {
       s \<leftarrow> apply_op (draws (rp_ops r)) op (rp_store r);
       apply_ops draws ops (r\<lparr>rp_store := s, rp_ops := Suc (rp_ops r)\<rparr>)
     }"

fun applyFrames ::
    "json_dt \<Rightarrow> (nat \<Rightarrow> int) \<Rightarrow> (nat \<Rightarrow> nat \<Rightarrow> rat) \<Rightarrow> db_file \<Rightarrow> buffer \<Rightarrow> value_mode \<Rightarrow> frame_ref list \<Rightarrow> replay \<Rightarrow>
       (recovery_error option \<times> replay) option" where
  "applyFrames json_dt clock draws fl fd mode [] r = Some (None, r)"
| "applyFrames json_dt clock draws fl fd mode (f # fs) r =
     (case frameToOps json_dt clock fl fd mode (rp_ops r) f of
        (ops, corrupt) \<Rightarrow>
          do {
            (err, r') \<leftarrow> apply_ops draws ops (r\<lparr>rp_corrupt := rp_corrupt r + (if corrupt then 1 else 0)\<rparr>);
            (case err of
               Some e \<Rightarrow> Some (Some e, r')
             | None \<Rightarrow> applyFrames json_dt clock draws fl fd mode fs r')
          })"

section \<open>The pairing rule\<close>

record file_identity =
  id_dev :: nat
  id_ino :: nat
  id_size :: nat

definition sameGeneration :: "file_identity option \<Rightarrow> file_identity option \<Rightarrow> nat \<Rightarrow> bool" where
  "sameGeneration scanned after sizeFloor =
     (case (scanned, after) of
        (Some a, Some b) \<Rightarrow> id_dev a = id_dev b \<and> id_ino a = id_ino b \<and> sizeFloor \<le> id_size b
      | _ \<Rightarrow> scanned = None \<and> after = None)"

text \<open>The keys are those of the map when the walk starts; removing the one under way disturbs no other.\<close>

fun del_keys :: "string list \<Rightarrow> store \<Rightarrow> store option" where
  "del_keys [] s = Some s"
| "del_keys (k # ks) s = do { (_, s') \<leftarrow> store_del (KStr k) s; del_keys ks s' }"

definition resetStore :: "store \<Rightarrow> store option" where
  "resetStore s = del_keys (map fst (so_map s)) s"

section \<open>One pass\<close>

record opened =
  fo_id :: file_identity
  fo_bytes :: buffer
  fo_aborted :: "nat \<Rightarrow> bool"
  fo_window :: buffer

record pass_env =
  pe_snapshot :: "opened option"
  pe_wal :: "opened option"
  pe_snap_after :: "file_identity option"
  pe_wal_after :: "file_identity option"

record recovery_info =
  ri_snapshotFrames :: nat
  ri_walFrames :: nat
  ri_snapshotBytes :: nat
  ri_walBytes :: nat
  ri_truncatedWal :: bool
  ri_corruptRanges :: "(nat \<times> nat) list"
  ri_snapshotCorruptRanges :: "(nat \<times> nat) list"
  ri_lostBytes :: nat
  ri_walScanEnd :: nat
  ri_walDev :: nat
  ri_walIno :: nat
  ri_snapshotDev :: nat
  ri_snapshotIno :: nat
  ri_corruptBatches :: nat
  ri_generationRetries :: nat

record anchors =
  an_snapshot :: "(nat \<times> nat) option"
  an_wal :: "(nat \<times> nat) option"

datatype pass_result = Inconsistent | Consistent recovery_info anchors

type_synonym file_result = "recovery_error + scan_result"

text \<open>One file: scanned, its frames applied; a scan that fails applies nothing.\<close>

definition recover_file ::
    "json_dt \<Rightarrow> (nat \<Rightarrow> int) \<Rightarrow> (nat \<Rightarrow> nat \<Rightarrow> rat) \<Rightarrow> on_corrupt \<Rightarrow> value_mode \<Rightarrow> db_file \<Rightarrow> opened \<Rightarrow> replay \<Rightarrow>
       (file_result \<times> replay) option" where
  "recover_file json_dt clock draws mode vmode fl op r =
     (case scanFrameRefsFdAsync (fo_aborted op) (fo_window op) (fo_bytes op) mode 0 None DEFAULT_RESYNC_CANDIDATE_BUDGET of
        Inl e \<Rightarrow> Some (Inl (ScanFailed e), r)
      | Inr t \<Rightarrow>
          do {
            (err, r') \<leftarrow> applyFrames json_dt clock draws fl (fo_bytes op) vmode (sr_frames t) r;
            Some (case err of Some e \<Rightarrow> Inl e | None \<Rightarrow> Inr t, r')
          })"

definition no_scan :: scan_result where
  "no_scan = \<lparr>sr_frames = [], sr_corrupt = [], sr_eof = 0\<rparr>"

definition recover_file_opt ::
    "json_dt \<Rightarrow> (nat \<Rightarrow> int) \<Rightarrow> (nat \<Rightarrow> nat \<Rightarrow> rat) \<Rightarrow> on_corrupt \<Rightarrow> value_mode \<Rightarrow> db_file \<Rightarrow> opened option \<Rightarrow> replay \<Rightarrow>
       (file_result \<times> replay) option" where
  "recover_file_opt json_dt clock draws mode vmode fl op r =
     (case op of None \<Rightarrow> Some (Inr no_scan, r) | Some x \<Rightarrow> recover_file json_dt clock draws mode vmode fl x r)"

text \<open>Where the log is cut: at the start of a corrupt tail that reaches the size found at opening.\<close>

definition torn_at :: "bool \<Rightarrow> file_identity \<Rightarrow> scan_result \<Rightarrow> nat option" where
  "torn_at trunc ident t =
     (if trunc \<and> sr_corrupt t \<noteq> [] \<and> snd (last (sr_corrupt t)) = id_size ident then Some (fst (last (sr_corrupt t))) else None)"

definition range_bytes :: "(nat \<times> nat) list \<Rightarrow> nat" where
  "range_bytes rs = fold (\<lambda>(s, e) a. a + (e - s)) rs 0"

definition id_or :: "(file_identity \<Rightarrow> nat) \<Rightarrow> file_identity option \<Rightarrow> nat" where
  "id_or g i = (case i of None \<Rightarrow> 0 | Some x \<Rightarrow> g x)"

definition pass_info ::
    "file_identity option \<Rightarrow> file_identity option \<Rightarrow> scan_result \<Rightarrow> scan_result \<Rightarrow> nat option \<Rightarrow> nat \<Rightarrow> recovery_info" where
  "pass_info sid wid ts tw tail corrupt =
     \<lparr>ri_snapshotFrames = length (sr_frames ts), ri_walFrames = length (sr_frames tw),
      ri_snapshotBytes = id_or id_size sid, ri_walBytes = id_or id_size wid, ri_truncatedWal = (tail \<noteq> None),
      ri_corruptRanges = sr_corrupt tw, ri_snapshotCorruptRanges = sr_corrupt ts,
      ri_lostBytes = range_bytes (sr_corrupt tw @ sr_corrupt ts), ri_walScanEnd = sr_eof tw,
      ri_walDev = id_or id_dev wid, ri_walIno = id_or id_ino wid,
      ri_snapshotDev = id_or id_dev sid, ri_snapshotIno = id_or id_ino sid,
      ri_corruptBatches = corrupt, ri_generationRetries = 0\<rparr>"

definition anchor_of :: "file_identity option \<Rightarrow> (nat \<times> nat) option" where
  "anchor_of i = map_option (\<lambda>i. (id_dev i, id_ino i)) i"

text \<open>The result of a pass, where it truncated the log, and the store it leaves.\<close>

definition recoverPass ::
    "json_dt \<Rightarrow> (nat \<Rightarrow> int) \<Rightarrow> (nat \<Rightarrow> nat \<Rightarrow> rat) \<Rightarrow> on_corrupt \<Rightarrow> bool \<Rightarrow> value_mode \<Rightarrow> pass_env \<Rightarrow> store \<Rightarrow>
       ((recovery_error + pass_result) \<times> nat option \<times> store) option" where
  "recoverPass json_dt clock draws mode trunc vmode env s =
     do {
       (snap, r1) \<leftarrow> recover_file_opt json_dt clock draws mode vmode Snapshot (pe_snapshot env) \<lparr>rp_store = s, rp_ops = 0, rp_corrupt = 0\<rparr>;
       (case snap of
          Inl e \<Rightarrow> Some (Inl e, None, rp_store r1)
        | Inr ts \<Rightarrow>
            do {
              (wal, r2) \<leftarrow> recover_file_opt json_dt clock draws mode vmode Wal (pe_wal env) r1;
              (case wal of
                 Inl e \<Rightarrow> Some (Inl e, None, rp_store r2)
               | Inr tw \<Rightarrow>
                   let sid = map_option fo_id (pe_snapshot env); wid = map_option fo_id (pe_wal env);
                       tail = (case wid of None \<Rightarrow> None | Some w \<Rightarrow> torn_at trunc w tw);
                       sizeFloor = (case tail of Some c \<Rightarrow> c | None \<Rightarrow> id_or id_size wid)
                   in Some
                        (Inr (if \<not> sameGeneration sid (pe_snap_after env) (id_or id_size sid) then Inconsistent
                              else if \<not> sameGeneration wid (pe_wal_after env) sizeFloor then Inconsistent
                              else Consistent (pass_info sid wid ts tw tail (rp_corrupt r2))
                                     \<lparr>an_snapshot = anchor_of sid, an_wal = anchor_of wid\<rparr>),
                         tail, rp_store r2))
            })
     }"

section \<open>Retries\<close>

text \<open>\<open>attach\<close> is the answer of the reader's attach point to a consistent pass, when there is one.\<close>

definition attached :: "(nat \<Rightarrow> anchors \<Rightarrow> bool) option \<Rightarrow> nat \<Rightarrow> anchors \<Rightarrow> bool" where
  "attached attach attempt a = (case attach of None \<Rightarrow> True | Some f \<Rightarrow> f attempt a)"

function recover_loop ::
    "json_dt \<Rightarrow> (nat \<Rightarrow> nat \<Rightarrow> int) \<Rightarrow> (nat \<Rightarrow> nat \<Rightarrow> nat \<Rightarrow> rat) \<Rightarrow> on_corrupt \<Rightarrow> bool \<Rightarrow> value_mode \<Rightarrow> nat \<Rightarrow>
       (nat \<Rightarrow> anchors \<Rightarrow> bool) option \<Rightarrow> (nat \<Rightarrow> pass_env) \<Rightarrow> nat \<Rightarrow> store \<Rightarrow> ((recovery_error + recovery_info) \<times> store) option" where
  "recover_loop json_dt clock draws mode trunc vmode maxRetries attach env attempt s =
     do {
       (res, cut, s1) \<leftarrow> recoverPass json_dt (clock attempt) (draws attempt) mode trunc vmode (env attempt) s;
       (case res of
          Inl (ScanFailed e) \<Rightarrow>
            if e = ABORTED then do { s2 \<leftarrow> resetStore s1; Some (Inl (ScanFailed e), s2) } else Some (Inl (ScanFailed e), s1)
        | Inl e \<Rightarrow> Some (Inl e, s1)
        | Inr (Consistent info a) \<Rightarrow>
            if attached attach attempt a then Some (Inr (info\<lparr>ri_generationRetries := attempt\<rparr>), s1)
            else do {
              s2 \<leftarrow> resetStore s1;
              if maxRetries \<le> attempt then Some (Inl (GenerationChurn (Suc attempt)), s2)
              else recover_loop json_dt clock draws mode trunc vmode maxRetries attach env (Suc attempt) s2
            }
        | Inr Inconsistent \<Rightarrow>
            do {
              s2 \<leftarrow> resetStore s1;
              if maxRetries \<le> attempt then Some (Inl (GenerationChurn (Suc attempt)), s2)
              else recover_loop json_dt clock draws mode trunc vmode maxRetries attach env (Suc attempt) s2
            })
     }"
  by pat_completeness auto
termination
  by (relation "measure (\<lambda>(j, c, d, m, t, v, mx, a, e, attempt, s). mx - attempt)") auto

declare recover_loop.simps [simp del]

definition recover ::
    "json_dt \<Rightarrow> (nat \<Rightarrow> nat \<Rightarrow> int) \<Rightarrow> (nat \<Rightarrow> nat \<Rightarrow> nat \<Rightarrow> rat) \<Rightarrow> on_corrupt \<Rightarrow> bool \<Rightarrow> value_mode \<Rightarrow> nat \<Rightarrow>
       (nat \<Rightarrow> anchors \<Rightarrow> bool) option \<Rightarrow> (nat \<Rightarrow> pass_env) \<Rightarrow> store \<Rightarrow> ((recovery_error + recovery_info) \<times> store) option" where
  "recover json_dt clock draws mode trunc vmode maxRetries attach env s =
     recover_loop json_dt clock draws mode trunc vmode maxRetries attach env 0 s"

section \<open>Catching up\<close>

text \<open>The frames handed to the replica, in order, and where it continues; \<open>None\<close> is the answer \<open>null\<close>.\<close>

definition catchUpWal :: "opened option \<Rightarrow> int \<Rightarrow> nat \<times> nat \<Rightarrow> recovery_error + (nat \<times> frame_ref list) option" where
  "catchUpWal wal offset anchor =
     (case wal of
        None \<Rightarrow> Inr None
      | Some w \<Rightarrow>
          let sz = id_size (fo_id w); fd = fo_bytes w; start = nat offset in
          if (id_dev (fo_id w), id_ino (fo_id w)) \<noteq> anchor then Inr None
          else if offset < 0 \<or> offset > int sz then Inr None
          else
            (case scanFrameRefsFdAsync (\<lambda>_. False) (fo_window w) fd Strict start None DEFAULT_RESYNC_CANDIDATE_BUDGET of
               Inl e \<Rightarrow> Inl (ScanFailed e)
             | Inr t \<Rightarrow>
                 if sr_frames t = [] \<and> sr_eof t < sz then
                   let n = min (length MAGIC) (sz - start) in
                   ebind (readAt fd start n) (\<lambda>head. if take n MAGIC \<noteq> head then Inr None else Inr (Some (start, [])))
                 else Inr (Some (sr_eof t, sr_frames t))))"

end
