(* ===== verification/Recovery_Proofs.thy ===== *)
theory Recovery_Proofs imports Recovery Store_Refine FrameLog begin

text \<open>
  What a database holds after it is opened: the table its log describes, up to the last record that is whole; nothing of a
  pass that was discarded; and where a replica continues.
\<close>

section \<open>One operation\<close>

definition value_at :: "db_file \<Rightarrow> buffer \<Rightarrow> value_mode \<Rightarrow> op_ref \<Rightarrow> value_ref" where
  "value_at fl fd mode r =
     (case mode of DiskMode \<Rightarrow> OnDisk \<lparr>vl_file = fl, vl_off = or_valueOff r, vl_len = or_valLen r\<rparr>
      | MemoryMode \<Rightarrow> InMemory (slice fd (or_valueOff r) (or_valLen r)))"

definition dt_of :: "json_dt \<Rightarrow> buffer option \<Rightarrow> dt_columns option" where
  "dt_of json_dt meta = (case parseMeta json_dt meta of Inl _ \<Rightarrow> None | Inr dt \<Rightarrow> dt)"

text \<open>What a reference does to a table: the clock plays no part.\<close>

definition table_ref :: "json_dt \<Rightarrow> db_file \<Rightarrow> buffer \<Rightarrow> value_mode \<Rightarrow> op_ref \<Rightarrow> table \<Rightarrow> table" where
  "table_ref json_dt fl fd mode r t =
     (if or_type r = TYPE_SET
      then table_put (toKStr (KBuf (or_key r)))
             \<lparr>sp_ref = value_at fl fd mode r, sp_expireAt = or_expireAt r, sp_dt = dt_of json_dt (or_meta r)\<rparr> t
      else om_del (toKStr (KBuf (or_key r))) t)"

definition readable :: "json_dt \<Rightarrow> buffer \<Rightarrow> op_ref \<Rightarrow> bool" where
  "readable json_dt fd r \<longleftrightarrow> (or_type r = TYPE_SET \<or> or_type r = TYPE_DEL) \<and> or_valueOff r + or_valLen r \<le> length fd \<and>
     (\<forall>e. parseMeta json_dt (or_meta r) \<noteq> Inl e)"

lemma meets_put:
  assumes m: "meets T s t"
  obtains s' where "setRef draws key ref e dt s = Some s'"
    "meets T s' (table_put (toKStr key) \<lparr>sp_ref = ref, sp_expireAt = e, sp_dt = dt\<rparr> t)"
  using step_meets [OF m, of None "SetOp draws key ref e dt"] by (auto simp: bind_eq_Some_conv)

lemma meets_del:
  assumes m: "meets T s t"
  obtains b s' where "store_del key s = Some (b, s')" "meets T s' (om_del (toKStr key) t)"
proof -
  obtain a s' where "run_op None T (DelOp key) s = Some (a, s')" "meets T s' (om_del (toKStr key) t)"
    by (rule step_meets [OF m, of None "DelOp key"]) simp
  then show ?thesis using that by (cases "store_del key s") auto
qed

lemma types_differ [simp]: "TYPE_DEL \<noteq> TYPE_SET" "TYPE_SET \<noteq> TYPE_DEL" "TYPE_BATCH \<noteq> TYPE_SET" "TYPE_BATCH \<noteq> TYPE_DEL"
  "TYPE_SET \<noteq> TYPE_BATCH" "TYPE_DEL \<noteq> TYPE_BATCH"
  by (simp_all add: TYPE_SET_def TYPE_DEL_def TYPE_BATCH_def)

lemma lapsed_put_is_del:
  assumes "meets T s (om_del k t)" "e \<noteq> 0" "e \<le> T" "sorted_wrt str_less (map fst t)"
  shows "meets T s (table_put k \<lparr>sp_ref = ref, sp_expireAt = e, sp_dt = dt\<rparr> t)"
proof -
  have "shown T (table_put k \<lparr>sp_ref = ref, sp_expireAt = e, sp_dt = dt\<rparr> t) k' = shown T (om_del k t) k'" for k'
    using assms(2,3) by (auto simp: shown_def map_of_table_put om_get_del)
  moreover have "map_keys s \<subseteq> fst ` set (table_put k \<lparr>sp_ref = ref, sp_expireAt = e, sp_dt = dt\<rparr> t)"
    using assms(1) unfolding meets_def keys_om_del keys_table_put by blast
  ultimately show ?thesis using assms(1) sorted_table_put [OF assms(4)] by (simp add: meets_def)
qed

lemma ref_meets:
  assumes m: "meets T s t" and c: "c \<le> T" and r: "readable json_dt fd r"
  obtains p s' where "refToOp json_dt c fl fd mode r = Inr p" "apply_op draws p s = Some s'" "meets T s' (table_ref json_dt fl fd mode r t)"
proof -
  have del: "\<exists>s'. apply_op draws (del_op (or_key r)) s = Some s' \<and> meets T s' (om_del (toKStr (KBuf (or_key r))) t)"
    using meets_del [OF m, of "KBuf (or_key r)"] by (force simp: apply_op_def del_op_def)
  show ?thesis
  proof (cases "or_type r = TYPE_SET")
    case False
    then show ?thesis using del that r by (auto simp: refToOp_def table_ref_def readable_def)
  next
    case set: True
    show ?thesis
    proof (cases "or_expireAt r \<noteq> 0 \<and> or_expireAt r \<le> c")
      case True
      obtain s' where s': "apply_op draws (del_op (or_key r)) s = Some s'" "meets T s' (om_del (toKStr (KBuf (or_key r))) t)"
        using del by blast
      have "meets T s' (table_ref json_dt fl fd mode r t)"
        using lapsed_put_is_del [OF s'(2), of "or_expireAt r"] True c m set by (simp add: table_ref_def meets_def)
      then show ?thesis using s'(1) True set by (intro that) (auto simp: refToOp_def setRefToOp_def)
    next
      case False
      obtain dt where dt: "parseMeta json_dt (or_meta r) = Inr dt"
        using r by (cases "parseMeta json_dt (or_meta r)") (auto simp: readable_def)
      have "readAt fd (or_valueOff r) (or_valLen r) = Inr (slice fd (or_valueOff r) (or_valLen r))"
        using r by (simp add: readAt_def readable_def slice_def)
      then have "refToOp json_dt c fl fd mode r = Inr \<lparr>ro_type = TYPE_SET, ro_key = or_key r, ro_ref = Some (value_at fl fd mode r),
          ro_expireAt = or_expireAt r, ro_dt = dt\<rparr>"
        using False set dt by (auto simp: refToOp_def setRefToOp_def value_at_def split: value_mode.splits)
      moreover obtain s' where "setRef draws (KBuf (or_key r)) (value_at fl fd mode r) (or_expireAt r) dt s = Some s'"
        "meets T s' (table_put (toKStr (KBuf (or_key r))) \<lparr>sp_ref = value_at fl fd mode r, sp_expireAt = or_expireAt r, sp_dt = dt\<rparr> t)"
        by (rule meets_put [OF m])
      ultimately show ?thesis using set dt by (intro that) (auto simp: apply_op_def table_ref_def dt_of_def)
    qed
  qed
qed

section \<open>Frames\<close>

lemma apply_refs:
  "meets T (rp_store r) t \<Longrightarrow> \<forall>i. clock i \<le> T \<Longrightarrow> list_all (readable json_dt fd) refs \<Longrightarrow>
   \<exists>r'. apply_ops draws (map (\<lambda>(i, x). refToOp json_dt (clock i) fl fd mode x) (enumerate n refs)) r = Some (None, r') \<and>
     meets T (rp_store r') (fold (table_ref json_dt fl fd mode) refs t) \<and> rp_corrupt r' = rp_corrupt r"
proof (induction refs arbitrary: n r t)
  case (Cons x refs)
  obtain p s' where p: "refToOp json_dt (clock n) fl fd mode x = Inr p" "apply_op (draws (rp_ops r)) p (rp_store r) = Some s'"
    "meets T s' (table_ref json_dt fl fd mode x t)"
    using ref_meets [where json_dt = json_dt and fd = fd and r = x and fl = fl and mode = mode and draws = "draws (rp_ops r)",
        OF Cons.prems(1) spec [OF Cons.prems(2), of n]] Cons.prems(3) by auto
  have "meets T (rp_store (r\<lparr>rp_store := s', rp_ops := Suc (rp_ops r)\<rparr>)) (table_ref json_dt fl fd mode x t)" using p(3) by simp
  from Cons.IH [OF this Cons.prems(2), of "Suc n"] Cons.prems(3) show ?case using p(1,2) by auto
qed simp

definition frames_refs :: "buffer \<Rightarrow> frame_ref list \<Rightarrow> op_ref list" where
  "frames_refs fd fs = concat (map (\<lambda>f. fst (frameRefs fd f)) fs)"

lemma apply_frames:
  "meets T (rp_store r) t \<Longrightarrow> \<forall>i. clock i \<le> T \<Longrightarrow> list_all (readable json_dt fd) (frames_refs fd fs) \<Longrightarrow>
   list_all (\<lambda>f. \<not> snd (frameRefs fd f)) fs \<Longrightarrow>
   \<exists>r'. applyFrames json_dt clock draws fl fd mode fs r = Some (None, r') \<and>
     meets T (rp_store r') (fold (table_ref json_dt fl fd mode) (frames_refs fd fs) t) \<and> rp_corrupt r' = rp_corrupt r"
proof (induction fs arbitrary: r t)
  case (Cons f fs)
  obtain refs where f: "frameRefs fd f = (refs, False)" using Cons.prems(4) by (cases "frameRefs fd f") auto
  have "list_all (readable json_dt fd) refs" using Cons.prems(3) f by (simp add: frames_refs_def)
  from apply_refs [where draws = draws and fl = fl and mode = mode and n = "rp_ops r", OF Cons.prems(1,2) this] obtain r' where r':
    "apply_ops draws (map (\<lambda>(i, x). refToOp json_dt (clock i) fl fd mode x) (enumerate (rp_ops r) refs)) r = Some (None, r')"
    "meets T (rp_store r') (fold (table_ref json_dt fl fd mode) refs t)" "rp_corrupt r' = rp_corrupt r" by blast
  from Cons.IH [OF r'(2) Cons.prems(2)] Cons.prems(3,4) r'(1,3) f show ?case
    by (auto simp: frames_refs_def frameToOps_def)
qed (simp add: frames_refs_def)

section \<open>The writes of a log\<close>

text \<open>A write of the log: one operation, or a batch.\<close>

datatype log_write = Single batch_op | Group "batch_op list"

fun write_ops :: "log_write \<Rightarrow> batch_op list" where
  "write_ops (Single op) = [op]"
| "write_ops (Group ops) = ops"

text \<open>The frame of a write, as \<^verbatim>\<open>src/packages/minidb/src/write-path.ts\<close> encodes it.\<close>

fun write_input :: "log_write \<Rightarrow> codec_error + frame_input" where
  "write_input (Single op) =
     Inr \<lparr>fi_type = bo_type op, fi_key = bo_key op, fi_value = bo_value op, fi_meta = bo_meta op, fi_expireAt = Some (bo_expireAt op)\<rparr>"
| "write_input (Group ops) =
     ebind (encodeBatchOps ops) (\<lambda>body.
       Inr \<lparr>fi_type = TYPE_BATCH, fi_key = [], fi_value = Some body, fi_meta = None, fi_expireAt = None\<rparr>)"

definition encode_write :: "log_write \<Rightarrow> codec_error + buffer" where
  "encode_write w = ebind (write_input w) encodeFrame"

text \<open>A reference with the bytes it points at.\<close>

definition op_at :: "buffer \<Rightarrow> op_ref \<Rightarrow> batch_op" where
  "op_at fd r = \<lparr>bo_type = or_type r, bo_key = or_key r, bo_value = Some (slice fd (or_valueOff r) (or_valLen r)),
                 bo_meta = or_meta r, bo_expireAt = or_expireAt r\<rparr>"

definition inside :: "buffer \<Rightarrow> op_ref \<Rightarrow> bool" where
  "inside fd r \<longleftrightarrow> or_valueOff r + or_valLen r \<le> length fd"

lemma scan_ops_inside:
  "scan_ops n body bodyOff off = Inr (rs, e) \<Longrightarrow>
   list_all (\<lambda>r. bodyOff \<le> or_valueOff r \<and> or_valueOff r - bodyOff + or_valLen r \<le> length body \<and>
     (or_type r = TYPE_SET \<or> or_type r = TYPE_DEL)) rs"
proof (induction n arbitrary: off rs)
  case (Suc n)
  from Suc.prems show ?case
    by (auto simp: Let_def ebind_eq_Inr split: if_splits dest!: Suc.IH)
qed simp

lemma scan_batch_inside:
  assumes "scanBatchOpRefs (slice fd bodyOff len) bodyOff = Inr rs" "bodyOff + len \<le> length fd"
    "decodeBatchOps (slice fd bodyOff len) = Inr ops"
  shows "map (op_at fd) rs = ops" "list_all (inside fd) rs" "list_all (\<lambda>r. or_type r = TYPE_SET \<or> or_type r = TYPE_DEL) rs"
proof -
  have l: "list_all (\<lambda>r. bodyOff \<le> or_valueOff r \<and> or_valueOff r - bodyOff + or_valLen r \<le> len \<and>
     (or_type r = TYPE_SET \<or> or_type r = TYPE_DEL)) rs"
    using assms(1,2) scan_ops_inside [of _ "slice fd bodyOff len" bodyOff 2 rs]
    by (auto simp: scanBatchOpRefs_def ebind_eq_Inr length_slice split: if_splits)
  show "list_all (inside fd) rs" "list_all (\<lambda>r. or_type r = TYPE_SET \<or> or_type r = TYPE_DEL) rs"
    using l assms(2) by (auto simp: list_all_iff inside_def)
  have "resolve_op (slice fd bodyOff len) bodyOff r = op_at fd r" if "r \<in> set rs" for r
    using l that slice_slice [of "or_valueOff r - bodyOff" "or_valLen r" len fd bodyOff]
    by (auto simp: list_all_iff resolve_op_def op_at_def)
  then show "map (op_at fd) rs = ops"
    using assms(1,3) scan_batch_agrees [of "slice fd bodyOff len" bodyOff] by auto
qed

text \<open>What the frame of a write unrolls into is its operations.\<close>

lemma frame_of_write:
  assumes w: "write_input w = Inr fi" and ok: "list_all set_or_del (write_ops w)"
    and r: "resolve_ref fd f = decoded fi" and i: "rf_valueOff f + rf_valLen f \<le> length fd"
  shows "\<not> snd (frameRefs fd f)" "map (op_at fd) (fst (frameRefs fd f)) = map norm_op (write_ops w)"
    "list_all (inside fd) (fst (frameRefs fd f))" "list_all (\<lambda>r. or_type r = TYPE_SET \<or> or_type r = TYPE_DEL) (fst (frameRefs fd f))"
proof -
  have flds: "rf_type f = fi_type fi" "rf_key f = fi_key fi" "slice fd (rf_valueOff f) (rf_valLen f) = or_empty (fi_value fi)"
    "rf_meta f = (if or_empty (fi_meta fi) = [] then None else fi_meta fi)"
    "rf_expireAt f = (case fi_expireAt fi of None \<Rightarrow> 0 | Some e \<Rightarrow> js_number e)"
    using r by (auto simp: resolve_ref_def decoded_def)
  have "\<not> snd (frameRefs fd f) \<and> map (op_at fd) (fst (frameRefs fd f)) = map norm_op (write_ops w) \<and>
    list_all (inside fd) (fst (frameRefs fd f)) \<and> list_all (\<lambda>r. or_type r = TYPE_SET \<or> or_type r = TYPE_DEL) (fst (frameRefs fd f))"
  proof (cases w)
    case (Single op)
    then have "frameRefs fd f = ([refs_of_frame f], False)" using w ok flds by (auto simp: frameRefs_def)
    then show ?thesis using Single w ok flds i
      by (auto simp: refs_of_frame_def op_at_def norm_op_def inside_def intro!: batch_op.equality)
  next
    case (Group ops)
    then obtain body where b: "encodeBatchOps ops = Inr body" "fi_type fi = TYPE_BATCH" "fi_value fi = Some body"
      using w by (auto simp: ebind_eq_Inr)
    have read: "readAt fd (rf_valueOff f) (rf_valLen f) = Inr body"
      using i flds(3) b(3) by (auto simp: readAt_def or_empty_def slice_def)
    have dec: "decodeBatchOps body = Inr (map norm_op ops)" by (rule decode_encodeBatchOps [OF b(1)])
    then obtain rs where rs: "scanBatchOpRefs body (rf_valueOff f) = Inr rs"
      using scan_batch_agrees [of body "rf_valueOff f"] by (auto split: sum.splits)
    have eq: "slice fd (rf_valueOff f) (rf_valLen f) = body" using flds(3) b(3) by (simp add: or_empty_def)
    note s = scan_batch_inside [of fd "rf_valueOff f" "rf_valLen f", unfolded eq, OF rs i dec]
    have "frameRefs fd f = (rs, False)" using flds(1) b(2) read rs s(3) by (simp add: frameRefs_def list_all_iff)
    then show ?thesis using s Group by simp
  qed
  then show "\<not> snd (frameRefs fd f)" "map (op_at fd) (fst (frameRefs fd f)) = map norm_op (write_ops w)"
    "list_all (inside fd) (fst (frameRefs fd f))" "list_all (\<lambda>r. or_type r = TYPE_SET \<or> or_type r = TYPE_DEL) (fst (frameRefs fd f))" by blast+
qed

text \<open>What a write does to a table.\<close>

definition meta_of :: "batch_op \<Rightarrow> buffer option" where
  "meta_of op = (if or_empty (bo_meta op) = [] then None else bo_meta op)"

definition write_table :: "json_dt \<Rightarrow> batch_op \<Rightarrow> table \<Rightarrow> table" where
  "write_table json_dt op t =
     (if bo_type op = TYPE_SET
      then table_put (toKStr (KBuf (bo_key op)))
             \<lparr>sp_ref = InMemory (or_empty (bo_value op)), sp_expireAt = bo_expireAt op, sp_dt = dt_of json_dt (meta_of op)\<rparr> t
      else om_del (toKStr (KBuf (bo_key op))) t)"

definition well_written :: "json_dt \<Rightarrow> log_write \<Rightarrow> bool" where
  "well_written json_dt w \<longleftrightarrow> list_all (\<lambda>op. set_or_del op \<and> \<bar>bo_expireAt op\<bar> \<le> 2 ^ 53 \<and>
     (\<forall>e. parseMeta json_dt (meta_of op) \<noteq> Inl e)) (write_ops w)"

lemma ref_of_op:
  assumes "op_at fd r = norm_op op" "\<bar>bo_expireAt op\<bar> \<le> 2 ^ 53"
  shows "table_ref json_dt fl fd MemoryMode r = write_table json_dt op" "or_meta r = meta_of op" "or_type r = bo_type op"
proof -
  have "or_type r = bo_type op" "or_key r = bo_key op" "slice fd (or_valueOff r) (or_valLen r) = or_empty (bo_value op)"
    "or_meta r = meta_of op" "or_expireAt r = bo_expireAt op"
    using arg_cong [OF assms(1), of bo_type] arg_cong [OF assms(1), of bo_key] arg_cong [OF assms(1), of bo_value]
      arg_cong [OF assms(1), of bo_meta] arg_cong [OF assms(1), of bo_expireAt] assms(2)
    by (simp_all add: op_at_def norm_op_def meta_of_def js_number_exact)
  then show "table_ref json_dt fl fd MemoryMode r = write_table json_dt op" "or_meta r = meta_of op" "or_type r = bo_type op"
    by (auto simp: table_ref_def write_table_def value_at_def intro!: ext)
qed

lemma frame_of_write_replay:
  assumes w: "write_input w = Inr fi" and ok: "well_written json_dt w"
    and r: "resolve_ref fd f = decoded fi" and i: "rf_valueOff f + rf_valLen f \<le> length fd"
  shows "\<not> snd (frameRefs fd f)" "list_all (readable json_dt fd) (fst (frameRefs fd f))"
    "fold (table_ref json_dt fl fd MemoryMode) (fst (frameRefs fd f)) t = fold (write_table json_dt) (write_ops w) t"
proof -
  have "list_all set_or_del (write_ops w)" using ok by (auto simp: well_written_def list_all_iff)
  note f = frame_of_write [OF w this r i]
  show "\<not> snd (frameRefs fd f)" by (rule f(1))
  have pair: "list_all2 (\<lambda>x op. op_at fd x = norm_op op) (fst (frameRefs fd f)) (write_ops w)"
    using f(2) by (simp add: list_all2_conv_all_nth list_eq_iff_nth_eq)
  have each: "list_all2 (\<lambda>x op. table_ref json_dt fl fd MemoryMode x = write_table json_dt op \<and> or_meta x = meta_of op) (fst (frameRefs fd f)) (write_ops w)"
  proof (rule list_all2_all_nthI)
    fix i assume "i < length (fst (frameRefs fd f))"
    then have "op_at fd (fst (frameRefs fd f) ! i) = norm_op (write_ops w ! i)" "\<bar>bo_expireAt (write_ops w ! i)\<bar> \<le> 2 ^ 53"
      using pair ok by (auto simp: list_all2_conv_all_nth well_written_def list_all_length)
    then show "table_ref json_dt fl fd MemoryMode (fst (frameRefs fd f) ! i) = write_table json_dt (write_ops w ! i) \<and>
        or_meta (fst (frameRefs fd f) ! i) = meta_of (write_ops w ! i)" using ref_of_op(1,2) by blast
  qed (use pair in \<open>simp add: list_all2_lengthD\<close>)
  then show "fold (table_ref json_dt fl fd MemoryMode) (fst (frameRefs fd f)) t = fold (write_table json_dt) (write_ops w) t"
    by (induction arbitrary: t rule: list_all2_induct) auto
  show "list_all (readable json_dt fd) (fst (frameRefs fd f))"
    using each f(3,4) ok
    by (auto simp: list_all2_conv_all_nth list_all_length readable_def inside_def well_written_def)
qed

section \<open>The frames of a file\<close>

lemma ref_inside:
  assumes "readFrameRefAt fd pos (length fd) = Inr (Some r)"
  shows "rf_valueOff r + rf_valLen r \<le> length fd"
proof -
  obtain f n where f: "readFrameAt fd pos = Some (f, n)" and r: "r = ref_of pos f n"
    using assms by (auto simp: readFrameRefAt_whole)
  have f': "f = frame_at fd pos" and len: "pos + frameLen_at fd pos \<le> length fd"
    using f by (auto simp: readFrameAt_def Let_def split: if_splits)
  have "pos + 22 + keyLen_at fd pos + valLen_at fd pos \<le> length fd" using len by (simp add: frameLen_at_def HEADER_SIZE_def)
  then show ?thesis by (simp add: r f' ref_of_def frame_at_def Let_def HEADER_SIZE_def length_slice)
qed

lemma scan_loop_inside:
  "scan_loop fd mode sz budget pos cands = Inr t \<Longrightarrow> sz = length fd \<Longrightarrow> \<forall>f \<in> set (sr_frames t). rf_valueOff f + rf_valLen f \<le> length fd"
proof (induction fd mode sz budget pos cands arbitrary: t rule: scan_loop.induct)
  case (1 fd mode sz budget pos cands)
  note u = scan_loop.simps [of fd mode sz budget pos cands]
  show ?case
  proof (cases "sz \<le> pos")
    case False
    show ?thesis
    proof (cases "readFrameRefAt fd pos sz")
      case (Inr x)
      show ?thesis
      proof (cases x)
        case None
        show ?thesis
        proof (cases "mode = Strict")
          case strict: False
          show ?thesis
          proof (cases "\<exists>resume c. resync_file fd sz budget (pos + 1) cands = Inr (Some resume, c)")
            case True
            then obtain resume c where rs: "resync_file fd sz budget (pos + 1) cands = Inr (Some resume, c)" by blast
            obtain t' where t': "scan_loop fd mode sz budget resume c = Inr t'" "t = t'\<lparr>sr_corrupt := (pos, resume) # sr_corrupt t'\<rparr>"
              using 1(3) False None Inr strict rs by (auto simp: u ebind_eq_Inr)
            then show ?thesis using 1(1) [OF False Inr None strict rs refl refl t'(1) 1(4)] by simp
          next
            case none: False
            then have "sr_frames t = []" using 1(3) False None Inr strict
              by (auto simp: u split: sum.splits option.splits)
            then show ?thesis by simp
          qed
        qed (use 1(3) [unfolded u] False Inr None in auto)
      next
        case (Some r)
        obtain t' where t': "scan_loop fd mode sz budget (pos + rf_frameLen r) cands = Inr t'" "t = t'\<lparr>sr_frames := r # sr_frames t'\<rparr>"
          using 1(3) False Inr Some by (auto simp: u ebind_eq_Inr)
        then show ?thesis using 1(2) [OF False Inr Some t'(1) 1(4)] Inr Some 1(4) ref_inside [of fd pos r] by simp
      qed
    qed (use 1(3) False in \<open>auto simp: u\<close>)
  qed (use 1(3) in \<open>auto simp: u\<close>)
qed

text \<open>A file of whole records and a torn one, scanned strictly, or short enough for a full resynchronisation that finds nothing.\<close>

definition clean_open :: "on_corrupt \<Rightarrow> opened \<Rightarrow> buffer \<Rightarrow> buffer \<Rightarrow> bool" where
  "clean_open mode op body tail \<longleftrightarrow> fo_bytes op = body @ tail \<and> torn tail \<and> (\<forall>i. \<not> fo_aborted op i) \<and>
     length (fo_window op) = ASYNC_SCAN_WINDOW \<and>
     (mode = Strict \<or> length (body @ tail) \<le> DEFAULT_RESYNC_CANDIDATE_BUDGET \<and> no_frame_from (body @ tail) (length body))"

lemma scan_clean:
  assumes enc: "encodes fis bss" and op: "clean_open mode op (concat bss) tail"
  obtains t where "scanFrameRefsFdAsync (fo_aborted op) (fo_window op) (fo_bytes op) mode 0 None DEFAULT_RESYNC_CANDIDATE_BUDGET = Inr t"
    "map (resolve_ref (fo_bytes op)) (sr_frames t) = map decoded fis"
    "sr_corrupt t = (if tail = [] then [] else [(length (concat bss), length (fo_bytes op))])" "sr_eof t = length (concat bss)"
    "\<forall>f \<in> set (sr_frames t). rf_valueOff f + rf_valLen f \<le> length (fo_bytes op)"
proof -
  let ?fd = "fo_bytes op" and ?B = DEFAULT_RESYNC_CANDIDATE_BUDGET
  have fd: "?fd = concat bss @ tail" using op by (simp add: clean_open_def)
  have small: "mode = Strict \<or> length ?fd \<le> ?B" using op by (auto simp: clean_open_def)
  have "mode = Strict \<or> length ?fd - 0 \<le> ASYNC_SCAN_WINDOW"
    using small by (auto simp: ASYNC_SCAN_WINDOW_def DEFAULT_RESYNC_CANDIDATE_BUDGET_def)
  then have "scanFrameRefsFdAsync (fo_aborted op) (fo_window op) ?fd mode 0 None ?B = scanFrameRefsFd ?fd mode 0 ?B"
    using async_scan_loop [of "fo_window op" ASYNC_SCAN_WINDOW mode ?fd 0 "fo_aborted op" ?B] op
    by (auto simp: clean_open_def ASYNC_SCAN_WINDOW_def)
  moreover obtain t where t: "scan_loop ?fd mode (length ?fd) ?B 0 0 = Inr t" "resolve_scan ?fd t = parse_loop mode ?fd 0"
    using scan_loop_parse [of mode 0 ?fd 0 ?B] small by auto
  moreover have "parse_loop mode ?fd 0 = \<lparr>pr_frames = map decoded fis,
     pr_corrupt = (if tail = [] then [] else [(length (concat bss), length (concat bss @ tail))]), pr_eof = length (concat bss)\<rparr>"
    using parse_log [OF enc, of tail mode] op by (auto simp: clean_open_def parseBuffer_def fd)
  ultimately show ?thesis
    using scan_loop_inside [OF t(1) refl] by (intro that [of t]) (auto simp: scanFrameRefsFd_def resolve_scan_def fd)
qed

definition writes :: "log_write list \<Rightarrow> buffer list \<Rightarrow> bool" where
  "writes ws bss \<longleftrightarrow> list_all2 (\<lambda>w bs. encode_write w = Inr bs) ws bss"

lemma writes_encodes:
  assumes "writes ws bss"
  obtains fis where "encodes fis bss" "list_all2 (\<lambda>w fi. write_input w = Inr fi) ws fis"
proof -
  have "\<exists>fis. encodes fis bss \<and> list_all2 (\<lambda>w fi. write_input w = Inr fi) ws fis"
    using assms unfolding writes_def
  proof (induction rule: list_all2_induct)
    case (Cons w ws bs bss)
    then obtain fi fis where "write_input w = Inr fi" "encodeFrame fi = Inr bs" "encodes fis bss"
      "list_all2 (\<lambda>w fi. write_input w = Inr fi) ws fis" by (auto simp: encode_write_def ebind_eq_Inr)
    then show ?case by (intro exI [of _ "fi # fis"]) (simp add: encodes_Cons)
  qed simp
  then show ?thesis using that by blast
qed

lemma replay_frames:
  "list_all2 (\<lambda>w fi. write_input w = Inr fi) ws fis \<Longrightarrow> list_all (well_written json_dt) ws \<Longrightarrow>
   map (resolve_ref fd) fs = map decoded fis \<Longrightarrow> \<forall>f \<in> set fs. rf_valueOff f + rf_valLen f \<le> length fd \<Longrightarrow>
   list_all (\<lambda>f. \<not> snd (frameRefs fd f)) fs \<and> list_all (readable json_dt fd) (frames_refs fd fs) \<and>
   fold (table_ref json_dt fl fd MemoryMode) (frames_refs fd fs) t = fold (write_table json_dt) (concat (map write_ops ws)) t"
proof (induction arbitrary: fs t rule: list_all2_induct)
  case (Cons w ws fi fis)
  from Cons.prems(2) obtain f fs' where fs: "fs = f # fs'" "resolve_ref fd f = decoded fi" "map (resolve_ref fd) fs' = map decoded fis"
    by (auto simp: Cons_eq_map_conv)
  have "rf_valueOff f + rf_valLen f \<le> length fd" "well_written json_dt w" using Cons.prems fs by auto
  note f = frame_of_write_replay [OF Cons.hyps(1) this(2) fs(2) this(1)]
  from Cons.IH [of fs' "fold (write_table json_dt) (write_ops w) t"] Cons.prems fs f show ?case
    by (auto simp: frames_refs_def)
qed (simp add: frames_refs_def)

text \<open>Opening a clean file brings the table to what its writes make of it.\<close>

lemma recover_file_clean:
  assumes ws: "writes ws bss" "list_all (well_written json_dt) ws" and op: "clean_open mode op (concat bss) tail"
    and m: "meets T (rp_store r) t0" and clock: "\<forall>i. clock i \<le> T"
  obtains t r' where "recover_file json_dt clock draws mode MemoryMode fl op r = Some (Inr t, r')"
    "meets T (rp_store r') (fold (write_table json_dt) (concat (map write_ops ws)) t0)" "rp_corrupt r' = rp_corrupt r"
    "length (sr_frames t) = length ws"
    "sr_corrupt t = (if tail = [] then [] else [(length (concat bss), length (fo_bytes op))])" "sr_eof t = length (concat bss)"
proof -
  obtain fis where fis: "encodes fis bss" "list_all2 (\<lambda>w fi. write_input w = Inr fi) ws fis" by (rule writes_encodes [OF ws(1)])
  obtain t where t: "scanFrameRefsFdAsync (fo_aborted op) (fo_window op) (fo_bytes op) mode 0 None DEFAULT_RESYNC_CANDIDATE_BUDGET = Inr t"
    "map (resolve_ref (fo_bytes op)) (sr_frames t) = map decoded fis"
    "sr_corrupt t = (if tail = [] then [] else [(length (concat bss), length (fo_bytes op))])" "sr_eof t = length (concat bss)"
    "\<forall>f \<in> set (sr_frames t). rf_valueOff f + rf_valLen f \<le> length (fo_bytes op)"
    by (rule scan_clean [OF fis(1) op])
  have rep: "list_all (\<lambda>f. \<not> snd (frameRefs (fo_bytes op) f)) (sr_frames t)"
    "list_all (readable json_dt (fo_bytes op)) (frames_refs (fo_bytes op) (sr_frames t))"
    "fold (table_ref json_dt fl (fo_bytes op) MemoryMode) (frames_refs (fo_bytes op) (sr_frames t)) t0 =
       fold (write_table json_dt) (concat (map write_ops ws)) t0"
    using replay_frames [OF fis(2) ws(2) t(2,5)] by blast+
  obtain r' where r': "applyFrames json_dt clock draws fl (fo_bytes op) MemoryMode (sr_frames t) r = Some (None, r')"
    "meets T (rp_store r') (fold (table_ref json_dt fl (fo_bytes op) MemoryMode) (frames_refs (fo_bytes op) (sr_frames t)) t0)"
    "rp_corrupt r' = rp_corrupt r" using apply_frames [OF m clock rep(2,1)] by blast
  have "length (sr_frames t) = length ws" using arg_cong [OF t(2), of length] list_all2_lengthD [OF fis(2)] by simp
  then show ?thesis using t r' rep(3) by (intro that [of t r']) (simp_all add: recover_file_def)
qed

end
