(* ===== verification/Recovery_Open.thy ===== *)
theory Recovery_Open imports Recovery_Proofs begin

text \<open>
  The properties of opening: what a crash leaves, what a discarded pass leaves, how long a slice of the replay is, and how
  a replica follows a log that grows.
\<close>

section \<open>A pass\<close>

lemma torn_at_clean:
  assumes "sr_corrupt t = (if tail = [] then [] else [(e, id_size ident)])"
  shows "torn_at trunc ident t = (if trunc \<and> tail \<noteq> [] then Some e else None)"
  using assms by (simp add: torn_at_def)

lemma sameGeneration_refl: "sameGeneration i i (id_or id_size i)"
  by (cases i) (simp_all add: sameGeneration_def id_or_def)

text \<open>
  A database reopened after a crash holds what its log had whole. With the snapshot intact and the log cut at any
  byte, and whatever has lapsed meanwhile, opening it succeeds in one pass, reports where the last whole write ends
  and how many bytes are lost, cuts the log there if it may, and the store answers from then on as the table made by
  the snapshot's writes and the whole writes of the log, each batch entirely or not at all.
\<close>
theorem recovery_after_crash:
  assumes "writes sws sbss" "writes ws bss" "list_all (well_written json_dt) (sws @ ws)" "n \<le> length (concat bss)"
    and "sn = \<lparr>fo_id = sid, fo_bytes = concat sbss, fo_aborted = \<lambda>_. False, fo_window = junk\<rparr>"
    and "wal = \<lparr>fo_id = wid\<lparr>id_size := n\<rparr>, fo_bytes = take n (concat bss), fo_aborted = \<lambda>_. False, fo_window = junk'\<rparr>"
    and "length junk = ASYNC_SCAN_WINDOW" "length junk' = ASYNC_SCAN_WINDOW"
    and "\<forall>i. clock 0 i \<le> T" "sorted (T # map fst ps)"
  shows "\<exists>k \<le> length ws. \<exists>info s as s'. let e = length (concat (take k bss)) in
    e \<le> n \<and> (k < length ws \<longrightarrow> n < e + length (bss ! k)) \<and>
    recover json_dt clock draws Strict trunc MemoryMode retries None
      (\<lambda>_. \<lparr>pe_snapshot = Some sn, pe_wal = Some wal, pe_snap_after = Some sid,
            pe_wal_after = Some (wid\<lparr>id_size := if trunc then e else n\<rparr>)\<rparr>) new_store = Some (Inr info, s) \<and>
    ri_walFrames info = k \<and> ri_walScanEnd info = e \<and> ri_lostBytes info = n - e \<and> ri_truncatedWal info = (trunc \<and> e < n) \<and>
    ri_corruptBatches info = 0 \<and> ri_generationRetries info = 0 \<and>
    run_ops reader ps s = Some (as, s') \<and>
    all_fit reader (fold (write_table json_dt) (concat (map write_ops (sws @ take k ws))) []) ps as"
proof -
  obtain fis where fis: "encodes fis bss" "list_all2 (\<lambda>w fi. write_input w = Inr fi) ws fis" by (rule writes_encodes [OF assms(2)])
  have len: "length fis = length ws" using list_all2_lengthD [OF fis(2)] by simp
  obtain k tail where k: "k \<le> length fis" "take n (concat bss) = concat (take k bss) @ tail" "torn tail"
    "k < length fis \<Longrightarrow> strict_prefix tail (bss ! k)" by (rule log_prefix [OF fis(1) take_is_prefix [of n]]) blast
  let ?e = "length (concat (take k bss))"
  have n: "n = ?e + length tail" using arg_cong [OF k(2), of length] assms(4) by simp
  have wk: "writes (take k ws) (take k bss)" using assms(2) by (simp add: writes_def)
  have well: "list_all (well_written json_dt) sws" "list_all (well_written json_dt) (take k ws)"
    using assms(3) by (auto simp: list_all_iff dest: in_set_takeD)
  let ?r0 = "\<lparr>rp_store = new_store, rp_ops = 0, rp_corrupt = 0\<rparr>"
  have cs: "clean_open Strict sn (concat sbss) []" using assms(5,7) torn_Nil by (simp add: clean_open_def)
  have m0: "meets T (rp_store ?r0) []" by (simp add: new_store_meets)
  obtain ts r1 where s: "recover_file json_dt (clock 0) (draws 0) Strict MemoryMode Snapshot sn ?r0 = Some (Inr ts, r1)"
    "meets T (rp_store r1) (fold (write_table json_dt) (concat (map write_ops sws)) [])" "rp_corrupt r1 = rp_corrupt ?r0"
    "length (sr_frames ts) = length sws"
    "sr_corrupt ts = (if ([] :: buffer) = [] then [] else [(length (concat sbss), length (fo_bytes sn))])" "sr_eof ts = length (concat sbss)"
    by (rule recover_file_clean [OF assms(1) well(1) cs m0 assms(9)])
  have cw: "clean_open Strict wal (concat (take k bss)) tail" using assms(6,8) k(2,3) by (simp add: clean_open_def)
  obtain tw r2 where w: "recover_file json_dt (clock 0) (draws 0) Strict MemoryMode Wal wal r1 = Some (Inr tw, r2)"
    "meets T (rp_store r2) (fold (write_table json_dt) (concat (map write_ops (take k ws)))
       (fold (write_table json_dt) (concat (map write_ops sws)) []))" "rp_corrupt r2 = rp_corrupt r1"
    "length (sr_frames tw) = length (take k ws)"
    "sr_corrupt tw = (if tail = [] then [] else [(?e, length (fo_bytes wal))])" "sr_eof tw = ?e"
    by (rule recover_file_clean [OF wk well(2) cw s(2) assms(9)])
  define env where "env = \<lparr>pe_snapshot = Some sn, pe_wal = Some wal, pe_snap_after = Some sid,
      pe_wal_after = Some (wid\<lparr>id_size := if trunc then ?e else n\<rparr>)\<rparr>"
  have ef: "pe_snapshot env = Some sn" "pe_wal env = Some wal" "pe_snap_after env = Some sid" by (simp_all add: env_def)
  have ids: "fo_id sn = sid" "fo_id wal = wid\<lparr>id_size := n\<rparr>" "length (fo_bytes wal) = n" using assms(4-6) by simp_all
  have torn: "torn_at trunc (fo_id wal) tw = (if trunc \<and> tail \<noteq> [] then Some ?e else None)"
    using w(5) by (intro torn_at_clean) (simp add: ids)
  define info where "info = pass_info (Some sid) (Some (fo_id wal)) ts tw (torn_at trunc (fo_id wal) tw) 0"
  have gs: "sameGeneration (Some sid) (Some sid) (id_or id_size (Some sid))" by (rule sameGeneration_refl)
  have gw: "sameGeneration (Some (fo_id wal)) (pe_wal_after env)
      (case torn_at trunc (fo_id wal) tw of None \<Rightarrow> id_or id_size (Some (fo_id wal)) | Some c \<Rightarrow> c)"
    using n unfolding torn by (auto simp: ids sameGeneration_def id_or_def env_def)
  have pass: "recoverPass json_dt (clock 0) (draws 0) Strict trunc MemoryMode env new_store =
      Some (Inr (Consistent info \<lparr>an_snapshot = anchor_of (Some sid), an_wal = anchor_of (Some (fo_id wal))\<rparr>),
        torn_at trunc (fo_id wal) tw, rp_store r2)"
    using s(1,3) w(1,3) gs gw by (simp add: recoverPass_def recover_file_opt_def ef ids(1) info_def Let_def)
  have rec: "recover json_dt clock draws Strict trunc MemoryMode retries None (\<lambda>_. env) new_store =
      Some (Inr (info\<lparr>ri_generationRetries := 0\<rparr>), rp_store r2)"
    unfolding recover_def by (subst recover_loop.simps) (simp add: pass attached_def)
  have "fold (write_table json_dt) (concat (map write_ops (take k ws))) (fold (write_table json_dt) (concat (map write_ops sws)) []) =
      fold (write_table json_dt) (concat (map write_ops (sws @ take k ws))) []" by simp
  with run_meets [OF w(2) assms(10)] obtain as s' where run: "run_ops reader ps (rp_store r2) = Some (as, s')"
    "all_fit reader (fold (write_table json_dt) (concat (map write_ops (sws @ take k ws))) []) ps as" by metis
  have flds: "ri_walFrames info = k" "ri_walScanEnd info = ?e" "ri_lostBytes info = n - ?e" "ri_corruptBatches info = 0"
    "ri_truncatedWal info = (trunc \<and> ?e < n)"
    using w(4-6) s(4,5) k(1) len n unfolding info_def torn by (auto simp: pass_info_def range_bytes_def ids)
  have "k < length ws \<longrightarrow> n < ?e + length (bss ! k)" using k(4) n len prefix_length_less by auto
  then show ?thesis using rec run flds k(1) len n
    unfolding Let_def env_def by (intro exI [of _ k] conjI exI [of _ "info\<lparr>ri_generationRetries := 0\<rparr>"] exI [of _ "rp_store r2"] exI [of _ as] exI [of _ s']) simp_all
qed

section \<open>Whatever the files hold\<close>

lemma meets_of_ok: "store_ok s \<Longrightarrow> \<exists>a s'. run_op None now p s = Some (a, s') \<and> store_ok s'"
  by (rule step_ok)

lemma apply_op_ok:
  assumes "store_ok s" "ro_type op = TYPE_SET \<longrightarrow> ro_ref op \<noteq> None"
  shows "\<exists>s'. apply_op draws op s = Some s' \<and> store_ok s'"
  using step_ok [OF assms(1), of None 0 "SetOp draws (KBuf (ro_key op)) (the (ro_ref op)) (ro_expireAt op) (ro_dt op)"]
    step_ok [OF assms(1), of None 0 "DelOp (KBuf (ro_key op))"] assms(1)
  by (cases "setRef draws (KBuf (ro_key op)) (the (ro_ref op)) (ro_expireAt op) (ro_dt op) s"; cases "store_del (KBuf (ro_key op)) s")
     (auto simp: apply_op_def)

lemma refToOp_ref: "refToOp json_dt now fl fd mode r = Inr op \<Longrightarrow> ro_type op = TYPE_SET \<longrightarrow> ro_ref op \<noteq> None"
  by (auto simp: refToOp_def setRefToOp_def del_op_def ebind_eq_Inr split: if_splits)

lemma apply_ops_ok:
  "store_ok (rp_store r) \<Longrightarrow> \<forall>op \<in> set ops. \<forall>p. op = Inr p \<longrightarrow> ro_type p = TYPE_SET \<longrightarrow> ro_ref p \<noteq> None \<Longrightarrow>
   \<exists>e r'. apply_ops draws ops r = Some (e, r') \<and> store_ok (rp_store r')"
proof (induction ops arbitrary: r)
  case (Cons op ops)
  show ?case
  proof (cases op)
    case (Inr p)
    obtain s' where s': "apply_op (draws (rp_ops r)) p (rp_store r) = Some s'" "store_ok s'"
      using apply_op_ok [OF Cons.prems(1), of p "draws (rp_ops r)"] Cons.prems(2) Inr by auto
    have "store_ok (rp_store (r\<lparr>rp_store := s', rp_ops := Suc (rp_ops r)\<rparr>))" using s'(2) by simp
    from Cons.IH [OF this] Cons.prems(2) show ?thesis using s'(1) Inr by simp
  qed (use Cons.prems in simp)
qed simp

lemma applyFrames_ok:
  "store_ok (rp_store r) \<Longrightarrow> \<exists>e r'. applyFrames json_dt clock draws fl fd mode fs r = Some (e, r') \<and> store_ok (rp_store r')"
proof (induction fs arbitrary: r)
  case (Cons f fs)
  obtain ops c where f: "frameToOps json_dt clock fl fd mode (rp_ops r) f = (ops, c)" by (cases "frameToOps json_dt clock fl fd mode (rp_ops r) f")
  have "\<forall>op \<in> set ops. \<forall>p. op = Inr p \<longrightarrow> ro_type p = TYPE_SET \<longrightarrow> ro_ref p \<noteq> None"
    using f by (auto simp: frameToOps_def case_prod_unfold dest: sym [THEN refToOp_ref])
  moreover have "store_ok (rp_store (r\<lparr>rp_corrupt := rp_corrupt r + (if c then 1 else 0)\<rparr>))" using Cons.prems by simp
  ultimately obtain e r' where r': "apply_ops draws ops (r\<lparr>rp_corrupt := rp_corrupt r + (if c then 1 else 0)\<rparr>) = Some (e, r')"
    "store_ok (rp_store r')" using apply_ops_ok by blast
  show ?case
  proof (cases e)
    case None
    then show ?thesis using Cons.IH [OF r'(2)] f r'(1) by simp
  next
    case (Some err)
    then show ?thesis using f r' by simp
  qed
qed simp

lemma recover_file_opt_ok:
  assumes "store_ok (rp_store r)"
  shows "\<exists>x r'. recover_file_opt json_dt clock draws mode vmode fl op r = Some (x, r') \<and> store_ok (rp_store r')"
proof (cases op)
  case (Some o')
  show ?thesis
  proof (cases "scanFrameRefsFdAsync (fo_aborted o') (fo_window o') (fo_bytes o') mode 0 None DEFAULT_RESYNC_CANDIDATE_BUDGET")
    case (Inr t)
    obtain e r' where "applyFrames json_dt clock draws fl (fo_bytes o') vmode (sr_frames t) r = Some (e, r')" "store_ok (rp_store r')"
      using applyFrames_ok [OF assms] by blast
    then show ?thesis using Some Inr by (simp add: recover_file_opt_def recover_file_def)
  qed (use assms Some in \<open>simp add: recover_file_opt_def recover_file_def\<close>)
qed (use assms in \<open>simp add: recover_file_opt_def\<close>)

lemma recoverPass_ok:
  assumes "store_ok s"
  shows "\<exists>res cut s'. recoverPass json_dt clock draws mode trunc vmode env s = Some (res, cut, s') \<and> store_ok s'"
proof -
  let ?r0 = "\<lparr>rp_store = s, rp_ops = 0, rp_corrupt = 0\<rparr>"
  have "store_ok (rp_store ?r0)" using assms by simp
  from recover_file_opt_ok [OF this] obtain x r1 where
    x: "recover_file_opt json_dt clock draws mode vmode Snapshot (pe_snapshot env) ?r0 = Some (x, r1)" "store_ok (rp_store r1)" by blast
  show ?thesis
  proof (cases x)
    case (Inr ts)
    obtain y r2 where y: "recover_file_opt json_dt clock draws mode vmode Wal (pe_wal env) r1 = Some (y, r2)" "store_ok (rp_store r2)"
      using recover_file_opt_ok [OF x(2)] by blast
    then show ?thesis using x(1) Inr by (cases y) (simp_all add: recoverPass_def Let_def)
  qed (use x in \<open>simp add: recoverPass_def\<close>)
qed

lemma del_keys_ok:
  "store_ok s \<Longrightarrow> \<exists>s'. del_keys ks s = Some s' \<and> store_ok s' \<and> so_map s' = filter (\<lambda>(k, r). k \<notin> set ks) (so_map s)"
proof (induction ks arbitrary: s)
  case (Cons k ks)
  obtain s1 where s1: "store_remove k s = Some (om_get (so_map s) k \<noteq> None, s1)" "store_ok s1" "so_map s1 = om_del k (so_map s)"
    "so_heap s1 = so_heap s" "so_loading s1 = so_loading s" "so_aggressive s1 = so_aggressive s" by (rule store_remove_ok [OF Cons.prems])
  obtain s' where s': "del_keys ks s1 = Some s'" "store_ok s'" "so_map s' = filter (\<lambda>(k, r). k \<notin> set ks) (so_map s1)"
    using Cons.IH [OF s1(2)] by blast
  have "so_map s' = filter (\<lambda>(k', r). k' \<notin> set (k # ks)) (so_map s)"
    unfolding s'(3) s1(3) om_del_def filter_filter by (rule filter_cong) auto
  then show ?case using s1(1) s'(1,2) by (simp add: store_del_def toKStr_def)
qed simp

lemma resetStore_ok:
  assumes "store_ok s"
  obtains s' where "resetStore s = Some s'" "store_ok s'" "so_map s' = []"
proof -
  have "filter (\<lambda>(k, r). k \<notin> set (map fst (so_map s))) (so_map s) = []" by (auto simp: filter_empty_conv image_iff)
  then show ?thesis using del_keys_ok [OF assms, of "map fst (so_map s)"] that by (auto simp: resetStore_def)
qed

section \<open>Retries\<close>

text \<open>What a caller of \<open>recover\<close> can rely on.\<close>

definition outcome_ok ::
    "json_dt \<Rightarrow> (nat \<Rightarrow> nat \<Rightarrow> int) \<Rightarrow> (nat \<Rightarrow> nat \<Rightarrow> nat \<Rightarrow> rat) \<Rightarrow> on_corrupt \<Rightarrow> bool \<Rightarrow> value_mode \<Rightarrow> nat \<Rightarrow>
       (nat \<Rightarrow> anchors \<Rightarrow> bool) option \<Rightarrow> (nat \<Rightarrow> pass_env) \<Rightarrow> recovery_error + recovery_info \<Rightarrow> store \<Rightarrow> bool" where
  "outcome_ok json_dt clock draws mode trunc vmode retries attach env res s' \<longleftrightarrow>
     (case res of
        Inr info \<Rightarrow>
          (let i = ri_generationRetries info in
           i \<le> retries \<and>
           (\<exists>s0 cut info0 a. store_ok s0 \<and> so_map s0 = [] \<and> attached attach i a \<and> info = info0\<lparr>ri_generationRetries := i\<rparr> \<and>
              recoverPass json_dt (clock i) (draws i) mode trunc vmode (env i) s0 = Some (Inr (Consistent info0 a), cut, s')))
      | Inl (GenerationChurn n) \<Rightarrow> n = Suc retries \<and> so_map s' = []
      | Inl (ScanFailed e) \<Rightarrow> (if e = ABORTED then so_map s' = [] else True)
      | Inl _ \<Rightarrow> True)"

lemma recoverPass_no_churn:
  "recoverPass json_dt clock draws mode trunc vmode env s = Some (Inl e, tail, s') \<Longrightarrow> \<forall>n. e \<noteq> GenerationChurn n"
proof -
  assume p: "recoverPass json_dt clock draws mode trunc vmode env s = Some (Inl e, tail, s')"
  have op: "\<forall>x \<in> set ops. \<forall>n. x \<noteq> Inl (GenerationChurn n) \<Longrightarrow> apply_ops draws ops r = Some (Some e, r') \<Longrightarrow> \<forall>n. e \<noteq> GenerationChurn n" for ops r r' e
    by (induction draws ops r rule: apply_ops.induct) (auto simp: bind_eq_Some_conv)
  have ref: "refToOp json_dt now fl fd vm r \<noteq> Inl (GenerationChurn n)" for now fl fd vm r n
    by (auto simp: refToOp_def setRefToOp_def parseMeta_def readAt_def ebind_def split: if_splits option.splits sum.splits value_mode.splits)
  have fr: "applyFrames json_dt clock draws fl fd vm fs r = Some (Some e, r') \<Longrightarrow> \<forall>n. e \<noteq> GenerationChurn n" for fl fd vm fs r r' e
  proof (induction fs arbitrary: r)
    case (Cons f fs)
    obtain ops c where f: "frameToOps json_dt clock fl fd vm (rp_ops r) f = (ops, c)" by (cases "frameToOps json_dt clock fl fd vm (rp_ops r) f")
    have "\<forall>x \<in> set ops. \<forall>n. x \<noteq> Inl (GenerationChurn n)" using f ref ref [THEN not_sym] by (auto simp: frameToOps_def case_prod_unfold)
    then have "apply_ops draws ops r0 \<noteq> Some (Some (GenerationChurn n), r1)" for r0 r1 n using op by blast
    with Cons f show ?case by (auto simp: bind_eq_Some_conv split: option.splits)
  qed simp
  have fo: "recover_file_opt json_dt clock draws mode vmode fl o' r = Some (Inl e, r') \<Longrightarrow> \<forall>n. e \<noteq> GenerationChurn n" for fl o' r r' e
    using fr by (auto simp: recover_file_opt_def recover_file_def bind_eq_Some_conv split: option.splits sum.splits)
  let ?snap = "recover_file_opt json_dt clock draws mode vmode Snapshot (pe_snapshot env) \<lparr>rp_store = s, rp_ops = 0, rp_corrupt = 0\<rparr>"
  obtain x r1 where x: "?snap = Some (x, r1)" using p by (cases ?snap) (auto simp: recoverPass_def)
  show ?thesis
  proof (cases x)
    case (Inl e')
    then show ?thesis using p x fo [of Snapshot "pe_snapshot env"] by (simp add: recoverPass_def)
  next
    case (Inr ts)
    let ?wal = "recover_file_opt json_dt clock draws mode vmode Wal (pe_wal env) r1"
    obtain y r2 where y: "?wal = Some (y, r2)" using p x Inr by (cases ?wal) (auto simp: recoverPass_def)
    then show ?thesis using p x Inr fo [of Wal "pe_wal env" r1] by (cases y) (simp_all add: recoverPass_def Let_def)
  qed
qed

lemma recover_loop_ok:
  "store_ok s \<Longrightarrow> so_map s = [] \<Longrightarrow> attempt \<le> retries \<Longrightarrow>
   \<exists>res s'. recover_loop json_dt clock draws mode trunc vmode retries attach env attempt s = Some (res, s') \<and> store_ok s' \<and>
     outcome_ok json_dt clock draws mode trunc vmode retries attach env res s'"
proof (induction "retries - attempt" arbitrary: attempt s rule: less_induct)
  case less
  note u = recover_loop.simps [of json_dt clock draws mode trunc vmode retries attach env attempt s]
  obtain res cut s1 where p: "recoverPass json_dt (clock attempt) (draws attempt) mode trunc vmode (env attempt) s = Some (res, cut, s1)"
    "store_ok s1" using recoverPass_ok [OF less.prems(1)] by blast
  obtain s2 where s2: "resetStore s1 = Some s2" "store_ok s2" "so_map s2 = []" by (rule resetStore_ok [OF p(2)])
  have again: ?case if "recover_loop json_dt clock draws mode trunc vmode retries attach env attempt s =
      (if retries \<le> attempt then Some (Inl (GenerationChurn (Suc attempt)), s2)
       else recover_loop json_dt clock draws mode trunc vmode retries attach env (Suc attempt) s2)"
    using that s2 less.prems less.hyps [of "Suc attempt" s2] by (auto simp: outcome_ok_def)
  show ?case
  proof (cases res)
    case (Inl e)
    have "\<forall>n. e \<noteq> GenerationChurn n" by (rule recoverPass_no_churn [OF p(1) [unfolded Inl]])
    then show ?thesis using p s2 Inl by (cases e) (auto simp: u outcome_ok_def)
  next
    case (Inr x)
    show ?thesis
    proof (cases x)
      case Inconsistent
      show ?thesis by (rule again) (simp add: u p(1) Inr Inconsistent s2(1))
    next
      case (Consistent info a)
      show ?thesis
      proof (cases "attached attach attempt a")
        case True
        then have "recover_loop json_dt clock draws mode trunc vmode retries attach env attempt s =
            Some (Inr (info\<lparr>ri_generationRetries := attempt\<rparr>), s1)" by (simp add: u p(1) Inr Consistent)
        moreover have "outcome_ok json_dt clock draws mode trunc vmode retries attach env (Inr (info\<lparr>ri_generationRetries := attempt\<rparr>)) s1"
          using less.prems p(1) Inr Consistent True by (simp add: outcome_ok_def Let_def) blast
        ultimately show ?thesis using p(2) by blast
      next
        case False
        show ?thesis by (rule again) (simp add: u p(1) Inr Consistent s2(1) False)
      qed
    qed
  qed
qed

text \<open>
  C29. Opening always ends, whatever the files hold and however they are swapped meanwhile, and nothing of a discarded
  pass survives: a success is that of one pass that started from an empty store, was paired and found its reader
  attached, after at most the allowed retries; giving up for churn, or being cancelled, leaves the store empty.
\<close>
theorem recovery_is_one_pass:
  "\<exists>res s'. recover json_dt clock draws mode trunc vmode retries attach env new_store = Some (res, s') \<and> store_ok s' \<and>
     outcome_ok json_dt clock draws mode trunc vmode retries attach env res s'"
  unfolding recover_def by (rule recover_loop_ok [OF new_store_ok]) (simp_all add: new_store_def)

section \<open>Slices\<close>

text \<open>The calls of a slicer that did not yield, since it last did.\<close>

fun slice_run :: "(rat \<times> rat) list \<Rightarrow> slicer \<Rightarrow> bool list \<times> slicer" where
  "slice_run [] s = ([], s)"
| "slice_run ((t, t') # ts) s =
     (let (y, s1) = walApplySlicer t t' s; (ys, s2) = slice_run ts s1 in (y # ys, s2))"

lemma slicer_step: "walApplySlicer t t' s = (y, s1) \<Longrightarrow> sl_ops s1 = (if y then 0 else Suc (sl_ops s)) \<and> sl_ops s1 < WAL_APPLY_OPS_PER_SLICE"
  by (auto simp: walApplySlicer_def WAL_APPLY_OPS_PER_SLICE_def split: if_splits)

lemma slice_run_bound:
  "sl_ops s < WAL_APPLY_OPS_PER_SLICE \<Longrightarrow> fst (slice_run ts s) = replicate n False @ ys \<Longrightarrow> n + sl_ops s < WAL_APPLY_OPS_PER_SLICE"
proof (induction ts arbitrary: s n)
  case (Cons p ts)
  obtain t t' where p: "p = (t, t')" by (cases p)
  obtain y s1 where y: "walApplySlicer t t' s = (y, s1)" by (cases "walApplySlicer t t' s")
  obtain zs s2 where zs: "slice_run ts s1 = (zs, s2)" by (cases "slice_run ts s1")
  show ?case
  proof (cases n)
    case (Suc m)
    then have "\<not> y" "zs = replicate m False @ ys" using Cons.prems(2) y zs by (auto simp: p)
    then show ?thesis using Cons.IH [of s1 m] zs slicer_step [OF y] Suc by simp
  qed (use Cons.prems in simp)
qed simp

text \<open>
  The replay never does more than 512 operations without giving way to the event loop, however the clock runs.
\<close>
theorem slices_bounded:
  assumes "fst (slice_run ts \<lparr>sl_ops = 0, sl_start = t0\<rparr>) = xs @ replicate n False @ ys"
  shows "n < 512"
proof -
  have "sl_ops s < WAL_APPLY_OPS_PER_SLICE \<Longrightarrow> fst (slice_run ts s) = xs @ replicate n False @ ys \<Longrightarrow> n < WAL_APPLY_OPS_PER_SLICE" for s
  proof (induction ts arbitrary: s xs)
    case (Cons p ts)
    obtain t t' where p: "p = (t, t')" by (cases p)
    obtain y s1 where y: "walApplySlicer t t' s = (y, s1)" by (cases "walApplySlicer t t' s")
    obtain zs s2 where zs: "slice_run ts s1 = (zs, s2)" by (cases "slice_run ts s1")
    show ?case
    proof (cases xs)
      case Nil
      then show ?thesis using slice_run_bound [OF Cons.prems(1), of "p # ts" n ys] Cons.prems(2) by simp
    next
      case (Cons x xs')
      then show ?thesis using Cons.IH [of s1 xs'] Cons.prems(2) y zs slicer_step [OF y] by (simp add: p)
    qed
  qed (simp add: WAL_APPLY_OPS_PER_SLICE_def)
  from this [OF _ assms] show ?thesis by (simp add: WAL_APPLY_OPS_PER_SLICE_def)
qed

lemma slices_bounded_witness: "fst (slice_run [(0, 0), (1, 1), (9, 9)] \<lparr>sl_ops = 0, sl_start = 0\<rparr>) = [False, False, True] \<and> 2 < (512 :: nat)"
proof -
  have "fst (slice_run [(0, 0), (1, 1), (9, 9)] \<lparr>sl_ops = 0, sl_start = 0\<rparr>) = [] @ replicate 2 False @ [True]"
    by (simp add: walApplySlicer_def WAL_APPLY_OPS_PER_SLICE_def WAL_APPLY_SLICE_MS_def numeral_2_eq_2)
  then show ?thesis using slices_bounded [of _ 0 "[]" 2 "[True]"] by (simp add: numeral_2_eq_2)
qed

section \<open>Witness\<close>

definition demo_write :: log_write where
  "demo_write = Single \<lparr>bo_type = TYPE_SET, bo_key = [107], bo_value = Some [118], bo_meta = None, bo_expireAt = 0\<rparr>"

lemma demo_write_encoded: "encode_write demo_write = Inr sample_bytes"
proof -
  have "encodeFrame \<lparr>fi_type = TYPE_SET, fi_key = [107], fi_value = Some [118], fi_meta = None, fi_expireAt = Some 0\<rparr> = encodeFrame sample_input"
    by (simp only: encodeFrame_def encodeFrame_any_def sample_input_def Let_def frame_input.select_convs option.case)
  then show ?thesis by (simp add: encode_write_def demo_write_def sample_input_encoded)
qed

definition demo_open :: "nat \<Rightarrow> buffer \<Rightarrow> opened" where
  "demo_open n bytes = \<lparr>fo_id = \<lparr>id_dev = 1, id_ino = 2, id_size = n\<rparr>, fo_bytes = bytes, fo_aborted = \<lambda>_. False,
     fo_window = replicate ASYNC_SCAN_WINDOW 0\<rparr>"

lemma demo_prefix:
  assumes "k \<le> 2" "length (concat (take k [sample_bytes, sample_bytes])) \<le> 30"
    "k < 2 \<longrightarrow> 30 < length (concat (take k [sample_bytes, sample_bytes])) + length ([sample_bytes, sample_bytes] ! k)"
  shows "k = 1"
proof -
  have "k = 0 \<or> k = 1 \<or> k = 2" using assms(1) by auto
  then show ?thesis using assms(2,3) by auto
qed

lemma recovery_after_crash_witness:
  "\<exists>info s s'. recover (\<lambda>_. Inr None) (\<lambda>_ _. 3) (\<lambda>_ _ _. 1) Strict True MemoryMode 4 None
      (\<lambda>_. \<lparr>pe_snapshot = Some (demo_open 0 []), pe_wal = Some (demo_open 30 (take 30 (sample_bytes @ sample_bytes))),
            pe_snap_after = Some \<lparr>id_dev = 1, id_ino = 2, id_size = 0\<rparr>, pe_wal_after = Some \<lparr>id_dev = 1, id_ino = 2, id_size = 28\<rparr>\<rparr>) new_store =
      Some (Inr info, s) \<and> ri_walFrames info = 1 \<and> ri_lostBytes info = 2 \<and>
    run_ops None [(4, GetOp (KStr ''k''))] s = Some ([Value (Inr (Some [118]))], s')"
proof -
  let ?ws = "[demo_write, demo_write]" and ?bss = "[sample_bytes, sample_bytes]" and ?id = "\<lparr>id_dev = 1, id_ino = 2, id_size = 0\<rparr>"
  have w: "writes [] []" "writes ?ws ?bss" by (simp_all add: writes_def demo_write_encoded)
  have well: "list_all (well_written (\<lambda>_. Inr None)) ([] @ ?ws)"
    by (simp add: well_written_def demo_write_def meta_of_def or_empty_def parseMeta_def)
  have n: "30 \<le> length (concat ?bss)" by simp
  obtain k info s as s' where k: "k \<le> length ?ws" "length (concat (take k ?bss)) \<le> 30"
    "k < length ?ws \<longrightarrow> 30 < length (concat (take k ?bss)) + length (?bss ! k)"
    "recover (\<lambda>_. Inr None) (\<lambda>_ _. 3) (\<lambda>_ _ _. 1) Strict True MemoryMode 4 None
      (\<lambda>_. \<lparr>pe_snapshot = Some (demo_open 0 []), pe_wal = Some (demo_open 30 (take 30 (concat ?bss))), pe_snap_after = Some ?id,
            pe_wal_after = Some (?id\<lparr>id_size := if True then length (concat (take k ?bss)) else 30\<rparr>)\<rparr>) new_store = Some (Inr info, s)"
    "ri_walFrames info = k" "ri_lostBytes info = 30 - length (concat (take k ?bss))"
    "run_ops None [(4, GetOp (KStr ''k''))] s = Some (as, s')"
    "all_fit None (fold (write_table (\<lambda>_. Inr None)) (concat (map write_ops ([] @ take k ?ws))) []) [(4, GetOp (KStr ''k''))] as"
    using recovery_after_crash [OF w well n, of "demo_open 0 []" ?id "replicate ASYNC_SCAN_WINDOW 0" "demo_open 30 (take 30 (concat ?bss))" ?id
        "replicate ASYNC_SCAN_WINDOW 0" "\<lambda>_ _. 3" 3 "[(4, GetOp (KStr ''k''))]" "\<lambda>_ _ _. 1" True 4 None]
    unfolding Let_def by (auto simp: demo_open_def)
  have "k = 1" using k(1-3) by (intro demo_prefix) simp_all
  moreover have "toKStr (KBuf [107]) = ''k''" by code_simp
  ultimately show ?thesis using k(4-8)
    by (intro exI [of _ info] exI [of _ s] exI [of _ s'])
       (simp split: list.splits add: demo_write_def write_table_def meta_of_def or_empty_def dt_of_def parseMeta_def shown_def materialize_def, simp add: toKStr_def)
qed

end
