(* ===== verification/Recovery_Follow.thy ===== *)
theory Recovery_Follow imports Recovery_Open begin

text \<open>
  A replica that follows a log as it grows: each call hands over the further writes that are whole.
\<close>

lemma torn_magic:
  assumes "torn tail"
  shows "take (min 2 (length tail)) tail = take (min 2 (length tail)) MAGIC"
proof -
  obtain f bs c where f: "encodeFrame f = Inr bs" and bs: "bs = tail @ c"
    using assms by (auto simp: torn_def strict_prefix_def prefix_def)
  have "readFrameAt bs 0 = Some (decoded f, length bs)" using encoded_frame_reads [OF f, of "[]" "[]"] by simp
  then have "take 2 bs = MAGIC" by (auto simp: readFrameAt_def Let_def slice_def split: if_splits)
  then have "take (min 2 (length tail)) (take 2 bs) = take (min 2 (length tail)) MAGIC" by simp
  then show ?thesis by (simp add: bs min_def split: if_splits)
qed

lemma parse_rest:
  assumes enc: "encodes fis bss" and t: "torn tail"
  shows "parse_loop Strict (pre @ concat bss @ tail) (length pre) =
    \<lparr>pr_frames = map decoded fis,
     pr_corrupt = (if tail = [] then [] else [(length (pre @ concat bss), length (pre @ concat bss @ tail))]),
     pr_eof = length (pre @ concat bss)\<rparr>"
proof -
  have "parse_loop Strict ((pre @ concat bss) @ tail) (length (pre @ concat bss)) =
      \<lparr>pr_frames = [], pr_corrupt = (if tail = [] then [] else [(length (pre @ concat bss), length ((pre @ concat bss) @ tail))]),
       pr_eof = length (pre @ concat bss)\<rparr>"
    using parse_torn [OF t, of Strict "pre @ concat bss"] parse_end [of Strict "pre @ concat bss"] by (cases "tail = []") auto
  then show ?thesis using parse_encoded [OF enc, of Strict pre tail] by (simp add: Let_def)
qed

lemma catch_up_from:
  assumes enc: "encodes fis bss" and t: "torn tail" and junk: "length junk = ASYNC_SCAN_WINDOW"
    and wal: "wal = \<lparr>fo_id = ident, fo_bytes = pre @ concat bss @ tail, fo_aborted = q, fo_window = junk\<rparr>"
    and ident: "id_size ident = length (pre @ concat bss @ tail)"
  obtains fs where "catchUpWal (Some wal) (int (length pre)) (id_dev ident, id_ino ident) = Inr (Some (length (pre @ concat bss), fs))"
    "map (resolve_ref (fo_bytes wal)) fs = map decoded fis"
proof -
  let ?fd = "pre @ concat bss @ tail" and ?B = DEFAULT_RESYNC_CANDIDATE_BUDGET
  obtain t' where t': "scan_loop ?fd Strict (length ?fd) ?B (length pre) 0 = Inr t'" "resolve_scan ?fd t' = parse_loop Strict ?fd (length pre)"
    using scan_loop_parse [of Strict 0 ?fd "length pre" ?B] by auto
  have res: "map (resolve_ref ?fd) (sr_frames t') = map decoded fis" "sr_eof t' = length (pre @ concat bss)"
    using t'(2) unfolding parse_rest [OF enc t] by (simp_all add: resolve_scan_def)
  have scan: "scanFrameRefsFdAsync (\<lambda>_. False) junk ?fd Strict (length pre) None ?B = Inr t'"
    using async_scan_loop [OF junk, of Strict ?fd "length pre" "\<lambda>_. False" ?B] t'(1)
    by (simp add: scanFrameRefsFd_def ASYNC_SCAN_WINDOW_def)
  show ?thesis
  proof (cases "fis = [] \<and> tail \<noteq> []")
    case True
    then have b: "bss = []" "sr_frames t' = []" using enc res(1) by auto
    have "readAt ?fd (length pre) (min 2 (length tail)) = Inr (take (min 2 (length tail)) tail)"
      using b(1) True by (auto simp: readAt_def slice_def min_def)
    then have "catchUpWal (Some wal) (int (length pre)) (id_dev ident, id_ino ident) = Inr (Some (length (pre @ concat bss), []))"
      using torn_magic [OF t] True b res(2) scan ident wal
      by (simp add: catchUpWal_def Let_def)
    then show ?thesis using True that by simp
  next
    case False
    then have "\<not> (sr_frames t' = [] \<and> sr_eof t' < length ?fd)" using enc res by auto
    then have "catchUpWal (Some wal) (int (length pre)) (id_dev ident, id_ino ident) = Inr (Some (length (pre @ concat bss), sr_frames t'))"
      using res(2) scan ident wal by (auto simp: catchUpWal_def Let_def)
    then show ?thesis using that res(1) wal by simp
  qed
qed

text \<open>
  C30. A replica that calls again and again gets every write once and in order. Asked from the end of the writes it has,
  in a log that holds any prefix of the bytes of the writes there will be, the catch-up hands over exactly the
  further writes that are whole, with their values, and continues where they end, which is again the end of a write.
\<close>
theorem catch_up_follows:
  assumes "writes ws bss" "n \<le> length (concat bss)" "length (concat (take j bss)) \<le> n" "j \<le> length ws"
    and "wal = \<lparr>fo_id = wid\<lparr>id_size := n\<rparr>, fo_bytes = take n (concat bss), fo_aborted = q, fo_window = junk\<rparr>"
    and "length junk = ASYNC_SCAN_WINDOW"
  shows "\<exists>k fs. j \<le> k \<and> k \<le> length ws \<and>
    catchUpWal (Some wal) (int (length (concat (take j bss)))) (id_dev wid, id_ino wid) = Inr (Some (length (concat (take k bss)), fs)) \<and>
    length (concat (take k bss)) \<le> n \<and> (k < length ws \<longrightarrow> n < length (concat (take k bss)) + length (bss ! k)) \<and>
    list_all2 (\<lambda>f w. \<exists>fi. write_input w = Inr fi \<and> resolve_ref (fo_bytes wal) f = decoded fi) fs (drop j (take k ws))"
proof -
  obtain fis where fis: "encodes fis bss" "list_all2 (\<lambda>w fi. write_input w = Inr fi) ws fis" by (rule writes_encodes [OF assms(1)])
  have len: "length fis = length ws" "length bss = length ws" using list_all2_lengthD [OF fis(2)] encodes_length [OF fis(1)] by simp_all
  obtain k tail where k: "k \<le> length fis" "take n (concat bss) = concat (take k bss) @ tail" "torn tail"
    "k < length fis \<Longrightarrow> strict_prefix tail (bss ! k)" by (rule log_prefix [OF fis(1) take_is_prefix [of n]]) blast
  have n: "n = length (concat (take k bss)) + length tail" using arg_cong [OF k(2), of length] assms(2) by simp
  have next_end: "k < length ws \<Longrightarrow> n < length (concat (take k bss)) + length (bss ! k)"
    using k(4) n len prefix_length_less by fastforce
  have jk: "j \<le> k"
  proof (rule ccontr)
    assume "\<not> j \<le> k"
    then have kj: "k < length (take j bss)" "take k (take j bss) = take k bss" "take j bss ! k = bss ! k"
      using assms(4) len by (simp_all add: min_def)
    have "concat (take j bss) = concat (take k bss) @ bss ! k @ concat (drop (Suc k) (take j bss))"
      using arg_cong [OF id_take_nth_drop [OF kj(1)], of concat] unfolding kj(2,3) by (simp only: concat_append concat.simps)
    then have "length (concat (take j bss)) = length (concat (take k bss)) + length (bss ! k) + length (concat (drop (Suc k) (take j bss)))"
      by (simp only: length_append add.assoc)
    then show False using next_end assms(3,4) \<open>\<not> j \<le> k\<close> by linarith
  qed
  have split: "concat (take k bss) = concat (take j bss) @ concat (drop j (take k bss))"
    using arg_cong [OF append_take_drop_id [of j "take k bss"], of concat] jk by (simp add: min_absorb1)
  have enc: "encodes (drop j (take k fis)) (drop j (take k bss))" by (intro encodes_drop encodes_take fis(1))
  obtain fs where fs: "catchUpWal (Some wal) (int (length (concat (take j bss)))) (id_dev (fo_id wal), id_ino (fo_id wal)) =
      Inr (Some (length (concat (take j bss) @ concat (drop j (take k bss))), fs))"
    "map (resolve_ref (fo_bytes wal)) fs = map decoded (drop j (take k fis))"
    by (rule catch_up_from [OF enc k(3) assms(6), of wal "fo_id wal" "concat (take j bss)" q])
       (use assms(5) k(2) n split in simp_all)
  have "list_all2 (\<lambda>w fi. write_input w = Inr fi) (drop j (take k ws)) (drop j (take k fis))" using fis(2) by auto
  then have "list_all2 (\<lambda>f w. \<exists>fi. write_input w = Inr fi \<and> resolve_ref (fo_bytes wal) f = decoded fi) fs (drop j (take k ws))"
    using fs(2) by (auto simp: list_all2_conv_all_nth list_eq_iff_nth_eq)
  then show ?thesis using fs(1) jk k(1) n len next_end assms(5) split
    by (intro exI [of _ k] exI [of _ fs]) simp
qed

lemma catch_up_follows_witness:
  "\<exists>fs. catchUpWal (Some (demo_open 30 (take 30 (sample_bytes @ sample_bytes)))) 0 (1, 2) = Inr (Some (28, fs)) \<and> length fs = 1"
proof -
  let ?ws = "[demo_write, demo_write]" and ?bss = "[sample_bytes, sample_bytes]" and ?id = "\<lparr>id_dev = 1, id_ino = 2, id_size = 0\<rparr>"
  have w: "writes ?ws ?bss" by (simp add: writes_def demo_write_encoded)
  have n: "30 \<le> length (concat ?bss)" by simp
  obtain k fs where k: "k \<le> length ?ws"
    "catchUpWal (Some (demo_open 30 (take 30 (concat ?bss)))) (int (length (concat (take 0 ?bss)))) (id_dev ?id, id_ino ?id) =
       Inr (Some (length (concat (take k ?bss)), fs))"
    "length (concat (take k ?bss)) \<le> 30" "k < length ?ws \<longrightarrow> 30 < length (concat (take k ?bss)) + length (?bss ! k)"
    "list_all2 (\<lambda>f w. \<exists>fi. write_input w = Inr fi \<and> resolve_ref (fo_bytes (demo_open 30 (take 30 (concat ?bss)))) f = decoded fi) fs
       (drop 0 (take k ?ws))"
    using catch_up_follows [OF w n, of 0 "demo_open 30 (take 30 (concat ?bss))" ?id "\<lambda>_. False" "replicate ASYNC_SCAN_WINDOW 0"]
    by (auto simp: demo_open_def)
  have "k = 1" using k(1,3,4) by (intro demo_prefix) simp_all
  then show ?thesis using k(2,5) by (auto dest: list_all2_lengthD)
qed

end
