(* ===== verification/OpTracker.thy ===== *)
theory OpTracker imports Prelude begin

text \<open>
  The gate with a count of the operations in flight, \<^verbatim>\<open>src/packages/minidb/src/op-tracker.ts\<close>. A promise is a number
  given by the caller; an operation that settles promises returns them, in the order they resolve.
\<close>

record op_tracker =
  ot_count :: nat
  ot_open :: bool
  ot_pausers :: nat
  ot_permanentlyClosed :: bool
  ot_idleWaiters :: "nat list"
  ot_closePromise :: "nat option"

definition new_tracker :: op_tracker where
  "new_tracker = \<lparr>ot_count = 0, ot_open = True, ot_pausers = 0, ot_permanentlyClosed = False, ot_idleWaiters = [],
                  ot_closePromise = None\<rparr>"

definition tracker_enter :: "op_tracker \<Rightarrow> bool \<times> op_tracker" where
  "tracker_enter t = (if \<not> ot_open t then (False, t) else (True, t\<lparr>ot_count := ot_count t + 1\<rparr>))"

definition tracker_leave :: "op_tracker \<Rightarrow> string + nat list \<times> op_tracker" where
  "tracker_leave t =
     (if ot_count t = 0 then Inl ''OpTracker: leave() without a matching enter()''
      else
        let t1 = t\<lparr>ot_count := ot_count t - 1\<rparr> in
        if ot_count t1 = 0 then Inr (ot_idleWaiters t1, t1\<lparr>ot_idleWaiters := []\<rparr>) else Inr ([], t1))"

text \<open>The promise \<open>p\<close> resolves at once, or waits.\<close>

definition whenIdle :: "nat \<Rightarrow> op_tracker \<Rightarrow> nat list \<times> op_tracker" where
  "whenIdle p t = (if ot_count t = 0 then ([p], t) else ([], t\<lparr>ot_idleWaiters := ot_idleWaiters t @ [p]\<rparr>))"

definition tracker_pause :: "nat \<Rightarrow> op_tracker \<Rightarrow> nat list \<times> op_tracker" where
  "tracker_pause p t = whenIdle p (t\<lparr>ot_pausers := ot_pausers t + 1, ot_open := False\<rparr>)"

definition tracker_resume :: "op_tracker \<Rightarrow> op_tracker" where
  "tracker_resume t =
     (if ot_permanentlyClosed t then t
      else
        let t1 = (if ot_pausers t > 0 then t\<lparr>ot_pausers := ot_pausers t - 1\<rparr> else t) in
        if ot_pausers t1 = 0 then t1\<lparr>ot_open := True\<rparr> else t1)"

text \<open>Concurrent calls share the promise of the first.\<close>

definition tracker_close :: "nat \<Rightarrow> op_tracker \<Rightarrow> nat list \<times> op_tracker" where
  "tracker_close p t =
     (case ot_closePromise t of
        Some q \<Rightarrow> ([], t)
      | None \<Rightarrow> whenIdle p (t\<lparr>ot_permanentlyClosed := True, ot_open := False, ot_closePromise := Some p\<rparr>))"

section \<open>Sequences of calls\<close>

datatype tracker_call = Enter | Leave | WaitIdle nat | Pause nat | Resume | Close nat

text \<open>A call: the promises it resolves, and the tracker; an unmatched \<open>leave\<close> throws and changes nothing.\<close>

fun tracker_step :: "tracker_call \<Rightarrow> op_tracker \<Rightarrow> nat list \<times> op_tracker" where
  "tracker_step Enter t = ([], snd (tracker_enter t))"
| "tracker_step Leave t = (case tracker_leave t of Inl _ \<Rightarrow> ([], t) | Inr r \<Rightarrow> r)"
| "tracker_step (WaitIdle p) t = whenIdle p t"
| "tracker_step (Pause p) t = tracker_pause p t"
| "tracker_step Resume t = ([], tracker_resume t)"
| "tracker_step (Close p) t = tracker_close p t"

fun tracker_run :: "tracker_call list \<Rightarrow> op_tracker \<Rightarrow> op_tracker" where
  "tracker_run [] t = t"
| "tracker_run (c # cs) t = tracker_run cs (snd (tracker_step c t))"

definition tracker_ok :: "op_tracker \<Rightarrow> bool" where
  "tracker_ok t \<longleftrightarrow> (ot_open t \<longleftrightarrow> ot_pausers t = 0 \<and> \<not> ot_permanentlyClosed t) \<and>
     (ot_idleWaiters t \<noteq> [] \<longrightarrow> ot_count t > 0) \<and> (ot_permanentlyClosed t \<longleftrightarrow> ot_closePromise t \<noteq> None)"

lemmas tracker_defs = new_tracker_def tracker_enter_def tracker_leave_def whenIdle_def tracker_pause_def tracker_resume_def
  tracker_close_def tracker_ok_def Let_def

lemma new_tracker_ok: "tracker_ok new_tracker"
  by (simp add: tracker_defs)

lemma tracker_step_ok: "tracker_ok t \<Longrightarrow> tracker_ok (snd (tracker_step c t))"
  by (cases c) (auto simp: tracker_defs split: option.splits)

lemma tracker_run_ok: "tracker_ok t \<Longrightarrow> tracker_ok (tracker_run cs t)"
  by (induction cs arbitrary: t) (simp_all add: tracker_step_ok)

text \<open>A promise resolves exactly when nothing is in flight.\<close>

lemma resolved_idle: "p \<in> set (fst (tracker_step c t)) \<Longrightarrow> ot_count (snd (tracker_step c t)) = 0"
  by (cases c) (auto simp: tracker_defs split: option.splits if_splits)

text \<open>
  Behind a closed gate nothing new starts: once it is idle it stays so, until the last of the pausers resumes.
\<close>

lemma closed_gate_step:
  "tracker_ok t \<Longrightarrow> \<not> ot_open t \<Longrightarrow> ot_open (snd (tracker_step c t)) \<Longrightarrow> c = Resume \<and> ot_pausers t = 1 \<and> \<not> ot_permanentlyClosed t"
  by (cases c) (auto simp: tracker_defs split: option.splits if_splits)

lemma closed_gate_idle:
  "\<not> ot_open t \<Longrightarrow> ot_count (snd (tracker_step c t)) \<le> ot_count t"
  by (cases c) (auto simp: tracker_defs split: option.splits if_splits)

lemma closed_gate_run:
  "tracker_ok t \<Longrightarrow> \<not> ot_open t \<Longrightarrow> ot_count t = 0 \<Longrightarrow> Resume \<notin> set cs \<Longrightarrow>
   ot_count (tracker_run cs t) = 0 \<and> \<not> ot_open (tracker_run cs t)"
proof (induction cs arbitrary: t)
  case (Cons c cs)
  have "\<not> ot_open (snd (tracker_step c t))" using closed_gate_step [OF Cons.prems(1,2)] Cons.prems(4) by auto
  moreover have "ot_count (snd (tracker_step c t)) = 0" using closed_gate_idle [OF Cons.prems(2), of c] Cons.prems(3) by simp
  ultimately show ?case using Cons.IH [OF tracker_step_ok [OF Cons.prems(1)]] Cons.prems(4) by simp
qed simp

lemma close_is_final:
  "tracker_ok t \<Longrightarrow> ot_permanentlyClosed t \<Longrightarrow> ot_permanentlyClosed (tracker_run cs t) \<and> \<not> ot_open (tracker_run cs t)"
proof (induction cs arbitrary: t)
  case (Cons c cs)
  have "ot_permanentlyClosed (snd (tracker_step c t))"
    using Cons.prems by (cases c) (auto simp: tracker_defs split: option.splits)
  then show ?case using Cons.IH [OF tracker_step_ok [OF Cons.prems(1)]] by simp
qed (simp add: tracker_ok_def)

end
