(* ===== verification/Wal.thy ===== *)
theory Wal imports OpTracker Bytes begin

text \<open>
  The appender of the log, \<^verbatim>\<open>src/packages/minidb/src/wal.ts\<close>: appends are queued and written in groups, one flush
  at a time; a flush that fails poisons the log until its owner has cut the file back
  (\<^verbatim>\<open>recoverWalInPlace\<close> of \<^verbatim>\<open>src/packages/minidb/src/mini-db.ts\<close>).

  A handler runs from one suspension to the next. The promise of an append is a number; a handler returns the promises it
  settles, in order. A write or an fsync is issued in one handler and its completion is another: \<open>writev\<close> puts a
  prefix of its bytes at the end of the file, and may do so even when it fails; what an fsync covers is what the
  file held when it was issued. The file is the list of its bytes.
\<close>

section \<open>The state\<close>

datatype fsync_policy = Always | Everysec | NoSync

datatype wal_error = WalClosed | WalSealed | WalPoisoned wal_error | NoProgress | WalIoError string

record pending_write =
  pw_id :: nat
  pw_buf :: buffer

record wal_poison =
  wp_failedAtOffset :: nat
  wp_error :: wal_error

record wal_stats =
  st_walBytesWritten :: nat
  st_walFsyncs :: nat
  st_walWriteErrors :: nat
  st_walFsyncErrors :: nat
  st_lastWalFsyncError :: "wal_error option"
  st_walQueuedBytes :: int
  st_walMaxQueuedBytes :: int
  st_walGroupCommits :: nat
  st_walGroupCommitFrames :: nat

text \<open>
  The flush in flight: its batch, where it starts, the buffers not written yet with the offset into the first of them,
  and whether it waits for a \<open>writev\<close> or for an fsync that sampled a write generation.
\<close>

datatype flush_wait = Writing | Syncing nat

record flight =
  fl_batch :: "pending_write list"
  fl_start :: nat
  fl_bufs :: "buffer list"
  fl_off :: nat
  fl_wait :: flush_wait

text \<open>How far \<open>close\<close> has come.\<close>

datatype closing = NotClosing | Draining | Flushing | FinalSync nat | Released

record wal =
  wl_policy :: fsync_policy
  wl_fh :: bool
  wl_size :: nat
  wl_nextOffset :: nat
  wl_queue :: "pending_write list"
  wl_queuedBytes :: nat
  wl_flight :: "flight option"
  wl_scheduled :: bool
  wl_sealed :: bool
  wl_poisoned :: "wal_poison option"
  wl_nextBatchId :: nat
  wl_closing :: closing
  wl_writeGen :: nat
  wl_syncedGen :: nat
  wl_bgSync :: "nat option"
  wl_tracker :: op_tracker
  wl_stats :: wal_stats

definition no_stats :: wal_stats where
  "no_stats = \<lparr>st_walBytesWritten = 0, st_walFsyncs = 0, st_walWriteErrors = 0, st_walFsyncErrors = 0,
     st_lastWalFsyncError = None, st_walQueuedBytes = 0, st_walMaxQueuedBytes = 0, st_walGroupCommits = 0,
     st_walGroupCommitFrames = 0\<rparr>"

text \<open>An opened log over a file of \<open>n\<close> bytes.\<close>

definition open_wal :: "fsync_policy \<Rightarrow> wal_stats \<Rightarrow> nat \<Rightarrow> wal" where
  "open_wal policy stats n =
     \<lparr>wl_policy = policy, wl_fh = True, wl_size = n, wl_nextOffset = n, wl_queue = [], wl_queuedBytes = 0, wl_flight = None,
      wl_scheduled = False, wl_sealed = False, wl_poisoned = None, wl_nextBatchId = 1, wl_closing = NotClosing,
      wl_writeGen = 0, wl_syncedGen = 0, wl_bgSync = None, wl_tracker = new_tracker, wl_stats = stats\<rparr>"

definition wal_closed :: "wal \<Rightarrow> bool" where
  "wal_closed w \<longleftrightarrow> wl_closing w \<noteq> NotClosing"

definition poisonError :: "wal \<Rightarrow> wal_error" where
  "poisonError w = (case wl_poisoned w of None \<Rightarrow> WalPoisoned (WalIoError ''undefined'') | Some p \<Rightarrow> WalPoisoned (wp_error p))"

text \<open>Settled promises.\<close>

datatype settled = Resolved nat | Rejected nat wal_error

section \<open>Appending\<close>

datatype append_result = Refused wal_error | Appended nat nat

definition appendLoc :: "nat \<Rightarrow> buffer \<Rightarrow> wal \<Rightarrow> append_result \<times> wal" where
  "appendLoc pid frame w =
     (if wal_closed w then (Refused WalClosed, w)
      else if wl_poisoned w \<noteq> None then (Refused (poisonError w), w)
      else if wl_sealed w then (Refused WalSealed, w)
      else
        let offset = wl_nextOffset w; st = wl_stats w; queued = st_walQueuedBytes st + int (length frame) in
        (Appended offset (wl_nextBatchId w),
         w\<lparr>wl_nextOffset := wl_nextOffset w + length frame,
           wl_queue := wl_queue w @ [\<lparr>pw_id = pid, pw_buf = frame\<rparr>],
           wl_queuedBytes := wl_queuedBytes w + length frame,
           wl_stats := st\<lparr>st_walQueuedBytes := queued,
                          st_walMaxQueuedBytes := max (st_walMaxQueuedBytes st) queued\<rparr>,
           wl_scheduled := wl_scheduled w \<or> wl_flight w = None\<rparr>))"

definition wal_seal :: "wal \<Rightarrow> wal" where
  "wal_seal w = w\<lparr>wl_sealed := True\<rparr>"

section \<open>Poison\<close>

definition poisonWith :: "nat \<Rightarrow> wal_error \<Rightarrow> wal \<Rightarrow> wal" where
  "poisonWith failedAt e w =
     w\<lparr>wl_poisoned := Some (case wl_poisoned w of
         None \<Rightarrow> \<lparr>wp_failedAtOffset = failedAt, wp_error = e\<rparr>
       | Some p \<Rightarrow> p\<lparr>wp_failedAtOffset := min (wp_failedAtOffset p) failedAt\<rparr>)\<rparr>"

text \<open>The queued frames are rejected, the newest first.\<close>

definition rejectQueued :: "wal_error \<Rightarrow> wal \<Rightarrow> settled list \<times> wal" where
  "rejectQueued e w =
     (if wl_queue w = [] then ([], w)
      else (map (\<lambda>p. Rejected (pw_id p) e) (rev (wl_queue w)),
            w\<lparr>wl_queue := [], wl_queuedBytes := 0,
              wl_stats := (wl_stats w)\<lparr>st_walQueuedBytes := st_walQueuedBytes (wl_stats w) - int (wl_queuedBytes w)\<rparr>\<rparr>))"

definition poisonPending :: "wal_error \<Rightarrow> wal \<Rightarrow> settled list \<times> wal" where
  "poisonPending e w =
     (if wal_closed w then ([], w)
      else let w1 = poisonWith (wl_nextOffset w - wl_queuedBytes w) e w in rejectQueued (poisonError w1) w1)"

definition clearPoison :: "wal \<Rightarrow> wal" where
  "clearPoison w = w\<lparr>wl_poisoned := None\<rparr>"

definition refreshSize :: "nat \<Rightarrow> wal \<Rightarrow> wal" where
  "refreshSize st_size w = (if \<not> wl_fh w then w else w\<lparr>wl_size := st_size, wl_nextOffset := st_size\<rparr>)"

section \<open>Fsync\<close>

text \<open>An fsync that is not skipped samples the write generation; its completion is \<open>syncDone\<close>.\<close>

definition sync_issue :: "wal \<Rightarrow> nat option" where
  "sync_issue w = (if \<not> wl_fh w \<or> wl_poisoned w \<noteq> None then None else Some (wl_writeGen w))"

definition syncDone :: "nat \<Rightarrow> wal \<Rightarrow> wal" where
  "syncDone gen w =
     w\<lparr>wl_stats := (wl_stats w)\<lparr>st_walFsyncs := st_walFsyncs (wl_stats w) + 1\<rparr>,
       wl_syncedGen := (if wl_syncedGen w < gen then gen else wl_syncedGen w)\<rparr>"

definition syncFailed :: "wal_error \<Rightarrow> wal \<Rightarrow> wal" where
  "syncFailed e w =
     w\<lparr>wl_stats := (wl_stats w)\<lparr>st_walFsyncErrors := st_walFsyncErrors (wl_stats w) + 1, st_lastWalFsyncError := Some e\<rparr>\<rparr>"

text \<open>A tick of the background sync, for the policy \<open>everysec\<close>.\<close>

definition backgroundTick :: "wal \<Rightarrow> wal" where
  "backgroundTick w =
     (if wl_writeGen w = wl_syncedGen w \<or> wl_bgSync w \<noteq> None then w
      else
        case tracker_enter (wl_tracker w) of
          (False, _) \<Rightarrow> w
        | (True, t) \<Rightarrow>
            (case sync_issue w of
               Some gen \<Rightarrow> w\<lparr>wl_tracker := t, wl_bgSync := Some gen\<rparr>
             | None \<Rightarrow> (case tracker_leave t of Inl _ \<Rightarrow> w | Inr (_, t') \<Rightarrow> w\<lparr>wl_tracker := t'\<rparr>)))"

definition bg_settled :: "wal_error option \<Rightarrow> wal \<Rightarrow> wal" where
  "bg_settled err w =
     (case wl_bgSync w of
        None \<Rightarrow> w
      | Some gen \<Rightarrow>
          let w1 = (case err of None \<Rightarrow> syncDone gen w | Some e \<Rightarrow> syncFailed e w) in
          w1\<lparr>wl_bgSync := None,
             wl_tracker := (case tracker_leave (wl_tracker w1) of Inl _ \<Rightarrow> wl_tracker w1 | Inr (_, t) \<Rightarrow> t)\<rparr>)"

section \<open>Flushing\<close>

text \<open>The start of a flush, up to its first \<open>writev\<close>; without work, or with a flush in flight, nothing but the mark goes.\<close>

definition flushBatch :: "wal \<Rightarrow> wal" where
  "flushBatch w0 =
     (let w = w0\<lparr>wl_scheduled := False\<rparr> in
      if wl_flight w \<noteq> None \<or> wl_queue w = [] \<or> wl_poisoned w \<noteq> None then w
      else
        let st = wl_stats w in
        w\<lparr>wl_queue := [], wl_queuedBytes := 0, wl_nextBatchId := wl_nextBatchId w + 1,
          wl_stats := st\<lparr>st_walQueuedBytes := st_walQueuedBytes st - int (wl_queuedBytes w),
                         st_walGroupCommits := st_walGroupCommits st + 1,
                         st_walGroupCommitFrames := st_walGroupCommitFrames st + length (wl_queue w)\<rparr>,
          wl_flight := Some \<lparr>fl_batch = wl_queue w, fl_start = wl_nextOffset w - wl_queuedBytes w,
                             fl_bufs = map pw_buf (wl_queue w), fl_off = 0, fl_wait = Writing\<rparr>\<rparr>)"

text \<open>What is left of the buffers after \<open>rem\<close> more bytes.\<close>

fun advance :: "nat \<Rightarrow> nat \<Rightarrow> buffer list \<Rightarrow> buffer list \<times> nat" where
  "advance rem off [] = ([], off)"
| "advance rem off (b # bs) =
     (if rem = 0 then (b # bs, off)
      else if rem < length b - off then (b # bs, off + rem)
      else advance (rem - (length b - off)) 0 bs)"

text \<open>The bytes of the next \<open>writev\<close>.\<close>

definition to_write :: "flight \<Rightarrow> buffer" where
  "to_write f = drop (fl_off f) (concat (fl_bufs f))"

text \<open>The end of a flush, with its error if it failed.\<close>

definition finish_flush :: "flight \<Rightarrow> wal_error option \<Rightarrow> wal \<Rightarrow> settled list \<times> wal" where
  "finish_flush f failure w =
     (let (out, w1) =
        (case failure of
           Some e \<Rightarrow>
             let w' = poisonWith (fl_start f) e w; (rs, w'') = rejectQueued (poisonError w') w' in
             (rs @ map (\<lambda>p. Rejected (pw_id p) e) (fl_batch f), w'')
         | None \<Rightarrow> (map (\<lambda>p. Resolved (pw_id p)) (fl_batch f), w));
        w2 = w1\<lparr>wl_flight := None\<rparr>
      in (out, if wl_queue w2 \<noteq> [] \<and> \<not> wal_closed w2 \<and> wl_poisoned w2 = None then w2\<lparr>wl_scheduled := True\<rparr> else w2))"

definition write_failed :: "flight \<Rightarrow> wal_error \<Rightarrow> wal \<Rightarrow> settled list \<times> wal" where
  "write_failed f e w =
     finish_flush f (Some e) (w\<lparr>wl_stats := (wl_stats w)\<lparr>st_walWriteErrors := st_walWriteErrors (wl_stats w) + 1\<rparr>\<rparr>)"

text \<open>The \<open>writev\<close> returns \<open>n\<close>; the loop goes on, or the policy's fsync is issued, or the flush ends.\<close>

definition write_returned :: "nat \<Rightarrow> wal \<Rightarrow> settled list \<times> wal" where
  "write_returned n w =
     (case wl_flight w of
        None \<Rightarrow> ([], w)
      | Some f \<Rightarrow>
          if n = 0 then write_failed f NoProgress w
          else
            let w1 = w\<lparr>wl_size := wl_size w + n,
                       wl_stats := (wl_stats w)\<lparr>st_walBytesWritten := st_walBytesWritten (wl_stats w) + n\<rparr>,
                       wl_writeGen := wl_writeGen w + 1\<rparr>;
                (bufs, off) = advance n (fl_off f) (fl_bufs f);
                f1 = f\<lparr>fl_bufs := bufs, fl_off := off\<rparr>
            in if bufs \<noteq> [] then
                 (if wl_fh w1 then ([], w1\<lparr>wl_flight := Some f1\<rparr>)
                  else write_failed f1 (WalIoError ''the file handle is null'') w1)
               else if wl_policy w1 = Always then
                 (case sync_issue w1 of
                    None \<Rightarrow> finish_flush f1 None w1
                  | Some gen \<Rightarrow> ([], w1\<lparr>wl_flight := Some (f1\<lparr>fl_wait := Syncing gen\<rparr>)\<rparr>))
               else finish_flush f1 None w1)"

definition write_threw :: "wal_error \<Rightarrow> wal \<Rightarrow> settled list \<times> wal" where
  "write_threw e w = (case wl_flight w of None \<Rightarrow> ([], w) | Some f \<Rightarrow> write_failed f e w)"

definition flush_synced :: "wal_error option \<Rightarrow> wal \<Rightarrow> settled list \<times> wal" where
  "flush_synced err w =
     (case wl_flight w of
        Some f \<Rightarrow>
          (case fl_wait f of
             Syncing gen \<Rightarrow>
               (case err of
                  None \<Rightarrow> finish_flush f None (syncDone gen w)
                | Some e \<Rightarrow> finish_flush f (Some e) (syncFailed e w))
           | Writing \<Rightarrow> ([], w))
      | None \<Rightarrow> ([], w))"

section \<open>Waiting for the queue\<close>

text \<open>One turn of the loop of \<open>flush\<close>: it throws, returns, waits for the flush in flight, or starts one.\<close>

datatype flush_turn = FlushThrows wal_error | FlushReturns | FlushWaits | FlushStarts

definition flush_turn :: "wal \<Rightarrow> flush_turn" where
  "flush_turn w =
     (if wl_poisoned w \<noteq> None then FlushThrows (poisonError w)
      else if wl_queue w = [] \<and> wl_flight w = None then FlushReturns
      else if wl_flight w \<noteq> None then FlushWaits
      else FlushStarts)"

section \<open>Closing\<close>

definition wal_close :: "wal \<Rightarrow> wal" where
  "wal_close w =
     (if wal_closed w then w
      else w\<lparr>wl_closing := Draining, wl_tracker := snd (tracker_close 0 (wl_tracker w))\<rparr>)"

definition release :: "wal \<Rightarrow> wal" where
  "release w = w\<lparr>wl_fh := False, wl_closing := Released\<rparr>"

text \<open>The final sync; skipped, it leaves only the release.\<close>

definition final_sync :: "wal \<Rightarrow> wal" where
  "final_sync w = (case sync_issue w of None \<Rightarrow> release w | Some gen \<Rightarrow> w\<lparr>wl_closing := FinalSync gen\<rparr>)"

text \<open>\<open>close\<close> goes on as far as it can: past the drain, through the turns of the flush, to the final sync.\<close>

definition close_turn :: "wal \<Rightarrow> wal" where
  "close_turn w =
     (case wl_closing w of
        Draining \<Rightarrow>
          if ot_count (wl_tracker w) \<noteq> 0 then w
          else if wl_poisoned w \<noteq> None then release w
          else w\<lparr>wl_closing := Flushing\<rparr>
      | Flushing \<Rightarrow>
          (case flush_turn w of
             FlushThrows e \<Rightarrow> final_sync w
           | FlushReturns \<Rightarrow> final_sync w
           | FlushWaits \<Rightarrow> w
           | FlushStarts \<Rightarrow> flushBatch w)
      | _ \<Rightarrow> w)"

definition close_synced :: "wal_error option \<Rightarrow> wal \<Rightarrow> wal" where
  "close_synced err w =
     (case wl_closing w of
        FinalSync gen \<Rightarrow> release (case err of None \<Rightarrow> syncDone gen w | Some e \<Rightarrow> syncFailed e w)
      | _ \<Rightarrow> w)"

section \<open>Recovery in place\<close>

text \<open>
  The owner's recovery, once no flush is in flight: the file is cut to the poison's offset unless it is shorter, the sizes
  are taken from it and the poison goes. When the cut fails nothing changes and writes are disabled. When the cut is made but
  the size cannot be read afterwards, the recovery throws: the file is cut, the log stays poisoned and can be recovered again.
\<close>

datatype cut_outcome = CutFails | SizeFails | CutDone

definition recoverWalInPlace :: "cut_outcome \<Rightarrow> wal \<Rightarrow> buffer \<Rightarrow> bool \<times> wal \<times> buffer" where
  "recoverWalInPlace outcome w fd =
     (case wl_poisoned w of
        None \<Rightarrow> (False, w, fd)
      | Some p \<Rightarrow>
          if outcome = CutFails then (True, w, fd)
          else
            let fd' = (if wp_failedAtOffset p \<le> length fd then take (wp_failedAtOffset p) fd else fd)
            in if outcome = SizeFails then (False, w, fd')
               else (False, clearPoison (refreshSize (length fd') w), fd'))"

section \<open>The log over its file\<close>

text \<open>
  The appender with its file. The rest is history, which no handler reads: the appends acknowledged, in order, the offset
  each append was given, how much of the file an fsync has covered and what the fsyncs under way will cover, and
  whether the log was poisoned from outside while a flush was in flight.
\<close>

record wal_sys =
  sy_wal :: wal
  sy_file :: buffer
  sy_disabled :: bool
  sy_acked :: "pending_write list"
  sy_offset :: "nat \<Rightarrow> nat option"
  sy_synced :: nat
  sy_flight_cov :: nat
  sy_bg_cov :: nat
  sy_close_cov :: nat
  sy_raced :: bool

definition open_sys :: "fsync_policy \<Rightarrow> wal_stats \<Rightarrow> buffer \<Rightarrow> wal_sys" where
  "open_sys policy stats base =
     \<lparr>sy_wal = open_wal policy stats (length base), sy_file = base, sy_disabled = False, sy_acked = [], sy_offset = \<lambda>_. None,
      sy_synced = length base, sy_flight_cov = 0, sy_bg_cov = 0, sy_close_cov = 0, sy_raced = False\<rparr>"

datatype wal_event =
    Append nat buffer
  | FlushDue
  | WriteReturns nat
  | WriteThrows nat wal_error
  | FlushSynced "wal_error option"
  | Tick
  | BgSynced "wal_error option"
  | Seal
  | PoisonFrom wal_error
  | RecoverInPlace cut_outcome
  | CloseWal
  | CloseTurn
  | CloseSynced "wal_error option"

text \<open>The batch in flight, and the bytes its next \<open>writev\<close> has to write.\<close>

definition batch_of :: "wal \<Rightarrow> pending_write list" where
  "batch_of w = (case wl_flight w of None \<Rightarrow> [] | Some f \<Rightarrow> fl_batch f)"

definition writing :: "wal \<Rightarrow> buffer option" where
  "writing w = (case wl_flight w of None \<Rightarrow> None | Some f \<Rightarrow> if fl_wait f = Writing then Some (to_write f) else None)"

definition acknowledge :: "settled list \<times> wal \<Rightarrow> wal_sys \<Rightarrow> wal_sys" where
  "acknowledge r s =
     (case r of (out, w) \<Rightarrow>
        s\<lparr>sy_wal := w, sy_acked := sy_acked s @ filter (\<lambda>p. Resolved (pw_id p) \<in> set out) (batch_of (sy_wal s))\<rparr>)"

definition covered :: "nat \<Rightarrow> wal_error option \<Rightarrow> wal_sys \<Rightarrow> wal_sys" where
  "covered cov err s = (if err = None then s\<lparr>sy_synced := max (sy_synced s) cov\<rparr> else s)"

text \<open>One event; \<open>None\<close> when it cannot happen.\<close>

fun wal_step :: "wal_event \<Rightarrow> wal_sys \<Rightarrow> wal_sys option" where
  "wal_step (Append pid frame) s =
     (if sy_offset s pid \<noteq> None then None
      else case appendLoc pid frame (sy_wal s) of
             (Refused e, w) \<Rightarrow> Some (s\<lparr>sy_wal := w\<rparr>)
           | (Appended off b, w) \<Rightarrow> Some (s\<lparr>sy_wal := w, sy_offset := (sy_offset s)(pid \<mapsto> off)\<rparr>))"
| "wal_step FlushDue s = Some (s\<lparr>sy_wal := flushBatch (sy_wal s)\<rparr>)"
| "wal_step (WriteReturns n) s =
     (case writing (sy_wal s) of
        None \<Rightarrow> None
      | Some bs \<Rightarrow>
          if length bs < n then None
          else let s1 = s\<lparr>sy_file := sy_file s @ take n bs\<rparr> in
               Some ((acknowledge (write_returned n (sy_wal s)) s1)\<lparr>sy_flight_cov := length (sy_file s1)\<rparr>))"
| "wal_step (WriteThrows n e) s =
     (case writing (sy_wal s) of
        None \<Rightarrow> None
      | Some bs \<Rightarrow>
          if length bs < n then None
          else Some (acknowledge (write_threw e (sy_wal s)) (s\<lparr>sy_file := sy_file s @ take n bs\<rparr>)))"
| "wal_step (FlushSynced err) s =
     (case wl_flight (sy_wal s) of
        None \<Rightarrow> None
      | Some f \<Rightarrow>
          if fl_wait f = Writing then None
          else Some (covered (sy_flight_cov s) err (acknowledge (flush_synced err (sy_wal s)) s)))"
| "wal_step Tick s =
     (if wl_policy (sy_wal s) \<noteq> Everysec then None
      else let w = backgroundTick (sy_wal s) in
        Some (s\<lparr>sy_wal := w,
                sy_bg_cov := (if wl_bgSync (sy_wal s) = None \<and> wl_bgSync w \<noteq> None then length (sy_file s) else sy_bg_cov s)\<rparr>))"
| "wal_step (BgSynced err) s =
     (if wl_bgSync (sy_wal s) = None then None
      else Some (covered (sy_bg_cov s) err (s\<lparr>sy_wal := bg_settled err (sy_wal s)\<rparr>)))"
| "wal_step Seal s = Some (s\<lparr>sy_wal := wal_seal (sy_wal s)\<rparr>)"
| "wal_step (PoisonFrom e) s =
     Some (s\<lparr>sy_wal := snd (poisonPending e (sy_wal s)), sy_raced := sy_raced s \<or> wl_flight (sy_wal s) \<noteq> None\<rparr>)"
| "wal_step (RecoverInPlace outcome) s =
     (if wl_flight (sy_wal s) \<noteq> None \<or> wl_poisoned (sy_wal s) = None \<or> sy_disabled s then None
      else case recoverWalInPlace outcome (sy_wal s) (sy_file s) of
             (dis, w, fd) \<Rightarrow>
               Some (s\<lparr>sy_wal := w, sy_file := fd, sy_disabled := dis, sy_synced := min (sy_synced s) (length fd),
                       sy_flight_cov := min (sy_flight_cov s) (length fd), sy_bg_cov := min (sy_bg_cov s) (length fd),
                       sy_close_cov := min (sy_close_cov s) (length fd)\<rparr>))"
| "wal_step CloseWal s =
     Some (s\<lparr>sy_wal := wal_close (sy_wal s)\<rparr>)"
| "wal_step CloseTurn s =
     (let w = close_turn (sy_wal s) in
      Some (s\<lparr>sy_wal := w,
              sy_close_cov := (if wl_closing (sy_wal s) = Flushing \<and> wl_closing w \<noteq> Flushing then length (sy_file s) else sy_close_cov s)\<rparr>))"
| "wal_step (CloseSynced err) s =
     (case wl_closing (sy_wal s) of
        FinalSync gen \<Rightarrow> Some (covered (sy_close_cov s) err (s\<lparr>sy_wal := close_synced err (sy_wal s)\<rparr>))
      | _ \<Rightarrow> None)"

inductive wal_reach :: "fsync_policy \<Rightarrow> buffer \<Rightarrow> wal_sys \<Rightarrow> bool" for policy base where
  opened: "wal_reach policy base (open_sys policy stats base)"
| step: "wal_reach policy base s \<Longrightarrow> wal_step ev s = Some s' \<Longrightarrow> wal_reach policy base s'"

text \<open>A sequence of events, for runs that are evaluated.\<close>

fun wal_run :: "wal_event list \<Rightarrow> wal_sys \<Rightarrow> wal_sys option" where
  "wal_run [] s = Some s"
| "wal_run (ev # evs) s = (case wal_step ev s of None \<Rightarrow> None | Some s' \<Rightarrow> wal_run evs s')"

lemma wal_run_reach: "wal_reach policy base s \<Longrightarrow> wal_run evs s = Some s' \<Longrightarrow> wal_reach policy base s'"
  by (induction evs arbitrary: s) (auto split: option.splits intro: wal_reach.step)

end
