(* ===== verification/Wal_Proofs.thy ===== *)
theory Wal_Proofs imports Wal begin

text \<open>
  The invariant of the log's appender over its file: what is acknowledged is in the file at the offsets the appends were
  given, a failure is cut back exactly, and a clean log is covered by an fsync.
\<close>

section \<open>Placement\<close>

text \<open>The promises of \<open>ps\<close> were given consecutive offsets from \<open>off\<close>.\<close>

fun placed :: "(nat \<Rightarrow> nat option) \<Rightarrow> nat \<Rightarrow> pending_write list \<Rightarrow> bool" where
  "placed given off [] = True"
| "placed given off (p # ps) = (given (pw_id p) = Some off \<and> placed given (off + length (pw_buf p)) ps)"

definition bytes_of :: "pending_write list \<Rightarrow> buffer" where
  "bytes_of ps = concat (map pw_buf ps)"

lemma bytes_of_simps [simp]:
  "bytes_of [] = []" "bytes_of (p # ps) = pw_buf p @ bytes_of ps" "bytes_of (ps @ qs) = bytes_of ps @ bytes_of qs"
  by (simp_all add: bytes_of_def)

lemma placed_append [simp]: "placed given off (ps @ qs) \<longleftrightarrow> placed given off ps \<and> placed given (off + length (bytes_of ps)) qs"
  by (induction ps arbitrary: off) (auto simp: add.assoc)

lemma placed_fresh: "placed given off ps \<Longrightarrow> given pid = None \<Longrightarrow> placed (given(pid \<mapsto> x)) off ps"
  by (induction ps arbitrary: off) auto

lemma placed_given: "placed given off ps \<Longrightarrow> p \<in> set ps \<Longrightarrow> given (pw_id p) \<noteq> None"
  by (induction ps arbitrary: off) auto

lemma placed_slice:
  "placed given (length pre) ps \<Longrightarrow> p \<in> set ps \<Longrightarrow>
   \<exists>off. given (pw_id p) = Some off \<and> slice (pre @ bytes_of ps @ post) off (length (pw_buf p)) = pw_buf p \<and>
         length pre \<le> off \<and> off + length (pw_buf p) \<le> length pre + length (bytes_of ps)"
proof (induction ps arbitrary: pre)
  case (Cons q ps)
  show ?case
  proof (cases "p = q")
    case True
    then show ?thesis using Cons.prems by (simp add: slice_def)
  next
    case False
    then have "placed given (length (pre @ pw_buf q)) ps" "p \<in> set ps" using Cons.prems by simp_all
    from Cons.IH [OF this] show ?thesis by auto
  qed
qed simp

section \<open>The loop over the buffers\<close>

lemma advance_drop:
  assumes "n \<le> length (drop off (concat bufs))" "bufs \<noteq> [] \<longrightarrow> off \<le> length (hd bufs)" "bufs = [] \<longrightarrow> off = 0"
    "advance n off bufs = (bufs', off')"
  shows "drop off' (concat bufs') = drop n (drop off (concat bufs)) \<and> (bufs' \<noteq> [] \<longrightarrow> off' \<le> length (hd bufs')) \<and>
    (bufs' = [] \<longrightarrow> off' = 0)"
  using assms
proof (induction bufs arbitrary: n off)
  case (Cons b bs)
  show ?case
  proof (cases "n = 0 \<or> n < length b - off")
    case True
    then show ?thesis using Cons.prems by (auto split: if_splits simp: add.commute)
  next
    case False
    then have adv: "advance (n - (length b - off)) 0 bs = (bufs', off')" using Cons.prems(4) by auto
    have "bs \<noteq> [] \<longrightarrow> 0 \<le> length (hd bs)" "n - (length b - off) \<le> length (drop 0 (concat bs))"
      using Cons.prems(1,2) False by auto
    from Cons.IH [OF this(2,1) _ adv] have "drop off' (concat bufs') = drop (n - (length b - off)) (concat bs) \<and>
      (bufs' \<noteq> [] \<longrightarrow> off' \<le> length (hd bufs')) \<and> (bufs' = [] \<longrightarrow> off' = 0)" by simp
    moreover have "drop n (drop off (b @ concat bs)) = drop (n - (length b - off)) (concat bs)"
      using False Cons.prems(2) by (auto simp: drop_append)
    ultimately show ?thesis by simp
  qed
qed auto

section \<open>The invariant\<close>

definition committed :: "buffer \<Rightarrow> wal_sys \<Rightarrow> buffer" where
  "committed base s = base @ bytes_of (sy_acked s)"

definition flight_ok :: "flight \<Rightarrow> bool" where
  "flight_ok f \<longleftrightarrow> fl_batch f \<noteq> [] \<and> (fl_bufs f \<noteq> [] \<longrightarrow> fl_off f \<le> length (hd (fl_bufs f))) \<and> (fl_bufs f = [] \<longrightarrow> fl_off f = 0) \<and>
     (fl_wait f \<noteq> Writing \<longrightarrow> fl_bufs f = []) \<and> length (to_write f) \<le> length (bytes_of (fl_batch f))"

definition file_ok :: "buffer \<Rightarrow> wal_sys \<Rightarrow> bool" where
  "file_ok base s \<longleftrightarrow>
     (let w = sy_wal s; c = committed base s in
      case wl_flight w of
        Some f \<Rightarrow> flight_ok f \<and> fl_start f = length c \<and> sy_file s @ to_write f = c @ bytes_of (fl_batch f)
      | None \<Rightarrow> if wl_poisoned w = None then sy_file s = c else prefix c (sy_file s))"

definition offsets_ok :: "buffer \<Rightarrow> wal_sys \<Rightarrow> bool" where
  "offsets_ok base s \<longleftrightarrow>
     (let w = sy_wal s; e = length (committed base s) + length (bytes_of (batch_of w)) in
      wl_queuedBytes w = length (bytes_of (wl_queue w)) \<and>
      placed (sy_offset s) (length base) (sy_acked s @ batch_of w) \<and>
      (case wl_poisoned w of
         None \<Rightarrow> (wl_fh w \<longrightarrow> wl_nextOffset w = e + wl_queuedBytes w) \<and> placed (sy_offset s) e (wl_queue w)
       | Some p \<Rightarrow> wl_queue w = [] \<and> wp_failedAtOffset p = e \<and> (wl_fh w \<longrightarrow> e \<le> wl_nextOffset w)))"

definition close_ok :: "wal \<Rightarrow> bool" where
  "close_ok w \<longleftrightarrow> (\<not> wl_fh w \<longrightarrow> wl_closing w = Released) \<and>
     (wl_queue w = [] \<or> wl_closing w = NotClosing \<or> wl_closing w = Draining \<or> wl_closing w = Flushing)"

definition wal_inv :: "buffer \<Rightarrow> wal_sys \<Rightarrow> bool" where
  "wal_inv base s \<longleftrightarrow> file_ok base s \<and> offsets_ok base s \<and> close_ok (sy_wal s)"

lemmas inv_defs = wal_inv_def file_ok_def offsets_ok_def committed_def batch_of_def Let_def

lemma open_inv: "wal_inv base (open_sys policy stats base)"
  by (simp add: inv_defs open_sys_def open_wal_def close_ok_def)

lemma append_inv:
  assumes "wal_inv base s" "wal_step (Append pid frame) s = Some s'"
  shows "wal_inv base s'"
proof -
  have fresh: "sy_offset s pid = None" using assms(2) by (auto split: if_splits)
  show ?thesis
  proof (cases "appendLoc pid frame (sy_wal s)")
    case (Pair r w)
    show ?thesis
    proof (cases r)
      case (Refused e)
      then have "w = sy_wal s" using Pair by (auto simp: appendLoc_def Let_def split: if_splits)
      then show ?thesis using assms fresh Pair Refused by simp
    next
      case (Appended off b)
      then have un: "wl_poisoned (sy_wal s) = None" and off: "off = wl_nextOffset (sy_wal s)"
        using Pair by (auto simp: appendLoc_def Let_def split: if_splits)
      have w: "wl_flight w = wl_flight (sy_wal s)" "wl_poisoned w = None" "wl_queue w = wl_queue (sy_wal s) @ [\<lparr>pw_id = pid, pw_buf = frame\<rparr>]"
        "wl_queuedBytes w = wl_queuedBytes (sy_wal s) + length frame" "wl_nextOffset w = wl_nextOffset (sy_wal s) + length frame"
        "wl_fh w = wl_fh (sy_wal s)" "wl_closing w = NotClosing" "wl_closing (sy_wal s) = NotClosing"
        using Pair Appended un by (auto simp: appendLoc_def Let_def wal_closed_def split: if_splits)
      have s': "s' = s\<lparr>sy_wal := w, sy_offset := (sy_offset s)(pid \<mapsto> off)\<rparr>" using assms(2) fresh Pair Appended by simp
      show ?thesis using assms(1) un w fresh unfolding s'
        by (auto simp: inv_defs close_ok_def off placed_fresh split: option.splits)
    qed
  qed
qed

lemma flushBatch_inv: "wal_inv base s \<Longrightarrow> wal_inv base (s\<lparr>sy_wal := flushBatch (sy_wal s)\<rparr>)"
  by (auto simp: inv_defs close_ok_def flushBatch_def flight_ok_def to_write_def bytes_of_def neq_Nil_conv split: option.splits)

section \<open>The end of a flush\<close>

lemma acknowledge_fields [simp]:
  "sy_wal (acknowledge r s) = snd r" "sy_file (acknowledge r s) = sy_file s" "sy_offset (acknowledge r s) = sy_offset s"
  "sy_acked (acknowledge r s) = sy_acked s @ filter (\<lambda>p. Resolved (pw_id p) \<in> set (fst r)) (batch_of (sy_wal s))"
  "sy_synced (acknowledge r s) = sy_synced s" "sy_raced (acknowledge r s) = sy_raced s" "sy_bg_cov (acknowledge r s) = sy_bg_cov s"
  "sy_close_cov (acknowledge r s) = sy_close_cov s" "sy_flight_cov (acknowledge r s) = sy_flight_cov s"
  "sy_disabled (acknowledge r s) = sy_disabled s"
  by (simp_all add: acknowledge_def split: prod.splits)

lemma finish_fields:
  "fst (finish_flush f None w) = map (\<lambda>p. Resolved (pw_id p)) (fl_batch f)"
  "Resolved i \<notin> set (fst (finish_flush f (Some e) w))"
  "wl_flight (snd (finish_flush f err w)) = None"
  "wl_poisoned (snd (finish_flush f None w)) = wl_poisoned w"
  "wl_queue (snd (finish_flush f None w)) = wl_queue w"
  "wl_queue (snd (finish_flush f (Some e) w)) = []"
  "wl_queuedBytes (snd (finish_flush f None w)) = wl_queuedBytes w"
  "wl_queuedBytes (snd (finish_flush f (Some e) w)) = (if wl_queue w = [] then wl_queuedBytes w else 0)"
  "wl_nextOffset (snd (finish_flush f err w)) = wl_nextOffset w"
  "wl_fh (snd (finish_flush f err w)) = wl_fh w"
  "wl_closing (snd (finish_flush f err w)) = wl_closing w"
  "wl_poisoned (snd (finish_flush f (Some e) w)) = wl_poisoned (poisonWith (fl_start f) e w)"
  by (auto simp: finish_flush_def rejectQueued_def poisonWith_def Let_def split: option.splits prod.splits)

lemma flush_inv:
  assumes off: "offsets_ok base s" "close_ok (sy_wal s)" and f: "wl_flight (sy_wal s) = Some f0" "fl_batch f = fl_batch f0" "fl_start f = length (committed base s)"
    and fd: "err = None \<Longrightarrow> sy_file s = committed base s @ bytes_of (fl_batch f)" "prefix (committed base s) (sy_file s)"
  shows "wal_inv base (acknowledge (finish_flush f err (sy_wal s)) s)"
proof (cases err)
  case None
  have all: "filter (\<lambda>p. Resolved (pw_id p) \<in> set (fst (finish_flush f None (sy_wal s)))) (batch_of (sy_wal s)) = fl_batch f"
    using f(1,2) by (auto simp: finish_fields batch_of_def)
  show ?thesis using off f fd(1) None
    by (auto simp: inv_defs finish_fields all [unfolded batch_of_def] add.assoc close_ok_def split: option.splits)
next
  case (Some e)
  have none: "filter (\<lambda>p. Resolved (pw_id p) \<in> set (fst (finish_flush f (Some e) (sy_wal s)))) (batch_of (sy_wal s)) = []"
    by (simp add: finish_fields)
  show ?thesis using off f fd(2) Some
    by (auto simp: inv_defs finish_fields none [unfolded batch_of_def] poisonWith_def close_ok_def split: option.splits)
qed

text \<open>The counters a handler touches on its way do not matter.\<close>

lemma acknowledge_wal:
  "batch_of w = batch_of (sy_wal s) \<Longrightarrow> acknowledge r (s\<lparr>sy_wal := w\<rparr>) = acknowledge r s"
  by (simp add: acknowledge_def split: prod.splits)

definition same_queue :: "wal \<Rightarrow> wal \<Rightarrow> bool" where
  "same_queue w w' \<longleftrightarrow> wl_queue w' = wl_queue w \<and> wl_queuedBytes w' = wl_queuedBytes w \<and> wl_nextOffset w' = wl_nextOffset w \<and>
     wl_poisoned w' = wl_poisoned w \<and> wl_flight w' = wl_flight w \<and> (wl_fh w' \<longrightarrow> wl_fh w)"

lemma same_queue_offsets: "same_queue (sy_wal s) w \<Longrightarrow> offsets_ok base s \<Longrightarrow> offsets_ok base (s\<lparr>sy_wal := w\<rparr>)"
  by (cases "wl_poisoned (sy_wal s)") (auto simp: offsets_ok_def same_queue_def batch_of_def committed_def Let_def)

lemma same_queue_inv: "same_queue (sy_wal s) w \<Longrightarrow> close_ok w \<Longrightarrow> wal_inv base s \<Longrightarrow> wal_inv base (s\<lparr>sy_wal := w\<rparr>)"
  by (auto simp: inv_defs same_queue_def split: option.splits)

lemma offsets_file [simp]: "offsets_ok base (s\<lparr>sy_file := fd\<rparr>) = offsets_ok base s"
  by (simp add: offsets_ok_def committed_def Let_def cong: option.case_cong)

text \<open>Nor does the history of the fsyncs.\<close>

lemma inv_history [simp]:
  "wal_inv base (s\<lparr>sy_flight_cov := x\<rparr>) = wal_inv base s" "wal_inv base (s\<lparr>sy_bg_cov := x\<rparr>) = wal_inv base s"
  "wal_inv base (s\<lparr>sy_close_cov := x\<rparr>) = wal_inv base s" "wal_inv base (s\<lparr>sy_synced := x\<rparr>) = wal_inv base s"
  "wal_inv base (s\<lparr>sy_raced := b\<rparr>) = wal_inv base s" "wal_inv base (s\<lparr>sy_disabled := b\<rparr>) = wal_inv base s"
  "wal_inv base (covered c err s) = wal_inv base s"
  by (auto simp: wal_inv_def file_ok_def offsets_ok_def committed_def covered_def Let_def cong: option.case_cong)

lemma flush_inv':
  assumes "offsets_ok base s" "same_queue (sy_wal s) w" "close_ok w" "wl_flight (sy_wal s) = Some f0" "fl_batch f = fl_batch f0"
    "fl_start f = length (committed base s)"
    "err = None \<Longrightarrow> sy_file s = committed base s @ bytes_of (fl_batch f)" "prefix (committed base s) (sy_file s)"
  shows "wal_inv base (acknowledge (finish_flush f err w) s)"
proof -
  have b: "batch_of w = batch_of (sy_wal s)" using assms(2) by (simp add: same_queue_def batch_of_def)
  have "offsets_ok base (s\<lparr>sy_wal := w\<rparr>)" "close_ok (sy_wal (s\<lparr>sy_wal := w\<rparr>))" "wl_flight (sy_wal (s\<lparr>sy_wal := w\<rparr>)) = Some f0"
    using assms(1-4) same_queue_offsets [OF assms(2)] by (simp_all add: same_queue_def)
  from flush_inv [OF this assms(5), of err] assms(6-8)
  have "wal_inv base (acknowledge (finish_flush f err (sy_wal (s\<lparr>sy_wal := w\<rparr>))) (s\<lparr>sy_wal := w\<rparr>))"
    by (simp add: committed_def)
  then show ?thesis by (simp add: acknowledge_wal [OF b])
qed

lemma flight_facts:
  assumes "wal_inv base s" "wl_flight (sy_wal s) = Some f"
  shows "flight_ok f" "fl_start f = length (committed base s)" "sy_file s @ to_write f = committed base s @ bytes_of (fl_batch f)"
    "offsets_ok base s" "close_ok (sy_wal s)"
  using assms by (auto simp: wal_inv_def file_ok_def Let_def)

lemma prefix_of_append: "a @ b = c @ d \<Longrightarrow> length c \<le> length a \<Longrightarrow> prefix c a"
  by (auto simp: append_eq_append_conv2)

lemma committed_prefix:
  assumes "wal_inv base s"
  shows "prefix (committed base s) (sy_file s)"
proof (cases "wl_flight (sy_wal s)")
  case (Some f)
  note f = flight_facts [OF assms Some]
  have "length (sy_file s) + length (to_write f) = length (committed base s) + length (bytes_of (fl_batch f))"
    using arg_cong [OF f(3), of length] by simp
  then show ?thesis using prefix_of_append [OF f(3)] f(1) by (simp add: flight_ok_def)
qed (use assms in \<open>auto simp: wal_inv_def file_ok_def Let_def split: if_splits\<close>)

section \<open>Each event\<close>

lemma written_prefix:
  assumes "wal_inv base s" "wl_flight (sy_wal s) = Some f"
  shows "prefix (committed base s) (sy_file s @ take n (to_write f))"
  using committed_prefix [OF assms(1)] by (rule prefix_prefix)

lemma write_threw_inv:
  assumes "wal_inv base s" "wl_flight (sy_wal s) = Some f"
  shows "wal_inv base (acknowledge (write_threw e (sy_wal s)) (s\<lparr>sy_file := sy_file s @ take n (to_write f)\<rparr>))"
proof -
  note f = flight_facts [OF assms]
  let ?s = "s\<lparr>sy_file := sy_file s @ take n (to_write f)\<rparr>"
  have "offsets_ok base ?s" using f(4) by simp
  then show ?thesis using assms(2) f(2) written_prefix [OF assms, of n]
    by (simp add: write_threw_def write_failed_def)
       (rule flush_inv' [where f0 = f]; use f(5) in \<open>simp add: same_queue_def committed_def close_ok_def\<close>)
qed

lemma write_returned_inv:
  assumes inv: "wal_inv base s" and fl: "wl_flight (sy_wal s) = Some f" "fl_wait f = Writing" and n: "n \<le> length (to_write f)"
  shows "wal_inv base (acknowledge (write_returned n (sy_wal s)) (s\<lparr>sy_file := sy_file s @ take n (to_write f)\<rparr>))"
proof -
  note f = flight_facts [OF inv fl(1)]
  let ?s = "s\<lparr>sy_file := sy_file s @ take n (to_write f)\<rparr>"
  let ?w = "(sy_wal s)\<lparr>wl_size := wl_size (sy_wal s) + n,
     wl_stats := (wl_stats (sy_wal s))\<lparr>st_walBytesWritten := st_walBytesWritten (wl_stats (sy_wal s)) + n\<rparr>,
     wl_writeGen := wl_writeGen (sy_wal s) + 1\<rparr>"
  obtain bufs off where adv: "advance n (fl_off f) (fl_bufs f) = (bufs, off)" by (cases "advance n (fl_off f) (fl_bufs f)")
  have d: "drop off (concat bufs) = drop n (to_write f)" "bufs \<noteq> [] \<longrightarrow> off \<le> length (hd bufs)" "bufs = [] \<longrightarrow> off = 0"
    using advance_drop [OF _ _ _ adv] n f(1) by (simp_all add: to_write_def flight_ok_def)
  define f1 where "f1 = f\<lparr>fl_bufs := bufs, fl_off := off\<rparr>"
  have tw: "to_write f1 = drop n (to_write f)" using d(1) by (simp add: f1_def to_write_def)
  have off: "offsets_ok base ?s" using f(4) by simp
  have q: "same_queue (sy_wal ?s) ?w" by (simp add: same_queue_def)
  have rest: "(sy_file s @ take n (to_write f)) @ to_write f1 = committed base s @ bytes_of (fl_batch f)"
    using f(3) tw by (metis append.assoc append_take_drop_id)
  have pre: "prefix (committed base ?s) (sy_file ?s)" using written_prefix [OF inv fl(1)] by (simp add: committed_def)
  have fail: "wal_inv base (acknowledge (finish_flush g (Some e) w) ?s)"
    if "fl_batch g = fl_batch f" "fl_start g = fl_start f" "same_queue (sy_wal ?s) w" "close_ok w" for e w g
    using flush_inv' [OF off that(3,4), of f g "Some e"] that(1,2) fl(1) f(2) pre by (simp add: committed_def)
  have stay: "wal_inv base (acknowledge ([], ?w\<lparr>wl_flight := Some g\<rparr>) ?s)"
    if g: "fl_batch g = fl_batch f" "fl_start g = fl_start f" "fl_bufs g = bufs" "fl_off g = off" "fl_wait g = Writing \<or> bufs = []" for g
  proof -
    have tg: "to_write g = to_write f1" using g by (simp add: to_write_def f1_def)
    have "flight_ok g" using f(1) d tw g(1,3-5) unfolding flight_ok_def tg by auto
    then show ?thesis using f(2,4,5) rest g(1,2) fl(1) unfolding wal_inv_def
      by (simp add: file_ok_def offsets_ok_def committed_def batch_of_def close_ok_def Let_def tg split: option.splits)
  qed
  show ?thesis
  proof (cases "n = 0")
    case True
    then show ?thesis using fl fail [of f] f(5) by (simp add: write_returned_def write_failed_def same_queue_def close_ok_def)
  next
    case n0: False
    show ?thesis
    proof (cases "bufs = []")
      case False
      have e: "wal_inv base (acknowledge (finish_flush f1 (Some (WalIoError ''the file handle is null''))
          (?w\<lparr>wl_stats := (wl_stats ?w)\<lparr>st_walWriteErrors := st_walWriteErrors (wl_stats ?w) + 1\<rparr>\<rparr>)) ?s)"
        by (rule fail) (use f(5) in \<open>simp_all add: f1_def same_queue_def close_ok_def\<close>)
      have g: "wal_inv base (acknowledge ([], ?w\<lparr>wl_flight := Some f1\<rparr>) ?s)"
        by (rule stay) (use fl(2) in \<open>simp_all add: f1_def\<close>)
      show ?thesis
      proof (cases "wl_fh (sy_wal s)")
        case True
        then show ?thesis using g fl n0 adv False by (simp add: write_returned_def Let_def f1_def)
      next
        case fh: False
        then show ?thesis using e fl n0 adv False by (simp add: write_returned_def write_failed_def Let_def f1_def)
      qed
    next
      case True
      then have "to_write f1 = []" by (simp add: f1_def to_write_def)
      then have full: "sy_file ?s = committed base ?s @ bytes_of (fl_batch f1)" using rest by (simp add: f1_def committed_def)
      have ok: "wal_inv base (acknowledge (finish_flush f1 None ?w) ?s)"
        using flush_inv' [OF off q, of f f1 None] fl(1) f(2,5) full pre by (simp add: f1_def committed_def close_ok_def)
      show ?thesis
      proof (cases "wl_policy (sy_wal s) = Always \<and> sync_issue ?w \<noteq> None")
        case True
        then obtain gen where "sync_issue ?w = Some gen" by auto
        then show ?thesis using True fl n0 adv \<open>bufs = []\<close> stay [of "f1\<lparr>fl_wait := Syncing gen\<rparr>"]
          by (simp add: write_returned_def Let_def f1_def [symmetric], simp add: f1_def)
      next
        case False
        then show ?thesis using fl n0 adv \<open>bufs = []\<close> ok
          by (auto simp: write_returned_def Let_def f1_def)
      qed
    qed
  qed
qed

lemma flush_synced_inv:
  assumes inv: "wal_inv base s" and fl: "wl_flight (sy_wal s) = Some f" "fl_wait f \<noteq> Writing"
  shows "wal_inv base (acknowledge (flush_synced err (sy_wal s)) s)"
proof -
  note f = flight_facts [OF inv fl(1)]
  have "to_write f = []" using f(1) fl(2) by (simp add: flight_ok_def to_write_def)
  then have full: "sy_file s = committed base s @ bytes_of (fl_batch f)" using f(3) by simp
  obtain gen where gen: "fl_wait f = Syncing gen" using fl(2) by (cases "fl_wait f") auto
  show ?thesis
  proof (cases err)
    case None
    then show ?thesis using fl(1) gen
      by (simp add: flush_synced_def)
         (rule flush_inv' [where f0 = f]; use f full in \<open>simp add: same_queue_def syncDone_def close_ok_def\<close>)
  next
    case (Some e)
    then show ?thesis using fl(1) gen
      by (simp add: flush_synced_def)
         (rule flush_inv' [where f0 = f]; use f full in \<open>simp add: same_queue_def syncFailed_def close_ok_def\<close>)
  qed
qed

lemma recover_inv:
  assumes "wal_inv base s" "wl_flight (sy_wal s) = None" "wl_poisoned (sy_wal s) = Some p"
    "recoverWalInPlace CutDone (sy_wal s) (sy_file s) = (dis, w, fd)"
  shows "\<not> dis \<and> fd = committed base s \<and> wl_poisoned w = None \<and> wl_flight w = None \<and> wl_queue w = [] \<and>
    (wl_fh (sy_wal s) \<longrightarrow> wl_nextOffset w = length (committed base s) \<and> wl_size w = length (committed base s))"
proof -
  have p: "wp_failedAtOffset p = length (committed base s)" "wl_queue (sy_wal s) = []"
    using assms(1-3) by (auto simp: wal_inv_def offsets_ok_def batch_of_def Let_def)
  have pre: "prefix (committed base s) (sy_file s)" by (rule committed_prefix [OF assms(1)])
  then have "take (length (committed base s)) (sy_file s) = committed base s" "length (committed base s) \<le> length (sy_file s)"
    by (auto simp: prefix_def)
  then show ?thesis using assms(2-4) p
    by (auto simp: recoverWalInPlace_def clearPoison_def refreshSize_def Let_def)
qed

text \<open>A recovery that stops after the cut leaves the acknowledged frames in the file and the log as it was.\<close>

lemma recover_cut:
  assumes "wal_inv base s" "wl_flight (sy_wal s) = None" "wl_poisoned (sy_wal s) = Some p"
    "recoverWalInPlace SizeFails (sy_wal s) (sy_file s) = (dis, w, fd)"
  shows "\<not> dis \<and> fd = committed base s \<and> w = sy_wal s"
proof -
  have "wp_failedAtOffset p = length (committed base s)"
    using assms(1-3) by (auto simp: wal_inv_def offsets_ok_def batch_of_def Let_def)
  moreover have "prefix (committed base s) (sy_file s)" by (rule committed_prefix [OF assms(1)])
  then have "take (length (committed base s)) (sy_file s) = committed base s" "length (committed base s) \<le> length (sy_file s)"
    by (auto simp: prefix_def)
  ultimately show ?thesis using assms(3,4) by (auto simp: recoverWalInPlace_def Let_def)
qed

lemma inv_close_ok: "wal_inv base s \<Longrightarrow> close_ok (sy_wal s)"
  by (simp add: wal_inv_def)

lemma poisoned_empty: "wal_inv base s \<Longrightarrow> wl_poisoned (sy_wal s) \<noteq> None \<Longrightarrow> wl_queue (sy_wal s) = []"
  by (auto simp: wal_inv_def offsets_ok_def Let_def)

lemma quiet_inv:
  assumes "wal_inv base s"
  shows "wal_inv base (s\<lparr>sy_wal := backgroundTick (sy_wal s)\<rparr>)"
    "wal_inv base (s\<lparr>sy_wal := bg_settled err (sy_wal s)\<rparr>)"
    "wal_inv base (s\<lparr>sy_wal := wal_seal (sy_wal s)\<rparr>)"
    "wal_inv base (s\<lparr>sy_wal := wal_close (sy_wal s)\<rparr>)"
    "wal_inv base (s\<lparr>sy_wal := close_synced err (sy_wal s)\<rparr>)"
  using inv_close_ok [OF assms]
  by - (rule same_queue_inv [OF _ _ assms];
      auto simp: same_queue_def close_ok_def backgroundTick_def bg_settled_def wal_seal_def wal_close_def wal_closed_def
        close_synced_def release_def syncDone_def syncFailed_def Let_def
        split: option.splits sum.splits prod.splits bool.splits closing.splits)+

lemma final_sync_inv:
  assumes "wal_inv base s" "wl_queue (sy_wal s) = []"
  shows "wal_inv base (s\<lparr>sy_wal := final_sync (sy_wal s)\<rparr>)"
  using inv_close_ok [OF assms(1)] assms(2)
  by - (rule same_queue_inv [OF _ _ assms(1)];
      auto simp: same_queue_def close_ok_def final_sync_def sync_issue_def release_def split: option.splits)

lemma close_turn_inv:
  assumes "wal_inv base s"
  shows "wal_inv base (s\<lparr>sy_wal := close_turn (sy_wal s)\<rparr>)"
proof -
  have rel: "wl_queue (sy_wal s) = [] \<Longrightarrow> wal_inv base (s\<lparr>sy_wal := release (sy_wal s)\<rparr>)"
    by (rule same_queue_inv [OF _ _ assms]) (auto simp: same_queue_def close_ok_def release_def)
  have flush: "wl_closing (sy_wal s) = Draining \<Longrightarrow> wal_inv base (s\<lparr>sy_wal := (sy_wal s)\<lparr>wl_closing := Flushing\<rparr>\<rparr>)"
    using inv_close_ok [OF assms] by - (rule same_queue_inv [OF _ _ assms]; auto simp: same_queue_def close_ok_def)
  show ?thesis
    using assms rel flush final_sync_inv [OF assms] flushBatch_inv [OF assms] poisoned_empty [OF assms]
    by (auto simp: close_turn_def flush_turn_def split: closing.splits flush_turn.splits if_splits)
qed

lemma poison_inv: "wal_inv base s \<Longrightarrow> wal_inv base (s\<lparr>sy_wal := snd (poisonPending e (sy_wal s))\<rparr>)"
proof -
  assume inv: "wal_inv base s"
  have len: "wl_queuedBytes (sy_wal s) = length (bytes_of (wl_queue (sy_wal s)))" using inv by (simp add: wal_inv_def offsets_ok_def Let_def)
  have pre: "prefix (committed base s) (sy_file s)" by (rule committed_prefix [OF inv])
  show ?thesis using inv len pre
    by (auto simp: inv_defs close_ok_def wal_closed_def poisonPending_def rejectQueued_def poisonWith_def split: option.splits)
qed

theorem wal_step_inv:
  assumes "wal_inv base s" "wal_step ev s = Some s'"
  shows "wal_inv base s'"
proof (cases ev)
  case (Append pid frame)
  then show ?thesis using append_inv [of base s pid frame s'] assms by simp
next
  case (WriteReturns n)
  with assms(2) obtain f where f: "wl_flight (sy_wal s) = Some f" "fl_wait f = Writing" "n \<le> length (to_write f)"
    by (auto simp: writing_def split: option.splits if_splits)
  show ?thesis using write_returned_inv [OF assms(1) f] assms(2) f WriteReturns by (auto simp: writing_def Let_def)
next
  case (WriteThrows n e)
  with assms(2) obtain f where f: "wl_flight (sy_wal s) = Some f" "fl_wait f = Writing" "n \<le> length (to_write f)"
    by (auto simp: writing_def split: option.splits if_splits)
  show ?thesis using write_threw_inv [OF assms(1) f(1)] assms(2) f WriteThrows by (auto simp: writing_def)
next
  case (FlushSynced err)
  with assms(2) obtain f where f: "wl_flight (sy_wal s) = Some f" "fl_wait f \<noteq> Writing" by (auto split: option.splits if_splits)
  show ?thesis using flush_synced_inv [OF assms(1) f] assms(2) f FlushSynced by auto
next
  case (RecoverInPlace b)
  obtain dis w fd where r: "recoverWalInPlace b (sy_wal s) (sy_file s) = (dis, w, fd)" by (cases "recoverWalInPlace b (sy_wal s) (sy_file s)")
  obtain p where p: "wl_flight (sy_wal s) = None" "wl_poisoned (sy_wal s) = Some p" using assms(2) RecoverInPlace by (auto split: if_splits)
  have s': "s' = s\<lparr>sy_wal := w, sy_file := fd, sy_disabled := dis, sy_synced := min (sy_synced s) (length fd),
      sy_flight_cov := min (sy_flight_cov s) (length fd), sy_bg_cov := min (sy_bg_cov s) (length fd),
      sy_close_cov := min (sy_close_cov s) (length fd)\<rparr>"
    using assms(2) RecoverInPlace r by (auto split: if_splits)
  show ?thesis
  proof (cases b)
    case CutFails
    then have "w = sy_wal s" "fd = sy_file s" using r p by (simp_all add: recoverWalInPlace_def)
    then show ?thesis using assms(1) unfolding s' by simp
  next
    case SizeFails
    with r have r': "recoverWalInPlace SizeFails (sy_wal s) (sy_file s) = (dis, w, fd)" by simp
    from recover_cut [OF assms(1) p r'] show ?thesis using assms(1) p unfolding s' by (auto simp: inv_defs close_ok_def)
  next
    case CutDone
    with r have r': "recoverWalInPlace CutDone (sy_wal s) (sy_file s) = (dis, w, fd)" by simp
    from recover_inv [OF assms(1) p r'] show ?thesis using assms(1) p r' unfolding s'
      by (auto simp: inv_defs close_ok_def recoverWalInPlace_def clearPoison_def refreshSize_def)
  qed
qed (use assms quiet_inv flushBatch_inv poison_inv close_turn_inv in \<open>auto simp: Let_def split: if_splits closing.splits\<close>)

lemma wal_reach_inv: "wal_reach policy base s \<Longrightarrow> wal_inv base s"
  by (induction rule: wal_reach.induct) (auto intro: open_inv wal_step_inv)

end
