(* ===== verification/Wal_Durable.thy ===== *)
theory Wal_Durable imports Wal_Proofs begin

text \<open>
  What an fsync covers, what waits for whom, and the properties of the log's appender.
\<close>

section \<open>Coverage\<close>

text \<open>The bytes that are in the file for good, as far as the appender knows.\<close>

definition landed :: "buffer \<Rightarrow> wal_sys \<Rightarrow> nat" where
  "landed base s = (if wl_flight (sy_wal s) = None then length (committed base s) else length (sy_file s))"

definition pending_cover :: "nat \<Rightarrow> nat \<Rightarrow> nat \<Rightarrow> nat \<Rightarrow> bool" where
  "pending_cover gen now n cov \<longleftrightarrow> gen \<le> now \<and> (gen = now \<longrightarrow> n \<le> cov)"

definition flight_covered :: "buffer \<Rightarrow> wal_sys \<Rightarrow> bool" where
  "flight_covered base s \<longleftrightarrow>
     (\<forall>f g. wl_flight (sy_wal s) = Some f \<longrightarrow> fl_wait f = Syncing g \<longrightarrow>
        g = wl_writeGen (sy_wal s) \<and> length (sy_file s) \<le> sy_flight_cov s)"

definition bg_covered :: "buffer \<Rightarrow> wal_sys \<Rightarrow> bool" where
  "bg_covered base s \<longleftrightarrow>
     (\<forall>g. wl_bgSync (sy_wal s) = Some g \<longrightarrow> pending_cover g (wl_writeGen (sy_wal s)) (landed base s) (sy_bg_cov s))"

definition close_covered :: "buffer \<Rightarrow> wal_sys \<Rightarrow> bool" where
  "close_covered base s \<longleftrightarrow>
     (\<forall>g. wl_closing (sy_wal s) = FinalSync g \<longrightarrow>
        pending_cover g (wl_writeGen (sy_wal s)) (landed base s) (sy_close_cov s) \<and> wl_flight (sy_wal s) = None)"

definition raced_ok :: "buffer \<Rightarrow> wal_sys \<Rightarrow> bool" where
  "raced_ok base s \<longleftrightarrow>
     (\<not> wl_fh (sy_wal s) \<longrightarrow> wl_flight (sy_wal s) = None \<or> wl_poisoned (sy_wal s) \<noteq> None) \<and>
     (\<not> sy_raced s \<longrightarrow> wl_flight (sy_wal s) = None \<or> wl_poisoned (sy_wal s) = None) \<and>
     (\<not> sy_raced s \<longrightarrow> wl_policy (sy_wal s) = Always \<longrightarrow> length (committed base s) \<le> sy_synced s)"

definition sync_inv :: "buffer \<Rightarrow> wal_sys \<Rightarrow> bool" where
  "sync_inv base s \<longleftrightarrow> pending_cover (wl_syncedGen (sy_wal s)) (wl_writeGen (sy_wal s)) (landed base s) (sy_synced s) \<and>
     flight_covered base s \<and> bg_covered base s \<and> close_covered base s \<and> raced_ok base s"

lemma committed_upd [simp]:
  "committed base (s\<lparr>sy_wal := w\<rparr>) = committed base s" "committed base (s\<lparr>sy_file := fd\<rparr>) = committed base s"
  "committed base (s\<lparr>sy_flight_cov := n\<rparr>) = committed base s" "committed base (s\<lparr>sy_bg_cov := n\<rparr>) = committed base s"
  "committed base (s\<lparr>sy_close_cov := n\<rparr>) = committed base s" "committed base (s\<lparr>sy_synced := n\<rparr>) = committed base s"
  "committed base (s\<lparr>sy_raced := b\<rparr>) = committed base s" "committed base (s\<lparr>sy_disabled := b\<rparr>) = committed base s"
  "committed base (s\<lparr>sy_offset := g\<rparr>) = committed base s"
  by (simp_all add: committed_def)

lemma landed_upd [simp]:
  "landed base (s\<lparr>sy_flight_cov := n\<rparr>) = landed base s" "landed base (s\<lparr>sy_bg_cov := n\<rparr>) = landed base s"
  "landed base (s\<lparr>sy_close_cov := n\<rparr>) = landed base s" "landed base (s\<lparr>sy_synced := n\<rparr>) = landed base s"
  "landed base (s\<lparr>sy_raced := b\<rparr>) = landed base s" "landed base (s\<lparr>sy_disabled := b\<rparr>) = landed base s"
  by (simp_all add: landed_def)

lemma landed_same: "wl_flight w = wl_flight (sy_wal s) \<Longrightarrow> landed base (s\<lparr>sy_wal := w\<rparr>) = landed base s"
  by (auto simp: landed_def)

lemmas sync_defs = sync_inv_def flight_covered_def bg_covered_def close_covered_def raced_ok_def pending_cover_def

lemma open_sync: "sync_inv base (open_sys policy stats base)"
  by (simp add: sync_defs open_sys_def open_wal_def landed_def committed_def)

lemma finish_sync_fields:
  "wl_writeGen (snd (finish_flush f err w)) = wl_writeGen w"
  "wl_syncedGen (snd (finish_flush f err w)) = wl_syncedGen w"
  "wl_bgSync (snd (finish_flush f err w)) = wl_bgSync w"
  "wl_policy (snd (finish_flush f err w)) = wl_policy w"
  by (auto simp: finish_flush_def rejectQueued_def poisonWith_def Let_def split: option.splits prod.splits)

lemmas finish_all = finish_fields finish_sync_fields

lemma committed_ack:
  "committed base (acknowledge r s) = committed base s @ bytes_of (filter (\<lambda>p. Resolved (pw_id p) \<in> set (fst r)) (batch_of (sy_wal s)))"
  by (simp add: committed_def)

lemma ack_failed: "committed base (acknowledge (finish_flush f (Some e) w) s) = committed base s"
  by (simp add: committed_ack finish_fields)

lemma ack_done:
  "wl_flight (sy_wal s) = Some f0 \<Longrightarrow> fl_batch f = fl_batch f0 \<Longrightarrow>
   committed base (acknowledge (finish_flush f None w) s) = committed base s @ bytes_of (fl_batch f)"
  by (simp add: committed_ack finish_fields batch_of_def)

lemma ack_nothing: "committed base (acknowledge ([], w) s) = committed base s"
  by (simp add: committed_ack)

lemma landed_le: "wal_inv base s \<Longrightarrow> length (committed base s) \<le> landed base s \<and> landed base s \<le> length (sy_file s)"
  using prefix_length_le [OF committed_prefix, of base s] by (auto simp: landed_def)

section \<open>Each event\<close>

text \<open>Only these fields matter.\<close>

definition same_sync :: "wal \<Rightarrow> wal \<Rightarrow> bool" where
  "same_sync w w' \<longleftrightarrow> wl_flight w' = wl_flight w \<and> wl_writeGen w' = wl_writeGen w \<and> wl_syncedGen w' = wl_syncedGen w \<and>
     wl_bgSync w' = wl_bgSync w \<and> wl_closing w' = wl_closing w \<and> wl_fh w' = wl_fh w \<and> wl_poisoned w' = wl_poisoned w \<and>
     wl_policy w' = wl_policy w"

lemma same_sync_inv:
  assumes "same_sync (sy_wal s) w" "sync_inv base s"
  shows "sync_inv base (s\<lparr>sy_wal := w\<rparr>)" "sync_inv base (s\<lparr>sy_wal := w, sy_offset := g\<rparr>)"
proof -
  have "landed base (s\<lparr>sy_wal := w\<rparr>) = landed base s" "landed base (s\<lparr>sy_wal := w, sy_offset := g\<rparr>) = landed base s"
    using assms(1) by (simp_all add: landed_def same_sync_def)
  then show "sync_inv base (s\<lparr>sy_wal := w\<rparr>)" "sync_inv base (s\<lparr>sy_wal := w, sy_offset := g\<rparr>)"
    using assms unfolding same_sync_def
    by (simp_all only: sync_inv_def flight_covered_def bg_covered_def close_covered_def raced_ok_def)
      simp_all
qed

lemma append_sync:
  assumes "sync_inv base s" "wal_step (Append pid frame) s = Some s'"
  shows "sync_inv base s'"
proof -
  obtain r w where r: "appendLoc pid frame (sy_wal s) = (r, w)" by (cases "appendLoc pid frame (sy_wal s)")
  have "same_sync (sy_wal s) w" using r by (auto simp: appendLoc_def same_sync_def Let_def split: if_splits)
  from same_sync_inv [OF this assms(1)] show ?thesis using assms(2) r by (auto split: if_splits append_result.splits)
qed

lemma sync_parts:
  assumes "sync_inv base s"
  shows "pending_cover (wl_syncedGen (sy_wal s)) (wl_writeGen (sy_wal s)) (landed base s) (sy_synced s)"
    "flight_covered base s" "bg_covered base s" "close_covered base s" "raced_ok base s"
  using assms by (simp_all add: sync_inv_def)

lemma flushBatch_sync:
  assumes "wal_inv base s" "sync_inv base s"
  shows "sync_inv base (s\<lparr>sy_wal := flushBatch (sy_wal s)\<rparr>)"
proof (cases "wl_flight (sy_wal s) \<noteq> None \<or> wl_queue (sy_wal s) = [] \<or> wl_poisoned (sy_wal s) \<noteq> None")
  case True
  then have "same_sync (sy_wal s) (flushBatch (sy_wal s))" by (auto simp: flushBatch_def same_sync_def)
  then show ?thesis using same_sync_inv assms(2) by blast
next
  case False
  let ?t = "s\<lparr>sy_wal := flushBatch (sy_wal s)\<rparr>"
  have f: "sy_file s = committed base s" "wl_fh (sy_wal s)" "\<And>g. wl_closing (sy_wal s) \<noteq> FinalSync g"
    using assms(1) False by (auto simp: wal_inv_def file_ok_def close_ok_def Let_def)
  have w: "wl_writeGen (flushBatch (sy_wal s)) = wl_writeGen (sy_wal s)" "wl_syncedGen (flushBatch (sy_wal s)) = wl_syncedGen (sy_wal s)"
    "wl_bgSync (flushBatch (sy_wal s)) = wl_bgSync (sy_wal s)" "wl_closing (flushBatch (sy_wal s)) = wl_closing (sy_wal s)"
    "wl_fh (flushBatch (sy_wal s)) = wl_fh (sy_wal s)" "wl_poisoned (flushBatch (sy_wal s)) = None"
    "wl_policy (flushBatch (sy_wal s)) = wl_policy (sy_wal s)"
    "\<exists>f. wl_flight (flushBatch (sy_wal s)) = Some f \<and> fl_wait f = Writing"
    using False by (simp_all add: flushBatch_def Let_def)
  have l: "landed base ?t = landed base s" using False f(1) w(8) by (auto simp: landed_def)
  note p = sync_parts [OF assms(2)]
  have "flight_covered base ?t" using w(8) by (auto simp: flight_covered_def)
  moreover have "bg_covered base ?t" using p(3) by (simp add: bg_covered_def w l)
  moreover have "close_covered base ?t" using f(3) by (simp add: close_covered_def w)
  moreover have "raced_ok base ?t" using p(5) f(2) by (simp add: raced_ok_def w)
  ultimately show ?thesis using p(1) by (simp add: sync_inv_def w l)
qed

section \<open>The end of a flush\<close>

text \<open>What a flush that ends needs for the coverage to stand: the generations may have moved on.\<close>

lemma finish_failed_sync:
  assumes inv: "wal_inv base s" "sync_inv base s" and fl: "wl_flight (sy_wal s) = Some f0"
    and w: "wl_writeGen w \<ge> wl_writeGen (sy_wal s)" "wl_syncedGen w = wl_syncedGen (sy_wal s)" "wl_bgSync w = wl_bgSync (sy_wal s)"
      "wl_closing w = wl_closing (sy_wal s)" "wl_policy w = wl_policy (sy_wal s)"
  shows "sync_inv base (acknowledge (finish_flush f (Some e) w) (s\<lparr>sy_file := fd\<rparr>))"
proof -
  let ?t = "acknowledge (finish_flush f (Some e) w) (s\<lparr>sy_file := fd\<rparr>)"
  note p = sync_parts [OF inv(2)]
  have c: "committed base ?t = committed base s" by (simp add: ack_failed)
  have l: "landed base ?t \<le> landed base s" using landed_le [OF inv(1)] by (simp add: landed_def c finish_all)
  have cover: "pending_cover g (wl_writeGen w) (landed base ?t) cov"
    if "pending_cover g (wl_writeGen (sy_wal s)) (landed base s) cov" for g cov
    using that l w(1) by (auto simp: pending_cover_def)
  have "flight_covered base ?t" by (simp add: flight_covered_def finish_all)
  moreover have "bg_covered base ?t" using p(3) cover by (simp add: bg_covered_def finish_all w)
  moreover have "close_covered base ?t" using p(4) fl by (auto simp: close_covered_def finish_all w)
  moreover have "raced_ok base ?t" using p(5) by (simp add: raced_ok_def finish_all w c)
  ultimately show ?thesis using cover [OF p(1)] by (simp add: sync_inv_def finish_all w)
qed

text \<open>
  A flush that ends well: the generation of its writes is new, unless its own fsync covers what the file holds.
\<close>

lemma finish_done_sync:
  assumes inv: "wal_inv base s" "sync_inv base s" and fl: "wl_flight (sy_wal s) = Some f0" "fl_batch f = fl_batch f0"
    and w: "wl_writeGen w \<ge> wl_writeGen (sy_wal s)" "wl_bgSync w = wl_bgSync (sy_wal s)" "wl_closing w = wl_closing (sy_wal s)"
      "wl_policy w = wl_policy (sy_wal s)" "wl_fh w = wl_fh (sy_wal s)" "wl_poisoned w = wl_poisoned (sy_wal s)"
    and fd: "fd = committed base s @ bytes_of (fl_batch f)"
    and gen: "wl_writeGen w = wl_writeGen (sy_wal s) \<longrightarrow> fd = sy_file s"
      "pending_cover (wl_syncedGen w) (wl_writeGen w) (length fd) n"
      "wl_policy w = Always \<longrightarrow> \<not> sy_raced s \<longrightarrow> length fd \<le> n"
  shows "sync_inv base ((acknowledge (finish_flush f None w) (s\<lparr>sy_file := fd\<rparr>))\<lparr>sy_synced := n\<rparr>)"
proof -
  let ?t = "(acknowledge (finish_flush f None w) (s\<lparr>sy_file := fd\<rparr>))\<lparr>sy_synced := n\<rparr>"
  note p = sync_parts [OF inv(2)]
  have c: "committed base (acknowledge (finish_flush f None w) (s\<lparr>sy_file := fd\<rparr>)) = fd"
    using ack_done [of "s\<lparr>sy_file := fd\<rparr>" f0 f base w] fl fd by simp
  have l: "landed base (acknowledge (finish_flush f None w) (s\<lparr>sy_file := fd\<rparr>)) = length fd" by (simp add: landed_def finish_all c)
  have "flight_covered base ?t" by (simp add: flight_covered_def finish_all)
  moreover have "\<forall>g. wl_bgSync w = Some g \<longrightarrow> pending_cover g (wl_writeGen w) (length fd) (sy_bg_cov s)"
    using p(3) w(1,2) gen(1) fl(1) by (auto simp: bg_covered_def pending_cover_def landed_def)
  then have "bg_covered base ?t" by (simp add: bg_covered_def finish_all l)
  moreover have "close_covered base ?t" using p(4) fl(1) by (auto simp: close_covered_def finish_all w)
  moreover have "raced_ok base ?t" using gen(3) by (simp add: raced_ok_def finish_all c)
  ultimately show ?thesis using gen(2) by (simp add: sync_inv_def finish_all l)
qed

lemma keep_flying:
  assumes inv: "sync_inv base s" and fl: "wl_flight (sy_wal s) = Some f0"
    and w: "wl_writeGen w = wl_writeGen (sy_wal s) + 1" "wl_syncedGen w = wl_syncedGen (sy_wal s)" "wl_bgSync w = wl_bgSync (sy_wal s)"
      "wl_closing w = wl_closing (sy_wal s)" "wl_policy w = wl_policy (sy_wal s)" "wl_fh w = wl_fh (sy_wal s)"
      "wl_poisoned w = wl_poisoned (sy_wal s)" "wl_flight w = Some f"
    and g: "\<forall>g. fl_wait f = Syncing g \<longrightarrow> g = wl_writeGen w"
  shows "sync_inv base ((acknowledge ([], w) (s\<lparr>sy_file := fd\<rparr>))\<lparr>sy_flight_cov := length fd\<rparr>)"
proof -
  let ?t = "(acknowledge ([], w) (s\<lparr>sy_file := fd\<rparr>))\<lparr>sy_flight_cov := length fd\<rparr>"
  note p = sync_parts [OF inv]
  have c: "committed base (acknowledge ([], w) (s\<lparr>sy_file := fd\<rparr>)) = committed base s" by (simp add: ack_nothing)
  have "pending_cover (wl_syncedGen w) (wl_writeGen w) (landed base ?t) (sy_synced s)" using p(1) w by (simp add: pending_cover_def)
  moreover have "flight_covered base ?t" using g w by (simp add: flight_covered_def)
  moreover have "bg_covered base ?t" using p(3) w by (auto simp: bg_covered_def pending_cover_def)
  moreover have "close_covered base ?t" using p(4) w fl by (auto simp: close_covered_def)
  moreover have "raced_ok base ?t" using p(5) w fl by (simp add: raced_ok_def c)
  ultimately show ?thesis by (simp add: sync_inv_def)
qed

lemma sync_flight_cov:
  "wl_flight (sy_wal s) = None \<Longrightarrow> sync_inv base (s\<lparr>sy_flight_cov := n\<rparr>) = sync_inv base s"
  by (simp add: sync_inv_def flight_covered_def bg_covered_def close_covered_def raced_ok_def landed_def)

lemma write_returned_sync:
  assumes inv: "wal_inv base s" "sync_inv base s" and fl: "wl_flight (sy_wal s) = Some f" "fl_wait f = Writing" and n: "n \<le> length (to_write f)"
    and fd: "fd = sy_file s @ take n (to_write f)"
  shows "sync_inv base ((acknowledge (write_returned n (sy_wal s)) (s\<lparr>sy_file := fd\<rparr>))\<lparr>sy_flight_cov := length fd\<rparr>)"
proof -
  note f = flight_facts [OF inv(1) fl(1)]
  obtain bufs off where adv: "advance n (fl_off f) (fl_bufs f) = (bufs, off)" by (cases "advance n (fl_off f) (fl_bufs f)")
  have d: "drop off (concat bufs) = drop n (to_write f)"
    using advance_drop [OF _ _ _ adv] n f(1) by (simp add: to_write_def flight_ok_def)
  define f1 where "f1 = f\<lparr>fl_bufs := bufs, fl_off := off\<rparr>"
  have f1w: "fl_wait f1 = Writing" using fl(2) by (simp add: f1_def)
  define w where "w = (sy_wal s)\<lparr>wl_size := wl_size (sy_wal s) + n,
     wl_stats := (wl_stats (sy_wal s))\<lparr>st_walBytesWritten := st_walBytesWritten (wl_stats (sy_wal s)) + n\<rparr>,
     wl_writeGen := wl_writeGen (sy_wal s) + 1\<rparr>"
  have wf: "wl_writeGen w = wl_writeGen (sy_wal s) + 1" "wl_syncedGen w = wl_syncedGen (sy_wal s)" "wl_bgSync w = wl_bgSync (sy_wal s)"
      "wl_closing w = wl_closing (sy_wal s)" "wl_policy w = wl_policy (sy_wal s)" "wl_fh w = wl_fh (sy_wal s)"
      "wl_poisoned w = wl_poisoned (sy_wal s)" by (simp_all add: w_def)
  have failing: "sync_inv base ((acknowledge (finish_flush g (Some e) w') (s\<lparr>sy_file := fd\<rparr>))\<lparr>sy_flight_cov := length fd\<rparr>)"
    if "wl_writeGen w' \<ge> wl_writeGen (sy_wal s)" "wl_syncedGen w' = wl_syncedGen (sy_wal s)" "wl_bgSync w' = wl_bgSync (sy_wal s)"
      "wl_closing w' = wl_closing (sy_wal s)" "wl_policy w' = wl_policy (sy_wal s)" for g e w'
    using finish_failed_sync [OF inv fl(1) that, of g e fd] by (subst sync_flight_cov) (simp_all add: finish_all)
  have fail: "sync_inv base ((acknowledge (write_failed g e w') (s\<lparr>sy_file := fd\<rparr>))\<lparr>sy_flight_cov := length fd\<rparr>)"
    if "w' = w \<or> w' = sy_wal s" for g e w'
    unfolding write_failed_def by (rule failing) (use that wf in auto)
  consider "n = 0" | "n \<noteq> 0" "bufs \<noteq> []" "wl_fh w" | "n \<noteq> 0" "bufs \<noteq> []" "\<not> wl_fh w"
    | gen where "n \<noteq> 0" "bufs = []" "wl_policy w = Always" "sync_issue w = Some gen"
    | "n \<noteq> 0" "bufs = []" "wl_policy w = Always \<longrightarrow> sync_issue w = None" by fastforce
  then show ?thesis
  proof cases
    case 1
    then show ?thesis using fail [of "sy_wal s" f NoProgress] fl by (simp add: write_returned_def)
  next
    case 2
    have "sync_inv base ((acknowledge ([], w\<lparr>wl_flight := Some f1\<rparr>) (s\<lparr>sy_file := fd\<rparr>))\<lparr>sy_flight_cov := length fd\<rparr>)"
      by (rule keep_flying [OF inv(2) fl(1), where f = f1]) (use wf f1w in simp_all)
    then show ?thesis using 2 fl adv by (simp add: write_returned_def w_def f1_def Let_def)
  next
    case 3
    then show ?thesis using fail [of w f1] fl adv by (simp add: write_returned_def w_def f1_def Let_def)
  next
    case 4
    have "gen = wl_writeGen w" using 4(4) by (simp add: sync_issue_def split: if_splits)
    then have "\<forall>g. fl_wait (f1\<lparr>fl_wait := Syncing gen\<rparr>) = Syncing g \<longrightarrow> g = wl_writeGen w" by simp
    then have "sync_inv base ((acknowledge ([], w\<lparr>wl_flight := Some (f1\<lparr>fl_wait := Syncing gen\<rparr>)\<rparr>) (s\<lparr>sy_file := fd\<rparr>))\<lparr>sy_flight_cov := length fd\<rparr>)"
      by - (rule keep_flying [OF inv(2) fl(1), where f = "f1\<lparr>fl_wait := Syncing gen\<rparr>"]; use wf in simp)
    then show ?thesis using 4 fl adv by (simp add: write_returned_def w_def f1_def Let_def)
  next
    case 5
    have "drop n (to_write f) = []" using d 5(2) by simp
    then have "take n (to_write f) = to_write f" by simp
    then have full: "fd = committed base s @ bytes_of (fl_batch f1)" using f(3) by (simp add: fd f1_def)
    have "\<not> sy_raced s \<longrightarrow> wl_policy w \<noteq> Always"
      using 5(3) sync_parts(5) [OF inv(2)] fl(1) by (auto simp: raced_ok_def sync_issue_def wf split: if_splits)
    then have "sync_inv base ((acknowledge (finish_flush f1 None w) (s\<lparr>sy_file := fd\<rparr>))\<lparr>sy_synced := sy_synced s\<rparr>)"
      using sync_parts(1) [OF inv(2)]
      by - (rule finish_done_sync [OF inv fl(1)]; use wf full in \<open>auto simp: f1_def pending_cover_def\<close>)
    moreover have "(acknowledge (finish_flush f1 None w) (s\<lparr>sy_file := fd\<rparr>))\<lparr>sy_synced := sy_synced s\<rparr> =
        acknowledge (finish_flush f1 None w) (s\<lparr>sy_file := fd\<rparr>)" by (simp add: acknowledge_def split: prod.splits)
    ultimately have "sync_inv base ((acknowledge (finish_flush f1 None w) (s\<lparr>sy_file := fd\<rparr>))\<lparr>sy_flight_cov := length fd\<rparr>)"
      by (subst sync_flight_cov) (simp_all add: finish_all)
    then show ?thesis using 5 fl adv by (auto simp: write_returned_def w_def f1_def Let_def)
  qed
qed

lemma flush_synced_sync:
  assumes inv: "wal_inv base s" "sync_inv base s" and fl: "wl_flight (sy_wal s) = Some f" "fl_wait f \<noteq> Writing"
  shows "sync_inv base (covered (sy_flight_cov s) err (acknowledge (flush_synced err (sy_wal s)) s))"
proof -
  note f = flight_facts [OF inv(1) fl(1)]
  obtain gen where gen: "fl_wait f = Syncing gen" using fl(2) by (cases "fl_wait f") auto
  have g: "gen = wl_writeGen (sy_wal s)" "length (sy_file s) \<le> sy_flight_cov s"
    using sync_parts(2) [OF inv(2)] fl(1) gen by (auto simp: flight_covered_def)
  have "to_write f = []" using f(1) fl(2) by (simp add: flight_ok_def to_write_def)
  then have full: "sy_file s = committed base s @ bytes_of (fl_batch f)" using f(3) by simp
  show ?thesis
  proof (cases err)
    case None
    have "sync_inv base ((acknowledge (finish_flush f None (syncDone gen (sy_wal s))) (s\<lparr>sy_file := sy_file s\<rparr>))
        \<lparr>sy_synced := max (sy_synced s) (sy_flight_cov s)\<rparr>)"
      using sync_parts(1) [OF inv(2)] g full
      by - (rule finish_done_sync [OF inv fl(1)]; auto simp: syncDone_def pending_cover_def)
    then show ?thesis using None fl(1) gen by (simp add: flush_synced_def covered_def)
  next
    case (Some e)
    have "sync_inv base (acknowledge (finish_flush f (Some e) (syncFailed e (sy_wal s))) (s\<lparr>sy_file := sy_file s\<rparr>))"
      by (rule finish_failed_sync [OF inv fl(1)]) (simp_all add: syncFailed_def)
    then show ?thesis using Some fl(1) gen by (simp add: flush_synced_def covered_def)
  qed
qed

section \<open>The other events\<close>

lemma tick_sync:
  assumes "wal_inv base s" "sync_inv base s"
  shows "sync_inv base (s\<lparr>sy_wal := backgroundTick (sy_wal s),
    sy_bg_cov := (if wl_bgSync (sy_wal s) = None \<and> wl_bgSync (backgroundTick (sy_wal s)) \<noteq> None then length (sy_file s) else sy_bg_cov s)\<rparr>)"
proof -
  let ?w = "backgroundTick (sy_wal s)"
  have w: "wl_flight ?w = wl_flight (sy_wal s)" "wl_writeGen ?w = wl_writeGen (sy_wal s)" "wl_syncedGen ?w = wl_syncedGen (sy_wal s)"
    "wl_closing ?w = wl_closing (sy_wal s)" "wl_fh ?w = wl_fh (sy_wal s)" "wl_poisoned ?w = wl_poisoned (sy_wal s)"
    "wl_policy ?w = wl_policy (sy_wal s)"
    "wl_bgSync ?w = wl_bgSync (sy_wal s) \<or> wl_bgSync (sy_wal s) = None \<and> wl_bgSync ?w = Some (wl_writeGen (sy_wal s))"
    by (auto simp: backgroundTick_def sync_issue_def split: option.splits sum.splits prod.splits bool.splits)
  let ?t = "s\<lparr>sy_wal := ?w, sy_bg_cov := (if wl_bgSync (sy_wal s) = None \<and> wl_bgSync ?w \<noteq> None then length (sy_file s) else sy_bg_cov s)\<rparr>"
  note p = sync_parts [OF assms(2)]
  note l = landed_same [OF w(1), of base]
  have "flight_covered base ?t" using p(2) by (simp add: flight_covered_def w)
  moreover have "bg_covered base ?t"
    using p(3) w(2,8) landed_le [OF assms(1)] by (auto simp: bg_covered_def pending_cover_def l)
  moreover have "close_covered base ?t" using p(4) by (simp add: close_covered_def w l)
  moreover have "raced_ok base ?t" using p(5) by (simp add: raced_ok_def w)
  ultimately show ?thesis using p(1) by (simp add: sync_inv_def w l)
qed

text \<open>The completion of a background or of the final fsync.\<close>

lemma fsync_done_sync:
  assumes "sync_inv base s" "pending_cover gen (wl_writeGen (sy_wal s)) (landed base s) cov"
    and w: "wl_flight w = wl_flight (sy_wal s)" "wl_writeGen w = wl_writeGen (sy_wal s)"
      "wl_syncedGen w = wl_syncedGen (sy_wal s) \<or> err = None \<and> wl_syncedGen w = max (wl_syncedGen (sy_wal s)) gen"
      "wl_bgSync w = None \<or> wl_bgSync w = wl_bgSync (sy_wal s)"
      "wl_closing w = Released \<or> wl_closing w = wl_closing (sy_wal s)"
      "\<not> wl_fh w \<longrightarrow> wl_fh (sy_wal s) \<longrightarrow> wl_flight w = None" "wl_poisoned w = wl_poisoned (sy_wal s)" "wl_policy w = wl_policy (sy_wal s)"
  shows "sync_inv base (covered cov err (s\<lparr>sy_wal := w\<rparr>))"
proof -
  let ?t = "covered cov err (s\<lparr>sy_wal := w\<rparr>)"
  have t: "sy_wal ?t = w" "sy_file ?t = sy_file s" "sy_synced ?t = (if err = None then max (sy_synced s) cov else sy_synced s)"
    "sy_flight_cov ?t = sy_flight_cov s" "sy_bg_cov ?t = sy_bg_cov s" "sy_close_cov ?t = sy_close_cov s" "sy_raced ?t = sy_raced s"
    "committed base ?t = committed base s" by (simp_all add: covered_def)
  note p = sync_parts [OF assms(1)]
  have l: "landed base ?t = landed base s" by (simp add: landed_def t w)
  have "pending_cover (wl_syncedGen w) (wl_writeGen w) (landed base ?t) (sy_synced ?t)"
    using p(1) assms(2) w(2,3) by (auto simp: pending_cover_def l t max_def split: if_splits)
  moreover have "flight_covered base ?t" using p(2) by (simp add: flight_covered_def t w)
  moreover have "bg_covered base ?t" using p(3) w(4) unfolding bg_covered_def t w(2) l by (metis option.distinct(1))
  moreover have "close_covered base ?t" using p(4) w(5) unfolding close_covered_def t w(1,2) l by (metis closing.distinct)
  moreover have "raced_ok base ?t" using p(5) w(1,6-8) by (auto simp: raced_ok_def t)
  ultimately show ?thesis by (simp add: sync_inv_def t)
qed

lemma bg_settled_sync:
  assumes "sync_inv base s" "wl_bgSync (sy_wal s) = Some gen"
  shows "sync_inv base (covered (sy_bg_cov s) err (s\<lparr>sy_wal := bg_settled err (sy_wal s)\<rparr>))"
proof (rule fsync_done_sync [OF assms(1)])
  show "pending_cover gen (wl_writeGen (sy_wal s)) (landed base s) (sy_bg_cov s)"
    using sync_parts(3) [OF assms(1)] assms(2) by (auto simp: bg_covered_def)
qed (use assms(2) in \<open>auto simp: bg_settled_def syncDone_def syncFailed_def max_def Let_def split: option.splits sum.splits\<close>)

lemma close_synced_sync:
  assumes "sync_inv base s" "wl_closing (sy_wal s) = FinalSync gen"
  shows "sync_inv base (covered (sy_close_cov s) err (s\<lparr>sy_wal := close_synced err (sy_wal s)\<rparr>))"
proof (rule fsync_done_sync [OF assms(1)])
  show "pending_cover gen (wl_writeGen (sy_wal s)) (landed base s) (sy_close_cov s)"
    using sync_parts(4) [OF assms(1)] assms(2) by (auto simp: close_covered_def)
  show "\<not> wl_fh (close_synced err (sy_wal s)) \<longrightarrow> wl_fh (sy_wal s) \<longrightarrow> wl_flight (close_synced err (sy_wal s)) = None"
    using sync_parts(4) [OF assms(1)] assms(2)
    by (auto simp: close_covered_def close_synced_def release_def syncDone_def syncFailed_def split: option.splits)
qed (use assms(2) in \<open>auto simp: close_synced_def release_def syncDone_def syncFailed_def max_def split: option.splits\<close>)

lemma seal_sync: "sync_inv base s \<Longrightarrow> sync_inv base (s\<lparr>sy_wal := wal_seal (sy_wal s)\<rparr>)"
  by (rule same_sync_inv(1)) (simp_all add: same_sync_def wal_seal_def)

text \<open>A step of closing other than the final sync.\<close>

lemma closing_sync:
  assumes "sync_inv base s" "wl_flight w = wl_flight (sy_wal s)" "wl_writeGen w = wl_writeGen (sy_wal s)"
    "wl_syncedGen w = wl_syncedGen (sy_wal s)" "wl_bgSync w = wl_bgSync (sy_wal s)" "wl_poisoned w = wl_poisoned (sy_wal s)"
    "wl_policy w = wl_policy (sy_wal s)" "\<not> wl_fh w \<longrightarrow> wl_fh (sy_wal s) \<longrightarrow> wl_flight w = None \<or> wl_poisoned w \<noteq> None"
    "\<forall>g. wl_closing w = FinalSync g \<longrightarrow> wl_closing (sy_wal s) = FinalSync g"
  shows "sync_inv base (s\<lparr>sy_wal := w\<rparr>)"
proof -
  note p = sync_parts [OF assms(1)]
  note l = landed_same [OF assms(2), of base]
  have "flight_covered base (s\<lparr>sy_wal := w\<rparr>)" using p(2) by (simp add: flight_covered_def assms(2,3))
  moreover have "bg_covered base (s\<lparr>sy_wal := w\<rparr>)" using p(3) by (simp add: bg_covered_def assms(3,5) l)
  moreover have "close_covered base (s\<lparr>sy_wal := w\<rparr>)" using p(4) assms(9) by (simp add: close_covered_def assms(2,3) l)
  moreover have "raced_ok base (s\<lparr>sy_wal := w\<rparr>)" using p(5) assms(8) by (auto simp: raced_ok_def assms(2,6,7))
  ultimately show ?thesis using p(1) by (simp add: sync_inv_def assms(3,4) l)
qed

lemma close_sync: "sync_inv base s \<Longrightarrow> sync_inv base (s\<lparr>sy_wal := wal_close (sy_wal s)\<rparr>)"
  by (rule closing_sync) (auto simp: wal_close_def)

lemma close_turn_sync:
  assumes inv: "wal_inv base s" "sync_inv base s"
  shows "sync_inv base (s\<lparr>sy_wal := close_turn (sy_wal s), sy_close_cov :=
    (if wl_closing (sy_wal s) = Flushing \<and> wl_closing (close_turn (sy_wal s)) \<noteq> Flushing then length (sy_file s) else sy_close_cov s)\<rparr>)"
proof -
  have rel: "sync_inv base (s\<lparr>sy_wal := release (sy_wal s)\<rparr>)" if "wl_poisoned (sy_wal s) \<noteq> None"
    by (rule closing_sync [OF inv(2)]) (use that in \<open>simp_all add: release_def\<close>)
  have cov: "sync_inv base (t\<lparr>sy_close_cov := n\<rparr>)" if "sync_inv base t" "\<And>g. wl_closing (sy_wal t) \<noteq> FinalSync g" for t n
    using that by (simp add: sync_inv_def flight_covered_def bg_covered_def close_covered_def raced_ok_def)
  show ?thesis
  proof (cases "wl_closing (sy_wal s)")
    case Draining
    have "sync_inv base (s\<lparr>sy_wal := close_turn (sy_wal s)\<rparr>)"
    proof (cases "wl_poisoned (sy_wal s) \<noteq> None \<and> ot_count (wl_tracker (sy_wal s)) = 0")
      case True
      then show ?thesis using rel Draining by (simp add: close_turn_def)
    next
      case False
      then show ?thesis using Draining
        by - (rule closing_sync [OF inv(2)]; auto simp: close_turn_def)
    qed
    then show ?thesis using Draining by simp
  next
    case Flushing
    show ?thesis
    proof (cases "flush_turn (sy_wal s)")
      case (FlushThrows e)
      then have "wl_poisoned (sy_wal s) \<noteq> None" by (auto simp: flush_turn_def split: if_splits)
      then have "close_turn (sy_wal s) = release (sy_wal s)" "sync_inv base (s\<lparr>sy_wal := release (sy_wal s)\<rparr>)"
        using rel Flushing FlushThrows by (simp_all add: close_turn_def final_sync_def sync_issue_def)
      with cov [of "s\<lparr>sy_wal := release (sy_wal s)\<rparr>"] show ?thesis by (simp add: release_def)
    next
      case FlushReturns
      then have r: "wl_poisoned (sy_wal s) = None" "wl_flight (sy_wal s) = None" "wl_queue (sy_wal s) = []"
        by (auto simp: flush_turn_def split: if_splits)
      have fh: "wl_fh (sy_wal s)" using inv_close_ok [OF inv(1)] Flushing by (auto simp: close_ok_def)
      have ct: "close_turn (sy_wal s) = (sy_wal s)\<lparr>wl_closing := FinalSync (wl_writeGen (sy_wal s))\<rparr>"
        using Flushing FlushReturns r(1) fh by (simp add: close_turn_def final_sync_def sync_issue_def)
      note p = sync_parts [OF inv(2)]
      have l: "landed base (s\<lparr>sy_wal := close_turn (sy_wal s)\<rparr>) = landed base s" by (rule landed_same) (simp add: ct)
      let ?t = "s\<lparr>sy_wal := close_turn (sy_wal s), sy_close_cov := length (sy_file s)\<rparr>"
      have "flight_covered base ?t" using r(2) by (simp add: flight_covered_def ct)
      moreover have "bg_covered base ?t" using p(3) l by (simp add: bg_covered_def ct)
      moreover have "close_covered base ?t" using r(2) l landed_le [OF inv(1)] by (simp add: close_covered_def pending_cover_def ct)
      moreover have "raced_ok base ?t" using p(5) by (simp add: raced_ok_def ct)
      ultimately have "sync_inv base ?t" using p(1) l by (simp add: sync_inv_def ct)
      then show ?thesis using Flushing by (simp add: ct)
    next
      case FlushWaits
      then show ?thesis using inv(2) Flushing by (simp add: close_turn_def)
    next
      case FlushStarts
      have "wl_closing (flushBatch (sy_wal s)) = wl_closing (sy_wal s)" by (simp add: flushBatch_def Let_def)
      then show ?thesis using flushBatch_sync [OF inv] Flushing FlushStarts by (simp add: close_turn_def)
    qed
  qed (use inv(2) in \<open>simp_all add: close_turn_def\<close>)
qed

lemma poison_sync:
  assumes "sync_inv base s"
  shows "sync_inv base (s\<lparr>sy_wal := snd (poisonPending e (sy_wal s)), sy_raced := sy_raced s \<or> wl_flight (sy_wal s) \<noteq> None\<rparr>)"
proof -
  let ?w = "snd (poisonPending e (sy_wal s))"
  have w: "wl_flight ?w = wl_flight (sy_wal s)" "wl_writeGen ?w = wl_writeGen (sy_wal s)" "wl_syncedGen ?w = wl_syncedGen (sy_wal s)"
    "wl_bgSync ?w = wl_bgSync (sy_wal s)" "wl_policy ?w = wl_policy (sy_wal s)" "wl_fh ?w = wl_fh (sy_wal s)"
    "wl_closing ?w = wl_closing (sy_wal s)" "wl_poisoned (sy_wal s) \<noteq> None \<longrightarrow> wl_poisoned ?w \<noteq> None"
    by (auto simp: poisonPending_def rejectQueued_def poisonWith_def Let_def)
  note p = sync_parts [OF assms]
  note l = landed_same [OF w(1), of base]
  let ?t = "s\<lparr>sy_wal := ?w, sy_raced := sy_raced s \<or> wl_flight (sy_wal s) \<noteq> None\<rparr>"
  have "flight_covered base ?t" using p(2) by (simp add: flight_covered_def w)
  moreover have "bg_covered base ?t" using p(3) by (simp add: bg_covered_def w l)
  moreover have "close_covered base ?t" using p(4) by (simp add: close_covered_def w l)
  moreover have "raced_ok base ?t" using p(5) w(8) by (auto simp: raced_ok_def w(1-7))
  ultimately show ?thesis using p(1) by (simp add: sync_inv_def w l)
qed

lemma recover_sync:
  assumes inv: "wal_inv base s" "sync_inv base s" and st: "wal_step (RecoverInPlace b) s = Some s'"
  shows "sync_inv base s'"
proof -
  obtain dis w fd where r: "recoverWalInPlace b (sy_wal s) (sy_file s) = (dis, w, fd)" by (cases "recoverWalInPlace b (sy_wal s) (sy_file s)")
  obtain p where p: "wl_flight (sy_wal s) = None" "wl_poisoned (sy_wal s) = Some p" using st by (auto split: if_splits)
  have s': "s' = s\<lparr>sy_wal := w, sy_file := fd, sy_disabled := dis, sy_synced := min (sy_synced s) (length fd),
      sy_flight_cov := min (sy_flight_cov s) (length fd), sy_bg_cov := min (sy_bg_cov s) (length fd),
      sy_close_cov := min (sy_close_cov s) (length fd)\<rparr>"
    using st r by (auto split: if_splits)
  have w: "wl_flight w = None" "wl_writeGen w = wl_writeGen (sy_wal s)" "wl_syncedGen w = wl_syncedGen (sy_wal s)"
    "wl_bgSync w = wl_bgSync (sy_wal s)" "wl_policy w = wl_policy (sy_wal s)" "wl_closing w = wl_closing (sy_wal s)"
    using r p by (auto simp: recoverWalInPlace_def clearPoison_def refreshSize_def Let_def split: if_splits)
  have len: "length (committed base s) \<le> length fd"
  proof (cases b)
    case CutFails
    then show ?thesis using r p landed_le [OF inv(1)] by (simp add: recoverWalInPlace_def)
  next
    case SizeFails
    then show ?thesis using recover_cut [OF inv(1) p] r by simp
  next
    case CutDone
    then show ?thesis using recover_inv [OF inv(1) p] r by simp
  qed
  have c: "committed base s' = committed base s" by (simp add: s' committed_def)
  have l: "landed base s' = landed base s" "landed base s = length (committed base s)" using p(1) w(1) by (simp_all add: landed_def s' committed_def)
  note q = sync_parts [OF inv(2)]
  have cover: "pending_cover g n (landed base s') (min cov (length fd))" if "pending_cover g n (landed base s) cov" for g n cov
    using that len l by (auto simp: pending_cover_def)
  have "flight_covered base s'" using w(1) by (simp add: flight_covered_def s')
  moreover have "bg_covered base s'" using q(3) cover by (simp add: bg_covered_def s' w)
  moreover have "close_covered base s'" using q(4) cover by (simp add: close_covered_def s' w)
  moreover have "raced_ok base s'" using q(5) w(1,5) len unfolding raced_ok_def c by (simp add: s')
  moreover have "pending_cover (wl_syncedGen (sy_wal s')) (wl_writeGen (sy_wal s')) (landed base s') (sy_synced s')"
    using cover [OF q(1)] by (simp add: s' w)
  ultimately show ?thesis by (simp add: sync_inv_def)
qed

theorem wal_step_sync:
  assumes "wal_inv base s" "sync_inv base s" "wal_step ev s = Some s'"
  shows "sync_inv base s'"
proof (cases ev)
  case (Append pid frame)
  then show ?thesis using append_sync assms by blast
next
  case (WriteReturns n)
  with assms(3) obtain f where f: "wl_flight (sy_wal s) = Some f" "fl_wait f = Writing" "n \<le> length (to_write f)"
    by (auto simp: writing_def split: option.splits if_splits)
  show ?thesis using write_returned_sync [OF assms(1,2) f refl] assms(3) f WriteReturns by (auto simp: writing_def Let_def)
next
  case (WriteThrows n e)
  with assms(3) obtain f where f: "wl_flight (sy_wal s) = Some f" "fl_wait f = Writing" "n \<le> length (to_write f)"
    by (auto simp: writing_def split: option.splits if_splits)
  have "sync_inv base (acknowledge (write_failed f e (sy_wal s)) (s\<lparr>sy_file := sy_file s @ take n (to_write f)\<rparr>))"
    unfolding write_failed_def by (rule finish_failed_sync [OF assms(1,2) f(1)]) simp_all
  then show ?thesis using assms(3) f WriteThrows by (auto simp: writing_def write_threw_def)
next
  case (FlushSynced err)
  with assms(3) obtain f where f: "wl_flight (sy_wal s) = Some f" "fl_wait f \<noteq> Writing" by (auto split: option.splits if_splits)
  show ?thesis using flush_synced_sync [OF assms(1,2) f] assms(3) f FlushSynced by auto
next
  case (RecoverInPlace b)
  then show ?thesis using recover_sync assms by blast
next
  case (BgSynced err)
  with assms(3) obtain g where "wl_bgSync (sy_wal s) = Some g" by (auto split: if_splits)
  then show ?thesis using bg_settled_sync [OF assms(2)] assms(3) BgSynced by auto
next
  case (CloseSynced err)
  then show ?thesis using close_synced_sync [OF assms(2)] assms(3) by (auto split: closing.splits)
next
  case Tick
  then show ?thesis using tick_sync [OF assms(1,2)] assms(3) by (auto simp: Let_def split: if_splits)
next
  case CloseTurn
  then show ?thesis using close_turn_sync [OF assms(1,2)] assms(3) by (simp add: Let_def)
qed (use assms flushBatch_sync seal_sync close_sync poison_sync in auto)

lemma wal_step_policy: "wal_step ev s = Some s' \<Longrightarrow> wl_policy (sy_wal s') = wl_policy (sy_wal s)"
proof (cases ev)
  case (RecoverInPlace b)
  assume "wal_step ev s = Some s'"
  with RecoverInPlace show ?thesis
    by (auto simp: recoverWalInPlace_def clearPoison_def refreshSize_def Let_def split: if_splits option.splits)
next
  case (Append pid frame)
  assume "wal_step ev s = Some s'"
  with Append show ?thesis by (auto simp: appendLoc_def Let_def split: if_splits)
next
  case (WriteReturns n)
  assume "wal_step ev s = Some s'"
  with WriteReturns show ?thesis
    by (auto simp: writing_def write_returned_def write_failed_def finish_sync_fields Let_def split: option.splits if_splits prod.splits)
next
  case (WriteThrows n e)
  assume "wal_step ev s = Some s'"
  with WriteThrows show ?thesis
    by (auto simp: writing_def write_threw_def write_failed_def finish_sync_fields split: option.splits if_splits)
next
  case (FlushSynced err)
  assume "wal_step ev s = Some s'"
  with FlushSynced show ?thesis
    by (auto simp: covered_def flush_synced_def finish_sync_fields syncDone_def syncFailed_def split: option.splits if_splits flush_wait.splits)
next
  case (CloseSynced err)
  assume "wal_step ev s = Some s'"
  with CloseSynced show ?thesis
    by (auto simp: covered_def close_synced_def release_def syncDone_def syncFailed_def split: option.splits closing.splits)
qed (auto simp: covered_def bg_settled_def syncDone_def syncFailed_def backgroundTick_def wal_seal_def wal_close_def poisonPending_def
  poisonWith_def rejectQueued_def flushBatch_def close_turn_def final_sync_def release_def Let_def
  split: option.splits if_splits sum.splits prod.splits bool.splits closing.splits flush_turn.splits)

lemma wal_reach_sync: "wal_reach policy base s \<Longrightarrow> sync_inv base s \<and> wl_policy (sy_wal s) = policy"
proof (induction rule: wal_reach.induct)
  case (opened stats)
  then show ?case using open_sync by (simp add: open_sys_def open_wal_def)
next
  case (step s ev s')
  have "wl_policy (sy_wal s') = wl_policy (sy_wal s)" using step.hyps(2) by (rule wal_step_policy)
  then show ?case using wal_step_sync [OF wal_reach_inv [OF step.hyps(1)]] step by simp
qed

end
