(* ===== verification/Wal_Frames.thy ===== *)
theory Wal_Frames imports Wal_Durable begin

text \<open>
  Every byte the appender leaves in the file belongs to a frame it was given: behind the acknowledged frames there are
  only the first bytes of frames of one flush.
\<close>

definition given_frames :: "wal_sys \<Rightarrow> pending_write list" where
  "given_frames s = sy_acked s @ batch_of (sy_wal s) @ wl_queue (sy_wal s)"

fun appended :: "wal_event list \<Rightarrow> buffer list" where
  "appended [] = []"
| "appended (Append pid frame # evs) = frame # appended evs"
| "appended (_ # evs) = appended evs"

definition only_frames :: "(buffer \<Rightarrow> bool) \<Rightarrow> buffer \<Rightarrow> wal_sys \<Rightarrow> bool" where
  "only_frames P base s \<longleftrightarrow> (\<forall>p \<in> set (given_frames s). P (pw_buf p)) \<and>
     (\<exists>ps. (\<forall>p \<in> set ps. P (pw_buf p)) \<and> prefix (sy_file s) (committed base s @ bytes_of ps))"

lemma covered_fields [simp]:
  "sy_wal (covered c err s) = sy_wal s" "sy_file (covered c err s) = sy_file s" "sy_acked (covered c err s) = sy_acked s"
  "committed base (covered c err s) = committed base s"
  by (simp_all add: covered_def committed_def)

lemma finish_given:
  "wl_flight w = Some f0 \<Longrightarrow> fl_batch f = fl_batch f0 \<Longrightarrow> batch_of (sy_wal s) = fl_batch f0 \<Longrightarrow> set (wl_queue w) \<subseteq> set (wl_queue (sy_wal s)) \<Longrightarrow>
   set (given_frames (acknowledge (finish_flush f err w) s)) \<subseteq> set (given_frames s)"
  by (cases err) (auto simp: given_frames_def finish_fields batch_of_def)

lemma step_given:
  assumes "wal_step ev s = Some s'"
  shows "set (given_frames s') \<subseteq> set (given_frames s) \<union> (case ev of Append pid b \<Rightarrow> {\<lparr>pw_id = pid, pw_buf = b\<rparr>} | _ \<Rightarrow> {})"
proof (cases ev)
  case (Append pid b)
  with assms show ?thesis by (auto simp: appendLoc_def given_frames_def batch_of_def Let_def split: if_splits)
next
  case (WriteReturns n)
  then obtain f where f: "wl_flight (sy_wal s) = Some f" using assms by (auto simp: writing_def split: option.splits)
  obtain bufs off where adv: "advance n (fl_off f) (fl_bufs f) = (bufs, off)" by fastforce
  let ?s = "s\<lparr>sy_file := sy_file s @ take n (to_write f)\<rparr>"
  have fin: "set (given_frames (acknowledge (finish_flush f1 err w) ?s)) \<subseteq> set (given_frames s)"
    if "wl_flight w = Some f" "fl_batch f1 = fl_batch f" "wl_queue w = wl_queue (sy_wal s)" for f1 err w
    using finish_given [of w f f1 ?s err] that f by (simp add: batch_of_def given_frames_def)
  have stay: "set (given_frames (acknowledge ([], w) ?s)) \<subseteq> set (given_frames s)"
    if "batch_of w = fl_batch f" "wl_queue w = wl_queue (sy_wal s)" for w
    using that f by (auto simp: batch_of_def given_frames_def)
  have "set (given_frames (acknowledge (write_returned n (sy_wal s)) ?s)) \<subseteq> set (given_frames s)"
    unfolding write_returned_def write_failed_def Let_def f option.case adv prod.case
    by (simp only: split: if_split option.split)
       (intro conjI impI allI; (rule fin | rule stay); simp add: batch_of_def f)
  moreover have "given_frames (t\<lparr>sy_flight_cov := c\<rparr>) = given_frames t" for t c by (simp add: given_frames_def)
  ultimately show ?thesis using assms f WriteReturns by (auto simp: writing_def Let_def split: if_splits)
next
  case (WriteThrows n e)
  then obtain f where f: "wl_flight (sy_wal s) = Some f" using assms by (auto simp: writing_def split: option.splits)
  show ?thesis using assms f WriteThrows
    by (auto simp: writing_def write_threw_def write_failed_def given_frames_def finish_fields batch_of_def split: if_splits)
next
  case (FlushSynced err)
  then show ?thesis using assms
    by (cases err) (auto simp: flush_synced_def given_frames_def finish_fields batch_of_def syncDone_def syncFailed_def
        split: if_splits option.splits flush_wait.splits)
next
  case (RecoverInPlace b)
  then show ?thesis using assms
    by (auto simp: recoverWalInPlace_def clearPoison_def refreshSize_def given_frames_def batch_of_def Let_def split: if_splits option.splits)
next
  case (CloseSynced err)
  then show ?thesis using assms
    by (auto simp: close_synced_def release_def syncDone_def syncFailed_def given_frames_def batch_of_def split: option.splits closing.splits)
qed (use assms in \<open>auto simp: given_frames_def batch_of_def bg_settled_def syncDone_def syncFailed_def backgroundTick_def wal_seal_def
  wal_close_def poisonPending_def poisonWith_def rejectQueued_def flushBatch_def close_turn_def final_sync_def release_def Let_def
  split: option.splits if_splits sum.splits prod.splits bool.splits closing.splits flush_turn.splits\<close>)

text \<open>A flush acknowledges its whole batch or nothing.\<close>

definition all_or_nothing :: "buffer \<Rightarrow> wal_sys \<Rightarrow> wal_sys \<Rightarrow> bool" where
  "all_or_nothing base s s' \<longleftrightarrow> committed base s' = committed base s \<or>
     committed base s' = committed base s @ bytes_of (batch_of (sy_wal s))"

lemma finish_all_or_nothing:
  "wl_flight (sy_wal s) = Some f0 \<Longrightarrow> fl_batch f = fl_batch f0 \<Longrightarrow> all_or_nothing base s (acknowledge (finish_flush f err w) s)"
  by (cases err) (simp_all add: all_or_nothing_def ack_failed ack_done batch_of_def)

lemma nothing_all_or_nothing: "all_or_nothing base s (acknowledge ([], w) s)"
  by (simp add: all_or_nothing_def ack_nothing)

lemma write_returned_all_or_nothing:
  assumes "wl_flight (sy_wal s) = Some f"
  shows "all_or_nothing base s (acknowledge (write_returned n (sy_wal s)) s)"
proof -
  obtain bufs off where adv: "advance n (fl_off f) (fl_bufs f) = (bufs, off)" by fastforce
  show ?thesis
    unfolding write_returned_def write_failed_def Let_def assms option.case adv prod.case
    by (simp only: split: if_split option.split)
       (intro conjI impI allI; (rule finish_all_or_nothing [OF assms] | rule nothing_all_or_nothing); simp)
qed

lemma flight_bytes:
  assumes "wal_inv base s" "wl_flight (sy_wal s) = Some f"
  shows "prefix (sy_file s @ take n (to_write f)) (committed base s @ bytes_of (batch_of (sy_wal s)))"
  using flight_facts(3) [OF assms, symmetric] assms(2) by (auto simp: batch_of_def take_is_prefix)

lemma flush_all_or_nothing:
  assumes "wal_step ev s = Some s'" "wl_flight (sy_wal s) = Some f" "ev \<in> {WriteReturns n, WriteThrows n e, FlushSynced err}"
  shows "all_or_nothing base s s' \<and> (\<exists>m. sy_file s' = sy_file s @ take m (to_write f))"
proof -
  have grown: "all_or_nothing base s t" if "all_or_nothing base (s\<lparr>sy_file := fd\<rparr>) t" for fd t
    using that by (simp add: all_or_nothing_def)
  have cov: "all_or_nothing base s (t\<lparr>sy_flight_cov := c\<rparr>)" "all_or_nothing base s (covered c err t)"
    if "all_or_nothing base s t" for t c using that by (simp_all add: all_or_nothing_def)
  from assms(3) consider "ev = WriteReturns n" | "ev = WriteThrows n e" | "ev = FlushSynced err" by blast
  then show ?thesis
  proof cases
    case 1
    let ?s = "s\<lparr>sy_file := sy_file s @ take n (to_write f)\<rparr>"
    have "all_or_nothing base s (acknowledge (write_returned n (sy_wal s)) ?s)"
      using grown [OF write_returned_all_or_nothing [of ?s f]] assms(2) by simp
    then show ?thesis using 1 assms(1,2) cov(1) by (auto simp: writing_def Let_def split: if_splits)
  next
    case 2
    then show ?thesis using assms(1,2) grown [OF finish_all_or_nothing]
      by (auto simp: writing_def write_threw_def write_failed_def split: if_splits)
  next
    case 3
    have "all_or_nothing base s (acknowledge (flush_synced err (sy_wal s)) s)"
      using finish_all_or_nothing [OF assms(2)] nothing_all_or_nothing assms(2)
      by (simp add: flush_synced_def split: flush_wait.split option.split)
    then show ?thesis using 3 assms(1,2) cov(2) by (auto split: if_splits intro!: exI [of _ 0])
  qed
qed

text \<open>What is behind the acknowledged frames.\<close>

lemma step_file:
  assumes "wal_inv base s" "wal_step ev s = Some s'"
  shows "sy_file s' = sy_file s \<and> committed base s' = committed base s \<or>
    prefix (sy_file s') (committed base s @ bytes_of (batch_of (sy_wal s))) \<and> all_or_nothing base s s' \<or>
    sy_file s' = committed base s'"
proof (cases "\<exists>n e err. ev \<in> {WriteReturns n, WriteThrows n e, FlushSynced err}")
  case True
  then obtain n e err where ev: "ev \<in> {WriteReturns n, WriteThrows n e, FlushSynced err}" by blast
  then obtain f where f: "wl_flight (sy_wal s) = Some f" using assms(2) by (auto simp: writing_def split: option.splits)
  obtain m where "all_or_nothing base s s'" "sy_file s' = sy_file s @ take m (to_write f)"
    using flush_all_or_nothing [OF assms(2) f ev, of base] by blast
  then show ?thesis using flight_bytes [OF assms(1) f, of m] by simp
next
  case False
  show ?thesis
  proof (cases "\<exists>b. ev = RecoverInPlace b")
    case True
    then obtain b where ev: "ev = RecoverInPlace b" by blast
    obtain dis w fd where r: "recoverWalInPlace b (sy_wal s) (sy_file s) = (dis, w, fd)" by (cases "recoverWalInPlace b (sy_wal s) (sy_file s)")
    obtain p where p: "wl_flight (sy_wal s) = None" "wl_poisoned (sy_wal s) = Some p" using assms(2) ev by (auto split: if_splits)
    have s': "sy_file s' = fd" "committed base s' = committed base s" using assms(2) ev r by (auto simp: committed_def split: if_splits)
    show ?thesis
    proof (cases b)
      case CutFails
      then show ?thesis using r p s' by (simp add: recoverWalInPlace_def)
    next
      case SizeFails
      then show ?thesis using recover_cut [OF assms(1) p] r s' by simp
    next
      case CutDone
      then show ?thesis using recover_inv [OF assms(1) p] r s' by simp
    qed
  next
    case False
    then have "sy_file s' = sy_file s \<and> sy_acked s' = sy_acked s"
      using assms(2) \<open>\<nexists>n e err. ev \<in> {WriteReturns n, WriteThrows n e, FlushSynced err}\<close>
      by (cases ev) (auto simp: covered_def appendLoc_def Let_def split: if_splits closing.splits)
    then show ?thesis by (simp add: committed_def)
  qed
qed

theorem step_only_frames:
  assumes "wal_inv base s" "only_frames P base s" "wal_step ev s = Some s'" "list_all P (appended [ev])"
  shows "only_frames P base s'"
proof -
  have given: "\<forall>p \<in> set (given_frames s). P (pw_buf p)" using assms(2) by (simp add: only_frames_def)
  have new: "\<forall>p \<in> set (given_frames s'). P (pw_buf p)"
    using step_given [OF assms(3)] given assms(4) by (cases ev) auto
  have batch: "\<forall>p \<in> set (batch_of (sy_wal s)). P (pw_buf p)" using given by (simp add: given_frames_def)
  from step_file [OF assms(1,3)]
  have "\<exists>ps. (\<forall>p \<in> set ps. P (pw_buf p)) \<and> prefix (sy_file s') (committed base s' @ bytes_of ps)"
  proof (elim disjE conjE)
    assume "prefix (sy_file s') (committed base s @ bytes_of (batch_of (sy_wal s)))" "all_or_nothing base s s'"
    then show ?thesis using batch unfolding all_or_nothing_def
      by (metis append_Nil2 bytes_of_simps(1) empty_iff empty_set)
  next
    assume "sy_file s' = committed base s'"
    then show ?thesis by (intro exI [of _ "[]"]) simp
  qed (use assms(2) in \<open>simp add: only_frames_def\<close>)
  with new show ?thesis by (simp add: only_frames_def)
qed

lemma open_only_frames: "only_frames P base (open_sys policy stats base)"
  by (auto simp: only_frames_def given_frames_def open_sys_def open_wal_def batch_of_def committed_def intro!: exI [of _ "[]"])

lemma appended_Cons: "appended (ev # evs) = appended [ev] @ appended evs"
  by (cases ev) simp_all

lemma run_only_frames:
  "wal_inv base s \<Longrightarrow> only_frames P base s \<Longrightarrow> wal_run evs s = Some s' \<Longrightarrow> list_all P (appended evs) \<Longrightarrow> only_frames P base s'"
proof (induction evs arbitrary: s)
  case (Cons ev evs)
  obtain s1 where s1: "wal_step ev s = Some s1" "wal_run evs s1 = Some s'" using Cons.prems(3) by (auto split: option.splits)
  have P: "list_all P (appended [ev])" "list_all P (appended evs)" using Cons.prems(4) by (simp_all add: appended_Cons [of ev evs])
  show ?case
    using Cons.IH [OF wal_step_inv [OF Cons.prems(1) s1(1)] step_only_frames [OF Cons.prems(1,2) s1(1) P(1)] s1(2) P(2)] .
qed simp

end
