(* ===== verification/Wal_Crash.thy ===== *)
theory Wal_Crash imports Wal_Frames Recovery_Open begin

text \<open>
  The promises of the log's appender: what is acknowledged stays, a failed flush is cut back exactly, what an fsync
  covers, and what a database finds that is opened after a crash on the file the appender left.
\<close>

section \<open>What stays\<close>

text \<open>
  C26. Whatever the sequence of appends, partial writes, failures, poisonings, recoveries in place and closings, the file
  begins with what it held at the opening followed by exactly the frames of the acknowledged appends, in order; the frame of each is
  at the offset its append returned; and while the log is neither poisoned nor flushing there is nothing else in
  the file and the next append goes to its end.
\<close>
theorem acknowledged_writes_stay:
  assumes "wal_reach policy base s"
  shows "prefix (base @ concat (map pw_buf (sy_acked s))) (sy_file s) \<and>
    (\<forall>p \<in> set (sy_acked s). \<exists>off. sy_offset s (pw_id p) = Some off \<and> slice (sy_file s) off (length (pw_buf p)) = pw_buf p) \<and>
    (wl_flight (sy_wal s) = None \<and> wl_poisoned (sy_wal s) = None \<longrightarrow>
       sy_file s = base @ concat (map pw_buf (sy_acked s)) \<and>
       (wl_fh (sy_wal s) \<longrightarrow> wl_nextOffset (sy_wal s) - wl_queuedBytes (sy_wal s) = length (sy_file s)))"
proof -
  note inv = wal_reach_inv [OF assms]
  have c: "committed base s = base @ concat (map pw_buf (sy_acked s))" by (simp add: committed_def bytes_of_def)
  obtain rest where rest: "sy_file s = committed base s @ rest" using committed_prefix [OF inv] by (auto simp: prefix_def)
  have "placed (sy_offset s) (length base) (sy_acked s)" using inv by (auto simp: wal_inv_def offsets_ok_def Let_def)
  then have "\<exists>off. sy_offset s (pw_id p) = Some off \<and> slice (sy_file s) off (length (pw_buf p)) = pw_buf p"
    if "p \<in> set (sy_acked s)" for p using placed_slice [OF _ that, of "sy_offset s" base rest] rest by (auto simp: committed_def)
  moreover have "sy_file s = committed base s \<and> (wl_fh (sy_wal s) \<longrightarrow> wl_nextOffset (sy_wal s) - wl_queuedBytes (sy_wal s) = length (sy_file s))"
    if "wl_flight (sy_wal s) = None" "wl_poisoned (sy_wal s) = None"
    using inv that by (simp add: wal_inv_def file_ok_def offsets_ok_def batch_of_def Let_def)
  ultimately show ?thesis using committed_prefix [OF inv] unfolding c by blast
qed

text \<open>
  C27. Recovery in place undoes a failed flush and nothing else, when the file can be cut and its size read. Once the flush in flight has ended, cutting the poisoned
  file leaves what it held at the opening and the acknowledged frames, byte for byte; the log is no longer poisoned, its
  queue is empty, and an append is accepted again at the end of the file unless the log was sealed or closed.
\<close>
theorem recovery_in_place_exact:
  assumes "wal_reach policy base s" "wl_poisoned (sy_wal s) \<noteq> None" "wal_step (RecoverInPlace CutDone) s = Some s'"
  shows "sy_file s' = base @ concat (map pw_buf (sy_acked s)) \<and> sy_acked s' = sy_acked s \<and> \<not> sy_disabled s' \<and>
    wl_poisoned (sy_wal s') = None \<and> wl_queue (sy_wal s') = [] \<and>
    (\<not> wal_closed (sy_wal s') \<and> \<not> wl_sealed (sy_wal s') \<longrightarrow>
       fst (appendLoc pid frame (sy_wal s')) = Appended (length (sy_file s')) (wl_nextBatchId (sy_wal s')))"
proof -
  note inv = wal_reach_inv [OF assms(1)]
  obtain p where p: "wl_flight (sy_wal s) = None" "wl_poisoned (sy_wal s) = Some p" using assms(3) by (auto split: if_splits)
  obtain dis w fd where r: "recoverWalInPlace CutDone (sy_wal s) (sy_file s) = (dis, w, fd)" by (cases "recoverWalInPlace CutDone (sy_wal s) (sy_file s)")
  note rec = recover_inv [OF inv p r]
  have s': "sy_wal s' = w" "sy_file s' = fd" "sy_acked s' = sy_acked s" "sy_disabled s' = dis"
    using assms(3) r by (auto split: if_splits)
  have "wl_closing w = wl_closing (sy_wal s)"
    using r p by (auto simp: recoverWalInPlace_def clearPoison_def refreshSize_def Let_def)
  then have "\<not> wal_closed w \<longrightarrow> wl_fh (sy_wal s)" using inv_close_ok [OF inv] by (auto simp: wal_closed_def close_ok_def)
  then show ?thesis using rec unfolding s' by (auto simp: appendLoc_def Let_def committed_def bytes_of_def)
qed

lemma synced_committed:
  assumes "wal_reach policy base s" "policy = Always \<and> \<not> sy_raced s \<or> wl_syncedGen (sy_wal s) = wl_writeGen (sy_wal s)"
  shows "length (committed base s) \<le> sy_synced s"
proof -
  have inv: "sync_inv base s" "wl_policy (sy_wal s) = policy" using wal_reach_sync [OF assms(1)] by simp_all
  show ?thesis
  proof (cases "policy = Always \<and> \<not> sy_raced s")
    case True
    then show ?thesis using sync_parts(5) [OF inv(1)] inv(2) by (simp add: raced_ok_def)
  next
    case False
    then have "landed base s \<le> sy_synced s" using sync_parts(1) [OF inv(1)] assms(2) by (auto simp: pending_cover_def)
    then show ?thesis using landed_le [OF wal_reach_inv [OF assms(1)]] by simp
  qed
qed

text \<open>
  What an fsync has covered. When the log is clean, every acknowledged byte has been synced; under the policy
  \<open>always\<close> that is so at every moment, as long as the log was not poisoned from outside during a flush.
\<close>
theorem acknowledged_writes_synced:
  assumes "wal_reach policy base s"
    "policy = Always \<and> \<not> sy_raced s \<or> wl_syncedGen (sy_wal s) = wl_writeGen (sy_wal s)"
  shows "length base + length (concat (map pw_buf (sy_acked s))) \<le> sy_synced s"
  using synced_committed [OF assms] by (simp add: committed_def bytes_of_def)

section \<open>Runs\<close>

text \<open>
  Two appends are flushed in two writes and synced; the next flush writes one byte and fails; the log is recovered in place
  and goes on.
\<close>

definition demo_events :: "wal_event list" where
  "demo_events = [Append 1 [10, 11], Append 2 [20, 21, 22], FlushDue, WriteReturns 3, WriteReturns 2, FlushSynced None,
     Append 3 [30, 31], FlushDue, Append 4 [40], WriteThrows 1 (WalIoError ''EIO'')]"

definition demo_sys :: wal_sys where
  "demo_sys = the (wal_run demo_events (open_sys Always no_stats [1, 2]))"

lemma log_demo_run:
  "wal_run demo_events (open_sys Always no_stats [1, 2]) \<noteq> None"
  "sy_file demo_sys = [1, 2, 10, 11, 20, 21, 22, 30]" "map pw_id (sy_acked demo_sys) = [1, 2]"
  "concat (map pw_buf (sy_acked demo_sys)) = [10, 11, 20, 21, 22]" "wl_poisoned (sy_wal demo_sys) \<noteq> None"
  "sy_raced demo_sys = False" "wl_flight (sy_wal demo_sys) = None" "sy_disabled demo_sys = False"
  "wl_closing (sy_wal demo_sys) = NotClosing" "wl_sealed (sy_wal demo_sys) = False"
  by code_simp+

lemma log_demo_reach: "wal_reach Always [1, 2] demo_sys"
  by (rule wal_run_reach [OF wal_reach.opened [of Always "[1, 2]" no_stats]]) (use log_demo_run(1) in \<open>auto simp: demo_sys_def\<close>)

lemma acknowledged_writes_stay_witness: "prefix ([1, 2] @ concat (map pw_buf (sy_acked demo_sys))) (sy_file demo_sys)"
  using acknowledged_writes_stay [OF log_demo_reach] by blast

lemma recovery_in_place_exact_witness:
  "\<exists>s'. wal_step (RecoverInPlace CutDone) demo_sys = Some s' \<and> sy_file s' = [1, 2, 10, 11, 20, 21, 22] \<and>
    fst (appendLoc 5 [50] (sy_wal s')) = Appended 7 (wl_nextBatchId (sy_wal s'))"
proof -
  have "wal_step (RecoverInPlace CutDone) demo_sys \<noteq> None" by code_simp
  then obtain s' where s': "wal_step (RecoverInPlace CutDone) demo_sys = Some s'" by blast
  have "\<not> wal_closed (sy_wal (the (wal_step (RecoverInPlace CutDone) demo_sys)))"
    "\<not> wl_sealed (sy_wal (the (wal_step (RecoverInPlace CutDone) demo_sys)))" by code_simp+
  then have open': "\<not> wal_closed (sy_wal s') \<and> \<not> wl_sealed (sy_wal s')" using s' by simp
  show ?thesis using recovery_in_place_exact [OF log_demo_reach log_demo_run(5) s', of 5 "[50]"] open' s' log_demo_run(4) by simp
qed

lemma acknowledged_writes_synced_witness:
  "length [1, 2 :: 8 word] + length (concat (map pw_buf (sy_acked demo_sys))) \<le> sy_synced demo_sys \<and> map pw_id (sy_acked demo_sys) = [1, 2]"
  using acknowledged_writes_synced [OF log_demo_reach] log_demo_run by blast

text \<open>
  Without the proviso: a poisoning that comes while a batch is being written turns the batch's fsync into nothing, and
  the append is acknowledged under \<open>always\<close> with no byte synced.
\<close>

lemma unsynced_acknowledgement:
  "\<exists>s. wal_run [Append 1 [10, 11], FlushDue, PoisonFrom (WalIoError ''apply failed''), WriteReturns 2] (open_sys Always no_stats []) = Some s \<and>
    map pw_id (sy_acked s) = [1] \<and> sy_file s = [10, 11] \<and> sy_synced s = 0 \<and> st_walFsyncs (wl_stats (sy_wal s)) = 0"
proof -
  let ?r = "wal_run [Append 1 [10, 11], FlushDue, PoisonFrom (WalIoError ''apply failed''), WriteReturns 2] (open_sys Always no_stats [])"
  have r: "?r \<noteq> None" "map pw_id (sy_acked (the ?r)) = [1]" "sy_file (the ?r) = [10, 11]" "sy_synced (the ?r) = 0"
    "st_walFsyncs (wl_stats (sy_wal (the ?r))) = 0" by code_simp+
  then show ?thesis by (intro exI [of _ "the ?r"]) simp
qed

section \<open>A crash\<close>

lemma take_concat_mono: "i \<le> j \<Longrightarrow> length (concat (take i xss)) \<le> length (concat (take j xss))"
proof -
  assume "i \<le> j"
  then have "take j xss = take i xss @ take (j - i) (drop i xss)" by (metis le_add_diff_inverse take_add)
  then show ?thesis by simp
qed

lemma cut_at_or_after:
  assumes "j < length xss \<longrightarrow> n < length (concat (take j xss)) + length (xss ! j)" "m \<le> length xss" "length (concat (take m xss)) \<le> n"
  shows "m \<le> j"
proof (rule ccontr)
  assume "\<not> m \<le> j"
  then have "Suc j \<le> m" by simp
  then have "length (concat (take (Suc j) xss)) \<le> n" using take_concat_mono [of "Suc j" m xss] assms(3) by simp
  moreover have "length (concat (take (Suc j) xss)) = length (concat (take j xss)) + length (xss ! j)"
    using \<open>Suc j \<le> m\<close> assms(2) by (simp add: take_Suc_conv_app_nth)
  ultimately show False using assms(1,2) \<open>Suc j \<le> m\<close> by simp
qed

text \<open>The file of the appender is what some writes encode to, cut somewhere in the last flush.\<close>

lemma log_of_writes:
  assumes "writes ws0 bss0" "list_all (well_written json_dt) ws0"
    "wal_run evs (open_sys policy stats (concat bss0)) = Some s"
    "\<forall>frame \<in> set (appended evs). \<exists>w. well_written json_dt w \<and> encode_write w = Inr frame"
  obtains aws rws bss where "list_all2 (\<lambda>p w. encode_write w = Inr (pw_buf p)) (sy_acked s) aws"
    "list_all (\<lambda>w. \<exists>frame \<in> set (appended evs). encode_write w = Inr frame) rws"
    "writes (ws0 @ aws @ rws) (bss0 @ map pw_buf (sy_acked s) @ bss)" "list_all (well_written json_dt) (ws0 @ aws @ rws)"
    "prefix (sy_file s) (concat (bss0 @ map pw_buf (sy_acked s) @ bss))"
proof -
  define P where "P frame \<longleftrightarrow> frame \<in> set (appended evs) \<and> (\<exists>w. well_written json_dt w \<and> encode_write w = Inr frame)" for frame
  have "list_all P (appended evs)" using assms(4) by (simp add: list_all_iff P_def)
  from run_only_frames [OF open_inv open_only_frames assms(3) this]
  have of: "only_frames P (concat bss0) s" .
  then have acked: "\<forall>p \<in> set (sy_acked s). P (pw_buf p)" by (simp add: only_frames_def given_frames_def)
  obtain ps where ps: "\<forall>p \<in> set ps. P (pw_buf p)" "prefix (sy_file s) (committed (concat bss0) s @ bytes_of ps)"
    using of by (auto simp: only_frames_def)
  define w_of where "w_of frame = (SOME w. well_written json_dt w \<and> encode_write w = Inr frame)" for frame
  have w_of: "well_written json_dt (w_of frame) \<and> encode_write (w_of frame) = Inr frame" if "P frame" for frame
    using that unfolding P_def w_of_def by (metis (mono_tags, lifting) someI_ex)
  have enc: "list_all2 (\<lambda>p w. encode_write w = Inr (pw_buf p)) qs (map (w_of \<circ> pw_buf) qs)"
    "list_all (well_written json_dt) (map (w_of \<circ> pw_buf) qs)" "writes (map (w_of \<circ> pw_buf) qs) (map pw_buf qs)"
    if "\<forall>p \<in> set qs. P (pw_buf p)" for qs
    using that by (induction qs) (auto simp: w_of writes_def)
  have "list_all (\<lambda>w. \<exists>frame \<in> set (appended evs). encode_write w = Inr frame) (map (w_of \<circ> pw_buf) ps)"
    using ps(1) w_of by (auto simp: list_all_iff P_def)
  moreover have "writes (ws0 @ map (w_of \<circ> pw_buf) (sy_acked s) @ map (w_of \<circ> pw_buf) ps) (bss0 @ map pw_buf (sy_acked s) @ map pw_buf ps)"
    using assms(1) enc(3) [OF acked] enc(3) [OF ps(1)] by (simp add: writes_def list_all2_appendI)
  moreover have "list_all (well_written json_dt) (ws0 @ map (w_of \<circ> pw_buf) (sy_acked s) @ map (w_of \<circ> pw_buf) ps)"
    using assms(2) enc(2) [OF acked] enc(2) [OF ps(1)] by simp
  moreover have "prefix (sy_file s) (concat (bss0 @ map pw_buf (sy_acked s) @ map pw_buf ps))"
    using ps(2) by (simp add: committed_def bytes_of_def)
  ultimately show ?thesis using that enc(1) [OF acked] by blast
qed


text \<open>One write is acknowledged and synced, of the next two bytes reach the file.\<close>

definition crash_events :: "buffer \<Rightarrow> wal_event list" where
  "crash_events frame = [Append 1 frame, FlushDue, WriteReturns 28, FlushSynced None, Append 2 frame, FlushDue,
     WriteThrows 2 (WalIoError ''EIO'')]"

lemma crash_run:
  assumes "length frame = 28"
  obtains s where "wal_run (crash_events frame) (open_sys Always no_stats (concat [])) = Some s"
    "sy_synced s = 28" "length (sy_file s) = 30" "sy_raced s = False" "length (sy_acked s) = 1"
  using assms
  by (simp add: crash_events_def open_sys_def open_wal_def appendLoc_def wal_closed_def flushBatch_def writing_def to_write_def
      acknowledge_def write_returned_def sync_issue_def batch_of_def flush_synced_def finish_flush_def syncDone_def covered_def
      write_threw_def write_failed_def poisonWith_def rejectQueued_def Let_def)


end
