(* ===== verification/Wal_Service.thy ===== *)
theory Wal_Service imports Wal_Frames begin

text \<open>
  Nothing queued is forgotten: a flush is in flight or due, or a close is under way that flushes; and when the calls the
  log waits for succeed, everything queued is acknowledged after a bounded number of them.
\<close>

section \<open>What is due\<close>

text \<open>
  The next event that the log waits for, when everything goes well: the outstanding call of the flush succeeds, the
  scheduled flush runs, or \<open>close\<close> goes on.
\<close>

definition next_event :: "wal \<Rightarrow> wal_event option" where
  "next_event w =
     (case wl_flight w of
        Some f \<Rightarrow> Some (if fl_wait f = Writing then WriteReturns (length (to_write f)) else FlushSynced None)
      | None \<Rightarrow>
          if wl_scheduled w then Some FlushDue
          else if wl_closing w = Draining then Some (if wl_bgSync w \<noteq> None then BgSynced None else CloseTurn)
          else if wl_closing w = Flushing then Some CloseTurn
          else None)"

fun serve :: "nat \<Rightarrow> wal_sys \<Rightarrow> wal_sys option" where
  "serve 0 s = Some s"
| "serve (Suc n) s =
     (case next_event (sy_wal s) of
        None \<Rightarrow> Some s
      | Some ev \<Rightarrow> (case wal_step ev s of None \<Rightarrow> None | Some s' \<Rightarrow> serve n s'))"

section \<open>The invariant\<close>

definition flight_live :: "flight \<Rightarrow> bool" where
  "flight_live f \<longleftrightarrow> (\<forall>b \<in> set (fl_bufs f). b \<noteq> []) \<and> (fl_bufs f \<noteq> [] \<longrightarrow> fl_off f < length (hd (fl_bufs f))) \<and>
     (fl_wait f = Writing \<longrightarrow> fl_bufs f \<noteq> [])"

definition queue_live :: "wal \<Rightarrow> bool" where
  "queue_live w \<longleftrightarrow> (wl_queue w \<noteq> [] \<longrightarrow> wl_closing w = NotClosing \<longrightarrow> wl_flight w \<noteq> None \<or> wl_scheduled w) \<and>
     ot_count (wl_tracker w) = (if wl_bgSync w = None then 0 else 1) \<and>
     (\<forall>f. wl_flight w = Some f \<longrightarrow> flight_live f)"

lemma advance_live:
  "advance n off bufs = (bufs', off') \<Longrightarrow> \<forall>b \<in> set bufs. b \<noteq> [] \<Longrightarrow> bufs \<noteq> [] \<longrightarrow> off < length (hd bufs) \<Longrightarrow>
   (\<forall>b \<in> set bufs'. b \<noteq> []) \<and> (bufs' \<noteq> [] \<longrightarrow> off' < length (hd bufs'))"
proof (induction bufs arbitrary: n off)
  case (Cons b bs)
  show ?case
  proof (cases "n = 0 \<or> n < length b - off")
    case True
    then have "bufs' = b # bs \<and> off' = (if n = 0 then off else off + n)" using Cons.prems(1) by (auto split: if_splits)
    then show ?thesis using Cons.prems(2,3) True by auto
  next
    case False
    then have "advance (n - (length b - off)) 0 bs = (bufs', off')" using Cons.prems(1) by auto
    moreover have "bs \<noteq> [] \<longrightarrow> 0 < length (hd bs)" using Cons.prems(2) by (cases bs) auto
    moreover have "\<forall>b \<in> set bs. b \<noteq> []" using Cons.prems(2) by simp
    ultimately show ?thesis by (intro Cons.IH)
  qed
qed simp

lemma finish_queue_live:
  assumes "ot_count (wl_tracker w) = (if wl_bgSync w = None then 0 else 1)" "wl_poisoned w = None \<or> wl_queue w = []"
    "wl_tracker w' = wl_tracker w" "wl_bgSync w' = wl_bgSync w" "wl_poisoned w' = wl_poisoned w" "wl_queue w' = wl_queue w"
  shows "queue_live (snd (finish_flush f err w'))"
proof (cases err)
  case None
  then show ?thesis using assms by (auto simp: queue_live_def finish_flush_def wal_closed_def Let_def)
next
  case (Some e)
  then show ?thesis using assms by (auto simp: queue_live_def finish_flush_def rejectQueued_def poisonWith_def Let_def)
qed

lemma write_returned_live:
  assumes "queue_live w" "wl_flight w = Some f" "wl_poisoned w = None \<or> wl_queue w = []"
  shows "queue_live (snd (write_returned n w))"
proof -
  obtain bufs off where adv: "advance n (fl_off f) (fl_bufs f) = (bufs, off)" by fastforce
  have t: "ot_count (wl_tracker w) = (if wl_bgSync w = None then 0 else 1)" using assms(1) by (simp add: queue_live_def)
  have "flight_live f" using assms(1,2) by (simp add: queue_live_def)
  then have bufs: "(\<forall>b \<in> set bufs. b \<noteq> []) \<and> (bufs \<noteq> [] \<longrightarrow> off < length (hd bufs))"
    using advance_live [OF adv] by (simp add: flight_live_def)
  have fin: "queue_live (snd (finish_flush f1 err w'))"
    if "wl_tracker w' = wl_tracker w" "wl_bgSync w' = wl_bgSync w" "wl_poisoned w' = wl_poisoned w" "wl_queue w' = wl_queue w" for f1 err w'
    by (rule finish_queue_live [OF t assms(3) that])
  show ?thesis
  proof (cases "n = 0 \<or> bufs \<noteq> [] \<and> \<not> wl_fh w \<or> bufs = [] \<and> wl_policy w \<noteq> Always")
    case True
    then show ?thesis using assms(2) adv fin by (elim disjE) (simp_all add: write_returned_def write_failed_def Let_def)
  next
    case go: False
    show ?thesis
    proof (cases "bufs = []")
      case True
      then show ?thesis using go assms(2) adv fin t bufs
        by (simp add: write_returned_def Let_def split: option.split) (simp add: queue_live_def flight_live_def)
    next
      case False
      then show ?thesis using go assms(2) adv t bufs
        by (simp add: write_returned_def Let_def) (simp add: queue_live_def flight_live_def)
    qed
  qed
qed

lemma flushBatch_live:
  assumes "queue_live w" "\<forall>p \<in> set (wl_queue w). pw_buf p \<noteq> []" "wl_poisoned w = None \<or> wl_queue w = []"
  shows "queue_live (flushBatch w)"
proof (cases "wl_flight w \<noteq> None \<or> wl_queue w = [] \<or> wl_poisoned w \<noteq> None")
  case True
  then show ?thesis using assms(1,3) by (auto simp: flushBatch_def queue_live_def Let_def)
next
  case False
  moreover have "wl_queue w \<noteq> [] \<Longrightarrow> hd (map pw_buf (wl_queue w)) \<noteq> []" using assms(2) by (cases "wl_queue w") auto
  ultimately show ?thesis using assms(1,2) by (simp add: flushBatch_def queue_live_def flight_live_def Let_def)
qed

lemma same_live:
  "queue_live w \<Longrightarrow> wl_queue w' = wl_queue w \<or> wl_queue w' = [] \<Longrightarrow> wl_closing w' = wl_closing w \<or> wl_closing w' \<noteq> NotClosing \<Longrightarrow>
   wl_flight w' = wl_flight w \<Longrightarrow> wl_scheduled w' = wl_scheduled w \<Longrightarrow> wl_bgSync w' = wl_bgSync w \<Longrightarrow>
   ot_count (wl_tracker w') = ot_count (wl_tracker w) \<Longrightarrow> queue_live w'"
  by (auto simp: queue_live_def)

lemma append_live: "queue_live w \<Longrightarrow> queue_live (snd (appendLoc pid b w))"
  by (auto simp: appendLoc_def queue_live_def Let_def)

lemma flush_synced_live:
  assumes "queue_live w" "wl_poisoned w = None \<or> wl_queue w = []"
  shows "queue_live (snd (flush_synced err w))"
proof -
  have t: "ot_count (wl_tracker w) = (if wl_bgSync w = None then 0 else 1)" using assms(1) by (simp add: queue_live_def)
  show ?thesis using assms(1) finish_queue_live [OF t assms(2)]
    by (auto simp: flush_synced_def syncDone_def syncFailed_def split: flush_wait.split option.split)
qed

lemma write_threw_live:
  assumes "queue_live w" "wl_poisoned w = None \<or> wl_queue w = []"
  shows "queue_live (snd (write_threw e w))"
proof -
  have t: "ot_count (wl_tracker w) = (if wl_bgSync w = None then 0 else 1)" using assms(1) by (simp add: queue_live_def)
  show ?thesis using assms(1) finish_queue_live [OF t assms(2)]
    by (auto simp: write_threw_def write_failed_def split: option.split)
qed

lemma tick_live: "queue_live w \<Longrightarrow> queue_live (backgroundTick w)"
  by (cases "ot_open (wl_tracker w)"; cases "sync_issue w")
    (simp_all add: backgroundTick_def tracker_enter_def tracker_leave_def Let_def, auto simp: queue_live_def)

lemma bg_settled_live: "queue_live w \<Longrightarrow> queue_live (bg_settled err w)"
  by (cases "wl_bgSync w"; cases err)
    (auto simp: bg_settled_def queue_live_def tracker_leave_def syncDone_def syncFailed_def Let_def)

lemma recover_live: "queue_live w \<Longrightarrow> recoverWalInPlace b w fd = (dis, w', fd') \<Longrightarrow> queue_live w'"
  by (erule same_live) (auto simp: recoverWalInPlace_def clearPoison_def refreshSize_def Let_def split: option.splits if_splits)

lemma close_live: "queue_live w \<Longrightarrow> queue_live (wal_close w)"
  by (erule same_live) (auto simp: wal_close_def tracker_close_def whenIdle_def split: option.split)

lemma close_turn_live:
  assumes "queue_live w" "queue_live (flushBatch w)"
  shows "queue_live (close_turn w)"
proof -
  have "queue_live (w\<lparr>wl_closing := c\<rparr>)" if "c \<noteq> NotClosing" for c by (rule same_live [OF assms(1)]) (use that in simp_all)
  moreover have "queue_live (release w)" by (rule same_live [OF assms(1)]) (simp_all add: release_def)
  ultimately show ?thesis using assms
    by (simp add: close_turn_def final_sync_def split: closing.split flush_turn.split option.split)
qed

lemma close_synced_live: "queue_live w \<Longrightarrow> queue_live (close_synced err w)"
  by (erule same_live) (auto simp: close_synced_def release_def syncDone_def syncFailed_def split: closing.split option.split)

lemma poison_live: "queue_live w \<Longrightarrow> queue_live (snd (poisonPending e w))"
  by (erule same_live) (auto simp: poisonPending_def poisonWith_def rejectQueued_def Let_def)

lemma seal_live: "queue_live w \<Longrightarrow> queue_live (wal_seal w)"
  by (erule same_live) (simp_all add: wal_seal_def)

theorem step_queue_live:
  assumes inv: "wal_inv base s" and live: "queue_live (sy_wal s)" and frames: "only_frames (\<lambda>b. b \<noteq> []) base s"
    and st: "wal_step ev s = Some s'"
  shows "queue_live (sy_wal s')"
proof -
  have pois: "wl_poisoned (sy_wal s) = None \<or> wl_queue (sy_wal s) = []" using poisoned_empty [OF inv] by blast
  have q: "\<forall>p \<in> set (wl_queue (sy_wal s)). pw_buf p \<noteq> []" using frames by (simp add: only_frames_def given_frames_def)
  note flush = flushBatch_live [OF live q pois]
  show ?thesis
  proof (cases ev)
    case (Append pid b)
    with append_live [OF live, of pid b] st show ?thesis by (auto split: if_splits append_result.splits prod.splits)
  next
    case (WriteReturns n)
    with st obtain f where "wl_flight (sy_wal s) = Some f" by (auto simp: writing_def split: option.splits)
    then show ?thesis using write_returned_live [OF live _ pois] st WriteReturns by (auto simp: writing_def Let_def split: if_splits)
  next
    case (WriteThrows n e)
    with st obtain f where "wl_flight (sy_wal s) = Some f" by (auto simp: writing_def split: option.splits)
    then show ?thesis using write_threw_live [OF live pois, of e] st WriteThrows by (auto simp: writing_def split: if_splits)
  next
    case (FlushSynced err)
    then show ?thesis using flush_synced_live [OF live pois, of err] st by (auto split: option.splits if_splits)
  next
    case (RecoverInPlace b)
    obtain dis w fd where r: "recoverWalInPlace b (sy_wal s) (sy_file s) = (dis, w, fd)" by (cases "recoverWalInPlace b (sy_wal s) (sy_file s)")
    then show ?thesis using recover_live [OF live r] st RecoverInPlace by (auto split: if_splits)
  next
    case CloseTurn
    then show ?thesis using close_turn_live [OF live flush] st by (auto simp: Let_def)
  next
    case (CloseSynced err)
    then show ?thesis using close_synced_live [OF live] st by (auto split: closing.splits)
  qed (use st flush tick_live [OF live] bg_settled_live [OF live] close_live [OF live] poison_live [OF live] seal_live [OF live]
        in \<open>auto simp: Let_def split: if_splits\<close>)
qed

lemma open_queue_live: "queue_live (sy_wal (open_sys policy stats base))"
  by (simp add: queue_live_def open_sys_def open_wal_def new_tracker_def)

lemma run_queue_live:
  "wal_inv base s \<Longrightarrow> queue_live (sy_wal s) \<Longrightarrow> only_frames (\<lambda>b. b \<noteq> []) base s \<Longrightarrow> wal_run evs s = Some s' \<Longrightarrow>
   list_all (\<lambda>b. b \<noteq> []) (appended evs) \<Longrightarrow> wal_inv base s' \<and> queue_live (sy_wal s') \<and> only_frames (\<lambda>b. b \<noteq> []) base s'"
proof (induction evs arbitrary: s)
  case (Cons ev evs)
  obtain s1 where s1: "wal_step ev s = Some s1" "wal_run evs s1 = Some s'" using Cons.prems(4) by (auto split: option.splits)
  have P: "list_all (\<lambda>b. b \<noteq> []) (appended [ev])" "list_all (\<lambda>b. b \<noteq> []) (appended evs)"
    using Cons.prems(5) by (simp_all add: appended_Cons [of ev evs])
  show ?case
    by (rule Cons.IH [OF wal_step_inv [OF Cons.prems(1) s1(1)] step_queue_live [OF Cons.prems(1-3) s1(1)]
          step_only_frames [OF Cons.prems(1,3) s1(1) P(1)] s1(2) P(2)])
qed simp

section \<open>Served until nothing is left\<close>

definition settled_inv :: "buffer \<Rightarrow> wal_sys \<Rightarrow> bool" where
  "settled_inv base s \<longleftrightarrow> wal_inv base s \<and> queue_live (sy_wal s) \<and> only_frames (\<lambda>b. b \<noteq> []) base s"

lemma settled_step: "settled_inv base s \<Longrightarrow> wal_step ev s = Some s' \<Longrightarrow> appended [ev] = [] \<Longrightarrow> settled_inv base s'"
  unfolding settled_inv_def using wal_step_inv step_queue_live step_only_frames by (metis list.pred_inject(1))

lemma next_appends_nothing: "next_event w = Some ev \<Longrightarrow> appended [ev] = []"
  by (auto simp: next_event_def split: option.splits if_splits)

lemma serve_inv: "settled_inv base s \<Longrightarrow> serve n s = Some s' \<Longrightarrow> settled_inv base s'"
proof (induction n arbitrary: s)
  case (Suc n)
  show ?case
  proof (cases "next_event (sy_wal s)")
    case (Some ev)
    then obtain s1 where "wal_step ev s = Some s1" "serve n s1 = Some s'" using Suc.prems(2) by (auto split: option.splits)
    then show ?thesis using Suc.IH settled_step [OF Suc.prems(1)] next_appends_nothing [OF Some] by blast
  qed (use Suc.prems in simp)
qed simp

lemma serve_add: "serve m s = Some s1 \<Longrightarrow> serve (m + n) s = serve n s1"
proof (induction m arbitrary: s)
  case (Suc m)
  show ?case
  proof (cases "next_event (sy_wal s)")
    case None
    then have "serve n s = Some s" by (cases n) simp_all
    with None Suc.prems show ?thesis by simp
  qed (use Suc in \<open>auto split: option.splits\<close>)
qed simp

lemma serve_next: "next_event (sy_wal s) = Some ev \<Longrightarrow> wal_step ev s = Some s' \<Longrightarrow> serve 1 s = Some s'"
  by simp

lemma advance_all:
  assumes "\<forall>b \<in> set bufs. b \<noteq> []" "bufs \<noteq> [] \<longrightarrow> off < length (hd bufs)" "bufs \<noteq> []"
  shows "fst (advance (length (drop off (concat bufs))) off bufs) = []"
proof -
  obtain bufs' off' where adv: "advance (length (drop off (concat bufs))) off bufs = (bufs', off')" by fastforce
  have "drop off' (concat bufs') = []" "\<forall>b \<in> set bufs'. b \<noteq> []" "bufs' \<noteq> [] \<longrightarrow> off' < length (hd bufs')"
    using advance_drop [OF _ _ _ adv] advance_live [OF adv assms(1,2)] assms(2,3) by auto
  then have "bufs' = []" by (cases bufs') auto
  with adv show ?thesis by simp
qed

lemma flush_done:
  assumes "wl_flight (sy_wal s) = Some f0" "fl_batch f = fl_batch f0"
  shows "sy_acked (acknowledge (finish_flush f None w) s) = sy_acked s @ fl_batch f0"
  using assms by (simp add: finish_fields batch_of_def)

text \<open>The flush in flight ends, its batch acknowledged.\<close>

lemma serve_sync:
  assumes "wl_flight (sy_wal s) = Some f" "fl_wait f = Syncing g"
  shows "\<exists>s'. serve 1 s = Some s' \<and> wl_flight (sy_wal s') = None \<and> sy_acked s' = sy_acked s @ fl_batch f \<and> wl_queue (sy_wal s') = wl_queue (sy_wal s)"
proof -
  have "next_event (sy_wal s) = Some (FlushSynced None)" using assms by (simp add: next_event_def)
  moreover have "wal_step (FlushSynced None) s =
      Some (covered (sy_flight_cov s) None (acknowledge (finish_flush f None (syncDone g (sy_wal s))) s))"
    using assms by (simp add: flush_synced_def)
  ultimately show ?thesis using serve_next flush_done [OF assms(1) refl]
    by (auto simp: finish_fields syncDone_def)
qed

lemma serve_flight:
  assumes "settled_inv base s" "wl_flight (sy_wal s) = Some f"
  shows "\<exists>n \<le> 2. \<exists>s'. serve n s = Some s' \<and> wl_flight (sy_wal s') = None \<and> sy_acked s' = sy_acked s @ fl_batch f \<and> wl_queue (sy_wal s') = wl_queue (sy_wal s)"
proof (cases "fl_wait f")
  case (Syncing g)
  from serve_sync [OF assms(2) this] show ?thesis by (intro exI [of _ 1]) simp
next
  case Writing
  let ?n = "length (to_write f)" and ?w = "sy_wal s"
  have live: "(\<forall>b \<in> set (fl_bufs f). b \<noteq> []) \<and> fl_off f < length (hd (fl_bufs f)) \<and> fl_bufs f \<noteq> []"
    using assms Writing by (auto simp: settled_inv_def queue_live_def flight_live_def)
  then have "?n \<noteq> 0" by (cases "fl_bufs f") (auto simp: to_write_def)
  obtain off where adv: "advance ?n (fl_off f) (fl_bufs f) = ([], off)"
    using advance_all [of "fl_bufs f" "fl_off f"] live by (cases "advance ?n (fl_off f) (fl_bufs f)") (auto simp: to_write_def)
  define w1 where "w1 = ?w\<lparr>wl_size := wl_size ?w + ?n,
     wl_stats := (wl_stats ?w)\<lparr>st_walBytesWritten := st_walBytesWritten (wl_stats ?w) + ?n\<rparr>, wl_writeGen := wl_writeGen ?w + 1\<rparr>"
  define f1 where "f1 = f\<lparr>fl_bufs := [], fl_off := off\<rparr>"
  define s1 where "s1 = s\<lparr>sy_file := sy_file s @ take ?n (to_write f)\<rparr>"
  have s1: "wl_flight (sy_wal s1) = Some f" "sy_acked s1 = sy_acked s" using assms(2) by (simp_all add: s1_def)
  have ret: "write_returned ?n ?w =
      (if wl_policy w1 = Always \<and> sync_issue w1 \<noteq> None then ([], w1\<lparr>wl_flight := Some (f1\<lparr>fl_wait := Syncing (the (sync_issue w1))\<rparr>)\<rparr>)
       else finish_flush f1 None w1)"
    using assms(2) adv \<open>?n \<noteq> 0\<close> unfolding write_returned_def Let_def w1_def f1_def by (auto split: option.split)
  have step: "next_event ?w = Some (WriteReturns ?n)" "wal_step (WriteReturns ?n) s =
      Some ((acknowledge (write_returned ?n ?w) s1)\<lparr>sy_flight_cov := length (sy_file s1)\<rparr>)"
    using assms(2) Writing by (simp_all add: next_event_def writing_def s1_def Let_def)
  show ?thesis
  proof (cases "wl_policy w1 = Always \<and> sync_issue w1 \<noteq> None")
    case False
    then have "write_returned ?n ?w = finish_flush f1 None w1" unfolding ret by (rule if_not_P)
    then have "serve 1 s = Some ((acknowledge (finish_flush f1 None w1) s1)\<lparr>sy_flight_cov := length (sy_file s1)\<rparr>)"
      using serve_next [OF step(1)] step(2) by metis
    moreover have "sy_acked (acknowledge (finish_flush f1 None w1) s1) = sy_acked s @ fl_batch f"
      using flush_done [OF s1(1), of f1 w1] s1(2) by (simp add: f1_def)
    ultimately show ?thesis
      by (intro exI [of _ 1] conjI exI [of _ "(acknowledge (finish_flush f1 None w1) s1)\<lparr>sy_flight_cov := length (sy_file s1)\<rparr>"])
        (simp_all add: finish_fields w1_def)
  next
    case True
    let ?f2 = "f1\<lparr>fl_wait := Syncing (the (sync_issue w1))\<rparr>"
    define s2 where "s2 = (acknowledge ([], w1\<lparr>wl_flight := Some ?f2\<rparr>) s1)\<lparr>sy_flight_cov := length (sy_file s1)\<rparr>"
    have one: "serve 1 s = Some s2" using serve_next [OF step(1)] step(2) True ret unfolding s2_def by metis
    have s2: "wl_flight (sy_wal s2) = Some ?f2" "fl_wait ?f2 = Syncing (the (sync_issue w1))" "sy_acked s2 = sy_acked s"
      "wl_queue (sy_wal s2) = wl_queue ?w" "fl_batch ?f2 = fl_batch f" by (simp_all add: s2_def s1(2) w1_def f1_def)
    from serve_sync [OF s2(1,2)] obtain s' where s': "serve 1 s2 = Some s'" "wl_flight (sy_wal s') = None"
      "sy_acked s' = sy_acked s2 @ fl_batch ?f2" "wl_queue (sy_wal s') = wl_queue (sy_wal s2)" by blast
    have "serve 2 s = Some s'" using serve_add [OF one, of 1] s'(1) by (simp add: numeral_2_eq_2)
    then show ?thesis using s' s2 by (intro exI [of _ 2]) simp
  qed
qed

text \<open>With nothing in flight the queue is taken up.\<close>

lemma flush_taken:
  assumes "wl_flight w = None" "wl_queue w \<noteq> []" "wl_poisoned w = None"
  shows "\<exists>f. wl_flight (flushBatch w) = Some f \<and> fl_batch f = wl_queue w \<and> wl_queue (flushBatch w) = []"
  using assms by (simp add: flushBatch_def Let_def)

lemma serve_queue:
  assumes "settled_inv base s" "wl_flight (sy_wal s) = None" "wl_queue (sy_wal s) \<noteq> []"
  shows "\<exists>n \<le> 3. \<exists>s' f. serve n s = Some s' \<and> wl_flight (sy_wal s') = Some f \<and> fl_batch f = wl_queue (sy_wal s) \<and>
    wl_queue (sy_wal s') = [] \<and> sy_acked s' = sy_acked s"
proof -
  have unp: "wl_poisoned (sy_wal s) = None" using assms(1,3) poisoned_empty unfolding settled_inv_def by blast
  have turn: "\<exists>s' f. serve 1 t = Some s' \<and> wl_flight (sy_wal s') = Some f \<and> fl_batch f = wl_queue (sy_wal t) \<and>
      wl_queue (sy_wal s') = [] \<and> sy_acked s' = sy_acked t"
    if "wl_flight (sy_wal t) = None" "wl_queue (sy_wal t) \<noteq> []" "wl_poisoned (sy_wal t) = None" "wl_closing (sy_wal t) = Flushing"
      "\<not> wl_scheduled (sy_wal t)" for t
    using flush_taken [OF that(1-3)] that by (auto simp: next_event_def close_turn_def flush_turn_def Let_def)
  have drain: "\<exists>s' f. serve 2 t = Some s' \<and> wl_flight (sy_wal s') = Some f \<and> fl_batch f = wl_queue (sy_wal t) \<and>
      wl_queue (sy_wal s') = [] \<and> sy_acked s' = sy_acked t"
    if t: "wl_flight (sy_wal t) = None" "wl_queue (sy_wal t) \<noteq> []" "wl_poisoned (sy_wal t) = None" "wl_closing (sy_wal t) = Draining"
      "\<not> wl_scheduled (sy_wal t)" "wl_bgSync (sy_wal t) = None" "queue_live (sy_wal t)" for t
  proof -
    have "wal_step CloseTurn t = Some (t\<lparr>sy_wal := (sy_wal t)\<lparr>wl_closing := Flushing\<rparr>, sy_close_cov := sy_close_cov t\<rparr>)"
      using t by (simp add: close_turn_def queue_live_def Let_def)
    moreover have "next_event (sy_wal t) = Some CloseTurn" using t by (simp add: next_event_def)
    ultimately obtain c where one: "serve 1 t = Some (t\<lparr>sy_wal := (sy_wal t)\<lparr>wl_closing := Flushing\<rparr>, sy_close_cov := c\<rparr>)"
      using serve_next by blast
    show ?thesis using turn [of "t\<lparr>sy_wal := (sy_wal t)\<lparr>wl_closing := Flushing\<rparr>, sy_close_cov := c\<rparr>"] t serve_add [OF one, of 1]
      by (simp add: numeral_2_eq_2)
  qed
  show ?thesis
  proof (cases "wl_scheduled (sy_wal s)")
    case True
    then show ?thesis using flush_taken [OF assms(2,3) unp] assms(2) by (intro exI [of _ 1]) (auto simp: next_event_def)
  next
    case False
    then have cl: "wl_closing (sy_wal s) = Draining \<or> wl_closing (sy_wal s) = Flushing"
      using assms by (auto simp: settled_inv_def queue_live_def wal_inv_def close_ok_def)
    show ?thesis
    proof (cases "wl_closing (sy_wal s) = Flushing")
      case True
      from turn [OF assms(2,3) unp True False] show ?thesis by (intro exI [of _ 1]) simp
    next
      case nf: False
      then have dr: "wl_closing (sy_wal s) = Draining" using cl by blast
      have live: "queue_live (sy_wal s)" using assms(1) by (simp add: settled_inv_def)
      show ?thesis
      proof (cases "wl_bgSync (sy_wal s)")
        case None
        from drain [OF assms(2,3) unp dr False None live] show ?thesis by (intro exI [of _ 2]) simp
      next
        case (Some g)
        let ?s = "covered (sy_bg_cov s) None (s\<lparr>sy_wal := bg_settled None (sy_wal s)\<rparr>)"
        have one: "serve 1 s = Some ?s" using Some dr False assms(2) by (intro serve_next [of _ "BgSynced None"]) (simp_all add: next_event_def)
        have t: "wl_flight (sy_wal ?s) = None" "wl_queue (sy_wal ?s) = wl_queue (sy_wal s)" "wl_poisoned (sy_wal ?s) = None"
          "wl_closing (sy_wal ?s) = Draining" "\<not> wl_scheduled (sy_wal ?s)" "wl_bgSync (sy_wal ?s) = None" "queue_live (sy_wal ?s)"
          "sy_acked ?s = sy_acked s"
          using Some dr False assms(2) unp bg_settled_live [OF live, of None] by (simp_all add: bg_settled_def syncDone_def Let_def)
        from drain [OF t(1) _ t(3-7)] t(2,8) assms(3) serve_add [OF one, of 2] show ?thesis
          by (intro exI [of _ 3]) (simp add: numeral_3_eq_3 numeral_2_eq_2)
      qed
    qed
  qed
qed

text \<open>
  C28. No append is left unanswered. After any sequence of non-empty appends, failures, recoveries and closings, when the calls
  the log waits for succeed, at most seven of them and of the flushes that are scheduled leave nothing queued and nothing in
  flight, and have acknowledged exactly the batch in flight and then the queue, in order.
\<close>
theorem queued_writes_served:
  assumes "wal_run evs (open_sys policy stats base) = Some s" "list_all (\<lambda>frame. frame \<noteq> []) (appended evs)"
  shows "\<exists>n \<le> 7. \<exists>s'. serve n s = Some s' \<and> wl_queue (sy_wal s') = [] \<and> wl_flight (sy_wal s') = None \<and>
    sy_acked s' = sy_acked s @ batch_of (sy_wal s) @ wl_queue (sy_wal s)"
proof -
  have inv: "settled_inv base s"
    using run_queue_live [OF open_inv open_queue_live open_only_frames assms] by (simp add: settled_inv_def)
  obtain m s1 where s1: "m \<le> 2" "serve m s = Some s1" "wl_flight (sy_wal s1) = None" "sy_acked s1 = sy_acked s @ batch_of (sy_wal s)"
    "wl_queue (sy_wal s1) = wl_queue (sy_wal s)"
  proof (cases "wl_flight (sy_wal s)")
    case None
    then show ?thesis by (intro that [of 0 s]) (simp_all add: batch_of_def)
  next
    case (Some f)
    from serve_flight [OF inv Some] that Some show ?thesis by (auto simp: batch_of_def)
  qed
  have inv1: "settled_inv base s1" by (rule serve_inv [OF inv s1(2)])
  show ?thesis
  proof (cases "wl_queue (sy_wal s1) = []")
    case True
    then show ?thesis using s1 by (intro exI [of _ m]) simp
  next
    case False
    obtain k s2 f where s2: "k \<le> 3" "serve k s1 = Some s2" "wl_flight (sy_wal s2) = Some f" "fl_batch f = wl_queue (sy_wal s1)"
      "wl_queue (sy_wal s2) = []" "sy_acked s2 = sy_acked s1" using serve_queue [OF inv1 s1(3) False] by blast
    obtain j s3 where s3: "j \<le> 2" "serve j s2 = Some s3" "wl_flight (sy_wal s3) = None" "sy_acked s3 = sy_acked s2 @ fl_batch f"
      "wl_queue (sy_wal s3) = wl_queue (sy_wal s2)" using serve_flight [OF serve_inv [OF inv1 s2(2)] s2(3)] by blast
    have "serve (m + (k + j)) s = Some s3" using serve_add [OF s1(2), of "k + j"] serve_add [OF s2(2), of j] s3(2) by simp
    then show ?thesis using s1 s2 s3 by (intro exI [of _ "m + (k + j)"]) simp
  qed
qed

text \<open>A batch half written, one frame queued behind it, and a close under way.\<close>

lemma queued_writes_served_witness:
  "\<exists>s n s'. wal_run [Append 1 [10, 11], FlushDue, WriteReturns 1, Append 2 [20], CloseWal] (open_sys Always no_stats []) = Some s \<and>
    sy_acked s = [] \<and> n \<le> 7 \<and> serve n s = Some s' \<and> wl_queue (sy_wal s') = [] \<and> map pw_id (sy_acked s') = [1, 2]"
proof -
  let ?evs = "[Append 1 [10, 11], FlushDue, WriteReturns 1, Append 2 [20], CloseWal]"
  let ?r = "wal_run ?evs (open_sys Always no_stats [])"
  have r: "?r \<noteq> None" "sy_acked (the ?r) = []" "map pw_id (batch_of (sy_wal (the ?r)) @ wl_queue (sy_wal (the ?r))) = [1, 2]"
    by code_simp+
  then obtain s where s: "?r = Some s" by blast
  have "list_all (\<lambda>frame. frame \<noteq> []) (appended ?evs)" by simp
  from queued_writes_served [OF s this] show ?thesis using r s by (metis append_Nil option.sel)
qed

end
