(* ===== verification/Spec2Isabelle.thy ===== *)
theory Spec2Isabelle
  imports Undo Projector_Proofs Swarm_Proofs Jitter Dedupe_Proofs Scheduler_Proofs SkipList_Bulk Approval_Proofs ToolPolicy
    CodecScan_Gap Store_Load Recovery_Follow Wal_Crash Wal_Service
begin

text \<open>
  A verification development for the agent core of the repository
  (\<^verbatim>\<open>src/packages/agent-core/src/\<close>, written \<open>A/\<close> below) and for the embedded database its sessions are kept in
  (\<^verbatim>\<open>src/packages/minidb/src/\<close>, written \<open>M/\<close>).

  \<^bold>\<open>The program.\<close> An agent keeps a history of messages, sends a projection of it to a model provider, folds
  what the provider streams back into the history, executes the tool calls of each step, and compacts
  the history when it outgrows the model's window. A user may undo turns; a swarm runs many agents under
  a provider's rate limit; scheduled tasks fire by cron expressions. Before a tool call runs, the tool policy says
  whether the tool exists for this agent, the path policy whether its paths are allowed, and the permission gate
  whether it runs, is refused, or is put to the user. Sessions are indexed in an embedded key-value database: an
  append-only log, written in groups, and a snapshot of checksummed frames, replayed at opening into a store with expiry times,
  whose keys are ordered by a skip list.

  \<^bold>\<open>Theories and sources.\<close>

    \<^item> \<open>Prelude\<close>: strings as sequences of code units, insertion-ordered maps and sets, JSON values and their
      printing, computations that may throw, and the list lemmas shared by the components. The interface
      \<open>insertion_map\<close> states the laws of a JavaScript \<open>Map\<close>; it is interpreted on the model's maps.
    \<^item> \<open>Messages\<close>: \<^verbatim>\<open>A/kosong/contract/message.ts\<close> and \<^verbatim>\<open>tokens.ts\<close>, the context message of
      \<^verbatim>\<open>A/agent/contextMemory/types.ts\<close>, the rendering of tool results.
    \<^item> \<open>Projector\<close>, \<open>Projector_Proofs\<close>: \<^verbatim>\<open>A/agent/contextProjector/contextProjectorService.ts\<close>, from the history to
      the messages on the wire. A tool call waits in an open slot until its result comes; displaced,
      duplicate, missing and orphaned results are repaired and reported.
    \<^item> \<open>Compaction\<close>: \<^verbatim>\<open>A/agent/contextMemory/compactionHandoff.ts\<close>, what of the user's text survives a compaction. The
      interface \<open>message_estimate\<close> holds what the selection needs of a token estimate; it is interpreted on
      the code's heuristics.
    \<^item> \<open>ContextMemory\<close>, \<open>ContextMemory_Proofs\<close>: \<^verbatim>\<open>loopEventFold.ts\<close>, \<^verbatim>\<open>contextOps.ts\<close> and \<^verbatim>\<open>conversationTime.ts\<close> of the same
      directory: the fold of loop events into the history, undo cuts and checkpoints.
    \<^item> \<open>Undo\<close>: \<^verbatim>\<open>A/agent/tokenCounting/\<close>, \<^verbatim>\<open>contextMemoryService.ts\<close> and \<^verbatim>\<open>A/agent/undo/undoService.ts\<close>.
    \<^item> \<open>Swarm\<close>, \<open>Swarm_Proofs\<close>: \<^verbatim>\<open>A/session/swarm/agentRunBatch.ts\<close>, the scheduler of a batch of agent runs.
    \<^item> \<open>Civil\<close>, \<open>Cron\<close>, \<open>Cron_Proofs\<close>, \<open>Jitter\<close>: \<^verbatim>\<open>A/app/cron/cron-expr.ts\<close> and \<^verbatim>\<open>jitter.ts\<close> over the local calendar of
      the JavaScript \<open>Date\<close>, in a time zone whose offset may change (\<open>zone\<close>).
    \<^item> \<open>Dedupe\<close>, \<open>Dedupe_Proofs\<close>: \<^verbatim>\<open>A/agent/toolDedupe/toolDedupeService.ts\<close>, repeated tool calls.
    \<^item> \<open>Scheduler\<close>, \<open>Scheduler_Proofs\<close>: the accesses of \<^verbatim>\<open>A/tool/toolContract.ts\<close> and
      \<^verbatim>\<open>A/agent/toolExecutor/toolScheduler.ts\<close>, which tool calls of a step may overlap.
    \<^item> \<open>SkipList\<close>, \<open>SkipList_Links\<close>, \<open>SkipList_Proofs\<close>, \<open>SkipList_Refine\<close>, \<open>SkipList_Bulk\<close>: \<^verbatim>\<open>M/skiplist.ts\<close>,
      the ordered index of the embedded database. The nodes are a store from addresses to records with the
      code's forward pointers and spans. The interfaces \<open>comparator\<close> and \<open>entry_order\<close> hold what the list needs of
      its comparison; they are interpreted on the comparisons of numbers and strings that the code exports.
    \<^item> \<open>Paths\<close>, \<open>Paths_Proofs\<close>: \<^verbatim>\<open>A/tool/path-access.ts\<close> and \<^verbatim>\<open>A/tool/rule-match.ts\<close>, the lexical policy for paths and the
      matching of rule subjects.
    \<^item> \<open>Permissions\<close>, \<open>Permissions_Proofs\<close>, \<open>Gate_Proofs\<close>, \<open>Approval_Proofs\<close>: the policies of \<^verbatim>\<open>A/agent/permissionPolicy/\<close>,
      the rules and the mode (\<^verbatim>\<open>permissionRules/\<close>, \<^verbatim>\<open>permissionMode/\<close>), the approval round trip
      (\<^verbatim>\<open>toolApproval/\<close>), the gate (\<^verbatim>\<open>permissionGate/\<close>) and the veto event it listens to
      (\<^verbatim>\<open>toolExecutor/beforeToolExecuteEvent.ts\<close>).
    \<^item> \<open>ToolPolicy\<close>: \<^verbatim>\<open>A/agent/toolPolicy/\<close>, which tools are active.
    \<^item> \<open>Bytes\<close>, \<open>Crc\<close>, \<open>Codec\<close>, \<open>CodecScan\<close>: buffers, \<^verbatim>\<open>M/crc32.ts\<close> and \<^verbatim>\<open>M/codec.ts\<close>: frames, batch bodies, the streaming
      parser, the parse of a buffer (\<open>parseBuffer\<close>) and the two scans of a file. \<open>Codec_Proofs\<close> has the round trips,
      \<open>CodecScan_Proofs\<close> the agreement of the scans, \<open>FrameLog\<close> logs that a crash has cut, \<open>CodecScan_Gap\<close> what the
      scans do on files that are not such logs.
    \<^item> \<open>MinHeap\<close>, \<open>Store\<close>: \<^verbatim>\<open>M/store.ts\<close>, the map, the ordered keys, the heap of expiry times, the counters. \<open>Store_Proofs\<close> and
      \<open>Store_Expiry\<close> keep them in agreement, \<open>Store_Refine\<close> has the abstract table and the refinement,
      \<open>Store_Load\<close> the bulk load. The interface \<open>key_index\<close> holds what the store needs of its ordered index; it is
      interpreted on the skip list.
    \<^item> \<open>Recovery\<close>, \<open>Recovery_Proofs\<close>, \<open>Recovery_Open\<close>, \<open>Recovery_Follow\<close>: \<^verbatim>\<open>M/recovery.ts\<close>, replay, retries and the catch-up of a
      replica, over the scans and the store.
    \<^item> \<open>OpTracker\<close>, \<open>Wal\<close>: \<^verbatim>\<open>M/op-tracker.ts\<close>, \<^verbatim>\<open>M/wal.ts\<close> and \<open>recoverWalInPlace\<close> of \<^verbatim>\<open>M/mini-db.ts\<close>, the appender of the log.
      A handler is a stretch of code between two suspensions; \<open>wal_step\<close> puts the handlers, the file and its fsyncs into one
      system, \<open>wal_reach\<close> and \<open>wal_run\<close> are its reachable states and its runs. \<open>Wal_Proofs\<close> has the invariant of the file,
      \<open>Wal_Durable\<close> what the fsyncs cover, \<open>Wal_Frames\<close> what an interrupted flush can leave, \<open>Wal_Service\<close> that nothing
      queued is forgotten, \<open>Wal_Crash\<close> the composition with recovery.

  \<^bold>\<open>How the model corresponds to the code.\<close> Interfaces and classes are records with the code's fields,
  tagged unions are datatypes, one definition per function or handler, under the code's name where
  Isabelle allows it. A handler takes the state and returns it updated; exceptions are the left summand of a
  sum, \<open>undefined\<close> is \<^term>\<open>None\<close>. A callback of the runtime (a timer, a settled promise, an abort signal)
  is an event, and a component that lives across events is an \<open>inductive\<close> reachability predicate over its
  handlers. Loops over arrays are structural recursion or folds; the loops that are not, have measures.

  \<^bold>\<open>What the theorems show.\<close>

    \<^item> The projection never fails and always yields exchanges a provider accepts: every call is followed at
      once by exactly one result; the strict variant also has unique call ids, no two assistant messages in
      a row and starts with the user. The media degradation and stripping keep what they promise.
    \<^item> The fold keeps histories in which, after a step ends, every call is answered, provided that no message is appended between
      the begin of a step and its first call (\<open>record_ok\<close>, and the run \<open>interrupted_step\<close> without it); appended messages are
      conserved; a failed attempt leaves no trace; undo is the inverse of the turns it removes, on the
      history and on every checkpointed model, and the checks before it are exact.
    \<^item> A compaction stays within its token budget, keeps a prefix and a suffix of the user's text, and its
      record replays to the same history.
    \<^item> The token ledger's anchors stay ordered, and truncation restores the last measurement.
    \<^item> The swarm resolves with one result per task, never wedges, launches each task afresh at most once, and
      is inert once settled.
    \<^item> Parsing a cron expression inverts printing over the whole grammar; the search for the next run returns
      the first fire time of a reference set and nothing only if that set is empty, while the clock is not set; jitter is bounded.
    \<^item> Reminders and forced stops count runs of equal calls over the turn; duplicates share one result and no
      promise is left hanging.
    \<^item> Accesses conflict exactly if one writes what the other reaches; conflicting tool calls never overlap and
      run in order, every queued call waits for a running one, and a throwing start makes the queue walk diverge.
    \<^item> Every operation of the skip list is the operation on the sorted list of its entries, whatever levels are
      drawn: the spans always count the entries they skip, so ranks are positions and a range is a slice of the
      sorted list; a bulk load is the insertion of its entries in order.
    \<^item> An accepted path is absolute, normal and no secret, lies outside the workspace only on an absolute request, and
      is accepted again; containment of paths is prefix of their components.
    \<^item> Whether a call is refused, runs or is asked is an exact table over the rules, the mode and the accesses; a deny
      rule of the user is final in every mode; a call another listener decides is never asked; an approval for the
      session is remembered by the calls that offer a test, as their recorded pattern is read back as the call; rules are monotone.
    \<^item> A tool is active exactly if no layer disallows it and every allowlist that constrains lists it; the entries
      reported as dead change no registered tool.
    \<^item> A frame or a batch that is encoded is read back, inside any buffer; the encoder fails exactly on what the
      format cannot hold, with the error of its first check that fails; the checksum is the bitwise CRC-32 and sees any damage within four consecutive bytes.
      The parser's frames do not depend on how its input is cut into chunks. The scan with positioned reads is the
      parse of the buffer, and the windowed scan agrees with it on every file when it stops at the first damage, and within one
      window when it resynchronises.
    \<^item> The store's map, index, heap and counters always agree; its answers are those of a table that hides what has
      lapsed, as far as \<open>fits\<close> says where removal shows (deleting a lapsed record, pages); reaping through the heap is the full scan; a load interrupted by timers leaves the image.
    \<^item> Opening a database after a crash at any byte of the log recovers exactly the writes that are whole, on top of the
      snapshot, and continues where they end; recovery ends in the store of one consistent pass or in an empty one;
      a replica gets every write once and in order.
    \<^item> The log's file is always what it held at the opening followed by the acknowledged frames and at most a part of one
      flush; a failed flush is cut back to exactly that; a clean log is synced to its last acknowledged byte, and under the policy
      \<open>always\<close> every acknowledged write is unless a poisoning came during a flush; whatever is queued is acknowledged within seven steps that go well. So a database
      reopened after a crash holds every acknowledged write that the fsyncs cover.

  \<^bold>\<open>Bounds.\<close> Strings have code units below 256. The exactness of the cron search is stated for
  stretches in which the offset of the zone stays the same; where it changes the search can go back (\<open>next_run_in_the_past\<close>). The iteration cap of
  the cron search is the code's (ten million); the theorem shows it is never the reason to stop within the
  window. The resynchronisation budget, the chunks and the windows of the scans are the code's constants. Every loop over
  a file or a heap has a measure; the store's operations are partial because the walks of the skip list are, and
  the refinement shows that they return. Expiry times are read back as the nearest double. Token counts and times are integers; the jitter's products are exact rationals where the code
  rounds to doubles. The hash of a task id is computed in 32-bit words.

  \<^bold>\<open>Parameters.\<close> The compaction prompt (a Markdown file), \<open>sha256\<close>, \<open>JSON.parse\<close>, the back-off of the package
  \<open>retry\<close> and the level drawn for each node of the skip list are arguments of the definitions that use them, as are the
  packages \<open>pathe\<close> and \<open>picomatch\<close>, \<open>relative\<close> of \<open>node:path\<close>, the work tree found around a directory, the approval broker, the
  platform's policy service, the clock, the time zone, the store's value reader, and what the file system answers; a crash is taken to leave
  a file cut at or after its last fsync. The em dash
  of the guidance for workers is written as a hyphen.

  \<^bold>\<open>Not modelled.\<close> The asynchronous storage behind the history (blob offloading, flushes, session metadata),
  telemetry payloads beyond the counted events, the service container that wires the components, and the
  parts of the repository outside the agent core: terminal and web applications, provider clients, servers,
  the rest of the embedded database (the rollback of write groups, secondary and text indexes, compaction, index generations,
  cluster and server), and the commercial and legacy packages. Of the store, the prefix scan is left out: its upper
  bound is a code unit outside the keys of the model.
\<close>

end
